(* ===== verification/Prelude.thy ===== *)
theory Prelude
  imports Main "HOL-Library.AList" "HOL-Library.Multiset" "HOL-Library.Product_Lexorder"
begin

text \<open>
  Shared vocabulary of the development: Python exceptions as values, programs that thread a
  mutable object and may raise (the mutation made before a raise is kept, as in Python),
  insertion-ordered dictionaries as association lists, and the generic list and dictionary
  lemmas the components use.
\<close>

section \<open>Python exceptions and programs over a mutable object\<close>

text \<open>
  The exception classes the sources raise (\<open>BudgetExhausted\<close> is the shrinker's own class).  Messages are not modelled: no code under
  verification inspects them.
\<close>

datatype py_error =
    ValueError | TypeError | KeyError | IndexError | RuntimeError | AssertionError | OverflowError
  | ZeroDivisionError | StopIteration | BudgetExhausted | NativeProtocolError

type_synonym 'a result = "py_error + 'a"

text \<open>
  A method of an object of type \<open>'s\<close>: it returns or raises, and in both cases leaves the object
  in some state.
\<close>

type_synonym ('s, 'a) prog = "'s \<Rightarrow> 'a result \<times> 's"

definition ret :: "'a \<Rightarrow> ('s, 'a) prog" where
  "ret x = (\<lambda>s. (Inr x, s))"

definition raise :: "py_error \<Rightarrow> ('s, 'a) prog" where
  "raise e = (\<lambda>s. (Inl e, s))"

definition bindP :: "('s, 'a) prog \<Rightarrow> ('a \<Rightarrow> ('s, 'b) prog) \<Rightarrow> ('s, 'b) prog" where
  "bindP m f = (\<lambda>s. case m s of (Inl e, s') \<Rightarrow> (Inl e, s') | (Inr a, s') \<Rightarrow> f a s')"

definition seqP :: "('s, 'a) prog \<Rightarrow> ('s, 'b) prog \<Rightarrow> ('s, 'b) prog" where
  "seqP m n = bindP m (\<lambda>_. n)"

definition getsP :: "('s \<Rightarrow> 'a) \<Rightarrow> ('s, 'a) prog" where
  "getsP f = (\<lambda>s. (Inr (f s), s))"

definition modifyP :: "('s \<Rightarrow> 's) \<Rightarrow> ('s, unit) prog" where
  "modifyP f = (\<lambda>s. (Inr (), f s))"

definition liftP :: "'a result \<Rightarrow> ('s, 'a) prog" where
  "liftP r = (\<lambda>s. (r, s))"

definition bindR :: "'a result \<Rightarrow> ('a \<Rightarrow> 'b result) \<Rightarrow> 'b result" where
  "bindR m f = (case m of Inl e \<Rightarrow> Inl e | Inr a \<Rightarrow> f a)"

definition guardR :: "bool \<Rightarrow> py_error \<Rightarrow> unit result" where
  "guardR b e = (if b then Inr () else Inl e)"

named_theorems prog_simps \<open>unfolding rules of the program combinators\<close>

lemmas [prog_simps] =
  ret_def raise_def bindP_def seqP_def getsP_def modifyP_def liftP_def

lemma bindR_simps [simp]:
  "bindR (Inl e) f = Inl e"
  "bindR (Inr a) f = f a"
  by (simp_all add: bindR_def)

lemma bindR_Inr_iff: "bindR m f = Inr b \<longleftrightarrow> (\<exists>a. m = Inr a \<and> f a = Inr b)"
  by (cases m) auto

lemma guardR_Inr_iff [simp]: "guardR b e = Inr u \<longleftrightarrow> b"
  by (auto simp: guardR_def)

text \<open>A returning program step is the hypothesis every sequential proof consumes.\<close>

lemma bindP_returns: "m s = (Inr a, s') \<Longrightarrow> bindP m f s = f a s'"
  by (simp add: bindP_def)

lemma bindP_raises: "m s = (Inl e, s') \<Longrightarrow> bindP m f s = (Inl e, s')"
  by (simp add: bindP_def)

lemma seqP_returns: "m s = (Inr a, s') \<Longrightarrow> seqP m n s = n s'"
  by (simp add: seqP_def bindP_def)

lemma seqP_if_returns:
  "m s = (Inr (), s') \<Longrightarrow> seqP (if b then m else ret ()) n s = n (if b then s' else s)"
  by (simp add: seqP_def bindP_def ret_def)

lemma ret_app [simp]: "ret x s = (Inr x, s)"
  by (simp add: ret_def)

lemma raise_app [simp]: "raise e s = (Inl e, s)"
  by (simp add: raise_def)

lemma liftP_app [simp]: "liftP r s = (r, s)"
  by (simp add: liftP_def)

lemma getsP_bind [simp]: "bindP (getsP f) g s = g (f s) s"
  by (simp add: bindP_def getsP_def)

lemma liftP_bind_Inr [simp]: "bindP (liftP (Inr x)) g s = g x s"
  by (simp add: bindP_def)

lemma modifyP_seq [simp]: "seqP (modifyP f) g s = g (f s)"
  by (simp add: seqP_def bindP_def modifyP_def)

text \<open>
  \<open>try: m except BaseException: f; raise\<close>: a raise is passed on after the handler's mutation.
\<close>

definition on_raise :: "('s \<Rightarrow> 's) \<Rightarrow> ('s, 'a) prog \<Rightarrow> ('s, 'a) prog" where
  "on_raise f m = (\<lambda>s. case m s of (Inl e, s') \<Rightarrow> (Inl e, f s') | (Inr a, s') \<Rightarrow> (Inr a, s'))"

text \<open>A list comprehension whose element expression may raise.\<close>

fun mapR :: "('a \<Rightarrow> 'b result) \<Rightarrow> 'a list \<Rightarrow> 'b list result" where
  "mapR f [] = Inr []"
| "mapR f (x # xs) = bindR (f x) (\<lambda>y. bindR (mapR f xs) (\<lambda>ys. Inr (y # ys)))"

lemma mapR_Inr: "(\<forall>x \<in> set xs. f x = Inr (g x)) \<Longrightarrow> mapR f xs = Inr (map g xs)"
  by (induction xs) auto

lemma on_raise_returns [simp]: "m s = (Inr a, s') \<Longrightarrow> on_raise f m s = (Inr a, s')"
  by (simp add: on_raise_def)

section \<open>Dictionaries\<close>

text \<open>
  A Python \<open>dict\<close> keeps insertion order, overwriting in place; \<open>AList.update\<close> does the same.
\<close>

type_synonym ('k, 'v) dict = "('k \<times> 'v) list"

definition dict_getitem :: "('k, 'v) dict \<Rightarrow> 'k \<Rightarrow> 'v result" where
  "dict_getitem d k = (case map_of d k of None \<Rightarrow> Inl KeyError | Some v \<Rightarrow> Inr v)"

definition dict_setitem :: "'k \<Rightarrow> 'v \<Rightarrow> ('k, 'v) dict \<Rightarrow> ('k, 'v) dict" where
  "dict_setitem k v d = AList.update k v d"

definition dict_delitem :: "'k \<Rightarrow> ('k, 'v) dict \<Rightarrow> ('k, 'v) dict result" where
  "dict_delitem k d = (if map_of d k = None then Inl KeyError else Inr (AList.delete k d))"

definition dict_get_default :: "('k, 'v) dict \<Rightarrow> 'k \<Rightarrow> 'v \<Rightarrow> 'v" where
  "dict_get_default d k v = (case map_of d k of None \<Rightarrow> v | Some w \<Rightarrow> w)"

abbreviation dict_ok :: "('k, 'v) dict \<Rightarrow> bool" where
  "dict_ok d \<equiv> distinct (map fst d)"

lemma map_of_dict_setitem [simp]: "map_of (dict_setitem k v d) = (map_of d)(k \<mapsto> v)"
  by (simp add: dict_setitem_def update_conv')

lemma dict_ok_setitem [simp]: "dict_ok d \<Longrightarrow> dict_ok (dict_setitem k v d)"
  by (simp add: dict_setitem_def distinct_update)

lemma map_of_alist_delete [simp]: "map_of (AList.delete k d) = (map_of d)(k := None)"
  by (simp add: delete_conv')

lemma dict_ok_delete [simp]: "dict_ok d \<Longrightarrow> dict_ok (AList.delete k d)"
  by (simp add: distinct_delete)

lemma dict_delitem_present: "map_of d k \<noteq> None \<Longrightarrow> dict_delitem k d = Inr (AList.delete k d)"
  by (simp add: dict_delitem_def)

lemma dict_getitem_present: "map_of d k = Some v \<Longrightarrow> dict_getitem d k = Inr v"
  by (simp add: dict_getitem_def)

lemma set_keys_dom: "set (map fst d) = dom (map_of d)"
  by (simp add: dom_map_of_conv_image_fst)

lemma map_of_in_dict: "dict_ok d \<Longrightarrow> (k, v) \<in> set d \<longleftrightarrow> map_of d k = Some v"
  by (metis map_of_SomeD map_of_eq_Some_iff)

lemma length_dict_card: "dict_ok d \<Longrightarrow> length d = card (dom (map_of d))"
  by (metis distinct_card length_map set_keys_dom)

lemma length_delete_present:
  assumes "dict_ok d" and "map_of d k \<noteq> None"
  shows "length (AList.delete k d) = length d - 1" and "0 < length d"
proof -
  have fin: "finite (dom (map_of d))" by (rule finite_dom_map_of)
  have "card (dom (map_of (AList.delete k d))) = card (dom (map_of d) - {k})"
    by simp
  also have "\<dots> = card (dom (map_of d)) - 1"
    using assms(2) fin by (auto simp: card_Diff_singleton_if)
  finally show "length (AList.delete k d) = length d - 1"
    using assms(1) by (metis dict_ok_delete length_dict_card)
  show "0 < length d" using assms(2) by (cases d) auto
qed

lemma length_setitem_present:
  "map_of d k \<noteq> None \<Longrightarrow> length (dict_setitem k v d) = length d"
  by (induction d) (auto simp: dict_setitem_def split: if_splits)

lemma length_setitem_fresh:
  assumes "map_of d k = None"
  shows "length (dict_setitem k v d) = Suc (length d)"
  using assms by (induction d) (auto simp: dict_setitem_def split: if_splits)

section \<open>Lists\<close>

lemma sorted_wrt_less_distinct: "sorted_wrt (<) (xs :: 'a :: linorder list) \<Longrightarrow> distinct xs"
  by (simp add: strict_sorted_iff)

lemma sort_key_unique:
  assumes "set xs = set ys" and "sorted (map f xs)" and "distinct xs" and "distinct ys"
    and "inj_on f (set ys)"
  shows "xs = sort_key f ys"
proof (rule map_sorted_distinct_set_unique [of f])
  show "inj_on f (set xs \<union> set (sort_key f ys))"
    using assms(1,5) by simp
  show "distinct (map f xs)" and "distinct (map f (sort_key f ys))"
    using assms by (simp_all add: distinct_map)
qed (use assms in simp_all)

section \<open>Transition systems\<close>

inductive reachable_from :: "('s \<Rightarrow> bool) \<Rightarrow> ('s \<Rightarrow> 's \<Rightarrow> bool) \<Rightarrow> 's \<Rightarrow> bool"
  for init :: "'s \<Rightarrow> bool" and step :: "'s \<Rightarrow> 's \<Rightarrow> bool" where
  reach_init: "init s \<Longrightarrow> reachable_from init step s"
| reach_step: "reachable_from init step s \<Longrightarrow> step s s' \<Longrightarrow> reachable_from init step s'"

locale invariant_system =
  fixes init :: "'s \<Rightarrow> bool" and step :: "'s \<Rightarrow> 's \<Rightarrow> bool" and inv :: "'s \<Rightarrow> bool"
  assumes init_inv: "init s \<Longrightarrow> inv s"
    and step_inv: "inv s \<Longrightarrow> step s s' \<Longrightarrow> inv s'"
begin

lemma reachable_inv: "reachable_from init step s \<Longrightarrow> inv s"
  by (induction rule: reachable_from.induct) (auto intro: init_inv step_inv)

text \<open>A state reached from an invariant state by a sequence of steps satisfies the invariant.\<close>

lemma steps_inv: "inv s \<Longrightarrow> step\<^sup>*\<^sup>* s s' \<Longrightarrow> inv s'"
  by (rotate_tac, induction rule: rtranclp_induct) (auto intro: step_inv)

end

end
