(* ===== verification/Domain.thy ===== *)
theory Domain
  imports Prelude
begin

text \<open>
  The value-only domain model of \<open>python/src/atlaslob/domain.py\<close>: enumerations with their wire
  values, configurations with their construction checks, commands, events, event batches and
  snapshots.  Every number is an unbounded \<open>int\<close>, as in Python; the fixed-width ranges are the
  explicit checks of the source.  Python's dynamic checks that a value is an \<open>int\<close> and not a
  \<open>bool\<close> are discharged by the HOL types.
\<close>

section \<open>Constants\<close>

definition ATLASLOB_SEMANTICS_VERSION :: int where "ATLASLOB_SEMANTICS_VERSION = 6"
definition U8_MAX :: int where "U8_MAX = 2 ^ 8 - 1"
definition U16_MAX :: int where "U16_MAX = 2 ^ 16 - 1"
definition U32_MAX :: int where "U32_MAX = 2 ^ 32 - 1"
definition U64_MAX :: int where "U64_MAX = 2 ^ 64 - 1"
definition I64_MIN :: int where "I64_MIN = - (2 ^ 63)"
definition I64_MAX :: int where "I64_MAX = 2 ^ 63 - 1"

lemmas width_defs = U8_MAX_def U16_MAX_def U32_MAX_def U64_MAX_def I64_MIN_def I64_MAX_def

section \<open>Enumerations\<close>

datatype side = BUY | SELL

datatype order_type = LIMIT | MARKET

datatype time_in_force = GTC | IOC | FOK

datatype command_type = NEW | CANCEL | REPLACE

datatype event_type =
  ACCEPTED | REJECTED | TRADE | RESTED | CANCELED | REPLACED | DONE | BOOK_CHANGED

datatype done_reason =
  FILLED | IOC_RESIDUAL_CANCELED | MARKET_EXHAUSTED | DONE_CANCELED | DONE_REPLACED
| FOK_UNAVAILABLE

datatype reject_reason =
  NONE | INVALID_ORDER_ID | INVALID_INSTRUMENT_ID | INVALID_QUANTITY | INVALID_SIDE
| INVALID_ORDER_TYPE | INVALID_TIME_IN_FORCE | MISSING_LIMIT_PRICE | UNEXPECTED_LIMIT_PRICE
| INVALID_PRICE | INVALID_ORDER_TYPE_TIME_IN_FORCE | UNSUPPORTED_TIME_IN_FORCE
| INVALID_CLIENT_ID | UNKNOWN_INSTRUMENT | QUANTITY_OUT_OF_RANGE | INVALID_TICK
| DUPLICATE_ORDER_ID | UNKNOWN_ORDER_ID | INVALID_REPLACEMENT_ID | OWNERSHIP_MISMATCH
| INSTRUMENT_MISMATCH | CAPACITY_EXCEEDED

datatype engine_error = SEQUENCE_EXHAUSTED | INTERNAL_FAILURE

text \<open>The \<open>IntEnum\<close> values.\<close>

fun side_value :: "side \<Rightarrow> int" where
  "side_value BUY = 1"
| "side_value SELL = 2"

fun order_type_value :: "order_type \<Rightarrow> int" where
  "order_type_value LIMIT = 1"
| "order_type_value MARKET = 2"

fun time_in_force_value :: "time_in_force \<Rightarrow> int" where
  "time_in_force_value GTC = 1"
| "time_in_force_value IOC = 2"
| "time_in_force_value FOK = 3"

fun command_type_value :: "command_type \<Rightarrow> int" where
  "command_type_value NEW = 1"
| "command_type_value CANCEL = 2"
| "command_type_value REPLACE = 3"

fun event_type_value :: "event_type \<Rightarrow> int" where
  "event_type_value ACCEPTED = 1"
| "event_type_value REJECTED = 2"
| "event_type_value TRADE = 3"
| "event_type_value RESTED = 4"
| "event_type_value CANCELED = 5"
| "event_type_value REPLACED = 6"
| "event_type_value DONE = 7"
| "event_type_value BOOK_CHANGED = 8"

fun done_reason_value :: "done_reason \<Rightarrow> int" where
  "done_reason_value FILLED = 1"
| "done_reason_value IOC_RESIDUAL_CANCELED = 2"
| "done_reason_value MARKET_EXHAUSTED = 3"
| "done_reason_value DONE_CANCELED = 4"
| "done_reason_value DONE_REPLACED = 5"
| "done_reason_value FOK_UNAVAILABLE = 6"

fun reject_reason_value :: "reject_reason \<Rightarrow> int" where
  "reject_reason_value NONE = 0"
| "reject_reason_value INVALID_ORDER_ID = 1"
| "reject_reason_value INVALID_INSTRUMENT_ID = 2"
| "reject_reason_value INVALID_QUANTITY = 3"
| "reject_reason_value INVALID_SIDE = 4"
| "reject_reason_value INVALID_ORDER_TYPE = 5"
| "reject_reason_value INVALID_TIME_IN_FORCE = 6"
| "reject_reason_value MISSING_LIMIT_PRICE = 7"
| "reject_reason_value UNEXPECTED_LIMIT_PRICE = 8"
| "reject_reason_value INVALID_PRICE = 9"
| "reject_reason_value INVALID_ORDER_TYPE_TIME_IN_FORCE = 10"
| "reject_reason_value UNSUPPORTED_TIME_IN_FORCE = 11"
| "reject_reason_value INVALID_CLIENT_ID = 12"
| "reject_reason_value UNKNOWN_INSTRUMENT = 13"
| "reject_reason_value QUANTITY_OUT_OF_RANGE = 14"
| "reject_reason_value INVALID_TICK = 15"
| "reject_reason_value DUPLICATE_ORDER_ID = 16"
| "reject_reason_value UNKNOWN_ORDER_ID = 17"
| "reject_reason_value INVALID_REPLACEMENT_ID = 18"
| "reject_reason_value OWNERSHIP_MISMATCH = 19"
| "reject_reason_value INSTRUMENT_MISMATCH = 20"
| "reject_reason_value CAPACITY_EXCEEDED = 21"

text \<open>\<open>Side(value)\<close>: the enum constructor raises \<open>ValueError\<close> on an unknown value.\<close>

definition Side :: "int \<Rightarrow> side result" where
  "Side v = (if v = side_value BUY then Inr BUY
             else if v = side_value SELL then Inr SELL
             else Inl ValueError)"

lemma Side_side_value [simp]: "Side (side_value sd) = Inr sd"
  by (cases sd) (simp_all add: Side_def)

lemma Side_Inr_iff: "Side v = Inr sd \<longleftrightarrow> v = side_value sd"
  by (cases sd) (auto simp: Side_def)

section \<open>Configuration\<close>

record matching_config =
  max_order_quantity :: int
  tick_increment :: int
  max_active_orders :: int

definition require_u64 :: "int \<Rightarrow> bool \<Rightarrow> unit result" where
  "require_u64 v nonzero =
     (if \<not> (0 \<le> v \<and> v \<le> U64_MAX) \<or> (nonzero \<and> v = 0) then Inl ValueError else Inr ())"

definition require_i64 :: "int \<Rightarrow> unit result" where
  "require_i64 v = (if \<not> (I64_MIN \<le> v \<and> v \<le> I64_MAX) then Inl ValueError else Inr ())"

definition MatchingConfig :: "int \<Rightarrow> int \<Rightarrow> int \<Rightarrow> matching_config result" where
  "MatchingConfig mq tick mao =
     bindR (require_u64 mq True) (\<lambda>_.
     bindR (require_i64 tick) (\<lambda>_.
     if tick \<le> 0 then Inl ValueError
     else bindR (require_u64 mao False) (\<lambda>_.
       Inr \<lparr>max_order_quantity = mq, tick_increment = tick, max_active_orders = mao\<rparr>)))"

definition default_matching_config :: matching_config where
  "default_matching_config =
     \<lparr>max_order_quantity = U64_MAX, tick_increment = 1, max_active_orders = U64_MAX\<rparr>"

record instrument_config =
  ic_instrument_id :: int
  ic_matching :: matching_config

definition InstrumentConfig :: "int \<Rightarrow> matching_config \<Rightarrow> instrument_config result" where
  "InstrumentConfig iid m =
     (if \<not> (1 \<le> iid \<and> iid \<le> U32_MAX) then Inl ValueError
      else Inr \<lparr>ic_instrument_id = iid, ic_matching = m\<rparr>)"

record multi_instrument_engine_config =
  max_total_active_orders :: int

definition MultiInstrumentEngineConfig :: "int \<Rightarrow> multi_instrument_engine_config result" where
  "MultiInstrumentEngineConfig n =
     bindR (require_u64 n False) (\<lambda>_. Inr \<lparr>max_total_active_orders = n\<rparr>)"

text \<open>The values the three constructors can produce.\<close>

definition matching_config_ok :: "matching_config \<Rightarrow> bool" where
  "matching_config_ok c \<longleftrightarrow>
     1 \<le> max_order_quantity c \<and> max_order_quantity c \<le> U64_MAX \<and>
     1 \<le> tick_increment c \<and> tick_increment c \<le> I64_MAX \<and>
     0 \<le> max_active_orders c \<and> max_active_orders c \<le> U64_MAX"

lemma MatchingConfig_iff:
  "MatchingConfig mq tick mao = Inr c \<longleftrightarrow>
     matching_config_ok c \<and> c = \<lparr>max_order_quantity = mq, tick_increment = tick,
                                 max_active_orders = mao\<rparr>"
  by (auto simp: MatchingConfig_def matching_config_ok_def require_u64_def require_i64_def
      bindR_Inr_iff width_defs split: if_splits)

lemma default_matching_config_ok [simp]: "matching_config_ok default_matching_config"
  by (simp add: matching_config_ok_def default_matching_config_def width_defs)

section \<open>Commands\<close>

record new_order =
  new_client_id :: int
  new_order_id :: int
  new_instrument_id :: int
  new_side :: int
  new_order_type :: int
  new_time_in_force :: int
  new_limit_price :: "int option"
  new_quantity :: int

record cancel_order =
  cancel_client_id :: int
  cancel_order_id :: int
  cancel_instrument_id :: int

record replace_order =
  rep_client_id :: int
  rep_old_order_id :: int
  rep_new_order_id :: int
  rep_instrument_id :: int
  rep_new_limit_price :: int
  rep_new_quantity :: int

datatype command = NewOrder new_order | CancelOrder cancel_order | ReplaceOrder replace_order

fun command_type_of :: "command \<Rightarrow> command_type" where
  "command_type_of (NewOrder _) = NEW"
| "command_type_of (CancelOrder _) = CANCEL"
| "command_type_of (ReplaceOrder _) = REPLACE"

fun command_instrument_id :: "command \<Rightarrow> int" where
  "command_instrument_id (NewOrder c) = new_instrument_id c"
| "command_instrument_id (CancelOrder c) = cancel_instrument_id c"
| "command_instrument_id (ReplaceOrder c) = rep_instrument_id c"

section \<open>Events\<close>

record event_header =
  command_sequence :: int
  event_index :: int
  hdr_instrument_id :: int

record top_of_book_level =
  top_price :: int
  top_aggregate_quantity :: int

record book_top =
  best_bid :: "top_of_book_level option"
  best_ask :: "top_of_book_level option"

record trade_body =
  aggressor_order_id :: int
  resting_order_id :: int
  aggressor_client_id :: int
  resting_client_id :: int
  aggressor_side :: side
  execution_price :: int
  execution_quantity :: int
  aggressor_remaining :: int
  resting_remaining :: int

record rested_body =
  rested_order_id :: int
  rested_client_id :: int
  rested_side :: side
  rested_price :: int
  rested_remaining_quantity :: int

datatype event =
  AcceptedEvent event_header command_type
| RejectedEvent event_header command_type reject_reason "int option"
| TradeEvent event_header trade_body
| RestedEvent event_header rested_body
| CanceledEvent event_header int int
| ReplacedEvent event_header int int
| DoneEvent event_header int done_reason int
| BookChangedEvent event_header "top_of_book_level option" "top_of_book_level option"

fun event_header_of :: "event \<Rightarrow> event_header" where
  "event_header_of (AcceptedEvent h _) = h"
| "event_header_of (RejectedEvent h _ _ _) = h"
| "event_header_of (TradeEvent h _) = h"
| "event_header_of (RestedEvent h _) = h"
| "event_header_of (CanceledEvent h _ _) = h"
| "event_header_of (ReplacedEvent h _ _) = h"
| "event_header_of (DoneEvent h _ _ _) = h"
| "event_header_of (BookChangedEvent h _ _) = h"

fun event_type_of :: "event \<Rightarrow> event_type" where
  "event_type_of (AcceptedEvent _ _) = ACCEPTED"
| "event_type_of (RejectedEvent _ _ _ _) = REJECTED"
| "event_type_of (TradeEvent _ _) = TRADE"
| "event_type_of (RestedEvent _ _) = RESTED"
| "event_type_of (CanceledEvent _ _ _) = CANCELED"
| "event_type_of (ReplacedEvent _ _ _) = REPLACED"
| "event_type_of (DoneEvent _ _ _ _) = DONE"
| "event_type_of (BookChangedEvent _ _ _) = BOOK_CHANGED"

text \<open>
  \<open>EventBatch.__post_init__\<close>: the checks run in the source's order; \<open>check_headers\<close> is the loop
  over \<open>enumerate(self.events)\<close>.
\<close>

record event_batch =
  batch_events :: "event list"

fun check_headers :: "event_header \<Rightarrow> int \<Rightarrow> event list \<Rightarrow> unit result" where
  "check_headers first index [] = Inr ()"
| "check_headers first index (e # es) =
     (let header = event_header_of e in
      if command_sequence header \<noteq> command_sequence first then Inl ValueError
      else if hdr_instrument_id header \<noteq> hdr_instrument_id first then Inl ValueError
      else if event_index header \<noteq> index then Inl ValueError
      else check_headers first (index + 1) es)"

definition EventBatch :: "event list \<Rightarrow> event_batch result" where
  "EventBatch events =
     (case events of
        [] \<Rightarrow> Inl ValueError
      | e # _ \<Rightarrow>
          (let first = event_header_of e in
           if command_sequence first = 0 then Inl ValueError
           else bindR (check_headers first 0 events) (\<lambda>_.
             if hdr_instrument_id first = 0 \<and>
                (length events \<noteq> 1 \<or> event_type_of e \<noteq> REJECTED)
             then Inl ValueError
             else Inr \<lparr>batch_events = events\<rparr>)))"

definition batch_command_sequence :: "event_batch \<Rightarrow> int" where
  "batch_command_sequence b = command_sequence (event_header_of (hd (batch_events b)))"

definition batch_instrument_id :: "event_batch \<Rightarrow> int" where
  "batch_instrument_id b = hdr_instrument_id (event_header_of (hd (batch_events b)))"

definition batch_committed :: "event_batch \<Rightarrow> bool" where
  "batch_committed b \<longleftrightarrow> event_type_of (hd (batch_events b)) = ACCEPTED"

definition batch_rejected :: "event_batch \<Rightarrow> bool" where
  "batch_rejected b \<longleftrightarrow> event_type_of (hd (batch_events b)) = REJECTED"

record reference_result =
  result_batch :: "event_batch option"
  result_error :: "engine_error option"

definition ReferenceResult ::
  "event_batch option \<Rightarrow> engine_error option \<Rightarrow> reference_result result" where
  "ReferenceResult b e =
     (if (b = None) = (e = None) then Inl ValueError
      else Inr \<lparr>result_batch = b, result_error = e\<rparr>)"

definition result_committed :: "reference_result \<Rightarrow> bool" where
  "result_committed r \<longleftrightarrow> (case result_batch r of None \<Rightarrow> False | Some b \<Rightarrow> batch_committed b)"

definition result_rejected :: "reference_result \<Rightarrow> bool" where
  "result_rejected r \<longleftrightarrow> (case result_batch r of None \<Rightarrow> False | Some b \<Rightarrow> batch_rejected b)"

section \<open>Snapshots\<close>

record order_snapshot =
  os_order_id :: int
  os_client_id :: int
  os_instrument_id :: int
  os_side :: side
  os_price :: int
  os_remaining_quantity :: int
  os_priority_sequence :: int

record price_level_snapshot =
  pls_price :: int
  pls_aggregate_quantity :: int
  pls_orders :: "order_snapshot list"

record book_snapshot =
  bs_semantics_version :: int
  bs_instrument_id :: int
  bs_last_sequence :: int
  bs_sequence_exhausted :: bool
  bs_active_order_count :: int
  bs_bids :: "price_level_snapshot list"
  bs_asks :: "price_level_snapshot list"

record instrument_snapshot =
  is_instrument_id :: int
  is_active_order_count :: int
  is_bids :: "price_level_snapshot list"
  is_asks :: "price_level_snapshot list"

record engine_snapshot =
  es_semantics_version :: int
  es_engine_config :: multi_instrument_engine_config
  es_catalog :: "instrument_config list"
  es_last_sequence :: int
  es_sequence_exhausted :: bool
  es_active_order_count :: int
  es_instruments :: "instrument_snapshot list"

section \<open>Event batches are well formed exactly when the constructor accepts them\<close>

definition batch_shape :: "int \<Rightarrow> int \<Rightarrow> event list \<Rightarrow> bool" where
  "batch_shape sequence iid events \<longleftrightarrow>
     (\<forall>i < length events.
        event_header_of (events ! i) =
          \<lparr>command_sequence = sequence, event_index = int i, hdr_instrument_id = iid\<rparr>)"

lemma check_headers_iff:
  "check_headers first (int k) es = Inr () \<longleftrightarrow>
     (\<forall>i < length es. command_sequence (event_header_of (es ! i)) = command_sequence first \<and>
        hdr_instrument_id (event_header_of (es ! i)) = hdr_instrument_id first \<and>
        event_index (event_header_of (es ! i)) = int (k + i))"
proof (induction es arbitrary: k)
  case Nil
  then show ?case by simp
next
  case (Cons e es)
  have "int k + 1 = int (Suc k)" by simp
  with Cons.IH [of "Suc k"] show ?case
    by (auto simp: Let_def All_less_Suc2 algebra_simps split: if_splits)
qed

lemma EventBatch_accepts:
  assumes "batch_shape sequence iid events" and "events \<noteq> []"
    and "sequence \<noteq> 0" and "iid \<noteq> 0 \<or> (\<exists>e. events = [e] \<and> event_type_of e = REJECTED)"
  shows "EventBatch events = Inr \<lparr>batch_events = events\<rparr>"
proof -
  obtain e es where events: "events = e # es" using assms(2) by (cases events) auto
  have first: "event_header_of e =
      \<lparr>command_sequence = sequence, event_index = 0, hdr_instrument_id = iid\<rparr>"
    using assms(1) by (auto simp: batch_shape_def events)
  have "check_headers (event_header_of e) (int 0) events = Inr ()"
    unfolding check_headers_iff using assms(1) by (auto simp: batch_shape_def first)
  with assms(3,4) first show ?thesis
    by (auto simp: EventBatch_def events Let_def)
qed

lemma EventBatch_sound:
  assumes "EventBatch events = Inr b"
  shows "batch_events b = events \<and> events \<noteq> [] \<and> batch_command_sequence b \<noteq> 0 \<and>
    batch_shape (batch_command_sequence b) (batch_instrument_id b) events"
proof -
  obtain e es where events: "events = e # es"
    using assms by (cases events) (auto simp: EventBatch_def)
  have ok: "check_headers (event_header_of e) (int 0) events = Inr ()" and b: "batch_events b = events"
    and nz: "command_sequence (event_header_of e) \<noteq> 0"
    using assms by (auto simp: EventBatch_def events Let_def bindR_Inr_iff split: if_splits)
  from ok [unfolded check_headers_iff]
  have "batch_shape (command_sequence (event_header_of e)) (hdr_instrument_id (event_header_of e)) events"
    by (auto simp: batch_shape_def intro: event_header.equality)
  with b nz show ?thesis
    by (simp add: batch_command_sequence_def batch_instrument_id_def events)
qed

end
