(* ===== verification/Book_State.thy ===== *)
theory Book_State
  imports Domain
begin

text \<open>
  The state of \<open>ReferenceEngine\<close> (\<open>reference.py\<close>).  Python shares one mutable \<open>_Order\<close> object between
  a price level's deque and the active-order index, mutates it through either and compares it by
  identity (\<open>is\<close>), so the engine carries an explicit object store: a reference is an index into
  \<open>eng_store\<close>, queues and the index hold references, and allocation appends to the store.

  The methods that take a levels dictionary (\<open>levels is self._bids\<close> decides which caches go with it)
  take the reference of one of the engine's two dictionaries: \<open>BUY\<close> for \<open>self._bids\<close>, \<open>SELL\<close> for
  \<open>self._asks\<close>.
\<close>

section \<open>Mutable orders and the engine record\<close>

record order =
  ord_order_id :: int
  ord_client_id :: int
  ord_instrument_id :: int
  ord_side :: side
  ord_price :: int
  ord_remaining_quantity :: int
  ord_priority_sequence :: int

record rejection =
  rej_reason :: reject_reason
  rej_order_id :: "int option"

record fill_projection =
  proj_remaining_quantity :: int
  proj_terminal_passive_count :: int

type_synonym order_ref = nat
type_synonym levels = "(int, order_ref list) dict"
type_synonym price_heap = "(int \<times> int \<times> int) list"

record engine =
  eng_instrument_id :: int
  eng_config :: matching_config
  eng_bids :: levels
  eng_asks :: levels
  eng_bid_aggregates :: "(int, int) dict"
  eng_ask_aggregates :: "(int, int) dict"
  eng_bid_heap :: price_heap
  eng_ask_heap :: price_heap
  eng_bid_level_generations :: "(int, int) dict"
  eng_ask_level_generations :: "(int, int) dict"
  eng_next_level_generation :: int
  eng_orders :: "(int, order_ref) dict"
  eng_next_sequence :: int
  eng_last_sequence :: int
  eng_sequence_exhausted :: bool
  eng_poisoned :: bool
  eng_check_invariants :: bool
  eng_store :: "order list"

abbreviation deref :: "engine \<Rightarrow> order_ref \<Rightarrow> order" where
  "deref s r \<equiv> eng_store s ! r"

section \<open>The caches that belong to a levels dictionary\<close>

definition levels_of :: "side \<Rightarrow> engine \<Rightarrow> levels" where
  "levels_of sd s = (case sd of BUY \<Rightarrow> eng_bids s | SELL \<Rightarrow> eng_asks s)"

definition aggregates_of :: "side \<Rightarrow> engine \<Rightarrow> (int, int) dict" where
  "aggregates_of sd s = (case sd of BUY \<Rightarrow> eng_bid_aggregates s | SELL \<Rightarrow> eng_ask_aggregates s)"

definition heap_of :: "side \<Rightarrow> engine \<Rightarrow> price_heap" where
  "heap_of sd s = (case sd of BUY \<Rightarrow> eng_bid_heap s | SELL \<Rightarrow> eng_ask_heap s)"

definition generations_of :: "side \<Rightarrow> engine \<Rightarrow> (int, int) dict" where
  "generations_of sd s =
     (case sd of BUY \<Rightarrow> eng_bid_level_generations s | SELL \<Rightarrow> eng_ask_level_generations s)"

definition set_levels :: "side \<Rightarrow> levels \<Rightarrow> engine \<Rightarrow> engine" where
  "set_levels sd v s = (case sd of BUY \<Rightarrow> s\<lparr>eng_bids := v\<rparr> | SELL \<Rightarrow> s\<lparr>eng_asks := v\<rparr>)"

definition set_aggregates :: "side \<Rightarrow> (int, int) dict \<Rightarrow> engine \<Rightarrow> engine" where
  "set_aggregates sd v s =
     (case sd of BUY \<Rightarrow> s\<lparr>eng_bid_aggregates := v\<rparr> | SELL \<Rightarrow> s\<lparr>eng_ask_aggregates := v\<rparr>)"

definition set_heap :: "side \<Rightarrow> price_heap \<Rightarrow> engine \<Rightarrow> engine" where
  "set_heap sd v s = (case sd of BUY \<Rightarrow> s\<lparr>eng_bid_heap := v\<rparr> | SELL \<Rightarrow> s\<lparr>eng_ask_heap := v\<rparr>)"

definition set_generations :: "side \<Rightarrow> (int, int) dict \<Rightarrow> engine \<Rightarrow> engine" where
  "set_generations sd v s =
     (case sd of BUY \<Rightarrow> s\<lparr>eng_bid_level_generations := v\<rparr>
      | SELL \<Rightarrow> s\<lparr>eng_ask_level_generations := v\<rparr>)"

text \<open>\<open>_price_index\<close> returns the heap, the generations and whether the side is descending.\<close>

definition index_descending :: "side \<Rightarrow> bool" where
  "index_descending levels \<longleftrightarrow> levels = BUY"

definition price_index :: "side \<Rightarrow> engine \<Rightarrow> price_heap \<times> (int, int) dict \<times> bool" where
  "price_index levels s = (heap_of levels s, generations_of levels s, index_descending levels)"

definition price_key :: "side \<Rightarrow> int \<Rightarrow> int" where
  "price_key sd p = (if index_descending sd then - p else p)"

definition set_store :: "order list \<Rightarrow> engine \<Rightarrow> engine" where
  "set_store v s = s\<lparr>eng_store := v\<rparr>"

definition set_orders :: "(int, order_ref) dict \<Rightarrow> engine \<Rightarrow> engine" where
  "set_orders v s = s\<lparr>eng_orders := v\<rparr>"

section \<open>Reading a field after writing another\<close>

lemmas selector_defs = levels_of_def aggregates_of_def heap_of_def generations_of_def
  set_levels_def set_aggregates_def set_heap_def set_generations_def set_store_def set_orders_def

lemma get_set_levels [simp]:
  "levels_of sd (set_levels sd' v s) = (if sd = sd' then v else levels_of sd s)"
  "aggregates_of sd (set_levels sd' v s) = aggregates_of sd s"
  "heap_of sd (set_levels sd' v s) = heap_of sd s"
  "generations_of sd (set_levels sd' v s) = generations_of sd s"
  by (cases sd; cases sd'; simp add: selector_defs)+

lemma get_set_aggregates [simp]:
  "levels_of sd (set_aggregates sd' v' s) = levels_of sd s"
  "aggregates_of sd (set_aggregates sd' v' s) = (if sd = sd' then v' else aggregates_of sd s)"
  "heap_of sd (set_aggregates sd' v' s) = heap_of sd s"
  "generations_of sd (set_aggregates sd' v' s) = generations_of sd s"
  by (cases sd; cases sd'; simp add: selector_defs)+

lemma get_set_heap [simp]:
  "levels_of sd (set_heap sd' h s) = levels_of sd s"
  "aggregates_of sd (set_heap sd' h s) = aggregates_of sd s"
  "heap_of sd (set_heap sd' h s) = (if sd = sd' then h else heap_of sd s)"
  "generations_of sd (set_heap sd' h s) = generations_of sd s"
  by (cases sd; cases sd'; simp add: selector_defs)+

lemma get_set_generations [simp]:
  "levels_of sd (set_generations sd' g s) = levels_of sd s"
  "aggregates_of sd (set_generations sd' g s) = aggregates_of sd s"
  "heap_of sd (set_generations sd' g s) = heap_of sd s"
  "generations_of sd (set_generations sd' g s) = (if sd = sd' then g else generations_of sd s)"
  by (cases sd; cases sd'; simp add: selector_defs)+

lemma get_set_store [simp]:
  "levels_of sd (set_store st s) = levels_of sd s"
  "aggregates_of sd (set_store st s) = aggregates_of sd s"
  "heap_of sd (set_store st s) = heap_of sd s"
  "generations_of sd (set_store st s) = generations_of sd s"
  "eng_orders (set_store st s) = eng_orders s"
  "eng_store (set_store st s) = st"
  by (cases sd; simp add: selector_defs)+

lemma get_set_orders [simp]:
  "levels_of sd (set_orders os s) = levels_of sd s"
  "aggregates_of sd (set_orders os s) = aggregates_of sd s"
  "heap_of sd (set_orders os s) = heap_of sd s"
  "generations_of sd (set_orders os s) = generations_of sd s"
  "eng_orders (set_orders os s) = os"
  "eng_store (set_orders os s) = eng_store s"
  by (cases sd; simp add: selector_defs)+

lemma get_set_next_generation [simp]:
  "levels_of sd (s\<lparr>eng_next_level_generation := g\<rparr>) = levels_of sd s"
  "aggregates_of sd (s\<lparr>eng_next_level_generation := g\<rparr>) = aggregates_of sd s"
  "heap_of sd (s\<lparr>eng_next_level_generation := g\<rparr>) = heap_of sd s"
  "generations_of sd (s\<lparr>eng_next_level_generation := g\<rparr>) = generations_of sd s"
  by (cases sd; simp add: selector_defs)+

lemma get_set_sequence [simp]:
  "levels_of sd (s\<lparr>eng_last_sequence := n\<rparr>) = levels_of sd s"
  "aggregates_of sd (s\<lparr>eng_last_sequence := n\<rparr>) = aggregates_of sd s"
  "heap_of sd (s\<lparr>eng_last_sequence := n\<rparr>) = heap_of sd s"
  "generations_of sd (s\<lparr>eng_last_sequence := n\<rparr>) = generations_of sd s"
  "levels_of sd (s\<lparr>eng_next_sequence := n\<rparr>) = levels_of sd s"
  "aggregates_of sd (s\<lparr>eng_next_sequence := n\<rparr>) = aggregates_of sd s"
  "heap_of sd (s\<lparr>eng_next_sequence := n\<rparr>) = heap_of sd s"
  "generations_of sd (s\<lparr>eng_next_sequence := n\<rparr>) = generations_of sd s"
  "levels_of sd (s\<lparr>eng_sequence_exhausted := b\<rparr>) = levels_of sd s"
  "aggregates_of sd (s\<lparr>eng_sequence_exhausted := b\<rparr>) = aggregates_of sd s"
  "heap_of sd (s\<lparr>eng_sequence_exhausted := b\<rparr>) = heap_of sd s"
  "generations_of sd (s\<lparr>eng_sequence_exhausted := b\<rparr>) = generations_of sd s"
  by (cases sd; simp add: selector_defs)+

text \<open>
  Fields no side operation writes: identity, configuration, sequence state and policy flags.
\<close>

definition static_of ::
  "engine \<Rightarrow> int \<times> matching_config \<times> int \<times> int \<times> bool \<times> bool \<times> bool" where
  "static_of s = (eng_instrument_id s, eng_config s, eng_next_sequence s, eng_last_sequence s,
     eng_sequence_exhausted s, eng_poisoned s, eng_check_invariants s)"

lemma static_of_set [simp]:
  "static_of (set_levels sd v s) = static_of s"
  "static_of (set_aggregates sd v' s) = static_of s"
  "static_of (set_heap sd h s) = static_of s"
  "static_of (set_generations sd g s) = static_of s"
  "static_of (set_store st s) = static_of s"
  "static_of (set_orders os s) = static_of s"
  "static_of (s\<lparr>eng_next_level_generation := n\<rparr>) = static_of s"
  by (cases sd; simp add: selector_defs static_of_def)+

lemma static_of_eqD:
  "static_of s' = static_of s \<Longrightarrow>
     eng_instrument_id s' = eng_instrument_id s \<and> eng_config s' = eng_config s \<and>
     eng_next_sequence s' = eng_next_sequence s \<and> eng_last_sequence s' = eng_last_sequence s \<and>
     eng_sequence_exhausted s' = eng_sequence_exhausted s \<and> eng_poisoned s' = eng_poisoned s \<and>
     eng_check_invariants s' = eng_check_invariants s"
  by (simp add: static_of_def)

lemma store_set_side [simp]:
  "eng_store (set_levels sd v s) = eng_store s"
  "eng_store (set_aggregates sd v' s) = eng_store s"
  "eng_store (set_heap sd h s) = eng_store s"
  "eng_store (set_generations sd g s) = eng_store s"
  "eng_orders (set_levels sd v s) = eng_orders s"
  "eng_orders (set_aggregates sd v' s) = eng_orders s"
  "eng_orders (set_heap sd h s) = eng_orders s"
  "eng_orders (set_generations sd g s) = eng_orders s"
  "eng_next_level_generation (set_levels sd v s) = eng_next_level_generation s"
  "eng_next_level_generation (set_aggregates sd v' s) = eng_next_level_generation s"
  "eng_next_level_generation (set_heap sd h s) = eng_next_level_generation s"
  "eng_next_level_generation (set_generations sd g s) = eng_next_level_generation s"
  "eng_next_level_generation (set_store st s) = eng_next_level_generation s"
  "eng_next_level_generation (set_orders os s) = eng_next_level_generation s"
  by (cases sd; simp add: selector_defs)+

lemma price_key_inj [simp]: "price_key sd p = price_key sd q \<longleftrightarrow> p = q"
  by (simp add: price_key_def)

lemma inj_price_key: "inj_on (price_key sd) A"
  by (simp add: inj_on_def)

text \<open>The value view of a queue: the orders its references denote.\<close>

definition orders_at :: "engine \<Rightarrow> order_ref list \<Rightarrow> order list" where
  "orders_at s q = map (deref s) q"

end
