(* ===== verification/Heapq.thy ===== *)
theory Heapq
  imports Prelude
begin

text \<open>
  The part of Python's \<open>heapq\<close> module that \<open>reference.py\<close> uses (\<open>heappush\<close>, \<open>heappop\<close>, \<open>heapify\<close>),
  with the array algorithm of the standard library: \<open>_siftdown\<close> moves a hole towards the root,
  \<open>_siftup\<close> moves it to a leaf along the smaller children and then sifts down again.  The array
  layout matters, because \<open>_iter_prices\<close> walks it directly.  The contract of a binary heap is the
  locale \<open>priority_heap\<close>, interpreted on these functions.
\<close>

section \<open>The algorithm\<close>

fun siftdown_loop :: "'a :: linorder list \<Rightarrow> nat \<Rightarrow> 'a \<Rightarrow> nat \<Rightarrow> 'a list" where
  "siftdown_loop heap startpos newitem pos =
     (if startpos < pos then
        (let parentpos = (pos - 1) div 2; parent = heap ! parentpos in
         if newitem < parent
         then siftdown_loop (heap[pos := parent]) startpos newitem parentpos
         else heap[pos := newitem])
      else heap[pos := newitem])"

declare siftdown_loop.simps [simp del]

definition siftdown :: "'a :: linorder list \<Rightarrow> nat \<Rightarrow> nat \<Rightarrow> 'a list" where
  "siftdown heap startpos pos = siftdown_loop heap startpos (heap ! pos) pos"

definition smaller_child :: "'a :: linorder list \<Rightarrow> nat \<Rightarrow> nat \<Rightarrow> nat" where
  "smaller_child heap endpos childpos =
     (let rightpos = childpos + 1 in
      if rightpos < endpos \<and> \<not> heap ! childpos < heap ! rightpos then rightpos else childpos)"

lemma smaller_child_ge: "childpos \<le> smaller_child heap endpos childpos"
  and smaller_child_le: "smaller_child heap endpos childpos \<le> childpos + 1"
  by (simp_all add: smaller_child_def Let_def)

function siftup_loop :: "'a :: linorder list \<Rightarrow> nat \<Rightarrow> nat \<Rightarrow> 'a list \<times> nat" where
  "siftup_loop heap endpos pos =
     (let childpos = 2 * pos + 1 in
      if childpos < endpos then
        (let child = smaller_child heap endpos childpos in
         siftup_loop (heap[pos := heap ! child]) endpos child)
      else (heap, pos))"
  by pat_completeness auto
termination
proof (relation "measure (\<lambda>(heap, endpos, pos). endpos - pos)", goal_cases)
  case 1
  then show ?case by simp
next
  case (2 heap endpos pos childpos child)
  then show ?case
    using smaller_child_ge [of childpos heap endpos] by simp
qed

declare siftup_loop.simps [simp del]

lemma siftup_loop_step:
  "2 * p + 1 < e \<Longrightarrow> siftup_loop h e p =
     siftup_loop (h[p := h ! smaller_child h e (2 * p + 1)]) e (smaller_child h e (2 * p + 1))"
  by (subst siftup_loop.simps) (simp add: Let_def)

lemma siftup_loop_stop: "\<not> 2 * p + 1 < e \<Longrightarrow> siftup_loop h e p = (h, p)"
  by (subst siftup_loop.simps) (simp add: Let_def)

definition siftup :: "'a :: linorder list \<Rightarrow> nat \<Rightarrow> 'a list" where
  "siftup heap pos =
     (let newitem = heap ! pos; (h, p) = siftup_loop heap (length heap) pos in
      siftdown (h[p := newitem]) pos p)"

definition heappush :: "'a :: linorder list \<Rightarrow> 'a \<Rightarrow> 'a list" where
  "heappush heap item = siftdown (heap @ [item]) 0 (length heap)"

definition heappop :: "'a :: linorder list \<Rightarrow> ('a \<times> 'a list) result" where
  "heappop heap =
     (if heap = [] then Inl IndexError
      else let lastelt = last heap; rest = butlast heap in
        if rest = [] then Inr (lastelt, [])
        else Inr (hd rest, siftup (rest[0 := lastelt]) 0))"

definition heapify :: "'a :: linorder list \<Rightarrow> 'a list" where
  "heapify heap = fold (\<lambda>i h. siftup h i) (rev [0..<length heap div 2]) heap"

section \<open>Contents: every operation permutes its input\<close>

lemma length_siftdown_loop [simp]: "length (siftdown_loop h s x p) = length h"
proof (induction h s x p rule: siftdown_loop.induct)
  case (1 h s x p)
  then show ?case by (subst siftdown_loop.simps) (auto simp: Let_def)
qed

lemma mset_move_hole:
  assumes "i < length xs" and "j < length xs" and "i \<noteq> j"
  shows "mset (xs[i := xs ! j, j := x]) = mset (xs[i := x])"
proof -
  have "xs[i := xs ! j, j := x] = (xs[i := x])[i := xs[i := x] ! j, j := xs[i := x] ! i]"
    using assms by (simp add: nth_list_update)
  then show ?thesis
    using assms mset_swap [of j "xs[i := x]" i] by simp
qed

lemma mset_siftdown_loop: "p < length h \<Longrightarrow> mset (siftdown_loop h s x p) = mset (h[p := x])"
proof (induction h s x p rule: siftdown_loop.induct)
  case (1 h s x p)
  show ?case
  proof (cases "s < p \<and> x < h ! ((p - 1) div 2)")
    case True
    then have "(p - 1) div 2 < length h" and "(p - 1) div 2 \<noteq> p"
      using "1.prems" by auto
    with True "1.IH" [OF _ refl refl] "1.prems" show ?thesis
      by (subst siftdown_loop.simps) (simp add: mset_move_hole Let_def)
  next
    case False
    then show ?thesis by (subst siftdown_loop.simps) (auto simp: Let_def)
  qed
qed

lemma length_siftdown [simp]: "length (siftdown h s p) = length h"
  by (simp add: siftdown_def)

lemma mset_siftdown: "p < length h \<Longrightarrow> mset (siftdown h s p) = mset h"
  by (simp add: siftdown_def mset_siftdown_loop)

lemma smaller_child_less:
  "childpos < endpos \<Longrightarrow> smaller_child heap endpos childpos < endpos"
  by (simp add: smaller_child_def Let_def)

lemma siftup_loop_length:
  "siftup_loop h (length h) p = (h', p') \<Longrightarrow> p < length h \<Longrightarrow> length h' = length h \<and> p' < length h"
proof (induction h "length h" p arbitrary: h' p' rule: siftup_loop.induct)
  case (1 h p)
  let ?c = "smaller_child h (length h) (2 * p + 1)"
  show ?case
  proof (cases "2 * p + 1 < length h")
    case True
    with "1.prems" have step: "siftup_loop (h[p := h ! ?c]) (length h) ?c = (h', p')"
      by (simp add: siftup_loop_step)
    have "?c < length (h[p := h ! ?c])"
      using smaller_child_less [OF True] by simp
    with "1.hyps" [OF refl True refl, of h' p'] step show ?thesis by simp
  next
    case False
    with "1.prems" show ?thesis by (simp add: siftup_loop_stop)
  qed
qed

lemma siftup_loop_mset:
  "siftup_loop h (length h) p = (h', p') \<Longrightarrow> p < length h \<Longrightarrow>
     mset (h'[p' := x]) = mset (h[p := x])"
proof (induction h "length h" p arbitrary: h' p' rule: siftup_loop.induct)
  case (1 h p)
  let ?c = "smaller_child h (length h) (2 * p + 1)"
  show ?case
  proof (cases "2 * p + 1 < length h")
    case True
    have c: "?c < length h" "?c \<noteq> p"
      using smaller_child_less [OF True, of h] smaller_child_ge [of "2 * p + 1" h "length h"]
      by auto
    from True "1.prems" have "siftup_loop (h[p := h ! ?c]) (length h) ?c = (h', p')"
      by (simp add: siftup_loop_step)
    with "1.hyps" [OF refl True refl] c have "mset (h'[p' := x]) = mset (h[p := h ! ?c, ?c := x])"
      by simp
    with c "1.prems"(2) show ?thesis by (simp add: mset_move_hole)
  next
    case False
    with "1.prems" show ?thesis by (simp add: siftup_loop_stop)
  qed
qed

lemma length_siftup [simp]: "p < length h \<Longrightarrow> length (siftup h p) = length h"
  by (auto simp: siftup_def Let_def dest: siftup_loop_length split: prod.splits)

lemma mset_siftup: "p < length h \<Longrightarrow> mset (siftup h p) = mset h"
proof -
  assume p: "p < length h"
  obtain h' p' where r: "siftup_loop h (length h) p = (h', p')" by fastforce
  from siftup_loop_length [OF r p] siftup_loop_mset [OF r p, of "h ! p"] r p show ?thesis
    by (simp add: siftup_def Let_def mset_siftdown)
qed

section \<open>The heap property\<close>

definition parent_of :: "nat \<Rightarrow> nat" where
  "parent_of i = (i - 1) div 2"

lemma parent_of_eq_iff: "0 < i \<Longrightarrow> parent_of i = p \<longleftrightarrow> i = 2 * p + 1 \<or> i = 2 * p + 2"
  by (auto simp: parent_of_def)

lemma parent_of_less: "0 < i \<Longrightarrow> parent_of i < i"
  by (auto simp: parent_of_def)

text \<open>All edges whose upper end is at \<open>k\<close> or behind it are ordered.\<close>

definition heap_from :: "nat \<Rightarrow> 'a :: linorder list \<Rightarrow> bool" where
  "heap_from k xs \<longleftrightarrow>
     (\<forall>i < length xs. 0 < i \<longrightarrow> k \<le> parent_of i \<longrightarrow> xs ! parent_of i \<le> xs ! i)"

definition heap_inv :: "'a :: linorder list \<Rightarrow> bool" where
  "heap_inv xs = heap_from 0 xs"

text \<open>Position \<open>i\<close> lies in the subtree rooted at \<open>k\<close>.\<close>

fun below :: "nat \<Rightarrow> nat \<Rightarrow> bool" where
  "below k i = (if k < i then below k ((i - 1) div 2) else i = k)"

lemma below_unfold: "below k i \<longleftrightarrow> i = k \<or> (k < i \<and> below k (parent_of i))"
  by (subst below.simps) (auto simp: parent_of_def)

declare below.simps [simp del]

lemma below_refl [simp]: "below k k"
  using below_unfold [of k k] by simp

lemma below_ge: "below k i \<Longrightarrow> k \<le> i"
  using below_unfold [of k i] by auto

lemma below_parent: "below k i \<Longrightarrow> k < i \<Longrightarrow> below k (parent_of i) \<and> k \<le> parent_of i"
  using below_unfold [of k i] below_ge by auto

lemma below_child: "below k (parent_of i) \<Longrightarrow> 0 < i \<Longrightarrow> below k i"
  using below_unfold [of k i] below_ge [of k "parent_of i"] parent_of_less [of i] by auto

lemma below_0 [simp]: "below 0 i"
  by (induction i rule: less_induct) (metis below_child below_refl gr0I parent_of_less)

text \<open>
  The array with a hole at \<open>p\<close>: all edges not touching the hole are ordered, and the hole's parent
  is below the hole's children.
\<close>

definition hole_inv :: "nat \<Rightarrow> 'a :: linorder list \<Rightarrow> nat \<Rightarrow> bool" where
  "hole_inv k xs p \<longleftrightarrow>
     p < length xs \<and> below k p \<and>
     (\<forall>i < length xs. 0 < i \<longrightarrow> k \<le> parent_of i \<longrightarrow> i \<noteq> p \<longrightarrow> parent_of i \<noteq> p \<longrightarrow>
        xs ! parent_of i \<le> xs ! i) \<and>
     (\<forall>i < length xs. 0 < i \<longrightarrow> parent_of i = p \<longrightarrow> k < p \<longrightarrow> xs ! parent_of p \<le> xs ! i)"

lemma siftdown_loop_heap:
  assumes "hole_inv k xs p"
    and "\<forall>i < length xs. 0 < i \<longrightarrow> parent_of i = p \<longrightarrow> x \<le> xs ! i"
  shows "heap_from k (siftdown_loop xs k x p)"
  using assms
proof (induction xs k x p rule: siftdown_loop.induct)
  case (1 xs k x p)
  note inv = "1.prems"(1) [unfolded hole_inv_def] and kids = "1.prems"(2)
  show ?case
  proof (cases "k < p \<and> x < xs ! parent_of p")
    case True
    let ?q = "parent_of p"
    have q: "?q < p" "below k ?q" "k \<le> ?q"
      using True inv by (auto dest: below_parent simp: parent_of_less)
    have q_le: "xs ! ?q \<le> xs ! i" if "i < length xs" "0 < i" "parent_of i = ?q" "i \<noteq> p" for i
      using that inv q by auto
    have gp: "xs ! parent_of ?q \<le> xs ! ?q" if "k < ?q"
      using that inv q below_parent [of k ?q] parent_of_less [of ?q] by auto
    have hole: "hole_inv k (xs[p := xs ! ?q]) ?q"
      unfolding hole_inv_def
    proof (intro conjI allI impI)
      fix i
      assume i: "i < length (xs[p := xs ! ?q])" "0 < i"
      show "(xs[p := xs ! ?q]) ! parent_of i \<le> (xs[p := xs ! ?q]) ! i"
        if "k \<le> parent_of i" "i \<noteq> ?q" "parent_of i \<noteq> ?q"
        using that i True inv parent_of_less [of i] by (cases "i = p"; cases "parent_of i = p") auto
      show "(xs[p := xs ! ?q]) ! parent_of ?q \<le> (xs[p := xs ! ?q]) ! i"
        if "parent_of i = ?q" "k < ?q"
        using that i gp q_le inv q parent_of_less [of ?q]
        by (cases "i = p") (auto intro: order_trans)
    qed (use inv q in auto)
    have "\<forall>i < length (xs[p := xs ! ?q]). 0 < i \<longrightarrow> parent_of i = ?q \<longrightarrow> x \<le> (xs[p := xs ! ?q]) ! i"
    proof (intro allI impI)
      fix i
      assume "i < length (xs[p := xs ! ?q])" "0 < i" "parent_of i = ?q"
      then show "x \<le> (xs[p := xs ! ?q]) ! i"
        using True inv q_le [of i] by (cases "i = p") auto
    qed
    with "1.IH" hole True show ?thesis
      by (subst siftdown_loop.simps) (simp add: Let_def parent_of_def)
  next
    case False
    have "siftdown_loop xs k x p = xs[p := x]"
      using False by (subst siftdown_loop.simps) (auto simp: Let_def parent_of_def)
    moreover have "heap_from k (xs[p := x])"
      unfolding heap_from_def
    proof (intro allI impI)
      fix i
      assume i: "i < length (xs[p := x])" "0 < i" "k \<le> parent_of i"
      show "(xs[p := x]) ! parent_of i \<le> (xs[p := x]) ! i"
        using i False inv kids parent_of_less [of i]
        by (cases "i = p"; cases "parent_of i = p") auto
    qed
    ultimately show ?thesis by simp
  qed
qed

lemma smaller_child_min:
  assumes "2 * p + 1 < length xs" and "0 < i" and "parent_of i = p" and "i < length xs"
  shows "xs ! smaller_child xs (length xs) (2 * p + 1) \<le> xs ! i"
  using assms by (auto simp: parent_of_eq_iff smaller_child_def Let_def)

lemma siftup_loop_hole:
  assumes "siftup_loop xs (length xs) p = (h, q)" and "hole_inv k xs p"
  shows "hole_inv k h q \<and> (\<forall>i < length h. 0 < i \<longrightarrow> parent_of i \<noteq> q)"
  using assms
proof (induction xs "length xs" p arbitrary: h q rule: siftup_loop.induct)
  case (1 xs p)
  let ?c = "smaller_child xs (length xs) (2 * p + 1)"
  note inv = "1.prems"(2) [unfolded hole_inv_def]
  show ?case
  proof (cases "2 * p + 1 < length xs")
    case True
    have c: "?c < length xs" "p < ?c" "parent_of ?c = p"
      using smaller_child_less [OF True, of xs] smaller_child_ge [of "2 * p + 1" xs "length xs"]
        smaller_child_le [of xs "length xs" "2 * p + 1"] by (auto simp: parent_of_def)
    have hole: "hole_inv k (xs[p := xs ! ?c]) ?c"
      unfolding hole_inv_def
    proof (intro conjI allI impI)
      show "below k ?c" using c inv by (metis below_child gr_zeroI less_nat_zero_code)
      fix i
      assume i: "i < length (xs[p := xs ! ?c])" "0 < i"
      show "(xs[p := xs ! ?c]) ! parent_of i \<le> (xs[p := xs ! ?c]) ! i"
        if "k \<le> parent_of i" "i \<noteq> ?c" "parent_of i \<noteq> ?c"
        using that i c inv smaller_child_min [OF True, of i] parent_of_less [of i]
        by (cases "i = p"; cases "parent_of i = p") auto
      show "(xs[p := xs ! ?c]) ! parent_of ?c \<le> (xs[p := xs ! ?c]) ! i"
        if "parent_of i = ?c" "k < ?c"
        using that i c inv below_ge [of k p] parent_of_less [of i] by auto
    qed (use c in auto)
    from True "1.prems"(1) have "siftup_loop (xs[p := xs ! ?c]) (length xs) ?c = (h, q)"
      by (simp add: siftup_loop_step)
    with "1.hyps" [OF refl True refl] hole show ?thesis by simp
  next
    case False
    with "1.prems" show ?thesis
      by (auto simp: siftup_loop_stop parent_of_eq_iff)
  qed
qed

lemma hole_inv_update: "hole_inv k xs p \<Longrightarrow> hole_inv k (xs[p := x]) p"
  by (auto simp: hole_inv_def nth_list_update parent_of_def)

lemma siftup_heap:
  assumes "p < length xs" and "heap_from (Suc p) xs"
  shows "heap_from p (siftup xs p)"
proof -
  obtain h q where r: "siftup_loop xs (length xs) p = (h, q)" by fastforce
  have "hole_inv p xs p"
    using assms by (auto simp: hole_inv_def heap_from_def)
  note res = siftup_loop_hole [OF r this]
  then have "hole_inv p (h[q := xs ! p]) q" and q: "q < length h"
    by (auto intro: hole_inv_update simp: hole_inv_def)
  then have "heap_from p (siftdown_loop (h[q := xs ! p]) p (xs ! p) q)"
    using res by (intro siftdown_loop_heap) auto
  with r q show ?thesis by (simp add: siftup_def siftdown_def Let_def)
qed

lemma heappush_heap: "heap_inv xs \<Longrightarrow> heap_inv (heappush xs x)"
proof -
  assume "heap_inv xs"
  then have "hole_inv 0 (xs @ [x]) (length xs)"
    and "\<forall>i < length (xs @ [x]). 0 < i \<longrightarrow> parent_of i \<noteq> length xs"
    by (auto simp: hole_inv_def heap_inv_def heap_from_def nth_append parent_of_def)
  then show ?thesis
    by (auto simp: heappush_def siftdown_def heap_inv_def intro!: siftdown_loop_heap)
qed

lemma heap_inv_butlast:
  assumes "heap_inv xs"
  shows "heap_from (Suc 0) ((butlast xs)[0 := y])"
  unfolding heap_from_def
proof (intro allI impI)
  fix i
  assume i: "i < length ((butlast xs)[0 := y])" "0 < i" "Suc 0 \<le> parent_of i"
  then have "parent_of i < i" and "i < length xs" by (auto simp: parent_of_less)
  with i assms show "((butlast xs)[0 := y]) ! parent_of i \<le> ((butlast xs)[0 := y]) ! i"
    by (auto simp: heap_inv_def heap_from_def nth_butlast)
qed

lemma heapify_heap: "heap_inv (heapify xs)"
proof -
  have "heap_from 0 (fold (\<lambda>i h. siftup h i) (rev [0..<k]) ys)"
    if "heap_from k ys" and "k \<le> length ys" for k and ys :: "'a list"
    using that
  proof (induction k arbitrary: ys)
    case (Suc k)
    then have "heap_from k (siftup ys k)" and "length (siftup ys k) = length ys"
      by (simp_all add: siftup_heap)
    with Suc show ?case by simp
  qed simp
  moreover have "heap_from (length xs div 2) xs"
    by (auto simp: heap_from_def parent_of_def)
  ultimately show ?thesis by (simp add: heapify_def heap_inv_def)
qed

lemma heap_inv_root: "heap_inv xs \<Longrightarrow> i < length xs \<Longrightarrow> xs ! 0 \<le> xs ! i"
proof (induction i rule: less_induct)
  case (less i)
  show ?case
  proof (cases "i = 0")
    case False
    with less have "xs ! 0 \<le> xs ! parent_of i"
      using parent_of_less [of i] by simp
    also have "\<dots> \<le> xs ! i"
      using False less.prems by (simp add: heap_inv_def heap_from_def)
    finally show ?thesis .
  qed simp
qed

lemma heap_inv_hd: "heap_inv xs \<Longrightarrow> y \<in> set xs \<Longrightarrow> hd xs \<le> y"
  by (metis gr_implies_not0 heap_inv_root hd_conv_nth in_set_conv_nth length_0_conv)

lemma heap_inv_Nil [simp]: "heap_inv []"
  by (simp add: heap_inv_def heap_from_def)

section \<open>The heap contract\<close>

text \<open>
  What the clients rely on: the entries as a multiset, the entry in front, and that popping removes
  a least entry.
\<close>

locale priority_heap =
  fixes push :: "'h \<Rightarrow> 'a :: linorder \<Rightarrow> 'h"
    and pop :: "'h \<Rightarrow> ('a \<times> 'h) result"
    and entries :: "'h \<Rightarrow> 'a multiset"
    and front :: "'h \<Rightarrow> 'a option"
    and invar :: "'h \<Rightarrow> bool"
  assumes push_entries: "entries (push h x) = add_mset x (entries h)"
    and push_invar: "invar h \<Longrightarrow> invar (push h x)"
    and pop_raises: "entries h = {#} \<Longrightarrow> pop h = Inl IndexError"
    and pop_front: "entries h \<noteq> {#} \<Longrightarrow> \<exists>x h'. pop h = Inr (x, h') \<and> front h = Some x \<and>
          entries h = add_mset x (entries h')"
    and pop_invar: "invar h \<Longrightarrow> pop h = Inr (x, h') \<Longrightarrow> invar h'"
    and front_least: "invar h \<Longrightarrow> front h = Some x \<Longrightarrow> y \<in># entries h \<Longrightarrow> x \<le> y"
    and front_empty: "front h = None \<longleftrightarrow> entries h = {#}"
begin

lemma pop_least:
  assumes "invar h" and "pop h = Inr (x, h')"
  shows "invar h'" and "entries h = add_mset x (entries h')" and "\<forall>y \<in># entries h. x \<le> y"
proof -
  have "entries h \<noteq> {#}" using assms(2) pop_raises by fastforce
  with assms(2) show e: "entries h = add_mset x (entries h')" and "\<forall>y \<in># entries h. x \<le> y"
    using pop_front [of h] front_least [OF assms(1)] by auto
  show "invar h'" using assms by (rule pop_invar)
qed

text \<open>Discarding a front entry that is not live loses no live entry.\<close>

lemma pop_stale:
  assumes "front h = Some x" and "\<not> live x"
  shows "\<exists>h'. pop h = Inr (x, h') \<and> filter_mset live (entries h') = filter_mset live (entries h) \<and>
    size (entries h') < size (entries h)"
proof -
  have "entries h \<noteq> {#}" using assms(1) front_empty [of h] by auto
  from pop_front [OF this] assms show ?thesis by auto
qed

text \<open>A live entry in front is least among the live ones.\<close>

lemma front_least_live:
  assumes "invar h" and "front h = Some x" and "live x"
  shows "x \<in># filter_mset live (entries h) \<and> (\<forall>y \<in># filter_mset live (entries h). x \<le> y)"
proof -
  have "entries h \<noteq> {#}" using assms(2) front_empty [of h] by auto
  from pop_front [OF this] assms show ?thesis using front_least by auto
qed

end

lemma mset_heappush: "mset (heappush xs x) = add_mset x (mset xs)"
  by (simp add: heappush_def mset_siftdown)

lemma heappop_cases:
  assumes "xs \<noteq> []"
  shows "\<exists>h'. heappop xs = Inr (hd xs, h') \<and> mset xs = add_mset (hd xs) (mset h')"
proof (cases "butlast xs")
  case Nil
  with assms show ?thesis
    by (cases xs) (auto simp: heappop_def split: if_splits)
next
  case (Cons a list)
  then have xs: "xs = a # list @ [last xs]"
    using assms by (metis append_Cons append_butlast_last_id)
  then have "mset xs = add_mset a (mset ((butlast xs)[0 := last xs]))"
    using Cons by (metis add_mset_add_single list_update_code(2) mset.simps(2) mset_append
        union_mset_add_mset_right mset.simps(1) add_mset_commute)
  moreover have "hd xs = a" by (subst xs) simp
  ultimately show ?thesis
    using Cons assms by (simp add: heappop_def mset_siftup)
qed

lemma heappop_heap:
  assumes "heap_inv xs" and "heappop xs = Inr (x, h')"
  shows "heap_inv h'"
proof (cases "butlast xs = []")
  case True
  with assms(2) show ?thesis by (auto simp: heappop_def split: if_splits)
next
  case False
  with assms(2) have "h' = siftup ((butlast xs)[0 := last xs]) 0"
    by (auto simp: heappop_def Let_def split: if_splits)
  moreover have "heap_from 0 (siftup ((butlast xs)[0 := last xs]) 0)"
    using False heap_inv_butlast [OF assms(1)] by (intro siftup_heap) (simp_all flip: length_greater_0_conv)
  ultimately show ?thesis by (simp add: heap_inv_def)
qed

interpretation heapq: priority_heap heappush heappop mset
  "\<lambda>h. if h = [] then None else Some (hd h)" heap_inv
proof (unfold_locales, goal_cases)
  case 1
  show ?case by (rule mset_heappush)
next
  case 2
  then show ?case by (rule heappush_heap)
next
  case 3
  then show ?case by (simp add: heappop_def)
next
  case (4 h)
  then show ?case using heappop_cases [of h] by auto
next
  case 5
  then show ?case by (rule heappop_heap)
next
  case 6
  then show ?case by (auto simp: heap_inv_hd split: if_splits)
next
  case 7
  then show ?case by simp
qed

lemma mset_heapify: "mset (heapify xs) = mset xs"
proof -
  have "mset (fold (\<lambda>i h. siftup h i) is ys) = mset ys"
    if "\<forall>i \<in> set is. i < length ys" for "is" and ys :: "'a list"
    using that by (induction "is" arbitrary: ys) (simp_all add: mset_siftup)
  moreover have "\<forall>i \<in> set (rev [0..<length xs div 2]). i < length xs" by auto
  ultimately show ?thesis by (simp only: heapify_def)
qed

end
