(* ===== verification/Price_Index.thy ===== *)
theory Price_Index
  imports Book_State Heapq
begin

text \<open>
  The lazy best-price index of \<open>ReferenceEngine\<close>: per side a binary heap of
  \<open>(key, generation, price)\<close> entries, where an entry is live while its generation is the one
  recorded for its price.  Stale entries are popped or compacted on demand, and \<open>_iter_prices\<close> visits
  the heap array best-first through a second heap.  The locale \<open>best_price_index\<close> states what the
  matching code relies on; the interpretation \<open>side_index\<close> discharges it for both sides.
\<close>

section \<open>The operations\<close>

definition register_level :: "side \<Rightarrow> int \<Rightarrow> (engine, unit) prog" where
  "register_level levels price = modifyP (\<lambda>s.
     let generation = eng_next_level_generation s;
         s1 = s\<lparr>eng_next_level_generation := generation + 1\<rparr>;
         s2 = set_generations levels (dict_setitem price generation (generations_of levels s1)) s1;
         s3 = set_aggregates levels (dict_setitem price 0 (aggregates_of levels s2)) s2
     in set_heap levels
          (heappush (heap_of levels s3) (price_key levels price, generation, price)) s3)"

definition remove_level :: "side \<Rightarrow> int \<Rightarrow> (engine, unit) prog" where
  "remove_level levels price =
     bindP (getsP (levels_of levels)) (\<lambda>l. bindP (liftP (dict_delitem price l)) (\<lambda>l'.
     seqP (modifyP (set_levels levels l'))
    (bindP (getsP (aggregates_of levels)) (\<lambda>a. bindP (liftP (dict_delitem price a)) (\<lambda>a'.
     seqP (modifyP (set_aggregates levels a'))
    (bindP (getsP (generations_of levels)) (\<lambda>g. bindP (liftP (dict_delitem price g)) (\<lambda>g'.
     modifyP (set_generations levels g')))))))))"

lemma heappop_shrinks: "heappop h = Inr (x, h') \<Longrightarrow> mset h = add_mset x (mset h') \<and> length h' < length h"
proof -
  assume pop: "heappop h = Inr (x, h')"
  then have "mset h \<noteq> {#}" by (auto simp: heappop_def)
  with heapq.pop_front [of h] pop have eq: "mset h = add_mset x (mset h')" by auto
  then have "length h = Suc (length h')" by (metis size_add_mset size_mset)
  with eq show ?thesis by simp
qed

text \<open>The \<open>while heap and generations.get(heap[0][2]) != heap[0][1]\<close> loop.\<close>

function drop_stale :: "(int, int) dict \<Rightarrow> price_heap \<Rightarrow> price_heap result" where
  "drop_stale generations heap =
     (case heap of
        [] \<Rightarrow> Inr []
      | (k, g, p) # _ \<Rightarrow>
          (if map_of generations p \<noteq> Some g
           then (case heappop heap of
                   Inl e \<Rightarrow> Inl e
                 | Inr (_, heap') \<Rightarrow> drop_stale generations heap')
           else Inr heap))"
  by pat_completeness auto
termination
  by (relation "measure (\<lambda>(generations, heap). length heap)")
    (auto dest!: heappop_shrinks simp del: length_0_conv)

declare drop_stale.simps [simp del]

definition rebuilt_heap :: "side \<Rightarrow> (int, int) dict \<Rightarrow> price_heap" where
  "rebuilt_heap levels generations =
     heapify (map (\<lambda>(price, generation). (price_key levels price, generation, price)) generations)"

definition prepare_price_heap :: "side \<Rightarrow> (engine, price_heap) prog" where
  "prepare_price_heap levels =
     bindP (getsP (price_index levels)) (\<lambda>(heap, generations, descending).
     bindP (liftP (drop_stale generations heap)) (\<lambda>heap1.
     seqP (modifyP (set_heap levels heap1))
    (bindP (getsP (\<lambda>s. if max 64 (2 * length (levels_of levels s)) < length heap1
                       then rebuilt_heap levels generations else heap1)) (\<lambda>heap2.
     seqP (modifyP (set_heap levels heap2)) (ret heap2)))))"

definition best_price :: "side \<Rightarrow> bool \<Rightarrow> (engine, int option) prog" where
  "best_price levels descending =
     (if descending \<noteq> index_descending levels then raise RuntimeError
      else bindP (prepare_price_heap levels) (\<lambda>heap.
        ret (case heap of [] \<Rightarrow> None | (k, g, p) # _ \<Rightarrow> Some p)))"

text \<open>
  \<open>_iter_prices\<close>.  The generator is consumed by \<open>_project_fills\<close> only, which writes nothing, so its
  yields are a list; a frontier entry is \<open>(key, generation, index)\<close>.
\<close>

definition frontier_push :: "price_heap \<Rightarrow> (int \<times> int \<times> nat) list \<Rightarrow> nat \<Rightarrow> (int \<times> int \<times> nat) list"
  where
  "frontier_push heap frontier i =
     (if i < length heap
      then heappush frontier (fst (heap ! i), fst (snd (heap ! i)), i)
      else frontier)"

lemma mset_frontier_push:
  "mset (frontier_push heap frontier i) =
     (if i < length heap
      then add_mset (fst (heap ! i), fst (snd (heap ! i)), i) (mset frontier) else mset frontier)"
  by (simp add: frontier_push_def mset_heappush)

function iter_frontier ::
  "price_heap \<Rightarrow> (int, int) dict \<Rightarrow> (int \<times> int \<times> nat) list \<Rightarrow> int list result" where
  "iter_frontier heap generations frontier =
     (if frontier = [] then Inr []
      else case heappop frontier of
        Inl e \<Rightarrow> Inl e
      | Inr ((k, g, index), frontier1) \<Rightarrow>
          (if length heap \<le> index then Inl IndexError
           else
             let entry = heap ! index; left = 2 * index + 1; right = left + 1;
                 frontier2 = frontier_push heap frontier1 left;
                 frontier3 = frontier_push heap frontier2 right
             in case iter_frontier heap generations frontier3 of
                  Inl e \<Rightarrow> Inl e
                | Inr rest \<Rightarrow>
                    Inr (if map_of generations (snd (snd entry)) = Some (fst (snd entry))
                         then snd (snd entry) # rest else rest)))"
  by pat_completeness auto
termination
proof (relation "measure (\<lambda>(heap, generations, frontier).
    \<Sum>x \<in># mset frontier. 3 ^ (length heap - snd (snd x)))", goal_cases)
  case 1
  then show ?case by simp
next
  case (2 heap generations frontier b x frontier1 k y g index entry left right frontier2 frontier3)
  from 2 have pop: "mset frontier = add_mset (k, g, index) (mset frontier1)"
    by (auto dest: heappop_shrinks)
  let ?c = "(3::nat) ^ (length heap - Suc index)"
  have "length heap - index = Suc (length heap - Suc index)"
    using 2 by simp
  then have w: "3 ^ (length heap - index) = 3 * ?c"
    by (simp only: power_Suc)
  have "3 ^ (length heap - left) \<le> ?c" and "3 ^ (length heap - right) \<le> ?c" and "0 < ?c"
    using 2 by (auto intro!: power_increasing)
  then have "3 ^ (length heap - left) + 3 ^ (length heap - right) < 3 * ?c"
    and "3 ^ (length heap - left) < 3 * ?c" and "3 ^ (length heap - right) < 3 * ?c"
    by linarith+
  with w pop 2 show ?case
    by (auto simp: mset_frontier_push add.commute)
qed

declare iter_frontier.simps [simp del]

definition iter_prices :: "side \<Rightarrow> bool \<Rightarrow> (engine, int list) prog" where
  "iter_prices levels descending =
     (if descending \<noteq> index_descending levels then raise RuntimeError
      else bindP (getsP (generations_of levels)) (\<lambda>generations.
        bindP (prepare_price_heap levels) (\<lambda>heap.
        if heap = [] then ret []
        else liftP (iter_frontier heap generations [(fst (heap ! 0), 0, 0)]))))"

section \<open>Best-first traversal of the heap array\<close>

text \<open>The entries of the subtree at position \<open>i\<close>.\<close>

function sub_mset :: "'a list \<Rightarrow> nat \<Rightarrow> 'a multiset" where
  "sub_mset h i =
     (if i < length h then add_mset (h ! i) (sub_mset h (2 * i + 1) + sub_mset h (2 * i + 2))
      else {#})"
  by pat_completeness auto
termination
  by (relation "measure (\<lambda>(h, i). length h - i)") auto

declare sub_mset.simps [simp del]

lemma sub_mset_in:
  "i < length h \<Longrightarrow> sub_mset h i = add_mset (h ! i) (sub_mset h (2 * i + 1) + sub_mset h (2 * i + 2))"
  by (subst sub_mset.simps) simp

lemma sub_mset_out [simp]: "length h \<le> i \<Longrightarrow> sub_mset h i = {#}"
  by (subst sub_mset.simps) simp

lemma sub_mset_root_least: "heap_inv h \<Longrightarrow> x \<in># sub_mset h i \<Longrightarrow> h ! i \<le> x"
proof (induction h i rule: sub_mset.induct)
  case (1 h i)
  have i: "i < length h"
    using "1.prems"(2) by (rule contrapos_pp) simp
  from "1.prems"(2) sub_mset_in [OF i]
  consider "x = h ! i" | j where "j = 2 * i + 1 \<or> j = 2 * i + 2" "x \<in># sub_mset h j"
    by auto
  then show ?case
  proof cases
    case 2
    have j: "j < length h"
      using 2(2) by (rule contrapos_pp) simp
    have "0 < j" and "parent_of j = i"
      using 2(1) by (auto simp: parent_of_def)
    then have "h ! i \<le> h ! j"
      using j "1.prems"(1) by (auto simp: heap_inv_def heap_from_def)
    also have "\<dots> \<le> x"
      using 2 "1.IH" [OF i "1.prems"(1)] by auto
    finally show ?thesis .
  qed simp
qed

text \<open>Breadth-first: after \<open>k\<close> positions the frontier is \<open>k, \<dots>, 2 k\<close>.\<close>

lemma sub_mset_all: "sub_mset h 0 = mset h"
proof -
  have bfs: "k \<le> length h \<Longrightarrow>
      mset (take k h) + (\<Sum>i \<in># mset [k..<2 * k + 1]. sub_mset h i) = sub_mset h 0" for k
  proof (induction k)
    case (Suc k)
    define U where "U = [Suc k..<2 * k + 1]"
    have "[Suc k..<2 * Suc k + 1] = U @ [2 * k + 1, 2 * k + 2]"
      by (simp add: U_def)
    moreover have "[k..<2 * k + 1] = k # U"
      by (simp add: U_def upt_conv_Cons del: upt_Suc)
    moreover have "mset (take (Suc k) h) = add_mset (h ! k) (mset (take k h))"
      using Suc.prems by (simp add: take_Suc_conv_app_nth)
    ultimately show ?case
      using Suc sub_mset_in [of k h] by (simp add: add.assoc del: upt_Suc mult_Suc_right)
  qed simp
  have "(\<Sum>i \<in># mset [length h..<2 * length h + 1]. sub_mset h i) = {#}"
    by (auto simp: sum_mset_0_iff)
  with bfs [of "length h", OF order_refl] show ?thesis
    by (simp only: take_all [OF order_refl] add_0_right)
qed

definition entry_key :: "int \<times> int \<times> int \<Rightarrow> int \<times> int" where
  "entry_key e = (fst e, fst (snd e))"

definition live :: "(int, int) dict \<Rightarrow> int \<times> int \<times> int \<Rightarrow> bool" where
  "live generations e \<longleftrightarrow> map_of generations (snd (snd e)) = Some (fst (snd e))"

definition frontier_ok :: "price_heap \<Rightarrow> (int \<times> int \<times> nat) list \<Rightarrow> bool" where
  "frontier_ok h fr \<longleftrightarrow> (\<forall>x \<in> set fr. snd (snd x) < length h \<and>
     (fst x, fst (snd x)) = entry_key (h ! snd (snd x)))"

definition traversal_of :: "price_heap \<Rightarrow> (int \<times> int \<times> nat) list \<Rightarrow> (int \<times> int \<times> int) list \<Rightarrow> bool"
  where
  "traversal_of h fr es \<longleftrightarrow>
     mset es = (\<Sum>x \<in># mset fr. sub_mset h (snd (snd x))) \<and> sorted (map entry_key es)"

lemma entry_key_mono: "e \<le> e' \<Longrightarrow> entry_key e \<le> entry_key e'"
  by (cases e; cases e') (auto simp: entry_key_def less_eq_prod_def less_prod_def)

lemma sorted_map_fst: "sorted (xs :: (int \<times> int) list) \<Longrightarrow> sorted (map fst xs)"
  by (rule sorted_wrt_mono_rel [THEN sorted_map [THEN iffD2], of _ "(\<le>)"]) (auto simp: less_eq_prod_def)

lemma triple_le_key: "(a :: int, b :: int, i :: nat) \<le> (a', b', j) \<Longrightarrow> (a, b) \<le> (a', b')"
  by (auto simp: less_eq_prod_def less_prod_def)

lemma traversal_step:
  assumes pop: "mset fr = add_mset (k, g, i) (mset fr1)" and i: "i < length h"
    and h: "heap_inv h" and fr1: "frontier_ok h fr1"
    and least: "\<forall>x \<in> set fr1. entry_key (h ! i) \<le> (fst x, fst (snd x))"
    and rest: "traversal_of h
      (frontier_push h (frontier_push h fr1 (2 * i + 1)) (2 * i + 1 + 1)) es"
  shows "traversal_of h fr (h ! i # es)"
proof -
  have es: "mset es = (\<Sum>x \<in># mset fr1. sub_mset h (snd (snd x))) +
      sub_mset h (2 * i + 1) + sub_mset h (2 * i + 2)"
    using rest by (auto simp: traversal_of_def mset_frontier_push)
  have "entry_key (h ! i) \<le> entry_key y" if y: "y \<in> set es" for y
  proof -
    from y have "y \<in># mset es" by simp
    then consider x where "x \<in> set fr1" "y \<in># sub_mset h (snd (snd x))"
      | "y \<in># sub_mset h (2 * i + 1) + sub_mset h (2 * i + 2)"
      unfolding es by auto
    then show ?thesis
    proof cases
      case 1
      then have "entry_key (h ! i) \<le> entry_key (h ! snd (snd x))"
        using least fr1 by (auto simp: frontier_ok_def)
      also have "\<dots> \<le> entry_key y"
        using sub_mset_root_least [OF h 1(2)] by (rule entry_key_mono)
      finally show ?thesis .
    next
      case 2
      then have "y \<in># sub_mset h i" by (simp add: sub_mset_in [OF i])
      then show ?thesis using sub_mset_root_least [OF h] entry_key_mono by blast
    qed
  qed
  moreover have "sorted (map entry_key es)" using rest by (simp add: traversal_of_def)
  ultimately show ?thesis
    by (simp add: traversal_of_def pop es sub_mset_in [OF i])
qed

lemma frontier_push_inv: "heap_inv fr \<Longrightarrow> heap_inv (frontier_push h fr i)"
  by (simp add: frontier_push_def heapq.push_invar)

lemma frontier_push_ok: "frontier_ok h fr \<Longrightarrow> frontier_ok h (frontier_push h fr i)"
  by (auto simp: frontier_ok_def entry_key_def mset_frontier_push
      simp flip: set_mset_mset split: if_splits)

lemma iter_frontier_step:
  assumes "heappop fr = Inr ((k, g, i), fr1)" and "i < length h"
    and "iter_frontier h gens
      (frontier_push h (frontier_push h fr1 (2 * i + 1)) (2 * i + 1 + 1)) =
        Inr (map (snd \<circ> snd) (filter (live gens) es))"
  shows "iter_frontier h gens fr = Inr (map (snd \<circ> snd) (filter (live gens) (h ! i # es)))"
proof -
  have "fr \<noteq> []" using assms(1) by (auto simp: heappop_def)
  with assms show ?thesis
    by (subst iter_frontier.simps) (simp add: Let_def live_def)
qed

lemma iter_frontier_spec:
  assumes "heap_inv h" and "heap_inv fr" and "frontier_ok h fr"
  shows "\<exists>es. iter_frontier h gens fr = Inr (map (snd \<circ> snd) (filter (live gens) es)) \<and>
    traversal_of h fr es"
  using assms
proof (induction h gens fr rule: iter_frontier.induct)
  case (1 h gens fr)
  show ?case
  proof (cases "fr = []")
    case True
    then show ?thesis
      by (intro exI [of _ "[]"]) (simp add: iter_frontier.simps traversal_of_def)
  next
    case False
    then obtain k g i fr1 where pop: "heappop fr = Inr ((k, g, i), fr1)"
      using heapq.pop_front [of fr] by (metis mset_zero_iff prod_cases3)
    note least = heapq.pop_least [OF "1.prems"(2) pop]
    have elem: "(k, g, i) \<in> set fr" and sub: "set fr1 \<subseteq> set fr"
      using least(2) by (auto simp flip: set_mset_mset)
    then have i: "i < length h" and key: "(k, g) = entry_key (h ! i)"
      and ok1: "frontier_ok h fr1"
      using "1.prems"(3) by (auto simp: frontier_ok_def)
    have below: "\<forall>x \<in> set fr1. entry_key (h ! i) \<le> (fst x, fst (snd x))"
    proof
      fix x
      assume "x \<in> set fr1"
      then have "x \<in># mset fr" using sub by auto
      with least(3) have "(k, g, i) \<le> (fst x, fst (snd x), snd (snd x))" by simp
      then show "entry_key (h ! i) \<le> (fst x, fst (snd x))"
        unfolding key [symmetric] by (rule triple_le_key)
    qed
    let ?fr3 = "frontier_push h (frontier_push h fr1 (2 * i + 1)) (2 * i + 1 + 1)"
    have "heap_inv ?fr3" and "frontier_ok h ?fr3"
      using least(1) ok1 by (simp_all add: frontier_push_inv frontier_push_ok)
    with "1.IH" [OF False pop refl refl refl _ refl refl refl refl refl, simplified] i "1.prems"(1)
    obtain es where "iter_frontier h gens ?fr3 = Inr (map (snd \<circ> snd) (filter (live gens) es))"
      and "traversal_of h ?fr3 es"
      by (auto simp: comp_def)
    with traversal_step [OF least(2) i "1.prems"(1) ok1 below]
      iter_frontier_step [OF pop i] show ?thesis by blast
  qed
qed

text \<open>The traversal \<open>_iter_prices\<close> starts: the root with generation 0.\<close>

lemma iter_from_root:
  assumes h: "heap_inv h" and ne: "h \<noteq> []"
  shows "\<exists>es. iter_frontier h gens [(fst (h ! 0), 0, 0)] =
      Inr (map (snd \<circ> snd) (filter (live gens) es)) \<and> mset es = mset h \<and> sorted (map entry_key es)"
proof -
  let ?fr = "[(fst (h ! 0), 0, 0)] :: (int \<times> int \<times> nat) list"
  have pop: "heappop ?fr = Inr ((fst (h ! 0), 0, 0), [])" by (simp add: heappop_def)
  let ?fr3 = "frontier_push h (frontier_push h [] (2 * 0 + 1)) (2 * 0 + 1 + 1)"
  have "frontier_ok h []" by (simp add: frontier_ok_def)
  then have "heap_inv ?fr3" and "frontier_ok h ?fr3"
    by (simp_all add: frontier_push_inv frontier_push_ok)
  from iter_frontier_spec [OF h this, of gens] obtain es where
    es: "iter_frontier h gens ?fr3 = Inr (map (snd \<circ> snd) (filter (live gens) es))"
      "traversal_of h ?fr3 es" by auto
  have "traversal_of h ?fr (h ! 0 # es)"
    by (rule traversal_step [OF _ _ h _ _ es(2)]) (use ne in \<open>auto simp: frontier_ok_def\<close>)
  moreover have "iter_frontier h gens ?fr = Inr (map (snd \<circ> snd) (filter (live gens) (h ! 0 # es)))"
    by (rule iter_frontier_step [OF pop _ es(1)]) (use ne in auto)
  ultimately show ?thesis
    by (intro exI [of _ "h ! 0 # es"]) (simp add: traversal_of_def sub_mset_all)
qed

section \<open>The index invariant\<close>

text \<open>
  The heap is a heap of distinct entries keyed by their price, generations are older than the next
  one to be issued, and every recorded generation has its entry.
\<close>

definition index_ok :: "side \<Rightarrow> (int, int) dict \<Rightarrow> int \<Rightarrow> price_heap \<Rightarrow> bool" where
  "index_ok sd gens next h \<longleftrightarrow>
     heap_inv h \<and> distinct h \<and> dict_ok gens \<and>
     (\<forall>(k, g, p) \<in> set h. k = price_key sd p \<and> g < next) \<and>
     (\<forall>p g. map_of gens p = Some g \<longrightarrow> (price_key sd p, g, p) \<in> set h)"

definition index_inv :: "side \<Rightarrow> engine \<Rightarrow> bool" where
  "index_inv sd s \<longleftrightarrow>
     index_ok sd (generations_of sd s) (eng_next_level_generation s) (heap_of sd s)"

lemma drop_stale_spec:
  assumes "heap_inv h"
  shows "\<exists>h'. drop_stale gens h = Inr h' \<and> heap_inv h' \<and> mset h' \<subseteq># mset h \<and>
    filter_mset (live gens) (mset h') = filter_mset (live gens) (mset h) \<and>
    (h' \<noteq> [] \<longrightarrow> live gens (hd h'))"
  using assms
proof (induction gens h rule: drop_stale.induct)
  case (1 gens h)
  show ?case
  proof (cases "h = [] \<or> live gens (hd h)")
    case True
    then show ?thesis
      using "1.prems" by (cases h) (auto simp: drop_stale.simps live_def)
  next
    case False
    then obtain k g p rest where h: "h = (k, g, p) # rest" and stale: "map_of gens p \<noteq> Some g"
      by (cases h) (auto simp: live_def)
    from False heapq.pop_stale [of h "hd h" "live gens"] obtain h1 where
      pop: "heappop h = Inr (hd h, h1)"
      and keep: "filter_mset (live gens) (mset h1) = filter_mset (live gens) (mset h)"
      by auto
    note inv = heapq.pop_least [OF "1.prems" pop]
    from "1.IH" [OF h refl refl stale _ refl] pop inv(1) obtain h' where
      "drop_stale gens h1 = Inr h'" "heap_inv h'" "mset h' \<subseteq># mset h1"
      "filter_mset (live gens) (mset h') = filter_mset (live gens) (mset h1)"
      "h' \<noteq> [] \<longrightarrow> live gens (hd h')"
      by (auto simp: h)
    moreover have "drop_stale gens h = drop_stale gens h1"
      using pop stale by (subst drop_stale.simps) (simp add: h)
    moreover have "mset h1 \<subseteq># mset h" by (simp add: inv(2))
    ultimately show ?thesis using keep by (auto intro: subset_mset.order_trans)
  qed
qed

lemma live_in_filtered:
  assumes "filter_mset (live gens) (mset h') = filter_mset (live gens) (mset h)"
    and "e \<in> set h" and "live gens e"
  shows "e \<in> set h'"
proof -
  have "e \<in># filter_mset (live gens) (mset h')" using assms by simp
  then show ?thesis by simp
qed

lemma index_ok_drop_stale:
  assumes "index_ok sd gens next h" and "heap_inv h'" and "mset h' \<subseteq># mset h"
    and "filter_mset (live gens) (mset h') = filter_mset (live gens) (mset h)"
  shows "index_ok sd gens next h'"
proof -
  have sub: "set h' \<subseteq> set h" using assms(3) by (metis set_mset_mono set_mset_mset)
  from assms(3) obtain ys where "mset h = mset (h' @ ys)"
    by (metis ex_mset mset_append mset_subset_eq_exists_conv)
  from mset_eq_imp_distinct_iff [OF this] have "distinct h'"
    using assms(1) by (simp add: index_ok_def)
  with sub assms(1,2) live_in_filtered [OF assms(4)] show ?thesis
    by (auto simp: index_ok_def live_def)
qed

lemma set_rebuilt:
  "set (rebuilt_heap sd gens) =
     set (map (\<lambda>(price, generation). (price_key sd price, generation, price)) gens)"
  unfolding rebuilt_heap_def by (rule mset_eq_setD [OF mset_heapify])

lemma index_ok_rebuilt:
  assumes "index_ok sd gens next h"
  shows "index_ok sd gens next (rebuilt_heap sd gens)"
proof -
  let ?entries = "map (\<lambda>(price, generation). (price_key sd price, generation, price)) gens"
  have "dict_ok gens" using assms by (simp add: index_ok_def)
  then have "distinct ?entries"
    by (auto simp: distinct_map inj_on_def)
  then have d: "distinct (rebuilt_heap sd gens)"
    unfolding rebuilt_heap_def mset_eq_imp_distinct_iff [OF mset_heapify] .
  note s = set_rebuilt [of sd gens]
  have "g < next" if "(p, g) \<in> set gens" for p g
    using that assms map_of_in_dict [OF \<open>dict_ok gens\<close>] by (fastforce simp: index_ok_def)
  with d s \<open>dict_ok gens\<close> heapify_heap show ?thesis
    by (auto simp: index_ok_def rebuilt_heap_def dest!: map_of_SomeD)
qed

lemma rebuilt_live:
  assumes "dict_ok gens" and "e \<in> set (rebuilt_heap sd gens)"
  shows "live gens e"
proof -
  from assms(2) obtain p g where "(p, g) \<in> set gens" and "e = (price_key sd p, g, p)"
    unfolding set_rebuilt by auto
  then show ?thesis using assms(1) by (simp add: live_def map_of_in_dict [symmetric])
qed

lemma prepare_price_heap_spec:
  assumes "index_inv sd s"
  shows "\<exists>h. prepare_price_heap sd s = (Inr h, set_heap sd h s) \<and> index_inv sd (set_heap sd h s) \<and>
    (h \<noteq> [] \<longrightarrow> live (generations_of sd s) (hd h))"
proof -
  let ?gens = "generations_of sd s"
  have ok: "index_ok sd ?gens (eng_next_level_generation s) (heap_of sd s)"
    using assms by (simp add: index_inv_def)
  then have "heap_inv (heap_of sd s)" and gens: "dict_ok ?gens" by (simp_all add: index_ok_def)
  from drop_stale_spec [OF this(1), of ?gens] obtain h1 where
    h1: "drop_stale ?gens (heap_of sd s) = Inr h1" "h1 \<noteq> [] \<longrightarrow> live ?gens (hd h1)"
    and ok1: "index_ok sd ?gens (eng_next_level_generation s) h1"
    using index_ok_drop_stale [OF ok] by blast
  let ?h2 = "if max 64 (2 * length (levels_of sd s)) < length h1 then rebuilt_heap sd ?gens else h1"
  have "prepare_price_heap sd s = (Inr ?h2, set_heap sd ?h2 s)"
    using h1(1) by (cases sd) (simp_all add: prepare_price_heap_def price_index_def bindP_def
        seqP_def modifyP_def set_heap_def levels_of_def getsP_def)
  moreover have "index_inv sd (set_heap sd ?h2 s)"
    using ok1 index_ok_rebuilt [OF ok] by (simp add: index_inv_def)
  moreover have "?h2 \<noteq> [] \<longrightarrow> live ?gens (hd ?h2)"
    using h1(2) rebuilt_live [OF gens hd_in_set] by simp
  ultimately show ?thesis by blast
qed

section \<open>What the index answers\<close>

definition indexed_prices :: "side \<Rightarrow> engine \<Rightarrow> int set" where
  "indexed_prices sd s = dom (map_of (generations_of sd s))"

text \<open>The prices of a finite set, best first.\<close>

definition best_first :: "side \<Rightarrow> int set \<Rightarrow> int list" where
  "best_first sd P = sort_key (price_key sd) (sorted_list_of_set P)"

lemma best_first_eq:
  assumes "set xs = P" and "distinct xs" and "sorted (map (price_key sd) xs)"
  shows "xs = best_first sd P"
  unfolding best_first_def
  by (rule sort_key_unique) (use assms in \<open>auto simp: inj_price_key\<close>)

lemma set_best_first [simp]: "finite P \<Longrightarrow> set (best_first sd P) = P"
  and distinct_best_first [simp]: "distinct (best_first sd P)"
  and sorted_best_first: "sorted (map (price_key sd) (best_first sd P))"
  by (simp_all add: best_first_def)

lemma best_first_head:
  assumes "finite P" and "best_first sd P = p # ps"
  shows "p \<in> P \<and> (\<forall>q \<in> P. price_key sd p \<le> price_key sd q)"
proof -
  have "P = set (p # ps)" using assms set_best_first by metis
  moreover have "sorted (map (price_key sd) (p # ps))"
    using sorted_best_first [of sd P] assms(2) by simp
  ultimately show ?thesis by auto
qed

lemma finite_indexed [simp]: "finite (indexed_prices sd s)"
  by (simp add: indexed_prices_def finite_dom_map_of)

lemma index_ok_live:
  assumes "index_ok sd gens next h"
  shows "e \<in> set h \<and> live gens e \<longleftrightarrow>
    (\<exists>p g. map_of gens p = Some g \<and> e = (price_key sd p, g, p))"
  using assms by (cases e) (fastforce simp: index_ok_def live_def)

lemma best_price_spec:
  assumes "index_inv sd s"
  shows "\<exists>h. best_price sd (index_descending sd) s =
      (Inr (case best_first sd (indexed_prices sd s) of [] \<Rightarrow> None | p # _ \<Rightarrow> Some p), set_heap sd h s)
    \<and> index_inv sd (set_heap sd h s)"
proof -
  let ?gens = "generations_of sd s"
  obtain h where h: "prepare_price_heap sd s = (Inr h, set_heap sd h s)"
    "index_inv sd (set_heap sd h s)" "h \<noteq> [] \<longrightarrow> live ?gens (hd h)"
    using prepare_price_heap_spec [OF assms] by blast
  then have ok: "index_ok sd ?gens (eng_next_level_generation s) h"
    by (simp add: index_inv_def)
  have "(case h of [] \<Rightarrow> None | (k, g, p) # _ \<Rightarrow> Some p) =
      (case best_first sd (indexed_prices sd s) of [] \<Rightarrow> None | p # _ \<Rightarrow> Some p)"
  proof (cases h)
    case Nil
    then have "indexed_prices sd s = {}"
      using ok by (auto simp: index_ok_def indexed_prices_def dom_def simp del: dom_eq_empty_conv)
    then show ?thesis by (simp add: Nil best_first_def)
  next
    case (Cons e rest)
    from h(3) Cons index_ok_live [OF ok, of e] obtain p g where
      e: "map_of ?gens p = Some g" "e = (price_key sd p, g, p)" by auto
    have least: "price_key sd p \<le> price_key sd q" if "q \<in> indexed_prices sd s" for q
    proof -
      from that obtain g' where "map_of ?gens q = Some g'" by (auto simp: indexed_prices_def)
      then have "(price_key sd q, g', q) \<in> set h" using index_ok_live [OF ok] by blast
      moreover have "heap_inv h" using ok by (simp add: index_ok_def)
      ultimately have "hd h \<le> (price_key sd q, g', q)" by (rule heap_inv_hd [rotated])
      then show ?thesis by (auto simp: Cons e less_eq_prod_def)
    qed
    have p: "p \<in> indexed_prices sd s" using e by (auto simp: indexed_prices_def)
    then obtain q qs where bf: "best_first sd (indexed_prices sd s) = q # qs"
      by (metis emptyE finite_indexed list.exhaust list.set(1) set_best_first)
    then have "q \<in> indexed_prices sd s"
      by (metis finite_indexed list.set_intros(1) set_best_first)
    moreover have "price_key sd q \<le> price_key sd p"
      using sorted_best_first [of sd "indexed_prices sd s"] p
        set_best_first [OF finite_indexed, of sd sd s] by (auto simp: bf)
    ultimately have "q = p" using least [of q] by (metis antisym price_key_inj)
    then show ?thesis by (simp add: Cons e bf)
  qed
  with h show ?thesis
    by (intro exI [of _ h]) (simp add: best_price_def bindP_def)
qed

lemma iter_prices_spec:
  assumes "index_inv sd s"
  shows "\<exists>h. iter_prices sd (index_descending sd) s =
      (Inr (best_first sd (indexed_prices sd s)), set_heap sd h s)
    \<and> index_inv sd (set_heap sd h s)"
proof -
  let ?gens = "generations_of sd s"
  obtain h where h: "prepare_price_heap sd s = (Inr h, set_heap sd h s)"
    "index_inv sd (set_heap sd h s)"
    using prepare_price_heap_spec [OF assms] by blast
  then have ok: "index_ok sd ?gens (eng_next_level_generation s) h"
    by (simp add: index_inv_def)
  have "(if h = [] then Inr [] else iter_frontier h ?gens [(fst (h ! 0), 0, 0)]) =
      Inr (best_first sd (indexed_prices sd s))"
  proof (cases "h = []")
    case True
    then have "indexed_prices sd s = {}"
      using ok by (auto simp: index_ok_def indexed_prices_def dom_def simp del: dom_eq_empty_conv)
    then show ?thesis by (simp add: True best_first_def)
  next
    case False
    have inv: "heap_inv h" and d: "distinct h" using ok by (simp_all add: index_ok_def)
    obtain es where es: "iter_frontier h ?gens [(fst (h ! 0), 0, 0)] =
        Inr (map (snd \<circ> snd) (filter (live ?gens) es))" "mset es = mset h"
      "sorted (map entry_key es)"
      using iter_from_root [OF inv False, of ?gens] by blast
    let ?live = "filter (live ?gens) es"
    have live: "e \<in> set ?live \<longleftrightarrow> (\<exists>p g. map_of ?gens p = Some g \<and> e = (price_key sd p, g, p))" for e
      using index_ok_live [OF ok, of e] mset_eq_setD [OF es(2)] by auto
    have "map (snd \<circ> snd) ?live = best_first sd (indexed_prices sd s)"
    proof (rule best_first_eq)
      show "set (map (snd \<circ> snd) ?live) = indexed_prices sd s"
      proof
        show "set (map (snd \<circ> snd) ?live) \<subseteq> indexed_prices sd s"
          using live by (fastforce simp: indexed_prices_def)
        show "indexed_prices sd s \<subseteq> set (map (snd \<circ> snd) ?live)"
        proof
          fix p
          assume "p \<in> indexed_prices sd s"
          then obtain g where "map_of ?gens p = Some g" by (auto simp: indexed_prices_def)
          then have "(price_key sd p, g, p) \<in> set ?live" using live by blast
          then show "p \<in> set (map (snd \<circ> snd) ?live)" by force
        qed
      qed
      have "distinct es" using d mset_eq_imp_distinct_iff [OF es(2)] by simp
      moreover have "inj_on (snd \<circ> snd) (set ?live)"
      proof (rule inj_onI)
        fix x y
        assume "x \<in> set ?live" "y \<in> set ?live" "(snd \<circ> snd) x = (snd \<circ> snd) y"
        then show "x = y" unfolding live by auto
      qed
      ultimately show "distinct (map (snd \<circ> snd) ?live)"
        by (simp add: distinct_map)
      have keys: "map (price_key sd) (map (snd \<circ> snd) ?live) = map fst (map entry_key ?live)"
        using live by (fastforce simp: entry_key_def)
      have "sorted (map entry_key ?live)" using es(3) by (rule sorted_filter)
      then show "sorted (map (price_key sd) (map (snd \<circ> snd) ?live))"
        unfolding keys by (rule sorted_map_fst)
    qed
    with es(1) False show ?thesis by simp
  qed
  with h show ?thesis
    by (intro exI [of _ h]) (auto simp: iter_prices_def bindP_def getsP_def)
qed

section \<open>Opening and closing levels\<close>

text \<open>
  The caches of a side agree with its levels: same prices in the queues, the aggregates and the
  generations, and a sound heap.
\<close>

definition side_prices :: "side \<Rightarrow> engine \<Rightarrow> int set" where
  "side_prices sd s = dom (map_of (levels_of sd s))"

definition caches_ok :: "side \<Rightarrow> engine \<Rightarrow> bool" where
  "caches_ok sd s \<longleftrightarrow>
     dict_ok (levels_of sd s) \<and> dict_ok (aggregates_of sd s) \<and>
     dom (map_of (aggregates_of sd s)) = side_prices sd s \<and>
     indexed_prices sd s = side_prices sd s \<and> index_inv sd s"

lemma finite_side_prices [simp]: "finite (side_prices sd s)"
  by (simp add: side_prices_def finite_dom_map_of)

text \<open>\<open>levels[price] = deque()\<close> followed by \<open>_register_level\<close>, as \<open>_rest\<close> does for a new price.\<close>

definition open_level :: "side \<Rightarrow> int \<Rightarrow> (engine, unit) prog" where
  "open_level levels price =
     bindP (getsP (levels_of levels)) (\<lambda>l.
     seqP (modifyP (set_levels levels (dict_setitem price [] l))) (register_level levels price))"

definition opened :: "side \<Rightarrow> int \<Rightarrow> engine \<Rightarrow> engine" where
  "opened sd p s = snd (open_level sd p s)"

definition closed_level :: "side \<Rightarrow> int \<Rightarrow> engine \<Rightarrow> engine" where
  "closed_level sd p s =
     set_generations sd (AList.delete p (generations_of sd s))
      (set_aggregates sd (AList.delete p (aggregates_of sd s))
        (set_levels sd (AList.delete p (levels_of sd s)) s))"

lemma open_level_returns: "open_level sd p s = (Inr (), opened sd p s)"
  by (simp add: opened_def open_level_def register_level_def bindP_def getsP_def modifyP_def seqP_def)

lemma remove_level_returns:
  assumes "caches_ok sd s" and "p \<in> side_prices sd s"
  shows "remove_level sd p s = (Inr (), closed_level sd p s)"
proof -
  have "p \<in> dom (map_of (levels_of sd s))" and "p \<in> dom (map_of (aggregates_of sd s))"
    and "p \<in> dom (map_of (generations_of sd s))"
    using assms by (simp_all add: caches_ok_def side_prices_def indexed_prices_def)
  then show ?thesis
    by (simp add: remove_level_def dict_delitem_present closed_level_def domIff)
      (simp add: modifyP_def)
qed

lemma index_ok_push:
  assumes "index_ok sd gens next h" and "p \<notin> dom (map_of gens)"
  shows "index_ok sd (dict_setitem p next gens) (next + 1) (heappush h (price_key sd p, next, p))"
proof -
  have "(price_key sd p, next, p) \<notin> set h" using assms(1) by (auto simp: index_ok_def)
  then have "distinct (heappush h (price_key sd p, next, p))"
    using assms(1) mset_heappush [of h "(price_key sd p, next, p)"]
    by (metis distinct.simps(2) index_ok_def mset.simps(2) mset_eq_imp_distinct_iff)
  moreover have "set (heappush h (price_key sd p, next, p)) = insert (price_key sd p, next, p) (set h)"
    by (metis mset_heappush mset_eq_setD list.simps(15) mset.simps(2))
  ultimately show ?thesis
    using assms by (auto simp: index_ok_def heapq.push_invar)
qed

lemma index_ok_mono: "index_ok sd gens next h \<Longrightarrow> next \<le> next' \<Longrightarrow> index_ok sd gens next' h"
  by (fastforce simp: index_ok_def)

lemma index_ok_delete: "index_ok sd gens next h \<Longrightarrow> index_ok sd (AList.delete p gens) next h"
  by (auto simp: index_ok_def)

lemma opened_caches:
  assumes "caches_ok sd s" and "p \<notin> side_prices sd s"
  shows "caches_ok sd (opened sd p s)" and "side_prices sd (opened sd p s) = insert p (side_prices sd s)"
proof -
  have "p \<notin> dom (map_of (generations_of sd s))"
    using assms by (auto simp: caches_ok_def indexed_prices_def)
  with assms index_ok_push show "caches_ok sd (opened sd p s)"
    by (auto simp: caches_ok_def opened_def open_level_def register_level_def bindP_def getsP_def
        seqP_def modifyP_def Let_def side_prices_def indexed_prices_def index_inv_def)
  show "side_prices sd (opened sd p s) = insert p (side_prices sd s)"
    by (auto simp: opened_def open_level_def register_level_def bindP_def getsP_def seqP_def
        modifyP_def Let_def side_prices_def)
qed

lemma closed_caches:
  assumes "caches_ok sd s"
  shows "caches_ok sd (closed_level sd p s)"
    and "side_prices sd (closed_level sd p s) = side_prices sd s - {p}"
  using assms index_ok_delete
  by (auto simp: caches_ok_def closed_level_def side_prices_def indexed_prices_def index_inv_def)

lemma caches_ok_set_heap:
  "caches_ok sd s \<Longrightarrow> index_inv sd (set_heap sd h s) \<Longrightarrow> caches_ok sd (set_heap sd h s)"
  by (simp add: caches_ok_def side_prices_def indexed_prices_def)

lemma side_prices_set_heap [simp]: "side_prices sd (set_heap sd' h s) = side_prices sd s"
  by (simp add: side_prices_def)

section \<open>The index as an interface\<close>

text \<open>
  What matching and capacity projection rely on: \<open>best\<close> answers a least price by key (none exactly on
  an empty side), \<open>iterate\<close> enumerates all prices by key, and opening and closing levels change the
  price set accordingly.
\<close>

locale best_price_index =
  fixes key :: "int \<Rightarrow> int"
    and prices :: "'s \<Rightarrow> int set"
    and best :: "('s, int option) prog"
    and iterate :: "('s, int list) prog"
    and add :: "int \<Rightarrow> ('s, unit) prog"
    and remove :: "int \<Rightarrow> ('s, unit) prog"
    and invar :: "'s \<Rightarrow> bool"
  assumes key_inj: "key p = key q \<Longrightarrow> p = q"
    and best_law: "invar s \<Longrightarrow> \<exists>r s'. best s = (Inr r, s') \<and> invar s' \<and> prices s' = prices s \<and>
      (case r of None \<Rightarrow> prices s = {} | Some p \<Rightarrow> p \<in> prices s \<and> (\<forall>q \<in> prices s. key p \<le> key q))"
    and iterate_law: "invar s \<Longrightarrow> \<exists>ps s'. iterate s = (Inr ps, s') \<and> invar s' \<and> prices s' = prices s \<and>
      set ps = prices s \<and> distinct ps \<and> sorted (map key ps)"
    and add_law: "invar s \<Longrightarrow> p \<notin> prices s \<Longrightarrow>
      \<exists>s'. add p s = (Inr (), s') \<and> invar s' \<and> prices s' = insert p (prices s)"
    and remove_law: "invar s \<Longrightarrow> p \<in> prices s \<Longrightarrow>
      \<exists>s'. remove p s = (Inr (), s') \<and> invar s' \<and> prices s' = prices s - {p}"
begin

lemma iterate_determined:
  assumes "invar s" and "invar t" and "prices s = prices t"
    and "iterate s = (Inr ps, s')" and "iterate t = (Inr qs, t')"
  shows "ps = qs"
proof -
  have "set ps = prices s" "distinct ps" "sorted (map key ps)"
    using iterate_law [OF assms(1)] assms(4) by auto
  moreover have "set qs = prices s" "distinct qs" "sorted (map key qs)"
    using iterate_law [OF assms(2)] assms(3,5) by auto
  ultimately show ?thesis
    by (intro map_sorted_distinct_set_unique [of key])
      (auto simp: distinct_map inj_on_def dest: key_inj)
qed

lemma best_is_head:
  assumes "invar s" and "best s = (Inr r, s1)" and "iterate s = (Inr ps, s2)"
  shows "r = (case ps of [] \<Rightarrow> None | p # _ \<Rightarrow> Some p)"
proof -
  have ps: "set ps = prices s" "sorted (map key ps)"
    using iterate_law [OF assms(1)] assms(3) by auto
  have r: "case r of None \<Rightarrow> prices s = {} | Some p \<Rightarrow> p \<in> prices s \<and> (\<forall>q \<in> prices s. key p \<le> key q)"
    using best_law [OF assms(1)] assms(2) by auto
  show ?thesis
  proof (cases ps)
    case Nil
    with ps r show ?thesis by (cases r) auto
  next
    case (Cons q qs)
    then obtain p where p: "r = Some p" "p \<in> prices s" "key p \<le> key q"
      using ps r by (cases r) auto
    moreover have "key q \<le> key p" using ps p(2) Cons by auto
    ultimately show ?thesis using Cons key_inj [of p q] by auto
  qed
qed

text \<open>Closing the best level leaves the rest of the enumeration: the step of the matching loop.\<close>

lemma iterate_after_remove_best:
  assumes "invar s" and "best s = (Inr (Some p), s1)" and "remove p s1 = (Inr (), s2)"
    and "iterate s = (Inr ps, s3)" and "iterate s2 = (Inr qs, s4)"
  shows "ps = p # qs"
proof -
  from best_is_head [OF assms(1,2,4)] obtain ps' where ps': "ps = p # ps'"
    by (cases ps) auto
  have s1: "invar s1" "prices s1 = prices s" "p \<in> prices s"
    using best_law [OF assms(1)] assms(2) by auto
  then have s2: "invar s2" "prices s2 = prices s - {p}"
    using remove_law [of s1 p] assms(3) by auto
  have ps: "set ps = prices s" "distinct ps" "sorted (map key ps)"
    using iterate_law [OF assms(1)] assms(4) by auto
  have "set qs = prices s - {p}" "distinct qs" "sorted (map key qs)"
    using iterate_law [OF s2(1)] assms(5) s2(2) by auto
  moreover have "set ps' = prices s - {p}" "distinct ps'" "sorted (map key ps')"
    using ps ps' by auto
  ultimately have "ps' = qs"
    by (intro map_sorted_distinct_set_unique [of key])
      (auto simp: distinct_map inj_on_def dest: key_inj)
  with ps' show ?thesis by simp
qed

end

interpretation side_index: best_price_index "price_key sd" "side_prices sd"
  "best_price sd (index_descending sd)" "iter_prices sd (index_descending sd)"
  "open_level sd" "remove_level sd" "caches_ok sd" for sd
proof (unfold_locales, goal_cases)
  case (1 p q)
  then show ?case by simp
next
  case (2 s)
  then have inv: "index_inv sd s" and eq: "indexed_prices sd s = side_prices sd s"
    by (simp_all add: caches_ok_def)
  from best_price_spec [OF inv] obtain h where
    "best_price sd (index_descending sd) s =
      (Inr (case best_first sd (side_prices sd s) of [] \<Rightarrow> None | p # _ \<Rightarrow> Some p), set_heap sd h s)"
    "index_inv sd (set_heap sd h s)" by (auto simp: eq)
  moreover have "case (case best_first sd (side_prices sd s) of [] \<Rightarrow> None | p # _ \<Rightarrow> Some p) of
      None \<Rightarrow> side_prices sd s = {}
    | Some p \<Rightarrow> p \<in> side_prices sd s \<and> (\<forall>q \<in> side_prices sd s. price_key sd p \<le> price_key sd q)"
    using best_first_head [of "side_prices sd s" sd] set_best_first [of "side_prices sd s" sd]
    by (cases "best_first sd (side_prices sd s)") simp_all
  ultimately show ?case using 2 by (auto intro: caches_ok_set_heap)
next
  case (3 s)
  then have inv: "index_inv sd s" and eq: "indexed_prices sd s = side_prices sd s"
    by (simp_all add: caches_ok_def)
  from iter_prices_spec [OF inv] 3 show ?case
    by (auto simp: eq sorted_best_first intro: caches_ok_set_heap)
next
  case (4 s p)
  then show ?case using opened_caches [of sd s p] open_level_returns [of sd p s] by auto
next
  case (5 s p)
  then show ?case using closed_caches [of sd s p] remove_level_returns [of sd s p] by auto
qed

end
