(* ===== verification/Reference_Engine.thy ===== *)
theory Reference_Engine
  imports Price_Index
begin

text \<open>
  \<open>ReferenceEngine\<close> and the validation functions of \<open>python/src/atlaslob/reference.py\<close>, one definition
  per function or method, in the source's order.  A method is a program over the engine record: it
  returns or raises and keeps the mutations made before a raise.  Event lists, which the source
  appends to in place, are passed in and returned.
\<close>

section \<open>Validation of command shapes\<close>

definition is_valid_side :: "int \<Rightarrow> bool" where
  "is_valid_side v \<longleftrightarrow> v = side_value BUY \<or> v = side_value SELL"

definition is_valid_order_type :: "int \<Rightarrow> bool" where
  "is_valid_order_type v \<longleftrightarrow> v = order_type_value LIMIT \<or> v = order_type_value MARKET"

definition is_valid_time_in_force :: "int \<Rightarrow> bool" where
  "is_valid_time_in_force v \<longleftrightarrow>
     v = time_in_force_value GTC \<or> v = time_in_force_value IOC \<or> v = time_in_force_value FOK"

definition relevant :: "int \<Rightarrow> int option" where
  "relevant oid = (if oid \<noteq> 0 then Some oid else None)"

definition header :: "event list \<Rightarrow> int \<Rightarrow> int \<Rightarrow> event_header" where
  "header events sequence iid =
     \<lparr>command_sequence = sequence, event_index = int (length events), hdr_instrument_id = iid\<rparr>"

definition validate_new_shape :: "new_order \<Rightarrow> reject_reason" where
  "validate_new_shape ord =
     (if new_client_id ord = 0 then INVALID_CLIENT_ID
      else if new_order_id ord = 0 then INVALID_ORDER_ID
      else if new_instrument_id ord = 0 then INVALID_INSTRUMENT_ID
      else if new_quantity ord = 0 then INVALID_QUANTITY
      else if \<not> is_valid_side (new_side ord) then INVALID_SIDE
      else if \<not> is_valid_order_type (new_order_type ord) then INVALID_ORDER_TYPE
      else if \<not> is_valid_time_in_force (new_time_in_force ord) then INVALID_TIME_IN_FORCE
      else if new_time_in_force ord = time_in_force_value FOK then UNSUPPORTED_TIME_IN_FORCE
      else if new_order_type ord = order_type_value LIMIT then
        (case new_limit_price ord of
           None \<Rightarrow> MISSING_LIMIT_PRICE
         | Some p \<Rightarrow> if p \<le> 0 then INVALID_PRICE else NONE)
      else if new_limit_price ord \<noteq> None then UNEXPECTED_LIMIT_PRICE
      else if new_time_in_force ord \<noteq> time_in_force_value IOC then INVALID_ORDER_TYPE_TIME_IN_FORCE
      else NONE)"

definition validate_cancel_shape :: "cancel_order \<Rightarrow> reject_reason" where
  "validate_cancel_shape ord =
     (if cancel_client_id ord = 0 then INVALID_CLIENT_ID
      else if cancel_order_id ord = 0 then INVALID_ORDER_ID
      else if cancel_instrument_id ord = 0 then INVALID_INSTRUMENT_ID
      else NONE)"

definition validate_replace_shape :: "replace_order \<Rightarrow> reject_reason" where
  "validate_replace_shape ord =
     (if rep_client_id ord = 0 then INVALID_CLIENT_ID
      else if rep_old_order_id ord = 0 \<or> rep_new_order_id ord = 0 then INVALID_ORDER_ID
      else if rep_old_order_id ord = rep_new_order_id ord then INVALID_REPLACEMENT_ID
      else if rep_instrument_id ord = 0 then INVALID_INSTRUMENT_ID
      else if rep_new_quantity ord = 0 then INVALID_QUANTITY
      else if rep_new_limit_price ord \<le> 0 then INVALID_PRICE
      else NONE)"

section \<open>Representability\<close>

definition require_uint :: "int \<Rightarrow> int \<Rightarrow> unit result" where
  "require_uint v maximum = (if \<not> (0 \<le> v \<and> v \<le> maximum) then Inl ValueError else Inr ())"

fun require_representable :: "command \<Rightarrow> unit result" where
  "require_representable (NewOrder c) =
     bindR (require_uint (new_client_id c) U32_MAX) (\<lambda>_.
     bindR (require_uint (new_order_id c) U64_MAX) (\<lambda>_.
     bindR (require_uint (new_instrument_id c) U32_MAX) (\<lambda>_.
     bindR (require_uint (new_side c) U8_MAX) (\<lambda>_.
     bindR (require_uint (new_order_type c) U8_MAX) (\<lambda>_.
     bindR (require_uint (new_time_in_force c) U8_MAX) (\<lambda>_.
     bindR (case new_limit_price c of None \<Rightarrow> Inr () | Some p \<Rightarrow> require_i64 p) (\<lambda>_.
     require_uint (new_quantity c) U64_MAX)))))))"
| "require_representable (CancelOrder c) =
     bindR (require_uint (cancel_client_id c) U32_MAX) (\<lambda>_.
     bindR (require_uint (cancel_order_id c) U64_MAX) (\<lambda>_.
     require_uint (cancel_instrument_id c) U32_MAX))"
| "require_representable (ReplaceOrder c) =
     bindR (require_uint (rep_client_id c) U32_MAX) (\<lambda>_.
     bindR (require_uint (rep_old_order_id c) U64_MAX) (\<lambda>_.
     bindR (require_uint (rep_new_order_id c) U64_MAX) (\<lambda>_.
     bindR (require_uint (rep_instrument_id c) U32_MAX) (\<lambda>_.
     bindR (require_i64 (rep_new_limit_price c)) (\<lambda>_.
     require_uint (rep_new_quantity c) U64_MAX)))))"

section \<open>Usability and sequencing\<close>

definition ensure_usable :: "(engine, unit) prog" where
  "ensure_usable = (\<lambda>s. if eng_poisoned s then (Inl RuntimeError, s) else (Inr (), s))"

definition issue_sequence :: "(engine, int option) prog" where
  "issue_sequence = (\<lambda>s.
     if eng_sequence_exhausted s then (Inr None, s)
     else
       let sequence = eng_next_sequence s; s1 = s\<lparr>eng_last_sequence := sequence\<rparr> in
       if sequence = U64_MAX
       then (Inr (Some sequence), s1\<lparr>eng_next_sequence := 0, eng_sequence_exhausted := True\<rparr>)
       else (Inr (Some sequence), s1\<lparr>eng_next_sequence := sequence + 1\<rparr>))"

section \<open>Observers\<close>

definition engine_instrument_id :: "(engine, int) prog" where
  "engine_instrument_id = seqP ensure_usable (getsP eng_instrument_id)"

definition active_order_count :: "(engine, int) prog" where
  "active_order_count = seqP ensure_usable (getsP (\<lambda>s. int (length (eng_orders s))))"

definition engine_empty :: "(engine, bool) prog" where
  "engine_empty = seqP ensure_usable (getsP (\<lambda>s. eng_orders s = []))"

definition next_sequence :: "(engine, int) prog" where
  "next_sequence = seqP ensure_usable (getsP eng_next_sequence)"

definition sequence_exhausted :: "(engine, bool) prog" where
  "sequence_exhausted = seqP ensure_usable (getsP eng_sequence_exhausted)"

definition top_level :: "side \<Rightarrow> bool \<Rightarrow> (engine, top_of_book_level option) prog" where
  "top_level levels descending =
     bindP (best_price levels descending) (\<lambda>price.
     case price of
       None \<Rightarrow> ret None
     | Some p \<Rightarrow>
         bindP (getsP (aggregates_of levels)) (\<lambda>a.
         bindP (liftP (dict_getitem a p)) (\<lambda>v.
         ret (Some \<lparr>top_price = p, top_aggregate_quantity = v\<rparr>))))"

definition top :: "(engine, book_top) prog" where
  "top =
     seqP ensure_usable
    (bindP (top_level BUY True) (\<lambda>bid.
     bindP (top_level SELL False) (\<lambda>ask.
     ret \<lparr>best_bid = bid, best_ask = ask\<rparr>)))"

section \<open>Stateful validation\<close>

definition validate_new :: "new_order \<Rightarrow> engine \<Rightarrow> rejection option" where
  "validate_new ord s =
     (let shape = validate_new_shape ord; oid = new_order_id ord in
      if shape \<noteq> NONE then Some \<lparr>rej_reason = shape, rej_order_id = relevant oid\<rparr>
      else if new_instrument_id ord \<noteq> eng_instrument_id s
      then Some \<lparr>rej_reason = UNKNOWN_INSTRUMENT, rej_order_id = Some oid\<rparr>
      else if max_order_quantity (eng_config s) < new_quantity ord
      then Some \<lparr>rej_reason = QUANTITY_OUT_OF_RANGE, rej_order_id = Some oid\<rparr>
      else if new_order_type ord = order_type_value LIMIT \<and>
        (case new_limit_price ord of None \<Rightarrow> False
         | Some p \<Rightarrow> p mod tick_increment (eng_config s) \<noteq> 0)
      then Some \<lparr>rej_reason = INVALID_TICK, rej_order_id = Some oid\<rparr>
      else if map_of (eng_orders s) oid \<noteq> None
      then Some \<lparr>rej_reason = DUPLICATE_ORDER_ID, rej_order_id = Some oid\<rparr>
      else None)"

definition validate_cancel :: "cancel_order \<Rightarrow> engine \<Rightarrow> rejection option" where
  "validate_cancel ord s =
     (let shape = validate_cancel_shape ord; oid = cancel_order_id ord in
      if shape \<noteq> NONE then Some \<lparr>rej_reason = shape, rej_order_id = relevant oid\<rparr>
      else if cancel_instrument_id ord \<noteq> eng_instrument_id s
      then Some \<lparr>rej_reason = UNKNOWN_INSTRUMENT, rej_order_id = Some oid\<rparr>
      else case map_of (eng_orders s) oid of
        None \<Rightarrow> Some \<lparr>rej_reason = UNKNOWN_ORDER_ID, rej_order_id = Some oid\<rparr>
      | Some r \<Rightarrow>
          (let existing = deref s r in
           if ord_client_id existing \<noteq> cancel_client_id ord
           then Some \<lparr>rej_reason = OWNERSHIP_MISMATCH, rej_order_id = Some oid\<rparr>
           else if ord_instrument_id existing \<noteq> cancel_instrument_id ord
           then Some \<lparr>rej_reason = INSTRUMENT_MISMATCH, rej_order_id = Some oid\<rparr>
           else None))"

definition replace_shape_rejection :: "replace_order \<Rightarrow> reject_reason \<Rightarrow> rejection" where
  "replace_shape_rejection ord shape =
     (let relevant_id =
        (if shape = INVALID_ORDER_ID \<and> rep_old_order_id ord \<noteq> 0 then rep_new_order_id ord
         else if shape = INVALID_REPLACEMENT_ID \<or> shape = INVALID_QUANTITY \<or> shape = INVALID_PRICE
         then rep_new_order_id ord
         else rep_old_order_id ord)
      in \<lparr>rej_reason = shape, rej_order_id = relevant relevant_id\<rparr>)"

definition validate_replace :: "replace_order \<Rightarrow> engine \<Rightarrow> rejection option" where
  "validate_replace ord s =
     (let shape = validate_replace_shape ord; old_id = rep_old_order_id ord;
          new_id = rep_new_order_id ord in
      if shape \<noteq> NONE then Some (replace_shape_rejection ord shape)
      else if rep_instrument_id ord \<noteq> eng_instrument_id s
      then Some \<lparr>rej_reason = UNKNOWN_INSTRUMENT, rej_order_id = Some old_id\<rparr>
      else if max_order_quantity (eng_config s) < rep_new_quantity ord
      then Some \<lparr>rej_reason = QUANTITY_OUT_OF_RANGE, rej_order_id = Some new_id\<rparr>
      else if rep_new_limit_price ord mod tick_increment (eng_config s) \<noteq> 0
      then Some \<lparr>rej_reason = INVALID_TICK, rej_order_id = Some new_id\<rparr>
      else case map_of (eng_orders s) old_id of
        None \<Rightarrow> Some \<lparr>rej_reason = UNKNOWN_ORDER_ID, rej_order_id = Some old_id\<rparr>
      | Some r \<Rightarrow>
          (let existing = deref s r in
           if ord_client_id existing \<noteq> rep_client_id ord
           then Some \<lparr>rej_reason = OWNERSHIP_MISMATCH, rej_order_id = Some old_id\<rparr>
           else if ord_instrument_id existing \<noteq> rep_instrument_id ord
           then Some \<lparr>rej_reason = INSTRUMENT_MISMATCH, rej_order_id = Some old_id\<rparr>
           else if map_of (eng_orders s) new_id \<noteq> None
           then Some \<lparr>rej_reason = INVALID_REPLACEMENT_ID, rej_order_id = Some new_id\<rparr>
           else None))"

section \<open>Capacity projection\<close>

definition crosses :: "new_order \<Rightarrow> int \<Rightarrow> bool result" where
  "crosses aggressor resting_price =
     (if new_order_type aggressor = order_type_value MARKET then Inr True
      else case new_limit_price aggressor of
        None \<Rightarrow> Inl RuntimeError
      | Some limit \<Rightarrow>
          Inr (if new_side aggressor = side_value BUY
               then resting_price \<le> limit else limit \<le> resting_price))"

definition residual_rests :: "new_order \<Rightarrow> int \<Rightarrow> bool" where
  "residual_rests ord remaining \<longleftrightarrow>
     remaining \<noteq> 0 \<and> new_order_type ord = order_type_value LIMIT \<and>
     new_time_in_force ord = time_in_force_value GTC"

definition opposite_levels :: "new_order \<Rightarrow> side" where
  "opposite_levels aggressor = (if new_side aggressor = side_value BUY then SELL else BUY)"

fun project_queue :: "engine \<Rightarrow> int \<Rightarrow> int \<Rightarrow> order_ref list \<Rightarrow> int \<times> int" where
  "project_queue s remaining terminal_count [] = (remaining, terminal_count)"
| "project_queue s remaining terminal_count (passive # queue) =
     (if remaining = 0 then (remaining, terminal_count)
      else if ord_remaining_quantity (deref s passive) \<le> remaining
      then project_queue s (remaining - ord_remaining_quantity (deref s passive))
             (terminal_count + 1) queue
      else project_queue s 0 terminal_count queue)"

fun project_levels ::
  "engine \<Rightarrow> side \<Rightarrow> new_order \<Rightarrow> int \<Rightarrow> int \<Rightarrow> int list \<Rightarrow> (int \<times> int) result" where
  "project_levels s opposite aggressor remaining terminal_count [] =
     Inr (remaining, terminal_count)"
| "project_levels s opposite aggressor remaining terminal_count (price # prices) =
     (if remaining = 0 then Inr (remaining, terminal_count)
      else bindR (crosses aggressor price) (\<lambda>c.
        if \<not> c then Inr (remaining, terminal_count)
        else bindR (dict_getitem (levels_of opposite s) price) (\<lambda>queue.
          let (remaining1, terminal_count1) = project_queue s remaining terminal_count queue
          in project_levels s opposite aggressor remaining1 terminal_count1 prices)))"

definition project_fills :: "new_order \<Rightarrow> (engine, fill_projection) prog" where
  "project_fills aggressor =
     (let opposite = opposite_levels aggressor in
      bindP (iter_prices opposite (new_side aggressor = side_value SELL)) (\<lambda>prices.
      bindP (getsP (\<lambda>s. s)) (\<lambda>s.
      bindP (liftP (project_levels s opposite aggressor (new_quantity aggressor) 0 prices))
        (\<lambda>(remaining, terminal_count).
      ret \<lparr>proj_remaining_quantity = remaining,
            proj_terminal_passive_count = terminal_count\<rparr>))))"

definition capacity_allows :: "new_order \<Rightarrow> order_ref option \<Rightarrow> (engine, bool) prog" where
  "capacity_allows ord removes_old =
     bindP (project_fills ord) (\<lambda>projection.
     bindP (getsP (\<lambda>s. s)) (\<lambda>s.
     let remaining = proj_remaining_quantity projection;
         final_count = int (length (eng_orders s)) - proj_terminal_passive_count projection
           - (if removes_old \<noteq> None then 1 else 0)
           + (if residual_rests ord remaining then 1 else 0)
     in
     if max_active_orders (eng_config s) < final_count then ret False
     else if \<not> residual_rests ord remaining then ret True
     else case new_limit_price ord of
       None \<Rightarrow> raise RuntimeError
     | Some price \<Rightarrow>
         let levels = (if new_side ord = side_value BUY then BUY else SELL);
             projected_aggregate = dict_get_default (aggregates_of levels s) price 0
               - (case removes_old of
                    None \<Rightarrow> 0
                  | Some r \<Rightarrow>
                      if side_value (ord_side (deref s r)) = new_side ord \<and>
                         ord_price (deref s r) = price
                      then ord_remaining_quantity (deref s r) else 0)
         in ret (projected_aggregate \<le> U64_MAX - remaining)))"

section \<open>Matching\<close>

text \<open>
  One pass through the body of the inner loop of \<open>_match\<close> up to the appended \<open>TradeEvent\<close>; the new
  \<open>remaining\<close>, the events and the passive order after the execution are returned.
\<close>

definition fill_front ::
  "new_order \<Rightarrow> int \<Rightarrow> side \<Rightarrow> int \<Rightarrow> order_ref \<Rightarrow> int \<Rightarrow> event list \<Rightarrow>
     (engine, int \<times> event list \<times> order) prog" where
  "fill_front aggressor sequence opposite price r remaining events = (\<lambda>s.
     let passive = deref s r;
         execution_quantity = min remaining (ord_remaining_quantity passive);
         remaining1 = remaining - execution_quantity;
         passive1 = passive\<lparr>ord_remaining_quantity :=
                              ord_remaining_quantity passive - execution_quantity\<rparr>;
         s1 = set_store ((eng_store s)[r := passive1]) s
     in bindP (liftP (dict_getitem (aggregates_of opposite s1) price)) (\<lambda>a.
        seqP (modifyP (set_aggregates opposite
               (dict_setitem price (a - execution_quantity) (aggregates_of opposite s1))))
       (bindP (liftP (Side (new_side aggressor))) (\<lambda>sd.
        ret (remaining1,
             events @ [TradeEvent (header events sequence (new_instrument_id aggressor))
               \<lparr>aggressor_order_id = new_order_id aggressor,
                resting_order_id = ord_order_id passive1,
                aggressor_client_id = new_client_id aggressor,
                resting_client_id = ord_client_id passive1,
                aggressor_side = sd,
                execution_price = ord_price passive1,
                execution_quantity = execution_quantity,
                aggressor_remaining = remaining1,
                resting_remaining = ord_remaining_quantity passive1\<rparr>],
             passive1)))) s1)"

text \<open>\<open>queue.popleft()\<close> on the level's deque, then \<open>del self._orders[passive.order_id]\<close>.\<close>

definition pop_front :: "side \<Rightarrow> int \<Rightarrow> order_ref list \<Rightarrow> int \<Rightarrow> (engine, unit) prog" where
  "pop_front opposite price rest oid =
     seqP (modifyP (\<lambda>s. set_levels opposite (dict_setitem price rest (levels_of opposite s)) s))
    (bindP (getsP eng_orders) (\<lambda>os.
     bindP (liftP (dict_delitem oid os)) (\<lambda>os'. modifyP (set_orders os'))))"

lemma fill_front_remaining:
  assumes "fill_front ag sq opp price r remaining events s = (Inr (rem1, ev1, passive1), s1)"
  shows "rem1 = remaining - min remaining (ord_remaining_quantity (deref s r)) \<and>
    ord_remaining_quantity passive1 =
      ord_remaining_quantity (deref s r) - min remaining (ord_remaining_quantity (deref s r))"
  using assms
  by (auto simp: fill_front_def Let_def bindP_def seqP_def modifyP_def split: sum.splits prod.splits)

text \<open>The inner loop \<open>while queue and remaining\<close>.\<close>

function match_queue ::
  "new_order \<Rightarrow> int \<Rightarrow> side \<Rightarrow> int \<Rightarrow> order_ref list \<Rightarrow> int \<Rightarrow> event list \<Rightarrow>
     (engine, order_ref list \<times> int \<times> event list) prog" where
  "match_queue ag sq opp price queue remaining events s =
     (case queue of
        [] \<Rightarrow> (Inr (queue, remaining, events), s)
      | r # rest \<Rightarrow>
          (if remaining = 0 then (Inr (queue, remaining, events), s)
           else case fill_front ag sq opp price r remaining events s of
               (Inl e, s1) \<Rightarrow> (Inl e, s1)
             | (Inr (remaining1, events1, passive1), s1) \<Rightarrow>
                 (if ord_remaining_quantity passive1 = 0
                  then (case pop_front opp price rest (ord_order_id passive1) s1 of
                          (Inl e, s2) \<Rightarrow> (Inl e, s2)
                        | (Inr u, s2) \<Rightarrow>
                            match_queue ag sq opp price rest remaining1 events1 s2)
                  else match_queue ag sq opp price queue remaining1 events1 s1)))"
  by pat_completeness auto
termination
proof (relation "measures [\<lambda>(ag, sq, opp, price, queue, remaining, events, s). length queue,
      \<lambda>(ag, sq, opp, price, queue, remaining, events, s). if remaining = 0 then 0 else 1]",
    goal_cases)
  case 1
  then show ?case by simp
next
  case 2
  then show ?case by simp
next
  case (3 ag sq opp price queue remaining events s r rest x s1 b rem1 y ev1 passive1)
  then have "fill_front ag sq opp price r remaining events s = (Inr (rem1, ev1, passive1), s1)"
    by auto
  from fill_front_remaining [OF this] 3 show ?case by (auto simp: min_def split: if_splits)
qed

declare match_queue.simps [simp del]

lemma fill_front_levels:
  "fill_front ag sq opp price r remaining events s = (x, s1) \<Longrightarrow> levels_of sd s1 = levels_of sd s"
  by (auto simp: fill_front_def Let_def bindP_def seqP_def modifyP_def split: sum.splits prod.splits)

lemma pop_front_levels:
  "pop_front opp price rest oid s = (x, s1) \<Longrightarrow>
     levels_of opp s1 = dict_setitem price rest (levels_of opp s)"
  by (auto simp: pop_front_def bindP_def seqP_def modifyP_def getsP_def
      split: sum.splits prod.splits)

text \<open>When the inner loop ends the queue is empty or nothing remains; levels keep their number.\<close>

lemma match_queue_done:
  assumes "match_queue ag sq opp price queue remaining events s = (Inr (q, rem, ev), s')"
    and "map_of (levels_of opp s) price \<noteq> None"
  shows "(q = [] \<or> rem = 0) \<and> length (levels_of opp s') = length (levels_of opp s) \<and>
    map_of (levels_of opp s') price \<noteq> None"
  using assms
proof (induction ag sq opp price queue remaining events s rule: match_queue.induct)
  case (1 ag sq opp price queue remaining events s)
  show ?case
  proof (cases "queue = [] \<or> remaining = 0")
    case True
    with "1.prems" show ?thesis
      by (subst (asm) match_queue.simps) (auto split: list.splits)
  next
    case False
    then obtain r rest where q: "queue = r # rest" by (cases queue) auto
    from "1.prems"(1) False obtain rem1 ev1 passive1 s1 where
      ff: "fill_front ag sq opp price r remaining events s = (Inr (rem1, ev1, passive1), s1)"
      by (subst (asm) match_queue.simps) (auto simp: q split: sum.splits prod.splits)
    note lv = fill_front_levels [OF ff]
    show ?thesis
    proof (cases "ord_remaining_quantity passive1 = 0")
      case True
      with "1.prems"(1) False obtain u s2 where
        pf: "pop_front opp price rest (ord_order_id passive1) s1 = (Inr u, s2)"
        and rc: "match_queue ag sq opp price rest rem1 ev1 s2 = (Inr (q, rem, ev), s')"
        by (subst (asm) match_queue.simps) (auto simp: q ff split: sum.splits prod.splits)
      have "map_of (levels_of opp s2) price \<noteq> None"
        and "length (levels_of opp s2) = length (levels_of opp s)"
        using "1.prems"(2) by (simp_all add: pop_front_levels [OF pf] lv length_setitem_present)
      with "1.IH"(1) [OF q _ ff [symmetric] refl refl refl True pf [symmetric] refl rc] False show ?thesis by simp
    next
      case nz: False
      from "1.prems"(1) False have rc: "match_queue ag sq opp price queue rem1 ev1 s1 = (Inr (q, rem, ev), s')"
        by (subst (asm) match_queue.simps) (simp add: q ff nz)
      with "1.IH"(2) [OF q _ ff [symmetric] refl refl refl nz] False "1.prems"(2) show ?thesis
        by (simp add: lv)
    qed
  qed
qed

lemma best_price_levels:
  "best_price sd d s = (x, s1) \<Longrightarrow> levels_of sd s1 = levels_of sd s"
  by (auto simp: best_price_def prepare_price_heap_def price_index_def bindP_def seqP_def
      modifyP_def getsP_def split: sum.splits prod.splits if_splits)

lemma remove_level_length:
  assumes "remove_level sd p s = (Inr u, s1)"
  shows "length (levels_of sd s1) < length (levels_of sd s)"
proof -
  from assms have "map_of (levels_of sd s) p \<noteq> None"
    and "levels_of sd s1 = AList.delete p (levels_of sd s)"
    by (auto simp: remove_level_def bindP_def seqP_def modifyP_def getsP_def dict_delitem_def
        split: sum.splits prod.splits if_splits)
  moreover have "length (AList.delete p d) < length d" if "map_of d p \<noteq> None" for d :: levels
    using that by (induction d) (auto simp: AList.delete_eq intro: le_less_trans [OF length_filter_le])
  ultimately show ?thesis by simp
qed

text \<open>The outer loop \<open>while remaining\<close> of \<open>_match\<close>.\<close>

function match_loop ::
  "new_order \<Rightarrow> int \<Rightarrow> int \<Rightarrow> event list \<Rightarrow> (engine, int \<times> event list) prog" where
  "match_loop ag sq remaining events s =
     (let opp = opposite_levels ag in
      if remaining = 0 then (Inr (remaining, events), s)
      else case best_price opp (new_side ag = side_value SELL) s of
          (Inl e, s1) \<Rightarrow> (Inl e, s1)
        | (Inr None, s1) \<Rightarrow> (Inr (remaining, events), s1)
        | (Inr (Some price), s1) \<Rightarrow>
            (case crosses ag price of
               Inl e \<Rightarrow> (Inl e, s1)
             | Inr False \<Rightarrow> (Inr (remaining, events), s1)
             | Inr True \<Rightarrow>
                 (case map_of (levels_of opp s1) price of
                    None \<Rightarrow> (Inl KeyError, s1)
                  | Some queue \<Rightarrow>
                      (case match_queue ag sq opp price queue remaining events s1 of
                         (Inl e, s2) \<Rightarrow> (Inl e, s2)
                       | (Inr (queue2, remaining2, events2), s2) \<Rightarrow>
                           (if queue2 = []
                            then (case remove_level opp price s2 of
                                    (Inl e, s3) \<Rightarrow> (Inl e, s3)
                                  | (Inr u, s3) \<Rightarrow> match_loop ag sq remaining2 events2 s3)
                            else match_loop ag sq remaining2 events2 s2)))))"
  by pat_completeness auto
termination
proof (relation "measure (\<lambda>(ag, sq, remaining, events, s).
    if remaining = 0 then 0 else Suc (length (levels_of (opposite_levels ag) s)))", goal_cases)
  case 1
  then show ?case by simp
next
  case 2
  then show ?case
    by (auto dest!: best_price_levels [OF sym] match_queue_done [OF sym] remove_level_length [OF sym])
next
  case 3
  then show ?case
    by (auto dest!: best_price_levels [OF sym] match_queue_done [OF sym])
qed

declare match_loop.simps [simp del]

definition engine_match :: "new_order \<Rightarrow> int \<Rightarrow> event list \<Rightarrow> (engine, int \<times> event list) prog" where
  "engine_match aggressor sequence events =
     match_loop aggressor sequence (new_quantity aggressor) events"

section \<open>Resting and erasing orders\<close>

text \<open>Object construction: the new \<open>_Order\<close> gets the next reference.\<close>

definition alloc_order :: "order \<Rightarrow> (engine, order_ref) prog" where
  "alloc_order ord = (\<lambda>s. (Inr (length (eng_store s)), set_store (eng_store s @ [ord]) s))"

definition rest :: "new_order \<Rightarrow> int \<Rightarrow> int \<Rightarrow> (engine, unit) prog" where
  "rest ord remaining sequence =
     (case new_limit_price ord of
        None \<Rightarrow> raise RuntimeError
      | Some price \<Rightarrow>
          bindP (liftP (Side (new_side ord))) (\<lambda>levels.
          bindP (alloc_order
            \<lparr>ord_order_id = new_order_id ord, ord_client_id = new_client_id ord,
             ord_instrument_id = new_instrument_id ord, ord_side = levels, ord_price = price,
             ord_remaining_quantity = remaining, ord_priority_sequence = sequence\<rparr>) (\<lambda>rested.
          bindP (getsP (levels_of levels)) (\<lambda>l0.
          seqP (if map_of l0 price = None then open_level levels price else ret ())
         (bindP (getsP (levels_of levels)) (\<lambda>l. bindP (liftP (dict_getitem l price)) (\<lambda>queue.
          seqP (modifyP (set_levels levels (dict_setitem price (queue @ [rested]) l)))
         (bindP (getsP (aggregates_of levels)) (\<lambda>a. bindP (liftP (dict_getitem a price)) (\<lambda>v.
          seqP (modifyP (set_aggregates levels (dict_setitem price (v + remaining) a)))
         (modifyP (\<lambda>s.
            set_orders (dict_setitem (new_order_id ord) rested (eng_orders s)) s))))))))))))"

definition erase :: "order_ref \<Rightarrow> (engine, unit) prog" where
  "erase r =
     bindP (getsP (\<lambda>s. deref s r)) (\<lambda>ord.
     let levels = ord_side ord; price = ord_price ord in
     bindP (getsP (levels_of levels)) (\<lambda>l. bindP (liftP (dict_getitem l price)) (\<lambda>queue.
     if r \<notin> set queue then raise RuntimeError
     else
       let queue' = remove1 r queue in
       seqP (modifyP (set_levels levels (dict_setitem price queue' l)))
      (bindP (getsP (aggregates_of levels)) (\<lambda>a. bindP (liftP (dict_getitem a price)) (\<lambda>v.
       seqP (modifyP (set_aggregates levels
               (dict_setitem price (v - ord_remaining_quantity ord) a)))
      (seqP (if queue' = [] then remove_level levels price else ret ())
      (bindP (getsP eng_orders) (\<lambda>os. bindP (liftP (dict_delitem (ord_order_id ord) os)) (\<lambda>os'.
       modifyP (set_orders os')))))))))))"

section \<open>Terminal events and results\<close>

definition append_aggressor_terminal ::
  "event list \<Rightarrow> new_order \<Rightarrow> int \<Rightarrow> int \<Rightarrow> event list result" where
  "append_aggressor_terminal events ord sequence remaining =
     (if residual_rests ord remaining
      then (case new_limit_price ord of
              None \<Rightarrow> Inl RuntimeError
            | Some price \<Rightarrow>
                bindR (Side (new_side ord)) (\<lambda>sd.
                Inr (events @ [RestedEvent (header events sequence (new_instrument_id ord))
                  \<lparr>rested_order_id = new_order_id ord, rested_client_id = new_client_id ord,
                   rested_side = sd, rested_price = price,
                   rested_remaining_quantity = remaining\<rparr>])))
      else
        let reason =
          (if remaining = 0 then FILLED
           else if new_order_type ord = order_type_value MARKET then MARKET_EXHAUSTED
           else IOC_RESIDUAL_CANCELED)
        in Inr (events @ [DoneEvent (header events sequence (new_instrument_id ord))
                  (new_order_id ord) reason remaining]))"

definition append_book_changed ::
  "event list \<Rightarrow> int \<Rightarrow> book_top \<Rightarrow> book_top \<Rightarrow> (engine, event list) prog" where
  "append_book_changed events sequence top_before top_after =
     getsP (\<lambda>s. if top_before = top_after then events
       else events @ [BookChangedEvent (header events sequence (eng_instrument_id s))
                        (best_bid top_after) (best_ask top_after)])"

definition batch_result :: "event list \<Rightarrow> reference_result result" where
  "batch_result events = bindR (EventBatch events) (\<lambda>b. ReferenceResult (Some b) None)"

definition reject :: "int \<Rightarrow> int \<Rightarrow> command_type \<Rightarrow> rejection \<Rightarrow> reference_result result" where
  "reject sequence iid ctype rejection =
     batch_result [RejectedEvent
       \<lparr>command_sequence = sequence, event_index = 0, hdr_instrument_id = iid\<rparr>
       ctype (rej_reason rejection) (rej_order_id rejection)]"

section \<open>Executing one command\<close>

text \<open>The common tail of \<open>_execute_new\<close> and \<open>_execute_replace\<close>: match, rest, report.\<close>

definition run_aggressor ::
  "new_order \<Rightarrow> int \<Rightarrow> book_top \<Rightarrow> event list \<Rightarrow> (engine, reference_result) prog" where
  "run_aggressor ord sequence top_before events =
     bindP (engine_match ord sequence events) (\<lambda>(remaining, events1).
     seqP (if residual_rests ord remaining then rest ord remaining sequence else ret ())
    (bindP (liftP (append_aggressor_terminal events1 ord sequence remaining)) (\<lambda>events2.
     bindP top (\<lambda>top_after.
     bindP (append_book_changed events2 sequence top_before top_after) (\<lambda>events3.
     liftP (batch_result events3))))))"

definition execute_new :: "new_order \<Rightarrow> int \<Rightarrow> (engine, reference_result) prog" where
  "execute_new ord sequence =
     bindP (getsP (validate_new ord)) (\<lambda>rejection.
     case rejection of
       Some rj \<Rightarrow> liftP (reject sequence (new_instrument_id ord) NEW rj)
     | None \<Rightarrow>
         bindP (capacity_allows ord None) (\<lambda>allowed.
         if \<not> allowed
         then liftP (reject sequence (new_instrument_id ord) NEW
                \<lparr>rej_reason = CAPACITY_EXCEEDED, rej_order_id = Some (new_order_id ord)\<rparr>)
         else
           bindP top (\<lambda>top_before.
           run_aggressor ord sequence top_before
             [AcceptedEvent (header [] sequence (new_instrument_id ord)) NEW])))"

definition cancel_events :: "cancel_order \<Rightarrow> int \<Rightarrow> int \<Rightarrow> event list" where
  "cancel_events ord sequence remaining =
     (let iid = cancel_instrument_id ord;
          e0 = [];
          e1 = e0 @ [AcceptedEvent (header e0 sequence iid) CANCEL];
          e2 = e1 @ [CanceledEvent (header e1 sequence iid) (cancel_order_id ord) remaining]
      in e2 @ [DoneEvent (header e2 sequence iid) (cancel_order_id ord) DONE_CANCELED remaining])"

definition execute_cancel :: "cancel_order \<Rightarrow> int \<Rightarrow> (engine, reference_result) prog" where
  "execute_cancel ord sequence =
     bindP (getsP (validate_cancel ord)) (\<lambda>rejection.
     case rejection of
       Some rj \<Rightarrow> liftP (reject sequence (cancel_instrument_id ord) CANCEL rj)
     | None \<Rightarrow>
         bindP top (\<lambda>top_before.
         bindP (getsP eng_orders) (\<lambda>os. bindP (liftP (dict_getitem os (cancel_order_id ord)))
        (\<lambda>canceled.
         bindP (getsP (\<lambda>s. cancel_events ord sequence
                  (ord_remaining_quantity (deref s canceled)))) (\<lambda>events.
         seqP (erase canceled)
        (bindP top (\<lambda>top_after.
         bindP (append_book_changed events sequence top_before top_after) (\<lambda>events1.
         liftP (batch_result events1)))))))))"

definition replacement_order :: "replace_order \<Rightarrow> order \<Rightarrow> new_order" where
  "replacement_order cmd old =
     \<lparr>new_client_id = ord_client_id old, new_order_id = rep_new_order_id cmd,
      new_instrument_id = ord_instrument_id old, new_side = side_value (ord_side old),
      new_order_type = order_type_value LIMIT, new_time_in_force = time_in_force_value GTC,
      new_limit_price = Some (rep_new_limit_price cmd), new_quantity = rep_new_quantity cmd\<rparr>"

definition replace_events :: "replace_order \<Rightarrow> int \<Rightarrow> int \<Rightarrow> event list" where
  "replace_events cmd sequence remaining =
     (let iid = rep_instrument_id cmd;
          e0 = [];
          e1 = e0 @ [AcceptedEvent (header e0 sequence iid) REPLACE];
          e2 = e1 @ [ReplacedEvent (header e1 sequence iid)
                       (rep_old_order_id cmd) (rep_new_order_id cmd)];
          e3 = e2 @ [CanceledEvent (header e2 sequence iid) (rep_old_order_id cmd) remaining]
      in e3 @ [DoneEvent (header e3 sequence iid) (rep_old_order_id cmd) DONE_REPLACED remaining])"

definition execute_replace :: "replace_order \<Rightarrow> int \<Rightarrow> (engine, reference_result) prog" where
  "execute_replace cmd sequence =
     bindP (getsP (validate_replace cmd)) (\<lambda>rejection.
     case rejection of
       Some rj \<Rightarrow> liftP (reject sequence (rep_instrument_id cmd) REPLACE rj)
     | None \<Rightarrow>
         bindP (getsP eng_orders) (\<lambda>os. bindP (liftP (dict_getitem os (rep_old_order_id cmd)))
        (\<lambda>old.
         bindP (getsP (\<lambda>s. replacement_order cmd (deref s old))) (\<lambda>replacement.
         bindP (capacity_allows replacement (Some old)) (\<lambda>allowed.
         if \<not> allowed
         then liftP (reject sequence (rep_instrument_id cmd) REPLACE
                \<lparr>rej_reason = CAPACITY_EXCEEDED, rej_order_id = Some (rep_new_order_id cmd)\<rparr>)
         else
           bindP top (\<lambda>top_before.
           bindP (getsP (\<lambda>s. replace_events cmd sequence (ord_remaining_quantity (deref s old))))
          (\<lambda>events.
           seqP (erase old) (run_aggressor replacement sequence top_before events))))))))"

section \<open>Snapshots\<close>

definition ordered_prices :: "levels \<Rightarrow> bool \<Rightarrow> int list" where
  "ordered_prices levels descending =
     (if descending then rev (sort (map fst levels)) else sort (map fst levels))"

definition order_snapshot_of :: "order \<Rightarrow> order_snapshot" where
  "order_snapshot_of ord =
     \<lparr>os_order_id = ord_order_id ord, os_client_id = ord_client_id ord,
      os_instrument_id = ord_instrument_id ord, os_side = ord_side ord, os_price = ord_price ord,
      os_remaining_quantity = ord_remaining_quantity ord,
      os_priority_sequence = ord_priority_sequence ord\<rparr>"

definition level_snapshot :: "engine \<Rightarrow> int \<Rightarrow> order_ref list \<Rightarrow> price_level_snapshot" where
  "level_snapshot s price queue =
     \<lparr>pls_price = price,
      pls_aggregate_quantity = sum_list (map ord_remaining_quantity (orders_at s queue)),
      pls_orders = map order_snapshot_of (orders_at s queue)\<rparr>"

definition snapshot_levels :: "engine \<Rightarrow> levels \<Rightarrow> bool \<Rightarrow> price_level_snapshot list result" where
  "snapshot_levels s levels descending =
     mapR (\<lambda>price. bindR (dict_getitem levels price) (\<lambda>queue. Inr (level_snapshot s price queue)))
       (ordered_prices levels descending)"

section \<open>The runtime invariant checker\<close>

text \<open>One constructor per message of \<open>invariant_errors\<close>.\<close>

datatype invariant_error =
  Poisoned | InstrumentNotU32 | ExhaustedInconsistent | NextSequenceRange | LastNextInconsistent
| AggregateLevelsDiffer side | PriceIndexLevelsDiffer side | MissingFromIndex int
| LevelEmpty int | LevelPriceRange int | QueuedTwice int | PriorityReused int | WrongSide int
| WrongInstrument int | WrongLevelPrice int | RemainingInvalid int | PriorityInvalid int
| NotFifo int | AggregateOverflow int | CachedAggregateDiffers int | BestPriceInconsistent side
| IndexIdsDiffer | IdentityDiffers int | CapacityExceeded | BookCrossed

record inv_scan =
  scan_seen :: "(int, order_ref) dict"
  scan_priorities :: "int set"
  scan_errors :: "invariant_error list"

definition flag :: "bool \<Rightarrow> invariant_error \<Rightarrow> inv_scan \<Rightarrow> inv_scan" where
  "flag b e sc = (if b then sc\<lparr>scan_errors := scan_errors sc @ [e]\<rparr> else sc)"

text \<open>The body of \<open>for order in queue\<close>.\<close>

definition check_order ::
  "engine \<Rightarrow> side \<Rightarrow> int \<Rightarrow> int \<Rightarrow> order_ref \<Rightarrow> inv_scan \<Rightarrow> inv_scan" where
  "check_order s expected_side price previous_priority r sc =
     (let ord = deref s r; oid = ord_order_id ord; pr = ord_priority_sequence ord;
          sc1 = (if map_of (scan_seen sc) oid \<noteq> None then flag True (QueuedTwice oid) sc
                 else sc\<lparr>scan_seen := dict_setitem oid r (scan_seen sc)\<rparr>);
          sc2 = flag (pr \<in> scan_priorities sc1) (PriorityReused pr) sc1;
          sc3 = sc2\<lparr>scan_priorities := insert pr (scan_priorities sc2)\<rparr>;
          sc4 = flag (ord_side ord \<noteq> expected_side) (WrongSide oid) sc3;
          sc5 = flag (ord_instrument_id ord \<noteq> eng_instrument_id s) (WrongInstrument oid) sc4;
          sc6 = flag (ord_price ord \<noteq> price) (WrongLevelPrice oid) sc5;
          sc7 = flag (\<not> (1 \<le> ord_remaining_quantity ord \<and> ord_remaining_quantity ord \<le> U64_MAX))
                  (RemainingInvalid oid) sc6;
          sc8 = flag (\<not> (1 \<le> pr \<and> pr \<le> eng_last_sequence s)) (PriorityInvalid oid) sc7
      in flag (pr \<le> previous_priority) (NotFifo price) sc8)"

fun check_queue ::
  "engine \<Rightarrow> side \<Rightarrow> int \<Rightarrow> int \<Rightarrow> int \<Rightarrow> order_ref list \<Rightarrow> inv_scan \<Rightarrow> int \<times> inv_scan" where
  "check_queue s expected_side price previous_priority aggregate [] sc = (aggregate, sc)"
| "check_queue s expected_side price previous_priority aggregate (r # queue) sc =
     check_queue s expected_side price (ord_priority_sequence (deref s r))
       (aggregate + ord_remaining_quantity (deref s r)) queue
       (check_order s expected_side price previous_priority r sc)"

definition check_level ::
  "engine \<Rightarrow> (int, int) dict \<Rightarrow> side \<Rightarrow> int \<times> order_ref list \<Rightarrow> inv_scan \<Rightarrow> inv_scan" where
  "check_level s aggregates expected_side = (\<lambda>(price, queue) sc.
     if queue = [] then flag True (LevelEmpty price) sc
     else
       let sc1 = flag (\<not> (1 \<le> price \<and> price \<le> I64_MAX)) (LevelPriceRange price) sc;
           (aggregate, sc2) = check_queue s expected_side price 0 0 queue sc1;
           sc3 = flag (U64_MAX < aggregate) (AggregateOverflow price) sc2
       in flag (map_of aggregates price \<noteq> Some aggregate) (CachedAggregateDiffers price) sc3)"

definition check_index_entry ::
  "side \<Rightarrow> price_heap \<Rightarrow> int \<times> int \<Rightarrow> inv_scan \<Rightarrow> inv_scan" where
  "check_index_entry expected_side price_heap = (\<lambda>(price, generation) sc.
     let key = (if expected_side = BUY then - price else price) in
     flag ((key, generation, price) \<notin> set price_heap) (MissingFromIndex price) sc)"

definition expected_best :: "side \<Rightarrow> levels \<Rightarrow> int option" where
  "expected_best expected_side levels =
     (if levels = [] then None
      else if expected_side = BUY then Some (Max (set (map fst levels)))
      else Some (Min (set (map fst levels))))"

definition append_side_invariant_errors :: "side \<Rightarrow> inv_scan \<Rightarrow> (engine, inv_scan) prog" where
  "append_side_invariant_errors expected_side sc = (\<lambda>s.
     let levels = levels_of expected_side s; aggregates = aggregates_of expected_side s;
         level_generations = generations_of expected_side s; price_heap = heap_of expected_side s;
         sc1 = flag (set (map fst aggregates) \<noteq> set (map fst levels))
                 (AggregateLevelsDiffer expected_side) sc;
         sc2 = flag (set (map fst level_generations) \<noteq> set (map fst levels))
                 (PriceIndexLevelsDiffer expected_side) sc1;
         sc3 = fold (check_index_entry expected_side price_heap) level_generations sc2;
         sc4 = fold (check_level s aggregates expected_side) levels sc3
     in bindP (best_price expected_side (expected_side = BUY)) (\<lambda>indexed_best.
        ret (flag (indexed_best \<noteq> expected_best expected_side levels)
               (BestPriceInconsistent expected_side) sc4)) s)"

definition check_sequence_state :: "engine \<Rightarrow> inv_scan \<Rightarrow> inv_scan" where
  "check_sequence_state s sc =
     (if eng_sequence_exhausted s
      then flag (eng_next_sequence s \<noteq> 0 \<or> eng_last_sequence s \<noteq> U64_MAX)
             ExhaustedInconsistent sc
      else if \<not> (1 \<le> eng_next_sequence s \<and> eng_next_sequence s \<le> U64_MAX)
      then flag True NextSequenceRange sc
      else flag (eng_last_sequence s \<noteq> eng_next_sequence s - 1) LastNextInconsistent sc)"

definition check_index :: "engine \<Rightarrow> inv_scan \<Rightarrow> inv_scan" where
  "check_index s sc =
     (if set (map fst (scan_seen sc)) \<noteq> set (map fst (eng_orders s))
      then flag True IndexIdsDiffer sc
      else fold (\<lambda>(oid, queued). flag (map_of (eng_orders s) oid \<noteq> Some queued)
             (IdentityDiffers oid)) (scan_seen sc) sc)"

definition check_crossed :: "engine \<Rightarrow> inv_scan \<Rightarrow> inv_scan" where
  "check_crossed s sc =
     (case (expected_best BUY (eng_bids s), expected_best SELL (eng_asks s)) of
        (Some bid, Some ask) \<Rightarrow> flag (ask \<le> bid) BookCrossed sc
      | _ \<Rightarrow> sc)"

definition invariant_errors :: "(engine, invariant_error list) prog" where
  "invariant_errors =
     bindP (getsP (\<lambda>s. check_sequence_state s
       (flag (\<not> (1 \<le> eng_instrument_id s \<and> eng_instrument_id s \<le> U32_MAX)) InstrumentNotU32
         (flag (eng_poisoned s) Poisoned
           \<lparr>scan_seen = [], scan_priorities = {}, scan_errors = []\<rparr>)))) (\<lambda>sc0.
     bindP (append_side_invariant_errors BUY sc0) (\<lambda>sc1.
     bindP (append_side_invariant_errors SELL sc1) (\<lambda>sc2.
     getsP (\<lambda>s. scan_errors (check_crossed s
       (flag (max_active_orders (eng_config s) < int (length (eng_orders s))) CapacityExceeded
         (check_index s sc2)))))))"

definition assert_invariants :: "(engine, unit) prog" where
  "assert_invariants =
     bindP invariant_errors (\<lambda>errors. if errors \<noteq> [] then raise RuntimeError else ret ())"

definition validate_invariants :: "(engine, bool) prog" where
  "validate_invariants = bindP invariant_errors (\<lambda>errors. ret (errors = []))"

section \<open>The public operations\<close>

definition initial_engine :: "int \<Rightarrow> matching_config option \<Rightarrow> int \<Rightarrow> bool \<Rightarrow> engine" where
  "initial_engine iid config first_sequence check =
     \<lparr>eng_instrument_id = iid,
      eng_config = (case config of None \<Rightarrow> default_matching_config | Some c \<Rightarrow> c),
      eng_bids = [], eng_asks = [], eng_bid_aggregates = [], eng_ask_aggregates = [],
      eng_bid_heap = [], eng_ask_heap = [], eng_bid_level_generations = [],
      eng_ask_level_generations = [], eng_next_level_generation = 1, eng_orders = [],
      eng_next_sequence = first_sequence, eng_last_sequence = first_sequence - 1,
      eng_sequence_exhausted = False, eng_poisoned = False, eng_check_invariants = check,
      eng_store = []\<rparr>"

definition ReferenceEngine :: "int \<Rightarrow> matching_config option \<Rightarrow> int \<Rightarrow> bool \<Rightarrow> engine result" where
  "ReferenceEngine iid config first_sequence check =
     (if \<not> (1 \<le> iid \<and> iid \<le> U32_MAX) then Inl ValueError
      else if \<not> (1 \<le> first_sequence \<and> first_sequence \<le> U64_MAX) then Inl ValueError
      else case assert_invariants (initial_engine iid config first_sequence check) of
        (Inl e, s) \<Rightarrow> Inl e
      | (Inr u, s) \<Rightarrow> Inr s)"

definition poison :: "engine \<Rightarrow> engine" where
  "poison s = s\<lparr>eng_poisoned := True\<rparr>"

definition run_command :: "command \<Rightarrow> int \<Rightarrow> (engine, reference_result) prog" where
  "run_command command sequence =
     (case command of
        NewOrder c \<Rightarrow> execute_new c sequence
      | CancelOrder c \<Rightarrow> execute_cancel c sequence
      | ReplaceOrder c \<Rightarrow> execute_replace c sequence)"

definition execute_issued :: "command \<Rightarrow> int \<Rightarrow> (engine, reference_result) prog" where
  "execute_issued command sequence =
     on_raise poison
      (bindP (run_command command sequence) (\<lambda>result.
       bindP (getsP eng_check_invariants) (\<lambda>check.
       seqP (if check then assert_invariants else ret ()) (ret result))))"

definition execute :: "command \<Rightarrow> (engine, reference_result) prog" where
  "execute command =
     seqP ensure_usable
    (seqP (liftP (require_representable command))
    (bindP issue_sequence (\<lambda>sequence.
     case sequence of
       None \<Rightarrow> liftP (ReferenceResult None (Some SEQUENCE_EXHAUSTED))
     | Some n \<Rightarrow> execute_issued command n)))"

definition observe_sequence :: "int \<Rightarrow> engine \<Rightarrow> engine" where
  "observe_sequence sequence s =
     (let s1 = s\<lparr>eng_last_sequence := sequence\<rparr> in
      if sequence = U64_MAX then s1\<lparr>eng_next_sequence := 0, eng_sequence_exhausted := True\<rparr>
      else s1\<lparr>eng_next_sequence := sequence + 1\<rparr>)"

definition execute_at_sequence :: "command \<Rightarrow> int \<Rightarrow> (engine, reference_result) prog" where
  "execute_at_sequence command sequence =
     seqP ensure_usable
    (seqP (liftP (require_representable command))
    (bindP (getsP (\<lambda>s. (eng_sequence_exhausted s, eng_last_sequence s))) (\<lambda>(exhausted, last).
     if \<not> (1 \<le> sequence \<and> sequence \<le> U64_MAX) then raise ValueError
     else if exhausted \<or> sequence \<le> last then raise ValueError
     else seqP (modifyP (observe_sequence sequence)) (execute_issued command sequence))))"

definition snapshot :: "(engine, book_snapshot) prog" where
  "snapshot =
     seqP ensure_usable
    (seqP assert_invariants
    (bindP (getsP (\<lambda>s. s)) (\<lambda>s.
     bindP (liftP (snapshot_levels s (levels_of BUY s) True)) (\<lambda>bids.
     bindP (liftP (snapshot_levels s (levels_of SELL s) False)) (\<lambda>asks.
     ret \<lparr>bs_semantics_version = ATLASLOB_SEMANTICS_VERSION,
          bs_instrument_id = eng_instrument_id s, bs_last_sequence = eng_last_sequence s,
          bs_sequence_exhausted = eng_sequence_exhausted s,
          bs_active_order_count = int (length (eng_orders s)),
          bs_bids = bids, bs_asks = asks\<rparr>)))))"

fun batches :: "reference_result list \<Rightarrow> event_batch list result" where
  "batches [] = Inr []"
| "batches (result # results) =
     (case result_batch result of
        None \<Rightarrow> Inl ValueError
      | Some b \<Rightarrow> bindR (batches results) (\<lambda>output. Inr (b # output)))"

end
