(* ===== verification/Price_Time_Spec.thy ===== *)
theory Price_Time_Spec
  imports Reference_Engine "HOL-Library.Sublist"
begin

text \<open>
  An abstract specification of a limit order book with price-time priority.  A book is two lists of
  orders, best first; there are no levels, caches, heaps or references.  An incoming order consumes
  the front of the opposite list while it crosses, a residual is inserted behind every order that is
  at least as good, a cancellation filters one identifier out, and a command is accepted exactly when
  the book it leads to fits the configured capacity.
\<close>

section \<open>Books as priority lists\<close>

type_synonym view = "side \<Rightarrow> order list"

fun other_side :: "side \<Rightarrow> side" where
  "other_side BUY = SELL"
| "other_side SELL = BUY"

lemma other_side_neq [simp]: "other_side sd \<noteq> sd" "sd \<noteq> other_side sd"
  by (cases sd; simp)+

lemma other_side_twice [simp]: "other_side (other_side sd) = sd"
  by (cases sd) simp_all

definition rank :: "side \<Rightarrow> order \<Rightarrow> int \<times> int" where
  "rank sd ord = (price_key sd (ord_price ord), ord_priority_sequence ord)"

definition total_quantity :: "order list \<Rightarrow> int" where
  "total_quantity os = sum_list (map ord_remaining_quantity os)"

lemma total_quantity_simps [simp]:
  "total_quantity [] = 0"
  "total_quantity (ord # os) = ord_remaining_quantity ord + total_quantity os"
  "total_quantity (os @ os') = total_quantity os + total_quantity os'"
  by (simp_all add: total_quantity_def)

definition level_quantity :: "order list \<Rightarrow> int \<Rightarrow> int" where
  "level_quantity os p = total_quantity (filter (\<lambda>ord. ord_price ord = p) os)"

lemma level_quantity_simps [simp]:
  "level_quantity [] p = 0"
  "level_quantity (ord # os) p =
     (if ord_price ord = p then ord_remaining_quantity ord else 0) + level_quantity os p"
  "level_quantity (os @ os') p = level_quantity os p + level_quantity os' p"
  by (simp_all add: level_quantity_def)

definition reduced :: "int \<Rightarrow> order \<Rightarrow> order" where
  "reduced x ord = ord\<lparr>ord_remaining_quantity := ord_remaining_quantity ord - x\<rparr>"

lemma reduced_fields [simp]:
  "ord_order_id (reduced x ord) = ord_order_id ord"
  "ord_client_id (reduced x ord) = ord_client_id ord"
  "ord_instrument_id (reduced x ord) = ord_instrument_id ord"
  "ord_side (reduced x ord) = ord_side ord"
  "ord_price (reduced x ord) = ord_price ord"
  "ord_priority_sequence (reduced x ord) = ord_priority_sequence ord"
  "ord_remaining_quantity (reduced x ord) = ord_remaining_quantity ord - x"
  "rank sd (reduced x ord) = rank sd ord"
  by (simp_all add: reduced_def rank_def)

section \<open>Matching, inserting, removing\<close>

fun spec_match ::
  "(int \<Rightarrow> bool) \<Rightarrow> int \<Rightarrow> order list \<Rightarrow> (order \<times> int) list \<times> int \<times> order list" where
  "spec_match crossing n [] = ([], n, [])"
| "spec_match crossing n (ord # os) =
     (if n = 0 \<or> \<not> crossing (ord_price ord) then ([], n, ord # os)
      else if ord_remaining_quantity ord \<le> n
      then (let (fills, n', os') = spec_match crossing (n - ord_remaining_quantity ord) os
            in ((ord, ord_remaining_quantity ord) # fills, n', os'))
      else ([(ord, n)], 0, reduced n ord # os))"

definition spec_insert :: "side \<Rightarrow> order \<Rightarrow> order list \<Rightarrow> order list" where
  "spec_insert sd ord os =
     (let better = (\<lambda>x. price_key sd (ord_price x) \<le> price_key sd (ord_price ord)) in
      takeWhile better os @ ord # dropWhile better os)"

definition spec_remove :: "int \<Rightarrow> order list \<Rightarrow> order list" where
  "spec_remove i os = filter (\<lambda>ord. ord_order_id ord \<noteq> i) os"

definition limit_crosses :: "side \<Rightarrow> int option \<Rightarrow> int \<Rightarrow> bool" where
  "limit_crosses sd limit p =
     (case limit of
        None \<Rightarrow> True
      | Some l \<Rightarrow> (case sd of BUY \<Rightarrow> p \<le> l | SELL \<Rightarrow> l \<le> p))"

section \<open>What matching consumes\<close>

text \<open>Every order left is an order that was there, possibly with less remaining.\<close>

definition remnant :: "order \<Rightarrow> order \<Rightarrow> bool" where
  "remnant y x \<longleftrightarrow> (\<exists>q. 0 \<le> q \<and> q < ord_remaining_quantity x \<and> y = reduced q x)"

lemma reduced_0 [simp]: "reduced 0 ord = ord"
  by (simp add: reduced_def)

lemma remnant_refl: "0 < ord_remaining_quantity ord \<Longrightarrow> remnant ord ord"
  by (auto simp: remnant_def intro: exI [of _ 0])

lemma remnants_refl: "\<forall>ord \<in> set os. 0 < ord_remaining_quantity ord \<Longrightarrow> list_all2 remnant os os"
  by (simp add: list_all2_refl list.rel_refl_strong remnant_refl)

definition fill_total :: "(order \<times> int) list \<Rightarrow> int" where
  "fill_total fills = sum_list (map snd fills)"

lemma fill_total_simps [simp]:
  "fill_total [] = 0"
  "fill_total (f # fills) = snd f + fill_total fills"
  "fill_total (fs @ fills) = fill_total fs + fill_total fills"
  by (simp_all add: fill_total_def)

text \<open>Induction over a matching run, following its three cases.\<close>

lemma spec_match_cases [consumes 1, case_names stop full partial]:
  assumes "spec_match crossing n os = (fills, n', os')"
    and "\<And>n os. n = 0 \<or> os = [] \<or> \<not> crossing (ord_price (hd os)) \<Longrightarrow> P n os [] n os"
    and "\<And>n ord os fills n' os'. n \<noteq> 0 \<Longrightarrow> crossing (ord_price ord) \<Longrightarrow>
      ord_remaining_quantity ord \<le> n \<Longrightarrow>
      spec_match crossing (n - ord_remaining_quantity ord) os = (fills, n', os') \<Longrightarrow>
      P (n - ord_remaining_quantity ord) os fills n' os' \<Longrightarrow>
      P n (ord # os) ((ord, ord_remaining_quantity ord) # fills) n' os'"
    and "\<And>n ord os. n \<noteq> 0 \<Longrightarrow> crossing (ord_price ord) \<Longrightarrow> n < ord_remaining_quantity ord \<Longrightarrow>
      P n (ord # os) [(ord, n)] 0 (reduced n ord # os)"
  shows "P n os fills n' os'"
  using assms(1)
proof (induction os arbitrary: n fills n' os')
  case Nil
  then show ?case using assms(2) by simp
next
  case (Cons ord os)
  consider (stop) "n = 0 \<or> \<not> crossing (ord_price ord)"
    | (full) "n \<noteq> 0" "crossing (ord_price ord)" "ord_remaining_quantity ord \<le> n"
    | (part) "n \<noteq> 0" "crossing (ord_price ord)" "n < ord_remaining_quantity ord"
    by linarith
  then show ?case
  proof cases
    case stop
    then show ?thesis using Cons.prems assms(2) [of n "ord # os"] by auto
  next
    case full
    obtain f m rs where r: "spec_match crossing (n - ord_remaining_quantity ord) os = (f, m, rs)"
      by (metis prod_cases3)
    from assms(3) [OF full r Cons.IH [OF r]] full r Cons.prems show ?thesis by simp
  next
    case part
    with assms(4) [OF part, of os] Cons.prems show ?thesis by auto
  qed
qed

abbreviation all_positive :: "order list \<Rightarrow> bool" where
  "all_positive os \<equiv> \<forall>ord \<in> set os. 0 < ord_remaining_quantity ord"

lemma spec_match_remnants:
  assumes "spec_match crossing n os = (fills, n', os')" and "all_positive os" and "0 \<le> n"
  shows "\<exists>k \<le> length os. list_all2 remnant os' (drop k os)"
  using assms
proof (induction rule: spec_match_cases)
  case (stop n os)
  then show ?case using remnants_refl [of os] by (intro exI [of _ 0]) auto
next
  case (full n ord os fills n' os')
  then obtain k where "k \<le> length os" "list_all2 remnant os' (drop k os)" by auto
  then show ?case by (intro exI [of _ "Suc k"]) auto
next
  case (partial n ord os)
  then have "remnant (reduced n ord) ord" by (auto simp: remnant_def)
  with partial remnants_refl [of os] show ?case by (intro exI [of _ 0]) auto
qed

text \<open>Conservation: what the aggressor lost is what the fills say and what the book lost.\<close>

lemma spec_match_conserves:
  assumes "spec_match crossing n os = (fills, n', os')"
  shows "n - n' = fill_total fills \<and> total_quantity os - total_quantity os' = fill_total fills"
  using assms by (induction rule: spec_match_cases) auto

lemma spec_match_bounds:
  assumes "spec_match crossing n os = (fills, n', os')" and "all_positive os" and "0 \<le> n"
  shows "0 \<le> n' \<and> n' \<le> n \<and> (\<forall>f \<in> set fills. fst f \<in> set os \<and>
    crossing (ord_price (fst f)) \<and> 0 < snd f \<and> snd f \<le> ord_remaining_quantity (fst f))"
  using assms by (induction rule: spec_match_cases) fastforce+

text \<open>Matching stops for a reason: nothing left, an empty side, or a best price that does not cross.\<close>

lemma spec_match_stops:
  assumes "spec_match crossing n os = (fills, n', os')"
  shows "n' = 0 \<or> os' = [] \<or> \<not> crossing (ord_price (hd os'))"
  using assms by (induction rule: spec_match_cases) auto

lemma spec_match_level_quantity:
  assumes "spec_match crossing n os = (fills, n', os')" and "all_positive os" and "0 \<le> n"
  shows "level_quantity os' p \<le> level_quantity os p"
  using assms by (induction rule: spec_match_cases) (auto simp: add_increasing)

text \<open>A level whose orders all cross is consumed first, then the rest of the side.\<close>

lemma spec_match_append:
  assumes "\<forall>ord \<in> set os. crossing (ord_price ord)"
    and "spec_match (\<lambda>_. True) n os = (f1, n1, os1)"
    and "spec_match crossing n1 ps = (f2, n2, ps2)"
  shows "spec_match crossing n (os @ ps) =
    (if os1 = [] then (f1 @ f2, n2, ps2) else (f1, n1, os1 @ ps))"
  using assms
proof (induction os arbitrary: n f1 n1 os1)
  case (Cons ord os)
  then show ?case
    by (auto split: if_splits prod.splits)
qed auto

lemma spec_match_rest_zero:
  assumes "spec_match (\<lambda>_. True) n os = (f1, n1, os1)" and "os1 \<noteq> []"
  shows "n1 = 0"
  using spec_match_stops [OF assms(1)] assms(2) by auto

lemma spec_match_zero [simp]: "spec_match crossing 0 os = ([], 0, os)"
  by (cases os) simp_all

section \<open>The specified steps\<close>

definition find_order :: "int \<Rightarrow> view \<Rightarrow> order option" where
  "find_order i v = List.find (\<lambda>ord. ord_order_id ord = i) (v BUY @ v SELL)"

definition rested_order :: "new_order \<Rightarrow> side \<Rightarrow> int \<Rightarrow> int \<Rightarrow> int \<Rightarrow> order" where
  "rested_order ord sd p remaining sequence =
     \<lparr>ord_order_id = new_order_id ord, ord_client_id = new_client_id ord,
      ord_instrument_id = new_instrument_id ord, ord_side = sd, ord_price = p,
      ord_remaining_quantity = remaining, ord_priority_sequence = sequence\<rparr>"

text \<open>Match against the other side, then insert the residual of a resting order.\<close>

definition spec_add ::
  "side \<Rightarrow> new_order \<Rightarrow> int \<Rightarrow> view \<Rightarrow> (order \<times> int) list \<times> int \<times> view" where
  "spec_add sd ord sequence v =
     (let (fills, n, os) = spec_match (limit_crosses sd (new_limit_price ord)) (new_quantity ord)
            (v (other_side sd));
          v1 = v(other_side sd := os)
      in (fills, n,
          case new_limit_price ord of
            None \<Rightarrow> v1
          | Some p \<Rightarrow>
              if residual_rests ord n
              then v1(sd := spec_insert sd (rested_order ord sd p n sequence) (v sd)) else v1))"

text \<open>Capacity: the number of active orders, and the quantity at the price that grew.\<close>

definition fits :: "matching_config \<Rightarrow> side \<Rightarrow> int option \<Rightarrow> view \<Rightarrow> bool" where
  "fits c sd limit v \<longleftrightarrow>
     int (length (v BUY) + length (v SELL)) \<le> max_active_orders c \<and>
     (case limit of None \<Rightarrow> True | Some p \<Rightarrow> level_quantity (v sd) p \<le> U64_MAX)"

definition spec_remove_order :: "int \<Rightarrow> view \<Rightarrow> view" where
  "spec_remove_order i v = (\<lambda>sd. spec_remove i (v sd))"

section \<open>Well-formed views\<close>

definition order_ok :: "matching_config \<Rightarrow> int \<Rightarrow> int \<Rightarrow> side \<Rightarrow> order \<Rightarrow> bool" where
  "order_ok c iid latest sd ord \<longleftrightarrow>
     1 \<le> ord_order_id ord \<and> ord_order_id ord \<le> U64_MAX \<and>
     1 \<le> ord_client_id ord \<and> ord_client_id ord \<le> U32_MAX \<and>
     ord_side ord = sd \<and> ord_instrument_id ord = iid \<and>
     1 \<le> ord_price ord \<and> ord_price ord \<le> I64_MAX \<and> ord_price ord mod tick_increment c = 0 \<and>
     1 \<le> ord_remaining_quantity ord \<and> ord_remaining_quantity ord \<le> max_order_quantity c \<and>
     1 \<le> ord_priority_sequence ord \<and> ord_priority_sequence ord \<le> latest"

definition view_ok :: "matching_config \<Rightarrow> int \<Rightarrow> int \<Rightarrow> view \<Rightarrow> bool" where
  "view_ok c iid latest v \<longleftrightarrow>
     (\<forall>sd. sorted_wrt (<) (map (rank sd) (v sd))) \<and>
     (\<forall>sd. \<forall>ord \<in> set (v sd). order_ok c iid latest sd ord) \<and>
     distinct (map ord_order_id (v BUY @ v SELL)) \<and>
     distinct (map ord_priority_sequence (v BUY @ v SELL)) \<and>
     (\<forall>sd p. level_quantity (v sd) p \<le> U64_MAX) \<and>
     (\<forall>b \<in> set (v BUY). \<forall>a \<in> set (v SELL). ord_price b < ord_price a)"

lemma view_okD:
  assumes "view_ok c iid latest v"
  shows "sorted_wrt (<) (map (rank sd) (v sd))"
    and "\<And>ord. ord \<in> set (v sd) \<Longrightarrow> order_ok c iid latest sd ord"
    and "distinct (map ord_order_id (v BUY @ v SELL))"
    and "distinct (map ord_priority_sequence (v BUY @ v SELL))"
    and "level_quantity (v sd) p \<le> U64_MAX"
    and "\<And>b a. b \<in> set (v BUY) \<Longrightarrow> a \<in> set (v SELL) \<Longrightarrow> ord_price b < ord_price a"
  using assms by (auto simp: view_ok_def)

lemma view_okI:
  assumes "\<And>sd. sorted_wrt (<) (map (rank sd) (v sd))"
    and "\<And>sd ord. ord \<in> set (v sd) \<Longrightarrow> order_ok c iid latest sd ord"
    and "distinct (map ord_order_id (v BUY @ v SELL))"
    and "distinct (map ord_priority_sequence (v BUY @ v SELL))"
    and "\<And>sd p. level_quantity (v sd) p \<le> U64_MAX"
    and "\<And>b a. b \<in> set (v BUY) \<Longrightarrow> a \<in> set (v SELL) \<Longrightarrow> ord_price b < ord_price a"
  shows "view_ok c iid latest v"
  unfolding view_ok_def using assms by blast

lemma view_ok_positive: "view_ok c iid latest v \<Longrightarrow> all_positive (v sd)"
  using view_okD(2) by (fastforce simp: order_ok_def)

lemma view_ok_mono:
  assumes "view_ok c iid latest v" and "latest \<le> latest'"
  shows "view_ok c iid latest' v"
  using assms by (fastforce simp: view_ok_def order_ok_def)

lemma empty_view_ok: "view_ok c iid latest (\<lambda>_. [])"
  by (simp add: view_ok_def U64_MAX_def)

text \<open>
  A side shrinks: what is left is a subsequence of the side up to partial executions.  Matching and
  cancelling only shrink sides.
\<close>

definition shrinks :: "order list \<Rightarrow> order list \<Rightarrow> bool" where
  "shrinks os' os \<longleftrightarrow> (\<exists>zs. subseq zs os \<and> list_all2 remnant os' zs) \<and>
     (\<forall>p. level_quantity os' p \<le> level_quantity os p)"

lemma subseq_subset: "subseq xs ys \<Longrightarrow> set xs \<subseteq> set ys"
  by (induction rule: list_emb.induct) auto

lemma subseq_distinct: "subseq xs ys \<Longrightarrow> distinct ys \<Longrightarrow> distinct xs"
  by (induction rule: list_emb.induct) (auto dest: subseq_subset)

lemma subseq_sorted_wrt: "subseq xs ys \<Longrightarrow> sorted_wrt R ys \<Longrightarrow> sorted_wrt R xs"
  by (induction rule: list_emb.induct) (auto dest: subseq_subset)

lemma remnants_map:
  assumes "list_all2 remnant os' os" and "\<And>q ord. f (reduced q ord) = f ord"
  shows "map f os' = map f os"
  using assms by (induction rule: list_all2_induct) (auto simp: remnant_def)

lemma shrinks_subseq:
  assumes "shrinks os' os" and "\<And>q ord. f (reduced q ord) = f ord"
  shows "subseq (map f os') (map f os)"
proof -
  obtain zs where "subseq zs os" "list_all2 remnant os' zs" using assms(1) by (auto simp: shrinks_def)
  with remnants_map [OF this(2), of f] assms(2) show ?thesis by (simp add: subseq_map)
qed

lemma remnant_order_ok: "remnant y x \<Longrightarrow> order_ok c iid latest sd x \<Longrightarrow> order_ok c iid latest sd y"
  by (auto simp: remnant_def order_ok_def)

lemma list_all2_in: "list_all2 R xs ys \<Longrightarrow> x \<in> set xs \<Longrightarrow> \<exists>y \<in> set ys. R x y"
  by (induction rule: list_all2_induct) auto

lemma shrinks_elem:
  assumes "shrinks os' os" and "y \<in> set os'"
  shows "\<exists>x \<in> set os. remnant y x"
  using assms list_all2_in subseq_subset by (fastforce simp: shrinks_def)

lemma shrinks_refl: "all_positive os \<Longrightarrow> shrinks os os"
  unfolding shrinks_def using remnants_refl by auto

lemma view_ok_shrink:
  assumes "view_ok c iid latest v" and "\<And>sd. shrinks (v' sd) (v sd)"
  shows "view_ok c iid latest v'"
proof -
  have sorted: "sorted_wrt (<) (map (rank sd) (v' sd))" for sd
    using shrinks_subseq [OF assms(2), of "rank sd"] view_okD(1) [OF assms(1), of sd]
    by (auto intro: subseq_sorted_wrt)
  have d: "distinct (map f (v' BUY @ v' SELL))"
    if f: "\<And>q ord. f (reduced q ord) = f ord" "distinct (map f (v BUY @ v SELL))"
    for f :: "order \<Rightarrow> int"
  proof (rule subseq_distinct [OF _ f(2)])
    show "subseq (map f (v' BUY @ v' SELL)) (map f (v BUY @ v SELL))"
      using shrinks_subseq [OF assms(2), of f, OF f(1)] by (auto intro: list_emb_append_mono)
  qed
  have ok: "order_ok c iid latest sd ord" if "ord \<in> set (v' sd)" for sd ord
    using shrinks_elem [OF assms(2) that] remnant_order_ok view_okD(2) [OF assms(1)] by blast
  have lq: "level_quantity (v' sd) p \<le> U64_MAX" for sd p
    using assms(2) view_okD(5) [OF assms(1), of sd p] by (meson order_trans shrinks_def)
  have "ord_price b < ord_price a" if "b \<in> set (v' BUY)" "a \<in> set (v' SELL)" for a b
    using shrinks_elem [OF assms(2) that(1)] shrinks_elem [OF assms(2) that(2)]
      view_okD(6) [OF assms(1)] by (auto simp: remnant_def)
  with sorted d view_okD(3,4) [OF assms(1)] ok lq show ?thesis
    unfolding view_ok_def by (intro conjI) auto
qed

lemma spec_match_shrinks:
  assumes "spec_match crossing n os = (fills, n', os')" and "all_positive os" and "0 \<le> n"
  shows "shrinks os' os"
proof -
  obtain k where "list_all2 remnant os' (drop k os)"
    using spec_match_remnants [OF assms] by blast
  moreover have "subseq (drop k os) os" by (intro suffix_imp_subseq suffix_drop)
  ultimately show ?thesis
    using spec_match_level_quantity [OF assms] by (auto simp: shrinks_def)
qed

lemma spec_remove_level_quantity:
  "all_positive os \<Longrightarrow> level_quantity (spec_remove i os) p \<le> level_quantity os p"
  by (induction os) (auto simp: spec_remove_def add_increasing)

lemma spec_remove_shrinks: "all_positive os \<Longrightarrow> shrinks (spec_remove i os) os"
  unfolding shrinks_def
  using spec_remove_level_quantity remnants_refl [of "spec_remove i os"]
  by (intro conjI exI [of _ "spec_remove i os"]) (simp_all add: spec_remove_def)

section \<open>Inserting a residual\<close>

lemma mset_spec_insert: "mset (spec_insert sd ord os) = add_mset ord (mset os)"
  by (simp add: spec_insert_def Let_def) (metis mset_append takeWhile_dropWhile_id)

lemma set_spec_insert [simp]: "set (spec_insert sd ord os) = insert ord (set os)"
  by (metis mset_spec_insert set_mset_add_mset_insert set_mset_mset)

lemma spec_insert_level_quantity [simp]:
  "level_quantity (spec_insert sd ord os) p =
     (if ord_price ord = p then ord_remaining_quantity ord else 0) + level_quantity os p"
proof -
  let ?b = "\<lambda>x. price_key sd (ord_price x) \<le> price_key sd (ord_price ord)"
  have "level_quantity os p = level_quantity (takeWhile ?b os) p + level_quantity (dropWhile ?b os) p"
    by (metis level_quantity_simps(3) takeWhile_dropWhile_id)
  then show ?thesis by (simp add: spec_insert_def Let_def)
qed

lemma length_spec_insert [simp]: "length (spec_insert sd ord os) = Suc (length os)"
  by (metis mset_spec_insert size_add_mset size_mset)

lemma spec_insert_sorted:
  assumes "sorted_wrt (<) (map (rank sd) os)"
    and "\<And>x. x \<in> set os \<Longrightarrow> ord_priority_sequence x < ord_priority_sequence ord"
  shows "sorted_wrt (<) (map (rank sd) (spec_insert sd ord os))"
  using assms
proof (induction os)
  case (Cons x os)
  then have below: "y \<in> set os \<Longrightarrow> price_key sd (ord_price x) \<le> price_key sd (ord_price y)" for y
    by (auto simp: rank_def less_prod_def)
  show ?case
  proof (cases "price_key sd (ord_price x) \<le> price_key sd (ord_price ord)")
    case True
    then have "spec_insert sd ord (x # os) = x # spec_insert sd ord os"
      by (simp add: spec_insert_def Let_def)
    with True Cons show ?thesis by (auto simp: rank_def less_prod_def)
  next
    case False
    then have "spec_insert sd ord (x # os) = ord # x # os" by (simp add: spec_insert_def Let_def)
    with False Cons.prems(1) below show ?thesis by (fastforce simp: rank_def less_prod_def)
  qed
qed (simp add: spec_insert_def Let_def)

lemma view_ok_insert:
  assumes ok: "view_ok c iid latest v" and "order_ok c iid latest' sd ord"
    and "latest < ord_priority_sequence ord" and "latest \<le> latest'"
    and fresh: "\<And>sd' x. x \<in> set (v sd') \<Longrightarrow> ord_order_id x \<noteq> ord_order_id ord"
    and lq: "level_quantity (v sd) (ord_price ord) + ord_remaining_quantity ord \<le> U64_MAX"
    and uncrossed: "\<And>x. x \<in> set (v (other_side sd)) \<Longrightarrow>
      price_key (other_side sd) (ord_price x) + price_key sd (ord_price ord) > 0"
  shows "view_ok c iid latest' (v(sd := spec_insert sd ord (v sd)))"
proof -
  let ?v = "v(sd := spec_insert sd ord (v sd))"
  have prio: "ord_priority_sequence x < ord_priority_sequence ord" if "x \<in> set (v sd')" for x sd'
    using view_okD(2) [OF ok that] assms(3) by (simp add: order_ok_def)
  have prio_neq: "ord_priority_sequence x \<noteq> ord_priority_sequence ord" if "x \<in> set (v sd')" for x sd'
    using prio [OF that] by simp
  have srt: "sorted_wrt (<) (map (rank sd') (?v sd'))" for sd'
    using view_okD(1) [OF ok, of sd'] spec_insert_sorted [of sd "v sd" ord] prio by auto
  have oks: "order_ok c iid latest' sd' x" if "x \<in> set (?v sd')" for sd' x
    using that assms(2) view_okD(2) [OF view_ok_mono [OF ok assms(4)]] by (auto split: if_splits)
  have dist: "distinct (map f (?v BUY @ ?v SELL))"
    if f: "distinct (map f (v BUY @ v SELL))" "\<And>sd' x. x \<in> set (v sd') \<Longrightarrow> f x \<noteq> f ord"
    for f :: "order \<Rightarrow> int"
  proof -
    have "mset (map f (?v BUY @ ?v SELL)) = mset (map f (ord # v BUY @ v SELL))"
      by (cases sd) (simp_all add: mset_spec_insert)
    from mset_eq_imp_distinct_iff [OF this] show ?thesis
      using f(1) f(2) [of _ BUY] f(2) [of _ SELL] by (auto simp: image_iff)
  qed
  have lqs: "level_quantity (?v sd') p \<le> U64_MAX" for sd' p
    using lq view_okD(5) [OF ok, of sd' p] by (auto simp: add.commute)
  have unc: "ord_price b < ord_price a" if "b \<in> set (?v BUY)" "a \<in> set (?v SELL)" for a b
    using that uncrossed view_okD(6) [OF ok, of b a]
    by (cases sd) (auto simp: price_key_def index_descending_def)
  show ?thesis
    by (rule view_okI [OF srt oks dist [OF view_okD(3) [OF ok] fresh]
          dist [OF view_okD(4) [OF ok] prio_neq] lqs unc])
qed

section \<open>Adding an order keeps the view well formed\<close>

definition new_order_ok :: "matching_config \<Rightarrow> int \<Rightarrow> side \<Rightarrow> new_order \<Rightarrow> bool" where
  "new_order_ok c iid sd ord \<longleftrightarrow>
     1 \<le> new_client_id ord \<and> new_client_id ord \<le> U32_MAX \<and>
     1 \<le> new_order_id ord \<and> new_order_id ord \<le> U64_MAX \<and>
     new_instrument_id ord = iid \<and> new_side ord = side_value sd \<and>
     1 \<le> new_quantity ord \<and> new_quantity ord \<le> max_order_quantity c \<and>
     (new_order_type ord = order_type_value LIMIT \<and>
        (\<exists>p. new_limit_price ord = Some p \<and> 1 \<le> p \<and> p \<le> I64_MAX \<and> p mod tick_increment c = 0) \<or>
      new_order_type ord = order_type_value MARKET \<and> new_limit_price ord = None)"

lemma new_order_ok_rests:
  assumes "new_order_ok c iid sd ord" and "residual_rests ord n"
  shows "\<exists>p. new_limit_price ord = Some p \<and> 1 \<le> p \<and> p \<le> I64_MAX \<and> p mod tick_increment c = 0"
  using assms by (auto simp: new_order_ok_def residual_rests_def)

lemma not_crossing_tail:
  assumes "sorted_wrt (<) (map (rank (other_side sd)) os)"
    and "os = [] \<or> \<not> limit_crosses sd (Some p) (ord_price (hd os))" and "x \<in> set os"
  shows "price_key (other_side sd) (ord_price x) + price_key sd p > 0"
proof -
  obtain y ys where os: "os = y # ys" using assms(3) by (cases os) auto
  have "price_key (other_side sd) (ord_price y) \<le> price_key (other_side sd) (ord_price x)"
    using assms(1,3) by (auto simp: os rank_def less_prod_def)
  with assms(2) show ?thesis
    by (cases sd) (auto simp: os limit_crosses_def price_key_def index_descending_def)
qed

lemma spec_add_rests:
  assumes "spec_add sd ord sequence v = (fills, n, v')"
    and "new_limit_price ord = Some p" and "residual_rests ord n"
  shows "\<exists>os. spec_match (limit_crosses sd (Some p)) (new_quantity ord) (v (other_side sd)) = (fills, n, os) \<and>
    v' = (v(other_side sd := os))(sd := spec_insert sd (rested_order ord sd p n sequence) (v sd))"
  using assms by (auto simp: spec_add_def Let_def split: prod.splits)

lemma spec_add_gone:
  assumes "spec_add sd ord sequence v = (fills, n, v')" and "\<not> residual_rests ord n"
  shows "\<exists>os. spec_match (limit_crosses sd (new_limit_price ord)) (new_quantity ord) (v (other_side sd)) =
      (fills, n, os) \<and> v' = v(other_side sd := os)"
  using assms by (auto simp: spec_add_def Let_def split: prod.splits option.splits)

lemma matched_view_ok:
  assumes "view_ok c iid latest v" and "spec_match crossing n (v sd) = (fills, n', os)" and "0 \<le> n"
  shows "view_ok c iid latest (v(sd := os))"
proof (rule view_ok_shrink [OF assms(1)])
  note pos = view_ok_positive [OF assms(1)]
  show "shrinks ((v(sd := os)) sd') (v sd')" for sd'
    using spec_match_shrinks [OF assms(2) pos assms(3)] shrinks_refl [OF pos, of sd'] by simp
qed

lemma spec_add_ok:
  assumes ok: "view_ok c iid latest v" and "new_order_ok c iid sd ord" and sq: "0 \<le> latest" "latest < sequence"
    and add: "spec_add sd ord sequence v = (fills, n, v')"
    and fresh: "\<And>sd' x. x \<in> set (v sd') \<Longrightarrow> ord_order_id x \<noteq> new_order_id ord"
    and fits: "residual_rests ord n \<Longrightarrow> fits c sd (new_limit_price ord) v'"
  shows "view_ok c iid sequence v'"
proof (cases "residual_rests ord n")
  case False
  have "0 \<le> new_quantity ord" using assms(2) by (simp add: new_order_ok_def)
  then have "view_ok c iid latest v'"
    using spec_add_gone [OF add False] matched_view_ok [OF ok] by blast
  then show ?thesis by (rule view_ok_mono) (use sq in simp)
next
  case True
  from new_order_ok_rests [OF assms(2) True] obtain p where
    p: "new_limit_price ord = Some p" "1 \<le> p" "p \<le> I64_MAX" "p mod tick_increment c = 0" by auto
  from spec_add_rests [OF add p(1) True] obtain os where
    m: "spec_match (limit_crosses sd (Some p)) (new_quantity ord) (v (other_side sd)) = (fills, n, os)"
    and v': "v' = (v(other_side sd := os))(sd := spec_insert sd (rested_order ord sd p n sequence) (v sd))"
    by blast
  let ?v = "v(other_side sd := os)" and ?o = "rested_order ord sd p n sequence"
  have q: "0 \<le> new_quantity ord" using assms(2) by (simp add: new_order_ok_def)
  note okm = matched_view_ok [OF ok m q]
  have n: "n \<noteq> 0" "0 \<le> n" "n \<le> new_quantity ord"
    using True spec_match_bounds [OF m view_ok_positive [OF ok] q] by (auto simp: residual_rests_def)
  have "view_ok c iid sequence (?v(sd := spec_insert sd ?o (?v sd)))"
  proof (rule view_ok_insert [OF okm])
    show "order_ok c iid sequence sd ?o"
      using assms(2) p n sq by (auto simp: order_ok_def new_order_ok_def rested_order_def)
    show "latest < ord_priority_sequence ?o" and "latest \<le> sequence"
      using sq by (simp_all add: rested_order_def)
    show "ord_order_id x \<noteq> ord_order_id ?o" if mem: "x \<in> set (?v sd')" for sd' x
    proof -
      obtain y where "y \<in> set (v sd')" "ord_order_id y = ord_order_id x"
        using mem shrinks_elem [OF spec_match_shrinks [OF m view_ok_positive [OF ok] q], of x]
        by (cases "sd' = other_side sd") (auto simp: remnant_def)
      with fresh [of y sd'] show ?thesis by (simp add: rested_order_def)
    qed
    show "level_quantity (?v sd) (ord_price ?o) + ord_remaining_quantity ?o \<le> U64_MAX"
      using fits [OF True] by (simp add: fits_def p(1) v' rested_order_def add.commute)
    show "price_key (other_side sd) (ord_price x) + price_key sd (ord_price ?o) > 0"
      if "x \<in> set (?v (other_side sd))" for x
      using not_crossing_tail [of sd os p x] view_okD(1) [OF okm, of "other_side sd"]
        spec_match_stops [OF m] n(1) that by (simp add: rested_order_def)
  qed
  then show ?thesis by (simp add: v')
qed

section \<open>The specified command step\<close>

fun trade_events ::
  "new_order \<Rightarrow> side \<Rightarrow> int \<Rightarrow> nat \<Rightarrow> int \<Rightarrow> (order \<times> int) list \<Rightarrow> event list" where
  "trade_events ord sd sequence k n [] = []"
| "trade_events ord sd sequence k n ((passive, x) # fills) =
     TradeEvent
       \<lparr>command_sequence = sequence, event_index = int k, hdr_instrument_id = new_instrument_id ord\<rparr>
       \<lparr>aggressor_order_id = new_order_id ord, resting_order_id = ord_order_id passive,
        aggressor_client_id = new_client_id ord, resting_client_id = ord_client_id passive,
        aggressor_side = sd, execution_price = ord_price passive, execution_quantity = x,
        aggressor_remaining = n - x, resting_remaining = ord_remaining_quantity passive - x\<rparr>
     # trade_events ord sd sequence (Suc k) (n - x) fills"

definition side_top :: "order list \<Rightarrow> top_of_book_level option" where
  "side_top os =
     (case os of
        [] \<Rightarrow> None
      | ord # _ \<Rightarrow> Some \<lparr>top_price = ord_price ord,
                         top_aggregate_quantity = level_quantity os (ord_price ord)\<rparr>)"

definition view_top :: "view \<Rightarrow> book_top" where
  "view_top v = \<lparr>best_bid = side_top (v BUY), best_ask = side_top (v SELL)\<rparr>"

definition terminal_event :: "new_order \<Rightarrow> side \<Rightarrow> int \<Rightarrow> nat \<Rightarrow> int \<Rightarrow> event" where
  "terminal_event ord sd sequence k n =
     (let h = \<lparr>command_sequence = sequence, event_index = int k,
               hdr_instrument_id = new_instrument_id ord\<rparr> in
      case (new_limit_price ord, residual_rests ord n) of
        (Some p, True) \<Rightarrow>
          RestedEvent h \<lparr>rested_order_id = new_order_id ord, rested_client_id = new_client_id ord,
                         rested_side = sd, rested_price = p, rested_remaining_quantity = n\<rparr>
      | _ \<Rightarrow>
          DoneEvent h (new_order_id ord)
            (if n = 0 then FILLED
             else if new_order_type ord = order_type_value MARKET then MARKET_EXHAUSTED
             else IOC_RESIDUAL_CANCELED) n)"

definition with_top_change :: "int \<Rightarrow> int \<Rightarrow> view \<Rightarrow> view \<Rightarrow> event list \<Rightarrow> event list" where
  "with_top_change iid sequence v v' events =
     (if view_top v = view_top v' then events
      else events @ [BookChangedEvent
        \<lparr>command_sequence = sequence, event_index = int (length events), hdr_instrument_id = iid\<rparr>
        (best_bid (view_top v')) (best_ask (view_top v'))])"

text \<open>Matching and resting, with its events appended to the ones already reported.\<close>

definition spec_aggress ::
  "int \<Rightarrow> side \<Rightarrow> new_order \<Rightarrow> int \<Rightarrow> view \<Rightarrow> view \<Rightarrow> event list \<Rightarrow> event list \<times> view" where
  "spec_aggress iid sd ord sequence v0 v events =
     (let (fills, n, v') = spec_add sd ord sequence v;
          events1 = events @ trade_events ord sd sequence (length events) (new_quantity ord) fills;
          events2 = events1 @ [terminal_event ord sd sequence (length events1) n]
      in (with_top_change iid sequence v0 v' events2, v'))"

definition spec_fits :: "matching_config \<Rightarrow> side \<Rightarrow> new_order \<Rightarrow> int \<Rightarrow> view \<Rightarrow> bool" where
  "spec_fits c sd ord sequence v =
     (let (fills, n, v') = spec_add sd ord sequence v in
      fits c sd (if residual_rests ord n then new_limit_price ord else None) v')"

fun first_failure :: "(bool \<times> reject_reason \<times> int option) list \<Rightarrow> rejection option" where
  "first_failure [] = None"
| "first_failure ((failed, reason, oid) # checks) =
     (if failed then Some \<lparr>rej_reason = reason, rej_order_id = oid\<rparr> else first_failure checks)"

definition spec_reject :: "int \<Rightarrow> int \<Rightarrow> command_type \<Rightarrow> rejection \<Rightarrow> event list" where
  "spec_reject iid sequence ctype rj =
     [RejectedEvent \<lparr>command_sequence = sequence, event_index = 0, hdr_instrument_id = iid\<rparr>
        ctype (rej_reason rj) (rej_order_id rj)]"

definition side_of :: "int \<Rightarrow> side" where
  "side_of v = (if v = side_value BUY then BUY else SELL)"

definition spec_new ::
  "matching_config \<Rightarrow> int \<Rightarrow> new_order \<Rightarrow> int \<Rightarrow> view \<Rightarrow> event list \<times> view" where
  "spec_new c iid ord sequence v =
     (let oid = new_order_id ord; sd = side_of (new_side ord) in
      case first_failure
        [(validate_new_shape ord \<noteq> NONE, validate_new_shape ord, relevant oid),
         (new_instrument_id ord \<noteq> iid, UNKNOWN_INSTRUMENT, Some oid),
         (max_order_quantity c < new_quantity ord, QUANTITY_OUT_OF_RANGE, Some oid),
         (case new_limit_price ord of None \<Rightarrow> False | Some p \<Rightarrow> p mod tick_increment c \<noteq> 0,
            INVALID_TICK, Some oid),
         (find_order oid v \<noteq> None, DUPLICATE_ORDER_ID, Some oid),
         (\<not> spec_fits c sd ord sequence v, CAPACITY_EXCEEDED, Some oid)] of
        Some rj \<Rightarrow> (spec_reject (new_instrument_id ord) sequence NEW rj, v)
      | None \<Rightarrow>
          spec_aggress iid sd ord sequence v v
            [AcceptedEvent \<lparr>command_sequence = sequence, event_index = 0, hdr_instrument_id = iid\<rparr> NEW])"

definition spec_cancel ::
  "int \<Rightarrow> cancel_order \<Rightarrow> int \<Rightarrow> view \<Rightarrow> event list \<times> view" where
  "spec_cancel iid cmd sequence v =
     (let oid = cancel_order_id cmd in
      case first_failure
        [(validate_cancel_shape cmd \<noteq> NONE, validate_cancel_shape cmd, relevant oid),
         (cancel_instrument_id cmd \<noteq> iid, UNKNOWN_INSTRUMENT, Some oid),
         (find_order oid v = None, UNKNOWN_ORDER_ID, Some oid),
         (ord_client_id (the (find_order oid v)) \<noteq> cancel_client_id cmd, OWNERSHIP_MISMATCH, Some oid)] of
        Some rj \<Rightarrow> (spec_reject (cancel_instrument_id cmd) sequence CANCEL rj, v)
      | None \<Rightarrow>
          (let v' = spec_remove_order oid v in
           (with_top_change iid sequence v v'
              (cancel_events cmd sequence (ord_remaining_quantity (the (find_order oid v)))), v')))"

definition spec_replace ::
  "matching_config \<Rightarrow> int \<Rightarrow> replace_order \<Rightarrow> int \<Rightarrow> view \<Rightarrow> event list \<times> view" where
  "spec_replace c iid cmd sequence v =
     (let old_id = rep_old_order_id cmd; new_id = rep_new_order_id cmd;
          old = the (find_order old_id v); ord = replacement_order cmd old; sd = ord_side old;
          v1 = spec_remove_order old_id v; shape = validate_replace_shape cmd in
      case first_failure
        [(shape \<noteq> NONE, shape, rej_order_id (replace_shape_rejection cmd shape)),
         (rep_instrument_id cmd \<noteq> iid, UNKNOWN_INSTRUMENT, Some old_id),
         (max_order_quantity c < rep_new_quantity cmd, QUANTITY_OUT_OF_RANGE, Some new_id),
         (rep_new_limit_price cmd mod tick_increment c \<noteq> 0, INVALID_TICK, Some new_id),
         (find_order old_id v = None, UNKNOWN_ORDER_ID, Some old_id),
         (ord_client_id old \<noteq> rep_client_id cmd, OWNERSHIP_MISMATCH, Some old_id),
         (find_order new_id v \<noteq> None, INVALID_REPLACEMENT_ID, Some new_id),
         (\<not> spec_fits c sd ord sequence v1, CAPACITY_EXCEEDED, Some new_id)] of
        Some rj \<Rightarrow> (spec_reject (rep_instrument_id cmd) sequence REPLACE rj, v)
      | None \<Rightarrow>
          spec_aggress iid sd ord sequence v v1
            (replace_events cmd sequence (ord_remaining_quantity old)))"

fun spec_step ::
  "matching_config \<Rightarrow> int \<Rightarrow> command \<Rightarrow> int \<Rightarrow> view \<Rightarrow> event list \<times> view" where
  "spec_step c iid (NewOrder cmd) sequence v = spec_new c iid cmd sequence v"
| "spec_step c iid (CancelOrder cmd) sequence v = spec_cancel iid cmd sequence v"
| "spec_step c iid (ReplaceOrder cmd) sequence v = spec_replace c iid cmd sequence v"

end
