(* ===== verification/Book_Invariant.thy ===== *)
theory Book_Invariant
  imports Price_Time_Spec
begin

text \<open>
  The representation invariant of the reference engine and the view it abstracts to.  The engine
  keeps two dictionaries of queues of references, cached aggregates, a lazy price index and an
  active-order index over one object store; the view of a side is the list of its orders in
  price-time priority.  Each mutation the matching code makes is a small state transformer here, with
  one lemma that it keeps the representation and says what it does to the view.
\<close>

section \<open>Queues as values\<close>

lemma ex_side: "(\<exists>sd. P sd) \<longleftrightarrow> P BUY \<or> P SELL"
  by (metis side.exhaust)

lemma all_side: "(\<forall>sd. P sd) \<longleftrightarrow> P BUY \<and> P SELL"
  by (metis side.exhaust)

definition queue_at :: "side \<Rightarrow> engine \<Rightarrow> int \<Rightarrow> order_ref list" where
  "queue_at sd s p = (case map_of (levels_of sd s) p of None \<Rightarrow> [] | Some q \<Rightarrow> q)"

definition level_orders :: "side \<Rightarrow> engine \<Rightarrow> int \<Rightarrow> order list" where
  "level_orders sd s p = orders_at s (queue_at sd s p)"

lemma queue_at_simps [simp]:
  "map_of (levels_of sd s) p = Some q \<Longrightarrow> queue_at sd s p = q"
  "map_of (levels_of sd s) p = None \<Longrightarrow> queue_at sd s p = []"
  by (simp_all add: queue_at_def)

lemma in_queue_at: "r \<in> set (queue_at sd s p) \<longleftrightarrow> (\<exists>q. map_of (levels_of sd s) p = Some q \<and> r \<in> set q)"
  by (cases "map_of (levels_of sd s) p") simp_all

lemma orders_at_simps [simp]:
  "orders_at s [] = []"
  "orders_at s (r # q) = deref s r # orders_at s q"
  "orders_at s (q @ q') = orders_at s q @ orders_at s q'"
  "length (orders_at s q) = length q"
  "set (orders_at s q) = deref s ` set q"
  "orders_at s q = [] \<longleftrightarrow> q = []"
  by (simp_all add: orders_at_def)

definition flat :: "side \<Rightarrow> engine \<Rightarrow> order list" where
  "flat sd s = concat (map (level_orders sd s) (best_first sd (side_prices sd s)))"

section \<open>The representation invariant\<close>

definition queued :: "engine \<Rightarrow> order_ref \<Rightarrow> bool" where
  "queued s r \<longleftrightarrow> (\<exists>sd p q. map_of (levels_of sd s) p = Some q \<and> r \<in> set q)"

lemma queued_iff: "queued s r \<longleftrightarrow> (\<exists>sd p. r \<in> set (queue_at sd s p))"
  by (simp add: queued_def in_queue_at)

definition located :: "engine \<Rightarrow> side \<Rightarrow> int \<Rightarrow> order_ref \<Rightarrow> bool" where
  "located s sd p r \<longleftrightarrow>
     r < length (eng_store s) \<and> ord_side (deref s r) = sd \<and> ord_price (deref s r) = p"

definition queues_ok :: "side \<Rightarrow> engine \<Rightarrow> bool" where
  "queues_ok sd s \<longleftrightarrow> (\<forall>p q. map_of (levels_of sd s) p = Some q \<longrightarrow>
     distinct q \<and> (\<forall>r \<in> set q. located s sd p r) \<and>
     map_of (aggregates_of sd s) p = Some (total_quantity (orders_at s q)))"

definition index_complete :: "engine \<Rightarrow> bool" where
  "index_complete s \<longleftrightarrow> dict_ok (eng_orders s) \<and>
     (\<forall>i r. map_of (eng_orders s) i = Some r \<longleftrightarrow> queued s r \<and> ord_order_id (deref s r) = i)"

definition rep_ok :: "engine \<Rightarrow> bool" where
  "rep_ok s \<longleftrightarrow> (\<forall>sd. caches_ok sd s \<and> queues_ok sd s) \<and> index_complete s"

text \<open>No level is empty, those in \<open>X\<close> excepted: a handler may leave one empty for a moment.\<close>

definition tight_except :: "(side \<times> int) set \<Rightarrow> engine \<Rightarrow> bool" where
  "tight_except X s \<longleftrightarrow>
     (\<forall>sd p q. map_of (levels_of sd s) p = Some q \<and> (sd, p) \<notin> X \<longrightarrow> q \<noteq> [])"

lemma rep_okD:
  assumes "rep_ok s"
  shows "caches_ok sd s" and "queues_ok sd s" and "index_complete s"
  using assms by (simp_all add: rep_ok_def)

lemma queues_okD:
  assumes "rep_ok s" and "map_of (levels_of sd s) p = Some q"
  shows "distinct q" and "\<And>r. r \<in> set q \<Longrightarrow> located s sd p r"
    and "map_of (aggregates_of sd s) p = Some (total_quantity (orders_at s q))"
  using assms by (simp_all add: rep_ok_def queues_ok_def)

lemma rep_ok_aggregates:
  assumes "rep_ok s" and "p \<in> side_prices sd s"
  shows "map_of (aggregates_of sd s) p = Some (total_quantity (level_orders sd s p))"
  using assms queues_okD(3) by (auto simp: side_prices_def level_orders_def)

lemma located_unique:
  "located s sd p r \<Longrightarrow> located s sd' p' r \<Longrightarrow> sd' = sd \<and> p' = p"
  by (simp add: located_def)

lemma queued_level:
  assumes "rep_ok s" and "queued s r"
  shows "\<exists>q. map_of (levels_of (ord_side (deref s r)) s) (ord_price (deref s r)) = Some q \<and> r \<in> set q"
proof -
  from assms(2) obtain sd p q where q: "map_of (levels_of sd s) p = Some q" "r \<in> set q"
    by (auto simp: queued_def)
  with queues_okD(2) [OF assms(1) q] show ?thesis by (auto simp: located_def)
qed

lemma queued_id_inj:
  assumes "rep_ok s" and "queued s r" and "queued s r'"
    and "ord_order_id (deref s r) = ord_order_id (deref s r')"
  shows "r = r'"
proof -
  have "map_of (eng_orders s) (ord_order_id (deref s r)) = Some r"
    and "map_of (eng_orders s) (ord_order_id (deref s r)) = Some r'"
    using rep_okD(3) [OF assms(1)] assms(2-4) by (simp_all add: index_complete_def)
  then show ?thesis by simp
qed

lemma rep_ok_index:
  assumes "rep_ok s"
  shows "map_of (eng_orders s) i = Some r \<longleftrightarrow> queued s r \<and> ord_order_id (deref s r) = i"
  using assms by (simp add: rep_ok_def index_complete_def)

section \<open>The view under changes of the price set\<close>

lemma best_first_remove: "finite P \<Longrightarrow> best_first sd (P - {p}) = removeAll p (best_first sd P)"
proof (rule best_first_eq [symmetric])
  show "sorted (map (price_key sd) (removeAll p (best_first sd P)))"
    using sorted_best_first [of sd P] by (simp add: removeAll_filter_not_eq sorted_filter)
qed (auto simp: distinct_removeAll)

lemma concat_removeAll: "f p = [] \<Longrightarrow> concat (map f (removeAll p ps)) = concat (map f ps)"
  by (induction ps) auto

lemma best_first_concat_remove:
  assumes "finite P" and "f p = []"
  shows "concat (map f (best_first sd (P - {p}))) = concat (map f (best_first sd P))"
  using assms by (simp add: best_first_remove concat_removeAll)

lemma best_first_concat_insert:
  assumes "finite P" and "f p = []"
  shows "concat (map f (best_first sd (insert p P))) = concat (map f (best_first sd P))"
proof (cases "p \<in> P")
  case False
  with best_first_concat_remove [of "insert p P" f p sd] assms show ?thesis by simp
qed (simp add: insert_absorb)

lemma best_first_Cons_tail:
  assumes "finite P" and "best_first sd P = p # ps"
  shows "best_first sd (P - {p}) = ps"
  using assms distinct_best_first [of sd P] by (simp add: best_first_remove)

lemma level_orders_absent: "p \<notin> side_prices sd s \<Longrightarrow> level_orders sd s p = []"
  by (simp add: side_prices_def level_orders_def domIff)

lemma in_flat:
  "ord \<in> set (flat sd s) \<longleftrightarrow> (\<exists>p. ord \<in> set (level_orders sd s p))"
  using level_orders_absent [of _ sd s] by (fastforce simp: flat_def)

lemma level_orders_located:
  assumes "rep_ok s" and "ord \<in> set (level_orders sd s p)"
  shows "ord_side ord = sd \<and> ord_price ord = p"
  using assms(2) queues_okD(2) [OF assms(1)]
  by (auto simp: level_orders_def in_queue_at located_def)

lemma tight_prices:
  assumes "rep_ok s" and "tight_except {} s"
  shows "side_prices sd s = ord_price ` set (flat sd s)"
proof -
  have "p \<in> ord_price ` set (flat sd s)" if "p \<in> side_prices sd s" for p
  proof -
    from that obtain q where q: "map_of (levels_of sd s) p = Some q"
      by (auto simp: side_prices_def)
    with assms(2) have "level_orders sd s p \<noteq> []"
      by (auto simp: tight_except_def level_orders_def orders_at_def)
    then obtain ord where "ord \<in> set (level_orders sd s p)" by (cases "level_orders sd s p") auto
    with level_orders_located [OF assms(1)] show ?thesis by (force simp: in_flat)
  qed
  moreover have "p \<in> side_prices sd s" if "p \<in> ord_price ` set (flat sd s)" for p
  proof -
    from that obtain ord p' where "ord \<in> set (level_orders sd s p')" "p = ord_price ord"
      by (auto simp: in_flat)
    with level_orders_located [OF assms(1)] level_orders_absent show ?thesis by fastforce
  qed
  ultimately show ?thesis by blast
qed

section \<open>Counting\<close>

definition queue_refs :: "side \<Rightarrow> engine \<Rightarrow> order_ref list" where
  "queue_refs sd s = concat (map (queue_at sd s) (best_first sd (side_prices sd s)))"

lemma flat_refs: "flat sd s = orders_at s (queue_refs sd s)"
  by (simp add: flat_def queue_refs_def level_orders_def [abs_def] orders_at_def map_concat comp_def)

lemma set_queue_refs:
  "set (queue_refs sd s) = {r. \<exists>p q. map_of (levels_of sd s) p = Some q \<and> r \<in> set q}"
  by (auto simp: queue_refs_def in_queue_at) (metis domI side_prices_def)

lemma distinct_queues:
  assumes "rep_ok s" and "distinct ps"
  shows "distinct (concat (map (queue_at sd s) ps))"
  using assms(2)
proof (induction ps)
  case (Cons p ps)
  have "distinct (queue_at sd s p)"
    using queues_okD(1) [OF assms(1)] by (auto simp: queue_at_def split: option.splits)
  moreover have "r \<notin> set (queue_at sd s p')" if "p' \<in> set ps" "r \<in> set (queue_at sd s p)" for p' r
  proof
    assume "r \<in> set (queue_at sd s p')"
    with that queues_okD(2) [OF assms(1)] have "located s sd p r" "located s sd p' r"
      by (auto simp: in_queue_at)
    with that Cons.prems show False by (auto simp: located_def)
  qed
  ultimately show ?case using Cons by auto
qed simp

lemma distinct_queue_refs: "rep_ok s \<Longrightarrow> distinct (queue_refs sd s)"
  by (simp add: queue_refs_def distinct_queues)

definition all_refs :: "engine \<Rightarrow> order_ref list" where
  "all_refs s = queue_refs BUY s @ queue_refs SELL s"

lemma distinct_all_refs:
  assumes "rep_ok s"
  shows "distinct (all_refs s)"
proof -
  have False if "r \<in> set (queue_refs BUY s)" "r \<in> set (queue_refs SELL s)" for r
  proof -
    from that obtain p q p' q' where "map_of (levels_of BUY s) p = Some q" "r \<in> set q"
      "map_of (levels_of SELL s) p' = Some q'" "r \<in> set q'" by (auto simp: set_queue_refs)
    with queues_okD(2) [OF assms] have "located s BUY p r" "located s SELL p' r" by blast+
    then show False by (simp add: located_def)
  qed
  then show ?thesis using distinct_queue_refs [OF assms] by (auto simp: all_refs_def)
qed

lemma set_all_refs: "set (all_refs s) = Collect (queued s)"
  unfolding all_refs_def set_append set_queue_refs by (auto simp: queued_def ex_side) blast

lemma order_count:
  assumes "rep_ok s"
  shows "length (eng_orders s) = length (flat BUY s) + length (flat SELL s)"
proof -
  have keys: "dict_ok (eng_orders s)" using assms by (simp add: rep_ok_def index_complete_def)
  have "dom (map_of (eng_orders s)) = (\<lambda>r. ord_order_id (deref s r)) ` Collect (queued s)"
    using rep_ok_index [OF assms] by (auto simp: dom_def)
  moreover have "inj_on (\<lambda>r. ord_order_id (deref s r)) (Collect (queued s))"
    using queued_id_inj [OF assms] by (auto simp: inj_on_def)
  ultimately have "card (dom (map_of (eng_orders s))) = card (set (all_refs s))"
    by (simp only: card_image set_all_refs)
  then have "length (eng_orders s) = length (all_refs s)"
    using distinct_card [OF distinct_all_refs [OF assms]] length_dict_card [OF keys] by simp
  then show ?thesis by (simp add: all_refs_def flat_refs)
qed

lemma flat_ids_distinct:
  assumes "rep_ok s"
  shows "distinct (map ord_order_id (flat BUY s @ flat SELL s))"
proof -
  have "inj_on (\<lambda>r. ord_order_id (deref s r)) (set (all_refs s))"
    using queued_id_inj [OF assms] by (auto simp: inj_on_def set_all_refs)
  then have "distinct (map (\<lambda>r. ord_order_id (deref s r)) (all_refs s))"
    using distinct_all_refs [OF assms] by (simp add: distinct_map)
  then show ?thesis by (simp add: all_refs_def flat_refs orders_at_def comp_def)
qed

section \<open>Elementary mutations\<close>

lemma setitem_same: "map_of d k = Some v \<Longrightarrow> dict_setitem k v d = d"
  by (induction d) (auto simp: dict_setitem_def split: if_splits)

lemma caches_ok_cong:
  assumes "caches_ok sd s" and "dict_ok (levels_of sd s')" and "dict_ok (aggregates_of sd s')"
    and "side_prices sd s' = side_prices sd s"
    and "dom (map_of (aggregates_of sd s')) = dom (map_of (aggregates_of sd s))"
    and "generations_of sd s' = generations_of sd s" and "heap_of sd s' = heap_of sd s"
    and "eng_next_level_generation s' = eng_next_level_generation s"
  shows "caches_ok sd s'"
  using assms by (simp add: caches_ok_def indexed_prices_def index_inv_def)

lemma caches_okD:
  assumes "caches_ok sd s"
  shows "dict_ok (levels_of sd s)" and "dict_ok (aggregates_of sd s)"
    and "dom (map_of (aggregates_of sd s)) = side_prices sd s"
  using assms by (simp_all add: caches_ok_def)

lemma orders_at_set_store:
  "r \<notin> set q \<Longrightarrow> orders_at (set_store ((eng_store s)[r := ord]) s) q = orders_at s q"
  by (simp add: orders_at_def) (metis nth_list_update_neq)

lemma orders_at_cong: "eng_store s' = eng_store s \<Longrightarrow> orders_at s' q = orders_at s q"
  by (simp add: orders_at_def)

lemma other_queue:
  assumes "rep_ok s" and "map_of (levels_of sd s) p = Some q" and "r \<in> set q"
    and "map_of (levels_of sd' s) p' = Some q'" and "(sd', p') \<noteq> (sd, p)"
  shows "r \<notin> set q'"
  using queues_okD(2) [OF assms(1,2,3)] queues_okD(2) [OF assms(1,4)] assms(5)
  by (auto simp: located_def)

lemma in_side_prices: "map_of (levels_of sd s) p = Some q \<Longrightarrow> p \<in> side_prices sd s"
  by (auto simp: side_prices_def)

subsection \<open>Executing part of a queued order\<close>

definition filled :: "side \<Rightarrow> int \<Rightarrow> order_ref \<Rightarrow> int \<Rightarrow> engine \<Rightarrow> engine" where
  "filled sd p r x s =
     set_aggregates sd
       (dict_setitem p (dict_get_default (aggregates_of sd s) p 0 - x) (aggregates_of sd s))
       (set_store ((eng_store s)[r := reduced x (deref s r)]) s)"

lemma nth_list_update_cases: "xs[i := x] ! j = (if i = j \<and> i < length xs then x else xs ! j)"
  by (cases "i < length xs") (auto simp: list_update_beyond)

lemma filled_levels [simp]: "levels_of sd' (filled sd p r x s) = levels_of sd' s"
  by (simp add: filled_def)

lemma filled_orders_at:
  assumes "rep_ok s" and "map_of (levels_of sd s) p = Some (r # q)"
    and "map_of (levels_of sd' s) p' = Some q'"
  shows "orders_at (filled sd p r x s) q' =
    (if (sd', p') = (sd, p) then reduced x (deref s r) # orders_at s q else orders_at s q')"
proof -
  have r: "r < length (eng_store s)" "r \<notin> set q"
    using queues_okD [OF assms(1,2)] by (auto simp: located_def)
  have st: "orders_at (filled sd p r x s) = orders_at (set_store ((eng_store s)[r := reduced x (deref s r)]) s)"
    by (simp add: filled_def orders_at_def fun_eq_iff)
  show ?thesis
  proof (cases "(sd', p') = (sd, p)")
    case True
    with assms(2,3) r show ?thesis by (auto simp: st orders_at_set_store)
  next
    case False
    then have "r \<notin> set q'" using other_queue [OF assms(1,2) _ assms(3)] by auto
    with False show ?thesis by (auto simp: st orders_at_set_store)
  qed
qed

lemma filled_deref:
  "ord_order_id (deref (filled sd p r x s) r') = ord_order_id (deref s r')"
  "ord_side (deref (filled sd p r x s) r') = ord_side (deref s r')"
  "ord_price (deref (filled sd p r x s) r') = ord_price (deref s r')"
  "length (eng_store (filled sd p r x s)) = length (eng_store s)"
  by (auto simp: filled_def nth_list_update_cases)

lemma filled_rep:
  assumes "rep_ok s" and lv: "map_of (levels_of sd s) p = Some (r # q)"
  shows "rep_ok (filled sd p r x s)"
proof -
  let ?s = "filled sd p r x s"
  have agg: "map_of (aggregates_of sd s) p = Some (total_quantity (orders_at s (r # q)))"
    using queues_okD(3) [OF assms] .
  have "caches_ok sd' ?s" for sd'
    using agg by (intro caches_ok_cong [OF rep_okD(1) [OF assms(1), of sd']])
      (auto simp: filled_def side_prices_def caches_okD(1,2) [OF rep_okD(1) [OF assms(1)]])
  moreover have "queues_ok sd' ?s" for sd'
    unfolding queues_ok_def
  proof (intro allI impI, goal_cases)
    case (1 p' q')
    then have lv': "map_of (levels_of sd' s) p' = Some q'" by simp
    note q' = queues_okD [OF assms(1) lv']
    have "map_of (aggregates_of sd' ?s) p' = Some (total_quantity (orders_at ?s q'))"
      using q'(3) agg by (auto simp: filled_orders_at [OF assms lv'])
        (auto simp: filled_def dict_get_default_def)
    moreover have "\<forall>r' \<in> set q'. located ?s sd' p' r'"
      using q'(2) by (simp add: located_def filled_deref)
    ultimately show ?case using q'(1) by simp
  qed
  moreover have "index_complete ?s"
    using rep_okD(3) [OF assms(1)]
    by (simp add: index_complete_def queued_def filled_deref) (simp add: filled_def)
  ultimately show ?thesis by (simp add: rep_ok_def)
qed

lemma filled_view:
  assumes "rep_ok s" and "map_of (levels_of sd s) p = Some (r # q)"
  shows "level_orders sd' (filled sd p r x s) p' =
    (if (sd', p') = (sd, p) then reduced x (deref s r) # orders_at s q else level_orders sd' s p')"
  using filled_orders_at [OF assms, of sd' p'] assms(2)
  by (cases "map_of (levels_of sd' s) p'") (auto simp: level_orders_def queue_at_def)

lemma filled_frame [simp]:
  "static_of (filled sd p r x s) = static_of s"
  "side_prices sd' (filled sd p r x s) = side_prices sd' s"
  "eng_orders (filled sd p r x s) = eng_orders s"
  "tight_except X (filled sd p r x s) = tight_except X s"
  by (simp_all add: filled_def side_prices_def tight_except_def)

subsection \<open>Taking an order out of its queue and out of the index\<close>

definition unlinked :: "side \<Rightarrow> int \<Rightarrow> order_ref \<Rightarrow> int \<Rightarrow> engine \<Rightarrow> engine" where
  "unlinked sd p r a s =
     set_orders (AList.delete (ord_order_id (deref s r)) (eng_orders s))
      (set_aggregates sd (dict_setitem p a (aggregates_of sd s))
        (set_levels sd (dict_setitem p (remove1 r (queue_at sd s p)) (levels_of sd s)) s))"

lemma unlinked_fields [simp]:
  "eng_store (unlinked sd p r a s) = eng_store s"
  "levels_of sd' (unlinked sd p r a s) =
     (if sd' = sd then dict_setitem p (remove1 r (queue_at sd s p)) (levels_of sd s)
      else levels_of sd' s)"
  "aggregates_of sd' (unlinked sd p r a s) =
     (if sd' = sd then dict_setitem p a (aggregates_of sd s) else aggregates_of sd' s)"
  "eng_orders (unlinked sd p r a s) = AList.delete (ord_order_id (deref s r)) (eng_orders s)"
  "static_of (unlinked sd p r a s) = static_of s"
  "orders_at (unlinked sd p r a s) q = orders_at s q"
  by (simp_all add: unlinked_def orders_at_def)

lemma unlinked_queued:
  assumes "rep_ok s" and lv: "map_of (levels_of sd s) p = Some q" and "r \<in> set q"
  shows "queued (unlinked sd p r a s) r' \<longleftrightarrow> queued s r' \<and> r' \<noteq> r"
proof -
  have d: "distinct q" using queues_okD(1) [OF assms(1,2)] .
  show ?thesis
  proof
    assume "queued (unlinked sd p r a s) r'"
    then obtain sd' p' q' where q': "map_of (levels_of sd' (unlinked sd p r a s)) p' = Some q'"
      "r' \<in> set q'" by (auto simp: queued_def)
    show "queued s r' \<and> r' \<noteq> r"
    proof (cases "(sd', p') = (sd, p)")
      case True
      with q' lv d have "r' \<in> set q" "r' \<noteq> r" by auto
      with lv show ?thesis unfolding queued_def by blast
    next
      case False
      then have lv': "map_of (levels_of sd' s) p' = Some q'" using q'(1) by (auto split: if_splits)
      with q'(2) show ?thesis
        using other_queue [OF assms lv' False] unfolding queued_def by blast
    qed
  next
    assume r': "queued s r' \<and> r' \<noteq> r"
    then obtain sd' p' q' where q': "map_of (levels_of sd' s) p' = Some q'" "r' \<in> set q'"
      by (auto simp: queued_def)
    let ?q = "if (sd', p') = (sd, p) then remove1 r q else q'"
    have "map_of (levels_of sd' (unlinked sd p r a s)) p' = Some ?q" "r' \<in> set ?q"
      using q' r' lv d by auto
    then show "queued (unlinked sd p r a s) r'" unfolding queued_def by blast
  qed
qed

lemma unlinked_caches:
  assumes "caches_ok sd' s" and "p \<in> side_prices sd s" and "p \<in> dom (map_of (aggregates_of sd s))"
  shows "caches_ok sd' (unlinked sd p r a s)"
  by (rule caches_ok_cong [OF assms(1)])
    (use assms caches_okD [OF assms(1)] in \<open>auto simp: side_prices_def unlinked_def\<close>)

lemma unlinked_rep:
  assumes rep: "rep_ok s" and lv: "map_of (levels_of sd s) p = Some q" and "r \<in> set q"
    and a: "a = total_quantity (orders_at s (remove1 r q))"
  shows "rep_ok (unlinked sd p r a s)"
proof -
  let ?s = "unlinked sd p r a s"
  have "caches_ok sd' ?s" for sd'
    using unlinked_caches [OF rep_okD(1) [OF rep]] in_side_prices [OF lv]
      caches_okD(3) [OF rep_okD(1) [OF rep, of sd]] by simp
  moreover have "queues_ok sd' ?s" for sd'
    unfolding queues_ok_def
  proof (intro allI impI, goal_cases)
    case (1 p' q')
    show ?case
    proof (cases "(sd', p') = (sd, p)")
      case True
      with 1 lv have "q' = remove1 r q" by simp
      with True queues_okD [OF rep lv] a show ?thesis
        by (auto simp: located_def dest: notin_set_remove1)
    next
      case False
      then have "map_of (levels_of sd' s) p' = Some q'" using 1 by (auto split: if_splits)
      from queues_okD [OF rep this] False show ?thesis by (auto simp: located_def)
    qed
  qed
  moreover have "index_complete ?s"
    using rep_okD(3) [OF rep] queued_id_inj [OF rep, of r] lv \<open>r \<in> set q\<close>
    by (auto simp: index_complete_def unlinked_queued [OF rep lv \<open>r \<in> set q\<close>])
      (metis queued_def)
  ultimately show ?thesis by (simp add: rep_ok_def)
qed

lemma unlinked_view:
  assumes "map_of (levels_of sd s) p = Some q"
  shows "level_orders sd' (unlinked sd p r a s) p' =
    (if (sd', p') = (sd, p) then orders_at s (remove1 r q) else level_orders sd' s p')"
  using assms by (auto simp: level_orders_def queue_at_def orders_at_def split: option.splits)

lemma unlinked_prices [simp]:
  "p \<in> side_prices sd s \<Longrightarrow> side_prices sd' (unlinked sd p r a s) = side_prices sd' s"
  by (auto simp: side_prices_def)

lemma unlinked_tight: "tight_except X s \<Longrightarrow> tight_except (insert (sd, p) X) (unlinked sd p r a s)"
  by (auto simp: tight_except_def split: if_splits)

subsection \<open>Opening, closing and scanning levels\<close>

lemma queued_cong:
  "(\<And>sd p. queue_at sd s' p = queue_at sd s p) \<Longrightarrow> queued s' r = queued s r"
  by (simp add: queued_iff)

lemma closed_level_fields [simp]:
  "eng_store (closed_level sd p s) = eng_store s"
  "eng_orders (closed_level sd p s) = eng_orders s"
  "static_of (closed_level sd p s) = static_of s"
  "orders_at (closed_level sd p s) q = orders_at s q"
  "levels_of sd' (closed_level sd p s) =
     (if sd' = sd then AList.delete p (levels_of sd s) else levels_of sd' s)"
  "aggregates_of sd' (closed_level sd p s) =
     (if sd' = sd then AList.delete p (aggregates_of sd s) else aggregates_of sd' s)"
  by (auto simp: closed_level_def orders_at_def)

lemma closed_queue_at:
  "queue_at sd s p = [] \<Longrightarrow> queue_at sd' (closed_level sd p s) p' = queue_at sd' s p'"
  by (auto simp: queue_at_def)

lemma closed_caches_other:
  "sd' \<noteq> sd \<Longrightarrow> caches_ok sd' (closed_level sd p s) = caches_ok sd' s"
  by (simp add: caches_ok_def closed_level_def side_prices_def indexed_prices_def index_inv_def)

lemma closed_rep:
  assumes "rep_ok s" and "queue_at sd s p = []"
  shows "rep_ok (closed_level sd p s)"
proof -
  let ?s = "closed_level sd p s"
  have "caches_ok sd' ?s" for sd'
    using closed_caches(1) closed_caches_other rep_okD(1) [OF assms(1)] by (cases "sd' = sd") auto
  moreover have "queues_ok sd' ?s" for sd'
    using rep_okD(2) [OF assms(1), of sd'] by (auto simp: queues_ok_def located_def)
  moreover have "index_complete ?s"
    using rep_okD(3) [OF assms(1)] queued_cong [of ?s s, OF closed_queue_at [OF assms(2)]]
    by (simp add: index_complete_def)
  ultimately show ?thesis by (simp add: rep_ok_def)
qed

lemma closed_view:
  "queue_at sd s p = [] \<Longrightarrow> level_orders sd' (closed_level sd p s) p' = level_orders sd' s p'"
  by (simp add: level_orders_def closed_queue_at)

lemma closed_prices [simp]:
  "side_prices sd' (closed_level sd p s) = (if sd' = sd then side_prices sd s - {p} else side_prices sd' s)"
  by (auto simp: side_prices_def)

lemma closed_tight: "tight_except (insert (sd, p) X) s \<Longrightarrow> tight_except (X - {(sd, p)}) (closed_level sd p s)"
  by (auto simp: tight_except_def split: if_splits)

lemma opened_fields [simp]:
  "eng_store (opened sd p s) = eng_store s"
  "eng_orders (opened sd p s) = eng_orders s"
  "static_of (opened sd p s) = static_of s"
  "orders_at (opened sd p s) q = orders_at s q"
  "levels_of sd' (opened sd p s) =
     (if sd' = sd then dict_setitem p [] (levels_of sd s) else levels_of sd' s)"
  "aggregates_of sd' (opened sd p s) =
     (if sd' = sd then dict_setitem p 0 (aggregates_of sd s) else aggregates_of sd' s)"
  by (auto simp: opened_def open_level_def register_level_def bindP_def getsP_def seqP_def
      modifyP_def Let_def orders_at_def)

lemma opened_queue_at:
  "queue_at sd s p = [] \<Longrightarrow> queue_at sd' (opened sd p s) p' = queue_at sd' s p'"
  by (auto simp: queue_at_def)

lemma opened_caches_other:
  assumes "sd' \<noteq> sd" and "caches_ok sd' s"
  shows "caches_ok sd' (opened sd p s)"
proof -
  have "index_ok sd' (generations_of sd' s) (eng_next_level_generation s + 1) (heap_of sd' s)"
    using assms(2) index_ok_mono by (fastforce simp: caches_ok_def index_inv_def)
  with assms show ?thesis
    by (auto simp: caches_ok_def opened_def open_level_def register_level_def bindP_def getsP_def
        seqP_def modifyP_def Let_def side_prices_def indexed_prices_def index_inv_def)
qed

lemma opened_rep:
  assumes "rep_ok s" and "p \<notin> side_prices sd s"
  shows "rep_ok (opened sd p s)"
proof -
  let ?s = "opened sd p s"
  have none: "queue_at sd s p = []" using assms(2) by (simp add: side_prices_def domIff)
  have "caches_ok sd' ?s" for sd'
    using opened_caches(1) [OF rep_okD(1) [OF assms(1)] assms(2)] opened_caches_other
      rep_okD(1) [OF assms(1)] by (cases "sd' = sd") auto
  moreover have "queues_ok sd' ?s" for sd'
    using rep_okD(2) [OF assms(1), of sd'] by (auto simp: queues_ok_def located_def)
  moreover have "index_complete ?s"
    using rep_okD(3) [OF assms(1)] queued_cong [of ?s s, OF opened_queue_at [OF none]]
    by (simp add: index_complete_def)
  ultimately show ?thesis by (simp add: rep_ok_def)
qed

lemma opened_view:
  "p \<notin> side_prices sd s \<Longrightarrow> level_orders sd' (opened sd p s) p' = level_orders sd' s p'"
  by (simp add: level_orders_def opened_queue_at side_prices_def domIff)

lemma opened_prices [simp]:
  "side_prices sd' (opened sd p s) = (if sd' = sd then insert p (side_prices sd s) else side_prices sd' s)"
  by (auto simp: side_prices_def)

lemma opened_tight: "tight_except X s \<Longrightarrow> tight_except (insert (sd, p) X) (opened sd p s)"
  by (auto simp: tight_except_def split: if_splits)

lemma set_heap_rep:
  assumes "rep_ok s" and "index_inv sd (set_heap sd h s)"
  shows "rep_ok (set_heap sd h s)"
proof -
  have "caches_ok sd' (set_heap sd h s)" for sd'
    using caches_ok_set_heap [OF rep_okD(1) [OF assms(1)] assms(2)] rep_okD(1) [OF assms(1), of sd']
    by (cases "sd' = sd")
      (simp_all add: caches_ok_def side_prices_def indexed_prices_def index_inv_def)
  with assms(1) show ?thesis
    by (simp add: rep_ok_def queues_ok_def index_complete_def queued_def located_def orders_at_def)
qed

lemma set_heap_view [simp]:
  "level_orders sd' (set_heap sd h s) = level_orders sd' s"
  "flat sd' (set_heap sd h s) = flat sd' s"
  "tight_except X (set_heap sd h s) = tight_except X s"
  "orders_at (set_heap sd h s) q = orders_at s q"
  by (simp_all add: level_orders_def [abs_def] queue_at_def orders_at_def [abs_def] flat_def
      tight_except_def fun_eq_iff)

subsection \<open>Appending a new order to a level\<close>

definition appended :: "side \<Rightarrow> order \<Rightarrow> engine \<Rightarrow> engine" where
  "appended sd ord s =
     (let p = ord_price ord; r = length (eng_store s) in
      set_orders (dict_setitem (ord_order_id ord) r (eng_orders s))
       (set_aggregates sd (dict_setitem p (dict_get_default (aggregates_of sd s) p 0 +
            ord_remaining_quantity ord) (aggregates_of sd s))
         (set_levels sd (dict_setitem p (queue_at sd s p @ [r]) (levels_of sd s))
           (set_store (eng_store s @ [ord]) s))))"

lemma appended_fields [simp]:
  "eng_store (appended sd ord s) = eng_store s @ [ord]"
  "eng_orders (appended sd ord s) =
     dict_setitem (ord_order_id ord) (length (eng_store s)) (eng_orders s)"
  "static_of (appended sd ord s) = static_of s"
  "levels_of sd' (appended sd ord s) =
     (if sd' = sd then dict_setitem (ord_price ord) (queue_at sd s (ord_price ord) @ [length (eng_store s)])
        (levels_of sd s) else levels_of sd' s)"
  "aggregates_of sd' (appended sd ord s) =
     (if sd' = sd then dict_setitem (ord_price ord)
        (dict_get_default (aggregates_of sd s) (ord_price ord) 0 + ord_remaining_quantity ord)
        (aggregates_of sd s) else aggregates_of sd' s)"
  by (simp_all add: appended_def Let_def)

lemma appended_orders_at:
  assumes "rep_ok s" and "set q \<subseteq> Collect (queued s)"
  shows "orders_at (appended sd ord s) q = orders_at s q"
proof -
  have "r < length (eng_store s)" if "r \<in> set q" for r
    using that assms queues_okD(2) [OF assms(1)] by (fastforce simp: queued_def located_def)
  then show ?thesis by (simp add: orders_at_def nth_append)
qed

lemma queue_at_queued: "set (queue_at sd s p) \<subseteq> Collect (queued s)"
  unfolding queued_iff by blast

lemma appended_queue_at:
  "queue_at sd' (appended sd ord s) p' =
     (if (sd', p') = (sd, ord_price ord) then queue_at sd s p' @ [length (eng_store s)]
      else queue_at sd' s p')"
  by (auto simp: queue_at_def)

lemma appended_view:
  assumes "rep_ok s"
  shows "level_orders sd' (appended sd ord s) p' =
    (if (sd', p') = (sd, ord_price ord) then level_orders sd s p' @ [ord] else level_orders sd' s p')"
  using appended_orders_at [OF assms queue_at_queued]
  by (auto simp: level_orders_def appended_queue_at)

lemma appended_queued:
  "queued (appended sd ord s) r \<longleftrightarrow> queued s r \<or> r = length (eng_store s)"
proof
  assume "queued s r \<or> r = length (eng_store s)"
  then show "queued (appended sd ord s) r"
  proof
    assume "queued s r"
    then obtain sd' p' where "r \<in> set (queue_at sd' s p')" by (auto simp: queued_iff)
    then have "r \<in> set (queue_at sd' (appended sd ord s) p')" by (auto simp: appended_queue_at)
    then show ?thesis unfolding queued_iff by blast
  next
    assume "r = length (eng_store s)"
    then have "r \<in> set (queue_at sd (appended sd ord s) (ord_price ord))"
      by (simp add: appended_queue_at)
    then show ?thesis unfolding queued_iff by blast
  qed
qed (auto simp: queued_iff appended_queue_at split: if_splits)

lemma appended_rep:
  assumes rep: "rep_ok s" and "ord_price ord \<in> side_prices sd s" and "ord_side ord = sd"
    and fresh: "map_of (eng_orders s) (ord_order_id ord) = None"
  shows "rep_ok (appended sd ord s)"
proof -
  let ?s = "appended sd ord s" and ?p = "ord_price ord"
  obtain q where lv: "map_of (levels_of sd s) ?p = Some q"
    using assms(2) by (auto simp: side_prices_def)
  have lt: "r < length (eng_store s)" if "queued s r" for r
    using that queues_okD(2) [OF rep] by (fastforce simp: queued_def located_def)
  have sub: "set q' \<subseteq> Collect (queued s)" if "map_of (levels_of sd' s) p' = Some q'" for sd' p' q'
    using that unfolding queued_def by blast
  have "?p \<in> dom (map_of (aggregates_of sd s))"
    using assms(2) caches_okD(3) [OF rep_okD(1) [OF rep]] by simp
  then have "caches_ok sd' ?s" for sd'
    by (intro caches_ok_cong [OF rep_okD(1) [OF rep, of sd']])
      (use assms(2) caches_okD(1,2) [OF rep_okD(1) [OF rep]] in \<open>auto simp: side_prices_def appended_def Let_def\<close>)
  moreover have "queues_ok sd' ?s" for sd'
    unfolding queues_ok_def
  proof (intro allI impI, goal_cases)
    case (1 p' q')
    show ?case
    proof (cases "(sd', p') = (sd, ?p)")
      case True
      then have q': "q' = q @ [length (eng_store s)]" using 1 lv by simp
      note old = queues_okD [OF rep lv]
      have "length (eng_store s) \<notin> set q" using lt sub [OF lv] by auto
      moreover have "orders_at ?s q' = orders_at s q @ [ord]"
        unfolding q' by (simp add: appended_orders_at [OF rep sub [OF lv]])
      ultimately show ?thesis
        using True old assms(3) by (auto simp: q' located_def nth_append dict_get_default_def less_SucI)
    next
      case False
      then have lv': "map_of (levels_of sd' s) p' = Some q'" using 1 by (auto split: if_splits)
      from queues_okD [OF rep lv'] False appended_orders_at [OF rep sub [OF lv']] show ?thesis
        by (auto simp: located_def nth_append less_SucI)
    qed
  qed
  moreover have "index_complete ?s"
    using rep_okD(3) [OF rep] fresh lt
    by (fastforce simp: index_complete_def appended_queued nth_append)
  ultimately show ?thesis by (simp add: rep_ok_def)
qed

lemma appended_prices:
  "ord_price ord \<in> side_prices sd s \<Longrightarrow> side_prices sd' (appended sd ord s) = side_prices sd' s"
  by (auto simp: side_prices_def)

lemma appended_tight:
  "tight_except (insert (sd, ord_price ord) X) s \<Longrightarrow> tight_except (X - {(sd, ord_price ord)}) (appended sd ord s)"
  by (auto simp: tight_except_def split: if_splits)

end
