(* ===== verification/Matching_Refinement.thy ===== *)
theory Matching_Refinement
  imports Book_Invariant
begin

text \<open>
  The matching loops, resting, erasing, the top of book and the capacity projection implement the
  price-time specification on every state that satisfies the representation invariant: none of them
  raises, each keeps the representation, and the view changes as \<open>Price_Time_Spec\<close> says.
\<close>

section \<open>One level\<close>

text \<open>A step that touches the queue of one level only.\<close>

definition level_step :: "side \<Rightarrow> int \<Rightarrow> engine \<Rightarrow> engine \<Rightarrow> bool" where
  "level_step sd p s s' \<longleftrightarrow>
     rep_ok s' \<and> static_of s' = static_of s \<and> (\<forall>sd'. side_prices sd' s' = side_prices sd' s) \<and>
     (\<forall>sd' p'. (sd', p') \<noteq> (sd, p) \<longrightarrow> level_orders sd' s' p' = level_orders sd' s p') \<and>
     (\<forall>X. tight_except (insert (sd, p) X) s \<longrightarrow> tight_except (insert (sd, p) X) s')"

lemma level_step_refl: "rep_ok s \<Longrightarrow> level_step sd p s s"
  by (simp add: level_step_def)

lemma level_step_trans: "level_step sd p s s' \<Longrightarrow> level_step sd p s' s'' \<Longrightarrow> level_step sd p s s''"
  by (simp add: level_step_def)

lemma filled_step:
  "rep_ok s \<Longrightarrow> map_of (levels_of sd s) p = Some (r # q) \<Longrightarrow> level_step sd p s (filled sd p r x s)"
  unfolding level_step_def by (simp add: filled_rep filled_view split: if_splits)

lemma unlinked_step:
  assumes "rep_ok s" and "map_of (levels_of sd s) p = Some q" and "r \<in> set q"
    and "a = total_quantity (orders_at s (remove1 r q))"
  shows "level_step sd p s (unlinked sd p r a s)"
  unfolding level_step_def
  using unlinked_rep [OF assms] unlinked_view [OF assms(2)] unlinked_tight [of _ s sd p r a]
    in_side_prices [OF assms(2)] by (auto simp: insert_commute) (metis insert_absorb2)

lemma set_aggregates_same: "set_aggregates sd (aggregates_of sd s) s = s"
  by (cases sd) (simp_all add: selector_defs)

lemma fill_front_returns:
  assumes "rep_ok s" and "map_of (levels_of opp s) p = Some (r # q)"
    and "new_side ag = side_value sd" and "x = min n (ord_remaining_quantity (deref s r))"
  shows "fill_front ag sq opp p r n ev s =
    (Inr (n - x, ev @ trade_events ag sd sq (length ev) n [(deref s r, x)], reduced x (deref s r)),
     filled opp p r x s)"
proof -
  have r: "r < length (eng_store s)" and price: "ord_price (deref s r) = p"
    using queues_okD(2) [OF assms(1,2)] by (auto simp: located_def)
  have agg: "map_of (aggregates_of opp s) p = Some (total_quantity (orders_at s (r # q)))"
    using queues_okD(3) [OF assms(1,2)] .
  then show ?thesis
    using assms(3,4) r
    by (simp add: fill_front_def Let_def dict_getitem_def filled_def dict_get_default_def header_def
        reduced_def [symmetric] Side_side_value)
qed

lemma pop_front_returns:
  assumes "rep_ok s" and lv: "map_of (levels_of opp s) p = Some (r # q)"
    and "ord_remaining_quantity (deref s r) = 0"
  shows "pop_front opp p q (ord_order_id (deref s r)) s =
    (Inr (), unlinked opp p r (total_quantity (orders_at s q)) s)"
proof -
  have "queued s r" using lv unfolding queued_def by fastforce
  then have "map_of (eng_orders s) (ord_order_id (deref s r)) \<noteq> None"
    using rep_ok_index [OF assms(1), of "ord_order_id (deref s r)" r] by simp
  moreover have "dict_setitem p (total_quantity (orders_at s q)) (aggregates_of opp s) = aggregates_of opp s"
    using queues_okD(3) [OF assms(1) lv] assms(3) by (intro setitem_same) simp
  moreover have "set_aggregates opp (aggregates_of opp s) (set_levels opp l s) = set_levels opp l s" for l
    using set_aggregates_same [of opp "set_levels opp l s"] by simp
  ultimately show ?thesis
    using lv by (simp add: pop_front_def dict_delitem_present unlinked_def)
      (simp add: modifyP_def)
qed

lemma match_queue_stop:
  "queue = [] \<or> n = 0 \<Longrightarrow> match_queue ag sq opp p queue n ev s = (Inr (queue, n, ev), s)"
  by (subst match_queue.simps) (auto split: list.splits)

lemma trade_events_append:
  "trade_events ag sd sq k n (fs @ gs) =
     trade_events ag sd sq k n fs @ trade_events ag sd sq (k + length fs) (n - fill_total fs) gs"
  by (induction fs arbitrary: k n) (auto simp: algebra_simps)

lemma length_trade_events [simp]: "length (trade_events ag sd sq k n fs) = length fs"
  by (induction fs arbitrary: k n) auto

lemma match_queue_spec:
  assumes "rep_ok s" and "map_of (levels_of opp s) p = Some queue"
    and "new_side ag = side_value sd" and "all_positive (orders_at s queue)" and "0 \<le> n"
    and "spec_match (\<lambda>_. True) n (orders_at s queue) = (fills, n', os)"
  shows "\<exists>queue' s'. match_queue ag sq opp p queue n ev s =
      (Inr (queue', n', ev @ trade_events ag sd sq (length ev) n fills), s') \<and>
    level_step opp p s s' \<and> map_of (levels_of opp s') p = Some queue' \<and> orders_at s' queue' = os"
  using assms
proof (induction queue arbitrary: n ev s fills)
  case Nil
  then show ?case
    by (intro exI [of _ "[]"] exI [of _ s]) (auto simp: match_queue_stop level_step_refl)
next
  case (Cons r queue)
  let ?o = "deref s r"
  consider "n = 0" | (full) "n \<noteq> 0" "ord_remaining_quantity ?o \<le> n"
    | (part) "n \<noteq> 0" "n < ord_remaining_quantity ?o" by linarith
  then show ?case
  proof cases
    case 1
    with Cons.prems show ?thesis
      by (intro exI [of _ "r # queue"] exI [of _ s]) (auto simp: match_queue_stop level_step_refl)
  next
    case full
    let ?x = "ord_remaining_quantity ?o"
    let ?s1 = "filled opp p r ?x s"
    note ff = fill_front_returns [OF Cons.prems(1-3), of ?x n sq ev]
    obtain f1 n1 os1 where rec: "spec_match (\<lambda>_. True) (n - ?x) (orders_at s queue) = (f1, n1, os1)"
      by (metis prod_cases3)
    then have out: "fills = (?o, ?x) # f1" "n' = n1" "os = os1"
      using Cons.prems(6) full by auto
    have r: "r < length (eng_store s)"
      using queues_okD(2) [OF Cons.prems(1,2)] by (auto simp: located_def)
    have s1: "rep_ok ?s1" "map_of (levels_of opp ?s1) p = Some (r # queue)"
      "deref ?s1 r = reduced ?x ?o"
      using filled_rep [OF Cons.prems(1,2)] Cons.prems(2) r by (simp_all add: filled_def)
    let ?s2 = "unlinked opp p r (total_quantity (orders_at ?s1 queue)) ?s1"
    have pf: "pop_front opp p queue (ord_order_id (reduced ?x ?o)) ?s1 = (Inr (), ?s2)"
      using pop_front_returns [OF s1(1,2)] s1(3) by simp
    have step: "level_step opp p s ?s2"
      using level_step_trans [OF filled_step [OF Cons.prems(1,2)] unlinked_step [OF s1(1,2), of r]]
      by simp
    have at: "orders_at ?s2 queue = orders_at s queue"
      using queues_okD(1) [OF Cons.prems(1,2)]
      by (simp add: filled_def orders_at_def) (metis nth_list_update_neq)
    have lv2: "map_of (levels_of opp ?s2) p = Some queue"
      using s1(2) by simp
    let ?ev = "ev @ trade_events ag sd sq (length ev) n [(?o, ?x)]"
    have rep2: "rep_ok ?s2" using step by (simp add: level_step_def)
    have pos2: "all_positive (orders_at ?s2 queue)" using Cons.prems(4) unfolding at by simp
    have rec2: "spec_match (\<lambda>_. True) (n - ?x) (orders_at ?s2 queue) = (f1, n', os)"
      using rec out unfolding at by simp
    have "0 \<le> n - ?x" using full by simp
    from Cons.IH [OF rep2 lv2 Cons.prems(3) pos2 this rec2, of ?ev]
    obtain queue' s' where IH: "match_queue ag sq opp p queue (n - ?x) ?ev ?s2 =
        (Inr (queue', n', ?ev @ trade_events ag sd sq (length ?ev) (n - ?x) f1), s')"
      "level_step opp p ?s2 s'" "map_of (levels_of opp s') p = Some queue'" "orders_at s' queue' = os"
      by blast
    have "match_queue ag sq opp p (r # queue) n ev s = match_queue ag sq opp p queue (n - ?x) ?ev ?s2"
      by (subst match_queue.simps) (use full ff pf in simp)
    with IH level_step_trans [OF step IH(2)] show ?thesis
      by (intro exI [of _ queue'] exI [of _ s']) (simp add: out)
  next
    case part
    let ?s1 = "filled opp p r n s"
    note ff = fill_front_returns [OF Cons.prems(1-3), of n n sq ev]
    have "match_queue ag sq opp p (r # queue) n ev s =
        (Inr (r # queue, 0, ev @ trade_events ag sd sq (length ev) n [(?o, n)]), ?s1)"
      by (subst match_queue.simps) (use part ff in \<open>simp add: match_queue_stop\<close>)
    moreover have "orders_at ?s1 (r # queue) = os"
      using Cons.prems(6) part filled_orders_at [OF Cons.prems(1,2,2)] by simp
    ultimately show ?thesis
      using filled_step [OF Cons.prems(1,2)] Cons.prems(2,6) part
      by (intro exI [of _ "r # queue"] exI [of _ ?s1]) auto
  qed
qed

section \<open>The matching loop\<close>

lemma flat_cong:
  assumes "side_prices sd s' = side_prices sd s"
    and "\<And>p. p \<in> side_prices sd s \<Longrightarrow> level_orders sd s' p = level_orders sd s p"
  shows "flat sd s' = flat sd s"
proof -
  have "map (level_orders sd s') (best_first sd (side_prices sd s)) =
      map (level_orders sd s) (best_first sd (side_prices sd s))"
    using assms(2) by simp
  then show ?thesis by (simp only: flat_def assms(1))
qed

lemma flat_Cons:
  assumes "best_first sd (side_prices sd s) = p # ps"
  shows "flat sd s = level_orders sd s p @ concat (map (level_orders sd s) ps)"
  by (simp add: flat_def assms)

lemma best_price_rep:
  assumes "rep_ok s"
  shows "\<exists>h. best_price sd (index_descending sd) s =
      (Inr (case best_first sd (side_prices sd s) of [] \<Rightarrow> None | p # _ \<Rightarrow> Some p), set_heap sd h s) \<and>
    rep_ok (set_heap sd h s)"
proof -
  have "index_inv sd s" and "indexed_prices sd s = side_prices sd s"
    using rep_okD(1) [OF assms, of sd] by (simp_all add: caches_ok_def)
  with best_price_spec [of sd s] set_heap_rep [OF assms] show ?thesis by auto
qed

text \<open>What validation establishes about the aggressor of a matching run.\<close>

definition aggresses :: "side \<Rightarrow> new_order \<Rightarrow> bool" where
  "aggresses sd ag \<longleftrightarrow> new_side ag = side_value sd \<and>
     (\<forall>p. crosses ag p = Inr (limit_crosses sd (new_limit_price ag) p))"

lemma aggresses_opposite:
  assumes "aggresses sd ag"
  shows "opposite_levels ag = other_side sd"
    and "(new_side ag = side_value SELL) = index_descending (other_side sd)"
    and "(new_side ag = 2) = index_descending (other_side sd)"
    and "crosses ag p = Inr (limit_crosses sd (new_limit_price ag) p)"
  using assms by (cases sd; simp add: aggresses_def opposite_levels_def index_descending_def)+

lemma match_loop_zero: "match_loop ag sq 0 ev s = (Inr (0, ev), s)"
  by (subst match_loop.simps) simp

definition match_post :: "side \<Rightarrow> order list \<Rightarrow> engine \<Rightarrow> engine \<Rightarrow> bool" where
  "match_post opp os s s' \<longleftrightarrow>
     rep_ok s' \<and> tight_except {} s' \<and> static_of s' = static_of s \<and> flat opp s' = os \<and>
     flat (other_side opp) s' = flat (other_side opp) s"

lemma match_post_heap:
  "rep_ok (set_heap opp h s) \<Longrightarrow> tight_except {} s \<Longrightarrow> match_post opp (flat opp s) s (set_heap opp h s)"
  by (simp add: match_post_def)

lemma match_post_trans:
  "match_post opp os' s s' \<Longrightarrow> match_post opp os s' s'' \<Longrightarrow> match_post opp os s s''"
  by (simp add: match_post_def)

text \<open>After the inner loop: an emptied level is closed, a level with orders left stays.\<close>

lemma level_step_close:
  assumes "level_step opp p s s'" and "map_of (levels_of opp s') p = Some []"
    and "tight_except {} s" and "best_first opp (side_prices opp s) = p # ps"
  shows "remove_level opp p s' = (Inr (), closed_level opp p s')"
    and "match_post opp (concat (map (level_orders opp s) ps)) s (closed_level opp p s')"
    and "best_first opp (side_prices opp (closed_level opp p s')) = ps"
proof -
  have rep: "rep_ok s'" and st: "static_of s' = static_of s"
    and pr: "\<And>sd'. side_prices sd' s' = side_prices sd' s"
    and lv: "\<And>sd' p'. sd' \<noteq> opp \<or> p' \<noteq> p \<Longrightarrow> level_orders sd' s' p' = level_orders sd' s p'"
    using assms(1) by (auto simp: level_step_def)
  have empty: "queue_at opp s' p = []" using assms(2) by simp
  show "remove_level opp p s' = (Inr (), closed_level opp p s')"
    by (rule remove_level_returns [OF rep_okD(1) [OF rep] in_side_prices [OF assms(2)]])
  show bf: "best_first opp (side_prices opp (closed_level opp p s')) = ps"
    using best_first_Cons_tail [OF _ assms(4)] by (simp add: pr)
  have "p \<notin> set ps" using distinct_best_first [of opp "side_prices opp s"] by (simp add: assms(4))
  then have "map (level_orders opp (closed_level opp p s')) ps = map (level_orders opp s) ps"
    using lv [of opp] by (intro map_cong refl) (metis closed_view [OF empty])
  then have "flat opp (closed_level opp p s') = concat (map (level_orders opp s) ps)"
    by (simp only: flat_def bf)
  moreover have "flat (other_side opp) (closed_level opp p s') = flat (other_side opp) s"
    using lv by (intro flat_cong) (simp_all add: pr closed_view [OF empty])
  moreover have "tight_except {} (closed_level opp p s')"
  proof -
    have "tight_except {(opp, p)} s" using assms(3) by (auto simp: tight_except_def)
    then have "tight_except {(opp, p)} s'" using assms(1) by (auto simp: level_step_def)
    from closed_tight [OF this] show ?thesis by simp
  qed
  ultimately show "match_post opp (concat (map (level_orders opp s) ps)) s (closed_level opp p s')"
    using closed_rep [OF rep empty] st by (simp add: match_post_def)
qed

lemma level_step_keep:
  assumes "level_step opp p s s'" and "map_of (levels_of opp s') p = Some q" and "q \<noteq> []"
    and "tight_except {} s" and "best_first opp (side_prices opp s) = p # ps"
  shows "match_post opp (orders_at s' q @ concat (map (level_orders opp s) ps)) s s'"
proof -
  have rep: "rep_ok s'" and st: "static_of s' = static_of s"
    and pr: "\<And>sd'. side_prices sd' s' = side_prices sd' s"
    and lv: "\<And>sd' p'. sd' \<noteq> opp \<or> p' \<noteq> p \<Longrightarrow> level_orders sd' s' p' = level_orders sd' s p'"
    using assms(1) by (auto simp: level_step_def)
  have "p \<notin> set ps" using distinct_best_first [of opp "side_prices opp s"] by (simp add: assms(5))
  then have "map (level_orders opp s') ps = map (level_orders opp s) ps"
    using lv [of opp] by (intro map_cong refl) metis
  moreover have "best_first opp (side_prices opp s') = p # ps" by (simp add: pr assms(5))
  ultimately have "flat opp s' = orders_at s' q @ concat (map (level_orders opp s) ps)"
    using assms(2) by (simp only: flat_Cons) (simp add: level_orders_def)
  moreover have "flat (other_side opp) s' = flat (other_side opp) s"
    using lv by (intro flat_cong) (simp_all add: pr)
  moreover have "tight_except {} s'"
  proof -
    have "tight_except {(opp, p)} s" using assms(4) by (auto simp: tight_except_def)
    then have "tight_except {(opp, p)} s'" using assms(1) by (auto simp: level_step_def)
    with assms(2,3) show ?thesis by (fastforce simp: tight_except_def)
  qed
  ultimately show ?thesis using rep st by (simp add: match_post_def)
qed

lemma tight_level:
  assumes "rep_ok s" and "tight_except {} s" and "best_first sd (side_prices sd s) = p # ps"
  shows "\<exists>q. map_of (levels_of sd s) p = Some q \<and> q \<noteq> [] \<and> level_orders sd s p = orders_at s q \<and>
    (\<forall>ord \<in> set (orders_at s q). ord_price ord = p)"
proof -
  have "p \<in> side_prices sd s"
    using best_first_head [OF _ assms(3)] by simp
  then obtain q where q: "map_of (levels_of sd s) p = Some q" by (auto simp: side_prices_def)
  moreover have "q \<noteq> []" using assms(2) q by (auto simp: tight_except_def)
  moreover have lo: "level_orders sd s p = orders_at s q" using q by (simp add: level_orders_def)
  moreover have "\<forall>ord \<in> set (orders_at s q). ord_price ord = p"
    using level_orders_located [OF assms(1), of _ sd p] unfolding lo by blast
  ultimately show ?thesis by blast
qed

lemma match_loop_level:
  assumes "aggresses sd ag" and "n \<noteq> 0"
    and "best_price (other_side sd) (index_descending (other_side sd)) s = (Inr (Some p), s1)"
    and "limit_crosses sd (new_limit_price ag) p"
    and "map_of (levels_of (other_side sd) s1) p = Some queue"
    and "match_queue ag sq (other_side sd) p queue n ev s1 = (Inr (queue2, n2, ev2), s2)"
  shows "match_loop ag sq n ev s =
    (if queue2 = []
     then (case remove_level (other_side sd) p s2 of
             (Inl e, s3) \<Rightarrow> (Inl e, s3)
           | (Inr u, s3) \<Rightarrow> match_loop ag sq n2 ev2 s3)
     else match_loop ag sq n2 ev2 s2)"
  by (subst match_loop.simps) (simp add: Let_def aggresses_opposite [OF assms(1)] assms(2-6))

lemma match_loop_stops:
  assumes "aggresses sd ag"
    and "best_price (other_side sd) (index_descending (other_side sd)) s = (Inr b, s1)"
    and "case b of None \<Rightarrow> True | Some p \<Rightarrow> \<not> limit_crosses sd (new_limit_price ag) p"
    and "n \<noteq> 0"
  shows "match_loop ag sq n ev s = (Inr (n, ev), s1)"
  using assms(3) by (cases b; subst match_loop.simps)
    (simp_all add: Let_def aggresses_opposite [OF assms(1)] assms(2,4))

lemma match_loop_spec:
  assumes "aggresses sd ag" and "rep_ok s" and "tight_except {} s"
    and "all_positive (flat (other_side sd) s)" and "0 \<le> n"
    and "spec_match (limit_crosses sd (new_limit_price ag)) n (flat (other_side sd) s) = (fills, n', os)"
  shows "\<exists>s'. match_loop ag sq n ev s =
      (Inr (n', ev @ trade_events ag sd sq (length ev) n fills), s') \<and>
    match_post (other_side sd) os s s'"
proof -
  let ?opp = "other_side sd" and ?cr = "limit_crosses sd (new_limit_price ag)"
  have "\<exists>s'. match_loop ag sq n ev s =
      (Inr (n', ev @ trade_events ag sd sq (length ev) n fills), s') \<and> match_post ?opp os s s'"
    if "best_first ?opp (side_prices ?opp s) = ps" "rep_ok s" "tight_except {} s"
      "all_positive (flat ?opp s)" "0 \<le> n" "spec_match ?cr n (flat ?opp s) = (fills, n', os)"
    for ps s n ev fills
    using that
  proof (induction ps arbitrary: s n ev fills)
    case Nil
    obtain h where h: "best_price ?opp (index_descending ?opp) s = (Inr None, set_heap ?opp h s)"
      "rep_ok (set_heap ?opp h s)"
      using best_price_rep [OF Nil.prems(2), of ?opp] Nil.prems(1) by auto
    have "flat ?opp s = []" by (simp add: flat_def Nil.prems(1))
    then show ?case
      using match_loop_stops [OF assms(1) h(1), of n sq ev] Nil.prems
        match_post_heap [OF h(2)] match_loop_zero [of ag sq ev s] match_post_def [of ?opp os s s]
      by (cases "n = 0") auto
  next
    case (Cons p ps)
    obtain h where h: "best_price ?opp (index_descending ?opp) s = (Inr (Some p), set_heap ?opp h s)"
      "rep_ok (set_heap ?opp h s)"
      using best_price_rep [OF Cons.prems(2), of ?opp] Cons.prems(1) by auto
    let ?s1 = "set_heap ?opp h s"
    obtain q where q: "map_of (levels_of ?opp s) p = Some q" "q \<noteq> []"
      "level_orders ?opp s p = orders_at s q" "\<forall>ord \<in> set (orders_at s q). ord_price ord = p"
      using tight_level [OF Cons.prems(2,3,1)] by blast
    let ?tail = "concat (map (level_orders ?opp s) ps)"
    have flat: "flat ?opp s = orders_at s q @ ?tail"
      using flat_Cons [OF Cons.prems(1)] q(3) by simp
    consider "n = 0" | (stop) "n \<noteq> 0" "\<not> ?cr p" | (go) "n \<noteq> 0" "?cr p" by blast
    then show ?case
    proof cases
      case 1
      with Cons.prems show ?thesis by (auto simp: match_loop_zero match_post_def)
    next
      case stop
      obtain ord rs where "orders_at s q = ord # rs" using q(2) by (cases q) auto
      then have "spec_match ?cr n (flat ?opp s) = ([], n, flat ?opp s)"
        using stop q(4) by (simp add: flat)
      with Cons.prems(6) have "fills = []" "n' = n" "os = flat ?opp s" by auto
      with match_loop_stops [OF assms(1) h(1) _ stop(1), of sq ev] stop(2)
        match_post_heap [OF h(2) Cons.prems(3)] show ?thesis by auto
    next
      case go
      obtain f1 n1 os1 where m1: "spec_match (\<lambda>_. True) n (orders_at s q) = (f1, n1, os1)"
        by (metis prod_cases3)
      obtain f2 n2 os2 where m2: "spec_match ?cr n1 ?tail = (f2, n2, os2)"
        by (metis prod_cases3)
      have out: "(fills, n', os) = (if os1 = [] then (f1 @ f2, n2, os2) else (f1, n1, os1 @ ?tail))"
        using spec_match_append [OF _ m1 m2] q(4) go(2) Cons.prems(6) by (simp add: flat)
      have pos1: "all_positive (orders_at ?s1 q)" and pos2: "all_positive ?tail"
        using Cons.prems(4) unfolding flat by auto
      have lv1: "map_of (levels_of ?opp ?s1) p = Some q" using q(1) by simp
      have "spec_match (\<lambda>_. True) n (orders_at ?s1 q) = (f1, n1, os1)" using m1 by simp
      from match_queue_spec [OF h(2) lv1 _ pos1 Cons.prems(5) this, of ag sd sq ev] assms(1)
      obtain q2 s2 where mq: "match_queue ag sq ?opp p q n ev ?s1 =
          (Inr (q2, n1, ev @ trade_events ag sd sq (length ev) n f1), s2)"
        and step: "level_step ?opp p ?s1 s2"
        and q2: "map_of (levels_of ?opp s2) p = Some q2" "orders_at s2 q2 = os1"
        by (auto simp: aggresses_def)
      let ?ev1 = "ev @ trade_events ag sd sq (length ev) n f1"
      note loop = match_loop_level [OF assms(1) go(1) h(1) go(2) lv1 mq]
      have tight1: "tight_except {} ?s1" and bf1: "best_first ?opp (side_prices ?opp ?s1) = p # ps"
        using Cons.prems by simp_all
      have n1: "0 \<le> n1" "fill_total f1 = n - n1"
        using spec_match_bounds [OF m1] spec_match_conserves [OF m1] pos1 Cons.prems(5) by auto
      show ?thesis
      proof (cases "q2 = []")
        case True
        let ?s3 = "closed_level ?opp p s2"
        note cl = level_step_close [OF step q2(1) [unfolded True] tight1 bf1]
        have post: "match_post ?opp ?tail s ?s3"
          using match_post_trans [OF match_post_heap [OF h(2) Cons.prems(3)] cl(2)] by simp
        have "os1 = []" using True q2(2) by simp
        then have fo: "fills = f1 @ f2" "n' = n2" "os = os2" using out by simp_all
        have "flat ?opp ?s3 = ?tail" "rep_ok ?s3" "tight_except {} ?s3"
          using post by (simp_all add: match_post_def)
        with Cons.IH [OF cl(3), of n1 f2 ?ev1] pos2 n1(1) m2 fo obtain s' where
          s': "match_loop ag sq n1 ?ev1 ?s3 =
            (Inr (n', ?ev1 @ trade_events ag sd sq (length ?ev1) n1 f2), s')"
          "match_post ?opp os ?s3 s'" by auto
        have "trade_events ag sd sq (length ev) n fills =
            trade_events ag sd sq (length ev) n f1 @ trade_events ag sd sq (length ?ev1) n1 f2"
          using n1(2) by (simp add: fo trade_events_append)
        with loop True cl(1) s' match_post_trans [OF post s'(2)] show ?thesis by auto
      next
        case False
        then have ne: "os1 \<noteq> []" using q2(2) by auto
        then have "n1 = 0" and fo: "fills = f1" "n' = n1" "os = os1 @ ?tail"
          using out spec_match_rest_zero [OF m1] by simp_all
        moreover have "match_post ?opp os s s2"
          using level_step_keep [OF step q2(1) False tight1 bf1] q2(2) fo(3)
            match_post_trans [OF match_post_heap [OF h(2) Cons.prems(3)]] by simp
        ultimately show ?thesis using loop False by (auto simp: match_loop_zero)
      qed
    qed
  qed
  from this [OF refl assms(2-6)] show ?thesis .
qed

lemma engine_match_spec:
  assumes "aggresses sd ag" and "rep_ok s" and "tight_except {} s"
    and "all_positive (flat (other_side sd) s)" and "0 \<le> new_quantity ag"
    and "spec_match (limit_crosses sd (new_limit_price ag)) (new_quantity ag) (flat (other_side sd) s) =
      (fills, n, os)"
  shows "\<exists>s'. engine_match ag sq ev s =
      (Inr (n, ev @ trade_events ag sd sq (length ev) (new_quantity ag) fills), s') \<and>
    match_post (other_side sd) os s s'"
  unfolding engine_match_def by (rule match_loop_spec [OF assms])

section \<open>The top of book\<close>

definition view_of :: "engine \<Rightarrow> view" where
  "view_of s = (\<lambda>sd. flat sd s)"

lemma view_of_app [simp]: "view_of s sd = flat sd s"
  by (simp add: view_of_def)

lemma level_quantity_single:
  "(\<forall>ord \<in> set os. ord_price ord = p') \<Longrightarrow>
     level_quantity os p = (if p' = p then total_quantity os else 0)"
  by (induction os) auto

lemma level_quantity_concat:
  "level_quantity (concat oss) p = sum_list (map (\<lambda>os. level_quantity os p) oss)"
  by (induction oss) auto

lemma flat_level_quantity:
  assumes "rep_ok s"
  shows "level_quantity (flat sd s) p = total_quantity (level_orders sd s p)"
proof -
  have lq: "level_quantity (level_orders sd s p') p =
      (if p' = p then total_quantity (level_orders sd s p) else 0)" for p'
    using level_quantity_single [of "level_orders sd s p'" p'] level_orders_located [OF assms] by auto
  have "sum_list (map (\<lambda>p'. if p' = p then total_quantity (level_orders sd s p) else 0) ps) =
      (if p \<in> set ps then total_quantity (level_orders sd s p) else 0)" if "distinct ps" for ps
    using that by (induction ps) auto
  then show ?thesis
    using level_orders_absent [of p sd s]
    by (simp add: flat_def level_quantity_concat comp_def lq)
qed

lemma aggregate_level_quantity:
  assumes "rep_ok s"
  shows "dict_get_default (aggregates_of sd s) p 0 = level_quantity (flat sd s) p"
proof (cases "p \<in> side_prices sd s")
  case True
  with rep_ok_aggregates [OF assms] show ?thesis
    by (simp add: dict_get_default_def flat_level_quantity [OF assms])
next
  case False
  with caches_okD(3) [OF rep_okD(1) [OF assms, of sd]] have "map_of (aggregates_of sd s) p = None"
    by auto
  with False show ?thesis
    by (simp add: dict_get_default_def flat_level_quantity [OF assms] level_orders_absent)
qed

text \<open>Reading the book only compacts the heaps.\<close>

definition heap_only :: "engine \<Rightarrow> engine \<Rightarrow> bool" where
  "heap_only s s' \<longleftrightarrow> rep_ok s' \<and> (\<exists>hb ha. s' = set_heap SELL ha (set_heap BUY hb s))"

lemma heap_only_fields:
  assumes "heap_only s s'"
  shows "rep_ok s'" and "static_of s' = static_of s" and "levels_of sd s' = levels_of sd s"
    and "aggregates_of sd s' = aggregates_of sd s" and "eng_orders s' = eng_orders s"
    and "eng_store s' = eng_store s" and "flat sd s' = flat sd s"
    and "tight_except X s' = tight_except X s" and "view_of s' = view_of s"
    and "orders_at s' q = orders_at s q" and "side_prices sd s' = side_prices sd s"
  using assms by (auto simp: heap_only_def view_of_def)

lemma set_heap_same: "set_heap sd (heap_of sd s) s = s"
  by (cases sd) (simp_all add: selector_defs)

lemma set_heap_twice [simp]: "set_heap sd h (set_heap sd h' s) = set_heap sd h s"
  by (cases sd) (simp_all add: selector_defs)

lemma set_heap_commute: "set_heap BUY h (set_heap SELL h' s) = set_heap SELL h' (set_heap BUY h s)"
  by (simp add: selector_defs)

lemma heap_only_refl: "rep_ok s \<Longrightarrow> heap_only s s"
  unfolding heap_only_def
  using set_heap_same [of BUY s] set_heap_same [of SELL s] by metis

lemma heap_only_set_heap: "rep_ok (set_heap sd h s) \<Longrightarrow> heap_only s (set_heap sd h s)"
  unfolding heap_only_def
  using set_heap_same [of BUY "set_heap sd h s"] set_heap_same [of SELL "set_heap sd h s"]
    set_heap_same [of BUY s] set_heap_same [of SELL s]
  by (cases sd) (metis set_heap_commute)+

lemma heap_only_trans: "heap_only s s' \<Longrightarrow> heap_only s' s'' \<Longrightarrow> heap_only s s''"
  by (auto simp: heap_only_def set_heap_commute) blast

lemma top_level_spec:
  assumes "rep_ok s" and "tight_except {} s"
  shows "\<exists>s'. top_level sd (index_descending sd) s = (Inr (side_top (flat sd s)), s') \<and> heap_only s s'"
proof -
  obtain h where h: "best_price sd (index_descending sd) s =
      (Inr (case best_first sd (side_prices sd s) of [] \<Rightarrow> None | p # _ \<Rightarrow> Some p), set_heap sd h s)"
    "rep_ok (set_heap sd h s)"
    using best_price_rep [OF assms(1)] by blast
  show ?thesis
  proof (cases "best_first sd (side_prices sd s)")
    case Nil
    then have "flat sd s = []" by (simp add: flat_def)
    with Nil h heap_only_set_heap [OF h(2)] show ?thesis
      by (auto simp: top_level_def side_top_def bindP_def)
  next
    case (Cons p ps)
    obtain q where q: "q \<noteq> []" "level_orders sd s p = orders_at s q"
      "\<forall>ord \<in> set (orders_at s q). ord_price ord = p"
      using tight_level [OF assms Cons] by blast
    have "p \<in> side_prices sd s" using best_first_head [OF _ Cons] by simp
    note agg = rep_ok_aggregates [OF assms(1) this]
    obtain r q' where "q = r # q'" using q(1) by (cases q) auto
    then have "side_top (flat sd s) = Some \<lparr>top_price = p,
        top_aggregate_quantity = level_quantity (flat sd s) p\<rparr>"
      using q(2,3) by (simp add: side_top_def flat_Cons [OF Cons])
    with Cons h agg heap_only_set_heap [OF h(2)] show ?thesis
      by (auto simp: top_level_def bindP_def getsP_def dict_getitem_def flat_level_quantity [OF assms(1)])
  qed
qed

lemma top_spec:
  assumes "rep_ok s" and "tight_except {} s" and "\<not> eng_poisoned s"
  shows "\<exists>s'. top s = (Inr (view_top (view_of s)), s') \<and> heap_only s s'"
proof -
  obtain s1 where s1: "top_level BUY True s = (Inr (side_top (flat BUY s)), s1)" "heap_only s s1"
    using top_level_spec [OF assms(1,2), of BUY] by (auto simp: index_descending_def)
  obtain s2 where s2: "top_level SELL False s1 = (Inr (side_top (flat SELL s)), s2)" "heap_only s1 s2"
    using top_level_spec [of s1 SELL] heap_only_fields [OF s1(2)] assms(2)
    by (auto simp: index_descending_def)
  show ?thesis
    using s1 s2 heap_only_trans [OF s1(2) s2(2)] assms(3)
    by (auto simp: top_def ensure_usable_def seqP_def bindP_def view_top_def)
qed

section \<open>Resting\<close>

lemma flat_split:
  assumes "p \<in> side_prices sd s"
  shows "\<exists>A B. best_first sd (side_prices sd s) = A @ p # B \<and>
    (\<forall>a \<in> set A. price_key sd a < price_key sd p) \<and> (\<forall>b \<in> set B. price_key sd p < price_key sd b) \<and>
    p \<notin> set A \<and> p \<notin> set B"
proof -
  have "p \<in> set (best_first sd (side_prices sd s))" using assms by simp
  then obtain A B where AB: "best_first sd (side_prices sd s) = A @ p # B"
    by (meson split_list)
  have "sorted (map (price_key sd) (A @ p # B))" and "distinct (A @ p # B)"
    using sorted_best_first [of sd "side_prices sd s"] distinct_best_first [of sd "side_prices sd s"]
    by (simp_all add: AB)
  then have "\<forall>a \<in> set A. price_key sd a < price_key sd p" "\<forall>b \<in> set B. price_key sd p < price_key sd b"
    "p \<notin> set A" "p \<notin> set B"
    by (auto simp: sorted_append less_le)
  with AB show ?thesis by blast
qed

lemma takeWhile_concat_all:
  "(\<forall>x \<in> set xs. P x) \<Longrightarrow> (\<forall>y \<in> set ys. \<not> P y) \<Longrightarrow>
     takeWhile P (xs @ ys) = xs \<and> dropWhile P (xs @ ys) = ys"
  by (cases ys) (auto simp: takeWhile_append dropWhile_append)

lemma appended_flat:
  assumes "rep_ok s" and "ord_price ord \<in> side_prices sd s"
  shows "flat sd (appended sd ord s) = spec_insert sd ord (flat sd s)"
proof -
  let ?p = "ord_price ord" and ?lo = "level_orders sd s"
  from flat_split [OF assms(2)] obtain A B where AB: "best_first sd (side_prices sd s) = A @ ?p # B"
    "\<forall>a \<in> set A. price_key sd a < price_key sd ?p" "\<forall>b \<in> set B. price_key sd ?p < price_key sd b"
    "?p \<notin> set A" "?p \<notin> set B" by blast
  let ?front = "concat (map ?lo A) @ ?lo ?p" and ?tail = "concat (map ?lo B)"
  have flat: "flat sd s = ?front @ ?tail" by (simp add: flat_def AB(1))
  have "map (level_orders sd (appended sd ord s)) A = map ?lo A"
    and "map (level_orders sd (appended sd ord s)) B = map ?lo B"
    using AB(4,5) by (auto simp: appended_view [OF assms(1)])
  then have "flat sd (appended sd ord s) = ?front @ ord # ?tail"
    by (simp only: flat_def appended_prices [OF assms(2)] AB(1) map_append list.map concat_append
        concat.simps) (simp add: appended_view [OF assms(1)])
  moreover have "takeWhile (\<lambda>x. price_key sd (ord_price x) \<le> price_key sd ?p) (?front @ ?tail) = ?front \<and>
      dropWhile (\<lambda>x. price_key sd (ord_price x) \<le> price_key sd ?p) (?front @ ?tail) = ?tail"
  proof (rule takeWhile_concat_all)
    show "\<forall>x \<in> set ?front. price_key sd (ord_price x) \<le> price_key sd ?p"
      using AB(2) level_orders_located [OF assms(1)] by fastforce
    show "\<forall>x \<in> set ?tail. \<not> price_key sd (ord_price x) \<le> price_key sd ?p"
      using AB(3) level_orders_located [OF assms(1)] by fastforce
  qed
  ultimately show ?thesis by (simp add: spec_insert_def flat)
qed

lemma appended_flat_other:
  assumes "rep_ok s" and "ord_price ord \<in> side_prices sd s" and "sd' \<noteq> sd"
  shows "flat sd' (appended sd ord s) = flat sd' s"
  using assms by (intro flat_cong) (auto simp: appended_prices appended_view)

lemma opened_flat:
  assumes "p \<notin> side_prices sd s"
  shows "flat sd' (opened sd p s) = flat sd' s"
proof -
  have lo: "level_orders sd' (opened sd p s) = level_orders sd' s"
    using opened_view [OF assms] by (simp add: fun_eq_iff)
  show ?thesis
    using best_first_concat_insert [of "side_prices sd s" "level_orders sd s" p sd]
      level_orders_absent [OF assms] by (simp add: flat_def lo)
qed

lemma opened_set_store: "opened sd p (set_store st s) = set_store st (opened sd p s)"
  by (cases sd) (simp_all add: opened_def open_level_def register_level_def bindP_def getsP_def
      seqP_def modifyP_def Let_def selector_defs)

lemma rest_returns:
  assumes "rep_ok s" and "new_side ord = side_value sd" and "new_limit_price ord = Some p"
    and "t = (if p \<in> side_prices sd s then s else opened sd p s)"
  shows "rest ord n sq s = (Inr (), appended sd (rested_order ord sd p n sq) t)"
proof -
  let ?o = "rested_order ord sd p n sq"
  have rep_t: "rep_ok t" and p_t: "p \<in> side_prices sd t" and st: "eng_store t = eng_store s"
    using assms(1,4) opened_rep by auto
  obtain q where q: "map_of (levels_of sd t) p = Some q" using p_t by (auto simp: side_prices_def)
  obtain a where a: "map_of (aggregates_of sd t) p = Some a"
    using rep_ok_aggregates [OF rep_t p_t] by simp
  let ?st = "eng_store s @ [?o]"
  have open': "seqP (if map_of (levels_of sd s) p = None then open_level sd p else ret ()) N
      (set_store ?st s) = N (set_store ?st t)" for N :: "(engine, unit) prog"
    using assms(4) by (auto simp: side_prices_def open_level_returns opened_set_store domIff
        seqP_def bindP_def)
  show ?thesis
    using q a st
    by (simp add: rest_def assms(2,3) rested_order_def [symmetric] alloc_order_def bindP_returns
        open' dict_getitem_def appended_def Let_def dict_get_default_def)
      (simp add: bindP_def modifyP_def rested_order_def)
qed

lemma rest_spec:
  assumes rep: "rep_ok s" and tight: "tight_except {} s" and "new_side ord = side_value sd"
    and "new_limit_price ord = Some p" and fresh: "map_of (eng_orders s) (new_order_id ord) = None"
  shows "\<exists>s'. rest ord n sq s = (Inr (), s') \<and> rep_ok s' \<and> tight_except {} s' \<and>
    static_of s' = static_of s \<and>
    view_of s' = (view_of s)(sd := spec_insert sd (rested_order ord sd p n sq) (flat sd s))"
proof -
  let ?o = "rested_order ord sd p n sq"
  have o: "ord_price ?o = p" "ord_side ?o = sd" "ord_order_id ?o = new_order_id ord"
    by (simp_all add: rested_order_def)
  define t where "t = (if p \<in> side_prices sd s then s else opened sd p s)"
  have t: "rep_ok t" "p \<in> side_prices sd t" "flat sd' t = flat sd' s" "static_of t = static_of s"
    "eng_orders t = eng_orders s" for sd'
    using rep by (simp_all add: t_def opened_rep opened_flat)
  have "tight_except {(sd, p)} t"
    using tight opened_tight [OF tight, of sd p] by (auto simp: t_def tight_except_def)
  then have "tight_except {} (appended sd ?o t)"
    using appended_tight [of sd ?o "{}" t] by (simp add: o)
  moreover have "rep_ok (appended sd ?o t)"
    using appended_rep [of t ?o sd] t fresh by (simp add: o)
  moreover have "view_of (appended sd ?o t) = (view_of s)(sd := spec_insert sd ?o (flat sd s))"
    using appended_flat [of t ?o sd] appended_flat_other [of t ?o sd] t by (auto simp: o fun_eq_iff)
  ultimately show ?thesis
    using rest_returns [OF rep assms(3,4) t_def] t(4) by auto
qed

section \<open>Erasing\<close>

lemma closed_set_orders: "closed_level sd p (set_orders os s) = set_orders os (closed_level sd p s)"
  by (cases sd) (simp_all add: closed_level_def selector_defs)

lemma caches_set_orders [simp]: "caches_ok sd (set_orders os s) = caches_ok sd s"
  by (simp add: caches_ok_def side_prices_def indexed_prices_def index_inv_def)

lemma erase_returns:
  assumes "rep_ok s" and "queued s r" and "sd = ord_side (deref s r)" and "p = ord_price (deref s r)"
    and q: "map_of (levels_of sd s) p = Some q" "r \<in> set q"
    and u: "u = unlinked sd p r (total_quantity (orders_at s (remove1 r q))) s"
  shows "erase r s = (Inr (), if remove1 r q = [] then closed_level sd p u else u)"
proof -
  let ?a = "total_quantity (orders_at s (remove1 r q))"
  have "mset q = add_mset r (mset (remove1 r q))" using q(2) by simp
  then have "mset (orders_at s q) = mset (deref s r # orders_at s (remove1 r q))"
    by (simp only: orders_at_def mset_map image_mset_add_mset mset.simps list.map)
  then have tq: "total_quantity (orders_at s q) = ord_remaining_quantity (deref s r) + ?a"
    unfolding total_quantity_def by (metis list.simps(9) mset_map sum_list.Cons sum_mset_sum_list)
  have agg: "map_of (aggregates_of sd s) p = Some (ord_remaining_quantity (deref s r) + ?a)"
    using queues_okD(3) [OF assms(1) q(1)] tq by simp
  have idx: "map_of (eng_orders s) (ord_order_id (deref s r)) = Some r"
    using rep_ok_index [OF assms(1)] assms(2) by simp
  let ?m = "set_aggregates sd (dict_setitem p ?a (aggregates_of sd s))
      (set_levels sd (dict_setitem p (remove1 r q) (levels_of sd s)) s)"
  have um: "u = set_orders (AList.delete (ord_order_id (deref s r)) (eng_orders s)) ?m"
    using q(1) by (simp add: u unlinked_def)
  have "rep_ok u" using unlinked_rep [OF assms(1) q refl] by (simp add: u)
  from rep_okD(1) [OF this, of sd] have "caches_ok sd ?m" by (simp add: um)
  moreover have "p \<in> side_prices sd ?m" by (simp add: side_prices_def)
  ultimately have rl: "remove_level sd p ?m = (Inr (), closed_level sd p ?m)"
    by (rule remove_level_returns)
  note seq = seqP_if_returns [where m = "remove_level sd p", OF rl]
  let ?t = "if remove1 r q = [] then closed_level sd p ?m else ?m"
  have "erase r s = (Inr (), set_orders (AList.delete (ord_order_id (deref s r)) (eng_orders s)) ?t)"
    using q agg
    by (simp add: erase_def Let_def dict_getitem_def seq assms(3,4) [symmetric]
        cong: if_cong split del: if_split)
      (simp add: dict_delitem_present idx modifyP_def)
  then show ?thesis by (simp add: um closed_set_orders)
qed

lemma orders_at_remove1:
  assumes "rep_ok s" and "map_of (levels_of sd s) p = Some q" and "r \<in> set q"
  shows "orders_at s (remove1 r q) = spec_remove (ord_order_id (deref s r)) (orders_at s q)"
proof -
  have d: "distinct q" using queues_okD(1) [OF assms(1,2)] .
  have qd: "queued s r'" if "r' \<in> set q" for r' using assms(2) that unfolding queued_def by blast
  have "filter ((\<noteq>) r) q = filter (\<lambda>x. ord_order_id (deref s x) \<noteq> ord_order_id (deref s r)) q"
    using queued_id_inj [OF assms(1) qd qd] assms(3) by (intro filter_cong refl) metis
  then show ?thesis
    by (simp add: orders_at_def spec_remove_def filter_map comp_def distinct_remove1_removeAll [OF d]
        removeAll_filter_not_eq)
qed

lemma spec_remove_absent:
  "(\<forall>ord \<in> set os. ord_order_id ord \<noteq> i) \<Longrightarrow> spec_remove i os = os"
  by (simp add: spec_remove_def)

lemma erase_spec:
  assumes rep: "rep_ok s" and tight: "tight_except {} s" and "queued s r"
  shows "\<exists>s'. erase r s = (Inr (), s') \<and> rep_ok s' \<and> tight_except {} s' \<and>
    static_of s' = static_of s \<and> view_of s' = spec_remove_order (ord_order_id (deref s r)) (view_of s) \<and>
    eng_orders s' = AList.delete (ord_order_id (deref s r)) (eng_orders s) \<and> eng_store s' = eng_store s"
proof -
  let ?i = "ord_order_id (deref s r)"
  define sd p where sp: "sd = ord_side (deref s r)" "p = ord_price (deref s r)"
  obtain q where q: "map_of (levels_of sd s) p = Some q" "r \<in> set q"
    using queued_level [OF rep assms(3)] sp by blast
  define u where "u = unlinked sd p r (total_quantity (orders_at s (remove1 r q))) s"
  define s' where "s' = (if remove1 r q = [] then closed_level sd p u else u)"
  note step = unlinked_step [OF rep q refl, folded u_def]
  have rep_u: "rep_ok u" using step by (simp add: level_step_def)
  have qu: "queue_at sd u p = remove1 r q" using q(1) by (simp add: u_def)
  have lo_u: "level_orders sd' u p' = spec_remove ?i (level_orders sd' s p')" for sd' p'
  proof (cases "(sd', p') = (sd, p)")
    case True
    then show ?thesis
      using orders_at_remove1 [OF rep q] q(1) by (auto simp: u_def unlinked_view [OF q(1)] level_orders_def)
  next
    case False
    have "ord_order_id (deref s r') \<noteq> ?i" if "r' \<in> set (queue_at sd' s p')" for r'
    proof
      assume "ord_order_id (deref s r') = ?i"
      then have "r' = r" using queued_id_inj [OF rep _ assms(3)] that unfolding queued_iff by blast
      with that False other_queue [OF rep q, of sd' p'] show False by (auto simp: in_queue_at)
    qed
    then show ?thesis
      using False step
      by (subst spec_remove_absent) (auto simp: level_orders_def level_step_def)
  qed
  have lo: "level_orders sd' s' p' = spec_remove ?i (level_orders sd' s p')" for sd' p'
    using lo_u closed_view [of sd u p] qu by (simp add: s'_def)
  have flat: "flat sd' s' = spec_remove ?i (flat sd' s)" for sd'
  proof -
    have "concat (map (level_orders sd' s') (best_first sd' (side_prices sd' s'))) =
        concat (map (level_orders sd' s') (best_first sd' (side_prices sd' s)))"
      using step best_first_concat_remove [of "side_prices sd s" "level_orders sd s'" p sd] qu
      by (auto simp: s'_def level_step_def level_orders_def closed_queue_at)
    then show ?thesis
      by (simp add: flat_def lo [abs_def] spec_remove_def filter_concat comp_def)
  qed
  have "tight_except {(sd, p)} s" using tight by (auto simp: tight_except_def)
  then have tu: "tight_except {(sd, p)} u" using step by (auto simp: level_step_def)
  then have "tight_except {} s'"
    using closed_tight [of sd p "{}" u] q(1) qu
    by (auto simp: s'_def tight_except_def in_queue_at) (metis queue_at_simps(1))+
  moreover have "rep_ok s'" using rep_u closed_rep [OF rep_u] qu by (simp add: s'_def)
  moreover have "view_of s' = spec_remove_order ?i (view_of s)"
    using flat by (simp add: spec_remove_order_def fun_eq_iff)
  ultimately show ?thesis
    using erase_returns [OF rep assms(3) sp q u_def] step
    by (auto simp: s'_def [symmetric]) (auto simp: s'_def u_def level_step_def)
qed

section \<open>The capacity projection\<close>

lemma project_queue_spec:
  assumes "spec_match (\<lambda>_. True) n (orders_at s q) = (fills, n', os)" and "all_positive (orders_at s q)"
    and "0 \<le> n"
  shows "project_queue s n t q = (n', t + (int (length q) - int (length os)))"
  using assms
proof (induction q arbitrary: n t fills n' os)
  case (Cons r q)
  have zero: "project_queue s 0 t q = (0, t)" by (cases q) simp_all
  consider "n = 0" | (full) "n \<noteq> 0" "ord_remaining_quantity (deref s r) \<le> n"
    | (part) "n \<noteq> 0" "n < ord_remaining_quantity (deref s r)" by linarith
  then show ?case
  proof cases
    case full
    obtain f m rs where r: "spec_match (\<lambda>_. True) (n - ord_remaining_quantity (deref s r)) (orders_at s q) = (f, m, rs)"
      by (metis prod_cases3)
    with Cons.IH [OF r, of "t + 1"] full Cons.prems show ?thesis by auto
  next
    case part
    then show ?thesis using Cons.prems zero by auto
  qed (use Cons.prems in auto)
qed auto

lemma project_levels_spec:
  assumes "aggresses sd ag"
    and "\<forall>p \<in> set ps. \<exists>q. map_of (levels_of opp s) p = Some q \<and> q \<noteq> [] \<and>
      (\<forall>ord \<in> set (orders_at s q). ord_price ord = p)"
    and "all_positive (concat (map (level_orders opp s) ps))" and "0 \<le> n"
    and "spec_match (limit_crosses sd (new_limit_price ag)) n (concat (map (level_orders opp s) ps)) =
      (fills, n', os)"
  shows "project_levels s opp ag n t ps =
    Inr (n', t + (int (length (concat (map (level_orders opp s) ps))) - int (length os)))"
  using assms(2-)
proof (induction ps arbitrary: n t fills n' os)
  case (Cons p ps)
  let ?cr = "limit_crosses sd (new_limit_price ag)" and ?tail = "concat (map (level_orders opp s) ps)"
  obtain q where q: "map_of (levels_of opp s) p = Some q" "q \<noteq> []"
    "\<forall>ord \<in> set (orders_at s q). ord_price ord = p" using Cons.prems(1) by auto
  have lo: "level_orders opp s p = orders_at s q" using q(1) by (simp add: level_orders_def)
  have zero: "project_levels s opp ag 0 t' ps = Inr (0, t')" for t' by (cases ps) simp_all
  consider "n = 0" | (stop) "n \<noteq> 0" "\<not> ?cr p" | (go) "n \<noteq> 0" "?cr p" by blast
  then show ?case
  proof cases
    case 1
    then show ?thesis using Cons.prems(4) by auto
  next
    case stop
    obtain ord rs where "orders_at s q = ord # rs" using q(2) by (cases q) auto
    then show ?thesis
      using stop q(3) Cons.prems(4) aggresses_opposite(4) [OF assms(1)] by (auto simp: lo)
  next
    case go
    obtain f1 n1 os1 where m1: "spec_match (\<lambda>_. True) n (orders_at s q) = (f1, n1, os1)"
      by (metis prod_cases3)
    obtain f2 n2 os2 where m2: "spec_match ?cr n1 ?tail = (f2, n2, os2)"
      by (metis prod_cases3)
    have pos: "all_positive (orders_at s q)" "all_positive ?tail"
      using Cons.prems(2) by (auto simp: lo)
    have out: "(fills, n', os) = (if os1 = [] then (f1 @ f2, n2, os2) else (f1, n1, os1 @ ?tail))"
      using spec_match_append [OF _ m1 m2] q(3) go(2) Cons.prems(4) by (simp add: lo)
    have n1: "0 \<le> n1" using spec_match_bounds [OF m1 pos(1) Cons.prems(3)] by simp
    have step: "project_levels s opp ag n t (p # ps) =
        project_levels s opp ag n1 (t + (int (length q) - int (length os1))) ps"
      using go project_queue_spec [OF m1 pos(1) Cons.prems(3)] q(1)
      by (simp add: aggresses_opposite(4) [OF assms(1)] dict_getitem_def)
    show ?thesis
    proof (cases "os1 = []")
      case True
      with Cons.IH [OF _ pos(2) n1 m2] Cons.prems(1) out step show ?thesis by (simp add: lo)
    next
      case False
      with spec_match_rest_zero [OF m1] out step zero show ?thesis by (simp add: lo)
    qed
  qed
qed auto

lemma iter_prices_rep:
  assumes "rep_ok s"
  shows "\<exists>h. iter_prices sd (index_descending sd) s =
      (Inr (best_first sd (side_prices sd s)), set_heap sd h s) \<and> rep_ok (set_heap sd h s)"
proof -
  have "index_inv sd s" and "indexed_prices sd s = side_prices sd s"
    using rep_okD(1) [OF assms, of sd] by (simp_all add: caches_ok_def)
  with iter_prices_spec [of sd s] set_heap_rep [OF assms] show ?thesis by auto
qed

lemma project_fills_spec:
  assumes ag: "aggresses sd ag" and rep: "rep_ok s" and tight: "tight_except {} s"
    and "all_positive (flat (other_side sd) s)" and "0 \<le> new_quantity ag"
    and m: "spec_match (limit_crosses sd (new_limit_price ag)) (new_quantity ag) (flat (other_side sd) s) =
      (fills, n, os)"
  shows "\<exists>s'. project_fills ag s =
      (Inr \<lparr>proj_remaining_quantity = n,
            proj_terminal_passive_count = int (length (flat (other_side sd) s)) - int (length os)\<rparr>, s') \<and>
    heap_only s s'"
proof -
  let ?opp = "other_side sd"
  obtain h where h: "iter_prices ?opp (index_descending ?opp) s =
      (Inr (best_first ?opp (side_prices ?opp s)), set_heap ?opp h s)" "rep_ok (set_heap ?opp h s)"
    using iter_prices_rep [OF rep] by blast
  let ?s = "set_heap ?opp h s"
  have lv: "\<forall>p \<in> set (best_first ?opp (side_prices ?opp s)). \<exists>q. map_of (levels_of ?opp ?s) p = Some q \<and>
      q \<noteq> [] \<and> (\<forall>ord \<in> set (orders_at ?s q). ord_price ord = p)"
  proof
    fix p assume "p \<in> set (best_first ?opp (side_prices ?opp s))"
    then have "p \<in> side_prices ?opp s" by simp
    then obtain q where q: "map_of (levels_of ?opp s) p = Some q" by (auto simp: side_prices_def)
    moreover have "q \<noteq> []" using tight q by (auto simp: tight_except_def)
    moreover have "\<forall>ord \<in> set (orders_at s q). ord_price ord = p"
      using queues_okD(2) [OF rep q] by (auto simp: located_def)
    ultimately show "\<exists>q. map_of (levels_of ?opp ?s) p = Some q \<and> q \<noteq> [] \<and>
      (\<forall>ord \<in> set (orders_at ?s q). ord_price ord = p)"
      by (intro exI [of _ q]) simp
  qed
  have "project_levels ?s ?opp ag (new_quantity ag) 0 (best_first ?opp (side_prices ?opp s)) =
      Inr (n, int (length (flat ?opp s)) - int (length os))"
    using project_levels_spec [OF ag lv, of "new_quantity ag" fills n os 0] assms(4-) by (simp add: flat_def)
  then show ?thesis
    using h heap_only_set_heap [OF h(2)]
    by (auto simp: project_fills_def Let_def aggresses_opposite [OF ag] bindP_def getsP_def)
qed

definition removed_view :: "engine \<Rightarrow> order_ref option \<Rightarrow> view" where
  "removed_view s removes_old =
     (case removes_old of
        None \<Rightarrow> view_of s
      | Some r \<Rightarrow> spec_remove_order (ord_order_id (deref s r)) (view_of s))"

text \<open>The order a reference denotes occurs once in the view, and removing it is one order less.\<close>

lemma queued_in_flat: "rep_ok s \<Longrightarrow> queued s r \<Longrightarrow> deref s r \<in> set (flat (ord_side (deref s r)) s)"
  using queued_level [of s r] by (auto simp: flat_refs set_queue_refs)

lemma spec_remove_one:
  assumes "distinct (map ord_order_id os)" and "ord \<in> set os"
  shows "length os = Suc (length (spec_remove (ord_order_id ord) os))"
    and "level_quantity (spec_remove (ord_order_id ord) os) p =
      level_quantity os p - (if ord_price ord = p then ord_remaining_quantity ord else 0)"
proof -
  have absent: "spec_remove (ord_order_id x) xs = xs" if "ord_order_id x \<notin> ord_order_id ` set xs"
    for x and xs :: "order list"
    using that by (intro spec_remove_absent) force
  show "length os = Suc (length (spec_remove (ord_order_id ord) os))"
    using assms by (induction os) (auto simp: spec_remove_def absent [unfolded spec_remove_def])
  show "level_quantity (spec_remove (ord_order_id ord) os) p =
      level_quantity os p - (if ord_price ord = p then ord_remaining_quantity ord else 0)"
    using assms by (induction os) (auto simp: spec_remove_def absent [unfolded spec_remove_def])
qed

lemma flat_ids_side: "rep_ok s \<Longrightarrow> distinct (map ord_order_id (flat sd s))"
  using flat_ids_distinct [of s] by (cases sd) auto

lemma in_flat_queued: "ord \<in> set (flat sd s) \<Longrightarrow> \<exists>r. queued s r \<and> ord = deref s r"
  by (auto simp: flat_refs set_queue_refs queued_def)

lemma flat_id_inj:
  assumes "rep_ok s" and "ord \<in> set (flat sd s)" and "ord' \<in> set (flat sd' s)"
    and "ord_order_id ord = ord_order_id ord'"
  shows "ord = ord' \<and> sd = sd'"
proof -
  have "ord = ord'"
    using in_flat_queued [OF assms(2)] in_flat_queued [OF assms(3)] queued_id_inj [OF assms(1)] assms(4)
    by blast
  moreover have "ord_side ord = sd" "ord_side ord' = sd'"
    using assms(2,3) level_orders_located [OF assms(1)] by (auto simp: in_flat)
  ultimately show ?thesis by auto
qed

lemma flat_other_absent:
  assumes "rep_ok s" and "queued s r" and "sd \<noteq> ord_side (deref s r)"
  shows "spec_remove (ord_order_id (deref s r)) (flat sd s) = flat sd s"
  using flat_id_inj [OF assms(1) _ queued_in_flat [OF assms(1,2)]] assms(3)
  by (intro spec_remove_absent) blast

lemma capacity_allows_spec:
  assumes ag: "aggresses sd ord" and rep: "rep_ok s" and tight: "tight_except {} s"
    and pos: "all_positive (flat (other_side sd) s)" and "0 \<le> new_quantity ord"
    and rests: "\<And>n. residual_rests ord n \<Longrightarrow> new_limit_price ord \<noteq> None"
    and old: "\<And>r. removes_old = Some r \<Longrightarrow> queued s r \<and> ord_side (deref s r) = sd"
  shows "\<exists>s'. capacity_allows ord removes_old s =
      (Inr (spec_fits (eng_config s) sd ord sq (removed_view s removes_old)), s') \<and> heap_only s s'"
proof -
  let ?opp = "other_side sd" and ?v = "removed_view s removes_old"
  obtain fills n os where m: "spec_match (limit_crosses sd (new_limit_price ord)) (new_quantity ord)
      (flat ?opp s) = (fills, n, os)" by (metis prod_cases3)
  from project_fills_spec [OF ag rep tight pos assms(5) m] obtain s' where
    pf: "project_fills ord s = (Inr \<lparr>proj_remaining_quantity = n,
            proj_terminal_passive_count = int (length (flat ?opp s)) - int (length os)\<rparr>, s')"
    and ho: "heap_only s s'" by blast
  have v_opp: "?v ?opp = flat ?opp s"
    using old flat_other_absent [OF rep] by (auto simp: removed_view_def spec_remove_order_def split: option.splits)
  have len: "int (length (?v sd)) = int (length (flat sd s)) - (if removes_old \<noteq> None then 1 else 0)"
    using old spec_remove_one(1) [OF flat_ids_side [OF rep] queued_in_flat [OF rep]]
    by (auto simp: removed_view_def spec_remove_order_def split: option.splits)
  have lq: "level_quantity (?v sd) p = level_quantity (flat sd s) p - (case removes_old of None \<Rightarrow> 0
      | Some r \<Rightarrow> if ord_side (deref s r) = sd \<and> ord_price (deref s r) = p
                 then ord_remaining_quantity (deref s r) else 0)" for p
    using old spec_remove_one(2) [OF flat_ids_side [OF rep] queued_in_flat [OF rep]]
    by (auto simp: removed_view_def spec_remove_order_def split: option.splits)
  have cnt: "int (length (eng_orders s)) = int (length (flat sd s)) + int (length (flat ?opp s))"
    using order_count [OF rep] by (cases sd) auto
  note f = heap_only_fields [OF ho]
  have cfg: "eng_config s' = eng_config s" using static_of_eqD [OF f(2)] by simp
  have add: "spec_add sd ord sq ?v = (fills, n, case new_limit_price ord of None \<Rightarrow> ?v(?opp := os)
      | Some p \<Rightarrow> if residual_rests ord n
          then (?v(?opp := os))(sd := spec_insert sd (rested_order ord sd p n sq) (?v sd)) else ?v(?opp := os))"
    by (simp add: spec_add_def v_opp m Let_def)
  have both: "length (v BUY) + length (v SELL) = length (v sd) + length (v ?opp)" for v :: view
    by (cases sd) auto
  have fits: "spec_fits (eng_config s) sd ord sq ?v \<longleftrightarrow>
      int (length (?v sd)) + int (length os) + (if residual_rests ord n then 1 else 0)
        \<le> max_active_orders (eng_config s) \<and>
      (residual_rests ord n \<longrightarrow> level_quantity (?v sd) (the (new_limit_price ord)) + n \<le> U64_MAX)"
    using rests [of n]
    by (cases "new_limit_price ord"; cases "residual_rests ord n")
      (auto simp: spec_fits_def add fits_def both rested_order_def add.commute)
  have sv: "side_value sd' = 1 \<longleftrightarrow> sd' = BUY" "side_value sd' = 2 \<longleftrightarrow> sd' = SELL" for sd'
    by (cases sd'; simp)+
  have side: "new_side ord = side_value sd" using ag by (simp add: aggresses_def)
  have "capacity_allows ord removes_old s = (Inr (spec_fits (eng_config s) sd ord sq ?v), s')"
  proof (cases "residual_rests ord n")
    case True
    with rests obtain p where p: "new_limit_price ord = Some p" by auto
    show ?thesis
      unfolding fits len lq
      by (cases sd; cases removes_old)
        (auto simp: capacity_allows_def bindP_def getsP_def pf f cfg side cnt sv
          aggregate_level_quantity [OF rep] True p)
  next
    case False
    then show ?thesis
      by (simp add: capacity_allows_def bindP_def getsP_def Let_def pf f cfg fits len cnt)
  qed
  with ho show ?thesis by blast
qed

end
