(* ===== verification/Engine_Refinement.thy ===== *)
theory Engine_Refinement
  imports Matching_Refinement
begin

text \<open>
  Every command handler of the reference engine implements the specified step: from a state that
  satisfies the invariant, a representable command never raises, its batch is the specified event
  list, the view of the new state is the specified view, and the invariant holds again.
\<close>

section \<open>The engine invariant\<close>

text \<open>
  The invariant is stated for a bound \<open>latest\<close> on the priorities in the book: while a command is
  being executed the engine's last sequence is already the new one.
\<close>

definition core_inv :: "int \<Rightarrow> engine \<Rightarrow> bool" where
  "core_inv latest s \<longleftrightarrow>
     rep_ok s \<and> tight_except {} s \<and> matching_config_ok (eng_config s) \<and>
     1 \<le> eng_instrument_id s \<and> eng_instrument_id s \<le> U32_MAX \<and> \<not> eng_poisoned s \<and> 0 \<le> latest \<and>
     view_ok (eng_config s) (eng_instrument_id s) latest (view_of s) \<and>
     int (length (eng_orders s)) \<le> max_active_orders (eng_config s)"

definition sequence_ok :: "engine \<Rightarrow> bool" where
  "sequence_ok s \<longleftrightarrow>
     (if eng_sequence_exhausted s then eng_next_sequence s = 0 \<and> eng_last_sequence s = U64_MAX
      else 1 \<le> eng_next_sequence s \<and> eng_next_sequence s \<le> U64_MAX \<and>
           eng_last_sequence s = eng_next_sequence s - 1)"

definition engine_inv :: "engine \<Rightarrow> bool" where
  "engine_inv s \<longleftrightarrow> core_inv (eng_last_sequence s) s \<and> sequence_ok s"

lemma core_invD:
  assumes "core_inv latest s"
  shows "rep_ok s" and "tight_except {} s" and "matching_config_ok (eng_config s)"
    and "1 \<le> eng_instrument_id s" and "eng_instrument_id s \<le> U32_MAX" and "\<not> eng_poisoned s"
    and "0 \<le> latest"
    and "view_ok (eng_config s) (eng_instrument_id s) latest (view_of s)"
    and "int (length (eng_orders s)) \<le> max_active_orders (eng_config s)"
  using assms by (simp_all add: core_inv_def)

lemma core_inv_heap_only:
  assumes "core_inv latest s" and "heap_only s s'"
  shows "core_inv latest s'"
  using assms heap_only_fields [OF assms(2)] static_of_eqD [OF heap_only_fields(2) [OF assms(2)]]
  by (simp add: core_inv_def)

lemma core_inv_mono: "core_inv latest s \<Longrightarrow> latest \<le> latest' \<Longrightarrow> core_inv latest' s"
  using view_ok_mono by (fastforce simp: core_inv_def)

section \<open>The index agrees with the view\<close>

lemma find_order_index:
  assumes "rep_ok s"
  shows "find_order i (view_of s) = map_option (deref s) (map_of (eng_orders s) i)"
proof (cases "map_of (eng_orders s) i")
  case None
  have "ord_order_id ord \<noteq> i" if ord: "ord \<in> set (flat sd s)" for sd ord
  proof
    assume "ord_order_id ord = i"
    with in_flat_queued [OF ord] rep_ok_index [OF assms] None show False by force
  qed
  then have "find_order i (view_of s) = None" by (auto simp: find_order_def find_None_iff)
  with None show ?thesis by simp
next
  case (Some r)
  then have r: "queued s r" "ord_order_id (deref s r) = i" using rep_ok_index [OF assms] by auto
  note mem = queued_in_flat [OF assms r(1)]
  have "find_order i (view_of s) \<noteq> None"
    using mem r(2) by (cases "ord_side (deref s r)") (auto simp: find_order_def find_None_iff)
  then obtain ord where ord: "find_order i (view_of s) = Some ord" by auto
  then have "ord_order_id ord = i" "\<exists>sd. ord \<in> set (flat sd s)"
    using find_Some_iff [of _ "flat BUY s @ flat SELL s" ord] nth_mem [of _ "flat BUY s @ flat SELL s"]
    by (auto simp: find_order_def ex_side)
  with flat_id_inj [OF assms _ mem] r(2) have "ord = deref s r" by blast
  with ord Some show ?thesis by simp
qed

lemma find_order_None:
  assumes "rep_ok s" and "map_of (eng_orders s) i = None" and "ord \<in> set (flat sd s)"
  shows "ord_order_id ord \<noteq> i"
proof
  assume "ord_order_id ord = i"
  with in_flat_queued [OF assms(3)] rep_ok_index [OF assms(1)] assms(2) show False by force
qed

lemma index_None:
  assumes "rep_ok s" and "\<And>sd ord. ord \<in> set (flat sd s) \<Longrightarrow> ord_order_id ord \<noteq> i"
  shows "map_of (eng_orders s) i = None"
proof (rule ccontr)
  assume "map_of (eng_orders s) i \<noteq> None"
  then obtain r where "queued s r" "ord_order_id (deref s r) = i"
    using rep_ok_index [OF assms(1)] by auto
  with queued_in_flat [OF assms(1)] assms(2) show False by blast
qed

section \<open>Batches\<close>

definition accepted_result :: "event list \<Rightarrow> reference_result" where
  "accepted_result events = \<lparr>result_batch = Some \<lparr>batch_events = events\<rparr>, result_error = None\<rparr>"

lemma batch_result_ok:
  assumes "batch_shape sequence iid events" and "events \<noteq> []" and "sequence \<noteq> 0"
    and "iid \<noteq> 0 \<or> (\<exists>e. events = [e] \<and> event_type_of e = REJECTED)"
  shows "batch_result events = Inr (accepted_result events)"
  using EventBatch_accepts [OF assms] by (simp add: batch_result_def ReferenceResult_def accepted_result_def)

lemma batch_shape_append:
  "batch_shape sequence iid (es @ es') \<longleftrightarrow> batch_shape sequence iid es \<and>
     (\<forall>i < length es'. event_header_of (es' ! i) =
        \<lparr>command_sequence = sequence, event_index = int (length es + i), hdr_instrument_id = iid\<rparr>)"
proof -
  have split: "(\<forall>i < m + n. Q i) \<longleftrightarrow> (\<forall>i < m. Q i) \<and> (\<forall>i < n. Q (m + i))" for m n :: nat and Q
    by (metis add_less_cancel_left le_add_diff_inverse not_less trans_less_add1)
  show ?thesis
    unfolding batch_shape_def length_append split by (simp add: nth_append)
qed

lemma batch_shape_snoc:
  "batch_shape sequence iid (es @ [e]) \<longleftrightarrow> batch_shape sequence iid es \<and>
     event_header_of e = \<lparr>command_sequence = sequence, event_index = int (length es), hdr_instrument_id = iid\<rparr>"
  by (simp add: batch_shape_append)

lemma trade_events_header:
  "i < length fills \<Longrightarrow> event_header_of (trade_events ord sd sequence k n fills ! i) =
     \<lparr>command_sequence = sequence, event_index = int (k + i), hdr_instrument_id = new_instrument_id ord\<rparr>"
proof (induction fills arbitrary: i k n)
  case (Cons f fills)
  then show ?case by (cases f; cases i) auto
qed simp

lemma terminal_header:
  "event_header_of (terminal_event ord sd sequence k n) =
     \<lparr>command_sequence = sequence, event_index = int k, hdr_instrument_id = new_instrument_id ord\<rparr>"
  by (cases "residual_rests ord n"; cases "new_limit_price ord") (simp_all add: terminal_event_def Let_def)

lemma with_top_change_shape:
  "batch_shape sequence iid es \<Longrightarrow> batch_shape sequence iid (with_top_change iid sequence v v' es)"
  by (simp add: with_top_change_def batch_shape_snoc)

lemma spec_aggress_shape:
  assumes "batch_shape sequence iid es" and "new_instrument_id ord = iid"
  shows "batch_shape sequence iid (fst (spec_aggress iid sd ord sequence v0 v es))"
proof -
  obtain fills n v' where add: "spec_add sd ord sequence v = (fills, n, v')" by (metis prod_cases3)
  let ?es = "es @ trade_events ord sd sequence (length es) (new_quantity ord) fills"
  have "batch_shape sequence iid ?es"
    unfolding batch_shape_append using assms trade_events_header by simp
  then have "batch_shape sequence iid (?es @ [terminal_event ord sd sequence (length ?es) n])"
    unfolding batch_shape_snoc using assms(2) terminal_header by simp
  from with_top_change_shape [OF this] show ?thesis by (simp add: spec_aggress_def add)
qed

section \<open>Matching, resting and reporting\<close>

lemma new_order_aggresses:
  assumes "new_order_ok c iid sd ord"
  shows "aggresses sd ord"
proof -
  have "crosses ord p = Inr (limit_crosses sd (new_limit_price ord) p)" for p
    using assms by (cases sd) (auto simp: new_order_ok_def crosses_def limit_crosses_def)
  with assms show ?thesis by (simp add: aggresses_def new_order_ok_def)
qed

lemma append_terminal_spec:
  assumes "new_order_ok c iid sd ord"
  shows "append_aggressor_terminal es ord sequence n =
    Inr (es @ [terminal_event ord sd sequence (length es) n])"
  using assms new_order_ok_rests [OF assms, of n]
  by (cases "residual_rests ord n"; cases "new_limit_price ord")
    (auto simp: append_aggressor_terminal_def terminal_event_def header_def Let_def new_order_ok_def)

text \<open>Match and rest, as one step on the view.\<close>

lemma match_and_rest_spec:
  assumes ok: "new_order_ok c iid sd ord" and rep: "rep_ok s" and tight: "tight_except {} s"
    and pos: "all_positive (flat (other_side sd) s)"
    and fresh: "map_of (eng_orders s) (new_order_id ord) = None"
    and add: "spec_add sd ord sequence (view_of s) = (fills, n, v')"
  shows "\<exists>s1 s2. engine_match ord sequence es s =
      (Inr (n, es @ trade_events ord sd sequence (length es) (new_quantity ord) fills), s1) \<and>
    (if residual_rests ord n then rest ord n sequence else ret ()) s1 = (Inr (), s2) \<and>
    rep_ok s2 \<and> tight_except {} s2 \<and> static_of s2 = static_of s \<and> view_of s2 = v'"
proof -
  let ?opp = "other_side sd"
  obtain os where m: "spec_match (limit_crosses sd (new_limit_price ord)) (new_quantity ord) (flat ?opp s) =
      (fills, n, os)"
    using add by (auto simp: spec_add_def Let_def split: prod.splits)
  have q: "0 \<le> new_quantity ord" using ok by (simp add: new_order_ok_def)
  from engine_match_spec [OF new_order_aggresses [OF ok] rep tight pos q m, of sequence es] obtain s1 where
    em: "engine_match ord sequence es s =
      (Inr (n, es @ trade_events ord sd sequence (length es) (new_quantity ord) fills), s1)"
    and post: "match_post ?opp os s s1" by blast
  have "view_of s1 sd' = ((view_of s)(?opp := os)) sd'" for sd'
    by (cases sd'; cases sd) (use post in \<open>simp_all add: match_post_def\<close>)
  then have s1: "rep_ok s1" "tight_except {} s1" "static_of s1 = static_of s"
    "view_of s1 = (view_of s)(?opp := os)"
    using post by (auto simp: match_post_def)
  show ?thesis
  proof (cases "residual_rests ord n")
    case False
    with add m have "v' = (view_of s)(?opp := os)"
      by (auto simp: spec_add_def Let_def split: option.splits)
    with em s1 False show ?thesis by auto
  next
    case True
    then obtain p where p: "new_limit_price ord = Some p" using new_order_ok_rests [OF ok] by blast
    have v': "v' = ((view_of s)(?opp := os))(sd := spec_insert sd (rested_order ord sd p n sequence) (flat sd s))"
      using add m True p by (simp add: spec_add_def Let_def)
    have "map_of (eng_orders s1) (new_order_id ord) = None"
    proof (rule index_None [OF s1(1)])
      fix sd' x assume "x \<in> set (flat sd' s1)"
      then have "x \<in> set (((view_of s)(?opp := os)) sd')"
        using fun_cong [OF s1(4), of sd'] by simp
      then obtain y where "y \<in> set (flat sd' s)" "ord_order_id y = ord_order_id x"
        using shrinks_elem [OF spec_match_shrinks [OF m pos q], of x]
        by (cases "sd' = ?opp") (auto simp: remnant_def)
      with find_order_None [OF rep fresh] show "ord_order_id x \<noteq> new_order_id ord" by metis
    qed
    moreover have "new_side ord = side_value sd" using ok by (simp add: new_order_ok_def)
    ultimately obtain s2 where "rest ord n sequence s1 = (Inr (), s2)" "rep_ok s2" "tight_except {} s2"
      "static_of s2 = static_of s1"
      "view_of s2 = (view_of s1)(sd := spec_insert sd (rested_order ord sd p n sequence) (flat sd s1))"
      using rest_spec [OF s1(1,2) _ p] by blast
    moreover have "flat sd s1 = flat sd s" using fun_cong [OF s1(4), of sd] by simp
    ultimately show ?thesis using em s1(3,4) True v' by auto
  qed
qed

lemma core_inv_step:
  assumes inv: "core_inv latest s" and "latest < sequence" and ok: "new_order_ok (eng_config s) (eng_instrument_id s) sd ord"
    and "v = view_of s \<or> (\<exists>i. v = spec_remove_order i (view_of s))"
    and fresh: "\<And>sd' x. x \<in> set (v sd') \<Longrightarrow> ord_order_id x \<noteq> new_order_id ord"
    and add: "spec_add sd ord sequence v = (fills, n, v')"
    and fits: "spec_fits (eng_config s) sd ord sequence v"
    and s': "rep_ok s'" "tight_except {} s'" "static_of s' = static_of s" "view_of s' = v'"
  shows "core_inv sequence s'"
proof -
  note i = core_invD [OF inv]
  have vk: "view_ok (eng_config s) (eng_instrument_id s) latest v"
    using assms(4) i(8) view_ok_shrink [OF i(8), of v] spec_remove_shrinks view_ok_positive [OF i(8)]
    by (auto simp: spec_remove_order_def)
  have f: "fits (eng_config s) sd (if residual_rests ord n then new_limit_price ord else None) v'"
    using fits add by (simp add: spec_fits_def)
  have "view_ok (eng_config s) (eng_instrument_id s) sequence v'"
    by (rule spec_add_ok [OF vk ok i(7) assms(2) add fresh]) (use f in auto)
  moreover have "int (length (eng_orders s')) \<le> max_active_orders (eng_config s)"
    using f order_count [OF s'(1)] fun_cong [OF s'(4), of BUY] fun_cong [OF s'(4), of SELL]
    by (simp add: fits_def)
  ultimately show ?thesis
    using i s' static_of_eqD [OF s'(3)] assms(2) by (simp add: core_inv_def)
qed

lemma run_aggressor_spec:
  assumes ok: "new_order_ok c (eng_instrument_id s) sd ord" and rep: "rep_ok s" and tight: "tight_except {} s"
    and pos: "all_positive (flat (other_side sd) s)" and "\<not> eng_poisoned s"
    and fresh: "map_of (eng_orders s) (new_order_id ord) = None"
    and es: "batch_shape sequence (eng_instrument_id s) es" "sequence \<noteq> 0" "eng_instrument_id s \<noteq> 0"
    and spec: "spec_aggress (eng_instrument_id s) sd ord sequence v0 (view_of s) es = (events, v')"
  shows "\<exists>s'. run_aggressor ord sequence (view_top v0) es s = (Inr (accepted_result events), s') \<and>
    rep_ok s' \<and> tight_except {} s' \<and> static_of s' = static_of s \<and> view_of s' = v'"
proof -
  obtain fills n w where add: "spec_add sd ord sequence (view_of s) = (fills, n, w)" by (metis prod_cases3)
  obtain s1 s2 where s1: "engine_match ord sequence es s =
      (Inr (n, es @ trade_events ord sd sequence (length es) (new_quantity ord) fills), s1)"
    "(if residual_rests ord n then rest ord n sequence else ret ()) s1 = (Inr (), s2)"
    and s2: "rep_ok s2" "tight_except {} s2" "static_of s2 = static_of s" "view_of s2 = w"
    using match_and_rest_spec [OF ok rep tight pos fresh add, of es] by blast
  let ?es1 = "es @ trade_events ord sd sequence (length es) (new_quantity ord) fills"
  let ?es2 = "?es1 @ [terminal_event ord sd sequence (length ?es1) n]"
  have st: "eng_instrument_id s2 = eng_instrument_id s" "\<not> eng_poisoned s2"
    using static_of_eqD [OF s2(3)] assms(5) by auto
  obtain s3 where s3: "top s2 = (Inr (view_top w), s3)" "heap_only s2 s3"
    using top_spec [OF s2(1,2) st(2)] s2(4) by auto
  note f = heap_only_fields [OF s3(2)]
  have iid: "eng_instrument_id s3 = eng_instrument_id s" using static_of_eqD [OF f(2)] st by simp
  have ev: "events = with_top_change (eng_instrument_id s) sequence v0 w ?es2" "v' = w"
    using spec add by (auto simp: spec_aggress_def)
  have "batch_shape sequence (eng_instrument_id s) events"
    using spec_aggress_shape [OF es(1), of ord sd v0 "view_of s"] ok spec by (simp add: new_order_ok_def)
  moreover have "events \<noteq> []" by (simp add: ev with_top_change_def)
  ultimately have "batch_result events = Inr (accepted_result events)"
    using es by (intro batch_result_ok) auto
  moreover have "append_book_changed ?es2 sequence (view_top v0) (view_top w) s3 = (Inr events, s3)"
    by (simp add: append_book_changed_def getsP_def ev with_top_change_def header_def iid)
  ultimately have "run_aggressor ord sequence (view_top v0) es s = (Inr (accepted_result events), s3)"
    using s1 s3(1) append_terminal_spec [OF ok, of ?es1 sequence n]
    by (simp add: run_aggressor_def bindP_def seqP_def)
  with f s2 ev(2) show ?thesis by auto
qed

section \<open>New orders\<close>

lemma reject_ok:
  "sequence \<noteq> 0 \<Longrightarrow> reject sequence iid ctype rj = Inr (accepted_result (spec_reject iid sequence ctype rj))"
  unfolding reject_def spec_reject_def
  by (rule batch_result_ok [of sequence iid]) (auto simp: batch_shape_def)

lemma validate_new_first:
  assumes "rep_ok s"
  shows "validate_new ord s = first_failure
    [(validate_new_shape ord \<noteq> NONE, validate_new_shape ord, relevant (new_order_id ord)),
     (new_instrument_id ord \<noteq> eng_instrument_id s, UNKNOWN_INSTRUMENT, Some (new_order_id ord)),
     (max_order_quantity (eng_config s) < new_quantity ord, QUANTITY_OUT_OF_RANGE, Some (new_order_id ord)),
     (case new_limit_price ord of None \<Rightarrow> False | Some p \<Rightarrow> p mod tick_increment (eng_config s) \<noteq> 0,
        INVALID_TICK, Some (new_order_id ord)),
     (find_order (new_order_id ord) (view_of s) \<noteq> None, DUPLICATE_ORDER_ID, Some (new_order_id ord))]"
proof (cases "validate_new_shape ord = NONE")
  case True
  then have "new_order_type ord = order_type_value LIMIT \<or> new_limit_price ord = None"
    by (auto simp: validate_new_shape_def is_valid_order_type_def split: if_splits)
  with True show ?thesis
    by (auto simp: validate_new_def find_order_index [OF assms] Let_def split: option.splits)
qed (simp add: validate_new_def)

lemma validated_new:
  assumes "require_representable (NewOrder ord) = Inr ()" and "validate_new ord s = None"
  shows "new_order_ok (eng_config s) (eng_instrument_id s) (side_of (new_side ord)) ord"
    and "map_of (eng_orders s) (new_order_id ord) = None"
proof -
  have shape: "validate_new_shape ord = NONE" and st: "new_instrument_id ord = eng_instrument_id s"
    "new_quantity ord \<le> max_order_quantity (eng_config s)"
    and fresh: "map_of (eng_orders s) (new_order_id ord) = None"
    and tick: "new_order_type ord = order_type_value LIMIT \<Longrightarrow> new_limit_price ord = Some p \<Longrightarrow>
      p mod tick_increment (eng_config s) = 0" for p
    using assms(2) by (auto simp: validate_new_def Let_def split: if_splits)
  show "map_of (eng_orders s) (new_order_id ord) = None" by (rule fresh)
  have w: "0 \<le> new_client_id ord" "new_client_id ord \<le> U32_MAX" "0 \<le> new_order_id ord"
    "new_order_id ord \<le> U64_MAX" "0 \<le> new_quantity ord"
    "\<And>p. new_limit_price ord = Some p \<Longrightarrow> p \<le> I64_MAX"
    using assms(1) by (auto simp: require_uint_def require_i64_def bindR_Inr_iff split: if_splits option.splits)
  have nz: "new_client_id ord \<noteq> 0" "new_order_id ord \<noteq> 0" "new_quantity ord \<noteq> 0"
    and side: "new_side ord = side_value (side_of (new_side ord))"
    using shape by (auto simp: validate_new_shape_def is_valid_side_def side_of_def split: if_splits)
  have "new_order_type ord = order_type_value LIMIT \<and> (\<exists>p. new_limit_price ord = Some p \<and> 0 < p) \<or>
      new_order_type ord = order_type_value MARKET \<and> new_limit_price ord = None"
    using shape by (auto simp: validate_new_shape_def is_valid_order_type_def split: if_splits option.splits)
  with w nz side st tick show "new_order_ok (eng_config s) (eng_instrument_id s) (side_of (new_side ord)) ord"
    unfolding new_order_ok_def by (auto simp: int_one_le_iff_zero_less)
qed

text \<open>An accepted aggressor, after the handler has taken the replaced order out if there is one.\<close>

lemma aggress_step:
  assumes inv: "core_inv latest s" and sq: "latest < sequence"
    and ok: "new_order_ok (eng_config s) (eng_instrument_id s) sd ord"
    and s2: "rep_ok s2" "tight_except {} s2" "static_of s2 = static_of s" "view_of s2 = v"
    and v: "v = view_of s \<or> (\<exists>i. v = spec_remove_order i (view_of s))"
    and fresh: "map_of (eng_orders s2) (new_order_id ord) = None"
    and es: "batch_shape sequence (eng_instrument_id s) es"
    and fits: "spec_fits (eng_config s) sd ord sequence v"
    and spec: "spec_aggress (eng_instrument_id s) sd ord sequence (view_of s) v es = (evs, v')"
  shows "\<exists>s'. run_aggressor ord sequence (view_top (view_of s)) es s2 = (Inr (accepted_result evs), s') \<and>
    core_inv sequence s' \<and> static_of s' = static_of s \<and> view_of s' = v'"
proof -
  note i = core_invD [OF inv] and st = static_of_eqD [OF s2(3)]
  have pos: "all_positive (flat sd' s2)" for sd'
    using view_ok_positive [OF i(8), of sd'] v fun_cong [OF s2(4), of sd']
    by (auto simp: spec_remove_order_def spec_remove_def)
  obtain s' where s': "run_aggressor ord sequence (view_top (view_of s)) es s2 = (Inr (accepted_result evs), s')"
    "rep_ok s'" "tight_except {} s'" "static_of s' = static_of s2" "view_of s' = v'"
    using run_aggressor_spec [of "eng_config s" s2 sd ord sequence es "view_of s" evs v'] s2 st ok pos fresh es
      spec i sq by auto
  obtain fills n w where add: "spec_add sd ord sequence v = (fills, n, w)" by (metis prod_cases3)
  then have w: "view_of s' = w" using spec s'(5) by (auto simp: spec_aggress_def)
  have "ord_order_id x \<noteq> new_order_id ord" if "x \<in> set (v sd')" for x sd'
    using find_order_None [OF s2(1) fresh, of x sd'] that s2(4) by auto
  from core_inv_step [OF inv sq ok v this add fits s'(2,3) _ w] s' s2(3) show ?thesis by auto
qed

text \<open>The statement every handler satisfies.\<close>

definition step_ok :: "int \<Rightarrow> (engine, reference_result) prog \<Rightarrow> event list \<times> view \<Rightarrow> engine \<Rightarrow> bool" where
  "step_ok sequence m spec s \<longleftrightarrow> (\<exists>s'. m s = (Inr (accepted_result (fst spec)), s') \<and>
     core_inv sequence s' \<and> static_of s' = static_of s \<and> view_of s' = snd spec)"

lemma step_ok_reject:
  assumes "core_inv latest s" and "latest < sequence" and "heap_only s s'"
    and "m s = (Inr (accepted_result es), s')"
  shows "step_ok sequence m (es, view_of s) s"
  using assms heap_only_fields [OF assms(3)]
    core_inv_mono [OF core_inv_heap_only [OF assms(1,3)], of sequence]
  by (auto simp: step_ok_def)

lemma execute_new_spec:
  assumes inv: "core_inv latest s" and sq: "latest < sequence"
    and repr: "require_representable (NewOrder ord) = Inr ()"
  shows "step_ok sequence (execute_new ord sequence)
    (spec_new (eng_config s) (eng_instrument_id s) ord sequence (view_of s)) s"
proof -
  note i = core_invD [OF inv]
  let ?sd = "side_of (new_side ord)"
  have nz: "sequence \<noteq> 0" "eng_instrument_id s \<noteq> 0" using sq i(4,7) by auto
  show ?thesis
  proof (cases "validate_new ord s")
    case (Some rj)
    then have "spec_new (eng_config s) (eng_instrument_id s) ord sequence (view_of s) =
        (spec_reject (new_instrument_id ord) sequence NEW rj, view_of s)"
      unfolding validate_new_first [OF i(1)]
      by (simp add: spec_new_def Let_def split: if_splits)
    moreover have "execute_new ord sequence s =
        (Inr (accepted_result (spec_reject (new_instrument_id ord) sequence NEW rj)), s)"
      using Some by (simp add: execute_new_def reject_ok [OF nz(1)])
    ultimately show ?thesis using step_ok_reject [OF inv sq heap_only_refl [OF i(1)]] by simp
  next
    case None
    note v = validated_new [OF repr None]
    have iid: "new_instrument_id ord = eng_instrument_id s" using v(1) by (simp add: new_order_ok_def)
    have pos: "all_positive (flat sd s)" for sd using view_ok_positive [OF i(8), of sd] by simp
    have "0 \<le> new_quantity ord" using v(1) by (simp add: new_order_ok_def)
    from capacity_allows_spec [OF new_order_aggresses [OF v(1)] i(1,2) pos this, of None sequence]
      new_order_ok_rests [OF v(1)]
    obtain s1 where s1: "capacity_allows ord None s =
        (Inr (spec_fits (eng_config s) ?sd ord sequence (view_of s)), s1)" "heap_only s s1"
      by (fastforce simp: removed_view_def)
    note f = heap_only_fields [OF s1(2)]
    have none: "validate_new ord s = None" by (rule None)
    show ?thesis
    proof (cases "spec_fits (eng_config s) ?sd ord sequence (view_of s)")
      case False
      let ?rj = "\<lparr>rej_reason = CAPACITY_EXCEEDED, rej_order_id = Some (new_order_id ord)\<rparr>"
      have "spec_new (eng_config s) (eng_instrument_id s) ord sequence (view_of s) =
          (spec_reject (new_instrument_id ord) sequence NEW ?rj, view_of s)"
        using none False unfolding validate_new_first [OF i(1)]
        by (simp add: spec_new_def Let_def split: if_splits)
      moreover have "execute_new ord sequence s =
          (Inr (accepted_result (spec_reject (new_instrument_id ord) sequence NEW ?rj)), s1)"
        using none s1 False by (simp add: execute_new_def bindP_def getsP_def reject_ok [OF nz(1)])
      ultimately show ?thesis using step_ok_reject [OF inv sq s1(2)] by simp
    next
      case True
      let ?es = "[AcceptedEvent \<lparr>command_sequence = sequence, event_index = 0,
        hdr_instrument_id = eng_instrument_id s\<rparr> NEW]"
      obtain evs v' where spec: "spec_aggress (eng_instrument_id s) ?sd ord sequence (view_of s) (view_of s) ?es = (evs, v')"
        by (metis prod.exhaust)
      have step: "spec_new (eng_config s) (eng_instrument_id s) ord sequence (view_of s) = (evs, v')"
        using none True spec unfolding validate_new_first [OF i(1)]
        by (simp add: spec_new_def Let_def split: if_splits)
      have pz: "\<not> eng_poisoned s1" using static_of_eqD [OF f(2)] i(6) by simp
      obtain s2 where s2: "top s1 = (Inr (view_top (view_of s)), s2)" "heap_only s1 s2"
        using top_spec [OF f(1) _ pz] f(8,9) i(2) by auto
      have ho: "heap_only s s2" by (rule heap_only_trans [OF s1(2) s2(2)])
      note g = heap_only_fields [OF ho]
      have "batch_shape sequence (eng_instrument_id s) ?es" by (simp add: batch_shape_def)
      from aggress_step [OF inv sq v(1) g(1) _ g(2) g(9) _ _ this True spec] g(5,8) i(2) v(2)
      obtain s' where s': "run_aggressor ord sequence (view_top (view_of s)) ?es s2 = (Inr (accepted_result evs), s')"
        "core_inv sequence s'" "static_of s' = static_of s" "view_of s' = v'" by auto
      have ex: "execute_new ord sequence s = (Inr (accepted_result evs), s')"
        using none s1 s2 True s'(1) iid by (simp add: execute_new_def bindP_def getsP_def header_def)
      with ex s' step show ?thesis by (simp add: step_ok_def)
    qed
  qed
qed

section \<open>Cancellations\<close>

lemma stored_order_ok:
  assumes "core_inv latest s" and "map_of (eng_orders s) i = Some r"
  shows "queued s r" and "ord_order_id (deref s r) = i"
    and "order_ok (eng_config s) (eng_instrument_id s) latest (ord_side (deref s r)) (deref s r)"
proof -
  note inv = core_invD [OF assms(1)]
  show r: "queued s r" "ord_order_id (deref s r) = i" using rep_ok_index [OF inv(1)] assms(2) by auto
  show "order_ok (eng_config s) (eng_instrument_id s) latest (ord_side (deref s r)) (deref s r)"
    using view_okD(2) [OF inv(8)] queued_in_flat [OF inv(1) r(1)] by simp
qed

lemma validate_cancel_first:
  assumes "core_inv latest s"
  shows "validate_cancel ord s = first_failure
    [(validate_cancel_shape ord \<noteq> NONE, validate_cancel_shape ord, relevant (cancel_order_id ord)),
     (cancel_instrument_id ord \<noteq> eng_instrument_id s, UNKNOWN_INSTRUMENT, Some (cancel_order_id ord)),
     (find_order (cancel_order_id ord) (view_of s) = None, UNKNOWN_ORDER_ID, Some (cancel_order_id ord)),
     (ord_client_id (the (find_order (cancel_order_id ord) (view_of s))) \<noteq> cancel_client_id ord,
        OWNERSHIP_MISMATCH, Some (cancel_order_id ord))]"
  using stored_order_ok(3) [OF assms]
  by (auto simp: validate_cancel_def find_order_index [OF core_invD(1) [OF assms]] order_ok_def Let_def
      split: option.splits)

lemma cancel_events_shape:
  "batch_shape sequence (cancel_instrument_id cmd) (cancel_events cmd sequence n)"
  by (simp add: cancel_events_def header_def batch_shape_def Let_def All_less_Suc2 numeral_nat)

lemma core_inv_remove:
  assumes inv: "core_inv latest s" and sq: "latest \<le> sequence"
    and s': "rep_ok s'" "tight_except {} s'" "static_of s' = static_of s"
      "view_of s' = spec_remove_order i (view_of s)"
  shows "core_inv sequence s'"
proof -
  note inv' = core_invD [OF inv]
  have "view_ok (eng_config s) (eng_instrument_id s) latest (view_of s')"
    using view_ok_shrink [OF inv'(8), of "view_of s'"] spec_remove_shrinks view_ok_positive [OF inv'(8)] s'(4)
    by (auto simp: spec_remove_order_def)
  moreover have "length (eng_orders s') \<le> length (eng_orders s)"
    using order_count [OF s'(1)] order_count [OF inv'(1)] fun_cong [OF s'(4), of BUY] fun_cong [OF s'(4), of SELL]
    by (simp add: spec_remove_order_def spec_remove_def) (meson add_mono length_filter_le)
  ultimately show ?thesis
    using inv' s' static_of_eqD [OF s'(3)] sq view_ok_mono [of "eng_config s" _ latest _ sequence]
    by (auto simp: core_inv_def)
qed

lemma execute_cancel_spec:
  assumes inv: "core_inv latest s" and sq: "latest < sequence"
  shows "step_ok sequence (execute_cancel cmd sequence)
    (spec_cancel (eng_instrument_id s) cmd sequence (view_of s)) s"
proof -
  note i = core_invD [OF inv]
  have nz: "sequence \<noteq> 0" "eng_instrument_id s \<noteq> 0" using sq i(4,7) by auto
  show ?thesis
  proof (cases "validate_cancel cmd s")
    case (Some rj)
    then have "spec_cancel (eng_instrument_id s) cmd sequence (view_of s) =
        (spec_reject (cancel_instrument_id cmd) sequence CANCEL rj, view_of s)"
      unfolding validate_cancel_first [OF inv] by (simp add: spec_cancel_def Let_def split: if_splits)
    moreover have "execute_cancel cmd sequence s =
        (Inr (accepted_result (spec_reject (cancel_instrument_id cmd) sequence CANCEL rj)), s)"
      using Some by (simp add: execute_cancel_def reject_ok [OF nz(1)])
    ultimately show ?thesis using step_ok_reject [OF inv sq heap_only_refl [OF i(1)]] by simp
  next
    case None
    then have iid: "cancel_instrument_id cmd = eng_instrument_id s"
      by (auto simp: validate_cancel_def Let_def split: if_splits)
    obtain r where r: "map_of (eng_orders s) (cancel_order_id cmd) = Some r"
      using None by (auto simp: validate_cancel_def Let_def split: if_splits option.splits)
    note stored = stored_order_ok [OF inv r]
    let ?es = "cancel_events cmd sequence (ord_remaining_quantity (deref s r))"
    let ?v = "spec_remove_order (cancel_order_id cmd) (view_of s)"
    let ?evs = "with_top_change (eng_instrument_id s) sequence (view_of s) ?v ?es"
    have step: "spec_cancel (eng_instrument_id s) cmd sequence (view_of s) = (?evs, ?v)"
      using None unfolding validate_cancel_first [OF inv]
      by (simp add: spec_cancel_def Let_def find_order_index [OF i(1)] r split: if_splits)
    obtain s1 where s1: "top s = (Inr (view_top (view_of s)), s1)" "heap_only s s1"
      using top_spec [OF i(1,2,6)] by blast
    note f = heap_only_fields [OF s1(2)]
    have q1: "queued s1 r" using stored(1) by (simp add: queued_def f)
    obtain s2 where s2: "erase r s1 = (Inr (), s2)" "rep_ok s2" "tight_except {} s2"
      "static_of s2 = static_of s" "view_of s2 = ?v"
      using erase_spec [OF f(1) _ q1] f i(2) stored(2) by auto
    have inv2: "core_inv sequence s2"
      using core_inv_remove [OF inv _ s2(2-5)] sq by simp
    obtain s3 where s3: "top s2 = (Inr (view_top ?v), s3)" "heap_only s2 s3"
      using top_spec [OF s2(2,3) core_invD(6) [OF inv2]] s2(5) by auto
    note g = heap_only_fields [OF s3(2)]
    have iid3: "eng_instrument_id s3 = eng_instrument_id s"
      using static_of_eqD [OF g(2)] static_of_eqD [OF s2(4)] by simp
    have "batch_shape sequence (eng_instrument_id s) ?evs"
      using with_top_change_shape [OF cancel_events_shape] iid by metis
    moreover have "?evs \<noteq> []" by (simp add: with_top_change_def cancel_events_def Let_def)
    ultimately have "batch_result ?evs = Inr (accepted_result ?evs)"
      using nz by (intro batch_result_ok) auto
    moreover have "append_book_changed ?es sequence (view_top (view_of s)) (view_top ?v) s3 = (Inr ?evs, s3)"
      by (simp add: append_book_changed_def getsP_def with_top_change_def header_def iid3)
    ultimately have "execute_cancel cmd sequence s = (Inr (accepted_result ?evs), s3)"
      using None s1(1) s2(1) s3(1)
      by (simp add: execute_cancel_def bindP_def seqP_def getsP_def dict_getitem_def f r)
    moreover have "core_inv sequence s3" by (rule core_inv_heap_only [OF inv2 s3(2)])
    ultimately show ?thesis using g s2 by (simp add: step_ok_def step)
  qed
qed

section \<open>Replacements\<close>

lemma validate_replace_first:
  assumes "core_inv latest s"
  shows "validate_replace cmd s = first_failure
    [(validate_replace_shape cmd \<noteq> NONE, validate_replace_shape cmd,
        rej_order_id (replace_shape_rejection cmd (validate_replace_shape cmd))),
     (rep_instrument_id cmd \<noteq> eng_instrument_id s, UNKNOWN_INSTRUMENT, Some (rep_old_order_id cmd)),
     (max_order_quantity (eng_config s) < rep_new_quantity cmd, QUANTITY_OUT_OF_RANGE,
        Some (rep_new_order_id cmd)),
     (rep_new_limit_price cmd mod tick_increment (eng_config s) \<noteq> 0, INVALID_TICK,
        Some (rep_new_order_id cmd)),
     (find_order (rep_old_order_id cmd) (view_of s) = None, UNKNOWN_ORDER_ID, Some (rep_old_order_id cmd)),
     (ord_client_id (the (find_order (rep_old_order_id cmd) (view_of s))) \<noteq> rep_client_id cmd,
        OWNERSHIP_MISMATCH, Some (rep_old_order_id cmd)),
     (find_order (rep_new_order_id cmd) (view_of s) \<noteq> None, INVALID_REPLACEMENT_ID,
        Some (rep_new_order_id cmd))]"
  using stored_order_ok(3) [OF assms]
  by (auto simp: validate_replace_def find_order_index [OF core_invD(1) [OF assms]] order_ok_def Let_def
      replace_shape_rejection_def split: option.splits)

lemma replace_events_shape:
  "batch_shape sequence (rep_instrument_id cmd) (replace_events cmd sequence n)"
  by (simp add: replace_events_def header_def batch_shape_def Let_def All_less_Suc2 numeral_nat)

lemma validated_replace:
  assumes "core_inv latest s" and "require_representable (ReplaceOrder cmd) = Inr ()"
    and "validate_replace cmd s = None"
  shows "\<exists>r. map_of (eng_orders s) (rep_old_order_id cmd) = Some r \<and>
    new_order_ok (eng_config s) (eng_instrument_id s) (ord_side (deref s r)) (replacement_order cmd (deref s r)) \<and>
    map_of (eng_orders s) (rep_new_order_id cmd) = None \<and> rep_instrument_id cmd = eng_instrument_id s"
proof -
  obtain r where r: "map_of (eng_orders s) (rep_old_order_id cmd) = Some r"
    and fresh: "map_of (eng_orders s) (rep_new_order_id cmd) = None"
    and st: "rep_instrument_id cmd = eng_instrument_id s"
      "rep_new_quantity cmd \<le> max_order_quantity (eng_config s)"
      "rep_new_limit_price cmd mod tick_increment (eng_config s) = 0"
    and shape: "validate_replace_shape cmd = NONE"
    using assms(3) by (auto simp: validate_replace_def Let_def split: if_splits option.splits)
  have "0 \<le> rep_new_order_id cmd" "rep_new_order_id cmd \<le> U64_MAX" "0 \<le> rep_new_quantity cmd"
    "rep_new_limit_price cmd \<le> I64_MAX"
    using assms(2) by (auto simp: require_uint_def require_i64_def bindR_Inr_iff split: if_splits)
  moreover have "rep_new_order_id cmd \<noteq> 0" "rep_new_quantity cmd \<noteq> 0" "0 < rep_new_limit_price cmd"
    using shape by (auto simp: validate_replace_shape_def split: if_splits)
  ultimately have "new_order_ok (eng_config s) (eng_instrument_id s) (ord_side (deref s r))
      (replacement_order cmd (deref s r))"
    using stored_order_ok(3) [OF assms(1) r] st
    by (auto simp: new_order_ok_def replacement_order_def order_ok_def)
  with r fresh st show ?thesis by blast
qed

lemma execute_replace_spec:
  assumes inv: "core_inv latest s" and sq: "latest < sequence"
    and repr: "require_representable (ReplaceOrder cmd) = Inr ()"
  shows "step_ok sequence (execute_replace cmd sequence)
    (spec_replace (eng_config s) (eng_instrument_id s) cmd sequence (view_of s)) s"
proof -
  note i = core_invD [OF inv]
  have nz: "sequence \<noteq> 0" "eng_instrument_id s \<noteq> 0" using sq i(4,7) by auto
  let ?spec = "spec_replace (eng_config s) (eng_instrument_id s) cmd sequence (view_of s)"
  show ?thesis
  proof (cases "validate_replace cmd s")
    case (Some rj)
    then have "?spec = (spec_reject (rep_instrument_id cmd) sequence REPLACE rj, view_of s)"
      unfolding validate_replace_first [OF inv] by (simp add: spec_replace_def Let_def split: if_splits)
    moreover have "execute_replace cmd sequence s =
        (Inr (accepted_result (spec_reject (rep_instrument_id cmd) sequence REPLACE rj)), s)"
      using Some by (simp add: execute_replace_def reject_ok [OF nz(1)])
    ultimately show ?thesis using step_ok_reject [OF inv sq heap_only_refl [OF i(1)]] by simp
  next
    case None
    from validated_replace [OF inv repr None] obtain r where
      r: "map_of (eng_orders s) (rep_old_order_id cmd) = Some r"
      and ok: "new_order_ok (eng_config s) (eng_instrument_id s) (ord_side (deref s r)) (replacement_order cmd (deref s r))"
      and fresh: "map_of (eng_orders s) (rep_new_order_id cmd) = None"
      and iid: "rep_instrument_id cmd = eng_instrument_id s" by blast
    note stored = stored_order_ok [OF inv r]
    let ?o = "replacement_order cmd (deref s r)" and ?sd = "ord_side (deref s r)"
    let ?v = "spec_remove_order (rep_old_order_id cmd) (view_of s)"
    have pos: "all_positive (flat sd s)" for sd using view_ok_positive [OF i(8), of sd] by simp
    have "0 \<le> new_quantity ?o" using ok by (simp add: new_order_ok_def)
    from capacity_allows_spec [OF new_order_aggresses [OF ok] i(1,2) pos this, of "Some r" sequence]
      new_order_ok_rests [OF ok] stored
    obtain s1 where s1: "capacity_allows ?o (Some r) s =
        (Inr (spec_fits (eng_config s) ?sd ?o sequence ?v), s1)" "heap_only s s1"
      by (fastforce simp: removed_view_def)
    note f = heap_only_fields [OF s1(2)]
    show ?thesis
    proof (cases "spec_fits (eng_config s) ?sd ?o sequence ?v")
      case False
      let ?rj = "\<lparr>rej_reason = CAPACITY_EXCEEDED, rej_order_id = Some (rep_new_order_id cmd)\<rparr>"
      have "?spec = (spec_reject (rep_instrument_id cmd) sequence REPLACE ?rj, view_of s)"
        using None False unfolding validate_replace_first [OF inv]
        by (simp add: spec_replace_def Let_def find_order_index [OF i(1)] r split: if_splits)
      moreover have "execute_replace cmd sequence s =
          (Inr (accepted_result (spec_reject (rep_instrument_id cmd) sequence REPLACE ?rj)), s1)"
        using None s1 False
        by (simp add: execute_replace_def bindP_def getsP_def dict_getitem_def r reject_ok [OF nz(1)])
      ultimately show ?thesis using step_ok_reject [OF inv sq s1(2)] by simp
    next
      case True
      let ?es = "replace_events cmd sequence (ord_remaining_quantity (deref s r))"
      obtain evs v' where spec: "spec_aggress (eng_instrument_id s) ?sd ?o sequence (view_of s) ?v ?es = (evs, v')"
        by (metis prod.exhaust)
      have step: "?spec = (evs, v')"
        using None True spec unfolding validate_replace_first [OF inv]
        by (simp add: spec_replace_def Let_def find_order_index [OF i(1)] r split: if_splits)
      have pz: "\<not> eng_poisoned s1" using static_of_eqD [OF f(2)] i(6) by simp
      obtain s2 where s2: "top s1 = (Inr (view_top (view_of s)), s2)" "heap_only s1 s2"
        using top_spec [OF f(1) _ pz] f(8,9) i(2) by auto
      have ho: "heap_only s s2" by (rule heap_only_trans [OF s1(2) s2(2)])
      note g = heap_only_fields [OF ho]
      have q2: "queued s2 r" using stored(1) by (simp add: queued_def g)
      obtain s3 where s3: "erase r s2 = (Inr (), s3)" "rep_ok s3" "tight_except {} s3"
        "static_of s3 = static_of s" "view_of s3 = ?v"
        and o3: "eng_orders s3 = AList.delete (rep_old_order_id cmd) (eng_orders s)"
        using erase_spec [OF g(1) _ q2] g i(2) stored(2) by auto
      have "map_of (eng_orders s3) (new_order_id ?o) = None"
        using fresh by (simp add: o3 replacement_order_def)
      moreover have "batch_shape sequence (eng_instrument_id s) ?es"
        using replace_events_shape iid by metis
      ultimately obtain s' where s': "run_aggressor ?o sequence (view_top (view_of s)) ?es s3 = (Inr (accepted_result evs), s')"
        "core_inv sequence s'" "static_of s' = static_of s" "view_of s' = v'"
        using aggress_step [OF inv sq ok s3(2-5) _ _ _ True spec] by auto
      have "execute_replace cmd sequence s = (Inr (accepted_result evs), s')"
        using None s1 s2 s3(1) True s'(1) iid
        by (simp add: execute_replace_def bindP_def seqP_def getsP_def dict_getitem_def r g)
      with s' step show ?thesis by (simp add: step_ok_def)
    qed
  qed
qed

lemma run_command_spec:
  assumes "core_inv latest s" and "latest < sequence" and "require_representable cmd = Inr ()"
  shows "step_ok sequence (run_command cmd sequence)
    (spec_step (eng_config s) (eng_instrument_id s) cmd sequence (view_of s)) s"
  using execute_new_spec [OF assms(1,2)] execute_cancel_spec [OF assms(1,2)]
    execute_replace_spec [OF assms(1,2)] assms(3)
  by (cases cmd) (auto simp: run_command_def step_ok_def)

end
