(* ===== verification/Runtime_Checks.thy ===== *)
theory Runtime_Checks
  imports Engine_Refinement
begin

text \<open>
  \<open>invariant_errors\<close> and its callers.  The checker is code of the engine: it walks both sides, collects
  the orders and priorities it has seen, and asks the price index for the best price.  On every state
  that satisfies the engine invariant it reports nothing and only compacts the heaps, so the eager
  check after a command never poisons the engine.
\<close>

section \<open>Scanning queues and levels\<close>

definition seen_entries :: "engine \<Rightarrow> order_ref list \<Rightarrow> (int, order_ref) dict" where
  "seen_entries s rs = map (\<lambda>r. (ord_order_id (deref s r), r)) rs"

definition scanned :: "engine \<Rightarrow> order_ref list \<Rightarrow> inv_scan \<Rightarrow> inv_scan" where
  "scanned s rs sc = sc\<lparr>scan_seen := scan_seen sc @ seen_entries s rs,
     scan_priorities := scan_priorities sc \<union> (\<lambda>r. ord_priority_sequence (deref s r)) ` set rs\<rparr>"

lemma scanned_Nil [simp]: "scanned s [] sc = sc"
  by (simp add: scanned_def seen_entries_def)

lemma scanned_append: "scanned s (rs @ rs') sc = scanned s rs' (scanned s rs sc)"
  by (simp add: scanned_def seen_entries_def image_Un Un_assoc)

lemma scanned_fields [simp]:
  "scan_seen (scanned s rs sc) = scan_seen sc @ seen_entries s rs"
  "scan_priorities (scanned s rs sc) =
     scan_priorities sc \<union> (\<lambda>r. ord_priority_sequence (deref s r)) ` set rs"
  "scan_errors (scanned s rs sc) = scan_errors sc"
  by (simp_all add: scanned_def)

lemma flag_False [simp]: "flag False e sc = sc"
  by (simp add: flag_def)

text \<open>The references of \<open>rs\<close> are new to the scan, in identifier and in priority.\<close>

definition unseen :: "engine \<Rightarrow> order_ref list \<Rightarrow> inv_scan \<Rightarrow> bool" where
  "unseen s rs sc \<longleftrightarrow>
     distinct (map (\<lambda>r. ord_order_id (deref s r)) rs) \<and>
     distinct (map (\<lambda>r. ord_priority_sequence (deref s r)) rs) \<and>
     (\<forall>r \<in> set rs. map_of (scan_seen sc) (ord_order_id (deref s r)) = None \<and>
        ord_priority_sequence (deref s r) \<notin> scan_priorities sc)"

lemma unseen_append:
  assumes "unseen s (rs @ rs') sc"
  shows "unseen s rs sc" and "unseen s rs' (scanned s rs sc)"
proof -
  show "unseen s rs sc" using assms by (auto simp: unseen_def)
  let ?f = "\<lambda>r. ord_order_id (deref s r)"
  have "set (map ?f rs) \<inter> set (map ?f rs') = {}"
    using assms by (simp only: unseen_def map_append distinct_append)
  then have "map_of (seen_entries s rs) (?f r) = None" if "r \<in> set rs'" for r
    using that by (force simp: map_of_eq_None_iff seen_entries_def)
  with assms show "unseen s rs' (scanned s rs sc)"
    by (auto simp: unseen_def map_add_def)
qed

definition checked_order :: "engine \<Rightarrow> side \<Rightarrow> int \<Rightarrow> order_ref \<Rightarrow> bool" where
  "checked_order s sd p r \<longleftrightarrow>
     (let ord = deref s r in
      ord_side ord = sd \<and> ord_instrument_id ord = eng_instrument_id s \<and> ord_price ord = p \<and>
      1 \<le> ord_remaining_quantity ord \<and> ord_remaining_quantity ord \<le> U64_MAX \<and>
      1 \<le> ord_priority_sequence ord \<and> ord_priority_sequence ord \<le> eng_last_sequence s)"

lemma setitem_fresh: "map_of d k = None \<Longrightarrow> dict_setitem k v d = d @ [(k, v)]"
  by (induction d) (auto simp: dict_setitem_def split: if_splits)

lemma check_order_clean:
  assumes "unseen s [r] sc" and "checked_order s sd p r" and "prev < ord_priority_sequence (deref s r)"
  shows "check_order s sd p prev r sc = scanned s [r] sc"
  using assms
  by (simp add: check_order_def Let_def unseen_def checked_order_def scanned_def seen_entries_def setitem_fresh)

lemma check_queue_clean:
  assumes "unseen s q sc" and "\<forall>r \<in> set q. checked_order s sd p r"
    and "sorted_wrt (<) (prev # map (\<lambda>r. ord_priority_sequence (deref s r)) q)"
  shows "check_queue s sd p prev a q sc = (a + total_quantity (orders_at s q), scanned s q sc)"
  using assms
proof (induction q arbitrary: prev a sc)
  case (Cons r q)
  have u: "unseen s [r] sc" "unseen s q (scanned s [r] sc)"
    using unseen_append [of s "[r]" q sc] Cons.prems(1) by simp_all
  have "check_order s sd p prev r sc = scanned s [r] sc"
    using Cons.prems by (intro check_order_clean u) auto
  with Cons.IH [OF u(2)] Cons.prems show ?case
    by (simp add: scanned_append [of s "[r]" q, simplified])
qed simp

definition checked_level :: "engine \<Rightarrow> side \<Rightarrow> (int, int) dict \<Rightarrow> int \<times> order_ref list \<Rightarrow> bool" where
  "checked_level s sd aggregates = (\<lambda>(p, q). q \<noteq> [] \<and> 1 \<le> p \<and> p \<le> I64_MAX \<and>
     (\<forall>r \<in> set q. checked_order s sd p r) \<and>
     sorted_wrt (<) (map (\<lambda>r. ord_priority_sequence (deref s r)) q) \<and>
     total_quantity (orders_at s q) \<le> U64_MAX \<and>
     map_of aggregates p = Some (total_quantity (orders_at s q)))"

lemma check_level_clean:
  assumes "unseen s q sc" and "checked_level s sd aggregates (p, q)"
  shows "check_level s aggregates sd (p, q) sc = scanned s q sc"
proof -
  have "sorted_wrt (<) (0 # map (\<lambda>r. ord_priority_sequence (deref s r)) q)"
    using assms(2) by (force simp: checked_level_def checked_order_def Let_def)
  with check_queue_clean [OF assms(1), of sd p 0 0] assms(2) show ?thesis
    by (simp add: check_level_def checked_level_def not_less)
qed

lemma check_levels_clean:
  assumes "unseen s (concat (map snd levels)) sc" and "\<forall>l \<in> set levels. checked_level s sd aggregates l"
  shows "fold (check_level s aggregates sd) levels sc = scanned s (concat (map snd levels)) sc"
  using assms
proof (induction levels arbitrary: sc)
  case (Cons l levels)
  obtain p q where l: "l = (p, q)" by (cases l)
  have u: "unseen s q sc" "unseen s (concat (map snd levels)) (scanned s q sc)"
    using unseen_append [of s q "concat (map snd levels)" sc] Cons.prems(1) by (simp_all add: l)
  from check_level_clean [OF u(1)] Cons.IH [OF u(2)] Cons.prems(2) show ?case
    by (simp add: l scanned_append)
qed simp

section \<open>What the invariant gives the scan\<close>

definition level_refs :: "side \<Rightarrow> engine \<Rightarrow> order_ref list" where
  "level_refs sd s = concat (map snd (levels_of sd s))"

lemma level_refs_queues:
  assumes "rep_ok s"
  shows "level_refs sd s = concat (map (queue_at sd s) (map fst (levels_of sd s)))"
proof -
  have d: "dict_ok (levels_of sd s)" using caches_okD(1) [OF rep_okD(1) [OF assms]] .
  have "map snd (levels_of sd s) = map (queue_at sd s) (map fst (levels_of sd s))"
    using map_of_in_dict [OF d] by (auto simp: queue_at_def)
  then show ?thesis by (simp only: level_refs_def)
qed

lemma set_level_refs:
  assumes "rep_ok s"
  shows "set (level_refs sd s) = {r. \<exists>p. r \<in> set (queue_at sd s p)}"
proof -
  have "p \<in> set (map fst (levels_of sd s))" if "r \<in> set (queue_at sd s p)" for p r
    using that unfolding set_keys_dom by (auto simp: in_queue_at)
  then show ?thesis unfolding level_refs_queues [OF assms] set_concat by fastforce
qed

lemma level_refs_distinct: "rep_ok s \<Longrightarrow> distinct (level_refs BUY s @ level_refs SELL s)"
proof -
  assume rep: "rep_ok s"
  have "distinct (level_refs sd s)" for sd
    unfolding level_refs_queues [OF rep]
    using distinct_queues [OF rep caches_okD(1) [OF rep_okD(1) [OF rep, of sd]]] by simp
  moreover have "ord_side (deref s r) = sd" if "r \<in> set (level_refs sd s)" for sd r
    using that queues_okD(2) [OF rep] by (auto simp: set_level_refs [OF rep] in_queue_at located_def)
  then have "set (level_refs BUY s) \<inter> set (level_refs SELL s) = {}"
    by (metis disjoint_iff side.distinct(1))
  ultimately show ?thesis by simp
qed

lemma level_refs_queued: "rep_ok s \<Longrightarrow> set (level_refs BUY s @ level_refs SELL s) = Collect (queued s)"
  by (auto simp: set_level_refs queued_iff ex_side)

lemma queued_priority_inj:
  assumes "core_inv latest s"
  shows "inj_on (\<lambda>r. ord_priority_sequence (deref s r)) (Collect (queued s))"
proof -
  note i = core_invD [OF assms]
  have "distinct (map (\<lambda>r. ord_priority_sequence (deref s r)) (all_refs s))"
    using view_okD(4) [OF i(8)] by (simp add: all_refs_def flat_refs orders_at_def comp_def)
  then show ?thesis by (simp add: distinct_map set_all_refs)
qed

lemma unseen_all:
  assumes "core_inv latest s" and "scan_seen sc = []" and "scan_priorities sc = {}"
  shows "unseen s (level_refs BUY s @ level_refs SELL s) sc"
proof -
  note i = core_invD [OF assms(1)]
  let ?rs = "level_refs BUY s @ level_refs SELL s"
  have "inj_on (\<lambda>r. ord_order_id (deref s r)) (set ?rs)"
    unfolding level_refs_queued [OF i(1)] using queued_id_inj [OF i(1)] by (auto simp: inj_on_def)
  moreover have "inj_on (\<lambda>r. ord_priority_sequence (deref s r)) (set ?rs)"
    unfolding level_refs_queued [OF i(1)] by (rule queued_priority_inj [OF assms(1)])
  ultimately show ?thesis
    using level_refs_distinct [OF i(1)] assms(2,3)
    by (simp only: unseen_def distinct_map) simp
qed

lemma level_priorities_sorted:
  assumes "core_inv latest s" and "map_of (levels_of sd s) p = Some q"
  shows "sorted_wrt (<) (map (\<lambda>r. ord_priority_sequence (deref s r)) q)"
proof -
  note i = core_invD [OF assms(1)]
  obtain A B where AB: "best_first sd (side_prices sd s) = A @ p # B"
    using flat_split [OF in_side_prices [OF assms(2)]] by blast
  have "flat sd s = concat (map (level_orders sd s) A) @ orders_at s q @ concat (map (level_orders sd s) B)"
    using assms(2) by (simp add: flat_def AB level_orders_def)
  then have "sorted_wrt (<) (map (rank sd) (orders_at s q))"
    using view_okD(1) [OF i(8), of sd] by (simp add: sorted_wrt_append)
  then have "sorted_wrt (\<lambda>r r'. rank sd (deref s r) < rank sd (deref s r')) q"
    by (simp add: orders_at_def sorted_wrt_map)
  moreover have "ord_price (deref s r) = p" if "r \<in> set q" for r
    using queues_okD(2) [OF i(1) assms(2) that] by (simp add: located_def)
  ultimately have "sorted_wrt (\<lambda>r r'. ord_priority_sequence (deref s r) < ord_priority_sequence (deref s r')) q"
    by (elim sorted_wrt_mono_rel [rotated]) (auto simp: rank_def less_prod_def)
  then show ?thesis by (simp add: sorted_wrt_map)
qed

lemma levels_checked:
  assumes inv: "core_inv (eng_last_sequence s) s" and "l \<in> set (levels_of sd s)"
  shows "checked_level s sd (aggregates_of sd s) l"
proof -
  note i = core_invD [OF inv]
  obtain p q where l: "l = (p, q)" by (cases l)
  have lv: "map_of (levels_of sd s) p = Some q"
    using assms(2) map_of_in_dict [OF caches_okD(1) [OF rep_okD(1) [OF i(1)]]] by (simp add: l)
  have ne: "q \<noteq> []" using i(2) lv by (auto simp: tight_except_def)
  have max: "max_order_quantity (eng_config s) \<le> U64_MAX" using i(3) by (simp add: matching_config_ok_def)
  have ord: "order_ok (eng_config s) (eng_instrument_id s) (eng_last_sequence s) sd (deref s r) \<and>
      ord_price (deref s r) = p" if "r \<in> set q" for r
  proof -
    have loc: "located s sd p r" using queues_okD(2) [OF i(1) lv that] .
    have "queued s r" using lv that unfolding queued_def by blast
    from queued_in_flat [OF i(1) this] loc view_okD(2) [OF i(8), of _ sd] show ?thesis
      by (auto simp: located_def)
  qed
  obtain r rs where "q = r # rs" using ne by (cases q) auto
  then have price: "1 \<le> p" "p \<le> I64_MAX" using ord [of r] by (auto simp: order_ok_def)
  have "total_quantity (orders_at s q) \<le> U64_MAX"
    using view_okD(5) [OF i(8), of sd p] flat_level_quantity [OF i(1), of sd p] lv
    by (simp add: level_orders_def)
  moreover have "\<forall>r \<in> set q. checked_order s sd p r"
    using ord max by (fastforce simp: checked_order_def order_ok_def Let_def)
  ultimately show ?thesis
    using ne price level_priorities_sorted [OF inv lv] queues_okD(3) [OF i(1) lv]
    by (simp add: checked_level_def l)
qed

lemma index_entries_clean:
  assumes "rep_ok s"
  shows "fold (check_index_entry sd (heap_of sd s)) (generations_of sd s) sc = sc"
proof -
  have ok: "index_ok sd (generations_of sd s) (eng_next_level_generation s) (heap_of sd s)"
    using rep_okD(1) [OF assms, of sd] by (simp add: caches_ok_def index_inv_def)
  then have d: "dict_ok (generations_of sd s)" by (simp add: index_ok_def)
  have "check_index_entry sd (heap_of sd s) e sc' = sc'" if e: "e \<in> set (generations_of sd s)" for e sc'
  proof -
    obtain p g where pg: "e = (p, g)" by (cases e)
    with e map_of_in_dict [OF d] have "map_of (generations_of sd s) p = Some g" by simp
    with ok have "(price_key sd p, g, p) \<in> set (heap_of sd s)" by (simp add: index_ok_def)
    then show ?thesis
      by (simp add: check_index_entry_def pg price_key_def index_descending_def split: if_splits)
  qed
  then have "fold (check_index_entry sd (heap_of sd s)) es sc = sc" if "set es \<subseteq> set (generations_of sd s)" for es
    using that by (induction es) auto
  then show ?thesis by blast
qed

lemma expected_best_spec:
  "expected_best sd (levels_of sd s) =
     (case best_first sd (side_prices sd s) of [] \<Rightarrow> None | p # _ \<Rightarrow> Some p)"
proof -
  have keys: "set (map fst (levels_of sd s)) = side_prices sd s"
    unfolding side_prices_def by (rule set_keys_dom)
  have fin: "finite (side_prices sd s)" by simp
  show ?thesis
  proof (cases "best_first sd (side_prices sd s)")
    case Nil
    then have "side_prices sd s = {}" using set_best_first [OF fin, of sd] by simp
    then have "levels_of sd s = []" using keys by simp
    with Nil show ?thesis by (simp add: expected_best_def)
  next
    case (Cons p ps)
    note h = best_first_head [OF fin Cons]
    have ne: "levels_of sd s \<noteq> []" using h keys by auto
    have "Max (side_prices sd s) = p" if "sd = BUY"
      using h that fin by (intro Max_eqI) (auto simp: price_key_def index_descending_def)
    moreover have "Min (side_prices sd s) = p" if "sd = SELL"
      using h that fin by (intro Min_eqI) (auto simp: price_key_def index_descending_def)
    ultimately show ?thesis unfolding expected_best_def keys using Cons ne by (cases sd) auto
  qed
qed

lemma append_side_clean:
  assumes inv: "core_inv (eng_last_sequence s) s" and "unseen s (level_refs sd s) sc"
  shows "\<exists>s'. append_side_invariant_errors sd sc s = (Inr (scanned s (level_refs sd s) sc), s') \<and> heap_only s s'"
proof -
  note i = core_invD [OF inv]
  obtain h where h: "best_price sd (index_descending sd) s =
      (Inr (case best_first sd (side_prices sd s) of [] \<Rightarrow> None | p # _ \<Rightarrow> Some p), set_heap sd h s)"
    "rep_ok (set_heap sd h s)" using best_price_rep [OF i(1)] by blast
  have keys: "set (map fst (aggregates_of sd s)) = set (map fst (levels_of sd s))"
    "set (map fst (generations_of sd s)) = set (map fst (levels_of sd s))"
    using rep_okD(1) [OF i(1), of sd] unfolding set_keys_dom
    by (auto simp: caches_ok_def side_prices_def indexed_prices_def)
  have "fold (check_level s (aggregates_of sd s) sd) (levels_of sd s) sc = scanned s (level_refs sd s) sc"
    using check_levels_clean [of s "levels_of sd s" sc sd] assms(2) levels_checked [OF inv]
    by (simp add: level_refs_def)
  then have "append_side_invariant_errors sd sc s = (Inr (scanned s (level_refs sd s) sc), set_heap sd h s)"
    using h(1) by (simp add: append_side_invariant_errors_def keys index_entries_clean [OF i(1)]
        expected_best_spec bindP_def index_descending_def Let_def del: set_map)
  with heap_only_set_heap [OF h(2)] show ?thesis by blast
qed

section \<open>The checker reports nothing\<close>

lemma check_index_clean:
  assumes "rep_ok s" and "scan_seen sc = seen_entries s (level_refs BUY s @ level_refs SELL s)"
  shows "check_index s sc = sc"
proof -
  let ?rs = "level_refs BUY s @ level_refs SELL s"
  have "set (map fst (scan_seen sc)) = (\<lambda>r. ord_order_id (deref s r)) ` Collect (queued s)"
    unfolding level_refs_queued [OF assms(1), symmetric] by (simp add: assms(2) seen_entries_def image_Un image_image)
  moreover have "set (map fst (eng_orders s)) = (\<lambda>r. ord_order_id (deref s r)) ` Collect (queued s)"
    unfolding set_keys_dom using rep_ok_index [OF assms(1)] by (auto simp: dom_def)
  moreover have "map_of (eng_orders s) oid = Some r" if "(oid, r) \<in> set (scan_seen sc)" for oid r
    using that rep_ok_index [OF assms(1), of oid r] level_refs_queued [OF assms(1)]
    by (auto simp: assms(2) seen_entries_def)
  then have "fold (\<lambda>(oid, queued). flag (map_of (eng_orders s) oid \<noteq> Some queued) (IdentityDiffers oid)) es sc = sc"
    if "set es \<subseteq> set (scan_seen sc)" for es
    using that by (induction es) auto
  ultimately show ?thesis by (simp add: check_index_def del: set_map)
qed

lemma check_crossed_clean:
  assumes "core_inv latest s"
  shows "check_crossed s sc = sc"
proof -
  note i = core_invD [OF assms]
  have best: "p \<in> side_prices sd s" if "expected_best sd (levels_of sd s) = Some p" for sd p
    using that best_first_head [of "side_prices sd s" sd p]
    by (auto simp: expected_best_spec split: list.splits)
  have lt: "b < a" if "b \<in> side_prices BUY s" "a \<in> side_prices SELL s" for a b
    using that view_okD(6) [OF i(8)] by (auto simp: tight_prices [OF i(1,2)])
  have "\<not> a \<le> b" if "expected_best BUY (eng_bids s) = Some b" "expected_best SELL (eng_asks s) = Some a" for a b
    using lt [of b a] best [of BUY b] best [of SELL a] that by (simp add: levels_of_def)
  then show ?thesis
    by (auto simp: check_crossed_def flag_def split: option.splits)
qed

lemma unseen_cong:
  "eng_store s' = eng_store s \<Longrightarrow> unseen s' rs sc = unseen s rs sc"
  "eng_store s' = eng_store s \<Longrightarrow> scanned s' rs sc = scanned s rs sc"
  "eng_store s' = eng_store s \<Longrightarrow> seen_entries s' rs = seen_entries s rs"
  by (simp_all add: unseen_def scanned_def seen_entries_def)

theorem invariant_errors_clean:
  assumes "engine_inv s"
  shows "\<exists>s'. invariant_errors s = (Inr [], s') \<and> heap_only s s'"
proof -
  have inv: "core_inv (eng_last_sequence s) s" and sq: "sequence_ok s"
    using assms by (simp_all add: engine_inv_def)
  note i = core_invD [OF inv]
  let ?sc = "\<lparr>scan_seen = [], scan_priorities = {}, scan_errors = []\<rparr>"
  have sc0: "check_sequence_state s (flag (\<not> (1 \<le> eng_instrument_id s \<and> eng_instrument_id s \<le> U32_MAX))
      InstrumentNotU32 (flag (eng_poisoned s) Poisoned ?sc)) = ?sc"
    using i(4-6) sq by (auto simp: check_sequence_state_def sequence_ok_def split: if_splits)
  note un = unseen_append [OF unseen_all [OF inv, of ?sc]]
  obtain s1 where s1: "append_side_invariant_errors BUY ?sc s = (Inr (scanned s (level_refs BUY s) ?sc), s1)"
    "heap_only s s1" using append_side_clean [OF inv, of BUY ?sc] un(1) by auto
  let ?sc1 = "scanned s (level_refs BUY s) ?sc"
  note f = heap_only_fields [OF s1(2)]
  have refs: "level_refs sd s1 = level_refs sd s" for sd by (simp add: level_refs_def f)
  have inv1: "core_inv (eng_last_sequence s1) s1"
    using core_inv_heap_only [OF inv s1(2)] static_of_eqD [OF f(2)] by simp
  obtain s2 where s2: "append_side_invariant_errors SELL ?sc1 s1 = (Inr (scanned s (level_refs SELL s) ?sc1), s2)"
    "heap_only s1 s2"
    using append_side_clean [OF inv1, of SELL ?sc1] un(2) by (auto simp: unseen_cong [OF f(6)] refs)
  let ?sc2 = "scanned s (level_refs SELL s) ?sc1"
  note g = heap_only_fields [OF s2(2)]
  have st: "eng_config s2 = eng_config s" "eng_orders s2 = eng_orders s"
    using static_of_eqD [OF f(2)] static_of_eqD [OF g(2)] f(5) g(5) by simp_all
  have store: "eng_store s2 = eng_store s" using f(6) g(6) by simp
  have "check_index s2 ?sc2 = ?sc2"
    by (rule check_index_clean [OF g(1)])
      (simp add: unseen_cong [OF store] level_refs_def f g, simp add: seen_entries_def)
  moreover have "check_crossed s2 ?sc2 = ?sc2"
    by (rule check_crossed_clean [OF core_inv_heap_only [OF inv1 s2(2)]])
  ultimately have "invariant_errors s = (Inr [], s2)"
    using s1(1) s2(1) i(9)
    by (simp add: invariant_errors_def sc0 [simplified] bindP_def getsP_def st not_less)
  with heap_only_trans [OF s1(2) s2(2)] show ?thesis by blast
qed

lemma engine_inv_heap_only:
  assumes "engine_inv s" and "heap_only s s'"
  shows "engine_inv s'"
  using assms core_inv_heap_only [OF _ assms(2)] static_of_eqD [OF heap_only_fields(2) [OF assms(2)]]
  by (simp add: engine_inv_def sequence_ok_def)

lemma assert_invariants_clean:
  assumes "engine_inv s"
  shows "\<exists>s'. assert_invariants s = (Inr (), s') \<and> heap_only s s' \<and> engine_inv s'"
  using invariant_errors_clean [OF assms] engine_inv_heap_only [OF assms]
  by (auto simp: assert_invariants_def bindP_def)

section \<open>Executing a command\<close>

lemma observe_sequence_fields [simp]:
  "rep_ok (observe_sequence n s) = rep_ok s"
  "tight_except X (observe_sequence n s) = tight_except X s"
  "view_of (observe_sequence n s) = view_of s"
  "eng_config (observe_sequence n s) = eng_config s"
  "eng_instrument_id (observe_sequence n s) = eng_instrument_id s"
  "eng_poisoned (observe_sequence n s) = eng_poisoned s"
  "eng_orders (observe_sequence n s) = eng_orders s"
  "eng_last_sequence (observe_sequence n s) = n"
  "eng_check_invariants (observe_sequence n s) = eng_check_invariants s"
proof -
  let ?s = "observe_sequence n s"
  have f: "levels_of sd ?s = levels_of sd s" "aggregates_of sd ?s = aggregates_of sd s"
    "heap_of sd ?s = heap_of sd s" "generations_of sd ?s = generations_of sd s"
    "eng_store ?s = eng_store s" "eng_orders ?s = eng_orders s"
    "eng_next_level_generation ?s = eng_next_level_generation s" for sd
    by (cases sd; simp add: observe_sequence_def Let_def selector_defs)+
  show "rep_ok ?s = rep_ok s"
    by (simp add: rep_ok_def caches_ok_def queues_ok_def index_complete_def queued_def located_def
        index_inv_def indexed_prices_def side_prices_def orders_at_def f)
  show "tight_except X ?s = tight_except X s" by (simp add: tight_except_def f)
  show "view_of ?s = view_of s"
    by (simp add: view_of_def flat_def level_orders_def [abs_def] queue_at_def orders_at_def
        side_prices_def f)
  show "eng_orders ?s = eng_orders s" by (rule f)
qed (simp_all add: observe_sequence_def Let_def)

lemma observe_sequence_ok:
  "\<not> eng_sequence_exhausted s \<Longrightarrow> 1 \<le> n \<Longrightarrow> n \<le> U64_MAX \<Longrightarrow> sequence_ok (observe_sequence n s)"
  by (simp add: sequence_ok_def observe_sequence_def Let_def)

lemma execute_issued_spec:
  assumes "engine_inv s" and "eng_last_sequence s < n" and "1 \<le> n" and "n \<le> U64_MAX"
    and "require_representable cmd = Inr ()" and "\<not> eng_sequence_exhausted s"
    and "spec_step (eng_config s) (eng_instrument_id s) cmd n (view_of s) = (es, v)"
  shows "\<exists>s'. execute_issued cmd n (observe_sequence n s) = (Inr (accepted_result es), s') \<and>
    engine_inv s' \<and> eng_last_sequence s' = n \<and> static_of s' = static_of (observe_sequence n s) \<and> view_of s' = v"
proof -
  let ?s = "observe_sequence n s"
  have "core_inv (eng_last_sequence s) ?s" using assms(1) by (simp add: engine_inv_def core_inv_def)
  from run_command_spec [OF this assms(2,5)] assms(7) obtain s1 where
    s1: "run_command cmd n ?s = (Inr (accepted_result es), s1)" "core_inv n s1"
    "static_of s1 = static_of ?s" "view_of s1 = v" by (auto simp: step_ok_def)
  have last: "eng_last_sequence s1 = n" using static_of_eqD [OF s1(3)] by simp
  have "sequence_ok s1 = sequence_ok ?s"
    using static_of_eqD [OF s1(3)] by (simp add: sequence_ok_def)
  then have "sequence_ok s1" using observe_sequence_ok [OF assms(6,3,4)] by simp
  with s1(2) have inv1: "engine_inv s1" by (simp add: engine_inv_def last)
  from assert_invariants_clean [OF inv1] obtain s2 where
    s2: "assert_invariants s1 = (Inr (), s2)" "heap_only s1 s2" "engine_inv s2" by blast
  note f = heap_only_fields [OF s2(2)]
  have post: "engine_inv s' \<and> eng_last_sequence s' = n \<and> static_of s' = static_of ?s \<and> view_of s' = v"
    if "s' = (if eng_check_invariants s1 then s2 else s1)" for s'
    using that inv1 s2(3) f s1 last static_of_eqD [OF f(2)] by auto
  have "execute_issued cmd n ?s = (Inr (accepted_result es), if eng_check_invariants s1 then s2 else s1)"
    using s1(1) s2(1) by (simp add: execute_issued_def on_raise_def bindP_def seqP_def getsP_def)
  with post [OF refl] show ?thesis by blast
qed

text \<open>\<open>execute\<close>: the adapter errors, the exhausted engine and the specified step.\<close>

lemma issue_sequence_returns:
  "\<not> eng_sequence_exhausted s \<Longrightarrow>
     issue_sequence s = (Inr (Some (eng_next_sequence s)), observe_sequence (eng_next_sequence s) s)"
  by (simp add: issue_sequence_def observe_sequence_def Let_def)

lemma execute_unrepresentable:
  assumes "engine_inv s" and "require_representable cmd = Inl e"
  shows "execute cmd s = (Inl e, s)"
  using assms by (simp add: execute_def engine_inv_def core_inv_def ensure_usable_def seqP_def bindP_def)

lemma execute_exhausted:
  assumes "engine_inv s" and "require_representable cmd = Inr ()" and "eng_sequence_exhausted s"
  shows "execute cmd s = (Inr \<lparr>result_batch = None, result_error = Some SEQUENCE_EXHAUSTED\<rparr>, s)"
  using assms
  by (simp add: execute_def engine_inv_def core_inv_def ensure_usable_def seqP_def bindP_def
      issue_sequence_def ReferenceResult_def)

lemma execute_refines:
  assumes "engine_inv s" and "require_representable cmd = Inr ()" and "\<not> eng_sequence_exhausted s"
    and "spec_step (eng_config s) (eng_instrument_id s) cmd (eng_next_sequence s) (view_of s) = (es, v)"
  shows "\<exists>s'. execute cmd s = (Inr (accepted_result es), s') \<and> engine_inv s' \<and>
    eng_last_sequence s' = eng_next_sequence s \<and>
    static_of s' = static_of (observe_sequence (eng_next_sequence s) s) \<and> view_of s' = v"
proof -
  have "eng_last_sequence s < eng_next_sequence s" "1 \<le> eng_next_sequence s" "eng_next_sequence s \<le> U64_MAX"
    and pz: "\<not> eng_poisoned s"
    using assms(1,3) by (simp_all add: engine_inv_def sequence_ok_def core_inv_def)
  from execute_issued_spec [OF assms(1) this(1-3) assms(2,3,4)] issue_sequence_returns [OF assms(3)] assms(2) pz
  show ?thesis by (auto simp: execute_def ensure_usable_def seqP_def bindP_def)
qed

lemma execute_at_sequence_refines:
  assumes "engine_inv s" and "require_representable cmd = Inr ()" and "\<not> eng_sequence_exhausted s"
    and "eng_last_sequence s < n" and "n \<le> U64_MAX"
    and "spec_step (eng_config s) (eng_instrument_id s) cmd n (view_of s) = (es, v)"
  shows "\<exists>s'. execute_at_sequence cmd n s = (Inr (accepted_result es), s') \<and> engine_inv s' \<and>
    eng_last_sequence s' = n \<and> static_of s' = static_of (observe_sequence n s) \<and> view_of s' = v"
proof -
  have one: "1 \<le> n" and pz: "\<not> eng_poisoned s"
    using assms(1,4) by (simp_all add: engine_inv_def core_inv_def)
  from execute_issued_spec [OF assms(1,4) one assms(5,2,3,6)] assms(2-5) one pz show ?thesis
    by (auto simp: execute_at_sequence_def ensure_usable_def seqP_def bindP_def getsP_def modifyP_def)
qed

lemma execute_at_sequence_stale:
  assumes "engine_inv s" and "eng_sequence_exhausted s \<or> n \<le> eng_last_sequence s \<or> U64_MAX < n"
  shows "\<exists>e. execute_at_sequence cmd n s = (Inl e, s)"
  using assms
  by (cases "require_representable cmd")
    (auto simp: execute_at_sequence_def ensure_usable_def seqP_def bindP_def getsP_def engine_inv_def
      core_inv_def)

lemma execute_inv: "engine_inv s \<Longrightarrow> engine_inv (snd (execute cmd s))"
proof -
  assume inv: "engine_inv s"
  show ?thesis
  proof (cases "require_representable cmd")
    case (Inl e)
    then show ?thesis using execute_unrepresentable [OF inv] inv by simp
  next
    case (Inr u)
    then have r: "require_representable cmd = Inr ()" by simp
    show ?thesis
    proof (cases "eng_sequence_exhausted s")
      case True
      then show ?thesis using execute_exhausted [OF inv r] inv by simp
    next
      case False
      obtain es v where "spec_step (eng_config s) (eng_instrument_id s) cmd (eng_next_sequence s) (view_of s) = (es, v)"
        by (metis prod.exhaust)
      from execute_refines [OF inv r False this] show ?thesis by auto
    qed
  qed
qed

lemma execute_at_sequence_inv: "engine_inv s \<Longrightarrow> engine_inv (snd (execute_at_sequence cmd n s))"
proof -
  assume inv: "engine_inv s"
  have pz: "\<not> eng_poisoned s" using inv by (simp add: engine_inv_def core_inv_def)
  show ?thesis
  proof (cases "require_representable cmd = Inr () \<and> \<not> eng_sequence_exhausted s \<and>
      eng_last_sequence s < n \<and> n \<le> U64_MAX")
    case True
    obtain es v where "spec_step (eng_config s) (eng_instrument_id s) cmd n (view_of s) = (es, v)"
      by (metis prod.exhaust)
    with execute_at_sequence_refines [OF inv _ _ _ _ this] True show ?thesis by auto
  next
    case False
    then have "snd (execute_at_sequence cmd n s) = s"
      using pz by (cases "require_representable cmd")
        (auto simp: execute_at_sequence_def ensure_usable_def seqP_def bindP_def getsP_def)
    with inv show ?thesis by simp
  qed
qed

section \<open>Construction\<close>

lemma initial_engine_side [simp]:
  "levels_of sd (initial_engine iid config first check) = []"
  "aggregates_of sd (initial_engine iid config first check) = []"
  "heap_of sd (initial_engine iid config first check) = []"
  "generations_of sd (initial_engine iid config first check) = []"
  by (cases sd; simp add: selector_defs initial_engine_def)+

lemma initial_engine_view: "view_of (initial_engine iid config first check) = (\<lambda>_. [])"
  by (simp add: view_of_def flat_def side_prices_def best_first_def)

lemma initial_engine_inv:
  assumes "1 \<le> iid" "iid \<le> U32_MAX" "1 \<le> first" "first \<le> U64_MAX"
    and "case config of None \<Rightarrow> True | Some c \<Rightarrow> matching_config_ok c"
  shows "engine_inv (initial_engine iid config first check)"
proof -
  let ?s = "initial_engine iid config first check"
  have "rep_ok ?s"
    by (simp add: rep_ok_def caches_ok_def queues_ok_def index_complete_def queued_def side_prices_def
        indexed_prices_def index_inv_def index_ok_def) (simp add: initial_engine_def)
  moreover note initial_engine_view
  moreover have "tight_except {} ?s" by (simp add: tight_except_def)
  moreover have "matching_config_ok (eng_config ?s)"
    using assms(5) by (auto simp: initial_engine_def split: option.splits)
  moreover from this have "0 \<le> max_active_orders (eng_config ?s)" by (simp add: matching_config_ok_def)
  ultimately show ?thesis
    using assms by (simp add: engine_inv_def core_inv_def sequence_ok_def empty_view_ok)
      (simp add: initial_engine_def)
qed

lemma ReferenceEngine_inv:
  assumes "ReferenceEngine iid config first check = Inr s"
    and "case config of None \<Rightarrow> True | Some c \<Rightarrow> matching_config_ok c"
  shows "engine_inv s \<and> view_of s = (\<lambda>_. []) \<and> eng_next_sequence s = first"
proof -
  let ?s = "initial_engine iid config first check"
  have r: "1 \<le> iid" "iid \<le> U32_MAX" "1 \<le> first" "first \<le> U64_MAX"
    using assms(1) by (auto simp: ReferenceEngine_def split: if_splits)
  note inv = initial_engine_inv [OF r assms(2)]
  from assert_invariants_clean [OF inv] obtain s' where
    s': "assert_invariants ?s = (Inr (), s')" "heap_only ?s s'" "engine_inv s'" by blast
  then have "s = s'" using assms(1) r by (simp add: ReferenceEngine_def)
  then show ?thesis
    using s' initial_engine_view heap_only_fields [OF s'(2)] static_of_eqD [OF heap_only_fields(2) [OF s'(2)]]
    by (simp add: initial_engine_def)
qed

lemma ReferenceEngine_returns:
  assumes "1 \<le> iid" "iid \<le> U32_MAX" "1 \<le> first" "first \<le> U64_MAX"
    and "case config of None \<Rightarrow> True | Some c \<Rightarrow> matching_config_ok c"
  shows "\<exists>s. ReferenceEngine iid config first check = Inr s"
  using assert_invariants_clean [OF initial_engine_inv [OF assms, of check]] assms
  by (auto simp: ReferenceEngine_def)

end
