(* ===== verification/Engine_Machine.thy ===== *)
theory Engine_Machine
  imports Runtime_Checks
begin

text \<open>
  The reference engine as a state machine: an engine is constructed, then any interleaving of its
  public operations and of the router's private seam is applied, whether they return or raise.  The
  invariant of \<open>Engine_Refinement\<close> holds in every reachable state.  The second half describes
  snapshots: they enumerate the view, and two engines with equal snapshots behave alike.
\<close>

section \<open>Reachable engines\<close>

definition config_ok :: "matching_config option \<Rightarrow> bool" where
  "config_ok config \<longleftrightarrow> (case config of None \<Rightarrow> True | Some c \<Rightarrow> matching_config_ok c)"

definition engine_init :: "engine \<Rightarrow> bool" where
  "engine_init s \<longleftrightarrow> (\<exists>iid config first check.
     config_ok config \<and> ReferenceEngine iid config first check = Inr s)"

inductive engine_step :: "engine \<Rightarrow> engine \<Rightarrow> bool" where
  execute: "engine_step s (snd (execute cmd s))"
| execute_at: "engine_step s (snd (execute_at_sequence cmd n s))"
| read_top: "engine_step s (snd (top s))"
| take_snapshot: "engine_step s (snd (snapshot s))"
| check: "engine_step s (snd (invariant_errors s))"

inductive_cases engine_stepE: "engine_step s s'"

abbreviation reachable_engine :: "engine \<Rightarrow> bool" where
  "reachable_engine \<equiv> reachable_from engine_init engine_step"

lemma top_inv: "engine_inv s \<Longrightarrow> engine_inv (snd (top s))"
  using top_spec [of s] engine_inv_heap_only [of s] by (fastforce simp: engine_inv_def core_inv_def)

section \<open>Snapshots\<close>

lemma ordered_prices_spec:
  assumes "rep_ok s"
  shows "ordered_prices (levels_of sd s) (index_descending sd) = best_first sd (side_prices sd s)"
proof (rule best_first_eq)
  have d: "dict_ok (levels_of sd s)" using caches_okD(1) [OF rep_okD(1) [OF assms]] .
  then show "distinct (ordered_prices (levels_of sd s) (index_descending sd))"
    by (simp add: ordered_prices_def)
  show "set (ordered_prices (levels_of sd s) (index_descending sd)) = side_prices sd s"
    using set_keys_dom [of "levels_of sd s"] by (simp add: ordered_prices_def side_prices_def)
  show "sorted (map (price_key sd) (ordered_prices (levels_of sd s) (index_descending sd)))"
    by (cases sd) (auto simp: ordered_prices_def price_key_def [abs_def] index_descending_def
        sorted_map rev_map sorted_wrt_rev intro!: sorted_wrt_mono_rel [OF _ sorted_sort])
qed

definition view_levels :: "side \<Rightarrow> engine \<Rightarrow> price_level_snapshot list" where
  "view_levels sd s = map (\<lambda>p. level_snapshot s p (queue_at sd s p)) (best_first sd (side_prices sd s))"

lemma snapshot_levels_spec:
  assumes "rep_ok s"
  shows "snapshot_levels s (levels_of sd s) (index_descending sd) = Inr (view_levels sd s)"
  unfolding snapshot_levels_def ordered_prices_spec [OF assms] view_levels_def
proof (rule mapR_Inr, rule ballI)
  fix p assume "p \<in> set (best_first sd (side_prices sd s))"
  then have "p \<in> side_prices sd s" by simp
  then show "bindR (dict_getitem (levels_of sd s) p) (\<lambda>queue. Inr (level_snapshot s p queue)) =
      Inr (level_snapshot s p (queue_at sd s p))"
    by (auto simp: side_prices_def dict_getitem_def)
qed

definition snapshot_of :: "engine \<Rightarrow> book_snapshot" where
  "snapshot_of s =
     \<lparr>bs_semantics_version = ATLASLOB_SEMANTICS_VERSION,
      bs_instrument_id = eng_instrument_id s, bs_last_sequence = eng_last_sequence s,
      bs_sequence_exhausted = eng_sequence_exhausted s,
      bs_active_order_count = int (length (flat BUY s) + length (flat SELL s)),
      bs_bids = view_levels BUY s, bs_asks = view_levels SELL s\<rparr>"

lemma view_levels_heap_only: "heap_only s s' \<Longrightarrow> view_levels sd s' = view_levels sd s"
  using heap_only_fields [of s s']
  by (simp add: view_levels_def level_snapshot_def queue_at_def)

lemma snapshot_spec:
  assumes "engine_inv s"
  shows "\<exists>s'. snapshot s = (Inr (snapshot_of s), s') \<and> heap_only s s' \<and> engine_inv s'"
proof -
  from assert_invariants_clean [OF assms] obtain s' where
    s': "assert_invariants s = (Inr (), s')" "heap_only s s'" "engine_inv s'" by blast
  note f = heap_only_fields [OF s'(2)]
  have "\<not> eng_poisoned s" using assms by (simp add: engine_inv_def core_inv_def)
  moreover have "snapshot_levels s' (levels_of BUY s') True = Inr (view_levels BUY s)"
    "snapshot_levels s' (levels_of SELL s') False = Inr (view_levels SELL s)"
    using snapshot_levels_spec [OF f(1), of BUY] snapshot_levels_spec [OF f(1), of SELL]
      view_levels_heap_only [OF s'(2)] by (simp_all add: index_descending_def)
  ultimately have "snapshot s = (Inr (snapshot_of s), s')"
    using s'(1) static_of_eqD [OF f(2)] order_count [OF f(1)] f(7)
    by (simp add: snapshot_def ensure_usable_def seqP_def bindP_def getsP_def snapshot_of_def)
  with s' show ?thesis by blast
qed

interpretation engine_system: invariant_system engine_init engine_step engine_inv
proof (unfold_locales, goal_cases)
  case (1 s)
  then show ?case using ReferenceEngine_inv by (fastforce simp: engine_init_def config_ok_def)
next
  case (2 s s')
  from 2(2) show ?case
    using execute_inv [OF 2(1)] execute_at_sequence_inv [OF 2(1)] top_inv [OF 2(1)]
      snapshot_spec [OF 2(1)] invariant_errors_clean [OF 2(1)] engine_inv_heap_only [OF 2(1)]
    by (elim engine_stepE) auto
qed

lemmas reachable_engine_inv = engine_system.reachable_inv

text \<open>The levels of a snapshot enumerate the view.\<close>

lemma order_snapshot_of_inj: "order_snapshot_of x = order_snapshot_of y \<longleftrightarrow> x = y"
  by (auto simp: order_snapshot_of_def intro: order.equality)

lemma view_levels_orders: "concat (map pls_orders (view_levels sd s)) = map order_snapshot_of (flat sd s)"
  by (simp add: view_levels_def level_snapshot_def flat_def level_orders_def [abs_def] map_concat comp_def)

lemma view_levels_sorted: "sorted (map (price_key sd \<circ> pls_price) (view_levels sd s))"
  and view_levels_distinct: "distinct (map pls_price (view_levels sd s))"
  using sorted_best_first [of sd "side_prices sd s"]
  by (simp_all add: view_levels_def level_snapshot_def comp_def)

lemma view_levels_strict: "sorted_wrt (<) (map (price_key sd \<circ> pls_price) (view_levels sd s))"
proof -
  have "distinct (map (price_key sd) (map pls_price (view_levels sd s)))"
    using view_levels_distinct [of sd s] by (simp add: distinct_map inj_on_def price_key_def)
  with view_levels_sorted [of sd s] show ?thesis by (simp add: strict_sorted_iff)
qed

lemma view_levels_level:
  assumes "rep_ok s" and "tight_except {} s" and "l \<in> set (view_levels sd s)"
  shows "pls_orders l \<noteq> []" and "\<forall>x \<in> set (pls_orders l). os_price x = pls_price l \<and> os_side x = sd"
    and "pls_aggregate_quantity l = level_quantity (flat sd s) (pls_price l)"
proof -
  from assms(3) obtain p where p: "p \<in> side_prices sd s" "l = level_snapshot s p (queue_at sd s p)"
    by (auto simp: view_levels_def)
  then obtain q where q: "map_of (levels_of sd s) p = Some q" by (auto simp: side_prices_def)
  then have "q \<noteq> []" using assms(2) by (auto simp: tight_except_def)
  then show "pls_orders l \<noteq> []" using q p by (simp add: level_snapshot_def)
  show "\<forall>x \<in> set (pls_orders l). os_price x = pls_price l \<and> os_side x = sd"
    using queues_okD(2) [OF assms(1) q] q p
    by (auto simp: level_snapshot_def order_snapshot_of_def located_def)
  show "pls_aggregate_quantity l = level_quantity (flat sd s) (pls_price l)"
    using q p by (simp add: flat_level_quantity [OF assms(1)] level_orders_def level_snapshot_def total_quantity_def)
qed

lemma snapshot_determines_view:
  assumes "snapshot_of s = snapshot_of t"
  shows "view_of s = view_of t"
proof -
  have "view_levels sd s = view_levels sd t" for sd
    using assms by (cases sd) (simp_all add: snapshot_of_def)
  then have "map order_snapshot_of (flat sd s) = map order_snapshot_of (flat sd t)" for sd
    using view_levels_orders by metis
  moreover have "inj order_snapshot_of" by (simp add: inj_def order_snapshot_of_inj)
  ultimately show ?thesis by (simp add: view_of_def inj_map_eq_map fun_eq_iff)
qed

section \<open>Observational equivalence\<close>

text \<open>Engines that agree on configuration, sequence state and view.\<close>

definition equivalent :: "engine \<Rightarrow> engine \<Rightarrow> bool" where
  "equivalent s t \<longleftrightarrow> engine_inv s \<and> engine_inv t \<and> eng_config s = eng_config t \<and>
     eng_instrument_id s = eng_instrument_id t \<and> eng_next_sequence s = eng_next_sequence t \<and>
     eng_last_sequence s = eng_last_sequence t \<and>
     eng_sequence_exhausted s = eng_sequence_exhausted t \<and> view_of s = view_of t"

lemma equivalentI:
  assumes "engine_inv s" and "engine_inv t" and "eng_config s = eng_config t"
    and "snapshot_of s = snapshot_of t"
  shows "equivalent s t"
proof -
  have e: "eng_instrument_id s = eng_instrument_id t" "eng_last_sequence s = eng_last_sequence t"
    "eng_sequence_exhausted s = eng_sequence_exhausted t"
    using assms(4) by (simp_all add: snapshot_of_def)
  moreover have "eng_next_sequence s = eng_next_sequence t"
    using assms(1,2) e by (auto simp: engine_inv_def sequence_ok_def split: if_splits)
  ultimately show ?thesis
    using assms snapshot_determines_view [OF assms(4)] by (simp add: equivalent_def)
qed

lemma equivalent_execute:
  assumes "equivalent s t"
  shows "fst (execute cmd s) = fst (execute cmd t) \<and>
    equivalent (snd (execute cmd s)) (snd (execute cmd t))"
proof -
  have inv: "engine_inv s" "engine_inv t" and eq: "eng_config s = eng_config t"
    "eng_instrument_id s = eng_instrument_id t" "eng_next_sequence s = eng_next_sequence t"
    "eng_sequence_exhausted s = eng_sequence_exhausted t" "view_of s = view_of t"
    using assms by (simp_all add: equivalent_def)
  consider (bad) e where "require_representable cmd = Inl e"
    | (over) "require_representable cmd = Inr ()" "eng_sequence_exhausted s"
    | (run) "require_representable cmd = Inr ()" "\<not> eng_sequence_exhausted s"
    by (cases "require_representable cmd") auto
  then show ?thesis
  proof cases
    case bad
    then show ?thesis using execute_unrepresentable [OF inv(1) bad] execute_unrepresentable [OF inv(2) bad] assms by simp
  next
    case over
    then show ?thesis using execute_exhausted [OF inv(1)] execute_exhausted [OF inv(2)] eq assms by simp
  next
    case run
    let ?n = "eng_next_sequence s"
    obtain es v where spec: "spec_step (eng_config s) (eng_instrument_id s) cmd ?n (view_of s) = (es, v)"
      by (metis prod.exhaust)
    obtain s' where s': "execute cmd s = (Inr (accepted_result es), s')" "engine_inv s'"
      "static_of s' = static_of (observe_sequence ?n s)" "view_of s' = v"
      using execute_refines [OF inv(1) run spec] by blast
    obtain t' where t': "execute cmd t = (Inr (accepted_result es), t')" "engine_inv t'"
      "static_of t' = static_of (observe_sequence ?n t)" "view_of t' = v"
      using execute_refines [OF inv(2), of cmd es v] run spec eq by auto
    have "eng_next_sequence (observe_sequence ?n s) = eng_next_sequence (observe_sequence ?n t)"
      "eng_sequence_exhausted (observe_sequence ?n s) = eng_sequence_exhausted (observe_sequence ?n t)"
      using eq by (simp_all add: observe_sequence_def Let_def)
    with s' t' static_of_eqD [OF s'(3)] static_of_eqD [OF t'(3)] eq show ?thesis
      by (simp add: equivalent_def)
  qed
qed

end
