(* ===== verification/Router.thy ===== *)
theory Router
  imports Engine_Machine
begin

text \<open>
  The multi-instrument coordinator of \<open>python/src/atlaslob/router.py\<close>: \<open>ReferenceRouter\<close> owns one
  \<open>ReferenceEngine\<close> per configured instrument, the global sequence, the directory of active order
  identities and the engine-wide capacity.  The books are the engines of \<open>Reference_Engine\<close>; a method
  called on a book runs on the book stored under its instrument.
\<close>

section \<open>State\<close>

record active_identity =
  aid_instrument_id :: int
  aid_client_id :: int

record router =
  rtr_catalog :: "instrument_config list"
  rtr_config :: multi_instrument_engine_config
  rtr_books :: "(int, engine) dict"
  rtr_active :: "(int, active_identity) dict"
  rtr_next_sequence :: int
  rtr_last_sequence :: int
  rtr_sequence_exhausted :: bool
  rtr_poisoned :: bool
  rtr_check_invariants :: bool

text \<open>Run a method of the book stored under an instrument; the book is mutated in place.\<close>

definition on_book :: "int \<Rightarrow> (engine, 'a) prog \<Rightarrow> (router, 'a) prog" where
  "on_book iid m = (\<lambda>r.
     case map_of (rtr_books r) iid of
       None \<Rightarrow> (Inl KeyError, r)
     | Some book \<Rightarrow>
         (case m book of
            (x, book') \<Rightarrow> (x, r\<lparr>rtr_books := dict_setitem iid book' (rtr_books r)\<rparr>)))"

section \<open>Usability, sequencing and observers\<close>

definition router_ensure_usable :: "(router, unit) prog" where
  "router_ensure_usable = (\<lambda>r. if rtr_poisoned r then (Inl RuntimeError, r) else (Inr (), r))"

definition router_issue_sequence :: "(router, int option) prog" where
  "router_issue_sequence = (\<lambda>r.
     if rtr_sequence_exhausted r then (Inr None, r)
     else
       let sequence = rtr_next_sequence r; r1 = r\<lparr>rtr_last_sequence := sequence\<rparr> in
       if sequence = U64_MAX
       then (Inr (Some sequence), r1\<lparr>rtr_next_sequence := 0, rtr_sequence_exhausted := True\<rparr>)
       else (Inr (Some sequence), r1\<lparr>rtr_next_sequence := sequence + 1\<rparr>))"

definition router_catalog :: "(router, instrument_config list) prog" where
  "router_catalog = seqP router_ensure_usable (getsP rtr_catalog)"

definition router_active_order_count :: "(router, int) prog" where
  "router_active_order_count = seqP router_ensure_usable (getsP (\<lambda>r. int (length (rtr_active r))))"

definition router_empty :: "(router, bool) prog" where
  "router_empty = seqP router_ensure_usable (getsP (\<lambda>r. rtr_active r = []))"

definition router_next_sequence :: "(router, int) prog" where
  "router_next_sequence = seqP router_ensure_usable (getsP rtr_next_sequence)"

definition router_sequence_exhausted :: "(router, bool) prog" where
  "router_sequence_exhausted = seqP router_ensure_usable (getsP rtr_sequence_exhausted)"

definition contains_instrument :: "int \<Rightarrow> (router, bool) prog" where
  "contains_instrument iid =
     seqP router_ensure_usable (getsP (\<lambda>r. map_of (rtr_books r) iid \<noteq> None))"

definition router_top :: "int \<Rightarrow> (router, book_top option) prog" where
  "router_top iid =
     seqP router_ensure_usable
    (bindP (getsP (\<lambda>r. map_of (rtr_books r) iid)) (\<lambda>book.
     case book of
       None \<Rightarrow> ret None
     | Some _ \<Rightarrow> bindP (on_book iid top) (\<lambda>t. ret (Some t))))"

section \<open>The runtime invariant checker\<close>

text \<open>One constructor per message of \<open>invariant_errors\<close>.\<close>

datatype router_error =
  RouterPoisoned | GlobalExhaustedInconsistent | GlobalNextRange | GlobalLastNextInconsistent
| CatalogUnsorted | CatalogDuplicate | BooksDiffer | BookError int invariant_error
| ConfigDiffers int | AheadOfGlobal int | GloballyDuplicated int | GlobalPriorityReused int
| GlobalPriorityInvalid int | DirectoryDiffers | TotalCapacityExceeded

record router_scan =
  rs_expected :: "(int, active_identity) dict"
  rs_priorities :: "int set"
  rs_errors :: "router_error list"

definition rflag :: "bool \<Rightarrow> router_error \<Rightarrow> router_scan \<Rightarrow> router_scan" where
  "rflag b e sc = (if b then sc\<lparr>rs_errors := rs_errors sc @ [e]\<rparr> else sc)"

definition identity_of :: "order \<Rightarrow> active_identity" where
  "identity_of ord = \<lparr>aid_instrument_id = ord_instrument_id ord, aid_client_id = ord_client_id ord\<rparr>"

text \<open>The body of \<open>for order in book._orders.values()\<close>.\<close>

definition check_routed_order :: "int \<Rightarrow> order \<Rightarrow> router_scan \<Rightarrow> router_scan" where
  "check_routed_order last_sequence ord sc =
     (let oid = ord_order_id ord; pr = ord_priority_sequence ord;
          sc1 = (if map_of (rs_expected sc) oid \<noteq> None then rflag True (GloballyDuplicated oid) sc
                 else sc\<lparr>rs_expected := dict_setitem oid (identity_of ord) (rs_expected sc)\<rparr>);
          sc2 = rflag (pr \<in> rs_priorities sc1) (GlobalPriorityReused pr) sc1;
          sc3 = sc2\<lparr>rs_priorities := insert pr (rs_priorities sc2)\<rparr>
      in rflag (\<not> (1 \<le> pr \<and> pr \<le> last_sequence)) (GlobalPriorityInvalid oid) sc3)"

definition check_book ::
  "instrument_config \<Rightarrow> int \<Rightarrow> router_scan \<Rightarrow> (engine, router_scan) prog" where
  "check_book entry last_sequence sc =
     (let iid = ic_instrument_id entry in
      bindP invariant_errors (\<lambda>errors.
      getsP (\<lambda>book.
        let sc1 = sc\<lparr>rs_errors := rs_errors sc @ map (BookError iid) errors\<rparr>;
            sc2 = rflag (eng_config book \<noteq> ic_matching entry) (ConfigDiffers iid) sc1;
            sc3 = rflag (last_sequence < eng_last_sequence book) (AheadOfGlobal iid) sc2
        in fold (check_routed_order last_sequence) (map (deref book \<circ> snd) (eng_orders book)) sc3)))"

fun check_books :: "instrument_config list \<Rightarrow> router_scan \<Rightarrow> (router, router_scan) prog" where
  "check_books [] sc = ret sc"
| "check_books (entry # entries) sc =
     bindP (getsP (\<lambda>r. (map_of (rtr_books r) (ic_instrument_id entry), rtr_last_sequence r)))
      (\<lambda>(book, last_sequence).
     case book of
       None \<Rightarrow> check_books entries sc
     | Some _ \<Rightarrow>
         bindP (on_book (ic_instrument_id entry) (check_book entry last_sequence sc))
          (check_books entries))"

definition check_router_sequence :: "router \<Rightarrow> router_scan \<Rightarrow> router_scan" where
  "check_router_sequence r sc =
     (if rtr_sequence_exhausted r
      then rflag (rtr_next_sequence r \<noteq> 0 \<or> rtr_last_sequence r \<noteq> U64_MAX)
             GlobalExhaustedInconsistent sc
      else if \<not> (1 \<le> rtr_next_sequence r \<and> rtr_next_sequence r \<le> U64_MAX)
      then rflag True GlobalNextRange sc
      else rflag (rtr_last_sequence r \<noteq> rtr_next_sequence r - 1) GlobalLastNextInconsistent sc)"

definition check_catalog :: "router \<Rightarrow> router_scan \<Rightarrow> router_scan" where
  "check_catalog r sc =
     (let catalog_ids = map ic_instrument_id (rtr_catalog r) in
      rflag (set catalog_ids \<noteq> set (map fst (rtr_books r))) BooksDiffer
       (rflag (length catalog_ids \<noteq> card (set catalog_ids)) CatalogDuplicate
         (rflag (catalog_ids \<noteq> sort catalog_ids) CatalogUnsorted sc)))"

text \<open>Dictionary equality ignores insertion order.\<close>

definition router_invariant_errors :: "(router, router_error list) prog" where
  "router_invariant_errors =
     bindP (getsP (\<lambda>r. check_catalog r (check_router_sequence r
       (rflag (rtr_poisoned r) RouterPoisoned
         \<lparr>rs_expected = [], rs_priorities = {}, rs_errors = []\<rparr>)))) (\<lambda>sc0.
     bindP (getsP rtr_catalog) (\<lambda>catalog.
     bindP (check_books catalog sc0) (\<lambda>sc1.
     getsP (\<lambda>r. rs_errors
       (rflag (max_total_active_orders (rtr_config r) < int (length (rtr_active r)))
          TotalCapacityExceeded
         (rflag (set (rs_expected sc1) \<noteq> set (rtr_active r)) DirectoryDiffers sc1))))))"

definition router_validate_invariants :: "(router, bool) prog" where
  "router_validate_invariants = bindP router_invariant_errors (\<lambda>errors. ret (errors = []))"

definition router_assert_invariants :: "(router, unit) prog" where
  "router_assert_invariants =
     bindP router_invariant_errors (\<lambda>errors. if errors \<noteq> [] then raise RuntimeError else ret ())"

section \<open>Validation\<close>

fun router_shape_rejection :: "command \<Rightarrow> rejection option" where
  "router_shape_rejection (NewOrder cmd) =
     (let reason = validate_new_shape cmd in
      if reason = NONE then None
      else Some \<lparr>rej_reason = reason, rej_order_id = relevant (new_order_id cmd)\<rparr>)"
| "router_shape_rejection (CancelOrder cmd) =
     (let reason = validate_cancel_shape cmd in
      if reason = NONE then None
      else Some \<lparr>rej_reason = reason, rej_order_id = relevant (cancel_order_id cmd)\<rparr>)"
| "router_shape_rejection (ReplaceOrder cmd) =
     (let reason = validate_replace_shape cmd in
      if reason = NONE then None
      else
        let relevant_id =
          (if reason = INVALID_ORDER_ID \<and> rep_old_order_id cmd \<noteq> 0 then rep_new_order_id cmd
           else if reason \<in> {INVALID_REPLACEMENT_ID, INVALID_QUANTITY, INVALID_PRICE}
           then rep_new_order_id cmd
           else rep_old_order_id cmd)
        in Some \<lparr>rej_reason = reason, rej_order_id = relevant relevant_id\<rparr>)"

definition router_validate_new :: "engine \<Rightarrow> new_order \<Rightarrow> router \<Rightarrow> rejection option" where
  "router_validate_new book cmd r =
     (let oid = new_order_id cmd; rejected = (\<lambda>reason. Some \<lparr>rej_reason = reason, rej_order_id = Some oid\<rparr>) in
      if max_order_quantity (eng_config book) < new_quantity cmd then rejected QUANTITY_OUT_OF_RANGE
      else if new_order_type cmd = order_type_value LIMIT \<and>
              (case new_limit_price cmd of None \<Rightarrow> False
               | Some p \<Rightarrow> p mod tick_increment (eng_config book) \<noteq> 0)
      then rejected INVALID_TICK
      else if map_of (rtr_active r) oid \<noteq> None then rejected DUPLICATE_ORDER_ID
      else None)"

definition router_validate_cancel :: "cancel_order \<Rightarrow> router \<Rightarrow> rejection option" where
  "router_validate_cancel cmd r =
     (let oid = cancel_order_id cmd; rejected = (\<lambda>reason. Some \<lparr>rej_reason = reason, rej_order_id = Some oid\<rparr>) in
      case map_of (rtr_active r) oid of
        None \<Rightarrow> rejected UNKNOWN_ORDER_ID
      | Some existing \<Rightarrow>
          if aid_client_id existing \<noteq> cancel_client_id cmd then rejected OWNERSHIP_MISMATCH
          else if aid_instrument_id existing \<noteq> cancel_instrument_id cmd then rejected INSTRUMENT_MISMATCH
          else None)"

text \<open>The pair \<open>(rejection, old)\<close>; the old order is the reference the book holds.\<close>

definition router_validate_replace ::
  "engine \<Rightarrow> replace_order \<Rightarrow> router \<Rightarrow> (rejection option \<times> order_ref option) result" where
  "router_validate_replace book cmd r =
     (let old_id = rep_old_order_id cmd; new_id = rep_new_order_id cmd;
          rejected = (\<lambda>reason oid. Inr (Some \<lparr>rej_reason = reason, rej_order_id = Some oid\<rparr>, None)) in
      if max_order_quantity (eng_config book) < rep_new_quantity cmd
      then rejected QUANTITY_OUT_OF_RANGE new_id
      else if rep_new_limit_price cmd mod tick_increment (eng_config book) \<noteq> 0
      then rejected INVALID_TICK new_id
      else case map_of (rtr_active r) old_id of
        None \<Rightarrow> rejected UNKNOWN_ORDER_ID old_id
      | Some identity \<Rightarrow>
          if aid_client_id identity \<noteq> rep_client_id cmd then rejected OWNERSHIP_MISMATCH old_id
          else if aid_instrument_id identity \<noteq> rep_instrument_id cmd
          then rejected INSTRUMENT_MISMATCH old_id
          else if map_of (rtr_active r) new_id \<noteq> None then rejected INVALID_REPLACEMENT_ID new_id
          else case map_of (eng_orders book) old_id of
            None \<Rightarrow> Inl RuntimeError
          | Some old \<Rightarrow> Inr (None, Some old))"

definition router_reject :: "int \<Rightarrow> command \<Rightarrow> rejection \<Rightarrow> reference_result result" where
  "router_reject sequence cmd rj =
     batch_result [RejectedEvent
       \<lparr>command_sequence = sequence, event_index = 0, hdr_instrument_id = command_instrument_id cmd\<rparr>
       (command_type_of cmd) (rej_reason rj) (rej_order_id rj)]"

definition router_capacity_allows :: "int \<Rightarrow> new_order \<Rightarrow> order_ref option \<Rightarrow> (router, bool) prog" where
  "router_capacity_allows iid replacement removes_old =
     bindP (on_book iid (capacity_allows replacement removes_old)) (\<lambda>allowed.
     if \<not> allowed then ret False
     else
       bindP (on_book iid (project_fills replacement)) (\<lambda>projection.
       getsP (\<lambda>r.
         let final_count = int (length (rtr_active r)) - proj_terminal_passive_count projection
               - (if removes_old \<noteq> None then 1 else 0);
             final_count1 =
               (if residual_rests replacement (proj_remaining_quantity projection)
                then final_count + 1 else final_count)
         in final_count1 \<le> max_total_active_orders (rtr_config r))))"

section \<open>Delegation\<close>

definition drop_active :: "int \<Rightarrow> (router, unit) prog" where
  "drop_active oid =
     bindP (getsP rtr_active) (\<lambda>active.
     bindP (liftP (dict_delitem oid active)) (\<lambda>active'.
     modifyP (\<lambda>r. r\<lparr>rtr_active := active'\<rparr>)))"

text \<open>The body of \<open>for event in batch.events\<close>.\<close>

definition apply_event :: "event \<Rightarrow> (router, unit) prog" where
  "apply_event event =
     (case event of
        TradeEvent h b \<Rightarrow> if resting_remaining b = 0 then drop_active (resting_order_id b) else ret ()
      | CanceledEvent h oid n \<Rightarrow> drop_active oid
      | RestedEvent h b \<Rightarrow>
          bindP (getsP rtr_active) (\<lambda>active.
          if map_of active (rested_order_id b) \<noteq> None then raise RuntimeError
          else modifyP (\<lambda>r. r\<lparr>rtr_active := dict_setitem (rested_order_id b)
                 \<lparr>aid_instrument_id = hdr_instrument_id h, aid_client_id = rested_client_id b\<rparr> active\<rparr>))
      | _ \<Rightarrow> ret ())"

fun apply_events :: "event list \<Rightarrow> (router, unit) prog" where
  "apply_events [] = ret ()"
| "apply_events (event # events) = seqP (apply_event event) (apply_events events)"

definition delegate :: "int \<Rightarrow> command \<Rightarrow> int \<Rightarrow> (router, reference_result) prog" where
  "delegate iid cmd sequence =
     bindP (on_book iid (execute_at_sequence cmd sequence)) (\<lambda>result.
     if \<not> result_committed result then raise RuntimeError
     else case result_batch result of
       None \<Rightarrow> raise RuntimeError
     | Some b \<Rightarrow> seqP (apply_events (batch_events b)) (ret result))"

fun relevant_order_id :: "command \<Rightarrow> int" where
  "relevant_order_id (NewOrder cmd) = new_order_id cmd"
| "relevant_order_id (CancelOrder cmd) = cancel_order_id cmd"
| "relevant_order_id (ReplaceOrder cmd) = rep_old_order_id cmd"

text \<open>The three branches of \<open>_execute_sequenced\<close>: the rejection, or none when the command is routed.\<close>

definition prevalidate_new :: "engine \<Rightarrow> new_order \<Rightarrow> (router, rejection option) prog" where
  "prevalidate_new book cmd =
     bindP (getsP (router_validate_new book cmd)) (\<lambda>rejection.
     case rejection of
       Some rj \<Rightarrow> ret (Some rj)
     | None \<Rightarrow>
         bindP (router_capacity_allows (new_instrument_id cmd) cmd None) (\<lambda>allowed.
         ret (if allowed then None
              else Some \<lparr>rej_reason = CAPACITY_EXCEEDED, rej_order_id = Some (new_order_id cmd)\<rparr>)))"

definition prevalidate_replace :: "engine \<Rightarrow> replace_order \<Rightarrow> (router, rejection option) prog" where
  "prevalidate_replace book cmd =
     bindP (getsP (router_validate_replace book cmd)) (\<lambda>validated.
     bindP (liftP validated) (\<lambda>(rejection, old).
     case rejection of
       Some rj \<Rightarrow> ret (Some rj)
     | None \<Rightarrow>
        (case old of
           None \<Rightarrow> raise RuntimeError
         | Some ref \<Rightarrow>
             bindP (router_capacity_allows (rep_instrument_id cmd)
                     (replacement_order cmd (deref book ref)) (Some ref)) (\<lambda>allowed.
             ret (if allowed then None
                  else Some \<lparr>rej_reason = CAPACITY_EXCEEDED, rej_order_id = Some (rep_new_order_id cmd)\<rparr>)))))"

definition prevalidate :: "engine \<Rightarrow> command \<Rightarrow> (router, rejection option) prog" where
  "prevalidate book cmd =
     (case cmd of
        NewOrder c \<Rightarrow> prevalidate_new book c
      | CancelOrder c \<Rightarrow> getsP (router_validate_cancel c)
      | ReplaceOrder c \<Rightarrow> prevalidate_replace book c)"

definition execute_sequenced :: "command \<Rightarrow> int \<Rightarrow> (router, reference_result) prog" where
  "execute_sequenced cmd sequence =
     (case router_shape_rejection cmd of
        Some rj \<Rightarrow> liftP (router_reject sequence cmd rj)
      | None \<Rightarrow>
          bindP (getsP (\<lambda>r. map_of (rtr_books r) (command_instrument_id cmd))) (\<lambda>book.
          case book of
            None \<Rightarrow>
              liftP (router_reject sequence cmd
                \<lparr>rej_reason = UNKNOWN_INSTRUMENT, rej_order_id = Some (relevant_order_id cmd)\<rparr>)
          | Some book \<Rightarrow>
              bindP (prevalidate book cmd) (\<lambda>rejection.
              case rejection of
                Some rj \<Rightarrow> liftP (router_reject sequence cmd rj)
              | None \<Rightarrow> delegate (command_instrument_id cmd) cmd sequence)))"

section \<open>The public operations\<close>

definition router_poison :: "router \<Rightarrow> router" where
  "router_poison r = r\<lparr>rtr_poisoned := True\<rparr>"

definition router_execute :: "command \<Rightarrow> (router, reference_result) prog" where
  "router_execute cmd =
     seqP router_ensure_usable
    (seqP (liftP (require_representable cmd))
    (bindP router_issue_sequence (\<lambda>sequence.
     case sequence of
       None \<Rightarrow> liftP (ReferenceResult None (Some SEQUENCE_EXHAUSTED))
     | Some n \<Rightarrow>
         on_raise router_poison
          (bindP (execute_sequenced cmd n) (\<lambda>result.
           bindP (getsP rtr_check_invariants) (\<lambda>check.
           seqP (if check then router_assert_invariants else ret ()) (ret result)))))))"

definition instrument_snapshot_of :: "int \<Rightarrow> (router, instrument_snapshot) prog" where
  "instrument_snapshot_of iid =
     bindP (on_book iid snapshot) (\<lambda>snap.
     ret \<lparr>is_instrument_id = bs_instrument_id snap, is_active_order_count = bs_active_order_count snap,
          is_bids = bs_bids snap, is_asks = bs_asks snap\<rparr>)"

fun instrument_snapshots :: "instrument_config list \<Rightarrow> (router, instrument_snapshot list) prog" where
  "instrument_snapshots [] = ret []"
| "instrument_snapshots (entry # entries) =
     bindP (instrument_snapshot_of (ic_instrument_id entry)) (\<lambda>snap.
     bindP (instrument_snapshots entries) (\<lambda>snaps. ret (snap # snaps)))"

definition router_snapshot :: "(router, engine_snapshot) prog" where
  "router_snapshot =
     seqP router_ensure_usable
    (seqP router_assert_invariants
    (bindP (getsP rtr_catalog) (\<lambda>catalog.
     bindP (instrument_snapshots catalog) (\<lambda>instruments.
     getsP (\<lambda>r. \<lparr>es_semantics_version = ATLASLOB_SEMANTICS_VERSION,
        es_engine_config = rtr_config r, es_catalog = catalog,
        es_last_sequence = rtr_last_sequence r, es_sequence_exhausted = rtr_sequence_exhausted r,
        es_active_order_count = int (length (rtr_active r)), es_instruments = instruments\<rparr>)))))"

definition router_instrument_snapshot :: "int \<Rightarrow> (router, instrument_snapshot option) prog" where
  "router_instrument_snapshot iid =
     seqP router_ensure_usable
    (seqP router_assert_invariants
    (bindP (getsP (\<lambda>r. map_of (rtr_books r) iid)) (\<lambda>book.
     case book of
       None \<Rightarrow> ret None
     | Some _ \<Rightarrow> bindP (instrument_snapshot_of iid) (\<lambda>snap. ret (Some snap)))))"

definition default_router_config :: multi_instrument_engine_config where
  "default_router_config = \<lparr>max_total_active_orders = U64_MAX\<rparr>"

definition routed_book :: "bool \<Rightarrow> instrument_config \<Rightarrow> (int \<times> engine) result" where
  "routed_book check entry =
     bindR (ReferenceEngine (ic_instrument_id entry) (Some (ic_matching entry)) 1 check) (\<lambda>book.
     Inr (ic_instrument_id entry, book))"

definition ReferenceRouter ::
  "instrument_config list \<Rightarrow> multi_instrument_engine_config option \<Rightarrow> int \<Rightarrow> bool \<Rightarrow> router result" where
  "ReferenceRouter catalog config first_sequence check =
     (let instrument_ids = map ic_instrument_id catalog;
          ordered = sort_key ic_instrument_id catalog in
      if catalog = [] then Inl ValueError
      else if length instrument_ids \<noteq> card (set instrument_ids) then Inl ValueError
      else if \<not> (1 \<le> first_sequence \<and> first_sequence \<le> U64_MAX) then Inl ValueError
      else
        bindR (mapR (routed_book check) ordered) (\<lambda>books.
        fst (bindP router_assert_invariants (\<lambda>_. getsP (\<lambda>r. r))
          \<lparr>rtr_catalog = ordered,
           rtr_config = (case config of None \<Rightarrow> default_router_config | Some c \<Rightarrow> c),
           rtr_books = books, rtr_active = [], rtr_next_sequence = first_sequence,
           rtr_last_sequence = first_sequence - 1, rtr_sequence_exhausted = False,
           rtr_poisoned = False, rtr_check_invariants = check\<rparr>)))"

end
