(* ===== verification/Canonical.thy ===== *)
theory Canonical
  imports Router "HOL-Library.Word"
begin

text \<open>
  The canonical byte encodings of \<open>python/src/atlaslob/canonical.py\<close>: big-endian fixed-width integers,
  book states, multi-instrument states and event batches.  A byte is an 8-bit word.  The encoders are
  shown to be prefix codes, so that every stream determines the value it encodes; the locale
  \<open>prefix_code\<close> states what a field, a list and a record of fields need for that.
\<close>

type_synonym bytes = "8 word list"

section \<open>Fixed-width integers\<close>

text \<open>\<open>struct.pack(">B")\<close> and its wider forms: \<open>n\<close> bytes, most significant first.\<close>

fun pack_be :: "nat \<Rightarrow> int \<Rightarrow> bytes" where
  "pack_be 0 v = []"
| "pack_be (Suc n) v = pack_be n (v div 256) @ [word_of_int v]"

definition put_u8 :: "int \<Rightarrow> bytes result" where
  "put_u8 v = (if \<not> (0 \<le> v \<and> v \<le> U8_MAX) then Inl ValueError else Inr (pack_be 1 v))"

definition put_u16 :: "int \<Rightarrow> bytes result" where
  "put_u16 v = (if \<not> (0 \<le> v \<and> v \<le> U16_MAX) then Inl ValueError else Inr (pack_be 2 v))"

definition put_u32 :: "int \<Rightarrow> bytes result" where
  "put_u32 v = (if \<not> (0 \<le> v \<and> v \<le> U32_MAX) then Inl ValueError else Inr (pack_be 4 v))"

definition put_u64 :: "int \<Rightarrow> bytes result" where
  "put_u64 v = (if \<not> (0 \<le> v \<and> v \<le> U64_MAX) then Inl ValueError else Inr (pack_be 8 v))"

text \<open>\<open>value & U64_MAX\<close> is the value modulo two to the 64.\<close>

definition put_i64 :: "int \<Rightarrow> bytes result" where
  "put_i64 v = (if \<not> (I64_MIN \<le> v \<and> v \<le> I64_MAX) then Inl ValueError else put_u64 (v mod 2 ^ 64))"

text \<open>
  \<open>output += a; output += b; ...\<close>: the pieces are appended in order and the first one that raises
  raises for the whole.
\<close>

fun cat :: "bytes result list \<Rightarrow> bytes result" where
  "cat [] = Inr []"
| "cat (p # ps) = bindR p (\<lambda>x. bindR (cat ps) (\<lambda>xs. Inr (x @ xs)))"

section \<open>Book states\<close>

definition STATE_PREFIX :: bytes where
  "STATE_PREFIX = map (\<lambda>c. of_nat (of_char c)) ''ATLSST01''"

definition ENGINE_STATE_PREFIX :: bytes where
  "ENGINE_STATE_PREFIX = map (\<lambda>c. of_nat (of_char c)) ''ATLSME01''"

definition EVENT_PREFIX :: bytes where
  "EVENT_PREFIX = map (\<lambda>c. of_nat (of_char c)) ''ATLSEV01''"

definition encode_order :: "order_snapshot \<Rightarrow> bytes result" where
  "encode_order ord = cat
     [put_u64 (os_order_id ord), put_u32 (os_client_id ord), put_u32 (os_instrument_id ord),
      put_u8 (side_value (os_side ord)), put_i64 (os_price ord), put_u64 (os_remaining_quantity ord),
      put_u64 (os_priority_sequence ord)]"

definition encode_level :: "price_level_snapshot \<Rightarrow> bytes result" where
  "encode_level level = cat
     ([put_i64 (pls_price level), put_u64 (pls_aggregate_quantity level),
       put_u64 (int (length (pls_orders level)))] @ map encode_order (pls_orders level))"

definition int_of_bool :: "bool \<Rightarrow> int" where
  "int_of_bool b = (if b then 1 else 0)"

definition state_bytes :: "book_snapshot \<Rightarrow> bytes result" where
  "state_bytes snap = cat
     ([Inr STATE_PREFIX, put_u16 (bs_semantics_version snap), put_u32 (bs_instrument_id snap),
       put_u64 (bs_last_sequence snap), put_u8 (int_of_bool (bs_sequence_exhausted snap)),
       put_u64 (bs_active_order_count snap), put_u64 (int (length (bs_bids snap)))] @
      map encode_level (bs_bids snap) @ [put_u64 (int (length (bs_asks snap)))] @
      map encode_level (bs_asks snap))"

text \<open>\<open>hashlib.sha256(...).hexdigest()\<close> is the argument \<open>sha256\<close>.\<close>

definition state_digest :: "(bytes \<Rightarrow> string) \<Rightarrow> book_snapshot \<Rightarrow> string result" where
  "state_digest sha256 snap = bindR (state_bytes snap) (\<lambda>b. Inr (sha256 b))"

section \<open>Multi-instrument states\<close>

definition encode_instrument_config :: "instrument_config \<Rightarrow> bytes result" where
  "encode_instrument_config config = cat
     [put_u32 (ic_instrument_id config), put_u64 (max_order_quantity (ic_matching config)),
      put_i64 (tick_increment (ic_matching config)), put_u64 (max_active_orders (ic_matching config))]"

definition encode_instrument :: "instrument_snapshot \<Rightarrow> bytes result" where
  "encode_instrument book = cat
     ([put_u32 (is_instrument_id book), put_u64 (is_active_order_count book),
       put_u64 (int (length (is_bids book)))] @ map encode_level (is_bids book) @
      [put_u64 (int (length (is_asks book)))] @ map encode_level (is_asks book))"

definition engine_state_bytes :: "engine_snapshot \<Rightarrow> bytes result" where
  "engine_state_bytes snap =
     (let catalog_ids = map ic_instrument_id (es_catalog snap);
          instrument_ids = map is_instrument_id (es_instruments snap) in
      if catalog_ids \<noteq> sort catalog_ids \<or> length catalog_ids \<noteq> card (set catalog_ids) then Inl ValueError
      else if instrument_ids \<noteq> catalog_ids then Inl ValueError
      else if es_active_order_count snap \<noteq> sum_list (map is_active_order_count (es_instruments snap))
      then Inl ValueError
      else cat
        ([Inr ENGINE_STATE_PREFIX, put_u16 (es_semantics_version snap),
          put_u64 (max_total_active_orders (es_engine_config snap)),
          put_u64 (int (length (es_catalog snap)))] @
         map encode_instrument_config (es_catalog snap) @
         [put_u64 (es_last_sequence snap), put_u8 (int_of_bool (es_sequence_exhausted snap)),
          put_u64 (es_active_order_count snap), put_u64 (int (length (es_instruments snap)))] @
         map encode_instrument (es_instruments snap)))"

definition engine_state_digest :: "(bytes \<Rightarrow> string) \<Rightarrow> engine_snapshot \<Rightarrow> string result" where
  "engine_state_digest sha256 snap = bindR (engine_state_bytes snap) (\<lambda>b. Inr (sha256 b))"

section \<open>Event batches\<close>

definition optional_order_id :: "int option \<Rightarrow> bytes result" where
  "optional_order_id oid =
     cat [put_u8 (int_of_bool (oid \<noteq> None)), put_u64 (case oid of Some i \<Rightarrow> i | None \<Rightarrow> 0)]"

definition optional_top :: "top_of_book_level option \<Rightarrow> bytes result" where
  "optional_top level = cat
     [put_u8 (int_of_bool (level \<noteq> None)),
      put_i64 (case level of Some l \<Rightarrow> top_price l | None \<Rightarrow> 0),
      put_u64 (case level of Some l \<Rightarrow> top_aggregate_quantity l | None \<Rightarrow> 0)]"

fun encode_event_payload :: "event \<Rightarrow> bytes result" where
  "encode_event_payload (AcceptedEvent h ct) = put_u8 (command_type_value ct)"
| "encode_event_payload (RejectedEvent h ct reason oid) = cat
     [put_u8 (command_type_value ct), put_u16 (reject_reason_value reason), optional_order_id oid]"
| "encode_event_payload (TradeEvent h b) = cat
     [put_u64 (aggressor_order_id b), put_u64 (resting_order_id b), put_u32 (aggressor_client_id b),
      put_u32 (resting_client_id b), put_u8 (side_value (aggressor_side b)), put_i64 (execution_price b),
      put_u64 (execution_quantity b), put_u64 (aggressor_remaining b), put_u64 (resting_remaining b)]"
| "encode_event_payload (RestedEvent h b) = cat
     [put_u64 (rested_order_id b), put_u32 (rested_client_id b), put_u8 (side_value (rested_side b)),
      put_i64 (rested_price b), put_u64 (rested_remaining_quantity b)]"
| "encode_event_payload (CanceledEvent h oid quantity) = cat [put_u64 oid, put_u64 quantity]"
| "encode_event_payload (ReplacedEvent h old_id new_id) = cat [put_u64 old_id, put_u64 new_id]"
| "encode_event_payload (DoneEvent h oid reason remaining) = cat
     [put_u64 oid, put_u8 (done_reason_value reason), put_u64 remaining]"
| "encode_event_payload (BookChangedEvent h bid ask) = cat [optional_top bid, optional_top ask]"

definition encode_event :: "event \<Rightarrow> bytes result" where
  "encode_event event =
     (let h = event_header_of event in
      cat [put_u8 (event_type_value (event_type_of event)), put_u64 (command_sequence h),
           put_u32 (event_index h), put_u32 (hdr_instrument_id h), encode_event_payload event])"

definition event_bytes :: "event_batch \<Rightarrow> bytes result" where
  "event_bytes b = cat
     ([Inr EVENT_PREFIX, put_u16 ATLASLOB_SEMANTICS_VERSION, put_u64 (batch_command_sequence b),
       put_u32 (batch_instrument_id b), put_u64 (int (length (batch_events b)))] @
      map encode_event (batch_events b))"

definition event_digest :: "(bytes \<Rightarrow> string) \<Rightarrow> event_batch \<Rightarrow> string result" where
  "event_digest sha256 b = bindR (event_bytes b) (\<lambda>x. Inr (sha256 x))"

section \<open>The digests of live engines\<close>

definition engine_digest :: "(bytes \<Rightarrow> string) \<Rightarrow> (engine, string) prog" where
  "engine_digest sha256 = bindP snapshot (\<lambda>snap. liftP (state_digest sha256 snap))"

definition router_digest :: "(bytes \<Rightarrow> string) \<Rightarrow> (router, string) prog" where
  "router_digest sha256 = bindP router_snapshot (\<lambda>snap. liftP (engine_state_digest sha256 snap))"

section \<open>Reading integers back\<close>

definition unpack_be :: "bytes \<Rightarrow> int" where
  "unpack_be bs = foldl (\<lambda>a b. a * 256 + uint b) 0 bs"

lemma length_pack_be [simp]: "length (pack_be n v) = n"
  by (induction n arbitrary: v) simp_all

lemma unpack_pack_be: "unpack_be (pack_be n v) = v mod 256 ^ n"
proof (induction n arbitrary: v)
  case (Suc n)
  have "unpack_be (pack_be (Suc n) v) = unpack_be (pack_be n (v div 256)) * 256 + uint (word_of_int v :: 8 word)"
    by (simp add: unpack_be_def)
  also have "\<dots> = (v div 256) mod 256 ^ n * 256 + v mod 256"
    using Suc.IH [of "v div 256"] by (simp add: uint_word_of_int)
  also have "\<dots> = v mod 256 ^ Suc n" by (simp add: zmod_zmult2_eq mult.commute)
  finally show ?case .
qed (simp add: unpack_be_def)

lemma pack_be_inject:
  assumes "pack_be n v = pack_be n w" and "0 \<le> v" "v < 256 ^ n" "0 \<le> w" "w < 256 ^ n"
  shows "v = w"
  using arg_cong [OF assms(1), of unpack_be] assms(2-) by (simp add: unpack_pack_be)

section \<open>Prefix codes\<close>

definition agree :: "bytes result list \<Rightarrow> bytes result list \<Rightarrow> bytes \<Rightarrow> bytes \<Rightarrow> bool" where
  "agree ps qs s t \<longleftrightarrow> (\<exists>b c. cat ps = Inr b \<and> cat qs = Inr c \<and> b @ s = c @ t)"

lemma cat_append: "cat (ps @ qs) = bindR (cat ps) (\<lambda>x. bindR (cat qs) (\<lambda>y. Inr (x @ y)))"
proof (induction ps)
  case (Cons p ps)
  then show ?case by (cases p; cases "cat ps"; cases "cat qs") simp_all
qed (cases "cat qs"; simp)

lemma cat_nested: "cat (cat ps # qs) = cat (ps @ qs)"
  by (simp add: cat_append)

lemma agree_nested: "agree (cat ps # ps') (cat qs # qs') s t \<longleftrightarrow> agree (ps @ ps') (qs @ qs') s t"
  by (simp only: agree_def cat_nested)

lemma agree_Nil: "agree [] [] s t \<longleftrightarrow> s = t"
  by (simp add: agree_def)

lemma agree_const: "agree (Inr x # ps) (Inr x # qs) s t \<longleftrightarrow> agree ps qs s t"
  by (auto simp: agree_def bindR_Inr_iff)

lemma agreeI: "cat ps = Inr b \<Longrightarrow> cat qs = Inr c \<Longrightarrow> b @ s = c @ t \<Longrightarrow> agree ps qs s t"
  by (auto simp: agree_def)

locale prefix_code =
  fixes enc :: "'a \<Rightarrow> bytes result"
  assumes unique: "enc x = Inr b \<Longrightarrow> enc y = Inr c \<Longrightarrow> b @ s = c @ t \<Longrightarrow> x = y \<and> s = t"
begin

lemma injective: "enc x = Inr b \<Longrightarrow> enc y = Inr b \<Longrightarrow> x = y"
  using unique [of x b y b "[]" "[]"] by simp

lemma step: "agree (enc x # ps) (enc y # qs) s t \<Longrightarrow> x = y \<and> agree ps qs s t"
proof -
  assume "agree (enc x # ps) (enc y # qs) s t"
  then obtain b b' c c' where e: "enc x = Inr b" "enc y = Inr c" and r: "cat ps = Inr b'" "cat qs = Inr c'"
    and "b @ b' @ s = c @ c' @ t" by (auto simp: agree_def bindR_Inr_iff)
  from unique [OF e this(5)] r show ?thesis by (auto simp: agree_def)
qed

lemma step_last: "agree [enc x] [enc y] s t \<Longrightarrow> x = y \<and> s = t"
  using step [of x "[]" y "[]"] by (simp add: agree_Nil)

lemma step_list:
  "agree (map enc xs @ ps) (map enc ys @ qs) s t \<Longrightarrow> length xs = length ys \<Longrightarrow> xs = ys \<and> agree ps qs s t"
proof (induction xs arbitrary: ys)
  case (Cons x xs)
  then obtain y ys' where ys: "ys = y # ys'" by (cases ys) auto
  from Cons.prems step [of x "map enc xs @ ps" y "map enc ys' @ qs" s t] Cons.IH [of ys']
  show ?case by (simp add: ys)
qed simp

text \<open>A list behind its length.\<close>

lemma step_counted:
  assumes "agree (put_u64 (int (length xs)) # map enc xs @ ps) (put_u64 (int (length ys)) # map enc ys @ qs) s t"
    and "\<And>n m ps qs. agree (put_u64 n # ps) (put_u64 m # qs) s t \<Longrightarrow> n = m \<and> agree ps qs s t"
  shows "xs = ys \<and> agree ps qs s t"
  using assms(2) [OF assms(1)] step_list by auto

end

lemma fixed_width_unique:
  assumes "pack_be n v @ s = pack_be n w @ t" and "0 \<le> v" "v < 256 ^ n" "0 \<le> w" "w < 256 ^ n"
  shows "v = w \<and> s = t"
proof -
  have "pack_be n v = pack_be n w \<and> s = t" using assms(1) by (simp add: append_eq_append_conv)
  with pack_be_inject assms show ?thesis by blast
qed

interpretation u8: prefix_code put_u8
proof (unfold_locales, goal_cases)
  case (1 x b y c s t)
  then have "pack_be 1 x @ s = pack_be 1 y @ t" and "0 \<le> x" "x \<le> U8_MAX" "0 \<le> y" "y \<le> U8_MAX"
    unfolding put_u8_def by (auto simp del: One_nat_def pack_be.simps split: if_splits)
  from fixed_width_unique [OF this(1)] this(2-) show ?case by (simp add: U8_MAX_def)
qed

interpretation u16: prefix_code put_u16
  by unfold_locales (auto simp: put_u16_def U16_MAX_def split: if_splits dest!: fixed_width_unique)

interpretation u32: prefix_code put_u32
  by unfold_locales (auto simp: put_u32_def U32_MAX_def split: if_splits dest!: fixed_width_unique)

interpretation u64: prefix_code put_u64
  by unfold_locales (auto simp: put_u64_def U64_MAX_def split: if_splits dest!: fixed_width_unique)

lemma i64_residue:
  assumes "v mod 2 ^ 64 = w mod 2 ^ 64" and "I64_MIN \<le> v" "v \<le> I64_MAX" "I64_MIN \<le> w" "w \<le> I64_MAX"
  shows "v = w"
proof -
  have "(v - w) mod 2 ^ 64 = 0" using assms(1) by (simp add: mod_eq_dvd_iff)
  then obtain k where k: "v - w = 2 ^ 64 * k" by (auto simp: mod_eq_0_iff_dvd elim: dvdE)
  have "- (2 ^ 64) < v - w" "v - w < 2 ^ 64" using assms(2-) by (simp_all add: width_defs)
  with k have "k = 0" by (auto simp: mult_less_cancel_left) 
  with k show ?thesis by simp
qed

interpretation i64: prefix_code put_i64
proof (unfold_locales, goal_cases)
  case (1 x b y c s t)
  then have r: "I64_MIN \<le> x" "x \<le> I64_MAX" "I64_MIN \<le> y" "y \<le> I64_MAX"
    and "put_u64 (x mod 2 ^ 64) = Inr b" "put_u64 (y mod 2 ^ 64) = Inr c"
    by (auto simp: put_i64_def split: if_splits)
  with u64.unique [OF this(5,6) 1(3)] i64_residue show ?case by blast
qed

lemmas field_steps = u8.step u16.step u32.step u64.step i64.step

section \<open>Enumerations have distinct wire values\<close>

lemma side_value_inject [simp]: "side_value x = side_value y \<longleftrightarrow> x = y"
  by (cases x; cases y) simp_all

lemma command_type_value_inject [simp]: "command_type_value x = command_type_value y \<longleftrightarrow> x = y"
  by (cases x; cases y) simp_all

lemma event_type_value_inject [simp]: "event_type_value x = event_type_value y \<longleftrightarrow> x = y"
  by (cases x; cases y) simp_all

lemma done_reason_value_inject [simp]: "done_reason_value x = done_reason_value y \<longleftrightarrow> x = y"
  by (cases x; cases y) simp_all

lemma reject_reason_value_inject [simp]: "reject_reason_value x = reject_reason_value y \<longleftrightarrow> x = y"
  by (cases x; cases y) simp_all

lemma int_of_bool_inject [simp]: "int_of_bool x = int_of_bool y \<longleftrightarrow> x = y"
  by (simp add: int_of_bool_def)

section \<open>Every encoder is a prefix code\<close>

interpretation order_code: prefix_code encode_order
proof (unfold_locales, goal_cases)
  case (1 x b y c s t)
  from agreeI [OF 1 [unfolded encode_order_def]] show ?case
    by (auto dest!: field_steps simp: agree_Nil intro!: order_snapshot.equality)
qed

interpretation level_code: prefix_code encode_level
proof (unfold_locales, goal_cases)
  case (1 x b y c s t)
  from agreeI [OF 1 [unfolded encode_level_def]]
  have "agree (map encode_order (pls_orders x) @ []) (map encode_order (pls_orders y) @ []) s t \<and>
      pls_price x = pls_price y \<and> pls_aggregate_quantity x = pls_aggregate_quantity y \<and>
      length (pls_orders x) = length (pls_orders y)"
    by (auto dest!: field_steps)
  with order_code.step_list show ?case by (fastforce simp: agree_Nil intro!: price_level_snapshot.equality)
qed

lemma step_levels:
  assumes "agree (put_u64 (int (length xs)) # map encode_level xs @ ps)
      (put_u64 (int (length ys)) # map encode_level ys @ qs) s t"
  shows "xs = ys \<and> agree ps qs s t"
  by (rule level_code.step_counted [OF assms]) (rule u64.step)

interpretation config_code: prefix_code encode_instrument_config
proof (unfold_locales, goal_cases)
  case (1 x b y c s t)
  from agreeI [OF 1 [unfolded encode_instrument_config_def]] show ?case
    by (auto dest!: field_steps simp: agree_Nil intro!: instrument_config.equality matching_config.equality)
qed

interpretation instrument_code: prefix_code encode_instrument
proof (unfold_locales, goal_cases)
  case (1 x b y c s t)
  from agreeI [OF 1 [unfolded encode_instrument_def]]
  have "is_instrument_id x = is_instrument_id y \<and> is_active_order_count x = is_active_order_count y \<and>
      agree (put_u64 (int (length (is_bids x))) # map encode_level (is_bids x) @
          put_u64 (int (length (is_asks x))) # map encode_level (is_asks x) @ [])
        (put_u64 (int (length (is_bids y))) # map encode_level (is_bids y) @
          put_u64 (int (length (is_asks y))) # map encode_level (is_asks y) @ []) s t"
    by (auto dest!: u32.step u64.step [of "is_active_order_count x"])
  then show ?case
    by (auto dest!: step_levels simp: agree_Nil simp del: append_Nil2 intro!: instrument_snapshot.equality)
qed

interpretation state_code: prefix_code state_bytes
proof (unfold_locales, goal_cases)
  case (1 x b y c s t)
  from agreeI [OF 1 [unfolded state_bytes_def]]
  have "agree (put_u64 (int (length (bs_bids x))) # map encode_level (bs_bids x) @
          put_u64 (int (length (bs_asks x))) # map encode_level (bs_asks x) @ [])
        (put_u64 (int (length (bs_bids y))) # map encode_level (bs_bids y) @
          put_u64 (int (length (bs_asks y))) # map encode_level (bs_asks y) @ []) s t \<and>
      bs_semantics_version x = bs_semantics_version y \<and> bs_instrument_id x = bs_instrument_id y \<and>
      bs_last_sequence x = bs_last_sequence y \<and> bs_sequence_exhausted x = bs_sequence_exhausted y \<and>
      bs_active_order_count x = bs_active_order_count y"
    by (auto dest!: u8.step u16.step u32.step u64.step [of "bs_last_sequence x"] u64.step [of "bs_active_order_count x"]
        simp: agree_const)
  then show ?case
    by (auto dest!: step_levels simp: agree_Nil simp del: append_Nil2 intro!: book_snapshot.equality)
qed

interpretation venue_code: prefix_code engine_state_bytes
proof (unfold_locales, goal_cases)
  case (1 x b y c s t)
  let ?ps = "\<lambda>z. Inr ENGINE_STATE_PREFIX # put_u16 (es_semantics_version z) #
      put_u64 (max_total_active_orders (es_engine_config z)) # put_u64 (int (length (es_catalog z))) #
      map encode_instrument_config (es_catalog z) @
      put_u64 (es_last_sequence z) # put_u8 (int_of_bool (es_sequence_exhausted z)) #
      put_u64 (es_active_order_count z) # put_u64 (int (length (es_instruments z))) #
      map encode_instrument (es_instruments z) @ []"
  have "cat (?ps x) = Inr b" "cat (?ps y) = Inr c"
    using 1(1,2) by (simp_all add: engine_state_bytes_def Let_def split: if_splits)
  from agreeI [OF this 1(3)] have e: "es_semantics_version x = es_semantics_version y"
    "max_total_active_orders (es_engine_config x) = max_total_active_orders (es_engine_config y)"
    and "agree (put_u64 (int (length (es_catalog x))) # map encode_instrument_config (es_catalog x) @
        drop (Suc (length (es_catalog x))) (drop 3 (?ps x)))
      (put_u64 (int (length (es_catalog y))) # map encode_instrument_config (es_catalog y) @
        drop (Suc (length (es_catalog y))) (drop 3 (?ps y))) s t"
    by (auto dest!: u16.step u64.step [of "max_total_active_orders (es_engine_config x)"] simp: agree_const numeral_3_eq_3)
  from config_code.step_counted [OF this(3) u64.step] have cat: "es_catalog x = es_catalog y"
    and "agree (drop (Suc (length (es_catalog x))) (drop 3 (?ps x)))
      (drop (Suc (length (es_catalog y))) (drop 3 (?ps y))) s t" by blast+
  then have f: "es_last_sequence x = es_last_sequence y" "es_sequence_exhausted x = es_sequence_exhausted y"
    "es_active_order_count x = es_active_order_count y"
    and "agree (put_u64 (int (length (es_instruments x))) # map encode_instrument (es_instruments x) @ [])
      (put_u64 (int (length (es_instruments y))) # map encode_instrument (es_instruments y) @ []) s t"
    by (auto dest!: u8.step u64.step [of "es_last_sequence x"] u64.step [of "es_active_order_count x"] simp: numeral_3_eq_3)
  from instrument_code.step_counted [OF this(4) u64.step] have "es_instruments x = es_instruments y" "s = t"
    by (simp_all add: agree_Nil)
  with e f cat show ?case
    by (auto intro!: engine_snapshot.equality multi_instrument_engine_config.equality)
qed

interpretation order_id_code: prefix_code optional_order_id
proof (unfold_locales, goal_cases)
  case (1 x b y c s t)
  from agreeI [OF 1 [unfolded optional_order_id_def]] show ?case
    by (auto dest!: field_steps simp: agree_Nil split: option.splits)
qed

interpretation top_code: prefix_code optional_top
proof (unfold_locales, goal_cases)
  case (1 x b y c s t)
  from agreeI [OF 1 [unfolded optional_top_def]] show ?case
    by (auto dest!: field_steps simp: agree_Nil split: option.splits intro!: top_of_book_level.equality)
qed

text \<open>A payload is a prefix code once the event type and the header are known.\<close>

lemma payload_unique:
  assumes "event_type_of x = event_type_of y" and "event_header_of x = event_header_of y"
    and "agree [encode_event_payload x] [encode_event_payload y] s t"
  shows "x = y \<and> s = t"
proof (cases x)
  case (AcceptedEvent h ct)
  with assms show ?thesis by (cases y) (auto dest: u8.step_last)
next
  case (RejectedEvent h ct reason oid)
  with assms show ?thesis
    by (cases y) (auto simp: agree_nested agree_Nil simp del: cat.simps dest!: u8.step u16.step order_id_code.step)
next
  case (TradeEvent h tb)
  with assms show ?thesis
    by (cases y) (auto simp: agree_nested agree_Nil simp del: cat.simps dest!: field_steps intro!: trade_body.equality)
next
  case (RestedEvent h rb)
  with assms show ?thesis
    by (cases y) (auto simp: agree_nested agree_Nil simp del: cat.simps dest!: field_steps intro!: rested_body.equality)
next
  case (CanceledEvent h i n)
  with assms show ?thesis by (cases y) (auto simp: agree_nested agree_Nil simp del: cat.simps dest!: field_steps)
next
  case (ReplacedEvent h i j)
  with assms show ?thesis by (cases y) (auto simp: agree_nested agree_Nil simp del: cat.simps dest!: field_steps)
next
  case (DoneEvent h i reason n)
  with assms show ?thesis by (cases y) (auto simp: agree_nested agree_Nil simp del: cat.simps dest!: field_steps)
next
  case (BookChangedEvent h bid ask)
  with assms show ?thesis by (cases y) (auto simp: agree_nested agree_Nil simp del: cat.simps dest!: top_code.step)
qed

interpretation event_code: prefix_code encode_event
proof (unfold_locales, goal_cases)
  case (1 x b y c s t)
  from agreeI [OF 1 [unfolded encode_event_def Let_def]]
  have "event_type_of x = event_type_of y" "agree [encode_event_payload x] [encode_event_payload y] s t"
    and "event_header_of x = event_header_of y"
    by (auto dest!: field_steps intro!: event_header.equality)
  with payload_unique show ?case by blast
qed

interpretation batch_code: prefix_code event_bytes
proof (unfold_locales, goal_cases)
  case (1 x b y c s t)
  from agreeI [OF 1 [unfolded event_bytes_def]]
  have "agree (put_u64 (int (length (batch_events x))) # map encode_event (batch_events x) @ [])
      (put_u64 (int (length (batch_events y))) # map encode_event (batch_events y) @ []) s t"
    by (auto dest!: u16.step u32.step u64.step [of "batch_command_sequence x"] simp: agree_const)
  from event_code.step_counted [OF this u64.step] show ?case
    by (auto simp: agree_Nil intro!: event_batch.equality)
qed

end
