(* ===== verification/Step_Outcomes.thy ===== *)
theory Step_Outcomes
  imports Engine_Machine
begin

text \<open>
  The outcomes of a specified step: when it accepts, what it rejects with, what its trades are.
  The properties of the engine and of the router rest on these facts.
\<close>

section \<open>The two outcomes of a step\<close>

lemma first_failure_None: "first_failure checks = None \<longleftrightarrow> (\<forall>c \<in> set checks. \<not> fst c)"
proof (induction checks)
  case (Cons c checks)
  then show ?case by (cases c) simp
qed simp

definition accepts_new :: "matching_config \<Rightarrow> int \<Rightarrow> new_order \<Rightarrow> int \<Rightarrow> view \<Rightarrow> bool" where
  "accepts_new c iid ord sequence v \<longleftrightarrow>
     validate_new_shape ord = NONE \<and> new_instrument_id ord = iid \<and>
     new_quantity ord \<le> max_order_quantity c \<and>
     (case new_limit_price ord of None \<Rightarrow> True | Some p \<Rightarrow> p mod tick_increment c = 0) \<and>
     find_order (new_order_id ord) v = None \<and>
     spec_fits c (side_of (new_side ord)) ord sequence v"

definition accepts_cancel :: "int \<Rightarrow> cancel_order \<Rightarrow> view \<Rightarrow> bool" where
  "accepts_cancel iid cmd v \<longleftrightarrow>
     validate_cancel_shape cmd = NONE \<and> cancel_instrument_id cmd = iid \<and>
     (case find_order (cancel_order_id cmd) v of
        None \<Rightarrow> False | Some ord \<Rightarrow> ord_client_id ord = cancel_client_id cmd)"

definition accepts_replace :: "matching_config \<Rightarrow> int \<Rightarrow> replace_order \<Rightarrow> int \<Rightarrow> view \<Rightarrow> bool" where
  "accepts_replace c iid cmd sequence v \<longleftrightarrow>
     validate_replace_shape cmd = NONE \<and> rep_instrument_id cmd = iid \<and>
     rep_new_quantity cmd \<le> max_order_quantity c \<and>
     rep_new_limit_price cmd mod tick_increment c = 0 \<and>
     find_order (rep_new_order_id cmd) v = None \<and>
     (case find_order (rep_old_order_id cmd) v of
        None \<Rightarrow> False
      | Some old \<Rightarrow> ord_client_id old = rep_client_id cmd \<and>
          spec_fits c (ord_side old) (replacement_order cmd old) sequence
            (spec_remove_order (rep_old_order_id cmd) v))"

lemma spec_new_accepts:
  "accepts_new c iid ord sequence v \<Longrightarrow> spec_new c iid ord sequence v =
     spec_aggress iid (side_of (new_side ord)) ord sequence v v
       [AcceptedEvent \<lparr>command_sequence = sequence, event_index = 0, hdr_instrument_id = iid\<rparr> NEW]"
  by (simp add: accepts_new_def spec_new_def Let_def split: option.splits)

lemma spec_new_rejects:
  "\<not> accepts_new c iid ord sequence v \<Longrightarrow>
     \<exists>rj. spec_new c iid ord sequence v = (spec_reject (new_instrument_id ord) sequence NEW rj, v)"
  by (auto simp: accepts_new_def spec_new_def Let_def not_less split: option.splits)

lemma spec_cancel_accepts:
  "accepts_cancel iid cmd v \<Longrightarrow> spec_cancel iid cmd sequence v =
     (with_top_change iid sequence v (spec_remove_order (cancel_order_id cmd) v)
        (cancel_events cmd sequence (ord_remaining_quantity (the (find_order (cancel_order_id cmd) v)))),
      spec_remove_order (cancel_order_id cmd) v)"
  by (auto simp: accepts_cancel_def spec_cancel_def Let_def split: option.splits)

lemma spec_cancel_rejects:
  "\<not> accepts_cancel iid cmd v \<Longrightarrow>
     \<exists>rj. spec_cancel iid cmd sequence v = (spec_reject (cancel_instrument_id cmd) sequence CANCEL rj, v)"
  by (auto simp: accepts_cancel_def spec_cancel_def Let_def split: option.splits)

lemma spec_replace_accepts:
  assumes "accepts_replace c iid cmd sequence v" and "find_order (rep_old_order_id cmd) v = Some old"
  shows "spec_replace c iid cmd sequence v =
     spec_aggress iid (ord_side old) (replacement_order cmd old) sequence v
       (spec_remove_order (rep_old_order_id cmd) v)
       (replace_events cmd sequence (ord_remaining_quantity old))"
  using assms by (auto simp: accepts_replace_def spec_replace_def Let_def)

lemma spec_replace_rejects:
  "\<not> accepts_replace c iid cmd sequence v \<Longrightarrow>
     \<exists>rj. spec_replace c iid cmd sequence v = (spec_reject (rep_instrument_id cmd) sequence REPLACE rj, v)"
  unfolding spec_replace_def Let_def
  by (split option.split) (auto simp: first_failure_None accepts_replace_def not_less simp del: first_failure.simps)

fun accepts :: "matching_config \<Rightarrow> int \<Rightarrow> command \<Rightarrow> int \<Rightarrow> view \<Rightarrow> bool" where
  "accepts c iid (NewOrder cmd) sequence v = accepts_new c iid cmd sequence v"
| "accepts c iid (CancelOrder cmd) sequence v = accepts_cancel iid cmd v"
| "accepts c iid (ReplaceOrder cmd) sequence v = accepts_replace c iid cmd sequence v"

lemma spec_step_rejects:
  assumes "\<not> accepts c iid cmd sequence v"
  shows "\<exists>rj. spec_step c iid cmd sequence v =
    (spec_reject (command_instrument_id cmd) sequence (command_type_of cmd) rj, v)"
  using assms spec_new_rejects spec_cancel_rejects spec_replace_rejects by (cases cmd) auto

lemma spec_aggress_hd:
  assumes "es \<noteq> []"
  shows "hd (fst (spec_aggress iid sd ord sequence v0 v es)) = hd es"
    and "fst (spec_aggress iid sd ord sequence v0 v es) \<noteq> []"
  using assms by (auto simp: spec_aggress_def with_top_change_def hd_append Let_def split: prod.splits)

lemma spec_step_accepts_hd:
  assumes "accepts c iid cmd sequence v"
  shows "fst (spec_step c iid cmd sequence v) \<noteq> [] \<and>
    event_type_of (hd (fst (spec_step c iid cmd sequence v))) = ACCEPTED"
proof (cases cmd)
  case (NewOrder ord)
  with assms spec_new_accepts [of c iid ord sequence v] show ?thesis by (simp add: spec_aggress_hd)
next
  case (CancelOrder ord)
  with assms spec_cancel_accepts [of iid ord v sequence] show ?thesis
    by (auto simp: with_top_change_def cancel_events_def Let_def)
next
  case (ReplaceOrder ord)
  with assms obtain old where "find_order (rep_old_order_id ord) v = Some old"
    by (auto simp: accepts_replace_def split: option.splits)
  with ReplaceOrder assms spec_replace_accepts [of c iid ord sequence v old] show ?thesis
    by (simp add: spec_aggress_hd replace_events_def Let_def)
qed

lemma find_order_in:
  assumes "find_order i v = Some ord"
  shows "ord \<in> set (v BUY @ v SELL)" and "ord_order_id ord = i"
  using assms unfolding find_order_def find_Some_iff by (metis nth_mem)+



lemma engine_view_ok:
  "engine_inv s \<Longrightarrow> view_ok (eng_config s) (eng_instrument_id s) (eng_last_sequence s) (view_of s)"
  by (simp add: engine_inv_def core_inv_def)

section \<open>The shape of a batch\<close>

lemma spec_step_shape:
  assumes "view_ok c iid latest v"
  shows "batch_shape sq (command_instrument_id cmd) (fst (spec_step c iid cmd sq v)) \<and>
    fst (spec_step c iid cmd sq v) \<noteq> []"
proof (cases "accepts c iid cmd sq v")
  case False
  then show ?thesis
    using spec_step_rejects [OF False] by (auto simp: spec_reject_def batch_shape_def)
next
  case acc: True
  have "batch_shape sq (command_instrument_id cmd) (fst (spec_step c iid cmd sq v))"
  proof (cases cmd)
    case (NewOrder ord)
    let ?es = "[AcceptedEvent \<lparr>command_sequence = sq, event_index = 0, hdr_instrument_id = iid\<rparr> NEW]"
    have "batch_shape sq iid ?es" by (simp add: batch_shape_def)
    moreover have "new_instrument_id ord = iid" using acc NewOrder by (simp add: accepts_new_def)
    ultimately show ?thesis
      using spec_aggress_shape [of sq iid ?es ord] spec_new_accepts [of c iid ord sq v] acc NewOrder by simp
  next
    case (CancelOrder ord)
    then have "cancel_instrument_id ord = iid" using acc by (simp add: accepts_cancel_def)
    with with_top_change_shape [OF cancel_events_shape] spec_cancel_accepts [of iid ord v sq] acc CancelOrder
    show ?thesis by auto
  next
    case (ReplaceOrder ord)
    with acc obtain old where old: "find_order (rep_old_order_id ord) v = Some old"
      and iid: "rep_instrument_id ord = iid"
      by (auto simp: accepts_replace_def split: option.splits)
    from find_order_in(1) [OF old] view_okD(2) [OF assms] have "ord_instrument_id old = iid"
      by (auto simp: order_ok_def)
    then have "new_instrument_id (replacement_order ord old) = iid" by (simp add: replacement_order_def iid)
    moreover have "batch_shape sq iid (replace_events ord sq n)" for n
      using replace_events_shape [of sq ord n] iid by simp
    ultimately show ?thesis
      using spec_aggress_shape [of sq iid] iid spec_replace_accepts [OF _ old, of c iid sq] acc ReplaceOrder by simp
  qed
  with spec_step_accepts_hd [OF acc] show ?thesis by blast
qed

lemma rejected_spec:
  assumes "spec_step c iid cmd sq v = (es, v')" and "event_type_of (hd es) = REJECTED"
  shows "v' = v \<and> length es = 1"
proof -
  have "\<not> accepts c iid cmd sq v" using spec_step_accepts_hd [of c iid cmd sq v] assms by auto
  from spec_step_rejects [OF this] assms(1) show ?thesis by (auto simp: spec_reject_def)
qed

section \<open>The trades of a batch\<close>

fun trade_bodies :: "event list \<Rightarrow> trade_body list" where
  "trade_bodies [] = []"
| "trade_bodies (e # es) = (case e of TradeEvent h b \<Rightarrow> b # trade_bodies es | _ \<Rightarrow> trade_bodies es)"

lemma trade_bodies_append [simp]: "trade_bodies (es @ es') = trade_bodies es @ trade_bodies es'"
  by (induction es) (auto split: event.splits)

definition traded :: "event list \<Rightarrow> int" where
  "traded es = sum_list (map execution_quantity (trade_bodies es))"

lemma trade_events_bodies:
  "map resting_order_id (trade_bodies (trade_events ord sd sq k n fills)) = map (ord_order_id \<circ> fst) fills"
  "map execution_price (trade_bodies (trade_events ord sd sq k n fills)) = map (ord_price \<circ> fst) fills"
  "map resting_remaining (trade_bodies (trade_events ord sd sq k n fills)) =
     map (\<lambda>f. ord_remaining_quantity (fst f) - snd f) fills"
  "traded (trade_events ord sd sq k n fills) = fill_total fills"
  by (induction fills arbitrary: k n) (auto simp: traded_def)

lemma no_trades:
  "trade_bodies (with_top_change iid sq v v' es) = trade_bodies es"
  "trade_bodies (terminal_event ord sd sq k n # es) = trade_bodies es"
  "trade_bodies (replace_events cmd sq n) = []"
  "trade_bodies (cancel_events ccmd sq n) = []"
  "trade_bodies (spec_reject iid sq ct rj) = []"
  by (auto simp: with_top_change_def terminal_event_def replace_events_def cancel_events_def
      spec_reject_def Let_def split: option.splits bool.splits)

lemma spec_aggress_trades:
  assumes "spec_aggress iid sd ord sq v0 v es = (evs, v')" and "trade_bodies es = []"
    and "spec_add sd ord sq v = (fills, n, w)"
  shows "trade_bodies evs = trade_bodies (trade_events ord sd sq (length es) (new_quantity ord) fills)"
    and "v' = w"
  using assms by (auto simp: spec_aggress_def no_trades simp del: trade_bodies.simps(2))

lemma spec_match_prefix:
  assumes "spec_match crossing n os = (fills, n', os')"
  shows "map fst fills = take (length fills) os" and "\<forall>f \<in> set fills. crossing (ord_price (fst f))"
    and "\<forall>f \<in> set (butlast fills). snd f = ord_remaining_quantity (fst f)"
  using assms by (induction rule: spec_match_cases) auto

text \<open>An accepted order, from its fills: what the specification does to the two sides.\<close>

lemma spec_new_effect:
  assumes "accepts_new c iid ord sq v" and "spec_new c iid ord sq v = (es, v')" and "sd = side_of (new_side ord)"
  obtains fills n os where
    "spec_match (limit_crosses sd (new_limit_price ord)) (new_quantity ord) (v (other_side sd)) = (fills, n, os)"
    "trade_bodies es = trade_bodies (trade_events ord sd sq 1 (new_quantity ord) fills)"
    "v' (other_side sd) = os"
    "v' sd = (case new_limit_price ord of
        Some p \<Rightarrow> if residual_rests ord n then spec_insert sd (rested_order ord sd p n sq) (v sd) else v sd
      | None \<Rightarrow> v sd)"
proof -
  let ?es = "[AcceptedEvent \<lparr>command_sequence = sq, event_index = 0, hdr_instrument_id = iid\<rparr> NEW]"
  obtain fills n os where m: "spec_match (limit_crosses sd (new_limit_price ord)) (new_quantity ord)
      (v (other_side sd)) = (fills, n, os)" by (metis prod_cases3)
  obtain w where w: "spec_add sd ord sq v = (fills, n, w)" using m by (simp add: spec_add_def Let_def)
  have sides: "w (other_side sd) = os"
    "w sd = (case new_limit_price ord of
        Some p \<Rightarrow> if residual_rests ord n then spec_insert sd (rested_order ord sd p n sq) (v sd) else v sd
      | None \<Rightarrow> v sd)"
    using w m by (auto simp: spec_add_def Let_def split: option.splits)
  have "spec_aggress iid sd ord sq v v ?es = (es, v')"
    using spec_new_accepts [OF assms(1)] assms(2,3) by simp
  from spec_aggress_trades [OF this _ w] that [OF m] sides show ?thesis by simp
qed

text \<open>The book changes a batch reports.\<close>

fun book_changes :: "event list \<Rightarrow> book_top list" where
  "book_changes [] = []"
| "book_changes (e # es) =
     (case e of BookChangedEvent h bid ask \<Rightarrow> \<lparr>best_bid = bid, best_ask = ask\<rparr> # book_changes es
      | _ \<Rightarrow> book_changes es)"

lemma book_changes_append [simp]: "book_changes (es @ es') = book_changes es @ book_changes es'"
  by (induction es) (auto split: event.splits)

lemma no_book_changes:
  "book_changes (trade_events ord sd sq k n fills) = []"
  "book_changes (terminal_event ord sd sq k n # es) = book_changes es"
  "book_changes (replace_events cmd sq n) = []"
  "book_changes (cancel_events ccmd sq n) = []"
  "book_changes (spec_reject iid sq ct rj) = []"
  by (induction fills arbitrary: k n)
    (auto simp: terminal_event_def replace_events_def cancel_events_def
      spec_reject_def Let_def split: option.splits bool.splits)

lemma with_top_change_reports:
  "book_changes (with_top_change iid sq v v' es) =
     book_changes es @ (if view_top v = view_top v' then [] else [view_top v'])"
  by (simp add: with_top_change_def)

lemma spec_aggress_reports:
  assumes "book_changes es = []"
  shows "book_changes (fst (spec_aggress iid sd ord sq v0 v es)) =
    (if view_top v0 = view_top (snd (spec_aggress iid sd ord sq v0 v es)) then []
     else [view_top (snd (spec_aggress iid sd ord sq v0 v es))])"
  using assms
  by (simp add: spec_aggress_def with_top_change_reports no_book_changes Let_def
      del: book_changes.simps(2) split: prod.splits)

lemma spec_step_reports:
  assumes "spec_step c iid cmd sq v = (es, v')"
  shows "book_changes es = (if view_top v = view_top v' then [] else [view_top v'])"
proof (cases "accepts c iid cmd sq v")
  case False
  then show ?thesis using spec_step_rejects [OF False] assms by (auto simp: no_book_changes)
next
  case acc: True
  show ?thesis
  proof (cases cmd)
    case (NewOrder ord)
    let ?es = "[AcceptedEvent \<lparr>command_sequence = sq, event_index = 0, hdr_instrument_id = iid\<rparr> NEW]"
    from spec_aggress_reports [of ?es iid "side_of (new_side ord)" ord sq v v] NewOrder acc assms
      spec_new_accepts [of c iid ord sq v] show ?thesis by simp
  next
    case (CancelOrder ord)
    with acc assms spec_cancel_accepts [of iid ord v sq] show ?thesis
      by (auto simp: with_top_change_reports no_book_changes)
  next
    case (ReplaceOrder ord)
    with acc obtain old where old: "find_order (rep_old_order_id ord) v = Some old"
      by (auto simp: accepts_replace_def split: option.splits)
    with acc ReplaceOrder assms spec_replace_accepts [OF _ old, of c iid sq]
      spec_aggress_reports [of "replace_events ord sq (ord_remaining_quantity old)" iid "ord_side old"
        "replacement_order ord old" sq v "spec_remove_order (rep_old_order_id ord) v"]
    show ?thesis by (simp add: no_book_changes)
  qed
qed

lemma total_quantity_spec_insert:
  "total_quantity (spec_insert sd ord os) = ord_remaining_quantity ord + total_quantity os"
  using mset_spec_insert [of sd ord os, THEN arg_cong, of "\<lambda>m. sum_mset (image_mset ord_remaining_quantity m)"]
  by (simp add: total_quantity_def mset_map [symmetric] sum_mset_sum_list del: mset_map)

end
