(* ===== verification/Router_Directory.thy ===== *)
theory Router_Directory
  imports Router Step_Outcomes
begin

text \<open>
  The router's directory of active identities.  A directory tracks a set of orders when it has exactly
  one entry per order, under its identifier, with its instrument and client.  Replaying the events of
  a specified step on a directory that tracks the orders before gives one that tracks the orders
  after.
\<close>

section \<open>Directories and the orders they track\<close>

definition entry_of :: "order \<Rightarrow> int \<times> active_identity" where
  "entry_of ord = (ord_order_id ord, identity_of ord)"

lemma entry_of_reduced [simp]: "entry_of (reduced x ord) = entry_of ord"
  by (simp add: entry_of_def identity_of_def)

definition tracks :: "(int, active_identity) dict \<Rightarrow> order set \<Rightarrow> bool" where
  "tracks d S \<longleftrightarrow> dict_ok d \<and> set d = entry_of ` S"

lemma tracks_lookup:
  assumes "tracks d S"
  shows "map_of d i = Some a \<longleftrightarrow> (\<exists>ord \<in> S. ord_order_id ord = i \<and> identity_of ord = a)"
  using assms map_of_in_dict [of d i a] by (auto simp: tracks_def entry_of_def)

lemma tracks_absent: "tracks d S \<Longrightarrow> map_of d i = None \<longleftrightarrow> i \<notin> ord_order_id ` S"
  by (auto simp: tracks_def entry_of_def map_of_eq_None_iff image_image)

lemma set_alist_delete: "set (AList.delete k d) = {p \<in> set d. fst p \<noteq> k}"
  by (auto simp: AList.delete_eq)

lemma set_setitem_fresh: "map_of d k = None \<Longrightarrow> set (dict_setitem k v d) = insert (k, v) (set d)"
  by (induction d) (auto simp: dict_setitem_def split: if_splits)

lemma tracks_delete:
  assumes "tracks d S" and "inj_on ord_order_id S" and "ord \<in> S"
  shows "tracks (AList.delete (ord_order_id ord) d) (S - {ord})"
  using assms by (auto simp: tracks_def set_alist_delete entry_of_def dest: inj_onD)

lemma tracks_insert:
  assumes "tracks d S" and "ord_order_id ord \<notin> ord_order_id ` S"
  shows "tracks (dict_setitem (ord_order_id ord) (identity_of ord) d) (insert ord S)"
  using assms tracks_absent [OF assms(1), of "ord_order_id ord"]
  by (auto simp: tracks_def set_setitem_fresh entry_of_def)

lemma tracks_cong: "entry_of ` S = entry_of ` S' \<Longrightarrow> tracks d S \<longleftrightarrow> tracks d S'"
  by (simp add: tracks_def)

lemma tracks_length:
  assumes "tracks d (set os)" and "distinct (map ord_order_id os)"
  shows "length d = length os"
proof -
  have "distinct (map entry_of os)"
    using assms(2) by (induction os) (auto simp: entry_of_def)
  then have "card (entry_of ` set os) = length os"
    by (metis distinct_card length_map list.set_map)
  moreover have "card (set d) = length d"
    using assms(1) by (metis distinct_card distinct_map tracks_def)
  ultimately show ?thesis using assms(1) by (simp add: tracks_def)
qed

section \<open>Replaying events\<close>

definition with_active :: "router \<Rightarrow> (int, active_identity) dict \<Rightarrow> router" where
  "with_active r d = r\<lparr>rtr_active := d\<rparr>"

lemma with_active_fields [simp]:
  "rtr_active (with_active r d) = d" "with_active (with_active r d) d' = with_active r d'"
  "rtr_books (with_active r d) = rtr_books r" "rtr_catalog (with_active r d) = rtr_catalog r"
  "rtr_config (with_active r d) = rtr_config r" "rtr_next_sequence (with_active r d) = rtr_next_sequence r"
  "rtr_last_sequence (with_active r d) = rtr_last_sequence r"
  "rtr_sequence_exhausted (with_active r d) = rtr_sequence_exhausted r"
  "rtr_poisoned (with_active r d) = rtr_poisoned r"
  "rtr_check_invariants (with_active r d) = rtr_check_invariants r"
  by (simp_all add: with_active_def)

definition replays :: "event list \<Rightarrow> (int, active_identity) dict \<Rightarrow> (int, active_identity) dict \<Rightarrow> bool" where
  "replays es d d' \<longleftrightarrow> (\<forall>r. apply_events es (with_active r d) = (Inr (), with_active r d'))"

lemma replays_Nil [simp]: "replays [] d d"
  by (simp add: replays_def)

lemma replays_append: "replays es d d1 \<Longrightarrow> replays es' d1 d2 \<Longrightarrow> replays (es @ es') d d2"
proof (induction es arbitrary: d)
  case (Cons e es)
  have "\<exists>d0. (\<forall>r. apply_event e (with_active r d) = (Inr (), with_active r d0)) \<and> replays es d0 d1"
  proof -
    have "\<forall>r. apply_events (e # es) (with_active r d) = (Inr (), with_active r d1)"
      using Cons.prems(1) by (simp add: replays_def)
    then show ?thesis
      by (auto simp: replays_def apply_event_def drop_active_def seqP_def bindP_def getsP_def modifyP_def
          with_active_def dict_delitem_def split: event.splits if_splits)
  qed
  then obtain d0 where d0: "\<forall>r. apply_event e (with_active r d) = (Inr (), with_active r d0)" "replays es d0 d1"
    by blast
  from Cons.IH [OF d0(2) Cons.prems(2)] d0(1) show ?case
    by (simp add: replays_def seqP_def bindP_def)
qed (simp add: replays_def)

fun silent :: "event \<Rightarrow> bool" where
  "silent (TradeEvent h b) \<longleftrightarrow> resting_remaining b \<noteq> 0"
| "silent (CanceledEvent h i n) \<longleftrightarrow> False"
| "silent (RestedEvent h b) \<longleftrightarrow> False"
| "silent _ \<longleftrightarrow> True"

lemma replays_silent:
  assumes "list_all silent es"
  shows "replays es d d"
  using assms
proof (induction es)
  case (Cons e es)
  then have "apply_event e s = (Inr (), s)" for s by (cases e) (auto simp: apply_event_def)
  with Cons show ?case by (simp add: replays_def seqP_def bindP_def)
qed simp

lemma replays_around:
  assumes "replays [e] d d'" and "list_all silent es" and "list_all silent es'"
  shows "replays (es @ e # es') d d'"
  using replays_append [OF replays_silent [OF assms(2)] replays_append [OF assms(1) replays_silent [OF assms(3)]]]
  by simp

lemma replays_one:
  assumes "\<And>r. apply_event e (with_active r d) = (Inr (), with_active r d')"
  shows "replays [e] d d'"
  using assms by (simp add: replays_def seqP_def bindP_def)

lemma replays_drop:
  assumes "tracks d S" and "inj_on ord_order_id S" and "ord \<in> S"
    and "\<And>r. apply_event e r = drop_active (ord_order_id ord) r"
  shows "\<exists>d'. replays [e] d d' \<and> tracks d' (S - {ord})"
proof -
  have "map_of d (ord_order_id ord) \<noteq> None" using assms(1,3) by (simp add: tracks_absent)
  then have "replays [e] d (AList.delete (ord_order_id ord) d)"
    by (intro replays_one)
      (simp add: assms(4) drop_active_def bindP_def getsP_def modifyP_def dict_delitem_present with_active_def)
  with tracks_delete [OF assms(1-3)] show ?thesis by blast
qed

section \<open>Replaying a specified step\<close>

lemma trades_replay:
  assumes "spec_match crossing n os = (fills, n', os')" and "all_positive os" and "0 \<le> n"
    and "distinct (map ord_order_id os)" and "inj_on ord_order_id (set os \<union> R)" and "set os \<inter> R = {}"
    and "tracks d (set os \<union> R)"
  shows "\<exists>d'. replays (trade_events ord sd sq k m fills) d d' \<and> tracks d' (set os' \<union> R)"
  using assms
proof (induction arbitrary: d k m rule: spec_match_cases)
  case (stop n os)
  then show ?case by (auto intro: replays_Nil)
next
  case (full n x os fills n' os')
  let ?e = "hd (trade_events ord sd sq k m [(x, ord_remaining_quantity x)])"
  have "x \<notin> set os" using full.prems by auto
  then have S: "set (x # os) \<union> R - {x} = set os \<union> R" using full.prems by auto
  have "apply_event ?e r = drop_active (ord_order_id x) r" for r by (simp add: apply_event_def)
  from replays_drop [OF full.prems(6,4) _ this] S obtain d1 where
    d1: "replays [?e] d d1" "tracks d1 (set os \<union> R)" by auto
  obtain d2 where d2: "replays (trade_events ord sd sq (Suc k) (m - ord_remaining_quantity x) fills) d1 d2"
    "tracks d2 (set os' \<union> R)"
    using full.IH [OF _ _ _ _ _ d1(2), of "Suc k" "m - ord_remaining_quantity x"] full.prems full.hyps by auto
  from replays_append [OF d1(1) d2(1)] d2(2) show ?case by auto
next
  case (partial n x os)
  have "replays (trade_events ord sd sq k m [(x, n)]) d d"
    using partial.hyps by (intro replays_silent) auto
  moreover have "entry_of ` (set (x # os) \<union> R) = entry_of ` (set (reduced n x # os) \<union> R)" by simp
  ultimately show ?case using partial.prems tracks_cong by metis
qed

definition view_orders :: "view \<Rightarrow> order list" where
  "view_orders v = v BUY @ v SELL"

lemma set_view_orders: "set (view_orders v) = set (v sd) \<union> set (v (other_side sd))"
  by (cases sd) (auto simp: view_orders_def)

lemma with_top_change_replays:
  "replays es d d' \<Longrightarrow> replays (with_top_change iid sq v v' es) d d'"
  by (auto simp: with_top_change_def intro!: replays_append [OF _ replays_silent])

lemma rested_entry:
  "entry_of (rested_order ord sd p n sq) =
     (new_order_id ord, \<lparr>aid_instrument_id = new_instrument_id ord, aid_client_id = new_client_id ord\<rparr>)"
  by (simp add: entry_of_def identity_of_def rested_order_def)

lemma rested_replays:
  assumes "tracks d S" and "new_order_id ord \<notin> ord_order_id ` S"
    and "new_limit_price ord = Some p" and "residual_rests ord n"
  shows "\<exists>d'. replays [terminal_event ord sd sq k n] d d' \<and>
    tracks d' (insert (rested_order ord sd p n sq) S)"
proof -
  let ?x = "rested_order ord sd p n sq"
  have fresh: "map_of d (new_order_id ord) = None" using assms(1,2) by (simp add: tracks_absent)
  then have "replays [terminal_event ord sd sq k n] d (dict_setitem (ord_order_id ?x) (identity_of ?x) d)"
    using assms(3,4)
    by (intro replays_one) (simp add: terminal_event_def apply_event_def bindP_def getsP_def modifyP_def
        with_active_def rested_order_def identity_of_def Let_def)
  moreover have "ord_order_id ?x \<notin> ord_order_id ` S" using assms(2) by (simp add: rested_order_def)
  ultimately show ?thesis using tracks_insert [OF assms(1)] by blast
qed

lemma aggress_replays:
  assumes ok: "view_ok c iid latest v" and "0 \<le> new_quantity ord"
    and add: "spec_add sd ord sq v = (fills, n, v')"
    and rests: "residual_rests ord n \<Longrightarrow> new_limit_price ord \<noteq> None"
    and foreign: "inj_on ord_order_id (set (view_orders v) \<union> F)" "set (view_orders v) \<inter> F = {}"
    and fresh: "new_order_id ord \<notin> ord_order_id ` (set (view_orders v) \<union> F)"
    and es: "replays es d0 d" and d: "tracks d (set (view_orders v) \<union> F)"
  shows "\<exists>d'. replays (fst (spec_aggress iid sd ord sq v0 v es)) d0 d' \<and>
    tracks d' (set (view_orders v') \<union> F) \<and> snd (spec_aggress iid sd ord sq v0 v es) = v'"
proof -
  let ?opp = "other_side sd" and ?R = "set (v sd) \<union> F"
  obtain os where m: "spec_match (limit_crosses sd (new_limit_price ord)) (new_quantity ord) (v ?opp) = (fills, n, os)"
    using add by (auto simp: spec_add_def Let_def split: prod.splits)
  have dist: "distinct (map ord_order_id (v BUY @ v SELL))" by (rule view_okD(3) [OF ok])
  have disj: "set (v sd) \<inter> set (v ?opp) = {}" and dopp: "distinct (map ord_order_id (v ?opp))"
    using dist by (cases sd; auto)+
  have S: "set (view_orders v) \<union> F = set (v ?opp) \<union> ?R" by (auto simp: set_view_orders [of v sd])
  have "\<exists>d1. replays (trade_events ord sd sq (length es) (new_quantity ord) fills) d d1 \<and> tracks d1 (set os \<union> ?R)"
    by (rule trades_replay [OF m view_ok_positive [OF ok] assms(2) dopp])
      (use foreign disj d S in \<open>auto simp: set_view_orders [of v sd]\<close>)
  then obtain d1 where d1: "replays (trade_events ord sd sq (length es) (new_quantity ord) fills) d d1"
    "tracks d1 (set os \<union> ?R)" by blast
  have sub: "ord_order_id ` set os \<subseteq> ord_order_id ` set (v ?opp)"
    using shrinks_elem [OF spec_match_shrinks [OF m view_ok_positive [OF ok] assms(2)]]
    by (fastforce simp: remnant_def)
  let ?k = "length (es @ trade_events ord sd sq (length es) (new_quantity ord) fills)"
  have "\<exists>d2. replays [terminal_event ord sd sq ?k n] d1 d2 \<and> tracks d2 (set (view_orders v') \<union> F)"
  proof (cases "residual_rests ord n")
    case False
    then have "v' = v(?opp := os)" using spec_add_gone [OF add] m by auto
    then have "set (view_orders v') \<union> F = set os \<union> ?R" by (auto simp: set_view_orders [of _ sd])
    moreover have "replays [terminal_event ord sd sq ?k n] d1 d1"
      using False by (intro replays_silent) (auto simp: terminal_event_def Let_def split: option.splits)
    ultimately show ?thesis using d1(2) by metis
  next
    case True
    with rests obtain p where p: "new_limit_price ord = Some p" by auto
    with spec_add_rests [OF add p True] m
    have v': "v' = (v(?opp := os))(sd := spec_insert sd (rested_order ord sd p n sq) (v sd))" by auto
    have "new_order_id ord \<notin> ord_order_id ` (set os \<union> ?R)"
      using fresh sub by (auto simp: set_view_orders [of v sd])
    moreover have "set (view_orders v') \<union> F = insert (rested_order ord sd p n sq) (set os \<union> ?R)"
      using v' by (auto simp: set_view_orders [of _ sd])
    ultimately show ?thesis using rested_replays [OF d1(2) _ p True] by metis
  qed
  then obtain d2 where d2: "replays [terminal_event ord sd sq ?k n] d1 d2" "tracks d2 (set (view_orders v') \<union> F)"
    by blast
  from with_top_change_replays [OF replays_append [OF replays_append [OF es d1(1)] d2(1)],
      of iid sq v0 v'] d2(2) show ?thesis
    by (auto simp: spec_aggress_def add)
qed

lemma remove_order_ok: "view_ok c iid latest v \<Longrightarrow> view_ok c iid latest (spec_remove_order i v)"
  by (rule view_ok_shrink) (auto simp: spec_remove_order_def intro!: spec_remove_shrinks dest: view_ok_positive)

lemma set_removed_orders:
  "set (view_orders (spec_remove_order i v)) = {ord \<in> set (view_orders v). ord_order_id ord \<noteq> i}"
  by (auto simp: view_orders_def spec_remove_order_def spec_remove_def)

lemma find_order_absent: "find_order i v = None \<longleftrightarrow> i \<notin> ord_order_id ` set (view_orders v)"
  by (auto simp: find_order_def view_orders_def find_None_iff)

lemma cancel_replays:
  assumes "tracks d (set (view_orders v) \<union> F)" and "inj_on ord_order_id (set (view_orders v) \<union> F)"
    and "set (view_orders v) \<inter> F = {}" and "find_order i v = Some ord"
    and "\<And>r. apply_event e r = drop_active i r"
  shows "\<exists>d'. replays [e] d d' \<and> tracks d' (set (view_orders (spec_remove_order i v)) \<union> F)"
proof -
  have ord: "ord \<in> set (view_orders v)" "ord_order_id ord = i"
    using find_order_in [OF assms(4)] by (auto simp: view_orders_def)
  have "set (view_orders v) \<union> F - {ord} = set (view_orders (spec_remove_order i v)) \<union> F"
    using assms(2,3) ord by (auto simp: set_removed_orders dest: inj_onD)
  with replays_drop [OF assms(1,2), of ord e] ord assms(5) show ?thesis by auto
qed

fun fresh_id :: "command \<Rightarrow> int option" where
  "fresh_id (NewOrder cmd) = Some (new_order_id cmd)"
| "fresh_id (CancelOrder cmd) = None"
| "fresh_id (ReplaceOrder cmd) = Some (rep_new_order_id cmd)"

lemma representable_quantity:
  "require_representable (NewOrder ord) = Inr () \<Longrightarrow> 0 \<le> new_quantity ord"
  "require_representable (ReplaceOrder cmd) = Inr () \<Longrightarrow> 0 \<le> rep_new_quantity cmd"
  by (auto simp: require_uint_def bindR_Inr_iff split: if_splits)

lemma step_replays:
  assumes ok: "view_ok c iid latest v" and rep: "require_representable cmd = Inr ()"
    and acc: "accepts c iid cmd sq v" and step: "spec_step c iid cmd sq v = (es, v')"
    and foreign: "inj_on ord_order_id (set (view_orders v) \<union> F)" "set (view_orders v) \<inter> F = {}"
    and fresh: "\<And>i. fresh_id cmd = Some i \<Longrightarrow> i \<notin> ord_order_id ` F"
    and d: "tracks d (set (view_orders v) \<union> F)"
  shows "\<exists>d'. replays es d d' \<and> tracks d' (set (view_orders v') \<union> F)"
proof (cases cmd)
  case (NewOrder ord)
  let ?sd = "side_of (new_side ord)"
  let ?es = "[AcceptedEvent \<lparr>command_sequence = sq, event_index = 0, hdr_instrument_id = iid\<rparr> NEW]"
  obtain fills n w where add: "spec_add ?sd ord sq v = (fills, n, w)" by (metis prod_cases3)
  have rests: "residual_rests ord n \<Longrightarrow> new_limit_price ord \<noteq> None"
    using acc NewOrder
    by (auto simp: accepts_new_def validate_new_shape_def residual_rests_def split: if_splits option.splits)
  have "new_order_id ord \<notin> ord_order_id ` (set (view_orders v) \<union> F)"
    using acc NewOrder fresh by (auto simp: accepts_new_def find_order_absent)
  moreover have "replays ?es d d" by (intro replays_silent) simp
  ultimately have "\<exists>d'. replays (fst (spec_aggress iid ?sd ord sq v v ?es)) d d' \<and>
      tracks d' (set (view_orders w) \<union> F) \<and> snd (spec_aggress iid ?sd ord sq v v ?es) = w"
    using aggress_replays [OF ok _ add rests foreign] d representable_quantity(1) rep NewOrder by blast
  with spec_new_accepts [of c iid ord sq v] acc step NewOrder show ?thesis by auto
next
  case (CancelOrder ord)
  let ?i = "cancel_order_id ord"
  from acc CancelOrder obtain x where x: "find_order ?i v = Some x"
    by (auto simp: accepts_cancel_def split: option.splits)
  let ?a = "cancel_events ord sq (ord_remaining_quantity x)"
  have "\<And>r. apply_event (?a ! 1) r = drop_active ?i r" by (simp add: cancel_events_def apply_event_def Let_def)
  from cancel_replays [OF d foreign x this] obtain d' where
    d': "replays [?a ! 1] d d'" "tracks d' (set (view_orders (spec_remove_order ?i v)) \<union> F)" by blast
  have "replays (take 1 ?a @ ?a ! 1 # drop 2 ?a) d d'"
    by (rule replays_around [OF d'(1)]) (simp_all add: cancel_events_def Let_def)
  then have "replays ?a d d'" by (simp add: cancel_events_def Let_def)
  from with_top_change_replays [OF this, of iid sq v "spec_remove_order ?i v"] d'(2) spec_cancel_accepts [of iid ord v sq] acc step CancelOrder x
  show ?thesis by auto
next
  case (ReplaceOrder rep_cmd)
  let ?i = "rep_old_order_id rep_cmd"
  from acc ReplaceOrder obtain x where x: "find_order ?i v = Some x"
    by (auto simp: accepts_replace_def split: option.splits)
  let ?a = "replace_events rep_cmd sq (ord_remaining_quantity x)" and ?v = "spec_remove_order ?i v"
  let ?ord = "replacement_order rep_cmd x"
  have "\<And>r. apply_event (?a ! 2) r = drop_active ?i r"
    by (simp add: replace_events_def apply_event_def Let_def numeral_nat)
  from cancel_replays [OF d foreign x this] obtain d1 where
    d1: "replays [?a ! 2] d d1" "tracks d1 (set (view_orders ?v) \<union> F)" by blast
  have "replays (take 2 ?a @ ?a ! 2 # drop 3 ?a) d d1"
    by (rule replays_around [OF d1(1)]) (simp_all add: replace_events_def Let_def numeral_nat)
  then have es: "replays ?a d d1" by (simp add: replace_events_def Let_def numeral_nat)
  obtain fills n w where add: "spec_add (ord_side x) ?ord sq ?v = (fills, n, w)" by (metis prod_cases3)
  have sub: "set (view_orders ?v) \<subseteq> set (view_orders v)" by (auto simp: set_removed_orders)
  have new: "new_order_id ?ord \<notin> ord_order_id ` (set (view_orders ?v) \<union> F)"
    using acc ReplaceOrder fresh sub by (auto simp: accepts_replace_def find_order_absent replacement_order_def)
  have q: "0 \<le> new_quantity ?ord" "new_limit_price ?ord \<noteq> None"
    using representable_quantity(2) rep ReplaceOrder by (auto simp: replacement_order_def)
  have f: "inj_on ord_order_id (set (view_orders ?v) \<union> F)" "set (view_orders ?v) \<inter> F = {}"
    using foreign sub by (auto intro: inj_on_subset)
  from aggress_replays [OF remove_order_ok [OF ok] q(1) add q(2) f new es d1(2), of v]
    spec_replace_accepts [OF _ x, of c iid sq] acc step ReplaceOrder show ?thesis by auto
qed

section \<open>Where the orders after a step come from\<close>

lemma step_origin:
  assumes ok: "view_ok c iid latest v" and rep: "require_representable cmd = Inr ()"
    and acc: "accepts c iid cmd sq v" and step: "spec_step c iid cmd sq v = (es, v')"
    and x: "x \<in> set (view_orders v')"
  shows "(\<exists>y \<in> set (view_orders v). ord_order_id y = ord_order_id x \<and>
      ord_priority_sequence y = ord_priority_sequence x) \<or>
    fresh_id cmd = Some (ord_order_id x) \<and> ord_priority_sequence x = sq"
proof -
  have add: "(\<exists>y \<in> set (view_orders u). ord_order_id y = ord_order_id x \<and>
      ord_priority_sequence y = ord_priority_sequence x) \<or>
    ord_order_id x = new_order_id ord \<and> ord_priority_sequence x = sq"
    if u: "view_ok c iid latest u" and q: "0 \<le> new_quantity ord"
      and add: "spec_add sd ord sq u = (fills, n, w)" and mem: "x \<in> set (view_orders w)" for u ord sd fills n w
  proof -
    obtain os where m: "spec_match (limit_crosses sd (new_limit_price ord)) (new_quantity ord) (u (other_side sd)) =
        (fills, n, os)" using add by (auto simp: spec_add_def Let_def split: prod.splits)
    have rem: "\<exists>y \<in> set (u (other_side sd)). ord_order_id y = ord_order_id z \<and>
        ord_priority_sequence y = ord_priority_sequence z" if "z \<in> set os" for z
      using shrinks_elem [OF spec_match_shrinks [OF m view_ok_positive [OF u] q] that] by (force simp: remnant_def)
    have "x \<in> set os \<union> set (u sd) \<or> (\<exists>p. x = rested_order ord sd p n sq)"
      using add m mem
      by (auto simp: spec_add_def Let_def set_view_orders [of _ sd] split: option.splits if_splits)
    then show ?thesis using rem by (auto simp: set_view_orders [of u sd] rested_order_def)
  qed
  show ?thesis
  proof (cases cmd)
    case (NewOrder ord)
    obtain fills n w where w: "spec_add (side_of (new_side ord)) ord sq v = (fills, n, w)" by (metis prod_cases3)
    have "v' = w" using spec_new_accepts [of c iid ord sq v] acc step NewOrder w by (auto simp: spec_aggress_def)
    with add [OF ok _ w] x representable_quantity(1) rep NewOrder show ?thesis by auto
  next
    case (CancelOrder ord)
    with spec_cancel_accepts [of iid ord v sq] acc step x show ?thesis by (auto simp: set_removed_orders)
  next
    case (ReplaceOrder rep_cmd)
    from acc ReplaceOrder obtain y where y: "find_order (rep_old_order_id rep_cmd) v = Some y"
      by (auto simp: accepts_replace_def split: option.splits)
    let ?v = "spec_remove_order (rep_old_order_id rep_cmd) v" and ?ord = "replacement_order rep_cmd y"
    obtain fills n w where w: "spec_add (ord_side y) ?ord sq ?v = (fills, n, w)" by (metis prod_cases3)
    have "v' = w" using spec_replace_accepts [OF _ y, of c iid sq] acc step ReplaceOrder w by (auto simp: spec_aggress_def)
    moreover have "0 \<le> new_quantity ?ord" using representable_quantity(2) rep ReplaceOrder by (simp add: replacement_order_def)
    ultimately show ?thesis
      using add [OF remove_order_ok [OF ok] _ w] x ReplaceOrder by (auto simp: set_removed_orders replacement_order_def)
  qed
qed

end
