(* ===== verification/Router_Refinement.thy ===== *)
theory Router_Refinement
  imports Router_Directory
begin

text \<open>
  The router implements a venue of independent price-time books under one sequence, one identifier
  space and one capacity.  The abstract venue is the list of its books' views; a command is first
  judged against the whole venue and then is one step of one book.  The router's invariant ties its
  directory to the orders of its books and is what its own runtime checker looks for.
\<close>

section \<open>The abstract venue\<close>

type_synonym venue = "(int \<times> matching_config \<times> view) list"

definition venue_orders :: "venue \<Rightarrow> order list" where
  "venue_orders vs = concat (map (\<lambda>(iid, c, v). view_orders v) vs)"

definition find_venue_order :: "int \<Rightarrow> venue \<Rightarrow> order option" where
  "find_venue_order i vs = List.find (\<lambda>ord. ord_order_id ord = i) (venue_orders vs)"

text \<open>The venue-wide capacity: what the venue holds once the aggressor is through.\<close>

definition venue_fits :: "int \<Rightarrow> int \<Rightarrow> side \<Rightarrow> new_order \<Rightarrow> int \<Rightarrow> view \<Rightarrow> bool" where
  "venue_fits limit others sd ord sequence v =
     (let (fills, n, v') = spec_add sd ord sequence v in others + int (length (view_orders v')) \<le> limit)"

fun spec_screen ::
  "int \<Rightarrow> command \<Rightarrow> int \<Rightarrow> venue \<Rightarrow> matching_config \<Rightarrow> view \<Rightarrow> rejection option" where
  "spec_screen limit (NewOrder ord) sequence vs c v =
     (let oid = new_order_id ord; sd = side_of (new_side ord);
          others = int (length (venue_orders vs)) - int (length (view_orders v)) in
      first_failure
        [(max_order_quantity c < new_quantity ord, QUANTITY_OUT_OF_RANGE, Some oid),
         (case new_limit_price ord of None \<Rightarrow> False | Some p \<Rightarrow> p mod tick_increment c \<noteq> 0,
            INVALID_TICK, Some oid),
         (find_venue_order oid vs \<noteq> None, DUPLICATE_ORDER_ID, Some oid),
         (\<not> (spec_fits c sd ord sequence v \<and> venue_fits limit others sd ord sequence v),
            CAPACITY_EXCEEDED, Some oid)])"
| "spec_screen limit (CancelOrder cmd) sequence vs c v =
     (let oid = cancel_order_id cmd; existing = the (find_venue_order oid vs) in
      first_failure
        [(find_venue_order oid vs = None, UNKNOWN_ORDER_ID, Some oid),
         (ord_client_id existing \<noteq> cancel_client_id cmd, OWNERSHIP_MISMATCH, Some oid),
         (ord_instrument_id existing \<noteq> cancel_instrument_id cmd, INSTRUMENT_MISMATCH, Some oid)])"
| "spec_screen limit (ReplaceOrder cmd) sequence vs c v =
     (let old_id = rep_old_order_id cmd; new_id = rep_new_order_id cmd;
          old = the (find_venue_order old_id vs); ord = replacement_order cmd old; sd = ord_side old;
          v1 = spec_remove_order old_id v;
          others = int (length (venue_orders vs)) - int (length (view_orders v)) in
      first_failure
        [(max_order_quantity c < rep_new_quantity cmd, QUANTITY_OUT_OF_RANGE, Some new_id),
         (rep_new_limit_price cmd mod tick_increment c \<noteq> 0, INVALID_TICK, Some new_id),
         (find_venue_order old_id vs = None, UNKNOWN_ORDER_ID, Some old_id),
         (ord_client_id old \<noteq> rep_client_id cmd, OWNERSHIP_MISMATCH, Some old_id),
         (ord_instrument_id old \<noteq> rep_instrument_id cmd, INSTRUMENT_MISMATCH, Some old_id),
         (find_venue_order new_id vs \<noteq> None, INVALID_REPLACEMENT_ID, Some new_id),
         (\<not> (spec_fits c sd ord sequence v1 \<and> venue_fits limit others sd ord sequence v1),
            CAPACITY_EXCEEDED, Some new_id)])"

definition spec_route :: "int \<Rightarrow> command \<Rightarrow> int \<Rightarrow> venue \<Rightarrow> event list \<times> venue" where
  "spec_route limit cmd sequence vs =
     (let iid = command_instrument_id cmd;
          rejected = (\<lambda>rj. (spec_reject iid sequence (command_type_of cmd) rj, vs)) in
      case router_shape_rejection cmd of
        Some rj \<Rightarrow> rejected rj
      | None \<Rightarrow>
         (case map_of vs iid of
            None \<Rightarrow> rejected \<lparr>rej_reason = UNKNOWN_INSTRUMENT, rej_order_id = Some (relevant_order_id cmd)\<rparr>
          | Some (c, v) \<Rightarrow>
             (case spec_screen limit cmd sequence vs c v of
                Some rj \<Rightarrow> rejected rj
              | None \<Rightarrow>
                  (let (es, v') = spec_step c iid cmd sequence v in (es, AList.update iid (c, v') vs)))))"

section \<open>The router's invariant\<close>

definition venue_of :: "router \<Rightarrow> venue" where
  "venue_of r = map (\<lambda>(iid, e). (iid, eng_config e, view_of e)) (rtr_books r)"

definition book_ok :: "int \<Rightarrow> instrument_config \<Rightarrow> int \<times> engine \<Rightarrow> bool" where
  "book_ok latest entry b \<longleftrightarrow>
     fst b = ic_instrument_id entry \<and> engine_inv (snd b) \<and> eng_instrument_id (snd b) = fst b \<and>
     eng_config (snd b) = ic_matching entry \<and> eng_last_sequence (snd b) \<le> latest"

definition router_sequence_ok :: "router \<Rightarrow> bool" where
  "router_sequence_ok r \<longleftrightarrow>
     (if rtr_sequence_exhausted r then rtr_next_sequence r = 0 \<and> rtr_last_sequence r = U64_MAX
      else 1 \<le> rtr_next_sequence r \<and> rtr_next_sequence r \<le> U64_MAX \<and>
        rtr_last_sequence r = rtr_next_sequence r - 1)"

definition books_inv :: "router \<Rightarrow> bool" where
  "books_inv r \<longleftrightarrow>
     sorted_wrt (<) (map ic_instrument_id (rtr_catalog r)) \<and>
     list_all2 (book_ok (rtr_last_sequence r)) (rtr_catalog r) (rtr_books r) \<and>
     distinct (map ord_order_id (venue_orders (venue_of r))) \<and>
     distinct (map ord_priority_sequence (venue_orders (venue_of r)))"

definition router_inv :: "router \<Rightarrow> bool" where
  "router_inv r \<longleftrightarrow>
     \<not> rtr_poisoned r \<and> router_sequence_ok r \<and> books_inv r \<and>
     tracks (rtr_active r) (set (venue_orders (venue_of r))) \<and>
     int (length (rtr_active r)) \<le> max_total_active_orders (rtr_config r) \<and>
     max_total_active_orders (rtr_config r) \<le> U64_MAX"

lemma router_invD:
  assumes "router_inv r"
  shows "\<not> rtr_poisoned r" and "router_sequence_ok r" and "books_inv r"
    and "tracks (rtr_active r) (set (venue_orders (venue_of r)))"
    and "int (length (rtr_active r)) \<le> max_total_active_orders (rtr_config r)"
    and "length (rtr_active r) = length (venue_orders (venue_of r))"
    and "max_total_active_orders (rtr_config r) \<le> U64_MAX"
  using assms tracks_length by (auto simp: router_inv_def books_inv_def)

lemma books_invD:
  assumes "books_inv r"
  shows "map fst (rtr_books r) = map ic_instrument_id (rtr_catalog r)" and "dict_ok (rtr_books r)"
    and "\<And>iid e. map_of (rtr_books r) iid = Some e \<Longrightarrow>
      engine_inv e \<and> eng_instrument_id e = iid \<and> eng_last_sequence e \<le> rtr_last_sequence r"
proof -
  have all: "list_all2 (book_ok (rtr_last_sequence r)) (rtr_catalog r) (rtr_books r)"
    using assms by (simp add: books_inv_def)
  then show keys: "map fst (rtr_books r) = map ic_instrument_id (rtr_catalog r)"
    by (induction rule: list_all2_induct) (auto simp: book_ok_def)
  then show "dict_ok (rtr_books r)"
    using assms by (simp add: books_inv_def strict_sorted_iff)
  fix iid e assume "map_of (rtr_books r) iid = Some e"
  then have "(iid, e) \<in> set (rtr_books r)" by (rule map_of_SomeD)
  with all obtain entry where "book_ok (rtr_last_sequence r) entry (iid, e)"
    by (metis in_set_conv_nth list_all2_conv_all_nth)
  then show "engine_inv e \<and> eng_instrument_id e = iid \<and> eng_last_sequence e \<le> rtr_last_sequence r"
    by (simp add: book_ok_def)
qed

lemma venue_lookup:
  "map_of (venue_of r) iid = map_option (\<lambda>e. (eng_config e, view_of e)) (map_of (rtr_books r) iid)"
  using map_of_map [of "\<lambda>e. (eng_config e, view_of e)" "rtr_books r"] by (simp add: venue_of_def)

section \<open>Replacing one book\<close>

text \<open>The other books' orders are the frame of every operation on one book.\<close>

lemma dict_split:
  assumes "dict_ok d" and "map_of d k = Some v"
  obtains xs ys where "d = xs @ (k, v) # ys" "\<And>w. dict_setitem k w d = xs @ (k, w) # ys"
    "k \<notin> fst ` set xs" "k \<notin> fst ` set ys"
proof -
  from map_of_SomeD [OF assms(2)] obtain xs ys where d: "d = xs @ (k, v) # ys" by (meson split_list)
  with assms(1) have k: "k \<notin> fst ` set xs" "k \<notin> fst ` set ys" by auto
  have "dict_setitem k w d = xs @ (k, w) # ys" for w
    using k(1) unfolding d by (induction xs) (auto simp: dict_setitem_def)
  from that [OF d this k] show thesis .
qed

section \<open>Operations that only tidy price indexes\<close>

definition quiet :: "router \<Rightarrow> router \<Rightarrow> bool" where
  "quiet r r' \<longleftrightarrow> (\<exists>bs. r' = r\<lparr>rtr_books := bs\<rparr> \<and>
     list_all2 (\<lambda>b b'. fst b' = fst b \<and> heap_only (snd b) (snd b')) (rtr_books r) bs)"

lemma book_rep: "books_inv r \<Longrightarrow> (iid, e) \<in> set (rtr_books r) \<Longrightarrow> rep_ok e"
  using books_invD(2,3) by (fastforce simp: engine_inv_def core_inv_def)

lemma quiet_refl: "books_inv r \<Longrightarrow> quiet r r"
  unfolding quiet_def
  by (intro exI [of _ "rtr_books r"]) (auto simp: list.rel_refl_strong intro!: list.rel_refl_strong heap_only_refl dest: book_rep)

lemma quiet_fields:
  assumes "quiet r r'"
  shows "rtr_catalog r' = rtr_catalog r" and "rtr_config r' = rtr_config r" and "rtr_active r' = rtr_active r"
    and "rtr_next_sequence r' = rtr_next_sequence r" and "rtr_last_sequence r' = rtr_last_sequence r"
    and "rtr_sequence_exhausted r' = rtr_sequence_exhausted r" and "rtr_poisoned r' = rtr_poisoned r"
    and "rtr_check_invariants r' = rtr_check_invariants r"
  using assms by (auto simp: quiet_def)

lemma quiet_trans: "quiet r r' \<Longrightarrow> quiet r' r'' \<Longrightarrow> quiet r r''"
proof -
  assume "quiet r r'" and "quiet r' r''"
  then obtain bs bs' where b: "r' = r\<lparr>rtr_books := bs\<rparr>" "r'' = r\<lparr>rtr_books := bs'\<rparr>"
    "list_all2 (\<lambda>b b'. fst b' = fst b \<and> heap_only (snd b) (snd b')) (rtr_books r) bs"
    "list_all2 (\<lambda>b b'. fst b' = fst b \<and> heap_only (snd b) (snd b')) bs bs'"
    by (auto simp: quiet_def)
  have "list_all2 (\<lambda>b b'. fst b' = fst b \<and> heap_only (snd b) (snd b')) (rtr_books r) bs'"
    by (rule list_all2_trans [OF _ b(3,4)]) (auto intro: heap_only_trans)
  with b(2) show "quiet r r''" by (auto simp: quiet_def)
qed

lemma heap_only_observed:
  assumes "heap_only e e'"
  shows "eng_config e' = eng_config e" and "view_of e' = view_of e" and "eng_instrument_id e' = eng_instrument_id e"
    and "eng_last_sequence e' = eng_last_sequence e"
  using heap_only_fields(9) [OF assms] static_of_eqD [OF heap_only_fields(2) [OF assms]] by simp_all

lemma quiet_venue: "quiet r r' \<Longrightarrow> venue_of r' = venue_of r"
proof -
  assume "quiet r r'"
  then obtain bs where "r' = r\<lparr>rtr_books := bs\<rparr>"
    and all: "list_all2 (\<lambda>b b'. fst b' = fst b \<and> heap_only (snd b) (snd b')) (rtr_books r) bs"
    by (auto simp: quiet_def)
  moreover have "map (\<lambda>(iid, e). (iid, eng_config e, view_of e)) bs =
      map (\<lambda>(iid, e). (iid, eng_config e, view_of e)) (rtr_books r)"
    using all
    by (induction rule: list_all2_induct) (auto simp: case_prod_unfold heap_only_observed simp del: view_of_app)
  ultimately show ?thesis by (simp add: venue_of_def)
qed

lemma quiet_books: "quiet r r' \<Longrightarrow> books_inv r \<Longrightarrow> books_inv r'"
proof -
  assume q: "quiet r r'" and inv: "books_inv r"
  then obtain bs where r': "r' = r\<lparr>rtr_books := bs\<rparr>"
    and all: "list_all2 (\<lambda>b b'. fst b' = fst b \<and> heap_only (snd b) (snd b')) (rtr_books r) bs"
    by (auto simp: quiet_def)
  have "list_all2 (book_ok (rtr_last_sequence r)) (rtr_catalog r) bs"
  proof (rule list_all2_trans [OF _ _ all])
    show "list_all2 (book_ok (rtr_last_sequence r)) (rtr_catalog r) (rtr_books r)"
      using inv by (simp add: books_inv_def)
    show "book_ok (rtr_last_sequence r) entry b \<Longrightarrow> fst b' = fst b \<and> heap_only (snd b) (snd b') \<Longrightarrow>
        book_ok (rtr_last_sequence r) entry b'" for entry b b'
      using engine_inv_heap_only [of "snd b" "snd b'"] by (auto simp: book_ok_def heap_only_observed)
  qed
  with inv quiet_venue [OF q] r' show "books_inv r'" by (simp add: books_inv_def)
qed

lemma quiet_inv: "quiet r r' \<Longrightarrow> router_inv r \<Longrightarrow> router_inv r'"
  using quiet_books [of r r'] quiet_venue [of r r'] quiet_fields [of r r']
  by (simp add: router_inv_def router_sequence_ok_def)

lemma quiet_lookup:
  assumes "quiet r r'"
  shows "map_of (rtr_books r') iid = None \<longleftrightarrow> map_of (rtr_books r) iid = None"
    and "map_of (rtr_books r) iid = Some e \<Longrightarrow> \<exists>e'. map_of (rtr_books r') iid = Some e' \<and> heap_only e e'"
proof -
  from assms obtain bs where r': "r' = r\<lparr>rtr_books := bs\<rparr>"
    and all: "list_all2 (\<lambda>b b'. fst b' = fst b \<and> heap_only (snd b) (snd b')) (rtr_books r) bs"
    by (auto simp: quiet_def)
  from all have "(map_of bs iid = None \<longleftrightarrow> map_of (rtr_books r) iid = None) \<and>
      (\<forall>e. map_of (rtr_books r) iid = Some e \<longrightarrow> (\<exists>e'. map_of bs iid = Some e' \<and> heap_only e e'))"
    by (induction rule: list_all2_induct) auto
  with r' show "map_of (rtr_books r') iid = None \<longleftrightarrow> map_of (rtr_books r) iid = None"
    and "map_of (rtr_books r) iid = Some e \<Longrightarrow> \<exists>e'. map_of (rtr_books r') iid = Some e' \<and> heap_only e e'"
    by auto
qed

lemma on_book_quiet:
  assumes "books_inv r" and "map_of (rtr_books r) iid = Some e" and "m e = (Inr x, e')" and "heap_only e e'"
  shows "\<exists>r'. on_book iid m r = (Inr x, r') \<and> quiet r r' \<and> map_of (rtr_books r') iid = Some e'"
proof -
  obtain xs ys where b: "rtr_books r = xs @ (iid, e) # ys" "\<And>w. dict_setitem iid w (rtr_books r) = xs @ (iid, w) # ys"
    using dict_split [OF books_invD(2) [OF assms(1)] assms(2)] by metis
  have "heap_only (snd b) (snd b)" if "b \<in> set (rtr_books r)" for b
    using book_rep [OF assms(1), of "fst b" "snd b"] that by (simp add: heap_only_refl)
  then have "list_all2 (\<lambda>b b'. fst b' = fst b \<and> heap_only (snd b) (snd b')) (rtr_books r) (xs @ (iid, e') # ys)"
    using assms(4) unfolding b(1) by (auto intro!: list_all2_appendI list.rel_refl_strong)
  then have "quiet r (r\<lparr>rtr_books := dict_setitem iid e' (rtr_books r)\<rparr>)" by (auto simp: quiet_def b(2))
  then show ?thesis using assms(2,3) by (auto simp: on_book_def)
qed

section \<open>The router's own checks find nothing\<close>

lemma book_order_list:
  assumes "rep_ok e" and "tight_except {} e"
  shows "mset (map (deref e \<circ> snd) (eng_orders e)) = mset (view_orders (view_of e))"
proof -
  let ?os = "map (deref e \<circ> snd) (eng_orders e)"
  have keys: "dict_ok (eng_orders e)" using assms(1) by (simp add: rep_ok_def index_complete_def)
  have id: "ord_order_id (deref e (snd p)) = fst p" "queued e (snd p)" if "p \<in> set (eng_orders e)" for p
    using rep_ok_index [OF assms(1), of "fst p" "snd p"] that map_of_in_dict [OF keys, of "fst p" "snd p"] by auto
  have ids: "map ord_order_id ?os = map fst (eng_orders e)" using id(1) by simp
  have "set ?os = set (view_orders (view_of e))"
  proof (intro equalityI subsetI)
    fix x assume "x \<in> set ?os"
    then obtain p where p: "p \<in> set (eng_orders e)" "x = deref e (snd p)" by auto
    from queued_in_flat [OF assms(1) id(2) [OF p(1)]] p(2) show "x \<in> set (view_orders (view_of e))"
      by (cases "ord_side x") (auto simp: view_orders_def)
  next
    fix x assume "x \<in> set (view_orders (view_of e))"
    then obtain sd where "x \<in> set (flat sd e)" by (auto simp: view_orders_def)
    from in_flat_queued [OF this] obtain i where "queued e i" "x = deref e i" by blast
    then have "map_of (eng_orders e) (ord_order_id x) = Some i" using rep_ok_index [OF assms(1)] by simp
    from map_of_SomeD [OF this] \<open>x = deref e i\<close> show "x \<in> set ?os" by force
  qed
  moreover have "distinct ?os" using keys ids by (metis distinct_map)
  moreover have "distinct (view_orders (view_of e))"
    using flat_ids_distinct [OF assms(1)] by (auto simp: view_orders_def distinct_map)
  ultimately show ?thesis by (metis set_eq_iff_mset_eq_distinct)
qed

lemma routed_orders_clean:
  assumes "distinct (map ord_order_id os)" and "distinct (map ord_priority_sequence os)"
    and "\<forall>ord \<in> set os. 1 \<le> ord_priority_sequence ord \<and> ord_priority_sequence ord \<le> latest"
    and "ord_order_id ` set os \<inter> fst ` set (rs_expected sc) = {}"
    and "ord_priority_sequence ` set os \<inter> rs_priorities sc = {}"
  shows "fold (check_routed_order latest) os sc =
    sc\<lparr>rs_expected := rs_expected sc @ map entry_of os,
       rs_priorities := ord_priority_sequence ` set os \<union> rs_priorities sc\<rparr>"
  using assms
proof (induction os arbitrary: sc)
  case (Cons ord os)
  have "map_of (rs_expected sc) (ord_order_id ord) = None"
    using Cons.prems(4) by (auto simp: map_of_eq_None_iff)
  then have "check_routed_order latest ord sc =
      sc\<lparr>rs_expected := rs_expected sc @ [entry_of ord],
         rs_priorities := insert (ord_priority_sequence ord) (rs_priorities sc)\<rparr>"
    using Cons.prems(3,5) by (simp add: check_routed_order_def rflag_def setitem_fresh entry_of_def Let_def)
  with Cons show ?case by (auto simp: entry_of_def)
qed simp

abbreviation book_at :: "router \<Rightarrow> instrument_config \<Rightarrow> engine" where
  "book_at r entry \<equiv> the (map_of (rtr_books r) (ic_instrument_id entry))"

definition pending :: "router \<Rightarrow> instrument_config list \<Rightarrow> order list" where
  "pending r entries = concat (map (\<lambda>entry. view_orders (view_of (book_at r entry))) entries)"

definition unscanned :: "router \<Rightarrow> instrument_config list \<Rightarrow> router_scan \<Rightarrow> bool" where
  "unscanned r entries sc \<longleftrightarrow>
     distinct (map ord_order_id (pending r entries)) \<and>
     distinct (map ord_priority_sequence (pending r entries)) \<and>
     ord_order_id ` set (pending r entries) \<inter> fst ` set (rs_expected sc) = {} \<and>
     ord_priority_sequence ` set (pending r entries) \<inter> rs_priorities sc = {}"

definition configured :: "router \<Rightarrow> instrument_config \<Rightarrow> bool" where
  "configured r entry \<longleftrightarrow> (\<exists>e. map_of (rtr_books r) (ic_instrument_id entry) = Some e \<and>
     book_ok (rtr_last_sequence r) entry (ic_instrument_id entry, e))"

lemma check_book_clean:
  assumes "book_ok latest entry (iid, e)" and "distinct (map ord_order_id (view_orders (view_of e)))"
    and "distinct (map ord_priority_sequence (view_orders (view_of e)))"
    and "ord_order_id ` set (view_orders (view_of e)) \<inter> fst ` set (rs_expected sc) = {}"
    and "ord_priority_sequence ` set (view_orders (view_of e)) \<inter> rs_priorities sc = {}"
  shows "\<exists>e' sc'. check_book entry latest sc e = (Inr sc', e') \<and> heap_only e e' \<and>
    rs_errors sc' = rs_errors sc \<and>
    set (rs_expected sc') = set (rs_expected sc) \<union> entry_of ` set (view_orders (view_of e)) \<and>
    rs_priorities sc' = ord_priority_sequence ` set (view_orders (view_of e)) \<union> rs_priorities sc"
proof -
  have b: "engine_inv e" "eng_config e = ic_matching entry" "eng_last_sequence e \<le> latest"
    using assms(1) by (simp_all add: book_ok_def)
  from invariant_errors_clean [OF b(1)] obtain e' where e': "invariant_errors e = (Inr [], e')" "heap_only e e'"
    by blast
  note f = heap_only_fields [OF e'(2)] heap_only_observed [OF e'(2)]
  have tight: "tight_except {} e'" using b(1) f(8) by (simp add: engine_inv_def core_inv_def)
  let ?os = "map (deref e' \<circ> snd) (eng_orders e')"
  have ms: "mset ?os = mset (view_orders (view_of e))" using book_order_list [OF f(1) tight] f by simp
  have d: "distinct (map ord_order_id ?os)" "distinct (map ord_priority_sequence ?os)"
    using assms(2,3) mset_eq_imp_distinct_iff [of "map g ?os" "map g (view_orders (view_of e))" for g] ms
    by (metis mset_map)+
  have s: "set ?os = set (view_orders (view_of e))" using ms by (rule mset_eq_setD)
  have "\<forall>ord \<in> set ?os. 1 \<le> ord_priority_sequence ord \<and> ord_priority_sequence ord \<le> latest"
    unfolding s using b view_okD(2) [of "eng_config e" "eng_instrument_id e" "eng_last_sequence e" "view_of e"]
    by (fastforce simp: engine_inv_def core_inv_def view_orders_def order_ok_def)
  from routed_orders_clean [OF d this, of sc] assms(4,5) show ?thesis
    using e' f b by (auto simp: check_book_def bindP_def getsP_def rflag_def Let_def s simp flip: s)
qed

lemma check_books_clean:
  assumes "books_inv r" and "\<forall>entry \<in> set entries. configured r entry" and "unscanned r entries sc"
  shows "\<exists>r' sc'. check_books entries sc r = (Inr sc', r') \<and> quiet r r' \<and> rs_errors sc' = rs_errors sc \<and>
    set (rs_expected sc') = set (rs_expected sc) \<union> entry_of ` set (pending r entries)"
  using assms
proof (induction entries arbitrary: r sc)
  case Nil
  then show ?case using quiet_refl by (auto simp: pending_def)
next
  case (Cons entry entries)
  let ?iid = "ic_instrument_id entry"
  from Cons.prems(2) obtain e where e: "map_of (rtr_books r) ?iid = Some e"
    "book_ok (rtr_last_sequence r) entry (?iid, e)" by (auto simp: configured_def)
  have p: "pending r (entry # entries) = view_orders (view_of e) @ pending r entries"
    using e(1) by (simp add: pending_def)
  note u = Cons.prems(3) [unfolded unscanned_def p]
  obtain e' sc1 where c: "check_book entry (rtr_last_sequence r) sc e = (Inr sc1, e')" "heap_only e e'"
    "rs_errors sc1 = rs_errors sc"
    "set (rs_expected sc1) = set (rs_expected sc) \<union> entry_of ` set (view_orders (view_of e))"
    "rs_priorities sc1 = ord_priority_sequence ` set (view_orders (view_of e)) \<union> rs_priorities sc"
    using check_book_clean [OF e(2), of sc] u by (auto simp: image_Un Int_Un_distrib2)
  from on_book_quiet [where m = "check_book entry (rtr_last_sequence r) sc", OF Cons.prems(1) e(1) c(1,2)]
  obtain r1 where
    r1: "on_book ?iid (check_book entry (rtr_last_sequence r) sc) r = (Inr sc1, r1)" "quiet r r1" by blast
  have look: "configured r1 x \<and> view_of (book_at r1 x) = view_of (book_at r x)" if "configured r x" for x
    using that quiet_lookup(2) [OF r1(2)] quiet_fields(5) [OF r1(2)] engine_inv_heap_only
    by (fastforce simp: configured_def book_ok_def heap_only_observed)
  have p1: "pending r1 entries = pending r entries"
    unfolding pending_def using look Cons.prems(2) by (intro arg_cong [of _ _ concat] map_cong) auto
  have "unscanned r1 entries sc1"
    using u c(4,5) unfolding unscanned_def p1 by (auto simp: entry_of_def image_image image_Un)
  from Cons.IH [OF quiet_books [OF r1(2) Cons.prems(1)] _ this] Cons.prems(2) look obtain r2 sc2 where
    "check_books entries sc1 r1 = (Inr sc2, r2)" "quiet r1 r2" "rs_errors sc2 = rs_errors sc1"
    "set (rs_expected sc2) = set (rs_expected sc1) \<union> entry_of ` set (pending r entries)"
    unfolding p1 by auto
  then show ?case
    using e(1) r1 c quiet_trans [OF r1(2)] by (auto simp: bindP_def getsP_def p)
qed

lemma catalog_books:
  assumes "books_inv r"
  shows "map (book_at r) (rtr_catalog r) = map snd (rtr_books r)"
    and "\<forall>entry \<in> set (rtr_catalog r). configured r entry"
proof -
  let ?c = "rtr_catalog r" and ?b = "rtr_books r"
  have len: "length ?c = length ?b" and ok: "\<And>i. i < length ?c \<Longrightarrow> book_ok (rtr_last_sequence r) (?c ! i) (?b ! i)"
    using assms by (auto simp: books_inv_def list_all2_conv_all_nth)
  have at: "map_of ?b (ic_instrument_id (?c ! i)) = Some (snd (?b ! i))" if "i < length ?c" for i
  proof -
    have "(fst (?b ! i), snd (?b ! i)) \<in> set ?b" using that len by simp
    then have "map_of ?b (fst (?b ! i)) = Some (snd (?b ! i))"
      using map_of_in_dict [OF books_invD(2) [OF assms]] by blast
    with ok [OF that] show ?thesis by (simp add: book_ok_def)
  qed
  then show "map (book_at r) ?c = map snd ?b" using len by (auto intro: nth_equalityI)
  show "\<forall>entry \<in> set ?c. configured r entry"
  proof
    fix entry assume "entry \<in> set ?c"
    then obtain i where i: "i < length ?c" "entry = ?c ! i" by (auto simp: in_set_conv_nth)
    from ok [OF i(1)] have "fst (?b ! i) = ic_instrument_id (?c ! i)" by (simp add: book_ok_def)
    with at [OF i(1)] ok [OF i(1)] i(2) show "configured r entry"
      by (auto simp: configured_def) (metis prod.collapse)
  qed
qed

lemma pending_all:
  assumes "books_inv r"
  shows "pending r (rtr_catalog r) = venue_orders (venue_of r)"
proof -
  have "pending r (rtr_catalog r) = concat (map (view_orders \<circ> view_of) (map (book_at r) (rtr_catalog r)))"
    by (simp add: pending_def comp_def del: view_of_app)
  also have "\<dots> = venue_orders (venue_of r)"
    unfolding catalog_books(1) [OF assms]
    by (simp add: venue_orders_def venue_of_def comp_def case_prod_unfold del: view_of_app)
  finally show ?thesis .
qed

lemma router_invariant_errors_clean:
  assumes inv: "router_inv r"
  shows "\<exists>r'. router_invariant_errors r = (Inr [], r') \<and> quiet r r'"
proof -
  let ?sc = "\<lparr>rs_expected = [], rs_priorities = {}, rs_errors = []\<rparr> :: router_scan"
  note d = router_invD [OF inv]
  have cat: "sorted_wrt (<) (map ic_instrument_id (rtr_catalog r))" using d(3) by (simp add: books_inv_def)
  have ids: "set (map fst (rtr_books r)) = set (map ic_instrument_id (rtr_catalog r))"
    by (simp only: books_invD(1) [OF d(3)])
  have "distinct (map ic_instrument_id (rtr_catalog r))" "sorted (map ic_instrument_id (rtr_catalog r))"
    using cat by (simp_all add: strict_sorted_iff)
  then have "check_catalog r sc = sc" for sc
    unfolding check_catalog_def Let_def ids
    using distinct_card [of "map ic_instrument_id (rtr_catalog r)"] by (simp add: rflag_def sorted_sort_id)
  moreover have "check_router_sequence r (rflag (rtr_poisoned r) RouterPoisoned ?sc) = ?sc"
    using d(1,2) by (auto simp: check_router_sequence_def rflag_def router_sequence_ok_def)
  ultimately have "check_catalog r (check_router_sequence r (rflag (rtr_poisoned r) RouterPoisoned ?sc)) = ?sc"
    by simp
  moreover have "unscanned r (rtr_catalog r) ?sc"
    using d(3) by (simp add: unscanned_def pending_all books_inv_def)
  ultimately show ?thesis
    using check_books_clean [OF d(3) catalog_books(2) [OF d(3)], of ?sc] d(4,5) quiet_fields
    by (auto simp: router_invariant_errors_def bindP_def getsP_def rflag_def tracks_def pending_all [OF d(3)])
qed

lemma router_assert_clean:
  assumes "router_inv r"
  shows "\<exists>r'. router_assert_invariants r = (Inr (), r') \<and> quiet r r' \<and> router_inv r'"
  using router_invariant_errors_clean [OF assms] quiet_inv [OF _ assms]
  by (auto simp: router_assert_invariants_def bindP_def)

section \<open>Screening a command\<close>

text \<open>The orders of the other books are a frame: what one book holds, and the rest of the venue.\<close>

lemma venue_split:
  assumes "dict_ok (rtr_books r)" and "map_of (rtr_books r) iid = Some e"
  obtains A B where "venue_orders (venue_of r) = A @ view_orders (view_of e) @ B"
    "\<And>r' e'. rtr_books r' = dict_setitem iid e' (rtr_books r) \<Longrightarrow>
      venue_orders (venue_of r') = A @ view_orders (view_of e') @ B"
    "\<And>ord. ord \<in> set (A @ B) \<Longrightarrow> \<exists>j b. j \<noteq> iid \<and> map_of (rtr_books r) j = Some b \<and> ord \<in> set (view_orders (view_of b))"
proof -
  obtain xs ys where b: "rtr_books r = xs @ (iid, e) # ys" "\<And>w. dict_setitem iid w (rtr_books r) = xs @ (iid, w) # ys"
    "iid \<notin> fst ` set xs" "iid \<notin> fst ` set ys"
    using dict_split [OF assms] by metis
  let ?o = "\<lambda>bs. venue_orders (map (\<lambda>(iid, e). (iid, eng_config e, view_of e)) bs)"
  have "?o (xs @ (iid, w) # ys) = ?o xs @ view_orders (view_of w) @ ?o ys" for w
    by (simp add: venue_orders_def)
  moreover have "\<exists>j b. j \<noteq> iid \<and> map_of (rtr_books r) j = Some b \<and> ord \<in> set (view_orders (view_of b))"
    if ord: "ord \<in> set (?o xs @ ?o ys)" for ord
  proof -
    from ord obtain j w where p: "(j, w) \<in> set xs \<or> (j, w) \<in> set ys" "ord \<in> set (view_orders (view_of w))"
      by (auto simp: venue_orders_def)
    then have "j \<noteq> iid" and "(j, w) \<in> set (rtr_books r)" using b(1,3,4) by force+
    with map_of_in_dict [OF assms(1)] p(2) show ?thesis by blast
  qed
  ultimately show thesis using that [of "?o xs" "?o ys"] b(1,2) by (simp add: venue_of_def)
qed

lemma find_by_id:
  assumes "distinct (map ord_order_id os)"
  shows "List.find (\<lambda>ord. ord_order_id ord = i) os = Some x \<longleftrightarrow> x \<in> set os \<and> ord_order_id x = i"
    and "List.find (\<lambda>ord. ord_order_id ord = i) os = None \<longleftrightarrow> i \<notin> ord_order_id ` set os"
  using assms by (induction os) (auto simp: image_iff)

text \<open>The directory answers for the venue.\<close>

lemma directory_lookup:
  assumes "router_inv r"
  shows "map_of (rtr_active r) i = map_option identity_of (find_venue_order i (venue_of r))"
proof -
  note d = router_invD [OF assms]
  have dist: "distinct (map ord_order_id (venue_orders (venue_of r)))" using d(3) by (simp add: books_inv_def)
  show ?thesis
  proof (cases "find_venue_order i (venue_of r)")
    case None
    then show ?thesis using tracks_absent [OF d(4), of i] find_by_id(2) [OF dist] by (simp add: find_venue_order_def)
  next
    case (Some x)
    then have "x \<in> set (venue_orders (venue_of r)) \<and> ord_order_id x = i"
      using find_by_id(1) [OF dist] by (simp add: find_venue_order_def)
    then have "map_of (rtr_active r) i = Some (identity_of x)" using tracks_lookup [OF d(4)] by blast
    with Some show ?thesis by simp
  qed
qed

text \<open>An order of the venue with a book's instrument is an order of that book.\<close>

lemma venue_order_book:
  assumes inv: "router_inv r" and e: "map_of (rtr_books r) iid = Some e"
  shows "find_venue_order i (venue_of r) = Some x \<and> ord_instrument_id x = iid \<longleftrightarrow> find_order i (view_of e) = Some x"
    and "find_venue_order i (venue_of r) = None \<Longrightarrow> find_order i (view_of e) = None"
proof -
  note d = router_invD [OF inv]
  have dist: "distinct (map ord_order_id (venue_orders (venue_of r)))" using d(3) by (simp add: books_inv_def)
  obtain A B where ab: "venue_orders (venue_of r) = A @ view_orders (view_of e) @ B"
    "\<And>ord. ord \<in> set (A @ B) \<Longrightarrow> \<exists>j b. j \<noteq> iid \<and> map_of (rtr_books r) j = Some b \<and> ord \<in> set (view_orders (view_of b))"
    using venue_split [OF books_invD(2) [OF d(3)] e] by metis
  have own: "ord_instrument_id y = j" if "map_of (rtr_books r) j = Some b" "y \<in> set (view_orders (view_of b))" for y j b
    using books_invD(3) [OF d(3) that(1)] view_okD(2) that(2)
    by (fastforce simp: engine_inv_def core_inv_def view_orders_def order_ok_def)
  have mem: "y \<in> set (venue_orders (venue_of r)) \<and> ord_instrument_id y = iid \<longleftrightarrow> y \<in> set (view_orders (view_of e))" for y
  proof
    assume y: "y \<in> set (venue_orders (venue_of r)) \<and> ord_instrument_id y = iid"
    show "y \<in> set (view_orders (view_of e))"
    proof (rule ccontr)
      assume "y \<notin> set (view_orders (view_of e))"
      with y have "y \<in> set (A @ B)" by (auto simp: ab(1))
      from ab(2) [OF this] own y show False by blast
    qed
  next
    assume "y \<in> set (view_orders (view_of e))"
    with own [OF e] show "y \<in> set (venue_orders (venue_of r)) \<and> ord_instrument_id y = iid" by (simp add: ab(1))
  qed
  have dv: "distinct (map ord_order_id (view_orders (view_of e)))" using dist by (simp add: ab(1))
  show "find_venue_order i (venue_of r) = Some x \<and> ord_instrument_id x = iid \<longleftrightarrow> find_order i (view_of e) = Some x"
    using mem [of x] find_by_id(1) [OF dist, of i x] find_by_id(1) [OF dv, of i x]
    unfolding find_venue_order_def find_order_def view_orders_def by blast
  show "find_venue_order i (venue_of r) = None \<Longrightarrow> find_order i (view_of e) = None"
    using find_by_id(2) [OF dist, of i] by (auto simp: find_venue_order_def find_order_absent ab(1))
qed

definition others_count :: "router \<Rightarrow> engine \<Rightarrow> int" where
  "others_count r e = int (length (venue_orders (venue_of r))) - int (length (view_orders (view_of e)))"

lemma length_view_orders: "length (view_orders v) = length (v sd) + length (v (other_side sd))"
  by (cases sd) (simp_all add: view_orders_def)

lemma removed_lengths:
  assumes "rep_ok e" and "\<And>i. removes_old = Some i \<Longrightarrow> queued e i \<and> ord_side (deref e i) = sd"
  shows "removed_view e removes_old (other_side sd) = flat (other_side sd) e"
    and "int (length (removed_view e removes_old sd)) = int (length (flat sd e)) - (if removes_old \<noteq> None then 1 else 0)"
  using assms(2) flat_other_absent [OF assms(1)]
    spec_remove_one(1) [OF flat_ids_side [OF assms(1)] queued_in_flat [OF assms(1)]]
  by (auto simp: removed_view_def spec_remove_order_def split: option.splits)

lemma router_capacity_spec:
  assumes inv: "router_inv r" and e: "map_of (rtr_books r) iid = Some e"
    and ag: "aggresses sd ord" and q: "0 \<le> new_quantity ord"
    and rests: "\<And>n. residual_rests ord n \<Longrightarrow> new_limit_price ord \<noteq> None"
    and old: "\<And>i. removes_old = Some i \<Longrightarrow> queued e i \<and> ord_side (deref e i) = sd"
  defines "v \<equiv> removed_view e removes_old"
  shows "\<exists>r'. router_capacity_allows iid ord removes_old r =
      (Inr (spec_fits (eng_config e) sd ord sq v \<and>
        venue_fits (max_total_active_orders (rtr_config r)) (others_count r e) sd ord sq v), r') \<and> quiet r r'"
proof -
  note d = router_invD [OF inv]
  have core: "rep_ok e" "tight_except {} e" and vok: "all_positive (flat (other_side sd) e)"
    using books_invD(3) [OF d(3) e] view_ok_positive [of _ _ _ "view_of e"]
    by (auto simp: engine_inv_def core_inv_def)
  have "\<exists>e1. capacity_allows ord removes_old e = (Inr (spec_fits (eng_config e) sd ord sq v), e1) \<and> heap_only e e1"
    unfolding v_def using rests old by (intro capacity_allows_spec [OF ag core vok q]) auto
  then obtain e1 where
    e1: "capacity_allows ord removes_old e = (Inr (spec_fits (eng_config e) sd ord sq v), e1)" "heap_only e e1"
    by blast
  from on_book_quiet [where m = "capacity_allows ord removes_old", OF d(3) e e1] obtain r1 where
    r1: "on_book iid (capacity_allows ord removes_old) r = (Inr (spec_fits (eng_config e) sd ord sq v), r1)"
    "quiet r r1" "map_of (rtr_books r1) iid = Some e1" by blast
  show ?thesis
  proof (cases "spec_fits (eng_config e) sd ord sq v")
    case False
    then show ?thesis using r1 by (auto simp: router_capacity_allows_def bindP_def)
  next
    case True
    obtain fills n os where m: "spec_match (limit_crosses sd (new_limit_price ord)) (new_quantity ord)
        (flat (other_side sd) e) = (fills, n, os)" by (metis prod_cases3)
    note f1 = heap_only_fields [OF e1(2)]
    have "tight_except {} e1" "all_positive (flat (other_side sd) e1)" using core vok f1 by simp_all
    from project_fills_spec [OF ag f1(1) this q, of fills n os] m f1(7) obtain e2 where
      e2: "project_fills ord e1 = (Inr \<lparr>proj_remaining_quantity = n,
          proj_terminal_passive_count = int (length (flat (other_side sd) e)) - int (length os)\<rparr>, e2)" "heap_only e1 e2"
      by auto
    from on_book_quiet [where m = "project_fills ord", OF quiet_books [OF r1(2) d(3)] r1(3) e2] obtain r2 where
      r2: "on_book iid (project_fills ord) r1 = (Inr \<lparr>proj_remaining_quantity = n,
          proj_terminal_passive_count = int (length (flat (other_side sd) e)) - int (length os)\<rparr>, r2)" "quiet r1 r2"
      by blast
    have rl: "v (other_side sd) = flat (other_side sd) e"
      "int (length (v sd)) = int (length (flat sd e)) - (if removes_old \<noteq> None then 1 else 0)"
      unfolding v_def using old by (intro removed_lengths [OF core(1)]; blast)+
    obtain v' where v': "spec_add sd ord sq v = (fills, n, v')"
      using m rl(1) by (simp add: spec_add_def Let_def)
    have lens: "int (length (view_orders v')) = int (length (flat sd e)) - (if removes_old \<noteq> None then 1 else 0)
        + int (length os) + (if residual_rests ord n then 1 else 0)"
      using v' m rests [of n] rl
      by (auto simp: spec_add_def Let_def length_view_orders [of _ sd] split: option.splits if_splits)
    have total: "others_count r e = int (length (rtr_active r)) - int (length (flat sd e)) - int (length (flat (other_side sd) e))"
      using d(6) by (simp add: others_count_def length_view_orders [of _ sd])
    have "venue_fits (max_total_active_orders (rtr_config r)) (others_count r e) sd ord sq v \<longleftrightarrow>
      int (length (rtr_active r)) - (int (length (flat (other_side sd) e)) - int (length os)) -
        (if removes_old \<noteq> None then 1 else 0) + (if residual_rests ord n then 1 else 0)
        \<le> max_total_active_orders (rtr_config r)"
      by (auto simp: venue_fits_def v' lens total)
    with True r1 r2 quiet_trans [OF r1(2) r2(2)] quiet_fields [OF quiet_trans [OF r1(2) r2(2)]] show ?thesis
      by (auto simp: router_capacity_allows_def bindP_def getsP_def)
  qed
qed

section \<open>Prevalidation decides as the venue does\<close>

lemma booked_new:
  assumes inv: "router_inv r" and e: "map_of (rtr_books r) (new_instrument_id ord) = Some e"
    and rep: "require_representable (NewOrder ord) = Inr ()" and shape: "validate_new_shape ord = NONE"
    and val: "router_validate_new e ord r = None"
  shows "validate_new ord e = None"
proof -
  have b: "rep_ok e" "eng_instrument_id e = new_instrument_id ord"
    using books_invD(3) [OF router_invD(3) [OF inv] e] by (simp_all add: engine_inv_def core_inv_def)
  have "find_venue_order (new_order_id ord) (venue_of r) = None"
    using val directory_lookup [OF inv] by (auto simp: router_validate_new_def Let_def split: if_splits)
  from venue_order_book(2) [OF inv e this] val shape b(2) show ?thesis
    unfolding validate_new_first [OF b(1)] first_failure_None
    by (auto simp: router_validate_new_def validate_new_shape_def is_valid_order_type_def Let_def
        split: if_splits option.splits)
qed

lemma prevalidate_new_spec:
  assumes inv: "router_inv r" and e: "map_of (rtr_books r) (new_instrument_id ord) = Some e"
    and rep: "require_representable (NewOrder ord) = Inr ()" and shape: "validate_new_shape ord = NONE"
  shows "\<exists>r'. prevalidate_new e ord r =
      (Inr (spec_screen (max_total_active_orders (rtr_config r)) (NewOrder ord) sq (venue_of r)
        (eng_config e) (view_of e)), r') \<and> quiet r r'"
proof (cases "router_validate_new e ord r")
  case (Some rj)
  have "new_order_type ord = order_type_value LIMIT \<or> new_limit_price ord = None"
    using shape by (auto simp: validate_new_shape_def is_valid_order_type_def split: if_splits)
  then have "spec_screen (max_total_active_orders (rtr_config r)) (NewOrder ord) sq (venue_of r)
      (eng_config e) (view_of e) = Some rj"
    using Some directory_lookup [OF inv, of "new_order_id ord"]
    by (auto simp: router_validate_new_def Let_def split: if_splits option.splits)
  then show ?thesis
    using Some quiet_refl [OF router_invD(3) [OF inv]] by (simp add: prevalidate_new_def)
next
  case None
  note v = validated_new [OF rep booked_new [OF inv e rep shape None]]
  note ag = new_order_aggresses [OF v(1)]
  have q: "0 \<le> new_quantity ord" using v(1) by (simp add: new_order_ok_def)
  have rests: "residual_rests ord n \<Longrightarrow> new_limit_price ord \<noteq> None" for n
    using new_order_ok_rests [OF v(1)] by blast
  have view: "removed_view e None = view_of e" by (simp add: removed_view_def)
  have "\<exists>r'. router_capacity_allows (new_instrument_id ord) ord None r =
      (Inr (spec_fits (eng_config e) (side_of (new_side ord)) ord sq (removed_view e None) \<and>
        venue_fits (max_total_active_orders (rtr_config r)) (others_count r e) (side_of (new_side ord)) ord sq
          (removed_view e None)), r') \<and> quiet r r'"
    using rests by (intro router_capacity_spec [OF inv e ag q]) auto
  then obtain r' where
    r': "router_capacity_allows (new_instrument_id ord) ord None r =
      (Inr (spec_fits (eng_config e) (side_of (new_side ord)) ord sq (view_of e) \<and>
        venue_fits (max_total_active_orders (rtr_config r)) (others_count r e) (side_of (new_side ord)) ord sq (view_of e)), r')"
    "quiet r r'" unfolding view by auto
  have "spec_screen (max_total_active_orders (rtr_config r)) (NewOrder ord) sq (venue_of r) (eng_config e) (view_of e) =
    (if spec_fits (eng_config e) (side_of (new_side ord)) ord sq (view_of e) \<and>
        venue_fits (max_total_active_orders (rtr_config r)) (others_count r e) (side_of (new_side ord)) ord sq (view_of e)
     then None else Some \<lparr>rej_reason = CAPACITY_EXCEEDED, rej_order_id = Some (new_order_id ord)\<rparr>)"
    using None directory_lookup [OF inv, of "new_order_id ord"] v(1)
    by (auto simp: router_validate_new_def others_count_def new_order_ok_def Let_def split: if_splits option.splits)
  with r' None show ?thesis by (simp add: prevalidate_new_def bindP_def getsP_def)
qed

lemma validated_replace_router:
  assumes inv: "router_inv r" and e: "map_of (rtr_books r) (rep_instrument_id cmd) = Some e"
    and rep: "require_representable (ReplaceOrder cmd) = Inr ()" and shape: "validate_replace_shape cmd = NONE"
    and q: "rep_new_quantity cmd \<le> max_order_quantity (eng_config e)"
      "rep_new_limit_price cmd mod tick_increment (eng_config e) = 0"
    and old: "find_venue_order (rep_old_order_id cmd) (venue_of r) = Some old"
      "ord_client_id old = rep_client_id cmd" "ord_instrument_id old = rep_instrument_id cmd"
    and new: "find_venue_order (rep_new_order_id cmd) (venue_of r) = None"
  shows "\<exists>i. map_of (eng_orders e) (rep_old_order_id cmd) = Some i \<and> deref e i = old \<and> queued e i \<and>
    new_order_ok (eng_config e) (eng_instrument_id e) (ord_side old) (replacement_order cmd old) \<and>
    find_order (rep_old_order_id cmd) (view_of e) = Some old \<and>
    find_order (rep_new_order_id cmd) (view_of e) = None"
proof -
  have b: "core_inv (eng_last_sequence e) e" "rep_ok e" "eng_instrument_id e = rep_instrument_id cmd"
    using books_invD(3) [OF router_invD(3) [OF inv] e] core_invD(1) by (auto simp: engine_inv_def)
  have f: "find_order (rep_old_order_id cmd) (view_of e) = Some old"
    using venue_order_book(1) [OF inv e] old by blast
  have g: "find_order (rep_new_order_id cmd) (view_of e) = None" by (rule venue_order_book(2) [OF inv e new])
  have "validate_replace cmd e = None"
    unfolding validate_replace_first [OF b(1)] first_failure_None using f g b(3) q old shape by simp
  from validated_replace [OF b(1) rep this] obtain i where i: "map_of (eng_orders e) (rep_old_order_id cmd) = Some i"
    "new_order_ok (eng_config e) (eng_instrument_id e) (ord_side (deref e i)) (replacement_order cmd (deref e i))"
    by blast
  have "deref e i = old" using f i(1) by (simp add: find_order_index [OF b(2)])
  with i f g stored_order_ok(1) [OF b(1) i(1)] show ?thesis by auto
qed

lemma prevalidate_replace_spec:
  assumes inv: "router_inv r" and e: "map_of (rtr_books r) (rep_instrument_id cmd) = Some e"
    and rep: "require_representable (ReplaceOrder cmd) = Inr ()" and shape: "validate_replace_shape cmd = NONE"
  shows "\<exists>r'. prevalidate_replace e cmd r =
      (Inr (spec_screen (max_total_active_orders (rtr_config r)) (ReplaceOrder cmd) sq (venue_of r)
        (eng_config e) (view_of e)), r') \<and> quiet r r'"
proof -
  let ?old = "find_venue_order (rep_old_order_id cmd) (venue_of r)"
  let ?cond = "rep_new_quantity cmd \<le> max_order_quantity (eng_config e) \<and>
      rep_new_limit_price cmd mod tick_increment (eng_config e) = 0 \<and>
      (case ?old of None \<Rightarrow> False
       | Some old \<Rightarrow> ord_client_id old = rep_client_id cmd \<and> ord_instrument_id old = rep_instrument_id cmd) \<and>
      find_venue_order (rep_new_order_id cmd) (venue_of r) = None"
  note look = directory_lookup [OF inv, of "rep_old_order_id cmd"] directory_lookup [OF inv, of "rep_new_order_id cmd"]
  show ?thesis
  proof (cases ?cond)
    case False
    then have "\<exists>rj. router_validate_replace e cmd r = Inr (Some rj, None) \<and>
        spec_screen (max_total_active_orders (rtr_config r)) (ReplaceOrder cmd) sq (venue_of r)
          (eng_config e) (view_of e) = Some rj"
      using look by (auto simp: router_validate_replace_def identity_of_def not_le Let_def split: option.splits)
    then show ?thesis
      using quiet_refl [OF router_invD(3) [OF inv]]
      by (auto simp: prevalidate_replace_def bindP_def getsP_def simp del: spec_screen.simps)
  next
    case True
    then obtain old where c: "rep_new_quantity cmd \<le> max_order_quantity (eng_config e)"
      "rep_new_limit_price cmd mod tick_increment (eng_config e) = 0" "?old = Some old"
      "ord_client_id old = rep_client_id cmd" "ord_instrument_id old = rep_instrument_id cmd"
      "find_venue_order (rep_new_order_id cmd) (venue_of r) = None" by (auto split: option.splits)
    from validated_replace_router [OF inv e rep shape c] obtain i where
      i: "map_of (eng_orders e) (rep_old_order_id cmd) = Some i" "deref e i = old" "queued e i"
        "new_order_ok (eng_config e) (eng_instrument_id e) (ord_side old) (replacement_order cmd old)"
        "find_order (rep_old_order_id cmd) (view_of e) = Some old" by blast
    let ?ord = "replacement_order cmd old" and ?v = "removed_view e (Some i)" and ?sd = "ord_side old"
    have id: "ord_order_id old = rep_old_order_id cmd" using find_order_in(2) [OF i(5)] .
    have view: "?v = spec_remove_order (rep_old_order_id cmd) (view_of e)" by (simp add: removed_view_def i(2) id)
    have q: "0 \<le> new_quantity ?ord" using i(4) by (simp add: new_order_ok_def)
    have rests: "residual_rests ?ord n \<Longrightarrow> new_limit_price ?ord \<noteq> None" for n by (simp add: replacement_order_def)
    let ?ok = "spec_fits (eng_config e) ?sd ?ord sq ?v \<and>
        venue_fits (max_total_active_orders (rtr_config r)) (others_count r e) ?sd ?ord sq ?v"
    have "\<exists>r'. router_capacity_allows (rep_instrument_id cmd) ?ord (Some i) r = (Inr ?ok, r') \<and> quiet r r'"
      using rests i(2,3) by (intro router_capacity_spec [OF inv e new_order_aggresses [OF i(4)] q]) auto
    then obtain r' where r': "router_capacity_allows (rep_instrument_id cmd) ?ord (Some i) r = (Inr ?ok, r')" "quiet r r'"
      by blast
    have "router_validate_replace e cmd r = Inr (None, Some i)"
      using c i(1) look by (simp add: router_validate_replace_def identity_of_def Let_def)
    moreover have "spec_screen (max_total_active_orders (rtr_config r)) (ReplaceOrder cmd) sq (venue_of r)
          (eng_config e) (view_of e) = (if ?ok then None else
            Some \<lparr>rej_reason = CAPACITY_EXCEEDED, rej_order_id = Some (rep_new_order_id cmd)\<rparr>)"
      unfolding view using c by (auto simp: others_count_def Let_def)
    ultimately show ?thesis using r' i(2) by (auto simp: prevalidate_replace_def bindP_def getsP_def)
  qed
qed

lemma prevalidate_spec:
  assumes inv: "router_inv r" and e: "map_of (rtr_books r) (command_instrument_id cmd) = Some e"
    and rep: "require_representable cmd = Inr ()" and shape: "router_shape_rejection cmd = None"
  shows "\<exists>r'. prevalidate e cmd r =
      (Inr (spec_screen (max_total_active_orders (rtr_config r)) cmd sq (venue_of r)
        (eng_config e) (view_of e)), r') \<and> quiet r r'"
proof (cases cmd)
  case (NewOrder ord)
  then have "validate_new_shape ord = NONE" using shape by (simp add: Let_def split: if_splits)
  with prevalidate_new_spec [OF inv] e rep NewOrder show ?thesis by (simp add: prevalidate_def)
next
  case (CancelOrder c)
  then show ?thesis
    using directory_lookup [OF inv, of "cancel_order_id c"] quiet_refl [OF router_invD(3) [OF inv]]
    by (auto simp: prevalidate_def router_validate_cancel_def identity_of_def getsP_def Let_def split: option.splits)
next
  case (ReplaceOrder c)
  then have "validate_replace_shape c = NONE" using shape by (simp add: Let_def split: if_splits)
  with prevalidate_replace_spec [OF inv] e rep ReplaceOrder show ?thesis by (simp add: prevalidate_def)
qed

text \<open>What the venue lets through, the book accepts, and the identifier is fresh in the venue.\<close>

lemma screened_accepts:
  assumes inv: "router_inv r" and e: "map_of (rtr_books r) (command_instrument_id cmd) = Some e"
    and rep: "require_representable cmd = Inr ()" and shape: "router_shape_rejection cmd = None"
    and ok: "spec_screen limit cmd sq (venue_of r) (eng_config e) (view_of e) = None"
  shows "accepts (eng_config e) (eng_instrument_id e) cmd sq (view_of e)"
    and "fresh_id cmd = Some i \<Longrightarrow> find_venue_order i (venue_of r) = None"
proof -
  have iid: "eng_instrument_id e = command_instrument_id cmd"
    using books_invD(3) [OF router_invD(3) [OF inv] e] by simp
  show "fresh_id cmd = Some i \<Longrightarrow> find_venue_order i (venue_of r) = None"
    using ok by (cases cmd) (auto simp: Let_def first_failure_None simp del: first_failure.simps)
  show "accepts (eng_config e) (eng_instrument_id e) cmd sq (view_of e)"
  proof (cases cmd)
    case (NewOrder ord)
    with ok shape iid venue_order_book(2) [OF inv e, of "new_order_id ord"] show ?thesis
      by (auto simp: accepts_new_def Let_def first_failure_None not_less simp del: first_failure.simps
          split: if_splits option.splits)
  next
    case (CancelOrder c)
    with ok obtain x where x: "find_venue_order (cancel_order_id c) (venue_of r) = Some x"
      "ord_client_id x = cancel_client_id c" "ord_instrument_id x = cancel_instrument_id c"
      by (auto simp: Let_def first_failure_None simp del: first_failure.simps)
    then have "find_order (cancel_order_id c) (view_of e) = Some x"
      using venue_order_book(1) [OF inv e] CancelOrder by auto
    with x shape iid CancelOrder show ?thesis by (auto simp: accepts_cancel_def Let_def split: if_splits)
  next
    case (ReplaceOrder c)
    with ok obtain x where x: "find_venue_order (rep_old_order_id c) (venue_of r) = Some x"
      "ord_client_id x = rep_client_id c" "ord_instrument_id x = rep_instrument_id c"
      "rep_new_quantity c \<le> max_order_quantity (eng_config e)"
      "rep_new_limit_price c mod tick_increment (eng_config e) = 0"
      "find_venue_order (rep_new_order_id c) (venue_of r) = None"
      "spec_fits (eng_config e) (ord_side x) (replacement_order c x) sq (spec_remove_order (rep_old_order_id c) (view_of e))"
      by (auto simp: Let_def first_failure_None not_less simp del: first_failure.simps)
    then have "find_order (rep_old_order_id c) (view_of e) = Some x"
      using venue_order_book(1) [OF inv e] ReplaceOrder by auto
    with x shape iid ReplaceOrder venue_order_book(2) [OF inv e x(6)] show ?thesis
      by (auto simp: accepts_replace_def Let_def split: if_splits)
  qed
qed

end
