(* ===== verification/Router_Machine.thy ===== *)
theory Router_Machine
  imports Router_Refinement
begin

text \<open>
  The router as a state machine.  Each command is one step of the abstract venue; the invariant holds
  in every router that the constructor and any interleaving of its operations can reach, so the
  router never raises one of its internal errors and is never poisoned.
\<close>

section \<open>Issuing a sequence number\<close>

definition issued :: "router \<Rightarrow> router" where
  "issued r = snd (router_issue_sequence r)"

text \<open>A number that no book has seen.\<close>

definition unseen_by_books :: "int \<Rightarrow> router \<Rightarrow> bool" where
  "unseen_by_books n r \<longleftrightarrow> (\<forall>iid e. map_of (rtr_books r) iid = Some e \<longrightarrow> eng_last_sequence e < n)"

lemma issue_spec:
  assumes inv: "router_inv r" and "\<not> rtr_sequence_exhausted r"
  shows "router_issue_sequence r = (Inr (Some (rtr_next_sequence r)), issued r)" and "router_inv (issued r)"
    and "unseen_by_books (rtr_next_sequence r) (issued r)"
    and "rtr_last_sequence (issued r) = rtr_next_sequence r" "venue_of (issued r) = venue_of r"
    and "rtr_config (issued r) = rtr_config r" and "rtr_catalog (issued r) = rtr_catalog r"
    and "rtr_check_invariants (issued r) = rtr_check_invariants r" and "rtr_active (issued r) = rtr_active r"
    and "1 \<le> rtr_next_sequence r" and "rtr_next_sequence r \<le> U64_MAX"
    and "if rtr_next_sequence r = U64_MAX then rtr_sequence_exhausted (issued r)
      else \<not> rtr_sequence_exhausted (issued r) \<and> rtr_next_sequence (issued r) = rtr_next_sequence r + 1"
proof -
  note d = router_invD [OF inv]
  have n: "1 \<le> rtr_next_sequence r" "rtr_next_sequence r \<le> U64_MAX" "rtr_last_sequence r < rtr_next_sequence r"
    using d(2) assms(2) by (auto simp: router_sequence_ok_def)
  then show "1 \<le> rtr_next_sequence r" and "rtr_next_sequence r \<le> U64_MAX" by simp_all
  show "router_issue_sequence r = (Inr (Some (rtr_next_sequence r)), issued r)"
    using assms(2) by (simp add: router_issue_sequence_def issued_def Let_def)
  have f: "rtr_books (issued r) = rtr_books r" "rtr_catalog (issued r) = rtr_catalog r"
    "rtr_active (issued r) = rtr_active r" "rtr_config (issued r) = rtr_config r"
    "rtr_last_sequence (issued r) = rtr_next_sequence r" "rtr_poisoned (issued r) = rtr_poisoned r"
    "rtr_check_invariants (issued r) = rtr_check_invariants r" "router_sequence_ok (issued r)"
    using assms(2) n by (auto simp: router_issue_sequence_def issued_def router_sequence_ok_def Let_def)
  from f show "rtr_last_sequence (issued r) = rtr_next_sequence r" "rtr_config (issued r) = rtr_config r"
    "rtr_catalog (issued r) = rtr_catalog r" "rtr_check_invariants (issued r) = rtr_check_invariants r"
    "rtr_active (issued r) = rtr_active r" by simp_all
  show venue: "venue_of (issued r) = venue_of r" by (simp add: venue_of_def f(1))
  have "list_all2 (book_ok (rtr_next_sequence r)) (rtr_catalog r) (rtr_books r)"
    by (rule list_all2_mono [of "book_ok (rtr_last_sequence r)"]) (use d(3) n(3) in \<open>auto simp: books_inv_def book_ok_def\<close>)
  then show "router_inv (issued r)" using d f venue by (simp add: router_inv_def books_inv_def)
  show "unseen_by_books (rtr_next_sequence r) (issued r)"
    using books_invD(3) [OF d(3)] n(3) by (fastforce simp: unseen_by_books_def f)
  show "if rtr_next_sequence r = U64_MAX then rtr_sequence_exhausted (issued r)
      else \<not> rtr_sequence_exhausted (issued r) \<and> rtr_next_sequence (issued r) = rtr_next_sequence r + 1"
    using assms(2) by (simp add: router_issue_sequence_def issued_def Let_def)
qed

lemma unseen_quiet: "unseen_by_books n r \<Longrightarrow> quiet r r' \<Longrightarrow> unseen_by_books n r'"
proof -
  assume n: "unseen_by_books n r" and q: "quiet r r'"
  have "eng_last_sequence e' < n" if e': "map_of (rtr_books r') iid = Some e'" for iid e'
  proof -
    obtain e where e: "map_of (rtr_books r) iid = Some e"
      using quiet_lookup(1) [OF q, of iid] e' by (cases "map_of (rtr_books r) iid") auto
    from quiet_lookup(2) [OF q e] e' have "heap_only e e'" by simp
    with heap_only_observed(4) n e show ?thesis by (simp add: unseen_by_books_def)
  qed
  then show "unseen_by_books n r'" by (simp add: unseen_by_books_def)
qed

section \<open>Delegating a screened command\<close>

lemma list_all2_update:
  "list_all2 P cs (xs @ b # ys) \<Longrightarrow> (\<And>c. P c b \<Longrightarrow> P c b') \<Longrightarrow> list_all2 P cs (xs @ b' # ys)"
  by (induction xs arbitrary: cs) (auto simp: list_all2_Cons2)

lemma screened_fits:
  assumes "spec_screen limit cmd sq vs c v = None" and "accepts c iid cmd sq v"
    and "spec_step c iid cmd sq v = (es, v')" and "int (length (venue_orders vs)) \<le> limit"
    and same: "\<And>i x. find_order i v = Some x \<Longrightarrow> find_venue_order i vs = Some x"
  shows "int (length (venue_orders vs)) - int (length (view_orders v)) + int (length (view_orders v')) \<le> limit"
proof (cases cmd)
  case (NewOrder ord)
  obtain fills n w where w: "spec_add (side_of (new_side ord)) ord sq v = (fills, n, w)" by (metis prod_cases3)
  have "v' = w" using spec_new_accepts [of c iid ord sq v] assms(2,3) NewOrder w by (auto simp: spec_aggress_def)
  with assms(1) NewOrder w show ?thesis
    by (simp add: Let_def first_failure_None venue_fits_def del: first_failure.simps)
next
  case (CancelOrder ord)
  then have "v' = spec_remove_order (cancel_order_id ord) v"
    using spec_cancel_accepts [of iid ord v sq] assms(2,3) by simp
  then have "length (view_orders v') \<le> length (view_orders v)"
    using add_mono [OF length_filter_le length_filter_le]
    by (simp add: view_orders_def spec_remove_order_def spec_remove_def)
  with assms(4) show ?thesis by simp
next
  case (ReplaceOrder cmd')
  from assms(2) ReplaceOrder obtain y where y: "find_order (rep_old_order_id cmd') v = Some y"
    by (auto simp: accepts_replace_def split: option.splits)
  let ?v = "spec_remove_order (rep_old_order_id cmd') v" and ?ord = "replacement_order cmd' y"
  obtain fills n w where w: "spec_add (ord_side y) ?ord sq ?v = (fills, n, w)" by (metis prod_cases3)
  have "v' = w"
    using spec_replace_accepts [OF _ y, of c iid sq] assms(2,3) ReplaceOrder w by (auto simp: spec_aggress_def)
  with assms(1) ReplaceOrder w same [OF y] show ?thesis
    by (simp add: Let_def first_failure_None venue_fits_def del: first_failure.simps)
qed

lemma distinct_middle:
  assumes "distinct (map f (A @ X @ B))" and "distinct (map f Y)" and "f ` set Y \<inter> f ` set (A @ B) = {}"
  shows "distinct (map f (A @ Y @ B))"
proof -
  have "f ` set A \<inter> f ` set B = {}" "f ` set Y \<inter> f ` set A = {}" "f ` set Y \<inter> f ` set B = {}"
    using assms(1,3) by (auto simp: image_Un)
  then show ?thesis using assms(1,2) by (simp add: Int_Un_distrib Int_commute)
qed

lemma routed_inv:
  assumes inv: "router_inv r" and e: "map_of (rtr_books r) iid = Some e"
    and n: "unseen_by_books n r" "rtr_last_sequence r = n"
    and vok: "view_ok (eng_config e) iid latest (view_of e)" and rep: "require_representable cmd = Inr ()"
    and acc: "accepts (eng_config e) iid cmd n (view_of e)"
    and step: "spec_step (eng_config e) iid cmd n (view_of e) = (es, v')"
    and e': "engine_inv e'" "eng_last_sequence e' = n" "eng_config e' = eng_config e" "eng_instrument_id e' = iid"
      "view_of e' = v'"
    and ab: "venue_orders (venue_of r) = A @ view_orders (view_of e) @ B"
      "\<And>ord. ord \<in> set (A @ B) \<Longrightarrow> \<exists>j b. j \<noteq> iid \<and> map_of (rtr_books r) j = Some b \<and> ord \<in> set (view_orders (view_of b))"
    and new: "\<And>i. fresh_id cmd = Some i \<Longrightarrow> i \<notin> ord_order_id ` set (A @ B)"
    and d: "tracks d (set (view_orders v') \<union> set (A @ B))"
    and fits: "int (length A + length (view_orders v') + length B) \<le> max_total_active_orders (rtr_config r)"
    and r': "r' = r\<lparr>rtr_books := dict_setitem iid e' (rtr_books r), rtr_active := d\<rparr>"
    and orders: "venue_orders (venue_of r') = A @ view_orders v' @ B"
  shows "router_inv r'"
proof -
  note i = router_invD [OF inv]
  obtain xs ys where b: "rtr_books r = xs @ (iid, e) # ys" "\<And>w. dict_setitem iid w (rtr_books r) = xs @ (iid, w) # ys"
    using dict_split [OF books_invD(2) [OF i(3)] e] by metis
  have "list_all2 (book_ok n) (rtr_catalog r) (xs @ (iid, e') # ys)"
    by (rule list_all2_update [where b = "(iid, e)"])
      (use i(3) e' n(2) in \<open>auto simp: books_inv_def book_ok_def simp flip: b(1)\<close>)
  then have books: "list_all2 (book_ok (rtr_last_sequence r')) (rtr_catalog r') (rtr_books r')"
    using b(2) n(2) by (simp add: r')
  have v'ok: "view_ok (eng_config e') iid n v'" using engine_view_ok [OF e'(1)] e' by simp
  have old: "ord_priority_sequence y < n" if "y \<in> set (A @ B)" for y
  proof -
    from ab(2) [OF that] obtain j w where w: "map_of (rtr_books r) j = Some w" "y \<in> set (view_orders (view_of w))" by blast
    have "engine_inv w" using books_invD(3) [OF i(3) w(1)] by simp
    from view_okD(2) [OF engine_view_ok [OF this]] w(2) have "ord_priority_sequence y \<le> eng_last_sequence w"
      by (auto simp: view_orders_def order_ok_def)
    also have "\<dots> < n" using n(1) w(1) by (simp add: unseen_by_books_def)
    finally show ?thesis .
  qed
  have dist: "distinct (map ord_order_id (A @ view_orders (view_of e) @ B))"
    "distinct (map ord_priority_sequence (A @ view_orders (view_of e) @ B))"
    using i(3) unfolding ab(1) [symmetric] by (simp_all add: books_inv_def)
  have disj: "ord_order_id ` set (view_orders (view_of e)) \<inter> ord_order_id ` set (A @ B) = {}"
    "ord_priority_sequence ` set (view_orders (view_of e)) \<inter> ord_priority_sequence ` set (A @ B) = {}"
    using dist by (auto simp: image_Un)
  have apart: "ord_order_id x \<notin> ord_order_id ` set (A @ B) \<and>
      ord_priority_sequence x \<notin> ord_priority_sequence ` set (A @ B)" if x: "x \<in> set (view_orders v')" for x
    using step_origin [OF vok rep acc step x]
  proof (elim disjE bexE conjE)
    fix y assume "y \<in> set (view_orders (view_of e))" "ord_order_id y = ord_order_id x"
      "ord_priority_sequence y = ord_priority_sequence x"
    then show ?thesis using disj by (metis disjoint_iff imageI)
  next
    assume "fresh_id cmd = Some (ord_order_id x)" "ord_priority_sequence x = n"
    with new old show ?thesis by force
  qed
  have disjI: "f ` X \<inter> Y = {}" if "\<And>x. x \<in> X \<Longrightarrow> f x \<notin> Y" for f :: "order \<Rightarrow> int" and X Y
    using that by blast
  have far: "ord_order_id ` set (view_orders v') \<inter> ord_order_id ` set (A @ B) = {}"
    "ord_priority_sequence ` set (view_orders v') \<inter> ord_priority_sequence ` set (A @ B) = {}"
    by (rule disjI, use apart in metis)+
  have ids: "distinct (map ord_order_id (A @ view_orders v' @ B))"
    "distinct (map ord_priority_sequence (A @ view_orders v' @ B))"
    by (rule distinct_middle [OF dist(1) view_okD(3) [OF v'ok, folded view_orders_def] far(1)],
        rule distinct_middle [OF dist(2) view_okD(4) [OF v'ok, folded view_orders_def] far(2)])
  have "length d = length (A @ view_orders v' @ B)"
    by (rule tracks_length [OF _ ids(1)]) (use d in \<open>simp add: Un_ac\<close>)
  with books ids fits d i show ?thesis
    unfolding router_inv_def books_inv_def orders by (auto simp: r' router_sequence_ok_def Un_ac books_inv_def)
qed

lemma delegate_spec:
  assumes inv: "router_inv r" and e: "map_of (rtr_books r) iid = Some e"
    and n: "unseen_by_books n r" "rtr_last_sequence r = n" "n \<le> U64_MAX"
    and rep: "require_representable cmd = Inr ()"
    and acc: "accepts (eng_config e) iid cmd n (view_of e)"
    and fresh: "\<And>i. fresh_id cmd = Some i \<Longrightarrow> find_venue_order i (venue_of r) = None"
    and ok: "spec_screen (max_total_active_orders (rtr_config r)) cmd n (venue_of r) (eng_config e) (view_of e) = None"
    and step: "spec_step (eng_config e) iid cmd n (view_of e) = (es, v')"
  shows "\<exists>e' d. delegate iid cmd n r =
      (Inr (accepted_result es), r\<lparr>rtr_books := dict_setitem iid e' (rtr_books r), rtr_active := d\<rparr>) \<and>
    router_inv (r\<lparr>rtr_books := dict_setitem iid e' (rtr_books r), rtr_active := d\<rparr>) \<and>
    eng_config e' = eng_config e \<and> view_of e' = v'"
proof -
  note d = router_invD [OF inv]
  note dict = books_invD(2) [OF d(3)]
  have b: "engine_inv e" "eng_instrument_id e = iid" using books_invD(3) [OF d(3) e] by simp_all
  have last: "eng_last_sequence e < n" using n(1) e by (simp add: unseen_by_books_def)
  then have "\<not> eng_sequence_exhausted e" using b(1) n(3) by (auto simp: engine_inv_def sequence_ok_def)
  from execute_at_sequence_refines [OF b(1) rep this last n(3)] step b(2) obtain e' where
    e': "execute_at_sequence cmd n e = (Inr (accepted_result es), e')" "engine_inv e'" "eng_last_sequence e' = n"
      "static_of e' = static_of (observe_sequence n e)" "view_of e' = v'" by auto
  have cfg: "eng_config e' = eng_config e" "eng_instrument_id e' = iid"
    using static_of_eqD [OF e'(4)] b(2) by simp_all
  from venue_split [OF dict e] obtain A B where
    ab: "venue_orders (venue_of r) = A @ view_orders (view_of e) @ B"
      "\<And>r' w. rtr_books r' = dict_setitem iid w (rtr_books r) \<Longrightarrow> venue_orders (venue_of r') = A @ view_orders (view_of w) @ B"
      "\<And>ord. ord \<in> set (A @ B) \<Longrightarrow> \<exists>j b. j \<noteq> iid \<and> map_of (rtr_books r) j = Some b \<and> ord \<in> set (view_orders (view_of b))"
    by metis
  let ?F = "set (A @ B)" and ?V = "set (view_orders (view_of e))"
  have dist: "distinct (map ord_order_id (venue_orders (venue_of r)))"
    "distinct (map ord_priority_sequence (venue_orders (venue_of r)))" using d(3) by (simp_all add: books_inv_def)
  have U: "set (venue_orders (venue_of r)) = ?V \<union> ?F" by (auto simp: ab(1))
  have foreign: "inj_on ord_order_id (?V \<union> ?F)" "?V \<inter> ?F = {}"
    using dist(1) unfolding U [symmetric] by (simp add: distinct_map) (use dist(1) in \<open>auto simp: ab(1)\<close>)
  have new: "i \<notin> ord_order_id ` (?V \<union> ?F)" if "fresh_id cmd = Some i" for i
    using fresh [OF that] unfolding U [symmetric] by (auto simp: find_venue_order_def find_None_iff)
  note vok = engine_view_ok [OF b(1), unfolded b(2)]
  obtain d' where d': "replays es (rtr_active r) d'" "tracks d' (set (view_orders v') \<union> ?F)"
    using step_replays [OF vok rep acc step foreign] new d(4) unfolding U by fastforce
  let ?r = "r\<lparr>rtr_books := dict_setitem iid e' (rtr_books r), rtr_active := d'\<rparr>"
  have del: "delegate iid cmd n r = (Inr (accepted_result es), ?r)"
  proof -
    have "with_active (r\<lparr>rtr_books := dict_setitem iid e' (rtr_books r)\<rparr>) (rtr_active r) =
        r\<lparr>rtr_books := dict_setitem iid e' (rtr_books r)\<rparr>" by (simp add: with_active_def)
    then have ap: "apply_events es (r\<lparr>rtr_books := dict_setitem iid e' (rtr_books r)\<rparr>) = (Inr (), ?r)"
      using d'(1) unfolding replays_def by (metis with_active_def router.select_convs router.update_convs)
    have "result_committed (accepted_result es)"
      using spec_step_accepts_hd [OF acc] step by (simp add: result_committed_def accepted_result_def batch_committed_def)
    with ap e'(1) e show ?thesis
      by (simp add: delegate_def on_book_def bindP_def seqP_def accepted_result_def)
  qed
  have orders: "venue_orders (venue_of ?r) = A @ view_orders v' @ B" using ab(2) [of ?r e'] e'(5) by simp
  have same: "find_venue_order i (venue_of r) = Some x" if "find_order i (view_of e) = Some x" for i x
    using venue_order_book(1) [OF inv e] that by blast
  have fits: "int (length A + length (view_orders v') + length B) \<le> max_total_active_orders (rtr_config r)"
    using screened_fits [OF ok acc step _ same] d(5,6) by (simp add: ab(1))
  have "router_inv ?r"
    by (rule routed_inv [OF inv e n(1,2) vok rep acc step e'(2,3) cfg e'(5) ab(1,3) _ d'(2) fits refl orders])
      (use new in auto)
  with del cfg(1) e'(5) show ?thesis by blast
qed

section \<open>Executing a command\<close>

lemma alist_update_map:
  "AList.update k (f v) (map (\<lambda>(i, x). (i, f x)) d) = map (\<lambda>(i, x). (i, f x)) (dict_setitem k v d)"
  by (induction d) (auto simp: dict_setitem_def)

lemma venue_update:
  assumes "rtr_books r' = dict_setitem iid e' (rtr_books r)"
  shows "venue_of r' = AList.update iid (eng_config e', view_of e') (venue_of r)"
  using alist_update_map [of iid "\<lambda>e. (eng_config e, view_of e)" e' "rtr_books r"] assms
  by (simp add: venue_of_def)

definition routed :: "router \<Rightarrow> router \<Rightarrow> bool" where
  "routed r r' \<longleftrightarrow> rtr_catalog r' = rtr_catalog r \<and> rtr_config r' = rtr_config r \<and>
     rtr_next_sequence r' = rtr_next_sequence r \<and> rtr_last_sequence r' = rtr_last_sequence r \<and>
     rtr_sequence_exhausted r' = rtr_sequence_exhausted r \<and> rtr_check_invariants r' = rtr_check_invariants r"

lemma routed_quiet: "quiet r r' \<Longrightarrow> routed r r'"
  using quiet_fields [of r r'] by (simp add: routed_def)

lemma routed_trans: "routed r r' \<Longrightarrow> routed r' r'' \<Longrightarrow> routed r r''"
  by (simp add: routed_def)

lemma router_reject_ok:
  "sequence \<noteq> 0 \<Longrightarrow> router_reject sequence cmd rj =
     Inr (accepted_result (spec_reject (command_instrument_id cmd) sequence (command_type_of cmd) rj))"
  using reject_ok [of sequence "command_instrument_id cmd" "command_type_of cmd" rj]
  by (simp add: router_reject_def reject_def)

lemma execute_sequenced_spec:
  assumes inv: "router_inv r" and n: "unseen_by_books n r" "rtr_last_sequence r = n" "1 \<le> n" "n \<le> U64_MAX"
    and rep: "require_representable cmd = Inr ()"
    and spec: "spec_route (max_total_active_orders (rtr_config r)) cmd n (venue_of r) = (es, vs)"
  shows "\<exists>r'. execute_sequenced cmd n r = (Inr (accepted_result es), r') \<and> router_inv r' \<and>
    venue_of r' = vs \<and> routed r r'"
proof -
  let ?iid = "command_instrument_id cmd" and ?limit = "max_total_active_orders (rtr_config r)"
  note rj = router_reject_ok [of n cmd]
  have self: "router_inv r \<and> routed r r" using inv by (simp add: routed_def)
  show ?thesis
  proof (cases "router_shape_rejection cmd")
    case (Some x)
    then show ?thesis using spec rj n(3) self by (auto simp: spec_route_def execute_sequenced_def)
  next
    case shape: None
    show ?thesis
    proof (cases "map_of (rtr_books r) ?iid")
      case None
      then show ?thesis
        using spec rj n(3) self shape by (auto simp: spec_route_def execute_sequenced_def venue_lookup getsP_def bindP_def)
    next
      case (Some e)
      from prevalidate_spec [OF inv Some rep shape] obtain r1 where
        r1: "prevalidate e cmd r = (Inr (spec_screen ?limit cmd n (venue_of r) (eng_config e) (view_of e)), r1)" "quiet r r1"
        by blast
      note q = quiet_inv [OF r1(2) inv] quiet_venue [OF r1(2)] quiet_fields [OF r1(2)]
      show ?thesis
      proof (cases "spec_screen ?limit cmd n (venue_of r) (eng_config e) (view_of e)")
        case (Some x)
        then show ?thesis
          using spec rj n(3) shape \<open>map_of (rtr_books r) ?iid = Some e\<close> r1 q routed_quiet [OF r1(2)]
          by (auto simp: spec_route_def execute_sequenced_def venue_lookup getsP_def bindP_def)
      next
        case ok: None
        obtain e1 where e1: "map_of (rtr_books r1) ?iid = Some e1" "heap_only e e1"
          using quiet_lookup(2) [OF r1(2) Some] by blast
        note h = heap_only_observed [OF e1(2)]
        have iid: "eng_instrument_id e1 = ?iid"
          using books_invD(3) [OF router_invD(3) [OF q(1)] e1(1)] by simp
        have ok1: "spec_screen (max_total_active_orders (rtr_config r1)) cmd n (venue_of r1) (eng_config e1) (view_of e1) = None"
          using ok q h by simp
        note acc = screened_accepts [OF q(1) e1(1) rep shape ok1, unfolded iid]
        obtain es' v' where step: "spec_step (eng_config e1) ?iid cmd n (view_of e1) = (es', v')" by (metis prod.exhaust)
        have n1: "rtr_last_sequence r1 = n" using q n(2) by simp
        from delegate_spec [OF q(1) e1(1) unseen_quiet [OF n(1) r1(2)] n1 n(4) rep acc ok1 step] obtain e' d where
          del: "delegate ?iid cmd n r1 = (Inr (accepted_result es'),
              r1\<lparr>rtr_books := dict_setitem ?iid e' (rtr_books r1), rtr_active := d\<rparr>)"
            "router_inv (r1\<lparr>rtr_books := dict_setitem ?iid e' (rtr_books r1), rtr_active := d\<rparr>)"
            "eng_config e' = eng_config e1" "view_of e' = v'" by blast
        let ?r = "r1\<lparr>rtr_books := dict_setitem ?iid e' (rtr_books r1), rtr_active := d\<rparr>"
        have "(es, vs) = (es', AList.update ?iid (eng_config e, v') (venue_of r))"
          using spec shape Some ok step h by (simp add: spec_route_def venue_lookup)
        moreover have "venue_of ?r = AList.update ?iid (eng_config e1, v') (venue_of r1)"
          using venue_update [of ?r ?iid e' r1] del(3,4) by simp
        moreover have "routed r ?r" using routed_quiet [OF r1(2)] by (simp add: routed_def)
        moreover have "execute_sequenced cmd n r = (Inr (accepted_result es'), ?r)"
          using shape Some r1 ok del(1) by (simp add: execute_sequenced_def getsP_def bindP_def)
        ultimately show ?thesis using del(2) q(2) h by auto
      qed
    qed
  qed
qed

lemma router_execute_refines:
  assumes inv: "router_inv r" and rep: "require_representable cmd = Inr ()" and ex: "\<not> rtr_sequence_exhausted r"
    and spec: "spec_route (max_total_active_orders (rtr_config r)) cmd (rtr_next_sequence r) (venue_of r) = (es, vs)"
  shows "\<exists>r'. router_execute cmd r = (Inr (accepted_result es), r') \<and> router_inv r' \<and> venue_of r' = vs \<and>
    routed (issued r) r'"
proof -
  note i = issue_spec [OF inv ex]
  from execute_sequenced_spec [OF i(2,3,4,10,11) rep] spec i(5,6) obtain r1 where
    r1: "execute_sequenced cmd (rtr_next_sequence r) (issued r) = (Inr (accepted_result es), r1)" "router_inv r1"
      "venue_of r1 = vs" "routed (issued r) r1" by auto
  from router_assert_clean [OF r1(2)] obtain r2 where
    r2: "router_assert_invariants r1 = (Inr (), r2)" "quiet r1 r2" "router_inv r2" by blast
  let ?r = "if rtr_check_invariants r1 then r2 else r1"
  have "router_execute cmd r = (Inr (accepted_result es), ?r)"
    using router_invD(1) [OF inv] rep i(1) r1(1) r2(1)
    by (simp add: router_execute_def router_ensure_usable_def seqP_def bindP_def getsP_def)
  moreover have "routed (issued r) ?r" using r1(4) routed_trans routed_quiet [OF r2(2)] by auto
  moreover have "router_inv ?r \<and> venue_of ?r = vs" using r1 r2 quiet_venue [OF r2(2)] by auto
  ultimately show ?thesis by blast
qed

lemma router_execute_unrepresentable:
  assumes "router_inv r" and "require_representable cmd = Inl x"
  shows "router_execute cmd r = (Inl x, r)"
  using assms router_invD(1) [OF assms(1)]
  by (simp add: router_execute_def router_ensure_usable_def seqP_def bindP_def)

lemma router_execute_exhausted:
  assumes "router_inv r" and "require_representable cmd = Inr ()" and "rtr_sequence_exhausted r"
  shows "router_execute cmd r = (Inr \<lparr>result_batch = None, result_error = Some SEQUENCE_EXHAUSTED\<rparr>, r)"
  using assms router_invD(1) [OF assms(1)]
  by (simp add: router_execute_def router_ensure_usable_def seqP_def bindP_def router_issue_sequence_def
      ReferenceResult_def)

lemma router_execute_inv: "router_inv r \<Longrightarrow> router_inv (snd (router_execute cmd r))"
proof -
  assume inv: "router_inv r"
  consider (bad) x where "require_representable cmd = Inl x"
    | (over) "require_representable cmd = Inr ()" "rtr_sequence_exhausted r"
    | (run) "require_representable cmd = Inr ()" "\<not> rtr_sequence_exhausted r"
    by (cases "require_representable cmd") auto
  then show ?thesis
  proof cases
    case bad
    then show ?thesis using router_execute_unrepresentable [OF inv] inv by simp
  next
    case over
    then show ?thesis using router_execute_exhausted [OF inv] inv by simp
  next
    case run
    obtain es vs where "spec_route (max_total_active_orders (rtr_config r)) cmd (rtr_next_sequence r) (venue_of r) = (es, vs)"
      by (metis prod.exhaust)
    from router_execute_refines [OF inv run this] show ?thesis by auto
  qed
qed

section \<open>Construction\<close>

definition instrument_config_ok :: "instrument_config \<Rightarrow> bool" where
  "instrument_config_ok entry \<longleftrightarrow>
     1 \<le> ic_instrument_id entry \<and> ic_instrument_id entry \<le> U32_MAX \<and> matching_config_ok (ic_matching entry)"

definition router_config_ok :: "multi_instrument_engine_config option \<Rightarrow> bool" where
  "router_config_ok config \<longleftrightarrow> (case config of None \<Rightarrow> True
     | Some c \<Rightarrow> 0 \<le> max_total_active_orders c \<and> max_total_active_orders c \<le> U64_MAX)"

lemma routed_book_spec:
  assumes "instrument_config_ok entry"
  shows "\<exists>e. routed_book check entry = Inr (ic_instrument_id entry, e) \<and> engine_inv e \<and>
    eng_instrument_id e = ic_instrument_id entry \<and> eng_config e = ic_matching entry \<and>
    eng_last_sequence e = 0 \<and> view_of e = (\<lambda>_. [])"
proof -
  let ?i = "ic_instrument_id entry" and ?c = "Some (ic_matching entry)"
  let ?s = "initial_engine ?i ?c 1 check"
  have c: "1 \<le> ?i" "?i \<le> U32_MAX" "case ?c of None \<Rightarrow> True | Some c \<Rightarrow> matching_config_ok c"
    using assms by (simp_all add: instrument_config_ok_def)
  have "1 \<le> U64_MAX" by (simp add: U64_MAX_def)
  from assert_invariants_clean [OF initial_engine_inv [OF c(1,2) _ this c(3), of check]] obtain e where
    e: "assert_invariants ?s = (Inr (), e)" "heap_only ?s e" "engine_inv e" by auto
  then have "ReferenceEngine ?i ?c 1 check = Inr e"
    using c \<open>1 \<le> U64_MAX\<close> by (simp add: ReferenceEngine_def)
  moreover have "view_of e = (\<lambda>_. [])" using heap_only_observed(2) [OF e(2)] initial_engine_view by simp
  ultimately show ?thesis
    using e(3) heap_only_observed(1,3,4) [OF e(2)] by (auto simp: routed_book_def initial_engine_def)
qed

lemma routed_books_spec:
  assumes "\<forall>entry \<in> set catalog. instrument_config_ok entry" and "0 \<le> latest"
  shows "\<exists>bs. mapR (routed_book check) catalog = Inr bs \<and> list_all2 (book_ok latest) catalog bs \<and>
    (\<forall>b \<in> set bs. view_of (snd b) = (\<lambda>_. []))"
  using assms(1)
proof (induction catalog)
  case (Cons entry catalog)
  then obtain bs where bs: "mapR (routed_book check) catalog = Inr bs" "list_all2 (book_ok latest) catalog bs"
    "\<forall>b \<in> set bs. view_of (snd b) = (\<lambda>_. [])" by (auto simp del: view_of_app)
  from routed_book_spec [of entry check] Cons.prems obtain e where
    e: "routed_book check entry = Inr (ic_instrument_id entry, e)" "engine_inv e"
    "eng_instrument_id e = ic_instrument_id entry" "eng_config e = ic_matching entry"
    "eng_last_sequence e = 0" "view_of e = (\<lambda>_. [])" by (auto simp del: view_of_app)
  then have "book_ok latest entry (ic_instrument_id entry, e)" using assms(2) by (simp add: book_ok_def)
  with bs e(1,6) show ?case by (auto simp del: view_of_app)
qed simp

lemma ReferenceRouter_spec:
  assumes cat: "\<forall>entry \<in> set catalog. instrument_config_ok entry" and cfg: "router_config_ok config"
    and ok: "catalog \<noteq> []" "distinct (map ic_instrument_id catalog)" "1 \<le> first" "first \<le> U64_MAX"
  shows "\<exists>r. ReferenceRouter catalog config first check = Inr r \<and> router_inv r \<and>
    venue_of r = map (\<lambda>entry. (ic_instrument_id entry, ic_matching entry, \<lambda>_. []))
      (sort_key ic_instrument_id catalog) \<and>
    rtr_next_sequence r = first \<and> rtr_catalog r = sort_key ic_instrument_id catalog \<and> rtr_active r = [] \<and>
    rtr_config r = (case config of None \<Rightarrow> default_router_config | Some c \<Rightarrow> c) \<and> \<not> rtr_sequence_exhausted r"
proof -
  let ?c = "sort_key ic_instrument_id catalog"
  have "\<forall>entry \<in> set ?c. instrument_config_ok entry" "0 \<le> first - 1" using cat ok by auto
  from routed_books_spec [OF this] obtain bs where
    bs: "mapR (routed_book check) ?c = Inr bs" "list_all2 (book_ok (first - 1)) ?c bs"
      "\<forall>b \<in> set bs. view_of (snd b) = (\<lambda>_. [])" by blast
  let ?r = "\<lparr>rtr_catalog = ?c, rtr_config = (case config of None \<Rightarrow> default_router_config | Some c \<Rightarrow> c),
      rtr_books = bs, rtr_active = [], rtr_next_sequence = first, rtr_last_sequence = first - 1,
      rtr_sequence_exhausted = False, rtr_poisoned = False, rtr_check_invariants = check\<rparr>"
  have venue: "venue_of ?r = map (\<lambda>entry. (ic_instrument_id entry, ic_matching entry, \<lambda>_. [])) ?c"
    using bs(2,3) unfolding venue_of_def router.select_convs
    by (induction rule: list_all2_induct) (auto simp: book_ok_def simp del: view_of_app)
  then have none: "venue_orders (venue_of ?r) = []" by (simp add: venue_orders_def view_orders_def comp_def)
  have "distinct (map ic_instrument_id ?c)"
    using ok(2) mset_eq_imp_distinct_iff [of "map ic_instrument_id ?c" "map ic_instrument_id catalog"] by simp
  then have "sorted_wrt (<) (map ic_instrument_id ?c)" by (simp add: strict_sorted_iff)
  then have inv: "router_inv ?r"
    using bs(2) ok cfg none
    by (auto simp: router_inv_def books_inv_def router_sequence_ok_def tracks_def router_config_ok_def
        default_router_config_def U64_MAX_def split: option.splits)
  from router_assert_clean [OF inv] obtain r where
    r: "router_assert_invariants ?r = (Inr (), r)" "quiet ?r r" "router_inv r" by blast
  have "length catalog = card (ic_instrument_id ` set catalog)" using distinct_card [OF ok(2)] by simp
  then have "ReferenceRouter catalog config first check = Inr r"
    using ok bs(1) r(1) by (simp add: ReferenceRouter_def Let_def bindP_def getsP_def)
  with r quiet_venue [OF r(2)] venue quiet_fields [OF r(2)] show ?thesis by auto
qed

section \<open>Snapshots and tops\<close>

definition instrument_snapshot_at :: "engine \<Rightarrow> instrument_snapshot" where
  "instrument_snapshot_at e =
     \<lparr>is_instrument_id = eng_instrument_id e,
      is_active_order_count = int (length (view_orders (view_of e))),
      is_bids = view_levels BUY e, is_asks = view_levels SELL e\<rparr>"

lemma instrument_snapshot_spec:
  assumes inv: "books_inv r" and e: "map_of (rtr_books r) iid = Some e"
  shows "\<exists>r'. instrument_snapshot_of iid r = (Inr (instrument_snapshot_at e), r') \<and> quiet r r'"
proof -
  from snapshot_spec [of e] books_invD(3) [OF inv e] obtain e' where
    e': "snapshot e = (Inr (snapshot_of e), e')" "heap_only e e'" by blast
  from on_book_quiet [where m = snapshot, OF inv e e'] show ?thesis
    by (auto simp: instrument_snapshot_of_def bindP_def snapshot_of_def instrument_snapshot_at_def view_orders_def)
qed

lemma instrument_snapshots_spec:
  assumes "books_inv r" and "\<forall>entry \<in> set entries. configured r entry"
  shows "\<exists>r'. instrument_snapshots entries r =
      (Inr (map (\<lambda>entry. instrument_snapshot_at (book_at r entry)) entries), r') \<and> quiet r r'"
  using assms
proof (induction entries arbitrary: r)
  case Nil
  then show ?case using quiet_refl by auto
next
  case (Cons entry entries)
  then obtain e where e: "map_of (rtr_books r) (ic_instrument_id entry) = Some e" by (auto simp: configured_def)
  from instrument_snapshot_spec [OF Cons.prems(1) e] obtain r1 where
    r1: "instrument_snapshot_of (ic_instrument_id entry) r = (Inr (instrument_snapshot_at e), r1)" "quiet r r1" by blast
  have look: "configured r1 x \<and> instrument_snapshot_at (book_at r1 x) = instrument_snapshot_at (book_at r x)"
    if "configured r x" for x
  proof -
    from that obtain b where b: "map_of (rtr_books r) (ic_instrument_id x) = Some b"
      "book_ok (rtr_last_sequence r) x (ic_instrument_id x, b)" by (auto simp: configured_def)
    from quiet_lookup(2) [OF r1(2) b(1)] obtain b' where b': "map_of (rtr_books r1) (ic_instrument_id x) = Some b'"
      "heap_only b b'" by blast
    note h = heap_only_observed [OF b'(2)] view_levels_heap_only [OF b'(2)]
    have "book_ok (rtr_last_sequence r1) x (ic_instrument_id x, b')"
      using b(2) h engine_inv_heap_only [OF _ b'(2)] quiet_fields(5) [OF r1(2)] by (simp add: book_ok_def)
    then show ?thesis using b b' h by (auto simp: configured_def instrument_snapshot_at_def)
  qed
  from Cons.IH [OF quiet_books [OF r1(2) Cons.prems(1)]] Cons.prems(2) look obtain r2 where
    "instrument_snapshots entries r1 = (Inr (map (\<lambda>entry. instrument_snapshot_at (book_at r1 entry)) entries), r2)"
    "quiet r1 r2" by auto
  moreover have "map (\<lambda>entry. instrument_snapshot_at (book_at r1 entry)) entries =
      map (\<lambda>entry. instrument_snapshot_at (book_at r entry)) entries"
    using look Cons.prems(2) by (intro map_cong) auto
  ultimately show ?case using r1 e quiet_trans [OF r1(2)] by (auto simp: bindP_def)
qed

definition router_snapshot_at :: "router \<Rightarrow> engine_snapshot" where
  "router_snapshot_at r =
     \<lparr>es_semantics_version = ATLASLOB_SEMANTICS_VERSION, es_engine_config = rtr_config r,
      es_catalog = rtr_catalog r, es_last_sequence = rtr_last_sequence r,
      es_sequence_exhausted = rtr_sequence_exhausted r,
      es_active_order_count = int (length (venue_orders (venue_of r))),
      es_instruments = map (instrument_snapshot_at \<circ> snd) (rtr_books r)\<rparr>"

lemma snapshot_at_quiet: "quiet r r' \<Longrightarrow> router_snapshot_at r' = router_snapshot_at r"
proof -
  assume q: "quiet r r'"
  then obtain bs where r': "r' = r\<lparr>rtr_books := bs\<rparr>"
    and all: "list_all2 (\<lambda>b b'. fst b' = fst b \<and> heap_only (snd b) (snd b')) (rtr_books r) bs" by (auto simp: quiet_def)
  from all have "map (instrument_snapshot_at \<circ> snd) bs = map (instrument_snapshot_at \<circ> snd) (rtr_books r)"
    by (induction rule: list_all2_induct)
      (auto simp: instrument_snapshot_at_def heap_only_observed view_levels_heap_only simp del: view_of_app)
  with r' quiet_venue [OF q] show ?thesis by (simp add: router_snapshot_at_def)
qed

lemma router_snapshot_spec:
  assumes inv: "router_inv r"
  shows "\<exists>r'. router_snapshot r = (Inr (router_snapshot_at r), r') \<and> quiet r r' \<and> router_inv r'"
proof -
  from router_assert_clean [OF inv] obtain r1 where
    r1: "router_assert_invariants r = (Inr (), r1)" "quiet r r1" "router_inv r1" by blast
  note b1 = router_invD(3) [OF r1(3)]
  from instrument_snapshots_spec [OF b1 catalog_books(2) [OF b1]] obtain r2 where
    r2: "instrument_snapshots (rtr_catalog r1) r1 =
      (Inr (map (\<lambda>entry. instrument_snapshot_at (book_at r1 entry)) (rtr_catalog r1)), r2)" "quiet r1 r2" by blast
  have "map (\<lambda>entry. instrument_snapshot_at (book_at r1 entry)) (rtr_catalog r1) =
      map (instrument_snapshot_at \<circ> snd) (rtr_books r1)"
    using arg_cong [OF catalog_books(1) [OF b1], of "map instrument_snapshot_at"] by (simp add: comp_def)
  then have "router_snapshot r = (Inr (router_snapshot_at r1), r2)"
    using router_invD(1) [OF inv] router_invD(6) [OF r1(3)] r1(1) r2 quiet_fields [OF r2(2)]
    by (simp add: router_snapshot_def router_ensure_usable_def seqP_def bindP_def getsP_def router_snapshot_at_def)
  with snapshot_at_quiet [OF r1(2)] quiet_trans [OF r1(2) r2(2)] quiet_inv [OF r2(2) r1(3)] show ?thesis by auto
qed

lemma router_top_spec:
  assumes inv: "router_inv r"
  shows "\<exists>r'. router_top iid r =
      (Inr (map_option (\<lambda>(c, v). view_top v) (map_of (venue_of r) iid)), r') \<and> quiet r r'"
proof (cases "map_of (rtr_books r) iid")
  case None
  then show ?thesis
    using router_invD(1,3) [OF inv] quiet_refl
    by (auto simp: router_top_def router_ensure_usable_def seqP_def bindP_def getsP_def venue_lookup)
next
  case (Some e)
  have "rep_ok e" "tight_except {} e" "\<not> eng_poisoned e"
    using books_invD(3) [OF router_invD(3) [OF inv] Some] by (simp_all add: engine_inv_def core_inv_def)
  from top_spec [OF this] obtain e' where e': "top e = (Inr (view_top (view_of e)), e')" "heap_only e e'" by blast
  from on_book_quiet [where m = top, OF router_invD(3) [OF inv] Some e'] Some router_invD(1) [OF inv] show ?thesis
    by (auto simp: router_top_def router_ensure_usable_def seqP_def bindP_def getsP_def venue_lookup)
qed

section \<open>Reachable routers\<close>

definition router_init :: "router \<Rightarrow> bool" where
  "router_init r \<longleftrightarrow> (\<exists>catalog config first check.
     (\<forall>entry \<in> set catalog. instrument_config_ok entry) \<and> router_config_ok config \<and>
     ReferenceRouter catalog config first check = Inr r)"

inductive router_step :: "router \<Rightarrow> router \<Rightarrow> bool" where
  route: "router_step r (snd (router_execute cmd r))"
| route_top: "router_step r (snd (router_top iid r))"
| route_snapshot: "router_step r (snd (router_snapshot r))"
| route_instrument: "router_step r (snd (router_instrument_snapshot iid r))"
| route_check: "router_step r (snd (router_invariant_errors r))"

inductive_cases router_stepE: "router_step r r'"

abbreviation reachable_router :: "router \<Rightarrow> bool" where
  "reachable_router \<equiv> reachable_from router_init router_step"

lemma router_init_inv: "router_init r \<Longrightarrow> router_inv r"
proof -
  assume "router_init r"
  then obtain catalog config first check where
    ok: "\<forall>entry \<in> set catalog. instrument_config_ok entry" "router_config_ok config"
    and r: "ReferenceRouter catalog config first check = Inr r" by (auto simp: router_init_def)
  have "catalog \<noteq> []" "length (map ic_instrument_id catalog) = card (set (map ic_instrument_id catalog))"
    "1 \<le> first" "first \<le> U64_MAX"
    using r by (auto simp: ReferenceRouter_def Let_def split: if_splits)
  then have "distinct (map ic_instrument_id catalog)" by (metis card_distinct)
  from ReferenceRouter_spec [OF ok \<open>catalog \<noteq> []\<close> this \<open>1 \<le> first\<close> \<open>first \<le> U64_MAX\<close>, of check] r
  show "router_inv r" by auto
qed

lemma router_instrument_snapshot_quiet:
  assumes inv: "router_inv r"
  shows "quiet r (snd (router_instrument_snapshot iid r))"
proof -
  from router_assert_clean [OF inv] obtain r1 where
    r1: "router_assert_invariants r = (Inr (), r1)" "quiet r r1" "router_inv r1" by blast
  show ?thesis
  proof (cases "map_of (rtr_books r1) iid")
    case None
    with r1 router_invD(1) [OF inv] show ?thesis
      by (simp add: router_instrument_snapshot_def router_ensure_usable_def seqP_def bindP_def getsP_def)
  next
    case (Some e)
    from instrument_snapshot_spec [OF router_invD(3) [OF r1(3)] Some] obtain r2 where
      "instrument_snapshot_of iid r1 = (Inr (instrument_snapshot_at e), r2)" "quiet r1 r2" by blast
    with r1 Some router_invD(1) [OF inv] quiet_trans show ?thesis
      by (auto simp: router_instrument_snapshot_def router_ensure_usable_def seqP_def bindP_def getsP_def)
  qed
qed

interpretation router_system: invariant_system router_init router_step router_inv
proof (unfold_locales, goal_cases)
  case (1 r)
  then show ?case by (rule router_init_inv)
next
  case (2 r r')
  from 2(2) show ?case
    using router_execute_inv [OF 2(1)] router_top_spec [OF 2(1)] router_snapshot_spec [OF 2(1)]
      router_instrument_snapshot_quiet [OF 2(1)] router_invariant_errors_clean [OF 2(1)] quiet_inv [OF _ 2(1)]
    by (elim router_stepE) (metis snd_conv)+
qed

lemmas reachable_router_inv = router_system.reachable_inv

end
