(* ===== verification/Engine_Properties.thy ===== *)
theory Engine_Properties
  imports Step_Outcomes
begin

text \<open>
  The properties of the reference engine, stated for every engine that the constructor and any
  interleaving of its operations can reach, with the sample book the witnesses evaluate.
\<close>

section \<open>A sample book\<close>

definition limit_order :: "int \<Rightarrow> int \<Rightarrow> side \<Rightarrow> int \<Rightarrow> int \<Rightarrow> new_order" where
  "limit_order client oid sd price quantity =
     \<lparr>new_client_id = client, new_order_id = oid, new_instrument_id = 1, new_side = side_value sd,
      new_order_type = order_type_value LIMIT, new_time_in_force = time_in_force_value GTC,
      new_limit_price = Some price, new_quantity = quantity\<rparr>"

definition sample_commands :: "command list" where
  "sample_commands =
     [NewOrder (limit_order 1 10 BUY 100 5), NewOrder (limit_order 1 11 BUY 101 5),
      NewOrder (limit_order 2 12 SELL 105 7)]"

definition sample_engine :: engine where
  "sample_engine = foldl (\<lambda>s cmd. snd (execute cmd s)) (initial_engine 1 None 1 True) sample_commands"

lemma sample_start: "engine_init (initial_engine 1 None 1 True)"
proof -
  have "ReferenceEngine 1 None 1 True = Inr (initial_engine 1 None 1 True)" by code_simp
  then show ?thesis unfolding engine_init_def config_ok_def by (auto intro!: exI)
qed

lemma reachable_run:
  "reachable_engine s \<Longrightarrow> reachable_engine (foldl (\<lambda>s cmd. snd (execute cmd s)) s cmds)"
  by (induction cmds arbitrary: s) (auto intro: reach_step engine_step.execute)

lemma sample_reachable: "reachable_engine sample_engine"
  unfolding sample_engine_def by (intro reachable_run reach_init sample_start)

section \<open>From a returned batch to the specification\<close>

lemma executed_batch:
  assumes "reachable_engine s" and "execute cmd s = (Inr r, s')" and "result_batch r = Some b"
  shows "spec_step (eng_config s) (eng_instrument_id s) cmd (eng_next_sequence s) (view_of s) =
      (batch_events b, view_of s')"
    and "require_representable cmd = Inr ()" and "\<not> eng_sequence_exhausted s"
proof -
  have inv: "engine_inv s" by (rule reachable_engine_inv [OF assms(1)])
  show rep: "require_representable cmd = Inr ()"
    using assms(2) execute_unrepresentable [OF inv, of cmd] by (cases "require_representable cmd") auto
  show ex: "\<not> eng_sequence_exhausted s" using assms(2,3) execute_exhausted [OF inv rep] by auto
  obtain es v where spec: "spec_step (eng_config s) (eng_instrument_id s) cmd (eng_next_sequence s) (view_of s) = (es, v)"
    by (metis prod.exhaust)
  from execute_refines [OF inv rep ex spec] assms(2,3) spec
  show "spec_step (eng_config s) (eng_instrument_id s) cmd (eng_next_sequence s) (view_of s) =
      (batch_events b, view_of s')" by (auto simp: accepted_result_def)
qed

definition accepted_batch :: "event_batch \<Rightarrow> bool" where
  "accepted_batch b \<longleftrightarrow> event_type_of (hd (batch_events b)) = ACCEPTED"

lemma executed_accepts:
  assumes "reachable_engine s" and "execute cmd s = (Inr r, s')" and "result_batch r = Some b"
    and "accepted_batch b"
  shows "accepts (eng_config s) (eng_instrument_id s) cmd (eng_next_sequence s) (view_of s)"
proof (rule ccontr)
  assume "\<not> ?thesis"
  from spec_step_rejects [OF this] executed_batch(1) [OF assms(1-3)] assms(4) show False
    by (auto simp: accepted_batch_def spec_reject_def)
qed

lemma side_prices_code [code]: "side_prices sd s = set (map fst (levels_of sd s))"
  by (simp add: side_prices_def dom_map_of_conv_image_fst)

lemma sample_accepts:
  assumes "case fst (execute cmd sample_engine) of
      Inl _ \<Rightarrow> False
    | Inr r \<Rightarrow> (case result_batch r of None \<Rightarrow> False | Some b \<Rightarrow> accepted_batch b \<and> P b)"
  obtains r s' b where "execute cmd sample_engine = (Inr r, s')" "result_batch r = Some b"
    "accepted_batch b" "P b"
  using assms by (cases "execute cmd sample_engine") (auto split: sum.splits option.splits)

section \<open>Refinement and totality\<close>

text \<open>
  C1.  From every reachable engine that still has sequence numbers, a representable command is executed
  as the price-time specification says: the returned batch is the specified event list and the book
  afterwards is the specified book.
\<close>

theorem execute_refines_price_time:
  assumes "reachable_engine s" and "require_representable cmd = Inr ()"
    and "\<not> eng_sequence_exhausted s"
  shows "\<exists>s'. execute cmd s =
      (Inr (accepted_result (fst (spec_step (eng_config s) (eng_instrument_id s) cmd
         (eng_next_sequence s) (view_of s)))), s') \<and>
    view_of s' = snd (spec_step (eng_config s) (eng_instrument_id s) cmd
         (eng_next_sequence s) (view_of s))"
  using execute_refines [OF reachable_engine_inv [OF assms(1)] assms(2,3)] by (metis prod.collapse)

theorem execute_refines_price_time_witness:
  "\<exists>s'. execute (NewOrder (limit_order 3 13 SELL 100 8)) sample_engine =
      (Inr (accepted_result (fst (spec_step default_matching_config 1
         (NewOrder (limit_order 3 13 SELL 100 8)) 4 (view_of sample_engine)))), s') \<and>
    view_of s' = snd (spec_step default_matching_config 1
         (NewOrder (limit_order 3 13 SELL 100 8)) 4 (view_of sample_engine))"
proof -
  have "require_representable (NewOrder (limit_order 3 13 SELL 100 8)) = Inr ()"
    and "\<not> eng_sequence_exhausted sample_engine"
    and "eng_config sample_engine = default_matching_config" and "eng_instrument_id sample_engine = 1"
    and "eng_next_sequence sample_engine = 4"
    by code_simp+
  with execute_refines_price_time [OF sample_reachable, of "NewOrder (limit_order 3 13 SELL 100 8)"]
  show ?thesis by simp
qed

text \<open>
  C4.  Every engine that the constructor and any interleaving of commands, routed commands, reads,
  snapshots and checks can reach is unpoisoned, and its own runtime invariant checker reports nothing.
\<close>

theorem reachable_engines_sound:
  assumes "reachable_engine s"
  shows "\<not> eng_poisoned s \<and> (\<exists>s'. invariant_errors s = (Inr [], s') \<and> view_of s' = view_of s)"
proof -
  have inv: "engine_inv s" by (rule reachable_engine_inv [OF assms])
  from invariant_errors_clean [OF inv] obtain s' where "invariant_errors s = (Inr [], s')" "heap_only s s'"
    by blast
  with heap_only_fields(9) [of s s'] inv show ?thesis by (auto simp: engine_inv_def core_inv_def)
qed

theorem reachable_engines_sound_witness:
  "\<not> eng_poisoned sample_engine \<and>
     (\<exists>s'. invariant_errors sample_engine = (Inr [], s') \<and> view_of s' = view_of sample_engine)"
  by (rule reachable_engines_sound [OF sample_reachable])

text \<open>
  C15.  A reachable engine never fails: a command outside its fixed-width representation raises before
  anything changes, and every representable command returns a result and leaves the engine usable.
\<close>

theorem execute_never_fails:
  assumes "reachable_engine s"
  shows "case require_representable cmd of
      Inl e \<Rightarrow> execute cmd s = (Inl e, s)
    | Inr _ \<Rightarrow> \<exists>r s'. execute cmd s = (Inr r, s') \<and> \<not> eng_poisoned s'"
proof -
  have inv: "engine_inv s" by (rule reachable_engine_inv [OF assms])
  show ?thesis
  proof (cases "require_representable cmd")
    case (Inl e)
    then show ?thesis using execute_unrepresentable [OF inv] by simp
  next
    case (Inr u)
    then have r: "require_representable cmd = Inr ()" by simp
    have "\<exists>r s'. execute cmd s = (Inr r, s')"
      using execute_exhausted [OF inv r] execute_refines [OF inv r]
      by (cases "eng_sequence_exhausted s") (auto, metis prod.collapse)
    moreover have "\<not> eng_poisoned (snd (execute cmd s))"
      using execute_inv [OF inv, of cmd] by (simp add: engine_inv_def core_inv_def)
    ultimately show ?thesis using Inr by auto
  qed
qed

theorem execute_never_fails_witness:
  "execute (NewOrder (limit_order 3 (- 1) SELL 100 8)) sample_engine = (Inl ValueError, sample_engine)"
proof -
  have "require_representable (NewOrder (limit_order 3 (- 1) SELL 100 8)) = Inl ValueError" by code_simp
  with execute_never_fails [OF sample_reachable, of "NewOrder (limit_order 3 (- 1) SELL 100 8)"]
  show ?thesis by simp
qed

text \<open>
  C19.  A rejected command changes nothing in the book: its batch is the single rejection and the view
  is the one before.
\<close>

theorem rejection_changes_nothing:
  assumes "reachable_engine s" and "execute cmd s = (Inr r, s')" and "result_rejected r"
  shows "view_of s' = view_of s \<and> (\<exists>b. result_batch r = Some b \<and> length (batch_events b) = 1)"
proof -
  from assms(3) obtain b where b: "result_batch r = Some b" "batch_rejected b"
    by (auto simp: result_rejected_def split: option.splits)
  from rejected_spec [OF executed_batch(1) [OF assms(1,2) b(1)]] b show ?thesis
    by (auto simp: batch_rejected_def)
qed

theorem rejection_changes_nothing_witness:
  "view_of (snd (execute (NewOrder (limit_order 3 12 SELL 100 8)) sample_engine)) = view_of sample_engine"
proof -
  let ?e = "execute (NewOrder (limit_order 3 12 SELL 100 8)) sample_engine"
  have "case fst ?e of Inl _ \<Rightarrow> False | Inr r \<Rightarrow> result_rejected r" by code_simp
  then obtain r where "?e = (Inr r, snd ?e)" "result_rejected r"
    by (cases ?e) (auto split: sum.splits)
  from rejection_changes_nothing [OF sample_reachable this] show ?thesis by simp
qed

text \<open>
  Sequencing: a representable command consumes exactly one sequence number, which its batch
  carries; the command that takes the last one exhausts the engine, and an exhausted engine answers
  every further command with the exhaustion error and does not change.
\<close>

lemma sequence_consumed:
  assumes "reachable_engine s" and "require_representable cmd = Inr ()"
  shows "if eng_sequence_exhausted s
    then execute cmd s = (Inr \<lparr>result_batch = None, result_error = Some SEQUENCE_EXHAUSTED\<rparr>, s)
    else \<exists>b s'. execute cmd s = (Inr \<lparr>result_batch = Some b, result_error = None\<rparr>, s') \<and>
      batch_command_sequence b = eng_next_sequence s \<and>
      eng_last_sequence s' = eng_next_sequence s \<and>
      (if eng_next_sequence s = U64_MAX then eng_sequence_exhausted s'
       else \<not> eng_sequence_exhausted s' \<and> eng_next_sequence s' = eng_next_sequence s + 1)"
proof (cases "eng_sequence_exhausted s")
  case True
  with execute_exhausted [OF reachable_engine_inv [OF assms(1)] assms(2)] show ?thesis by simp
next
  case False
  have inv: "engine_inv s" by (rule reachable_engine_inv [OF assms(1)])
  let ?n = "eng_next_sequence s"
  obtain es v where spec: "spec_step (eng_config s) (eng_instrument_id s) cmd ?n (view_of s) = (es, v)"
    by (metis prod.exhaust)
  obtain s' where s': "execute cmd s = (Inr (accepted_result es), s')" "eng_last_sequence s' = ?n"
    "static_of s' = static_of (observe_sequence ?n s)"
    using execute_refines [OF inv assms(2) False spec] by blast
  have "batch_command_sequence \<lparr>batch_events = es\<rparr> = ?n"
    using spec_step_shape [OF engine_view_ok [OF inv], of ?n cmd] spec
    by (auto simp: batch_command_sequence_def batch_shape_def hd_conv_nth)
  then show ?thesis
    using False s' static_of_eqD [OF s'(3)]
    by (auto simp: accepted_result_def observe_sequence_def Let_def split: if_splits)
qed


section \<open>Matching\<close>

lemma executed_new:
  assumes "reachable_engine s" and "execute (NewOrder ord) s = (Inr r, s')"
    and "result_batch r = Some b" and "accepted_batch b" and "sd = side_of (new_side ord)"
  obtains fills n os where
    "spec_match (limit_crosses sd (new_limit_price ord)) (new_quantity ord) (view_of s (other_side sd)) = (fills, n, os)"
    "trade_bodies (batch_events b) =
       trade_bodies (trade_events ord sd (eng_next_sequence s) 1 (new_quantity ord) fills)"
    "view_of s' (other_side sd) = os"
    "view_of s' sd = (case new_limit_price ord of
        Some p \<Rightarrow> if residual_rests ord n
          then spec_insert sd (rested_order ord sd p n (eng_next_sequence s)) (view_of s sd) else view_of s sd
      | None \<Rightarrow> view_of s sd)"
    "residual_rests ord n \<Longrightarrow> new_limit_price ord \<noteq> None" "0 \<le> new_quantity ord"
proof -
  have acc: "accepts_new (eng_config s) (eng_instrument_id s) ord (eng_next_sequence s) (view_of s)"
    using executed_accepts [OF assms(1-4)] by simp
  have spec: "spec_new (eng_config s) (eng_instrument_id s) ord (eng_next_sequence s) (view_of s) =
      (batch_events b, view_of s')" using executed_batch(1) [OF assms(1-3)] by simp
  have "0 \<le> new_quantity ord"
    using executed_batch(2) [OF assms(1-3)] by (auto simp: require_uint_def bindR_Inr_iff split: if_splits)
  moreover have "residual_rests ord n \<Longrightarrow> new_limit_price ord \<noteq> None" for n
    using acc by (auto simp: accepts_new_def validate_new_shape_def residual_rests_def split: if_splits option.splits)
  ultimately show ?thesis using that spec_new_effect [OF acc spec assms(5)] by metis
qed

text \<open>
  C5.  Price-time priority.  The trades of an accepted order are against a prefix of the opposite side in
  its priority order, at the resting prices, all of which cross the order's limit; every resting order
  but the last one traded is consumed completely.
\<close>

theorem trades_follow_priority:
  assumes "reachable_engine s" and "execute (NewOrder ord) s = (Inr r, s')"
    and "result_batch r = Some b" and "accepted_batch b"
  shows "let sd = side_of (new_side ord); ts = trade_bodies (batch_events b);
             hit = take (length ts) (view_of s (other_side sd))
    in map resting_order_id ts = map ord_order_id hit \<and> map execution_price ts = map ord_price hit \<and>
       (\<forall>t \<in> set ts. limit_crosses sd (new_limit_price ord) (execution_price t)) \<and>
       (\<forall>t \<in> set (butlast ts). resting_remaining t = 0)"
proof -
  let ?sd = "side_of (new_side ord)" and ?ts = "trade_bodies (batch_events b)"
  from executed_new [OF assms refl] obtain fills n os where
    m: "spec_match (limit_crosses ?sd (new_limit_price ord)) (new_quantity ord)
      (view_of s (other_side ?sd)) = (fills, n, os)"
    and ts: "?ts = trade_bodies (trade_events ord ?sd (eng_next_sequence s) 1 (new_quantity ord) fills)"
    by metis
  note b = trade_events_bodies(1-3) [of ord ?sd "eng_next_sequence s" 1 "new_quantity ord" fills, folded ts]
  have len: "length ?ts = length fills" using arg_cong [OF b(1), of length] by simp
  have hit: "take (length fills) (view_of s (other_side ?sd)) = map fst fills"
    using spec_match_prefix(1) [OF m] by simp
  have "\<forall>p \<in> set (map execution_price ?ts). limit_crosses ?sd (new_limit_price ord) p"
    unfolding b(2) using spec_match_prefix(2) [OF m] by auto
  moreover have "\<forall>x \<in> set (butlast (map resting_remaining ?ts)). x = 0"
    unfolding b(3) map_butlast [symmetric] using spec_match_prefix(3) [OF m] by auto
  ultimately have "\<forall>t \<in> set ?ts. limit_crosses ?sd (new_limit_price ord) (execution_price t)"
    and "\<forall>t \<in> set (butlast ?ts). resting_remaining t = 0"
    by (simp_all add: map_butlast [symmetric] del: b)
  then show ?thesis unfolding Let_def len hit b(1,2) by simp
qed

theorem trades_follow_priority_witness:
  "\<exists>r s' b. execute (NewOrder (limit_order 3 13 SELL 100 8)) sample_engine = (Inr r, s') \<and>
     result_batch r = Some b \<and>
     map resting_order_id (trade_bodies (batch_events b)) = [11, 10] \<and>
     map ord_order_id (take 2 (view_of sample_engine BUY)) = [11, 10]"
proof -
  let ?o = "limit_order 3 13 SELL 100 8"
  obtain r s' b where e: "execute (NewOrder ?o) sample_engine = (Inr r, s')" "result_batch r = Some b"
    "accepted_batch b" and n: "length (trade_bodies (batch_events b)) = 2"
    by (rule sample_accepts [where cmd = "NewOrder ?o" and P = "\<lambda>b. length (trade_bodies (batch_events b)) = 2"]) code_simp
  have "other_side (side_of (new_side ?o)) = BUY"
    and v: "map ord_order_id (take 2 (view_of sample_engine BUY)) = [11, 10]" by code_simp+
  with trades_follow_priority [OF sample_reachable e] e n show ?thesis
    by (simp add: Let_def)
qed

text \<open>
  C16.  Quantity is conserved by an accepted new order: the opposite side loses exactly what was traded, the
  order's own side gains exactly the untraded residual when that rests and nothing otherwise, and no
  more is traded than was ordered.
\<close>

theorem quantity_conserved:
  assumes "reachable_engine s" and "execute (NewOrder ord) s = (Inr r, s')"
    and "result_batch r = Some b" and "accepted_batch b"
  shows "let sd = side_of (new_side ord); x = traded (batch_events b); n = new_quantity ord - x
    in 0 \<le> n \<and> 0 \<le> x \<and>
       total_quantity (view_of s' (other_side sd)) = total_quantity (view_of s (other_side sd)) - x \<and>
       total_quantity (view_of s' sd) =
         total_quantity (view_of s sd) + (if residual_rests ord n then n else 0)"
proof -
  let ?sd = "side_of (new_side ord)" and ?q = "new_quantity ord"
  from executed_new [OF assms refl] obtain fills n os where
    m: "spec_match (limit_crosses ?sd (new_limit_price ord)) ?q (view_of s (other_side ?sd)) = (fills, n, os)"
    and ts: "trade_bodies (batch_events b) =
      trade_bodies (trade_events ord ?sd (eng_next_sequence s) 1 ?q fills)"
    and opp: "view_of s' (other_side ?sd) = os"
    and own: "view_of s' ?sd = (case new_limit_price ord of
        Some p \<Rightarrow> if residual_rests ord n
          then spec_insert ?sd (rested_order ord ?sd p n (eng_next_sequence s)) (view_of s ?sd) else view_of s ?sd
      | None \<Rightarrow> view_of s ?sd)"
    and limit: "residual_rests ord n \<Longrightarrow> new_limit_price ord \<noteq> None" and q: "0 \<le> ?q" by blast
  have x: "traded (batch_events b) = fill_total fills"
    using trade_events_bodies(4) [of ord ?sd "eng_next_sequence s" 1 ?q fills] ts by (simp add: traded_def)
  note c = spec_match_conserves [OF m]
  note bnd = spec_match_bounds [OF m view_ok_positive [OF engine_view_ok [OF reachable_engine_inv [OF assms(1)]]] q]
  have n: "?q - traded (batch_events b) = n" using c x by simp
  show ?thesis
    unfolding Let_def n using c bnd x opp own limit
    by (auto simp: rested_order_def total_quantity_spec_insert split: option.splits)
qed

theorem quantity_conserved_witness:
  "\<exists>r s' b. execute (NewOrder (limit_order 3 13 SELL 101 8)) sample_engine = (Inr r, s') \<and>
     result_batch r = Some b \<and> traded (batch_events b) = 5 \<and>
     total_quantity (view_of s' BUY) = total_quantity (view_of sample_engine BUY) - 5 \<and>
     total_quantity (view_of s' SELL) = total_quantity (view_of sample_engine SELL) + 3"
proof -
  let ?o = "limit_order 3 13 SELL 101 8"
  obtain r s' b where e: "execute (NewOrder ?o) sample_engine = (Inr r, s')" "result_batch r = Some b"
    "accepted_batch b" and n: "traded (batch_events b) = 5"
    by (rule sample_accepts [where cmd = "NewOrder ?o" and P = "\<lambda>b. traded (batch_events b) = 5"]) code_simp
  have "other_side (side_of (new_side ?o)) = BUY" "side_of (new_side ?o) = SELL" "residual_rests ?o 3"
    "new_quantity ?o = 8"
    by code_simp+
  with quantity_conserved [OF sample_reachable e] e n show ?thesis by (simp add: Let_def)
qed

section \<open>The book\<close>

text \<open>
  C17.  Every reachable book is in price-time order, uncrossed and within its bounds: both sides are
  strictly sorted by price then priority, every bid is below every ask, identifiers and priorities
  are unique across the book, no more orders are active than configured and no level aggregates more
  than a 64-bit quantity.
\<close>

theorem reachable_book_sound:
  assumes "reachable_engine s"
  shows "(\<forall>sd. sorted_wrt (<) (map (rank sd) (view_of s sd))) \<and>
    (\<forall>b \<in> set (view_of s BUY). \<forall>a \<in> set (view_of s SELL). ord_price b < ord_price a) \<and>
    distinct (map ord_order_id (view_of s BUY @ view_of s SELL)) \<and>
    distinct (map ord_priority_sequence (view_of s BUY @ view_of s SELL)) \<and>
    int (length (view_of s BUY @ view_of s SELL)) \<le> max_active_orders (eng_config s) \<and>
    (\<forall>sd p. level_quantity (view_of s sd) p \<le> U64_MAX)"
proof -
  have inv: "engine_inv s" by (rule reachable_engine_inv [OF assms])
  have "int (length (view_of s BUY @ view_of s SELL)) \<le> max_active_orders (eng_config s)"
    using inv order_count [of s] by (simp add: engine_inv_def core_inv_def)
  with engine_view_ok [OF inv] show ?thesis unfolding view_ok_def by blast
qed

theorem reachable_book_sound_witness:
  "sorted_wrt (<) (map (rank BUY) (view_of sample_engine BUY)) \<and>
   distinct (map ord_order_id (view_of sample_engine BUY @ view_of sample_engine SELL)) \<and>
   map ord_price (view_of sample_engine BUY) = [101, 100]"
proof -
  have "map ord_price (view_of sample_engine BUY) = [101, 100]" by code_simp
  with reachable_book_sound [OF sample_reachable] show ?thesis by blast
qed

text \<open>
  C20.  A cancellation that is accepted takes exactly one order out: the one with the given identifier,
  which belongs to the cancelling client.  Every other order keeps its place and its quantity.
\<close>

theorem cancel_removes_one:
  assumes "reachable_engine s" and "execute (CancelOrder cmd) s = (Inr r, s')"
    and "result_batch r = Some b" and "accepted_batch b"
  shows "(\<exists>!ord. ord \<in> set (view_of s BUY @ view_of s SELL) \<and> ord_order_id ord = cancel_order_id cmd \<and>
      ord_client_id ord = cancel_client_id cmd) \<and>
    (\<forall>sd. view_of s' sd = filter (\<lambda>ord. ord_order_id ord \<noteq> cancel_order_id cmd) (view_of s sd))"
proof -
  have acc: "accepts_cancel (eng_instrument_id s) cmd (view_of s)" using executed_accepts [OF assms] by simp
  then obtain ord where ord: "find_order (cancel_order_id cmd) (view_of s) = Some ord"
    "ord_client_id ord = cancel_client_id cmd" by (auto simp: accepts_cancel_def split: option.splits)
  have "view_of s' = spec_remove_order (cancel_order_id cmd) (view_of s)"
    using executed_batch(1) [OF assms(1-3)] spec_cancel_accepts [OF acc] by simp
  moreover have "inj_on ord_order_id (set (view_of s BUY @ view_of s SELL))"
    using view_okD(3) [OF engine_view_ok [OF reachable_engine_inv [OF assms(1)]]] by (metis distinct_map)
  then have "\<exists>!x. x \<in> set (view_of s BUY @ view_of s SELL) \<and> ord_order_id x = cancel_order_id cmd \<and>
      ord_client_id x = cancel_client_id cmd"
  proof (intro ex1I [of _ ord])
    show "ord \<in> set (view_of s BUY @ view_of s SELL) \<and> ord_order_id ord = cancel_order_id cmd \<and>
        ord_client_id ord = cancel_client_id cmd"
      using find_order_in [OF ord(1)] ord(2) by blast
  qed (metis find_order_in [OF ord(1)] inj_onD)
  ultimately show ?thesis by (simp add: spec_remove_order_def spec_remove_def del: view_of_app)
qed

theorem cancel_removes_one_witness:
  "\<exists>r s' b. execute (CancelOrder \<lparr>cancel_client_id = 1, cancel_order_id = 11, cancel_instrument_id = 1\<rparr>)
      sample_engine = (Inr r, s') \<and> result_batch r = Some b \<and>
    view_of s' BUY = filter (\<lambda>ord. ord_order_id ord \<noteq> 11) (view_of sample_engine BUY)"
proof -
  let ?c = "\<lparr>cancel_client_id = 1, cancel_order_id = 11, cancel_instrument_id = 1\<rparr> :: cancel_order"
  obtain r s' b where e: "execute (CancelOrder ?c) sample_engine = (Inr r, s')" "result_batch r = Some b"
    "accepted_batch b" and n: "True"
    by (rule sample_accepts [where cmd = "CancelOrder ?c" and P = "\<lambda>b. True"]) code_simp
  with cancel_removes_one [OF sample_reachable e] show ?thesis by simp
qed

text \<open>
  C21.  The book-changed report is exact: a batch carries one, with the tops after the command, when the
  best bid or ask level changed in price or aggregate quantity, and none otherwise.
\<close>

theorem book_change_exact:
  assumes "reachable_engine s" and "execute cmd s = (Inr r, s')" and "result_batch r = Some b"
  shows "book_changes (batch_events b) =
    (if view_top (view_of s) = view_top (view_of s') then [] else [view_top (view_of s')])"
  by (rule spec_step_reports [OF executed_batch(1) [OF assms]])

theorem book_change_exact_witness:
  "\<exists>r s' b. execute (NewOrder (limit_order 3 13 BUY 100 8)) sample_engine = (Inr r, s') \<and>
     result_batch r = Some b \<and> book_changes (batch_events b) = [] \<and>
     view_top (view_of sample_engine) = view_top (view_of s')"
proof -
  let ?o = "limit_order 3 13 BUY 100 8"
  obtain r s' b where e: "execute (NewOrder ?o) sample_engine = (Inr r, s')" "result_batch r = Some b"
    "accepted_batch b" and n: "book_changes (batch_events b) = []"
    by (rule sample_accepts [where cmd = "NewOrder ?o" and P = "\<lambda>b. book_changes (batch_events b) = []"]) code_simp
  with book_change_exact [OF sample_reachable e(1,2)] show ?thesis by (auto split: if_splits)
qed

section \<open>Snapshots\<close>

text \<open>
  C22.  A snapshot is a complete picture of the book: its levels are strictly best first, each level
  lists its orders in priority and carries their exact total, and concatenated they are the view;
  taking it changes nothing observable.
\<close>

theorem snapshot_enumerates:
  assumes "reachable_engine s"
  shows "\<exists>snap s'. snapshot s = (Inr snap, s') \<and> view_of s' = view_of s \<and>
    bs_last_sequence snap = eng_last_sequence s \<and>
    bs_active_order_count snap = int (length (view_of s BUY @ view_of s SELL)) \<and>
    (\<forall>sd. let levels = (case sd of BUY \<Rightarrow> bs_bids snap | SELL \<Rightarrow> bs_asks snap) in
       concat (map pls_orders levels) = map order_snapshot_of (view_of s sd) \<and>
       sorted_wrt (<) (map (price_key sd \<circ> pls_price) levels) \<and>
       (\<forall>l \<in> set levels. pls_orders l \<noteq> [] \<and> pls_aggregate_quantity l = level_quantity (view_of s sd) (pls_price l)))"
proof -
  have inv: "engine_inv s" by (rule reachable_engine_inv [OF assms])
  from snapshot_spec [OF inv] obtain s' where s': "snapshot s = (Inr (snapshot_of s), s')" "heap_only s s'" by blast
  have rep: "rep_ok s" "tight_except {} s" using inv by (simp_all add: engine_inv_def core_inv_def)
  have levels: "(case sd of BUY \<Rightarrow> bs_bids (snapshot_of s) | SELL \<Rightarrow> bs_asks (snapshot_of s)) = view_levels sd s" for sd
    by (cases sd) (simp_all add: snapshot_of_def)
  have "view_of s' = view_of s" using heap_only_fields(9) [OF s'(2)] rep by simp
  with s'(1) view_levels_strict view_levels_orders view_levels_level(1,3) [OF rep] show ?thesis
    by (intro exI [of _ "snapshot_of s"] exI [of _ s']) (simp add: Let_def levels snapshot_of_def)
qed

theorem snapshot_enumerates_witness:
  "\<exists>snap s'. snapshot sample_engine = (Inr snap, s') \<and>
     concat (map pls_orders (bs_bids snap)) = map order_snapshot_of (view_of sample_engine BUY)"
proof -
  from snapshot_enumerates [OF sample_reachable] obtain snap s' where
    "snapshot sample_engine = (Inr snap, s')" and
    levels: "\<forall>sd. let levels = (case sd of BUY \<Rightarrow> bs_bids snap | SELL \<Rightarrow> bs_asks snap) in
       concat (map pls_orders levels) = map order_snapshot_of (view_of sample_engine sd) \<and>
       sorted_wrt (<) (map (price_key sd \<circ> pls_price) levels) \<and>
       (\<forall>l \<in> set levels. pls_orders l \<noteq> [] \<and>
          pls_aggregate_quantity l = level_quantity (view_of sample_engine sd) (pls_price l))"
    by blast
  with spec [OF levels, of BUY] show ?thesis by (auto simp: Let_def)
qed

section \<open>Determinism\<close>

fun run_commands :: "command list \<Rightarrow> engine \<Rightarrow> reference_result result list" where
  "run_commands [] s = []"
| "run_commands (cmd # cmds) s = fst (execute cmd s) # run_commands cmds (snd (execute cmd s))"

lemma equivalent_run: "equivalent s t \<Longrightarrow> run_commands cmds s = run_commands cmds t"
  using equivalent_execute by (induction cmds arbitrary: s t) auto

text \<open>
  C18.  Snapshots determine behaviour: two reachable engines of the same configuration whose snapshots
  are equal answer every sequence of further commands alike, result by result, whatever histories
  and internal heaps they have.
\<close>

theorem equal_snapshots_equal_behaviour:
  assumes "reachable_engine s" and "reachable_engine t" and "eng_config s = eng_config t"
    and "fst (snapshot s) = fst (snapshot t)"
  shows "run_commands cmds s = run_commands cmds t"
proof -
  have inv: "engine_inv s" "engine_inv t" by (rule reachable_engine_inv, fact)+
  with snapshot_spec [OF inv(1)] snapshot_spec [OF inv(2)] assms(4) have "snapshot_of s = snapshot_of t" by auto
  from equivalent_run [OF equivalentI [OF inv assms(3) this]] show ?thesis .
qed

definition other_engine :: engine where
  "other_engine = snd (top (snd (execute (NewOrder (limit_order 2 12 SELL 105 7))
     (snd (execute (NewOrder (limit_order 1 11 BUY 101 5))
       (snd (execute (NewOrder (limit_order 1 10 BUY 100 5)) (initial_engine 1 None 1 False))))))))"

lemma other_start: "engine_init (initial_engine 1 None 1 False)"
proof -
  have "ReferenceEngine 1 None 1 False = Inr (initial_engine 1 None 1 False)" by code_simp
  then show ?thesis unfolding engine_init_def config_ok_def by (auto intro!: exI)
qed

lemma other_reachable: "reachable_engine other_engine"
  unfolding other_engine_def
  by (intro reach_step [where step = engine_step, OF _ engine_step.read_top]
      reach_step [where step = engine_step, OF _ engine_step.execute] reach_init other_start)

theorem equal_snapshots_equal_behaviour_witness:
  "run_commands [NewOrder (limit_order 3 13 SELL 100 8)] sample_engine =
   run_commands [NewOrder (limit_order 3 13 SELL 100 8)] other_engine"
proof (rule equal_snapshots_equal_behaviour [OF sample_reachable other_reachable])
  show "eng_config sample_engine = eng_config other_engine" by code_simp
  show "fst (snapshot sample_engine) = fst (snapshot other_engine)" by code_simp
qed

section \<open>Construction\<close>

text \<open>
  The constructor accepts exactly a non-zero 32-bit instrument and a non-zero 64-bit first sequence
  number, and what it builds is an empty book that issues that number first.
\<close>

lemma constructor_exact:
  assumes "config_ok config"
  shows "(case ReferenceEngine iid config first check of
      Inl e \<Rightarrow> e = ValueError \<and> (iid \<notin> {1..U32_MAX} \<or> first \<notin> {1..U64_MAX})
    | Inr s \<Rightarrow> iid \<in> {1..U32_MAX} \<and> first \<in> {1..U64_MAX} \<and>
        view_of s = (\<lambda>_. []) \<and> eng_next_sequence s = first \<and> \<not> eng_poisoned s)"
proof (cases "iid \<in> {1..U32_MAX} \<and> first \<in> {1..U64_MAX}")
  case False
  then show ?thesis by (auto simp: ReferenceEngine_def)
next
  case True
  then obtain s where s: "ReferenceEngine iid config first check = Inr s"
    using ReferenceEngine_returns [of iid first config check] assms by (auto simp: config_ok_def)
  with ReferenceEngine_inv [OF s] assms True show ?thesis
    by (auto simp: config_ok_def engine_inv_def core_inv_def)
qed

end
