(* ===== verification/Router_Properties.thy ===== *)
theory Router_Properties
  imports Router_Machine Engine_Properties
begin

text \<open>
  The properties of the multi-instrument router, for every router that the constructor and any
  interleaving of its operations can reach.
\<close>

section \<open>A sample venue\<close>

definition sample_catalog :: "instrument_config list" where
  "sample_catalog =
     [\<lparr>ic_instrument_id = 2, ic_matching = default_matching_config\<rparr>,
      \<lparr>ic_instrument_id = 1, ic_matching = default_matching_config\<rparr>]"

definition on_instrument :: "int \<Rightarrow> new_order \<Rightarrow> new_order" where
  "on_instrument iid ord = ord\<lparr>new_instrument_id := iid\<rparr>"

definition empty_sample_router :: router where
  "empty_sample_router = (case ReferenceRouter sample_catalog None 1 True of Inr r \<Rightarrow> r | Inl _ \<Rightarrow> undefined)"

definition sample_router :: router where
  "sample_router =
     foldl (\<lambda>r cmd. snd (router_execute cmd r)) empty_sample_router
       [NewOrder (limit_order 1 10 BUY 100 5),
        NewOrder (on_instrument 2 (limit_order 1 11 BUY 101 5)),
        NewOrder (limit_order 2 12 SELL 105 7)]"

lemma empty_sample_start: "router_init empty_sample_router"
proof -
  have "\<exists>r. ReferenceRouter sample_catalog None 1 True = Inr r"
    using ReferenceRouter_spec [of sample_catalog None 1 True]
    by (auto simp: sample_catalog_def instrument_config_ok_def router_config_ok_def width_defs)
  then have "ReferenceRouter sample_catalog None 1 True = Inr empty_sample_router"
    by (auto simp: empty_sample_router_def)
  moreover have "\<forall>entry \<in> set sample_catalog. instrument_config_ok entry"
    by (simp add: sample_catalog_def instrument_config_ok_def width_defs)
  ultimately show ?thesis unfolding router_init_def router_config_ok_def by (auto intro!: exI)
qed

lemma reachable_routes:
  "reachable_router r \<Longrightarrow> reachable_router (foldl (\<lambda>r cmd. snd (router_execute cmd r)) r cmds)"
  by (induction cmds arbitrary: r) (auto intro: reach_step router_step.route)

lemma sample_router_reachable: "reachable_router sample_router"
  unfolding sample_router_def by (intro reachable_routes reach_init empty_sample_start)

section \<open>Refinement and totality\<close>

lemma routed_batch:
  assumes "reachable_router r" and "router_execute cmd r = (Inr res, r')" and "result_batch res = Some b"
  shows "spec_route (max_total_active_orders (rtr_config r)) cmd (rtr_next_sequence r) (venue_of r) =
      (batch_events b, venue_of r')"
    and "require_representable cmd = Inr ()" and "\<not> rtr_sequence_exhausted r"
proof -
  have inv: "router_inv r" by (rule reachable_router_inv [OF assms(1)])
  show rep: "require_representable cmd = Inr ()"
    using assms(2) router_execute_unrepresentable [OF inv, of cmd] by (cases "require_representable cmd") auto
  show ex: "\<not> rtr_sequence_exhausted r" using assms(2,3) router_execute_exhausted [OF inv rep] by auto
  obtain es vs where spec: "spec_route (max_total_active_orders (rtr_config r)) cmd (rtr_next_sequence r) (venue_of r) = (es, vs)"
    by (metis prod.exhaust)
  from router_execute_refines [OF inv rep ex spec] assms(2,3) spec
  show "spec_route (max_total_active_orders (rtr_config r)) cmd (rtr_next_sequence r) (venue_of r) =
      (batch_events b, venue_of r')" by (auto simp: accepted_result_def)
qed

text \<open>
  C2.  Every reachable router that still has sequence numbers executes a representable command as the
  abstract venue prescribes: the command is judged against all books, then is one price-time step of one
  book; the batch and the venue afterwards are the specified ones.
\<close>

theorem router_refines_venue:
  assumes "reachable_router r" and "require_representable cmd = Inr ()" and "\<not> rtr_sequence_exhausted r"
  shows "\<exists>r'. router_execute cmd r =
      (Inr (accepted_result (fst (spec_route (max_total_active_orders (rtr_config r)) cmd
         (rtr_next_sequence r) (venue_of r)))), r') \<and>
    venue_of r' = snd (spec_route (max_total_active_orders (rtr_config r)) cmd
         (rtr_next_sequence r) (venue_of r))"
  using router_execute_refines [OF reachable_router_inv [OF assms(1)] assms(2,3)] by (metis prod.collapse)

theorem router_refines_venue_witness:
  "\<exists>r'. router_execute (NewOrder (limit_order 3 13 SELL 100 8)) sample_router =
      (Inr (accepted_result (fst (spec_route U64_MAX (NewOrder (limit_order 3 13 SELL 100 8)) 4
         (venue_of sample_router)))), r') \<and>
    venue_of r' = snd (spec_route U64_MAX (NewOrder (limit_order 3 13 SELL 100 8)) 4
         (venue_of sample_router))"
proof -
  have "require_representable (NewOrder (limit_order 3 13 SELL 100 8)) = Inr ()"
    and "\<not> rtr_sequence_exhausted sample_router" and "rtr_next_sequence sample_router = 4"
    and "max_total_active_orders (rtr_config sample_router) = U64_MAX"
    by code_simp+
  with router_refines_venue [OF sample_router_reachable, of "NewOrder (limit_order 3 13 SELL 100 8)"]
  show ?thesis by simp
qed

text \<open>
  C12.  Every reachable router is unpoisoned and its runtime invariant checker, which visits every book,
  reports nothing; checking changes no book.
\<close>

theorem reachable_routers_sound:
  assumes "reachable_router r"
  shows "\<not> rtr_poisoned r \<and> (\<exists>r'. router_invariant_errors r = (Inr [], r') \<and> venue_of r' = venue_of r)"
proof -
  have inv: "router_inv r" by (rule reachable_router_inv [OF assms])
  from router_invariant_errors_clean [OF inv] obtain r' where "router_invariant_errors r = (Inr [], r')" "quiet r r'"
    by blast
  with quiet_venue router_invD(1) [OF inv] show ?thesis by blast
qed

theorem reachable_routers_sound_witness:
  "\<not> rtr_poisoned sample_router \<and>
     (\<exists>r'. router_invariant_errors sample_router = (Inr [], r') \<and> venue_of r' = venue_of sample_router)"
  by (rule reachable_routers_sound [OF sample_router_reachable])

text \<open>
  C23.  A reachable router never fails: an unrepresentable command raises before anything changes, every
  other command returns a result, and none of the internal failures (a prevalidated command rejected
  by its book, a directory entry missing or present twice) can happen.
\<close>

theorem router_never_fails:
  assumes "reachable_router r"
  shows "case require_representable cmd of
      Inl e \<Rightarrow> router_execute cmd r = (Inl e, r)
    | Inr _ \<Rightarrow> \<exists>res r'. router_execute cmd r = (Inr res, r') \<and> \<not> rtr_poisoned r'"
proof -
  have inv: "router_inv r" by (rule reachable_router_inv [OF assms])
  show ?thesis
  proof (cases "require_representable cmd")
    case (Inl e)
    then show ?thesis using router_execute_unrepresentable [OF inv] by simp
  next
    case (Inr u)
    then have rep: "require_representable cmd = Inr ()" by simp
    have "\<exists>res r'. router_execute cmd r = (Inr res, r')"
      using router_execute_exhausted [OF inv rep] router_execute_refines [OF inv rep]
      by (cases "rtr_sequence_exhausted r") (auto, metis prod.collapse)
    moreover have "\<not> rtr_poisoned (snd (router_execute cmd r))"
      using router_execute_inv [OF inv, of cmd] by (simp add: router_inv_def)
    ultimately show ?thesis using Inr by auto
  qed
qed

theorem router_never_fails_witness:
  "router_execute (NewOrder (limit_order 3 (- 1) SELL 100 8)) sample_router = (Inl ValueError, sample_router)"
proof -
  have "require_representable (NewOrder (limit_order 3 (- 1) SELL 100 8)) = Inl ValueError" by code_simp
  with router_never_fails [OF sample_router_reachable, of "NewOrder (limit_order 3 (- 1) SELL 100 8)"]
  show ?thesis by simp
qed

section \<open>The directory and the books\<close>

text \<open>
  C8.  The directory of active identities is exactly the set of resting orders: an identifier is in it
  when one book holds an order of that identifier, with that order's instrument and client, and no
  identifier or priority is used twice across the venue.
\<close>

theorem directory_exact:
  assumes "reachable_router r"
  shows "map_of (rtr_active r) i = map_option identity_of (find_venue_order i (venue_of r)) \<and>
    length (rtr_active r) = length (venue_orders (venue_of r)) \<and>
    int (length (venue_orders (venue_of r))) \<le> max_total_active_orders (rtr_config r) \<and>
    distinct (map ord_order_id (venue_orders (venue_of r))) \<and>
    distinct (map ord_priority_sequence (venue_orders (venue_of r)))"
proof -
  have inv: "router_inv r" by (rule reachable_router_inv [OF assms])
  from router_invD [OF inv] directory_lookup [OF inv, of i] show ?thesis by (simp add: books_inv_def)
qed

theorem directory_exact_witness:
  "map_of (rtr_active sample_router) 11 =
     map_option identity_of (find_venue_order 11 (venue_of sample_router)) \<and>
   map_of (rtr_active sample_router) 11 = Some \<lparr>aid_instrument_id = 2, aid_client_id = 1\<rparr>"
proof -
  have "map_of (rtr_active sample_router) 11 = Some \<lparr>aid_instrument_id = 2, aid_client_id = 1\<rparr>" by code_simp
  with directory_exact [OF sample_router_reachable, of 11] show ?thesis by simp
qed

lemma spec_route_venue:
  assumes "spec_route limit cmd sq vs = (es, vs')"
  shows "vs' = vs \<or> (\<exists>c v v'. map_of vs (command_instrument_id cmd) = Some (c, v) \<and>
    vs' = AList.update (command_instrument_id cmd) (c, v') vs)"
  using assms by (auto simp: spec_route_def Let_def split: option.splits prod.splits)

text \<open>
  C24.  Instruments do not interfere: a command leaves the configuration and the orders of every book
  other than the one it names unchanged, and never adds or removes a book.
\<close>

theorem instruments_isolated:
  assumes "reachable_router r" and "router_execute cmd r = (Inr res, r')" and "result_batch res = Some b"
  shows "map fst (venue_of r') = map fst (venue_of r) \<and>
    (iid \<noteq> command_instrument_id cmd \<longrightarrow> map_of (venue_of r') iid = map_of (venue_of r) iid)"
proof -
  have present: "map fst (AList.update k x vs) = map fst vs" if "map_of vs k = Some y" for k x y and vs :: venue
    using that by (induction vs) (auto split: if_splits)
  from spec_route_venue [OF routed_batch(1) [OF assms]] show ?thesis
  proof (elim disjE exE conjE)
    fix c v v'
    assume "map_of (venue_of r) (command_instrument_id cmd) = Some (c, v)"
      and "venue_of r' = AList.update (command_instrument_id cmd) (c, v') (venue_of r)"
    with present show ?thesis by (auto simp: update_conv')
  qed simp
qed

theorem instruments_isolated_witness:
  "\<exists>res r'. router_execute (NewOrder (limit_order 3 13 SELL 100 8)) sample_router = (Inr res, r') \<and>
     map_of (venue_of r') 2 = map_of (venue_of sample_router) 2"
proof -
  let ?c = "NewOrder (limit_order 3 13 SELL 100 8)" and ?e = "router_execute (NewOrder (limit_order 3 13 SELL 100 8)) sample_router"
  have "case fst ?e of Inl _ \<Rightarrow> False | Inr res \<Rightarrow> result_batch res \<noteq> None" by code_simp
  then obtain res b where e: "?e = (Inr res, snd ?e)" "result_batch res = Some b"
    by (cases ?e) (auto split: sum.splits)
  have "(2 :: int) \<noteq> command_instrument_id ?c" by code_simp
  with instruments_isolated [OF sample_router_reachable e, of 2] e(1) show ?thesis by blast
qed

section \<open>A venue of one instrument\<close>

lemma single_find: "find_venue_order i [(iid, c, v)] = find_order i v"
  by (simp add: find_venue_order_def find_order_def venue_orders_def view_orders_def)

lemma single_fits:
  assumes "max_active_orders c \<le> limit"
  shows "spec_fits c sd ord sq v \<Longrightarrow> venue_fits limit 0 sd ord sq v"
  using assms by (auto simp: spec_fits_def venue_fits_def fits_def view_orders_def split: prod.splits)

lemma single_route:
  assumes ok: "view_ok c iid latest v" and limit: "max_active_orders c \<le> limit"
  shows "spec_route limit cmd sq [(iid, c, v)] =
    (case spec_step c iid cmd sq v of (es, v') \<Rightarrow> (es, [(iid, c, v')]))"
proof -
  have iid: "ord_instrument_id x = iid" if "find_order i v = Some x" for i x
    using find_order_in(1) [OF that] view_okD(2) [OF ok] by (auto simp: order_ok_def)
  have orders: "int (length (venue_orders [(iid, c, v)])) - int (length (view_orders v)) = 0"
    by (simp add: venue_orders_def)
  note fits = single_fits [OF limit]
  show ?thesis
  proof (cases cmd)
    case (NewOrder ord)
    then show ?thesis
      using fits [of "side_of (new_side ord)" ord sq v]
      by (cases "validate_new_shape ord = NONE"; cases "new_instrument_id ord = iid")
        (auto simp: spec_route_def spec_new_def single_find orders Let_def split: prod.splits option.splits)
  next
    case (CancelOrder ord)
    then show ?thesis
      using iid [of "cancel_order_id ord"]
      by (cases "validate_cancel_shape ord = NONE"; cases "cancel_instrument_id ord = iid")
        (auto simp: spec_route_def spec_cancel_def single_find Let_def split: prod.splits option.splits)
  next
    case (ReplaceOrder ord)
    let ?old = "find_order (rep_old_order_id ord) v"
    note f = fits [of "ord_side (the ?old)" "replacement_order ord (the ?old)" sq "spec_remove_order (rep_old_order_id ord) v"]
    show ?thesis
    proof (cases "validate_replace_shape ord = NONE \<and> rep_instrument_id ord = iid")
      case True
      then show ?thesis
        using ReplaceOrder f iid [of "rep_old_order_id ord"]
        by (cases ?old)
          (auto simp: spec_route_def spec_replace_def single_find orders Let_def split: prod.splits)
    next
      case False
      then show ?thesis
        using ReplaceOrder
        by (auto simp: spec_route_def spec_replace_def replace_shape_rejection_def Let_def)
    qed
  qed
qed

definition mirrors :: "router \<Rightarrow> engine \<Rightarrow> bool" where
  "mirrors r s \<longleftrightarrow> router_inv r \<and> engine_inv s \<and>
     venue_of r = [(eng_instrument_id s, eng_config s, view_of s)] \<and>
     max_active_orders (eng_config s) \<le> max_total_active_orders (rtr_config r) \<and>
     rtr_next_sequence r = eng_next_sequence s \<and> rtr_sequence_exhausted r = eng_sequence_exhausted s"

lemma mirrors_execute:
  assumes "mirrors r s"
  shows "fst (router_execute cmd r) = fst (execute cmd s) \<and>
    mirrors (snd (router_execute cmd r)) (snd (execute cmd s))"
proof -
  have inv: "router_inv r" "engine_inv s" and m: "venue_of r = [(eng_instrument_id s, eng_config s, view_of s)]"
    "max_active_orders (eng_config s) \<le> max_total_active_orders (rtr_config r)"
    "rtr_next_sequence r = eng_next_sequence s" "rtr_sequence_exhausted r = eng_sequence_exhausted s"
    using assms by (simp_all add: mirrors_def)
  consider (bad) x where "require_representable cmd = Inl x"
    | (over) "require_representable cmd = Inr ()" "eng_sequence_exhausted s"
    | (run) "require_representable cmd = Inr ()" "\<not> eng_sequence_exhausted s"
    by (cases "require_representable cmd") auto
  then show ?thesis
  proof cases
    case bad
    then show ?thesis
      using router_execute_unrepresentable [OF inv(1) bad] execute_unrepresentable [OF inv(2) bad] assms by simp
  next
    case over
    then show ?thesis using router_execute_exhausted [OF inv(1)] execute_exhausted [OF inv(2)] m assms by simp
  next
    case run
    obtain es v where step: "spec_step (eng_config s) (eng_instrument_id s) cmd (eng_next_sequence s) (view_of s) = (es, v)"
      by (metis prod.exhaust)
    have ex: "\<not> rtr_sequence_exhausted r" using run m by simp
    have "spec_route (max_total_active_orders (rtr_config r)) cmd (rtr_next_sequence r) (venue_of r) =
        (es, [(eng_instrument_id s, eng_config s, v)])"
      using single_route [OF engine_view_ok [OF inv(2)] m(2)] step m by simp
    from router_execute_refines [OF inv(1) run(1) ex this] obtain r' where
      r': "router_execute cmd r = (Inr (accepted_result es), r')" "router_inv r'"
        "venue_of r' = [(eng_instrument_id s, eng_config s, v)]" "routed (issued r) r'" by blast
    from execute_refines [OF inv(2) run step] obtain s' where
      s': "execute cmd s = (Inr (accepted_result es), s')" "engine_inv s'"
        "static_of s' = static_of (observe_sequence (eng_next_sequence s) s)" "view_of s' = v" by blast
    note st = static_of_eqD [OF s'(3)]
    have "rtr_next_sequence (issued r) = eng_next_sequence (observe_sequence (eng_next_sequence s) s)"
      "rtr_sequence_exhausted (issued r) = eng_sequence_exhausted (observe_sequence (eng_next_sequence s) s)"
      using ex run m by (simp_all add: issued_def router_issue_sequence_def observe_sequence_def Let_def)
    with r' s' st m issue_spec(6) [OF inv(1) ex] show ?thesis
      by (simp add: mirrors_def routed_def)
  qed
qed

fun run_routes :: "command list \<Rightarrow> router \<Rightarrow> reference_result result list" where
  "run_routes [] r = []"
| "run_routes (cmd # cmds) r = fst (router_execute cmd r) # run_routes cmds (snd (router_execute cmd r))"

lemma mirrors_run: "mirrors r s \<Longrightarrow> run_routes cmds r = run_commands cmds s"
  using mirrors_execute by (induction cmds arbitrary: r s) auto

lemma ReferenceEngine_static:
  assumes "ReferenceEngine iid config first check = Inr s" and "config_ok config"
  shows "static_of s = static_of (initial_engine iid config first check)"
proof -
  have r: "1 \<le> iid" "iid \<le> U32_MAX" "1 \<le> first" "first \<le> U64_MAX"
    using assms(1) by (auto simp: ReferenceEngine_def split: if_splits)
  have "engine_inv (initial_engine iid config first check)"
    using initial_engine_inv [OF r] assms(2) by (simp add: config_ok_def)
  from assert_invariants_clean [OF this] assms(1) r heap_only_fields(2) show ?thesis
    by (auto simp: ReferenceEngine_def)
qed

text \<open>
  C25.  A router over one instrument is the single-instrument engine: built with the same matching
  configuration and first sequence number, with a venue capacity that does not bind, it answers every
  sequence of commands exactly as the reference engine does.
\<close>

theorem single_instrument_router:
  assumes "instrument_config_ok entry" and "first \<in> {1..U64_MAX}"
    and "max_active_orders (ic_matching entry) \<le> max_total_active_orders cfg"
    and "max_total_active_orders cfg \<le> U64_MAX"
  shows "\<exists>r s. ReferenceRouter [entry] (Some cfg) first check = Inr r \<and>
    ReferenceEngine (ic_instrument_id entry) (Some (ic_matching entry)) first check' = Inr s \<and>
    run_routes cmds r = run_commands cmds s"
proof -
  have c: "1 \<le> ic_instrument_id entry" "ic_instrument_id entry \<le> U32_MAX" "matching_config_ok (ic_matching entry)"
    using assms(1) by (simp_all add: instrument_config_ok_def)
  have "0 \<le> max_total_active_orders cfg" using assms(3) c(3) by (simp add: matching_config_ok_def)
  then obtain r where r: "ReferenceRouter [entry] (Some cfg) first check = Inr r" "router_inv r"
    "venue_of r = [(ic_instrument_id entry, ic_matching entry, \<lambda>_. [])]" "rtr_next_sequence r = first"
    "rtr_config r = cfg" "\<not> rtr_sequence_exhausted r"
    using ReferenceRouter_spec [of "[entry]" "Some cfg" first check] assms by (auto simp: router_config_ok_def)
  obtain s where s: "ReferenceEngine (ic_instrument_id entry) (Some (ic_matching entry)) first check' = Inr s"
    using ReferenceEngine_returns [of "ic_instrument_id entry" first "Some (ic_matching entry)"] c assms(2) by auto
  from ReferenceEngine_inv [OF s] c(3) have si: "engine_inv s" "view_of s = (\<lambda>_. [])" "eng_next_sequence s = first"
    by auto
  have "config_ok (Some (ic_matching entry))" using c(3) by (simp add: config_ok_def)
  from ReferenceEngine_static [OF s this] have st: "eng_instrument_id s = ic_instrument_id entry"
    "eng_config s = ic_matching entry" "\<not> eng_sequence_exhausted s" by (auto simp: static_of_def initial_engine_def)
  have "mirrors r s" using r si st assms(3) by (simp add: mirrors_def)
  with r(1) s mirrors_run show ?thesis by blast
qed

theorem single_instrument_router_witness:
  "\<exists>r s. ReferenceRouter [\<lparr>ic_instrument_id = 1, ic_matching = default_matching_config\<rparr>]
      (Some default_router_config) 1 True = Inr r \<and>
    ReferenceEngine 1 (Some default_matching_config) 1 True = Inr s \<and>
    run_routes sample_commands r = run_commands sample_commands s"
  using single_instrument_router [of "\<lparr>ic_instrument_id = 1, ic_matching = default_matching_config\<rparr>" 1
      default_router_config True True sample_commands]
  by (simp add: instrument_config_ok_def default_matching_config_def default_router_config_def
      matching_config_ok_def width_defs)

section \<open>Rejections of the venue, sequencing, construction and snapshots\<close>

text \<open>
  A client that names the wrong instrument of its own order is told so: the cancellation is
  rejected with an instrument mismatch, in a batch of one event that carries the sequence number, and
  nothing in the venue changes.
\<close>

lemma instrument_mismatch_rejected:
  assumes "reachable_router r" and "\<not> rtr_sequence_exhausted r"
    and "require_representable (CancelOrder cmd) = Inr ()" and "validate_cancel_shape cmd = NONE"
    and "map_of (venue_of r) (cancel_instrument_id cmd) \<noteq> None"
    and "find_venue_order (cancel_order_id cmd) (venue_of r) = Some ord"
    and "ord_client_id ord = cancel_client_id cmd" and "ord_instrument_id ord \<noteq> cancel_instrument_id cmd"
  shows "\<exists>r'. router_execute (CancelOrder cmd) r =
      (Inr \<lparr>result_batch = Some \<lparr>batch_events =
         [RejectedEvent \<lparr>command_sequence = rtr_next_sequence r, event_index = 0,
             hdr_instrument_id = cancel_instrument_id cmd\<rparr>
           CANCEL INSTRUMENT_MISMATCH (Some (cancel_order_id cmd))]\<rparr>, result_error = None\<rparr>, r') \<and>
    venue_of r' = venue_of r"
proof -
  have "spec_route (max_total_active_orders (rtr_config r)) (CancelOrder cmd) (rtr_next_sequence r) (venue_of r) =
    (spec_reject (cancel_instrument_id cmd) (rtr_next_sequence r) CANCEL
      \<lparr>rej_reason = INSTRUMENT_MISMATCH, rej_order_id = Some (cancel_order_id cmd)\<rparr>, venue_of r)"
    using assms(4-) by (auto simp: spec_route_def Let_def split: option.splits)
  from router_execute_refines [OF reachable_router_inv [OF assms(1)] assms(3,2) this] show ?thesis
    by (auto simp: accepted_result_def spec_reject_def)
qed

text \<open>
  The venue has one sequence: every representable command to any instrument consumes exactly the
  next number, whether it is accepted or rejected, and an exhausted router changes nothing.
\<close>

lemma global_sequence_consumed:
  assumes "reachable_router r" and "require_representable cmd = Inr ()"
  shows "if rtr_sequence_exhausted r
    then router_execute cmd r = (Inr \<lparr>result_batch = None, result_error = Some SEQUENCE_EXHAUSTED\<rparr>, r)
    else \<exists>b r'. router_execute cmd r = (Inr \<lparr>result_batch = Some b, result_error = None\<rparr>, r') \<and>
      rtr_last_sequence r' = rtr_next_sequence r \<and>
      (if rtr_next_sequence r = U64_MAX then rtr_sequence_exhausted r'
       else \<not> rtr_sequence_exhausted r' \<and> rtr_next_sequence r' = rtr_next_sequence r + 1)"
proof (cases "rtr_sequence_exhausted r")
  case True
  with router_execute_exhausted [OF reachable_router_inv [OF assms(1)] assms(2)] show ?thesis by simp
next
  case False
  have inv: "router_inv r" by (rule reachable_router_inv [OF assms(1)])
  obtain es vs where "spec_route (max_total_active_orders (rtr_config r)) cmd (rtr_next_sequence r) (venue_of r) = (es, vs)"
    by (metis prod.exhaust)
  from router_execute_refines [OF inv assms(2) False this] issue_spec(4,12) [OF inv False] False show ?thesis
    by (auto simp: accepted_result_def routed_def split: if_splits)
qed

text \<open>
  The router's constructor accepts exactly a non-empty catalogue of distinct instruments and a
  non-zero 64-bit first sequence number; it sorts the catalogue and starts with empty books.
\<close>

lemma router_constructor_exact:
  assumes "\<forall>entry \<in> set catalog. instrument_config_ok entry" and "router_config_ok config"
  shows "case ReferenceRouter catalog config first check of
      Inl e \<Rightarrow> e = ValueError \<and>
        (catalog = [] \<or> \<not> distinct (map ic_instrument_id catalog) \<or> first \<notin> {1..U64_MAX})
    | Inr r \<Rightarrow> catalog \<noteq> [] \<and> distinct (map ic_instrument_id catalog) \<and> first \<in> {1..U64_MAX} \<and>
        rtr_catalog r = sort_key ic_instrument_id catalog \<and> rtr_next_sequence r = first \<and>
        venue_orders (venue_of r) = []"
proof (cases "catalog \<noteq> [] \<and> distinct (map ic_instrument_id catalog) \<and> first \<in> {1..U64_MAX}")
  case True
  then obtain r where "ReferenceRouter catalog config first check = Inr r"
    "venue_of r = map (\<lambda>entry. (ic_instrument_id entry, ic_matching entry, \<lambda>_. [])) (sort_key ic_instrument_id catalog)"
    "rtr_next_sequence r = first" "rtr_catalog r = sort_key ic_instrument_id catalog"
    using ReferenceRouter_spec [OF assms, of first check] by auto
  with True show ?thesis by (simp add: venue_orders_def view_orders_def comp_def)
next
  case False
  have "length (map ic_instrument_id catalog) = card (set (map ic_instrument_id catalog)) \<longleftrightarrow>
      distinct (map ic_instrument_id catalog)" by (metis card_distinct distinct_card)
  with False have "ReferenceRouter catalog config first check = Inl ValueError"
    by (auto simp: ReferenceRouter_def Let_def)
  with False show ?thesis by auto
qed

text \<open>What an instrument's body says of its book: identifier, exact count, and the book's levels.\<close>

definition body_pictures :: "int \<times> matching_config \<times> view \<Rightarrow> instrument_snapshot \<Rightarrow> bool" where
  "body_pictures entry body = (case entry of (iid, c, v) \<Rightarrow>
     is_instrument_id body = iid \<and> is_active_order_count body = int (length (v BUY @ v SELL)) \<and>
     (\<forall>sd. let levels = (case sd of BUY \<Rightarrow> is_bids body | SELL \<Rightarrow> is_asks body) in
        concat (map pls_orders levels) = map order_snapshot_of (v sd) \<and>
        sorted_wrt (<) (map (price_key sd \<circ> pls_price) levels) \<and>
        (\<forall>l \<in> set levels. pls_orders l \<noteq> [] \<and> pls_aggregate_quantity l = level_quantity (v sd) (pls_price l))))"

lemma body_pictures_at:
  assumes "engine_inv e" and "eng_instrument_id e = iid"
  shows "body_pictures (iid, c, view_of e) (instrument_snapshot_at e)"
proof -
  have rep: "rep_ok e" "tight_except {} e" using assms(1) by (simp_all add: engine_inv_def core_inv_def)
  have levels: "(case sd of BUY \<Rightarrow> is_bids (instrument_snapshot_at e) | SELL \<Rightarrow> is_asks (instrument_snapshot_at e)) = view_levels sd e" for sd
    by (cases sd) (simp_all add: instrument_snapshot_at_def)
  from assms(2) view_levels_strict view_levels_orders view_levels_level(1,3) [OF rep] show ?thesis
    by (simp add: body_pictures_def Let_def levels) (simp add: instrument_snapshot_at_def view_orders_def)
qed

lemma bodies_picture:
  assumes "books_inv r"
  shows "list_all2 body_pictures (venue_of r) (map (instrument_snapshot_at \<circ> snd) (rtr_books r))"
    and "map (\<lambda>(iid, c, v). (iid, c)) (venue_of r) = map (\<lambda>entry. (ic_instrument_id entry, ic_matching entry)) (rtr_catalog r)"
proof -
  have all: "list_all2 (book_ok (rtr_last_sequence r)) (rtr_catalog r) (rtr_books r)"
    using assms by (simp add: books_inv_def)
  have "list_all2 body_pictures (map (\<lambda>(iid, e). (iid, eng_config e, view_of e)) books) (map (instrument_snapshot_at \<circ> snd) books) \<and>
      map (\<lambda>(iid, c, v). (iid, c)) (map (\<lambda>(iid, e). (iid, eng_config e, view_of e)) books) =
        map (\<lambda>entry. (ic_instrument_id entry, ic_matching entry)) entries"
    if "list_all2 (book_ok n) entries books" for n entries books
    using that by (induction rule: list_all2_induct) (auto simp: book_ok_def intro: body_pictures_at simp del: view_of_app)
  from this [OF all] show "list_all2 body_pictures (venue_of r) (map (instrument_snapshot_at \<circ> snd) (rtr_books r))"
    and "map (\<lambda>(iid, c, v). (iid, c)) (venue_of r) = map (\<lambda>entry. (ic_instrument_id entry, ic_matching entry)) (rtr_catalog r)"
    by (simp_all only: venue_of_def)
qed

lemma pictured_count: "list_all2 body_pictures vs bodies \<Longrightarrow> int (length (venue_orders vs)) = sum_list (map is_active_order_count bodies)"
  by (induction rule: list_all2_induct) (auto simp: venue_orders_def body_pictures_def view_orders_def)

lemma pictured_orders:
  "list_all2 body_pictures vs bodies \<Longrightarrow>
    concat (map (\<lambda>b. concat (map pls_orders (is_bids b)) @ concat (map pls_orders (is_asks b))) bodies) =
      map order_snapshot_of (venue_orders vs)"
proof (induction rule: list_all2_induct)
  case (Cons entry vs body bodies)
  obtain iid c v where e: "entry = (iid, c, v)" by (metis prod_cases3)
  have "concat (map pls_orders (is_bids body)) = map order_snapshot_of (v BUY)" "concat (map pls_orders (is_asks body)) = map order_snapshot_of (v SELL)"
    using Cons.hyps(1) by (simp_all add: body_pictures_def e Let_def) (metis side.simps(3,4))+
  with Cons e show ?case by (simp add: venue_orders_def view_orders_def)
qed (simp add: venue_orders_def)

text \<open>
  C26.  A router snapshot is complete and exact: it carries the router's own catalogue, configuration and
  sequence state; the catalogue is in increasing order and lists every book with its configuration; there is
  one body per instrument, empty ones included, with the number of the book's orders, and its levels are
  strictly best first with exact totals and enumerate the book's orders; the total count is the number of
  resting orders and the sum of the bodies' counts; taking it changes nothing observable.
\<close>

theorem router_snapshot_complete:
  assumes "reachable_router r"
  shows "\<exists>snap r'. router_snapshot r = (Inr snap, r') \<and> venue_of r' = venue_of r \<and>
    es_catalog snap = rtr_catalog r \<and> es_engine_config snap = rtr_config r \<and>
    es_last_sequence snap = rtr_last_sequence r \<and> es_sequence_exhausted snap = rtr_sequence_exhausted r \<and>
    sorted_wrt (<) (map ic_instrument_id (es_catalog snap)) \<and>
    map (\<lambda>entry. (ic_instrument_id entry, ic_matching entry)) (es_catalog snap) = map (\<lambda>(iid, c, v). (iid, c)) (venue_of r) \<and>
    list_all2 body_pictures (venue_of r) (es_instruments snap) \<and>
    es_active_order_count snap = int (length (venue_orders (venue_of r))) \<and>
    es_active_order_count snap = sum_list (map is_active_order_count (es_instruments snap)) \<and>
    map is_instrument_id (es_instruments snap) = map ic_instrument_id (es_catalog snap) \<and>
    concat (map (\<lambda>b. concat (map pls_orders (is_bids b)) @ concat (map pls_orders (is_asks b)))
      (es_instruments snap)) = map order_snapshot_of (venue_orders (venue_of r))"
proof -
  have inv: "router_inv r" by (rule reachable_router_inv [OF assms])
  note b = router_invD(3) [OF inv]
  from router_snapshot_spec [OF inv] obtain r' where
    r': "router_snapshot r = (Inr (router_snapshot_at r), r')" "quiet r r'" by blast
  have bodies: "list_all2 body_pictures (venue_of r) (es_instruments (router_snapshot_at r))"
    using bodies_picture(1) [OF b] by (simp add: router_snapshot_at_def)
  have "map is_instrument_id bs = map fst vs" if "list_all2 body_pictures vs bs" for vs bs
    using that by (induction rule: list_all2_induct) (auto simp: body_pictures_def)
  from this [OF bodies] have ids: "map is_instrument_id (es_instruments (router_snapshot_at r)) = map ic_instrument_id (rtr_catalog r)"
    using arg_cong [OF bodies_picture(2) [OF b], of "map fst"] by (simp add: comp_def case_prod_unfold)
  have f: "es_catalog (router_snapshot_at r) = rtr_catalog r" "es_engine_config (router_snapshot_at r) = rtr_config r"
    "es_last_sequence (router_snapshot_at r) = rtr_last_sequence r"
    "es_sequence_exhausted (router_snapshot_at r) = rtr_sequence_exhausted r"
    "es_active_order_count (router_snapshot_at r) = int (length (venue_orders (venue_of r)))"
    by (simp_all add: router_snapshot_at_def)
  have sorted: "sorted_wrt (<) (map ic_instrument_id (rtr_catalog r))" using b by (simp add: books_inv_def)
  show ?thesis
  proof (intro exI conjI)
    show "router_snapshot r = (Inr (router_snapshot_at r), r')" by (rule r'(1))
    show "venue_of r' = venue_of r" by (rule quiet_venue [OF r'(2)])
    show "es_active_order_count (router_snapshot_at r) = sum_list (map is_active_order_count (es_instruments (router_snapshot_at r)))"
      unfolding f(5) by (rule pictured_count [OF bodies])
  qed (simp_all only: f sorted ids bodies pictured_orders [OF bodies] bodies_picture(2) [OF b])
qed

theorem router_snapshot_complete_witness:
  "\<exists>snap r'. router_snapshot sample_router = (Inr snap, r') \<and> map ic_instrument_id (es_catalog snap) = [1, 2] \<and>
     es_active_order_count snap = 3 \<and> list_all2 body_pictures (venue_of sample_router) (es_instruments snap)"
proof -
  from router_snapshot_complete [OF sample_router_reachable] obtain snap r' where s: "router_snapshot sample_router = (Inr snap, r')"
    "es_catalog snap = rtr_catalog sample_router" "es_active_order_count snap = int (length (venue_orders (venue_of sample_router)))"
    "list_all2 body_pictures (venue_of sample_router) (es_instruments snap)" by blast
  moreover have "map ic_instrument_id (rtr_catalog sample_router) = [1, 2]" by code_simp
  moreover have "length (venue_orders (venue_of sample_router)) = 3" by code_simp
  ultimately show ?thesis by auto
qed

end
