(* ===== verification/Canonical_Properties.thy ===== *)
theory Canonical_Properties
  imports Canonical Router_Properties
begin

text \<open>
  What the canonical encodings promise for live engines: every reachable engine and router has a
  canonical state, and a canonical stream determines the state, the venue or the batch it stands for.
\<close>

section \<open>When an encoder returns\<close>

definition returns :: "'a result \<Rightarrow> bool" where
  "returns r \<longleftrightarrow> (\<exists>x. r = Inr x)"

lemma returns_simps [simp]: "returns (Inr x)" "\<not> returns (Inl e)"
  by (simp_all add: returns_def)

lemma returns_bind [simp]: "returns (bindR m f) \<longleftrightarrow> (\<exists>x. m = Inr x \<and> returns (f x))"
  by (cases m) (auto simp: returns_def)

lemma returns_cat: "returns (cat ps) \<longleftrightarrow> list_all returns ps"
  by (induction ps) (auto simp: returns_def bindR_Inr_iff)

declare cat.simps(2) [simp del]

lemma returns_put [simp]:
  "returns (put_u8 v) \<longleftrightarrow> 0 \<le> v \<and> v \<le> U8_MAX" "returns (put_u16 v) \<longleftrightarrow> 0 \<le> v \<and> v \<le> U16_MAX"
  "returns (put_u32 v) \<longleftrightarrow> 0 \<le> v \<and> v \<le> U32_MAX" "returns (put_u64 v) \<longleftrightarrow> 0 \<le> v \<and> v \<le> U64_MAX"
  "returns (put_i64 v) \<longleftrightarrow> I64_MIN \<le> v \<and> v \<le> I64_MAX"
proof -
  show u: "returns (put_u64 v) \<longleftrightarrow> 0 \<le> v \<and> v \<le> U64_MAX" for v by (simp add: put_u64_def)
  have "0 \<le> v mod 2 ^ 64 \<and> v mod 2 ^ 64 \<le> U64_MAX" by (simp add: U64_MAX_def flip: zless_add1_eq)
  then show "returns (put_i64 v) \<longleftrightarrow> I64_MIN \<le> v \<and> v \<le> I64_MAX" unfolding put_i64_def using u by auto
qed (simp_all add: put_u8_def put_u16_def put_u32_def)

lemma small_flags [simp]:
  "0 \<le> side_value sd" "side_value sd \<le> U8_MAX" "0 \<le> int_of_bool b" "int_of_bool b \<le> U8_MAX"
  by (cases sd; simp add: int_of_bool_def U8_MAX_def)+

lemma small_types [simp]:
  "0 \<le> command_type_value ct" "command_type_value ct \<le> U8_MAX" "0 \<le> event_type_value et" "event_type_value et \<le> U8_MAX"
  by (cases ct; cases et; simp add: U8_MAX_def)+

lemma small_done_reasons [simp]: "0 \<le> done_reason_value dr" "done_reason_value dr \<le> U8_MAX"
  by (cases dr; simp add: U8_MAX_def)+

lemma small_reject_reasons [simp]: "0 \<le> reject_reason_value rr" "reject_reason_value rr \<le> U16_MAX"
  by (cases rr; simp add: U16_MAX_def)+

section \<open>Live states have canonical bytes\<close>

lemma order_encodes:
  assumes "order_ok c iid latest sd ord" and "matching_config_ok c" and "1 \<le> iid" "iid \<le> U32_MAX" "latest \<le> U64_MAX"
  shows "returns (encode_order (order_snapshot_of ord))"
  using assms
  by (auto simp: encode_order_def returns_cat order_snapshot_of_def order_ok_def matching_config_ok_def I64_MIN_def)

lemma length_concat_nonempty: "(\<forall>x \<in> set xs. f x \<noteq> []) \<Longrightarrow> length xs \<le> length (concat (map f xs))"
proof (induction xs)
  case (Cons x xs)
  then have "1 \<le> length (f x)" by (cases "f x") auto
  with Cons show ?case by simp
qed simp

lemma set_concat_member: "x \<in> set xs \<Longrightarrow> set (f x) \<subseteq> set (concat (map f xs))"
  by auto

lemma total_quantity_nonneg: "all_positive os \<Longrightarrow> 0 \<le> total_quantity os"
  by (induction os) auto

lemma engine_widths:
  assumes "engine_inv e"
  shows "matching_config_ok (eng_config e)" and "1 \<le> eng_instrument_id e" and "eng_instrument_id e \<le> U32_MAX"
    and "0 \<le> eng_last_sequence e" and "eng_last_sequence e \<le> U64_MAX"
    and "int (length (flat BUY e) + length (flat SELL e)) \<le> U64_MAX"
proof -
  have c: "rep_ok e" "matching_config_ok (eng_config e)" "1 \<le> eng_instrument_id e" "eng_instrument_id e \<le> U32_MAX"
    "0 \<le> eng_last_sequence e" "int (length (eng_orders e)) \<le> max_active_orders (eng_config e)"
    using assms by (simp_all add: engine_inv_def core_inv_def)
  then show "matching_config_ok (eng_config e)" "1 \<le> eng_instrument_id e" "eng_instrument_id e \<le> U32_MAX"
    "0 \<le> eng_last_sequence e" by simp_all
  show "eng_last_sequence e \<le> U64_MAX" using assms by (auto simp: engine_inv_def sequence_ok_def split: if_splits)
  show "int (length (flat BUY e) + length (flat SELL e)) \<le> U64_MAX"
    using c order_count [OF c(1)] by (auto simp: matching_config_ok_def)
qed

lemma levels_encode:
  assumes inv: "engine_inv e"
  shows "list_all returns (map encode_level (view_levels sd e))"
    and "int (length (view_levels sd e)) \<le> U64_MAX"
proof -
  have rep: "rep_ok e" "tight_except {} e" using inv by (simp_all add: engine_inv_def core_inv_def)
  note w = engine_widths [OF inv] and vok = engine_view_ok [OF inv]
  note lv = view_levels_level [OF rep]
  have len: "length (concat (map pls_orders (view_levels sd e))) = length (flat sd e)"
    by (simp add: view_levels_orders)
  have "length (view_levels sd e) \<le> length (flat sd e)"
    using length_concat_nonempty [of "view_levels sd e" pls_orders] lv(1) len by auto
  then show "int (length (view_levels sd e)) \<le> U64_MAX" using w(6) by (cases sd) auto
  have "returns (encode_level l)" if l: "l \<in> set (view_levels sd e)" for l
  proof -
    have sub: "set (pls_orders l) \<subseteq> order_snapshot_of ` set (flat sd e)"
      using set_concat_member [OF l, of pls_orders] arg_cong [OF view_levels_orders [of sd e], of set] by simp
    have "returns (encode_order o')" if mem: "o' \<in> set (pls_orders l)" for o'
    proof -
      obtain y where y: "y \<in> set (flat sd e)" "o' = order_snapshot_of y" using sub mem by blast
      have "order_ok (eng_config e) (eng_instrument_id e) (eng_last_sequence e) sd y"
        using view_okD(2) [OF vok, of y sd] y(1) by simp
      from order_encodes [OF this w(1,2,3,5)] show ?thesis by (simp add: y(2))
    qed
    then have encs: "list_all returns (map encode_order (pls_orders l))" by (simp add: list_all_iff)
    obtain x where x: "x \<in> set (flat sd e)" "order_snapshot_of x \<in> set (pls_orders l)"
      using lv(1) [OF l] sub by (cases "pls_orders l") auto
    then have price: "pls_price l = ord_price x" using lv(2) [OF l] by (auto simp: order_snapshot_of_def)
    have "order_ok (eng_config e) (eng_instrument_id e) (eng_last_sequence e) sd x"
      using view_okD(2) [OF vok, of x sd] x(1) by simp
    then have "I64_MIN \<le> pls_price l" "pls_price l \<le> I64_MAX" by (auto simp: price order_ok_def I64_MIN_def)
    moreover have "0 \<le> pls_aggregate_quantity l" "pls_aggregate_quantity l \<le> U64_MAX"
      using lv(3) [OF l] view_okD(5) [OF vok, of sd] view_ok_positive [OF vok, of sd] total_quantity_nonneg
      by (auto simp: level_quantity_def)
    moreover have "length (pls_orders l) \<le> length (flat sd e)"
      using split_list [OF l] len by auto
    then have "int (length (pls_orders l)) \<le> U64_MAX" using w(6) by (cases sd) auto
    ultimately show ?thesis using encs by (simp add: encode_level_def returns_cat)
  qed
  then show "list_all returns (map encode_level (view_levels sd e))" by (simp add: list_all_iff)
qed

lemma state_encodes: "engine_inv s \<Longrightarrow> returns (state_bytes (snapshot_of s))"
  using levels_encode [of s] engine_widths [of s]
  by (auto simp: state_bytes_def returns_cat snapshot_of_def ATLASLOB_SEMANTICS_VERSION_def U16_MAX_def)

lemma instrument_encodes: "engine_inv e \<Longrightarrow> returns (encode_instrument (instrument_snapshot_at e))"
  using levels_encode [of e] engine_widths [of e]
  by (auto simp: encode_instrument_def returns_cat instrument_snapshot_at_def view_orders_def)

lemma catalog_short:
  assumes "distinct ids" and "set ids \<subseteq> {1..U32_MAX}"
  shows "int (length ids) \<le> U64_MAX"
proof -
  have "card (set ids) \<le> card {1..U32_MAX}" using assms(2) by (intro card_mono) auto
  then show ?thesis using distinct_card [OF assms(1)] by (simp add: width_defs)
qed

lemma router_state_encodes:
  assumes inv: "router_inv r"
  shows "returns (engine_state_bytes (router_snapshot_at r))"
proof -
  note d = router_invD [OF inv] and b = router_invD(3) [OF inv]
  let ?snap = "router_snapshot_at r"
  have books: "engine_inv e \<and> eng_instrument_id e = iid" if "(iid, e) \<in> set (rtr_books r)" for iid e
    using books_invD(3) [OF b] map_of_in_dict [OF books_invD(2) [OF b]] that by blast
  then have "map (eng_instrument_id \<circ> snd) (rtr_books r) = map fst (rtr_books r)" by auto
  then have ids: "map is_instrument_id (es_instruments ?snap) = map ic_instrument_id (rtr_catalog r)"
    using books_invD(1) [OF b] by (simp add: router_snapshot_at_def instrument_snapshot_at_def comp_def)
  have strict: "sorted_wrt (<) (map ic_instrument_id (rtr_catalog r))" using b by (simp add: books_inv_def)
  then have dist: "distinct (map ic_instrument_id (rtr_catalog r))" "sorted (map ic_instrument_id (rtr_catalog r))"
    by (simp_all add: strict_sorted_iff)
  have entry: "matching_config_ok (ic_matching x) \<and> ic_instrument_id x \<in> {1..U32_MAX}" if "x \<in> set (rtr_catalog r)" for x
    using catalog_books(2) [OF b] that engine_widths(1-3) by (force simp: configured_def book_ok_def)
  have short: "int (length (rtr_catalog r)) \<le> U64_MAX" "length (rtr_books r) = length (rtr_catalog r)"
    using catalog_short [OF dist(1)] entry map_eq_imp_length_eq [OF books_invD(1) [OF b]] by (simp_all add: image_subset_iff)
  have count: "es_active_order_count ?snap = sum_list (map is_active_order_count (es_instruments ?snap))"
    by (simp add: router_snapshot_at_def venue_orders_def venue_of_def instrument_snapshot_at_def
        length_concat comp_def case_prod_unfold sum_list_of_nat [symmetric] del: view_of_app)
  have "returns (encode_instrument_config x)" if "x \<in> set (rtr_catalog r)" for x
    using entry [OF that] by (auto simp: encode_instrument_config_def returns_cat matching_config_ok_def I64_MIN_def)
  moreover have "0 \<le> rtr_last_sequence r \<and> rtr_last_sequence r \<le> U64_MAX"
    using d(2) by (auto simp: router_sequence_ok_def U64_MAX_def split: if_splits)
  moreover have "returns (encode_instrument x)" if "x \<in> set (es_instruments ?snap)" for x
    using that books instrument_encodes by (auto simp: router_snapshot_at_def)
  moreover have "length (map ic_instrument_id (rtr_catalog r)) = card (set (map ic_instrument_id (rtr_catalog r)))"
    using distinct_card [OF dist(1)] by simp
  ultimately show ?thesis
    using ids count dist(2) short d(5,6,7)
    unfolding engine_state_bytes_def Let_def ids
    by (auto simp: returns_cat list_all_iff router_snapshot_at_def sorted_sort_id
        ATLASLOB_SEMANTICS_VERSION_def U16_MAX_def)
qed

section \<open>Properties\<close>

text \<open>
  Every reachable engine has a state digest: no field of its snapshot is out of the range of its
  encoding, so taking the digest never raises, and it changes nothing observable.
\<close>

lemma engine_digest_total:
  assumes "reachable_engine s"
  shows "\<exists>b s'. engine_digest sha256 s = (Inr (sha256 b), s') \<and> state_bytes (snapshot_of s) = Inr b \<and>
    view_of s' = view_of s \<and> eng_last_sequence s' = eng_last_sequence s \<and> \<not> eng_poisoned s'"
proof -
  have inv: "engine_inv s" by (rule reachable_engine_inv [OF assms])
  from state_encodes [OF inv] obtain b where b: "state_bytes (snapshot_of s) = Inr b" by (auto simp: returns_def)
  from snapshot_spec [OF inv] obtain s' where
    s': "snapshot s = (Inr (snapshot_of s), s')" "heap_only s s'" "engine_inv s'" by blast
  have "view_of s' = view_of s" "eng_last_sequence s' = eng_last_sequence s" "\<not> eng_poisoned s'"
    using heap_only_observed [OF s'(2)] s'(3) by (simp_all add: engine_inv_def core_inv_def)
  with b s'(1) show ?thesis by (simp add: engine_digest_def bindP_def liftP_def state_digest_def)
qed

definition plain_hash :: "bytes \<Rightarrow> string" where
  "plain_hash b = map (\<lambda>w. char_of (unat w)) b"

lemma plain_hash_inj: "plain_hash b = plain_hash c \<Longrightarrow> b = c"
proof (induction b arbitrary: c)
  case (Cons x b)
  then obtain y c' where c: "c = y # c'" "char_of (unat x) = (char_of (unat y) :: char)" "plain_hash b = plain_hash c'"
    by (cases c) (auto simp: plain_hash_def)
  have "unat x < 256" "unat y < 256" using unsigned_less [of x, where ?'a = nat] unsigned_less [of y, where ?'a = nat] by simp_all
  with arg_cong [OF c(2), of "of_char :: char \<Rightarrow> nat"] have "x = y" by (auto intro: unsigned_word_eqI)
  with c Cons.IH show ?case by simp
qed (simp add: plain_hash_def)

text \<open>
  Every reachable router has a state digest: the catalog is in order, the books line up with it, the
  counts add up and every field is in range, so none of the encoder's checks raises.
\<close>

lemma router_digest_total:
  assumes "reachable_router r"
  shows "\<exists>b r'. router_digest sha256 r = (Inr (sha256 b), r') \<and>
    engine_state_bytes (router_snapshot_at r) = Inr b \<and> venue_of r' = venue_of r"
proof -
  have inv: "router_inv r" by (rule reachable_router_inv [OF assms])
  from router_state_encodes [OF inv] obtain b where b: "engine_state_bytes (router_snapshot_at r) = Inr b"
    by (auto simp: returns_def)
  from router_snapshot_spec [OF inv] obtain r' where
    r': "router_snapshot r = (Inr (router_snapshot_at r), r')" "quiet r r'" by blast
  with b quiet_venue [OF r'(2)] show ?thesis
    by (simp add: router_digest_def bindP_def liftP_def engine_state_digest_def)
qed

text \<open>
  C27.  A canonical state stream determines the state: two book snapshots with the same stream are the same
  snapshot, field by field, level by level and order by order.
\<close>

theorem state_stream_unique:
  assumes "state_bytes x = Inr b" and "state_bytes y = Inr b"
  shows "x = y"
  using state_code.injective [OF assms] .

definition sample_snapshot :: book_snapshot where
  "sample_snapshot =
     \<lparr>bs_semantics_version = 1, bs_instrument_id = 1, bs_last_sequence = 2, bs_sequence_exhausted = False,
      bs_active_order_count = 1, bs_bids =
        [\<lparr>pls_price = 100, pls_aggregate_quantity = 5, pls_orders =
          [\<lparr>os_order_id = 10, os_client_id = 1, os_instrument_id = 1, os_side = BUY, os_price = 100,
            os_remaining_quantity = 5, os_priority_sequence = 1\<rparr>]\<rparr>],
      bs_asks = []\<rparr>"

theorem state_stream_unique_witness:
  "\<exists>b. state_bytes sample_snapshot = Inr b \<and> length b = 112 \<and> (\<lambda>x. state_bytes x = Inr b) = (\<lambda>x. x = sample_snapshot)"
proof -
  have "(case state_bytes sample_snapshot of Inr b \<Rightarrow> length b = 112 | Inl _ \<Rightarrow> False)" by code_simp
  then obtain b where b: "state_bytes sample_snapshot = Inr b" "length b = 112" by (auto split: sum.splits)
  with state_stream_unique [OF b(1)] show ?thesis by (intro exI [of _ b]) (auto simp: fun_eq_iff)
qed

text \<open>
  C10.  A canonical event stream determines the batch, and no stream is a proper prefix of another: streams
  written one after the other can be cut in only one way.
\<close>

theorem event_stream_unique:
  assumes "event_bytes x = Inr b" and "event_bytes y = Inr c" and "b @ s = c @ t"
  shows "x = y \<and> s = t"
  using batch_code.unique [OF assms] .

definition sample_batch :: event_batch where
  "sample_batch = \<lparr>batch_events =
     [AcceptedEvent \<lparr>command_sequence = 1, event_index = 0, hdr_instrument_id = 1\<rparr> CANCEL,
      CanceledEvent \<lparr>command_sequence = 1, event_index = 1, hdr_instrument_id = 1\<rparr> 10 5]\<rparr>"

theorem event_stream_unique_witness:
  "\<exists>b. event_bytes sample_batch = Inr b \<and> (\<lambda>x. event_bytes x = Inr b) = (\<lambda>x. x = sample_batch)"
proof -
  have "(case event_bytes sample_batch of Inr b \<Rightarrow> True | Inl _ \<Rightarrow> False)" by code_simp
  then obtain b where b: "event_bytes sample_batch = Inr b" by (auto split: sum.splits)
  from event_stream_unique [OF _ b] have "x = sample_batch" if "event_bytes x = Inr b" for x using that by blast
  with b show ?thesis by (intro exI [of _ b]) (auto simp: fun_eq_iff)
qed

text \<open>
  C28.  The multi-instrument stream determines the venue: catalog, configuration, counters and every book.
\<close>

theorem venue_stream_unique:
  assumes "engine_state_bytes x = Inr b" and "engine_state_bytes y = Inr b"
  shows "x = y"
  using venue_code.injective [OF assms] .

theorem venue_stream_unique_witness:
  "\<exists>b. engine_state_bytes (router_snapshot_at sample_router) = Inr b \<and>
     (\<lambda>x. engine_state_bytes x = Inr b) = (\<lambda>x. x = router_snapshot_at sample_router)"
proof -
  from router_state_encodes [OF reachable_router_inv [OF sample_router_reachable]]
  obtain b where b: "engine_state_bytes (router_snapshot_at sample_router) = Inr b" unfolding returns_def by blast
  from venue_stream_unique [OF _ b] have "(engine_state_bytes x = Inr b) = (x = router_snapshot_at sample_router)" for x
    using b by blast
  with b show ?thesis by (intro exI [of _ b] conjI ext)
qed

text \<open>
  C29.  Equal digests mean equal behaviour: two reachable engines with the same configuration whose state
  digests agree answer every sequence of further commands alike, provided the hash does not collide on
  their two streams.
\<close>

theorem digest_decides_behaviour:
  assumes "reachable_engine s" and "reachable_engine t" and "eng_config s = eng_config t"
    and "fst (engine_digest sha256 s) = fst (engine_digest sha256 t)"
    and "\<And>b c. state_bytes (snapshot_of s) = Inr b \<Longrightarrow> state_bytes (snapshot_of t) = Inr c \<Longrightarrow>
      sha256 b = sha256 c \<Longrightarrow> b = c"
  shows "run_commands cmds s = run_commands cmds t"
proof -
  have inv: "engine_inv s" "engine_inv t" by (rule reachable_engine_inv, fact)+
  obtain b c where b: "state_bytes (snapshot_of s) = Inr b" "state_bytes (snapshot_of t) = Inr c"
    using state_encodes [OF inv(1)] state_encodes [OF inv(2)] by (auto simp: returns_def)
  with snapshot_spec [OF inv(1)] snapshot_spec [OF inv(2)] assms(4) have "sha256 b = sha256 c"
    by (auto simp: engine_digest_def bindP_def liftP_def state_digest_def)
  with assms(5) [OF b] b have "snapshot_of s = snapshot_of t" using state_code.injective by blast
  from equivalent_run [OF equivalentI [OF inv assms(3) this]] show ?thesis .
qed

theorem digest_decides_behaviour_witness:
  "run_commands [NewOrder (limit_order 3 13 SELL 100 8)] sample_engine =
   run_commands [NewOrder (limit_order 3 13 SELL 100 8)] other_engine"
proof (rule digest_decides_behaviour [of sample_engine other_engine plain_hash, OF sample_reachable other_reachable])
  show "eng_config sample_engine = eng_config other_engine" by code_simp
  show "fst (engine_digest plain_hash sample_engine) = fst (engine_digest plain_hash other_engine)" by code_simp
qed (rule plain_hash_inj)

end
