(* ===== verification/Py_Text.thy ===== *)
theory Py_Text
  imports Prelude
begin

text \<open>
  The text primitives of Python the sources use: \<open>str\<close> of an integer, \<open>int\<close> of a decimal token, the
  canonical decimal patterns, \<open>" ".join\<close>, \<open>str.split()\<close> and the physical lines of a file opened with
  \<open>newline=""\<close>.  A \<open>str\<close> is a HOL string, so its characters are the first 256 code points; every text
  the program writes is ASCII.
\<close>

section \<open>Decimal numerals\<close>

definition digit :: "nat \<Rightarrow> char" where
  "digit d = char_of (48 + d)"

definition digit_value :: "char \<Rightarrow> nat" where
  "digit_value c = of_char c - 48"

definition is_digit :: "char \<Rightarrow> bool" where
  "is_digit c \<longleftrightarrow> (let n = (of_char c :: nat) in 48 \<le> n \<and> n \<le> 57)"

fun dec :: "nat \<Rightarrow> string" where
  "dec n = (if n < 10 then [digit n] else dec (n div 10) @ [digit (n mod 10)])"

declare dec.simps [simp del]

text \<open>\<open>str(i)\<close> of an integer.\<close>

definition py_str :: "int \<Rightarrow> string" where
  "py_str i = (if i < 0 then CHR ''-'' # dec (nat (- i)) else dec (nat i))"

text \<open>\<open>int(token)\<close> of a token that one of the two patterns below matches.\<close>

definition digits_value :: "string \<Rightarrow> nat" where
  "digits_value cs = foldl (\<lambda>a c. a * 10 + digit_value c) 0 cs"

definition py_int :: "string \<Rightarrow> int" where
  "py_int cs = (if cs \<noteq> [] \<and> hd cs = CHR ''-'' then - int (digits_value (tl cs)) else int (digits_value cs))"

text \<open>The patterns \<open>0|[1-9][0-9]*\<close> and \<open>0|-[1-9][0-9]*|[1-9][0-9]*\<close>, matched in full.\<close>

definition positive_decimal :: "string \<Rightarrow> bool" where
  "positive_decimal cs \<longleftrightarrow> cs \<noteq> [] \<and> list_all is_digit cs \<and> hd cs \<noteq> CHR ''0''"

definition unsigned_decimal :: "string \<Rightarrow> bool" where
  "unsigned_decimal cs \<longleftrightarrow> cs = ''0'' \<or> positive_decimal cs"

definition signed_decimal :: "string \<Rightarrow> bool" where
  "signed_decimal cs \<longleftrightarrow> unsigned_decimal cs \<or> (cs \<noteq> [] \<and> hd cs = CHR ''-'' \<and> positive_decimal (tl cs))"

lemma is_digit_digit [simp]: "d < 10 \<Longrightarrow> is_digit (digit d)"
  by (simp add: is_digit_def digit_def)

lemma digit_value_digit [simp]: "d < 10 \<Longrightarrow> digit_value (digit d) = d"
  by (simp add: digit_value_def digit_def)

lemma digit_digit_value [simp]: "is_digit c \<Longrightarrow> digit (digit_value c) = c"
  by (simp add: is_digit_def digit_def digit_value_def Let_def)

lemma digit_value_less [simp]: "is_digit c \<Longrightarrow> digit_value c < 10"
  unfolding is_digit_def digit_value_def Let_def by linarith

lemma digit_zero: "digit 0 = CHR ''0''"
  by code_simp

lemma digit_eq_zero_iff [simp]: "d < 10 \<Longrightarrow> digit d = CHR ''0'' \<longleftrightarrow> d = 0"
  by (metis digit_value_digit digit_zero zero_less_numeral)

lemma is_digit_not_sign [simp]: "\<not> is_digit CHR ''-''"
  by (simp add: is_digit_def)

lemma digits_value_append [simp]: "digits_value (cs @ [c]) = digits_value cs * 10 + digit_value c"
  by (simp add: digits_value_def)

lemma dec_digits: "list_all is_digit (dec n) \<and> dec n \<noteq> []"
proof (induction n rule: dec.induct)
  case (1 n)
  then show ?case by (subst dec.simps, simp) (subst dec.simps, simp)
qed

lemma digits_value_dec [simp]: "digits_value (dec n) = n"
proof (induction n rule: dec.induct)
  case (1 n)
  then show ?case by (subst dec.simps) (simp add: digits_value_def [of "[_]"])
qed

lemma dec_head: "0 < n \<Longrightarrow> hd (dec n) \<noteq> CHR ''0''"
proof (induction n rule: dec.induct)
  case (1 n)
  then show ?case using dec_digits [of "n div 10"] by (subst dec.simps) simp
qed

lemma dec_zero: "dec 0 = ''0''"
  by (simp add: dec.simps digit_zero)

lemma dec_unsigned: "unsigned_decimal (dec n)"
  using dec_digits [of n] dec_head [of n] by (cases "n = 0") (simp_all add: unsigned_decimal_def positive_decimal_def dec_zero)

lemma dec_positive: "0 < n \<Longrightarrow> positive_decimal (dec n)"
  using dec_digits [of n] dec_head [of n] by (simp add: positive_decimal_def)

text \<open>A canonical numeral is the numeral of its value.\<close>

lemma digits_value_pos: "positive_decimal cs \<Longrightarrow> 0 < digits_value cs"
proof (induction cs rule: rev_induct)
  case (snoc c cs)
  show ?case
  proof (cases "cs = []")
    case True
    with snoc.prems have "is_digit c" "c \<noteq> CHR ''0''" by (simp_all add: positive_decimal_def)
    then have "digit_value c \<noteq> 0" by (metis digit_digit_value digit_zero)
    with True show ?thesis by (simp add: digits_value_def)
  next
    case False
    with snoc show ?thesis by (simp add: positive_decimal_def)
  qed
qed (simp add: positive_decimal_def)

lemma dec_digits_value_pos: "positive_decimal cs \<Longrightarrow> dec (digits_value cs) = cs"
proof (induction cs rule: rev_induct)
  case (snoc c cs)
  have c: "is_digit c" using snoc.prems by (simp add: positive_decimal_def)
  show ?case
  proof (cases "cs = []")
    case True
    with c show ?thesis by (simp add: digits_value_def dec.simps)
  next
    case False
    then have p: "positive_decimal cs" using snoc.prems by (simp add: positive_decimal_def)
    have "10 \<le> digits_value cs * 10 + digit_value c" using digits_value_pos [OF p] by simp
    with c digit_value_less [OF c] snoc.IH [OF p] show ?thesis by (subst dec.simps) simp
  qed
qed (simp add: positive_decimal_def)

lemma dec_digits_value: "unsigned_decimal cs \<Longrightarrow> dec (digits_value cs) = cs"
  using dec_digits_value_pos by (auto simp: unsigned_decimal_def dec_zero digits_value_def digit_value_def)

lemma unsigned_no_sign: "unsigned_decimal cs \<Longrightarrow> cs \<noteq> [] \<and> hd cs \<noteq> CHR ''-''"
  by (cases cs) (auto simp: unsigned_decimal_def positive_decimal_def)

lemma py_int_str [simp]: "py_int (py_str i) = i"
proof (cases "i < 0")
  case False
  then show ?thesis using unsigned_no_sign [OF dec_unsigned [of "nat i"]] by (simp add: py_str_def py_int_def)
qed (simp add: py_str_def py_int_def)

lemma py_str_unsigned: "0 \<le> i \<Longrightarrow> unsigned_decimal (py_str i)"
  by (simp add: py_str_def dec_unsigned)

lemma py_str_signed: "signed_decimal (py_str i)"
  by (simp add: py_str_def signed_decimal_def dec_unsigned dec_positive)

lemma py_str_int_signed: "signed_decimal cs \<Longrightarrow> py_str (py_int cs) = cs"
proof -
  assume s: "signed_decimal cs"
  show ?thesis
  proof (cases "unsigned_decimal cs")
    case True
    with unsigned_no_sign [OF True] dec_digits_value [OF True] show ?thesis by (simp add: py_int_def py_str_def)
  next
    case False
    with s have "cs \<noteq> []" "hd cs = CHR ''-''" "positive_decimal (tl cs)" by (simp_all add: signed_decimal_def)
    with digits_value_pos [of "tl cs"] dec_digits_value_pos [of "tl cs"] show ?thesis
      by (cases cs) (simp_all add: py_int_def py_str_def)
  qed
qed

lemma py_str_int_unsigned: "unsigned_decimal cs \<Longrightarrow> py_str (py_int cs) = cs \<and> 0 \<le> py_int cs"
  using py_str_int_signed [of cs] unsigned_no_sign [of cs] by (simp add: signed_decimal_def py_int_def)

section \<open>Fields of a line\<close>

text \<open>\<open>str.isspace\<close> on one character.\<close>

definition py_isspace :: "char \<Rightarrow> bool" where
  "py_isspace c \<longleftrightarrow> (let n = (of_char c :: nat) in 9 \<le> n \<and> n \<le> 13 \<or> 28 \<le> n \<and> n \<le> 32 \<or> n = 133 \<or> n = 160)"

text \<open>\<open>" ".join(fields)\<close>.\<close>

fun join_fields :: "string list \<Rightarrow> string" where
  "join_fields [] = []"
| "join_fields [f] = f"
| "join_fields (f # fs) = f @ '' '' @ join_fields fs"

text \<open>\<open>str.split()\<close>: maximal runs of characters that are not whitespace; \<open>cur\<close> is the run being read.\<close>

fun split_run :: "string \<Rightarrow> string \<Rightarrow> string list" where
  "split_run cur [] = (if cur = [] then [] else [cur])"
| "split_run cur (c # cs) =
     (if py_isspace c then (if cur = [] then [] else [cur]) @ split_run [] cs else split_run (cur @ [c]) cs)"

definition py_split :: "string \<Rightarrow> string list" where
  "py_split cs = split_run [] cs"

definition token :: "string \<Rightarrow> bool" where
  "token f \<longleftrightarrow> f \<noteq> [] \<and> list_all (\<lambda>c. \<not> py_isspace c) f"

lemma split_run_token: "list_all (\<lambda>c. \<not> py_isspace c) f \<Longrightarrow> split_run cur (f @ cs) = split_run (cur @ f) cs"
  by (induction f arbitrary: cur) auto

lemma space_isspace [simp]: "py_isspace CHR '' ''"
  by (simp add: py_isspace_def)

lemma py_split_join: "list_all token fs \<Longrightarrow> py_split (join_fields fs) = fs"
  unfolding py_split_def
  by (induction fs rule: join_fields.induct) (auto simp: token_def split_run_token [of _ "[]"] split_run_token [of _ "[]" "[]", simplified])

lemma is_digit_not_space: "is_digit c \<Longrightarrow> \<not> py_isspace c"
  by (auto simp: is_digit_def py_isspace_def Let_def)

lemma signed_token: "signed_decimal cs \<Longrightarrow> token cs"
proof -
  assume s: "signed_decimal cs"
  have d: "list_all (\<lambda>c. \<not> py_isspace c) ds" if "list_all is_digit ds" for ds
    using that by (auto simp: list_all_iff is_digit_not_space)
  have minus: "\<not> py_isspace CHR ''-''" "\<not> py_isspace CHR ''0''" by (simp_all add: py_isspace_def)
  from s consider "cs = ''0''" | "positive_decimal cs" | "cs \<noteq> []" "hd cs = CHR ''-''" "positive_decimal (tl cs)"
    by (auto simp: signed_decimal_def unsigned_decimal_def)
  then show ?thesis
  proof cases
    case 3
    then show ?thesis using d minus by (cases cs) (simp_all add: token_def positive_decimal_def)
  qed (use d minus in \<open>simp_all add: token_def positive_decimal_def\<close>)
qed

lemma py_str_token [simp]: "token (py_str i)"
  by (rule signed_token [OF py_str_signed])

text \<open>No character of a joined line of tokens is a line break.\<close>

lemma join_fields_chars: "set (join_fields fs) \<subseteq> {CHR '' ''} \<union> \<Union> (set ` set fs)"
  by (induction fs rule: join_fields.induct) auto

definition plain_char :: "char \<Rightarrow> bool" where
  "plain_char c \<longleftrightarrow> c = CHR '' '' \<or> \<not> py_isspace c"

lemma join_fields_plain: "list_all token fs \<Longrightarrow> list_all plain_char (join_fields fs)"
  using join_fields_chars [of fs] by (fastforce simp: list_all_iff token_def plain_char_def)

lemma plain_not_break: "plain_char c \<Longrightarrow> c \<noteq> CHR 0x0A \<and> c \<noteq> CHR 0x0D"
  by (auto simp: plain_char_def py_isspace_def)

section \<open>Physical lines\<close>

text \<open>
  Iterating a text file opened with \<open>newline=""\<close>: lines end after a line feed, after a carriage return or
  after the two together, and keep their ending; \<open>cur\<close> is the line being read.
\<close>

fun lines_run :: "string \<Rightarrow> string \<Rightarrow> string list" where
  "lines_run cur [] = (if cur = [] then [] else [cur])"
| "lines_run cur (c # cs) =
     (if c = CHR 0x0A then (cur @ [c]) # lines_run [] cs
      else if c = CHR 0x0D
      then (case cs of
              [] \<Rightarrow> [cur @ [c]]
            | d # ds \<Rightarrow> if d = CHR 0x0A then (cur @ [c, d]) # lines_run [] ds
                       else (cur @ [c]) # lines_run [] cs)
      else lines_run (cur @ [c]) cs)"

definition py_lines :: "string \<Rightarrow> string list" where
  "py_lines content = lines_run [] content"

lemma lines_run_concat: "concat (lines_run cur cs) = cur @ cs"
  by (induction cur cs rule: lines_run.induct) (auto split: list.splits)

lemma lines_run_plain:
  "list_all (\<lambda>c. c \<noteq> CHR 0x0A \<and> c \<noteq> CHR 0x0D) l \<Longrightarrow> lines_run cur (l @ CHR 0x0A # cs) = (cur @ l @ [CHR 0x0A]) # lines_run [] cs"
  by (induction l arbitrary: cur) auto

lemma py_lines_concat: "concat (py_lines content) = content"
  by (simp add: py_lines_def lines_run_concat)

lemma py_lines_plain:
  assumes "\<forall>l \<in> set ls. list_all plain_char l"
  shows "py_lines (concat (map (\<lambda>l. l @ [CHR 0x0A]) ls)) = map (\<lambda>l. l @ [CHR 0x0A]) ls"
  using assms
proof (induction ls)
  case (Cons l ls)
  then have "list_all (\<lambda>c. c \<noteq> CHR 0x0A \<and> c \<noteq> CHR 0x0D) l"
    using plain_not_break by (auto simp: list_all_iff)
  with lines_run_plain [of l "[]"] Cons show ?case by (simp add: py_lines_def)
qed (simp add: py_lines_def)

end
