(* ===== verification/Native_Input.thy ===== *)
theory Native_Input
  imports Py_Text Reference_Engine
begin

text \<open>
  The line grammar of \<open>ATLAS_DIFF_V1\<close> input, from \<open>python/src/atlaslob/native.py\<close>: the header, the three
  command lines and their decoders.  Encoding and decoding are inverse to each other on representable
  commands, and a decoded line re-encodes to the canonical spelling of its fields.
\<close>

section \<open>Configuration\<close>

record native_input_config =
  ni_instrument_id :: int
  ni_engine :: matching_config
  ni_snapshot_interval :: int

definition NativeInputConfig :: "int \<Rightarrow> matching_config \<Rightarrow> int \<Rightarrow> native_input_config result" where
  "NativeInputConfig iid engine interval =
     (if \<not> (1 \<le> iid \<and> iid \<le> U32_MAX) then Inl ValueError
      else if \<not> (0 \<le> interval \<and> interval \<le> U64_MAX) then Inl ValueError
      else Inr \<lparr>ni_instrument_id = iid, ni_engine = engine, ni_snapshot_interval = interval\<rparr>)"

definition native_config_ok :: "native_input_config \<Rightarrow> bool" where
  "native_config_ok c \<longleftrightarrow> 1 \<le> ni_instrument_id c \<and> ni_instrument_id c \<le> U32_MAX \<and>
     0 \<le> ni_snapshot_interval c \<and> ni_snapshot_interval c \<le> U64_MAX \<and> matching_config_ok (ni_engine c)"

section \<open>Encoding\<close>

definition HEADER :: string where
  "HEADER = ''ATLAS_DIFF_V1''"

definition header_fields :: "native_input_config \<Rightarrow> string list" where
  "header_fields config =
     [HEADER, py_str (ni_instrument_id config), py_str (max_order_quantity (ni_engine config)),
      py_str (tick_increment (ni_engine config)), py_str (max_active_orders (ni_engine config)),
      py_str (ni_snapshot_interval config)]"

definition encode_header :: "native_input_config \<Rightarrow> string" where
  "encode_header config = join_fields (header_fields config)"

definition uint_field :: "int \<Rightarrow> int \<Rightarrow> unit result" where
  "uint_field v maximum = (if \<not> (0 \<le> v \<and> v \<le> maximum) then Inl ValueError else Inr ())"

definition i64_field :: "int \<Rightarrow> unit result" where
  "i64_field v = (if \<not> (I64_MIN \<le> v \<and> v \<le> I64_MAX) then Inl ValueError else Inr ())"

fun native_require_representable :: "command \<Rightarrow> unit result" where
  "native_require_representable (NewOrder c) =
     bindR (uint_field (new_client_id c) U32_MAX) (\<lambda>_.
     bindR (uint_field (new_order_id c) U64_MAX) (\<lambda>_.
     bindR (uint_field (new_instrument_id c) U32_MAX) (\<lambda>_.
     bindR (uint_field (new_side c) (2 ^ 8 - 1)) (\<lambda>_.
     bindR (uint_field (new_order_type c) (2 ^ 8 - 1)) (\<lambda>_.
     bindR (uint_field (new_time_in_force c) (2 ^ 8 - 1)) (\<lambda>_.
     bindR (case new_limit_price c of Some p \<Rightarrow> i64_field p | None \<Rightarrow> Inr ()) (\<lambda>_.
     uint_field (new_quantity c) U64_MAX)))))))"
| "native_require_representable (CancelOrder c) =
     bindR (uint_field (cancel_client_id c) U32_MAX) (\<lambda>_.
     bindR (uint_field (cancel_order_id c) U64_MAX) (\<lambda>_.
     uint_field (cancel_instrument_id c) U32_MAX))"
| "native_require_representable (ReplaceOrder c) =
     bindR (uint_field (rep_client_id c) U32_MAX) (\<lambda>_.
     bindR (uint_field (rep_old_order_id c) U64_MAX) (\<lambda>_.
     bindR (uint_field (rep_new_order_id c) U64_MAX) (\<lambda>_.
     bindR (uint_field (rep_instrument_id c) U32_MAX) (\<lambda>_.
     bindR (i64_field (rep_new_limit_price c)) (\<lambda>_.
     uint_field (rep_new_quantity c) U64_MAX)))))"

fun command_fields :: "command \<Rightarrow> string list" where
  "command_fields (NewOrder c) =
     [''N'', py_str (new_client_id c), py_str (new_order_id c), py_str (new_instrument_id c),
      py_str (new_side c), py_str (new_order_type c), py_str (new_time_in_force c),
      py_str (if new_limit_price c \<noteq> None then 1 else 0),
      py_str (case new_limit_price c of Some p \<Rightarrow> p | None \<Rightarrow> 0), py_str (new_quantity c)]"
| "command_fields (CancelOrder c) =
     [''C'', py_str (cancel_client_id c), py_str (cancel_order_id c), py_str (cancel_instrument_id c)]"
| "command_fields (ReplaceOrder c) =
     [''R'', py_str (rep_client_id c), py_str (rep_old_order_id c), py_str (rep_new_order_id c),
      py_str (rep_instrument_id c), py_str (rep_new_limit_price c), py_str (rep_new_quantity c)]"

definition encode_command :: "command \<Rightarrow> string result" where
  "encode_command cmd =
     bindR (native_require_representable cmd) (\<lambda>_. Inr (join_fields (command_fields cmd)))"

text \<open>\<open>"\n".join((header, *lines)) + "\n"\<close>: every line is followed by a line feed.\<close>

definition encode_stream :: "native_input_config \<Rightarrow> command list \<Rightarrow> string result" where
  "encode_stream config cmds =
     bindR (mapR encode_command cmds) (\<lambda>ls. Inr (concat (map (\<lambda>l. l @ [CHR 0x0A]) (encode_header config # ls))))"

section \<open>Decoding\<close>

definition strip_ending :: "string \<Rightarrow> string" where
  "strip_ending line =
     (if line \<noteq> [] \<and> last line = CHR 0x0A
      then let l = butlast line in if l \<noteq> [] \<and> last l = CHR 0x0D then butlast l else l
      else line)"

definition input_fields :: "string \<Rightarrow> string list result" where
  "input_fields line =
     (let line1 = strip_ending line in
      if CHR 0x0A \<in> set line1 \<or> CHR 0x0D \<in> set line1 then Inl ValueError
      else if list_ex (\<lambda>c. py_isspace c \<and> c \<notin> {CHR '' '', CHR 0x09, CHR 0x0C, CHR 0x0B}) line1 then Inl ValueError
      else Inr (py_split line1))"

definition input_uint :: "string \<Rightarrow> int \<Rightarrow> int result" where
  "input_uint tok maximum =
     (if \<not> unsigned_decimal tok then Inl ValueError
      else let v = py_int tok in if v > maximum then Inl ValueError else Inr v)"

definition input_int :: "string \<Rightarrow> int \<Rightarrow> int \<Rightarrow> int result" where
  "input_int tok minimum maximum =
     (if \<not> signed_decimal tok then Inl ValueError
      else let v = py_int tok in if \<not> (minimum \<le> v \<and> v \<le> maximum) then Inl ValueError else Inr v)"

definition decode_header :: "string \<Rightarrow> native_input_config result" where
  "decode_header line =
     bindR (input_fields line) (\<lambda>fs.
     if length fs \<noteq> 6 then Inl ValueError
     else if fs ! 0 \<noteq> HEADER then Inl ValueError
     else
       bindR (input_uint (fs ! 1) U32_MAX) (\<lambda>iid.
       bindR (input_uint (fs ! 2) U64_MAX) (\<lambda>mq.
       bindR (input_int (fs ! 3) I64_MIN I64_MAX) (\<lambda>tick.
       bindR (input_uint (fs ! 4) U64_MAX) (\<lambda>mao.
       bindR (MatchingConfig mq tick mao) (\<lambda>engine.
       bindR (input_uint (fs ! 5) U64_MAX) (\<lambda>interval.
       NativeInputConfig iid engine interval)))))))"

definition decode_new :: "string list \<Rightarrow> command result" where
  "decode_new fs =
     (if length fs \<noteq> 10 then Inl ValueError
      else
        bindR (input_uint (fs ! 7) 1) (\<lambda>present.
        bindR (input_int (fs ! 8) I64_MIN I64_MAX) (\<lambda>price.
        if present = 0 \<and> price \<noteq> 0 then Inl ValueError
        else
          bindR (input_uint (fs ! 1) U32_MAX) (\<lambda>client.
          bindR (input_uint (fs ! 2) U64_MAX) (\<lambda>oid.
          bindR (input_uint (fs ! 3) U32_MAX) (\<lambda>iid.
          bindR (input_uint (fs ! 4) U8_MAX) (\<lambda>sd.
          bindR (input_uint (fs ! 5) U8_MAX) (\<lambda>otype.
          bindR (input_uint (fs ! 6) U8_MAX) (\<lambda>tif.
          bindR (input_uint (fs ! 9) U64_MAX) (\<lambda>quantity.
          Inr (NewOrder \<lparr>new_client_id = client, new_order_id = oid, new_instrument_id = iid, new_side = sd,
            new_order_type = otype, new_time_in_force = tif,
            new_limit_price = (if present = 1 then Some price else None), new_quantity = quantity\<rparr>)))))))))))"

definition decode_cancel :: "string list \<Rightarrow> command result" where
  "decode_cancel fs =
     (if length fs \<noteq> 4 then Inl ValueError
      else
        bindR (input_uint (fs ! 1) U32_MAX) (\<lambda>client.
        bindR (input_uint (fs ! 2) U64_MAX) (\<lambda>oid.
        bindR (input_uint (fs ! 3) U32_MAX) (\<lambda>iid.
        Inr (CancelOrder \<lparr>cancel_client_id = client, cancel_order_id = oid, cancel_instrument_id = iid\<rparr>)))))"

definition decode_replace :: "string list \<Rightarrow> command result" where
  "decode_replace fs =
     (if length fs \<noteq> 7 then Inl ValueError
      else
        bindR (input_uint (fs ! 1) U32_MAX) (\<lambda>client.
        bindR (input_uint (fs ! 2) U64_MAX) (\<lambda>old_id.
        bindR (input_uint (fs ! 3) U64_MAX) (\<lambda>new_id.
        bindR (input_uint (fs ! 4) U32_MAX) (\<lambda>iid.
        bindR (input_int (fs ! 5) I64_MIN I64_MAX) (\<lambda>price.
        bindR (input_uint (fs ! 6) U64_MAX) (\<lambda>quantity.
        Inr (ReplaceOrder \<lparr>rep_client_id = client, rep_old_order_id = old_id, rep_new_order_id = new_id,
          rep_instrument_id = iid, rep_new_limit_price = price, rep_new_quantity = quantity\<rparr>))))))))"

definition decode_command :: "string \<Rightarrow> command result" where
  "decode_command line =
     bindR (input_fields line) (\<lambda>fs.
     if fs = [] then Inl ValueError
     else if hd fs = ''N'' then decode_new fs
     else if hd fs = ''C'' then decode_cancel fs
     else if hd fs = ''R'' then decode_replace fs
     else Inl ValueError)"

section \<open>Encoding then decoding\<close>

lemma native_require_representable_eq: "native_require_representable cmd = require_representable cmd"
  by (cases cmd) (simp_all add: uint_field_def i64_field_def require_uint_def require_i64_def U8_MAX_def split: option.splits)

lemma uint_field_iff [simp]: "uint_field v m = Inr () \<longleftrightarrow> 0 \<le> v \<and> v \<le> m"
  by (simp add: uint_field_def)

lemma i64_field_iff [simp]: "i64_field v = Inr () \<longleftrightarrow> I64_MIN \<le> v \<and> v \<le> I64_MAX"
  by (simp add: i64_field_def)

lemma input_uint_str [simp]: "0 \<le> v \<Longrightarrow> v \<le> m \<Longrightarrow> input_uint (py_str v) m = Inr v"
  by (simp add: input_uint_def py_str_unsigned)

lemma input_int_str [simp]: "lo \<le> v \<Longrightarrow> v \<le> hi \<Longrightarrow> input_int (py_str v) lo hi = Inr v"
  by (simp add: input_int_def py_str_signed)

lemma input_uint_Inr: "input_uint tok m = Inr v \<longleftrightarrow> tok = py_str v \<and> 0 \<le> v \<and> v \<le> m"
  using py_str_int_unsigned [of tok] py_str_unsigned [of v] by (auto simp: input_uint_def Let_def split: if_splits)

lemma input_int_Inr: "input_int tok lo hi = Inr v \<longleftrightarrow> tok = py_str v \<and> lo \<le> v \<and> v \<le> hi"
  using py_str_int_signed [of tok] py_str_signed [of v] by (auto simp: input_int_def Let_def split: if_splits)

lemma token_literals [simp]: "token ''N''" "token ''C''" "token ''R''" "token HEADER"
  by (simp_all add: token_def py_isspace_def HEADER_def)

lemma command_fields_tokens: "list_all token (command_fields cmd)"
  by (cases cmd) simp_all

lemma header_fields_tokens: "list_all token (header_fields config)"
  by (simp add: header_fields_def)

lemma input_fields_plain:
  assumes "list_all plain_char line"
  shows "input_fields line = Inr (py_split line)"
proof -
  have "CHR 0x0A \<notin> set line" "CHR 0x0D \<notin> set line"
    using assms plain_not_break by (auto simp: list_all_iff)
  moreover from this have "strip_ending line = line" unfolding strip_ending_def by (metis last_in_set)
  moreover have "\<not> list_ex (\<lambda>c. py_isspace c \<and> c \<notin> {CHR '' '', CHR 0x09, CHR 0x0C, CHR 0x0B}) line"
    using assms by (auto simp: list_all_iff list_ex_iff plain_char_def)
  ultimately show ?thesis by (simp add: input_fields_def)
qed

lemma input_fields_join: "list_all token fs \<Longrightarrow> input_fields (join_fields fs) = Inr fs"
  by (simp add: input_fields_plain join_fields_plain py_split_join)

lemma representable_cases: "native_require_representable cmd = Inr () \<Longrightarrow> decode_command (join_fields (command_fields cmd)) = Inr cmd"
  unfolding decode_command_def input_fields_join [OF command_fields_tokens]
  by (cases cmd) (auto simp: decode_new_def decode_cancel_def decode_replace_def bindR_Inr_iff width_defs
      split: option.splits)

lemma encode_command_Inr:
  "encode_command cmd = Inr l \<longleftrightarrow> native_require_representable cmd = Inr () \<and> l = join_fields (command_fields cmd)"
  by (auto simp: encode_command_def bindR_Inr_iff)

lemma decode_encode_command: "encode_command cmd = Inr l \<Longrightarrow> decode_command l = Inr cmd"
  using representable_cases by (auto simp: encode_command_Inr)

text \<open>A decoded command is representable and its fields are the fields of the line.\<close>

lemma decode_command_fields:
  assumes "decode_command line = Inr cmd"
  shows "input_fields line = Inr (command_fields cmd) \<and> native_require_representable cmd = Inr ()"
proof -
  from assms obtain fs where fs: "input_fields line = Inr fs" "fs \<noteq> []" by (auto simp: decode_command_def bindR_Inr_iff split: if_splits)
  have nth: "fs = map ((!) fs) [0..<length fs]" by (simp add: map_nth)
  from assms fs consider "hd fs = ''N''" "decode_new fs = Inr cmd" | "hd fs = ''C''" "decode_cancel fs = Inr cmd"
    | "hd fs = ''R''" "decode_replace fs = Inr cmd" by (auto simp: decode_command_def split: if_splits)
  then have "fs = command_fields cmd \<and> native_require_representable cmd = Inr ()"
  proof cases
    case 1
    then have len: "length fs = 10" by (auto simp: decode_new_def split: if_splits)
    have "[0..<10] = [0, 1, 2, 3, 4, 5, 6, 7, 8, 9::nat]" by code_simp
    with nth len have "fs = map ((!) fs) [0, 1, 2, 3, 4, 5, 6, 7, 8, 9]" by metis
    with 1 len fs(2) show ?thesis
      by (auto simp: decode_new_def bindR_Inr_iff input_uint_Inr input_int_Inr width_defs hd_conv_nth intro!: arg_cong [of _ _ py_str]
        split: if_splits)
  next
    case 2
    then have len: "length fs = 4" by (auto simp: decode_cancel_def split: if_splits)
    have "[0..<4] = [0, 1, 2, 3::nat]" by code_simp
    with nth len have "fs = map ((!) fs) [0, 1, 2, 3]" by metis
    with 2 len fs(2) show ?thesis
      by (auto simp: decode_cancel_def bindR_Inr_iff input_uint_Inr hd_conv_nth split: if_splits)
  next
    case 3
    then have len: "length fs = 7" by (auto simp: decode_replace_def split: if_splits)
    have "[0..<7] = [0, 1, 2, 3, 4, 5, 6::nat]" by code_simp
    with nth len have "fs = map ((!) fs) [0, 1, 2, 3, 4, 5, 6]" by metis
    with 3 len fs(2) show ?thesis
      by (auto simp: decode_replace_def bindR_Inr_iff input_uint_Inr input_int_Inr hd_conv_nth split: if_splits)
  qed
  with fs show ?thesis by simp
qed

section \<open>Headers\<close>

lemma NativeInputConfig_Inr:
  "NativeInputConfig iid engine interval = Inr c \<longleftrightarrow>
     c = \<lparr>ni_instrument_id = iid, ni_engine = engine, ni_snapshot_interval = interval\<rparr> \<and>
     1 \<le> iid \<and> iid \<le> U32_MAX \<and> 0 \<le> interval \<and> interval \<le> U64_MAX"
  by (auto simp: NativeInputConfig_def)

lemma decode_encode_header:
  assumes "native_config_ok config"
  shows "decode_header (encode_header config) = Inr config"
proof -
  have "MatchingConfig (max_order_quantity (ni_engine config)) (tick_increment (ni_engine config))
      (max_active_orders (ni_engine config)) = Inr (ni_engine config)"
    using assms by (simp add: MatchingConfig_iff native_config_ok_def)
  with assms show ?thesis
    unfolding decode_header_def encode_header_def input_fields_join [OF header_fields_tokens]
    by (simp add: header_fields_def native_config_ok_def matching_config_ok_def NativeInputConfig_Inr I64_MIN_def)
qed

lemma encode_header_plain: "list_all plain_char (encode_header config)"
  unfolding encode_header_def by (rule join_fields_plain [OF header_fields_tokens])

lemma encode_command_plain: "encode_command cmd = Inr l \<Longrightarrow> list_all plain_char l"
  using join_fields_plain [OF command_fields_tokens] by (auto simp: encode_command_Inr)

lemma decode_header_ok: "decode_header line = Inr config \<Longrightarrow> native_config_ok config"
  by (auto simp: decode_header_def bindR_Inr_iff NativeInputConfig_Inr MatchingConfig_iff native_config_ok_def split: if_splits)

end
