(* ===== verification/Shrinking.thy ===== *)
theory Shrinking
  imports Native_Input Complex_Main "HOL-Library.List_Lexorder" "HOL-Library.Sublist"
begin

text \<open>
  The reducer of divergent command sequences, \<open>python/src/atlaslob/shrinking.py\<close>.  The candidate
  evaluator is an object with counters, a cache keyed by digests and an optional deadline; the reduction
  passes are programs over it.  The caller's evaluator, SHA-256 and the readings of the monotonic clock
  are fields of that object.  Times are rational numbers: the code only adds, subtracts and compares them.
\<close>

section \<open>Budgets and contexts\<close>

record shrink_budget =
  max_evaluations :: int
  timeout_seconds :: "rat option"

definition ShrinkBudget :: "int \<Rightarrow> rat option \<Rightarrow> shrink_budget result" where
  "ShrinkBudget evaluations timeout =
     (if evaluations < 1 then Inl ValueError
      else if (case timeout of None \<Rightarrow> False | Some t \<Rightarrow> t \<le> 0) then Inl ValueError
      else Inr \<lparr>max_evaluations = evaluations, timeout_seconds = timeout\<rparr>)"

definition DEFAULT_BUDGET :: shrink_budget where
  "DEFAULT_BUDGET = \<lparr>max_evaluations = 10000, timeout_seconds = None\<rparr>"

record shrink_context =
  routed_instrument :: int
  ctx_tick_increment :: int
  ctx_max_quantity :: int

definition ShrinkContext :: "int \<Rightarrow> int \<Rightarrow> int \<Rightarrow> shrink_context result" where
  "ShrinkContext routed tick quantity =
     (if \<not> (1 \<le> routed \<and> routed \<le> U32_MAX) then Inl ValueError
      else if \<not> (1 \<le> tick \<and> tick \<le> I64_MAX) then Inl ValueError
      else if \<not> (1 \<le> quantity \<and> quantity \<le> U64_MAX) then Inl ValueError
      else Inr \<lparr>routed_instrument = routed, ctx_tick_increment = tick, ctx_max_quantity = quantity\<rparr>)"

record 'sig shrink_result =
  sr_original_count :: int
  sr_commands :: "command list"
  sr_signature :: 'sig
  sr_evaluations :: int
  sr_cache_hits :: int
  sr_max_evaluations :: int
  sr_timeout_seconds :: "rat option"
  sr_elapsed_seconds :: rat
  sr_budget_exhausted :: bool
  sr_completed_stages :: "string list"

section \<open>The candidate evaluator\<close>

record 'sig candidate_evaluator =
  ce_evaluator :: "command list \<Rightarrow> rat option \<Rightarrow> 'sig option result"
  ce_signature :: 'sig
  ce_budget :: shrink_budget
  ce_deadline :: "rat option"
  ce_sha256 :: "string \<Rightarrow> string"
  ce_clock :: "nat \<Rightarrow> rat"
  ce_readings :: nat
  ce_evaluations :: int
  ce_cache_hits :: int
  ce_cache :: "(string, 'sig option) dict"

text \<open>\<open>time.monotonic()\<close>: the next reading of the clock.\<close>

definition monotonic :: "('sig candidate_evaluator, rat) prog" where
  "monotonic = (\<lambda>s. (Inr (ce_clock s (ce_readings s)), s\<lparr>ce_readings := Suc (ce_readings s)\<rparr>))"

definition CandidateEvaluator ::
  "(command list \<Rightarrow> rat option \<Rightarrow> 'sig option result) \<Rightarrow> 'sig \<Rightarrow> shrink_budget \<Rightarrow> (string \<Rightarrow> string) \<Rightarrow>
   (nat \<Rightarrow> rat) \<Rightarrow> nat \<Rightarrow> 'sig candidate_evaluator" where
  "CandidateEvaluator evaluator signature budget sha256 clock readings =
     (let s = \<lparr>ce_evaluator = evaluator, ce_signature = signature, ce_budget = budget, ce_deadline = None,
               ce_sha256 = sha256, ce_clock = clock, ce_readings = readings, ce_evaluations = 0,
               ce_cache_hits = 0, ce_cache = []\<rparr> in
      case timeout_seconds budget of
        None \<Rightarrow> s
      | Some t \<Rightarrow> s\<lparr>ce_deadline := Some (clock readings + t), ce_readings := Suc readings\<rparr>)"

definition remaining_time :: "('sig candidate_evaluator, rat option) prog" where
  "remaining_time = bindP (getsP ce_deadline) (\<lambda>deadline.
     case deadline of
       None \<Rightarrow> ret None
     | Some d \<Rightarrow> bindP monotonic (\<lambda>now. if d - now \<le> 0 then raise BudgetExhausted else ret (Some (d - now))))"

fun hash_commands :: "command list \<Rightarrow> string \<Rightarrow> ('sig candidate_evaluator, string) prog" where
  "hash_commands [] text = ret text"
| "hash_commands (cmd # cmds) text =
     seqP remaining_time (bindP (liftP (encode_command cmd)) (\<lambda>l. hash_commands cmds (text @ l @ [CHR 0x0A])))"

definition candidate_key :: "command list \<Rightarrow> ('sig candidate_evaluator, string) prog" where
  "candidate_key cmds = bindP (hash_commands cmds []) (\<lambda>text. getsP (\<lambda>s. ce_sha256 s text))"

definition deadline_passed :: "('sig candidate_evaluator, bool) prog" where
  "deadline_passed = bindP (getsP ce_deadline) (\<lambda>deadline.
     case deadline of None \<Rightarrow> ret False | Some d \<Rightarrow> bindP monotonic (\<lambda>now. ret (now \<ge> d)))"

text \<open>A candidate that is not in the cache is evaluated within the budget, and its result is kept.\<close>

definition evaluate_uncached :: "string \<Rightarrow> command list \<Rightarrow> ('sig candidate_evaluator, bool) prog" where
  "evaluate_uncached key cmds =
     bindP (getsP (\<lambda>s. ce_evaluations s \<ge> max_evaluations (ce_budget s))) (\<lambda>spent.
     if spent then raise BudgetExhausted
     else bindP remaining_time (\<lambda>remaining.
       bindP (\<lambda>s. (ce_evaluator s cmds remaining, s)) (\<lambda>result.
       seqP (modifyP (\<lambda>s. s\<lparr>ce_evaluations := ce_evaluations s + 1\<rparr>))
      (bindP deadline_passed (\<lambda>passed.
       if passed then raise BudgetExhausted
       else seqP (modifyP (\<lambda>s. s\<lparr>ce_cache := dict_setitem key result (ce_cache s)\<rparr>))
         (getsP (\<lambda>s. result = Some (ce_signature s))))))))"

definition preserves :: "command list \<Rightarrow> ('sig candidate_evaluator, bool) prog" where
  "preserves cmds = bindP (candidate_key cmds) (\<lambda>key.
     bindP (getsP (\<lambda>s. map_of (ce_cache s) key)) (\<lambda>cached.
     case cached of
       Some result \<Rightarrow> seqP (modifyP (\<lambda>s. s\<lparr>ce_cache_hits := ce_cache_hits s + 1\<rparr>))
         (getsP (\<lambda>s. result = Some (ce_signature s)))
     | None \<Rightarrow> evaluate_uncached key cmds))"

section \<open>Fields of commands\<close>

fun command_prices :: "command \<Rightarrow> int list" where
  "command_prices (NewOrder c) = (case new_limit_price c of None \<Rightarrow> [] | Some p \<Rightarrow> [p])"
| "command_prices (ReplaceOrder c) = [rep_new_limit_price c]"
| "command_prices (CancelOrder c) = []"

fun command_quantities :: "command \<Rightarrow> int list" where
  "command_quantities (NewOrder c) = [new_quantity c]"
| "command_quantities (ReplaceOrder c) = [rep_new_quantity c]"
| "command_quantities (CancelOrder c) = []"

fun with_price :: "command \<Rightarrow> int \<Rightarrow> command" where
  "with_price (NewOrder c) price =
     (if new_limit_price c \<noteq> None then NewOrder (c\<lparr>new_limit_price := Some price\<rparr>) else NewOrder c)"
| "with_price (ReplaceOrder c) price = ReplaceOrder (c\<lparr>rep_new_limit_price := price\<rparr>)"
| "with_price (CancelOrder c) price = CancelOrder c"

fun with_quantity :: "command \<Rightarrow> int \<Rightarrow> command" where
  "with_quantity (NewOrder c) quantity = NewOrder (c\<lparr>new_quantity := quantity\<rparr>)"
| "with_quantity (ReplaceOrder c) quantity = ReplaceOrder (c\<lparr>rep_new_quantity := quantity\<rparr>)"
| "with_quantity (CancelOrder c) quantity = CancelOrder c"

definition replace_at :: "command list \<Rightarrow> nat \<Rightarrow> command \<Rightarrow> command list" where
  "replace_at cmds i cmd = take i cmds @ [cmd] @ drop (i + 1) cmds"

text \<open>\<open>tuple(dict.fromkeys(values))\<close>: the first occurrence of each value.\<close>

fun unique_from :: "int list \<Rightarrow> int list \<Rightarrow> int list" where
  "unique_from seen [] = []"
| "unique_from seen (v # vs) = (if v \<in> set seen then unique_from seen vs else v # unique_from (v # seen) vs)"

definition unique_values :: "int list \<Rightarrow> int list" where
  "unique_values vs = unique_from [] vs"

definition price_complexity :: "command list \<Rightarrow> int \<times> int list" where
  "price_complexity cmds =
     (let prices = concat (map command_prices cmds) in (sum_list (map abs prices), map abs prices))"

definition quantity_complexity :: "command list \<Rightarrow> int \<times> int list" where
  "quantity_complexity cmds =
     (let quantities = concat (map command_quantities cmds) in (sum_list quantities, quantities))"

section \<open>Deletion\<close>

text \<open>
  The inner loop of \<open>_delete_chunks\<close>: the chunk starts still to try; the first preserved candidate is
  returned.
\<close>

fun try_chunks :: "command list \<Rightarrow> nat \<Rightarrow> nat list \<Rightarrow> ('sig candidate_evaluator, command list option) prog" where
  "try_chunks current chunk [] = ret None"
| "try_chunks current chunk (start # starts) =
     (let candidate = take start current @ drop (start + chunk) current in
      if candidate \<noteq> []
      then bindP (preserves candidate) (\<lambda>ok. if ok then ret (Some candidate) else try_chunks current chunk starts)
      else try_chunks current chunk starts)"

text \<open>\<open>range(0, stop, step)\<close> of a positive step.\<close>

definition range_by :: "nat \<Rightarrow> nat \<Rightarrow> nat list" where
  "range_by stop step = map (\<lambda>i. i * step) [0..<(stop + step - 1) div step]"

lemma bindP_cases: "bindP m f s = (case m s of (Inl e, s') \<Rightarrow> (Inl e, s') | (Inr a, s') \<Rightarrow> f a s')"
  by (simp add: bindP_def)

lemma try_chunks_shorter:
  assumes "try_chunks current chunk starts s = (Inr (Some c), s')" and "1 \<le> chunk"
    and "\<forall>i \<in> set starts. i < length current"
  shows "length c < length current"
  using assms
  by (induction starts arbitrary: s) (auto simp: bindP_cases Let_def split: prod.splits sum.splits if_splits)

lemma range_by_less: "1 \<le> step \<Longrightarrow> i \<in> set (range_by stop step) \<Longrightarrow> i < stop"
proof -
  assume step: "1 \<le> step" and "i \<in> set (range_by stop step)"
  then obtain k where k: "i = k * step" "k < (stop + step - 1) div step" by (auto simp: range_by_def)
  then have "Suc k * step \<le> stop + step - 1" using step by (simp add: less_eq_div_iff_mult_less_eq [symmetric] Suc_le_eq del: mult_Suc)
  with k step show ?thesis by simp
qed

lemma chunk_pos: "2 \<le> (n :: nat) \<Longrightarrow> g \<noteq> 0 \<Longrightarrow> 1 \<le> (n + g - 1) div g"
  by (simp add: Suc_leI div_greater_zero_iff)

lemma try_all_chunks_shorter:
  assumes "try_chunks current chunk (range_by (length current) chunk) s = (Inr (Some c), s')"
    and "chunk = (length current + g - 1) div g" and "\<not> length current < 2" and "g \<noteq> 0"
  shows "length c < length current"
proof -
  have "1 \<le> chunk" using chunk_pos assms(2-4) by simp
  with try_chunks_shorter [OF assms(1)] range_by_less [of chunk _ "length current"] show ?thesis by blast
qed

text \<open>
  \<open>_delete_chunks\<close>: a granularity of zero makes the chunk size a division by zero.
\<close>

function delete_chunks_loop ::
  "command list \<Rightarrow> nat \<Rightarrow> 'sig candidate_evaluator \<Rightarrow> command list result \<times> 'sig candidate_evaluator" where
  "delete_chunks_loop current granularity s =
     (if length current < 2 then (Inr current, s)
      else if granularity = 0 then (Inl ZeroDivisionError, s)
      else
        let chunk = (length current + granularity - 1) div granularity in
        case try_chunks current chunk (range_by (length current) chunk) s of
          (Inl e, s1) \<Rightarrow> (Inl e, s1)
        | (Inr (Some candidate), s1) \<Rightarrow> delete_chunks_loop candidate (max 2 (granularity - 1)) s1
        | (Inr None, s1) \<Rightarrow>
            if granularity \<ge> length current then (Inr current, s1)
            else delete_chunks_loop current (min (length current) (granularity * 2)) s1)"
  by pat_completeness auto

termination
  by (relation "measures [\<lambda>(cs, g, s). length cs, \<lambda>(cs, g, s). length cs - g]")
    (auto dest: sym intro: try_all_chunks_shorter)

declare delete_chunks_loop.simps [simp del]

definition delete_chunks :: "command list \<Rightarrow> ('sig candidate_evaluator, command list) prog" where
  "delete_chunks cmds = delete_chunks_loop cmds 2"

function delete_individual_loop ::
  "command list \<Rightarrow> nat \<Rightarrow> 'sig candidate_evaluator \<Rightarrow> command list result \<times> 'sig candidate_evaluator" where
  "delete_individual_loop current index s =
     (if index \<ge> length current then (Inr current, s)
      else
        let candidate = take index current @ drop (index + 1) current in
        if candidate = [] then delete_individual_loop current (index + 1) s
        else case preserves candidate s of
            (Inl e, s1) \<Rightarrow> (Inl e, s1)
          | (Inr True, s1) \<Rightarrow> delete_individual_loop candidate index s1
          | (Inr False, s1) \<Rightarrow> delete_individual_loop current (index + 1) s1)"
  by pat_completeness auto

termination
  by (relation "measure (\<lambda>(cs, i, s). length cs - i)") auto

declare delete_individual_loop.simps [simp del]

definition delete_individual :: "command list \<Rightarrow> ('sig candidate_evaluator, command list) prog" where
  "delete_individual cmds = delete_individual_loop cmds 0"

section \<open>Identifier remapping\<close>

text \<open>The nested functions \<open>order_id\<close> and \<open>client_id\<close>: the dictionary they extend is passed along.\<close>

definition assign_id :: "(int, int) dict \<Rightarrow> int \<Rightarrow> int \<times> (int, int) dict" where
  "assign_id ids v =
     (if v = 0 then (0, ids)
      else case map_of ids v of
          Some k \<Rightarrow> (k, ids)
        | None \<Rightarrow> (int (length ids) + 1, dict_setitem v (int (length ids) + 1) ids))"

definition remap_instrument :: "int \<Rightarrow> int \<Rightarrow> int" where
  "remap_instrument routed v = (if v \<noteq> 0 then routed else 0)"

fun remap_command ::
  "int \<Rightarrow> (int, int) dict \<times> (int, int) dict \<Rightarrow> command \<Rightarrow> command \<times> (int, int) dict \<times> (int, int) dict" where
  "remap_command routed (orders, clients) (NewOrder c) =
     (let (client, clients') = assign_id clients (new_client_id c);
          (oid, orders') = assign_id orders (new_order_id c) in
      (NewOrder (c\<lparr>new_client_id := client, new_order_id := oid,
         new_instrument_id := remap_instrument routed (new_instrument_id c)\<rparr>), orders', clients'))"
| "remap_command routed (orders, clients) (CancelOrder c) =
     (let (client, clients') = assign_id clients (cancel_client_id c);
          (oid, orders') = assign_id orders (cancel_order_id c) in
      (CancelOrder (c\<lparr>cancel_client_id := client, cancel_order_id := oid,
         cancel_instrument_id := remap_instrument routed (cancel_instrument_id c)\<rparr>), orders', clients'))"
| "remap_command routed (orders, clients) (ReplaceOrder c) =
     (let (client, clients') = assign_id clients (rep_client_id c);
          (old_id, orders1) = assign_id orders (rep_old_order_id c);
          (new_id, orders2) = assign_id orders1 (rep_new_order_id c) in
      (ReplaceOrder (c\<lparr>rep_client_id := client, rep_old_order_id := old_id, rep_new_order_id := new_id,
         rep_instrument_id := remap_instrument routed (rep_instrument_id c)\<rparr>), orders2, clients'))"

fun remap_commands :: "int \<Rightarrow> (int, int) dict \<times> (int, int) dict \<Rightarrow> command list \<Rightarrow> command list" where
  "remap_commands routed ids [] = []"
| "remap_commands routed ids (cmd # cmds) =
     (let (cmd', ids') = remap_command routed ids cmd in cmd' # remap_commands routed ids' cmds)"

definition remap_identifiers :: "command list \<Rightarrow> int \<Rightarrow> command list" where
  "remap_identifiers cmds routed = remap_commands routed ([], []) cmds"

definition remap_stage :: "shrink_context \<Rightarrow> command list \<Rightarrow> ('sig candidate_evaluator, command list) prog" where
  "remap_stage ctx current =
     (let remapped = remap_identifiers current (routed_instrument ctx) in
      if remapped \<noteq> current then bindP (preserves remapped) (\<lambda>ok. ret (if ok then remapped else current))
      else ret current)"

section \<open>Field simplification\<close>

text \<open>\<open>for index in indexes: current = body(current, index)\<close>.\<close>

fun each_index ::
  "('i \<Rightarrow> command list \<Rightarrow> ('s, command list) prog) \<Rightarrow> 'i list \<Rightarrow> command list \<Rightarrow> ('s, command list) prog" where
  "each_index body [] current = ret current"
| "each_index body (i # is) current = bindP (body i current) (each_index body is)"

definition price_candidates :: "command list \<Rightarrow> int \<Rightarrow> int list" where
  "price_candidates cmds tick =
     (let observed = sorted_list_of_set (set (filter (\<lambda>p. p > 0 \<and> p mod tick = 0) (concat (map command_prices cmds))));
          central = (if observed \<noteq> [] then observed ! (length observed div 2) else 100 * tick);
          highest = I64_MAX - I64_MAX mod tick in
      unique_values [tick, min highest (2 * tick), min highest (100 * tick), central])"

fun global_price :: "int list \<Rightarrow> command list \<Rightarrow> ('sig candidate_evaluator, command list) prog" where
  "global_price [] current = ret current"
| "global_price (p # ps) current =
     (let candidate = map (\<lambda>cmd. with_price cmd p) current in
      if candidate \<noteq> current \<and> price_complexity candidate < price_complexity current
      then bindP (preserves candidate) (\<lambda>ok. if ok then ret candidate else global_price ps current)
      else global_price ps current)"

fun price_at :: "int list \<Rightarrow> nat \<Rightarrow> command list \<Rightarrow> ('sig candidate_evaluator, command list) prog" where
  "price_at [] i current = ret current"
| "price_at (p # ps) i current =
     (let cmd = with_price (current ! i) p; candidate = replace_at current i cmd in
      if cmd = current ! i then price_at ps i current
      else if price_complexity candidate < price_complexity current
      then bindP (preserves candidate) (\<lambda>ok. if ok then ret candidate else price_at ps i current)
      else price_at ps i current)"

definition simplify_prices :: "shrink_context \<Rightarrow> command list \<Rightarrow> ('sig candidate_evaluator, command list) prog" where
  "simplify_prices ctx cmds =
     (let candidates = price_candidates cmds (ctx_tick_increment ctx) in
      bindP (global_price candidates cmds) (\<lambda>current.
      each_index (price_at candidates) [0..<length current] current))"

definition quantity_candidates :: "command list \<Rightarrow> int \<Rightarrow> int list" where
  "quantity_candidates cmds maximum =
     (let observed = sorted_list_of_set (set (filter (\<lambda>q. 1 \<le> q \<and> q \<le> maximum) (concat (map command_quantities cmds)))) in
      unique_values ([1] @ (if maximum \<ge> 2 then [2] else []) @ observed @
        map (\<lambda>q. q - 1) (filter (\<lambda>q. 1 < q \<and> q \<le> maximum) observed)))"

fun quantity_at :: "int list \<Rightarrow> nat \<Rightarrow> command list \<Rightarrow> ('sig candidate_evaluator, command list) prog" where
  "quantity_at [] i current = ret current"
| "quantity_at (q # qs) i current =
     (let cmd = with_quantity (current ! i) q; candidate = replace_at current i cmd in
      if cmd = current ! i then quantity_at qs i current
      else if quantity_complexity candidate < quantity_complexity current
      then bindP (preserves candidate) (\<lambda>ok. if ok then ret candidate else quantity_at qs i current)
      else quantity_at qs i current)"

definition simplify_quantities :: "shrink_context \<Rightarrow> command list \<Rightarrow> ('sig candidate_evaluator, command list) prog" where
  "simplify_quantities ctx cmds =
     each_index (quantity_at (quantity_candidates cmds (ctx_max_quantity ctx))) [0..<length cmds] cmds"

text \<open>At most one alternative: a cancellation for a replacement, a market order for a limit order.\<close>

fun simpler_commands :: "command \<Rightarrow> command list" where
  "simpler_commands (ReplaceOrder c) =
     [CancelOrder \<lparr>cancel_client_id = rep_client_id c, cancel_order_id = rep_old_order_id c,
                   cancel_instrument_id = rep_instrument_id c\<rparr>]"
| "simpler_commands (NewOrder c) =
     (if new_order_type c = order_type_value LIMIT
      then [NewOrder (c\<lparr>new_order_type := order_type_value MARKET, new_time_in_force := time_in_force_value IOC,
              new_limit_price := None\<rparr>)]
      else [])"
| "simpler_commands (CancelOrder c) = []"

text \<open>Trying alternatives at an index: the first preserved one is taken (\<open>break\<close>).\<close>

fun first_alternative :: "command list \<Rightarrow> nat \<Rightarrow> command list \<Rightarrow> ('sig candidate_evaluator, command list) prog" where
  "first_alternative [] i current = ret current"
| "first_alternative (alt # alts) i current =
     (let candidate = replace_at current i alt in
      bindP (preserves candidate) (\<lambda>ok. if ok then ret candidate else first_alternative alts i current))"

definition simplify_commands :: "command list \<Rightarrow> ('sig candidate_evaluator, command list) prog" where
  "simplify_commands cmds =
     each_index (\<lambda>(i, cmd) current. first_alternative (simpler_commands cmd) i current)
       (zip [0..<length cmds] cmds) cmds"

fun normal_alternatives :: "command \<Rightarrow> command list" where
  "normal_alternatives (NewOrder c) =
     (if new_side c \<noteq> side_value BUY then [NewOrder (c\<lparr>new_side := side_value BUY\<rparr>)] else []) @
     (if new_order_type c = order_type_value LIMIT \<and> new_time_in_force c \<noteq> time_in_force_value GTC
      then [NewOrder (c\<lparr>new_time_in_force := time_in_force_value GTC\<rparr>)] else [])"
| "normal_alternatives (CancelOrder c) = []"
| "normal_alternatives (ReplaceOrder c) = []"

text \<open>Trying every alternative at an index: each preserved one replaces the one before.\<close>

fun every_alternative :: "command list \<Rightarrow> nat \<Rightarrow> command list \<Rightarrow> ('sig candidate_evaluator, command list) prog" where
  "every_alternative [] i current = ret current"
| "every_alternative (alt # alts) i current =
     (let candidate = replace_at current i alt in
      bindP (preserves candidate) (\<lambda>ok. every_alternative alts i (if ok then candidate else current)))"

definition normalize_side_and_tif :: "command list \<Rightarrow> ('sig candidate_evaluator, command list) prog" where
  "normalize_side_and_tif cmds =
     each_index (\<lambda>i current. every_alternative (normal_alternatives (current ! i)) i current) [0..<length cmds] cmds"

section \<open>The reducer\<close>

text \<open>
  The body of the \<open>try\<close> block of \<open>shrink_failure\<close>: a sequence of assignments to \<open>current\<close>, some followed by
  \<open>completed.append(name)\<close>.
\<close>

definition shrink_steps ::
  "shrink_context \<Rightarrow> ((command list \<Rightarrow> ('sig candidate_evaluator, command list) prog) \<times> string list) list" where
  "shrink_steps ctx =
     [(delete_chunks, [''chunk_deletion'']), (delete_individual, [''individual_deletion'']),
      (remap_stage ctx, [''identifier_remap'']), (simplify_prices ctx, [''price_reduction'']),
      (simplify_quantities ctx, [''quantity_reduction'']), (simplify_commands, [''command_simplification'']),
      (normalize_side_and_tif, [''side_tif_normalization'']), (simplify_prices ctx, []),
      (simplify_quantities ctx, [''final_field_reduction'']), (delete_individual, [''final_deletion''])]"

text \<open>
  Running them: \<open>_BudgetExhausted\<close> ends the sequence with the last assignment made, any other exception is
  passed on.
\<close>

fun run_steps ::
  "((command list \<Rightarrow> ('sig candidate_evaluator, command list) prog) \<times> string list) list \<Rightarrow> command list \<Rightarrow> string list \<Rightarrow>
   ('sig candidate_evaluator, command list \<times> string list \<times> bool) prog" where
  "run_steps [] current completed s = (Inr (current, completed, False), s)"
| "run_steps ((stage, name) # steps) current completed s =
     (case stage current s of
        (Inr current', s1) \<Rightarrow> run_steps steps current' (completed @ name) s1
      | (Inl e, s1) \<Rightarrow> if e = BudgetExhausted then (Inr (current, completed, True), s1) else (Inl e, s1))"

definition shrink_report ::
  "command list \<Rightarrow> 'sig \<Rightarrow> shrink_budget \<Rightarrow> rat \<Rightarrow> command list \<times> string list \<times> bool \<Rightarrow>
   ('sig candidate_evaluator, 'sig shrink_result) prog" where
  "shrink_report original signature budget started out =
     (case out of (current, completed, exhausted) \<Rightarrow>
      bindP (getsP (\<lambda>s. (ce_evaluations s, ce_cache_hits s))) (\<lambda>(evaluations, hits).
      bindP monotonic (\<lambda>now.
      ret \<lparr>sr_original_count = int (length original), sr_commands = current, sr_signature = signature,
           sr_evaluations = evaluations, sr_cache_hits = hits, sr_max_evaluations = max_evaluations budget,
           sr_timeout_seconds = timeout_seconds budget, sr_elapsed_seconds = now - started,
           sr_budget_exhausted = exhausted, sr_completed_stages = completed\<rparr>)))"

definition shrink_failure ::
  "(string \<Rightarrow> string) \<Rightarrow> (nat \<Rightarrow> rat) \<Rightarrow> command list \<Rightarrow> (command list \<Rightarrow> rat option \<Rightarrow> 'sig option result) \<Rightarrow> 'sig \<Rightarrow>
   shrink_context \<Rightarrow> shrink_budget \<Rightarrow> 'sig shrink_result result" where
  "shrink_failure sha256 clock original evaluator signature ctx budget =
     (let started = clock 0 in
      if original = [] then Inl ValueError
      else
        let checked = CandidateEvaluator evaluator signature budget sha256 clock 1 in
        case preserves original checked of
          (Inl e, s1) \<Rightarrow>
            if e = BudgetExhausted then fst (shrink_report original signature budget started (original, [], True) s1)
            else Inl e
        | (Inr False, s1) \<Rightarrow> Inl ValueError
        | (Inr True, s1) \<Rightarrow>
            (case run_steps (shrink_steps ctx) original [] s1 of
               (Inl e, s2) \<Rightarrow> Inl e
             | (Inr out, s2) \<Rightarrow> fst (shrink_report original signature budget started out s2)))"

end
