(* ===== verification/Shrinking_Properties.thy ===== *)
theory Shrinking_Properties
  imports Shrinking
begin

text \<open>
  What the reducer promises.  Every pass meets one contract, the locale \<open>reduction_pass\<close>: it keeps the
  evaluator's counters and cache sound, keeps a non-empty representable reproducer and never lengthens it,
  and raises only an exhausted budget or what the caller's evaluator raised.
\<close>

section \<open>The evaluator's invariant\<close>

abbreviation representable :: "command \<Rightarrow> bool" where
  "representable cmd \<equiv> native_require_representable cmd = Inr ()"

definition stream_text :: "command list \<Rightarrow> string" where
  "stream_text cmds = concat (map (\<lambda>cmd. join_fields (command_fields cmd) @ [CHR 0x0A]) cmds)"

definition key_of :: "'sig candidate_evaluator \<Rightarrow> command list \<Rightarrow> string" where
  "key_of s cmds = ce_sha256 s (stream_text cmds)"

definition same_frame :: "'sig candidate_evaluator \<Rightarrow> 'sig candidate_evaluator \<Rightarrow> bool" where
  "same_frame s t \<longleftrightarrow> ce_evaluator t = ce_evaluator s \<and> ce_signature t = ce_signature s \<and> ce_budget t = ce_budget s \<and>
     ce_deadline t = ce_deadline s \<and> ce_sha256 t = ce_sha256 s \<and> ce_clock t = ce_clock s"

text \<open>
  The calls the reducer makes of its caller's evaluator: on a non-empty sequence of representable commands,
  with the time left when there is a deadline and with nothing otherwise.
\<close>

definition askable :: "bool \<Rightarrow> command list \<Rightarrow> rat option \<Rightarrow> bool" where
  "askable timed cmds rem \<longleftrightarrow> cmds \<noteq> [] \<and> list_all representable cmds \<and>
     (case rem of None \<Rightarrow> \<not> timed | Some left \<Rightarrow> timed \<and> 0 < left)"

definition asked :: "'sig candidate_evaluator \<Rightarrow> command list \<Rightarrow> rat option \<Rightarrow> bool" where
  "asked s = askable (ce_deadline s \<noteq> None)"

definition ev_inv :: "'sig candidate_evaluator \<Rightarrow> bool" where
  "ev_inv s \<longleftrightarrow> 0 \<le> ce_evaluations s \<and> ce_evaluations s \<le> max_evaluations (ce_budget s) \<and>
     (\<forall>k r. map_of (ce_cache s) k = Some r \<longrightarrow> (\<exists>cmds rem. asked s cmds rem \<and> key_of s cmds = k \<and> ce_evaluator s cmds rem = Inr r))"

text \<open>Some evaluated candidate with the digest of \<open>cmds\<close> had the signature looked for.\<close>

definition reproduces :: "'sig candidate_evaluator \<Rightarrow> command list \<Rightarrow> bool" where
  "reproduces s cmds \<longleftrightarrow>
     (\<exists>tried rem. asked s tried rem \<and> key_of s tried = key_of s cmds \<and>
       ce_evaluator s tried rem = Inr (Some (ce_signature s)))"

definition refuted :: "'sig candidate_evaluator \<Rightarrow> command list \<Rightarrow> bool" where
  "refuted s cmds \<longleftrightarrow>
     (\<exists>tried rem r. asked s tried rem \<and> key_of s tried = key_of s cmds \<and>
       ce_evaluator s tried rem = Inr r \<and> r \<noteq> Some (ce_signature s))"

definition answers :: "'sig candidate_evaluator \<Rightarrow> command list \<Rightarrow> bool \<Rightarrow> bool" where
  "answers s cmds b \<longleftrightarrow> (if b then reproduces s cmds else refuted s cmds)"

lemma answers_simps [simp]: "answers s cmds True = reproduces s cmds" "answers s cmds False = refuted s cmds"
  by (simp_all add: answers_def)

definition benign :: "'sig candidate_evaluator \<Rightarrow> py_error \<Rightarrow> bool" where
  "benign s e \<longleftrightarrow> e = BudgetExhausted \<or> (\<exists>cmds rem. asked s cmds rem \<and> ce_evaluator s cmds rem = Inl e)"

definition good :: "'sig candidate_evaluator \<Rightarrow> command list \<Rightarrow> bool" where
  "good s cmds \<longleftrightarrow> cmds \<noteq> [] \<and> list_all representable cmds \<and> reproduces s cmds"

lemma same_frame_refl [simp]: "same_frame s s"
  by (simp add: same_frame_def)

lemma same_frame_trans: "same_frame s t \<Longrightarrow> same_frame t u \<Longrightarrow> same_frame s u"
  by (simp add: same_frame_def)

lemma same_frame_transfer:
  assumes "same_frame s t"
  shows "key_of t cmds = key_of s cmds" and "asked t = asked s" and "reproduces t cmds = reproduces s cmds"
    and "answers t cmds = answers s cmds" and "benign t e = benign s e" and "good t cmds = good s cmds"
  using assms by (simp_all add: same_frame_def key_of_def asked_def reproduces_def refuted_def answers_def fun_eq_iff benign_def good_def)

text \<open>The clock readings, hits and evaluations are not part of what the cache promises.\<close>

lemma ev_inv_update [simp]:
  "ev_inv (s\<lparr>ce_readings := n\<rparr>) = ev_inv s" "ev_inv (s\<lparr>ce_cache_hits := h\<rparr>) = ev_inv s"
  "same_frame s (t\<lparr>ce_readings := n\<rparr>) = same_frame s t" "same_frame s (t\<lparr>ce_cache_hits := h\<rparr>) = same_frame s t"
  "same_frame s (t\<lparr>ce_evaluations := v\<rparr>) = same_frame s t" "same_frame s (t\<lparr>ce_cache := c\<rparr>) = same_frame s t"
  by (simp_all add: ev_inv_def same_frame_def key_of_def asked_def)

section \<open>Hashing and evaluating a candidate\<close>

text \<open>An outcome that keeps the invariant and raises nothing unexpected.\<close>

definition quiet_outcome :: "'sig candidate_evaluator \<Rightarrow> ('a \<Rightarrow> bool) \<Rightarrow> 'a result \<times> 'sig candidate_evaluator \<Rightarrow> bool" where
  "quiet_outcome s post out \<longleftrightarrow>
     (case out of (r, s') \<Rightarrow> same_frame s s' \<and> ev_inv s' \<and> (case r of Inl e \<Rightarrow> benign s e | Inr x \<Rightarrow> post x))"

lemma quiet_outcome_simps [simp]:
  "quiet_outcome s post (Inr x, s') \<longleftrightarrow> same_frame s s' \<and> ev_inv s' \<and> post x"
  "quiet_outcome s post (Inl e, s') \<longleftrightarrow> same_frame s s' \<and> ev_inv s' \<and> benign s e"
  by (simp_all add: quiet_outcome_def)

lemma quiet_bind:
  assumes "quiet_outcome s post (m s)"
    and "\<And>x s1. m s = (Inr x, s1) \<Longrightarrow> same_frame s s1 \<Longrightarrow> ev_inv s1 \<Longrightarrow> post x \<Longrightarrow> quiet_outcome s1 post' (f x s1)"
  shows "quiet_outcome s post' (bindP m f s)"
proof (cases "m s")
  case (Pair r s1)
  show ?thesis
  proof (cases r)
    case (Inr x)
    with assms Pair have "same_frame s s1" "quiet_outcome s1 post' (f x s1)" by auto
    with Pair Inr show ?thesis
      by (cases "f x s1"; cases "fst (f x s1)")
        (auto simp: bindP_def same_frame_transfer intro: same_frame_trans)
  qed (use assms(1) Pair in \<open>simp add: bindP_def\<close>)
qed

lemma benign_budget [simp]: "benign s BudgetExhausted"
  by (simp add: benign_def)

lemma remaining_time_quiet: "ev_inv s \<Longrightarrow> quiet_outcome s (\<lambda>_. True) (remaining_time s)"
  by (simp add: remaining_time_def bindP_def getsP_def monotonic_def split: option.splits)

lemma remaining_time_asked:
  assumes "remaining_time s = (Inr remaining, s1)" and "cmds \<noteq> []" and "list_all representable cmds"
  shows "asked s cmds remaining"
  using assms by (auto simp: remaining_time_def asked_def askable_def bindP_def getsP_def monotonic_def split: option.splits if_splits)

lemma deadline_passed_quiet:
  "ev_inv s \<Longrightarrow> quiet_outcome s (\<lambda>_. True) (deadline_passed s)"
  "ce_evaluations (snd (deadline_passed s)) = ce_evaluations s" "ce_cache (snd (deadline_passed s)) = ce_cache s"
  by (simp_all add: deadline_passed_def bindP_def getsP_def monotonic_def split: option.splits)

lemma deadline_passed_returns: "\<exists>passed s'. deadline_passed s = (Inr passed, s')"
  by (cases "ce_deadline s") (auto simp: deadline_passed_def bindP_def getsP_def monotonic_def)

lemma hash_commands_quiet:
  assumes "ev_inv s" and "list_all representable cmds"
  shows "quiet_outcome s (\<lambda>t. t = acc @ stream_text cmds) (hash_commands cmds acc s)"
  using assms
proof (induction cmds arbitrary: acc s)
  case (Cons cmd cmds)
  have enc: "encode_command cmd = Inr (join_fields (command_fields cmd))"
    using Cons.prems by (simp add: encode_command_def)
  show ?case unfolding hash_commands.simps seqP_def
  proof (rule quiet_bind, rule remaining_time_quiet)
    fix x s1 assume "same_frame s s1" and s1: "ev_inv s1"
    from Cons.IH [OF s1, of "acc @ join_fields (command_fields cmd) @ [CHR 0x0A]"] Cons.prems(2)
    show "quiet_outcome s1 (\<lambda>t. t = acc @ stream_text (cmd # cmds))
        (bindP (liftP (encode_command cmd)) (\<lambda>l. hash_commands cmds (acc @ l @ [CHR 0x0A])) s1)"
      by (simp add: enc stream_text_def)
  qed (use Cons in simp)
qed (simp add: stream_text_def)

lemma candidate_key_quiet:
  assumes "ev_inv s" and "list_all representable cmds"
  shows "quiet_outcome s (\<lambda>k. k = key_of s cmds) (candidate_key cmds s)"
  unfolding candidate_key_def
proof (rule quiet_bind, rule hash_commands_quiet [OF assms])
  fix x s1 assume "same_frame s s1" "ev_inv s1" "x = [] @ stream_text cmds"
  then show "quiet_outcome s1 (\<lambda>k. k = key_of s cmds) (getsP (\<lambda>s. ce_sha256 s x) s1)"
    by (simp add: getsP_def key_of_def same_frame_def)
qed

lemma evaluate_uncached_quiet:
  assumes inv: "ev_inv s" and key: "key = key_of s cmds" and cmds: "cmds \<noteq> []" "list_all representable cmds"
  shows "quiet_outcome s (answers s cmds) (evaluate_uncached key cmds s)"
proof (cases "ce_evaluations s \<ge> max_evaluations (ce_budget s)")
  case True
  with inv show ?thesis by (simp add: evaluate_uncached_def)
next
  case False
  let ?tail = "\<lambda>remaining. bindP (\<lambda>s. (ce_evaluator s cmds remaining, s)) (\<lambda>result.
       seqP (modifyP (\<lambda>s. s\<lparr>ce_evaluations := ce_evaluations s + 1\<rparr>))
      (bindP deadline_passed (\<lambda>passed.
       if passed then raise BudgetExhausted
       else seqP (modifyP (\<lambda>s. s\<lparr>ce_cache := dict_setitem key result (ce_cache s)\<rparr>))
         (getsP (\<lambda>s. result = Some (ce_signature s))))))"
  have "quiet_outcome s1 (answers s cmds) (?tail remaining s1)"
    if r: "remaining_time s = (Inr remaining, s1)" and f: "same_frame s s1" and i1: "ev_inv s1" for remaining s1
  proof (cases "ce_evaluator s1 cmds remaining")
    case (Inl e)
    with i1 remaining_time_asked [OF r cmds] f show ?thesis by (auto simp: bindP_def benign_def same_frame_transfer)
  next
    case (Inr result)
    have keep: "ce_evaluations s1 = ce_evaluations s" "ce_cache s1 = ce_cache s"
      using r by (auto simp: remaining_time_def bindP_def getsP_def monotonic_def split: option.splits if_splits)
    let ?s2 = "s1\<lparr>ce_evaluations := ce_evaluations s1 + 1\<rparr>"
    have i2: "ev_inv ?s2"
      using i1 False f by (simp add: ev_inv_def keep key_of_def asked_def same_frame_def)
    obtain passed s3 where d: "deadline_passed ?s2 = (Inr passed, s3)"
      using deadline_passed_returns by blast
    have s3: "same_frame s1 s3" "ev_inv s3" using deadline_passed_quiet(1) [OF i2] d by (simp_all add: same_frame_def)
    note t3 = same_frame_transfer [OF s3(1)] and t1 = same_frame_transfer [OF f]
    note asked = remaining_time_asked [OF r cmds]
    have "answers s cmds (result = Some (ce_signature s3))"
      using Inr f s3(1) asked by (auto simp: answers_def reproduces_def refuted_def same_frame_def)
    moreover have "ev_inv (s3\<lparr>ce_cache := dict_setitem key result (ce_cache s3)\<rparr>)"
      using s3 Inr key t1(1,2) t3(1,2) asked by (fastforce simp: ev_inv_def key_of_def asked_def same_frame_def)
    ultimately show ?thesis using Inr d s3 by (simp add: bindP_def getsP_def)
  qed
  then have "quiet_outcome s (answers s cmds) (bindP remaining_time ?tail s)"
    by (intro quiet_bind [where m = remaining_time, OF remaining_time_quiet [OF inv]])
  with False show ?thesis by (simp add: evaluate_uncached_def)
qed

lemma preserves_answers:
  assumes "ev_inv s" and "list_all representable cmds" and "cmds \<noteq> []"
  shows "quiet_outcome s (answers s cmds) (preserves cmds s)"
  unfolding preserves_def
proof (rule quiet_bind, rule candidate_key_quiet [OF assms(1,2)])
  fix key s1 assume f: "same_frame s s1" and inv: "ev_inv s1" and key: "key = key_of s cmds"
  note t = same_frame_transfer [OF f]
  have key1: "key = key_of s1 cmds" by (simp add: key t)
  show "quiet_outcome s1 (answers s cmds) (bindP (getsP (\<lambda>s. map_of (ce_cache s) key)) (\<lambda>cached.
     case cached of
       Some result \<Rightarrow> seqP (modifyP (\<lambda>s. s\<lparr>ce_cache_hits := ce_cache_hits s + 1\<rparr>))
         (getsP (\<lambda>s. result = Some (ce_signature s)))
     | None \<Rightarrow> evaluate_uncached key cmds) s1)"
  proof (cases "map_of (ce_cache s1) key")
    case (Some result)
    then obtain ds rem where "asked s1 ds rem" "key_of s1 ds = key" "ce_evaluator s1 ds rem = Inr result"
      using inv unfolding ev_inv_def by blast
    then have "answers s1 cmds (result = Some (ce_signature s1))" using key1 by (auto simp: answers_def reproduces_def refuted_def)
    with inv t have "quiet_outcome s1 (answers s cmds) (seqP
        (modifyP (\<lambda>s. s\<lparr>ce_cache_hits := ce_cache_hits s + 1\<rparr>)) (getsP (\<lambda>s. result = Some (ce_signature s))) s1)"
      by (auto simp: getsP_def split: if_splits)
    with Some show ?thesis by simp
  next
    case None
    with evaluate_uncached_quiet [OF inv key1 assms(3,2)] t show ?thesis by simp
  qed
qed

lemma preserves_quiet:
  assumes "ev_inv s" and "list_all representable cmds" and "cmds \<noteq> []"
  shows "quiet_outcome s (\<lambda>b. b \<longrightarrow> reproduces s cmds) (preserves cmds s)"
  using preserves_answers [OF assms] by (cases "preserves cmds s"; cases "fst (preserves cmds s)") auto

text \<open>With an empty cache the answer is the evaluator's own.\<close>

lemma hash_commands_frame:
  "hash_commands cs acc s = (r, t) \<Longrightarrow> same_frame s t \<and> ce_cache t = ce_cache s"
proof (induction cs arbitrary: acc s)
  case (Cons c cs)
  have rem: "same_frame s (snd (remaining_time s)) \<and> ce_cache (snd (remaining_time s)) = ce_cache s"
    by (simp add: remaining_time_def bindP_def getsP_def monotonic_def split: option.splits)
  from Cons.prems rem Cons.IH show ?case
    by (auto simp: seqP_def bindP_def liftP_def split: prod.splits sum.splits) (blast intro: same_frame_trans)+
qed simp

lemma preserves_fresh:
  assumes "ce_cache s = []" and "preserves cmds s = (Inr ok, s1)" and "cmds \<noteq> []" and "list_all representable cmds"
  shows "\<exists>rem answer. asked s cmds rem \<and> ce_evaluator s cmds rem = Inr answer \<and> ok = (answer = Some (ce_signature s))"
proof -
  from assms(2) obtain stream s2 where hash: "hash_commands cmds [] s = (Inr stream, s2)"
    by (auto simp: preserves_def candidate_key_def bindP_def split: prod.splits sum.splits)
  note s2 = hash_commands_frame [OF hash]
  with assms(1,2) hash have eval: "evaluate_uncached (ce_sha256 s2 stream) cmds s2 = (Inr ok, s1)"
    by (simp add: preserves_def candidate_key_def bindP_def getsP_def)
  then obtain rem s3 where rem: "remaining_time s2 = (Inr rem, s3)"
    by (auto simp: evaluate_uncached_def bindP_def getsP_def split: prod.splits sum.splits if_splits)
  have "same_frame s2 s3"
    using rem by (auto simp: remaining_time_def bindP_def getsP_def monotonic_def split: option.splits if_splits)
  moreover have "\<exists>answer. ce_evaluator s3 cmds rem = Inr answer \<and> ok = (answer = Some (ce_signature s3))"
  proof (cases "ce_evaluator s3 cmds rem")
    case (Inl e)
    with eval rem show ?thesis by (simp add: evaluate_uncached_def bindP_def getsP_def split: if_splits)
  next
    case (Inr answer)
    let ?s4 = "s3\<lparr>ce_evaluations := ce_evaluations s3 + 1\<rparr>"
    obtain passed s5 where d: "deadline_passed ?s4 = (Inr passed, s5)" using deadline_passed_returns by blast
    have "ce_signature s5 = ce_signature s3"
      using d by (auto simp: deadline_passed_def bindP_def getsP_def monotonic_def split: option.splits)
    moreover have "ok = (answer = Some (ce_signature s5))"
      using eval rem d by (simp add: evaluate_uncached_def bindP_def seqP_def getsP_def modifyP_def Inr split: if_splits)
    ultimately show ?thesis using Inr by simp
  qed
  moreover have "asked s cmds rem"
    using remaining_time_asked [OF rem assms(3,4)] same_frame_transfer(2) [of s s2] s2 by simp
  ultimately show ?thesis using s2 unfolding same_frame_def by metis
qed

section \<open>The contract of a pass\<close>

definition pass_ok ::
  "'sig candidate_evaluator \<Rightarrow> command list \<Rightarrow> command list result \<times> 'sig candidate_evaluator \<Rightarrow> bool" where
  "pass_ok s cmds out \<longleftrightarrow> quiet_outcome s (\<lambda>cmds'. good s cmds' \<and> length cmds' \<le> length cmds) out"

lemma pass_ok_keep [simp]: "ev_inv s \<Longrightarrow> good s cmds \<Longrightarrow> pass_ok s cmds (Inr cmds, s)"
  by (simp add: pass_ok_def)

lemma pass_ok_trans:
  assumes "same_frame s s1" and "length cmds1 \<le> length cmds" and "pass_ok s1 cmds1 out"
  shows "pass_ok s cmds out"
  using assms same_frame_transfer [OF assms(1)]
  by (cases out; cases "fst out") (auto simp: pass_ok_def intro: same_frame_trans)

lemma pass_ok_bind:
  assumes "pass_ok s cmds (m s)"
    and "\<And>cmds1 s1. same_frame s s1 \<Longrightarrow> ev_inv s1 \<Longrightarrow> good s1 cmds1 \<Longrightarrow> length cmds1 \<le> length cmds \<Longrightarrow>
      pass_ok s1 cmds1 (f cmds1 s1)"
  shows "pass_ok s cmds (bindP m f s)"
proof (cases "m s")
  case (Pair r s1)
  show ?thesis
  proof (cases r)
    case (Inr cmds1)
    with assms(1) Pair have p: "same_frame s s1" "ev_inv s1" "good s cmds1" "length cmds1 \<le> length cmds"
      by (simp_all add: pass_ok_def)
    with assms(2) [of s1 cmds1] pass_ok_trans [OF p(1,4)] Pair Inr show ?thesis
      by (simp add: bindP_def same_frame_transfer)
  qed (use assms(1) Pair in \<open>simp add: bindP_def pass_ok_def\<close>)
qed

text \<open>Trying a candidate no longer than the current sequence, whatever is done with the answer.\<close>

lemma try_candidate:
  assumes inv: "ev_inv s" and good: "good s cmds"
    and cand: "candidate \<noteq> []" "list_all representable candidate"
    and after: "\<And>ok s1. same_frame s s1 \<Longrightarrow> ev_inv s1 \<Longrightarrow> good s1 cmds \<Longrightarrow> (ok \<Longrightarrow> good s1 candidate) \<Longrightarrow> pass_ok s1 cmds (k ok s1)"
  shows "pass_ok s cmds (bindP (preserves candidate) k s)"
proof -
  have "quiet_outcome s (\<lambda>cmds'. good s cmds' \<and> length cmds' \<le> length cmds) (bindP (preserves candidate) k s)"
  proof (rule quiet_bind, rule preserves_quiet [OF inv cand(2,1)])
    fix ok s1 assume s1: "same_frame s s1" "ev_inv s1" "ok \<longrightarrow> reproduces s candidate"
    note t = same_frame_transfer [OF s1(1)]
    have "pass_ok s1 cmds (k ok s1)" using after [OF s1(1,2), of ok] s1(3) cand good by (simp add: t) (simp add: good_def)
    then show "quiet_outcome s1 (\<lambda>cmds'. good s cmds' \<and> length cmds' \<le> length cmds) (k ok s1)"
      by (simp add: pass_ok_def t)
  qed
  then show ?thesis by (simp add: pass_ok_def)
qed

lemma accept_or_continue:
  assumes "ev_inv s" and "good s cmds" and "candidate \<noteq> []" and "list_all representable candidate"
    and "length candidate \<le> length cmds"
    and "\<And>s1. same_frame s s1 \<Longrightarrow> ev_inv s1 \<Longrightarrow> good s1 cmds \<Longrightarrow> pass_ok s1 cmds (k s1)"
  shows "pass_ok s cmds (bindP (preserves candidate) (\<lambda>ok. if ok then ret candidate else k) s)"
proof (rule try_candidate [OF assms(1-4)])
  fix ok s1 assume "same_frame s s1" "ev_inv s1" "good s1 cmds" "ok \<Longrightarrow> good s1 candidate"
  with assms(5,6) show "pass_ok s1 cmds ((if ok then ret candidate else k) s1)" by (auto simp: pass_ok_def)
qed

definition run_post ::
  "'sig candidate_evaluator \<Rightarrow> command list \<Rightarrow> string list \<Rightarrow> ('a \<times> string list) list \<Rightarrow> command list \<times> string list \<times> bool \<Rightarrow> bool" where
  "run_post s cmds completed steps out \<longleftrightarrow> (case out of (cmds', completed', exhausted) \<Rightarrow>
     good s cmds' \<and> length cmds' \<le> length cmds \<and> (exhausted \<or> completed' = completed @ concat (map snd steps)))"

locale reduction_pass =
  fixes pass :: "command list \<Rightarrow> ('sig candidate_evaluator, command list) prog"
  assumes sound: "ev_inv s \<Longrightarrow> good s cmds \<Longrightarrow> pass_ok s cmds (pass cmds s)"
begin

text \<open>One step of the reduction: the pass, then whatever steps follow.\<close>

lemma step_then:
  assumes inv: "ev_inv s" "good s cmds"
    and later: "\<And>c s1. same_frame s s1 \<Longrightarrow> ev_inv s1 \<Longrightarrow> good s1 c \<Longrightarrow>
      quiet_outcome s1 (run_post s1 c (completed @ name) steps) (run_steps steps c (completed @ name) s1)"
  shows "quiet_outcome s (run_post s cmds completed ((pass, name) # steps)) (run_steps ((pass, name) # steps) cmds completed s)"
proof -
  obtain r s1 where out: "pass cmds s = (r, s1)" by fastforce
  have p: "quiet_outcome s (\<lambda>c. good s c \<and> length c \<le> length cmds) (r, s1)"
    using sound [OF inv] by (simp add: out pass_ok_def)
  show ?thesis
  proof (cases r)
    case (Inl e)
    with p inv(2) out show ?thesis by (simp add: run_post_def)
  next
    case (Inr c)
    with p have s1: "same_frame s s1" "ev_inv s1" "good s c" "length c \<le> length cmds" by simp_all
    note t = same_frame_transfer [OF s1(1)]
    show ?thesis using later [OF s1(1,2), of c] s1 t out Inr
      by (cases "run_steps steps c (completed @ name) s1"; cases "fst (run_steps steps c (completed @ name) s1)")
        (auto simp: run_post_def intro: same_frame_trans)
  qed
qed

end

section \<open>Deletion passes\<close>

lemma representable_sub: "list_all representable cmds \<Longrightarrow> set cmds' \<subseteq> set cmds \<Longrightarrow> list_all representable cmds'"
  by (auto simp: list_all_iff)

lemma cut_subset: "set (take i xs @ drop j xs) \<subseteq> set xs"
  using set_take_subset [of i xs] set_drop_subset [of j xs] by auto

lemma try_chunks_quiet:
  assumes "ev_inv s" and "list_all representable cmds"
  shows "quiet_outcome s (\<lambda>r. \<forall>c. r = Some c \<longrightarrow> good s c) (try_chunks cmds chunk starts s)"
  using assms
proof (induction starts arbitrary: s)
  case (Cons start starts)
  let ?cand = "take start cmds @ drop (start + chunk) cmds"
  show ?case
  proof (cases "?cand = []")
    case False
    have rep: "list_all representable ?cand" using representable_sub [OF Cons.prems(2) cut_subset] .
    have "quiet_outcome s (\<lambda>r. \<forall>c. r = Some c \<longrightarrow> good s c)
        (bindP (preserves ?cand) (\<lambda>ok. if ok then ret (Some ?cand) else try_chunks cmds chunk starts) s)"
    proof (rule quiet_bind, rule preserves_quiet [OF Cons.prems(1) rep False])
      fix ok s1 assume s1: "same_frame s s1" "ev_inv s1" "ok \<longrightarrow> reproduces s ?cand"
      note t = same_frame_transfer [OF s1(1)]
      show "quiet_outcome s1 (\<lambda>r. \<forall>c. r = Some c \<longrightarrow> good s c)
          ((if ok then ret (Some ?cand) else try_chunks cmds chunk starts) s1)"
        using s1 rep False Cons.IH [OF s1(2) Cons.prems(2)] by (cases ok) (auto simp: good_def t)
    qed
    with False show ?thesis by (simp add: Let_def)
  qed (use Cons in \<open>simp add: Let_def\<close>)
qed simp

lemma delete_chunks_loop_ok:
  assumes "ev_inv s" and "good s cmds" and "g \<noteq> 0"
  shows "pass_ok s cmds (delete_chunks_loop cmds g s)"
  using assms
proof (induction cmds g s rule: delete_chunks_loop.induct)
  case (1 cmds g s)
  let ?chunk = "(length cmds + g - 1) div g"
  show ?case
  proof (cases "length cmds < 2")
    case False
    obtain r s1 where out: "try_chunks cmds ?chunk (range_by (length cmds) ?chunk) s = (r, s1)" by fastforce
    have q: "quiet_outcome s (\<lambda>r. \<forall>c. r = Some c \<longrightarrow> good s c) (r, s1)"
      using try_chunks_quiet [OF 1(3), of cmds ?chunk "range_by (length cmds) ?chunk"] 1(4) out by (simp add: good_def)
    consider (err) e where "r = Inl e" | (cut) c where "r = Inr (Some c)" | (miss) "r = Inr None"
      by (metis option.exhaust sum.exhaust)
    then show ?thesis
    proof cases
      case err
      with q out False 1(5) show ?thesis by (subst delete_chunks_loop.simps) (simp add: Let_def pass_ok_def)
    next
      case cut
      with q have s1: "same_frame s s1" "ev_inv s1" "good s c" by simp_all
      have "length c < length cmds" using try_all_chunks_shorter [OF out [unfolded cut] refl False 1(5)] .
      moreover have "pass_ok s1 c (delete_chunks_loop c (max 2 (g - 1)) s1)"
        using 1(2) [OF False 1(5) refl _ _ _ s1(2)] out cut s1 by (simp add: same_frame_transfer)
      ultimately have "pass_ok s cmds (delete_chunks_loop c (max 2 (g - 1)) s1)"
        using pass_ok_trans [OF s1(1), of c cmds] by simp
      with out cut False 1(5) show ?thesis by (subst delete_chunks_loop.simps) (simp add: Let_def)
    next
      case miss
      with q have s1: "same_frame s s1" "ev_inv s1" by simp_all
      have g1: "good s1 cmds" using 1(4) s1(1) by (simp add: same_frame_transfer)
      show ?thesis
      proof (cases "g \<ge> length cmds")
        case True
        with out miss False 1(4,5) s1 show ?thesis by (subst delete_chunks_loop.simps) (simp add: Let_def pass_ok_def)
      next
        case g: False
        have "cmds \<noteq> []" using False by auto
        then have "pass_ok s1 cmds (delete_chunks_loop cmds (min (length cmds) (g * 2)) s1)"
          using 1(1) [OF False 1(5) refl _ _ _ g s1(2) g1] out miss 1(5) by simp
        then have "pass_ok s cmds (delete_chunks_loop cmds (min (length cmds) (g * 2)) s1)"
          using pass_ok_trans [OF s1(1) order_refl] by simp
        with out miss False g 1(5) show ?thesis by (subst delete_chunks_loop.simps) (simp add: Let_def)
      qed
    qed
  qed (use 1 in \<open>subst delete_chunks_loop.simps, simp\<close>)
qed

interpretation chunk_pass: reduction_pass delete_chunks
  by unfold_locales (simp add: delete_chunks_def delete_chunks_loop_ok)

lemma delete_individual_loop_step:
  assumes "i < length cmds" and "cand = take i cmds @ drop (i + 1) cmds" and "cand \<noteq> []"
    and "preserves cand s = (r, s1)"
  shows "delete_individual_loop cmds i s = (case r of
      Inl e \<Rightarrow> (Inl e, s1)
    | Inr ok \<Rightarrow> if ok then delete_individual_loop cand i s1 else delete_individual_loop cmds (i + 1) s1)"
  unfolding delete_individual_loop.simps [of cmds i s] Let_def assms(2) [symmetric]
  using assms(1,3,4) by (simp split: sum.splits bool.splits)

lemma delete_individual_loop_ok:
  assumes "ev_inv s" and "good s cmds"
  shows "pass_ok s cmds (delete_individual_loop cmds i s)"
  using assms
proof (induction cmds i s rule: delete_individual_loop.induct)
  case (1 cmds i s)
  let ?cand = "take i cmds @ drop (i + 1) cmds"
  consider (stop) "i \<ge> length cmds" | (skip) "i < length cmds" "?cand = []" | (cand) "i < length cmds" "?cand \<noteq> []"
    by linarith
  then show ?case
  proof cases
    case stop
    with 1 show ?thesis by (subst delete_individual_loop.simps) simp
  next
    case skip
    with 1(1) [of ?cand] 1(4,5) show ?thesis by (subst delete_individual_loop.simps) (simp add: Let_def)
  next
    case cand
    have rep: "list_all representable ?cand" using 1(5) representable_sub [OF _ cut_subset] by (simp add: good_def)
    obtain r s1 where out: "preserves ?cand s = (r, s1)" by fastforce
    have q: "quiet_outcome s (\<lambda>b. b \<longrightarrow> reproduces s ?cand) (r, s1)" using preserves_quiet [OF 1(4) rep cand(2)] out by simp
    note step = delete_individual_loop_step [OF cand(1) refl cand(2) out]
    consider (err) e where "r = Inl e" | (cut) "r = Inr True" | (miss) "r = Inr False"
      by (metis (full_types) sum.exhaust)
    then show ?thesis
    proof cases
      case err
      with q show ?thesis by (simp add: step pass_ok_def)
    next
      case cut
      with q have s1: "same_frame s s1" "ev_inv s1" "reproduces s ?cand" by simp_all
      then have "good s1 ?cand" using cand rep by (simp add: good_def same_frame_transfer)
      with 1(2) [of ?cand r s1] out cand cut s1 have "pass_ok s1 ?cand (delete_individual_loop ?cand i s1)" by auto
      with pass_ok_trans [OF s1(1), of ?cand cmds] cand have "pass_ok s cmds (delete_individual_loop ?cand i s1)" by simp
      with cut show ?thesis by (simp add: step)
    next
      case miss
      with q have s1: "same_frame s s1" "ev_inv s1" by simp_all
      have "good s1 cmds" using 1(5) s1(1) by (simp add: same_frame_transfer)
      with 1(3) [of ?cand r s1] out cand miss s1 have "pass_ok s1 cmds (delete_individual_loop cmds (i + 1) s1)" by auto
      with pass_ok_trans [OF s1(1) order_refl] have "pass_ok s cmds (delete_individual_loop cmds (i + 1) s1)" by simp
      with miss show ?thesis by (simp add: step)
    qed
  qed
qed

interpretation individual_pass: reduction_pass delete_individual
  by unfold_locales (simp add: delete_individual_def delete_individual_loop_ok)

section \<open>Passes that change one command\<close>

text \<open>A change that keeps a command representable.\<close>

lemma representable_replace_at:
  assumes "list_all representable cmds" and "representable cmd"
  shows "list_all representable (replace_at cmds i cmd)"
  using assms set_take_subset [of i cmds] set_drop_subset [of "i + 1" cmds]
  by (auto simp: replace_at_def list_all_iff)

lemma replace_at_nonempty [simp]: "replace_at cmds i cmd \<noteq> []"
  by (simp add: replace_at_def)

lemma length_replace_at [simp]: "i < length cmds \<Longrightarrow> length (replace_at cmds i cmd) = length cmds"
  by (simp add: replace_at_def)

text \<open>A body that meets the contract at every index makes a loop that meets it.\<close>

definition body_ok :: "('i \<Rightarrow> command list \<Rightarrow> ('sig candidate_evaluator, command list) prog) \<Rightarrow> 'i \<Rightarrow> nat \<Rightarrow> bool" where
  "body_ok body i n \<longleftrightarrow> (\<forall>s cmds. ev_inv s \<longrightarrow> good s cmds \<longrightarrow> length cmds = n \<longrightarrow>
     pass_ok s cmds (body i cmds s) \<and> (\<forall>cmds' s'. body i cmds s = (Inr cmds', s') \<longrightarrow> length cmds' = n))"

lemma each_index_ok:
  assumes "\<forall>i \<in> set is. body_ok body i (length cmds)" and "ev_inv s" and "good s cmds"
  shows "pass_ok s cmds (each_index body is cmds s)"
  using assms
proof (induction "is" arbitrary: cmds s)
  case (Cons i "is")
  obtain r s1 where out: "body i cmds s = (r, s1)" by fastforce
  have "body_ok body i (length cmds)" using Cons.prems(1) by simp
  with Cons.prems(2,3) out have b: "pass_ok s cmds (r, s1)" and len: "\<And>c. r = Inr c \<Longrightarrow> length c = length cmds"
    unfolding body_ok_def by (metis, metis)
  show ?case
  proof (cases r)
    case (Inr c)
    with b have s1: "same_frame s s1" "ev_inv s1" "good s c" by (simp_all add: pass_ok_def)
    have "pass_ok s1 c (each_index body is c s1)"
      using Cons.IH [of c s1] Cons.prems(1) s1 len [OF Inr] by (simp add: same_frame_transfer)
    with pass_ok_trans [OF s1(1), of c cmds] len [OF Inr] out Inr show ?thesis by (simp add: bindP_def)
  qed (use b out in \<open>simp add: bindP_def\<close>)
qed simp

text \<open>Trying variants of the command at one index, as long as the tried ones are representable.\<close>

lemma bodyI:
  assumes "\<And>s cmds. ev_inv s \<Longrightarrow> good s cmds \<Longrightarrow> length cmds = n \<Longrightarrow> pass_ok s cmds (body i cmds s)"
    and "\<And>s cmds cmds' s'. length cmds = n \<Longrightarrow> body i cmds s = (Inr cmds', s') \<Longrightarrow> length cmds' = n"
  shows "body_ok body i n"
  using assms by (auto simp: body_ok_def)

lemma try_keeps_length:
  assumes "bindP (preserves candidate) k s = (Inr cmds', s')" and "\<And>ok s1. k ok s1 = (Inr cmds', s') \<Longrightarrow> P"
  shows P
  using assms by (auto simp: bindP_cases split: prod.splits sum.splits)

lemma goodD: "good s cmds \<Longrightarrow> list_all representable cmds" "good s cmds \<Longrightarrow> cmds \<noteq> []"
  by (simp_all add: good_def)

lemma representable_nth: "list_all representable cmds \<Longrightarrow> i < length cmds \<Longrightarrow> representable (cmds ! i)"
  by (simp add: list_all_length)

lemma good_replace_at: "good s cmds \<Longrightarrow> representable cmd \<Longrightarrow> list_all representable (replace_at cmds i cmd)"
  by (simp add: good_def representable_replace_at)

lemma first_alternative_ok:
  assumes "ev_inv s" and "good s cmds" and "i < length cmds" and "\<forall>alt \<in> set alts. representable alt"
  shows "pass_ok s cmds (first_alternative alts i cmds s)"
  using assms
proof (induction alts arbitrary: s)
  case (Cons alt alts)
  show ?case unfolding first_alternative.simps Let_def
  proof (rule accept_or_continue)
    fix s1 assume "same_frame s s1" "ev_inv s1" "good s1 cmds"
    with Cons show "pass_ok s1 cmds (first_alternative alts i cmds s1)" by simp
  qed (use Cons.prems good_replace_at in auto)
qed simp

lemma first_alternative_length:
  "first_alternative alts i cmds s = (Inr cmds', s') \<Longrightarrow> i < length cmds \<Longrightarrow> length cmds' = length cmds"
  by (induction alts arbitrary: s) (auto simp: Let_def elim!: try_keeps_length split: if_splits)

lemma every_alternative_ok:
  assumes "ev_inv s" and "good s cmds" and "i < length cmds" and "\<forall>alt \<in> set alts. representable alt"
  shows "pass_ok s cmds (every_alternative alts i cmds s)"
  using assms
proof (induction alts arbitrary: cmds s)
  case (Cons alt alts)
  show ?case unfolding every_alternative.simps Let_def
  proof (rule try_candidate)
    fix ok s1 assume "same_frame s s1" and s1: "ev_inv s1" "good s1 cmds" "ok \<Longrightarrow> good s1 (replace_at cmds i alt)"
    let ?c = "if ok then replace_at cmds i alt else cmds"
    have "pass_ok s1 ?c (every_alternative alts i ?c s1)"
      using Cons.IH [of s1 ?c] Cons.prems s1 by (cases ok) simp_all
    then show "pass_ok s1 cmds (every_alternative alts i ?c s1)"
      using pass_ok_trans [OF same_frame_refl, of ?c cmds] Cons.prems(3) by (cases ok) simp_all
  qed (use Cons.prems good_replace_at in auto)
qed simp

lemma every_alternative_length:
  "every_alternative alts i cmds s = (Inr cmds', s') \<Longrightarrow> i < length cmds \<Longrightarrow> length cmds' = length cmds"
proof (induction alts arbitrary: cmds s)
  case (Cons alt alts)
  from Cons.prems(1) obtain ok s1 where
    "every_alternative alts i (if ok then replace_at cmds i alt else cmds) s1 = (Inr cmds', s')"
    by (auto simp: Let_def elim!: try_keeps_length)
  with Cons.IH [of "if ok then replace_at cmds i alt else cmds" s1] Cons.prems(2) show ?case by (cases ok) simp_all
qed simp

lemma simpler_representable: "representable cmd \<Longrightarrow> alt \<in> set (simpler_commands cmd) \<Longrightarrow> representable alt"
  by (cases cmd) (auto simp: bindR_Inr_iff split: if_splits)

lemma normal_representable: "representable cmd \<Longrightarrow> alt \<in> set (normal_alternatives cmd) \<Longrightarrow> representable alt"
  by (cases cmd) (auto simp: bindR_Inr_iff split: if_splits)

interpretation command_pass: reduction_pass simplify_commands
proof
  fix s :: "'a candidate_evaluator" and cmds assume inv: "ev_inv s" "good s cmds"
  have "body_ok (\<lambda>(i, cmd) current. first_alternative (simpler_commands cmd) i current) x (length cmds)"
    if "x \<in> set (zip [0..<length cmds] cmds)" for x :: "nat \<times> command"
  proof -
    from that obtain i cmd where x: "x = (i, cmd)" "i < length cmds" "cmd \<in> set cmds"
      by (metis in_set_zipE set_upt atLeastLessThan_iff prod.exhaust)
    have "\<forall>alt \<in> set (simpler_commands cmd). representable alt"
      using simpler_representable x(3) goodD(1) [OF inv(2)] by (auto simp: list_all_iff)
    with x show ?thesis
      by (intro bodyI) (auto intro: first_alternative_ok dest: first_alternative_length)
  qed
  with inv show "pass_ok s cmds (simplify_commands cmds s)"
    unfolding simplify_commands_def by (intro each_index_ok) auto
qed

lemma normalize_body:
  assumes "i < n"
  shows "body_ok (\<lambda>i current. every_alternative (normal_alternatives (current ! i)) i current) i n"
proof (rule bodyI)
  fix s :: "'a candidate_evaluator" and current assume c: "ev_inv s" "good s current" "length current = n"
  have "\<forall>alt \<in> set (normal_alternatives (current ! i)). representable alt"
    using normal_representable [OF representable_nth [OF goodD(1) [OF c(2)]]] assms c(3) by simp
  with c assms show "pass_ok s current (every_alternative (normal_alternatives (current ! i)) i current s)"
    by (intro every_alternative_ok) auto
qed (use assms every_alternative_length in auto)

interpretation normal_pass: reduction_pass normalize_side_and_tif
  by unfold_locales (auto simp: normalize_side_and_tif_def intro!: each_index_ok normalize_body)

section \<open>Price and quantity reduction\<close>

definition context_ok :: "shrink_context \<Rightarrow> bool" where
  "context_ok ctx \<longleftrightarrow> 1 \<le> routed_instrument ctx \<and> routed_instrument ctx \<le> U32_MAX \<and>
     1 \<le> ctx_tick_increment ctx \<and> ctx_tick_increment ctx \<le> I64_MAX \<and>
     1 \<le> ctx_max_quantity ctx \<and> ctx_max_quantity ctx \<le> U64_MAX"

lemma ShrinkContext_ok: "ShrinkContext routed tick quantity = Inr ctx \<Longrightarrow> context_ok ctx"
  by (auto simp: ShrinkContext_def context_ok_def split: if_splits)

lemma unique_from_set: "set (unique_from seen vs) = set vs - set seen"
  by (induction seen vs rule: unique_from.induct) auto

lemma unique_values_set [simp]: "set (unique_values vs) = set vs"
  by (simp add: unique_values_def unique_from_set)

lemma prices_in_range: "representable cmd \<Longrightarrow> p \<in> set (command_prices cmd) \<Longrightarrow> I64_MIN \<le> p \<and> p \<le> I64_MAX"
  by (cases cmd) (auto simp: bindR_Inr_iff split: option.splits)

lemma representable_with_price:
  "representable cmd \<Longrightarrow> I64_MIN \<le> p \<Longrightarrow> p \<le> I64_MAX \<Longrightarrow> representable (with_price cmd p)"
  by (cases cmd) (auto simp: bindR_Inr_iff)

lemma representable_with_quantity:
  "representable cmd \<Longrightarrow> 0 \<le> q \<Longrightarrow> q \<le> U64_MAX \<Longrightarrow> representable (with_quantity cmd q)"
  by (cases cmd) (auto simp: bindR_Inr_iff)

lemma command_prices_with_price: "command_prices (with_price cmd p) = map (\<lambda>_. p) (command_prices cmd)"
  by (cases cmd) (auto split: option.splits)

lemma with_price_no_price: "command_prices cmd = [] \<Longrightarrow> with_price cmd p = cmd"
  by (cases cmd) (auto split: option.splits)

text \<open>
  The candidate prices are positive, and all but the default central price are 64-bit; that default,
  a hundred ticks, can be out of range, but then it never lowers the complexity and is never tried.
\<close>

lemma middle_mem: "xs \<noteq> [] \<Longrightarrow> xs ! (length xs div 2) \<in> set xs"
  by (intro nth_mem) (simp add: div_less_dividend)

lemma price_candidates_range:
  assumes "1 \<le> tick" "tick \<le> I64_MAX" and "list_all representable cmds" and "p \<in> set (price_candidates cmds tick)"
  shows "1 \<le> p \<and> (p \<le> I64_MAX \<or> p = 100 * tick)"
proof -
  let ?obs = "sorted_list_of_set (set (filter (\<lambda>p. p > 0 \<and> p mod tick = 0) (concat (map command_prices cmds))))"
  have obs: "1 \<le> q \<and> q \<le> I64_MAX" if q: "q \<in> set ?obs" for q
  proof -
    obtain cmd where c: "cmd \<in> set cmds" "q \<in> set (command_prices cmd)" and "q > 0" using q by auto
    have "representable cmd" using assms(3) c(1) by (auto simp: list_all_iff)
    with prices_in_range [OF this c(2)] \<open>q > 0\<close> show ?thesis by simp
  qed
  have "tick * 1 \<le> tick * (I64_MAX div tick)" using assms(1,2) by (intro mult_left_mono) (simp_all add: pos_imp_zdiv_pos_iff int_one_le_iff_zero_less)
  then have high: "tick \<le> I64_MAX - I64_MAX mod tick" by (simp add: minus_mod_eq_mult_div)
  have pos: "0 \<le> I64_MAX mod tick" using assms(1) by simp
  define h where "h = I64_MAX - I64_MAX mod tick"
  have h: "tick \<le> h" "h \<le> I64_MAX" using high pos by (simp_all only: h_def diff_le_eq)
  have central: "?obs ! (length ?obs div 2) \<in> set ?obs" if "?obs \<noteq> []" using middle_mem [OF that] .
  define obs where "obs = ?obs"
  have "p \<in> set [tick, min h (2 * tick), min h (100 * tick),
      if obs \<noteq> [] then obs ! (length obs div 2) else 100 * tick]"
    using assms(4) unfolding price_candidates_def Let_def unique_values_set obs_def h_def .
  then consider "p = tick" | "p = min h (2 * tick)"
    | "p = min h (100 * tick)" | "obs \<noteq> []" "p = obs ! (length obs div 2)" | "p = 100 * tick"
    by (cases "obs \<noteq> []") auto
  then show ?thesis
  proof cases
    case 4
    with obs [OF central] show ?thesis by (simp add: obs_def)
  qed (use assms(1) h in \<open>auto simp: min_def\<close>)
qed

lemma lex_less_fst: "(x :: int \<times> int list) < y \<Longrightarrow> fst x \<le> fst y"
  by (cases x; cases y) auto

lemma price_in_reach:
  assumes "1 \<le> p" "p \<le> I64_MAX \<or> p = 100 * tick" and "p \<le> 2 ^ 63"
  shows "p \<le> I64_MAX"
  using assms(2)
proof
  assume p: "p = 100 * tick"
  have "(2 :: int) ^ 63 mod 100 \<noteq> 0" by simp
  then have "p \<noteq> 2 ^ 63" using p by (metis mod_mult_self1_is_0)
  with assms(3) show ?thesis by (simp add: I64_MAX_def)
qed

lemma abs_price_bound: "representable cmd \<Longrightarrow> p \<in> set (command_prices cmd) \<Longrightarrow> \<bar>p\<bar> \<le> 2 ^ 63"
  using prices_in_range [of cmd p] by (auto simp: I64_MIN_def I64_MAX_def abs_le_iff)

lemma sum_list_bounded: "(\<forall>x \<in> set xs. f x \<le> (b :: int)) \<Longrightarrow> sum_list (map f xs) \<le> int (length xs) * b"
  by (induction xs) (auto simp: algebra_simps)

lemma global_price_reach:
  assumes "list_all representable cmds" and "map (\<lambda>cmd. with_price cmd p) cmds \<noteq> cmds" and "1 \<le> p"
    and "price_complexity (map (\<lambda>cmd. with_price cmd p) cmds) < price_complexity cmds"
  shows "p \<le> 2 ^ 63"
proof (rule ccontr)
  assume "\<not> p \<le> 2 ^ 63"
  then have p: "2 ^ 63 + 1 \<le> p" by simp
  let ?ps = "concat (map command_prices cmds)"
  have new: "concat (map command_prices (map (\<lambda>cmd. with_price cmd p) cmds)) = map (\<lambda>_. p) ?ps"
    by (simp add: command_prices_with_price comp_def map_concat)
  have "?ps \<noteq> []"
  proof
    assume "?ps = []"
    then have "with_price cmd p = cmd" if "cmd \<in> set cmds" for cmd using that with_price_no_price by simp
    with assms(2) show False by (simp add: map_idI)
  qed
  then have len: "1 \<le> int (length ?ps)" by (cases ?ps) simp_all
  have "sum_list (map abs ?ps) \<le> int (length ?ps) * 2 ^ 63"
    using assms(1) abs_price_bound by (intro sum_list_bounded) (auto simp: list_all_iff)
  also have "\<dots> < int (length ?ps) * p"
    using len p mult_strict_left_mono [of "2 ^ 63" p "int (length ?ps)"] by linarith
  also have "\<dots> = sum_list (map abs (map (\<lambda>_. p) ?ps))" using assms(3) by (simp add: sum_list_triv comp_def)
  finally have "\<not> fst (price_complexity (map (\<lambda>cmd. with_price cmd p) cmds)) \<le> fst (price_complexity cmds)"
    unfolding price_complexity_def Let_def fst_conv new by simp
  with lex_less_fst [OF assms(4)] show False by simp
qed

lemma replace_at_prices:
  assumes "i < length cmds"
  shows "concat (map command_prices (replace_at cmds i cmd)) =
      concat (map command_prices (take i cmds)) @ command_prices cmd @ concat (map command_prices (drop (i + 1) cmds))"
  by (simp add: replace_at_def)

lemma price_at_reach:
  assumes "list_all representable cmds" and "i < length cmds" and "with_price (cmds ! i) p \<noteq> cmds ! i" and "1 \<le> p"
    and "price_complexity (replace_at cmds i (with_price (cmds ! i) p)) < price_complexity cmds"
  shows "p \<le> 2 ^ 63"
proof -
  have "command_prices (cmds ! i) \<noteq> []" using assms(3) with_price_no_price by blast
  then obtain q where q: "command_prices (cmds ! i) = [q]"
    by (cases "cmds ! i") (auto split: option.splits)
  have "cmds = replace_at cmds i (cmds ! i)" using assms(2) by (simp add: replace_at_def id_take_nth_drop)
  from arg_cong [OF this, of "\<lambda>c. concat (map command_prices c)"]
  have old: "concat (map command_prices cmds) =
      concat (map command_prices (take i cmds)) @ [q] @ concat (map command_prices (drop (i + 1) cmds))"
    using replace_at_prices [OF assms(2), of "cmds ! i"] q by simp
  from lex_less_fst [OF assms(5)] have "\<bar>p\<bar> \<le> \<bar>q\<bar>"
    unfolding price_complexity_def Let_def fst_conv old
    by (simp add: replace_at_prices [OF assms(2)] command_prices_with_price q)
  with abs_price_bound [OF representable_nth [OF assms(1,2)], of q] q show ?thesis by simp
qed

lemma global_price_ok:
  assumes "ev_inv s" and "good s cmds" and "\<forall>p \<in> set ps. 1 \<le> p \<and> (p \<le> I64_MAX \<or> p = 100 * tick)"
  shows "pass_ok s cmds (global_price ps cmds s)"
  using assms
proof (induction ps arbitrary: s)
  case (Cons p ps)
  let ?cand = "map (\<lambda>cmd. with_price cmd p) cmds"
  have rep: "list_all representable cmds" by (rule goodD(1) [OF Cons.prems(2)])
  show ?case
  proof (cases "?cand \<noteq> cmds \<and> price_complexity ?cand < price_complexity cmds")
    case True
    then have "p \<le> I64_MAX"
      using price_in_reach [of p tick] global_price_reach [OF rep] Cons.prems(3) by simp
    then have "list_all representable ?cand"
      using rep representable_with_price [of _ p] Cons.prems(3) by (auto simp: list_all_iff I64_MIN_def)
    then have "pass_ok s cmds (bindP (preserves ?cand) (\<lambda>ok. if ok then ret ?cand else global_price ps cmds) s)"
      using Cons goodD(2) by (intro accept_or_continue) auto
    with True show ?thesis by (simp add: Let_def)
  next
    case False
    then have "global_price (p # ps) cmds s = global_price ps cmds s" by (simp only: global_price.simps Let_def if_False)
    with Cons show ?thesis by simp
  qed
qed simp

lemma price_at_ok:
  assumes "ev_inv s" and "good s cmds" and "i < length cmds"
    and "\<forall>p \<in> set ps. 1 \<le> p \<and> (p \<le> I64_MAX \<or> p = 100 * tick)"
  shows "pass_ok s cmds (price_at ps i cmds s)"
  using assms
proof (induction ps arbitrary: s)
  case (Cons p ps)
  let ?cmd = "with_price (cmds ! i) p"
  let ?cand = "replace_at cmds i ?cmd"
  have rep: "list_all representable cmds" by (rule goodD(1) [OF Cons.prems(2)])
  show ?case
  proof (cases "?cmd \<noteq> cmds ! i \<and> price_complexity ?cand < price_complexity cmds")
    case True
    then have "p \<le> I64_MAX"
      using price_in_reach [of p tick] price_at_reach [OF rep Cons.prems(3)] Cons.prems(4) by simp
    then have "representable ?cmd"
      using representable_with_price [OF representable_nth [OF rep Cons.prems(3)], of p] Cons.prems(4) by (simp add: I64_MIN_def)
    then have "pass_ok s cmds (bindP (preserves ?cand) (\<lambda>ok. if ok then ret ?cand else price_at ps i cmds) s)"
      using Cons good_replace_at by (intro accept_or_continue) auto
    with True show ?thesis by (simp add: Let_def)
  qed (use Cons in \<open>auto simp: Let_def\<close>)
qed simp

lemma price_at_length: "price_at ps i cmds s = (Inr cmds', s') \<Longrightarrow> i < length cmds \<Longrightarrow> length cmds' = length cmds"
  by (induction ps arbitrary: s) (auto simp: Let_def elim!: try_keeps_length split: if_splits)

lemma simplify_prices_ok:
  assumes "context_ok ctx" and "ev_inv s" and "good s cmds"
  shows "pass_ok s cmds (simplify_prices ctx cmds s)"
  unfolding simplify_prices_def Let_def
proof -
  let ?ps = "price_candidates cmds (ctx_tick_increment ctx)"
  have ps: "\<forall>p \<in> set ?ps. 1 \<le> p \<and> (p \<le> I64_MAX \<or> p = 100 * ctx_tick_increment ctx)"
    using price_candidates_range [OF _ _ goodD(1) [OF assms(3)], of "ctx_tick_increment ctx"] assms(1)
    by (simp add: context_ok_def)
  show "pass_ok s cmds (bindP (global_price ?ps cmds) (\<lambda>current. each_index (price_at ?ps) [0..<length current] current) s)"
  proof (rule pass_ok_bind, rule global_price_ok [OF assms(2,3) ps])
    fix cmds1 s1 assume "same_frame s s1" "ev_inv s1" "good s1 cmds1"
    then show "pass_ok s1 cmds1 (each_index (price_at ?ps) [0..<length cmds1] cmds1 s1)"
      using ps by (intro each_index_ok) (auto intro!: bodyI price_at_ok dest: price_at_length)
  qed
qed

lemma quantity_candidates_range:
  assumes "context_ok ctx" and "q \<in> set (quantity_candidates cmds (ctx_max_quantity ctx))"
  shows "0 \<le> q \<and> q \<le> U64_MAX"
  using assms unfolding quantity_candidates_def Let_def unique_values_set context_ok_def
  by (auto split: if_splits)

lemma quantity_at_ok:
  assumes "ev_inv s" and "good s cmds" and "i < length cmds" and "\<forall>q \<in> set qs. 0 \<le> q \<and> q \<le> U64_MAX"
  shows "pass_ok s cmds (quantity_at qs i cmds s)"
  using assms
proof (induction qs arbitrary: s)
  case (Cons q qs)
  let ?cmd = "with_quantity (cmds ! i) q"
  let ?cand = "replace_at cmds i ?cmd"
  have "representable ?cmd"
    using representable_with_quantity [OF representable_nth [OF goodD(1) [OF Cons.prems(2)] Cons.prems(3)]] Cons.prems(4)
    by simp
  then have "pass_ok s cmds (bindP (preserves ?cand) (\<lambda>ok. if ok then ret ?cand else quantity_at qs i cmds) s)"
    using Cons good_replace_at by (intro accept_or_continue) auto
  with Cons show ?case by (simp add: Let_def)
qed simp

lemma quantity_at_length: "quantity_at qs i cmds s = (Inr cmds', s') \<Longrightarrow> i < length cmds \<Longrightarrow> length cmds' = length cmds"
  by (induction qs arbitrary: s) (auto simp: Let_def elim!: try_keeps_length split: if_splits)

lemma simplify_quantities_ok:
  assumes "context_ok ctx" and "ev_inv s" and "good s cmds"
  shows "pass_ok s cmds (simplify_quantities ctx cmds s)"
  unfolding simplify_quantities_def using assms quantity_candidates_range [OF assms(1)]
  by (intro each_index_ok) (auto intro!: bodyI quantity_at_ok dest: quantity_at_length)

section \<open>Identifier remapping\<close>

definition ids_ok :: "int \<Rightarrow> (int, int) dict \<Rightarrow> bool" where
  "ids_ok M ids \<longleftrightarrow> dict_ok ids \<and> set (map fst ids) \<subseteq> {1..M} \<and> map snd ids = map (\<lambda>i. int i + 1) [0..<length ids]"

lemma ids_ok_Nil [simp]: "ids_ok M []"
  by (simp add: ids_ok_def)

lemma ids_ok_length: "ids_ok M ids \<Longrightarrow> 0 \<le> M \<Longrightarrow> int (length ids) \<le> M"
proof -
  assume ok: "ids_ok M ids" "0 \<le> M"
  then have "card (set (map fst ids)) \<le> card {1..M}" unfolding ids_ok_def by (intro card_mono) auto
  then show ?thesis using ok distinct_card [of "map fst ids"] by (simp add: ids_ok_def)
qed

lemma ids_ok_value:
  assumes "ids_ok M ids" and "map_of ids v = Some k"
  shows "1 \<le> k \<and> k \<le> int (length ids)"
proof -
  have "k \<in> set (map snd ids)" using map_of_SomeD [OF assms(2)] by force
  then have "k \<in> set (map (\<lambda>i. int i + 1) [0..<length ids])" using assms(1) by (simp only: ids_ok_def)
  then show ?thesis by auto
qed

lemma ids_ok_inj:
  assumes "ids_ok M ids" and "map_of ids v = Some k" and "map_of ids w = Some k"
  shows "v = w"
proof -
  have "distinct (map snd ids)" using assms(1) by (simp add: ids_ok_def distinct_map inj_on_def)
  moreover have "(v, k) \<in> set ids" "(w, k) \<in> set ids" using assms(2,3) by (simp_all add: map_of_SomeD)
  ultimately show ?thesis by (metis distinct_map inj_on_def prod.inject snd_conv)
qed

lemma setitem_appends: "map_of d k = None \<Longrightarrow> dict_setitem k v d = d @ [(k, v)]"
  by (induction d) (auto simp: dict_setitem_def split: if_splits)

definition id_of :: "(int, int) dict \<Rightarrow> int \<Rightarrow> int" where
  "id_of ids v = (if v = 0 then 0 else case map_of ids v of Some k \<Rightarrow> k | None \<Rightarrow> v)"

lemma assign_id_spec:
  assumes ok: "ids_ok M ids" and v: "0 \<le> v" "v \<le> M" and out: "assign_id ids v = (k, ids')"
  shows "ids_ok M ids'" and "map_of ids \<subseteq>\<^sub>m map_of ids'" and "k = id_of ids' v"
    and "dom (map_of ids') = dom (map_of ids) \<union> ({v} - {0})"
proof -
  consider (zero) "v = 0" "k = 0" "ids' = ids" | (old) "v \<noteq> 0" "map_of ids v = Some k" "ids' = ids"
    | (new) "v \<noteq> 0" "map_of ids v = None" "k = int (length ids) + 1" "ids' = ids @ [(v, k)]"
    using out by (auto simp: assign_id_def setitem_appends split: if_splits option.splits)
  then have "ids_ok M ids' \<and> map_of ids \<subseteq>\<^sub>m map_of ids' \<and> k = id_of ids' v \<and>
    dom (map_of ids') = dom (map_of ids) \<union> ({v} - {0})"
  proof cases
    case new
    then have "v \<notin> set (map fst ids)" by (simp add: map_of_eq_None_iff)
    with new ok v have "ids_ok M ids'" by (auto simp: ids_ok_def)
    moreover have "map_of ids' = (map_of ids)(v \<mapsto> k)"
      using new by (auto simp: map_of_append fun_eq_iff map_add_def split: option.splits)
    ultimately show ?thesis using new by (auto simp: id_of_def map_le_def)
  qed (use ok in \<open>auto simp: id_of_def\<close>)
  then show "ids_ok M ids'" "map_of ids \<subseteq>\<^sub>m map_of ids'" "k = id_of ids' v"
    "dom (map_of ids') = dom (map_of ids) \<union> ({v} - {0})" by simp_all
qed

lemma id_of_extends: "map_of ids \<subseteq>\<^sub>m map_of ids' \<Longrightarrow> v = 0 \<or> v \<in> dom (map_of ids) \<Longrightarrow> id_of ids' v = id_of ids v"
  by (auto simp: id_of_def map_le_def dom_def split: option.splits)

lemma id_of_range: "ids_ok M ids \<Longrightarrow> v = 0 \<or> v \<in> dom (map_of ids) \<Longrightarrow> 0 \<le> M \<Longrightarrow> 0 \<le> id_of ids v \<and> id_of ids v \<le> M"
  using ids_ok_value [of M ids v] ids_ok_length [of M ids] by (auto simp: id_of_def split: option.splits)

lemma id_of_inj:
  assumes "ids_ok M ids"
  shows "inj_on (id_of ids) (insert 0 (dom (map_of ids)))"
proof (rule inj_onI)
  have key: "1 \<le> k \<and> v \<noteq> 0" if "map_of ids v = Some k" for v k
    using ids_ok_value [OF assms that] map_of_SomeD [OF that] assms by (force simp: ids_ok_def)
  fix v w assume "v \<in> insert 0 (dom (map_of ids))" "w \<in> insert 0 (dom (map_of ids))" and eq: "id_of ids v = id_of ids w"
  then consider "v = 0" "w = 0" | k where "v = 0" "map_of ids w = Some k" | k where "map_of ids v = Some k" "w = 0"
    | k l where "map_of ids v = Some k" "map_of ids w = Some l" by auto
  then show "v = w"
  proof cases
    case (4 k l)
    with eq key have "k = l" by (auto simp: id_of_def)
    with 4 ids_ok_inj [OF assms] show ?thesis by blast
  qed (use eq key in \<open>fastforce simp: id_of_def\<close>)+
qed

lemma id_of_image:
  assumes "ids_ok M ids"
  shows "id_of ids ` dom (map_of ids) = {1..int (card (dom (map_of ids)))}"
proof -
  have keys: "0 \<notin> dom (map_of ids)" "dict_ok ids" using assms by (auto simp: ids_ok_def dom_map_of_conv_image_fst)
  have "id_of ids ` dom (map_of ids) = set (map snd ids)"
  proof -
    have "id_of ids k = v" if "(k, v) \<in> set ids" for k v
      using that map_of_in_dict [OF keys(2)] keys(1) by (auto simp: id_of_def)
    then show ?thesis by (force simp: dom_map_of_conv_image_fst)
  qed
  also have "\<dots> = (\<lambda>i. int i + 1) ` {0..<length ids}" using assms by (simp add: ids_ok_def flip: set_map) (simp add: ids_ok_def)
  also have "\<dots> = {1..int (length ids)}"
  proof (intro equalityI subsetI)
    fix x assume "x \<in> {1..int (length ids)}"
    then show "x \<in> (\<lambda>i. int i + 1) ` {0..<length ids}" by (intro image_eqI [of _ _ "nat (x - 1)"]) auto
  qed auto
  finally show ?thesis using length_dict_card [OF keys(2)] by simp
qed

text \<open>What remapping is meant to be: a renaming of clients and orders.\<close>

fun command_order_ids :: "command \<Rightarrow> int list" where
  "command_order_ids (NewOrder c) = [new_order_id c]"
| "command_order_ids (CancelOrder c) = [cancel_order_id c]"
| "command_order_ids (ReplaceOrder c) = [rep_old_order_id c, rep_new_order_id c]"

fun command_client_id :: "command \<Rightarrow> int" where
  "command_client_id (NewOrder c) = new_client_id c"
| "command_client_id (CancelOrder c) = cancel_client_id c"
| "command_client_id (ReplaceOrder c) = rep_client_id c"

fun rename_command :: "(int \<Rightarrow> int) \<Rightarrow> (int \<Rightarrow> int) \<Rightarrow> int \<Rightarrow> command \<Rightarrow> command" where
  "rename_command f g routed (NewOrder c) = NewOrder (c\<lparr>new_client_id := g (new_client_id c),
     new_order_id := f (new_order_id c), new_instrument_id := remap_instrument routed (new_instrument_id c)\<rparr>)"
| "rename_command f g routed (CancelOrder c) = CancelOrder (c\<lparr>cancel_client_id := g (cancel_client_id c),
     cancel_order_id := f (cancel_order_id c), cancel_instrument_id := remap_instrument routed (cancel_instrument_id c)\<rparr>)"
| "rename_command f g routed (ReplaceOrder c) = ReplaceOrder (c\<lparr>rep_client_id := g (rep_client_id c),
     rep_old_order_id := f (rep_old_order_id c), rep_new_order_id := f (rep_new_order_id c),
     rep_instrument_id := remap_instrument routed (rep_instrument_id c)\<rparr>)"

definition ids_in_range :: "command \<Rightarrow> bool" where
  "ids_in_range cmd \<longleftrightarrow> 0 \<le> command_client_id cmd \<and> command_client_id cmd \<le> U32_MAX \<and>
     (\<forall>i \<in> set (command_order_ids cmd). 0 \<le> i \<and> i \<le> U64_MAX)"

lemma representable_ids: "representable cmd \<Longrightarrow> ids_in_range cmd"
  by (cases cmd) (auto simp: ids_in_range_def bindR_Inr_iff)

lemma rename_cong:
  "(\<forall>i \<in> set (command_order_ids cmd). f' i = f i) \<Longrightarrow> g' (command_client_id cmd) = g (command_client_id cmd) \<Longrightarrow>
   rename_command f' g' routed cmd = rename_command f g routed cmd"
  by (cases cmd) simp_all

lemma remap_command_spec:
  assumes "ids_in_range cmd" and "ids_ok U64_MAX orders" "ids_ok U32_MAX clients"
    and "remap_command routed (orders, clients) cmd = (cmd', orders', clients')"
  shows "ids_ok U64_MAX orders'" "ids_ok U32_MAX clients'"
    "map_of orders \<subseteq>\<^sub>m map_of orders'" "map_of clients \<subseteq>\<^sub>m map_of clients'"
    "dom (map_of orders') = dom (map_of orders) \<union> (set (command_order_ids cmd) - {0})"
    "dom (map_of clients') = dom (map_of clients) \<union> ({command_client_id cmd} - {0})"
    "cmd' = rename_command (id_of orders') (id_of clients') routed cmd"
proof -
  obtain k ck where client: "assign_id clients (command_client_id cmd) = (k, ck)" by fastforce
  have cr: "0 \<le> command_client_id cmd" "command_client_id cmd \<le> U32_MAX" using assms(1) by (simp_all add: ids_in_range_def)
  note c = assign_id_spec [OF assms(3) cr client]
  have "ids_ok U64_MAX orders' \<and> map_of orders \<subseteq>\<^sub>m map_of orders' \<and>
      dom (map_of orders') = dom (map_of orders) \<union> (set (command_order_ids cmd) - {0}) \<and> clients' = ck \<and>
      cmd' = rename_command (id_of orders') (id_of clients') routed cmd"
  proof (cases cmd)
    case (ReplaceOrder x)
    obtain i o1 where a1: "assign_id orders (rep_old_order_id x) = (i, o1)" by fastforce
    obtain j o2 where a2: "assign_id o1 (rep_new_order_id x) = (j, o2)" by fastforce
    have r: "0 \<le> rep_old_order_id x" "rep_old_order_id x \<le> U64_MAX" "0 \<le> rep_new_order_id x" "rep_new_order_id x \<le> U64_MAX"
      using assms(1) ReplaceOrder by (simp_all add: ids_in_range_def)
    note s1 = assign_id_spec [OF assms(2) r(1,2) a1]
    note s2 = assign_id_spec [OF s1(1) r(3,4) a2]
    have "i = id_of o2 (rep_old_order_id x)" using s1(3,4) id_of_extends [OF s2(2), of "rep_old_order_id x"]
      by (cases "rep_old_order_id x = 0") auto
    with assms(4) ReplaceOrder client a1 a2 s1 s2 c map_le_trans show ?thesis by auto
  next
    case (NewOrder x)
    obtain i o1 where a1: "assign_id orders (new_order_id x) = (i, o1)" by fastforce
    have r: "0 \<le> new_order_id x" "new_order_id x \<le> U64_MAX" using assms(1) NewOrder by (simp_all add: ids_in_range_def)
    from assign_id_spec [OF assms(2) r a1] assms(4) NewOrder client a1 c show ?thesis by auto
  next
    case (CancelOrder x)
    obtain i o1 where a1: "assign_id orders (cancel_order_id x) = (i, o1)" by fastforce
    have r: "0 \<le> cancel_order_id x" "cancel_order_id x \<le> U64_MAX" using assms(1) CancelOrder by (simp_all add: ids_in_range_def)
    from assign_id_spec [OF assms(2) r a1] assms(4) CancelOrder client a1 c show ?thesis by auto
  qed
  with c show "ids_ok U64_MAX orders'" "ids_ok U32_MAX clients'"
    "map_of orders \<subseteq>\<^sub>m map_of orders'" "map_of clients \<subseteq>\<^sub>m map_of clients'"
    "dom (map_of orders') = dom (map_of orders) \<union> (set (command_order_ids cmd) - {0})"
    "dom (map_of clients') = dom (map_of clients) \<union> ({command_client_id cmd} - {0})"
    "cmd' = rename_command (id_of orders') (id_of clients') routed cmd" by simp_all
qed

lemma remap_commands_spec:
  assumes "\<forall>cmd \<in> set cmds. ids_in_range cmd" and "ids_ok U64_MAX orders" and "ids_ok U32_MAX clients"
  shows "\<exists>orders' clients'. ids_ok U64_MAX orders' \<and> ids_ok U32_MAX clients' \<and>
    map_of orders \<subseteq>\<^sub>m map_of orders' \<and> map_of clients \<subseteq>\<^sub>m map_of clients' \<and>
    dom (map_of orders') = dom (map_of orders) \<union> (set (concat (map command_order_ids cmds)) - {0}) \<and>
    dom (map_of clients') = dom (map_of clients) \<union> (set (map command_client_id cmds) - {0}) \<and>
    remap_commands routed (orders, clients) cmds = map (rename_command (id_of orders') (id_of clients') routed) cmds"
  using assms
proof (induction cmds arbitrary: orders clients)
  case Nil
  then show ?case by (intro exI [of _ orders] exI [of _ clients]) simp
next
  case (Cons cmd cmds)
  obtain cmd' o1 c1 where r: "remap_command routed (orders, clients) cmd = (cmd', o1, c1)" by (metis prod_cases3)
  have "ids_in_range cmd" using Cons.prems(1) by simp
  note s = remap_command_spec [OF this Cons.prems(2,3) r]
  from Cons.IH [OF _ s(1,2)] Cons.prems(1) obtain o2 c2 where t: "ids_ok U64_MAX o2" "ids_ok U32_MAX c2"
    "map_of o1 \<subseteq>\<^sub>m map_of o2" "map_of c1 \<subseteq>\<^sub>m map_of c2"
    "dom (map_of o2) = dom (map_of o1) \<union> (set (concat (map command_order_ids cmds)) - {0})"
    "dom (map_of c2) = dom (map_of c1) \<union> (set (map command_client_id cmds) - {0})"
    "remap_commands routed (o1, c1) cmds = map (rename_command (id_of o2) (id_of c2) routed) cmds" by auto
  have "cmd' = rename_command (id_of o2) (id_of c2) routed cmd"
    unfolding s(7)
  proof (rule rename_cong)
    show "\<forall>i \<in> set (command_order_ids cmd). id_of o1 i = id_of o2 i"
    proof
      fix i assume "i \<in> set (command_order_ids cmd)"
      then show "id_of o1 i = id_of o2 i" using s(5) id_of_extends [OF t(3), of i] by (cases "i = 0") auto
    qed
    show "id_of c1 (command_client_id cmd) = id_of c2 (command_client_id cmd)"
      using s(6) id_of_extends [OF t(4), of "command_client_id cmd"] by (cases "command_client_id cmd = 0") auto
  qed
  moreover have "map_of orders \<subseteq>\<^sub>m map_of o2" "map_of clients \<subseteq>\<^sub>m map_of c2"
    using map_le_trans [OF s(3) t(3)] map_le_trans [OF s(4) t(4)] by simp_all
  moreover have "dom (map_of o2) = dom (map_of orders) \<union> (set (concat (map command_order_ids (cmd # cmds))) - {0})"
    "dom (map_of c2) = dom (map_of clients) \<union> (set (map command_client_id (cmd # cmds)) - {0})"
    using t(5,6) s(5,6) by auto
  ultimately show ?case using t r by (intro exI [of _ o2] exI [of _ c2]) simp
qed

lemma representable_rename:
  assumes "representable cmd" and "1 \<le> routed" "routed \<le> U32_MAX"
    and "\<forall>i \<in> set (command_order_ids cmd). 0 \<le> f i \<and> f i \<le> U64_MAX"
    and "0 \<le> g (command_client_id cmd)" "g (command_client_id cmd) \<le> U32_MAX"
  shows "representable (rename_command f g routed cmd)"
  using assms by (cases cmd) (auto simp: bindR_Inr_iff remap_instrument_def)

lemma remap_representable:
  assumes "list_all representable cmds" and "1 \<le> routed" "routed \<le> U32_MAX"
  shows "list_all representable (remap_identifiers cmds routed)"
proof -
  have ids: "\<forall>cmd \<in> set cmds. ids_in_range cmd" using assms(1) representable_ids by (auto simp: list_all_iff)
  from remap_commands_spec [OF ids ids_ok_Nil ids_ok_Nil, of routed] obtain os cs where
    r: "ids_ok U64_MAX os" "ids_ok U32_MAX cs"
      "dom (map_of os) = set (concat (map command_order_ids cmds)) - {0}"
      "dom (map_of cs) = set (map command_client_id cmds) - {0}"
      "remap_commands routed ([], []) cmds = map (rename_command (id_of os) (id_of cs) routed) cmds" by auto
  have "representable (rename_command (id_of os) (id_of cs) routed cmd)" if cmd: "cmd \<in> set cmds" for cmd
  proof (rule representable_rename)
    show "representable cmd" using assms(1) cmd by (auto simp: list_all_iff)
    show "\<forall>i \<in> set (command_order_ids cmd). 0 \<le> id_of os i \<and> id_of os i \<le> U64_MAX"
      using id_of_range [OF r(1)] r(3) cmd by (auto simp: U64_MAX_def)
    show "0 \<le> id_of cs (command_client_id cmd)" "id_of cs (command_client_id cmd) \<le> U32_MAX"
      using id_of_range [OF r(2), of "command_client_id cmd"] r(4) cmd by (auto simp: U32_MAX_def)
  qed (use assms in simp_all)
  then show ?thesis unfolding remap_identifiers_def r(5) by (simp add: list_all_iff)
qed

lemma remap_commands_length [simp]: "length (remap_commands routed ids cmds) = length cmds"
  by (induction cmds arbitrary: ids) (auto split: prod.splits)

lemma remap_length [simp]: "length (remap_identifiers cmds routed) = length cmds"
  by (simp add: remap_identifiers_def)

lemma remap_stage_ok:
  assumes "context_ok ctx" and "ev_inv s" and "good s cmds"
  shows "pass_ok s cmds (remap_stage ctx cmds s)"
proof (cases "remap_identifiers cmds (routed_instrument ctx) = cmds")
  case True
  with assms show ?thesis by (simp add: remap_stage_def)
next
  case False
  let ?cand = "remap_identifiers cmds (routed_instrument ctx)"
  have "?cand \<noteq> []" using goodD(2) [OF assms(3)] remap_length by (metis length_0_conv)
  moreover have "list_all representable ?cand"
    using remap_representable [OF goodD(1) [OF assms(3)]] assms(1) by (simp add: context_ok_def)
  ultimately have "pass_ok s cmds (bindP (preserves ?cand) (\<lambda>ok. ret (if ok then ?cand else cmds)) s)"
    by (intro try_candidate [OF assms(2,3)]) (auto simp: pass_ok_def)
  with False show ?thesis by (simp add: remap_stage_def Let_def)
qed

section \<open>The whole reduction\<close>

lemma run_steps_ok:
  assumes "\<forall>(stage, name) \<in> set steps. reduction_pass stage" and "ev_inv s" and "good s cmds"
  shows "quiet_outcome s (run_post s cmds completed steps) (run_steps steps cmds completed s)"
  using assms
proof (induction steps arbitrary: cmds completed s)
  case (Cons step steps)
  obtain stage name where step: "step = (stage, name)" by fastforce
  with Cons.prems(1) have "reduction_pass stage" by simp
  from reduction_pass.step_then [OF this Cons.prems(2,3), where name = name] Cons.IH Cons.prems(1)
  show ?case by (simp add: step)
qed (simp add: run_post_def)

lemma run_steps_no_budget: "run_steps steps cmds completed s \<noteq> (Inl BudgetExhausted, s2)"
  by (induction steps cmds completed s rule: run_steps.induct) (auto split: prod.splits sum.splits)

lemma context_passes:
  assumes "context_ok ctx"
  shows "reduction_pass (remap_stage ctx)" and "reduction_pass (simplify_prices ctx)" and "reduction_pass (simplify_quantities ctx)"
  by (unfold_locales; simp add: assms remap_stage_ok simplify_prices_ok simplify_quantities_ok)+

lemma shrink_steps_ok: "context_ok ctx \<Longrightarrow> \<forall>(stage, name) \<in> set (shrink_steps ctx). reduction_pass stage"
  using chunk_pass.reduction_pass_axioms individual_pass.reduction_pass_axioms command_pass.reduction_pass_axioms
    normal_pass.reduction_pass_axioms context_passes [of ctx]
  by (simp add: shrink_steps_def)

definition stage_names :: "string list" where
  "stage_names = [''chunk_deletion'', ''individual_deletion'', ''identifier_remap'', ''price_reduction'',
     ''quantity_reduction'', ''command_simplification'', ''side_tif_normalization'', ''final_field_reduction'',
     ''final_deletion'']"

lemma shrink_steps_names: "concat (map snd (shrink_steps ctx)) = stage_names"
  by (simp add: shrink_steps_def stage_names_def)

lemma start_ok:
  fixes evaluator :: "command list \<Rightarrow> rat option \<Rightarrow> 'sig option result"
  assumes "1 \<le> max_evaluations budget"
    and "s = CandidateEvaluator evaluator signature budget sha256 clock n"
  shows "ev_inv s" "ce_evaluator s = evaluator" "ce_signature s = signature" "ce_sha256 s = sha256" "ce_budget s = budget"
  using assms by (simp_all add: CandidateEvaluator_def ev_inv_def Let_def split: option.splits)

lemma start_cache: "s = CandidateEvaluator evaluator signature budget sha256 clock n \<Longrightarrow> ce_cache s = []"
  by (simp add: CandidateEvaluator_def Let_def split: option.splits)

lemma start_asked:
  "s = CandidateEvaluator evaluator signature budget sha256 clock n \<Longrightarrow> asked s = askable (timeout_seconds budget \<noteq> None)"
  by (simp add: CandidateEvaluator_def Let_def asked_def split: option.splits)

text \<open>What a report says, given the final state of the evaluator.\<close>

lemma shrink_report_returns:
  "\<exists>r. fst (shrink_report original signature budget started (current, completed, exhausted) s) = Inr r \<and>
     sr_commands r = current \<and> sr_completed_stages r = completed \<and> sr_budget_exhausted r = exhausted \<and>
     sr_evaluations r = ce_evaluations s"
  by (simp add: shrink_report_def bindP_def getsP_def monotonic_def)

text \<open>
  What the two reducers of the repository share: the original is checked first, then the stages run, and a
  report is made of what they left.
\<close>

definition reduction ::
  "(string \<Rightarrow> string) \<Rightarrow> (nat \<Rightarrow> rat) \<Rightarrow> command list \<Rightarrow> (command list \<Rightarrow> rat option \<Rightarrow> 'sig option result) \<Rightarrow> 'sig \<Rightarrow>
   ((command list \<Rightarrow> ('sig candidate_evaluator, command list) prog) \<times> string list) list \<Rightarrow> shrink_budget \<Rightarrow> 'sig shrink_result result" where
  "reduction sha256 clock original evaluator signature steps budget =
     (case preserves original (CandidateEvaluator evaluator signature budget sha256 clock 1) of
        (Inl e, s1) \<Rightarrow>
          if e = BudgetExhausted then fst (shrink_report original signature budget (clock 0) (original, [], True) s1) else Inl e
      | (Inr b, s1) \<Rightarrow>
          if b
          then (case run_steps steps original [] s1 of
                 (Inl e, s2) \<Rightarrow> Inl e
               | (Inr out, s2) \<Rightarrow> fst (shrink_report original signature budget (clock 0) out s2))
          else Inl ValueError)"

lemma shrink_failure_reduction:
  "original \<noteq> [] \<Longrightarrow> shrink_failure sha256 clock original evaluator signature ctx budget =
     reduction sha256 clock original evaluator signature (shrink_steps ctx) budget"
  unfolding shrink_failure_def reduction_def Let_def
  by (simp split: prod.splits sum.splits bool.splits)

lemma reduction_step:
  assumes "s = CandidateEvaluator evaluator signature budget sha256 clock 1" and "preserves original s = (a, s1)"
  shows "reduction sha256 clock original evaluator signature steps budget = (case a of
      Inl e \<Rightarrow> if e = BudgetExhausted then fst (shrink_report original signature budget (clock 0) (original, [], True) s1) else Inl e
    | Inr b \<Rightarrow> if b
        then (case run_steps steps original [] s1 of
               (Inl e, s2) \<Rightarrow> Inl e
             | (Inr out, s2) \<Rightarrow> fst (shrink_report original signature budget (clock 0) out s2))
        else Inl ValueError)"
  using assms by (simp add: reduction_def split: sum.splits)

lemma reduction_cases:
  fixes evaluator :: "command list \<Rightarrow> rat option \<Rightarrow> 'sig option result"
  assumes "original \<noteq> []" and "list_all representable original" and "\<forall>(stage, name) \<in> set steps. reduction_pass stage" and "1 \<le> max_evaluations budget"
    and s_def: "s = CandidateEvaluator evaluator signature budget sha256 clock 1"
  obtains (start) e where "reduction sha256 clock original evaluator signature steps budget = Inl e" "benign s e" "e \<noteq> BudgetExhausted"
  | (spent) r where "reduction sha256 clock original evaluator signature steps budget = Inr r"
      "sr_commands r = original" "sr_completed_stages r = []" "sr_budget_exhausted r"
      "0 \<le> sr_evaluations r" "sr_evaluations r \<le> max_evaluations budget"
  | (refuted) rem answer where "reduction sha256 clock original evaluator signature steps budget = Inl ValueError"
      "asked s original rem" "evaluator original rem = Inr answer" "answer \<noteq> Some signature"
  | (reduced) r where "reduction sha256 clock original evaluator signature steps budget = Inr r"
      "good s (sr_commands r)" "length (sr_commands r) \<le> length original"
      "0 \<le> sr_evaluations r" "sr_evaluations r \<le> max_evaluations budget"
      "sr_budget_exhausted r \<or> sr_completed_stages r = concat (map snd steps)"
proof -
  note st = start_ok [OF assms(4) s_def]
  have bound: "0 \<le> ce_evaluations s1 \<and> ce_evaluations s1 \<le> max_evaluations budget" if "same_frame s s1" "ev_inv s1" for s1
    using that st(5) by (simp add: ev_inv_def same_frame_def)
  obtain a s1 where out: "preserves original s = (a, s1)" by fastforce
  have q: "quiet_outcome s (answers s original) (a, s1)" using preserves_answers [OF st(1) assms(2,1)] out by simp
  note unfold = reduction_step [OF s_def out]
  show thesis
  proof (cases a)
    case (Inl e)
    with q have e: "benign s e" "same_frame s s1" "ev_inv s1" by simp_all
    show thesis
    proof (cases "e = BudgetExhausted")
      case True
      from shrink_report_returns [of original signature budget "clock 0" original "[]" True s1] obtain r where
        "fst (shrink_report original signature budget (clock 0) (original, [], True) s1) = Inr r"
        "sr_commands r = original" "sr_completed_stages r = []" "sr_budget_exhausted r" "sr_evaluations r = ce_evaluations s1" by auto
      with spent [of r] bound [OF e(2,3)] True Inl assms(1) show thesis by (simp add: unfold)
    qed (use start [of e] Inl assms(1) e(1) in \<open>simp add: unfold\<close>)
  next
    case (Inr b)
    show thesis
    proof (cases b)
      case False
      from preserves_fresh [OF start_cache [OF s_def] out [unfolded Inr] assms(1,2)] False st(2,3)
      obtain rem answer where "asked s original rem" "evaluator original rem = Inr answer" "answer \<noteq> Some signature" by auto
      with Inr False refuted [of rem answer] show thesis by (simp add: unfold)
    next
      case True
      with Inr q have g: "same_frame s s1" "ev_inv s1" and "good s original"
        using assms(1,2) by (simp_all add: good_def)
      then have g1: "good s1 original" by (simp add: same_frame_transfer)
      obtain res s2 where run: "run_steps steps original [] s1 = (res, s2)" by fastforce
      have rq: "quiet_outcome s1 (\<lambda>(cmds', completed', exhausted). good s1 cmds' \<and> length cmds' \<le> length original \<and>
          (exhausted \<or> completed' = concat (map snd steps))) (res, s2)"
        using run_steps_ok [OF assms(3) g(2) g1, of "[]"] run by (simp add: run_post_def [abs_def])
      show thesis
      proof (cases res)
        case (Inl e)
        have "e \<noteq> BudgetExhausted" using run Inl run_steps_no_budget by blast
        with start [of e] Inl rq Inr True assms(1) run g(1) show thesis by (simp add: unfold same_frame_transfer)
      next
        case (Inr o3)
        obtain c comp ex where o3: "o3 = (c, comp, ex)" by (metis prod_cases3)
        from shrink_report_returns [of original signature budget "clock 0" c comp ex s2] obtain r where
          r: "fst (shrink_report original signature budget (clock 0) (c, comp, ex) s2) = Inr r" "sr_commands r = c"
            "sr_completed_stages r = comp" "sr_budget_exhausted r = ex" "sr_evaluations r = ce_evaluations s2" by auto
        have f2: "same_frame s s2" "ev_inv s2" using rq Inr g(1) by (auto intro: same_frame_trans)
        with reduced [of r] r bound [OF f2] rq Inr o3 run \<open>a = Inr b\<close> True assms(1) g(1) show thesis
          by (simp add: unfold same_frame_transfer)
      qed
    qed
  qed
qed

text \<open>A relation that every stage keeps holds between what is reported and the original.\<close>

lemma run_steps_related:
  assumes "reflp R" and "transp R"
    and "\<forall>(stage, name) \<in> set steps. \<forall>c s c' s'. stage c s = (Inr c', s') \<longrightarrow> R c' c"
    and "run_steps steps cmds completed s = (Inr (c, names, ex), s')"
  shows "R c cmds"
  using assms(3,4)
proof (induction steps cmds completed s rule: run_steps.induct)
  case (2 stage name steps current completed s)
  show ?case
  proof (cases "stage current s")
    case (Pair r s1)
    show ?thesis
    proof (cases r)
      case (Inr c1)
      have "R c c1" using 2(1) [OF Pair [symmetric] Inr] 2(2,3) Pair Inr by simp
      moreover have "R c1 current" using 2(2) Pair Inr by auto
      ultimately show ?thesis by (rule transpD [OF assms(2)])
    qed (use 2(3) Pair reflpD [OF assms(1)] in \<open>auto split: if_splits\<close>)
  qed
qed (simp add: reflpD [OF assms(1)])

lemma reduction_related:
  assumes "reflp R" and "transp R"
    and "\<forall>(stage, name) \<in> set steps. \<forall>c s c' s'. stage c s = (Inr c', s') \<longrightarrow> R c' c"
    and "reduction sha256 clock original evaluator signature steps budget = Inr r"
  shows "R (sr_commands r) original"
proof -
  have report: "sr_commands r = c" if "fst (shrink_report original signature budget t (c, names, ex) s) = Inr r" for t c names ex s
    using that shrink_report_returns [of original signature budget t c names ex s] by auto
  from assms(4) consider s where "fst (shrink_report original signature budget (clock 0) (original, [], True) s) = Inr r"
    | s c names ex s' where "run_steps steps original [] s = (Inr (c, names, ex), s')"
        "fst (shrink_report original signature budget (clock 0) (c, names, ex) s') = Inr r"
    by (auto simp: reduction_def split: prod.splits sum.splits if_splits)
  then show ?thesis
  proof cases
    case 1
    with report reflpD [OF assms(1)] show ?thesis by metis
  next
    case 2
    with run_steps_related [OF assms(1-3) 2(1)] report show ?thesis by metis
  qed
qed

section \<open>A stream of command lines determines its commands\<close>

lemma py_str_inject [simp]: "py_str i = py_str j \<longleftrightarrow> i = j"
  by (metis py_int_str)

lemma command_fields_inject: "command_fields c = command_fields d \<Longrightarrow> c = d"
  by (cases c; cases d) (auto intro!: new_order.equality cancel_order.equality replace_order.equality split: option.splits if_splits)

lemma stream_text_inject:
  assumes "stream_text cs = stream_text ds"
  shows "cs = ds"
proof -
  have plain: "\<forall>l \<in> set (map (\<lambda>cmd. join_fields (command_fields cmd)) cmds). list_all plain_char l" for cmds
    using join_fields_plain [OF command_fields_tokens] by simp
  have lines: "py_lines (stream_text cmds) = map (\<lambda>cmd. join_fields (command_fields cmd) @ [CHR 0x0A]) cmds" for cmds
    using py_lines_plain [OF plain [of cmds]] by (simp add: stream_text_def comp_def)
  have inj: "inj (\<lambda>cmd. join_fields (command_fields cmd) @ [CHR 0x0A])"
    by (rule injI) (metis append_same_eq command_fields_inject command_fields_tokens py_split_join)
  from arg_cong [OF assms, of py_lines] show ?thesis unfolding lines by (rule map_injective [OF _ inj])
qed

section \<open>What every reduction promises\<close>

lemma reduction_reproducer:
  assumes "original \<noteq> []" and "reduction sha256 clock original evaluator signature steps budget = Inr r"
    and "list_all representable original" and "\<forall>(stage, name) \<in> set steps. reduction_pass stage" and "1 \<le> max_evaluations budget"
  shows "sr_commands r \<noteq> [] \<and> list_all representable (sr_commands r) \<and> length (sr_commands r) \<le> length original \<and>
    0 \<le> sr_evaluations r \<and> sr_evaluations r \<le> max_evaluations budget \<and>
    (sr_budget_exhausted r \<or> sr_completed_stages r = concat (map snd steps)) \<and>
    ((\<exists>rem. evaluator (sr_commands r) rem = Inr (Some signature)) \<or>
     (\<exists>tried rem. askable (timeout_seconds budget \<noteq> None) tried rem \<and> evaluator tried rem = Inr (Some signature) \<and>
        stream_text tried \<noteq> stream_text (sr_commands r) \<and> sha256 (stream_text tried) = sha256 (stream_text (sr_commands r))) \<or>
     sr_budget_exhausted r \<and> sr_commands r = original \<and> sr_completed_stages r = [])"
proof -
  define s where s: "s = CandidateEvaluator evaluator signature budget sha256 clock 1"
  from assms(1,3-5) s show ?thesis
  proof (cases rule: reduction_cases)
    case (reduced r')
    with assms(2) have r: "r' = r" by simp
    note st = start_ok [OF assms(5) s]
    from r reduced(2) obtain tried rem where t: "asked s tried rem" "key_of s tried = key_of s (sr_commands r)"
        "evaluator tried rem = Inr (Some signature)"
      unfolding good_def reproduces_def st(2,3) by blast
    have same: "sha256 (stream_text tried) = sha256 (stream_text (sr_commands r))" using t(2) by (simp add: key_of_def st(4))
    have asked: "askable (timeout_seconds budget \<noteq> None) tried rem" using t(1) by (simp add: start_asked [OF s])
    have "(\<exists>rem. evaluator (sr_commands r) rem = Inr (Some signature)) \<or>
       (\<exists>tried rem. askable (timeout_seconds budget \<noteq> None) tried rem \<and> evaluator tried rem = Inr (Some signature) \<and>
        stream_text tried \<noteq> stream_text (sr_commands r) \<and> sha256 (stream_text tried) = sha256 (stream_text (sr_commands r)))"
    proof (cases "stream_text tried = stream_text (sr_commands r)")
      case True
      then have "tried = sr_commands r" by (rule stream_text_inject)
      with t(3) show ?thesis by blast
    qed (use asked t(3) same in blast)
    with reduced r show ?thesis by (auto simp: good_def)
  qed (use assms in auto)
qed

lemma reduction_never_fails:
  assumes "original \<noteq> []" and "list_all representable original" and "\<forall>(stage, name) \<in> set steps. reduction_pass stage" and "1 \<le> max_evaluations budget"
    and "reduction sha256 clock original evaluator signature steps budget = Inl e"
  shows "e \<noteq> BudgetExhausted \<and>
    ((\<exists>cmds rem. askable (timeout_seconds budget \<noteq> None) cmds rem \<and> evaluator cmds rem = Inl e) \<or>
     e = ValueError \<and> (\<exists>rem answer. askable (timeout_seconds budget \<noteq> None) original rem \<and>
       evaluator original rem = Inr answer \<and> answer \<noteq> Some signature))"
proof -
  define s where s: "s = CandidateEvaluator evaluator signature budget sha256 clock 1"
  note st = start_ok [OF assms(4) s]
  from assms(1-4) s show ?thesis
  proof (cases rule: reduction_cases)
    case (start e')
    then show ?thesis using assms(5) st(2) by (auto simp: benign_def start_asked [OF s])
  next
    case (refuted rem answer)
    then show ?thesis using assms(5) by (auto simp: start_asked [OF s])
  qed (use assms(5) in simp_all)
qed

lemma reduction_untimed:
  assumes "list_all representable original" and "1 \<le> max_evaluations budget"
  shows "timeout_seconds budget = None \<Longrightarrow> evaluator original None = Inl e \<Longrightarrow> e \<noteq> BudgetExhausted \<Longrightarrow>
      reduction sha256 clock original evaluator signature steps budget = Inl e"
    and "timeout_seconds budget = None \<Longrightarrow> evaluator original None = Inr answer \<Longrightarrow> answer \<noteq> Some signature \<Longrightarrow>
      reduction sha256 clock original evaluator signature steps budget = Inl ValueError"
proof -
  have hash: "ce_deadline s = None \<Longrightarrow> list_all representable cs \<Longrightarrow> hash_commands cs acc s = (Inr (acc @ stream_text cs), s)"
    for cs acc and s :: "'b candidate_evaluator"
    by (induction cs arbitrary: acc)
      (simp_all add: stream_text_def remaining_time_def bindP_def seqP_def getsP_def encode_command_def liftP_def)
  note steps_of = preserves_def candidate_key_def hash evaluate_uncached_def remaining_time_def deadline_passed_def bindP_def seqP_def
    getsP_def modifyP_def CandidateEvaluator_def
  show "timeout_seconds budget = None \<Longrightarrow> evaluator original None = Inl e \<Longrightarrow> e \<noteq> BudgetExhausted \<Longrightarrow>
      reduction sha256 clock original evaluator signature steps budget = Inl e"
    using assms by (simp add: reduction_def steps_of)
  show "timeout_seconds budget = None \<Longrightarrow> evaluator original None = Inr answer \<Longrightarrow> answer \<noteq> Some signature \<Longrightarrow>
      reduction sha256 clock original evaluator signature steps budget = Inl ValueError"
    using assms by (simp add: reduction_def steps_of)
qed

section \<open>Properties\<close>

text \<open>
  C9.  What the reducer returns is a reproducer.  On representable commands, with a context and a budget their
  constructors accept, a result is a non-empty, representable sequence no longer than the original, the
  evaluation budget is respected, and unless the budget ran out all nine stages completed.  The sequence
  returned is one on which the caller's evaluator answers the signature, with two exceptions: the evaluator
  answered the signature on another sequence whose command stream has the same digest, a collision of the
  hash; or the budget ran out before the first stage ended, and the original is returned with no stage
  completed, possibly unverified.
\<close>

theorem shrink_returns_reproducer:
  assumes "shrink_failure sha256 clock original evaluator signature ctx budget = Inr r"
    and "list_all representable original" and "context_ok ctx" and "1 \<le> max_evaluations budget"
  shows "sr_commands r \<noteq> [] \<and> list_all representable (sr_commands r) \<and> length (sr_commands r) \<le> length original \<and>
    0 \<le> sr_evaluations r \<and> sr_evaluations r \<le> max_evaluations budget \<and>
    (sr_budget_exhausted r \<or> sr_completed_stages r = stage_names) \<and>
    ((\<exists>rem. evaluator (sr_commands r) rem = Inr (Some signature)) \<or>
     (\<exists>tried rem. askable (timeout_seconds budget \<noteq> None) tried rem \<and> evaluator tried rem = Inr (Some signature) \<and>
        stream_text tried \<noteq> stream_text (sr_commands r) \<and> sha256 (stream_text tried) = sha256 (stream_text (sr_commands r))) \<or>
     sr_budget_exhausted r \<and> sr_commands r = original \<and> sr_completed_stages r = [])"
proof -
  have ne: "original \<noteq> []" using assms(1) by (auto simp: shrink_failure_def)
  from reduction_reproducer [OF ne assms(1) [unfolded shrink_failure_reduction [OF ne]] assms(2) shrink_steps_ok [OF assms(3)] assms(4)]
  show ?thesis by (simp add: shrink_steps_names)
qed

definition demo_command :: "int \<Rightarrow> command" where
  "demo_command i = CancelOrder \<lparr>cancel_client_id = 1, cancel_order_id = i, cancel_instrument_id = 7\<rparr>"

definition demo_evaluator :: "command list \<Rightarrow> rat option \<Rightarrow> int option result" where
  "demo_evaluator cmds remaining = Inr (if list_ex (\<lambda>cmd. command_order_ids cmd = [3]) cmds then Some 1 else None)"

definition demo_context :: shrink_context where
  "demo_context = \<lparr>routed_instrument = 7, ctx_tick_increment = 1, ctx_max_quantity = 1000\<rparr>"

definition demo_run :: "int shrink_result result" where
  "demo_run = shrink_failure (\<lambda>t. t) (\<lambda>_. 0) (map demo_command [1, 2, 3, 4]) demo_evaluator 1 demo_context DEFAULT_BUDGET"

lemma demo_ok: "list_all representable (map demo_command [1, 2, 3, 4])" "context_ok demo_context"
    "1 \<le> max_evaluations DEFAULT_BUDGET"
  by (simp_all add: demo_command_def demo_context_def context_ok_def DEFAULT_BUDGET_def bindR_Inr_iff width_defs)

theorem shrink_returns_reproducer_witness:
  "\<exists>r. demo_run = Inr r \<and> sr_commands r = [demo_command 3] \<and> (\<exists>rem. demo_evaluator (sr_commands r) rem = Inr (Some 1))"
proof -
  have "(case demo_run of Inr r \<Rightarrow> sr_commands r = [demo_command 3] \<and> \<not> sr_budget_exhausted r | Inl _ \<Rightarrow> False)" by code_simp
  then obtain r where r: "demo_run = Inr r" "sr_commands r = [demo_command 3]" "\<not> sr_budget_exhausted r" by (auto split: sum.splits)
  from shrink_returns_reproducer [OF r(1) [unfolded demo_run_def] demo_ok] r(3)
  have "\<exists>rem. demo_evaluator (sr_commands r) rem = Inr (Some 1)" by blast
  with r show ?thesis by blast
qed

text \<open>
  C30.  The reducer raises only for a reason of its caller.  On representable commands, with a context and a
  budget their constructors accept, it returns a result for a non-empty sequence, and raises otherwise in
  three cases only: \<open>ValueError\<close> on the empty sequence, \<open>ValueError\<close> when the evaluator answered something
  other than the signature on the original sequence itself, and an error that the evaluator raises on some
  non-empty sequence of representable commands with a proper remaining time.  The exhaustion of the budget
  is never raised.  As this holds for every evaluator, one that never raises makes the reducer raise
  \<open>ValueError\<close> only, in the first two cases.  Without a time limit the first evaluation decides: what the evaluator raises on the
  original is raised, and a wrong answer on the original is a \<open>ValueError\<close>.
\<close>

theorem shrink_never_fails:
  assumes "list_all representable original" and "context_ok ctx" and "1 \<le> max_evaluations budget"
  shows "(case shrink_failure sha256 clock original evaluator signature ctx budget of
      Inr r \<Rightarrow> original \<noteq> []
    | Inl e \<Rightarrow> original = [] \<and> e = ValueError \<or>
        original \<noteq> [] \<and> e \<noteq> BudgetExhausted \<and>
        ((\<exists>cmds rem. askable (timeout_seconds budget \<noteq> None) cmds rem \<and> evaluator cmds rem = Inl e) \<or>
         e = ValueError \<and> (\<exists>rem answer. askable (timeout_seconds budget \<noteq> None) original rem \<and>
           evaluator original rem = Inr answer \<and> answer \<noteq> Some signature))) \<and>
    (timeout_seconds budget = None \<longrightarrow> original \<noteq> [] \<longrightarrow>
      (\<forall>e. evaluator original None = Inl e \<longrightarrow> e \<noteq> BudgetExhausted \<longrightarrow>
         shrink_failure sha256 clock original evaluator signature ctx budget = Inl e) \<and>
      (\<forall>answer. evaluator original None = Inr answer \<longrightarrow> answer \<noteq> Some signature \<longrightarrow>
         shrink_failure sha256 clock original evaluator signature ctx budget = Inl ValueError))"
proof (cases "original = []")
  case True
  then show ?thesis by (simp add: shrink_failure_def)
next
  case False
  note red = shrink_failure_reduction [OF False, of sha256 clock evaluator signature ctx budget]
  have raised: "e \<noteq> BudgetExhausted \<and>
      ((\<exists>cmds rem. askable (timeout_seconds budget \<noteq> None) cmds rem \<and> evaluator cmds rem = Inl e) \<or>
       e = ValueError \<and> (\<exists>rem answer. askable (timeout_seconds budget \<noteq> None) original rem \<and>
         evaluator original rem = Inr answer \<and> answer \<noteq> Some signature))"
    if "shrink_failure sha256 clock original evaluator signature ctx budget = Inl e" for e
    using reduction_never_fails [OF False assms(1) shrink_steps_ok [OF assms(2)] assms(3) that [unfolded red]] .
  show ?thesis
  proof (intro conjI impI allI)
    show "case shrink_failure sha256 clock original evaluator signature ctx budget of
        Inr r \<Rightarrow> original \<noteq> []
      | Inl e \<Rightarrow> original = [] \<and> e = ValueError \<or>
          original \<noteq> [] \<and> e \<noteq> BudgetExhausted \<and>
          ((\<exists>cmds rem. askable (timeout_seconds budget \<noteq> None) cmds rem \<and> evaluator cmds rem = Inl e) \<or>
           e = ValueError \<and> (\<exists>rem answer. askable (timeout_seconds budget \<noteq> None) original rem \<and>
             evaluator original rem = Inr answer \<and> answer \<noteq> Some signature))"
      using False raised by (auto split: sum.split)
  qed (simp_all add: red reduction_untimed [OF assms(1,3)])
qed

theorem shrink_never_fails_witness:
  "shrink_failure (\<lambda>t. t) (\<lambda>_. 0) (map demo_command [1, 2, 3, 4]) demo_evaluator 9 demo_context DEFAULT_BUDGET = Inl ValueError \<and>
   (\<exists>r. shrink_failure (\<lambda>t. t) (\<lambda>_. 0) (map demo_command [1, 2, 3, 4]) demo_evaluator 1 demo_context DEFAULT_BUDGET = Inr r)"
proof
  note p = shrink_never_fails [OF demo_ok, where ?sha256.0 = "\<lambda>t. t" and clock = "\<lambda>_. 0" and evaluator = demo_evaluator]
  show "shrink_failure (\<lambda>t. t) (\<lambda>_. 0) (map demo_command [1, 2, 3, 4]) demo_evaluator 9 demo_context DEFAULT_BUDGET = Inl ValueError"
    using p [of 9] by (simp add: DEFAULT_BUDGET_def demo_evaluator_def demo_command_def)
  show "\<exists>r. shrink_failure (\<lambda>t. t) (\<lambda>_. 0) (map demo_command [1, 2, 3, 4]) demo_evaluator 1 demo_context DEFAULT_BUDGET = Inr r"
    using p [of 1] by (simp add: demo_evaluator_def demo_command_def split: sum.splits)
qed

text \<open>
  C31.  Identifier remapping is a renaming: clients and orders are renamed by injective functions that fix
  zero and use the numbers from one on, and non-zero instruments become the routed one; nothing else of a
  command changes.
\<close>

theorem remap_is_renaming:
  assumes "list_all representable cmds"
  shows "\<exists>f g. f 0 = 0 \<and> g 0 = 0 \<and>
    inj_on f (insert 0 (set (concat (map command_order_ids cmds)))) \<and>
    inj_on g (insert 0 (set (map command_client_id cmds))) \<and>
    f ` (set (concat (map command_order_ids cmds)) - {0}) = {1..int (card (set (concat (map command_order_ids cmds)) - {0}))} \<and>
    g ` (set (map command_client_id cmds) - {0}) = {1..int (card (set (map command_client_id cmds) - {0}))} \<and>
    remap_identifiers cmds routed = map (rename_command f g routed) cmds"
proof -
  have ids: "\<forall>cmd \<in> set cmds. ids_in_range cmd" using assms representable_ids by (auto simp: list_all_iff)
  from remap_commands_spec [OF ids ids_ok_Nil ids_ok_Nil, of routed] obtain os cs where
    r: "ids_ok U64_MAX os" "ids_ok U32_MAX cs"
      "dom (map_of os) = set (concat (map command_order_ids cmds)) - {0}"
      "dom (map_of cs) = set (map command_client_id cmds) - {0}"
      "remap_commands routed ([], []) cmds = map (rename_command (id_of os) (id_of cs) routed) cmds" by auto
  have "insert 0 (A - {0}) = insert 0 A" for A :: "int set" by auto
  with id_of_inj [OF r(1)] id_of_inj [OF r(2)] id_of_image [OF r(1)] id_of_image [OF r(2)] r(3-5) show ?thesis
    by (intro exI [of _ "id_of os"] exI [of _ "id_of cs"]) (simp add: remap_identifiers_def id_of_def)
qed

theorem remap_is_renaming_witness:
  "remap_identifiers [demo_command 40, demo_command 30, demo_command 40] 7 =
     [demo_command 1, demo_command 2, demo_command 1] \<and>
   (\<exists>f g. inj_on f {0, 40, 30} \<and>
     remap_identifiers [demo_command 40, demo_command 30, demo_command 40] 7 =
       map (rename_command f g 7) [demo_command 40, demo_command 30, demo_command 40])"
proof -
  have "list_all representable [demo_command 40, demo_command 30, demo_command 40]"
    by (simp add: demo_command_def bindR_Inr_iff width_defs)
  from remap_is_renaming [OF this, of 7] obtain f g where "inj_on f {0, 40, 30}"
    "remap_identifiers [demo_command 40, demo_command 30, demo_command 40] 7 =
       map (rename_command f g 7) [demo_command 40, demo_command 30, demo_command 40]"
    by (auto simp: demo_command_def insert_commute)
  moreover have "remap_identifiers [demo_command 40, demo_command 30, demo_command 40] 7 =
     [demo_command 1, demo_command 2, demo_command 1]" by code_simp
  ultimately show ?thesis by blast
qed

section \<open>Two observations\<close>

text \<open>
  When the budget runs out inside a pass, the progress of that pass is lost: here the second evaluation
  accepted a sequence half as long, and the reported result is the original.
\<close>

lemma exhaustion_drops_progress:
  "(case shrink_failure (\<lambda>t. t) (\<lambda>_. 0) (map demo_command [1, 2, 3, 4]) demo_evaluator 1 demo_context
       \<lparr>max_evaluations = 2, timeout_seconds = None\<rparr> of
      Inr r \<Rightarrow> sr_commands r = map demo_command [1, 2, 3, 4] \<and> sr_budget_exhausted r \<and> sr_evaluations r = 2
    | Inl _ \<Rightarrow> False) \<and>
   demo_evaluator (map demo_command [3, 4]) None = Inr (Some 1)"
  by code_simp

text \<open>
  The second alternative of side and time-in-force normalization is built from the command as it was, so
  accepting it undoes an accepted change of side: a sell order stays a sell order although the evaluator
  accepts every candidate.
\<close>

definition demo_order :: new_order where
  "demo_order = \<lparr>new_client_id = 1, new_order_id = 3, new_instrument_id = 7, new_side = side_value SELL,
     new_order_type = order_type_value LIMIT, new_time_in_force = time_in_force_value IOC,
     new_limit_price = Some 100, new_quantity = 5\<rparr>"

lemma normalization_undoes_side:
  "fst (normalize_side_and_tif [NewOrder demo_order]
     (CandidateEvaluator demo_evaluator 1 DEFAULT_BUDGET (\<lambda>t. t) (\<lambda>_. 0) 0)) =
   Inr [NewOrder (demo_order\<lparr>new_time_in_force := time_in_force_value GTC\<rparr>)] \<and>
   fst (preserves [NewOrder (demo_order\<lparr>new_side := side_value BUY\<rparr>)]
     (CandidateEvaluator demo_evaluator 1 DEFAULT_BUDGET (\<lambda>t. t) (\<lambda>_. 0) 0)) = Inr True"
  by code_simp

end
