(* ===== verification/Split_Mix.thy ===== *)
theory Split_Mix
  imports Prelude "HOL-Library.Word"
begin

text \<open>
  The pseudo-random generator \<open>SplitMix64\<close> of \<open>python/src/atlaslob/generation.py\<close>.  Its state is a 64-bit
  word, where \<open>+\<close> and \<open>*\<close> wrap as the masked Python arithmetic does.  The rejection loop of \<open>randbelow\<close>
  always ends: the state runs through all words, and the word zero is accepted for every bound.
\<close>

unbundle bit_operations_syntax

section \<open>The generator\<close>

definition require_int :: "int \<Rightarrow> int \<Rightarrow> int \<Rightarrow> unit result" where
  "require_int v minimum maximum = (if \<not> (minimum \<le> v \<and> v \<le> maximum) then Inl ValueError else Inr ())"

definition SplitMix64 :: "int \<Rightarrow> 64 word result" where
  "SplitMix64 seed = bindR (require_int seed 0 (2 ^ 64 - 1)) (\<lambda>_. Inr (word_of_int seed))"

definition gamma :: "64 word" where
  "gamma = 0x9E3779B97F4A7C15"

definition mix :: "64 word \<Rightarrow> 64 word" where
  "mix s =
     (let v1 = (s XOR drop_bit 30 s) * 0xBF58476D1CE4E5B9;
          v2 = (v1 XOR drop_bit 27 v1) * 0x94D049BB133111EB in
      v2 XOR drop_bit 31 v2)"

definition next_u64 :: "64 word \<Rightarrow> int \<times> 64 word" where
  "next_u64 s = (let s' = s + gamma in (uint (mix s'), s'))"

definition draw_limit :: "int \<Rightarrow> int" where
  "draw_limit bound = 2 ^ 64 - 2 ^ 64 mod bound"

definition gamma_inverse :: "64 word" where
  "gamma_inverse = 0xF1DE83E19937733D"

lemma gamma_inverse: "gamma * gamma_inverse = 1"
  by (simp add: gamma_def gamma_inverse_def)

lemma mix_zero [simp]: "mix 0 = 0"
  by (simp add: mix_def)

lemma draw_limit_pos: "1 \<le> bound \<Longrightarrow> bound \<le> 2 ^ 64 \<Longrightarrow> 1 \<le> draw_limit bound"
  unfolding draw_limit_def using pos_mod_bound [of bound "2 ^ 64"] by linarith

text \<open>How many further draws it takes at most: until the state is zero.\<close>

definition draws_left :: "64 word \<Rightarrow> nat" where
  "draws_left s = unat (- (s + gamma) * gamma_inverse)"

lemma draws_left_decreases:
  assumes "s + gamma \<noteq> 0"
  shows "draws_left (s + gamma) < draws_left s"
proof -
  let ?w = "- (s + gamma) * gamma_inverse"
  have "?w * gamma = - (s + gamma)" using gamma_inverse by (simp add: mult.assoc mult.commute [of gamma_inverse])
  then have w: "?w \<noteq> 0" using assms by (metis mult_zero_left neg_equal_0_iff_equal)
  have "- (s + gamma + gamma) * gamma_inverse = ?w - 1"
    by (simp add: ring_distribs gamma_inverse mult.assoc)
  with w show ?thesis by (simp add: draws_left_def unat_minus_one unat_gt_0)
qed

function randbelow :: "int \<Rightarrow> 64 word \<Rightarrow> int result \<times> 64 word" where
  "randbelow bound s =
     (if \<not> (1 \<le> bound \<and> bound \<le> 2 ^ 64) then (Inl ValueError, s)
      else
        let (v, s') = next_u64 s in
        if v < draw_limit bound then (Inr (v mod bound), s') else randbelow bound s')"
  by pat_completeness auto

termination
proof (relation "measure (\<lambda>(bound, s). draws_left s)", goal_cases)
  case (2 bound s p v s')
  then have s': "s' = s + gamma" "v = uint (mix (s + gamma))" by (auto simp: next_u64_def Let_def)
  with 2 draw_limit_pos [of bound] have "s + gamma \<noteq> 0" by auto
  with s' show ?case by (simp add: draws_left_decreases)
qed simp

declare randbelow.simps [simp del]

definition chance :: "int \<Rightarrow> (64 word, bool) prog" where
  "chance basis_points =
     seqP (liftP (require_int basis_points 0 10000))
     (bindP (randbelow 10000) (\<lambda>v. ret (v < basis_points)))"

definition choose_value :: "int list \<Rightarrow> (64 word, int) prog" where
  "choose_value vs =
     (if vs = [] then raise ValueError else bindP (randbelow (int (length vs))) (\<lambda>i. ret (vs ! nat i)))"

section \<open>Draws\<close>

lemma randbelow_returns:
  assumes "1 \<le> bound" "bound \<le> 2 ^ 64"
  shows "\<exists>v s'. randbelow bound s = (Inr v, s') \<and> 0 \<le> v \<and> v < bound"
  using assms
proof (induction bound s rule: randbelow.induct)
  case (1 bound s)
  then show ?case by (subst randbelow.simps) (auto simp: next_u64_def Let_def)
qed

lemma chance_returns:
  assumes "0 \<le> bp" "bp \<le> 10000"
  shows "\<exists>b s'. chance bp s = (Inr b, s')"
proof -
  obtain v s' where "randbelow 10000 s = (Inr v, s')" using randbelow_returns [of 10000 s] by auto
  with assms show ?thesis by (simp add: chance_def require_int_def seqP_def bindP_def)
qed

lemma chance_certain: "chance 10000 s = (Inr b, s') \<Longrightarrow> b" and chance_never: "chance 0 s = (Inr b, s') \<Longrightarrow> \<not> b"
  using randbelow_returns [of 10000 s] by (auto simp: chance_def require_int_def seqP_def bindP_def)

lemma choose_value_returns:
  assumes "vs \<noteq> []" and "length vs \<le> 2 ^ 64"
  shows "\<exists>v s'. choose_value vs s = (Inr v, s') \<and> v \<in> set vs"
proof -
  have "1 \<le> int (length vs)" "int (length vs) \<le> 2 ^ 64" using assms by (cases vs; simp)+
  from randbelow_returns [OF this, of s] obtain i s' where
    i: "randbelow (int (length vs)) s = (Inr i, s')" "0 \<le> i" "i < int (length vs)" by auto
  then have "vs ! nat i \<in> set vs" by (intro nth_mem) linarith
  with i assms(1) show ?thesis by (simp add: choose_value_def bindP_def)
qed

section \<open>Uniformity\<close>

lemma xorshift_inj:
  fixes x y :: "64 word"
  assumes eq: "x XOR drop_bit k x = y XOR drop_bit k y" and "0 < k"
  shows "x = y"
proof (rule bit_eqI)
  have step: "(bit x n \<noteq> bit x (k + n)) = (bit y n \<noteq> bit y (k + n))" for n
    using arg_cong [OF eq, of "\<lambda>w. bit w n"] by (simp add: bit_xor_iff bit_drop_bit_eq)
  fix n
  show "bit x n = bit y n"
  proof (induction "64 - n" arbitrary: n rule: less_induct)
    case less
    show ?case
    proof (cases "64 \<le> n")
      case False
      with less [of "k + n"] \<open>0 < k\<close> step [of n] show ?thesis by auto
    qed (simp add: bit_word.rep_eq)
  qed
qed

lemma odd_mult_inj: "(c :: 64 word) * c' = 1 \<Longrightarrow> x * c = y * c \<Longrightarrow> x = y"
proof -
  assume inv: "c * c' = 1" and eq: "x * c = y * c"
  have "x * c * c' = y * c * c'" by (simp only: eq)
  then show ?thesis by (simp add: mult.assoc inv)
qed

lemma mix_inj: "inj mix"
proof (rule injI)
  fix x y assume eq: "mix x = mix y"
  let ?f = "\<lambda>k (v :: 64 word). v XOR drop_bit k v"
  have m: "mix s = ?f 31 (?f 27 (?f 30 s * 0xBF58476D1CE4E5B9) * 0x94D049BB133111EB)" for s
    by (simp add: mix_def Let_def)
  from eq have "?f 27 (?f 30 x * 0xBF58476D1CE4E5B9) * 0x94D049BB133111EB = ?f 27 (?f 30 y * 0xBF58476D1CE4E5B9) * 0x94D049BB133111EB"
    unfolding m by (rule xorshift_inj) simp
  then have "?f 27 (?f 30 x * 0xBF58476D1CE4E5B9) = ?f 27 (?f 30 y * 0xBF58476D1CE4E5B9)"
    by (rule odd_mult_inj [where c' = "0x319642B2D24D8EC3", rotated]) simp
  then have "?f 30 x * 0xBF58476D1CE4E5B9 = ?f 30 y * 0xBF58476D1CE4E5B9" by (rule xorshift_inj) simp
  then have "?f 30 x = ?f 30 y" by (rule odd_mult_inj [where c' = "0x96DE1B173F119089", rotated]) simp
  then show "x = y" by (rule xorshift_inj) simp
qed

lemma next_u64_bij: "bij_betw (\<lambda>s. fst (next_u64 s)) UNIV {0..<2 ^ 64}"
proof -
  have inj: "inj (\<lambda>s. fst (next_u64 s))"
  proof (rule injI)
    fix x y assume "fst (next_u64 x) = fst (next_u64 y)"
    then have "mix (x + gamma) = mix (y + gamma)" by (auto simp: next_u64_def Let_def intro: unsigned_word_eqI)
    from injD [OF mix_inj this] show "x = y" by simp
  qed
  have "(\<lambda>s. fst (next_u64 s)) ` UNIV \<subseteq> {0..<2 ^ 64}"
    using uint_bounded [where ?'a = 64] by (auto simp: next_u64_def Let_def)
  moreover have "card ((\<lambda>s. fst (next_u64 s)) ` UNIV) = card {0..<2 ^ 64 :: int}"
    using card_image [OF inj] by (simp add: card_word)
  ultimately have "(\<lambda>s. fst (next_u64 s)) ` UNIV = {0..<2 ^ 64}" by (intro card_subset_eq) simp_all
  with inj show ?thesis by (simp add: bij_betw_def)
qed

lemma residue_count:
  fixes b q r :: int
  assumes "0 < b" "0 \<le> q" "0 \<le> r" "r < b"
  shows "card {v. 0 \<le> v \<and> v < b * q \<and> v mod b = r} = nat q"
proof -
  have "{v. 0 \<le> v \<and> v < b * q \<and> v mod b = r} = (\<lambda>k. b * k + r) ` {0..<q}"
  proof (intro equalityI subsetI)
    fix v assume "v \<in> {v. 0 \<le> v \<and> v < b * q \<and> v mod b = r}"
    then have v: "0 \<le> v" "v < b * q" "v mod b = r" by simp_all
    have dm: "v = b * (v div b) + r" using v(3) by (simp flip: v(3))
    moreover have "0 \<le> v div b" using v(1) assms(1) by (simp add: pos_imp_zdiv_nonneg_iff)
    moreover have "v div b < q"
    proof (rule ccontr)
      assume "\<not> v div b < q"
      then have "b * q \<le> b * (v div b)" using assms(1) by (intro mult_left_mono) simp_all
      with dm v(2) assms(3) show False by linarith
    qed
    ultimately show "v \<in> (\<lambda>k. b * k + r) ` {0..<q}" by auto
  next
    fix v assume "v \<in> (\<lambda>k. b * k + r) ` {0..<q}"
    then obtain k where k: "v = b * k + r" "0 \<le> k" "k < q" unfolding image_iff Bex_def atLeastLessThan_iff by blast
    have "b * (k + 1) \<le> b * q" using k(3) assms(1) by (intro mult_left_mono) simp_all
    with k assms show "v \<in> {v. 0 \<le> v \<and> v < b * q \<and> v mod b = r}" by (simp add: algebra_simps)
  qed
  moreover have "inj_on (\<lambda>k. b * k + r) {0..<q}" using assms(1) by (auto simp: inj_on_def)
  ultimately show ?thesis by (simp add: card_image)
qed

lemma draw_uniform:
  assumes "1 \<le> bound" "bound \<le> 2 ^ 64" and "0 \<le> r" "r < bound"
  shows "card {s. fst (next_u64 s) < draw_limit bound \<and> fst (next_u64 s) mod bound = r} = nat (2 ^ 64 div bound)"
proof -
  let ?out = "\<lambda>s. fst (next_u64 s)" and ?V = "{v. 0 \<le> v \<and> v < bound * (2 ^ 64 div bound) \<and> v mod bound = r}"
  have lim: "draw_limit bound = bound * (2 ^ 64 div bound)" by (simp add: draw_limit_def minus_mod_eq_mult_div)
  have "bound * (2 ^ 64 div bound) \<le> 2 ^ 64" using assms(1) by (simp flip: minus_mod_eq_mult_div)
  then have sub: "?V \<subseteq> {0..<2 ^ 64}" by auto
  have "bij_betw ?out {s \<in> UNIV. ?out s \<in> ?V} ?V"
    using next_u64_bij sub by (auto simp: bij_betw_def inj_on_def)
  moreover have "{s \<in> UNIV. ?out s \<in> ?V} = {s. ?out s < draw_limit bound \<and> ?out s mod bound = r}"
    by (auto simp: lim next_u64_def Let_def)
  ultimately show ?thesis
    using residue_count [of bound "2 ^ 64 div bound" r] assms bij_betw_same_card
    by (metis (no_types, lifting) less_le_trans zero_less_one pos_imp_zdiv_nonneg_iff zero_le_numeral zero_le_power)
qed

text \<open>How \<open>randbelow\<close> runs: draws are rejected until one is below the limit.\<close>

definition state_after :: "64 word \<Rightarrow> nat \<Rightarrow> 64 word" where
  "state_after s n = s + of_nat n * gamma"

lemma next_state: "snd (next_u64 (state_after s n)) = state_after s (Suc n)"
  by (simp add: next_u64_def state_after_def Let_def algebra_simps)

lemma randbelow_run:
  assumes "1 \<le> bound" "bound \<le> 2 ^ 64"
  shows "\<exists>n < 2 ^ 64. (\<forall>k < n. draw_limit bound \<le> fst (next_u64 (state_after s k))) \<and>
    fst (next_u64 (state_after s n)) < draw_limit bound \<and>
    randbelow bound s = (Inr (fst (next_u64 (state_after s n)) mod bound), state_after s (Suc n))"
proof -
  have "\<exists>n \<le> draws_left s. (\<forall>k < n. draw_limit bound \<le> fst (next_u64 (state_after s k))) \<and>
    fst (next_u64 (state_after s n)) < draw_limit bound \<and>
    randbelow bound s = (Inr (fst (next_u64 (state_after s n)) mod bound), state_after s (Suc n))"
    using assms
  proof (induction bound s rule: randbelow.induct)
    case (1 bound s)
    have s1: "snd (next_u64 s) = s + gamma" by (simp add: next_u64_def Let_def)
    show ?case
    proof (cases "fst (next_u64 s) < draw_limit bound")
      case True
      with 1(2,3) s1 show ?thesis
        by (intro exI [of _ 0]) (simp add: randbelow.simps [of bound s] state_after_def case_prod_unfold)
    next
      case False
      then have "s + gamma \<noteq> 0" using draw_limit_pos [OF 1(2,3)] by (auto simp: next_u64_def Let_def)
      then have dec: "draws_left (s + gamma) < draws_left s" by (rule draws_left_decreases)
      have shift: "state_after (s + gamma) n = state_after s (Suc n)" for n by (simp add: state_after_def algebra_simps)
      have rec: "randbelow bound s = randbelow bound (s + gamma)"
        using False 1(2,3) s1 by (simp add: randbelow.simps [of bound s] case_prod_unfold)
      from 1(1) [of "next_u64 s" "fst (next_u64 s)" "s + gamma"] False 1(2,3) s1 obtain n where
        n: "n \<le> draws_left (s + gamma)" "\<forall>k < n. draw_limit bound \<le> fst (next_u64 (state_after s (Suc k)))"
          "fst (next_u64 (state_after s (Suc n))) < draw_limit bound"
          "randbelow bound (s + gamma) = (Inr (fst (next_u64 (state_after s (Suc n))) mod bound), state_after s (Suc (Suc n)))"
        by (auto simp: shift prod_eq_iff)
      have "\<forall>k < Suc n. draw_limit bound \<le> fst (next_u64 (state_after s k))"
        using n(2) False by (auto simp: less_Suc_eq_0_disj state_after_def)
      with n dec rec show ?thesis by (intro exI [of _ "Suc n"]) simp
    qed
  qed
  moreover have "draws_left s < 2 ^ 64" unfolding draws_left_def using unsigned_less [where ?'b = 64 and ?'a = nat] by simp
  ultimately show ?thesis by (meson order_le_less_trans)
qed

lemma bij_preimage_card:
  assumes "bij_betw f UNIV B" and "V \<subseteq> B"
  shows "card {x. f x \<in> V} = card V"
proof -
  have "f ` {x. f x \<in> V} = V" using assms by (auto simp: bij_betw_def)
  moreover have "inj_on f {x. f x \<in> V}" using assms(1) by (auto simp: bij_betw_def inj_on_def)
  ultimately show ?thesis by (metis card_image)
qed

lemma rejected_count:
  assumes "1 \<le> bound" "bound \<le> 2 ^ 64"
  shows "card {s. draw_limit bound \<le> fst (next_u64 s)} = nat (2 ^ 64 mod bound)"
proof -
  let ?out = "\<lambda>s. fst (next_u64 s)" and ?V = "{draw_limit bound..<2 ^ 64}"
  have sub: "?V \<subseteq> {0..<2 ^ 64}" using draw_limit_pos [OF assms] by auto
  have "{s. ?out s \<in> ?V} = {s. draw_limit bound \<le> ?out s}"
    using uint_bounded [where ?'a = 64] by (auto simp: next_u64_def Let_def)
  with bij_preimage_card [OF next_u64_bij sub] have "card {s. draw_limit bound \<le> ?out s} = card ?V" by simp
  then show ?thesis by (simp add: draw_limit_def)
qed

lemma randbelow_rejects:
  assumes "1 \<le> bound" "bound \<le> 2 ^ 64" and "draw_limit bound \<le> fst (next_u64 s)"
  shows "randbelow bound s = randbelow bound (snd (next_u64 s))"
  using assms by (simp add: randbelow.simps [of bound s] case_prod_unfold)

text \<open>The states from which \<open>randbelow\<close> answers with its first draw: the others come back after a longer run.\<close>

lemma first_draw_iff:
  assumes "1 \<le> bound" "bound \<le> 2 ^ 64"
  shows "randbelow bound s = (Inr r, snd (next_u64 s)) \<longleftrightarrow> fst (next_u64 s) < draw_limit bound \<and> fst (next_u64 s) mod bound = r"
proof
  assume eq: "randbelow bound s = (Inr r, snd (next_u64 s))"
  from randbelow_run [OF assms, of s] obtain n where n: "n < 2 ^ 64" "fst (next_u64 (state_after s n)) < draw_limit bound"
    "randbelow bound s = (Inr (fst (next_u64 (state_after s n)) mod bound), state_after s (Suc n))" by blast
  have "snd (next_u64 s) = s + gamma" by (simp add: next_u64_def Let_def)
  with eq n(3) have "state_after s (Suc n) = s + gamma" by simp
  then have "of_nat n * gamma = 0" by (simp add: state_after_def algebra_simps)
  then have "of_nat n * gamma * gamma_inverse = 0" by simp
  then have "(of_nat n :: 64 word) = 0" by (simp add: mult.assoc gamma_inverse)
  with n(1) have "n = 0" by (auto simp: word_of_nat_eq_0_iff dest: dvd_imp_le)
  with eq n show "fst (next_u64 s) < draw_limit bound \<and> fst (next_u64 s) mod bound = r" by (simp add: state_after_def)
qed (use assms in \<open>simp add: randbelow.simps [of bound s] case_prod_unfold\<close>)

end
