(* ===== verification/Generation.thy ===== *)
theory Generation
  imports Split_Mix Domain "HOL-Library.List_Lexorder" "HOL-Library.Char_ord"
begin

text \<open>
  The workload generator of \<open>python/src/atlaslob/generation.py\<close>: specifications and their checks, the
  shadow book that targets commands, the choice of operations, prices, quantities and identifiers, the
  thirty invalid variants and the iterator that ties them together.  The shadow and the generator are
  records that the methods pass along.
\<close>

section \<open>Specifications\<close>

definition GENERATOR_VERSION :: int where
  "GENERATOR_VERSION = 1"

definition BASIS_POINTS :: int where
  "BASIS_POINTS = 10000"

definition DEFAULT_ENGINE :: matching_config where
  "DEFAULT_ENGINE = \<lparr>max_order_quantity = 1000, tick_increment = 1, max_active_orders = 128\<rparr>"

datatype workload_profile =
    UNIFORM_SYNTHETIC | CLUSTERED_MID | HOT_LEVEL_CONTENTION | SPARSE_WIDE_BOOK | CANCEL_HEAVY | SWEEP_HEAVY
  | REPLACE_HEAVY | INVALID_MIX | TRACE_DRIVEN_SYNTHETIC | ADVERSARIAL_BOUNDARY

datatype price_model = UNIFORM | CLUSTERED | HOT_LEVEL | SPARSE_WIDE | TREND_MEAN_REVERT | ADVERSARIAL_LEGAL

record operation_weights =
  w_new :: int
  w_cancel :: int
  w_replace :: int

definition weights_total :: "operation_weights \<Rightarrow> int" where
  "weights_total w = w_new w + w_cancel w + w_replace w"

definition OperationWeights :: "int \<Rightarrow> int \<Rightarrow> int \<Rightarrow> operation_weights result" where
  "OperationWeights n c r =
     bindR (require_int n 0 U32_MAX) (\<lambda>_.
     bindR (require_int c 0 U32_MAX) (\<lambda>_.
     bindR (require_int r 0 U32_MAX) (\<lambda>_.
     let w = \<lparr>w_new = n, w_cancel = c, w_replace = r\<rparr> in
     if weights_total w = 0 then Inl ValueError else Inr w)))"

record workload_spec =
  ws_command_count :: int
  ws_instrument_id :: int
  ws_engine :: matching_config
  ws_profile :: workload_profile
  ws_price_model :: price_model
  ws_operation_weights :: operation_weights
  ws_invalid_basis_points :: int
  ws_aggressive_basis_points :: int
  ws_market_basis_points :: int
  ws_boundary_quantity_basis_points :: int
  ws_mid_price :: int
  ws_price_span_ticks :: int
  ws_active_order_target :: int
  ws_client_count :: int
  ws_snapshot_interval :: int

definition check_spec :: "workload_spec \<Rightarrow> unit result" where
  "check_spec sp =
     bindR (require_int (ws_command_count sp) 1 U64_MAX) (\<lambda>_.
     bindR (require_int (ws_instrument_id sp) 1 U32_MAX) (\<lambda>_.
     bindR (require_int (ws_invalid_basis_points sp) 0 BASIS_POINTS) (\<lambda>_.
     bindR (require_int (ws_aggressive_basis_points sp) 0 BASIS_POINTS) (\<lambda>_.
     bindR (require_int (ws_market_basis_points sp) 0 BASIS_POINTS) (\<lambda>_.
     bindR (require_int (ws_boundary_quantity_basis_points sp) 0 BASIS_POINTS) (\<lambda>_.
     bindR (require_int (ws_mid_price sp) 1 I64_MAX) (\<lambda>_.
     if ws_mid_price sp mod tick_increment (ws_engine sp) \<noteq> 0 then Inl ValueError
     else
       bindR (require_int (ws_price_span_ticks sp) 1 U32_MAX) (\<lambda>_.
       bindR (require_int (ws_active_order_target sp) 0 (max_active_orders (ws_engine sp))) (\<lambda>_.
       bindR (require_int (ws_client_count sp) 1 U32_MAX) (\<lambda>_.
       require_int (ws_snapshot_interval sp) 1 U64_MAX))))))))))"

definition WorkloadSpec :: "workload_spec \<Rightarrow> workload_spec result" where
  "WorkloadSpec sp = bindR (check_spec sp) (\<lambda>_. Inr sp)"

record generated_command =
  gc_command :: command
  gc_intended_valid :: bool
  gc_intent :: string

record generation_stats =
  st_command_count :: int
  st_intended_valid :: int
  st_intended_invalid :: int
  st_new_orders :: int
  st_cancels :: int
  st_replaces :: int
  st_intents :: "(string \<times> int) list"

section \<open>The shadow book\<close>

record shadow_order =
  so_order_id :: int
  so_client_id :: int
  so_instrument_id :: int
  so_side :: side
  so_price :: int
  so_remaining_quantity :: int

record generation_shadow =
  sh_active :: "(int, shadow_order) dict"
  sh_bids :: "(int, int list) dict"
  sh_asks :: "(int, int list) dict"
  sh_inactive :: "int list"

definition GenerationShadow :: generation_shadow where
  "GenerationShadow = \<lparr>sh_active = [], sh_bids = [], sh_asks = [], sh_inactive = []\<rparr>"

definition shadow_levels :: "side \<Rightarrow> generation_shadow \<Rightarrow> (int, int list) dict" where
  "shadow_levels sd sh = (case sd of BUY \<Rightarrow> sh_bids sh | SELL \<Rightarrow> sh_asks sh)"

definition set_shadow_levels :: "side \<Rightarrow> (int, int list) dict \<Rightarrow> generation_shadow \<Rightarrow> generation_shadow" where
  "set_shadow_levels sd d sh = (case sd of BUY \<Rightarrow> sh\<lparr>sh_bids := d\<rparr> | SELL \<Rightarrow> sh\<lparr>sh_asks := d\<rparr>)"

definition ordered_active_ids :: "generation_shadow \<Rightarrow> int list" where
  "ordered_active_ids sh = sort (map fst (sh_active sh))"

definition best_bid_price :: "generation_shadow \<Rightarrow> int option" where
  "best_bid_price sh = (if sh_bids sh = [] then None else Some (Max (set (map fst (sh_bids sh)))))"

definition best_ask_price :: "generation_shadow \<Rightarrow> int option" where
  "best_ask_price sh = (if sh_asks sh = [] then None else Some (Min (set (map fst (sh_asks sh)))))"

definition remaining_of :: "generation_shadow \<Rightarrow> int \<Rightarrow> int result" where
  "remaining_of sh oid = bindR (dict_getitem (sh_active sh) oid) (\<lambda>ord. Inr (so_remaining_quantity ord))"

definition side_total_at_best :: "generation_shadow \<Rightarrow> side \<Rightarrow> int result" where
  "side_total_at_best sh sd =
     (case (if sd = BUY then best_bid_price sh else best_ask_price sh) of
        None \<Rightarrow> Inr 0
      | Some price \<Rightarrow>
          bindR (dict_getitem (shadow_levels sd sh) price) (\<lambda>queue.
          bindR (mapR (remaining_of sh) queue) (\<lambda>qs. Inr (sum_list qs))))"

definition side_total :: "generation_shadow \<Rightarrow> side \<Rightarrow> int result" where
  "side_total sh sd =
     bindR (mapR (remaining_of sh) (concat (map snd (shadow_levels sd sh)))) (\<lambda>qs. Inr (sum_list qs))"

text \<open>\<open>deque(maxlen=256).append\<close>.\<close>

definition push_inactive :: "int \<Rightarrow> generation_shadow \<Rightarrow> generation_shadow" where
  "push_inactive oid sh = (let q = sh_inactive sh @ [oid] in sh\<lparr>sh_inactive := drop (length q - 256) q\<rparr>)"

definition pop_active :: "int \<Rightarrow> (generation_shadow, shadow_order) prog" where
  "pop_active oid sh =
     (case map_of (sh_active sh) oid of
        None \<Rightarrow> (Inl KeyError, sh)
      | Some ord \<Rightarrow> (Inr ord, sh\<lparr>sh_active := AList.delete oid (sh_active sh)\<rparr>))"

text \<open>\<open>queue.remove(order_id)\<close>, then \<open>del levels[price]\<close> when the queue is empty.\<close>

definition unqueue :: "side \<Rightarrow> int \<Rightarrow> int \<Rightarrow> int list \<Rightarrow> generation_shadow \<Rightarrow> generation_shadow" where
  "unqueue sd price oid queue sh =
     (let queue' = remove1 oid queue in
      set_shadow_levels sd
        (if queue' = [] then AList.delete price (shadow_levels sd sh) else dict_setitem price queue' (shadow_levels sd sh)) sh)"

definition shadow_remove :: "int \<Rightarrow> (generation_shadow, unit) prog" where
  "shadow_remove oid =
     bindP (pop_active oid) (\<lambda>ord.
     bindP (\<lambda>sh. (dict_getitem (shadow_levels (so_side ord) sh) (so_price ord), sh)) (\<lambda>queue.
     if oid \<notin> set queue then raise ValueError
     else seqP (modifyP (unqueue (so_side ord) (so_price ord) oid queue)) (modifyP (push_inactive oid))))"

definition shadow_crosses :: "side \<Rightarrow> int option \<Rightarrow> int \<Rightarrow> bool" where
  "shadow_crosses sd limit resting =
     (case limit of None \<Rightarrow> True | Some l \<Rightarrow> if sd = BUY then resting \<le> l else resting \<ge> l)"

definition opposite :: "side \<Rightarrow> side" where
  "opposite sd = (if sd = BUY then SELL else BUY)"

text \<open>The best price of the opposite side and the order at its front: the lookups raise as in Python.\<close>

definition best_opposite :: "side \<Rightarrow> generation_shadow \<Rightarrow> int" where
  "best_opposite sd sh =
     (if sd = BUY then Min (set (map fst (sh_asks sh))) else Max (set (map fst (sh_bids sh))))"

definition front_order :: "generation_shadow \<Rightarrow> side \<Rightarrow> int \<Rightarrow> (int \<times> shadow_order) result" where
  "front_order sh sd price =
     bindR (dict_getitem (shadow_levels sd sh) price) (\<lambda>queue.
     case queue of
       [] \<Rightarrow> Inl IndexError
     | oid # _ \<Rightarrow> bindR (dict_getitem (sh_active sh) oid) (\<lambda>ord. Inr (oid, ord)))"

text \<open>\<open>resting.remaining_quantity -= executed\<close> changes the object that \<open>active\<close> holds under \<open>key\<close>.\<close>

definition fill_resting :: "int \<Rightarrow> shadow_order \<Rightarrow> int \<Rightarrow> (generation_shadow, unit) prog" where
  "fill_resting key resting executed =
     (let left = so_remaining_quantity resting - executed in
      seqP (modifyP (\<lambda>sh. sh\<lparr>sh_active := dict_setitem key (resting\<lparr>so_remaining_quantity := left\<rparr>) (sh_active sh)\<rparr>))
      (if left = 0 then shadow_remove (so_order_id resting) else ret ()))"

lemma dict_getitem_Inr: "dict_getitem d k = Inr v \<longleftrightarrow> map_of d k = Some v"
  by (simp add: dict_getitem_def split: option.splits)

lemma front_order_Inr:
  "front_order sh sd price = Inr (key, ord) \<longleftrightarrow>
     (\<exists>q. map_of (shadow_levels sd sh) price = Some (key # q) \<and> map_of (sh_active sh) key = Some ord)"
proof -
  have "(case queue of [] \<Rightarrow> Inl IndexError | oid # _ \<Rightarrow> bindR (dict_getitem (sh_active sh) oid) (\<lambda>ord. Inr (oid, ord))) =
      Inr (key, ord) \<longleftrightarrow> (\<exists>q. queue = key # q \<and> map_of (sh_active sh) key = Some ord)" for queue
    by (cases queue) (auto simp: bindR_Inr_iff dict_getitem_Inr)
  then show ?thesis by (auto simp: front_order_def bindR_Inr_iff dict_getitem_Inr)
qed

lemma length_delete_less: "map_of d k \<noteq> None \<Longrightarrow> length (AList.delete k d) < length d"
  by (induction d) (auto simp: AList.delete_eq split: if_splits intro: le_imp_less_Suc)

lemma shadow_levels_simps [simp]:
  "shadow_levels sd (set_shadow_levels sd d sh) = d"
  "sd \<noteq> sd' \<Longrightarrow> shadow_levels sd' (set_shadow_levels sd d sh) = shadow_levels sd' sh"
  "sh_active (set_shadow_levels sd d sh) = sh_active sh"
  "shadow_levels sd (sh\<lparr>sh_active := act\<rparr>) = shadow_levels sd sh"
  "shadow_levels sd (push_inactive oid sh) = shadow_levels sd sh"
  "sh_active (push_inactive oid sh) = sh_active sh"
  "sh_active (unqueue sd price oid q sh) = sh_active sh"
  by (cases sd; cases sd'; simp add: shadow_levels_def set_shadow_levels_def push_inactive_def unqueue_def Let_def)+

lemma shadow_remove_shrinks:
  "shadow_remove oid sh = (Inr u, sh') \<Longrightarrow> length (sh_active sh') < length (sh_active sh)"
  using length_delete_less [of "sh_active sh" oid]
  by (auto simp: shadow_remove_def pop_active_def bindP_def seqP_def modifyP_def split: option.splits sum.splits if_splits)

lemma fill_resting_progress:
  assumes "front_order sh sd price = Inr (key, resting)" and "executed = min remaining (so_remaining_quantity resting)"
    and "fill_resting key resting executed sh = (Inr u, sh')"
  shows "length (sh_active sh') < length (sh_active sh) \<or>
    (length (sh_active sh') = length (sh_active sh) \<and> remaining - executed = 0)"
proof -
  have key: "map_of (sh_active sh) key \<noteq> None"
    using assms(1) by (auto simp: front_order_Inr)
  show ?thesis
  proof (cases "so_remaining_quantity resting - executed = 0")
    case True
    with assms(3) shadow_remove_shrinks length_setitem_present [OF key] show ?thesis
      by (fastforce simp: fill_resting_def)
  next
    case False
    with assms(2) have "executed = remaining" by (simp add: min_def split: if_splits)
    with False assms(3) length_setitem_present [OF key] show ?thesis
      by (auto simp: fill_resting_def seqP_def bindP_def modifyP_def)
  qed
qed

function shadow_match :: "side \<Rightarrow> int option \<Rightarrow> int \<Rightarrow> generation_shadow \<Rightarrow> int result \<times> generation_shadow" where
  "shadow_match sd limit remaining sh =
     (if \<not> (remaining > 0 \<and> shadow_levels (opposite sd) sh \<noteq> []) then (Inr remaining, sh)
      else if \<not> shadow_crosses sd limit (best_opposite sd sh) then (Inr remaining, sh)
      else
        case front_order sh (opposite sd) (best_opposite sd sh) of
          Inl e \<Rightarrow> (Inl e, sh)
        | Inr (key, resting) \<Rightarrow>
            let executed = min remaining (so_remaining_quantity resting) in
            case fill_resting key resting executed sh of
              (Inl e, sh1) \<Rightarrow> (Inl e, sh1)
            | (Inr _, sh1) \<Rightarrow> shadow_match sd limit (remaining - executed) sh1)"
  by pat_completeness auto

termination
  by (relation "measures [\<lambda>(sd, limit, r, sh). length (sh_active sh), \<lambda>(sd, limit, r, sh). if r > 0 then 1 else 0]")
    (auto dest!: sym [of _ "fill_resting _ _ _ _"] dest: fill_resting_progress [OF _ refl])

declare shadow_match.simps [simp del]

definition add_active :: "shadow_order \<Rightarrow> generation_shadow \<Rightarrow> generation_shadow" where
  "add_active ord sh =
     (let sh1 = sh\<lparr>sh_active := dict_setitem (so_order_id ord) ord (sh_active sh)\<rparr>;
          levels = shadow_levels (so_side ord) sh1 in
      set_shadow_levels (so_side ord)
        (dict_setitem (so_price ord) (dict_get_default levels (so_price ord) [] @ [so_order_id ord]) levels) sh1)"

definition apply_new :: "new_order \<Rightarrow> (generation_shadow, unit) prog" where
  "apply_new cmd =
     bindP (liftP (Side (new_side cmd))) (\<lambda>sd.
     bindP (shadow_match sd (new_limit_price cmd) (new_quantity cmd)) (\<lambda>remaining.
     if remaining > 0 \<and> new_order_type cmd = order_type_value LIMIT \<and> new_time_in_force cmd = time_in_force_value GTC
     then (case new_limit_price cmd of
             None \<Rightarrow> raise AssertionError
           | Some price \<Rightarrow> modifyP (add_active
               \<lparr>so_order_id = new_order_id cmd, so_client_id = new_client_id cmd,
                so_instrument_id = new_instrument_id cmd, so_side = sd, so_price = price,
                so_remaining_quantity = remaining\<rparr>))
     else modifyP (push_inactive (new_order_id cmd))))"

fun shadow_apply :: "command \<Rightarrow> (generation_shadow, unit) prog" where
  "shadow_apply (CancelOrder c) = shadow_remove (cancel_order_id c)"
| "shadow_apply (ReplaceOrder c) =
     bindP (\<lambda>sh. (dict_getitem (sh_active sh) (rep_old_order_id c), sh)) (\<lambda>old.
     seqP (shadow_remove (rep_old_order_id c))
     (apply_new \<lparr>new_client_id = so_client_id old, new_order_id = rep_new_order_id c,
        new_instrument_id = so_instrument_id old, new_side = side_value (so_side old),
        new_order_type = order_type_value LIMIT, new_time_in_force = time_in_force_value GTC,
        new_limit_price = Some (rep_new_limit_price c), new_quantity = rep_new_quantity c\<rparr>))"
| "shadow_apply (NewOrder c) = apply_new c"

section \<open>The generator's state\<close>

record workload_generator =
  gen_spec :: workload_spec
  gen_seed :: int
  gen_rng :: "64 word"
  gen_shadow :: generation_shadow
  gen_next_order_id :: int
  gen_count :: int
  gen_intended_valid :: int
  gen_intended_invalid :: int
  gen_new_orders :: int
  gen_cancels :: int
  gen_replaces :: int
  gen_intents :: "(string, int) dict"

definition WorkloadGenerator :: "workload_spec \<Rightarrow> int \<Rightarrow> workload_generator result" where
  "WorkloadGenerator sp seed =
     bindR (require_int seed 0 U64_MAX) (\<lambda>_.
     bindR (SplitMix64 seed) (\<lambda>rng.
     Inr \<lparr>gen_spec = sp, gen_seed = seed, gen_rng = rng, gen_shadow = GenerationShadow, gen_next_order_id = 1,
          gen_count = 0, gen_intended_valid = 0, gen_intended_invalid = 0, gen_new_orders = 0, gen_cancels = 0,
          gen_replaces = 0, gen_intents = []\<rparr>))"

text \<open>Calls on the two objects a generator owns.\<close>

definition on_rng :: "(64 word, 'a) prog \<Rightarrow> (workload_generator, 'a) prog" where
  "on_rng m g = (case m (gen_rng g) of (r, s) \<Rightarrow> (r, g\<lparr>gen_rng := s\<rparr>))"

definition on_shadow :: "(generation_shadow, 'a) prog \<Rightarrow> (workload_generator, 'a) prog" where
  "on_shadow m g = (case m (gen_shadow g) of (r, sh) \<Rightarrow> (r, g\<lparr>gen_shadow := sh\<rparr>))"

definition read_shadow :: "(generation_shadow \<Rightarrow> 'a result) \<Rightarrow> (workload_generator, 'a) prog" where
  "read_shadow f g = (f (gen_shadow g), g)"

abbreviation spec_of :: "(workload_spec \<Rightarrow> 'a) \<Rightarrow> workload_generator \<Rightarrow> 'a" where
  "spec_of f g \<equiv> f (gen_spec g)"

section \<open>Identifiers\<close>

function skip_active :: "(int, shadow_order) dict \<Rightarrow> int \<Rightarrow> int" where
  "skip_active active i = (if i \<in> set (map fst active) then skip_active active (i + 1) else i)"
  by pat_completeness auto

termination
proof (relation "measure (\<lambda>(active, i). card {k \<in> set (map fst active). i \<le> k})", goal_cases)
  case (2 active i)
  have "i \<notin> {k \<in> set (map fst active). i + 1 \<le> k}" "i \<in> {k \<in> set (map fst active). i \<le> k}" using 2 by simp_all
  moreover have "{k \<in> set (map fst active). i + 1 \<le> k} \<subseteq> {k \<in> set (map fst active). i \<le> k}" by auto
  ultimately have "{k \<in> set (map fst active). i + 1 \<le> k} \<subset> {k \<in> set (map fst active). i \<le> k}" by blast
  from psubset_card_mono [OF _ this] show ?case by simp
qed simp

declare skip_active.simps [simp del]

definition next_free_id :: "(workload_generator, int) prog" where
  "next_free_id g =
     (let i = skip_active (sh_active (gen_shadow g)) (gen_next_order_id g) in
      if i > U64_MAX then (Inl OverflowError, g\<lparr>gen_next_order_id := i\<rparr>)
      else (Inr i, g\<lparr>gen_next_order_id := i + 1\<rparr>))"

definition allocate_order_id :: "(workload_generator, int) prog" where
  "allocate_order_id =
     bindP (\<lambda>g. if ws_profile (gen_spec g) = ADVERSARIAL_BOUNDARY then on_rng (chance 1000) g else (Inr False, g)) (\<lambda>lucky.
     if lucky
     then bindP (on_rng (randbelow 1024)) (\<lambda>r.
          bindP (getsP (\<lambda>g. map_of (sh_active (gen_shadow g)) (U64_MAX - r) = None)) (\<lambda>unused.
          if U64_MAX - r \<noteq> 0 \<and> unused then ret (U64_MAX - r) else next_free_id))
     else next_free_id)"

definition active_choice :: "int option \<Rightarrow> (workload_generator, shadow_order) prog" where
  "active_choice excluding =
     bindP (getsP (\<lambda>g. filter (\<lambda>i. excluding \<noteq> Some i) (ordered_active_ids (gen_shadow g)))) (\<lambda>ids.
     if ids = [] then raise AssertionError
     else bindP (on_rng (choose_value ids)) (\<lambda>i. read_shadow (\<lambda>sh. dict_getitem (sh_active sh) i)))"

section \<open>Quantities and prices\<close>

definition boundary_quantities :: "int \<Rightarrow> int \<Rightarrow> int \<Rightarrow> int list" where
  "boundary_quantities maximum best_total side_sum =
     [1, maximum] @ (if maximum > 1 then [2, maximum - 1] else []) @
     concat (map (\<lambda>v. (if 1 \<le> v \<and> v \<le> maximum then [v] else []) @ (if 1 \<le> v + 1 \<and> v + 1 \<le> maximum then [v + 1] else []))
       [best_total, side_sum])"

definition gen_quantity :: "side \<Rightarrow> (workload_generator, int) prog" where
  "gen_quantity sd =
     bindP (getsP (spec_of (\<lambda>sp. (max_order_quantity (ws_engine sp), ws_boundary_quantity_basis_points sp)))) (\<lambda>(maximum, bp).
     bindP (on_rng (chance bp)) (\<lambda>boundary.
     if boundary
     then bindP (read_shadow (\<lambda>sh. side_total_at_best sh (opposite sd))) (\<lambda>best_total.
          bindP (read_shadow (\<lambda>sh. side_total sh (opposite sd))) (\<lambda>side_sum.
          on_rng (choose_value (boundary_quantities maximum best_total side_sum))))
     else bindP (on_rng (randbelow maximum)) (\<lambda>r. ret (1 + r))))"

definition aligned_clamp :: "int \<Rightarrow> int \<Rightarrow> int" where
  "aligned_clamp v tick =
     (let maximum = I64_MAX - I64_MAX mod tick; clamped = min (max v tick) maximum in clamped - clamped mod tick)"

definition price_offset :: "price_model \<Rightarrow> int \<Rightarrow> int \<Rightarrow> (64 word, int) prog" where
  "price_offset model span produced =
     (case model of
        HOT_LEVEL \<Rightarrow> choose_value [-1, 0, 0, 0, 1]
      | CLUSTERED \<Rightarrow> bindP (randbelow 9) (\<lambda>r. ret (r - 4))
      | SPARSE_WIDE \<Rightarrow> bindP (chance 5000) (\<lambda>neg. bindP (randbelow span) (\<lambda>r. ret ((if neg then -1 else 1) * (1 + r) * 8)))
      | TREND_MEAN_REVERT \<Rightarrow>
          (let phase = (produced div 64) mod 4; within = produced mod 64;
               trend = (if phase = 0 \<or> phase = 3 then within else 63 - within);
               direction = (if phase < 2 then 1 else -1) in
           bindP (randbelow 7) (\<lambda>r. ret (direction * trend + (r - 3))))
      | _ \<Rightarrow> bindP (randbelow (2 * span + 1)) (\<lambda>r. ret (r - span)))"

definition base_price :: "(workload_generator, int) prog" where
  "base_price =
     bindP (getsP (\<lambda>g. (gen_spec g, gen_count g))) (\<lambda>(sp, produced).
     let tick = tick_increment (ws_engine sp); max_aligned = I64_MAX - I64_MAX mod tick in
     if ws_price_model sp = ADVERSARIAL_LEGAL
     then on_rng (choose_value [tick, min max_aligned (tick * 2), ws_mid_price sp, max_aligned])
     else bindP (on_rng (price_offset (ws_price_model sp) (ws_price_span_ticks sp) produced)) (\<lambda>offset.
       ret (aligned_clamp (ws_mid_price sp + offset * tick) tick)))"

definition gen_price :: "side \<Rightarrow> bool \<Rightarrow> (workload_generator, int) prog" where
  "gen_price sd aggressive =
     bindP (getsP gen_spec) (\<lambda>sp.
     bindP base_price (\<lambda>base.
     bindP (getsP (\<lambda>g. if sd = BUY then best_ask_price (gen_shadow g) else best_bid_price (gen_shadow g))) (\<lambda>best.
     let tick = tick_increment (ws_engine sp) in
     case best of
       None \<Rightarrow> ret (aligned_clamp base tick)
     | Some opp \<Rightarrow>
         if aggressive
         then bindP (on_rng (randbelow (max 1 (min (ws_price_span_ticks sp) 16)))) (\<lambda>r.
           let delta = (1 + r) * tick in
           ret (if sd = BUY then aligned_clamp (opp + delta) tick else aligned_clamp (opp - delta) tick))
         else
           ret (aligned_clamp
             (if sd = BUY \<and> base \<ge> opp then opp - tick
              else if sd = SELL \<and> base \<le> opp then opp + tick else base) tick))))"

definition other_instrument :: "workload_spec \<Rightarrow> int" where
  "other_instrument sp = (if ws_instrument_id sp = U32_MAX then 1 else ws_instrument_id sp + 1)"

section \<open>Valid commands\<close>

definition choose_weighted :: "(workload_generator, string) prog" where
  "choose_weighted =
     bindP (getsP (spec_of ws_operation_weights)) (\<lambda>w.
     bindP (on_rng (randbelow (weights_total w))) (\<lambda>selected.
     ret (if selected < w_new w then ''new'' else if selected < w_new w + w_cancel w then ''cancel'' else ''replace'')))"

definition choose_operation :: "(workload_generator, string) prog" where
  "choose_operation =
     bindP (getsP (\<lambda>g. (int (length (sh_active (gen_shadow g))), gen_spec g))) (\<lambda>(active_count, sp).
     if active_count = 0 then ret ''new''
     else
       bindP (if active_count \<ge> max_active_orders (ws_engine sp) then ret True
              else if ws_active_order_target sp \<noteq> 0 \<and> active_count > ws_active_order_target sp then on_rng (chance 7500)
              else ret False) (\<lambda>reduce.
       if reduce then bindP (on_rng (chance 6000)) (\<lambda>cancel. ret (if cancel then ''cancel'' else ''replace''))
       else choose_weighted))"

definition build_valid_new :: "(workload_generator, new_order) prog" where
  "build_valid_new =
     bindP (getsP gen_spec) (\<lambda>sp.
     bindP (on_rng (chance 5000)) (\<lambda>buy.
     let sd = (if buy then BUY else SELL) in
     bindP (if max_active_orders (ws_engine sp) = 0 then ret True else on_rng (chance (ws_aggressive_basis_points sp))) (\<lambda>aggressive.
     bindP allocate_order_id (\<lambda>oid.
     bindP (gen_quantity sd) (\<lambda>quantity.
     bindP (on_rng (randbelow (ws_client_count sp))) (\<lambda>r.
     bindP (if aggressive then on_rng (chance (ws_market_basis_points sp)) else ret False) (\<lambda>market.
     if market
     then ret \<lparr>new_client_id = 1 + r, new_order_id = oid, new_instrument_id = ws_instrument_id sp,
            new_side = side_value sd, new_order_type = order_type_value MARKET,
            new_time_in_force = time_in_force_value IOC, new_limit_price = None, new_quantity = quantity\<rparr>
     else bindP (gen_price sd aggressive) (\<lambda>price.
       ret \<lparr>new_client_id = 1 + r, new_order_id = oid, new_instrument_id = ws_instrument_id sp,
            new_side = side_value sd, new_order_type = order_type_value LIMIT,
            new_time_in_force = time_in_force_value (if aggressive then IOC else GTC),
            new_limit_price = Some price, new_quantity = quantity\<rparr>))))))))"

definition valid_cancel :: "(workload_generator, cancel_order) prog" where
  "valid_cancel = bindP (active_choice None) (\<lambda>ord.
     ret \<lparr>cancel_client_id = so_client_id ord, cancel_order_id = so_order_id ord,
          cancel_instrument_id = so_instrument_id ord\<rparr>)"

definition valid_replace :: "(workload_generator, replace_order) prog" where
  "valid_replace = bindP (active_choice None) (\<lambda>ord.
     bindP allocate_order_id (\<lambda>new_id.
     bindP (on_rng (chance 3500)) (\<lambda>aggressive.
     bindP (gen_price (so_side ord) aggressive) (\<lambda>price.
     bindP (gen_quantity (so_side ord)) (\<lambda>quantity.
     ret \<lparr>rep_client_id = so_client_id ord, rep_old_order_id = so_order_id ord, rep_new_order_id = new_id,
          rep_instrument_id = so_instrument_id ord, rep_new_limit_price = price, rep_new_quantity = quantity\<rparr>)))))"

definition valid_command :: "(workload_generator, command \<times> string) prog" where
  "valid_command = bindP choose_operation (\<lambda>operation.
     if operation = ''cancel'' then bindP valid_cancel (\<lambda>c. ret (CancelOrder c, ''valid_cancel''))
     else if operation = ''replace'' then bindP valid_replace (\<lambda>c. ret (ReplaceOrder c, ''valid_replace''))
     else bindP build_valid_new (\<lambda>c. ret (NewOrder c,
       if new_order_type c = order_type_value MARKET then ''valid_market_sweep''
       else if new_time_in_force c = time_in_force_value IOC then ''valid_limit_ioc'' else ''valid_limit_gtc'')))"

section \<open>Invalid commands\<close>

text \<open>\<open>_replace_new\<close>: a field that is not given keeps the order's value.\<close>

definition replace_new ::
  "new_order \<Rightarrow> int option \<Rightarrow> int option \<Rightarrow> int option \<Rightarrow> int option \<Rightarrow> int option \<Rightarrow> int option \<Rightarrow> int option option \<Rightarrow>
   int option \<Rightarrow> new_order" where
  "replace_new ord client oid iid sd otype tif limit quantity =
     (let pick = (\<lambda>v given. case given of None \<Rightarrow> v | Some x \<Rightarrow> x) in
      \<lparr>new_client_id = pick (new_client_id ord) client, new_order_id = pick (new_order_id ord) oid,
       new_instrument_id = pick (new_instrument_id ord) iid, new_side = pick (new_side ord) sd,
       new_order_type = pick (new_order_type ord) otype, new_time_in_force = pick (new_time_in_force ord) tif,
       new_limit_price = (case limit of None \<Rightarrow> new_limit_price ord | Some p \<Rightarrow> p),
       new_quantity = pick (new_quantity ord) quantity\<rparr>)"

definition invalid_quantity_new :: "workload_spec \<Rightarrow> new_order \<Rightarrow> new_order \<times> string" where
  "invalid_quantity_new sp base =
     (replace_new base None None None None None None None
        (Some (if max_order_quantity (ws_engine sp) < U64_MAX then max_order_quantity (ws_engine sp) + 1 else 0)),
      ''invalid_new_quantity_range'')"

definition invalid_shape_new :: "workload_spec \<Rightarrow> int \<Rightarrow> new_order \<Rightarrow> new_order \<times> string" where
  "invalid_shape_new sp variant base =
     (if variant = 0 then (replace_new base (Some 0) None None None None None None None, ''invalid_new_client_zero'')
      else if variant = 1 then (replace_new base None (Some 0) None None None None None None, ''invalid_new_order_zero'')
      else if variant = 2 then (replace_new base None None (Some 0) None None None None None, ''invalid_new_instrument_zero'')
      else if variant = 3 then (replace_new base None None None None None None None (Some 0), ''invalid_new_quantity_zero'')
      else if variant = 4 then (replace_new base None None None (Some 0) None None None None, ''invalid_new_side'')
      else if variant = 5 then (replace_new base None None None None (Some 0) None None None, ''invalid_new_order_type'')
      else if variant = 6 then (replace_new base None None None None None (Some 0) None None, ''invalid_new_time_in_force'')
      else if variant = 7
      then (replace_new base None None None None (Some (order_type_value LIMIT)) (Some (time_in_force_value GTC)) (Some None) None,
            ''invalid_new_missing_limit_price'')
      else if variant = 8
      then (replace_new base None None None None (Some (order_type_value MARKET)) (Some (time_in_force_value IOC))
              (Some (Some (ws_mid_price sp))) None, ''invalid_new_unexpected_market_price'')
      else if variant = 9
      then (replace_new base None None None None (Some (order_type_value LIMIT)) (Some (time_in_force_value GTC)) (Some (Some 0)) None,
            ''invalid_new_price_zero'')
      else if variant = 10
      then (replace_new base None None None None None (Some (time_in_force_value FOK)) None None, ''invalid_new_unsupported_fok'')
      else if variant = 11 \<or> variant = 12 then invalid_quantity_new sp base
      else if tick_increment (ws_engine sp) > 1
      then (replace_new base None None None None (Some (order_type_value LIMIT)) (Some (time_in_force_value GTC))
              (Some (Some (ws_mid_price sp + 1))) None, ''invalid_new_tick'')
      else (replace_new base None None None None (Some (order_type_value MARKET)) (Some (time_in_force_value GTC)) (Some None) None,
            ''invalid_new_type_tif''))"

definition has_active :: "workload_generator \<Rightarrow> bool" where
  "has_active g \<longleftrightarrow> sh_active (gen_shadow g) \<noteq> []"

definition invalid_new :: "int \<Rightarrow> (workload_generator, new_order \<times> string) prog" where
  "invalid_new variant =
     bindP (getsP gen_spec) (\<lambda>sp.
     bindP build_valid_new (\<lambda>base.
     bindP (getsP has_active) (\<lambda>active.
     if variant = 11 \<and> active
     then bindP (active_choice None) (\<lambda>duplicate.
       ret (replace_new base None (Some (so_order_id duplicate)) None None None None None None, ''invalid_new_duplicate_id''))
     else ret (invalid_shape_new sp variant base))))"

definition make_cancel :: "int \<Rightarrow> int \<Rightarrow> int \<Rightarrow> cancel_order" where
  "make_cancel client oid iid = \<lparr>cancel_client_id = client, cancel_order_id = oid, cancel_instrument_id = iid\<rparr>"

definition invalid_cancel :: "int \<Rightarrow> (workload_generator, cancel_order \<times> string) prog" where
  "invalid_cancel variant =
     bindP (getsP gen_spec) (\<lambda>sp.
     if variant = 0 then ret (make_cancel 0 1 (ws_instrument_id sp), ''invalid_cancel_client_zero'')
     else if variant = 1 then ret (make_cancel 1 0 (ws_instrument_id sp), ''invalid_cancel_order_zero'')
     else if variant = 2 then ret (make_cancel 1 1 0, ''invalid_cancel_instrument_zero'')
     else
       bindP (getsP has_active) (\<lambda>active.
       if \<not> active
       then bindP allocate_order_id (\<lambda>unknown. ret (make_cancel 1 unknown (ws_instrument_id sp), ''invalid_cancel_unknown_id''))
       else
         bindP (active_choice None) (\<lambda>ord.
         if variant = 3
         then bindP allocate_order_id (\<lambda>unknown.
           ret (make_cancel (so_client_id ord) unknown (so_instrument_id ord), ''invalid_cancel_unknown_id''))
         else if variant = 4
         then ret (make_cancel (if so_client_id ord \<noteq> 1 then 1 else 2) (so_order_id ord) (so_instrument_id ord),
                ''invalid_cancel_ownership'')
         else ret (make_cancel (so_client_id ord) (so_order_id ord) (other_instrument sp), ''invalid_cancel_instrument_mismatch''))))"

definition make_replace :: "int \<Rightarrow> int \<Rightarrow> int \<Rightarrow> int \<Rightarrow> int \<Rightarrow> int \<Rightarrow> replace_order" where
  "make_replace client old_id new_id iid price quantity =
     \<lparr>rep_client_id = client, rep_old_order_id = old_id, rep_new_order_id = new_id, rep_instrument_id = iid,
      rep_new_limit_price = price, rep_new_quantity = quantity\<rparr>"

definition replace_active_count :: "workload_generator \<Rightarrow> nat" where
  "replace_active_count g = length (sh_active (gen_shadow g))"

definition invalid_replace_of ::
  "int \<Rightarrow> workload_spec \<Rightarrow> shadow_order \<Rightarrow> int \<Rightarrow> int \<Rightarrow> int \<Rightarrow> (workload_generator, replace_order \<times> string) prog" where
  "invalid_replace_of variant sp ord new_id price quantity =
     (let client = so_client_id ord; oid = so_order_id ord; iid = so_instrument_id ord in
      if variant = 0 then ret (make_replace 0 oid new_id iid price quantity, ''invalid_replace_client_zero'')
      else if variant = 1 then ret (make_replace client oid oid iid price quantity, ''invalid_replace_same_id'')
      else if variant = 2
      then bindP allocate_order_id (\<lambda>unknown.
        ret (make_replace client unknown new_id iid price quantity, ''invalid_replace_unknown_id''))
      else
        bindP (getsP replace_active_count) (\<lambda>n.
        if variant = 3 \<and> n > 1
        then bindP (active_choice (Some oid)) (\<lambda>duplicate.
          ret (make_replace client oid (so_order_id duplicate) iid price quantity, ''invalid_replace_duplicate_new_id''))
        else if variant = 4
        then ret (make_replace (if client \<noteq> 1 then 1 else 2) oid new_id iid price quantity, ''invalid_replace_ownership'')
        else if variant = 5
        then ret (make_replace client oid new_id (other_instrument sp) price quantity, ''invalid_replace_instrument_mismatch'')
        else if variant = 6 then ret (make_replace client 0 new_id iid price quantity, ''invalid_replace_old_zero'')
        else if variant = 7 then ret (make_replace client oid 0 iid price quantity, ''invalid_replace_new_zero'')
        else if variant = 8 then ret (make_replace client oid new_id iid price 0, ''invalid_replace_quantity_zero'')
        else ret (make_replace client oid new_id iid (if tick_increment (ws_engine sp) > 1 then ws_mid_price sp + 1 else 0) quantity,
               ''invalid_replace_price'')))"

definition invalid_replace :: "int \<Rightarrow> (workload_generator, replace_order \<times> string) prog" where
  "invalid_replace variant =
     bindP (getsP gen_spec) (\<lambda>sp.
     bindP (getsP has_active) (\<lambda>active.
     if \<not> active
     then bindP allocate_order_id (\<lambda>old_id.
          bindP allocate_order_id (\<lambda>new_id.
          ret (make_replace 1 old_id new_id (ws_instrument_id sp) (ws_mid_price sp) 1, ''invalid_replace_unknown_id'')))
     else
       bindP (active_choice None) (\<lambda>ord.
       bindP allocate_order_id (\<lambda>new_id.
       bindP (gen_price (so_side ord) False) (\<lambda>price.
       bindP (gen_quantity (so_side ord)) (\<lambda>quantity.
       invalid_replace_of variant sp ord new_id price quantity))))))"

definition invalid_command :: "(workload_generator, generated_command) prog" where
  "invalid_command =
     bindP (on_rng (randbelow 30)) (\<lambda>variant.
     bindP (if variant < 14 then bindP (invalid_new variant) (\<lambda>(c, intent). ret (NewOrder c, intent))
            else if variant < 20 then bindP (invalid_cancel (variant - 14)) (\<lambda>(c, intent). ret (CancelOrder c, intent))
            else bindP (invalid_replace (variant - 20)) (\<lambda>(c, intent). ret (ReplaceOrder c, intent))) (\<lambda>(cmd, intent).
     ret \<lparr>gc_command = cmd, gc_intended_valid = False, gc_intent = intent\<rparr>))"

section \<open>The iterator\<close>

definition count_generated :: "generated_command \<Rightarrow> workload_generator \<Rightarrow> workload_generator" where
  "count_generated gc g =
     (let g1 = g\<lparr>gen_count := gen_count g + 1,
                gen_intents := dict_setitem (gc_intent gc) (dict_get_default (gen_intents g) (gc_intent gc) 0 + 1) (gen_intents g)\<rparr> in
      case gc_command gc of
        NewOrder _ \<Rightarrow> g1\<lparr>gen_new_orders := gen_new_orders g1 + 1\<rparr>
      | CancelOrder _ \<Rightarrow> g1\<lparr>gen_cancels := gen_cancels g1 + 1\<rparr>
      | ReplaceOrder _ \<Rightarrow> g1\<lparr>gen_replaces := gen_replaces g1 + 1\<rparr>)"

definition next_generated :: "(workload_generator, generated_command) prog" where
  "next_generated =
     bindP (getsP (\<lambda>g. (gen_count g \<ge> ws_command_count (gen_spec g), ws_invalid_basis_points (gen_spec g)))) (\<lambda>(finished, bp).
     if finished then raise StopIteration
     else
       bindP (on_rng (chance bp)) (\<lambda>intended_invalid.
       bindP (if intended_invalid
              then bindP invalid_command (\<lambda>gc.
                seqP (modifyP (\<lambda>g. g\<lparr>gen_intended_invalid := gen_intended_invalid g + 1\<rparr>)) (ret gc))
              else bindP valid_command (\<lambda>(cmd, intent).
                seqP (on_shadow (shadow_apply cmd))
               (seqP (modifyP (\<lambda>g. g\<lparr>gen_intended_valid := gen_intended_valid g + 1\<rparr>))
                (ret \<lparr>gc_command = cmd, gc_intended_valid = True, gc_intent = intent\<rparr>)))) (\<lambda>gc.
       seqP (modifyP (count_generated gc)) (ret gc))))"

definition generator_stats :: "workload_generator \<Rightarrow> generation_stats" where
  "generator_stats g =
     \<lparr>st_command_count = gen_count g, st_intended_valid = gen_intended_valid g,
      st_intended_invalid = gen_intended_invalid g, st_new_orders = gen_new_orders g, st_cancels = gen_cancels g,
      st_replaces = gen_replaces g, st_intents = sort (gen_intents g)\<rparr>"

section \<open>What a method leaves alone\<close>

definition fixed_part :: "workload_generator \<Rightarrow>
    workload_spec \<times> int \<times> int \<times> int \<times> int \<times> int \<times> int \<times> int \<times> (string, int) dict" where
  "fixed_part g = (gen_spec g, gen_seed g, gen_count g, gen_intended_valid g, gen_intended_invalid g,
     gen_new_orders g, gen_cancels g, gen_replaces g, gen_intents g)"

definition keeps :: "(workload_generator, 'a) prog \<Rightarrow> bool" where
  "keeps m \<longleftrightarrow> (\<forall>g. fixed_part (snd (m g)) = fixed_part g)"

named_theorems keeps_intros \<open>programs that change only the random state, the shadow and the next identifier\<close>

lemma keeps_bind [keeps_intros]: "keeps m \<Longrightarrow> (\<And>x. keeps (f x)) \<Longrightarrow> keeps (bindP m f)"
  unfolding keeps_def bindP_def by (auto split: prod.splits sum.splits) (metis snd_conv)+

lemma keeps_seq [keeps_intros]: "keeps m \<Longrightarrow> keeps n \<Longrightarrow> keeps (seqP m n)"
  unfolding seqP_def by (rule keeps_bind)

lemma keeps_basic [keeps_intros]: "keeps (ret x)" "keeps (raise e)" "keeps (getsP f)" "keeps (read_shadow h)"
    "keeps (on_rng m)" "keeps (on_shadow m')"
  by (simp_all add: keeps_def getsP_def read_shadow_def on_rng_def on_shadow_def fixed_part_def split: prod.splits)

lemma keeps_if [keeps_intros]: "keeps m \<Longrightarrow> keeps n \<Longrightarrow> keeps (if b then m else n)"
  by simp

lemma keeps_let [keeps_intros]: "(\<And>x. keeps (f x)) \<Longrightarrow> keeps (Let v f)"
  by (simp add: Let_def)

lemma keeps_prod [keeps_intros]: "(\<And>x y. keeps (f x y)) \<Longrightarrow> keeps (case p of (x, y) \<Rightarrow> f x y)"
  by (cases p) simp

lemma keeps_option [keeps_intros]: "keeps m \<Longrightarrow> (\<And>x. keeps (f x)) \<Longrightarrow> keeps (case v of None \<Rightarrow> m | Some x \<Rightarrow> f x)"
  by (cases v) simp_all

lemma keeps_id [keeps_intros]: "keeps next_free_id" "keeps allocate_order_id"
proof -
  show n: "keeps next_free_id" by (simp add: keeps_def next_free_id_def fixed_part_def Let_def)
  have "keeps (\<lambda>g. if ws_profile (gen_spec g) = ADVERSARIAL_BOUNDARY then on_rng (chance 1000) g else (Inr False, g))"
    by (simp add: keeps_def on_rng_def fixed_part_def split: prod.splits)
  then show "keeps allocate_order_id" unfolding allocate_order_id_def by (intro keeps_intros n)
qed

lemma keeps_parts [keeps_intros]:
  "keeps (active_choice x)" "keeps (gen_quantity sd)" "keeps (gen_price sd b)" "keeps base_price" "keeps choose_operation"
proof -
  show "keeps (active_choice x)" unfolding active_choice_def by (intro keeps_intros)
  show "keeps (gen_quantity sd)" unfolding gen_quantity_def by (intro keeps_intros)
  show b: "keeps base_price" unfolding base_price_def by (intro keeps_intros)
  show "keeps (gen_price sd b)" unfolding gen_price_def by (intro keeps_intros b)
  show "keeps choose_operation" unfolding choose_operation_def choose_weighted_def by (intro keeps_intros)
qed

lemma keeps_new [keeps_intros]: "keeps build_valid_new"
  unfolding build_valid_new_def by (intro keeps_intros)

lemma keeps_valid [keeps_intros]: "keeps valid_command"
  unfolding valid_command_def valid_cancel_def valid_replace_def by (intro keeps_intros)

lemma keeps_invalid [keeps_intros]: "keeps invalid_command"
  unfolding invalid_command_def invalid_new_def invalid_cancel_def invalid_replace_def invalid_replace_of_def
  by (intro keeps_intros)

lemma keepsD:
  assumes "keeps m" and "m g = (r, g')"
  shows "gen_spec g' = gen_spec g" and "gen_seed g' = gen_seed g" and "gen_count g' = gen_count g"
    and "gen_intended_valid g' = gen_intended_valid g" and "gen_intended_invalid g' = gen_intended_invalid g"
    and "gen_new_orders g' = gen_new_orders g" and "gen_cancels g' = gen_cancels g" and "gen_replaces g' = gen_replaces g"
    and "gen_intents g' = gen_intents g"
proof -
  have "fixed_part g' = fixed_part g" using assms unfolding keeps_def by (metis snd_conv)
  then show "gen_spec g' = gen_spec g" "gen_seed g' = gen_seed g" "gen_count g' = gen_count g"
    "gen_intended_valid g' = gen_intended_valid g" "gen_intended_invalid g' = gen_intended_invalid g"
    "gen_new_orders g' = gen_new_orders g" "gen_cancels g' = gen_cancels g" "gen_replaces g' = gen_replaces g"
    "gen_intents g' = gen_intents g" by (simp_all add: fixed_part_def)
qed

text \<open>A successful step: which commands were chosen, and how the counters move.\<close>

definition step_body :: "bool \<Rightarrow> (workload_generator, generated_command) prog" where
  "step_body intended_invalid =
     (if intended_invalid
      then bindP invalid_command (\<lambda>gc.
        seqP (modifyP (\<lambda>g. g\<lparr>gen_intended_invalid := gen_intended_invalid g + 1\<rparr>)) (ret gc))
      else bindP valid_command (\<lambda>(cmd, intent).
        seqP (on_shadow (shadow_apply cmd))
       (seqP (modifyP (\<lambda>g. g\<lparr>gen_intended_valid := gen_intended_valid g + 1\<rparr>))
        (ret \<lparr>gc_command = cmd, gc_intended_valid = True, gc_intent = intent\<rparr>))))"

lemma next_generated_unfold:
  "next_generated g =
     (if gen_count g \<ge> ws_command_count (gen_spec g) then (Inl StopIteration, g)
      else bindP (on_rng (chance (ws_invalid_basis_points (gen_spec g)))) (\<lambda>b.
        bindP (step_body b) (\<lambda>gc. seqP (modifyP (count_generated gc)) (ret gc))) g)"
  unfolding next_generated_def step_body_def by (simp add: bindP_def getsP_def)

lemma count_generated_simps [simp]:
  "gen_spec (count_generated gc g) = gen_spec g" "gen_count (count_generated gc g) = gen_count g + 1"
  "gen_shadow (count_generated gc g) = gen_shadow g" "gen_rng (count_generated gc g) = gen_rng g"
  "gen_seed (count_generated gc g) = gen_seed g" "gen_next_order_id (count_generated gc g) = gen_next_order_id g"
  "gen_intended_valid (count_generated gc g) = gen_intended_valid g"
  "gen_intended_invalid (count_generated gc g) = gen_intended_invalid g"
  by (simp_all add: count_generated_def Let_def split: command.splits)

lemma bindP_InrE:
  assumes "bindP m f s = (Inr y, s')"
  obtains x s1 where "m s = (Inr x, s1)" "f x s1 = (Inr y, s')"
  using assms by (auto simp: bindP_def split: prod.splits sum.splits)

lemma seqP_InrE:
  assumes "seqP m n s = (Inr y, s')"
  obtains x s1 where "m s = (Inr x, s1)" "n s1 = (Inr y, s')"
  using assms bindP_InrE unfolding seqP_def by metis

lemma invalid_command_intended: "invalid_command g = (Inr gc, g') \<Longrightarrow> \<not> gc_intended_valid gc"
  unfolding invalid_command_def by (auto elim!: bindP_InrE split: prod.splits)

lemma step_body_cases:
  assumes "step_body b g = (Inr gc, g')"
  obtains (invalid) g1 where "b" "invalid_command g = (Inr gc, g1)" "g' = g1\<lparr>gen_intended_invalid := gen_intended_invalid g1 + 1\<rparr>"
  | (valid) cmd intent g1 sh where "\<not> b" "valid_command g = (Inr (cmd, intent), g1)"
      "shadow_apply cmd (gen_shadow g1) = (Inr (), sh)"
      "g' = g1\<lparr>gen_shadow := sh, gen_intended_valid := gen_intended_valid g1 + 1\<rparr>"
      "gc = \<lparr>gc_command = cmd, gc_intended_valid = True, gc_intent = intent\<rparr>"
proof (cases b)
  case True
  with assms invalid show thesis by (auto simp: step_body_def elim!: bindP_InrE)
next
  case False
  with assms obtain cmd intent g1 where v: "valid_command g = (Inr (cmd, intent), g1)"
    and r: "seqP (on_shadow (shadow_apply cmd))
       (seqP (modifyP (\<lambda>g. g\<lparr>gen_intended_valid := gen_intended_valid g + 1\<rparr>))
        (ret \<lparr>gc_command = cmd, gc_intended_valid = True, gc_intent = intent\<rparr>)) g1 = (Inr gc, g')"
    by (auto simp: step_body_def elim!: bindP_InrE)
  obtain res sh where a: "shadow_apply cmd (gen_shadow g1) = (res, sh)" by fastforce
  with r obtain u where "res = Inr u" by (auto simp: on_shadow_def seqP_def bindP_def split: sum.splits)
  with a r valid [OF False v] show thesis by (simp add: on_shadow_def seqP_def bindP_def modifyP_def)
qed

lemma step_body_frame:
  assumes "step_body b g = (Inr gc, g')"
  shows "gen_spec g' = gen_spec g" and "gen_count g' = gen_count g" and "gen_intents g' = gen_intents g"
    and "gen_new_orders g' = gen_new_orders g" and "gen_cancels g' = gen_cancels g" and "gen_replaces g' = gen_replaces g"
    and "gen_intended_valid g' = gen_intended_valid g + (if b then 0 else 1)"
    and "gen_intended_invalid g' = gen_intended_invalid g + (if b then 1 else 0)"
    and "gc_intended_valid gc = (\<not> b)"
proof -
  from assms have "gen_spec g' = gen_spec g \<and> gen_count g' = gen_count g \<and> gen_intents g' = gen_intents g \<and>
    gen_new_orders g' = gen_new_orders g \<and> gen_cancels g' = gen_cancels g \<and> gen_replaces g' = gen_replaces g \<and>
    gen_intended_valid g' = gen_intended_valid g + (if b then 0 else 1) \<and>
    gen_intended_invalid g' = gen_intended_invalid g + (if b then 1 else 0) \<and> gc_intended_valid gc = (\<not> b)"
  proof (cases rule: step_body_cases)
    case (invalid g1)
    with keepsD [OF keeps_invalid invalid(2)] invalid_command_intended show ?thesis by auto
  next
    case (valid cmd intent g1 sh)
    with keepsD [OF keeps_valid valid(2)] show ?thesis by simp
  qed
  then show "gen_spec g' = gen_spec g" "gen_count g' = gen_count g" "gen_intents g' = gen_intents g"
    "gen_new_orders g' = gen_new_orders g" "gen_cancels g' = gen_cancels g" "gen_replaces g' = gen_replaces g"
    "gen_intended_valid g' = gen_intended_valid g + (if b then 0 else 1)"
    "gen_intended_invalid g' = gen_intended_invalid g + (if b then 1 else 0)" "gc_intended_valid gc = (\<not> b)" by simp_all
qed

lemma next_generated_cases:
  assumes "next_generated g = (Inr gc, g')"
  obtains b s g1 where "gen_count g < ws_command_count (gen_spec g)"
    "chance (ws_invalid_basis_points (gen_spec g)) (gen_rng g) = (Inr b, s)"
    "step_body b (g\<lparr>gen_rng := s\<rparr>) = (Inr gc, g1)" "g' = count_generated gc g1"
  using assms unfolding next_generated_unfold
  by (auto simp: on_rng_def split: if_splits prod.splits elim!: bindP_InrE)

lemma next_generated_counts:
  assumes "next_generated g = (Inr gc, g')"
  shows "gen_spec g' = gen_spec g" and "gen_count g' = gen_count g + 1" and "gen_count g < ws_command_count (gen_spec g)"
proof -
  from assms obtain b s g1 where "gen_count g < ws_command_count (gen_spec g)"
    and "step_body b (g\<lparr>gen_rng := s\<rparr>) = (Inr gc, g1)" and g': "g' = count_generated gc g1"
    by (rule next_generated_cases)
  with step_body_frame(1,2) [OF this(2)] show "gen_spec g' = gen_spec g" "gen_count g' = gen_count g + 1"
    "gen_count g < ws_command_count (gen_spec g)" by simp_all
qed

text \<open>\<open>for generated in WorkloadGenerator(spec, seed)\<close>: the loop ends with the iterator.\<close>

function drain :: "workload_generator \<Rightarrow> generated_command list result \<times> workload_generator" where
  "drain g =
     (case next_generated g of
        (Inl e, g') \<Rightarrow> (if e = StopIteration then Inr [] else Inl e, g')
      | (Inr gc, g') \<Rightarrow> (case drain g' of (Inl e, g'') \<Rightarrow> (Inl e, g'') | (Inr gcs, g'') \<Rightarrow> (Inr (gc # gcs), g'')))"
  by pat_completeness auto

termination
  by (relation "measure (\<lambda>g. nat (ws_command_count (gen_spec g) - gen_count g))")
    (auto dest!: sym [of _ "next_generated _"] simp: next_generated_counts)

declare drain.simps [simp del]

definition iter_generated :: "workload_spec \<Rightarrow> int \<Rightarrow> workload_generator result" where
  "iter_generated sp seed = WorkloadGenerator sp seed"

definition iter_commands :: "workload_spec \<Rightarrow> int \<Rightarrow> command list result" where
  "iter_commands sp seed =
     bindR (WorkloadGenerator sp seed) (\<lambda>g. bindR (fst (drain g)) (\<lambda>gcs. Inr (map gc_command gcs)))"

section \<open>Profiles\<close>

record profile_defaults =
  pd_price_model :: price_model
  pd_operation_weights :: operation_weights
  pd_invalid_basis_points :: int
  pd_aggressive_basis_points :: int
  pd_market_basis_points :: int
  pd_boundary_quantity_basis_points :: int

definition defaults :: "price_model \<Rightarrow> int \<times> int \<times> int \<Rightarrow> int \<Rightarrow> int \<Rightarrow> int \<Rightarrow> int \<Rightarrow> profile_defaults" where
  "defaults model w invalid aggressive market boundary =
     (case w of (n, c, r) \<Rightarrow>
      \<lparr>pd_price_model = model, pd_operation_weights = \<lparr>w_new = n, w_cancel = c, w_replace = r\<rparr>,
       pd_invalid_basis_points = invalid, pd_aggressive_basis_points = aggressive,
       pd_market_basis_points = market, pd_boundary_quantity_basis_points = boundary\<rparr>)"

fun PROFILE_DEFAULTS :: "workload_profile \<Rightarrow> profile_defaults" where
  "PROFILE_DEFAULTS UNIFORM_SYNTHETIC = defaults UNIFORM (60, 20, 20) 500 2000 4000 1000"
| "PROFILE_DEFAULTS CLUSTERED_MID = defaults CLUSTERED (65, 15, 20) 500 2500 3500 1500"
| "PROFILE_DEFAULTS HOT_LEVEL_CONTENTION = defaults HOT_LEVEL (70, 15, 15) 500 3000 3000 2000"
| "PROFILE_DEFAULTS SPARSE_WIDE_BOOK = defaults SPARSE_WIDE (70, 15, 15) 500 1500 4000 1500"
| "PROFILE_DEFAULTS CANCEL_HEAVY = defaults CLUSTERED (35, 50, 15) 500 1500 3000 1000"
| "PROFILE_DEFAULTS SWEEP_HEAVY = defaults CLUSTERED (75, 10, 15) 500 7000 5000 3000"
| "PROFILE_DEFAULTS REPLACE_HEAVY = defaults CLUSTERED (35, 15, 50) 500 2500 3000 1500"
| "PROFILE_DEFAULTS INVALID_MIX = defaults UNIFORM (50, 25, 25) 3000 2000 4000 2000"
| "PROFILE_DEFAULTS TRACE_DRIVEN_SYNTHETIC = defaults TREND_MEAN_REVERT (65, 15, 20) 500 3000 3500 1500"
| "PROFILE_DEFAULTS ADVERSARIAL_BOUNDARY = defaults ADVERSARIAL_LEGAL (55, 20, 25) 1500 4000 4000 8000"

definition resolve_workload_spec ::
  "workload_profile \<Rightarrow> int \<Rightarrow> int \<Rightarrow> matching_config \<Rightarrow> int option \<Rightarrow> int \<Rightarrow> int \<Rightarrow> int \<Rightarrow> int \<Rightarrow> int \<Rightarrow> workload_spec result" where
  "resolve_workload_spec profile command_count iid engine invalid mid span target clients interval =
     (let d = PROFILE_DEFAULTS profile in
      WorkloadSpec
        \<lparr>ws_command_count = command_count, ws_instrument_id = iid, ws_engine = engine, ws_profile = profile,
         ws_price_model = pd_price_model d, ws_operation_weights = pd_operation_weights d,
         ws_invalid_basis_points = (case invalid of None \<Rightarrow> pd_invalid_basis_points d | Some v \<Rightarrow> v),
         ws_aggressive_basis_points = pd_aggressive_basis_points d,
         ws_market_basis_points = pd_market_basis_points d,
         ws_boundary_quantity_basis_points = pd_boundary_quantity_basis_points d,
         ws_mid_price = mid, ws_price_span_ticks = span,
         ws_active_order_target = min target (max_active_orders engine), ws_client_count = clients,
         ws_snapshot_interval = interval\<rparr>)"

end
