(* ===== verification/Shadow_Refinement.thy ===== *)
theory Shadow_Refinement
  imports Generation Step_Outcomes
begin

text \<open>
  The generator's shadow book follows the price-time specification.  The shadow keeps dictionaries of
  orders and queues of identifiers; a relation ties it to a book of the specification, and every
  operation of the shadow on a command that the specification accepts leads to the specified book.
\<close>

section \<open>The relation\<close>

definition shadow_of :: "order \<Rightarrow> shadow_order" where
  "shadow_of ord =
     \<lparr>so_order_id = ord_order_id ord, so_client_id = ord_client_id ord, so_instrument_id = ord_instrument_id ord,
      so_side = ord_side ord, so_price = ord_price ord, so_remaining_quantity = ord_remaining_quantity ord\<rparr>"

definition level_ids :: "order list \<Rightarrow> int \<Rightarrow> int list" where
  "level_ids os p = map ord_order_id (filter (\<lambda>ord. ord_price ord = p) os)"

definition level_queue :: "order list \<Rightarrow> int \<Rightarrow> int list option" where
  "level_queue os p = (if level_ids os p = [] then None else Some (level_ids os p))"

definition shadow_rel :: "generation_shadow \<Rightarrow> view \<Rightarrow> bool" where
  "shadow_rel sh v \<longleftrightarrow> dict_ok (sh_active sh) \<and> (\<forall>sd. dict_ok (shadow_levels sd sh)) \<and>
     (\<forall>i so. map_of (sh_active sh) i = Some so \<longleftrightarrow> (\<exists>sd. \<exists>ord \<in> set (v sd). ord_order_id ord = i \<and> shadow_of ord = so)) \<and>
     (\<forall>sd p. map_of (shadow_levels sd sh) p = level_queue (v sd) p)"

text \<open>What the relation needs of a book: unique identifiers, orders on their side, prices in order.\<close>

definition tidy :: "view \<Rightarrow> bool" where
  "tidy v \<longleftrightarrow> distinct (map ord_order_id (v BUY @ v SELL)) \<and> (\<forall>sd. \<forall>ord \<in> set (v sd). ord_side ord = sd) \<and>
     (\<forall>sd. sorted (map (price_key sd \<circ> ord_price) (v sd)))"

lemma level_ids_simps [simp]:
  "level_ids [] p = []"
  "level_ids (ord # os) p = (if ord_price ord = p then ord_order_id ord # level_ids os p else level_ids os p)"
  by (simp_all add: level_ids_def)

lemma set_level_ids: "set (level_ids os p) = {ord_order_id ord | ord. ord \<in> set os \<and> ord_price ord = p}"
  by (auto simp: level_ids_def)

lemma shadow_relD:
  assumes "shadow_rel sh v"
  shows "dict_ok (sh_active sh)" and "dict_ok (shadow_levels sd sh)"
    and "map_of (sh_active sh) i = Some so \<longleftrightarrow> (\<exists>sd. \<exists>ord \<in> set (v sd). ord_order_id ord = i \<and> shadow_of ord = so)"
    and "map_of (shadow_levels sd sh) p = level_queue (v sd) p"
  using assms unfolding shadow_rel_def by blast+

lemma shadow_relI:
  assumes "dict_ok (sh_active sh)" and "\<And>sd. dict_ok (shadow_levels sd sh)"
    and "\<And>i so. map_of (sh_active sh) i = Some so \<longleftrightarrow> (\<exists>sd. \<exists>ord \<in> set (v sd). ord_order_id ord = i \<and> shadow_of ord = so)"
    and "\<And>sd p. map_of (shadow_levels sd sh) p = level_queue (v sd) p"
  shows "shadow_rel sh v"
  using assms unfolding shadow_rel_def by blast

lemma tidyD:
  assumes "tidy v"
  shows "distinct (map ord_order_id (v sd))" and "\<And>ord. ord \<in> set (v sd) \<Longrightarrow> ord_side ord = sd"
    and "sorted (map (price_key sd \<circ> ord_price) (v sd))"
    and "x \<in> set (v sd) \<Longrightarrow> y \<in> set (v sd') \<Longrightarrow> ord_order_id x = ord_order_id y \<Longrightarrow> x = y \<and> sd = sd'"
proof -
  show d: "distinct (map ord_order_id (v sd))" for sd using assms by (cases sd) (auto simp: tidy_def)
  show s: "ord_side ord = sd" if "ord \<in> set (v sd)" for sd ord using assms that by (auto simp: tidy_def)
  show "sorted (map (price_key sd \<circ> ord_price) (v sd))" using assms by (simp add: tidy_def)
  assume xy: "x \<in> set (v sd)" "y \<in> set (v sd')" "ord_order_id x = ord_order_id y"
  have "sd = sd'"
  proof (rule ccontr)
    assume "sd \<noteq> sd'"
    then have "{sd, sd'} = {BUY, SELL}" by (cases sd; cases sd') auto
    then have "set (map ord_order_id (v sd)) \<inter> set (map ord_order_id (v sd')) = {}"
      using assms by (auto simp: tidy_def doubleton_eq_iff)
    with xy show False by (metis disjoint_iff imageI set_map)
  qed
  with xy d [of sd] show "x = y \<and> sd = sd'" by (simp add: distinct_map inj_on_def)
qed

lemma tidy_find:
  assumes "tidy v"
  shows "find_order i v = Some ord \<longleftrightarrow> (\<exists>sd. ord \<in> set (v sd)) \<and> ord_order_id ord = i"
    and "find_order i v = None \<longleftrightarrow> (\<forall>sd. \<forall>ord \<in> set (v sd). ord_order_id ord \<noteq> i)"
proof -
  have both: "(\<exists>sd. x \<in> set (v sd)) \<longleftrightarrow> x \<in> set (v BUY @ v SELL)" for x by (metis Un_iff set_append side.exhaust)
  show none: "find_order i v = None \<longleftrightarrow> (\<forall>sd. \<forall>ord \<in> set (v sd). ord_order_id ord \<noteq> i)"
    unfolding find_order_def find_None_iff using both by blast
  show "find_order i v = Some ord \<longleftrightarrow> (\<exists>sd. ord \<in> set (v sd)) \<and> ord_order_id ord = i"
  proof
    assume "find_order i v = Some ord"
    with find_order_in [OF this] both show "(\<exists>sd. ord \<in> set (v sd)) \<and> ord_order_id ord = i" by blast
  next
    assume r: "(\<exists>sd. ord \<in> set (v sd)) \<and> ord_order_id ord = i"
    with none obtain y where y: "find_order i v = Some y" by blast
    with find_order_in [OF y] both r tidyD(4) [OF assms] show "find_order i v = Some ord" by metis
  qed
qed

lemma view_ok_tidy: "view_ok c iid latest v \<Longrightarrow> tidy v"
proof -
  assume ok: "view_ok c iid latest v"
  have "sorted (map (price_key sd \<circ> ord_price) (v sd))" for sd
    using view_okD(1) [OF ok, of sd]
    by (auto simp: sorted_wrt_map rank_def less_prod_def intro: sorted_wrt_mono_rel [rotated])
  then show "tidy v" using view_okD(2,3) [OF ok] by (auto simp: tidy_def order_ok_def)
qed

lemma empty_shadow_rel: "shadow_rel GenerationShadow (\<lambda>_. [])"
  by (simp add: shadow_rel_def GenerationShadow_def shadow_levels_def level_queue_def split: side.splits)

text \<open>The shadow sees each order by its identifier, and counts them.\<close>

lemma shadow_active_order:
  assumes "shadow_rel sh v" and "tidy v"
  shows "map_of (sh_active sh) i = map_option shadow_of (find_order i v)"
proof (cases "find_order i v")
  case None
  then have "map_of (sh_active sh) i = None"
    using shadow_relD(3) [OF assms(1), of i] tidy_find(2) [OF assms(2)] by (metis not_None_eq)
  then show ?thesis using None by simp
next
  case (Some ord)
  with tidy_find(1) [OF assms(2)] shadow_relD(3) [OF assms(1)] have "map_of (sh_active sh) i = Some (shadow_of ord)" by blast
  with Some show ?thesis by simp
qed

lemma shadow_keys:
  assumes "shadow_rel sh v"
  shows "set (map fst (sh_active sh)) = set (map ord_order_id (v BUY @ v SELL))"
proof (rule set_eqI)
  fix i
  have "i \<in> set (map fst (sh_active sh)) \<longleftrightarrow> (\<exists>so. map_of (sh_active sh) i = Some so)"
    by (metis map_of_eq_None_iff not_None_eq set_map)
  also have "\<dots> \<longleftrightarrow> (\<exists>sd. \<exists>ord \<in> set (v sd). ord_order_id ord = i)" using shadow_relD(3) [OF assms] by blast
  also have "\<dots> \<longleftrightarrow> i \<in> set (map ord_order_id (v BUY @ v SELL))" by (auto simp: image_iff) (metis side.exhaust)+
  finally show "i \<in> set (map fst (sh_active sh)) \<longleftrightarrow> i \<in> set (map ord_order_id (v BUY @ v SELL))" .
qed

lemma shadow_count:
  assumes "shadow_rel sh v" and "tidy v"
  shows "length (sh_active sh) = length (v BUY) + length (v SELL)"
proof -
  have "length (map fst (sh_active sh)) = length (map ord_order_id (v BUY @ v SELL))"
    using shadow_keys [OF assms(1)] shadow_relD(1) [OF assms(1)] assms(2) distinct_card
    unfolding tidy_def by metis
  then show ?thesis by simp
qed

lemma shadow_empty: "shadow_rel sh v \<Longrightarrow> tidy v \<Longrightarrow> sh_active sh = [] \<longleftrightarrow> v BUY = [] \<and> v SELL = []"
  using shadow_count [of sh v] by auto

section \<open>Removing an order\<close>

lemma level_ids_remove: "level_ids (spec_remove i os) p = removeAll i (level_ids os p)"
  by (induction os) (auto simp: spec_remove_def)

lemma level_ids_distinct: "distinct (map ord_order_id os) \<Longrightarrow> distinct (level_ids os p)"
  unfolding level_ids_def by (simp add: distinct_map inj_on_def)

lemma removed_queue:
  assumes "tidy v" and "ord \<in> set (v sd)"
  shows "level_queue (spec_remove_order (ord_order_id ord) v sd') p =
    (if sd' = sd \<and> p = ord_price ord
     then (let q = remove1 (ord_order_id ord) (level_ids (v sd) p) in if q = [] then None else Some q)
     else level_queue (v sd') p)"
proof -
  have "removeAll (ord_order_id ord) (level_ids (v sd') p) = level_ids (v sd') p" if "\<not> (sd' = sd \<and> p = ord_price ord)"
    using that tidyD(4) [OF assms] by (intro removeAll_id) (fastforce simp: set_level_ids)
  with level_ids_distinct [OF tidyD(1) [OF assms(1)], of sd p] show ?thesis
    by (auto simp: level_queue_def spec_remove_order_def level_ids_remove distinct_remove1_removeAll Let_def)
qed

lemma unqueue_levels:
  assumes "dict_ok (shadow_levels sd sh)" and "map_of (shadow_levels sd sh) p = Some q"
  shows "map_of (shadow_levels sd' (unqueue sd p i q sh)) p' =
      (if sd' = sd \<and> p' = p then (let q' = remove1 i q in if q' = [] then None else Some q')
       else map_of (shadow_levels sd' sh) p')"
    and "dict_ok (shadow_levels sd' sh) \<Longrightarrow> dict_ok (shadow_levels sd' (unqueue sd p i q sh))"
  by (cases "sd' = sd"; auto simp: unqueue_def Let_def delete_conv' distinct_delete)+

lemma shadow_remove_refines:
  assumes rel: "shadow_rel sh v" and t: "tidy v" and ord: "ord \<in> set (v sd)"
  shows "\<exists>sh'. shadow_remove (ord_order_id ord) sh = (Inr (), sh') \<and> shadow_rel sh' (spec_remove_order (ord_order_id ord) v)"
proof -
  let ?i = "ord_order_id ord" and ?p = "ord_price ord"
  let ?q = "level_ids (v sd) ?p"
  let ?sh = "sh\<lparr>sh_active := AList.delete ?i (sh_active sh)\<rparr>"
  have so: "map_of (sh_active sh) ?i = Some (shadow_of ord)" using shadow_relD(3) [OF rel] ord by blast
  have iq: "?i \<in> set ?q" using ord by (auto simp: set_level_ids)
  then have lv: "map_of (shadow_levels sd sh) ?p = Some ?q" using shadow_relD(4) [OF rel] by (auto simp: level_queue_def)
  let ?r = "push_inactive ?i (unqueue sd ?p ?i ?q ?sh)"
  have "shadow_remove ?i sh = (Inr (), ?r)"
    using so lv iq tidyD(2) [OF t ord]
    by (simp add: shadow_remove_def pop_active_def seqP_def bindP_def dict_getitem_def shadow_of_def modifyP_def)
  moreover have "shadow_rel ?r (spec_remove_order ?i v)"
  proof (rule shadow_relI)
    show "dict_ok (sh_active ?r)" using shadow_relD(1) [OF rel] by (simp add: distinct_delete)
    show "dict_ok (shadow_levels sd' ?r)" for sd'
      using unqueue_levels(2) [of sd ?sh ?p ?q sd'] shadow_relD(2) [OF rel] lv by simp
    show "map_of (shadow_levels sd' ?r) p' = level_queue (spec_remove_order ?i v sd') p'" for sd' p'
      using unqueue_levels(1) [of sd ?sh ?p ?q sd' ?i p'] shadow_relD(2,4) [OF rel] lv removed_queue [OF t ord, of sd' p'] by simp
    show "map_of (sh_active ?r) j = Some so' \<longleftrightarrow>
        (\<exists>sd'. \<exists>x \<in> set (spec_remove_order ?i v sd'). ord_order_id x = j \<and> shadow_of x = so')" for j so'
      using shadow_relD(3) [OF rel, of j so']
      by (auto simp: spec_remove_order_def spec_remove_def delete_conv')
  qed
  ultimately show ?thesis by blast
qed

section \<open>Matching\<close>

definition order_key :: "order \<Rightarrow> int \<times> side \<times> int" where
  "order_key ord = (ord_order_id ord, ord_side ord, ord_price ord)"

lemma order_key_reduced [simp]: "order_key (reduced x ord) = order_key ord"
  by (simp add: order_key_def)

lemma tidy_keys: "tidy v \<longleftrightarrow> distinct (map fst (map order_key (v BUY) @ map order_key (v SELL))) \<and>
    (\<forall>sd. \<forall>k \<in> set (map order_key (v sd)). fst (snd k) = sd) \<and>
    (\<forall>sd. sorted (map (\<lambda>k. price_key sd (snd (snd k))) (map order_key (v sd))))"
  by (simp add: tidy_def order_key_def comp_def)

lemma tidy_subseq:
  assumes "tidy v" and sub: "\<And>sd. subseq (map order_key (v' sd)) (map order_key (v sd))"
  shows "tidy v'"
  unfolding tidy_keys
proof (intro conjI allI)
  show "distinct (map fst (map order_key (v' BUY) @ map order_key (v' SELL)))"
    using assms(1) subseq_map [OF list_emb_append_mono [OF sub sub], of fst BUY SELL]
    unfolding tidy_keys by (blast intro: subseq_distinct)
  show "\<forall>k \<in> set (map order_key (v' sd)). fst (snd k) = sd" for sd
    using assms(1) subseq_subset [OF sub, of sd] unfolding tidy_keys by blast
  show "sorted (map (\<lambda>k. price_key sd (snd (snd k))) (map order_key (v' sd)))" for sd
    using assms(1) subseq_map [OF sub, of _ sd] unfolding tidy_keys by (blast intro: subseq_sorted_wrt)
qed

lemma opposite_eq [simp]: "opposite sd = other_side sd"
  by (cases sd) (simp_all add: opposite_def)

lemma shadow_crosses_eq [simp]: "shadow_crosses sd limit p = limit_crosses sd limit p"
  by (cases sd) (simp_all add: shadow_crosses_def limit_crosses_def split: option.splits)

lemma shadow_prices:
  assumes "shadow_rel sh v"
  shows "set (map fst (shadow_levels sd sh)) = ord_price ` set (v sd)"
proof -
  have "p \<in> set (map fst (shadow_levels sd sh)) \<longleftrightarrow> level_queue (v sd) p \<noteq> None" for p
    using shadow_relD(4) [OF assms, of sd p] by (metis map_of_eq_None_iff set_map)
  also have "level_queue (v sd) p \<noteq> None \<longleftrightarrow> p \<in> ord_price ` set (v sd)" for p
    by (auto simp: level_queue_def level_ids_def filter_empty_conv)
  finally show ?thesis by blast
qed

lemma shadow_levels_empty: "shadow_rel sh v \<Longrightarrow> shadow_levels sd sh = [] \<longleftrightarrow> v sd = []"
  using shadow_prices [of sh v sd] by (metis image_is_empty list.map_disc_iff set_empty)

lemma best_price_head:
  assumes "shadow_rel sh v" and "tidy v" and "v sd = ord # os"
  shows "shadow_levels sd sh \<noteq> []"
    and "sd = SELL \<Longrightarrow> Min (set (map fst (sh_asks sh))) = ord_price ord"
    and "sd = BUY \<Longrightarrow> Max (set (map fst (sh_bids sh))) = ord_price ord"
proof -
  show "shadow_levels sd sh \<noteq> []" using shadow_levels_empty [OF assms(1)] assms(3) by simp
  have s: "sorted (map (price_key sd \<circ> ord_price) (ord # os))" using tidyD(3) [OF assms(2), of sd] assms(3) by simp
  show "Min (set (map fst (sh_asks sh))) = ord_price ord" if "sd = SELL"
  proof -
    have "Min (ord_price ` set (v sd)) = ord_price ord"
      using s that assms(3) by (intro Min_eqI) (auto simp: price_key_def index_descending_def)
    with shadow_prices [OF assms(1), of sd] that show ?thesis by (simp add: shadow_levels_def)
  qed
  show "Max (set (map fst (sh_bids sh))) = ord_price ord" if "sd = BUY"
  proof -
    have "Max (ord_price ` set (v sd)) = ord_price ord"
      using s that assms(3) by (intro Max_eqI) (auto simp: price_key_def index_descending_def)
    with shadow_prices [OF assms(1), of sd] that show ?thesis by (simp add: shadow_levels_def)
  qed
qed

lemma best_opposite_head:
  assumes "shadow_rel sh v" and "tidy v" and "v (other_side sd) = ord # os"
  shows "best_opposite sd sh = ord_price ord"
  using best_price_head [OF assms] by (cases sd) (simp_all add: best_opposite_def)

lemma front_order_head:
  assumes "shadow_rel sh v" and "v sd = ord # os"
  shows "front_order sh sd (ord_price ord) = Inr (ord_order_id ord, shadow_of ord)"
  using shadow_relD(4) [OF assms(1), of sd "ord_price ord"] shadow_relD(3) [OF assms(1)] assms(2)
  by (auto simp: front_order_Inr level_queue_def intro!: exI [of _ sd])

lemma reduced_rel:
  assumes rel: "shadow_rel sh v" and t: "tidy v" and hd: "v sd = ord # os"
  shows "shadow_rel (sh\<lparr>sh_active := dict_setitem (ord_order_id ord) ((shadow_of ord)\<lparr>so_remaining_quantity := ord_remaining_quantity ord - x\<rparr>)
      (sh_active sh)\<rparr>) (v(sd := reduced x ord # os))" (is "shadow_rel ?sh ?v")
proof (rule shadow_relI)
  show "dict_ok (sh_active ?sh)" using shadow_relD(1) [OF rel] by simp
  show "dict_ok (shadow_levels sd' ?sh)" for sd' using shadow_relD(2) [OF rel] by simp
  show "map_of (shadow_levels sd' ?sh) p = level_queue (?v sd') p" for sd' p
    using shadow_relD(4) [OF rel, of sd' p] hd by (auto simp: level_queue_def)
  have so: "(shadow_of ord)\<lparr>so_remaining_quantity := ord_remaining_quantity ord - x\<rparr> = shadow_of (reduced x ord)"
    by (simp add: shadow_of_def)
  have uniq: "y \<in> set (v sd') \<Longrightarrow> ord_order_id y = ord_order_id ord \<Longrightarrow> y = ord \<and> sd' = sd" for y sd'
    using tidyD(4) [OF t, of y sd' ord sd] hd by simp
  have dist: "y \<in> set os \<Longrightarrow> ord_order_id y \<noteq> ord_order_id ord" for y
    using tidyD(1) [OF t, of sd] hd by (metis distinct.simps(2) image_eqI list.simps(9) set_map)
  show "map_of (sh_active ?sh) i = Some so \<longleftrightarrow> (\<exists>sd'. \<exists>y \<in> set (?v sd'). ord_order_id y = i \<and> shadow_of y = so)" for i so
  proof (cases "i = ord_order_id ord")
    case True
    have "(\<exists>sd'. \<exists>y \<in> set (?v sd'). ord_order_id y = i \<and> shadow_of y = so) \<longleftrightarrow> shadow_of (reduced x ord) = so"
      using True uniq dist by (auto split: if_splits intro!: exI [of _ sd])
    then show ?thesis using True so by simp
  next
    case False
    have "(\<exists>y \<in> set (?v sd'). ord_order_id y = i \<and> shadow_of y = so) \<longleftrightarrow> (\<exists>y \<in> set (v sd'). ord_order_id y = i \<and> shadow_of y = so)" for sd'
      using False hd by auto
    then show ?thesis using False shadow_relD(3) [OF rel, of i so] by simp
  qed
qed

lemma reduced_tidy: "tidy v \<Longrightarrow> v sd = ord # os \<Longrightarrow> tidy (v(sd := reduced x ord # os))"
  by (rule tidy_subseq [of v]) (auto simp: fun_upd_def)

lemma tail_tidy: "tidy v \<Longrightarrow> v sd = ord # os \<Longrightarrow> tidy (v(sd := os))"
  by (rule tidy_subseq [of v]) (auto simp: fun_upd_def)

lemma remove_head:
  assumes "tidy v" and "v sd = ord # os"
  shows "spec_remove_order (ord_order_id ord) v = v(sd := os)"
proof
  fix sd'
  have "spec_remove (ord_order_id ord) os = os"
    using tidyD(1) [OF assms(1), of sd] assms(2) by (intro spec_remove_absent) (auto simp: image_iff)
  moreover have "spec_remove (ord_order_id ord) (v sd') = v sd'" if "sd' \<noteq> sd"
    using tidyD(4) [OF assms(1), of ord sd _ sd'] assms(2) that by (intro spec_remove_absent ballI) fastforce
  ultimately show "spec_remove_order (ord_order_id ord) v sd' = (v(sd := os)) sd'"
    using assms(2) by (simp add: spec_remove_order_def spec_remove_def)
qed

lemma fill_resting_refines:
  assumes rel: "shadow_rel sh v" and t: "tidy v" and hd: "v sd = ord # os" and x: "x \<le> ord_remaining_quantity ord"
  shows "\<exists>sh'. fill_resting (ord_order_id ord) (shadow_of ord) x sh = (Inr (), sh') \<and>
    shadow_rel sh' (v(sd := if x = ord_remaining_quantity ord then os else reduced x ord # os))"
proof -
  let ?v = "v(sd := reduced x ord # os)"
  let ?sh = "sh\<lparr>sh_active := dict_setitem (ord_order_id ord) ((shadow_of ord)\<lparr>so_remaining_quantity := ord_remaining_quantity ord - x\<rparr>)
      (sh_active sh)\<rparr>"
  note r = reduced_rel [OF rel t hd, of x] and t' = reduced_tidy [OF t hd, of x]
  have sh: "fill_resting (ord_order_id ord) (shadow_of ord) x sh =
      (if x = ord_remaining_quantity ord then shadow_remove (ord_order_id ord) ?sh else (Inr (), ?sh))"
    by (simp add: fill_resting_def Let_def seqP_def bindP_def modifyP_def shadow_of_def)
  show ?thesis
  proof (cases "x = ord_remaining_quantity ord")
    case True
    from shadow_remove_refines [OF r t', of "reduced x ord" sd] remove_head [OF t', of sd "reduced x ord" os]
    show ?thesis using True sh by simp
  next
    case False
    then show ?thesis using r sh by simp
  qed
qed

lemma shadow_match_refines:
  assumes "shadow_rel sh v" and "tidy v" and "0 \<le> n" and "all_positive (v (other_side sd))"
    and "spec_match (limit_crosses sd limit) n (v (other_side sd)) = (fills, n', os')"
  shows "\<exists>sh'. shadow_match sd limit n sh = (Inr n', sh') \<and> shadow_rel sh' (v(other_side sd := os'))"
  using assms
proof (induction "v (other_side sd)" arbitrary: v n sh fills)
  case Nil
  then have "v(other_side sd := os') = v" by auto
  with Nil shadow_levels_empty [OF Nil.prems(1), of "other_side sd"] show ?case
    by (subst shadow_match.simps) auto
next
  case (Cons ord os)
  note hd = Cons.hyps(2) [symmetric]
  note front = front_order_head [OF Cons.prems(1) hd] and best = best_opposite_head [OF Cons.prems(1,2) hd]
  have ne: "shadow_levels (other_side sd) sh \<noteq> []" by (rule best_price_head(1) [OF Cons.prems(1,2) hd])
  show ?case
  proof (cases "n = 0 \<or> \<not> limit_crosses sd limit (ord_price ord)")
    case True
    then have "v(other_side sd := os') = v" "n' = n" using Cons.prems(5) hd by auto
    with True Cons.prems(1,3) best ne show ?thesis by (subst shadow_match.simps) auto
  next
    case False
    let ?q = "ord_remaining_quantity ord"
    let ?x = "min n ?q"
    let ?rest = "if ?x = ?q then os else reduced ?x ord # os"
    have q: "0 < ?q" using Cons.prems(4) hd by simp
    from fill_resting_refines [OF Cons.prems(1,2) hd, of ?x] obtain sh1 where
      sh1: "fill_resting (ord_order_id ord) (shadow_of ord) ?x sh = (Inr (), sh1)"
      "shadow_rel sh1 (v(other_side sd := ?rest))" by auto
    have step: "shadow_match sd limit n sh = shadow_match sd limit (n - ?x) sh1"
      using False Cons.prems(3) ne best front sh1(1) by (subst shadow_match.simps) (simp add: shadow_of_def Let_def)
    show ?thesis
    proof (cases "?q \<le> n")
      case full: True
      with False Cons.prems(5) hd obtain fs where
        m: "spec_match (limit_crosses sd limit) (n - ?q) os = (fs, n', os')" by (auto split: prod.splits)
      from full sh1(2) have "shadow_rel sh1 (v(other_side sd := os))" by simp
      from Cons.hyps(1) [of "v(other_side sd := os)", OF _ this tail_tidy [OF Cons.prems(2) hd], of "n - ?q" fs] m full Cons.prems(4) hd
      show ?thesis by (simp add: step)
    next
      case part: False
      with False Cons.prems(5) hd have "n' = 0" "os' = reduced n ord # os" by auto
      moreover have "shadow_match sd limit 0 sh1 = (Inr 0, sh1)" by (subst shadow_match.simps) simp
      ultimately show ?thesis using sh1(2) part step by simp
    qed
  qed
qed

section \<open>Resting an order\<close>

lemma level_ids_append: "level_ids (os @ os') p = level_ids os p @ level_ids os' p"
  by (simp add: level_ids_def)

lemma level_ids_insert:
  assumes "sorted (map (price_key sd \<circ> ord_price) os)"
  shows "level_ids (spec_insert sd ord os) p =
    (if ord_price ord = p then level_ids os p @ [ord_order_id ord] else level_ids os p)"
proof -
  let ?b = "\<lambda>x. price_key sd (ord_price x) \<le> price_key sd (ord_price ord)"
  have "level_ids os p = level_ids (takeWhile ?b os) p @ level_ids (dropWhile ?b os) p"
    by (simp add: level_ids_append [symmetric])
  moreover have "level_ids (dropWhile ?b os) (ord_price ord) = []"
  proof -
    have "price_key sd (ord_price ord) < price_key sd (ord_price x)" if "x \<in> set (dropWhile ?b os)" for x
      using assms that
    proof (induction os)
      case (Cons y os)
      then show ?case by (cases "?b y") (auto simp: not_le intro: less_le_trans)
    qed simp
    then show ?thesis by (force simp: level_ids_def filter_empty_conv)
  qed
  ultimately show ?thesis by (cases "ord_price ord = p") (simp_all add: spec_insert_def Let_def level_ids_append)
qed

lemma add_active_levels:
  "map_of (shadow_levels sd (add_active so sh)) p =
     (if sd = so_side so \<and> p = so_price so
      then Some (dict_get_default (shadow_levels sd sh) p [] @ [so_order_id so]) else map_of (shadow_levels sd sh) p)"
  "dict_ok (shadow_levels sd sh) \<Longrightarrow> dict_ok (shadow_levels sd (add_active so sh))"
  "sh_active (add_active so sh) = dict_setitem (so_order_id so) so (sh_active sh)"
  by (cases "sd = so_side so"; auto simp: add_active_def Let_def)+

lemma add_active_refines:
  assumes rel: "shadow_rel sh v" and t: "tidy v" and fresh: "\<And>sd' x. x \<in> set (v sd') \<Longrightarrow> ord_order_id x \<noteq> ord_order_id ord"
    and sd: "ord_side ord = sd"
  shows "shadow_rel (add_active (shadow_of ord) sh) (v(sd := spec_insert sd ord (v sd)))" (is "shadow_rel ?sh ?v")
proof (rule shadow_relI)
  show "dict_ok (sh_active ?sh)" using shadow_relD(1) [OF rel] by (simp add: add_active_levels)
  show "dict_ok (shadow_levels sd' ?sh)" for sd' using shadow_relD(2) [OF rel] by (simp add: add_active_levels)
  show "map_of (shadow_levels sd' ?sh) p = level_queue (?v sd') p" for sd' p
    using shadow_relD(4) [OF rel, of sd' p] level_ids_insert [OF tidyD(3) [OF t, of sd], of ord p] sd
    by (auto simp: add_active_levels level_queue_def dict_get_default_def shadow_of_def split: option.splits if_splits)
  show "map_of (sh_active ?sh) i = Some so \<longleftrightarrow> (\<exists>sd'. \<exists>y \<in> set (?v sd'). ord_order_id y = i \<and> shadow_of y = so)" for i so
  proof (cases "i = ord_order_id ord")
    case True
    with fresh have "(\<exists>sd'. \<exists>y \<in> set (?v sd'). ord_order_id y = i \<and> shadow_of y = so) \<longleftrightarrow> shadow_of ord = so"
      by (auto split: if_splits intro!: exI [of _ sd])
    then show ?thesis using True by (simp add: add_active_levels shadow_of_def)
  next
    case False
    then have "(\<exists>y \<in> set (?v sd'). ord_order_id y = i \<and> shadow_of y = so) \<longleftrightarrow> (\<exists>y \<in> set (v sd'). ord_order_id y = i \<and> shadow_of y = so)" for sd'
      by auto
    then show ?thesis using False shadow_relD(3) [OF rel, of i so] by (simp add: add_active_levels shadow_of_def)
  qed
qed

section \<open>The commands\<close>

lemma push_inactive_rel [simp]: "shadow_rel (push_inactive i sh) v \<longleftrightarrow> shadow_rel sh v"
  by (simp add: shadow_rel_def)

text \<open>An order that the specification accepts is matched and rested alike in the shadow.\<close>

lemma apply_new_refines:
  assumes rel: "shadow_rel sh v" and ok: "view_ok c iid latest v" and new: "new_order_ok c iid sd ord"
    and side: "new_side ord = side_value sd"
    and fresh: "find_order (new_order_id ord) v = None"
    and add: "spec_add sd ord sq v = (fills, n, v')"
  shows "\<exists>sh'. apply_new ord sh = (Inr (), sh') \<and> shadow_rel sh' v'"
proof -
  let ?od = "other_side sd"
  have q: "0 \<le> new_quantity ord" using new by (simp add: new_order_ok_def)
  obtain os where m: "spec_match (limit_crosses sd (new_limit_price ord)) (new_quantity ord) (v ?od) = (fills, n, os)"
    using add by (auto simp: spec_add_def Let_def split: prod.splits)
  note t = view_ok_tidy [OF ok] and okm = matched_view_ok [OF ok m q]
  from shadow_match_refines [OF rel t q view_ok_positive [OF ok] m] obtain sh1 where
    sh1: "shadow_match sd (new_limit_price ord) (new_quantity ord) sh = (Inr n, sh1)" "shadow_rel sh1 (v(?od := os))" by blast
  have n: "0 \<le> n" using spec_match_bounds [OF m view_ok_positive [OF ok] q] by simp
  have run: "apply_new ord sh =
      (if residual_rests ord n
       then (case new_limit_price ord of
               None \<Rightarrow> raise AssertionError
             | Some price \<Rightarrow> modifyP (add_active (shadow_of (rested_order ord sd price n sq)))) sh1
       else (Inr (), push_inactive (new_order_id ord) sh1))"
    using n sh1(1) side
    by (auto simp: apply_new_def bindP_def modifyP_def residual_rests_def shadow_of_def rested_order_def split: option.splits)
  show ?thesis
  proof (cases "residual_rests ord n")
    case False
    from spec_add_gone [OF add False] m have "v' = v(?od := os)" by auto
    then show ?thesis using False run sh1(2) by simp
  next
    case True
    from new_order_ok_rests [OF new True] obtain p where p: "new_limit_price ord = Some p" by auto
    let ?o = "rested_order ord sd p n sq"
    from spec_add_rests [OF add p True] m p have v': "v' = (v(?od := os))(sd := spec_insert sd ?o ((v(?od := os)) sd))" by auto
    have "ord_order_id x \<noteq> ord_order_id ?o" if "x \<in> set ((v(?od := os)) sd')" for x sd'
    proof -
      have "\<exists>y \<in> set (v sd'). ord_order_id y = ord_order_id x"
        using that shrinks_elem [OF spec_match_shrinks [OF m view_ok_positive [OF ok] q], of x]
        by (cases "sd' = ?od") (auto simp: remnant_def)
      then show ?thesis using fresh tidy_find(2) [OF t] by (fastforce simp: rested_order_def)
    qed
    from add_active_refines [OF sh1(2) view_ok_tidy [OF okm] this]
    have "shadow_rel (add_active (shadow_of ?o) sh1) v'" by (simp add: v' rested_order_def)
    then show ?thesis using True run p by (simp add: modifyP_def)
  qed
qed

lemma accepted_new_ok:
  assumes "accepts_new c iid ord sq v" and "require_representable (NewOrder ord) = Inr ()"
  shows "new_order_ok c iid (side_of (new_side ord)) ord"
proof -
  have shape: "validate_new_shape ord = NONE" using assms(1) by (simp add: accepts_new_def)
  have "0 \<le> new_client_id ord" "new_client_id ord \<le> U32_MAX" "0 \<le> new_order_id ord"
    "new_order_id ord \<le> U64_MAX" "0 \<le> new_quantity ord" "\<And>p. new_limit_price ord = Some p \<Longrightarrow> p \<le> I64_MAX"
    using assms(2) by (auto simp: require_uint_def require_i64_def bindR_Inr_iff split: if_splits option.splits)
  moreover have "new_client_id ord \<noteq> 0" "new_order_id ord \<noteq> 0" "new_quantity ord \<noteq> 0"
    "new_side ord = side_value (side_of (new_side ord))"
    using shape by (auto simp: validate_new_shape_def is_valid_side_def side_of_def split: if_splits)
  moreover have "new_order_type ord = order_type_value LIMIT \<and> (\<exists>p. new_limit_price ord = Some p \<and> 0 < p) \<or>
      new_order_type ord = order_type_value MARKET \<and> new_limit_price ord = None"
    using shape by (auto simp: validate_new_shape_def is_valid_order_type_def split: if_splits option.splits)
  ultimately show ?thesis
    using assms(1) unfolding new_order_ok_def accepts_new_def by (auto simp: int_one_le_iff_zero_less)
qed

lemma accepted_replace_ok:
  assumes "accepts_replace c iid cmd sq v" and "require_representable (ReplaceOrder cmd) = Inr ()"
    and "order_ok c iid latest (ord_side old) old"
  shows "new_order_ok c iid (ord_side old) (replacement_order cmd old)"
proof -
  have shape: "validate_replace_shape cmd = NONE" using assms(1) by (simp add: accepts_replace_def)
  have "0 \<le> rep_new_order_id cmd" "rep_new_order_id cmd \<le> U64_MAX" "0 \<le> rep_new_quantity cmd" "rep_new_limit_price cmd \<le> I64_MAX"
    using assms(2) by (auto simp: require_uint_def require_i64_def bindR_Inr_iff split: if_splits)
  moreover have "rep_new_order_id cmd \<noteq> 0" "rep_new_quantity cmd \<noteq> 0" "0 < rep_new_limit_price cmd"
    using shape by (auto simp: validate_replace_shape_def split: if_splits)
  ultimately show ?thesis
    using assms(1,3) by (auto simp: new_order_ok_def replacement_order_def order_ok_def accepts_replace_def)
qed

lemma removed_view_ok: "view_ok c iid latest v \<Longrightarrow> view_ok c iid latest (spec_remove_order i v)"
  using view_ok_shrink [of c iid latest v "spec_remove_order i v"] spec_remove_shrinks [OF view_ok_positive, of c iid latest v]
  by (simp add: spec_remove_order_def)

lemma spec_aggress_view: "snd (spec_aggress iid sd ord sq v0 v es) = snd (snd (spec_add sd ord sq v))"
  by (simp add: spec_aggress_def Let_def split: prod.splits)

lemma shadow_replace:
  assumes "shadow_rel sh v" and "tidy v" and "old \<in> set (v sd)" and "ord_order_id old = rep_old_order_id c"
    and "shadow_remove (rep_old_order_id c) sh = (Inr (), sh1)"
  shows "shadow_apply (ReplaceOrder c) sh = apply_new (replacement_order c old) sh1"
proof -
  have "map_of (sh_active sh) (rep_old_order_id c) = Some (shadow_of old)"
    using shadow_relD(3) [OF assms(1)] assms(3,4) by blast
  with assms(5) show ?thesis
    by (simp add: bindP_def seqP_def dict_getitem_def shadow_of_def replacement_order_def)
qed

theorem shadow_apply_refines:
  assumes rel: "shadow_rel sh v" and ok: "view_ok c iid latest v" and acc: "accepts c iid cmd sq v"
    and rep: "require_representable cmd = Inr ()"
  shows "\<exists>sh'. shadow_apply cmd sh = (Inr (), sh') \<and> shadow_rel sh' (snd (spec_step c iid cmd sq v))"
proof (cases cmd)
  case (NewOrder ord)
  let ?sd = "side_of (new_side ord)"
  obtain fills n v' where add: "spec_add ?sd ord sq v = (fills, n, v')" by (metis prod_cases3)
  have a: "accepts_new c iid ord sq v" using acc NewOrder by simp
  note new = accepted_new_ok [OF a] rep [unfolded NewOrder]
  have "find_order (new_order_id ord) v = None" using a by (simp add: accepts_new_def)
  from apply_new_refines [OF rel ok new(1) [OF new(2)] _ this add] new(1) [OF new(2)]
  show ?thesis using NewOrder add spec_new_accepts [OF a] by (simp add: spec_aggress_view new_order_ok_def)
next
  case (CancelOrder c1)
  with acc obtain ord where f: "find_order (cancel_order_id c1) v = Some ord"
    and a: "accepts_cancel iid c1 v" by (auto simp: accepts_cancel_def split: option.splits)
  from f tidy_find(1) [OF view_ok_tidy [OF ok]] obtain sd where "ord \<in> set (v sd)" "ord_order_id ord = cancel_order_id c1" by blast
  with shadow_remove_refines [OF rel view_ok_tidy [OF ok] this(1)] spec_cancel_accepts [OF a] CancelOrder
  show ?thesis by simp
next
  case (ReplaceOrder c1)
  let ?v = "spec_remove_order (rep_old_order_id c1) v"
  note t = view_ok_tidy [OF ok]
  from acc ReplaceOrder obtain old where f: "find_order (rep_old_order_id c1) v = Some old"
    and a: "accepts_replace c iid c1 sq v" by (auto simp: accepts_replace_def split: option.splits)
  from f tidy_find(1) [OF t] obtain sd where old: "old \<in> set (v sd)" "ord_order_id old = rep_old_order_id c1" by blast
  then have "order_ok c iid latest (ord_side old) old" using view_okD(2) [OF ok, of old sd] by (simp add: order_ok_def)
  note new = accepted_replace_ok [OF a rep [unfolded ReplaceOrder] this]
  obtain fills n v' where add: "spec_add (ord_side old) (replacement_order c1 old) sq ?v = (fills, n, v')" by (metis prod_cases3)
  from shadow_remove_refines [OF rel t old(1)] old(2) obtain sh1 where
    sh1: "shadow_remove (rep_old_order_id c1) sh = (Inr (), sh1)" "shadow_rel sh1 ?v" by auto
  have "find_order (new_order_id (replacement_order c1 old)) v = None" using a by (simp add: accepts_replace_def replacement_order_def)
  then have "find_order (new_order_id (replacement_order c1 old)) ?v = None"
    using tidy_find(2) [OF t] tidy_find(2) [OF view_ok_tidy [OF removed_view_ok [OF ok]]]
    by (auto simp: spec_remove_order_def spec_remove_def)
  from apply_new_refines [OF sh1(2) removed_view_ok [OF ok] new _ this add] shadow_replace [OF rel t old sh1(1)]
    spec_replace_accepts [OF a f] add ReplaceOrder
  show ?thesis by (simp add: replacement_order_def spec_aggress_view)
qed

end
