(* ===== verification/Workload_Choices.thy ===== *)
theory Workload_Choices
  imports Shadow_Refinement
begin

text \<open>
  What the generator's choices can be.  A predicate transformer says that a method returns with a
  postcondition; each method of the generator gets one rule, stated against the book that the shadow
  represents, and the rules of the composite methods follow from those of their parts.
\<close>

section \<open>Methods that return\<close>

definition sure :: "('s, 'a) prog \<Rightarrow> 's \<Rightarrow> ('a \<Rightarrow> 's \<Rightarrow> bool) \<Rightarrow> bool" where
  "sure m s Q \<longleftrightarrow> (\<exists>x s'. m s = (Inr x, s') \<and> Q x s')"

named_theorems sure_intros \<open>rules for methods that return\<close>

lemma sure_mono: "sure m s P \<Longrightarrow> (\<And>x s'. P x s' \<Longrightarrow> Q x s') \<Longrightarrow> sure m s Q"
  unfolding sure_def by blast

lemma sure_basic [simp]:
  "sure (ret x) s Q \<longleftrightarrow> Q x s"
  "sure (getsP f) s Q \<longleftrightarrow> Q (f s) s"
  "sure (modifyP h) s R \<longleftrightarrow> R () (h s)"
  by (simp_all add: sure_def ret_def getsP_def modifyP_def)

lemma sure_bind [simp]: "sure (bindP m f) s Q \<longleftrightarrow> sure m s (\<lambda>x s'. sure (f x) s' Q)"
  by (auto simp: sure_def bindP_def split: prod.splits sum.splits)

lemma sure_seq [simp]: "sure (seqP m n) s Q \<longleftrightarrow> sure m s (\<lambda>x s'. sure n s' Q)"
  by (simp add: seqP_def)

lemma sure_let [simp]: "sure (Let v f) s Q \<longleftrightarrow> sure (f v) s Q"
  by (simp add: Let_def)

lemma sure_if: "(b \<Longrightarrow> sure m s Q) \<Longrightarrow> (\<not> b \<Longrightarrow> sure n s Q) \<Longrightarrow> sure (if b then m else n) s Q"
  by simp

lemma sure_prod [simp]: "sure (case p of (x, y) \<Rightarrow> f x y) s Q \<longleftrightarrow> sure (f (fst p) (snd p)) s Q"
  by (cases p) simp

lemma sure_on_rng:
  assumes "sure m (gen_rng g) (\<lambda>x r. Q x (g\<lparr>gen_rng := r\<rparr>))"
  shows "sure (on_rng m) g Q"
  using assms by (auto simp: sure_def on_rng_def)

lemma sure_randbelow:
  assumes "1 \<le> n" and "n \<le> 2 ^ 64" and "\<And>r s'. 0 \<le> r \<Longrightarrow> r < n \<Longrightarrow> Q r s'"
  shows "sure (randbelow n) s Q"
  using randbelow_returns [OF assms(1,2), of s] assms(3) unfolding sure_def by blast

lemma sure_chance:
  assumes "0 \<le> bp" and "bp \<le> 10000" and "\<And>b s'. Q b s'"
  shows "sure (chance bp) s Q"
  using chance_returns [OF assms(1,2), of s] assms(3) unfolding sure_def by blast

lemma sure_choose:
  assumes "vs \<noteq> []" and "length vs \<le> 2 ^ 64" and "\<And>v s'. v \<in> set vs \<Longrightarrow> Q v s'"
  shows "sure (choose_value vs) s Q"
  using choose_value_returns [OF assms(1,2), of s] assms(3) unfolding sure_def by blast

section \<open>Specifications and generators\<close>

text \<open>The specifications that the constructors can build.\<close>

definition spec_valid :: "workload_spec \<Rightarrow> bool" where
  "spec_valid sp \<longleftrightarrow> WorkloadSpec sp = Inr sp \<and> matching_config_ok (ws_engine sp) \<and>
     (let w = ws_operation_weights sp in OperationWeights (w_new w) (w_cancel w) (w_replace w) = Inr w)"

lemma require_int_Inr [simp]: "require_int v a b = Inr u \<longleftrightarrow> a \<le> v \<and> v \<le> b"
  by (simp add: require_int_def)

lemma spec_validD:
  assumes "spec_valid sp"
  shows "1 \<le> ws_command_count sp" and "1 \<le> ws_instrument_id sp" and "ws_instrument_id sp \<le> U32_MAX"
    and "0 \<le> ws_invalid_basis_points sp" and "ws_invalid_basis_points sp \<le> 10000"
    and "0 \<le> ws_aggressive_basis_points sp" and "ws_aggressive_basis_points sp \<le> 10000"
    and "0 \<le> ws_market_basis_points sp" and "ws_market_basis_points sp \<le> 10000"
    and "0 \<le> ws_boundary_quantity_basis_points sp" and "ws_boundary_quantity_basis_points sp \<le> 10000"
    and "1 \<le> ws_mid_price sp" and "ws_mid_price sp \<le> I64_MAX" and "ws_mid_price sp mod tick_increment (ws_engine sp) = 0"
    and "1 \<le> ws_price_span_ticks sp" and "ws_price_span_ticks sp \<le> U32_MAX"
    and "1 \<le> ws_client_count sp" and "ws_client_count sp \<le> U32_MAX"
    and "matching_config_ok (ws_engine sp)"
    and "1 \<le> weights_total (ws_operation_weights sp)" and "weights_total (ws_operation_weights sp) \<le> 2 ^ 64"
  using assms
  by (auto simp: spec_valid_def WorkloadSpec_def check_spec_def OperationWeights_def weights_total_def bindR_Inr_iff
      BASIS_POINTS_def U32_MAX_def Let_def split: if_splits)

text \<open>
  A generator over a book: its shadow represents the book, and every active identifier was handed out
  by the counter or lies in the boundary range.  The counter can still hand out \<open>k\<close> identifiers below
  that range.
\<close>

definition boundary_start :: int where
  "boundary_start = U64_MAX - 1023"

definition ready :: "workload_spec \<Rightarrow> view \<Rightarrow> int \<Rightarrow> workload_generator \<Rightarrow> bool" where
  "ready sp v k g \<longleftrightarrow> gen_spec g = sp \<and> shadow_rel (gen_shadow g) v \<and>
     1 \<le> gen_next_order_id g \<and> gen_next_order_id g + k \<le> boundary_start \<and>
     (\<forall>i \<in> set (map fst (sh_active (gen_shadow g))). i < gen_next_order_id g \<or> boundary_start \<le> i)"

definition sized_book :: "workload_spec \<Rightarrow> int \<Rightarrow> view \<Rightarrow> bool" where
  "sized_book sp latest v \<longleftrightarrow> spec_valid sp \<and> view_ok (ws_engine sp) (ws_instrument_id sp) latest v \<and>
     int (length (v BUY) + length (v SELL)) \<le> max_active_orders (ws_engine sp)"

lemma ready_rng [simp]: "ready sp v k (g\<lparr>gen_rng := s\<rparr>) \<longleftrightarrow> ready sp v k g"
  by (simp add: ready_def)

lemma ready_mono: "ready sp v k g \<Longrightarrow> k' \<le> k \<Longrightarrow> ready sp v k' g"
  by (simp add: ready_def)

lemma readyD:
  assumes "ready sp v k g"
  shows "gen_spec g = sp" and "shadow_rel (gen_shadow g) v"
  using assms by (simp_all add: ready_def)

lemma sized_bookD:
  assumes "sized_book sp latest v"
  shows "spec_valid sp" and "view_ok (ws_engine sp) (ws_instrument_id sp) latest v" and "tidy v"
    and "int (length (v BUY) + length (v SELL)) \<le> max_active_orders (ws_engine sp)"
  using assms view_ok_tidy by (auto simp: sized_book_def)

lemma sure_ready_randbelow:
  assumes "ready sp v k g" and "1 \<le> n" and "n \<le> 2 ^ 64"
    and "\<And>r g'. ready sp v k g' \<Longrightarrow> 0 \<le> r \<Longrightarrow> r < n \<Longrightarrow> Q r g'"
  shows "sure (on_rng (randbelow n)) g Q"
  using assms by (intro sure_on_rng sure_randbelow) auto

lemma sure_ready_chance:
  assumes "ready sp v k g" and "0 \<le> bp" and "bp \<le> 10000" and "\<And>b g'. ready sp v k g' \<Longrightarrow> Q b g'"
  shows "sure (on_rng (chance bp)) g Q"
  using assms by (intro sure_on_rng sure_chance) auto

lemma sure_ready_choose:
  assumes "ready sp v k g" and "vs \<noteq> []" and "length vs \<le> 2 ^ 64" and "\<And>x g'. ready sp v k g' \<Longrightarrow> x \<in> set vs \<Longrightarrow> Q x g'"
  shows "sure (on_rng (choose_value vs)) g Q"
  using assms by (intro sure_on_rng sure_choose) auto

section \<open>Identifiers\<close>

lemma skip_active_fresh: "i \<notin> set (map fst active) \<Longrightarrow> skip_active active i = i"
  by (subst skip_active.simps) simp

lemma sure_next_free_id:
  assumes "ready sp v k g" and "1 \<le> k"
    and "\<And>i g'. ready sp v (k - 1) g' \<Longrightarrow> 1 \<le> i \<Longrightarrow> i \<le> U64_MAX \<Longrightarrow> find_order i v = None \<Longrightarrow> Q i g'"
    and "tidy v"
  shows "sure next_free_id g Q"
proof -
  let ?n = "gen_next_order_id g"
  have n: "?n \<notin> set (map fst (sh_active (gen_shadow g)))" "?n \<le> U64_MAX" "1 \<le> ?n"
    using assms(1,2) by (auto simp: ready_def boundary_start_def)
  then have "map_of (sh_active (gen_shadow g)) ?n = None" by (simp add: map_of_eq_None_iff)
  then have "find_order ?n v = None" using shadow_active_order [OF readyD(2) [OF assms(1)] assms(4), of ?n] by simp
  moreover have "ready sp v (k - 1) (g\<lparr>gen_next_order_id := ?n + 1\<rparr>)"
    using assms(1) by (auto simp: ready_def intro: less_trans)
  ultimately show ?thesis
    using assms(3) n by (simp add: sure_def next_free_id_def skip_active_fresh Let_def)
qed

lemma sure_allocate:
  assumes "ready sp v k g" and "1 \<le> k" and "tidy v"
    and Q: "\<And>i g'. ready sp v (k - 1) g' \<Longrightarrow> 1 \<le> i \<Longrightarrow> i \<le> U64_MAX \<Longrightarrow> find_order i v = None \<Longrightarrow> Q i g'"
  shows "sure allocate_order_id g Q"
proof -
  have free: "sure next_free_id g' Q" if "ready sp v k g'" for g'
    using sure_next_free_id [OF that assms(2) Q assms(3)] .
  have lucky: "sure (on_rng (randbelow 1024)) g' (\<lambda>r g''.
      sure (if U64_MAX - r \<noteq> 0 \<and> map_of (sh_active (gen_shadow g'')) (U64_MAX - r) = None then ret (U64_MAX - r) else next_free_id) g'' Q)"
    if "ready sp v k g'" for g'
  proof (rule sure_ready_randbelow [OF that], goal_cases)
    case (3 r g'')
    then show ?case
      using free [of g''] Q [of g'' "U64_MAX - r"] ready_mono [OF 3(1), of "k - 1"] shadow_active_order [OF readyD(2) [OF 3(1)] assms(3), of "U64_MAX - r"]
      by (auto simp: U64_MAX_def)
  qed simp_all
  have "sure (\<lambda>g. if ws_profile (gen_spec g) = ADVERSARIAL_BOUNDARY then on_rng (chance 1000) g else (Inr False, g)) g
      (\<lambda>b g'. ready sp v k g')"
    using chance_returns [of 1000 "gen_rng g"] assms(1) by (auto simp: sure_def on_rng_def)
  then show ?thesis
    unfolding allocate_order_id_def sure_bind using free lucky by (elim sure_mono) (auto intro: sure_if)
qed

section \<open>Orders of the book\<close>

lemma active_ids: "shadow_rel sh v \<Longrightarrow> set (ordered_active_ids sh) = set (map ord_order_id (v BUY @ v SELL))"
  using shadow_keys by (simp add: ordered_active_ids_def)

lemma sure_active_choice:
  assumes "ready sp v k g" and "sized_book sp latest v" and "ord \<in> set (v sd)" and "excluding \<noteq> Some (ord_order_id ord)"
    and Q: "\<And>ord sd g'. ready sp v k g' \<Longrightarrow> ord \<in> set (v sd) \<Longrightarrow> excluding \<noteq> Some (ord_order_id ord) \<Longrightarrow> Q (shadow_of ord) g'"
  shows "sure (active_choice excluding) g Q"
proof -
  let ?ids = "filter (\<lambda>i. excluding \<noteq> Some i) (ordered_active_ids (gen_shadow g))"
  note rel = readyD(2) [OF assms(1)] and b = sized_bookD [OF assms(2)]
  have mem: "x \<in> set (v BUY @ v SELL) \<longleftrightarrow> (\<exists>sd. x \<in> set (v sd))" for x by (metis Un_iff set_append side.exhaust)
  have ne: "?ids \<noteq> []" using assms(3,4) active_ids [OF rel] mem by (force simp: filter_empty_conv)
  have "length ?ids \<le> length (sh_active (gen_shadow g))"
    using length_filter_le [of _ "ordered_active_ids (gen_shadow g)"] by (simp add: ordered_active_ids_def)
  also have "int \<dots> \<le> 2 ^ 64"
    using b(4) shadow_count [OF rel b(3)] spec_validD(19) [OF b(1)] by (simp add: matching_config_ok_def U64_MAX_def)
  finally have len: "length ?ids \<le> 2 ^ 64" by simp
  show ?thesis
    unfolding active_choice_def sure_bind sure_basic
  proof (rule sure_if)
    show "sure (raise AssertionError) g Q" if "?ids = []" using ne that by simp
    show "sure (bindP (on_rng (choose_value ?ids)) (\<lambda>i. read_shadow (\<lambda>sh. dict_getitem (sh_active sh) i))) g Q"
      unfolding sure_bind
    proof (rule sure_ready_choose [OF assms(1) ne len])
      fix i g' assume g': "ready sp v k g'" and i: "i \<in> set ?ids"
      then obtain x sd' where x: "x \<in> set (v sd')" "ord_order_id x = i" "excluding \<noteq> Some i"
        using active_ids [OF rel] mem by (auto simp: image_iff)
      then have "map_of (sh_active (gen_shadow g')) i = Some (shadow_of x)"
        using shadow_relD(3) [OF readyD(2) [OF g']] by blast
      with Q [OF g' x(1)] x show "sure (read_shadow (\<lambda>sh. dict_getitem (sh_active sh) i)) g' Q"
        by (simp add: sure_def read_shadow_def dict_getitem_def)
    qed
  qed
qed

section \<open>Quantities\<close>

lemma mapR_total: "(\<And>x. x \<in> set xs \<Longrightarrow> \<exists>y. f x = Inr y) \<Longrightarrow> \<exists>ys. mapR f xs = Inr ys"
  by (induction xs) (fastforce simp: bindR_Inr_iff)+

lemma queued_remaining:
  assumes "shadow_rel sh v" and "map_of (shadow_levels sd sh) p = Some q" and "i \<in> set q"
  shows "\<exists>x. remaining_of sh i = Inr x"
proof -
  have "q = level_ids (v sd) p" using shadow_relD(4) [OF assms(1), of sd p] assms(2) by (auto simp: level_queue_def split: if_splits)
  then obtain ord where "ord \<in> set (v sd)" "ord_order_id ord = i" using assms(3) by (auto simp: set_level_ids)
  then have "map_of (sh_active sh) i = Some (shadow_of ord)" using shadow_relD(3) [OF assms(1)] by blast
  then show ?thesis by (simp add: remaining_of_def dict_getitem_def)
qed

lemma side_total_returns: "shadow_rel sh v \<Longrightarrow> \<exists>t. side_total sh sd = Inr t"
proof -
  assume rel: "shadow_rel sh v"
  have "\<exists>x. remaining_of sh i = Inr x" if "i \<in> set (concat (map snd (shadow_levels sd sh)))" for i
    using that queued_remaining [OF rel, of sd] map_of_is_SomeI [OF shadow_relD(2) [OF rel]] by fastforce
  then have "\<exists>ys. mapR (remaining_of sh) (concat (map snd (shadow_levels sd sh))) = Inr ys" by (rule mapR_total)
  then show ?thesis by (auto simp: side_total_def)
qed

lemma side_total_at_best_returns: "shadow_rel sh v \<Longrightarrow> \<exists>t. side_total_at_best sh sd = Inr t"
proof -
  assume rel: "shadow_rel sh v"
  have best: "\<exists>q. map_of (shadow_levels sd sh) p = Some q"
    if "(if sd = BUY then best_bid_price sh else best_ask_price sh) = Some p" for p
  proof -
    have "p \<in> set (map fst (shadow_levels sd sh))"
      using that Max_in [of "set (map fst (sh_bids sh))"] Min_in [of "set (map fst (sh_asks sh))"]
      by (cases sd) (auto simp: best_bid_price_def best_ask_price_def shadow_levels_def split: if_splits)
    then show ?thesis by (metis map_of_eq_None_iff not_None_eq set_map)
  qed
  have "\<exists>ys. mapR (remaining_of sh) q = Inr ys" if "map_of (shadow_levels sd sh) p = Some q" for p q
    using queued_remaining [OF rel that] by (rule mapR_total)
  note total = this
  show ?thesis
  proof (cases "if sd = BUY then best_bid_price sh else best_ask_price sh")
    case None
    then show ?thesis by (simp add: side_total_at_best_def)
  next
    case (Some p)
    with best total obtain q ys where "map_of (shadow_levels sd sh) p = Some q" "mapR (remaining_of sh) q = Inr ys" by blast
    then show ?thesis using Some by (simp add: side_total_at_best_def dict_getitem_def)
  qed
qed

lemma boundary_quantities_range:
  assumes "1 \<le> m" and "q \<in> set (boundary_quantities m a b)"
  shows "1 \<le> q" and "q \<le> m"
  using assms by (auto simp: boundary_quantities_def split: if_splits)

lemma boundary_quantities_size: "boundary_quantities m a b \<noteq> []" "length (boundary_quantities m a b) \<le> 2 ^ 64"
  by (simp_all add: boundary_quantities_def)

lemma sure_read_shadow: "f (gen_shadow g) = Inr x \<Longrightarrow> Q x g \<Longrightarrow> sure (read_shadow f) g Q"
  by (simp add: sure_def read_shadow_def)

lemma sure_quantity:
  assumes r: "ready sp v k g" and "spec_valid sp"
    and Q: "\<And>q g'. ready sp v k g' \<Longrightarrow> 1 \<le> q \<Longrightarrow> q \<le> max_order_quantity (ws_engine sp) \<Longrightarrow> Q q g'"
  shows "sure (gen_quantity sd) g Q"
proof -
  note s = spec_validD [OF assms(2)]
  let ?m = "max_order_quantity (ws_engine sp)"
  have m: "1 \<le> ?m" "?m \<le> 2 ^ 64" using s(19) by (auto simp: matching_config_ok_def U64_MAX_def)
  have plain: "sure (bindP (on_rng (randbelow ?m)) (\<lambda>r. ret (1 + r))) g' Q" if "ready sp v k g'" for g'
    unfolding sure_bind sure_basic by (rule sure_ready_randbelow [OF that m]) (rule Q; simp)
  have bounded: "sure (bindP (read_shadow (\<lambda>sh. side_total_at_best sh (opposite sd))) (\<lambda>best_total.
      bindP (read_shadow (\<lambda>sh. side_total sh (opposite sd))) (\<lambda>side_sum.
      on_rng (choose_value (boundary_quantities ?m best_total side_sum))))) g' Q" if r': "ready sp v k g'" for g'
  proof -
    note rel = readyD(2) [OF r']
    obtain t1 t2 where "side_total_at_best (gen_shadow g') (opposite sd) = Inr t1" "side_total (gen_shadow g') (opposite sd) = Inr t2"
      using side_total_at_best_returns [OF rel] side_total_returns [OF rel] by blast
    then show ?thesis
      unfolding sure_bind
      by (intro sure_read_shadow [of _ g' t1] sure_read_shadow [of _ g' t2] sure_ready_choose [OF r'] boundary_quantities_size)
        (auto intro!: Q boundary_quantities_range [OF m(1)])
  qed
  show ?thesis
    unfolding gen_quantity_def sure_bind sure_basic sure_prod readyD(1) [OF r] fst_conv snd_conv
    by (rule sure_ready_chance [OF r s(10,11)]) (use plain bounded in \<open>simp del: sure_bind\<close>)
qed

section \<open>Prices\<close>

definition price_ok :: "workload_spec \<Rightarrow> int \<Rightarrow> bool" where
  "price_ok sp p \<longleftrightarrow> 1 \<le> p \<and> p \<le> I64_MAX \<and> p mod tick_increment (ws_engine sp) = 0"

lemma aligned_clamp_bounds:
  assumes "1 \<le> tick" and "tick \<le> I64_MAX"
  shows "tick \<le> aligned_clamp v tick" and "aligned_clamp v tick \<le> I64_MAX" and "aligned_clamp v tick mod tick = 0"
proof -
  let ?m = "I64_MAX - I64_MAX mod tick"
  let ?c = "min (max v tick) ?m"
  have m: "tick \<le> ?m"
  proof -
    have "?m = tick * (I64_MAX div tick)" by (simp add: minus_mod_eq_mult_div)
    moreover have "1 \<le> I64_MAX div tick" using assms by (simp add: pos_imp_zdiv_pos_iff int_one_le_iff_zero_less)
    ultimately show ?thesis using assms(1) by (simp add: mult_le_cancel_left1)
  qed
  have a: "aligned_clamp v tick = tick * (?c div tick)" by (simp add: aligned_clamp_def Let_def minus_mod_eq_mult_div)
  have "1 \<le> ?c div tick" using assms m by (simp add: pos_imp_zdiv_pos_iff int_one_le_iff_zero_less)
  then show "tick \<le> aligned_clamp v tick" using assms(1) by (simp add: a mult_le_cancel_left1)
  show "aligned_clamp v tick mod tick = 0" by (simp add: a)
  have "?c - ?c mod tick \<le> ?m" using assms(1) pos_mod_sign [of tick ?c] by linarith
  also have "?m \<le> I64_MAX" using assms(1) pos_mod_sign [of tick I64_MAX] by linarith
  finally show "aligned_clamp v tick \<le> I64_MAX" by (simp add: aligned_clamp_def Let_def)
qed

lemma clamp_price_ok: "spec_valid sp \<Longrightarrow> price_ok sp (aligned_clamp x (tick_increment (ws_engine sp)))"
  using aligned_clamp_bounds [of "tick_increment (ws_engine sp)" x] spec_validD(19) [of sp]
  by (simp add: price_ok_def matching_config_ok_def)

lemma sure_price_offset:
  assumes "1 \<le> span" and "span \<le> U32_MAX" and "\<And>x s'. Q x s'"
  shows "sure (price_offset model span n) s Q"
  using assms unfolding price_offset_def
  by (cases model) (auto simp: U32_MAX_def intro!: sure_randbelow sure_chance sure_choose)

lemma sure_base_price:
  assumes "ready sp v k g" and "spec_valid sp" and "\<And>p g'. ready sp v k g' \<Longrightarrow> Q p g'"
  shows "sure base_price g Q"
  using assms spec_validD [OF assms(2)] readyD(1) [OF assms(1)] unfolding base_price_def
  by (auto intro!: sure_if sure_on_rng sure_price_offset sure_choose)

lemma sure_price:
  assumes r: "ready sp v k g" and "spec_valid sp" and Q: "\<And>p g'. ready sp v k g' \<Longrightarrow> price_ok sp p \<Longrightarrow> Q p g'"
  shows "sure (gen_price sd aggressive) g Q"
  unfolding gen_price_def sure_bind sure_basic readyD(1) [OF r]
proof (rule sure_base_price [OF assms(1,2)], goal_cases)
  case (1 p g')
  note clamp = Q [OF _ clamp_price_ok [OF assms(2)]]
  show ?case
    unfolding sure_let using 1 spec_validD(15,16) [OF assms(2)] clamp
    by (auto split: option.split intro!: sure_ready_randbelow [OF 1] simp: U32_MAX_def)
qed

section \<open>Valid commands\<close>

definition book_count :: "view \<Rightarrow> int" where
  "book_count v = int (length (v BUY) + length (v SELL))"

lemma book_nonempty: "0 < book_count v \<Longrightarrow> \<exists>sd ord. ord \<in> set (v sd)"
  unfolding book_count_def by (metis add_is_0 length_0_conv last_in_set of_nat_0_less_iff less_irrefl)

lemma sure_operation:
  assumes r: "ready sp v k g" and b: "sized_book sp latest v"
    and Q: "\<And>op g'. ready sp v k g' \<Longrightarrow> op \<in> {''new'', ''cancel'', ''replace''} \<Longrightarrow>
      (op \<noteq> ''new'' \<Longrightarrow> 0 < book_count v) \<Longrightarrow>
      (op = ''new'' \<Longrightarrow> book_count v = 0 \<or> book_count v < max_active_orders (ws_engine sp)) \<Longrightarrow> Q op g'"
  shows "sure choose_operation g Q"
proof -
  note s = spec_validD [OF sized_bookD(1) [OF b]]
  have n: "int (length (sh_active (gen_shadow g))) = book_count v"
    using shadow_count [OF readyD(2) [OF r] sized_bookD(3) [OF b]] by (simp add: book_count_def)
  have nn: "0 \<le> book_count v" by (simp add: book_count_def)
  have reduce: "sure (bindP (on_rng (chance 6000)) (\<lambda>cancel. ret (if cancel then ''cancel'' else ''replace''))) g' Q"
    if "ready sp v k g'" "book_count v \<noteq> 0" for g'
    unfolding sure_bind sure_basic using that(2) nn by (intro sure_ready_chance [OF that(1)]) (auto intro!: Q)
  have weighted: "sure choose_weighted g' Q"
    if r': "ready sp v k g'" "book_count v \<noteq> 0" "\<not> book_count v \<ge> max_active_orders (ws_engine sp)" for g'
    unfolding choose_weighted_def sure_bind sure_basic readyD(1) [OF r'(1)] using r'(2,3) nn s(20,21)
    by (intro sure_ready_randbelow [OF r'(1)]) (auto intro!: Q)
  show ?thesis
    unfolding choose_operation_def sure_bind sure_basic sure_prod fst_conv snd_conv n readyD(1) [OF r]
  proof (rule sure_if, goal_cases)
    case 1
    then show ?case by (auto intro!: Q [OF r])
  next
    case 2
    show ?case
      using r 2 reduce weighted
      by (subst sure_bind) (auto intro!: sure_ready_chance [OF r] simp del: sure_bind)
  qed
qed

definition good_new :: "workload_spec \<Rightarrow> view \<Rightarrow> new_order \<Rightarrow> bool" where
  "good_new sp v ord \<longleftrightarrow>
     1 \<le> new_client_id ord \<and> new_client_id ord \<le> U32_MAX \<and>
     1 \<le> new_order_id ord \<and> new_order_id ord \<le> U64_MAX \<and> find_order (new_order_id ord) v = None \<and>
     new_instrument_id ord = ws_instrument_id sp \<and> (new_side ord = side_value BUY \<or> new_side ord = side_value SELL) \<and>
     1 \<le> new_quantity ord \<and> new_quantity ord \<le> max_order_quantity (ws_engine sp) \<and>
     (new_order_type ord = order_type_value MARKET \<and> new_time_in_force ord = time_in_force_value IOC \<and> new_limit_price ord = None \<or>
      new_order_type ord = order_type_value LIMIT \<and> (\<exists>p. new_limit_price ord = Some p \<and> price_ok sp p) \<and>
        (new_time_in_force ord = time_in_force_value IOC \<or>
         new_time_in_force ord = time_in_force_value GTC \<and> max_active_orders (ws_engine sp) \<noteq> 0))"

lemma sure_build_valid_new:
  assumes r: "ready sp v k g" and v: "spec_valid sp" and t: "tidy v" and k: "1 \<le> k"
    and Q: "\<And>ord g'. ready sp v (k - 1) g' \<Longrightarrow> good_new sp v ord \<Longrightarrow> Q ord g'"
  shows "sure build_valid_new g Q"
proof -
  note s = spec_validD [OF v]
  have c: "ws_client_count sp \<le> 2 ^ 64" using s(18) by (simp add: U32_MAX_def)
  have terminal: "sure (if max_active_orders (ws_engine sp) = 0 then ret True else on_rng (chance (ws_aggressive_basis_points sp))) g' P"
    if "ready sp v k g'" "\<And>b g'. ready sp v k g' \<Longrightarrow> (max_active_orders (ws_engine sp) = 0 \<Longrightarrow> b) \<Longrightarrow> P b g'" for g' and P :: "bool \<Rightarrow> workload_generator \<Rightarrow> bool"
    using that s(6,7) by (auto intro: sure_ready_chance [OF that(1)])
  have market: "sure (if aggressive then on_rng (chance (ws_market_basis_points sp)) else ret False) g' P"
    if "ready sp v (k - 1) g'" "\<And>b g'. ready sp v (k - 1) g' \<Longrightarrow> (b \<Longrightarrow> aggressive) \<Longrightarrow> P b g'" for g' aggressive and P :: "bool \<Rightarrow> workload_generator \<Rightarrow> bool"
    using that s(8,9) by (auto intro: sure_ready_chance [OF that(1)])
  show ?thesis
    unfolding build_valid_new_def sure_bind sure_basic sure_let readyD(1) [OF r]
    apply (rule sure_ready_chance [OF r], simp, simp)
    apply (rule terminal, assumption)
    apply (rule sure_allocate [OF _ k t], assumption)
    apply (rule sure_quantity [OF _ v], assumption)
    apply (rule sure_ready_randbelow [OF _ s(17) c], assumption)
    apply (rule market, assumption)
    apply (rule sure_if)
    subgoal using s(18) by (auto intro!: Q simp: good_new_def)
    subgoal
      unfolding sure_bind sure_basic using s(18)
      by (elim sure_price [OF _ v]) (auto intro!: Q simp: good_new_def)
    done
qed

text \<open>Such an order is accepted when the book has room for it.\<close>

definition quantity_fits :: "workload_spec \<Rightarrow> bool" where
  "quantity_fits sp \<longleftrightarrow> max_order_quantity (ws_engine sp) * max_active_orders (ws_engine sp) \<le> U64_MAX"

lemma level_quantity_bound:
  assumes "\<forall>ord \<in> set os. 0 \<le> ord_remaining_quantity ord \<and> ord_remaining_quantity ord \<le> m" and "0 \<le> m"
  shows "level_quantity os p \<le> m * int (length os)"
  using assms(1)
proof (induction os)
  case (Cons ord os)
  then have "level_quantity os p \<le> m * int (length os)" "ord_remaining_quantity ord \<le> m" by simp_all
  then show ?case using assms(2) by (auto simp: algebra_simps)
qed simp

lemma shrinks_length: "shrinks os' os \<Longrightarrow> length os' \<le> length os"
  by (auto simp: shrinks_def dest!: list_all2_lengthD list_emb_length)

lemma spec_add_fits:
  assumes ok: "view_ok (ws_engine sp) iid latest v" and new: "new_order_ok (ws_engine sp) iid sd ord" and q: "quantity_fits sp"
    and room: "book_count v + (if new_time_in_force ord = time_in_force_value GTC then 1 else 0) \<le> max_active_orders (ws_engine sp)"
    and mc: "matching_config_ok (ws_engine sp)"
  shows "spec_fits (ws_engine sp) sd ord sq v"
proof -
  let ?c = "ws_engine sp" and ?od = "other_side sd"
  obtain fills n v' where add: "spec_add sd ord sq v = (fills, n, v')" by (metis prod_cases3)
  have nq: "0 \<le> new_quantity ord" "new_quantity ord \<le> max_order_quantity ?c" using new by (auto simp: new_order_ok_def)
  have both: "book_count w = int (length (w sd) + length (w ?od))" for w by (cases sd) (simp_all add: book_count_def)
  obtain os where m: "spec_match (limit_crosses sd (new_limit_price ord)) (new_quantity ord) (v ?od) = (fills, n, os)"
    using add by (auto simp: spec_add_def Let_def split: prod.splits)
  have os: "length os \<le> length (v ?od)"
    by (rule shrinks_length [OF spec_match_shrinks [OF m view_ok_positive [OF ok] nq(1)]])
  show ?thesis
  proof (cases "residual_rests ord n")
    case False
    from spec_add_gone [OF add False] m have v': "v' = v(?od := os)" by auto
    then have "book_count v' \<le> book_count v" using os by (simp add: both)
    with room False show ?thesis
      by (auto simp: spec_fits_def add fits_def book_count_def split: if_splits)
  next
    case True
    from new_order_ok_rests [OF new True] obtain p where p: "new_limit_price ord = Some p" by auto
    let ?o = "rested_order ord sd p n sq"
    from spec_add_rests [OF add p True] m p have v': "v' = (v(?od := os))(sd := spec_insert sd ?o (v sd))" by auto
    have count: "book_count v' \<le> max_active_orders ?c"
      using True room os by (auto simp: both v' residual_rests_def)
    have n: "0 \<le> n" "n \<le> max_order_quantity ?c"
      using spec_match_bounds [OF m view_ok_positive [OF ok] nq(1)] nq(2) by auto
    have "\<forall>x \<in> set (v' sd). 0 \<le> ord_remaining_quantity x \<and> ord_remaining_quantity x \<le> max_order_quantity ?c"
      using view_okD(2) [OF ok, of _ sd] n by (fastforce simp: v' order_ok_def rested_order_def)
    then have "level_quantity (v' sd) p \<le> max_order_quantity ?c * int (length (v' sd))"
      using mc by (intro level_quantity_bound) (auto simp: matching_config_ok_def)
    also have "\<dots> \<le> max_order_quantity ?c * max_active_orders ?c"
      using count mc by (intro mult_left_mono) (auto simp: both matching_config_ok_def)
    finally have "level_quantity (v' sd) p \<le> U64_MAX" using q by (simp add: quantity_fits_def)
    then show ?thesis using count True p by (simp add: spec_fits_def add fits_def book_count_def)
  qed
qed

lemma good_new_accepted:
  assumes b: "sized_book sp latest v" and q: "quantity_fits sp" and g: "good_new sp v ord"
    and room: "book_count v = 0 \<or> book_count v < max_active_orders (ws_engine sp)"
  shows "accepts (ws_engine sp) (ws_instrument_id sp) (NewOrder ord) sq v" and "require_representable (NewOrder ord) = Inr ()"
proof -
  note s = spec_validD [OF sized_bookD(1) [OF b]] and ok = sized_bookD(2) [OF b]
  have q64: "new_quantity ord \<le> U64_MAX" using g s(19) by (auto simp: good_new_def matching_config_ok_def)
  obtain sd where sd: "new_side ord = side_value sd" using g unfolding good_new_def by blast
  then have so: "side_of (new_side ord) = sd" by (cases sd) (simp_all add: side_of_def)
  show rep: "require_representable (NewOrder ord) = Inr ()"
    using g q64 s(2,3) sd
    by (cases sd) (auto simp: good_new_def price_ok_def bindR_Inr_iff require_uint_def require_i64_def U8_MAX_def I64_MIN_def split: option.splits)
  have shape: "validate_new_shape ord = NONE"
    using g s(2) sd by (cases sd) (auto simp: good_new_def price_ok_def validate_new_shape_def is_valid_side_def is_valid_order_type_def
        is_valid_time_in_force_def)
  have new: "new_order_ok (ws_engine sp) (ws_instrument_id sp) sd ord"
    using g sd by (auto simp: new_order_ok_def good_new_def price_ok_def)
  have "book_count v + (if new_time_in_force ord = time_in_force_value GTC then 1 else 0) \<le> max_active_orders (ws_engine sp)"
    using g room sized_bookD(4) [OF b] s(19) by (auto simp: good_new_def book_count_def matching_config_ok_def)
  from spec_add_fits [OF ok new q this s(19)] shape g show "accepts (ws_engine sp) (ws_instrument_id sp) (NewOrder ord) sq v"
    by (auto simp: accepts_new_def so good_new_def price_ok_def)
qed

lemma book_order:
  assumes "sized_book sp latest v" and "ord \<in> set (v sd)"
  shows "find_order (ord_order_id ord) v = Some ord" and "ord_side ord = sd" and "ord_instrument_id ord = ws_instrument_id sp"
    and "1 \<le> ord_order_id ord" and "ord_order_id ord \<le> U64_MAX" and "1 \<le> ord_client_id ord" and "ord_client_id ord \<le> U32_MAX"
  using tidy_find(1) [OF sized_bookD(3) [OF assms(1)], of "ord_order_id ord" ord] assms(2)
    view_okD(2) [OF sized_bookD(2) [OF assms(1)] assms(2)] by (auto simp: order_ok_def)

lemma shadow_of_fields [simp]:
  "so_order_id (shadow_of ord) = ord_order_id ord" "so_client_id (shadow_of ord) = ord_client_id ord"
  "so_instrument_id (shadow_of ord) = ord_instrument_id ord" "so_side (shadow_of ord) = ord_side ord"
  by (simp_all add: shadow_of_def)

abbreviation spec_accepts :: "workload_spec \<Rightarrow> command \<Rightarrow> int \<Rightarrow> view \<Rightarrow> bool" where
  "spec_accepts sp cmd sq v \<equiv> accepts (ws_engine sp) (ws_instrument_id sp) cmd sq v"

lemma cancel_accepted:
  assumes b: "sized_book sp latest v" and "ord \<in> set (v sd)"
  shows "spec_accepts sp (CancelOrder (make_cancel (ord_client_id ord) (ord_order_id ord) (ord_instrument_id ord))) sq v"
    and "require_representable (CancelOrder (make_cancel (ord_client_id ord) (ord_order_id ord) (ord_instrument_id ord))) = Inr ()"
  using book_order [OF assms] spec_validD(2,3) [OF sized_bookD(1) [OF b]]
  by (auto simp: accepts_cancel_def make_cancel_def validate_cancel_shape_def bindR_Inr_iff require_uint_def)

lemma removed_count:
  assumes "tidy v" and "ord \<in> set (v sd)"
  shows "book_count (spec_remove_order (ord_order_id ord) v) < book_count v"
proof -
  have "length (spec_remove i (v sd')) \<le> length (v sd')" for i sd' by (simp add: spec_remove_def)
  moreover have "length (spec_remove (ord_order_id ord) (v sd)) < length (v sd)"
    using assms(2) by (auto simp: spec_remove_def intro: length_filter_less)
  ultimately show ?thesis unfolding book_count_def spec_remove_order_def
    by (cases sd) (simp_all add: add_less_le_mono add_le_less_mono)
qed

lemma replace_accepted:
  assumes b: "sized_book sp latest v" and q: "quantity_fits sp" and o: "ord \<in> set (v sd)"
    and new: "1 \<le> i" "i \<le> U64_MAX" "find_order i v = None" and p: "price_ok sp p"
    and n: "1 \<le> n" "n \<le> max_order_quantity (ws_engine sp)"
  shows "spec_accepts sp (ReplaceOrder (make_replace (ord_client_id ord) (ord_order_id ord) i (ord_instrument_id ord) p n)) sq v"
    and "require_representable (ReplaceOrder (make_replace (ord_client_id ord) (ord_order_id ord) i (ord_instrument_id ord) p n)) = Inr ()"
proof -
  let ?cmd = "make_replace (ord_client_id ord) (ord_order_id ord) i (ord_instrument_id ord) p n"
  note s = spec_validD [OF sized_bookD(1) [OF b]] and f = book_order [OF b o] and ok = sized_bookD(2) [OF b]
  have "n \<le> U64_MAX" using n(2) s(19) by (simp add: matching_config_ok_def)
  then show "require_representable (ReplaceOrder ?cmd) = Inr ()"
    using new n(1) p f s(2,3) by (auto simp: make_replace_def price_ok_def bindR_Inr_iff require_uint_def require_i64_def I64_MIN_def)
  have "ord_order_id ord \<noteq> i" using new(3) f(1) by auto
  then have shape: "validate_replace_shape ?cmd = NONE"
    using new n(1) p f s(2) by (auto simp: make_replace_def price_ok_def validate_replace_shape_def)
  have "new_order_ok (ws_engine sp) (ws_instrument_id sp) sd (replacement_order ?cmd ord)"
    using new n p f by (auto simp: new_order_ok_def replacement_order_def make_replace_def price_ok_def)
  moreover have "book_count (spec_remove_order (ord_order_id ord) v) + 1 \<le> max_active_orders (ws_engine sp)"
    using removed_count [OF sized_bookD(3) [OF b] o] sized_bookD(4) [OF b] by (simp add: book_count_def)
  ultimately have "spec_fits (ws_engine sp) sd (replacement_order ?cmd ord) sq (spec_remove_order (ord_order_id ord) v)"
    using spec_add_fits [OF removed_view_ok [OF ok] _ q _ s(19)] by (simp add: replacement_order_def)
  then show "spec_accepts sp (ReplaceOrder ?cmd) sq v"
    using shape f new n p by (auto simp: accepts_replace_def make_replace_def price_ok_def)
qed

lemma sure_valid_command:
  assumes r: "ready sp v k g" and b: "sized_book sp latest v" and q: "quantity_fits sp" and k: "1 \<le> k"
    and Q: "\<And>cmd intent g'. ready sp v (k - 1) g' \<Longrightarrow> spec_accepts sp cmd sq v \<Longrightarrow> require_representable cmd = Inr () \<Longrightarrow>
      Q (cmd, intent) g'"
  shows "sure valid_command g Q"
proof -
  note sv = sized_bookD(1) [OF b] and t = sized_bookD(3) [OF b]
  have cancel: "sure (bindP valid_cancel (\<lambda>c. ret (CancelOrder c, ''valid_cancel''))) g' Q"
    if r': "ready sp v k g'" and nonempty: "0 < book_count v" for g'
  proof -
    obtain x sd where x: "x \<in> set (v sd)" using book_nonempty [OF nonempty] by blast
    show ?thesis unfolding valid_cancel_def sure_bind sure_basic
      using cancel_accepted [OF b] k
      by (intro sure_active_choice [OF r' b x]) (auto simp: make_cancel_def [symmetric] intro!: Q elim: ready_mono)
  qed
  have repl: "sure (bindP valid_replace (\<lambda>c. ret (ReplaceOrder c, ''valid_replace''))) g' Q"
    if r': "ready sp v k g'" and nonempty: "0 < book_count v" for g'
  proof -
    obtain x sd where x: "x \<in> set (v sd)" using book_nonempty [OF nonempty] by blast
    show ?thesis unfolding valid_replace_def sure_bind sure_basic
      apply (rule sure_active_choice [OF r' b x], simp)
      apply (rule sure_allocate [OF _ k t], assumption)
      apply (rule sure_ready_chance, assumption, simp, simp)
      apply (rule sure_price [OF _ sv], assumption)
      apply (rule sure_quantity [OF _ sv], assumption)
      using replace_accepted [OF b q] by (auto simp: make_replace_def [symmetric] intro!: Q)
  qed
  have new: "sure (bindP build_valid_new (\<lambda>c. ret (NewOrder c,
       if new_order_type c = order_type_value MARKET then ''valid_market_sweep''
       else if new_time_in_force c = time_in_force_value IOC then ''valid_limit_ioc'' else ''valid_limit_gtc''))) g' Q"
    if r': "ready sp v k g'" and room: "book_count v = 0 \<or> book_count v < max_active_orders (ws_engine sp)" for g'
    unfolding sure_bind sure_basic
    by (rule sure_build_valid_new [OF r' sv t k]) (rule Q; use good_new_accepted [OF b q _ room] in simp)
  show ?thesis
    unfolding valid_command_def sure_bind [of choose_operation]
    by (rule sure_operation [OF r b]) (use cancel repl new in \<open>auto simp del: sure_bind\<close>)
qed

section \<open>Invalid commands\<close>

lemma other_instrument_differs:
  "1 \<le> ws_instrument_id sp \<Longrightarrow> ws_instrument_id sp \<le> U32_MAX \<Longrightarrow>
     other_instrument sp \<noteq> ws_instrument_id sp \<and> 1 \<le> other_instrument sp \<and> other_instrument sp \<le> U32_MAX"
  by (auto simp: other_instrument_def U32_MAX_def)

text \<open>A price one above the mid price is not aligned.\<close>

lemma mid_plus_one:
  assumes "spec_valid sp" and "1 < tick_increment (ws_engine sp)"
  shows "(ws_mid_price sp + 1) mod tick_increment (ws_engine sp) \<noteq> 0"
proof -
  have "(ws_mid_price sp + 1) mod tick_increment (ws_engine sp) = 1 mod tick_increment (ws_engine sp)"
    using spec_validD(14) [OF assms(1)] by (metis add_0 mod_add_left_eq)
  then show ?thesis using assms(2) by simp
qed

lemma representable_new:
  "require_representable (NewOrder c) = Inr () \<longleftrightarrow>
     (0 \<le> new_client_id c \<and> new_client_id c \<le> U32_MAX) \<and> (0 \<le> new_order_id c \<and> new_order_id c \<le> U64_MAX) \<and>
     (0 \<le> new_instrument_id c \<and> new_instrument_id c \<le> U32_MAX) \<and> (0 \<le> new_side c \<and> new_side c \<le> U8_MAX) \<and>
     (0 \<le> new_order_type c \<and> new_order_type c \<le> U8_MAX) \<and> (0 \<le> new_time_in_force c \<and> new_time_in_force c \<le> U8_MAX) \<and>
     (\<forall>p. new_limit_price c = Some p \<longrightarrow> I64_MIN \<le> p \<and> p \<le> I64_MAX) \<and> (0 \<le> new_quantity c \<and> new_quantity c \<le> U64_MAX)"
  by (auto simp: bindR_Inr_iff require_uint_def require_i64_def split: option.splits)

lemma replace_new_fields [simp]:
  "new_client_id (replace_new ord client oid iid sd otype tif limit quantity) = (case client of None \<Rightarrow> new_client_id ord | Some x \<Rightarrow> x)"
  "new_order_id (replace_new ord client oid iid sd otype tif limit quantity) = (case oid of None \<Rightarrow> new_order_id ord | Some x \<Rightarrow> x)"
  "new_instrument_id (replace_new ord client oid iid sd otype tif limit quantity) = (case iid of None \<Rightarrow> new_instrument_id ord | Some x \<Rightarrow> x)"
  "new_side (replace_new ord client oid iid sd otype tif limit quantity) = (case sd of None \<Rightarrow> new_side ord | Some x \<Rightarrow> x)"
  "new_order_type (replace_new ord client oid iid sd otype tif limit quantity) = (case otype of None \<Rightarrow> new_order_type ord | Some x \<Rightarrow> x)"
  "new_time_in_force (replace_new ord client oid iid sd otype tif limit quantity) = (case tif of None \<Rightarrow> new_time_in_force ord | Some x \<Rightarrow> x)"
  "new_limit_price (replace_new ord client oid iid sd otype tif limit quantity) = (case limit of None \<Rightarrow> new_limit_price ord | Some x \<Rightarrow> x)"
  "new_quantity (replace_new ord client oid iid sd otype tif limit quantity) = (case quantity of None \<Rightarrow> new_quantity ord | Some x \<Rightarrow> x)"
  by (simp_all add: replace_new_def Let_def)

lemma good_new_representable:
  "spec_valid sp \<Longrightarrow> good_new sp v ord \<Longrightarrow> require_representable (NewOrder ord) = Inr ()"
  using spec_validD(2,3,19) [of sp] unfolding representable_new
  by (auto simp: good_new_def price_ok_def matching_config_ok_def U8_MAX_def I64_MIN_def)

lemma duplicate_new_rejected: "find_order (new_order_id ord) v \<noteq> None \<Longrightarrow> \<not> accepts c iid (NewOrder ord) sq v"
  by (simp add: accepts_new_def)

lemma invalid_shape_cases:
  assumes "P (replace_new base (Some 0) None None None None None None None)"
    and "P (replace_new base None (Some 0) None None None None None None)"
    and "P (replace_new base None None (Some 0) None None None None None)"
    and "P (replace_new base None None None None None None None (Some 0))"
    and "P (replace_new base None None None (Some 0) None None None None)"
    and "P (replace_new base None None None None (Some 0) None None None)"
    and "P (replace_new base None None None None None (Some 0) None None)"
    and "P (replace_new base None None None None (Some 1) (Some 1) (Some None) None)"
    and "P (replace_new base None None None None (Some 2) (Some 2) (Some (Some (ws_mid_price sp))) None)"
    and "P (replace_new base None None None None (Some 1) (Some 1) (Some (Some 0)) None)"
    and "P (replace_new base None None None None None (Some 3) None None)"
    and "max_order_quantity (ws_engine sp) < U64_MAX \<Longrightarrow>
      P (replace_new base None None None None None None None (Some (max_order_quantity (ws_engine sp) + 1)))"
    and "tick_increment (ws_engine sp) > 1 \<Longrightarrow>
      P (replace_new base None None None None (Some 1) (Some 1) (Some (Some (ws_mid_price sp + 1))) None)"
    and "P (replace_new base None None None None (Some 2) (Some 1) (Some None) None)"
  shows "P (fst (invalid_shape_new sp variant base))"
  using assms by (simp add: invalid_shape_new_def invalid_quantity_new_def)

lemma invalid_shape_rejected:
  assumes "spec_valid sp"
  shows "\<not> accepts (ws_engine sp) iid (NewOrder (fst (invalid_shape_new sp variant ord))) sq v"
  using mid_plus_one [OF assms] spec_validD(19) [OF assms]
  by (intro invalid_shape_cases [where P = "\<lambda>ord. \<not> accepts (ws_engine sp) iid (NewOrder ord) sq v"])
    (auto simp: accepts_new_def validate_new_shape_def is_valid_side_def is_valid_order_type_def is_valid_time_in_force_def
      matching_config_ok_def)

lemma invalid_shape_representable:
  assumes "spec_valid sp" and "good_new sp v ord" and "ws_mid_price sp < I64_MAX"
  shows "require_representable (NewOrder (fst (invalid_shape_new sp variant ord))) = Inr ()"
proof -
  have "I64_MIN \<le> 0" "0 \<le> I64_MAX" "0 \<le> U32_MAX" "0 \<le> U64_MAX" "0 \<le> U8_MAX" "1 \<le> U8_MAX" "2 \<le> U8_MAX" "3 \<le> U8_MAX"
    by (simp_all add: I64_MIN_def I64_MAX_def U32_MAX_def U64_MAX_def U8_MAX_def)
  with good_new_representable [OF assms(1,2)] assms(3) spec_validD(12,13,19) [OF assms(1)] show ?thesis
    by (intro invalid_shape_cases [where P = "\<lambda>ord. require_representable (NewOrder ord) = Inr ()"])
      (simp_all add: representable_new matching_config_ok_def del: require_representable.simps)
qed

definition bad :: "workload_spec \<Rightarrow> view \<Rightarrow> int \<Rightarrow> command \<Rightarrow> bool" where
  "bad sp v sq cmd \<longleftrightarrow> \<not> spec_accepts sp cmd sq v \<and> require_representable cmd = Inr ()"

lemma has_active_book:
  assumes "ready sp v k g" and "tidy v" and "has_active g"
  obtains x sd where "x \<in> set (v sd)"
proof -
  have "0 < book_count v"
    using shadow_count [OF readyD(2) [OF assms(1)] assms(2)] assms(3) unfolding has_active_def book_count_def
    by (metis length_greater_0_conv of_nat_0_less_iff)
  from book_nonempty [OF this] that show thesis by blast
qed

lemma sure_invalid_new:
  assumes r: "ready sp v k g" and b: "sized_book sp latest v" and k: "1 \<le> k" and mid: "ws_mid_price sp < I64_MAX"
    and Q: "\<And>c intent g'. ready sp v (k - 1) g' \<Longrightarrow> bad sp v sq (NewOrder c) \<Longrightarrow> Q (c, intent) g'"
  shows "sure (invalid_new variant) g Q"
  unfolding invalid_new_def sure_bind sure_basic readyD(1) [OF r]
proof (rule sure_build_valid_new [OF r sized_bookD(1,3) [OF b] k])
  fix base g' assume r': "ready sp v (k - 1) g'" and base: "good_new sp v base"
  note sv = sized_bookD(1) [OF b]
  show "sure (if variant = 11 \<and> has_active g'
     then bindP (active_choice None) (\<lambda>duplicate.
       ret (replace_new base None (Some (so_order_id duplicate)) None None None None None None, ''invalid_new_duplicate_id''))
     else ret (invalid_shape_new sp variant base)) g' Q"
  proof (rule sure_if)
    assume "variant = 11 \<and> has_active g'"
    then obtain x sd where x: "x \<in> set (v sd)" using has_active_book [OF r' sized_bookD(3) [OF b]] by blast
    show "sure (bindP (active_choice None) (\<lambda>duplicate.
       ret (replace_new base None (Some (so_order_id duplicate)) None None None None None None, ''invalid_new_duplicate_id''))) g' Q"
      unfolding sure_bind sure_basic
    proof (rule sure_active_choice [OF r' b x])
      fix y sd' g'' assume r'': "ready sp v (k - 1) g''" and y: "y \<in> set (v sd')"
      have "bad sp v sq (NewOrder (replace_new base None (Some (so_order_id (shadow_of y))) None None None None None None))"
        using good_new_representable [OF sv base] book_order [OF b y]
        by (auto simp: bad_def accepts_new_def representable_new simp del: require_representable.simps)
      then show "Q (replace_new base None (Some (so_order_id (shadow_of y))) None None None None None None, ''invalid_new_duplicate_id'') g''"
        by (rule Q [OF r''])
    qed simp
  next
    show "sure (ret (invalid_shape_new sp variant base)) g' Q"
      using Q [OF r', of "fst (invalid_shape_new sp variant base)" "snd (invalid_shape_new sp variant base)"]
        invalid_shape_rejected [OF sv] invalid_shape_representable [OF sv base mid] by (simp add: bad_def)
  qed
qed

lemma bad_cancel:
  assumes "0 \<le> client" "client \<le> U32_MAX" "0 \<le> oid" "oid \<le> U64_MAX" "0 \<le> iid" "iid \<le> U32_MAX"
    and "client = 0 \<or> oid = 0 \<or> iid \<noteq> ws_instrument_id sp \<or> find_order oid v = None \<or>
      (\<exists>ord. find_order oid v = Some ord \<and> ord_client_id ord \<noteq> client)"
  shows "bad sp v sq (CancelOrder (make_cancel client oid iid))"
  using assms by (auto simp: bad_def make_cancel_def accepts_cancel_def validate_cancel_shape_def bindR_Inr_iff require_uint_def
      split: option.splits)

lemma sure_invalid_cancel:
  assumes r: "ready sp v k g" and b: "sized_book sp latest v" and k: "1 \<le> k"
    and Q: "\<And>c intent g'. ready sp v (k - 1) g' \<Longrightarrow> bad sp v sq (CancelOrder c) \<Longrightarrow> Q (c, intent) g'"
  shows "sure (invalid_cancel variant) g Q"
proof -
  note s = spec_validD(2,3) [OF sized_bookD(1) [OF b]] and t = sized_bookD(3) [OF b] and other = other_instrument_differs [OF s]
  have keep: "Q (c, intent) g'" if "ready sp v k g'" "bad sp v sq (CancelOrder c)" for c intent g'
    using Q [OF ready_mono [OF that(1)] that(2)] by simp
  have w: "0 \<le> U32_MAX" "1 \<le> U32_MAX" "2 \<le> U32_MAX" "0 \<le> U64_MAX" "1 \<le> U64_MAX" by (simp_all add: U32_MAX_def U64_MAX_def)
  have shapes: "bad sp v sq (CancelOrder (make_cancel 0 1 (ws_instrument_id sp)))"
    "bad sp v sq (CancelOrder (make_cancel 1 0 (ws_instrument_id sp)))" "bad sp v sq (CancelOrder (make_cancel 1 1 0))"
    using s w by (auto intro!: bad_cancel)
  have unknown: "sure allocate_order_id g' (\<lambda>i g''. Q (make_cancel client i iid, intent) g'')"
    if "ready sp v k g'" "0 \<le> client" "client \<le> U32_MAX" "iid = ws_instrument_id sp" for g' client iid intent
    using that s by (intro sure_allocate [OF that(1) k t] Q bad_cancel) auto
  have targeted: "sure (bindP (active_choice None) (\<lambda>ord.
         if variant = 3
         then bindP allocate_order_id (\<lambda>unknown.
           ret (make_cancel (so_client_id ord) unknown (so_instrument_id ord), ''invalid_cancel_unknown_id''))
         else if variant = 4
         then ret (make_cancel (if so_client_id ord \<noteq> 1 then 1 else 2) (so_order_id ord) (so_instrument_id ord),
                ''invalid_cancel_ownership'')
         else ret (make_cancel (so_client_id ord) (so_order_id ord) (other_instrument sp), ''invalid_cancel_instrument_mismatch''))) g Q"
    if act: "has_active g"
  proof -
    obtain x sd where x: "x \<in> set (v sd)" using has_active_book [OF r t act] .
    show ?thesis
      unfolding sure_bind
    proof (rule sure_active_choice [OF r b x])
      fix y sd' g' assume g': "ready sp v k g'" and y: "y \<in> set (v sd')"
      note o = book_order [OF b y]
      have "bad sp v sq (CancelOrder (make_cancel (if ord_client_id y \<noteq> 1 then 1 else 2) (ord_order_id y) (ord_instrument_id y)))"
        "bad sp v sq (CancelOrder (make_cancel (ord_client_id y) (ord_order_id y) (other_instrument sp)))"
        using o other s w by (auto intro!: bad_cancel)
      with unknown [OF g', of "ord_client_id y" "ord_instrument_id y"] keep [OF g'] o
      show "sure (if variant = 3
         then bindP allocate_order_id (\<lambda>unknown.
           ret (make_cancel (so_client_id (shadow_of y)) unknown (so_instrument_id (shadow_of y)), ''invalid_cancel_unknown_id''))
         else if variant = 4
         then ret (make_cancel (if so_client_id (shadow_of y) \<noteq> 1 then 1 else 2) (so_order_id (shadow_of y)) (so_instrument_id (shadow_of y)),
                ''invalid_cancel_ownership'')
         else ret (make_cancel (so_client_id (shadow_of y)) (so_order_id (shadow_of y)) (other_instrument sp),
                ''invalid_cancel_instrument_mismatch'')) g' Q"
        by simp
    qed simp
  qed
  have "sure (invalid_cancel variant) g Q \<longleftrightarrow>
      sure (if variant = 0 then ret (make_cancel 0 1 (ws_instrument_id sp), ''invalid_cancel_client_zero'')
     else if variant = 1 then ret (make_cancel 1 0 (ws_instrument_id sp), ''invalid_cancel_order_zero'')
     else if variant = 2 then ret (make_cancel 1 1 0, ''invalid_cancel_instrument_zero'')
     else if \<not> has_active g
       then bindP allocate_order_id (\<lambda>unknown. ret (make_cancel 1 unknown (ws_instrument_id sp), ''invalid_cancel_unknown_id''))
     else bindP (active_choice None) (\<lambda>ord.
         if variant = 3
         then bindP allocate_order_id (\<lambda>unknown.
           ret (make_cancel (so_client_id ord) unknown (so_instrument_id ord), ''invalid_cancel_unknown_id''))
         else if variant = 4
         then ret (make_cancel (if so_client_id ord \<noteq> 1 then 1 else 2) (so_order_id ord) (so_instrument_id ord),
                ''invalid_cancel_ownership'')
         else ret (make_cancel (so_client_id ord) (so_order_id ord) (other_instrument sp), ''invalid_cancel_instrument_mismatch''))) g Q"
    unfolding invalid_cancel_def sure_bind [of "getsP gen_spec"] sure_basic readyD(1) [OF r] by simp
  then show ?thesis
    using keep [OF r shapes(1)] keep [OF r shapes(2)] keep [OF r shapes(3)] unknown [OF r, of 1 "ws_instrument_id sp"] w targeted
    by (auto simp del: sure_bind simp: sure_bind [of allocate_order_id])
qed

lemma bad_replace:
  assumes "0 \<le> client" "client \<le> U32_MAX" "0 \<le> old_id" "old_id \<le> U64_MAX" "0 \<le> new_id" "new_id \<le> U64_MAX"
    "0 \<le> iid" "iid \<le> U32_MAX" "0 \<le> p" "p \<le> I64_MAX" "0 \<le> n" "n \<le> U64_MAX"
    and "client = 0 \<or> old_id = 0 \<or> new_id = 0 \<or> old_id = new_id \<or> iid \<noteq> ws_instrument_id sp \<or> n = 0 \<or> p = 0 \<or>
      p mod tick_increment (ws_engine sp) \<noteq> 0 \<or> find_order new_id v \<noteq> None \<or> find_order old_id v = None \<or>
      (\<exists>ord. find_order old_id v = Some ord \<and> ord_client_id ord \<noteq> client)"
  shows "bad sp v sq (ReplaceOrder (make_replace client old_id new_id iid p n))"
proof -
  have "\<not> spec_accepts sp (ReplaceOrder (make_replace client old_id new_id iid p n)) sq v"
    using assms(13) unfolding accepts.simps accepts_replace_def
    by (auto simp: make_replace_def validate_replace_shape_def split: option.splits)
  moreover have "I64_MIN \<le> p" using assms(9) by (simp add: I64_MIN_def)
  ultimately show ?thesis
    using assms(1-12) by (simp add: bad_def make_replace_def bindR_Inr_iff require_uint_def require_i64_def)
qed

lemma another_element: "distinct xs \<Longrightarrow> 1 < length xs \<Longrightarrow> \<exists>y \<in> set xs. y \<noteq> z"
  by (cases xs; cases "tl xs") auto

lemma sure_invalid_replace_of:
  assumes r: "ready sp v k g" and b: "sized_book sp latest v" and k: "1 \<le> k" and mid: "ws_mid_price sp < I64_MAX"
    and x: "x \<in> set (v sd)" and i: "1 \<le> i" "i \<le> U64_MAX" and p: "price_ok sp p"
    and n: "1 \<le> n" "n \<le> max_order_quantity (ws_engine sp)"
    and Q: "\<And>c intent g'. ready sp v (k - 1) g' \<Longrightarrow> bad sp v sq (ReplaceOrder c) \<Longrightarrow> Q (c, intent) g'"
  shows "sure (invalid_replace_of variant sp (shadow_of x) i p n) g Q"
proof -
  note sv = sized_bookD(1) [OF b] and t = sized_bookD(3) [OF b] and o = book_order [OF b x]
  note s = spec_validD [OF sv]
  note other = other_instrument_differs [OF s(2,3)]
  have w: "0 \<le> U32_MAX" "1 \<le> U32_MAX" "2 \<le> U32_MAX" "0 \<le> U64_MAX" "0 \<le> I64_MAX" by (simp_all add: U32_MAX_def U64_MAX_def I64_MAX_def)
  have n': "0 \<le> n" "n \<le> U64_MAX" using n s(19) by (auto simp: matching_config_ok_def)
  have p': "0 \<le> p" "p \<le> I64_MAX" using p by (auto simp: price_ok_def)
  have keep: "Q (c, intent) g'" if "ready sp v k g'" "bad sp v sq (ReplaceOrder c)" for c intent g'
    using Q [OF ready_mono [OF that(1)] that(2)] by simp
  have reject: "bad sp v sq (ReplaceOrder (make_replace 0 (ord_order_id x) i (ord_instrument_id x) p n))"
    "bad sp v sq (ReplaceOrder (make_replace (ord_client_id x) (ord_order_id x) (ord_order_id x) (ord_instrument_id x) p n))"
    "bad sp v sq (ReplaceOrder (make_replace (if ord_client_id x \<noteq> 1 then 1 else 2) (ord_order_id x) i (ord_instrument_id x) p n))"
    "bad sp v sq (ReplaceOrder (make_replace (ord_client_id x) (ord_order_id x) i (other_instrument sp) p n))"
    "bad sp v sq (ReplaceOrder (make_replace (ord_client_id x) 0 i (ord_instrument_id x) p n))"
    "bad sp v sq (ReplaceOrder (make_replace (ord_client_id x) (ord_order_id x) 0 (ord_instrument_id x) p n))"
    "bad sp v sq (ReplaceOrder (make_replace (ord_client_id x) (ord_order_id x) i (ord_instrument_id x) p 0))"
    "bad sp v sq (ReplaceOrder (make_replace (ord_client_id x) (ord_order_id x) i (ord_instrument_id x)
      (if tick_increment (ws_engine sp) > 1 then ws_mid_price sp + 1 else 0) n))"
    using o other i s(2,3,12) n' p' w mid mid_plus_one [OF sv] by (auto intro!: bad_replace)
  have unknown: "sure allocate_order_id g (\<lambda>j g'. Q (make_replace (ord_client_id x) j i (ord_instrument_id x) p n, intent) g')" for intent
    using o i n' p' s(2,3) by (intro sure_allocate [OF r k t] Q bad_replace) auto
  have duplicate: "sure (active_choice (Some (ord_order_id x))) g
      (\<lambda>y g'. Q (make_replace (ord_client_id x) (ord_order_id x) (so_order_id y) (ord_instrument_id x) p n, intent) g')"
    if "1 < replace_active_count g" for intent
  proof -
    have d: "distinct (map ord_order_id (v BUY @ v SELL))" using t unfolding tidy_def by (rule conjunct1)
    have "1 < length (map ord_order_id (v BUY @ v SELL))"
      using that shadow_count [OF readyD(2) [OF r] t] by (simp add: replace_active_count_def)
    from another_element [OF d this, of "ord_order_id x"]
    obtain j where "j \<in> set (map ord_order_id (v BUY @ v SELL))" "j \<noteq> ord_order_id x" by (rule bexE)
    then obtain y where "y \<in> set (v BUY @ v SELL)" "ord_order_id y \<noteq> ord_order_id x" by auto
    then obtain sd' where y: "y \<in> set (v sd')" "Some (ord_order_id x) \<noteq> Some (ord_order_id y)" by auto
    show ?thesis
    proof (rule sure_active_choice [OF r b y])
      fix z sd'' g' assume g': "ready sp v k g'" and z: "z \<in> set (v sd'')"
      have "bad sp v sq (ReplaceOrder (make_replace (ord_client_id x) (ord_order_id x) (ord_order_id z) (ord_instrument_id x) p n))"
        using o book_order [OF b z] n' p' s(2,3) by (auto intro!: bad_replace)
      then show "Q (make_replace (ord_client_id x) (ord_order_id x) (so_order_id (shadow_of z)) (ord_instrument_id x) p n, intent) g'"
        using keep [OF g'] by simp
    qed
  qed
  show ?thesis
    using keep [OF r] reject unknown duplicate unfolding invalid_replace_of_def Let_def
    by (auto simp: bad_def [symmetric])
qed

lemma sure_invalid_replace:
  assumes r: "ready sp v k g" and b: "sized_book sp latest v" and k: "2 \<le> k" and mid: "ws_mid_price sp < I64_MAX"
    and Q: "\<And>c intent g'. ready sp v (k - 2) g' \<Longrightarrow> bad sp v sq (ReplaceOrder c) \<Longrightarrow> Q (c, intent) g'"
  shows "sure (invalid_replace variant) g Q"
proof -
  note sv = sized_bookD(1) [OF b] and t = sized_bookD(3) [OF b]
  note s = spec_validD [OF sv]
  have k1: "1 \<le> k" "1 \<le> k - 1" using k by simp_all
  have unknown: "sure (bindP allocate_order_id (\<lambda>old_id.
          bindP allocate_order_id (\<lambda>new_id.
          ret (make_replace 1 old_id new_id (ws_instrument_id sp) (ws_mid_price sp) 1, ''invalid_replace_unknown_id'')))) g Q"
    unfolding sure_bind sure_basic
    apply (rule sure_allocate [OF r k1(1) t])
    apply (rule sure_allocate [OF _ k1(2) t], assumption)
    using s(2,3,12,13) by (intro Q bad_replace) (auto simp: U32_MAX_def U64_MAX_def)
  have targeted: "sure (bindP (active_choice None) (\<lambda>ord.
       bindP allocate_order_id (\<lambda>new_id.
       bindP (gen_price (so_side ord) False) (\<lambda>price.
       bindP (gen_quantity (so_side ord)) (\<lambda>quantity.
       invalid_replace_of variant sp ord new_id price quantity))))) g Q" if act: "has_active g"
  proof -
    obtain x sd where x: "x \<in> set (v sd)" using has_active_book [OF r t act] .
    show ?thesis
      unfolding sure_bind
      apply (rule sure_active_choice [OF r b x], simp)
      apply (rule sure_allocate [OF _ k1(1) t], assumption)
      apply (rule sure_price [OF _ sv], assumption)
      apply (rule sure_quantity [OF _ sv], assumption)
      apply (rule sure_invalid_replace_of [OF _ b k1(2) mid], assumption+)
      by (rule Q; simp)
  qed
  show ?thesis
    unfolding invalid_replace_def sure_bind [of "getsP gen_spec"] sure_bind [of "getsP has_active"] sure_basic readyD(1) [OF r]
    by (rule sure_if) (use unknown targeted in \<open>auto simp del: sure_bind\<close>)
qed

lemma sure_invalid_command:
  assumes r: "ready sp v k g" and b: "sized_book sp latest v" and k: "2 \<le> k" and mid: "ws_mid_price sp < I64_MAX"
    and Q: "\<And>gc g'. ready sp v (k - 2) g' \<Longrightarrow> bad sp v sq (gc_command gc) \<Longrightarrow> \<not> gc_intended_valid gc \<Longrightarrow> Q gc g'"
  shows "sure invalid_command g Q"
proof -
  have k1: "1 \<le> k" using k by simp
  have less: "ready sp v (k - 2) g'" if "ready sp v (k - 1) g'" for g' using ready_mono [OF that] by simp
  show ?thesis
    unfolding invalid_command_def sure_bind [of "on_rng _"]
    apply (rule sure_ready_randbelow [OF r], simp, simp)
    unfolding sure_bind sure_prod sure_basic
    apply (intro sure_if)
    unfolding sure_bind sure_prod sure_basic
    subgoal by (rule sure_invalid_new [OF _ b k1 mid], assumption) (auto intro: Q less)
    subgoal by (rule sure_invalid_cancel [OF _ b k1], assumption) (auto intro: Q less)
    subgoal by (rule sure_invalid_replace [OF _ b k mid], assumption) (auto intro: Q)
    done
qed

section \<open>Identifiers stay accounted for\<close>

definition issued :: "workload_generator \<Rightarrow> int \<Rightarrow> bool" where
  "issued g i \<longleftrightarrow> i < gen_next_order_id g \<or> boundary_start \<le> i"

definition steady :: "(workload_generator, 'a) prog \<Rightarrow> bool" where
  "steady m \<longleftrightarrow> (\<forall>g. gen_next_order_id (snd (m g)) = gen_next_order_id g)"

named_theorems steady_intros \<open>methods that do not move the identifier counter\<close>

lemma steady_bind [steady_intros]: "steady m \<Longrightarrow> (\<And>x. steady (f x)) \<Longrightarrow> steady (bindP m f)"
  unfolding steady_def bindP_def by (auto split: prod.splits sum.splits) (metis snd_conv)+

lemma steady_basic [steady_intros]: "steady (ret x)" "steady (raise e)" "steady (getsP f)" "steady (read_shadow h)" "steady (on_rng m)"
  by (simp_all add: steady_def getsP_def read_shadow_def on_rng_def split: prod.splits)

lemma steady_branches [steady_intros]:
  "steady m \<Longrightarrow> steady n \<Longrightarrow> steady (if b then m else n)"
  "(\<And>x. steady (f x)) \<Longrightarrow> steady (Let w f)"
  "(\<And>x y. steady (h x y)) \<Longrightarrow> steady (case p of (x, y) \<Rightarrow> h x y)"
  "steady m \<Longrightarrow> (\<And>x. steady (f x)) \<Longrightarrow> steady (case u of None \<Rightarrow> m | Some x \<Rightarrow> f x)"
  by (simp_all split: prod.splits option.splits)

lemma steady_parts [steady_intros]: "steady (active_choice x)" "steady (gen_quantity sd)" "steady (gen_price sd b)"
proof -
  show "steady (active_choice x)" unfolding active_choice_def by (intro steady_intros)
  show "steady (gen_quantity sd)" unfolding gen_quantity_def by (intro steady_intros)
  have "steady base_price" unfolding base_price_def by (intro steady_intros)
  then show "steady (gen_price sd b)" unfolding gen_price_def by (intro steady_intros)
qed

lemma steadyD: "steady m \<Longrightarrow> m g = (r, g') \<Longrightarrow> issued g' i = issued g i"
  unfolding steady_def issued_def by (metis snd_conv)

lemma allocate_issued: "allocate_order_id g = (Inr i, g') \<Longrightarrow> issued g' i"
proof -
  assume a: "allocate_order_id g = (Inr i, g')"
  have free: "next_free_id h = (Inr i, g') \<Longrightarrow> issued g' i" for h
    by (auto simp: next_free_id_def issued_def Let_def split: if_splits)
  from a obtain lucky g1 where run: "(if lucky
     then bindP (on_rng (randbelow 1024)) (\<lambda>r.
          bindP (getsP (\<lambda>g. map_of (sh_active (gen_shadow g)) (U64_MAX - r) = None)) (\<lambda>unused.
          if U64_MAX - r \<noteq> 0 \<and> unused then ret (U64_MAX - r) else next_free_id))
     else next_free_id) g1 = (Inr i, g')"
    unfolding allocate_order_id_def by (elim bindP_InrE)
  then show "issued g' i"
  proof (cases lucky)
    case True
    with run obtain r g2 where r: "on_rng (randbelow 1024) g1 = (Inr r, g2)"
      and i: "next_free_id g2 = (Inr i, g') \<or> i = U64_MAX - r"
      by (auto elim!: bindP_InrE simp: getsP_def split: if_splits)
    have "0 \<le> r \<and> r < 1024" using r randbelow_returns [of 1024 "gen_rng g1"] by (auto simp: on_rng_def split: prod.splits)
    with i free show ?thesis by (auto simp: issued_def boundary_start_def)
  qed (use free in simp)
qed

text \<open>The identifier of a new order, and the replacement identifier of a replacement.\<close>

fun fresh_id :: "command \<Rightarrow> int option" where
  "fresh_id (NewOrder c) = Some (new_order_id c)"
| "fresh_id (CancelOrder c) = None"
| "fresh_id (ReplaceOrder c) = Some (rep_new_order_id c)"

definition leads :: "('s, 'a) prog \<Rightarrow> ('a \<Rightarrow> 's \<Rightarrow> bool) \<Rightarrow> bool" where
  "leads m R \<longleftrightarrow> (\<forall>g y g'. m g = (Inr y, g') \<longrightarrow> R y g')"

lemma leadsD: "leads m R \<Longrightarrow> m g = (Inr y, g') \<Longrightarrow> R y g'"
  by (simp add: leads_def)

lemma leads_bind: "(\<And>x. leads (f x) R) \<Longrightarrow> leads (bindP m f) R"
  unfolding leads_def by (auto elim!: bindP_InrE)

lemma leads_ret: "P x \<Longrightarrow> leads (ret x) (\<lambda>y _. P y)"
  by (simp add: leads_def)

lemma leads_if: "leads m R \<Longrightarrow> leads n R \<Longrightarrow> leads (if b then m else n) R"
  by simp

lemma leads_allocate:
  assumes "\<And>i. steady (f i)" and "\<And>i. leads (f i) (\<lambda>y _. idn y = i)"
  shows "leads (bindP allocate_order_id f) (\<lambda>y g'. issued g' (idn y))"
  unfolding leads_def
proof (intro allI impI, elim bindP_InrE)
  fix g y g' i g1 assume "allocate_order_id g = (Inr i, g1)" and f: "f i g1 = (Inr y, g')"
  then have "issued g1 i" by (simp add: allocate_issued)
  with steadyD [OF assms(1) f, of i] leadsD [OF assms(2) f] show "issued g' (idn y)" by simp
qed

lemma build_valid_new_issued: "leads build_valid_new (\<lambda>ord g'. issued g' (new_order_id ord))"
  unfolding build_valid_new_def Let_def
  by (rule leads_bind, rule leads_bind, rule leads_bind, rule leads_allocate)
    (intro steady_intros | intro leads_bind leads_if leads_ret | simp)+

lemma valid_replace_issued: "leads valid_replace (\<lambda>c g'. issued g' (rep_new_order_id c))"
  unfolding valid_replace_def
  by (rule leads_bind, rule leads_allocate) (intro steady_intros | intro leads_bind leads_ret | simp)+

lemma valid_command_issued:
  assumes "valid_command g = (Inr (cmd, intent), g')" and "fresh_id cmd = Some i"
  shows "issued g' i"
  using assms leadsD [OF build_valid_new_issued] leadsD [OF valid_replace_issued]
  by (auto simp: valid_command_def split: if_splits elim!: bindP_InrE)

end
