(* ===== verification/Workload_Properties.thy ===== *)
theory Workload_Properties
  imports Workload_Choices Engine_Properties
begin

text \<open>
  The generator beside the reference engine.  Each step of the generator is one step of the price-time
  specification on the book its shadow represents, so the intent recorded with a command is the
  engine's verdict on it.  The theory also holds the properties of the draws, of the statistics and of
  the profiles.
\<close>

section \<open>One step beside the specification\<close>

lemma spec_add_ids:
  assumes "view_ok c iid latest v" and "0 \<le> new_quantity ord" and "x \<in> set (snd (snd (spec_add sd ord sq v)) sd')"
  shows "ord_order_id x = new_order_id ord \<or> (\<exists>sd y. y \<in> set (v sd) \<and> ord_order_id y = ord_order_id x)"
proof -
  obtain fills n os where m: "spec_match (limit_crosses sd (new_limit_price ord)) (new_quantity ord) (v (other_side sd)) = (fills, n, os)"
    by (metis prod_cases3)
  have "x \<in> set os \<Longrightarrow> \<exists>y \<in> set (v (other_side sd)). ord_order_id y = ord_order_id x"
    using shrinks_elem [OF spec_match_shrinks [OF m view_ok_positive [OF assms(1)] assms(2)], of x] by (auto simp: remnant_def)
  then show ?thesis
    using assms(3) m by (cases "sd' = sd") (auto simp: spec_add_def Let_def rested_order_def split: option.splits if_splits)
qed

lemma spec_step_ids:
  assumes ok: "view_ok c iid latest v" and acc: "accepts c iid cmd sq v" and rep: "require_representable cmd = Inr ()"
    and x: "x \<in> set (snd (spec_step c iid cmd sq v) sd)"
  shows "fresh_id cmd = Some (ord_order_id x) \<or> (\<exists>sd y. y \<in> set (v sd) \<and> ord_order_id y = ord_order_id x)"
proof (cases cmd)
  case (NewOrder ord)
  have q: "0 \<le> new_quantity ord" using rep NewOrder by (simp add: representable_new del: require_representable.simps)
  have "x \<in> set (snd (snd (spec_add (side_of (new_side ord)) ord sq v)) sd)"
    using x acc NewOrder spec_new_accepts [of c iid ord sq v] by (simp add: spec_aggress_view)
  from spec_add_ids [OF ok q this] show ?thesis using NewOrder by auto
next
  case (CancelOrder ord)
  then show ?thesis
    using x acc spec_cancel_accepts [of iid ord v sq] by (auto simp: spec_remove_order_def spec_remove_def)
next
  case (ReplaceOrder ord)
  with acc obtain old where old: "find_order (rep_old_order_id ord) v = Some old"
    by (auto simp: accepts_replace_def split: option.splits)
  let ?o = "replacement_order ord old" and ?v = "spec_remove_order (rep_old_order_id ord) v"
  have q: "0 \<le> new_quantity ?o"
    using rep ReplaceOrder by (auto simp: replacement_order_def bindR_Inr_iff require_uint_def split: if_splits)
  have "x \<in> set (snd (snd (spec_add (ord_side old) ?o sq ?v)) sd)"
    using x acc ReplaceOrder spec_replace_accepts [OF _ old, of c iid sq] by (simp add: spec_aggress_view)
  from spec_add_ids [OF removed_view_ok [OF ok] q this] show ?thesis
    using ReplaceOrder by (auto simp: replacement_order_def spec_remove_order_def spec_remove_def)
qed

lemma ready_after_apply:
  assumes r: "ready sp v k g" and b: "sized_book sp latest v" and acc: "spec_accepts sp cmd sq v"
    and rep: "require_representable cmd = Inr ()" and new: "\<And>i. fresh_id cmd = Some i \<Longrightarrow> issued g i"
  shows "\<exists>sh. shadow_apply cmd (gen_shadow g) = (Inr (), sh) \<and>
    ready sp (snd (spec_step (ws_engine sp) (ws_instrument_id sp) cmd sq v)) k (g\<lparr>gen_shadow := sh\<rparr>)"
proof -
  let ?v = "snd (spec_step (ws_engine sp) (ws_instrument_id sp) cmd sq v)"
  note ok = sized_bookD(2) [OF b]
  from shadow_apply_refines [OF readyD(2) [OF r] ok acc rep] obtain sh where
    sh: "shadow_apply cmd (gen_shadow g) = (Inr (), sh)" "shadow_rel sh ?v" by blast
  have "issued g i" if i: "i \<in> set (map fst (sh_active sh))" for i
  proof -
    obtain x sd where x: "x \<in> set (?v sd)" "ord_order_id x = i"
      using i shadow_keys [OF sh(2)] by auto
    from spec_step_ids [OF ok acc rep x(1)] x(2) new consider "issued g i" | y sd' where "y \<in> set (v sd')" "ord_order_id y = i" by blast
    then show ?thesis
    proof cases
      case 2
      then have "i \<in> set (map fst (sh_active (gen_shadow g)))"
        using shadow_keys [OF readyD(2) [OF r]] by (cases sd') auto
      then show ?thesis using r unfolding ready_def issued_def by blast
    qed
  qed
  then show ?thesis using r sh by (auto simp: ready_def issued_def)
qed

lemma ready_counters [simp]:
  "ready sp v k (count_generated gc g) \<longleftrightarrow> ready sp v k g"
  "ready sp v k (g\<lparr>gen_intended_valid := n\<rparr>) \<longleftrightarrow> ready sp v k g"
  "ready sp v k (g\<lparr>gen_intended_invalid := n\<rparr>) \<longleftrightarrow> ready sp v k g"
  by (simp_all add: ready_def)

lemma bad_unchanged: "bad sp v sq cmd \<Longrightarrow> snd (spec_step (ws_engine sp) (ws_instrument_id sp) cmd sq v) = v"
  using spec_step_rejects [of "ws_engine sp" "ws_instrument_id sp" cmd sq v] by (auto simp: bad_def)

text \<open>The hypotheses under which the intents are exact: see the property below.\<close>

definition tame :: "workload_spec \<Rightarrow> bool" where
  "tame sp \<longleftrightarrow> spec_valid sp \<and> quantity_fits sp \<and> ws_mid_price sp < I64_MAX \<and> ws_command_count sp \<le> 2 ^ 62"

lemma sure_step_body:
  assumes r: "ready sp v k g" and b: "sized_book sp latest v" and t: "tame sp" and k: "2 \<le> k"
  shows "sure (step_body intended_invalid) g (\<lambda>gc g'. require_representable (gc_command gc) = Inr () \<and>
    (gc_intended_valid gc \<longleftrightarrow> spec_accepts sp (gc_command gc) sq v) \<and>
    ready sp (snd (spec_step (ws_engine sp) (ws_instrument_id sp) (gc_command gc) sq v)) (k - 2) g')"
proof (cases intended_invalid)
  case True
  have mid: "ws_mid_price sp < I64_MAX" using t by (simp add: tame_def)
  show ?thesis
    unfolding step_body_def sure_bind if_P [OF True] sure_seq sure_basic
    by (rule sure_invalid_command [OF r b k mid]) (auto simp: bad_unchanged bad_def)
next
  case False
  have q: "quantity_fits sp" and k1: "1 \<le> k" using t k by (simp_all add: tame_def)
  from sure_valid_command [OF r b q k1, of sq "\<lambda>cmd g'. ready sp v (k - 1) g' \<and> spec_accepts sp (fst cmd) sq v \<and>
      require_representable (fst cmd) = Inr ()"]
  obtain cmd intent g1 where g1: "valid_command g = (Inr (cmd, intent), g1)" "ready sp v (k - 1) g1"
    "spec_accepts sp cmd sq v" "require_representable cmd = Inr ()" by (auto simp: sure_def)
  from ready_after_apply [OF g1(2) b g1(3,4) valid_command_issued [OF g1(1)]] obtain sh where
    sh: "shadow_apply cmd (gen_shadow g1) = (Inr (), sh)"
    "ready sp (snd (spec_step (ws_engine sp) (ws_instrument_id sp) cmd sq v)) (k - 1) (g1\<lparr>gen_shadow := sh\<rparr>)" by blast
  from ready_mono [OF sh(2), of "k - 2"] False g1 sh(1) show ?thesis
    unfolding step_body_def by (simp add: sure_def bindP_def seqP_def on_shadow_def modifyP_def)
qed

lemma generator_step:
  assumes r: "ready sp v k g" and b: "sized_book sp latest v" and t: "tame sp" and k: "2 \<le> k"
    and n: "gen_count g < ws_command_count sp"
  obtains gc g' where "next_generated g = (Inr gc, g')" "require_representable (gc_command gc) = Inr ()"
    "gc_intended_valid gc \<longleftrightarrow> spec_accepts sp (gc_command gc) sq v"
    "ready sp (snd (spec_step (ws_engine sp) (ws_instrument_id sp) (gc_command gc) sq v)) (k - 2) g'"
    "gen_count g' = gen_count g + 1"
proof -
  have sp: "gen_spec g = sp" by (rule readyD(1) [OF r])
  have inv: "0 \<le> ws_invalid_basis_points sp" "ws_invalid_basis_points sp \<le> 10000"
    using t spec_validD(4,5) by (auto simp: tame_def)
  let ?P = "\<lambda>gc g'. require_representable (gc_command gc) = Inr () \<and> (gc_intended_valid gc \<longleftrightarrow> spec_accepts sp (gc_command gc) sq v) \<and>
    ready sp (snd (spec_step (ws_engine sp) (ws_instrument_id sp) (gc_command gc) sq v)) (k - 2) g'"
  have "sure (bindP (on_rng (chance (ws_invalid_basis_points sp))) (\<lambda>b.
        bindP (step_body b) (\<lambda>gc. seqP (modifyP (count_generated gc)) (ret gc)))) g ?P"
    unfolding sure_bind sure_seq sure_basic ready_counters
    by (rule sure_ready_chance [OF r inv]) (rule sure_step_body [OF _ b t k])
  then obtain gc g' where g': "next_generated g = (Inr gc, g')" "?P gc g'"
    using n sp by (auto simp: sure_def next_generated_unfold)
  from that [of gc g'] g' next_generated_counts(2) [OF g'(1)] show thesis by blast
qed

section \<open>The whole stream\<close>

definition intent_met :: "generated_command \<Rightarrow> reference_result result \<Rightarrow> bool" where
  "intent_met gc r \<longleftrightarrow> (case r of Inl _ \<Rightarrow> False
     | Inr res \<Rightarrow> (case result_batch res of None \<Rightarrow> False | Some batch \<Rightarrow> gc_intended_valid gc = accepted_batch batch))"

lemma engine_sized_book:
  assumes "engine_inv s" and "eng_config s = ws_engine sp" and "eng_instrument_id s = ws_instrument_id sp" and "spec_valid sp"
  shows "sized_book sp (eng_last_sequence s) (view_of s)"
proof -
  note i = core_invD [of "eng_last_sequence s" s]
  have "core_inv (eng_last_sequence s) s" using assms(1) by (simp add: engine_inv_def)
  with i(8,9) [OF this] order_count [OF i(1) [OF this]] assms(2-4) show ?thesis
    by (simp add: sized_book_def view_of_def)
qed

lemma engine_verdict:
  assumes inv: "engine_inv s" and rep: "require_representable cmd = Inr ()" and "\<not> eng_sequence_exhausted s"
  obtains s' where
    "execute cmd s = (Inr (accepted_result (fst (spec_step (eng_config s) (eng_instrument_id s) cmd (eng_next_sequence s) (view_of s)))), s')"
    "engine_inv s'" "eng_config s' = eng_config s" "eng_instrument_id s' = eng_instrument_id s"
    "view_of s' = snd (spec_step (eng_config s) (eng_instrument_id s) cmd (eng_next_sequence s) (view_of s))"
    "eng_next_sequence s < U64_MAX \<Longrightarrow> eng_next_sequence s' = eng_next_sequence s + 1 \<and> \<not> eng_sequence_exhausted s'"
proof -
  from execute_refines [OF inv rep assms(3)] obtain s' where
    s': "execute cmd s = (Inr (accepted_result (fst (spec_step (eng_config s) (eng_instrument_id s) cmd (eng_next_sequence s) (view_of s)))), s')"
    "engine_inv s'" "static_of s' = static_of (observe_sequence (eng_next_sequence s) s)"
    "view_of s' = snd (spec_step (eng_config s) (eng_instrument_id s) cmd (eng_next_sequence s) (view_of s))"
    by (metis prod.collapse)
  have "eng_config s' = eng_config s" "eng_instrument_id s' = eng_instrument_id s"
    "eng_next_sequence s < U64_MAX \<Longrightarrow> eng_next_sequence s' = eng_next_sequence s + 1 \<and> \<not> eng_sequence_exhausted s'"
    using static_of_eqD [OF s'(3)] assms(3) by (auto simp: observe_sequence_def Let_def)
  with that s' show thesis by blast
qed

lemma verdict_accepts:
  "accepted_batch \<lparr>batch_events = fst (spec_step c iid cmd sq v)\<rparr> \<longleftrightarrow> accepts c iid cmd sq v"
proof (cases "accepts c iid cmd sq v")
  case False
  with spec_step_rejects [OF False] show ?thesis by (auto simp: accepted_batch_def spec_reject_def)
qed (use spec_step_accepts_hd [of c iid cmd sq v] in \<open>simp add: accepted_batch_def\<close>)

lemma generated_run:
  assumes "engine_inv s" and "eng_config s = ws_engine sp" and "eng_instrument_id s = ws_instrument_id sp"
    and "\<not> eng_sequence_exhausted s" and "tame sp" and "ready sp (view_of s) (2 * (ws_command_count sp - gen_count g)) g"
    and "eng_next_sequence s + (ws_command_count sp - gen_count g) \<le> U64_MAX" and "gen_count g \<le> ws_command_count sp"
  shows "\<exists>gcs g'. drain g = (Inr gcs, g') \<and> gen_count g' = ws_command_count sp \<and> gen_spec g' = sp \<and>
    gen_count g + int (length gcs) = ws_command_count sp \<and>
    (\<forall>gc \<in> set gcs. require_representable (gc_command gc) = Inr ()) \<and>
    list_all2 intent_met gcs (run_commands (map gc_command gcs) s)"
  using assms
proof (induction "nat (ws_command_count sp - gen_count g)" arbitrary: g s)
  case 0
  then have "next_generated g = (Inl StopIteration, g)"
    using readyD(1) [OF 0(7)] by (simp add: next_generated_unfold)
  with 0 readyD(1) [OF 0(7)] show ?case by (subst drain.simps) simp
next
  case (Suc n)
  let ?m = "ws_command_count sp - gen_count g" and ?sq = "eng_next_sequence s"
  have sv: "spec_valid sp" using Suc.prems(5) by (simp add: tame_def)
  note b = engine_sized_book [OF Suc.prems(1-3) sv]
  have m: "gen_count g < ws_command_count sp" "2 \<le> 2 * ?m" using Suc.hyps(2) by simp_all
  from generator_step [OF Suc.prems(6) b Suc.prems(5) m(2,1), of ?sq] obtain gc g1 where
    g1: "next_generated g = (Inr gc, g1)" "require_representable (gc_command gc) = Inr ()"
    "gc_intended_valid gc \<longleftrightarrow> spec_accepts sp (gc_command gc) ?sq (view_of s)"
    "ready sp (snd (spec_step (ws_engine sp) (ws_instrument_id sp) (gc_command gc) ?sq (view_of s))) (2 * ?m - 2) g1"
    "gen_count g1 = gen_count g + 1" by blast
  from engine_verdict [OF Suc.prems(1) g1(2) Suc.prems(4)] Suc.prems(2,3) obtain s1 where
    s1: "execute (gc_command gc) s = (Inr (accepted_result (fst (spec_step (ws_engine sp) (ws_instrument_id sp) (gc_command gc) ?sq (view_of s)))), s1)"
    "engine_inv s1" "eng_config s1 = ws_engine sp" "eng_instrument_id s1 = ws_instrument_id sp"
    "view_of s1 = snd (spec_step (ws_engine sp) (ws_instrument_id sp) (gc_command gc) ?sq (view_of s))"
    "?sq < U64_MAX \<Longrightarrow> eng_next_sequence s1 = ?sq + 1 \<and> \<not> eng_sequence_exhausted s1" by metis
  have sq: "eng_next_sequence s1 = ?sq + 1" "\<not> eng_sequence_exhausted s1" using s1(6) Suc.prems(7) m(1) by auto
  have "ready sp (view_of s1) (2 * (ws_command_count sp - gen_count g1)) g1" using g1(4,5) s1(5) by (simp add: algebra_simps)
  moreover have "n = nat (ws_command_count sp - gen_count g1)" "eng_next_sequence s1 + (ws_command_count sp - gen_count g1) \<le> U64_MAX"
    "gen_count g1 \<le> ws_command_count sp"
    using Suc.hyps(2) Suc.prems(7) g1(5) m(1) sq(1) by simp_all
  ultimately obtain gcs g2 where
    ih: "drain g1 = (Inr gcs, g2)" "gen_count g2 = ws_command_count sp" "gen_spec g2 = sp"
    "gen_count g1 + int (length gcs) = ws_command_count sp" "\<forall>gc \<in> set gcs. require_representable (gc_command gc) = Inr ()"
    "list_all2 intent_met gcs (run_commands (map gc_command gcs) s1)"
    using Suc.hyps(1) [OF _ s1(2-4) sq(2) Suc.prems(5)] by blast
  have "intent_met gc (fst (execute (gc_command gc) s))"
    using s1(1) g1(3) by (simp add: intent_met_def accepted_result_def verdict_accepts)
  with ih g1 s1(1) show ?case by (subst drain.simps) simp
qed

lemma start_ready:
  assumes "WorkloadGenerator sp seed = Inr g" and "tame sp"
  shows "ready sp (\<lambda>_. []) (2 * (ws_command_count sp - gen_count g)) g" and "gen_count g = 0"
  using assms empty_shadow_rel
  by (auto simp: WorkloadGenerator_def bindR_Inr_iff ready_def tame_def boundary_start_def U64_MAX_def GenerationShadow_def)

lemma start_engine:
  assumes "ReferenceEngine iid (Some c) first check = Inr s" and "matching_config_ok c"
  shows "engine_inv s" and "view_of s = (\<lambda>_. [])" and "eng_next_sequence s = first" and "eng_config s = c"
    and "eng_instrument_id s = iid" and "\<not> eng_sequence_exhausted s"
proof -
  note i = ReferenceEngine_inv [OF assms(1)]
  show inv: "engine_inv s" and "view_of s = (\<lambda>_. [])" and first: "eng_next_sequence s = first" using i assms(2) by simp_all
  have r: "1 \<le> iid" "iid \<le> U32_MAX" "1 \<le> first" "first \<le> U64_MAX"
    using assms(1) by (auto simp: ReferenceEngine_def split: if_splits)
  from r first inv show "\<not> eng_sequence_exhausted s" by (auto simp: engine_inv_def sequence_ok_def split: if_splits)
  let ?s = "initial_engine iid (Some c) first check"
  have "engine_inv ?s" by (rule initial_engine_inv [OF r]) (simp add: assms(2))
  from assert_invariants_clean [OF this] obtain s' where s': "assert_invariants ?s = (Inr (), s')" "heap_only ?s s'" by blast
  then have "s = s'" using assms(1) r by (simp add: ReferenceEngine_def)
  then show "eng_config s = c" "eng_instrument_id s = iid"
    using static_of_eqD [OF heap_only_fields(2) [OF s'(2)]] by (simp_all add: initial_engine_def)
qed

section \<open>Properties\<close>

text \<open>A specification and a seed for the witnesses.\<close>

definition sample_spec :: workload_spec where
  "sample_spec = projr (resolve_workload_spec SWEEP_HEAVY 40 7 DEFAULT_ENGINE None 10000 128 64 16 100)"

lemma sample_tame: "tame sample_spec"
  by code_simp

lemma sample_fields: "ws_instrument_id sample_spec = 7" "ws_engine sample_spec = DEFAULT_ENGINE" "ws_command_count sample_spec = 40"
  by code_simp+

text \<open>
  C6.  Intents are verdicts.  For a specification that the constructors accept, whose capacity times the
  largest quantity fits a 64-bit aggregate, whose mid price leaves room for one more unit and which asks
  for at most \<open>2 ^ 62\<close> commands, and for an engine with as many sequence numbers left: the generator yields the requested number of commands and stops, and the
  reference engine, run over them from an empty book, accepts exactly the commands intended valid.
\<close>

theorem generated_intents_exact:
  assumes "tame sp" and "WorkloadGenerator sp seed = Inr g"
    and "ReferenceEngine (ws_instrument_id sp) (Some (ws_engine sp)) first check = Inr s"
    and "first + ws_command_count sp \<le> U64_MAX"
  shows "\<exists>gcs g'. drain g = (Inr gcs, g') \<and> int (length gcs) = ws_command_count sp \<and>
    list_all2 intent_met gcs (run_commands (map gc_command gcs) s)"
proof -
  have "matching_config_ok (ws_engine sp)" using assms(1) spec_validD(19) by (simp add: tame_def)
  note e = start_engine [OF assms(3) this] and g = start_ready [OF assms(2,1)]
  have n: "1 \<le> ws_command_count sp" using assms(1) spec_validD(1) by (simp add: tame_def)
  from generated_run [OF e(1,4,5,6) assms(1), of g] g e(2,3) n assms(4) show ?thesis by auto
qed

theorem generated_intents_exact_witness:
  "\<exists>g s gcs g'. WorkloadGenerator sample_spec 42 = Inr g \<and> ReferenceEngine 7 (Some DEFAULT_ENGINE) 1 True = Inr s \<and>
    drain g = (Inr gcs, g') \<and> length gcs = 40 \<and> list_all2 intent_met gcs (run_commands (map gc_command gcs) s)"
proof -
  obtain g where g: "WorkloadGenerator sample_spec 42 = Inr g"
    by (simp add: WorkloadGenerator_def SplitMix64_def require_int_def U64_MAX_def)
  have "matching_config_ok DEFAULT_ENGINE" by code_simp
  then obtain s where s: "ReferenceEngine 7 (Some DEFAULT_ENGINE) 1 True = Inr s"
    using ReferenceEngine_returns [of 7 1 "Some DEFAULT_ENGINE" True] by (auto simp: U32_MAX_def U64_MAX_def)
  from generated_intents_exact [OF sample_tame g, of 1 True s] s g show ?thesis
    by (auto simp: sample_fields U64_MAX_def)
qed

lemma stream_exists:
  assumes "tame sp" and "0 \<le> seed" and "seed \<le> U64_MAX"
  obtains g gcs g' where "WorkloadGenerator sp seed = Inr g" "drain g = (Inr gcs, g')" "int (length gcs) = ws_command_count sp"
    "\<forall>gc \<in> set gcs. require_representable (gc_command gc) = Inr ()" "next_generated g' = (Inl StopIteration, g')"
proof -
  obtain g where g: "WorkloadGenerator sp seed = Inr g"
    using assms(2,3) by (simp add: WorkloadGenerator_def SplitMix64_def require_int_def U64_MAX_def)
  note v = spec_validD [of sp]
  have sv: "spec_valid sp" and n: "ws_command_count sp \<le> 2 ^ 62" using assms(1) by (simp_all add: tame_def)
  obtain s where s: "ReferenceEngine (ws_instrument_id sp) (Some (ws_engine sp)) 1 True = Inr s"
    using ReferenceEngine_returns [of "ws_instrument_id sp" 1 "Some (ws_engine sp)" True] v(2,3,19) [OF sv] by (auto simp: U64_MAX_def)
  note e = start_engine [OF s v(19) [OF sv]] and r = start_ready [OF g assms(1)]
  from generated_run [OF e(1,4,5,6) assms(1), of g] r e(2,3) n v(1) [OF sv] obtain gcs g' where
    d: "drain g = (Inr gcs, g')" "gen_count g' = ws_command_count sp" "gen_spec g' = sp" "int (length gcs) = ws_command_count sp"
    "\<forall>gc \<in> set gcs. require_representable (gc_command gc) = Inr ()" by (auto simp: U64_MAX_def)
  then have "next_generated g' = (Inl StopIteration, g')" by (simp add: next_generated_unfold)
  with that g d show thesis by blast
qed

text \<open>
  Generation completes: from a specification that \<open>tame\<close> admits and every 64-bit seed the iterator yields exactly
  the requested number of commands, each within its fixed-width fields, and then stops for good.
\<close>

lemma generation_completes:
  assumes "tame sp" and "0 \<le> seed" and "seed \<le> U64_MAX"
  shows "\<exists>g gcs g'. iter_generated sp seed = Inr g \<and> drain g = (Inr gcs, g') \<and> int (length gcs) = ws_command_count sp \<and>
    (\<forall>gc \<in> set gcs. require_representable (gc_command gc) = Inr ()) \<and> next_generated g' = (Inl StopIteration, g')"
  using stream_exists [OF assms] unfolding iter_generated_def by metis

section \<open>Statistics\<close>

definition tally :: "string \<Rightarrow> generated_command list \<Rightarrow> int" where
  "tally i gcs = int (length (filter (\<lambda>gc. gc_intent gc = i) gcs))"

abbreviation count_where :: "(generated_command \<Rightarrow> bool) \<Rightarrow> generated_command list \<Rightarrow> int" where
  "count_where P gcs \<equiv> int (length (filter P gcs))"

fun is_new :: "command \<Rightarrow> bool" where
  "is_new (NewOrder _) = True"
| "is_new _ = False"

fun is_cancel :: "command \<Rightarrow> bool" where
  "is_cancel (CancelOrder _) = True"
| "is_cancel _ = False"

fun is_replace :: "command \<Rightarrow> bool" where
  "is_replace (ReplaceOrder _) = True"
| "is_replace _ = False"

text \<open>What the counters say about the commands yielded so far.\<close>

definition counted :: "workload_generator \<Rightarrow> generated_command list \<Rightarrow> bool" where
  "counted g gcs \<longleftrightarrow> gen_count g = int (length gcs) \<and>
     gen_intended_valid g = count_where gc_intended_valid gcs \<and>
     gen_intended_invalid g = count_where (\<lambda>gc. \<not> gc_intended_valid gc) gcs \<and>
     gen_new_orders g = count_where (is_new \<circ> gc_command) gcs \<and>
     gen_cancels g = count_where (is_cancel \<circ> gc_command) gcs \<and>
     gen_replaces g = count_where (is_replace \<circ> gc_command) gcs \<and>
     dict_ok (gen_intents g) \<and> (\<forall>i. map_of (gen_intents g) i = (if tally i gcs = 0 then None else Some (tally i gcs)))"

lemma counted_step:
  assumes c: "counted g gcs" and n: "next_generated g = (Inr gc, g')"
  shows "counted g' (gcs @ [gc])"
proof -
  from n obtain b s g1 where b: "step_body b (g\<lparr>gen_rng := s\<rparr>) = (Inr gc, g1)" "g' = count_generated gc g1"
    by (rule next_generated_cases)
  note f = step_body_frame [OF b(1)]
  have intents: "gen_intents g' = dict_setitem (gc_intent gc) (dict_get_default (gen_intents g) (gc_intent gc) 0 + 1) (gen_intents g)"
    using f(3) by (simp add: b(2) count_generated_def Let_def split: command.splits)
  have "dict_get_default (gen_intents g) (gc_intent gc) 0 = tally (gc_intent gc) gcs"
    using c by (simp add: counted_def dict_get_default_def)
  then have "dict_ok (gen_intents g')" and
    "map_of (gen_intents g') i = (if tally i (gcs @ [gc]) = 0 then None else Some (tally i (gcs @ [gc])))" for i
    using c intents by (auto simp: counted_def tally_def)
  with c f show ?thesis
    by (auto simp: counted_def b(2) count_generated_def Let_def split: command.splits)
qed

lemma fixed_part_rng [simp]: "fixed_part (g\<lparr>gen_rng := s\<rparr>) = fixed_part g"
  by (simp add: fixed_part_def)

lemma counted_fixed: "counted g gcs \<Longrightarrow> fixed_part g' = fixed_part g \<Longrightarrow> counted g' gcs"
  by (simp add: counted_def fixed_part_def)

lemma bindP_InlE:
  assumes "bindP m f s = (Inl e, s')"
  obtains "m s = (Inl e, s')" | x s1 where "m s = (Inr x, s1)" "f x s1 = (Inl e, s')"
  using assms by (auto simp: bindP_def split: prod.splits sum.splits)

lemma keeps_fixed: "keeps m \<Longrightarrow> m g = (r, g') \<Longrightarrow> fixed_part g' = fixed_part g"
  unfolding keeps_def by (metis snd_conv)

text \<open>An iterator step that raises leaves the counters alone.\<close>

lemma next_generated_raises:
  assumes "next_generated g = (Inl e, g')"
  shows "fixed_part g' = fixed_part g"
proof -
  have body: "fixed_part h' = fixed_part h" if "step_body b h = (Inl e, h')" for b h h'
  proof (cases b)
    case True
    with that show ?thesis
      by (auto simp: step_body_def seqP_def bindP_def modifyP_def split: prod.splits sum.splits dest: keeps_fixed [OF keeps_invalid])
  next
    case False
    with that obtain cmd intent h1 where "valid_command h = (Inl e, h') \<or>
        valid_command h = (Inr (cmd, intent), h1) \<and> on_shadow (shadow_apply cmd) h1 = (Inl e, h')"
      by (auto simp: step_body_def seqP_def modifyP_def elim!: bindP_InlE)
    then show ?thesis
      by (metis keeps_fixed [OF keeps_valid] keeps_fixed [OF keeps_basic(6)])
  qed
  from assms show ?thesis
    by (auto simp: next_generated_unfold seqP_def modifyP_def on_rng_def split: if_splits prod.splits elim!: bindP_InlE dest!: body)
qed

lemma counted_drain: "counted g gcs \<Longrightarrow> drain g = (Inr gcs', g') \<Longrightarrow> counted g' (gcs @ gcs')"
proof (induction g arbitrary: gcs gcs' g' rule: drain.induct)
  case (1 g)
  show ?case
  proof (cases "next_generated g")
    case (Pair r g1)
    show ?thesis
    proof (cases r)
      case (Inl e)
      with Pair 1(3) have "gcs' = []" "g' = g1"
        by (subst (asm) drain.simps; auto split: if_splits)+
      then show ?thesis using counted_fixed [OF 1(2)] next_generated_raises Pair Inl by simp
    next
      case (Inr gc)
      with Pair 1(3) obtain gcs2 where "drain g1 = (Inr gcs2, g')" "gcs' = gc # gcs2"
        by (subst (asm) drain.simps) (auto split: sum.splits prod.splits)
      with 1(1) [OF Pair [symmetric] Inr counted_step [OF 1(2)]] Pair Inr show ?thesis by simp
    qed
  qed
qed

lemma stats_of_stream:
  assumes "WorkloadGenerator sp seed = Inr g" and "drain g = (Inr gcs, g')"
  shows "st_command_count (generator_stats g') = int (length gcs) \<and>
    st_intended_valid (generator_stats g') = int (length (filter gc_intended_valid gcs)) \<and>
    st_intended_valid (generator_stats g') + st_intended_invalid (generator_stats g') = int (length gcs) \<and>
    st_new_orders (generator_stats g') = int (length (filter (is_new \<circ> gc_command) gcs)) \<and>
    st_cancels (generator_stats g') = int (length (filter (is_cancel \<circ> gc_command) gcs)) \<and>
    st_replaces (generator_stats g') = int (length (filter (is_replace \<circ> gc_command) gcs)) \<and>
    sorted_wrt (<) (map fst (st_intents (generator_stats g'))) \<and>
    set (st_intents (generator_stats g')) = {(i, tally i gcs) | i. i \<in> gc_intent ` set gcs}"
proof -
  have "counted g []" using assms(1) by (auto simp: WorkloadGenerator_def bindR_Inr_iff counted_def tally_def)
  from counted_drain [OF this assms(2)] have c: "counted g' gcs" by simp
  then have d: "dict_ok (gen_intents g')" and m: "map_of (gen_intents g') i = (if tally i gcs = 0 then None else Some (tally i gcs))" for i
    by (simp_all add: counted_def)
  have split: "int (length (filter gc_intended_valid gcs)) + int (length (filter (\<lambda>gc. \<not> gc_intended_valid gc) gcs)) = int (length gcs)"
    using sum_length_filter_compl [of gc_intended_valid gcs] by linarith
  have "sorted (map fst (sort (gen_intents g')))"
    by (rule sorted_wrt_map_mono [OF sorted_sort]) (auto simp: less_eq_prod_def)
  moreover have "distinct (map fst (sort (gen_intents g')))" using d by (simp add: distinct_map inj_on_def)
  ultimately have srt: "sorted_wrt (<) (map fst (st_intents (generator_stats g')))"
    by (simp add: generator_stats_def strict_sorted_iff)
  have t: "tally i gcs \<noteq> 0 \<longleftrightarrow> i \<in> gc_intent ` set gcs" for i by (auto simp: tally_def filter_empty_conv)
  have "(i, n) \<in> set (gen_intents g') \<longleftrightarrow> n = tally i gcs \<and> i \<in> gc_intent ` set gcs" for i n
    using map_of_eq_Some_iff [OF d, of i n] m [of i] t [of i] by auto
  then have "set (st_intents (generator_stats g')) = {(i, tally i gcs) | i. i \<in> gc_intent ` set gcs}"
    by (auto simp: generator_stats_def)
  with c split srt show ?thesis by (simp add: counted_def generator_stats_def)
qed

text \<open>
  C35.  The statistics describe the stream: after the iterator has been drained they give the number of
  commands, the split by intended validity and by command type, and for every intent its exact count,
  listed once each in increasing order.
\<close>

theorem statistics_exact:
  assumes "WorkloadGenerator sp seed = Inr g" and "drain g = (Inr gcs, g')"
  shows "st_command_count (generator_stats g') = int (length gcs) \<and>
    st_intended_valid (generator_stats g') = int (length (filter gc_intended_valid gcs)) \<and>
    st_intended_valid (generator_stats g') + st_intended_invalid (generator_stats g') = int (length gcs) \<and>
    st_new_orders (generator_stats g') = int (length (filter (is_new \<circ> gc_command) gcs)) \<and>
    st_cancels (generator_stats g') = int (length (filter (is_cancel \<circ> gc_command) gcs)) \<and>
    st_replaces (generator_stats g') = int (length (filter (is_replace \<circ> gc_command) gcs)) \<and>
    sorted_wrt (<) (map fst (st_intents (generator_stats g'))) \<and>
    set (st_intents (generator_stats g')) = {(i, tally i gcs) | i. i \<in> gc_intent ` set gcs}"
  using stats_of_stream [OF assms] by simp

theorem statistics_exact_witness:
  "\<exists>g gcs g'. WorkloadGenerator sample_spec 42 = Inr g \<and> drain g = (Inr gcs, g') \<and>
    st_command_count (generator_stats g') = 40 \<and>
    st_intended_valid (generator_stats g') + st_intended_invalid (generator_stats g') = 40"
proof -
  have "42 \<le> U64_MAX" by (simp add: U64_MAX_def)
  then obtain g gcs g' where "WorkloadGenerator sample_spec 42 = Inr g" "drain g = (Inr gcs, g')"
    "int (length gcs) = ws_command_count sample_spec"
    using stream_exists [OF sample_tame, of 42] by (metis zero_le_numeral)
  with statistics_exact [OF this(1,2)] show ?thesis by (auto simp: sample_fields)
qed

section \<open>Draws\<close>

text \<open>
  C36.  \<open>randbelow\<close> terminates: from every state it rejects fewer than \<open>2 ^ 64\<close> draws, returns the first
  one below the limit reduced modulo the bound, and leaves the state just behind that draw.
\<close>

theorem randbelow_terminates:
  assumes "1 \<le> bound" and "bound \<le> 2 ^ 64"
  shows "\<exists>n < 2 ^ 64. (\<forall>k < n. draw_limit bound \<le> fst (next_u64 (state_after s k))) \<and>
    fst (next_u64 (state_after s n)) < draw_limit bound \<and>
    randbelow bound s = (Inr (fst (next_u64 (state_after s n)) mod bound), state_after s (Suc n))"
  by (rule randbelow_run [OF assms])

theorem randbelow_terminates_witness:
  "\<exists>n < 2 ^ 64. fst (next_u64 (state_after 42 n)) < draw_limit 30 \<and>
    randbelow 30 42 = (Inr (fst (next_u64 (state_after 42 n)) mod 30), state_after 42 (Suc n))"
  using randbelow_terminates [of 30 42] by auto

text \<open>
  C37.  The draws of \<open>randbelow\<close> are unbiased.  For a bound from one to \<open>2 ^ 64\<close> every value below it is the
  answer of the first draw for the same number of generator states, \<open>2 ^ 64 div bound\<close>; the remaining
  \<open>2 ^ 64 mod bound\<close> states are rejected, and from them \<open>randbelow\<close> starts over at the next state; every
  call returns a value below the bound.
\<close>

theorem draws_unbiased:
  assumes "1 \<le> bound" and "bound \<le> 2 ^ 64"
  shows "(\<forall>r. 0 \<le> r \<and> r < bound \<longrightarrow>
      card {s. randbelow bound s = (Inr r, snd (next_u64 s))} = nat (2 ^ 64 div bound)) \<and>
    card {s. \<forall>r. randbelow bound s \<noteq> (Inr r, snd (next_u64 s))} = nat (2 ^ 64 mod bound) \<and>
    (\<forall>s. (\<forall>r. randbelow bound s \<noteq> (Inr r, snd (next_u64 s))) \<longrightarrow> randbelow bound s = randbelow bound (snd (next_u64 s))) \<and>
    (\<forall>s. \<exists>v s'. randbelow bound s = (Inr v, s') \<and> 0 \<le> v \<and> v < bound)"
  using draw_uniform [OF assms] rejected_count [OF assms] randbelow_rejects [OF assms] randbelow_returns [OF assms]
  by (simp add: first_draw_iff [OF assms] not_less)

theorem draws_unbiased_witness:
  "card {s. randbelow 10000 s = (Inr 17, snd (next_u64 s))} = 1844674407370955 \<and>
   card {s. \<forall>r. randbelow 10000 s \<noteq> (Inr r, snd (next_u64 s))} = 1616"
  using draws_unbiased [of 10000] by simp

section \<open>Profiles\<close>

text \<open>
  Every profile resolves: with a command count, an instrument, an engine configuration, an aligned
  mid price and counts in their ranges, the resolved specification passes its own checks, keeps the
  profile and bounds the active-order target by the capacity.
\<close>

lemma profiles_resolve:
  assumes "1 \<le> n" "n \<le> U64_MAX" and "1 \<le> iid" "iid \<le> U32_MAX" and "matching_config_ok engine"
    and "1 \<le> mid" "mid \<le> I64_MAX" "mid mod tick_increment engine = 0" and "1 \<le> span" "span \<le> U32_MAX"
    and "0 \<le> target" and "1 \<le> clients" "clients \<le> U32_MAX" and "1 \<le> interval" "interval \<le> U64_MAX"
    and "case invalid of None \<Rightarrow> True | Some bp \<Rightarrow> 0 \<le> bp \<and> bp \<le> 10000"
  shows "\<exists>sp. resolve_workload_spec profile n iid engine invalid mid span target clients interval = Inr sp \<and>
    spec_valid sp \<and> ws_profile sp = profile \<and> ws_active_order_target sp \<le> max_active_orders engine"
proof -
  have "0 \<le> max_active_orders engine" using assms(5) by (simp add: matching_config_ok_def)
  moreover have "0 \<le> pd_invalid_basis_points d" "pd_invalid_basis_points d \<le> 10000" "0 \<le> pd_aggressive_basis_points d"
    "pd_aggressive_basis_points d \<le> 10000" "0 \<le> pd_market_basis_points d" "pd_market_basis_points d \<le> 10000"
    "0 \<le> pd_boundary_quantity_basis_points d" "pd_boundary_quantity_basis_points d \<le> 10000"
    "OperationWeights (w_new (pd_operation_weights d)) (w_cancel (pd_operation_weights d)) (w_replace (pd_operation_weights d)) =
       Inr (pd_operation_weights d)" if "d = PROFILE_DEFAULTS profile" for d
    using that by (cases profile; simp add: defaults_def OperationWeights_def weights_total_def require_int_def U32_MAX_def)+
  ultimately show ?thesis
    using assms
    by (auto simp: resolve_workload_spec_def WorkloadSpec_def check_spec_def require_int_def spec_valid_def BASIS_POINTS_def Let_def
        split: option.splits)
qed

section \<open>The mid price at its maximum\<close>

text \<open>
  Observation.  The specification's own checks allow a mid price of \<open>2 ^ 63 - 1\<close> with a tick such as 7.  Then
  the variant that is meant to be rejected for its tick carries the price \<open>2 ^ 63\<close>, which no engine can
  represent: \<open>execute\<close> raises instead of rejecting.
\<close>

definition extreme_spec :: workload_spec where
  "extreme_spec = projr (resolve_workload_spec UNIFORM_SYNTHETIC 10 7
     \<lparr>max_order_quantity = 1000, tick_increment = 7, max_active_orders = 128\<rparr> None I64_MAX 128 64 16 100)"

lemma extreme_mid_unrepresentable:
  "spec_valid extreme_spec \<and> ws_mid_price extreme_spec = I64_MAX \<and>
   require_representable (NewOrder (fst (invalid_shape_new extreme_spec 13 (limit_order 1 1 BUY 7 1)))) = Inl ValueError"
proof (intro conjI)
  show "spec_valid extreme_spec" by code_simp
  show "ws_mid_price extreme_spec = I64_MAX" by code_simp
  show "require_representable (NewOrder (fst (invalid_shape_new extreme_spec 13 (limit_order 1 1 BUY 7 1)))) = Inl ValueError" by code_simp
qed

end
