(* ===== verification/Json_Values.thy ===== *)
theory Json_Values
  imports Py_Text Prelude "HOL-Library.Char_ord" "HOL-Library.List_Lexorder"
begin

text \<open>
  JSON values as the Python sources build and compare them: a value type, the canonical text
  \<open>json.dumps\<close> gives a value with sorted keys, and the value-by-value comparison of
  \<open>python/src/atlaslob/differential.py\<close>.
\<close>

section \<open>Values\<close>

text \<open>A dictionary keeps its insertion order; its keys are distinct in every value the sources build.\<close>

datatype json =
    JNull
  | JBool bool
  | JInt int
  | JStr string
  | JList "json list"
  | JObj "(string \<times> json) list"

fun json_type :: "json \<Rightarrow> string" where
  "json_type JNull = ''NoneType''"
| "json_type (JBool _) = ''bool''"
| "json_type (JInt _) = ''int''"
| "json_type (JStr _) = ''str''"
| "json_type (JList _) = ''list''"
| "json_type (JObj _) = ''dict''"

text \<open>\<open>value.get(key)\<close> on a mapping, \<open>None\<close> when the key is missing.\<close>

fun get_key :: "json \<Rightarrow> string \<Rightarrow> json" where
  "get_key (JObj kvs) k = (case map_of kvs k of Some v \<Rightarrow> v | None \<Rightarrow> JNull)"
| "get_key _ k = JNull"

definition keys_of :: "json \<Rightarrow> string set" where
  "keys_of v = (case v of JObj kvs \<Rightarrow> fst ` set kvs | _ \<Rightarrow> {})"

section \<open>Canonical text\<close>

text \<open>A string literal with \<open>ensure_ascii\<close>: quotes, backslashes and every character outside the printable range are escaped.\<close>

definition hex_digit :: "nat \<Rightarrow> char" where
  "hex_digit n = (if n < 10 then char_of (48 + n) else char_of (87 + n))"

definition escape_char :: "char \<Rightarrow> string" where
  "escape_char c =
     (let n = (of_char c :: nat) in
      if n = 34 then [char_of (92 :: nat), c]
      else if n = 92 then [c, c]
      else if n = 8 then [char_of (92 :: nat), CHR ''b'']
      else if n = 12 then [char_of (92 :: nat), CHR ''f'']
      else if n = 10 then [char_of (92 :: nat), CHR ''n'']
      else if n = 13 then [char_of (92 :: nat), CHR ''r'']
      else if n = 9 then [char_of (92 :: nat), CHR ''t'']
      else if 32 \<le> n \<and> n \<le> 126 then [c]
      else [char_of (92 :: nat), CHR ''u'', CHR ''0'', CHR ''0'', hex_digit (n div 16), hex_digit (n mod 16)])"

definition quoted :: "string \<Rightarrow> string" where
  "quoted s = char_of (34 :: nat) # concat (map escape_char s) @ [char_of (34 :: nat)]"

fun join_with :: "string \<Rightarrow> string list \<Rightarrow> string" where
  "join_with sep [] = []"
| "join_with sep [x] = x"
| "join_with sep (x # xs) = x @ sep @ join_with sep xs"

text \<open>\<open>json.dumps(value, ensure_ascii=True, separators=(",", ":"), sort_keys=True)\<close>.\<close>

fun dumps :: "json \<Rightarrow> string" where
  "dumps JNull = ''null''"
| "dumps (JBool b) = (if b then ''true'' else ''false'')"
| "dumps (JInt i) = py_str i"
| "dumps (JStr s) = quoted s"
| "dumps (JList vs) = ''['' @ join_with '','' (map dumps vs) @ '']''"
| "dumps (JObj kvs) =
     CHR 0x7B # join_with '','' (map (\<lambda>(k, t). quoted k @ '':'' @ t)
       (sort_key fst (map (\<lambda>(k, v). (k, dumps v)) kvs))) @ [CHR 0x7D]"

definition canonical_json :: "json \<Rightarrow> string" where
  "canonical_json v = dumps v @ [CHR 0x0A]"

section \<open>The first difference of two values\<close>

record value_difference =
  vd_path :: string
  vd_expected :: json
  vd_actual :: json

definition MISSING :: json where
  "MISSING = JStr ''<missing>''"

fun first_some :: "'a option list \<Rightarrow> 'a option" where
  "first_some [] = None"
| "first_some (x # xs) = (case x of Some y \<Rightarrow> Some y | None \<Rightarrow> first_some xs)"

definition RESULT_RECORD_KEY_ORDER :: "string list" where
  "RESULT_RECORD_KEY_ORDER = [''kind'', ''command_index'', ''commands_processed'', ''evidence'']"

definition RESULT_EVIDENCE_KEY_ORDER :: "string list" where
  "RESULT_EVIDENCE_KEY_ORDER =
     [''command_type'', ''outcome'', ''command_sequence'', ''engine_error'', ''reject_reason'', ''events'',
      ''event_digest'', ''state'', ''snapshot'']"

definition FINAL_EVIDENCE_KEY_ORDER :: "string list" where
  "FINAL_EVIDENCE_KEY_ORDER = [''state'', ''snapshot'']"

definition comparison_key_order :: "(string \<times> json) list \<Rightarrow> (string \<times> json) list \<Rightarrow> string list" where
  "comparison_key_order expected actual =
     (let ks = remdups (map fst expected @ map fst actual);
          priority =
            (if ''evidence'' \<in> set ks \<and> ''kind'' \<in> set ks then RESULT_RECORD_KEY_ORDER
             else if ''outcome'' \<in> set ks \<and> ''command_type'' \<in> set ks then RESULT_EVIDENCE_KEY_ORDER
             else if ''state'' \<in> set ks \<and> ''snapshot'' \<in> set ks then FINAL_EVIDENCE_KEY_ORDER
             else []);
          ordered = filter (\<lambda>k. k \<in> set ks) priority
      in ordered @ sort (filter (\<lambda>k. k \<notin> set ordered) ks))"

lemma size_map_of: "map_of kvs k = Some v \<Longrightarrow> size v < Suc (size_list (size_prod (\<lambda>_. 0) size) kvs)"
  by (induction kvs) (auto split: if_splits)

lemma size_nth: "i < length vs \<Longrightarrow> size (vs ! i) < Suc (size_list size vs)"
  by (auto simp: less_Suc_eq_le intro: size_list_estimation' [OF nth_mem])

function first_value_difference :: "json \<Rightarrow> json \<Rightarrow> string \<Rightarrow> value_difference option" where
  "first_value_difference expected actual path =
     (if json_type expected \<noteq> json_type actual
      then Some \<lparr>vd_path = path, vd_expected = expected, vd_actual = actual\<rparr>
      else case (expected, actual) of
        (JObj e, JObj a) \<Rightarrow>
          first_some (map (\<lambda>k. let child = path @ ''.'' @ k in
            case map_of e k of
              None \<Rightarrow> (case map_of a k of
                        None \<Rightarrow> None
                      | Some v \<Rightarrow> Some \<lparr>vd_path = child, vd_expected = MISSING, vd_actual = v\<rparr>)
            | Some u \<Rightarrow> (case map_of a k of
                        None \<Rightarrow> Some \<lparr>vd_path = child, vd_expected = u, vd_actual = MISSING\<rparr>
                      | Some v \<Rightarrow> first_value_difference u v child))
            (comparison_key_order e a))
      | (JList e, JList a) \<Rightarrow>
          if length e \<noteq> length a
          then Some \<lparr>vd_path = path @ ''.length'', vd_expected = JInt (int (length e)), vd_actual = JInt (int (length a))\<rparr>
          else first_some (map (\<lambda>(i, u, v). first_value_difference u v (path @ ''['' @ dec i @ '']''))
                 (enumerate 0 (zip e a)))
      | _ \<Rightarrow> if expected \<noteq> actual then Some \<lparr>vd_path = path, vd_expected = expected, vd_actual = actual\<rparr> else None)"
  by auto
termination
  by (relation "measure (\<lambda>(e, a, p). size e)") (auto simp: in_set_enumerate_eq size_nth dest!: size_map_of)

declare first_value_difference.simps [simp del]

section \<open>Equality of values, whatever the order of the keys\<close>

function json_same :: "json \<Rightarrow> json \<Rightarrow> bool" where
  "json_same x y =
     (case (x, y) of
        (JObj e, JObj a) \<Rightarrow>
          (\<forall>k \<in> set (map fst e @ map fst a).
             case map_of e k of
               None \<Rightarrow> False
             | Some u \<Rightarrow> (case map_of a k of None \<Rightarrow> False | Some v \<Rightarrow> json_same u v))
      | (JList e, JList a) \<Rightarrow> length e = length a \<and> (\<forall>(u, v) \<in> set (zip e a). json_same u v)
      | _ \<Rightarrow> x = y)"
  by auto
termination
  by (relation "measure (\<lambda>(e, a). size e)") (auto simp: in_set_zip size_nth dest!: size_map_of)

declare json_same.simps [simp del]

lemma first_some_None [simp]: "first_some xs = None \<longleftrightarrow> (\<forall>x \<in> set xs. x = None)"
  by (induction xs) (auto split: option.splits)

lemma set_comparison_key_order: "set (comparison_key_order e a) = set (map fst e @ map fst a)"
proof -
  have gen: "set (filter (\<lambda>k. k \<in> set ks) p @ sort (filter (\<lambda>k. k \<notin> set (filter (\<lambda>k. k \<in> set ks) p)) ks)) = set ks"
    for ks p :: "string list" by auto
  show ?thesis unfolding comparison_key_order_def Let_def gen by simp
qed

lemma missing_key: "k \<in> set (map fst kvs) \<longleftrightarrow> map_of kvs k \<noteq> None"
  by (simp add: map_of_eq_None_iff)

lemma ball_enumerate: "(\<forall>x \<in> set (enumerate n zs). P (snd x)) \<longleftrightarrow> (\<forall>y \<in> set zs. P y)"
  by (induction zs arbitrary: n) auto

text \<open>The comparison reports nothing exactly when the two values are the same.\<close>

lemma no_difference: "first_value_difference x y path = None \<longleftrightarrow> json_same x y"
proof (induction x y path rule: first_value_difference.induct)
  case (1 x y path)
  show ?case
  proof (cases "json_type x = json_type y")
    case False
    then have "\<not> json_same x y" by (cases x; cases y) (auto simp: json_same.simps)
    with False show ?thesis by (simp add: first_value_difference.simps [of x y])
  next
    case same: True
    consider (JObj) e where "x = JObj e" | (JList) e where "x = JList e"
      | (scalar) "\<forall>e. x \<noteq> JObj e" "\<forall>e. x \<noteq> JList e" by blast
    then show ?thesis
    proof cases
      case (JObj e)
      with same obtain a where y: "y = JObj a" by (cases y) auto
      have IH: "first_value_difference u v (path @ ''.'' @ k) = None \<longleftrightarrow> json_same u v"
        if "k \<in> set (comparison_key_order e a)" "map_of e k = Some u" "map_of a k = Some v" for k u v
        using 1(2) [OF _ refl JObj y that(1) refl that(2,3)] same JObj y by simp
      have "(case map_of e k of
              None \<Rightarrow> (case map_of a k of
                        None \<Rightarrow> None
                      | Some v \<Rightarrow> Some \<lparr>vd_path = path @ CHR ''.'' # k, vd_expected = MISSING, vd_actual = v\<rparr>)
            | Some u \<Rightarrow> (case map_of a k of
                        None \<Rightarrow> Some \<lparr>vd_path = path @ CHR ''.'' # k, vd_expected = u, vd_actual = MISSING\<rparr>
                      | Some v \<Rightarrow> first_value_difference u v (path @ CHR ''.'' # k))) = None \<longleftrightarrow>
          (case map_of e k of
               None \<Rightarrow> False
             | Some u \<Rightarrow> (case map_of a k of None \<Rightarrow> False | Some v \<Rightarrow> json_same u v))"
        if "k \<in> set (comparison_key_order e a)" for k
        using IH [OF that] that [unfolded set_comparison_key_order set_append Un_iff missing_key]
        by (auto split: option.splits)
      then show ?thesis
        unfolding first_value_difference.simps [of x y] json_same.simps [of x y]
        by (simp add: JObj y Let_def set_comparison_key_order)
    next
      case (JList e)
      with same obtain a where y: "y = JList a" by (cases y) auto
      have IH: "first_value_difference u v (path @ ''['' @ dec i @ '']'') = None \<longleftrightarrow> json_same u v"
        if "(i, u, v) \<in> set (enumerate 0 (zip e a))" "length e = length a" for i u v
        using 1(1) [OF _ refl JList y _ that(1) refl refl] same JList y that(2) by simp
      have "(\<forall>(i, u, v) \<in> set (enumerate 0 (zip e a)). json_same u v) \<longleftrightarrow> (\<forall>(u, v) \<in> set (zip e a). json_same u v)"
        using ball_enumerate [of 0 "zip e a" "\<lambda>(u, v). json_same u v"] by (simp add: case_prod_unfold)
      with IH show ?thesis
        unfolding first_value_difference.simps [of x y] json_same.simps [of x y]
        by (auto simp: JList y)
    next
      case scalar
      with same show ?thesis
        unfolding first_value_difference.simps [of x y] json_same.simps [of x y] by (cases x; cases y) auto
    qed
  qed
qed

section \<open>Working with sameness\<close>

lemma json_same_scalar [simp]:
  "json_same JNull y \<longleftrightarrow> y = JNull" "json_same x JNull \<longleftrightarrow> x = JNull"
  "json_same (JBool b) y \<longleftrightarrow> y = JBool b" "json_same (JInt i) y \<longleftrightarrow> y = JInt i" "json_same (JStr s) y \<longleftrightarrow> y = JStr s"
  by (cases y; auto simp: json_same.simps)
    (cases x; auto simp: json_same.simps; fail | cases y; auto simp: json_same.simps)+

lemma json_same_list [simp]: "json_same (JList xs) (JList ys) \<longleftrightarrow> list_all2 json_same xs ys"
  by (simp add: json_same.simps [of "JList xs"] list_all2_iff)

lemma json_same_refl [simp]: "json_same x x"
proof (induction x)
  case (JObj kvs)
  have "case map_of kvs k of None \<Rightarrow> False | Some u \<Rightarrow> (case map_of kvs k of None \<Rightarrow> False | Some v \<Rightarrow> json_same u v)"
    if k: "k \<in> set (map fst kvs)" for k
  proof -
    obtain u where u: "map_of kvs k = Some u" using k [unfolded missing_key] by auto
    then have "json_same u u" using JObj map_of_SomeD [OF u] by fastforce
    with u show ?thesis by simp
  qed
  then show ?case by (simp add: json_same.simps [of "JObj kvs"] ball_Un)
qed (simp_all add: list_all2_same)

lemma map_of_pair:
  assumes "map fst kvs = map fst kvs'" and "distinct (map fst kvs)" and "k \<in> set (map fst kvs)"
  shows "\<exists>i < length kvs. map_of kvs k = Some (snd (kvs ! i)) \<and> map_of kvs' k = Some (snd (kvs' ! i))"
proof -
  obtain i where i: "i < length kvs" "fst (kvs ! i) = k" using assms(3) by (auto simp: in_set_conv_nth)
  have len: "length kvs' = length kvs" using assms(1) by (metis length_map)
  then have "fst (kvs' ! i) = k" using i assms(1) by (metis nth_map)
  then have "map_of kvs' k = Some (snd (kvs' ! i))"
    using assms(1,2) i(1) len by (metis map_of_eq_Some_iff nth_mem prod.collapse)
  moreover have "map_of kvs k = Some (snd (kvs ! i))"
    using assms(2) i by (metis map_of_eq_Some_iff nth_mem prod.collapse)
  ultimately show ?thesis using i by blast
qed

lemma json_same_objects:
  assumes "map fst kvs = map fst kvs'" and "distinct (map fst kvs)"
  shows "json_same (JObj kvs) (JObj kvs') \<longleftrightarrow> list_all2 json_same (map snd kvs) (map snd kvs')"
proof -
  have len: "length kvs' = length kvs" using assms(1) by (metis length_map)
  have "json_same (JObj kvs) (JObj kvs') \<longleftrightarrow> (\<forall>i < length kvs. json_same (snd (kvs ! i)) (snd (kvs' ! i)))"
  proof
    assume l: "json_same (JObj kvs) (JObj kvs')"
    show "\<forall>i < length kvs. json_same (snd (kvs ! i)) (snd (kvs' ! i))"
    proof (intro allI impI)
      fix i assume i: "i < length kvs"
      have "map_of kvs (fst (kvs ! i)) = Some (snd (kvs ! i))"
        using assms(2) i by (metis map_of_eq_Some_iff nth_mem prod.collapse)
      moreover have "map_of kvs' (fst (kvs ! i)) = Some (snd (kvs' ! i))"
        using assms i len by (metis map_of_eq_Some_iff nth_map nth_mem prod.collapse)
      moreover have "fst (kvs ! i) \<in> set (map fst kvs)" using i by simp
      ultimately show "json_same (snd (kvs ! i)) (snd (kvs' ! i))"
        using l by (force simp: json_same.simps [of "JObj kvs"])
    qed
  next
    assume r: "\<forall>i < length kvs. json_same (snd (kvs ! i)) (snd (kvs' ! i))"
    show "json_same (JObj kvs) (JObj kvs')"
      using map_of_pair [OF assms] r unfolding json_same.simps [of "JObj kvs"] set_append assms(1) [symmetric] Un_absorb
      by (fastforce simp: assms(1) [symmetric])
  qed
  then show ?thesis by (simp add: list_all2_conv_all_nth len)
qed

end
