(* ===== verification/Evidence_Checks.thy ===== *)
theory Evidence_Checks
  imports Native_Input Canonical
begin

text \<open>
  The checks that \<open>python/src/atlaslob/native.py\<close> makes of the evidence a native engine reports: event
  payloads and envelopes, snapshots, state observers, the agreement of a record with its configuration,
  with the previous record and with the submitted command, and the stream decoder that ties them
  together.  The functions work on typed records; turning JSON text into records is not modelled.
\<close>

section \<open>Records\<close>

datatype output_mode = EXACT | COMPACT

datatype outcome = COMMITTED | REJECTED_OUTCOME | ENGINE_ERROR

record native_config_record =
  nc_mode :: output_mode
  nc_semantics_version :: int
  nc_input :: native_input_config

record native_state =
  ns_active_order_count :: int
  ns_bid_level_count :: int
  ns_bid_order_count :: int
  ns_bid_aggregate_quantity :: int
  ns_ask_level_count :: int
  ns_ask_order_count :: int
  ns_ask_aggregate_quantity :: int
  ns_empty :: bool
  ns_next_sequence :: int
  ns_sequence_exhausted :: bool
  ns_best_bid :: "top_of_book_level option"
  ns_best_ask :: "top_of_book_level option"
  ns_state_digest :: string

record native_result_record =
  nr_command_index :: int
  nr_line :: int
  nr_command_type :: command_type
  nr_outcome :: outcome
  nr_command_sequence :: "int option"
  nr_engine_error :: "engine_error option"
  nr_reject_reason :: "reject_reason option"
  nr_event_digest :: "string option"
  nr_events :: "event list option"
  nr_state :: native_state
  nr_snapshot :: "book_snapshot option"

record native_final_record =
  nf_commands_processed :: int
  nf_state :: native_state
  nf_snapshot :: book_snapshot

record native_error_record =
  ne_line :: int
  ne_code :: string

text \<open>\<open>if bad: raise NativeProtocolError(...)\<close>.\<close>

definition reject_if :: "bool \<Rightarrow> unit result" where
  "reject_if bad = guardR (\<not> bad) NativeProtocolError"

definition check_all :: "unit result list \<Rightarrow> unit result" where
  "check_all cs = foldr (\<lambda>c r. bindR c (\<lambda>_. r)) cs (Inr ())"

section \<open>Event payloads\<close>

definition top_bad :: "top_of_book_level option \<Rightarrow> bool" where
  "top_bad level = (case level of None \<Rightarrow> False | Some l \<Rightarrow> top_price l \<le> 0 \<or> top_aggregate_quantity l = 0)"

definition validate_top_pair :: "top_of_book_level option \<Rightarrow> top_of_book_level option \<Rightarrow> unit result" where
  "validate_top_pair bid ask =
     check_all [reject_if (top_bad bid), reject_if (top_bad ask),
       reject_if (case (bid, ask) of (Some b, Some a) \<Rightarrow> top_price b \<ge> top_price a | _ \<Rightarrow> False)]"

fun validate_event_payload :: "event \<Rightarrow> unit result" where
  "validate_event_payload (RejectedEvent h ct reason oid) = reject_if (oid = Some 0)"
| "validate_event_payload (TradeEvent h b) =
     check_all
       [reject_if (aggressor_order_id b = 0 \<or> resting_order_id b = 0 \<or> aggressor_client_id b = 0 \<or> resting_client_id b = 0),
        reject_if (execution_price b \<le> 0 \<or> execution_quantity b = 0)]"
| "validate_event_payload (RestedEvent h b) =
     check_all [reject_if (rested_order_id b = 0 \<or> rested_client_id b = 0),
       reject_if (rested_price b \<le> 0 \<or> rested_remaining_quantity b = 0)]"
| "validate_event_payload (CanceledEvent h oid quantity) = reject_if (oid = 0 \<or> quantity = 0)"
| "validate_event_payload (ReplacedEvent h old_id new_id) = reject_if (old_id = 0 \<or> new_id = 0 \<or> old_id = new_id)"
| "validate_event_payload (DoneEvent h oid reason remaining) =
     check_all [reject_if (oid = 0), reject_if (if reason = FILLED then remaining \<noteq> 0 else remaining = 0)]"
| "validate_event_payload (BookChangedEvent h bid ask) = validate_top_pair bid ask"
| "validate_event_payload (AcceptedEvent h ct) = Inr ()"

section \<open>Event envelopes\<close>

text \<open>The aggressor's last event, a \<open>RestedEvent\<close> or a \<open>DoneEvent\<close>.\<close>

datatype terminal = Rested rested_body | Done int done_reason int

fun terminal_of :: "event \<Rightarrow> terminal option" where
  "terminal_of (RestedEvent h b) = Some (Rested b)"
| "terminal_of (DoneEvent h oid reason remaining) = Some (Done oid reason remaining)"
| "terminal_of _ = None"

fun terminal_order_id :: "terminal \<Rightarrow> int" where
  "terminal_order_id (Rested b) = rested_order_id b"
| "terminal_order_id (Done oid _ _) = oid"

fun terminal_remaining :: "terminal \<Rightarrow> int" where
  "terminal_remaining (Rested b) = rested_remaining_quantity b"
| "terminal_remaining (Done _ _ remaining) = remaining"

fun take_trades :: "event list \<Rightarrow> trade_body list \<times> event list" where
  "take_trades (TradeEvent h b # es) = (case take_trades es of (bs, es') \<Rightarrow> (b # bs, es'))"
| "take_trades es = ([], es)"

fun book_changed_of :: "event \<Rightarrow> (top_of_book_level option \<times> top_of_book_level option) option" where
  "book_changed_of (BookChangedEvent h bid ask) = Some (bid, ask)"
| "book_changed_of _ = None"

definition trade_terminal_suffix ::
  "event list \<Rightarrow> nat \<Rightarrow> (trade_body list \<times> terminal \<times> (top_of_book_level option \<times> top_of_book_level option) option) result" where
  "trade_terminal_suffix events start =
     (if start > length events then Inl IndexError
      else
        let (trades, left) = take_trades (drop start events) in
        case left of
          [] \<Rightarrow> Inl NativeProtocolError
        | e # es \<Rightarrow>
            (case terminal_of e of
               None \<Rightarrow> Inl NativeProtocolError
             | Some t \<Rightarrow>
                 (case es of
                    [] \<Rightarrow> Inr (trades, t, None)
                  | b # trailing \<Rightarrow>
                      (case book_changed_of b of
                         None \<Rightarrow> Inl NativeProtocolError
                       | Some tops \<Rightarrow> if trailing = [] then Inr (trades, t, Some tops) else Inl NativeProtocolError))))"

text \<open>The loop of \<open>_validate_trade_chain\<close>: it returns the remainder behind the last trade.\<close>

fun trade_chain ::
  "trade_body \<Rightarrow> bool \<Rightarrow> int \<Rightarrow> int list \<Rightarrow> int \<Rightarrow> trade_body list \<Rightarrow> int result" where
  "trade_chain first is_first prior_remaining seen prior_price [] = Inr prior_remaining"
| "trade_chain first is_first prior_remaining seen prior_price (trade # trades) =
     bindR (check_all
       [reject_if (aggressor_order_id trade \<noteq> aggressor_order_id first \<or>
          aggressor_client_id trade \<noteq> aggressor_client_id first \<or> aggressor_side trade \<noteq> aggressor_side first),
        reject_if (resting_order_id trade \<in> set seen),
        reject_if (execution_quantity trade > prior_remaining),
        reject_if (aggressor_remaining trade \<noteq> prior_remaining - execution_quantity trade),
        reject_if (\<not> is_first \<and> aggressor_side first = BUY \<and> execution_price trade < prior_price),
        reject_if (\<not> is_first \<and> aggressor_side first = SELL \<and> execution_price trade > prior_price),
        reject_if (resting_remaining trade \<noteq> 0 \<and> (aggressor_remaining trade \<noteq> 0 \<or> trades \<noteq> []))])
       (\<lambda>_. trade_chain first False (aggressor_remaining trade) (resting_order_id trade # seen) (execution_price trade) trades)"

definition validate_trade_chain :: "trade_body list \<Rightarrow> terminal \<Rightarrow> unit result" where
  "validate_trade_chain trades t =
     (case trades of
        [] \<Rightarrow> Inr ()
      | first # _ \<Rightarrow>
          bindR (trade_chain first True (execution_quantity first + aggressor_remaining first) [] (execution_price first) trades) (\<lambda>remaining.
          check_all
            [reject_if (terminal_order_id t \<noteq> aggressor_order_id first),
             reject_if (terminal_remaining t \<noteq> remaining),
             reject_if (case t of
                Rested b \<Rightarrow> rested_client_id b \<noteq> aggressor_client_id first \<or> rested_side b \<noteq> aggressor_side first
              | Done _ _ _ \<Rightarrow> False)]))"

definition validate_terminal_top :: "(top_of_book_level option \<times> top_of_book_level option) option \<Rightarrow> unit result" where
  "validate_terminal_top changed = (case changed of None \<Rightarrow> Inr () | Some (bid, ask) \<Rightarrow> validate_top_pair bid ask)"

definition validate_new_envelope :: "event list \<Rightarrow> unit result" where
  "validate_new_envelope events =
     bindR (trade_terminal_suffix events 1) (\<lambda>(trades, t, changed).
     check_all
       [validate_trade_chain trades t,
        reject_if (case t of Done _ reason _ \<Rightarrow> reason \<notin> {FILLED, IOC_RESIDUAL_CANCELED, MARKET_EXHAUSTED} | Rested _ \<Rightarrow> False),
        validate_terminal_top changed])"

definition validate_cancel_envelope :: "event list \<Rightarrow> unit result" where
  "validate_cancel_envelope events =
     (if length events \<notin> {3, 4} then Inl NativeProtocolError
      else case (events ! 1, events ! 2) of
        (CanceledEvent _ oid quantity, DoneEvent _ done_id reason remaining) \<Rightarrow>
          bindR (reject_if (reason \<noteq> DONE_CANCELED \<or> oid \<noteq> done_id \<or> quantity \<noteq> remaining)) (\<lambda>_.
          if length events = 4
          then (case book_changed_of (events ! 3) of
                  None \<Rightarrow> Inl NativeProtocolError
                | Some tops \<Rightarrow> validate_terminal_top (Some tops))
          else Inr ())
      | _ \<Rightarrow> Inl NativeProtocolError)"

definition validate_replace_envelope :: "event list \<Rightarrow> unit result" where
  "validate_replace_envelope events =
     (if length events < 5 then Inl NativeProtocolError
      else case (events ! 1, events ! 2, events ! 3) of
        (ReplacedEvent _ old_id new_id, CanceledEvent _ oid quantity, DoneEvent _ done_id reason remaining) \<Rightarrow>
          bindR (reject_if (reason \<noteq> DONE_REPLACED \<or> oid \<noteq> old_id \<or> done_id \<noteq> old_id \<or> quantity \<noteq> remaining)) (\<lambda>_.
          bindR (trade_terminal_suffix events 4) (\<lambda>(trades, t, changed).
          check_all
            [reject_if (terminal_order_id t \<noteq> new_id),
             reject_if (case t of Done _ reason _ \<Rightarrow> reason \<noteq> FILLED | Rested _ \<Rightarrow> False),
             validate_trade_chain trades t,
             reject_if (\<exists>trade \<in> set trades. aggressor_order_id trade \<noteq> new_id),
             validate_terminal_top changed]))
      | _ \<Rightarrow> Inl NativeProtocolError)"

definition validate_event_envelope :: "event list \<Rightarrow> outcome \<Rightarrow> command_type \<Rightarrow> unit result" where
  "validate_event_envelope events out ctype =
     (if out = REJECTED_OUTCOME
      then (case events of
              [RejectedEvent h ct reason oid] \<Rightarrow> reject_if (ct \<noteq> ctype)
            | _ \<Rightarrow> Inl NativeProtocolError)
      else if out \<noteq> COMMITTED then Inl NativeProtocolError
      else case events of
        [] \<Rightarrow> Inl IndexError
      | AcceptedEvent h ct # _ \<Rightarrow>
          bindR (reject_if (ct \<noteq> ctype)) (\<lambda>_.
          case ctype of
            CANCEL \<Rightarrow> validate_cancel_envelope events
          | REPLACE \<Rightarrow> validate_replace_envelope events
          | NEW \<Rightarrow> validate_new_envelope events)
      | _ \<Rightarrow> Inl NativeProtocolError)"

section \<open>Snapshots\<close>

definition snapshot_orders :: "book_snapshot \<Rightarrow> order_snapshot list" where
  "snapshot_orders snap = concat (map pls_orders (bs_bids snap @ bs_asks snap))"

text \<open>The checks of \<open>_parse_levels\<close> on typed levels: the orders of a level, then the levels of a side.\<close>

fun check_level_orders :: "side \<Rightarrow> int \<Rightarrow> int \<Rightarrow> int option \<Rightarrow> order_snapshot list \<Rightarrow> unit result" where
  "check_level_orders sd iid price prior [] = Inr ()"
| "check_level_orders sd iid price prior (x # xs) =
     bindR (check_all
       [reject_if (os_side x \<noteq> sd), reject_if (os_price x \<noteq> price),
        reject_if (os_order_id x = 0 \<or> os_client_id x = 0), reject_if (os_instrument_id x \<noteq> iid),
        reject_if (os_remaining_quantity x = 0), reject_if (os_priority_sequence x = 0),
        reject_if (case prior of None \<Rightarrow> False | Some p \<Rightarrow> p \<ge> os_priority_sequence x)])
       (\<lambda>_. check_level_orders sd iid price (Some (os_priority_sequence x)) xs)"

definition check_parsed_level :: "side \<Rightarrow> int \<Rightarrow> price_level_snapshot \<Rightarrow> unit result" where
  "check_parsed_level sd iid l =
     check_all
       [reject_if (pls_price l \<le> 0), check_level_orders sd iid (pls_price l) None (pls_orders l),
        reject_if (pls_orders l = []),
        reject_if (sum_list (map os_remaining_quantity (pls_orders l)) \<noteq> pls_aggregate_quantity l)]"

definition check_parsed_levels :: "side \<Rightarrow> int \<Rightarrow> price_level_snapshot list \<Rightarrow> unit result" where
  "check_parsed_levels sd iid ls =
     bindR (check_all (map (check_parsed_level sd iid) ls)) (\<lambda>_.
     let prices = map pls_price ls; expected = (if sd = BUY then rev (sort prices) else sort prices) in
     reject_if (prices \<noteq> expected \<or> length prices \<noteq> card (set prices)))"

definition validate_snapshot_structure :: "book_snapshot \<Rightarrow> unit result" where
  "validate_snapshot_structure snap =
     (let orders = snapshot_orders snap; ids = map os_order_id orders; priorities = map os_priority_sequence orders in
      check_all
        [reject_if (if bs_sequence_exhausted snap then bs_last_sequence snap \<noteq> U64_MAX else bs_last_sequence snap = U64_MAX),
         reject_if (int (length orders) \<noteq> bs_active_order_count snap),
         reject_if (length ids \<noteq> card (set ids)),
         reject_if (length priorities \<noteq> card (set priorities)),
         reject_if (\<exists>p \<in> set priorities. p > bs_last_sequence snap),
         reject_if (case (bs_bids snap, bs_asks snap) of
            (b # _, a # _) \<Rightarrow> pls_price b \<ge> pls_price a | _ \<Rightarrow> False)])"

definition check_parsed_snapshot :: "book_snapshot \<Rightarrow> unit result" where
  "check_parsed_snapshot snap =
     check_all
       [reject_if (bs_semantics_version snap \<noteq> ATLASLOB_SEMANTICS_VERSION), reject_if (bs_instrument_id snap = 0),
        check_parsed_levels BUY (bs_instrument_id snap) (bs_bids snap),
        check_parsed_levels SELL (bs_instrument_id snap) (bs_asks snap),
        validate_snapshot_structure snap]"

section \<open>State observers\<close>

definition validate_side_summary :: "int \<Rightarrow> int \<Rightarrow> int \<Rightarrow> top_of_book_level option \<Rightarrow> unit result" where
  "validate_side_summary level_count order_count aggregate tp =
     bindR (reject_if (level_count > order_count)) (\<lambda>_.
     if level_count = 0 then reject_if (order_count \<noteq> 0 \<or> aggregate \<noteq> 0 \<or> tp \<noteq> None)
     else (case tp of
             None \<Rightarrow> Inl NativeProtocolError
           | Some l \<Rightarrow> check_all [reject_if (order_count = 0 \<or> aggregate = 0), reject_if (top_aggregate_quantity l > aggregate)]))"

definition validate_state_structure :: "native_state \<Rightarrow> unit result" where
  "validate_state_structure st =
     check_all
       [reject_if (ns_empty st \<noteq> (ns_active_order_count st = 0)),
        reject_if (ns_bid_order_count st + ns_ask_order_count st \<noteq> ns_active_order_count st),
        validate_side_summary (ns_bid_level_count st) (ns_bid_order_count st) (ns_bid_aggregate_quantity st) (ns_best_bid st),
        validate_side_summary (ns_ask_level_count st) (ns_ask_order_count st) (ns_ask_aggregate_quantity st) (ns_best_ask st),
        reject_if (if ns_sequence_exhausted st then ns_next_sequence st \<noteq> 0 else ns_next_sequence st = 0),
        validate_top_pair (ns_best_bid st) (ns_best_ask st)]"

definition snapshot_side_summary :: "price_level_snapshot list \<Rightarrow> int \<times> int \<times> int" where
  "snapshot_side_summary ls =
     (int (length ls), int (sum_list (map (length \<circ> pls_orders) ls)), sum_list (map pls_aggregate_quantity ls))"

definition snapshot_top :: "price_level_snapshot list \<Rightarrow> top_of_book_level option" where
  "snapshot_top ls =
     (case ls of [] \<Rightarrow> None | l # _ \<Rightarrow> Some \<lparr>top_price = pls_price l, top_aggregate_quantity = pls_aggregate_quantity l\<rparr>)"

definition validate_state_snapshot :: "(bytes \<Rightarrow> string) \<Rightarrow> native_state \<Rightarrow> book_snapshot \<Rightarrow> unit result" where
  "validate_state_snapshot sha256 st snap =
     bindR (check_all
       [reject_if (ns_active_order_count st \<noteq> bs_active_order_count snap),
        reject_if ((ns_bid_level_count st, ns_bid_order_count st, ns_bid_aggregate_quantity st) \<noteq> snapshot_side_summary (bs_bids snap)),
        reject_if ((ns_ask_level_count st, ns_ask_order_count st, ns_ask_aggregate_quantity st) \<noteq> snapshot_side_summary (bs_asks snap)),
        reject_if (ns_empty st \<noteq> (bs_active_order_count snap = 0)),
        reject_if (ns_sequence_exhausted st \<noteq> bs_sequence_exhausted snap),
        reject_if (ns_next_sequence st \<noteq> (if bs_sequence_exhausted snap then 0 else bs_last_sequence snap + 1)),
        reject_if (ns_best_bid st \<noteq> snapshot_top (bs_bids snap) \<or> ns_best_ask st \<noteq> snapshot_top (bs_asks snap))]) (\<lambda>_.
     bindR (state_digest sha256 snap) (\<lambda>d. reject_if (d \<noteq> ns_state_digest st)))"

section \<open>Agreement with the configuration\<close>

definition validate_result_mode :: "native_result_record \<Rightarrow> output_mode \<Rightarrow> unit result" where
  "validate_result_mode r mode =
     (if nr_outcome r \<noteq> ENGINE_ERROR
      then check_all [reject_if (mode = EXACT \<and> nr_events r = None), reject_if (mode = COMPACT \<and> nr_events r \<noteq> None)]
      else Inr ())"

definition misaligned :: "native_input_config \<Rightarrow> int \<Rightarrow> bool" where
  "misaligned c price \<longleftrightarrow> price mod tick_increment (ni_engine c) \<noteq> 0"

definition validate_state_against_config :: "native_state \<Rightarrow> native_input_config \<Rightarrow> unit result" where
  "validate_state_against_config st c =
     check_all
       [reject_if (ns_active_order_count st > max_active_orders (ni_engine c)),
        reject_if (ns_bid_aggregate_quantity st + ns_ask_aggregate_quantity st >
          ns_active_order_count st * max_order_quantity (ni_engine c)),
        reject_if (case ns_best_bid st of None \<Rightarrow> False | Some l \<Rightarrow> misaligned c (top_price l)),
        reject_if (case ns_best_ask st of None \<Rightarrow> False | Some l \<Rightarrow> misaligned c (top_price l))]"

definition validate_snapshot_against_config :: "book_snapshot \<Rightarrow> native_input_config \<Rightarrow> unit result" where
  "validate_snapshot_against_config snap c =
     check_all
       ([reject_if (bs_instrument_id snap \<noteq> ni_instrument_id c),
         reject_if (bs_active_order_count snap > max_active_orders (ni_engine c))] @
        map (\<lambda>l. check_all [reject_if (misaligned c (pls_price l)),
               reject_if (\<exists>x \<in> set (pls_orders l). os_remaining_quantity x > max_order_quantity (ni_engine c))])
          (bs_bids snap @ bs_asks snap))"

fun event_prices :: "event \<Rightarrow> int list" where
  "event_prices (TradeEvent h b) = [execution_price b]"
| "event_prices (RestedEvent h b) = [rested_price b]"
| "event_prices (BookChangedEvent h bid ask) =
     (case bid of None \<Rightarrow> [] | Some l \<Rightarrow> [top_price l]) @ (case ask of None \<Rightarrow> [] | Some l \<Rightarrow> [top_price l])"
| "event_prices _ = []"

fun event_quantities :: "event \<Rightarrow> int list" where
  "event_quantities (TradeEvent h b) = [execution_quantity b, aggressor_remaining b, resting_remaining b]"
| "event_quantities (RestedEvent h b) = [rested_remaining_quantity b]"
| "event_quantities (CanceledEvent h oid quantity) = [quantity]"
| "event_quantities (DoneEvent h oid reason remaining) = [remaining]"
| "event_quantities _ = []"

definition validate_events_against_config :: "event list \<Rightarrow> native_input_config \<Rightarrow> unit result" where
  "validate_events_against_config events c =
     check_all (map (\<lambda>e. check_all
       [reject_if (\<exists>p \<in> set (event_prices e). misaligned c p),
        reject_if (\<exists>q \<in> set (event_quantities e). q > max_order_quantity (ni_engine c))]) events)"

definition expected_checkpoint :: "native_input_config \<Rightarrow> int \<Rightarrow> bool" where
  "expected_checkpoint c index \<longleftrightarrow> ni_snapshot_interval c \<noteq> 0 \<and> (index + 1) mod ni_snapshot_interval c = 0"

definition validate_stream_configured_result :: "native_config_record \<Rightarrow> native_result_record \<Rightarrow> unit result" where
  "validate_stream_configured_result config r =
     (let c = nc_input config in
      check_all
        [reject_if ((nr_snapshot r \<noteq> None) \<noteq> expected_checkpoint c (nr_command_index r)),
         validate_state_against_config (nr_state r) c,
         (case nr_snapshot r of None \<Rightarrow> Inr () | Some snap \<Rightarrow> validate_snapshot_against_config snap c),
         (case nr_events r of
            None \<Rightarrow> Inr ()
          | Some events \<Rightarrow>
              bindR (validate_events_against_config events c) (\<lambda>_.
              case events of
                [] \<Rightarrow> Inl IndexError
              | AcceptedEvent h ct # _ \<Rightarrow> reject_if (hdr_instrument_id h \<noteq> ni_instrument_id c)
              | _ \<Rightarrow> Inr ()))])"

definition validate_stream_configured_final :: "native_config_record \<Rightarrow> native_final_record \<Rightarrow> unit result" where
  "validate_stream_configured_final config f =
     check_all [validate_state_against_config (nf_state f) (nc_input config),
       validate_snapshot_against_config (nf_snapshot f) (nc_input config)]"

section \<open>Agreement with the previous record\<close>

definition fresh_state :: "native_state \<Rightarrow> bool" where
  "fresh_state st \<longleftrightarrow> ns_active_order_count st = 0 \<and> ns_empty st \<and> ns_best_bid st = None \<and> ns_best_ask st = None"

definition same_book :: "native_state \<Rightarrow> native_state \<Rightarrow> bool" where
  "same_book st prev \<longleftrightarrow>
     ns_active_order_count st = ns_active_order_count prev \<and> ns_bid_level_count st = ns_bid_level_count prev \<and>
     ns_bid_order_count st = ns_bid_order_count prev \<and> ns_bid_aggregate_quantity st = ns_bid_aggregate_quantity prev \<and>
     ns_ask_level_count st = ns_ask_level_count prev \<and> ns_ask_order_count st = ns_ask_order_count prev \<and>
     ns_ask_aggregate_quantity st = ns_ask_aggregate_quantity prev \<and> ns_empty st = ns_empty prev \<and>
     ns_best_bid st = ns_best_bid prev \<and> ns_best_ask st = ns_best_ask prev"

definition validate_stream_result_transition ::
  "native_result_record \<Rightarrow> int \<Rightarrow> native_result_record option \<Rightarrow> bool \<Rightarrow> unit result" where
  "validate_stream_result_transition r index previous engine_error_seen =
     (let st = nr_state r; previous_state = map_option nr_state previous in
      check_all
        [reject_if engine_error_seen,
         (if nr_outcome r \<noteq> ENGINE_ERROR
          then check_all
            [reject_if (nr_command_sequence r \<noteq> Some (index + 1)),
             reject_if (ns_sequence_exhausted st \<noteq> (index + 1 = U64_MAX) \<or>
               ns_next_sequence st \<noteq> (if index + 1 = U64_MAX then 0 else index + 2))]
          else Inr ()),
         (if nr_outcome r = REJECTED_OUTCOME
          then reject_if (case previous_state of None \<Rightarrow> \<not> fresh_state st | Some prev \<Rightarrow> \<not> same_book st prev)
          else Inr ()),
         (case nr_events r of
            Some events \<Rightarrow>
              if nr_outcome r = COMMITTED
              then (if events = [] then Inl IndexError
                    else reject_if ((book_changed_of (last events) \<noteq> None) \<noteq>
                      (case previous_state of
                         None \<Rightarrow> ns_best_bid st \<noteq> None \<or> ns_best_ask st \<noteq> None
                       | Some prev \<Rightarrow> ns_best_bid prev \<noteq> ns_best_bid st \<or> ns_best_ask prev \<noteq> ns_best_ask st)))
              else Inr ()
          | None \<Rightarrow> Inr ())])"

definition validate_stream_final_continuity :: "native_result_record option \<Rightarrow> native_final_record \<Rightarrow> unit result" where
  "validate_stream_final_continuity last_result f =
     (case last_result of
        Some r \<Rightarrow> check_all
          [reject_if (nf_state f \<noteq> nr_state r),
           reject_if (case nr_snapshot r of None \<Rightarrow> False | Some snap \<Rightarrow> nf_snapshot f \<noteq> snap)]
      | None \<Rightarrow> reject_if (bs_last_sequence (nf_snapshot f) \<noteq> 0 \<or> bs_sequence_exhausted (nf_snapshot f) \<or>
          bs_active_order_count (nf_snapshot f) \<noteq> 0 \<or> bs_bids (nf_snapshot f) \<noteq> [] \<or> bs_asks (nf_snapshot f) \<noteq> [] \<or>
          ns_next_sequence (nf_state f) \<noteq> 1))"

definition validate_stream_error_continuity :: "native_result_record option \<Rightarrow> native_error_record \<Rightarrow> unit result" where
  "validate_stream_error_continuity last_result err =
     (case last_result of
        None \<Rightarrow> Inr ()
      | Some r \<Rightarrow> check_all [reject_if (nr_outcome r = ENGINE_ERROR), reject_if (ne_line err \<le> nr_line r)])"

section \<open>Agreement with the submitted command\<close>

fun expected_trades ::
  "int \<Rightarrow> int \<Rightarrow> int option \<Rightarrow> int option \<Rightarrow> int \<Rightarrow> trade_body list \<Rightarrow> int result" where
  "expected_trades oid client limit sd remaining [] = Inr remaining"
| "expected_trades oid client limit sd remaining (trade # trades) =
     (let effective = (case sd of Some s \<Rightarrow> s | None \<Rightarrow> side_value (aggressor_side trade)) in
      bindR (check_all
        [reject_if (aggressor_order_id trade \<noteq> oid \<or> aggressor_client_id trade \<noteq> client),
         reject_if (case sd of None \<Rightarrow> False | Some s \<Rightarrow> side_value (aggressor_side trade) \<noteq> s),
         reject_if (case limit of None \<Rightarrow> False | Some p \<Rightarrow> effective = side_value BUY \<and> execution_price trade > p),
         reject_if (case limit of None \<Rightarrow> False | Some p \<Rightarrow> effective = side_value SELL \<and> execution_price trade < p),
         reject_if (execution_quantity trade > remaining),
         reject_if (aggressor_remaining trade \<noteq> remaining - execution_quantity trade)])
      (\<lambda>_. expected_trades oid client limit sd (remaining - execution_quantity trade) trades))"

text \<open>The shape of a new order that the terminal event must fit; a replacement gives none.\<close>

record order_terms =
  ot_side :: int
  ot_order_type :: int
  ot_time_in_force :: int

definition validate_expected_aggressor ::
  "trade_body list \<Rightarrow> terminal \<Rightarrow> int \<Rightarrow> int \<Rightarrow> int \<Rightarrow> int option \<Rightarrow> order_terms option \<Rightarrow> unit result" where
  "validate_expected_aggressor trades t oid client quantity limit terms =
     bindR (reject_if (terminal_order_id t \<noteq> oid)) (\<lambda>_.
     bindR (expected_trades oid client limit (map_option ot_side terms) quantity trades) (\<lambda>remaining.
     bindR (reject_if (terminal_remaining t \<noteq> remaining)) (\<lambda>_.
     case t of
       Rested b \<Rightarrow> check_all
         [reject_if (rested_client_id b \<noteq> client),
          reject_if (case terms of None \<Rightarrow> False | Some w \<Rightarrow> side_value (rested_side b) \<noteq> ot_side w),
          reject_if (limit \<noteq> Some (rested_price b)),
          reject_if (case terms of None \<Rightarrow> False | Some w \<Rightarrow>
            ot_order_type w \<noteq> order_type_value LIMIT \<or> ot_time_in_force w \<noteq> time_in_force_value GTC)]
     | Done _ reason _ \<Rightarrow>
         if remaining = 0 then reject_if (reason \<noteq> FILLED)
         else (case terms of
                 None \<Rightarrow> Inl NativeProtocolError
               | Some w \<Rightarrow>
                   if ot_order_type w = order_type_value MARKET then reject_if (reason \<noteq> MARKET_EXHAUSTED)
                   else if ot_time_in_force w = time_in_force_value IOC then reject_if (reason \<noteq> IOC_RESIDUAL_CANCELED)
                   else Inl NativeProtocolError))))"

definition validate_events_against_command :: "event list \<Rightarrow> command \<Rightarrow> outcome \<Rightarrow> unit result" where
  "validate_events_against_command events cmd out =
     (if out = REJECTED_OUTCOME then Inr ()
      else case cmd of
        CancelOrder c \<Rightarrow>
          (if length events \<le> 2 then Inl IndexError
           else case (events ! 1, events ! 2) of
             (CanceledEvent _ oid _, DoneEvent _ done_id _ _) \<Rightarrow> reject_if (oid \<noteq> cancel_order_id c \<or> done_id \<noteq> cancel_order_id c)
           | _ \<Rightarrow> Inl TypeError)
      | ReplaceOrder c \<Rightarrow>
          (if length events \<le> 1 then Inl IndexError
           else case events ! 1 of
             ReplacedEvent _ old_id new_id \<Rightarrow>
               bindR (reject_if (old_id \<noteq> rep_old_order_id c \<or> new_id \<noteq> rep_new_order_id c)) (\<lambda>_.
               bindR (trade_terminal_suffix events 4) (\<lambda>(trades, t, _).
               validate_expected_aggressor trades t (rep_new_order_id c) (rep_client_id c) (rep_new_quantity c)
                 (Some (rep_new_limit_price c)) None))
           | _ \<Rightarrow> Inl TypeError)
      | NewOrder c \<Rightarrow>
          bindR (trade_terminal_suffix events 1) (\<lambda>(trades, t, _).
          validate_expected_aggressor trades t (new_order_id c) (new_client_id c) (new_quantity c) (new_limit_price c)
            (Some \<lparr>ot_side = new_side c, ot_order_type = new_order_type c, ot_time_in_force = new_time_in_force c\<rparr>)))"

definition validate_stream_expected_result :: "native_result_record \<Rightarrow> command \<Rightarrow> int \<Rightarrow> unit result" where
  "validate_stream_expected_result r cmd index =
     check_all
       [reject_if (nr_command_type r \<noteq> command_type_of cmd),
        reject_if (nr_line r \<noteq> index + 2),
        (case nr_events r of
           None \<Rightarrow> Inr ()
         | Some [] \<Rightarrow> Inl IndexError
         | Some (e # es) \<Rightarrow>
             bindR (reject_if (hdr_instrument_id (event_header_of e) \<noteq> command_instrument_id cmd)) (\<lambda>_.
             validate_events_against_command (e # es) cmd (nr_outcome r)))]"

section \<open>Whole records\<close>

text \<open>
  The checks \<open>_parse_result\<close> and \<open>_parse_final\<close> make of the typed values, the observers and the snapshot
  first, then the nullable fields, the event batch with its digest and the agreement of the parts.
\<close>

definition check_parsed_state :: "native_state \<Rightarrow> unit result" where
  "check_parsed_state st = validate_state_structure st"

definition check_parsed_events :: "event list \<Rightarrow> unit result" where
  "check_parsed_events events =
     bindR (check_all (map validate_event_payload events)) (\<lambda>_. reject_if (events = []))"

definition check_nullable :: "native_result_record \<Rightarrow> unit result" where
  "check_nullable r =
     (if nr_outcome r = ENGINE_ERROR
      then reject_if (nr_command_sequence r \<noteq> None \<or> nr_engine_error r = None \<or> nr_reject_reason r \<noteq> None \<or>
        nr_event_digest r \<noteq> None \<or> nr_events r \<noteq> None)
      else check_all
        [reject_if (nr_command_sequence r = None \<or> nr_engine_error r \<noteq> None \<or> nr_event_digest r = None),
         reject_if (nr_outcome r = REJECTED_OUTCOME \<and> nr_reject_reason r = None),
         reject_if (nr_outcome r = COMMITTED \<and> nr_reject_reason r \<noteq> None)])"

fun rejection_of :: "event list \<Rightarrow> reject_reason option" where
  "rejection_of (RejectedEvent h ct reason oid # es) = Some reason"
| "rejection_of _ = None"

definition check_batch :: "(bytes \<Rightarrow> string) \<Rightarrow> native_result_record \<Rightarrow> event list \<Rightarrow> unit result" where
  "check_batch sha256 r events =
     (case EventBatch events of
        Inl _ \<Rightarrow> Inl NativeProtocolError
      | Inr batch \<Rightarrow>
          bindR (check_all
            [reject_if (nr_command_sequence r \<noteq> Some (batch_command_sequence batch)),
             validate_event_envelope events (nr_outcome r) (nr_command_type r),
             reject_if (nr_outcome r = REJECTED_OUTCOME \<and> rejection_of events \<noteq> None \<and> rejection_of events \<noteq> nr_reject_reason r)]) (\<lambda>_.
          bindR (event_digest sha256 batch) (\<lambda>d. reject_if (Some d \<noteq> nr_event_digest r))))"

definition check_parsed_result :: "(bytes \<Rightarrow> string) \<Rightarrow> native_result_record \<Rightarrow> unit result" where
  "check_parsed_result sha256 r =
     check_all
       [(case nr_events r of None \<Rightarrow> Inr () | Some events \<Rightarrow> check_parsed_events events),
        check_parsed_state (nr_state r),
        (case nr_snapshot r of None \<Rightarrow> Inr () | Some snap \<Rightarrow> check_parsed_snapshot snap),
        check_nullable r,
        (if nr_outcome r = ENGINE_ERROR then Inr ()
         else case nr_events r of None \<Rightarrow> Inr () | Some events \<Rightarrow> check_batch sha256 r events),
        (case nr_snapshot r of None \<Rightarrow> Inr () | Some snap \<Rightarrow> validate_state_snapshot sha256 (nr_state r) snap),
        (case nr_events r of
           None \<Rightarrow> Inr ()
         | Some events \<Rightarrow>
             if events = [] then Inl IndexError
             else (case book_changed_of (last events) of
                     None \<Rightarrow> Inr ()
                   | Some (bid, ask) \<Rightarrow> reject_if (bid \<noteq> ns_best_bid (nr_state r) \<or> ask \<noteq> ns_best_ask (nr_state r))))]"

definition check_parsed_final :: "(bytes \<Rightarrow> string) \<Rightarrow> native_final_record \<Rightarrow> unit result" where
  "check_parsed_final sha256 f =
     check_all [check_parsed_state (nf_state f), check_parsed_snapshot (nf_snapshot f),
       validate_state_snapshot sha256 (nf_state f) (nf_snapshot f)]"

section \<open>The stream decoder\<close>

datatype native_record =
    ConfigRecord native_config_record
  | ResultRecord native_result_record
  | FinalRecord native_final_record
  | ErrorRecord native_error_record

text \<open>The expected commands that are still to come: the iterator with its one-command lookahead.\<close>

record stream_decoder =
  sd_expected_mode :: "output_mode option"
  sd_expected_input :: "native_input_config option"
  sd_expected_commands :: "command list option"
  sd_config :: "native_config_record option"
  sd_last_result :: "native_result_record option"
  sd_final :: "native_final_record option"
  sd_error :: "native_error_record option"
  sd_result_count :: int
  sd_output_line :: int
  sd_engine_error_seen :: bool
  sd_finished :: bool

definition NativeStreamDecoder ::
  "output_mode option \<Rightarrow> native_input_config option \<Rightarrow> command list option \<Rightarrow> stream_decoder" where
  "NativeStreamDecoder mode input commands =
     \<lparr>sd_expected_mode = mode, sd_expected_input = input, sd_expected_commands = commands, sd_config = None,
      sd_last_result = None, sd_final = None, sd_error = None, sd_result_count = 0, sd_output_line = 0,
      sd_engine_error_seen = False, sd_finished = False\<rparr>"

definition take_expected_command :: "(stream_decoder, command) prog" where
  "take_expected_command d =
     (case sd_expected_commands d of
        None \<Rightarrow> (Inl RuntimeError, d)
      | Some [] \<Rightarrow> (Inl NativeProtocolError, d)
      | Some (c # cs) \<Rightarrow> (Inr c, d\<lparr>sd_expected_commands := Some cs\<rparr>))"

definition expected_has_remaining :: "stream_decoder \<Rightarrow> bool" where
  "expected_has_remaining d = (case sd_expected_commands d of None \<Rightarrow> False | Some cs \<Rightarrow> cs \<noteq> [])"

definition accept_config :: "native_config_record \<Rightarrow> (stream_decoder, unit) prog" where
  "accept_config config d =
     (case check_all
        [reject_if (sd_config d \<noteq> None \<or> sd_result_count d \<noteq> 0),
         reject_if (nc_semantics_version config \<noteq> ATLASLOB_SEMANTICS_VERSION),
         reject_if (case sd_expected_mode d of None \<Rightarrow> False | Some m \<Rightarrow> nc_mode config \<noteq> m),
         reject_if (case sd_expected_input d of None \<Rightarrow> False | Some i \<Rightarrow> nc_input config \<noteq> i)] of
        Inl e \<Rightarrow> (Inl e, d)
      | Inr _ \<Rightarrow> (Inr (), d\<lparr>sd_config := Some config\<rparr>))"

definition accept_result :: "(bytes \<Rightarrow> string) \<Rightarrow> native_result_record \<Rightarrow> (stream_decoder, unit) prog" where
  "accept_result sha256 r =
     bindP (\<lambda>d. (case sd_config d of
         None \<Rightarrow> Inl NativeProtocolError
       | Some config \<Rightarrow> check_all
           [check_parsed_result sha256 r,
            reject_if (nr_command_index r \<noteq> sd_result_count d),
            reject_if (case sd_last_result d of None \<Rightarrow> False | Some prev \<Rightarrow> nr_line r \<le> nr_line prev),
            validate_result_mode r (nc_mode config),
            validate_stream_configured_result config r,
            validate_stream_result_transition r (sd_result_count d) (sd_last_result d) (sd_engine_error_seen d)], d)) (\<lambda>_.
     bindP (getsP (\<lambda>d. (sd_expected_commands d \<noteq> None, sd_result_count d))) (\<lambda>(bound, index).
     seqP (if bound then bindP take_expected_command (\<lambda>cmd. liftP (validate_stream_expected_result r cmd index)) else ret ())
     (modifyP (\<lambda>d. d\<lparr>sd_result_count := sd_result_count d + 1, sd_last_result := Some r,
        sd_engine_error_seen := (nr_outcome r = ENGINE_ERROR)\<rparr>))))"

definition accept_final :: "(bytes \<Rightarrow> string) \<Rightarrow> native_final_record \<Rightarrow> (stream_decoder, unit) prog" where
  "accept_final sha256 f d =
     (case (case sd_config d of
         None \<Rightarrow> Inl NativeProtocolError
       | Some config \<Rightarrow> check_all
           [check_parsed_final sha256 f,
            reject_if (nf_commands_processed f \<noteq> sd_result_count d),
            validate_stream_configured_final config f,
            validate_stream_final_continuity (sd_last_result d) f]) of
        Inl e \<Rightarrow> (Inl e, d)
      | Inr _ \<Rightarrow> (Inr (), d\<lparr>sd_final := Some f\<rparr>))"

definition ERROR_CODES :: "string list" where
  "ERROR_CODES =
     [''adapter_exception'', ''empty_command'', ''engine_construction_failure'', ''engine_exception'', ''input_read_failure'',
      ''invalid_cancel_client'', ''invalid_cancel_field_count'', ''invalid_cancel_instrument'', ''invalid_cancel_order'',
      ''invalid_engine_config'', ''invalid_header_field_count'', ''invalid_header_instrument'',
      ''invalid_header_max_active_orders'', ''invalid_header_max_quantity'', ''invalid_header_snapshot_interval'',
      ''invalid_header_tick_increment'', ''invalid_new_client'', ''invalid_new_field_count'', ''invalid_new_instrument'',
      ''invalid_new_order'', ''invalid_new_order_type_code'', ''invalid_new_price'', ''invalid_new_price_presence'',
      ''invalid_new_quantity'', ''invalid_new_side_code'', ''invalid_new_time_in_force_code'', ''invalid_replace_client'',
      ''invalid_replace_field_count'', ''invalid_replace_instrument'', ''invalid_replace_new_order'',
      ''invalid_replace_old_order'', ''invalid_replace_price'', ''invalid_replace_quantity'', ''missing_header'',
      ''nonzero_absent_price_placeholder'', ''resource_failure'', ''unknown_command'', ''unsupported_header'']"

definition REQUEST_BOUND_ERROR_CODES :: "string list" where
  "REQUEST_BOUND_ERROR_CODES =
     [''adapter_exception'', ''engine_construction_failure'', ''engine_exception'', ''input_read_failure'', ''resource_failure'']"

definition ENGINE_FAILURE_CODES :: "string list" where
  "ENGINE_FAILURE_CODES = [''adapter_exception'', ''engine_construction_failure'', ''engine_exception'', ''resource_failure'']"

definition validate_stream_expected_error :: "native_error_record \<Rightarrow> int \<Rightarrow> bool option \<Rightarrow> bool \<Rightarrow> unit result" where
  "validate_stream_expected_error err result_count exhausted config_seen =
     (if \<not> config_seen
      then check_all
        [reject_if (result_count \<noteq> 0 \<or> ne_line err \<noteq> 1),
         reject_if (ne_code err \<notin> {''adapter_exception'', ''engine_construction_failure'', ''input_read_failure'', ''resource_failure''})]
      else check_all
        [reject_if (ne_line err \<noteq> result_count + 2),
         reject_if (ne_code err \<notin> set REQUEST_BOUND_ERROR_CODES),
         reject_if (ne_code err = ''engine_construction_failure''),
         reject_if (exhausted = Some True \<and> ne_code err \<noteq> ''input_read_failure'')])"

definition expected_exhausted :: "stream_decoder \<Rightarrow> bool option" where
  "expected_exhausted d = (if sd_expected_commands d \<noteq> None then Some (\<not> expected_has_remaining d) else None)"

definition accept_error :: "native_error_record \<Rightarrow> (stream_decoder, unit) prog" where
  "accept_error err d =
     (case check_all
        [reject_if (ne_code err \<notin> set ERROR_CODES),
         validate_stream_error_continuity (sd_last_result d) err,
         (if sd_expected_mode d \<noteq> None \<or> sd_expected_input d \<noteq> None \<or> sd_expected_commands d \<noteq> None
          then validate_stream_expected_error err (sd_result_count d) (expected_exhausted d) (sd_config d \<noteq> None)
          else Inr ())] of
        Inl e \<Rightarrow> (Inl e, d)
      | Inr _ \<Rightarrow> (Inr (), d\<lparr>sd_error := Some err\<rparr>))"

definition feed_record :: "(bytes \<Rightarrow> string) \<Rightarrow> native_record \<Rightarrow> (stream_decoder, unit) prog" where
  "feed_record sha256 rec =
     bindP (\<lambda>d. (reject_if (sd_finished d), d)) (\<lambda>_.
     seqP (modifyP (\<lambda>d. d\<lparr>sd_output_line := sd_output_line d + 1\<rparr>))
     (bindP (\<lambda>d. (reject_if (sd_final d \<noteq> None \<or> sd_error d \<noteq> None), d)) (\<lambda>_.
     case rec of
       ConfigRecord config \<Rightarrow> accept_config config
     | ResultRecord r \<Rightarrow> accept_result sha256 r
     | FinalRecord f \<Rightarrow> accept_final sha256 f
     | ErrorRecord err \<Rightarrow> accept_error err)))"

definition validate_stream_process_terminal_state ::
  "int \<Rightarrow> native_result_record option \<Rightarrow> native_final_record option \<Rightarrow> native_error_record option \<Rightarrow> bool option \<Rightarrow> unit result" where
  "validate_stream_process_terminal_state returncode last_result final err exhausted =
     (let has_engine_error = (case last_result of None \<Rightarrow> False | Some r \<Rightarrow> nr_outcome r = ENGINE_ERROR) in
      if returncode = 0
      then check_all [reject_if (err \<noteq> None \<or> final = None \<or> has_engine_error), reject_if (exhausted = Some False)]
      else if returncode = 2
      then (case err of
              None \<Rightarrow> Inl NativeProtocolError
            | Some e \<Rightarrow> check_all [reject_if (final \<noteq> None), reject_if (ne_code e \<in> set ENGINE_FAILURE_CODES)])
      else if returncode = 3
      then check_all
        [reject_if (err = None \<and> \<not> (final \<noteq> None \<and> has_engine_error)),
         reject_if (case err of None \<Rightarrow> False | Some e \<Rightarrow> ne_code e \<notin> set ENGINE_FAILURE_CODES)]
      else Inl NativeProtocolError)"

record stream_summary =
  ss_config :: "native_config_record option"
  ss_result_count :: int
  ss_last_result :: "native_result_record option"
  ss_final :: "native_final_record option"
  ss_error :: "native_error_record option"

definition decoder_finish :: "int option \<Rightarrow> (stream_decoder, stream_summary) prog" where
  "decoder_finish returncode =
     bindP (\<lambda>d. (reject_if (sd_finished d), d)) (\<lambda>_.
     seqP (modifyP (\<lambda>d. d\<lparr>sd_finished := True\<rparr>))
     (bindP (\<lambda>d. (check_all
        [reject_if (sd_output_line d = 0),
         reject_if (sd_final d = None \<and> sd_error d = None),
         reject_if (sd_config d = None \<and> sd_error d = None \<and>
           (sd_expected_mode d \<noteq> None \<or> sd_expected_input d \<noteq> None \<or> sd_expected_commands d \<noteq> None)),
         (case returncode of
            None \<Rightarrow> Inr ()
          | Some code \<Rightarrow> validate_stream_process_terminal_state code (sd_last_result d) (sd_final d) (sd_error d) (expected_exhausted d))], d)) (\<lambda>_.
     getsP (\<lambda>d. \<lparr>ss_config = sd_config d, ss_result_count = sd_result_count d, ss_last_result = sd_last_result d,
        ss_final = sd_final d, ss_error = sd_error d\<rparr>))))"

text \<open>\<open>decode_jsonl\<close> on typed records.\<close>

fun feed_records :: "(bytes \<Rightarrow> string) \<Rightarrow> native_record list \<Rightarrow> (stream_decoder, native_result_record list) prog" where
  "feed_records sha256 [] = ret []"
| "feed_records sha256 (rec # recs) =
     seqP (feed_record sha256 rec)
    (bindP (feed_records sha256 recs) (\<lambda>rs. ret (case rec of ResultRecord r \<Rightarrow> r # rs | _ \<Rightarrow> rs)))"

record native_transcript =
  nt_config :: "native_config_record option"
  nt_results :: "native_result_record list"
  nt_final :: "native_final_record option"
  nt_error :: "native_error_record option"

definition decode_records ::
  "(bytes \<Rightarrow> string) \<Rightarrow> output_mode option \<Rightarrow> native_input_config option \<Rightarrow> command list option \<Rightarrow> int option \<Rightarrow>
   native_record list \<Rightarrow> native_transcript result" where
  "decode_records sha256 mode input commands returncode recs =
     fst (bindP (feed_records sha256 recs) (\<lambda>results.
       bindP (decoder_finish returncode) (\<lambda>summary.
       ret \<lparr>nt_config = ss_config summary, nt_results = results, nt_final = ss_final summary, nt_error = ss_error summary\<rparr>))
       (NativeStreamDecoder mode input commands))"

end
