(* ===== verification/Differential.thy ===== *)
theory Differential
  imports Json_Values Evidence_Checks
begin

text \<open>
  The differential harness of \<open>python/src/atlaslob/differential.py\<close>: the evidence the reference pass
  records, the cursor that reads it back, and the record-by-record comparison with the native stream.
  Evidence records are values; files, processes, time limits and the text of native records are not
  modelled.  \<open>sha256\<close> is a parameter.
\<close>

section \<open>Names of enumeration members\<close>

text \<open>\<open>member.name.lower()\<close>.\<close>

fun side_name :: "side \<Rightarrow> string" where
  "side_name BUY = ''buy''"
| "side_name SELL = ''sell''"

fun command_name :: "command_type \<Rightarrow> string" where
  "command_name NEW = ''new''"
| "command_name CANCEL = ''cancel''"
| "command_name REPLACE = ''replace''"

fun done_reason_name :: "done_reason \<Rightarrow> string" where
  "done_reason_name FILLED = ''filled''"
| "done_reason_name IOC_RESIDUAL_CANCELED = ''ioc_residual_canceled''"
| "done_reason_name MARKET_EXHAUSTED = ''market_exhausted''"
| "done_reason_name DONE_CANCELED = ''canceled''"
| "done_reason_name DONE_REPLACED = ''replaced''"
| "done_reason_name FOK_UNAVAILABLE = ''fok_unavailable''"

fun reject_reason_name :: "reject_reason \<Rightarrow> string" where
  "reject_reason_name NONE = ''none''"
| "reject_reason_name INVALID_ORDER_ID = ''invalid_order_id''"
| "reject_reason_name INVALID_INSTRUMENT_ID = ''invalid_instrument_id''"
| "reject_reason_name INVALID_QUANTITY = ''invalid_quantity''"
| "reject_reason_name INVALID_SIDE = ''invalid_side''"
| "reject_reason_name INVALID_ORDER_TYPE = ''invalid_order_type''"
| "reject_reason_name INVALID_TIME_IN_FORCE = ''invalid_time_in_force''"
| "reject_reason_name MISSING_LIMIT_PRICE = ''missing_limit_price''"
| "reject_reason_name UNEXPECTED_LIMIT_PRICE = ''unexpected_limit_price''"
| "reject_reason_name INVALID_PRICE = ''invalid_price''"
| "reject_reason_name INVALID_ORDER_TYPE_TIME_IN_FORCE = ''invalid_order_type_time_in_force''"
| "reject_reason_name UNSUPPORTED_TIME_IN_FORCE = ''unsupported_time_in_force''"
| "reject_reason_name INVALID_CLIENT_ID = ''invalid_client_id''"
| "reject_reason_name UNKNOWN_INSTRUMENT = ''unknown_instrument''"
| "reject_reason_name QUANTITY_OUT_OF_RANGE = ''quantity_out_of_range''"
| "reject_reason_name INVALID_TICK = ''invalid_tick''"
| "reject_reason_name DUPLICATE_ORDER_ID = ''duplicate_order_id''"
| "reject_reason_name UNKNOWN_ORDER_ID = ''unknown_order_id''"
| "reject_reason_name INVALID_REPLACEMENT_ID = ''invalid_replacement_id''"
| "reject_reason_name OWNERSHIP_MISMATCH = ''ownership_mismatch''"
| "reject_reason_name INSTRUMENT_MISMATCH = ''instrument_mismatch''"
| "reject_reason_name CAPACITY_EXCEEDED = ''capacity_exceeded''"

fun engine_error_name :: "engine_error \<Rightarrow> string" where
  "engine_error_name SEQUENCE_EXHAUSTED = ''sequence_exhausted''"
| "engine_error_name INTERNAL_FAILURE = ''internal_failure''"

fun outcome_name :: "outcome \<Rightarrow> string" where
  "outcome_name COMMITTED = ''committed''"
| "outcome_name REJECTED_OUTCOME = ''rejected''"
| "outcome_name ENGINE_ERROR = ''engine_error''"

fun mode_name :: "output_mode \<Rightarrow> string" where
  "mode_name EXACT = ''exact''"
| "mode_name COMPACT = ''compact''"

section \<open>Values of evidence\<close>

abbreviation jnum :: "int \<Rightarrow> json" where
  "jnum i \<equiv> JStr (py_str i)"

definition jopt :: "('a \<Rightarrow> json) \<Rightarrow> 'a option \<Rightarrow> json" where
  "jopt f x = (case x of None \<Rightarrow> JNull | Some y \<Rightarrow> f y)"

definition top_to_mapping :: "top_of_book_level option \<Rightarrow> json" where
  "top_to_mapping level =
     jopt (\<lambda>l. JObj [(''price'', jnum (top_price l)), (''aggregate_quantity'', jnum (top_aggregate_quantity l))]) level"

definition snapshot_top_mapping :: "price_level_snapshot list \<Rightarrow> json" where
  "snapshot_top_mapping ls =
     (case ls of
        [] \<Rightarrow> JNull
      | l # _ \<Rightarrow> JObj [(''price'', jnum (pls_price l)), (''aggregate_quantity'', jnum (pls_aggregate_quantity l))])"

definition order_to_mapping :: "order_snapshot \<Rightarrow> json" where
  "order_to_mapping x = JObj
     [(''order_id'', jnum (os_order_id x)), (''client_id'', jnum (os_client_id x)),
      (''instrument_id'', jnum (os_instrument_id x)), (''side'', JStr (side_name (os_side x))),
      (''price'', jnum (os_price x)), (''remaining_quantity'', jnum (os_remaining_quantity x)),
      (''priority_sequence'', jnum (os_priority_sequence x))]"

definition level_to_mapping :: "price_level_snapshot \<Rightarrow> json" where
  "level_to_mapping l = JObj
     [(''price'', jnum (pls_price l)), (''aggregate_quantity'', jnum (pls_aggregate_quantity l)),
      (''orders'', JList (map order_to_mapping (pls_orders l)))]"

definition snapshot_to_mapping :: "book_snapshot \<Rightarrow> json" where
  "snapshot_to_mapping snap = JObj
     [(''semantics_version'', JInt (bs_semantics_version snap)), (''instrument_id'', jnum (bs_instrument_id snap)),
      (''last_sequence'', jnum (bs_last_sequence snap)), (''sequence_exhausted'', JBool (bs_sequence_exhausted snap)),
      (''active_order_count'', jnum (bs_active_order_count snap)),
      (''bids'', JList (map level_to_mapping (bs_bids snap))), (''asks'', JList (map level_to_mapping (bs_asks snap)))]"

definition side_summary_mapping :: "book_snapshot \<Rightarrow> (string \<times> json) list" where
  "side_summary_mapping snap =
     [(''bid_level_count'', jnum (int (length (bs_bids snap)))),
      (''bid_order_count'', jnum (int (sum_list (map (length \<circ> pls_orders) (bs_bids snap))))),
      (''bid_aggregate_quantity'', jnum (sum_list (map pls_aggregate_quantity (bs_bids snap)))),
      (''ask_level_count'', jnum (int (length (bs_asks snap)))),
      (''ask_order_count'', jnum (int (sum_list (map (length \<circ> pls_orders) (bs_asks snap))))),
      (''ask_aggregate_quantity'', jnum (sum_list (map pls_aggregate_quantity (bs_asks snap))))]"

definition reference_state_mapping :: "(bytes \<Rightarrow> string) \<Rightarrow> book_snapshot \<Rightarrow> json result" where
  "reference_state_mapping sha256 snap =
     bindR (state_digest sha256 snap) (\<lambda>digest. Inr (JObj
       ([(''active_order_count'', jnum (bs_active_order_count snap)),
         (''empty'', JBool (bs_active_order_count snap = 0)),
         (''next_sequence'', jnum (if bs_sequence_exhausted snap then 0 else bs_last_sequence snap + 1)),
         (''sequence_exhausted'', JBool (bs_sequence_exhausted snap)),
         (''best_bid'', snapshot_top_mapping (bs_bids snap)), (''best_ask'', snapshot_top_mapping (bs_asks snap))] @
        side_summary_mapping snap @ [(''state_digest'', JStr digest)])))"

definition native_state_mapping :: "native_state \<Rightarrow> json" where
  "native_state_mapping st = JObj
     [(''active_order_count'', jnum (ns_active_order_count st)), (''empty'', JBool (ns_empty st)),
      (''next_sequence'', jnum (ns_next_sequence st)), (''sequence_exhausted'', JBool (ns_sequence_exhausted st)),
      (''best_bid'', top_to_mapping (ns_best_bid st)), (''best_ask'', top_to_mapping (ns_best_ask st)),
      (''bid_level_count'', jnum (ns_bid_level_count st)), (''bid_order_count'', jnum (ns_bid_order_count st)),
      (''bid_aggregate_quantity'', jnum (ns_bid_aggregate_quantity st)),
      (''ask_level_count'', jnum (ns_ask_level_count st)), (''ask_order_count'', jnum (ns_ask_order_count st)),
      (''ask_aggregate_quantity'', jnum (ns_ask_aggregate_quantity st)), (''state_digest'', JStr (ns_state_digest st))]"

fun event_name :: "event \<Rightarrow> string" where
  "event_name (AcceptedEvent h ct) = ''accepted''"
| "event_name (RejectedEvent h ct reason oid) = ''rejected''"
| "event_name (TradeEvent h b) = ''trade''"
| "event_name (RestedEvent h b) = ''rested''"
| "event_name (CanceledEvent h oid quantity) = ''canceled''"
| "event_name (ReplacedEvent h old_id new_id) = ''replaced''"
| "event_name (DoneEvent h oid reason remaining) = ''done''"
| "event_name (BookChangedEvent h bid ask) = ''book_changed''"

fun event_fields :: "event \<Rightarrow> (string \<times> json) list" where
  "event_fields (AcceptedEvent h ct) = [(''command_type'', JStr (command_name ct))]"
| "event_fields (RejectedEvent h ct reason oid) =
     [(''command_type'', JStr (command_name ct)), (''reason'', JStr (reject_reason_name reason)), (''order_id'', jopt jnum oid)]"
| "event_fields (TradeEvent h b) =
     [(''aggressor_order_id'', jnum (aggressor_order_id b)), (''resting_order_id'', jnum (resting_order_id b)),
      (''aggressor_client_id'', jnum (aggressor_client_id b)), (''resting_client_id'', jnum (resting_client_id b)),
      (''aggressor_side'', JStr (side_name (aggressor_side b))), (''execution_price'', jnum (execution_price b)),
      (''execution_quantity'', jnum (execution_quantity b)), (''aggressor_remaining'', jnum (aggressor_remaining b)),
      (''resting_remaining'', jnum (resting_remaining b))]"
| "event_fields (RestedEvent h b) =
     [(''order_id'', jnum (rested_order_id b)), (''client_id'', jnum (rested_client_id b)),
      (''side'', JStr (side_name (rested_side b))), (''price'', jnum (rested_price b)),
      (''remaining_quantity'', jnum (rested_remaining_quantity b))]"
| "event_fields (CanceledEvent h oid quantity) = [(''order_id'', jnum oid), (''canceled_quantity'', jnum quantity)]"
| "event_fields (ReplacedEvent h old_id new_id) = [(''old_order_id'', jnum old_id), (''new_order_id'', jnum new_id)]"
| "event_fields (DoneEvent h oid reason remaining) =
     [(''order_id'', jnum oid), (''reason'', JStr (done_reason_name reason)), (''remaining_quantity'', jnum remaining)]"
| "event_fields (BookChangedEvent h bid ask) =
     [(''best_bid'', top_to_mapping bid), (''best_ask'', top_to_mapping ask)]"

definition event_to_mapping :: "event \<Rightarrow> json" where
  "event_to_mapping e =
     (let h = event_header_of e in
      JObj ([(''type'', JStr (event_name e)),
        (''header'', JObj [(''command_sequence'', jnum (command_sequence h)), (''event_index'', JInt (event_index h)),
           (''instrument_id'', jnum (hdr_instrument_id h))])] @ event_fields e))"

definition input_config_to_mapping :: "native_input_config \<Rightarrow> json" where
  "input_config_to_mapping c = JObj
     [(''instrument_id'', jnum (ni_instrument_id c)), (''max_order_quantity'', jnum (max_order_quantity (ni_engine c))),
      (''tick_increment'', jnum (tick_increment (ni_engine c))), (''max_active_orders'', jnum (max_active_orders (ni_engine c))),
      (''snapshot_interval'', jnum (ni_snapshot_interval c))]"

section \<open>Evidence of a result and of a run\<close>

definition is_checkpoint :: "int \<Rightarrow> int \<Rightarrow> bool" where
  "is_checkpoint index interval \<longleftrightarrow> interval \<noteq> 0 \<and> (index + 1) mod interval = 0"

definition reference_result_evidence ::
  "(bytes \<Rightarrow> string) \<Rightarrow> command \<Rightarrow> reference_result \<Rightarrow> book_snapshot \<Rightarrow> output_mode \<Rightarrow> bool \<Rightarrow> json result" where
  "reference_result_evidence sha256 cmd res snap mode checkpoint =
     bindR (case result_batch res of
        None \<Rightarrow> Inr [(''outcome'', JStr ''engine_error''), (''command_sequence'', JNull),
          (''engine_error'', jopt (\<lambda>e. JStr (engine_error_name e)) (result_error res)), (''reject_reason'', JNull),
          (''event_digest'', JNull), (''events'', JNull)]
      | Some b \<Rightarrow>
          bindR (event_digest sha256 b) (\<lambda>digest. Inr
            [(''outcome'', JStr (if batch_rejected b then ''rejected'' else ''committed'')),
             (''command_sequence'', jnum (batch_command_sequence b)), (''engine_error'', JNull),
             (''reject_reason'', if batch_rejected b then jopt (\<lambda>r. JStr (reject_reason_name r)) (rejection_of (batch_events b)) else JNull),
             (''event_digest'', JStr digest),
             (''events'', if mode = EXACT then JList (map event_to_mapping (batch_events b)) else JNull)])) (\<lambda>fields.
     bindR (reference_state_mapping sha256 snap) (\<lambda>state.
     Inr (JObj ([(''command_type'', JStr (command_name (command_type_of cmd)))] @ fields @
       [(''state'', state), (''snapshot'', if checkpoint then snapshot_to_mapping snap else JNull)]))))"

definition reference_final_evidence :: "(bytes \<Rightarrow> string) \<Rightarrow> book_snapshot \<Rightarrow> json result" where
  "reference_final_evidence sha256 snap =
     bindR (reference_state_mapping sha256 snap) (\<lambda>state.
     Inr (JObj [(''state'', state), (''snapshot'', snapshot_to_mapping snap)]))"

definition native_result_mapping :: "native_result_record \<Rightarrow> json" where
  "native_result_mapping r = JObj
     [(''kind'', JStr ''result''), (''command_index'', jnum (nr_command_index r)),
      (''evidence'', JObj
        [(''command_type'', JStr (command_name (nr_command_type r))), (''outcome'', JStr (outcome_name (nr_outcome r))),
         (''command_sequence'', jopt jnum (nr_command_sequence r)),
         (''engine_error'', jopt (\<lambda>e. JStr (engine_error_name e)) (nr_engine_error r)),
         (''reject_reason'', jopt (\<lambda>r. JStr (reject_reason_name r)) (nr_reject_reason r)),
         (''event_digest'', jopt JStr (nr_event_digest r)),
         (''events'', jopt (\<lambda>es. JList (map event_to_mapping es)) (nr_events r)),
         (''state'', native_state_mapping (nr_state r)),
         (''snapshot'', jopt snapshot_to_mapping (nr_snapshot r))])]"

definition native_final_mapping :: "native_final_record \<Rightarrow> json" where
  "native_final_mapping f = JObj
     [(''kind'', JStr ''final''), (''commands_processed'', jnum (nf_commands_processed f)),
      (''evidence'', JObj [(''state'', native_state_mapping (nf_state f)), (''snapshot'', snapshot_to_mapping (nf_snapshot f))])]"

section \<open>The reference pass\<close>

record classification_counts =
  cc_committed :: int
  cc_rejected :: int
  cc_engine_error :: int

definition no_counts :: classification_counts where
  "no_counts = \<lparr>cc_committed = 0, cc_rejected = 0, cc_engine_error = 0\<rparr>"

text \<open>\<open>counts[outcome] += 1\<close>, a \<open>KeyError\<close> for any other name.\<close>

definition count_outcome :: "json \<Rightarrow> classification_counts \<Rightarrow> classification_counts result" where
  "count_outcome name c =
     (if name = JStr ''committed'' then Inr (c\<lparr>cc_committed := cc_committed c + 1\<rparr>)
      else if name = JStr ''rejected'' then Inr (c\<lparr>cc_rejected := cc_rejected c + 1\<rparr>)
      else if name = JStr ''engine_error'' then Inr (c\<lparr>cc_engine_error := cc_engine_error c + 1\<rparr>)
      else Inl KeyError)"

definition counts_mapping :: "classification_counts \<Rightarrow> json" where
  "counts_mapping c = JObj
     [(''committed'', jnum (cc_committed c)), (''rejected'', jnum (cc_rejected c)), (''engine_error'', jnum (cc_engine_error c))]"

record reference_capture =
  rc_mode :: output_mode
  rc_config :: native_input_config
  rc_workload_command_count :: int
  rc_commands_processed :: int
  rc_classifications :: classification_counts
  rc_command_digest :: string
  rc_evidence_digest :: string

definition REFERENCE_EVIDENCE_SCHEMA :: string where
  "REFERENCE_EVIDENCE_SCHEMA = ''atlas_reference_evidence_v1''"

definition ascii_bytes :: "string \<Rightarrow> bytes" where
  "ascii_bytes s = map (\<lambda>c. of_nat (of_char c)) s"

text \<open>The loop variables of \<open>capture_reference\<close>; a hasher is the text it has been fed.\<close>

record capture_run =
  cr_engine :: engine
  cr_output :: "json list"
  cr_command_text :: string
  cr_evidence_text :: string
  cr_counts :: classification_counts
  cr_workload_count :: int
  cr_processed :: int
  cr_engine_terminal :: bool

definition result_envelope :: "int \<Rightarrow> json \<Rightarrow> (string \<times> json) list" where
  "result_envelope index evidence = [(''command_index'', jnum index), (''evidence'', evidence)]"

definition capture_command ::
  "(bytes \<Rightarrow> string) \<Rightarrow> output_mode \<Rightarrow> native_input_config \<Rightarrow> command \<Rightarrow> capture_run \<Rightarrow> capture_run result" where
  "capture_command sha256 mode c cmd run =
     bindR (encode_command cmd) (\<lambda>line.
     let run1 = run\<lparr>cr_command_text := cr_command_text run @ line @ [CHR 0x0A],
                    cr_workload_count := cr_workload_count run + 1\<rparr> in
     if cr_engine_terminal run1 then Inr run1
     else case execute cmd (cr_engine run1) of
       (Inl e, _) \<Rightarrow> Inl e
     | (Inr res, s1) \<Rightarrow>
         (case snapshot s1 of
            (Inl e, _) \<Rightarrow> Inl e
          | (Inr snap, s2) \<Rightarrow>
              bindR (reference_result_evidence sha256 cmd res snap mode
                (is_checkpoint (cr_processed run1) (ni_snapshot_interval c))) (\<lambda>evidence.
              let envelope = result_envelope (cr_processed run1) evidence in
              bindR (count_outcome (get_key evidence ''outcome'') (cr_counts run1)) (\<lambda>counts.
              Inr (run1\<lparr>cr_engine := s2,
                cr_evidence_text := cr_evidence_text run1 @ canonical_json (JObj ((''kind'', JStr ''result'') # envelope)),
                cr_output := cr_output run1 @
                  [JObj ([(''schema'', JStr REFERENCE_EVIDENCE_SCHEMA), (''kind'', JStr ''result'')] @ envelope)],
                cr_processed := cr_processed run1 + 1, cr_counts := counts,
                cr_engine_terminal := (result_error res \<noteq> None)\<rparr>)))))"

fun capture_commands ::
  "(bytes \<Rightarrow> string) \<Rightarrow> output_mode \<Rightarrow> native_input_config \<Rightarrow> command list \<Rightarrow> capture_run \<Rightarrow> capture_run result" where
  "capture_commands sha256 mode c [] run = Inr run"
| "capture_commands sha256 mode c (cmd # cmds) run =
     bindR (capture_command sha256 mode c cmd run) (\<lambda>run1. capture_commands sha256 mode c cmds run1)"

definition config_record :: "output_mode \<Rightarrow> native_input_config \<Rightarrow> json" where
  "config_record mode c = JObj
     [(''schema'', JStr REFERENCE_EVIDENCE_SCHEMA), (''kind'', JStr ''config''), (''mode'', JStr (mode_name mode)),
      (''input'', input_config_to_mapping c)]"

text \<open>
  \<open>capture_reference\<close>: the evidence records and what is remembered of them.  A raise leaves no
  evidence behind.
\<close>

definition capture_reference ::
  "(bytes \<Rightarrow> string) \<Rightarrow> output_mode \<Rightarrow> native_input_config \<Rightarrow> command list \<Rightarrow> (json list \<times> reference_capture) result" where
  "capture_reference sha256 mode c cmds =
     bindR (ReferenceEngine (ni_instrument_id c) (Some (ni_engine c)) 1 True) (\<lambda>s.
     bindR (capture_commands sha256 mode c cmds
       \<lparr>cr_engine = s, cr_output = [config_record mode c], cr_command_text = [], cr_evidence_text = [],
        cr_counts = no_counts, cr_workload_count = 0, cr_processed = 0, cr_engine_terminal = False\<rparr>) (\<lambda>run.
     case snapshot (cr_engine run) of
       (Inl e, _) \<Rightarrow> Inl e
     | (Inr snap, _) \<Rightarrow>
         bindR (reference_final_evidence sha256 snap) (\<lambda>evidence.
         let evidence_digest = sha256 (ascii_bytes (cr_evidence_text run @ canonical_json (JObj
               [(''kind'', JStr ''final''), (''commands_processed'', jnum (cr_processed run)), (''evidence'', evidence)])));
             command_digest = sha256 (ascii_bytes (cr_command_text run)) in
         Inr (cr_output run @ [JObj
             [(''schema'', JStr REFERENCE_EVIDENCE_SCHEMA), (''kind'', JStr ''final''),
              (''workload_command_count'', jnum (cr_workload_count run)), (''commands_processed'', jnum (cr_processed run)),
              (''command_digest'', JStr command_digest), (''evidence_digest'', JStr evidence_digest),
              (''classification_counts'', counts_mapping (cr_counts run)), (''evidence'', evidence)]],
           \<lparr>rc_mode = mode, rc_config = c, rc_workload_command_count = cr_workload_count run,
            rc_commands_processed = cr_processed run, rc_classifications = cr_counts run,
            rc_command_digest = command_digest, rc_evidence_digest = evidence_digest\<rparr>))))"

section \<open>Reading the evidence back\<close>

record reference_cursor =
  cu_capture :: reference_capture
  cu_input :: "json list"
  cu_result_count :: int
  cu_counts :: classification_counts
  cu_text :: string

text \<open>\<open>_read\<close> on a record that has been parsed: its schema, its kind and its fields.\<close>

definition expected_keys :: "json \<Rightarrow> string set option" where
  "expected_keys kind =
     (if kind = JStr ''config'' then Some {''schema'', ''kind'', ''mode'', ''input''}
      else if kind = JStr ''result'' then Some {''schema'', ''kind'', ''command_index'', ''evidence''}
      else if kind = JStr ''final''
      then Some {''schema'', ''kind'', ''workload_command_count'', ''commands_processed'', ''command_digest'',
        ''evidence_digest'', ''classification_counts'', ''evidence''}
      else None)"

text \<open>A list or a mapping cannot be looked up in a set or a dictionary.\<close>

fun hashable :: "json \<Rightarrow> bool" where
  "hashable (JObj _) = False"
| "hashable (JList _) = False"
| "hashable _ = True"

definition cursor_read :: "(reference_cursor, json) prog" where
  "cursor_read cu =
     (case cu_input cu of
        [] \<Rightarrow> (Inl ValueError, cu)
      | record # input \<Rightarrow>
          (if get_key record ''schema'' \<noteq> JStr REFERENCE_EVIDENCE_SCHEMA then Inl ValueError
           else if \<not> hashable (get_key record ''kind'') then Inl TypeError
           else case expected_keys (get_key record ''kind'') of
             None \<Rightarrow> Inl ValueError
           | Some ks \<Rightarrow> if keys_of record \<noteq> ks then Inl ValueError else Inr record,
           cu\<lparr>cu_input := input\<rparr>))"

definition ReferenceCursor :: "json list \<Rightarrow> reference_capture \<Rightarrow> reference_cursor result" where
  "ReferenceCursor input capture =
     (case cursor_read \<lparr>cu_capture = capture, cu_input = input, cu_result_count = 0, cu_counts = no_counts, cu_text = []\<rparr> of
        (Inl e, _) \<Rightarrow> Inl e
      | (Inr config, cu) \<Rightarrow>
          if get_key config ''kind'' \<noteq> JStr ''config'' then Inl ValueError
          else if get_key config ''mode'' \<noteq> JStr (mode_name (rc_mode capture)) then Inl ValueError
          else if \<not> json_same (get_key config ''input'') (input_config_to_mapping (rc_config capture)) then Inl ValueError
          else Inr cu)"

text \<open>\<open>[0-9a-f]{64}\<close>.\<close>

definition is_digest :: "json \<Rightarrow> bool" where
  "is_digest v =
     (case v of
        JStr s \<Rightarrow> length s = 64 \<and> list_all (\<lambda>c. let n = (of_char c :: nat) in 48 \<le> n \<and> n \<le> 57 \<or> 97 \<le> n \<and> n \<le> 102) s
      | _ \<Rightarrow> False)"

definition validate_final :: "(bytes \<Rightarrow> string) \<Rightarrow> json \<Rightarrow> reference_cursor \<Rightarrow> unit result" where
  "validate_final sha256 record cu =
     (let capture = cu_capture cu in
      check_all (map (\<lambda>bad. guardR (\<not> bad) ValueError)
        [\<not> is_digest (get_key record ''command_digest''), \<not> is_digest (get_key record ''evidence_digest''),
         get_key record ''workload_command_count'' \<noteq> jnum (rc_workload_command_count capture),
         get_key record ''commands_processed'' \<noteq> jnum (cu_result_count cu),
         get_key record ''commands_processed'' \<noteq> jnum (rc_commands_processed capture),
         get_key record ''command_digest'' \<noteq> JStr (rc_command_digest capture),
         get_key record ''evidence_digest'' \<noteq> JStr (rc_evidence_digest capture),
         sha256 (ascii_bytes (cu_text cu)) \<noteq> rc_evidence_digest capture,
         \<not> json_same (get_key record ''classification_counts'') (counts_mapping (cu_counts cu)),
         cu_counts cu \<noteq> rc_classifications capture]))"

definition cursor_next :: "(bytes \<Rightarrow> string) \<Rightarrow> (reference_cursor, json) prog" where
  "cursor_next sha256 =
     bindP cursor_read (\<lambda>record cu.
     if get_key record ''kind'' = JStr ''config'' then (Inl ValueError, cu)
     else if get_key record ''kind'' = JStr ''result''
     then let comparable = JObj [(''kind'', JStr ''result''), (''command_index'', get_key record ''command_index''),
                (''evidence'', get_key record ''evidence'')] in
       if get_key record ''command_index'' \<noteq> jnum (cu_result_count cu) then (Inl ValueError, cu)
       else if \<not> hashable (get_key (get_key record ''evidence'') ''outcome'') then (Inl TypeError, cu)
       else case count_outcome (get_key (get_key record ''evidence'') ''outcome'') (cu_counts cu) of
         Inl _ \<Rightarrow> (Inl ValueError, cu)
       | Inr counts \<Rightarrow> (Inr comparable, cu\<lparr>cu_counts := counts, cu_result_count := cu_result_count cu + 1,
           cu_text := cu_text cu @ canonical_json comparable\<rparr>)
     else let comparable = JObj [(''kind'', JStr ''final''), (''commands_processed'', get_key record ''commands_processed''),
                (''evidence'', get_key record ''evidence'')];
              cu1 = cu\<lparr>cu_text := cu_text cu @ canonical_json comparable\<rparr> in
       case validate_final sha256 record cu1 of Inl e \<Rightarrow> (Inl e, cu1) | Inr _ \<Rightarrow> (Inr comparable, cu1))"

definition ensure_eof :: "reference_cursor \<Rightarrow> unit result" where
  "ensure_eof cu = guardR (cu_input cu = []) ValueError"

section \<open>Describing a divergence\<close>

datatype failure_category = Classification | Event | State | Snapshot | Stream | Final

fun contains :: "string \<Rightarrow> string \<Rightarrow> bool" where
  "contains sub [] \<longleftrightarrow> sub = []"
| "contains sub (c # cs) \<longleftrightarrow> take (length sub) (c # cs) = sub \<or> contains sub cs"

definition failure_category :: "string \<Rightarrow> failure_category" where
  "failure_category path =
     (if contains ''.events'' path \<or> contains ''.event_digest'' path then Event
      else if contains ''.snapshot'' path then Snapshot
      else if contains ''.state'' path then State
      else if list_ex (\<lambda>f. contains f path) [''.outcome'', ''.command_sequence'', ''.engine_error'', ''.reject_reason'', ''.command_type'']
      then Classification
      else if contains ''.kind'' path \<or> contains ''.command_index'' path \<or> contains ''.commands_processed'' path then Stream
      else Final)"

definition ends_with :: "string \<Rightarrow> string \<Rightarrow> bool" where
  "ends_with ending s \<longleftrightarrow> length ending \<le> length s \<and> drop (length s - length ending) s = ending"

definition signature_kind :: "string \<Rightarrow> json \<Rightarrow> string" where
  "signature_kind path v =
     (case v of
        JStr s \<Rightarrow>
          if list_ex (\<lambda>f. ends_with f path)
            [''.type'', ''.reason'', ''.reject_reason'', ''.outcome'', ''.command_type'', ''.engine_error'', ''.kind'']
          then s else json_type v
      | _ \<Rightarrow> json_type v)"

record failure_signature =
  fs_category :: failure_category
  fs_field_path :: string
  fs_expected_kind :: string
  fs_actual_kind :: string

record depth_difference =
  dd_side :: string
  dd_level_index :: nat
  dd_order_index :: "nat option"
  dd_expected_price :: "int option"
  dd_actual_price :: "int option"
  dd_difference :: value_difference

text \<open>
  \<open>int(text)\<close>: surrounding white space, an optional sign, digits with single underscores between them.
\<close>

fun int_digits :: "string \<Rightarrow> bool \<Rightarrow> nat \<Rightarrow> nat option" where
  "int_digits [] after_digit n = (if after_digit then Some n else None)"
| "int_digits (c # cs) after_digit n =
     (if is_digit c then int_digits cs True (n * 10 + digit_value c)
      else if c = CHR ''_'' \<and> after_digit \<and> cs \<noteq> [] then int_digits cs False n
      else None)"

definition strip_spaces :: "string \<Rightarrow> string" where
  "strip_spaces s = rev (dropWhile py_isspace (rev (dropWhile py_isspace s)))"

definition int_of_text :: "string \<Rightarrow> int option" where
  "int_of_text s =
     (case strip_spaces s of
        [] \<Rightarrow> None
      | c # cs \<Rightarrow>
          if c = CHR ''-'' then map_option (\<lambda>n. - int n) (int_digits cs False 0)
          else if c = CHR ''+'' then map_option int (int_digits cs False 0)
          else map_option int (int_digits (c # cs) False 0))"

definition mapping_price :: "json \<Rightarrow> int option" where
  "mapping_price v = (case v of JObj _ \<Rightarrow> (case get_key v ''price'' of JStr s \<Rightarrow> int_of_text s | _ \<Rightarrow> None) | _ \<Rightarrow> None)"

text \<open>The first match of \<open>\.orders\[(\d+)\]\<close> in a path.\<close>

definition orders_index_at :: "string \<Rightarrow> nat option" where
  "orders_index_at cs =
     (let key = ''.orders[''; after = drop (length key) cs; ds = takeWhile is_digit after in
      if take (length key) cs = key \<and> ds \<noteq> [] \<and> drop (length ds) after \<noteq> [] \<and> hd (drop (length ds) after) = CHR '']''
      then Some (digits_value ds) else None)"

fun search_orders :: "string \<Rightarrow> nat option" where
  "search_orders [] = None"
| "search_orders (c # cs) = (case orders_index_at (c # cs) of Some n \<Rightarrow> Some n | None \<Rightarrow> search_orders cs)"

definition level_difference :: "string \<Rightarrow> json list \<Rightarrow> json list \<Rightarrow> nat \<Rightarrow> depth_difference option" where
  "level_difference side e a i =
     (let path = ''$.snapshot.'' @ side @ ''['' @ dec i @ '']'' in
      if i \<ge> length e
      then Some \<lparr>dd_side = side, dd_level_index = i, dd_order_index = None, dd_expected_price = None,
        dd_actual_price = mapping_price (a ! i),
        dd_difference = \<lparr>vd_path = path, vd_expected = MISSING, vd_actual = a ! i\<rparr>\<rparr>
      else if i \<ge> length a
      then Some \<lparr>dd_side = side, dd_level_index = i, dd_order_index = None, dd_expected_price = mapping_price (e ! i),
        dd_actual_price = None, dd_difference = \<lparr>vd_path = path, vd_expected = e ! i, vd_actual = MISSING\<rparr>\<rparr>
      else map_option (\<lambda>d. \<lparr>dd_side = side, dd_level_index = i, dd_order_index = search_orders (vd_path d),
          dd_expected_price = mapping_price (e ! i), dd_actual_price = mapping_price (a ! i), dd_difference = d\<rparr>)
        (first_value_difference (e ! i) (a ! i) path))"

definition first_depth_difference :: "json \<Rightarrow> json \<Rightarrow> depth_difference option" where
  "first_depth_difference expected actual =
     (case (expected, actual) of
        (JObj _, JObj _) \<Rightarrow>
          first_some (concat (map (\<lambda>side.
            case (get_key expected side, get_key actual side) of
              (JList e, JList a) \<Rightarrow> map (level_difference side e a) [0 ..< max (length e) (length a)]
            | _ \<Rightarrow> []) [''bids'', ''asks'']))
      | _ \<Rightarrow> None)"

record divergence =
  dv_command_index :: "int option"
  dv_mode :: output_mode
  dv_signature :: failure_signature
  dv_difference :: value_difference
  dv_depth_difference :: "depth_difference option"
  dv_reference_state_digest :: "string option"
  dv_native_state_digest :: "string option"
  dv_reference_top :: "json option"
  dv_native_top :: "json option"
  dv_exact_prefix_required :: bool

text \<open>\<open>_nested_mapping\<close>: the empty mapping unless the field is a mapping.\<close>

definition nested_mapping :: "json \<Rightarrow> string \<Rightarrow> json" where
  "nested_mapping v k = (case get_key v k of JObj kvs \<Rightarrow> JObj kvs | _ \<Rightarrow> JObj [])"

definition optional_string :: "json \<Rightarrow> string option" where
  "optional_string v = (case v of JStr s \<Rightarrow> Some s | _ \<Rightarrow> None)"

definition state_top :: "json \<Rightarrow> json option" where
  "state_top st =
     (if st = JObj [] then None
      else Some (JObj [(''best_bid'', get_key st ''best_bid''), (''best_ask'', get_key st ''best_ask'')]))"

definition make_divergence ::
  "int option \<Rightarrow> output_mode \<Rightarrow> json \<Rightarrow> json \<Rightarrow> value_difference \<Rightarrow> divergence" where
  "make_divergence index mode expected actual d =
     (let expected_evidence = nested_mapping expected ''evidence''; actual_evidence = nested_mapping actual ''evidence'';
          expected_state = nested_mapping expected_evidence ''state''; actual_state = nested_mapping actual_evidence ''state'' in
      \<lparr>dv_command_index = index, dv_mode = mode,
       dv_signature = \<lparr>fs_category = failure_category (vd_path d), fs_field_path = vd_path d,
         fs_expected_kind = signature_kind (vd_path d) (vd_expected d), fs_actual_kind = signature_kind (vd_path d) (vd_actual d)\<rparr>,
       dv_difference = d,
       dv_depth_difference = first_depth_difference (get_key expected_evidence ''snapshot'') (get_key actual_evidence ''snapshot''),
       dv_reference_state_digest = optional_string (get_key expected_state ''state_digest''),
       dv_native_state_digest = optional_string (get_key actual_state ''state_digest''),
       dv_reference_top = state_top expected_state, dv_native_top = state_top actual_state,
       dv_exact_prefix_required = (mode = COMPACT)\<rparr>)"

section \<open>The native pass\<close>

text \<open>The loop variables of \<open>_compare_native\<close>.\<close>

record comparison_run =
  cn_decoder :: stream_decoder
  cn_cursor :: reference_cursor
  cn_text :: string
  cn_counts :: classification_counts
  cn_compared :: int
  cn_adapter_error :: bool
  cn_transform_commands :: "command list"

definition on_decoder :: "(stream_decoder, 'a) prog \<Rightarrow> (comparison_run, 'a) prog" where
  "on_decoder m run = (case m (cn_decoder run) of (r, d) \<Rightarrow> (r, run\<lparr>cn_decoder := d\<rparr>))"

definition on_cursor :: "(reference_cursor, 'a) prog \<Rightarrow> (comparison_run, 'a) prog" where
  "on_cursor m run = (case m (cn_cursor run) of (r, cu) \<Rightarrow> (r, run\<lparr>cn_cursor := cu\<rparr>))"

type_synonym evidence_transformer = "command option \<Rightarrow> json \<Rightarrow> json"

definition next_transform_command :: "(comparison_run, command) prog" where
  "next_transform_command run =
     (case cn_transform_commands run of
        [] \<Rightarrow> (Inl StopIteration, run)
      | cmd # cmds \<Rightarrow> (Inr cmd, run\<lparr>cn_transform_commands := cmds\<rparr>))"

definition transformed :: "evidence_transformer option \<Rightarrow> bool \<Rightarrow> json \<Rightarrow> (comparison_run, json) prog" where
  "transformed transformer is_result mapping =
     (case transformer of
        None \<Rightarrow> ret mapping
      | Some f \<Rightarrow>
          if is_result then bindP next_transform_command (\<lambda>cmd. ret (f (Some cmd) mapping))
          else ret (f None mapping))"

definition compare_mapping ::
  "(bytes \<Rightarrow> string) \<Rightarrow> evidence_transformer option \<Rightarrow> output_mode \<Rightarrow> int option \<Rightarrow> json \<Rightarrow> (comparison_run, divergence option) prog" where
  "compare_mapping sha256 transformer mode index mapping =
     bindP (on_cursor (cursor_next sha256)) (\<lambda>expected.
     bindP (transformed transformer (index \<noteq> None) mapping) (\<lambda>actual.
     case first_value_difference expected actual ''$'' of
       Some d \<Rightarrow> ret (Some (make_divergence index mode expected actual d))
     | None \<Rightarrow> seqP (modifyP (\<lambda>run. run\<lparr>cn_text := cn_text run @ canonical_json actual\<rparr>)) (ret None)))"

definition compare_result ::
  "(bytes \<Rightarrow> string) \<Rightarrow> evidence_transformer option \<Rightarrow> output_mode \<Rightarrow> native_result_record \<Rightarrow> (comparison_run, divergence option) prog" where
  "compare_result sha256 transformer mode r =
     bindP (compare_mapping sha256 transformer mode (Some (nr_command_index r)) (native_result_mapping r)) (\<lambda>found.
     case found of
       Some d \<Rightarrow> ret (Some d)
     | None \<Rightarrow>
         bindP (getsP (\<lambda>run. count_outcome (JStr (outcome_name (nr_outcome r))) (cn_counts run))) (\<lambda>counts.
         bindP (liftP counts) (\<lambda>cs.
         seqP (modifyP (\<lambda>run. run\<lparr>cn_counts := cs, cn_compared := cn_compared run + 1\<rparr>)) (ret None))))"

definition compare_final ::
  "(bytes \<Rightarrow> string) \<Rightarrow> evidence_transformer option \<Rightarrow> output_mode \<Rightarrow> native_final_record \<Rightarrow> (comparison_run, divergence option) prog" where
  "compare_final sha256 transformer mode f =
     bindP (compare_mapping sha256 transformer mode None (native_final_mapping f)) (\<lambda>found.
     case found of
       Some d \<Rightarrow> ret (Some d)
     | None \<Rightarrow> seqP (on_cursor (\<lambda>cu. (ensure_eof cu, cu))) (ret None))"

text \<open>One record of the native stream: decoded and checked first, then compared.\<close>

definition compare_record ::
  "(bytes \<Rightarrow> string) \<Rightarrow> evidence_transformer option \<Rightarrow> output_mode \<Rightarrow> native_record \<Rightarrow> (comparison_run, divergence option) prog" where
  "compare_record sha256 transformer mode rec =
     seqP (on_decoder (feed_record sha256 rec))
     (case rec of
        ConfigRecord _ \<Rightarrow> ret None
      | ErrorRecord _ \<Rightarrow> seqP (modifyP (\<lambda>run. run\<lparr>cn_adapter_error := True\<rparr>)) (ret None)
      | ResultRecord r \<Rightarrow> compare_result sha256 transformer mode r
      | FinalRecord f \<Rightarrow> compare_final sha256 transformer mode f)"

fun compare_records ::
  "(bytes \<Rightarrow> string) \<Rightarrow> evidence_transformer option \<Rightarrow> output_mode \<Rightarrow> native_record list \<Rightarrow> (comparison_run, divergence option) prog" where
  "compare_records sha256 transformer mode [] = ret None"
| "compare_records sha256 transformer mode (rec # recs) =
     bindP (compare_record sha256 transformer mode rec) (\<lambda>found.
     case found of Some d \<Rightarrow> ret (Some d) | None \<Rightarrow> compare_records sha256 transformer mode recs)"

datatype campaign_status = PASSED | DIVERGED divergence | HARNESS_ERROR py_error

record native_comparison =
  cmp_status :: campaign_status
  cmp_commands_compared :: int
  cmp_classifications :: classification_counts
  cmp_evidence_digest :: string

definition comparison_summary :: "(bytes \<Rightarrow> string) \<Rightarrow> campaign_status \<Rightarrow> comparison_run \<Rightarrow> native_comparison" where
  "comparison_summary sha256 status run =
     \<lparr>cmp_status = status, cmp_commands_compared = cn_compared run, cmp_classifications = cn_counts run,
      cmp_evidence_digest = sha256 (ascii_bytes (cn_text run))\<rparr>"

text \<open>After the last record: the exit code, the standard error output, the terminal record, the digests.\<close>

definition finish_comparison :: "(bytes \<Rightarrow> string) \<Rightarrow> int \<Rightarrow> bool \<Rightarrow> reference_capture \<Rightarrow> (comparison_run, unit) prog" where
  "finish_comparison sha256 returncode stderr_empty capture =
     bindP (on_decoder (decoder_finish (Some returncode))) (\<lambda>summary run.
       (check_all (map (\<lambda>bad. guardR (\<not> bad) NativeProtocolError)
         [\<not> stderr_empty, cn_adapter_error run \<or> ss_error summary \<noteq> None, ss_final summary = None,
          sha256 (ascii_bytes (cn_text run)) \<noteq> rc_evidence_digest capture]), run))"

definition compare_native ::
  "(bytes \<Rightarrow> string) \<Rightarrow> evidence_transformer option \<Rightarrow> native_input_config \<Rightarrow> command list \<Rightarrow> json list \<Rightarrow> reference_capture \<Rightarrow>
   native_record list \<Rightarrow> int \<Rightarrow> bool \<Rightarrow> native_comparison" where
  "compare_native sha256 transformer c cmds evidence capture recs returncode stderr_empty =
     (case ReferenceCursor evidence capture of
        Inl e \<Rightarrow> \<lparr>cmp_status = HARNESS_ERROR e, cmp_commands_compared = 0, cmp_classifications = no_counts,
          cmp_evidence_digest = sha256 []\<rparr>
      | Inr cu \<Rightarrow>
          (let run = \<lparr>cn_decoder = NativeStreamDecoder (Some (rc_mode capture)) (Some c) (Some cmds), cn_cursor = cu, cn_text = [],
                 cn_counts = no_counts, cn_compared = 0, cn_adapter_error = False, cn_transform_commands = cmds\<rparr> in
           case compare_records sha256 transformer (rc_mode capture) recs run of
             (Inl e, run1) \<Rightarrow> comparison_summary sha256 (HARNESS_ERROR e) run1
           | (Inr (Some d), run1) \<Rightarrow> comparison_summary sha256 (DIVERGED d) run1
           | (Inr None, run1) \<Rightarrow>
               (case finish_comparison sha256 returncode stderr_empty capture run1 of
                  (Inl e, run2) \<Rightarrow> comparison_summary sha256 (HARNESS_ERROR e) run2
                | (Inr _, run2) \<Rightarrow> comparison_summary sha256 PASSED run2)))"

text \<open>\<open>run_fixture\<close> without its files: the reference pass, then the native pass.\<close>

definition run_fixture ::
  "(bytes \<Rightarrow> string) \<Rightarrow> evidence_transformer option \<Rightarrow> output_mode \<Rightarrow> native_input_config \<Rightarrow> command list \<Rightarrow>
   native_record list \<Rightarrow> int \<Rightarrow> bool \<Rightarrow> native_comparison" where
  "run_fixture sha256 transformer mode c cmds recs returncode stderr_empty =
     (case capture_reference sha256 mode c cmds of
        Inl e \<Rightarrow> \<lparr>cmp_status = HARNESS_ERROR e, cmp_commands_compared = 0, cmp_classifications = no_counts,
          cmp_evidence_digest = sha256 []\<rparr>
      | Inr (evidence, capture) \<Rightarrow> compare_native sha256 transformer c cmds evidence capture recs returncode stderr_empty)"

end
