(* ===== verification/Workload_Files.thy ===== *)
theory Workload_Files
  imports Differential Generation
begin

text \<open>
  Persisted workloads, manifests and campaign suites: \<open>python/src/atlaslob/workload.py\<close> and the dictionary
  form of a specification from \<open>generation.py\<close>.  A workload file is its text, which is ASCII when the
  program wrote it; a JSON document is its value.  Paths, temporary files, deadlines and the text of JSON
  documents are not modelled; \<open>sha256\<close> is a parameter.
\<close>

section \<open>Fields of a JSON document\<close>

definition json_mapping :: "json \<Rightarrow> (string \<times> json) list result" where
  "json_mapping v = (case v of JObj kvs \<Rightarrow> Inr kvs | _ \<Rightarrow> Inl ValueError)"

definition json_string :: "json \<Rightarrow> string result" where
  "json_string v = (case v of JStr s \<Rightarrow> Inr s | _ \<Rightarrow> Inl ValueError)"

definition json_int :: "json \<Rightarrow> int result" where
  "json_int v = (case v of JInt i \<Rightarrow> Inr i | _ \<Rightarrow> Inl ValueError)"

definition require_keys :: "(string \<times> json) list \<Rightarrow> string list \<Rightarrow> unit result" where
  "require_keys kvs ks = guardR (set (map fst kvs) = set ks) ValueError"

text \<open>\<open>_decimal\<close> of \<open>generation.py\<close>, its signed form, and \<open>_decimal\<close> of \<open>workload.py\<close>.\<close>

definition spec_decimal :: "json \<Rightarrow> int result" where
  "spec_decimal v =
     bindR (json_string v) (\<lambda>t.
     if t = [] \<or> (t \<noteq> ''0'' \<and> (hd t = CHR ''0'' \<or> \<not> list_all is_digit t)) then Inl ValueError else Inr (py_int t))"

definition signed_decimal_field :: "json \<Rightarrow> int result" where
  "signed_decimal_field v =
     bindR (json_string v) (\<lambda>t.
     let ds = (if t \<noteq> [] \<and> hd t = CHR ''-'' then tl t else t) in
     if ds = [] \<or> (ds \<noteq> ''0'' \<and> (hd ds = CHR ''0'' \<or> \<not> list_all is_digit ds)) then Inl ValueError
     else if t = ''-0'' then Inl ValueError
     else Inr (py_int t))"

definition decimal_field :: "json \<Rightarrow> int result" where
  "decimal_field v =
     bindR (json_string v) (\<lambda>t.
     if t = [] \<or> \<not> list_all (\<lambda>c. (of_char c :: nat) < 128) t \<or> \<not> list_all is_digit t \<or> (t \<noteq> ''0'' \<and> hd t = CHR ''0'')
     then Inl ValueError else Inr (py_int t))"

section \<open>Specifications as dictionaries\<close>

definition WORKLOAD_SPEC_SCHEMA :: string where
  "WORKLOAD_SPEC_SCHEMA = ''atlas_workload_spec_v1''"

fun profile_value :: "workload_profile \<Rightarrow> string" where
  "profile_value UNIFORM_SYNTHETIC = ''uniform_synthetic''"
| "profile_value CLUSTERED_MID = ''clustered_mid''"
| "profile_value HOT_LEVEL_CONTENTION = ''hot_level_contention''"
| "profile_value SPARSE_WIDE_BOOK = ''sparse_wide''"
| "profile_value CANCEL_HEAVY = ''cancel_heavy''"
| "profile_value SWEEP_HEAVY = ''sweep_heavy''"
| "profile_value REPLACE_HEAVY = ''replace_heavy''"
| "profile_value INVALID_MIX = ''invalid_mix''"
| "profile_value TRACE_DRIVEN_SYNTHETIC = ''trace_driven_synthetic''"
| "profile_value ADVERSARIAL_BOUNDARY = ''adversarial_boundary''"

fun price_model_value :: "price_model \<Rightarrow> string" where
  "price_model_value UNIFORM = ''uniform''"
| "price_model_value CLUSTERED = ''clustered''"
| "price_model_value HOT_LEVEL = ''hot_level''"
| "price_model_value SPARSE_WIDE = ''sparse_wide''"
| "price_model_value TREND_MEAN_REVERT = ''trend_mean_revert''"
| "price_model_value ADVERSARIAL_LEGAL = ''adversarial_legal''"

definition all_profiles :: "workload_profile list" where
  "all_profiles = [UNIFORM_SYNTHETIC, CLUSTERED_MID, HOT_LEVEL_CONTENTION, SPARSE_WIDE_BOOK, CANCEL_HEAVY, SWEEP_HEAVY,
     REPLACE_HEAVY, INVALID_MIX, TRACE_DRIVEN_SYNTHETIC, ADVERSARIAL_BOUNDARY]"

definition all_price_models :: "price_model list" where
  "all_price_models = [UNIFORM, CLUSTERED, HOT_LEVEL, SPARSE_WIDE, TREND_MEAN_REVERT, ADVERSARIAL_LEGAL]"

text \<open>\<open>Enumeration(text)\<close>: the member with that value, else a \<open>ValueError\<close>.\<close>

definition member_of :: "('a \<Rightarrow> string) \<Rightarrow> 'a list \<Rightarrow> string \<Rightarrow> 'a result" where
  "member_of name members t = (case find (\<lambda>x. name x = t) members of Some x \<Rightarrow> Inr x | None \<Rightarrow> Inl ValueError)"

definition spec_to_dict :: "workload_spec \<Rightarrow> json" where
  "spec_to_dict sp =
     (let e = ws_engine sp; w = ws_operation_weights sp in
      JObj
       [(''schema'', JStr WORKLOAD_SPEC_SCHEMA), (''command_count'', jnum (ws_command_count sp)),
        (''instrument_id'', jnum (ws_instrument_id sp)),
        (''engine'', JObj [(''max_order_quantity'', jnum (max_order_quantity e)), (''tick_increment'', jnum (tick_increment e)),
          (''max_active_orders'', jnum (max_active_orders e))]),
        (''profile'', JStr (profile_value (ws_profile sp))), (''price_model'', JStr (price_model_value (ws_price_model sp))),
        (''operation_weights'', JObj [(''new'', JInt (w_new w)), (''cancel'', JInt (w_cancel w)), (''replace'', JInt (w_replace w))]),
        (''invalid_basis_points'', JInt (ws_invalid_basis_points sp)), (''aggressive_basis_points'', JInt (ws_aggressive_basis_points sp)),
        (''market_basis_points'', JInt (ws_market_basis_points sp)),
        (''boundary_quantity_basis_points'', JInt (ws_boundary_quantity_basis_points sp)), (''mid_price'', jnum (ws_mid_price sp)),
        (''price_span_ticks'', JInt (ws_price_span_ticks sp)), (''active_order_target'', jnum (ws_active_order_target sp)),
        (''client_count'', JInt (ws_client_count sp)), (''snapshot_interval'', jnum (ws_snapshot_interval sp))])"

definition SPEC_KEYS :: "string list" where
  "SPEC_KEYS = [''schema'', ''command_count'', ''instrument_id'', ''engine'', ''profile'', ''price_model'', ''operation_weights'',
     ''invalid_basis_points'', ''aggressive_basis_points'', ''market_basis_points'', ''boundary_quantity_basis_points'', ''mid_price'',
     ''price_span_ticks'', ''active_order_target'', ''client_count'', ''snapshot_interval'']"

definition spec_from_dict :: "(string \<times> json) list \<Rightarrow> workload_spec result" where
  "spec_from_dict kvs =
     (let item = get_key (JObj kvs) in
      bindR (require_keys kvs SPEC_KEYS) (\<lambda>_.
      bindR (guardR (item ''schema'' = JStr WORKLOAD_SPEC_SCHEMA) ValueError) (\<lambda>_.
      bindR (json_mapping (item ''engine'')) (\<lambda>e.
      bindR (require_keys e [''max_order_quantity'', ''tick_increment'', ''max_active_orders'']) (\<lambda>_.
      bindR (json_mapping (item ''operation_weights'')) (\<lambda>w.
      bindR (require_keys w [''new'', ''cancel'', ''replace'']) (\<lambda>_.
      bindR (spec_decimal (item ''command_count'')) (\<lambda>command_count.
      bindR (spec_decimal (item ''instrument_id'')) (\<lambda>iid.
      bindR (spec_decimal (get_key (JObj e) ''max_order_quantity'')) (\<lambda>mq.
      bindR (signed_decimal_field (get_key (JObj e) ''tick_increment'')) (\<lambda>tick.
      bindR (spec_decimal (get_key (JObj e) ''max_active_orders'')) (\<lambda>mao.
      bindR (MatchingConfig mq tick mao) (\<lambda>engine.
      bindR (bindR (json_string (item ''profile'')) (member_of profile_value all_profiles)) (\<lambda>profile.
      bindR (bindR (json_string (item ''price_model'')) (member_of price_model_value all_price_models)) (\<lambda>model.
      bindR (json_int (get_key (JObj w) ''new'')) (\<lambda>n.
      bindR (json_int (get_key (JObj w) ''cancel'')) (\<lambda>c.
      bindR (json_int (get_key (JObj w) ''replace'')) (\<lambda>r.
      bindR (OperationWeights n c r) (\<lambda>weights.
      bindR (json_int (item ''invalid_basis_points'')) (\<lambda>invalid.
      bindR (json_int (item ''aggressive_basis_points'')) (\<lambda>aggressive.
      bindR (json_int (item ''market_basis_points'')) (\<lambda>market.
      bindR (json_int (item ''boundary_quantity_basis_points'')) (\<lambda>boundary.
      bindR (signed_decimal_field (item ''mid_price'')) (\<lambda>mid.
      bindR (json_int (item ''price_span_ticks'')) (\<lambda>span.
      bindR (spec_decimal (item ''active_order_target'')) (\<lambda>target.
      bindR (json_int (item ''client_count'')) (\<lambda>clients.
      bindR (spec_decimal (item ''snapshot_interval'')) (\<lambda>interval.
      WorkloadSpec \<lparr>ws_command_count = command_count, ws_instrument_id = iid, ws_engine = engine, ws_profile = profile,
        ws_price_model = model, ws_operation_weights = weights, ws_invalid_basis_points = invalid,
        ws_aggressive_basis_points = aggressive, ws_market_basis_points = market,
        ws_boundary_quantity_basis_points = boundary, ws_mid_price = mid, ws_price_span_ticks = span,
        ws_active_order_target = target, ws_client_count = clients, ws_snapshot_interval = interval\<rparr>))))))))))))))))))))))))))))"

section \<open>Manifests\<close>

definition WORKLOAD_MANIFEST_SCHEMA :: string where
  "WORKLOAD_MANIFEST_SCHEMA = ''atlas_workload_manifest_v1''"

definition CAMPAIGN_SUITE_SCHEMA :: string where
  "CAMPAIGN_SUITE_SCHEMA = ''atlas_campaign_suite_v1''"

record workload_manifest =
  mf_generator_version :: int
  mf_seed :: int
  mf_spec :: workload_spec
  mf_command_count :: int
  mf_command_stream_sha256 :: string
  mf_stats :: generation_stats

definition require_seed :: "int \<Rightarrow> unit result" where
  "require_seed v = guardR (0 \<le> v \<and> v \<le> U64_MAX) ValueError"

definition require_digest :: "string \<Rightarrow> unit result" where
  "require_digest v = guardR (length v = 64 \<and> list_all (\<lambda>c. c \<in> set ''0123456789abcdef'') v) ValueError"

definition check_manifest :: "workload_manifest \<Rightarrow> unit result" where
  "check_manifest m =
     (let stats = mf_stats m; names = map fst (st_intents stats) in
      check_all
       [guardR (mf_generator_version m = GENERATOR_VERSION) ValueError,
        require_seed (mf_seed m),
        require_seed (mf_command_count m),
        guardR (mf_command_count m = ws_command_count (mf_spec m)) ValueError,
        require_digest (mf_command_stream_sha256 m),
        guardR (st_command_count stats = mf_command_count m) ValueError,
        guardR (st_intended_valid stats + st_intended_invalid stats = mf_command_count m) ValueError,
        guardR (st_new_orders stats + st_cancels stats + st_replaces stats = mf_command_count m) ValueError,
        guardR (sum_list (map snd (st_intents stats)) = mf_command_count m) ValueError,
        guardR (names = sort names \<and> distinct names \<and> list_all (\<lambda>(name, n). name \<noteq> [] \<and> 1 \<le> n) (st_intents stats)) ValueError])"

definition WorkloadManifest :: "workload_manifest \<Rightarrow> workload_manifest result" where
  "WorkloadManifest m = bindR (check_manifest m) (\<lambda>_. Inr m)"

definition native_input :: "workload_manifest \<Rightarrow> native_input_config result" where
  "native_input m = NativeInputConfig (ws_instrument_id (mf_spec m)) (ws_engine (mf_spec m)) (ws_snapshot_interval (mf_spec m))"

definition manifest_to_dict :: "workload_manifest \<Rightarrow> (string \<times> json) list" where
  "manifest_to_dict m =
     (let stats = mf_stats m in
      [(''schema'', JStr WORKLOAD_MANIFEST_SCHEMA), (''generator_version'', JInt (mf_generator_version m)),
       (''seed'', jnum (mf_seed m)), (''spec'', spec_to_dict (mf_spec m)), (''command_count'', jnum (mf_command_count m)),
       (''command_stream_sha256'', JStr (mf_command_stream_sha256 m)),
       (''intent_counts'', JObj
         [(''intended_valid'', jnum (st_intended_valid stats)), (''intended_invalid'', jnum (st_intended_invalid stats)),
          (''new_orders'', jnum (st_new_orders stats)), (''cancels'', jnum (st_cancels stats)), (''replaces'', jnum (st_replaces stats)),
          (''intents'', JObj (map (\<lambda>(name, n). (name, jnum n)) (st_intents stats)))])])"

definition intents_from_dict :: "(string \<times> json) list \<Rightarrow> (string \<times> int) list result" where
  "intents_from_dict kvs = bindR (mapR (\<lambda>(name, v). bindR (decimal_field v) (\<lambda>n. Inr (name, n))) kvs) (\<lambda>xs. Inr (sort xs))"

definition manifest_from_dict :: "(string \<times> json) list \<Rightarrow> workload_manifest result" where
  "manifest_from_dict kvs =
     (let item = get_key (JObj kvs) in
      bindR (require_keys kvs [''schema'', ''generator_version'', ''seed'', ''spec'', ''command_count'', ''command_stream_sha256'',
        ''intent_counts'']) (\<lambda>_.
      bindR (guardR (item ''schema'' = JStr WORKLOAD_MANIFEST_SCHEMA) ValueError) (\<lambda>_.
      bindR (json_mapping (item ''intent_counts'')) (\<lambda>cs.
      bindR (require_keys cs [''intended_valid'', ''intended_invalid'', ''new_orders'', ''cancels'', ''replaces'', ''intents'']) (\<lambda>_.
      bindR (decimal_field (item ''command_count'')) (\<lambda>command_count.
      bindR (decimal_field (get_key (JObj cs) ''intended_valid'')) (\<lambda>valid.
      bindR (decimal_field (get_key (JObj cs) ''intended_invalid'')) (\<lambda>invalid.
      bindR (decimal_field (get_key (JObj cs) ''new_orders'')) (\<lambda>news.
      bindR (decimal_field (get_key (JObj cs) ''cancels'')) (\<lambda>cancels.
      bindR (decimal_field (get_key (JObj cs) ''replaces'')) (\<lambda>replaces.
      bindR (bindR (json_mapping (get_key (JObj cs) ''intents'')) intents_from_dict) (\<lambda>intents.
      bindR (json_int (item ''generator_version'')) (\<lambda>version.
      bindR (decimal_field (item ''seed'')) (\<lambda>seed.
      bindR (bindR (json_mapping (item ''spec'')) spec_from_dict) (\<lambda>sp.
      bindR (json_string (item ''command_stream_sha256'')) (\<lambda>digest.
      WorkloadManifest \<lparr>mf_generator_version = version, mf_seed = seed, mf_spec = sp, mf_command_count = command_count,
        mf_command_stream_sha256 = digest,
        mf_stats = \<lparr>st_command_count = command_count, st_intended_valid = valid, st_intended_invalid = invalid,
          st_new_orders = news, st_cancels = cancels, st_replaces = replaces, st_intents = intents\<rparr>\<rparr>))))))))))))))))"

section \<open>Workload files\<close>

record workload_reader =
  wr_text :: string
  wr_config :: native_input_config

definition lf_line :: "string \<Rightarrow> string result" where
  "lf_line raw =
     (if raw = [] \<or> last raw \<noteq> CHR 0x0A then Inl ValueError
      else if butlast raw \<noteq> [] \<and> last (butlast raw) = CHR 0x0D then Inl ValueError
      else Inr (butlast raw))"

definition read_command :: "string \<Rightarrow> command result" where
  "read_command raw =
     bindR (lf_line raw) (\<lambda>line.
     bindR (decode_command line) (\<lambda>cmd.
     bindR (encode_command cmd) (\<lambda>canonical.
     if canonical \<noteq> line then Inl ValueError else Inr cmd)))"

text \<open>\<open>commands()\<close> of a reader, drained up to \<open>limit\<close> commands when one is given.\<close>

definition reader_commands :: "nat option \<Rightarrow> workload_reader \<Rightarrow> command list result" where
  "reader_commands limit r =
     (case py_lines (wr_text r) of
        [] \<Rightarrow> Inl ValueError
      | first_raw # ls \<Rightarrow>
          bindR (lf_line first_raw) (\<lambda>line.
          bindR (decode_header line) (\<lambda>decoded.
          if decoded \<noteq> wr_config r then Inl ValueError
          else mapR read_command (case limit of None \<Rightarrow> ls | Some n \<Rightarrow> take n ls))))"

definition open_workload :: "string \<Rightarrow> workload_reader result" where
  "open_workload contents =
     (case py_lines contents of
        [] \<Rightarrow> Inl ValueError
      | first_raw # _ \<Rightarrow>
          bindR (lf_line first_raw) (\<lambda>line.
          bindR (decode_header line) (\<lambda>config.
          if encode_header config \<noteq> line then Inl ValueError
          else Inr \<lparr>wr_text = contents, wr_config = config\<rparr>)))"

definition verify_workload :: "(bytes \<Rightarrow> string) \<Rightarrow> string \<Rightarrow> workload_manifest \<Rightarrow> workload_reader result" where
  "verify_workload sha256 contents m =
     bindR (guardR (sha256 (ascii_bytes contents) = mf_command_stream_sha256 m) ValueError) (\<lambda>_.
     bindR (open_workload contents) (\<lambda>r.
     bindR (native_input m) (\<lambda>c.
     bindR (guardR (wr_config r = c) ValueError) (\<lambda>_.
     bindR (reader_commands None r) (\<lambda>cmds.
     bindR (guardR (int (length cmds) = mf_command_count m) ValueError) (\<lambda>_. Inr r))))))"

text \<open>The loop of \<open>generate_workload\<close>: each command is encoded before the generator is asked for the next.\<close>

function write_generated :: "workload_generator \<Rightarrow> string result \<times> workload_generator" where
  "write_generated g =
     (case next_generated g of
        (Inl e, g') \<Rightarrow> (if e = StopIteration then Inr [] else Inl e, g')
      | (Inr gc, g') \<Rightarrow>
          (case encode_command (gc_command gc) of
             Inl e \<Rightarrow> (Inl e, g')
           | Inr line \<Rightarrow>
               (case write_generated g' of
                  (Inl e, g'') \<Rightarrow> (Inl e, g'')
                | (Inr written, g'') \<Rightarrow> (Inr (line @ [CHR 0x0A] @ written), g''))))"
  by pat_completeness auto
termination
  by (relation "measure (\<lambda>g. nat (ws_command_count (gen_spec g) - gen_count g))")
    (auto dest!: sym [of _ "next_generated _"] simp: next_generated_counts)

declare write_generated.simps [simp del]

definition generate_workload :: "(bytes \<Rightarrow> string) \<Rightarrow> workload_spec \<Rightarrow> int \<Rightarrow> (string \<times> workload_manifest) result" where
  "generate_workload sha256 sp seed =
     bindR (iter_generated sp seed) (\<lambda>g.
     bindR (NativeInputConfig (ws_instrument_id sp) (ws_engine sp) (ws_snapshot_interval sp)) (\<lambda>c.
     case write_generated g of
       (Inl e, _) \<Rightarrow> Inl e
     | (Inr written, g') \<Rightarrow>
         (let contents = encode_header c @ [CHR 0x0A] @ written in
          bindR (WorkloadManifest \<lparr>mf_generator_version = GENERATOR_VERSION, mf_seed = seed, mf_spec = sp,
            mf_command_count = ws_command_count sp, mf_command_stream_sha256 = sha256 (ascii_bytes contents),
            mf_stats = generator_stats g'\<rparr>) (\<lambda>m. Inr (contents, m)))))"

section \<open>Campaign suites\<close>

record campaign_case =
  cs_name :: string
  cs_seed :: int
  cs_spec :: workload_spec

definition CampaignCase :: "campaign_case \<Rightarrow> campaign_case result" where
  "CampaignCase c =
     bindR (guardR (cs_name c \<noteq> [] \<and> \<not> list_ex py_isspace (cs_name c)) ValueError) (\<lambda>_.
     bindR (require_seed (cs_seed c)) (\<lambda>_. Inr c))"

datatype campaign_tier = TIER_PR | TIER_MAIN | TIER_NIGHTLY | TIER_RELEASE | TIER_RELEASE_SANITIZER

fun tier_name :: "campaign_tier \<Rightarrow> string" where
  "tier_name TIER_PR = ''pr''"
| "tier_name TIER_MAIN = ''main''"
| "tier_name TIER_NIGHTLY = ''nightly''"
| "tier_name TIER_RELEASE = ''release''"
| "tier_name TIER_RELEASE_SANITIZER = ''release_sanitizer''"

definition all_tiers :: "campaign_tier list" where
  "all_tiers = [TIER_PR, TIER_MAIN, TIER_NIGHTLY, TIER_RELEASE, TIER_RELEASE_SANITIZER]"

record campaign_suite =
  su_name :: string
  su_tier :: campaign_tier
  su_mode :: output_mode
  su_cases :: "campaign_case list"

definition CampaignSuite :: "campaign_suite \<Rightarrow> campaign_suite result" where
  "CampaignSuite s =
     bindR (guardR (su_name s \<noteq> []) ValueError) (\<lambda>_.
     bindR (guardR (su_cases s \<noteq> []) ValueError) (\<lambda>_.
     bindR (guardR (distinct (map cs_name (su_cases s))) ValueError) (\<lambda>_. Inr s)))"

definition case_to_dict :: "campaign_case \<Rightarrow> json" where
  "case_to_dict c = JObj [(''name'', JStr (cs_name c)), (''seed'', jnum (cs_seed c)), (''spec'', spec_to_dict (cs_spec c))]"

definition suite_to_dict :: "campaign_suite \<Rightarrow> (string \<times> json) list" where
  "suite_to_dict s =
     [(''schema'', JStr CAMPAIGN_SUITE_SCHEMA), (''name'', JStr (su_name s)), (''tier'', JStr (tier_name (su_tier s))),
      (''mode'', JStr (mode_name (su_mode s))), (''cases'', JList (map case_to_dict (su_cases s)))]"

definition case_from_dict :: "json \<Rightarrow> campaign_case result" where
  "case_from_dict v =
     bindR (json_mapping v) (\<lambda>kvs.
     bindR (require_keys kvs [''name'', ''seed'', ''spec'']) (\<lambda>_.
     bindR (json_string (get_key v ''name'')) (\<lambda>name.
     bindR (decimal_field (get_key v ''seed'')) (\<lambda>seed.
     bindR (bindR (json_mapping (get_key v ''spec'')) spec_from_dict) (\<lambda>sp.
     CampaignCase \<lparr>cs_name = name, cs_seed = seed, cs_spec = sp\<rparr>)))))"

definition suite_from_dict :: "(string \<times> json) list \<Rightarrow> campaign_suite result" where
  "suite_from_dict kvs =
     (let item = get_key (JObj kvs) in
      bindR (require_keys kvs [''schema'', ''name'', ''tier'', ''mode'', ''cases'']) (\<lambda>_.
      bindR (guardR (item ''schema'' = JStr CAMPAIGN_SUITE_SCHEMA) ValueError) (\<lambda>_.
      bindR (case item ''cases'' of JList vs \<Rightarrow> mapR case_from_dict vs | _ \<Rightarrow> Inl ValueError) (\<lambda>cases.
      bindR (bindR (json_string (item ''tier'')) (member_of tier_name all_tiers)) (\<lambda>tier.
      bindR (bindR (json_string (item ''mode'')) (member_of mode_name [EXACT, COMPACT])) (\<lambda>mode.
      bindR (json_string (item ''name'')) (\<lambda>name.
      CampaignSuite \<lparr>su_name = name, su_tier = tier, su_mode = mode, su_cases = cases\<rparr>)))))))"

definition mapping_digest :: "(bytes \<Rightarrow> string) \<Rightarrow> (string \<times> json) list \<Rightarrow> string" where
  "mapping_digest sha256 kvs = sha256 (ascii_bytes (canonical_json (JObj kvs)))"

end
