(* ===== verification/Campaigns.thy ===== *)
theory Campaigns
  imports Workload_Files
begin

text \<open>
  Runs over workload files from \<open>python/src/atlaslob/differential.py\<close>: a fixture with an optional manifest,
  the exact rerun of a divergent prefix, a campaign case and a campaign suite.  The native executable is
  the parameter \<open>native\<close>: what a process started with a mode on a workload prints, its exit code and
  whether its standard error stays empty.
\<close>

type_synonym native_process = "output_mode \<Rightarrow> string \<Rightarrow> native_record list \<times> int \<times> bool"

definition capture_failure_result :: "(bytes \<Rightarrow> string) \<Rightarrow> py_error \<Rightarrow> native_comparison" where
  "capture_failure_result sha256 e =
     \<lparr>cmp_status = HARNESS_ERROR e, cmp_commands_compared = 0, cmp_classifications = no_counts, cmp_evidence_digest = sha256 []\<rparr>"

text \<open>
  \<open>run_fixture\<close> on a file.  The source decodes the commands while the reference pass runs; a decoded command
  never makes that pass raise, so the first error is the same when they are decoded beforehand.
\<close>

definition run_fixture_file ::
  "(bytes \<Rightarrow> string) \<Rightarrow> evidence_transformer option \<Rightarrow> output_mode \<Rightarrow> workload_manifest result option \<Rightarrow> native_process \<Rightarrow> string \<Rightarrow> native_comparison" where
  "run_fixture_file sha256 transformer mode manifest native contents =
     (case bindR (case manifest of
             None \<Rightarrow> Inr ()
           | Some loaded \<Rightarrow> bindR loaded (\<lambda>m. bindR (verify_workload sha256 contents m) (\<lambda>_. Inr ()))) (\<lambda>_.
           bindR (open_workload contents) (\<lambda>r.
           bindR (reader_commands None r) (\<lambda>cmds. Inr (wr_config r, cmds)))) of
        Inl e \<Rightarrow> capture_failure_result sha256 e
      | Inr (c, cmds) \<Rightarrow>
          (case native mode contents of (recs, code, clean) \<Rightarrow> run_fixture sha256 transformer mode c cmds recs code clean))"

text \<open>The workload of an exact rerun: the commands up to the failing one, with a snapshot behind it.\<close>

definition prefix_workload :: "int option \<Rightarrow> string \<Rightarrow> string result" where
  "prefix_workload failing contents =
     bindR (open_workload contents) (\<lambda>r.
     bindR (NativeInputConfig (ni_instrument_id (wr_config r)) (ni_engine (wr_config r))
       (case failing of None \<Rightarrow> ni_snapshot_interval (wr_config r) | Some index \<Rightarrow> index + 1)) (\<lambda>c.
     bindR (reader_commands (map_option (\<lambda>index. nat (index + 1)) failing) r) (\<lambda>cmds.
     bindR (encode_stream c cmds) (\<lambda>written.
     if (case failing of None \<Rightarrow> False | Some index \<Rightarrow> int (length cmds) \<noteq> index + 1) then Inl ValueError
     else Inr written))))"

definition rerun_exact_prefix :: "(bytes \<Rightarrow> string) \<Rightarrow> native_process \<Rightarrow> string \<Rightarrow> int option \<Rightarrow> native_comparison result" where
  "rerun_exact_prefix sha256 native contents failing =
     (if (case failing of None \<Rightarrow> False | Some index \<Rightarrow> index < 0 \<or> index \<ge> 2 ^ 64 - 1) then Inl ValueError
      else Inr (case prefix_workload failing contents of
        Inl e \<Rightarrow> capture_failure_result sha256 e
      | Inr written \<Rightarrow> run_fixture_file sha256 None EXACT None native written))"

text \<open>\<open>run_case\<close> writes the manifest and \<open>run_fixture\<close> reads it back: its dictionary is rebuilt from its value.\<close>

definition run_case :: "(bytes \<Rightarrow> string) \<Rightarrow> native_process \<Rightarrow> output_mode \<Rightarrow> campaign_case \<Rightarrow> native_comparison result" where
  "run_case sha256 native mode c =
     bindR (generate_workload sha256 (cs_spec c) (cs_seed c)) (\<lambda>(contents, m).
     Inr (run_fixture_file sha256 None mode (Some (manifest_from_dict (manifest_to_dict m))) native contents))"

record campaign_suite_result =
  sr_name :: string
  sr_cases :: "native_comparison list"

definition case_passed :: "native_comparison \<Rightarrow> bool" where
  "case_passed r \<longleftrightarrow> (case cmp_status r of PASSED \<Rightarrow> True | _ \<Rightarrow> False)"

definition suite_passed :: "campaign_suite_result \<Rightarrow> bool" where
  "suite_passed r = list_all case_passed (sr_cases r)"

definition run_suite :: "(bytes \<Rightarrow> string) \<Rightarrow> native_process \<Rightarrow> campaign_suite \<Rightarrow> campaign_suite_result result" where
  "run_suite sha256 native s =
     bindR (mapR (run_case sha256 native (su_mode s)) (su_cases s)) (\<lambda>rs. Inr \<lparr>sr_name = su_name s, sr_cases = rs\<rparr>)"

end
