(* ===== verification/Faults.thy ===== *)
theory Faults
  imports Campaigns
begin

text \<open>
  The development-only evidence faults of \<open>python/src/atlaslob/faults.py\<close>: an injector alters a copy of a
  native evidence value after the decoder has accepted the record, so that a comparison over it must find
  the alteration.  A mutation in place is the altered value here; a function that returns whether it
  mutated returns the altered value or \<open>None\<close>.
\<close>

datatype fault_name = NEWEST_AT_PRICE | INCOMING_TRADE_PRICE | STALE_PARTIAL_AGGREGATE

text \<open>\<open>mapping[key] = value\<close>.\<close>

definition put_key :: "string \<Rightarrow> json \<Rightarrow> json \<Rightarrow> json" where
  "put_key k v m =
     (case m of
        JObj kvs \<Rightarrow>
          JObj (if k \<in> set (map fst kvs) then map (\<lambda>(k', u). (k', if k' = k then v else u)) kvs else kvs @ [(k, v)])
      | _ \<Rightarrow> m)"

text \<open>A loop that alters the first element it can and stops.\<close>

fun update_first :: "('a \<Rightarrow> 'a option) \<Rightarrow> 'a list \<Rightarrow> 'a list option" where
  "update_first f [] = None"
| "update_first f (x # xs) = (case f x of Some y \<Rightarrow> Some (y # xs) | None \<Rightarrow> map_option ((#) x) (update_first f xs))"

definition result_evidence :: "json \<Rightarrow> json option" where
  "result_evidence record =
     (if get_key record ''kind'' \<noteq> JStr ''result'' then None
      else case get_key record ''evidence'' of JObj kvs \<Rightarrow> Some (JObj kvs) | _ \<Rightarrow> None)"

definition evidence_snapshot :: "json \<Rightarrow> json option" where
  "evidence_snapshot evidence = (case get_key evidence ''snapshot'' of JObj kvs \<Rightarrow> Some (JObj kvs) | _ \<Rightarrow> None)"

definition evidence_events :: "json \<Rightarrow> json list option" where
  "evidence_events evidence = (case get_key evidence ''events'' of JList es \<Rightarrow> Some es | _ \<Rightarrow> None)"

fun is_mapping :: "json \<Rightarrow> bool" where
  "is_mapping (JObj _) = True"
| "is_mapping _ = False"

definition swap_ends :: "'a list \<Rightarrow> 'a list" where
  "swap_ends xs = xs[0 := last xs, length xs - 1 := hd xs]"

definition newest_level :: "json \<Rightarrow> json option" where
  "newest_level level =
     (if \<not> is_mapping level then None
      else case get_key level ''orders'' of
        JList os \<Rightarrow> if 2 \<le> length os then Some (put_key ''orders'' (JList (swap_ends os)) level) else None
      | _ \<Rightarrow> None)"

definition inject_newest_at_price :: "json \<Rightarrow> json option" where
  "inject_newest_at_price evidence =
     (case evidence_snapshot evidence of
        None \<Rightarrow> None
      | Some snap \<Rightarrow>
          map_option (\<lambda>snap'. put_key ''snapshot'' snap' evidence)
            (first_some (map (\<lambda>side.
               case get_key snap side of
                 JList levels \<Rightarrow> map_option (\<lambda>ls. put_key side (JList ls) snap) (update_first newest_level levels)
               | _ \<Rightarrow> None) [''bids'', ''asks''])))"

definition incoming_price :: "command option \<Rightarrow> int option" where
  "incoming_price cmd =
     (case cmd of
        Some (NewOrder c) \<Rightarrow> new_limit_price c
      | Some (ReplaceOrder c) \<Rightarrow> Some (rep_new_limit_price c)
      | _ \<Rightarrow> None)"

definition reprice_trade :: "int \<Rightarrow> json \<Rightarrow> json option" where
  "reprice_trade price event =
     (if \<not> is_mapping event \<or> get_key event ''type'' \<noteq> JStr ''trade'' then None
      else if get_key event ''execution_price'' \<noteq> jnum price then Some (put_key ''execution_price'' (jnum price) event)
      else None)"

definition inject_incoming_trade_price :: "command option \<Rightarrow> json \<Rightarrow> json option" where
  "inject_incoming_trade_price cmd evidence =
     (case incoming_price cmd of
        None \<Rightarrow> None
      | Some price \<Rightarrow>
          (case evidence_events evidence of
             None \<Rightarrow> None
           | Some es \<Rightarrow> map_option (\<lambda>es'. put_key ''events'' (JList es') evidence) (update_first (reprice_trade price) es)))"

definition decimal_text :: "json \<Rightarrow> int option" where
  "decimal_text v =
     (case v of
        JStr t \<Rightarrow> if t = [] \<or> (t \<noteq> ''0'' \<and> hd t = CHR ''0'') \<or> \<not> list_all is_digit t then None else Some (py_int t)
      | _ \<Rightarrow> None)"

definition inflate_level :: "string \<Rightarrow> int \<Rightarrow> json \<Rightarrow> json option" where
  "inflate_level oid quantity level =
     (if \<not> is_mapping level then None
      else case (get_key level ''orders'', decimal_text (get_key level ''aggregate_quantity'')) of
        (JList os, Some aggregate) \<Rightarrow>
          if list_ex (\<lambda>x. is_mapping x \<and> get_key x ''order_id'' = JStr oid) os
          then Some (put_key ''aggregate_quantity'' (jnum (aggregate + quantity)) level) else None
      | _ \<Rightarrow> None)"

text \<open>One event of the loop: the snapshot with the stale aggregate, if this partial fill gives one.\<close>

definition stale_snapshot :: "json \<Rightarrow> json \<Rightarrow> json option" where
  "stale_snapshot snap event =
     (if \<not> is_mapping event \<or> get_key event ''type'' \<noteq> JStr ''trade'' then None
      else case (decimal_text (get_key event ''resting_remaining''), decimal_text (get_key event ''execution_quantity''),
                 get_key event ''resting_order_id'') of
        (Some remaining, Some quantity, JStr oid) \<Rightarrow>
          if remaining = 0 \<or> quantity = 0 \<or> get_key event ''aggressor_side'' \<notin> {JStr ''buy'', JStr ''sell''} then None
          else let side = (if get_key event ''aggressor_side'' = JStr ''buy'' then ''asks'' else ''bids'') in
            (case get_key snap side of
               JList levels \<Rightarrow> map_option (\<lambda>ls. put_key side (JList ls) snap) (update_first (inflate_level oid quantity) levels)
             | _ \<Rightarrow> None)
      | _ \<Rightarrow> None)"

definition inject_stale_partial_aggregate :: "json \<Rightarrow> json option" where
  "inject_stale_partial_aggregate evidence =
     (case (evidence_events evidence, evidence_snapshot evidence) of
        (Some es, Some snap) \<Rightarrow> map_option (\<lambda>snap'. put_key ''snapshot'' snap' evidence) (first_some (map (stale_snapshot snap) es))
      | _ \<Rightarrow> None)"

definition FaultInjector :: "fault_name \<Rightarrow> evidence_transformer" where
  "FaultInjector fault cmd record =
     (case result_evidence record of
        None \<Rightarrow> record
      | Some evidence \<Rightarrow>
          (case (case fault of
             NEWEST_AT_PRICE \<Rightarrow> inject_newest_at_price evidence
           | INCOMING_TRADE_PRICE \<Rightarrow> inject_incoming_trade_price cmd evidence
           | STALE_PARTIAL_AGGREGATE \<Rightarrow> inject_stale_partial_aggregate evidence) of
             None \<Rightarrow> record
           | Some evidence' \<Rightarrow> put_key ''evidence'' evidence' record))"

definition run_injected_fault ::
  "(bytes \<Rightarrow> string) \<Rightarrow> native_process \<Rightarrow> native_input_config \<Rightarrow> command list \<Rightarrow> fault_name \<Rightarrow> native_comparison result" where
  "run_injected_fault sha256 native c cmds fault =
     bindR (encode_stream c cmds) (\<lambda>written.
     Inr (run_fixture_file sha256 (Some (FaultInjector fault)) EXACT None native written))"

definition injected_fault_signature ::
  "(bytes \<Rightarrow> string) \<Rightarrow> native_process \<Rightarrow> native_input_config \<Rightarrow> command list \<Rightarrow> fault_name \<Rightarrow> failure_signature option result" where
  "injected_fault_signature sha256 native c cmds fault =
     bindR (run_injected_fault sha256 native c cmds fault) (\<lambda>out.
     case cmp_status out of
       HARNESS_ERROR _ \<Rightarrow> Inl RuntimeError
     | DIVERGED d \<Rightarrow> Inr (Some (dv_signature d))
     | PASSED \<Rightarrow> Inr None)"

end
