(* ===== verification/Evidence_Complete.thy ===== *)
theory Evidence_Complete
  imports Evidence_Checks Canonical_Properties
begin

text \<open>
  The evidence checks raise no false alarms: what the reference engine reports passes every one of
  them.  The lemmas follow the checks: events one by one, the envelope of a batch, the observers and the
  snapshot of a state, the agreement with the configuration, the previous record and the command.
\<close>

section \<open>Passing a list of checks\<close>

declare cat.simps(2) [simp del]

lemma width_signs [simp]: "0 \<le> U32_MAX" "0 \<le> U64_MAX" "I64_MIN \<le> 0" "0 \<le> I64_MAX"
  by (simp_all add: width_defs)

lemma reject_if_passes [simp]: "reject_if bad = Inr u \<longleftrightarrow> \<not> bad"
  by (simp add: reject_if_def)

lemma reject_if_eqs [simp]: "reject_if False = Inr ()" "reject_if True = Inl NativeProtocolError"
  by (simp_all add: reject_if_def guardR_def)

lemma check_all_Nil [simp]: "check_all [] = Inr ()"
  by (simp add: check_all_def)

lemma check_all_Cons: "check_all (c # cs) = Inr u \<longleftrightarrow> c = Inr () \<and> check_all cs = Inr ()"
  by (cases c) (simp_all add: check_all_def)

lemma check_all_skip [simp]: "check_all (Inr () # cs) = check_all cs"
  by (simp add: check_all_def)

lemma check_all_passes [simp]: "check_all cs = Inr u \<longleftrightarrow> (\<forall>c \<in> set cs. c = Inr ())"
  by (induction cs) (auto simp: check_all_Cons)

section \<open>Events in range\<close>

definition quantity_in :: "matching_config \<Rightarrow> int \<Rightarrow> bool" where
  "quantity_in c q \<longleftrightarrow> 0 \<le> q \<and> q \<le> max_order_quantity c"

definition price_in :: "matching_config \<Rightarrow> int \<Rightarrow> bool" where
  "price_in c p \<longleftrightarrow> 1 \<le> p \<and> p \<le> I64_MAX \<and> p mod tick_increment c = 0"

definition order_id_in :: "int \<Rightarrow> bool" where
  "order_id_in i \<longleftrightarrow> 1 \<le> i \<and> i \<le> U64_MAX"

definition client_id_in :: "int \<Rightarrow> bool" where
  "client_id_in i \<longleftrightarrow> 1 \<le> i \<and> i \<le> U32_MAX"

lemmas range_defs = quantity_in_def price_in_def order_id_in_def client_id_in_def

definition top_in :: "matching_config \<Rightarrow> top_of_book_level option \<Rightarrow> bool" where
  "top_in c t = (case t of
     None \<Rightarrow> True
   | Some l \<Rightarrow> price_in c (top_price l) \<and> 1 \<le> top_aggregate_quantity l \<and> top_aggregate_quantity l \<le> U64_MAX)"

definition tops_in :: "matching_config \<Rightarrow> top_of_book_level option \<Rightarrow> top_of_book_level option \<Rightarrow> bool" where
  "tops_in c bid ask \<longleftrightarrow> top_in c bid \<and> top_in c ask \<and>
     (case (bid, ask) of (Some b, Some a) \<Rightarrow> top_price b < top_price a | _ \<Rightarrow> True)"

fun event_in :: "matching_config \<Rightarrow> event \<Rightarrow> bool" where
  "event_in c (AcceptedEvent h ct) = True"
| "event_in c (RejectedEvent h ct reason oid) = (case oid of None \<Rightarrow> True | Some i \<Rightarrow> order_id_in i)"
| "event_in c (TradeEvent h b) =
     (order_id_in (aggressor_order_id b) \<and> order_id_in (resting_order_id b) \<and>
      client_id_in (aggressor_client_id b) \<and> client_id_in (resting_client_id b) \<and>
      price_in c (execution_price b) \<and> execution_quantity b \<noteq> 0 \<and> quantity_in c (execution_quantity b) \<and>
      quantity_in c (aggressor_remaining b) \<and> quantity_in c (resting_remaining b))"
| "event_in c (RestedEvent h b) =
     (order_id_in (rested_order_id b) \<and> client_id_in (rested_client_id b) \<and> price_in c (rested_price b) \<and>
      rested_remaining_quantity b \<noteq> 0 \<and> quantity_in c (rested_remaining_quantity b))"
| "event_in c (CanceledEvent h oid quantity) = (order_id_in oid \<and> quantity \<noteq> 0 \<and> quantity_in c quantity)"
| "event_in c (ReplacedEvent h old_id new_id) = (order_id_in old_id \<and> order_id_in new_id \<and> old_id \<noteq> new_id)"
| "event_in c (DoneEvent h oid reason remaining) =
     (order_id_in oid \<and> quantity_in c remaining \<and> (reason = FILLED \<longleftrightarrow> remaining = 0))"
| "event_in c (BookChangedEvent h bid ask) = tops_in c bid ask"

lemma tops_in_pair: "tops_in c bid ask \<Longrightarrow> validate_top_pair bid ask = Inr ()"
  by (auto simp: tops_in_def top_in_def price_in_def validate_top_pair_def top_bad_def split: option.splits)

lemma event_in_payload: "event_in c e \<Longrightarrow> validate_event_payload e = Inr ()"
  by (cases e) (auto simp: range_defs tops_in_pair)

lemma event_in_config:
  assumes "event_in (ni_engine c) e"
  shows "\<not> (\<exists>p \<in> set (event_prices e). misaligned c p)"
    and "\<not> (\<exists>q \<in> set (event_quantities e). q > max_order_quantity (ni_engine c))"
  using assms
  by (cases e; auto simp: range_defs misaligned_def tops_in_def top_in_def split: option.splits)+

lemma events_in_config: "(\<forall>e \<in> set es. event_in (ni_engine c) e) \<Longrightarrow> validate_events_against_config es c = Inr ()"
  using event_in_config by (fastforce simp: validate_events_against_config_def)

lemma optional_top_encodes: "top_in c t \<Longrightarrow> returns (optional_top t)"
  by (auto simp: optional_top_def top_in_def price_in_def returns_cat I64_MIN_def split: option.splits)

lemma event_in_encodes:
  assumes "event_in c e" and "matching_config_ok c" and "0 \<le> command_sequence (event_header_of e)"
    "command_sequence (event_header_of e) \<le> U64_MAX" "0 \<le> event_index (event_header_of e)"
    "event_index (event_header_of e) \<le> U32_MAX" "0 \<le> hdr_instrument_id (event_header_of e)"
    "hdr_instrument_id (event_header_of e) \<le> U32_MAX"
  shows "returns (encode_event e)"
proof -
  have "returns (encode_event_payload e)"
    using assms(1,2)
    by (cases e) (auto simp: range_defs returns_cat tops_in_def optional_top_encodes optional_order_id_def
        matching_config_ok_def I64_MIN_def split: option.splits)
  with assms(3-) show ?thesis by (simp add: encode_event_def returns_cat Let_def)
qed

section \<open>The events of a step are in range\<close>

lemma accepted_new_terms:
  assumes "require_representable (NewOrder ord) = Inr ()" and "accepts_new c iid ord sq v"
  shows "new_order_ok c iid (side_of (new_side ord)) ord"
proof -
  have shape: "validate_new_shape ord = NONE" using assms(2) by (simp add: accepts_new_def)
  then have sd: "new_side ord = side_value (side_of (new_side ord))" "new_client_id ord \<noteq> 0" "new_order_id ord \<noteq> 0" "new_quantity ord \<noteq> 0"
    by (auto simp: validate_new_shape_def is_valid_side_def side_of_def split: if_splits)
  from shape have "new_order_type ord = order_type_value LIMIT \<and> (\<exists>p. new_limit_price ord = Some p \<and> 1 \<le> p) \<or>
      new_order_type ord = order_type_value MARKET \<and> new_limit_price ord = None"
    by (auto simp: validate_new_shape_def is_valid_order_type_def split: if_splits option.splits)
  moreover have "0 \<le> new_client_id ord" "new_client_id ord \<le> U32_MAX" "0 \<le> new_order_id ord" "new_order_id ord \<le> U64_MAX"
    "0 \<le> new_quantity ord" "new_limit_price ord = Some p \<Longrightarrow> p \<le> I64_MAX" for p
    using assms(1) by (auto simp: require_uint_def require_i64_def bindR_Inr_iff split: if_splits)
  ultimately show ?thesis using assms(2) sd by (auto simp: new_order_ok_def accepts_new_def)
qed

lemma accepted_replace_terms:
  assumes "require_representable (ReplaceOrder cmd) = Inr ()" and "accepts_replace c iid cmd sq v" and "view_ok c iid latest v"
    and "find_order (rep_old_order_id cmd) v = Some old"
  shows "new_order_ok c iid (ord_side old) (replacement_order cmd old)"
    and "order_ok c iid latest (ord_side old) old" and "rep_client_id cmd = ord_client_id old"
    and "order_id_in (rep_old_order_id cmd)" and "order_id_in (rep_new_order_id cmd)"
    and "rep_old_order_id cmd \<noteq> rep_new_order_id cmd"
proof -
  have shape: "validate_replace_shape cmd = NONE" using assms(2) by (simp add: accepts_replace_def)
  then have nz: "rep_old_order_id cmd \<noteq> 0" "rep_new_order_id cmd \<noteq> 0" "rep_new_quantity cmd \<noteq> 0" "1 \<le> rep_new_limit_price cmd"
    and "rep_old_order_id cmd \<noteq> rep_new_order_id cmd"
    by (auto simp: validate_replace_shape_def split: if_splits)
  then show "rep_old_order_id cmd \<noteq> rep_new_order_id cmd" by simp
  have r: "0 \<le> rep_old_order_id cmd" "rep_old_order_id cmd \<le> U64_MAX" "0 \<le> rep_new_order_id cmd" "rep_new_order_id cmd \<le> U64_MAX"
    "0 \<le> rep_new_quantity cmd" "rep_new_limit_price cmd \<le> I64_MAX"
    using assms(1) by (auto simp: require_uint_def require_i64_def bindR_Inr_iff split: if_splits)
  with nz show "order_id_in (rep_old_order_id cmd)" "order_id_in (rep_new_order_id cmd)" by (auto simp: order_id_in_def)
  show ok: "order_ok c iid latest (ord_side old) old"
    using find_order_in(1) [OF assms(4)] view_okD(2) [OF assms(3)] by (fastforce simp: order_ok_def)
  show "rep_client_id cmd = ord_client_id old" using assms(2,4) by (simp add: accepts_replace_def)
  show "new_order_ok c iid (ord_side old) (replacement_order cmd old)"
    using ok r nz assms(2) by (auto simp: new_order_ok_def replacement_order_def accepts_replace_def order_ok_def)
qed

lemma order_ok_in:
  assumes "order_ok c iid latest sd x"
  shows "order_id_in (ord_order_id x)" "client_id_in (ord_client_id x)" "price_in c (ord_price x)"
    "ord_remaining_quantity x \<noteq> 0" "quantity_in c (ord_remaining_quantity x)"
  using assms by (auto simp: order_ok_def range_defs)

lemma trade_events_in:
  assumes ok: "new_order_ok c iid sd ord" and "spec_match crossing n os = (fills, n', os')"
    and "\<forall>x \<in> set os. order_ok c iid latest sd' x" and "0 \<le> n" "n \<le> max_order_quantity c"
  shows "\<forall>e \<in> set (trade_events ord sd sq k n fills). event_in c e"
proof -
  have "\<forall>k. (\<forall>x \<in> set os. order_ok c iid latest sd' x) \<longrightarrow> 0 \<le> n \<longrightarrow> n \<le> max_order_quantity c \<longrightarrow>
      (\<forall>e \<in> set (trade_events ord sd sq k n fills). event_in c e)"
    using assms(2)
  proof (induction rule: spec_match_cases)
    case (full n x os fills n' os')
    then show ?case using ok order_ok_in [of c iid latest sd' x]
      by (auto simp: new_order_ok_def range_defs)
  next
    case (partial n x os)
    then show ?case using ok order_ok_in [of c iid latest sd' x]
      by (auto simp: new_order_ok_def range_defs)
  qed simp
  with assms show ?thesis by blast
qed

lemma terminal_event_in:
  assumes "new_order_ok c iid sd ord" and "0 \<le> n" "n \<le> max_order_quantity c"
  shows "event_in c (terminal_event ord sd sq k n)"
  using assms
  by (auto simp: terminal_event_def Let_def new_order_ok_def range_defs residual_rests_def split: option.splits bool.splits)

lemma level_quantity_front:
  assumes "view_ok c iid latest v" and "v sd = x # xs"
  shows "1 \<le> level_quantity (v sd) (ord_price x)" "level_quantity (v sd) (ord_price x) \<le> U64_MAX"
proof -
  have pos: "all_positive (v sd)" by (rule view_ok_positive [OF assms(1)])
  then have "0 \<le> level_quantity xs (ord_price x)"
    unfolding level_quantity_def by (intro total_quantity_nonneg) (simp add: assms(2))
  with pos show "1 \<le> level_quantity (v sd) (ord_price x)" by (simp add: assms(2) int_one_le_iff_zero_less)
  show "level_quantity (v sd) (ord_price x) \<le> U64_MAX" by (rule view_okD(5) [OF assms(1)])
qed

lemma side_top_in:
  assumes "view_ok c iid latest v"
  shows "top_in c (side_top (v sd))"
proof (cases "v sd")
  case (Cons x xs)
  then have "order_ok c iid latest sd x" using view_okD(2) [OF assms, of x sd] by simp
  from order_ok_in(3) [OF this] level_quantity_front [OF assms Cons] show ?thesis
    by (simp add: top_in_def side_top_def Cons)
qed (simp add: top_in_def side_top_def)

lemma view_top_in:
  assumes "view_ok c iid latest v"
  shows "tops_in c (best_bid (view_top v)) (best_ask (view_top v))"
  using side_top_in [OF assms, of BUY] side_top_in [OF assms, of SELL] view_okD(6) [OF assms]
  by (cases "v BUY"; cases "v SELL") (auto simp: tops_in_def view_top_def side_top_def)

lemma with_top_change_in:
  assumes "\<forall>e \<in> set es. event_in c e" and "view_ok c iid latest v'"
  shows "\<forall>e \<in> set (with_top_change iid' sq v v' es). event_in c e"
  using assms(1) view_top_in [OF assms(2)] by (auto simp: with_top_change_def)

lemma spec_aggress_in:
  assumes ok: "new_order_ok c iid sd ord" and v: "view_ok c iid latest v" and es: "\<forall>e \<in> set es. event_in c e"
    and spec: "spec_aggress iid' sd ord sq v0 v es = (evs, v')" and v': "view_ok c iid latest' v'"
  shows "\<forall>e \<in> set evs. event_in c e"
proof -
  obtain fills n os where m: "spec_match (limit_crosses sd (new_limit_price ord)) (new_quantity ord)
      (v (other_side sd)) = (fills, n, os)" by (metis prod_cases3)
  have q: "0 \<le> new_quantity ord" "new_quantity ord \<le> max_order_quantity c" using ok by (simp_all add: new_order_ok_def)
  have oks: "\<forall>x \<in> set (v (other_side sd)). order_ok c iid latest (other_side sd) x" using view_okD(2) [OF v] by blast
  note b = spec_match_bounds [OF m view_ok_positive [OF v] q(1)]
  obtain w where w: "spec_add sd ord sq v = (fills, n, w)" using m by (simp add: spec_add_def Let_def)
  with spec have w': "w = v'" by (auto simp: spec_aggress_def)
  have "\<forall>e \<in> set (es @ trade_events ord sd sq (length es) (new_quantity ord) fills @
      [terminal_event ord sd sq k n]). event_in c e" for k
    using es trade_events_in [OF ok m oks q] terminal_event_in [OF ok, of n sq k] b q(2) by auto
  from with_top_change_in [OF this v', of iid' sq v0] spec w w' show ?thesis
    by (auto simp: spec_aggress_def)
qed

definition oid_in :: "int option \<Rightarrow> bool" where
  "oid_in oid = (case oid of None \<Rightarrow> True | Some i \<Rightarrow> order_id_in i)"

lemma relevant_in: "0 \<le> i \<Longrightarrow> i \<le> U64_MAX \<Longrightarrow> oid_in (relevant i)"
  by (auto simp: relevant_def oid_in_def order_id_in_def)

lemma first_failure_oid: "first_failure checks = Some rj \<Longrightarrow> rej_order_id rj \<in> (snd \<circ> snd) ` set checks"
  by (induction checks rule: first_failure.induct) (auto split: if_splits)

lemma shape_then_in:
  assumes "first_failure ((bad, reason, oid) # checks) = Some rj" and "oid_in oid"
    and "\<not> bad \<Longrightarrow> \<forall>oid \<in> (snd \<circ> snd) ` set checks. oid_in oid"
  shows "oid_in (rej_order_id rj)"
  using assms first_failure_oid [of checks rj] by (auto split: if_splits)

lemma new_rejection_in:
  assumes "require_representable (NewOrder ord) = Inr ()" and "\<not> accepts_new c iid ord sq v"
  shows "\<exists>rj. spec_new c iid ord sq v = (spec_reject (new_instrument_id ord) sq NEW rj, v) \<and> oid_in (rej_order_id rj)"
proof -
  have r: "0 \<le> new_order_id ord" "new_order_id ord \<le> U64_MAX"
    using assms(1) by (auto simp: require_uint_def bindR_Inr_iff split: if_splits)
  have nz: "validate_new_shape ord = NONE \<Longrightarrow> new_order_id ord \<noteq> 0"
    by (auto simp: validate_new_shape_def split: if_splits)
  from assms(2) show ?thesis unfolding spec_new_def Let_def
    apply (split option.split)
    apply (intro conjI impI allI)
    subgoal by (auto simp: first_failure_None accepts_new_def not_less simp del: first_failure.simps split: option.splits)
    subgoal for rj
      apply (intro exI [of _ rj] conjI refl)
      apply (erule shape_then_in [OF _ relevant_in [OF r]])
      using r nz by (auto simp: oid_in_def order_id_in_def)
    done
qed

lemma cancel_rejection_in:
  assumes "require_representable (CancelOrder ord) = Inr ()" and "\<not> accepts_cancel iid ord v"
  shows "\<exists>rj. spec_cancel iid ord sq v = (spec_reject (cancel_instrument_id ord) sq CANCEL rj, v) \<and> oid_in (rej_order_id rj)"
proof -
  have r: "0 \<le> cancel_order_id ord" "cancel_order_id ord \<le> U64_MAX"
    using assms(1) by (auto simp: require_uint_def bindR_Inr_iff split: if_splits)
  have nz: "validate_cancel_shape ord = NONE \<Longrightarrow> cancel_order_id ord \<noteq> 0"
    by (auto simp: validate_cancel_shape_def split: if_splits)
  from assms(2) show ?thesis unfolding spec_cancel_def Let_def
    apply (split option.split)
    apply (intro conjI impI allI)
    subgoal by (auto simp: first_failure_None accepts_cancel_def simp del: first_failure.simps split: option.splits)
    subgoal for rj
      apply (intro exI [of _ rj] conjI refl)
      apply (erule shape_then_in [OF _ relevant_in [OF r]])
      using r nz by (auto simp: oid_in_def order_id_in_def)
    done
qed

lemma replace_rejection_in:
  assumes "require_representable (ReplaceOrder ord) = Inr ()" and "\<not> accepts_replace c iid ord sq v"
  shows "\<exists>rj. spec_replace c iid ord sq v = (spec_reject (rep_instrument_id ord) sq REPLACE rj, v) \<and> oid_in (rej_order_id rj)"
proof -
  have r: "0 \<le> rep_old_order_id ord" "rep_old_order_id ord \<le> U64_MAX" "0 \<le> rep_new_order_id ord" "rep_new_order_id ord \<le> U64_MAX"
    using assms(1) by (auto simp: require_uint_def bindR_Inr_iff split: if_splits)
  have nz: "validate_replace_shape ord = NONE \<Longrightarrow> rep_old_order_id ord \<noteq> 0 \<and> rep_new_order_id ord \<noteq> 0"
    by (auto simp: validate_replace_shape_def split: if_splits)
  have shape: "oid_in (rej_order_id (replace_shape_rejection ord reason))" for reason
    using relevant_in [OF r(1,2)] relevant_in [OF r(3,4)] by (simp add: replace_shape_rejection_def)
  from assms(2) show ?thesis unfolding spec_replace_def Let_def
    apply (split option.split)
    apply (intro conjI impI allI)
    subgoal by (auto simp: first_failure_None accepts_replace_def not_less simp del: first_failure.simps)
    subgoal for rj
      apply (intro exI [of _ rj] conjI refl)
      apply (erule shape_then_in [OF _ shape])
      using r nz by (auto simp: oid_in_def order_id_in_def)
    done
qed

lemma rejection_in:
  assumes "require_representable cmd = Inr ()" and "\<not> accepts c iid cmd sq v"
  obtains rj where "spec_step c iid cmd sq v = (spec_reject (command_instrument_id cmd) sq (command_type_of cmd) rj, v)"
    and "oid_in (rej_order_id rj)"
proof -
  have "\<exists>rj. spec_step c iid cmd sq v = (spec_reject (command_instrument_id cmd) sq (command_type_of cmd) rj, v) \<and>
    oid_in (rej_order_id rj)"
    using assms new_rejection_in [of _ c iid sq v] cancel_rejection_in [of _ iid v sq] replace_rejection_in [of _ c iid sq v]
    by (cases cmd) simp_all
  with that show ?thesis by blast
qed

lemma accepted_cancel_ok:
  assumes "accepts_cancel iid cmd v" and "view_ok c iid latest v"
  obtains ord where "find_order (cancel_order_id cmd) v = Some ord" and "ord_order_id ord = cancel_order_id cmd"
    and "order_ok c iid latest (ord_side ord) ord"
proof -
  from assms(1) obtain ord where f: "find_order (cancel_order_id cmd) v = Some ord"
    by (auto simp: accepts_cancel_def split: option.splits)
  moreover have "order_ok c iid latest (ord_side ord) ord"
    using find_order_in(1) [OF f] view_okD(2) [OF assms(2)] by (fastforce simp: order_ok_def)
  ultimately show ?thesis using that find_order_in(2) [OF f] by blast
qed

lemma step_events_in:
  assumes rep: "require_representable cmd = Inr ()" and v: "view_ok c iid latest v"
    and spec: "spec_step c iid cmd sq v = (es, v')" and v': "view_ok c iid latest' v'"
  shows "\<forall>e \<in> set es. event_in c e"
proof (cases "accepts c iid cmd sq v")
  case False
  obtain rj where "es = spec_reject (command_instrument_id cmd) sq (command_type_of cmd) rj" "oid_in (rej_order_id rj)"
    using rejection_in [OF rep False] spec by (metis fst_conv)
  then show ?thesis by (simp add: spec_reject_def oid_in_def)
next
  case acc: True
  show ?thesis
  proof (cases cmd)
    case (NewOrder ord)
    then have ok: "new_order_ok c iid (side_of (new_side ord)) ord" using accepted_new_terms rep acc by simp
    from spec_new_accepts [of c iid ord sq v] NewOrder acc spec have eq: "spec_aggress iid (side_of (new_side ord)) ord sq v v
        [AcceptedEvent \<lparr>command_sequence = sq, event_index = 0, hdr_instrument_id = iid\<rparr> NEW] = (es, v')" by simp
    show ?thesis by (rule spec_aggress_in [OF ok v _ eq v']) simp
  next
    case (CancelOrder ord)
    with acc v obtain x where x: "find_order (cancel_order_id ord) v = Some x" "ord_order_id x = cancel_order_id ord"
      "order_ok c iid latest (ord_side x) x" by (auto elim: accepted_cancel_ok)
    have "\<forall>e \<in> set (cancel_events ord sq (ord_remaining_quantity x)). event_in c e"
      using order_ok_in [OF x(3)] x(2) by (auto simp: cancel_events_def Let_def)
    from with_top_change_in [OF this v'] spec_cancel_accepts [of iid ord v sq] CancelOrder acc spec x(1)
    show ?thesis by auto
  next
    case (ReplaceOrder ord)
    with acc obtain old where old: "find_order (rep_old_order_id ord) v = Some old"
      by (auto simp: accepts_replace_def split: option.splits)
    note ok = accepted_replace_terms [OF _ _ v old, of sq]
    have "\<forall>e \<in> set (replace_events ord sq (ord_remaining_quantity old)). event_in c e"
      using ok(2,4-6) order_ok_in [of c iid latest "ord_side old" old] rep acc ReplaceOrder
      by (auto simp: replace_events_def Let_def)
    moreover have "view_ok c iid latest (spec_remove_order (rep_old_order_id ord) v)"
      by (rule view_ok_shrink [OF v]) (auto simp: spec_remove_order_def intro!: spec_remove_shrinks view_ok_positive [OF v])
    moreover have "new_order_ok c iid (ord_side old) (replacement_order ord old)" using ok(1) rep acc ReplaceOrder by simp
    moreover have "spec_aggress iid (ord_side old) (replacement_order ord old) sq v (spec_remove_order (rep_old_order_id ord) v)
        (replace_events ord sq (ord_remaining_quantity old)) = (es, v')"
      using spec_replace_accepts [OF _ old, of c iid sq] ReplaceOrder acc spec by simp
    ultimately show ?thesis using spec_aggress_in [OF _ _ _ _ v'] by blast
  qed
qed

section \<open>The envelope of a batch\<close>

lemma take_trades_app:
  "(\<forall>h b. e \<noteq> TradeEvent h b) \<Longrightarrow>
     take_trades (trade_events ord sd sq k n fills @ e # es) = (trade_bodies (trade_events ord sd sq k n fills), e # es)"
proof (induction fills arbitrary: k n)
  case Nil
  then show ?case by (cases e) auto
next
  case (Cons f fills)
  then show ?case by (cases f) simp
qed

definition closing :: "new_order \<Rightarrow> side \<Rightarrow> int \<Rightarrow> terminal" where
  "closing ord sd n =
     (case (new_limit_price ord, residual_rests ord n) of
        (Some p, True) \<Rightarrow> Rested \<lparr>rested_order_id = new_order_id ord, rested_client_id = new_client_id ord,
            rested_side = sd, rested_price = p, rested_remaining_quantity = n\<rparr>
      | _ \<Rightarrow> Done (new_order_id ord)
          (if n = 0 then FILLED else if new_order_type ord = order_type_value MARKET then MARKET_EXHAUSTED
           else IOC_RESIDUAL_CANCELED) n)"

lemma terminal_event_closing: "terminal_of (terminal_event ord sd sq k n) = Some (closing ord sd n)"
  by (auto simp: terminal_event_def closing_def Let_def split: option.splits bool.splits)

lemma terminal_event_no_trade: "terminal_event ord sd sq k n \<noteq> TradeEvent h b"
  by (auto simp: terminal_event_def Let_def split: option.splits bool.splits)

definition reported_top :: "view \<Rightarrow> view \<Rightarrow> (top_of_book_level option \<times> top_of_book_level option) option" where
  "reported_top v v' = (if view_top v = view_top v' then None else Some (best_bid (view_top v'), best_ask (view_top v')))"

lemma suffix_of_aggress:
  "trade_terminal_suffix (with_top_change iid sq v v' (es @ trade_events ord sd sq k n fills @ [terminal_event ord sd sq k' n']))
     (length es) =
   Inr (trade_bodies (trade_events ord sd sq k n fills), closing ord sd n', reported_top v v')"
  by (auto simp: trade_terminal_suffix_def with_top_change_def reported_top_def take_trades_app
      terminal_event_no_trade terminal_event_closing)

text \<open>
  Prices along one side run away from the touch; on the opposite side of an aggressor they only get
  worse for it.
\<close>

definition no_better :: "side \<Rightarrow> int \<Rightarrow> int \<Rightarrow> bool" where
  "no_better sd p q \<longleftrightarrow> (case sd of BUY \<Rightarrow> p \<le> q | SELL \<Rightarrow> q \<le> p)"

lemma rank_no_better: "rank (other_side sd) x < rank (other_side sd) y \<Longrightarrow> no_better sd (ord_price x) (ord_price y)"
  by (cases sd) (auto simp: rank_def price_key_def index_descending_def no_better_def less_prod_def)

definition ranked :: "side \<Rightarrow> order list \<Rightarrow> bool" where
  "ranked sd os \<longleftrightarrow> sorted_wrt (\<lambda>x y. no_better sd (ord_price x) (ord_price y)) os \<and> distinct (map ord_order_id os)"

lemma view_ok_ranked:
  assumes "view_ok c iid latest v"
  shows "ranked sd (v (other_side sd))"
proof -
  have "distinct (map ord_order_id (v (other_side sd)))" using view_okD(3) [OF assms] by (cases sd) simp_all
  moreover have "sorted_wrt (\<lambda>x y. no_better sd (ord_price x) (ord_price y)) (v (other_side sd))"
    using view_okD(1) [OF assms, of "other_side sd"]
    by (auto simp: sorted_wrt_map intro: sorted_wrt_mono_rel [rotated] rank_no_better)
  ultimately show ?thesis by (simp add: ranked_def)
qed

lemma trade_chain_passes:
  assumes "spec_match crossing n os = (fills, n', os')" and "ranked sd os"
    and "aggressor_order_id first = new_order_id ord" "aggressor_client_id first = new_client_id ord" "aggressor_side first = sd"
    and "set seen \<inter> ord_order_id ` set os = {}" and "is_first \<or> (\<forall>x \<in> set os. no_better sd p (ord_price x))"
  shows "trade_chain first is_first n seen p (trade_bodies (trade_events ord sd sq k n fills)) = Inr n'"
proof -
  have "\<forall>seen is_first p k. ranked sd os \<longrightarrow> set seen \<inter> ord_order_id ` set os = {} \<longrightarrow>
      is_first \<or> (\<forall>x \<in> set os. no_better sd p (ord_price x)) \<longrightarrow>
      trade_chain first is_first n seen p (trade_bodies (trade_events ord sd sq k n fills)) = Inr n'"
    using assms(1)
  proof (induction rule: spec_match_cases)
    case (full n x os fills n' os')
    show ?case
    proof (intro allI impI)
      fix seen :: "int list" and is_first p k
      assume a: "ranked sd (x # os)" "set seen \<inter> ord_order_id ` set (x # os) = {}"
        "is_first \<or> (\<forall>y \<in> set (x # os). no_better sd p (ord_price y))"
      then have "trade_chain first False (n - ord_remaining_quantity x) (ord_order_id x # seen) (ord_price x)
          (trade_bodies (trade_events ord sd sq (Suc k) (n - ord_remaining_quantity x) fills)) = Inr n'"
        using full.IH by (auto simp: ranked_def)
      with a full.hyps assms(3-5) show "trade_chain first is_first n seen p
          (trade_bodies (trade_events ord sd sq k n ((x, ord_remaining_quantity x) # fills))) = Inr n'"
        by (auto simp: bindR_Inr_iff no_better_def)
    qed
  next
    case (partial n x os)
    then show ?case using assms(3-5) by (auto simp: bindR_Inr_iff no_better_def)
  qed simp
  with assms show ?thesis by blast
qed

lemma closing_fields [simp]:
  "terminal_order_id (closing ord sd n) = new_order_id ord"
  "terminal_remaining (closing ord sd n) = n"
  by (auto simp: closing_def split: option.splits bool.splits)

lemma validate_chain_passes:
  assumes "spec_match crossing n os = (fills, n', os')" and "ranked sd os"
  shows "validate_trade_chain (trade_bodies (trade_events ord sd sq k n fills)) (closing ord sd n') = Inr ()"
proof (cases "trade_bodies (trade_events ord sd sq k n fills)")
  case (Cons first bs)
  then obtain x q fs where "fills = (x, q) # fs" by (cases fills) auto
  with Cons have f: "aggressor_order_id first = new_order_id ord" "aggressor_client_id first = new_client_id ord"
    "aggressor_side first = sd" "execution_quantity first + aggressor_remaining first = n" by auto
  from trade_chain_passes [OF assms f(1-3), of "[]" True "execution_price first" sq k] Cons
  have "trade_chain first True n [] (execution_price first) (first # bs) = Inr n'" by simp
  with f show ?thesis
    by (auto simp: validate_trade_chain_def Cons bindR_Inr_iff closing_def simp del: trade_chain.simps
        split: option.splits bool.splits)
qed (simp add: validate_trade_chain_def)

lemma expected_trades_pass:
  assumes "spec_match (limit_crosses sd limit) n os = (fills, n', os')"
    and "terms = None \<or> terms = Some (side_value sd)"
  shows "expected_trades (new_order_id ord) (new_client_id ord) limit terms n
    (trade_bodies (trade_events ord sd sq k n fills)) = Inr n'"
proof -
  have "\<forall>k. expected_trades (new_order_id ord) (new_client_id ord) limit terms n
    (trade_bodies (trade_events ord sd sq k n fills)) = Inr n'"
    using assms(1)
  proof (induction rule: spec_match_cases)
    case (full n x os fills n' os')
    then show ?case using assms(2)
      by (auto simp: bindR_Inr_iff Let_def limit_crosses_def split: option.splits side.splits)
  next
    case (partial n x os)
    then show ?case using assms(2)
      by (auto simp: bindR_Inr_iff Let_def limit_crosses_def split: option.splits side.splits)
  qed simp
  then show ?thesis by blast
qed

lemma spec_aggress_events:
  assumes "spec_aggress iid sd ord sq v0 v es = (evs, v')"
  obtains fills n os k where
    "spec_match (limit_crosses sd (new_limit_price ord)) (new_quantity ord) (v (other_side sd)) = (fills, n, os)"
    "evs = with_top_change iid sq v0 v'
       (es @ trade_events ord sd sq (length es) (new_quantity ord) fills @ [terminal_event ord sd sq k n])"
proof -
  obtain fills n os where m: "spec_match (limit_crosses sd (new_limit_price ord)) (new_quantity ord)
      (v (other_side sd)) = (fills, n, os)" by (metis prod_cases3)
  with assms that [OF m] show ?thesis by (auto simp: spec_aggress_def spec_add_def Let_def)
qed

lemma reported_top_passes: "view_ok c iid latest v' \<Longrightarrow> validate_terminal_top (reported_top v v') = Inr ()"
  using view_top_in tops_in_pair by (fastforce simp: validate_terminal_top_def reported_top_def)

lemma with_top_change_prefix:
  "\<exists>cs. with_top_change iid sq v v' (as @ bs) = as @ cs \<and> (bs \<noteq> [] \<longrightarrow> cs \<noteq> [])"
  by (cases "view_top v = view_top v'") (simp_all add: with_top_change_def)

lemma new_envelope_passes:
  assumes rep: "require_representable (NewOrder ord) = Inr ()" and v: "view_ok c iid latest v"
    and acc: "accepts_new c iid ord sq v" and spec: "spec_new c iid ord sq v = (es, v')" and v': "view_ok c iid latest' v'"
  shows "validate_event_envelope es COMMITTED NEW = Inr ()"
    and "validate_events_against_command es (NewOrder ord) COMMITTED = Inr ()"
proof -
  let ?sd = "side_of (new_side ord)"
    and ?a = "[AcceptedEvent \<lparr>command_sequence = sq, event_index = 0, hdr_instrument_id = iid\<rparr> NEW]"
  have ok: "new_order_ok c iid ?sd ord" by (rule accepted_new_terms [OF rep acc])
  have eq: "spec_aggress iid ?sd ord sq v v ?a = (es, v')" using spec_new_accepts [OF acc] spec by simp
  obtain fills n os k where m: "spec_match (limit_crosses ?sd (new_limit_price ord)) (new_quantity ord) (v (other_side ?sd)) = (fills, n, os)"
    and es: "es = with_top_change iid sq v v'
       (?a @ trade_events ord ?sd sq (length ?a) (new_quantity ord) fills @ [terminal_event ord ?sd sq k n])"
    by (rule spec_aggress_events [OF eq])
  let ?b = "trade_bodies (trade_events ord ?sd sq 1 (new_quantity ord) fills)"
  have suffix: "trade_terminal_suffix es (Suc 0) = Inr (?b, closing ord ?sd n, reported_top v v')"
    using suffix_of_aggress [of iid sq v v' ?a ord ?sd 1 "new_quantity ord" fills k n] by (simp add: es)
  have shape: "validate_new_shape ord = NONE" using acc by (simp add: accepts_new_def)
  obtain es' where hd: "es = ?a @ es'" using with_top_change_prefix unfolding es by blast
  have reason: "(case closing ord ?sd n of Done _ reason _ \<Rightarrow> reason \<notin> {FILLED, IOC_RESIDUAL_CANCELED, MARKET_EXHAUSTED} | Rested _ \<Rightarrow> False) = False"
    by (simp add: closing_def split: option.splits bool.splits)
  from validate_chain_passes [OF m view_ok_ranked [OF v], of ord sq 1] reported_top_passes [OF v', of v] reason
  have "validate_new_envelope es = Inr ()" by (simp add: validate_new_envelope_def suffix)
  then show "validate_event_envelope es COMMITTED NEW = Inr ()" by (simp add: validate_event_envelope_def hd)
  have "new_side ord = side_value ?sd" using ok by (simp add: new_order_ok_def)
  with expected_trades_pass [OF m, of "Some (new_side ord)" ord sq 1] shape
  show "validate_events_against_command es (NewOrder ord) COMMITTED = Inr ()"
    by (auto simp: validate_events_against_command_def suffix validate_expected_aggressor_def closing_def
        residual_rests_def validate_new_shape_def is_valid_time_in_force_def split: option.splits bool.splits if_splits)
qed

lemma cancel_envelope_passes:
  assumes v: "view_ok c iid latest v" and acc: "accepts_cancel iid ord v"
    and spec: "spec_cancel iid ord sq v = (es, v')" and v': "view_ok c iid latest' v'"
  shows "validate_event_envelope es COMMITTED CANCEL = Inr ()"
    and "validate_events_against_command es (CancelOrder ord) COMMITTED = Inr ()"
proof -
  obtain q where es: "es = with_top_change iid sq v v' (cancel_events ord sq q)"
    using spec_cancel_accepts [OF acc, of sq] spec by auto
  show "validate_event_envelope es COMMITTED CANCEL = Inr ()"
    using reported_top_passes [OF v', of v]
    by (auto simp: es with_top_change_def cancel_events_def Let_def validate_event_envelope_def
        validate_cancel_envelope_def reported_top_def)
  show "validate_events_against_command es (CancelOrder ord) COMMITTED = Inr ()"
    by (auto simp: es with_top_change_def cancel_events_def Let_def validate_events_against_command_def)
qed

lemma replace_envelope_passes:
  assumes rep: "require_representable (ReplaceOrder cmd) = Inr ()" and v: "view_ok c iid latest v"
    and acc: "accepts_replace c iid cmd sq v" and spec: "spec_replace c iid cmd sq v = (es, v')" and v': "view_ok c iid latest' v'"
  shows "validate_event_envelope es COMMITTED REPLACE = Inr ()"
    and "validate_events_against_command es (ReplaceOrder cmd) COMMITTED = Inr ()"
proof -
  obtain old where old: "find_order (rep_old_order_id cmd) v = Some old"
    using acc by (auto simp: accepts_replace_def split: option.splits)
  note ok = accepted_replace_terms [OF rep acc v old]
  let ?sd = "ord_side old" and ?ord = "replacement_order cmd old" and ?v = "spec_remove_order (rep_old_order_id cmd) v"
    and ?a = "replace_events cmd sq (ord_remaining_quantity old)"
  have eq: "spec_aggress iid ?sd ?ord sq v ?v ?a = (es, v')" using spec_replace_accepts [OF acc old] spec by simp
  obtain fills n os k where m: "spec_match (limit_crosses ?sd (new_limit_price ?ord)) (new_quantity ?ord) (?v (other_side ?sd)) = (fills, n, os)"
    and es: "es = with_top_change iid sq v v'
       (?a @ trade_events ?ord ?sd sq (length ?a) (new_quantity ?ord) fills @ [terminal_event ?ord ?sd sq k n])"
    by (rule spec_aggress_events [OF eq])
  have len: "length ?a = 4" by (simp add: replace_events_def Let_def)
  let ?b = "trade_bodies (trade_events ?ord ?sd sq 4 (new_quantity ?ord) fills)"
  have suffix: "trade_terminal_suffix es 4 = Inr (?b, closing ?ord ?sd n, reported_top v v')"
    using suffix_of_aggress [of iid sq v v' ?a ?ord ?sd 4 "new_quantity ?ord" fills k n] by (simp add: es len)
  obtain es' where hd: "es = ?a @ es'" "es' \<noteq> []" using with_top_change_prefix [of iid sq v v' ?a] unfolding es by (metis append_is_Nil_conv not_Cons_self2)
  have v1: "view_ok c iid latest ?v"
    by (rule view_ok_shrink [OF v]) (auto simp: spec_remove_order_def intro!: spec_remove_shrinks view_ok_positive [OF v])
  have ids: "new_order_id ?ord = rep_new_order_id cmd" by (simp add: replacement_order_def)
  have agg: "\<forall>trade \<in> set (trade_bodies (trade_events ?ord ?sd sq j q fs)). aggressor_order_id trade = rep_new_order_id cmd" for j q fs
    by (induction fs arbitrary: j q) (auto simp: ids)
  have rests: "residual_rests ?ord n \<longleftrightarrow> n \<noteq> 0" by (simp add: residual_rests_def replacement_order_def)
  have shape: "es ! Suc 0 = ?a ! 1" "es ! 2 = ?a ! 2" "es ! 3 = ?a ! 3" "5 \<le> length es" "es ! 0 = ?a ! 0"
    using hd len by (cases es'; simp add: nth_append)+
  have limit: "new_limit_price ?ord = Some (rep_new_limit_price cmd)" by (simp add: replacement_order_def)
  have filled: "(case closing ?ord ?sd n of Done _ reason _ \<Rightarrow> reason \<noteq> FILLED | Rested _ \<Rightarrow> False) = False"
    using rests by (auto simp: closing_def limit split: bool.splits)
  have "validate_replace_envelope es = Inr ()"
    using validate_chain_passes [OF m view_ok_ranked [OF v1], of ?ord sq 4] reported_top_passes [OF v', of v] agg shape
    by (simp add: validate_replace_envelope_def suffix ids filled replace_events_def Let_def)
  then show "validate_event_envelope es COMMITTED REPLACE = Inr ()"
    by (simp add: validate_event_envelope_def hd replace_events_def Let_def)
  have f: "new_client_id ?ord = rep_client_id cmd" "new_quantity ?ord = rep_new_quantity cmd"
    "new_limit_price ?ord = Some (rep_new_limit_price cmd)" using ok(3) by (simp_all add: replacement_order_def)
  from expected_trades_pass [OF m, of None ?ord sq 4]
  have "validate_expected_aggressor ?b (closing ?ord ?sd n) (rep_new_order_id cmd) (rep_client_id cmd) (rep_new_quantity cmd)
      (Some (rep_new_limit_price cmd)) None = Inr ()"
    by (auto simp: validate_expected_aggressor_def ids f closing_def rests split: bool.splits)
  with shape show "validate_events_against_command es (ReplaceOrder cmd) COMMITTED = Inr ()"
    by (simp add: validate_events_against_command_def suffix f replace_events_def Let_def)
qed

lemma step_envelope_passes:
  assumes "require_representable cmd = Inr ()" and "view_ok c iid latest v" and "accepts c iid cmd sq v"
    and "spec_step c iid cmd sq v = (es, v')" and "view_ok c iid latest' v'"
  shows "validate_event_envelope es COMMITTED (command_type_of cmd) = Inr ()"
    and "validate_events_against_command es cmd COMMITTED = Inr ()"
  using assms new_envelope_passes [of _ c iid latest v sq es v' latest'] cancel_envelope_passes [of c iid latest v _ sq es v' latest']
    replace_envelope_passes [of _ c iid latest v sq es v' latest']
  by (cases cmd; simp)+

section \<open>States and snapshots\<close>

text \<open>The observers of a snapshot, with the digest that goes with it.\<close>

definition observed_state :: "string \<Rightarrow> book_snapshot \<Rightarrow> native_state" where
  "observed_state digest snap =
     (case (snapshot_side_summary (bs_bids snap), snapshot_side_summary (bs_asks snap)) of
        ((bl, bo, bq), (al, ao, aq)) \<Rightarrow>
          \<lparr>ns_active_order_count = bs_active_order_count snap,
           ns_bid_level_count = bl, ns_bid_order_count = bo, ns_bid_aggregate_quantity = bq,
           ns_ask_level_count = al, ns_ask_order_count = ao, ns_ask_aggregate_quantity = aq,
           ns_empty = (bs_active_order_count snap = 0),
           ns_next_sequence = (if bs_sequence_exhausted snap then 0 else bs_last_sequence snap + 1),
           ns_sequence_exhausted = bs_sequence_exhausted snap,
           ns_best_bid = snapshot_top (bs_bids snap), ns_best_ask = snapshot_top (bs_asks snap),
           ns_state_digest = digest\<rparr>)"

lemma observed_state_agrees:
  "state_digest sha256 snap = Inr d \<Longrightarrow> validate_state_snapshot sha256 (observed_state d snap) snap = Inr ()"
  by (simp add: validate_state_snapshot_def observed_state_def snapshot_side_summary_def bindR_Inr_iff)

lemma total_quantity_concat: "total_quantity (concat xss) = sum_list (map total_quantity xss)"
  by (induction xss) simp_all

lemma int_sum_zero [simp]: "int m + int n = 0 \<longleftrightarrow> m = 0 \<and> n = 0"
  by arith

lemma view_levels_sum: "sum_list (map pls_aggregate_quantity (view_levels sd s)) = total_quantity (flat sd s)"
  and view_levels_count: "sum_list (map (length \<circ> pls_orders) (view_levels sd s)) = length (flat sd s)"
proof -
  have "sum_list (map pls_aggregate_quantity (view_levels sd s)) =
      sum_list (map (total_quantity \<circ> level_orders sd s) (best_first sd (side_prices sd s)))"
    by (simp add: view_levels_def level_snapshot_def comp_def level_orders_def total_quantity_def)
  also have "\<dots> = total_quantity (flat sd s)"
    by (simp add: flat_def total_quantity_concat)
  finally show "sum_list (map pls_aggregate_quantity (view_levels sd s)) = total_quantity (flat sd s)" .
  show "sum_list (map (length \<circ> pls_orders) (view_levels sd s)) = length (flat sd s)"
    by (simp add: view_levels_def level_snapshot_def flat_def length_concat comp_def level_orders_def)
qed

lemma summary_of_view:
  "snapshot_side_summary (view_levels sd s) =
     (int (length (view_levels sd s)), int (length (flat sd s)), total_quantity (flat sd s))"
  by (simp add: snapshot_side_summary_def view_levels_sum view_levels_count)

lemma snapshot_top_view:
  assumes "engine_inv s"
  shows "snapshot_top (view_levels sd s) = side_top (flat sd s)"
proof (cases "view_levels sd s")
  case Nil
  then have "flat sd s = []" using view_levels_count [of sd s] by simp
  with Nil show ?thesis by (simp add: snapshot_top_def side_top_def)
next
  case (Cons l ls)
  have rep: "rep_ok s" "tight_except {} s" using assms by (simp_all add: engine_inv_def core_inv_def)
  note lv = view_levels_level [OF rep, of l sd]
  obtain x xs where x: "pls_orders l = x # xs" using lv(1) Cons by (cases "pls_orders l") auto
  from view_levels_orders [of sd s] have "x # xs @ concat (map pls_orders ls) = map order_snapshot_of (flat sd s)"
    by (simp add: Cons x)
  then obtain y ys where y: "flat sd s = y # ys" "x = order_snapshot_of y" by (cases "flat sd s") auto
  with lv(2) x Cons have "ord_price y = pls_price l" by (simp add: order_snapshot_of_def)
  with lv(3) y Cons show ?thesis by (simp add: snapshot_top_def side_top_def)
qed

lemma levels_nonempty:
  assumes "engine_inv s"
  shows "length (view_levels sd s) \<le> length (flat sd s)"
proof -
  have rep: "rep_ok s" "tight_except {} s" using assms by (simp_all add: engine_inv_def core_inv_def)
  from length_concat_nonempty [of "view_levels sd s" pls_orders] view_levels_level(1) [OF rep]
  show ?thesis by (auto simp: view_levels_orders)
qed

lemma side_total_bounds:
  assumes "view_ok c iid latest v"
  shows "0 \<le> total_quantity (v sd)" and "total_quantity (v sd) \<le> int (length (v sd)) * max_order_quantity c"
    and "v sd \<noteq> [] \<Longrightarrow> 0 < total_quantity (v sd)"
    and "v sd = x # xs \<Longrightarrow> level_quantity (v sd) (ord_price x) \<le> total_quantity (v sd)"
proof -
  have ok: "\<forall>x \<in> set (v sd). 1 \<le> ord_remaining_quantity x \<and> ord_remaining_quantity x \<le> max_order_quantity c"
    using view_okD(2) [OF assms] by (auto simp: order_ok_def)
  have gen: "(\<forall>x \<in> set os. 1 \<le> ord_remaining_quantity x \<and> ord_remaining_quantity x \<le> m) \<Longrightarrow>
      0 \<le> total_quantity os \<and> total_quantity os \<le> int (length os) * m \<and> (os \<noteq> [] \<longrightarrow> 0 < total_quantity os) \<and>
      level_quantity os p \<le> total_quantity os" for os p m
    by (induction os) (auto simp: algebra_simps)
  from gen [OF ok] show "0 \<le> total_quantity (v sd)" "total_quantity (v sd) \<le> int (length (v sd)) * max_order_quantity c"
    "v sd \<noteq> [] \<Longrightarrow> 0 < total_quantity (v sd)" "v sd = x # xs \<Longrightarrow> level_quantity (v sd) (ord_price x) \<le> total_quantity (v sd)"
    by blast+
qed

lemma side_summary_passes:
  assumes "engine_inv s"
  shows "validate_side_summary (int (length (view_levels sd s))) (int (length (flat sd s))) (total_quantity (flat sd s))
    (side_top (flat sd s)) = Inr ()"
proof (cases "flat sd s")
  case Nil
  then show ?thesis using levels_nonempty [OF assms, of sd] by (simp add: validate_side_summary_def side_top_def)
next
  case (Cons x xs)
  note b = side_total_bounds [OF engine_view_ok [OF assms], of sd, simplified]
  have "view_levels sd s \<noteq> []" using view_levels_count [of sd s] Cons by auto
  with Cons b(3) b(4) [OF Cons] levels_nonempty [OF assms, of sd] show ?thesis
    by (auto simp: validate_side_summary_def side_top_def Cons)
qed

lemma observed_state_of:
  assumes "engine_inv s"
  shows "observed_state d (snapshot_of s) =
    \<lparr>ns_active_order_count = int (length (flat BUY s) + length (flat SELL s)),
     ns_bid_level_count = int (length (view_levels BUY s)), ns_bid_order_count = int (length (flat BUY s)),
     ns_bid_aggregate_quantity = total_quantity (flat BUY s),
     ns_ask_level_count = int (length (view_levels SELL s)), ns_ask_order_count = int (length (flat SELL s)),
     ns_ask_aggregate_quantity = total_quantity (flat SELL s),
     ns_empty = (length (flat BUY s) + length (flat SELL s) = 0),
     ns_next_sequence = eng_next_sequence s, ns_sequence_exhausted = eng_sequence_exhausted s,
     ns_best_bid = side_top (flat BUY s), ns_best_ask = side_top (flat SELL s), ns_state_digest = d\<rparr>"
  using assms
  by (auto simp: observed_state_def snapshot_of_def summary_of_view snapshot_top_view [OF assms] engine_inv_def sequence_ok_def)

lemma state_structure_passes:
  assumes "engine_inv s"
  shows "check_parsed_state (observed_state d (snapshot_of s)) = Inr ()"
proof -
  have "validate_top_pair (side_top (flat BUY s)) (side_top (flat SELL s)) = Inr ()"
    using tops_in_pair [OF view_top_in [OF engine_view_ok [OF assms]]] by (simp add: view_top_def)
  moreover have "if eng_sequence_exhausted s then eng_next_sequence s = 0 else eng_next_sequence s \<noteq> 0"
    using assms by (auto simp: engine_inv_def sequence_ok_def)
  ultimately show ?thesis
    using side_summary_passes [OF assms]
    by (auto simp: check_parsed_state_def validate_state_structure_def observed_state_of [OF assms])
qed

lemma sorted_wrt_concat_member: "sorted_wrt R (concat xss) \<Longrightarrow> xs \<in> set xss \<Longrightarrow> sorted_wrt R xs"
  by (induction xss) (auto simp: sorted_wrt_append)

lemma level_orders_pass:
  assumes "\<forall>x \<in> set xs. os_side x = sd \<and> os_price x = p \<and> os_order_id x \<noteq> 0 \<and> os_client_id x \<noteq> 0 \<and>
      os_instrument_id x = iid \<and> os_remaining_quantity x \<noteq> 0 \<and> os_priority_sequence x \<noteq> 0"
    and "sorted_wrt (\<lambda>x y. os_priority_sequence x < os_priority_sequence y) xs"
    and "\<forall>x \<in> set xs. case prior of None \<Rightarrow> True | Some q \<Rightarrow> q < os_priority_sequence x"
  shows "check_level_orders sd iid p prior xs = Inr ()"
  using assms
proof (induction xs arbitrary: prior)
  case (Cons x xs)
  then have "check_level_orders sd iid p (Some (os_priority_sequence x)) xs = Inr ()" by (intro Cons.IH) auto
  with Cons.prems show ?case by (auto simp: bindR_Inr_iff split: option.splits)
qed simp

lemma level_members:
  assumes "engine_inv s" and "l \<in> set (view_levels sd s)"
  shows "set (pls_orders l) \<subseteq> order_snapshot_of ` set (flat sd s)"
    and "sorted_wrt (\<lambda>x y. os_priority_sequence x < os_priority_sequence y) (pls_orders l)"
    and "\<forall>x \<in> set (pls_orders l). os_price x = pls_price l \<and> os_side x = sd" and "pls_orders l \<noteq> []"
proof -
  have rep: "rep_ok s" "tight_except {} s" using assms(1) by (simp_all add: engine_inv_def core_inv_def)
  note lv = view_levels_level [OF rep assms(2)]
  show "set (pls_orders l) \<subseteq> order_snapshot_of ` set (flat sd s)"
    using set_concat_member [OF assms(2), of pls_orders] arg_cong [OF view_levels_orders [of sd s], of set] by simp
  show same: "\<forall>x \<in> set (pls_orders l). os_price x = pls_price l \<and> os_side x = sd" by (rule lv(2))
  show "pls_orders l \<noteq> []" by (rule lv(1))
  let ?R = "\<lambda>x y. (price_key sd (os_price x), os_priority_sequence x) < (price_key sd (os_price y), os_priority_sequence y)"
  have "sorted_wrt ?R (concat (map pls_orders (view_levels sd s)))"
    unfolding view_levels_orders
    using view_okD(1) [OF engine_view_ok [OF assms(1)], of sd]
    by (simp add: sorted_wrt_map rank_def order_snapshot_of_def)
  from sorted_wrt_concat_member [OF this] assms(2) have "sorted_wrt ?R (pls_orders l)" by simp
  then show "sorted_wrt (\<lambda>x y. os_priority_sequence x < os_priority_sequence y) (pls_orders l)"
    by (rule sorted_wrt_mono_rel [rotated]) (use same in \<open>auto simp: less_prod_def\<close>)
qed

lemma levels_pass:
  assumes "engine_inv s"
  shows "check_parsed_levels sd (eng_instrument_id s) (view_levels sd s) = Inr ()"
proof -
  have "check_parsed_level sd (eng_instrument_id s) l = Inr ()" if l: "l \<in> set (view_levels sd s)" for l
  proof -
    note m = level_members [OF assms l]
    have ok: "\<forall>x \<in> set (pls_orders l). os_order_id x \<noteq> 0 \<and> os_client_id x \<noteq> 0 \<and> os_instrument_id x = eng_instrument_id s \<and>
        os_remaining_quantity x \<noteq> 0 \<and> os_priority_sequence x \<noteq> 0 \<and> 1 \<le> os_price x"
      using m(1) view_okD(2) [OF engine_view_ok [OF assms], of _ sd]
      by (fastforce simp: order_snapshot_of_def order_ok_def)
    then have "check_level_orders sd (eng_instrument_id s) (pls_price l) None (pls_orders l) = Inr ()"
      using m(2,3) by (intro level_orders_pass) auto
    moreover have "1 \<le> pls_price l" using m(3,4) ok by (cases "pls_orders l") auto
    moreover have "sum_list (map os_remaining_quantity (pls_orders l)) = pls_aggregate_quantity l"
      using l by (auto simp: view_levels_def level_snapshot_def comp_def order_snapshot_of_def)
    ultimately show ?thesis using m(4) by (simp add: check_parsed_level_def)
  qed
  moreover have "map pls_price (view_levels sd s) =
      (if sd = BUY then rev (sort (map pls_price (view_levels sd s))) else sort (map pls_price (view_levels sd s)))"
  proof (cases sd)
    case BUY
    let ?ps = "map pls_price (view_levels sd s)"
    from view_levels_sorted [of sd s] BUY have "sorted (map uminus ?ps)"
      by (simp add: comp_def price_key_def index_descending_def)
    then have "sorted (rev ?ps)" by (simp add: sorted_wrt_rev sorted_wrt_map)
    then have "sort ?ps = rev ?ps" by (metis properties_for_sort mset_rev)
    with BUY show ?thesis by simp
  next
    case SELL
    with view_levels_sorted [of sd s] show ?thesis
      by (simp add: comp_def price_key_def index_descending_def sorted_sort_id)
  qed
  ultimately show ?thesis
    using distinct_card [OF view_levels_distinct [of sd s]]
    by (simp add: check_parsed_levels_def Let_def bindR_Inr_iff)
qed

lemma snapshot_orders_view: "snapshot_orders (snapshot_of s) = map order_snapshot_of (flat BUY s @ flat SELL s)"
  using view_levels_orders [of BUY s] view_levels_orders [of SELL s] by (simp add: snapshot_orders_def snapshot_of_def)

lemma snapshot_of_fields [simp]:
  "bs_semantics_version (snapshot_of s) = ATLASLOB_SEMANTICS_VERSION"
  "bs_instrument_id (snapshot_of s) = eng_instrument_id s"
  "bs_last_sequence (snapshot_of s) = eng_last_sequence s"
  "bs_sequence_exhausted (snapshot_of s) = eng_sequence_exhausted s"
  "bs_active_order_count (snapshot_of s) = int (length (flat BUY s) + length (flat SELL s))"
  "bs_bids (snapshot_of s) = view_levels BUY s" "bs_asks (snapshot_of s) = view_levels SELL s"
  by (simp_all add: snapshot_of_def)

lemma snapshot_passes:
  assumes "engine_inv s"
  shows "check_parsed_snapshot (snapshot_of s) = Inr ()"
proof -
  note ok = engine_view_ok [OF assms]
  have ids: "map os_order_id (snapshot_orders (snapshot_of s)) = map ord_order_id (flat BUY s @ flat SELL s)"
    "map os_priority_sequence (snapshot_orders (snapshot_of s)) = map ord_priority_sequence (flat BUY s @ flat SELL s)"
    by (simp_all add: snapshot_orders_view comp_def order_snapshot_of_def)
  have "length (map ord_order_id (flat BUY s @ flat SELL s)) = card (set (map ord_order_id (flat BUY s @ flat SELL s)))"
    "length (map ord_priority_sequence (flat BUY s @ flat SELL s)) = card (set (map ord_priority_sequence (flat BUY s @ flat SELL s)))"
    using view_okD(3,4) [OF ok] by (metis distinct_card view_of_app)+
  moreover have "\<forall>p \<in> set (map ord_priority_sequence (flat BUY s @ flat SELL s)). p \<le> eng_last_sequence s"
    using view_okD(2) [OF ok] by (fastforce simp: order_ok_def)
  moreover have "\<not> (case (view_levels BUY s, view_levels SELL s) of (b # _, a # _) \<Rightarrow> pls_price b \<ge> pls_price a | _ \<Rightarrow> False)"
  proof -
    have "tops_in (eng_config s) (snapshot_top (view_levels BUY s)) (snapshot_top (view_levels SELL s))"
      using view_top_in [OF ok] by (simp add: view_top_def snapshot_top_view [OF assms])
    then show ?thesis by (auto simp: tops_in_def snapshot_top_def split: list.splits)
  qed
  moreover have "if eng_sequence_exhausted s then eng_last_sequence s = U64_MAX else eng_last_sequence s \<noteq> U64_MAX"
    using assms by (auto simp: engine_inv_def sequence_ok_def)
  ultimately have "validate_snapshot_structure (snapshot_of s) = Inr ()"
    unfolding validate_snapshot_structure_def Let_def ids by (simp add: snapshot_orders_view not_less)
  moreover have "eng_instrument_id s \<noteq> 0" using engine_widths(2) [OF assms] by simp
  ultimately show ?thesis
    using levels_pass [OF assms] by (simp add: check_parsed_snapshot_def)
qed

section \<open>Agreement with the configuration\<close>

lemma state_fits_config:
  assumes "engine_inv s" and "ni_engine c = eng_config s"
  shows "validate_state_against_config (observed_state d (snapshot_of s)) c = Inr ()"
proof -
  note ok = engine_view_ok [OF assms(1)] and t = side_total_bounds(2) [OF engine_view_ok [OF assms(1)]]
  have "int (length (flat BUY s) + length (flat SELL s)) \<le> max_active_orders (eng_config s)"
    using assms(1) order_count [of s] by (simp add: engine_inv_def core_inv_def)
  moreover have "total_quantity (flat BUY s) + total_quantity (flat SELL s) \<le>
      int (length (flat BUY s) + length (flat SELL s)) * max_order_quantity (eng_config s)"
    using t [of BUY] t [of SELL] by (simp add: algebra_simps)
  moreover have "\<not> (case side_top (flat sd s) of None \<Rightarrow> False | Some l \<Rightarrow> misaligned c (top_price l))" for sd
    using side_top_in [OF ok, of sd] by (auto simp: top_in_def price_in_def misaligned_def assms(2) split: option.splits)
  ultimately show ?thesis by (simp add: validate_state_against_config_def observed_state_of [OF assms(1)] assms(2))
qed

lemma snapshot_fits_config:
  assumes "engine_inv s" and "ni_engine c = eng_config s" and "ni_instrument_id c = eng_instrument_id s"
  shows "validate_snapshot_against_config (snapshot_of s) c = Inr ()"
proof -
  note ok = engine_view_ok [OF assms(1)]
  have "int (length (flat BUY s) + length (flat SELL s)) \<le> max_active_orders (eng_config s)"
    using assms(1) order_count [of s] by (simp add: engine_inv_def core_inv_def)
  moreover have "\<not> misaligned c (pls_price l) \<and> (\<forall>x \<in> set (pls_orders l). os_remaining_quantity x \<le> max_order_quantity (ni_engine c))"
    if l: "l \<in> set (view_levels sd s)" for sd l
  proof -
    note m = level_members [OF assms(1) l]
    have "\<forall>x \<in> set (pls_orders l). os_remaining_quantity x \<le> max_order_quantity (ni_engine c) \<and> \<not> misaligned c (os_price x)"
      using m(1) view_okD(2) [OF ok, of _ sd] by (fastforce simp: order_snapshot_of_def order_ok_def misaligned_def assms(2))
    with m(3,4) show ?thesis by (cases "pls_orders l") auto
  qed
  then have "\<forall>l \<in> set (bs_bids (snapshot_of s) @ bs_asks (snapshot_of s)). \<not> misaligned c (pls_price l) \<and>
      \<not> (\<exists>x \<in> set (pls_orders l). os_remaining_quantity x > max_order_quantity (ni_engine c))"
    by (auto simp: not_less)
  ultimately show ?thesis
    by (auto simp: validate_snapshot_against_config_def assms(2,3))
qed

section \<open>Batches as wholes\<close>

lemma last_with_top_change:
  assumes "es \<noteq> []" and "book_changed_of (last es) = None"
  shows "book_changed_of (last (with_top_change iid sq v v' es)) = reported_top v v'"
  using assms by (simp add: with_top_change_def reported_top_def)

lemma terminal_not_book_change: "book_changed_of (terminal_event ord sd sq k n) = None"
  by (auto simp: terminal_event_def Let_def split: option.splits bool.splits)

lemma spec_aggress_last:
  assumes "spec_aggress iid sd ord sq v0 v es = (evs, v')"
  shows "book_changed_of (last evs) = reported_top v0 v'"
proof -
  from spec_aggress_events [OF assms] obtain fills n k where
    "evs = with_top_change iid sq v0 v' ((es @ trade_events ord sd sq (length es) (new_quantity ord) fills) @ [terminal_event ord sd sq k n])"
    by (metis append.assoc)
  with last_with_top_change [of "(es @ trade_events ord sd sq (length es) (new_quantity ord) fills) @ [terminal_event ord sd sq k n]"]
  show ?thesis by (simp add: terminal_not_book_change del: append_assoc)
qed

lemma step_last_event:
  assumes "spec_step c iid cmd sq v = (es, v')"
  shows "book_changed_of (last es) = reported_top v v'"
proof (cases "accepts c iid cmd sq v")
  case False
  from spec_step_rejects [OF this] assms show ?thesis by (auto simp: spec_reject_def reported_top_def)
next
  case acc: True
  show ?thesis
  proof (cases cmd)
    case (NewOrder ord)
    with acc assms spec_new_accepts [of c iid ord sq v] show ?thesis by (auto intro: spec_aggress_last)
  next
    case (CancelOrder ord)
    have "cancel_events ord sq q \<noteq> [] \<and> book_changed_of (last (cancel_events ord sq q)) = None" for q
      by (simp add: cancel_events_def Let_def)
    with acc assms CancelOrder spec_cancel_accepts [of iid ord v sq] show ?thesis
      by (auto intro: last_with_top_change)
  next
    case (ReplaceOrder ord)
    with acc obtain old where old: "find_order (rep_old_order_id ord) v = Some old"
      by (auto simp: accepts_replace_def split: option.splits)
    with acc assms ReplaceOrder spec_replace_accepts [OF _ old, of c iid sq] show ?thesis
      by (auto intro: spec_aggress_last)
  qed
qed

lemma step_batch:
  assumes "view_ok c iid latest v" and "spec_step c iid cmd sq v = (es, v')" and "sq \<noteq> 0" "iid \<noteq> 0"
  shows "EventBatch es = Inr \<lparr>batch_events = es\<rparr>" and "batch_command_sequence \<lparr>batch_events = es\<rparr> = sq"
    and "es \<noteq> []" and "event_header_of (hd es) = \<lparr>command_sequence = sq, event_index = 0, hdr_instrument_id = command_instrument_id cmd\<rparr>"
proof -
  note sh = spec_step_shape [OF assms(1), of sq cmd, unfolded assms(2), simplified]
  then show "es \<noteq> []" by simp
  with sh show h: "event_header_of (hd es) = \<lparr>command_sequence = sq, event_index = 0, hdr_instrument_id = command_instrument_id cmd\<rparr>"
    by (auto simp: batch_shape_def hd_conv_nth)
  then show "batch_command_sequence \<lparr>batch_events = es\<rparr> = sq" using sh by (cases es) (auto simp: batch_command_sequence_def)
  have "command_instrument_id cmd \<noteq> 0 \<or> (\<exists>e. es = [e] \<and> event_type_of e = REJECTED)"
  proof (cases "accepts c iid cmd sq v")
    case True
    then have "command_instrument_id cmd = iid"
      by (cases cmd) (auto simp: accepts_new_def accepts_cancel_def accepts_replace_def)
    with assms(4) show ?thesis by simp
  next
    case False
    from spec_step_rejects [OF this] assms(2) show ?thesis by (auto simp: spec_reject_def)
  qed
  from EventBatch_accepts [OF _ _ assms(3) this] sh show "EventBatch es = Inr \<lparr>batch_events = es\<rparr>" by simp
qed

lemma batch_encodes:
  assumes "batch_shape sq iid' es" and "es \<noteq> []" and "\<forall>e \<in> set es. event_in c e" and "matching_config_ok c"
    and "0 \<le> sq" "sq \<le> U64_MAX" "0 \<le> iid'" "iid' \<le> U32_MAX" "int (length es) \<le> U32_MAX"
  shows "returns (event_bytes \<lparr>batch_events = es\<rparr>)"
proof -
  have "returns (encode_event e)" if e: "e \<in> set es" for e
  proof -
    obtain i where i: "i < length es" "e = es ! i" using e by (auto simp: in_set_conv_nth)
    with assms(1) have "event_header_of e = \<lparr>command_sequence = sq, event_index = int i, hdr_instrument_id = iid'\<rparr>"
      by (simp add: batch_shape_def)
    with i e assms show ?thesis by (intro event_in_encodes [of c]) auto
  qed
  moreover have "event_header_of (hd es) = \<lparr>command_sequence = sq, event_index = 0, hdr_instrument_id = iid'\<rparr>"
    using assms(1,2) by (auto simp: batch_shape_def hd_conv_nth)
  moreover have "int (length es) \<le> U64_MAX" using assms(9) by (simp add: width_defs)
  moreover have "0 \<le> ATLASLOB_SEMANTICS_VERSION \<and> ATLASLOB_SEMANTICS_VERSION \<le> U16_MAX"
    by (simp add: ATLASLOB_SEMANTICS_VERSION_def U16_MAX_def)
  ultimately show ?thesis
    using assms(2,5-8)
    by (cases es) (auto simp: event_bytes_def returns_cat list_all_iff batch_command_sequence_def batch_instrument_id_def)
qed

text \<open>How long a batch can be, and how much a book can grow.\<close>

definition order_total :: "view \<Rightarrow> nat" where
  "order_total v = length (v BUY) + length (v SELL)"

lemma shrinks_shorter: "shrinks os' os \<Longrightarrow> length os' \<le> length os"
  using shrinks_subseq [of os' os ord_order_id] list_emb_length by fastforce

lemma order_total_side: "length (v sd) \<le> order_total v"
  by (cases sd) (simp_all add: order_total_def)

lemma order_total_sides: "order_total v = length (v sd) + length (v (other_side sd))"
  by (cases sd) (simp_all add: order_total_def)

lemma spec_add_sizes:
  assumes "view_ok c iid latest v" and "0 \<le> new_quantity ord" and "spec_add sd ord sq v = (fills, n, v')"
  shows "length fills \<le> order_total v" and "order_total v' \<le> Suc (order_total v)"
proof -
  obtain os where m: "spec_match (limit_crosses sd (new_limit_price ord)) (new_quantity ord) (v (other_side sd)) = (fills, n, os)"
    using assms(3) by (auto simp: spec_add_def Let_def split: prod.splits)
  have "length (map fst fills) \<le> length (v (other_side sd))" using spec_match_prefix(1) [OF m] by simp
  then show "length fills \<le> order_total v" using order_total_side [of v "other_side sd"] by simp
  have "length os \<le> length (v (other_side sd))"
    by (rule shrinks_shorter [OF spec_match_shrinks [OF m view_ok_positive [OF assms(1)] assms(2)]])
  moreover have "length (spec_insert sd x (v sd)) = Suc (length (v sd))" for x
    using mset_spec_insert [of sd x "v sd", THEN arg_cong, of size] by simp
  ultimately show "order_total v' \<le> Suc (order_total v)"
    using assms(3) m order_total_sides [of v sd] order_total_sides [of v' sd]
    by (auto simp: spec_add_def Let_def split: option.splits)
qed

lemma trade_events_length [simp]: "length (trade_events ord sd sq k n fills) = length fills"
  by (induction fills arbitrary: k n) auto

lemma with_top_change_longer: "length (with_top_change iid sq v v' es) \<le> Suc (length es)"
  by (simp add: with_top_change_def)

lemma spec_aggress_sizes:
  assumes "view_ok c iid latest v" and "0 \<le> new_quantity ord" and "spec_aggress iid' sd ord sq v0 v es = (evs, v')"
  shows "length evs \<le> order_total v + length es + 2" and "order_total v' \<le> Suc (order_total v)"
proof -
  obtain fills n w where add: "spec_add sd ord sq v = (fills, n, w)" by (metis prod_cases3)
  note sz = spec_add_sizes [OF assms(1,2) add]
  let ?es = "es @ trade_events ord sd sq (length es) (new_quantity ord) fills"
  have e: "evs = with_top_change iid' sq v0 v' (?es @ [terminal_event ord sd sq (length ?es) n])" "v' = w"
    using assms(3) add by (auto simp: spec_aggress_def Let_def)
  from with_top_change_longer [of iid' sq v0 v' "?es @ [terminal_event ord sd sq (length ?es) n]"] sz(1)
  show "length evs \<le> order_total v + length es + 2" unfolding e(1) by simp
  show "order_total v' \<le> Suc (order_total v)" using sz(2) e(2) by simp
qed

lemma step_sizes:
  assumes ok: "view_ok c iid latest v" and rep: "require_representable cmd = Inr ()" and step: "spec_step c iid cmd sq v = (es, v')"
  shows "length es \<le> order_total v + 6 \<and> order_total v' \<le> Suc (order_total v)"
proof (cases "accepts c iid cmd sq v")
  case False
  from spec_step_rejects [OF this] step show ?thesis by (auto simp: spec_reject_def)
next
  case acc: True
  have rm: "view_ok c iid latest (spec_remove_order i v)" "order_total (spec_remove_order i v) \<le> order_total v" for i
    using view_ok_shrink [OF ok, of "spec_remove_order i v"] spec_remove_shrinks [OF view_ok_positive [OF ok]]
    by (auto simp: spec_remove_order_def order_total_def spec_remove_def intro!: add_mono)
  show ?thesis
  proof (cases cmd)
    case (NewOrder ord)
    with spec_aggress_sizes [OF ok representable_quantity(1)] rep acc step spec_new_accepts [of c iid ord sq v]
    show ?thesis by fastforce
  next
    case (CancelOrder ord)
    have "length (with_top_change iid sq v w (cancel_events ord sq q)) \<le> order_total v + 6" for w q
      using with_top_change_longer [of iid sq v w "cancel_events ord sq q"] by (simp add: cancel_events_def Let_def)
    with CancelOrder acc step spec_cancel_accepts [of iid ord v sq] rm(2) show ?thesis
      by (auto simp: le_SucI)
  next
    case (ReplaceOrder ord)
    with acc obtain old where old: "find_order (rep_old_order_id ord) v = Some old"
      by (auto simp: accepts_replace_def split: option.splits)
    let ?i = "rep_old_order_id ord"
    have eq: "spec_aggress iid (ord_side old) (replacement_order ord old) sq v (spec_remove_order ?i v)
        (replace_events ord sq (ord_remaining_quantity old)) = (es, v')"
      using spec_replace_accepts [OF _ old, of c iid sq] ReplaceOrder acc step by simp
    have "0 \<le> new_quantity (replacement_order ord old)"
      using representable_quantity(2) rep ReplaceOrder by (simp add: replacement_order_def)
    from spec_aggress_sizes [OF rm(1) this eq] rm(2) [of ?i] show ?thesis
      by (simp add: replace_events_def Let_def)
  qed
qed

section \<open>The record an honest engine reports\<close>

definition hash_of :: "string result \<Rightarrow> string" where
  "hash_of r = (case r of Inr d \<Rightarrow> d | Inl _ \<Rightarrow> [])"

definition honest_result ::
  "(bytes \<Rightarrow> string) \<Rightarrow> output_mode \<Rightarrow> native_input_config \<Rightarrow> int \<Rightarrow> command \<Rightarrow> event list \<Rightarrow> book_snapshot \<Rightarrow> native_result_record" where
  "honest_result sha256 mode c index cmd es snap =
     \<lparr>nr_command_index = index, nr_line = index + 2, nr_command_type = command_type_of cmd,
      nr_outcome = (if event_type_of (hd es) = REJECTED then REJECTED_OUTCOME else COMMITTED),
      nr_command_sequence = Some (index + 1), nr_engine_error = None, nr_reject_reason = rejection_of es,
      nr_event_digest = Some (hash_of (event_digest sha256 \<lparr>batch_events = es\<rparr>)),
      nr_events = (if mode = EXACT then Some es else None),
      nr_state = observed_state (hash_of (state_digest sha256 snap)) snap,
      nr_snapshot = (if expected_checkpoint c index then Some snap else None)\<rparr>"

definition honest_step :: "native_input_config \<Rightarrow> int \<Rightarrow> command \<Rightarrow> event list \<Rightarrow> engine \<Rightarrow> engine \<Rightarrow> bool" where
  "honest_step c index cmd es s s' \<longleftrightarrow>
     engine_inv s \<and> engine_inv s' \<and> require_representable cmd = Inr () \<and> 0 \<le> index \<and> index + 1 \<le> U64_MAX \<and>
     spec_step (eng_config s) (eng_instrument_id s) cmd (index + 1) (view_of s) = (es, view_of s') \<and>
     ni_engine c = eng_config s \<and> ni_instrument_id c = eng_instrument_id s \<and>
     eng_config s' = eng_config s \<and> eng_instrument_id s' = eng_instrument_id s \<and>
     eng_sequence_exhausted s' = (index + 1 = U64_MAX) \<and>
     eng_next_sequence s' = (if index + 1 = U64_MAX then 0 else index + 2) \<and> int (length es) \<le> U32_MAX"

lemma honest_stepD:
  assumes "honest_step c index cmd es s s'"
  shows "engine_inv s" "engine_inv s'" "require_representable cmd = Inr ()" "0 \<le> index" "index + 1 \<le> U64_MAX"
    "spec_step (eng_config s) (eng_instrument_id s) cmd (index + 1) (view_of s) = (es, view_of s')"
    "ni_engine c = eng_config s" "ni_instrument_id c = eng_instrument_id s"
    "eng_config s' = eng_config s" "eng_instrument_id s' = eng_instrument_id s"
    "eng_sequence_exhausted s' = (index + 1 = U64_MAX)"
    "eng_next_sequence s' = (if index + 1 = U64_MAX then 0 else index + 2)" "int (length es) \<le> U32_MAX"
    "\<forall>e \<in> set es. event_in (eng_config s) e"
  using assms step_events_in [of cmd "eng_config s" "eng_instrument_id s" "eng_last_sequence s" "view_of s" "index + 1" es
      "view_of s'" "eng_last_sequence s'"] engine_view_ok [of s] engine_view_ok [of s']
  by (auto simp: honest_step_def)

lemma honest_batch:
  assumes "honest_step c index cmd es s s'"
  shows "EventBatch es = Inr \<lparr>batch_events = es\<rparr>" "batch_command_sequence \<lparr>batch_events = es\<rparr> = index + 1" "es \<noteq> []"
    "event_header_of (hd es) = \<lparr>command_sequence = index + 1, event_index = 0, hdr_instrument_id = command_instrument_id cmd\<rparr>"
    "event_digest sha256 \<lparr>batch_events = es\<rparr> = Inr (hash_of (event_digest sha256 \<lparr>batch_events = es\<rparr>))"
proof -
  note d = honest_stepD [OF assms]
  have "eng_instrument_id s \<noteq> 0" using engine_widths(2) [OF d(1)] by simp
  note b = step_batch [OF engine_view_ok [OF d(1)] d(6) _ this]
  show "EventBatch es = Inr \<lparr>batch_events = es\<rparr>" "batch_command_sequence \<lparr>batch_events = es\<rparr> = index + 1" "es \<noteq> []"
    "event_header_of (hd es) = \<lparr>command_sequence = index + 1, event_index = 0, hdr_instrument_id = command_instrument_id cmd\<rparr>"
    using b d(4) by simp_all
  have "0 \<le> command_instrument_id cmd" "command_instrument_id cmd \<le> U32_MAX"
    using d(3) by (cases cmd; auto simp: require_uint_def bindR_Inr_iff split: if_splits)+
  then have "returns (event_bytes \<lparr>batch_events = es\<rparr>)"
    using spec_step_shape [OF engine_view_ok [OF d(1)], of "index + 1" cmd] d engine_widths(1) [OF d(1)]
    by (intro batch_encodes [of "index + 1" "command_instrument_id cmd" es "eng_config s"]) auto
  then show "event_digest sha256 \<lparr>batch_events = es\<rparr> = Inr (hash_of (event_digest sha256 \<lparr>batch_events = es\<rparr>))"
    by (auto simp: returns_def event_digest_def hash_of_def)
qed

lemma digest_of_snapshot:
  assumes "engine_inv s"
  shows "state_digest sha256 (snapshot_of s) = Inr (hash_of (state_digest sha256 (snapshot_of s)))"
  using state_encodes [OF assms] by (auto simp: returns_def state_digest_def hash_of_def)

text \<open>A step commits or rejects; the record says which.\<close>

lemma honest_outcome:
  assumes "honest_step c index cmd es s s'"
  obtains (committed) "accepts (eng_config s) (eng_instrument_id s) cmd (index + 1) (view_of s)"
      "event_type_of (hd es) \<noteq> REJECTED" "rejection_of es = None"
      "\<exists>h ct es'. es = AcceptedEvent h ct # es'" "command_instrument_id cmd = eng_instrument_id s"
    | (rejected) h reason oid where "es = [RejectedEvent h (command_type_of cmd) reason oid]" "view_of s' = view_of s"
proof (cases "accepts (eng_config s) (eng_instrument_id s) cmd (index + 1) (view_of s)")
  case True
  note d = honest_stepD [OF assms]
  have "es \<noteq> []" "event_type_of (hd es) = ACCEPTED" using spec_step_accepts_hd [OF True] d(6) by simp_all
  moreover from this obtain h ct es' where "es = AcceptedEvent h ct # es'"
    by (cases es; cases "hd es") auto
  moreover have "command_instrument_id cmd = eng_instrument_id s"
    using True by (cases cmd) (auto simp: accepts_new_def accepts_cancel_def accepts_replace_def)
  ultimately show ?thesis using committed True by simp
next
  case False
  from spec_step_rejects [OF this] honest_stepD(6) [OF assms] show ?thesis
    by (auto simp: spec_reject_def intro: rejected)
qed

lemma honest_envelope:
  assumes "honest_step c index cmd es s s'"
  defines "out \<equiv> (if event_type_of (hd es) = REJECTED then REJECTED_OUTCOME else COMMITTED)"
  shows "validate_event_envelope es out (command_type_of cmd) = Inr ()"
    and "validate_events_against_command es cmd out = Inr ()"
  using assms(1)
proof (atomize (full), cases rule: honest_outcome)
  case committed
  note d = honest_stepD [OF assms(1)]
  from step_envelope_passes [OF d(3) engine_view_ok [OF d(1)] committed(1) d(6)] engine_view_ok [OF d(2)] d(9,10) committed(2)
  show "validate_event_envelope es out (command_type_of cmd) = Inr () \<and> validate_events_against_command es cmd out = Inr ()"
    by (simp add: out_def)
next
  case (rejected h reason oid)
  then show "validate_event_envelope es out (command_type_of cmd) = Inr () \<and> validate_events_against_command es cmd out = Inr ()"
    by (simp add: out_def validate_event_envelope_def validate_events_against_command_def)
qed

lemma honest_result_parses:
  assumes "honest_step c index cmd es s s'"
  shows "check_parsed_result sha256 (honest_result sha256 mode c index cmd es (snapshot_of s')) = Inr ()"
proof -
  note d = honest_stepD [OF assms] and b = honest_batch [OF assms] and env = honest_envelope [OF assms]
  let ?r = "honest_result sha256 mode c index cmd es (snapshot_of s')"
  have events: "check_parsed_events es = Inr ()"
    using d(14) b(3) by (auto simp: check_parsed_events_def bindR_Inr_iff event_in_payload)
  have nullable: "check_nullable ?r = Inr ()"
    using assms by (cases rule: honest_outcome) (auto simp: check_nullable_def honest_result_def)
  have "check_batch sha256 ?r es = Inr ()"
    using b env by (auto simp: check_batch_def honest_result_def bindR_Inr_iff)
  moreover have "case book_changed_of (last es) of None \<Rightarrow> True
      | Some (bid, ask) \<Rightarrow> bid = side_top (flat BUY s') \<and> ask = side_top (flat SELL s')"
    using step_last_event [OF d(6)] by (auto simp: reported_top_def view_top_def)
  ultimately show ?thesis
    using events nullable b(3) state_structure_passes [OF d(2)] snapshot_passes [OF d(2)]
      observed_state_agrees [OF digest_of_snapshot [OF d(2)], of sha256]
    by (auto simp: check_parsed_result_def honest_result_def observed_state_of [OF d(2)] split: option.splits)
qed

lemma honest_result_configured:
  assumes "honest_step c index cmd es s s'"
  shows "validate_stream_configured_result \<lparr>nc_mode = m, nc_semantics_version = n, nc_input = c\<rparr>
    (honest_result sha256 mode c index cmd es (snapshot_of s')) = Inr ()"
proof -
  note d = honest_stepD [OF assms] and b = honest_batch [OF assms]
  have "validate_events_against_config es c = Inr ()" using d(14) by (intro events_in_config) (simp add: d(7))
  moreover have "case es of [] \<Rightarrow> False | AcceptedEvent h ct # _ \<Rightarrow> hdr_instrument_id h = ni_instrument_id c | _ \<Rightarrow> True"
    using assms
  proof (cases rule: honest_outcome)
    case committed
    then show ?thesis using b(4) d(8) by auto
  qed simp
  ultimately show ?thesis
    using state_fits_config [OF d(2), of c] snapshot_fits_config [OF d(2), of c] d(7-10)
    by (auto simp: validate_stream_configured_result_def honest_result_def Let_def bindR_Inr_iff split: list.splits event.splits)
qed

lemma level_count_view:
  assumes "engine_inv s"
  shows "length (view_levels sd s) = card (ord_price ` set (flat sd s))"
proof -
  have "pls_price ` set (view_levels sd s) = ord_price ` set (flat sd s)"
  proof (intro equalityI subsetI)
    fix p assume "p \<in> pls_price ` set (view_levels sd s)"
    then obtain l where l: "l \<in> set (view_levels sd s)" "p = pls_price l" by auto
    note m = level_members [OF assms l(1)]
    then obtain y where "y \<in> set (flat sd s)" "order_snapshot_of y \<in> set (pls_orders l)" by (cases "pls_orders l") auto
    with m(3) l(2) show "p \<in> ord_price ` set (flat sd s)" by (force simp: order_snapshot_of_def)
  next
    fix p assume "p \<in> ord_price ` set (flat sd s)"
    then obtain y where y: "y \<in> set (flat sd s)" "p = ord_price y" by auto
    then have "order_snapshot_of y \<in> set (concat (map pls_orders (view_levels sd s)))" by (simp add: view_levels_orders)
    then obtain l where l: "l \<in> set (view_levels sd s)" "order_snapshot_of y \<in> set (pls_orders l)" by auto
    with level_members(3) [OF assms l(1)] y(2) have "pls_price l = p" by (auto simp: order_snapshot_of_def)
    with l(1) show "p \<in> pls_price ` set (view_levels sd s)" by blast
  qed
  with distinct_card [OF view_levels_distinct [of sd s]] show ?thesis by simp
qed

text \<open>What the record before a command says of the state the command starts from.\<close>

definition observed :: "(bytes \<Rightarrow> string) \<Rightarrow> book_snapshot \<Rightarrow> native_state" where
  "observed sha256 snap = observed_state (hash_of (state_digest sha256 snap)) snap"

definition follows :: "(bytes \<Rightarrow> string) \<Rightarrow> native_result_record option \<Rightarrow> int \<Rightarrow> engine \<Rightarrow> bool" where
  "follows sha256 previous index s \<longleftrightarrow>
     (case previous of
        None \<Rightarrow> order_total (view_of s) = 0
      | Some r \<Rightarrow> nr_state r = observed sha256 (snapshot_of s) \<and> nr_line r = index + 1 \<and> nr_outcome r \<noteq> ENGINE_ERROR \<and>
          (nr_snapshot r = None \<or> nr_snapshot r = Some (snapshot_of s)))"

lemma same_view_same_book:
  assumes "engine_inv s" and "engine_inv s'" and "view_of s' = view_of s"
  shows "same_book (observed_state d' (snapshot_of s')) (observed_state d (snapshot_of s))"
proof -
  have "flat sd s' = flat sd s" for sd using fun_cong [OF assms(3), of sd] by simp
  then show ?thesis
    by (simp add: same_book_def observed_state_of [OF assms(1)] observed_state_of [OF assms(2)]
        level_count_view [OF assms(1)] level_count_view [OF assms(2)])
qed

lemma order_total_zero: "order_total v = 0 \<longleftrightarrow> v BUY = [] \<and> v SELL = []"
  by (simp add: order_total_def)

lemma honest_transition:
  assumes "honest_step c index cmd es s s'" and prev: "follows sha256 previous index s"
  shows "validate_stream_result_transition (honest_result sha256 mode c index cmd es (snapshot_of s')) index previous False = Inr ()"
proof -
  note d = honest_stepD [OF assms(1)] and b = honest_batch [OF assms(1)]
  let ?r = "honest_result sha256 mode c index cmd es (snapshot_of s')"
  let ?b = "\<lambda>s. side_top (flat BUY s)" and ?a = "\<lambda>s. side_top (flat SELL s)"
  have fields: "nr_events ?r = (if mode = EXACT then Some es else None)" "nr_command_sequence ?r = Some (index + 1)"
    by (simp_all add: honest_result_def)
  have st: "nr_state ?r = observed_state (hash_of (state_digest sha256 (snapshot_of s'))) (snapshot_of s')"
    by (simp add: honest_result_def)
  have tops: "(case map_option nr_state previous of
       None \<Rightarrow> ns_best_bid (nr_state ?r) \<noteq> None \<or> ns_best_ask (nr_state ?r) \<noteq> None
     | Some p \<Rightarrow> ns_best_bid p \<noteq> ns_best_bid (nr_state ?r) \<or> ns_best_ask p \<noteq> ns_best_ask (nr_state ?r)) \<longleftrightarrow>
      ?b s \<noteq> ?b s' \<or> ?a s \<noteq> ?a s'"
    using prev by (auto simp: follows_def st observed_def observed_state_of [OF d(1)] observed_state_of [OF d(2)] order_total_zero
        side_top_def split: option.splits list.splits)
  have last: "(book_changed_of (last es) \<noteq> None) = (?b s \<noteq> ?b s' \<or> ?a s \<noteq> ?a s')"
    using step_last_event [OF d(6)] by (auto simp: reported_top_def view_top_def)
  have seq: "ns_sequence_exhausted (nr_state ?r) = (index + 1 = U64_MAX)"
    "ns_next_sequence (nr_state ?r) = (if index + 1 = U64_MAX then 0 else index + 2)"
    using d(11,12) by (simp_all add: st observed_state_of [OF d(2)])
  have same: "case map_option nr_state previous of None \<Rightarrow> fresh_state (nr_state ?r) | Some p \<Rightarrow> same_book (nr_state ?r) p"
    if "view_of s' = view_of s"
  proof (cases previous)
    case None
    have "flat sd s' = flat sd s" for sd using fun_cong [OF that, of sd] by simp
    with None prev show ?thesis
      by (auto simp: follows_def st observed_state_of [OF d(2)] fresh_state_def order_total_zero side_top_def)
  next
    case (Some p)
    with prev same_view_same_book [OF d(1,2) that] show ?thesis by (auto simp: follows_def st observed_def)
  qed
  from assms(1) show ?thesis
  proof (cases rule: honest_outcome)
    case committed
    then have "nr_outcome ?r = COMMITTED" by (simp add: honest_result_def)
    then show ?thesis
      using seq tops last b(3) fields by (auto simp: validate_stream_result_transition_def Let_def)
  next
    case (rejected h reason oid)
    then have "nr_outcome ?r = REJECTED_OUTCOME" by (simp add: honest_result_def)
    then show ?thesis
      using seq same [OF rejected(2)] fields by (auto simp: validate_stream_result_transition_def Let_def split: option.splits)
  qed
qed

lemma honest_expected:
  assumes "honest_step c index cmd es s s'"
  shows "validate_stream_expected_result (honest_result sha256 mode c index cmd es (snapshot_of s')) cmd index = Inr ()"
  using honest_batch(3,4) [OF assms] honest_envelope(2) [OF assms]
  by (cases es) (auto simp: validate_stream_expected_result_def honest_result_def)

section \<open>Whole streams\<close>

text \<open>The decoder after some results of an honest engine.\<close>

definition midway ::
  "(bytes \<Rightarrow> string) \<Rightarrow> output_mode \<Rightarrow> native_input_config \<Rightarrow> int \<Rightarrow> command list \<Rightarrow> engine \<Rightarrow> stream_decoder \<Rightarrow> bool" where
  "midway sha256 mode c index cmds s d \<longleftrightarrow>
     sd_expected_mode d = Some mode \<and> sd_expected_input d = Some c \<and> sd_expected_commands d = Some cmds \<and>
     sd_config d = Some \<lparr>nc_mode = mode, nc_semantics_version = ATLASLOB_SEMANTICS_VERSION, nc_input = c\<rparr> \<and>
     sd_final d = None \<and> sd_error d = None \<and> sd_result_count d = index \<and> \<not> sd_engine_error_seen d \<and> \<not> sd_finished d \<and>
     0 < sd_output_line d \<and> (sd_last_result d = None \<longleftrightarrow> index = 0) \<and> follows sha256 (sd_last_result d) index s"

lemma honest_accepted:
  assumes "honest_step c index cmd es s s'" and "midway sha256 mode c index (cmd # cmds) s d"
  shows "\<exists>d'. feed_record sha256 (ResultRecord (honest_result sha256 mode c index cmd es (snapshot_of s'))) d = (Inr (), d') \<and>
    midway sha256 mode c (index + 1) cmds s' d' \<and>
    sd_last_result d' = Some (honest_result sha256 mode c index cmd es (snapshot_of s'))"
proof -
  let ?r = "honest_result sha256 mode c index cmd es (snapshot_of s')"
  have m: "validate_result_mode ?r mode = Inr ()" by (cases mode) (simp_all add: validate_result_mode_def honest_result_def)
  have line: "\<not> (case sd_last_result d of None \<Rightarrow> False | Some prev \<Rightarrow> nr_line ?r \<le> nr_line prev)"
    using assms(2) by (auto simp: midway_def follows_def honest_result_def split: option.splits)
  have fields: "nr_command_index ?r = index" "nr_line ?r = index + 2" "nr_outcome ?r \<noteq> ENGINE_ERROR"
    "nr_state ?r = observed sha256 (snapshot_of s')" "nr_snapshot ?r = None \<or> nr_snapshot ?r = Some (snapshot_of s')"
    by (simp_all add: honest_result_def observed_def)
  note pass = honest_result_parses [OF assms(1), of sha256 mode] honest_result_configured [OF assms(1)]
    honest_transition [OF assms(1), of sha256 "sd_last_result d" mode] honest_expected [OF assms(1), of sha256 mode]
  let ?d1 = "d\<lparr>sd_output_line := sd_output_line d + 1\<rparr>"
  let ?d2 = "?d1\<lparr>sd_expected_commands := Some cmds, sd_result_count := index + 1,
          sd_last_result := Some ?r, sd_engine_error_seen := False\<rparr>"
  have "fst (accept_result sha256 ?r ?d1) = Inr () \<and> snd (accept_result sha256 ?r ?d1) = ?d2"
    using assms(2) pass m line fields
    by (auto simp: accept_result_def midway_def take_expected_command_def prog_simps)
  then have "accept_result sha256 ?r ?d1 = (Inr (), ?d2)" by (simp add: prod_eq_iff)
  then have fed: "feed_record sha256 (ResultRecord ?r) d = (Inr (), ?d2)"
    using assms(2) by (simp add: feed_record_def prog_simps midway_def)
  have "midway sha256 mode c (index + 1) cmds s' ?d2"
    using assms(2) fields honest_stepD(4) [OF assms(1)] by (auto simp: midway_def follows_def)
  with fed show ?thesis by (intro exI [of _ ?d2]) simp
qed

text \<open>An honest run: the engine executes the commands, and after each one its state is observed.\<close>

fun honest_results ::
  "(bytes \<Rightarrow> string) \<Rightarrow> output_mode \<Rightarrow> native_input_config \<Rightarrow> int \<Rightarrow> command list \<Rightarrow> (engine, native_result_record list) prog" where
  "honest_results sha256 mode c index [] = ret []"
| "honest_results sha256 mode c index (cmd # cmds) =
     bindP (execute cmd) (\<lambda>res.
     bindP snapshot (\<lambda>snap.
     case result_batch res of
       None \<Rightarrow> ret []
     | Some b \<Rightarrow>
         bindP (honest_results sha256 mode c (index + 1) cmds) (\<lambda>rs.
         ret (honest_result sha256 mode c index cmd (batch_events b) snap # rs))))"

definition honest_final :: "(bytes \<Rightarrow> string) \<Rightarrow> int \<Rightarrow> book_snapshot \<Rightarrow> native_final_record" where
  "honest_final sha256 n snap =
     \<lparr>nf_commands_processed = n, nf_state = observed_state (hash_of (state_digest sha256 snap)) snap, nf_snapshot = snap\<rparr>"

definition honest_config :: "output_mode \<Rightarrow> native_input_config \<Rightarrow> native_config_record" where
  "honest_config mode c = \<lparr>nc_mode = mode, nc_semantics_version = ATLASLOB_SEMANTICS_VERSION, nc_input = c\<rparr>"

definition honest_records ::
  "(bytes \<Rightarrow> string) \<Rightarrow> output_mode \<Rightarrow> native_input_config \<Rightarrow> command list \<Rightarrow> (engine, native_record list) prog" where
  "honest_records sha256 mode c cmds =
     bindP (honest_results sha256 mode c 0 cmds) (\<lambda>rs.
     bindP snapshot (\<lambda>snap.
     ret (ConfigRecord (honest_config mode c) # map ResultRecord rs @ [FinalRecord (honest_final sha256 (int (length rs)) snap)])))"

text \<open>One command of an honest run.\<close>

lemma honest_execute:
  assumes inv: "engine_inv s" and rep: "require_representable cmd = Inr ()" and idx: "0 \<le> index" "index + 1 \<le> U64_MAX"
    and upcoming: "eng_next_sequence s = index + 1" "\<not> eng_sequence_exhausted s"
    and c: "ni_engine c = eng_config s" "ni_instrument_id c = eng_instrument_id s"
    and size: "order_total (view_of s) + 6 \<le> nat U32_MAX"
  obtains es s1 s2 where "execute cmd s = (Inr (accepted_result es), s1)" and "snapshot s1 = (Inr (snapshot_of s2), s2)"
    and "honest_step c index cmd es s s2" and "order_total (view_of s2) \<le> Suc (order_total (view_of s))"
proof -
  obtain es v where spec: "spec_step (eng_config s) (eng_instrument_id s) cmd (index + 1) (view_of s) = (es, v)"
    by (metis prod.exhaust)
  from execute_refines [OF inv rep upcoming(2)] spec upcoming(1) obtain s1 where
    s1: "execute cmd s = (Inr (accepted_result es), s1)" "engine_inv s1"
      "static_of s1 = static_of (observe_sequence (index + 1) s)" "view_of s1 = v" by auto
  from snapshot_spec [OF s1(2)] obtain s2 where
    s2: "snapshot s1 = (Inr (snapshot_of s1), s2)" "heap_only s1 s2" "engine_inv s2" by blast
  have same: "snapshot_of s2 = snapshot_of s1" "view_of s2 = v"
    using heap_only_fields [OF s2(2)] static_of_eqD [OF heap_only_fields(2) [OF s2(2)]] s1(4)
    by (simp_all add: snapshot_of_def view_levels_heap_only [OF s2(2)])
  have st: "static_of s2 = static_of (observe_sequence (index + 1) s)" using heap_only_fields(2) [OF s2(2)] s1(3) by simp
  have sz: "length es \<le> order_total (view_of s) + 6" "order_total v \<le> Suc (order_total (view_of s))"
    using step_sizes [OF engine_view_ok [OF inv] rep spec] by auto
  have "honest_step c index cmd es s s2"
    unfolding honest_step_def
    using inv s2(3) rep idx spec same(2) c static_of_eqD [OF st] upcoming sz(1) size
    by (auto simp: observe_sequence_def Let_def)
  with that [OF s1(1)] s2(1) same sz(2) show ?thesis by simp
qed

lemma feed_results:
  assumes "feed_record sha256 (ResultRecord r) d = (Inr (), d1)"
  shows "feed_records sha256 (ResultRecord r # recs) d =
    (case feed_records sha256 recs d1 of (Inr rs, d2) \<Rightarrow> (Inr (r # rs), d2) | (Inl e, d2) \<Rightarrow> (Inl e, d2))"
  using assms by (auto simp: prog_simps split: prod.splits sum.splits)

lemma honest_run_accepted:
  assumes "engine_inv s" and "\<forall>cmd \<in> set cmds. require_representable cmd = Inr ()" and "0 \<le> index"
    and "index + int (length cmds) + 6 \<le> U32_MAX" and "int (order_total (view_of s)) \<le> index"
    and "eng_next_sequence s = index + 1" "\<not> eng_sequence_exhausted s"
    and "ni_engine c = eng_config s" "ni_instrument_id c = eng_instrument_id s"
    and "midway sha256 mode c index cmds s d"
  shows "\<exists>rs s' d'. honest_results sha256 mode c index cmds s = (Inr rs, s') \<and> length rs = length cmds \<and> engine_inv s' \<and>
    eng_config s' = eng_config s \<and> eng_instrument_id s' = eng_instrument_id s \<and>
    eng_next_sequence s' = index + int (length cmds) + 1 \<and> \<not> eng_sequence_exhausted s' \<and>
    midway sha256 mode c (index + int (length cmds)) [] s' d' \<and>
    (\<forall>recs. feed_records sha256 (map ResultRecord rs @ recs) d =
      (case feed_records sha256 recs d' of (Inr xs, d2) \<Rightarrow> (Inr (rs @ xs), d2) | (Inl e, d2) \<Rightarrow> (Inl e, d2)))"
  using assms
proof (induction cmds arbitrary: index s d)
  case Nil
  then show ?case by (intro exI [of _ "[]"] exI [of _ s] exI [of _ d]) (auto split: prod.splits sum.splits)
next
  case (Cons cmd cmds)
  have "int (order_total (view_of s) + 6) \<le> U32_MAX" using Cons.prems(4,5) by (simp del: view_of_app)
  then have small: "index + 1 \<le> U64_MAX" "index + 1 \<noteq> U64_MAX" "order_total (view_of s) + 6 \<le> nat U32_MAX"
    using Cons.prems(4) by (simp_all add: width_defs nat_le_iff le_nat_iff)
  obtain es s1 s2 where e: "execute cmd s = (Inr (accepted_result es), s1)" "snapshot s1 = (Inr (snapshot_of s2), s2)"
    and h: "honest_step c index cmd es s s2" and sz: "order_total (view_of s2) \<le> Suc (order_total (view_of s))"
    using honest_execute [OF Cons.prems(1) _ Cons.prems(3) small(1) Cons.prems(6,7,8,9) small(3), of cmd] Cons.prems(2)
    by auto
  note hd = honest_stepD [OF h]
  let ?r = "honest_result sha256 mode c index cmd es (snapshot_of s2)"
  from honest_accepted [OF h Cons.prems(10)] obtain d1 where
    d1: "feed_record sha256 (ResultRecord ?r) d = (Inr (), d1)" "midway sha256 mode c (index + 1) cmds s2 d1" by blast
  have "\<exists>rs s' d'. honest_results sha256 mode c (index + 1) cmds s2 = (Inr rs, s') \<and> length rs = length cmds \<and> engine_inv s' \<and>
    eng_config s' = eng_config s2 \<and> eng_instrument_id s' = eng_instrument_id s2 \<and>
    eng_next_sequence s' = index + 1 + int (length cmds) + 1 \<and> \<not> eng_sequence_exhausted s' \<and>
    midway sha256 mode c (index + 1 + int (length cmds)) [] s' d' \<and>
    (\<forall>recs. feed_records sha256 (map ResultRecord rs @ recs) d1 =
      (case feed_records sha256 recs d' of (Inr xs, d2) \<Rightarrow> (Inr (rs @ xs), d2) | (Inl e, d2) \<Rightarrow> (Inl e, d2)))"
    using Cons.prems(2-5) small(2) hd sz d1(2) by (intro Cons.IH) (auto simp del: view_of_app)
  then obtain rs s' d' where ih: "honest_results sha256 mode c (index + 1) cmds s2 = (Inr rs, s')" "length rs = length cmds"
      "engine_inv s'" "eng_config s' = eng_config s2" "eng_instrument_id s' = eng_instrument_id s2"
      "eng_next_sequence s' = index + 1 + int (length cmds) + 1" "\<not> eng_sequence_exhausted s'"
      "midway sha256 mode c (index + 1 + int (length cmds)) [] s' d'"
    and feed: "\<And>recs. feed_records sha256 (map ResultRecord rs @ recs) d1 =
      (case feed_records sha256 recs d' of (Inr xs, d2) \<Rightarrow> (Inr (rs @ xs), d2) | (Inl e, d2) \<Rightarrow> (Inl e, d2))"
    by blast
  have "honest_results sha256 mode c index (cmd # cmds) s = (Inr (?r # rs), s')"
    using e ih(1) by (simp add: bindP_def accepted_result_def)
  moreover have "feed_records sha256 (map ResultRecord (?r # rs) @ recs) d =
      (case feed_records sha256 recs d' of (Inr xs, d2) \<Rightarrow> (Inr ((?r # rs) @ xs), d2) | (Inl e, d2) \<Rightarrow> (Inl e, d2))" for recs
    using feed_results [OF d1(1)] feed [of recs] by (auto split: prod.splits sum.splits)
  moreover have "index + 1 + int (length cmds) = index + int (length (cmd # cmds))" by simp
  ultimately show ?case
    using ih(2-8) hd(9,10) by (intro exI [of _ "?r # rs"] exI [of _ s'] exI [of _ d']) (simp add: add.assoc)
qed

lemma honest_final_accepted:
  assumes inv: "engine_inv s" and c: "ni_engine c = eng_config s" "ni_instrument_id c = eng_instrument_id s"
    and next_seq: "eng_next_sequence s = index + 1" "\<not> eng_sequence_exhausted s"
    and m: "midway sha256 mode c index [] s d"
  shows "\<exists>d'. feed_record sha256 (FinalRecord (honest_final sha256 index (snapshot_of s))) d = (Inr (), d') \<and>
    fst (decoder_finish (Some 0) d') = Inr \<lparr>ss_config = Some (honest_config mode c), ss_result_count = index,
      ss_last_result = sd_last_result d, ss_final = Some (honest_final sha256 index (snapshot_of s)), ss_error = None\<rparr>"
proof -
  let ?f = "honest_final sha256 index (snapshot_of s)"
  have f: "nf_commands_processed ?f = index" "nf_state ?f = observed sha256 (snapshot_of s)" "nf_snapshot ?f = snapshot_of s"
    by (simp_all add: honest_final_def observed_def)
  have parsed: "check_parsed_final sha256 ?f = Inr ()"
    using state_structure_passes [OF inv] snapshot_passes [OF inv] observed_state_agrees [OF digest_of_snapshot [OF inv]]
    by (simp add: check_parsed_final_def f observed_def)
  have conf: "validate_stream_configured_final (honest_config mode c) ?f = Inr ()"
    using state_fits_config [OF inv c(1)] snapshot_fits_config [OF inv c]
    by (simp add: validate_stream_configured_final_def honest_config_def f observed_def)
  have last: "eng_last_sequence s = index" using inv next_seq by (simp add: engine_inv_def sequence_ok_def)
  have cont: "validate_stream_final_continuity (sd_last_result d) ?f = Inr ()"
  proof (cases "sd_last_result d")
    case None
    then have "index = 0" "flat BUY s = []" "flat SELL s = []"
      using m by (auto simp: midway_def follows_def order_total_zero)
    moreover from this have "view_levels BUY s = []" "view_levels SELL s = []"
      using levels_nonempty [OF inv, of BUY] levels_nonempty [OF inv, of SELL] by simp_all
    ultimately show ?thesis
      using None next_seq last
      by (simp add: validate_stream_final_continuity_def honest_final_def observed_state_of [OF inv])
  next
    case (Some r)
    then show ?thesis using m by (auto simp: validate_stream_final_continuity_def midway_def follows_def honest_final_def observed_def)
  qed
  let ?d1 = "d\<lparr>sd_output_line := sd_output_line d + 1, sd_final := Some ?f\<rparr>"
  have "feed_record sha256 (FinalRecord ?f) d = (Inr (), ?d1)"
    using m parsed conf cont f(1) by (simp add: feed_record_def accept_final_def midway_def prog_simps honest_config_def)
  moreover have "fst (decoder_finish (Some 0) ?d1) = Inr \<lparr>ss_config = Some (honest_config mode c), ss_result_count = index,
      ss_last_result = sd_last_result d, ss_final = Some ?f, ss_error = None\<rparr>"
    using m
    by (auto simp: decoder_finish_def midway_def prog_simps validate_stream_process_terminal_state_def Let_def
        expected_exhausted_def expected_has_remaining_def follows_def honest_config_def split: option.splits)
  ultimately show ?thesis by blast
qed

lemma engine_static:
  assumes "ReferenceEngine iid (Some c) first check = Inr s" and "matching_config_ok c"
  shows "eng_config s = c" "eng_instrument_id s = iid" "\<not> eng_sequence_exhausted s"
proof -
  let ?s = "initial_engine iid (Some c) first check"
  have r: "1 \<le> iid" "iid \<le> U32_MAX" "1 \<le> first" "first \<le> U64_MAX"
    using assms(1) by (auto simp: ReferenceEngine_def split: if_splits)
  from assert_invariants_clean [OF initial_engine_inv [OF r, of "Some c" check]] assms(2) obtain s' where
    s': "assert_invariants ?s = (Inr (), s')" "heap_only ?s s'" by auto
  then have "s = s'" using assms(1) r by (simp add: ReferenceEngine_def)
  with static_of_eqD [OF heap_only_fields(2) [OF s'(2)]]
  show "eng_config s = c" "eng_instrument_id s = iid" "\<not> eng_sequence_exhausted s" by (simp_all add: initial_engine_def)
qed

lemma honest_records_accepted:
  assumes "ReferenceEngine (ni_instrument_id c) (Some (ni_engine c)) 1 check = Inr s" and "matching_config_ok (ni_engine c)"
    and "\<forall>cmd \<in> set cmds. require_representable cmd = Inr ()" and "int (length cmds) + 6 \<le> U32_MAX"
  shows "\<exists>rs snap s'. length rs = length cmds \<and>
    honest_records sha256 mode c cmds s =
      (Inr (ConfigRecord (honest_config mode c) # map ResultRecord rs @
        [FinalRecord (honest_final sha256 (int (length cmds)) snap)]), s') \<and>
    decode_records sha256 (Some mode) (Some c) (Some cmds) (Some 0)
      (ConfigRecord (honest_config mode c) # map ResultRecord rs @ [FinalRecord (honest_final sha256 (int (length cmds)) snap)]) =
    Inr \<lparr>nt_config = Some (honest_config mode c), nt_results = rs,
      nt_final = Some (honest_final sha256 (int (length cmds)) snap), nt_error = None\<rparr>"
proof -
  let ?d0 = "NativeStreamDecoder (Some mode) (Some c) (Some cmds)"
  let ?d1 = "?d0\<lparr>sd_output_line := 1, sd_config := Some (honest_config mode c)\<rparr>"
  have s: "engine_inv s" "view_of s = (\<lambda>_. [])" "eng_next_sequence s = 1"
    using ReferenceEngine_inv [OF assms(1)] assms(2) by simp_all
  have st: "ni_engine c = eng_config s" "ni_instrument_id c = eng_instrument_id s" "\<not> eng_sequence_exhausted s"
    using engine_static [OF assms(1,2)] by simp_all
  have cfg: "feed_record sha256 (ConfigRecord (honest_config mode c)) ?d0 = (Inr (), ?d1)"
    by (simp add: feed_record_def NativeStreamDecoder_def accept_config_def honest_config_def prog_simps)
  have mid: "midway sha256 mode c 0 cmds s ?d1"
    by (simp add: midway_def NativeStreamDecoder_def honest_config_def follows_def order_total_def s(2) del: view_of_app)
  have "\<exists>rs s' d'. honest_results sha256 mode c 0 cmds s = (Inr rs, s') \<and> length rs = length cmds \<and> engine_inv s' \<and>
    eng_config s' = eng_config s \<and> eng_instrument_id s' = eng_instrument_id s \<and>
    eng_next_sequence s' = 0 + int (length cmds) + 1 \<and> \<not> eng_sequence_exhausted s' \<and>
    midway sha256 mode c (0 + int (length cmds)) [] s' d' \<and>
    (\<forall>recs. feed_records sha256 (map ResultRecord rs @ recs) ?d1 =
      (case feed_records sha256 recs d' of (Inr xs, d2) \<Rightarrow> (Inr (rs @ xs), d2) | (Inl e, d2) \<Rightarrow> (Inl e, d2)))"
    using s st assms(3,4) mid by (intro honest_run_accepted) (simp_all add: order_total_def del: view_of_app)
  then obtain rs s1 d' where r: "honest_results sha256 mode c 0 cmds s = (Inr rs, s1)" "length rs = length cmds" "engine_inv s1"
      "eng_config s1 = eng_config s" "eng_instrument_id s1 = eng_instrument_id s"
      "eng_next_sequence s1 = int (length cmds) + 1" "\<not> eng_sequence_exhausted s1"
      "midway sha256 mode c (int (length cmds)) [] s1 d'"
    and feed: "\<And>recs. feed_records sha256 (map ResultRecord rs @ recs) ?d1 =
      (case feed_records sha256 recs d' of (Inr xs, d2) \<Rightarrow> (Inr (rs @ xs), d2) | (Inl e, d2) \<Rightarrow> (Inl e, d2))"
    by auto
  from snapshot_spec [OF r(3)] obtain s2 where s2: "snapshot s1 = (Inr (snapshot_of s1), s2)" by blast
  let ?f = "honest_final sha256 (int (length cmds)) (snapshot_of s1)"
  from honest_final_accepted [OF r(3) _ _ r(6,7,8)] st r(4,5) obtain d2 where
    d2: "feed_record sha256 (FinalRecord ?f) d' = (Inr (), d2)"
      "fst (decoder_finish (Some 0) d2) = Inr \<lparr>ss_config = Some (honest_config mode c), ss_result_count = int (length cmds),
        ss_last_result = sd_last_result d', ss_final = Some ?f, ss_error = None\<rparr>" by auto
  have "feed_records sha256 [FinalRecord ?f] d' = (Inr [], d2)" using d2(1) by (simp add: prog_simps)
  then have "feed_records sha256 (ConfigRecord (honest_config mode c) # map ResultRecord rs @ [FinalRecord ?f]) ?d0 = (Inr rs, d2)"
    using cfg feed [of "[FinalRecord ?f]"] by (simp add: prog_simps)
  then have "decode_records sha256 (Some mode) (Some c) (Some cmds) (Some 0)
      (ConfigRecord (honest_config mode c) # map ResultRecord rs @ [FinalRecord ?f]) =
    Inr \<lparr>nt_config = Some (honest_config mode c), nt_results = rs, nt_final = Some ?f, nt_error = None\<rparr>"
    using d2(2) by (auto simp: decode_records_def bindP_def split: prod.splits sum.splits)
  moreover have "honest_records sha256 mode c cmds s =
      (Inr (ConfigRecord (honest_config mode c) # map ResultRecord rs @ [FinalRecord ?f]), s2)"
    using r(1,2) s2 by (simp add: honest_records_def bindP_def)
  ultimately show ?thesis using r(2) by blast
qed

end
