(* ===== verification/Differential_Properties.thy ===== *)
theory Differential_Properties
  imports Differential Evidence_Complete
begin

text \<open>
  What the differential harness decides: the value comparison is equality up to the order of keys, the
  evidence values determine the records they describe, and a comparison passes exactly when the native
  stream is, record by record, the one the reference engine produces.
\<close>

section \<open>Evidence determines what it describes\<close>

lemma decimal_text_inject [simp]: "py_str i = py_str j \<longleftrightarrow> i = j"
  by (metis py_int_str)

lemma side_name_inject [simp]: "side_name x = side_name y \<longleftrightarrow> x = y"
  by (cases x; cases y) simp_all

lemma command_name_inject [simp]: "command_name x = command_name y \<longleftrightarrow> x = y"
  by (cases x; cases y) simp_all

lemma done_reason_name_inject [simp]: "done_reason_name x = done_reason_name y \<longleftrightarrow> x = y"
  by (cases x; cases y) simp_all

lemma reject_reason_name_inject [simp]: "reject_reason_name x = reject_reason_name y \<longleftrightarrow> x = y"
proof
  assume eq: "reject_reason_name x = reject_reason_name y"
  have "inj reject_reason_name" by (rule injI, case_tac x; case_tac y; simp)
  with eq show "x = y" by (simp add: inj_eq)
qed simp

lemma engine_error_name_inject [simp]: "engine_error_name x = engine_error_name y \<longleftrightarrow> x = y"
  by (cases x; cases y) simp_all

lemma outcome_name_inject [simp]: "outcome_name x = outcome_name y \<longleftrightarrow> x = y"
  by (cases x; cases y) simp_all

lemma jopt_same:
  assumes "\<And>x y. x \<in> set_option a \<Longrightarrow> y \<in> set_option b \<Longrightarrow> json_same (f x) (f y) \<Longrightarrow> x = y" and "\<And>x. f x \<noteq> JNull"
    and "json_same (jopt f a) (jopt f b)"
  shows "a = b"
  using assms by (cases a; cases b) (auto simp: jopt_def)

lemma json_same_maps:
  assumes "list_all2 json_same (map f xs) (map f ys)" and "\<And>x y. x \<in> set xs \<Longrightarrow> y \<in> set ys \<Longrightarrow> json_same (f x) (f y) \<Longrightarrow> x = y"
  shows "xs = ys"
  using assms
proof (induction xs arbitrary: ys)
  case (Cons x xs)
  then show ?case by (cases ys) auto
qed simp

lemma top_mapping_same: "json_same (top_to_mapping a) (top_to_mapping b) \<Longrightarrow> a = b"
  unfolding top_to_mapping_def
  by (erule jopt_same [rotated 2]) (auto simp: json_same_objects intro: top_of_book_level.equality)

lemma order_mapping_same: "json_same (order_to_mapping x) (order_to_mapping y) \<Longrightarrow> x = y"
  by (auto simp: order_to_mapping_def json_same_objects intro: order_snapshot.equality)

lemma level_mapping_same:
  assumes "json_same (level_to_mapping x) (level_to_mapping y)"
  shows "x = y"
proof -
  have "pls_price x = pls_price y" "pls_aggregate_quantity x = pls_aggregate_quantity y"
    and "list_all2 json_same (map order_to_mapping (pls_orders x)) (map order_to_mapping (pls_orders y))"
    using assms by (simp_all add: level_to_mapping_def json_same_objects)
  moreover from json_same_maps [OF this(3)] order_mapping_same have "pls_orders x = pls_orders y" by blast
  ultimately show ?thesis by (simp add: price_level_snapshot.equality)
qed

lemma snapshot_mapping_same:
  assumes "json_same (snapshot_to_mapping x) (snapshot_to_mapping y)"
  shows "x = y"
proof -
  have f: "bs_semantics_version x = bs_semantics_version y" "bs_instrument_id x = bs_instrument_id y"
    "bs_last_sequence x = bs_last_sequence y" "bs_sequence_exhausted x = bs_sequence_exhausted y"
    "bs_active_order_count x = bs_active_order_count y"
    and "list_all2 json_same (map level_to_mapping (bs_bids x)) (map level_to_mapping (bs_bids y))"
    and "list_all2 json_same (map level_to_mapping (bs_asks x)) (map level_to_mapping (bs_asks y))"
    using assms by (simp_all add: snapshot_to_mapping_def json_same_objects)
  with json_same_maps [OF this(6)] json_same_maps [OF this(7)] level_mapping_same
  have "bs_bids x = bs_bids y" "bs_asks x = bs_asks y" by blast+
  with f show ?thesis by (simp add: book_snapshot.equality)
qed

lemma state_mapping_same:
  assumes "json_same (native_state_mapping x) (native_state_mapping y)"
  shows "x = y"
  using assms by (auto simp: native_state_mapping_def json_same_objects dest!: top_mapping_same intro: native_state.equality)

lemma json_same_field:
  assumes "json_same (JObj a) (JObj b)" and "map_of a k = Some u"
  shows "\<exists>v. map_of b k = Some v \<and> json_same u v"
proof -
  have "k \<in> set (map fst a @ map fst b)" using assms(2) missing_key [of k a] by simp
  with assms show ?thesis by (auto simp: json_same.simps [of "JObj a"] split: option.splits dest!: bspec)
qed

lemma event_mapping_same:
  assumes "json_same (event_to_mapping x) (event_to_mapping y)"
  shows "x = y"
proof -
  have n: "event_name x = event_name y"
    using json_same_field [OF assms [unfolded event_to_mapping_def Let_def], of "''type''"] by auto
  have h: "event_header_of x = event_header_of y"
    using json_same_field [OF assms [unfolded event_to_mapping_def Let_def], of "''header''"]
    by (auto simp: json_same_objects intro: event_header.equality)
  from n h assms show ?thesis
    by (cases x; cases y)
      (auto simp: event_to_mapping_def json_same_objects intro: trade_body.equality rested_body.equality
        dest!: top_mapping_same jopt_same [where f = jnum, rotated 2])
qed

lemma result_mapping_same:
  assumes "json_same (native_result_mapping x) (native_result_mapping y)" and "nr_line x = nr_line y"
  shows "x = y"
proof -
  let ?ev = "\<lambda>es. JList (map event_to_mapping es)"
  have f: "nr_command_index x = nr_command_index y" "nr_command_type x = nr_command_type y" "nr_outcome x = nr_outcome y"
    and "json_same (jopt jnum (nr_command_sequence x)) (jopt jnum (nr_command_sequence y))"
    and "json_same (jopt (\<lambda>e. JStr (engine_error_name e)) (nr_engine_error x)) (jopt (\<lambda>e. JStr (engine_error_name e)) (nr_engine_error y))"
    and "json_same (jopt (\<lambda>r. JStr (reject_reason_name r)) (nr_reject_reason x)) (jopt (\<lambda>r. JStr (reject_reason_name r)) (nr_reject_reason y))"
    and "json_same (jopt JStr (nr_event_digest x)) (jopt JStr (nr_event_digest y))"
    and evs: "json_same (jopt ?ev (nr_events x)) (jopt ?ev (nr_events y))"
    and st: "json_same (native_state_mapping (nr_state x)) (native_state_mapping (nr_state y))"
    and sn: "json_same (jopt snapshot_to_mapping (nr_snapshot x)) (jopt snapshot_to_mapping (nr_snapshot y))"
    using assms(1) by (simp_all add: native_result_mapping_def json_same_objects)
  then have g: "nr_command_sequence x = nr_command_sequence y" "nr_engine_error x = nr_engine_error y"
    "nr_reject_reason x = nr_reject_reason y" "nr_event_digest x = nr_event_digest y"
    by (auto dest!: jopt_same [rotated 2])
  have "nr_events x = nr_events y"
    by (rule jopt_same [OF _ _ evs]) (auto dest!: json_same_maps intro: event_mapping_same)
  moreover have "nr_snapshot x = nr_snapshot y"
    by (rule jopt_same [OF _ _ sn]) (auto simp: snapshot_to_mapping_def [THEN arg_cong, of "\<lambda>j. j \<noteq> JNull"] intro: snapshot_mapping_same)
  moreover have "nr_state x = nr_state y" by (rule state_mapping_same [OF st])
  ultimately show ?thesis using f g assms(2) by (simp add: native_result_record.equality)
qed

lemma final_mapping_same:
  assumes "json_same (native_final_mapping x) (native_final_mapping y)"
  shows "x = y"
  using assms
  by (auto simp: native_final_mapping_def json_same_objects dest!: state_mapping_same snapshot_mapping_same
      intro: native_final_record.equality)

lemma kinds_differ:
  "\<not> json_same (native_result_mapping r) (native_final_mapping f)"
  "\<not> json_same (native_final_mapping f) (native_result_mapping r)"
  using json_same_field [of _ _ "''kind''"] by (force simp: native_result_mapping_def native_final_mapping_def)+

section \<open>The evidence of an honest run\<close>

definition bump :: "outcome \<Rightarrow> classification_counts \<Rightarrow> classification_counts" where
  "bump o' c = (case o' of
     COMMITTED \<Rightarrow> c\<lparr>cc_committed := cc_committed c + 1\<rparr>
   | REJECTED_OUTCOME \<Rightarrow> c\<lparr>cc_rejected := cc_rejected c + 1\<rparr>
   | ENGINE_ERROR \<Rightarrow> c\<lparr>cc_engine_error := cc_engine_error c + 1\<rparr>)"

lemma count_outcome_name: "count_outcome (JStr (outcome_name o')) c = Inr (bump o' c)"
  by (cases o') (simp_all add: count_outcome_def bump_def)

definition evidence_of :: "native_result_record \<Rightarrow> json" where
  "evidence_of r = get_key (native_result_mapping r) ''evidence''"

lemma native_result_mapping_eq:
  "native_result_mapping r = JObj [(''kind'', JStr ''result''), (''command_index'', jnum (nr_command_index r)), (''evidence'', evidence_of r)]"
  by (simp add: evidence_of_def native_result_mapping_def)

lemma evidence_outcome: "get_key (evidence_of r) ''outcome'' = JStr (outcome_name (nr_outcome r))"
  by (simp add: evidence_of_def native_result_mapping_def)

definition evidence_line :: "native_result_record \<Rightarrow> json" where
  "evidence_line r = JObj ([(''schema'', JStr REFERENCE_EVIDENCE_SCHEMA), (''kind'', JStr ''result'')] @
     result_envelope (nr_command_index r) (evidence_of r))"

lemma state_evidence:
  assumes "state_digest sha256 snap = Inr d"
  shows "reference_state_mapping sha256 snap = Inr (native_state_mapping (observed_state d snap))"
  using assms
  by (auto simp: reference_state_mapping_def native_state_mapping_def observed_state_def snapshot_side_summary_def
      side_summary_mapping_def snapshot_top_mapping_def top_to_mapping_def snapshot_top_def jopt_def split: list.splits)

lemma honest_evidence:
  assumes "honest_step c index cmd es s s'"
  shows "reference_result_evidence sha256 cmd (accepted_result es) (snapshot_of s') mode
      (is_checkpoint index (ni_snapshot_interval c)) =
    Inr (evidence_of (honest_result sha256 mode c index cmd es (snapshot_of s')))"
proof -
  note b = honest_batch [OF assms]
  have rej: "batch_rejected \<lparr>batch_events = es\<rparr> \<longleftrightarrow> event_type_of (hd es) = REJECTED"
    using b(3) by (cases es) (auto simp: batch_rejected_def)
  have none: "event_type_of (hd es) \<noteq> REJECTED \<Longrightarrow> rejection_of es = None"
    using b(3) by (cases es; cases "hd es") auto
  obtain d e where d: "event_digest sha256 \<lparr>batch_events = es\<rparr> = Inr d" "state_digest sha256 (snapshot_of s') = Inr e"
    using b(5) digest_of_snapshot [OF honest_stepD(2) [OF assms]] by blast
  show ?thesis
    using none
    by (auto simp: reference_result_evidence_def accepted_result_def d hash_of_def b(2) rej evidence_of_def
        state_evidence native_result_mapping_def honest_result_def
        is_checkpoint_def expected_checkpoint_def jopt_def)
qed

inductive honest_trace ::
  "(bytes \<Rightarrow> string) \<Rightarrow> output_mode \<Rightarrow> native_input_config \<Rightarrow> int \<Rightarrow> command list \<Rightarrow> native_result_record list \<Rightarrow> engine \<Rightarrow> engine \<Rightarrow> bool"
  for sha256 mode c where
  trace_done: "honest_trace sha256 mode c index [] [] s s"
| trace_step: "execute cmd s = (Inr (accepted_result es), s1) \<Longrightarrow> snapshot s1 = (Inr (snapshot_of s2), s2) \<Longrightarrow>
    honest_step c index cmd es s s2 \<Longrightarrow> honest_trace sha256 mode c (index + 1) cmds rs s2 s' \<Longrightarrow>
    honest_trace sha256 mode c index (cmd # cmds) (honest_result sha256 mode c index cmd es (snapshot_of s2) # rs) s s'"

lemma honest_trace_exists:
  assumes "engine_inv s" and "\<forall>cmd \<in> set cmds. require_representable cmd = Inr ()" and "0 \<le> index"
    and "index + int (length cmds) + 6 \<le> U32_MAX" and "int (order_total (view_of s)) \<le> index"
    and "eng_next_sequence s = index + 1" "\<not> eng_sequence_exhausted s"
    and "ni_engine c = eng_config s" "ni_instrument_id c = eng_instrument_id s"
  shows "\<exists>rs s'. honest_trace sha256 mode c index cmds rs s s' \<and> engine_inv s' \<and> eng_config s' = eng_config s \<and>
    eng_instrument_id s' = eng_instrument_id s \<and> eng_next_sequence s' = index + int (length cmds) + 1 \<and> \<not> eng_sequence_exhausted s'"
  using assms
proof (induction cmds arbitrary: index s)
  case Nil
  then show ?case by (auto intro: trace_done)
next
  case (Cons cmd cmds)
  have "int (order_total (view_of s) + 6) \<le> U32_MAX" using Cons.prems(4,5) by (simp del: view_of_app)
  then have small: "index + 1 \<le> U64_MAX" "index + 1 \<noteq> U64_MAX" "order_total (view_of s) + 6 \<le> nat U32_MAX"
    using Cons.prems(4) by (simp_all add: width_defs nat_le_iff le_nat_iff)
  obtain es s1 s2 where e: "execute cmd s = (Inr (accepted_result es), s1)" "snapshot s1 = (Inr (snapshot_of s2), s2)"
    and h: "honest_step c index cmd es s s2" and sz: "order_total (view_of s2) \<le> Suc (order_total (view_of s))"
    using honest_execute [OF Cons.prems(1) _ Cons.prems(3) small(1) Cons.prems(6,7,8,9) small(3), of cmd] Cons.prems(2)
    by auto
  note hd = honest_stepD [OF h]
  have "\<exists>rs s'. honest_trace sha256 mode c (index + 1) cmds rs s2 s' \<and> engine_inv s' \<and> eng_config s' = eng_config s2 \<and>
    eng_instrument_id s' = eng_instrument_id s2 \<and> eng_next_sequence s' = index + 1 + int (length cmds) + 1 \<and> \<not> eng_sequence_exhausted s'"
    using Cons.prems(2-5) small(2) hd sz by (intro Cons.IH) (auto simp del: view_of_app)
  with trace_step [OF e h] hd(9,10) show ?case by fastforce
qed

lemma honest_trace_length: "honest_trace sha256 mode c index cmds rs s s' \<Longrightarrow> length rs = length cmds"
  by (induction rule: honest_trace.induct) simp_all

lemma honest_trace_results:
  "honest_trace sha256 mode c index cmds rs s s' \<Longrightarrow> honest_results sha256 mode c index cmds s = (Inr rs, s')"
  by (induction rule: honest_trace.induct) (simp_all add: bindP_def accepted_result_def)

definition evidence_text :: "native_result_record list \<Rightarrow> string" where
  "evidence_text rs = concat (map (canonical_json \<circ> native_result_mapping) rs)"

lemma evidence_text_simps [simp]:
  "evidence_text [] = []" "evidence_text (r # rs) = canonical_json (native_result_mapping r) @ evidence_text rs"
  by (simp_all add: evidence_text_def)

fun command_text :: "command list \<Rightarrow> string" where
  "command_text [] = []"
| "command_text (cmd # cmds) = join_fields (command_fields cmd) @ [CHR 0x0A] @ command_text cmds"

definition outcome_tally :: "native_result_record list \<Rightarrow> classification_counts \<Rightarrow> classification_counts" where
  "outcome_tally rs c = fold (\<lambda>r. bump (nr_outcome r)) rs c"

lemma outcome_tally_simps [simp]: "outcome_tally [] c = c" "outcome_tally (r # rs) c = outcome_tally rs (bump (nr_outcome r) c)"
  by (simp_all add: outcome_tally_def)

lemma honest_index: "nr_command_index (honest_result sha256 mode c index cmd es snap) = index"
  by (simp add: honest_result_def)

lemma capture_trace:
  assumes "honest_trace sha256 mode c index cmds rs s s'" and "cr_engine run = s" "cr_processed run = index" "\<not> cr_engine_terminal run"
  shows "capture_commands sha256 mode c cmds run = Inr (run\<lparr>cr_engine := s', cr_output := cr_output run @ map evidence_line rs,
    cr_command_text := cr_command_text run @ command_text cmds, cr_evidence_text := cr_evidence_text run @ evidence_text rs,
    cr_counts := outcome_tally rs (cr_counts run), cr_workload_count := cr_workload_count run + int (length cmds),
    cr_processed := index + int (length cmds), cr_engine_terminal := False\<rparr>)"
  using assms
proof (induction arbitrary: run rule: honest_trace.induct)
  case (trace_done index s)
  then show ?case by simp
next
  case (trace_step cmd s es s1 s2 index cmds rs s')
  let ?r = "honest_result sha256 mode c index cmd es (snapshot_of s2)"
  let ?run = "run\<lparr>cr_engine := s2, cr_output := cr_output run @ [evidence_line ?r],
    cr_command_text := cr_command_text run @ join_fields (command_fields cmd) @ [CHR 0x0A],
    cr_evidence_text := cr_evidence_text run @ canonical_json (native_result_mapping ?r),
    cr_counts := bump (nr_outcome ?r) (cr_counts run), cr_workload_count := cr_workload_count run + 1,
    cr_processed := index + 1, cr_engine_terminal := False\<rparr>"
  have err: "result_error (accepted_result es) = None" by (simp add: accepted_result_def)
  have line: "encode_command cmd = Inr (join_fields (command_fields cmd))"
    using honest_stepD(3) [OF trace_step.hyps(3)] by (simp add: encode_command_Inr native_require_representable_eq)
  have ev: "reference_result_evidence sha256 cmd (accepted_result es) (snapshot_of s2) mode (is_checkpoint index (ni_snapshot_interval c)) =
      Inr (evidence_of ?r)" by (rule honest_evidence [OF trace_step.hyps(3)])
  have "capture_command sha256 mode c cmd run = Inr ?run"
    using trace_step.prems trace_step.hyps(1,2)
    by (simp add: capture_command_def line ev evidence_outcome count_outcome_name Let_def evidence_line_def
        native_result_mapping_eq result_envelope_def honest_index err)
  moreover have "capture_commands sha256 mode c cmds ?run = Inr (?run\<lparr>cr_engine := s', cr_output := cr_output ?run @ map evidence_line rs,
    cr_command_text := cr_command_text ?run @ command_text cmds, cr_evidence_text := cr_evidence_text ?run @ evidence_text rs,
    cr_counts := outcome_tally rs (cr_counts ?run), cr_workload_count := cr_workload_count ?run + int (length cmds),
    cr_processed := index + 1 + int (length cmds), cr_engine_terminal := False\<rparr>)"
    using trace_step.prems by (intro trace_step.IH) simp_all
  ultimately show ?case by (simp add: algebra_simps)
qed

section \<open>The cursor over honest evidence\<close>

definition final_line :: "reference_capture \<Rightarrow> native_final_record \<Rightarrow> json" where
  "final_line capture f = JObj
     [(''schema'', JStr REFERENCE_EVIDENCE_SCHEMA), (''kind'', JStr ''final''),
      (''workload_command_count'', jnum (rc_workload_command_count capture)),
      (''commands_processed'', jnum (nf_commands_processed f)),
      (''command_digest'', JStr (rc_command_digest capture)), (''evidence_digest'', JStr (rc_evidence_digest capture)),
      (''classification_counts'', counts_mapping (rc_classifications capture)),
      (''evidence'', get_key (native_final_mapping f) ''evidence'')]"

text \<open>The cursor stands before the results that are left and the final line.\<close>

definition cursor_at ::
  "(bytes \<Rightarrow> string) \<Rightarrow> reference_capture \<Rightarrow> native_final_record \<Rightarrow> int \<Rightarrow> native_result_record list \<Rightarrow> reference_cursor \<Rightarrow> bool" where
  "cursor_at sha256 capture f index rs cu \<longleftrightarrow>
     cu_capture cu = capture \<and> cu_input cu = map evidence_line rs @ [final_line capture f] \<and> cu_result_count cu = index \<and>
     rc_commands_processed capture = index + int (length rs) \<and> nf_commands_processed f = index + int (length rs) \<and>
     outcome_tally rs (cu_counts cu) = rc_classifications capture \<and>
     sha256 (ascii_bytes (cu_text cu @ evidence_text rs @ canonical_json (native_final_mapping f))) = rc_evidence_digest capture \<and>
     is_digest (JStr (rc_command_digest capture)) \<and> is_digest (JStr (rc_evidence_digest capture))"

lemma line_keys:
  "keys_of (evidence_line r) = {''schema'', ''kind'', ''command_index'', ''evidence''}"
  "keys_of (final_line capture f) = {''schema'', ''kind'', ''workload_command_count'', ''commands_processed'', ''command_digest'',
        ''evidence_digest'', ''classification_counts'', ''evidence''}"
  by (auto simp: keys_of_def evidence_line_def final_line_def result_envelope_def)

lemma line_fields [simp]:
  "get_key (evidence_line r) ''schema'' = JStr REFERENCE_EVIDENCE_SCHEMA" "get_key (evidence_line r) ''kind'' = JStr ''result''"
  "get_key (evidence_line r) ''command_index'' = jnum (nr_command_index r)" "get_key (evidence_line r) ''evidence'' = evidence_of r"
  "get_key (final_line capture f) ''schema'' = JStr REFERENCE_EVIDENCE_SCHEMA" "get_key (final_line capture f) ''kind'' = JStr ''final''"
  "get_key (final_line capture f) ''workload_command_count'' = jnum (rc_workload_command_count capture)"
  "get_key (final_line capture f) ''commands_processed'' = jnum (nf_commands_processed f)"
  "get_key (final_line capture f) ''command_digest'' = JStr (rc_command_digest capture)"
  "get_key (final_line capture f) ''evidence_digest'' = JStr (rc_evidence_digest capture)"
  "get_key (final_line capture f) ''classification_counts'' = counts_mapping (rc_classifications capture)"
  "get_key (final_line capture f) ''evidence'' = get_key (native_final_mapping f) ''evidence''"
  by (simp_all add: evidence_line_def result_envelope_def final_line_def)

lemma cursor_next_result:
  assumes "cursor_at sha256 capture f index (r # rs) cu" and "nr_command_index r = index"
  shows "\<exists>cu'. cursor_next sha256 cu = (Inr (native_result_mapping r), cu') \<and> cursor_at sha256 capture f (index + 1) rs cu' \<and>
    cu_text cu' = cu_text cu @ canonical_json (native_result_mapping r)"
proof -
  let ?cu = "cu\<lparr>cu_input := map evidence_line rs @ [final_line capture f], cu_counts := bump (nr_outcome r) (cu_counts cu),
    cu_result_count := index + 1, cu_text := cu_text cu @ canonical_json (native_result_mapping r)\<rparr>"
  have "cursor_next sha256 cu = (Inr (native_result_mapping r), ?cu)"
    using assms
    by (simp add: cursor_next_def cursor_read_def bindP_def cursor_at_def expected_keys_def line_keys Let_def
        evidence_outcome count_outcome_name native_result_mapping_eq)
  moreover have "cursor_at sha256 capture f (index + 1) rs ?cu" using assms by (simp add: cursor_at_def)
  ultimately show ?thesis by (intro exI [of _ ?cu]) simp
qed

lemma native_final_mapping_eq:
  "native_final_mapping f = JObj [(''kind'', JStr ''final''), (''commands_processed'', jnum (nf_commands_processed f)),
     (''evidence'', get_key (native_final_mapping f) ''evidence'')]"
  by (simp add: native_final_mapping_def)

lemma cursor_next_final:
  assumes "cursor_at sha256 capture f index [] cu"
  shows "\<exists>cu'. cursor_next sha256 cu = (Inr (native_final_mapping f), cu') \<and> cu_input cu' = []"
proof -
  let ?cu = "cu\<lparr>cu_input := [], cu_text := cu_text cu @ canonical_json (native_final_mapping f)\<rparr>"
  have v: "validate_final sha256 (final_line capture f) ?cu = Inr ()"
    using assms by (simp add: validate_final_def Let_def cursor_at_def guardR_def check_all_def)
  have "cursor_next sha256 cu = (Inr (native_final_mapping f), ?cu)"
    using assms v native_final_mapping_eq [of f]
    by (simp add: cursor_next_def cursor_read_def bindP_def cursor_at_def expected_keys_def line_keys Let_def)
  then show ?thesis by (intro exI [of _ ?cu]) simp
qed

section \<open>The comparison, one record at a time\<close>

definition passes ::
  "(bytes \<Rightarrow> string) \<Rightarrow> reference_capture \<Rightarrow> int \<Rightarrow> bool \<Rightarrow> native_record list \<Rightarrow> comparison_run \<Rightarrow> bool" where
  "passes sha256 capture code clean recs run \<longleftrightarrow>
     (\<exists>run1. compare_records sha256 None (rc_mode capture) recs run = (Inr None, run1) \<and>
        fst (finish_comparison sha256 code clean capture run1) = Inr ())"

text \<open>A run that is still in step: the decoder has seen the honest prefix and the cursor stands behind it.\<close>

definition in_step ::
  "(bytes \<Rightarrow> string) \<Rightarrow> reference_capture \<Rightarrow> native_final_record \<Rightarrow> int \<Rightarrow> command list \<Rightarrow> native_result_record list \<Rightarrow> engine \<Rightarrow> comparison_run \<Rightarrow> bool" where
  "in_step sha256 capture f index cmds rs s run \<longleftrightarrow>
     midway sha256 (rc_mode capture) (rc_config capture) index cmds s (cn_decoder run) \<and>
     cursor_at sha256 capture f index rs (cn_cursor run) \<and> cn_text run = cu_text (cn_cursor run) \<and> \<not> cn_adapter_error run"

lemma passes_Cons:
  assumes "compare_record sha256 None (rc_mode capture) rec run = (Inr None, run1)"
  shows "passes sha256 capture code clean (rec # recs) run \<longleftrightarrow> passes sha256 capture code clean recs run1"
  using assms by (simp add: passes_def bindP_def)

lemma passes_Cons_stops:
  assumes "\<forall>run1. compare_record sha256 None (rc_mode capture) rec run \<noteq> (Inr None, run1)"
  shows "\<not> passes sha256 capture code clean (rec # recs) run"
proof -
  obtain r run1 where r: "compare_record sha256 None (rc_mode capture) rec run = (r, run1)" by (metis prod.exhaust)
  with assms have "r \<noteq> Inr None" by auto
  with r show ?thesis by (auto simp: passes_def bindP_def split: sum.splits option.splits)
qed

lemma compare_mapping_None:
  "compare_mapping sha256 None mode index mapping run = (Inr None, run1) \<longleftrightarrow>
     (\<exists>expected cu. cursor_next sha256 (cn_cursor run) = (Inr expected, cu) \<and> json_same expected mapping \<and>
        run1 = run\<lparr>cn_cursor := cu, cn_text := cn_text run @ canonical_json mapping\<rparr>)"
  by (auto simp: compare_mapping_def transformed_def on_cursor_def prog_simps no_difference [where path = "''$''", symmetric]
      split: prod.splits sum.splits option.splits)

text \<open>After an adapter error nothing passes.\<close>

lemma no_pass_after_error:
  assumes "cn_adapter_error run" and "sd_error (cn_decoder run) \<noteq> None"
  shows "\<not> passes sha256 capture code clean recs run"
proof (cases recs)
  case Nil
  have "fst (finish_comparison sha256 code clean capture run) \<noteq> Inr ()"
    using assms(1) by (auto simp: finish_comparison_def bindP_def on_decoder_def guardR_def check_all_def split: prod.splits sum.splits)
  then show ?thesis by (simp add: passes_def Nil)
next
  case (Cons rec rest')
  have "fst (feed_record sha256 rec (cn_decoder run)) \<noteq> Inr ()"
    using assms(2) by (auto simp: feed_record_def prog_simps reject_if_def guardR_def split: sum.splits)
  then show ?thesis
    unfolding Cons by (intro passes_Cons_stops) (auto simp: compare_record_def on_decoder_def prog_simps split: prod.splits sum.splits)
qed

text \<open>Without a final record nothing passes.\<close>

lemma no_pass_unfinished:
  assumes "in_step sha256 capture f index cmds rs s run"
  shows "\<not> passes sha256 capture code clean [] run"
  using assms
  by (auto simp: passes_def finish_comparison_def on_decoder_def decoder_finish_def in_step_def midway_def prog_simps
      check_all_def split: prod.splits sum.splits)

text \<open>What a record that raises no difference has passed.\<close>

lemma compare_record_fed:
  assumes "compare_record sha256 None mode rec run = (Inr None, run1)"
  shows "\<exists>d. feed_record sha256 rec (cn_decoder run) = (Inr (), d)"
  using assms by (auto simp: compare_record_def on_decoder_def prog_simps split: prod.splits sum.splits)

lemma compare_result_matches:
  assumes "compare_record sha256 None mode (ResultRecord r) run = (Inr None, run1)"
  shows "\<exists>expected cu. cursor_next sha256 (cn_cursor run) = (Inr expected, cu) \<and> json_same expected (native_result_mapping r)"
  using assms
  by (auto simp: compare_record_def compare_result_def on_decoder_def prog_simps compare_mapping_None
      split: prod.splits sum.splits option.splits)

lemma compare_final_matches:
  assumes "compare_record sha256 None mode (FinalRecord f) run = (Inr None, run1)"
  shows "\<exists>expected cu. cursor_next sha256 (cn_cursor run) = (Inr expected, cu) \<and> json_same expected (native_final_mapping f)"
  using assms
  by (auto simp: compare_record_def compare_final_def on_decoder_def prog_simps compare_mapping_None
      split: prod.splits sum.splits option.splits)

lemma fed_result_line:
  assumes "midway sha256 mode c index (cmd # cmds) s d" and "feed_record sha256 (ResultRecord r) d = (Inr (), d')"
  shows "nr_line r = index + 2"
  using assms
  by (auto simp: feed_record_def accept_result_def midway_def take_expected_command_def prog_simps
      validate_stream_expected_result_def split: sum.splits prod.splits)

lemma no_pass_config:
  assumes "in_step sha256 capture f index cmds rs s run"
  shows "\<not> passes sha256 capture code clean (ConfigRecord x # recs) run"
proof (intro passes_Cons_stops allI notI)
  fix run1 assume "compare_record sha256 None (rc_mode capture) (ConfigRecord x) run = (Inr None, run1)"
  from compare_record_fed [OF this] assms show False
    by (auto simp: feed_record_def accept_config_def in_step_def midway_def prog_simps split: sum.splits)
qed

lemma no_pass_error: "\<not> passes sha256 capture code clean (ErrorRecord x # recs) run"
proof (cases "\<exists>run1. compare_record sha256 None (rc_mode capture) (ErrorRecord x) run = (Inr None, run1)")
  case True
  then obtain run1 where c: "compare_record sha256 None (rc_mode capture) (ErrorRecord x) run = (Inr None, run1)" by blast
  then have "cn_adapter_error run1" "sd_error (cn_decoder run1) \<noteq> None"
    by (auto simp: compare_record_def on_decoder_def feed_record_def accept_error_def prog_simps split: prod.splits sum.splits)
  from no_pass_after_error [OF this] show ?thesis by (simp add: passes_Cons [OF c])
next
  case False
  then show ?thesis by (intro passes_Cons_stops) blast
qed

lemma cursor_at_expects:
  assumes "cursor_at sha256 capture f index rs cu" and "rs \<noteq> [] \<Longrightarrow> nr_command_index (hd rs) = index"
  shows "\<exists>cu'. cursor_next sha256 cu =
    (Inr (case rs of r # _ \<Rightarrow> native_result_mapping r | [] \<Rightarrow> native_final_mapping f), cu')"
  using assms cursor_next_result [of sha256 capture f index _ _ cu] cursor_next_final [of sha256 capture f index cu]
  by (cases rs) auto

lemma wrong_record_stops:
  assumes step: "in_step sha256 capture f index cmds rs s run" and "length cmds = length rs"
    and "rs \<noteq> [] \<Longrightarrow> nr_command_index (hd rs) = index \<and> nr_line (hd rs) = index + 2"
    and wrong: "rec \<noteq> (case rs of r # _ \<Rightarrow> ResultRecord r | [] \<Rightarrow> FinalRecord f)"
  shows "\<not> passes sha256 capture code clean (rec # recs) run"
proof (cases rec)
  case (ConfigRecord x)
  then show ?thesis using no_pass_config [OF step] by simp
next
  case (ErrorRecord x)
  then show ?thesis using no_pass_error by simp
next
  case (FinalRecord g)
  have "compare_record sha256 None (rc_mode capture) rec run \<noteq> (Inr None, run1)" for run1
    using compare_final_matches [of sha256 "rc_mode capture" g run run1] cursor_at_expects [of sha256 capture f index rs "cn_cursor run"]
      assms FinalRecord
    by (auto simp: in_step_def kinds_differ dest: final_mapping_same split: list.splits)
  then show ?thesis by (intro passes_Cons_stops) blast
next
  case (ResultRecord r)
  have False if c: "compare_record sha256 None (rc_mode capture) rec run = (Inr None, run1)" for run1
  proof (cases rs)
    case Nil
    with compare_result_matches [OF c [unfolded ResultRecord]] cursor_at_expects [of sha256 capture f index rs "cn_cursor run"] step
    show ?thesis by (auto simp: in_step_def kinds_differ)
  next
    case (Cons r' rs')
    obtain d where "feed_record sha256 rec (cn_decoder run) = (Inr (), d)" using compare_record_fed [OF c] by blast
    then have "nr_line r = index + 2"
      using fed_result_line [of sha256 "rc_mode capture" "rc_config capture" index "hd cmds" "tl cmds" s "cn_decoder run" r d]
        step assms(2) Cons ResultRecord by (cases cmds) (auto simp: in_step_def)
    then show ?thesis
      using compare_result_matches [OF c [unfolded ResultRecord]] cursor_at_expects [of sha256 capture f index rs "cn_cursor run"]
        step assms(3) wrong Cons ResultRecord
      by (auto simp: in_step_def dest!: result_mapping_same)
  qed
  then show ?thesis by (intro passes_Cons_stops) blast
qed

lemma step_advances:
  assumes h: "honest_step (rc_config capture) index cmd es s s'"
    and r: "r = honest_result sha256 (rc_mode capture) (rc_config capture) index cmd es (snapshot_of s')"
    and step: "in_step sha256 capture f index (cmd # cmds) (r # rs) s run"
  shows "\<exists>run'. compare_record sha256 None (rc_mode capture) (ResultRecord r) run = (Inr None, run') \<and>
    in_step sha256 capture f (index + 1) cmds rs s' run' \<and> cn_compared run' = cn_compared run + 1 \<and>
    feed_record sha256 (ResultRecord r) (cn_decoder run) = (Inr (), cn_decoder run') \<and>
    cn_transform_commands run' = cn_transform_commands run"
proof -
  from honest_accepted [OF h, of sha256 "rc_mode capture" cmds "cn_decoder run"] step obtain d where
    d: "feed_record sha256 (ResultRecord r) (cn_decoder run) = (Inr (), d)"
      "midway sha256 (rc_mode capture) (rc_config capture) (index + 1) cmds s' d"
    unfolding r in_step_def by blast
  from cursor_next_result [of sha256 capture f index r rs "cn_cursor run"] step obtain cu where
    cu: "cursor_next sha256 (cn_cursor run) = (Inr (native_result_mapping r), cu)"
      "cursor_at sha256 capture f (index + 1) rs cu" "cu_text cu = cu_text (cn_cursor run) @ canonical_json (native_result_mapping r)"
    by (auto simp: in_step_def r honest_index)
  have cm: "compare_mapping sha256 None (rc_mode capture) (Some (nr_command_index r)) (native_result_mapping r) (run\<lparr>cn_decoder := d\<rparr>) =
      (Inr None, run\<lparr>cn_decoder := d, cn_cursor := cu, cn_text := cn_text run @ canonical_json (native_result_mapping r)\<rparr>)"
    by (simp add: compare_mapping_None cu(1))
  have "compare_record sha256 None (rc_mode capture) (ResultRecord r) run =
      (Inr None, run\<lparr>cn_decoder := d, cn_cursor := cu, cn_text := cn_text run @ canonical_json (native_result_mapping r),
        cn_counts := bump (nr_outcome r) (cn_counts run), cn_compared := cn_compared run + 1\<rparr>)"
    by (simp add: compare_record_def compare_result_def on_decoder_def d(1) cm prog_simps count_outcome_name)
  then show ?thesis using d cu(2,3) step by (auto simp: in_step_def)
qed

lemma fed_final:
  assumes "feed_record sha256 (FinalRecord f) d = (Inr (), d')"
  shows "d' = d\<lparr>sd_output_line := sd_output_line d + 1, sd_final := Some f\<rparr>"
  using assms by (auto simp: feed_record_def accept_final_def prog_simps split: sum.splits)

lemma finished_codes:
  assumes "midway sha256 mode c index [] s d"
    and "fst (decoder_finish (Some code) (d\<lparr>sd_output_line := n, sd_final := Some f\<rparr>)) = Inr x"
  shows "code = 0"
  using assms
  by (auto simp: decoder_finish_def midway_def prog_simps validate_stream_process_terminal_state_def Let_def follows_def
      split: option.splits if_splits sum.splits prod.splits)

lemma last_record_passes:
  assumes inv: "engine_inv s" and c: "ni_engine (rc_config capture) = eng_config s" "ni_instrument_id (rc_config capture) = eng_instrument_id s"
    and next_seq: "eng_next_sequence s = index + 1" "\<not> eng_sequence_exhausted s"
    and f: "f = honest_final sha256 index (snapshot_of s)" and step: "in_step sha256 capture f index [] [] s run"
  shows "passes sha256 capture code clean recs run \<longleftrightarrow> recs = [FinalRecord f] \<and> code = 0 \<and> clean"
proof (cases recs)
  case Nil
  then show ?thesis using no_pass_unfinished [OF step] by simp
next
  case (Cons rec recs')
  let ?d = "cn_decoder run"
  let ?d1 = "?d\<lparr>sd_output_line := sd_output_line ?d + 1, sd_final := Some f\<rparr>"
  have m: "midway sha256 (rc_mode capture) (rc_config capture) index [] s ?d" using step by (simp add: in_step_def)
  from honest_final_accepted [OF inv c next_seq m] fed_final [of sha256 f ?d]
  have fed: "feed_record sha256 (FinalRecord f) ?d = (Inr (), ?d1)"
    and fin: "\<exists>x. fst (decoder_finish (Some 0) ?d1) = Inr x \<and> ss_error x = None \<and> ss_final x = Some f"
    unfolding f by fastforce+
  obtain cu where cu: "cursor_next sha256 (cn_cursor run) = (Inr (native_final_mapping f), cu)" "cu_input cu = []"
    using cursor_next_final [of sha256 capture f index "cn_cursor run"] step by (auto simp: in_step_def)
  let ?run = "run\<lparr>cn_decoder := ?d1, cn_cursor := cu, cn_text := cn_text run @ canonical_json (native_final_mapping f)\<rparr>"
  have "compare_mapping sha256 None (rc_mode capture) None (native_final_mapping f) (run\<lparr>cn_decoder := ?d1\<rparr>) = (Inr None, ?run)"
    by (simp add: compare_mapping_None cu(1))
  then have cr: "compare_record sha256 None (rc_mode capture) (FinalRecord f) run = (Inr None, ?run)"
    by (simp add: compare_record_def compare_final_def on_decoder_def fed prog_simps on_cursor_def ensure_eof_def guardR_def cu(2))
  have digest: "sha256 (ascii_bytes (cn_text ?run)) = rc_evidence_digest capture" using step by (simp add: in_step_def cursor_at_def)
  have nothing_after: "\<not> passes sha256 capture code clean (x # xs) ?run" for x xs
  proof (intro passes_Cons_stops allI notI)
    fix run1 assume "compare_record sha256 None (rc_mode capture) x ?run = (Inr None, run1)"
    from compare_record_fed [OF this] show False by (auto simp: feed_record_def prog_simps split: sum.splits)
  qed
  have "fst (finish_comparison sha256 code clean capture ?run) = Inr () \<longleftrightarrow> code = 0 \<and> clean"
  proof
    assume ok: "fst (finish_comparison sha256 code clean capture ?run) = Inr ()"
    then obtain x where "fst (decoder_finish (Some code) ?d1) = Inr x"
      by (auto simp: finish_comparison_def on_decoder_def bindP_def split: prod.splits sum.splits)
    from finished_codes [OF m this] ok show "code = 0 \<and> clean"
      by (auto simp: finish_comparison_def on_decoder_def bindP_def guardR_def split: prod.splits sum.splits if_splits)
  next
    assume "code = 0 \<and> clean"
    then show "fst (finish_comparison sha256 code clean capture ?run) = Inr ()"
      using fin digest step
      by (auto simp: finish_comparison_def on_decoder_def bindP_def guardR_def in_step_def split: prod.splits sum.splits)
  qed
  then have last: "passes sha256 capture code clean xs ?run \<longleftrightarrow> xs = [] \<and> code = 0 \<and> clean" for xs
    using nothing_after by (cases xs) (simp_all add: passes_def)
  show ?thesis
  proof (cases "rec = FinalRecord f")
    case True
    then show ?thesis using last by (simp add: Cons passes_Cons [OF cr])
  next
    case False
    then show ?thesis using wrong_record_stops [OF step, of rec] by (simp add: Cons)
  qed
qed

text \<open>From any point of an honest run, exactly the rest of the honest records passes.\<close>

lemma trace_passes:
  assumes "honest_trace sha256 (rc_mode capture) (rc_config capture) index cmds rs s s'" and "engine_inv s'"
    and "ni_engine (rc_config capture) = eng_config s'" "ni_instrument_id (rc_config capture) = eng_instrument_id s'"
    and "eng_next_sequence s' = index + int (length cmds) + 1" "\<not> eng_sequence_exhausted s'"
    and "f = honest_final sha256 (index + int (length cmds)) (snapshot_of s')" and "in_step sha256 capture f index cmds rs s run"
  shows "passes sha256 capture code clean recs run \<longleftrightarrow>
    recs = map ResultRecord rs @ [FinalRecord f] \<and> code = 0 \<and> clean"
  using assms
proof (induction arbitrary: run recs rule: honest_trace.induct)
  case (trace_done index s)
  then show ?case using last_record_passes [of s capture index f sha256 run code clean recs] by simp
next
  case (trace_step cmd s es s1 s2 index cmds rs s')
  let ?r = "honest_result sha256 (rc_mode capture) (rc_config capture) index cmd es (snapshot_of s2)"
  from step_advances [OF trace_step.hyps(3) refl trace_step.prems(7)] obtain run' where
    run': "compare_record sha256 None (rc_mode capture) (ResultRecord ?r) run = (Inr None, run')"
      "in_step sha256 capture f (index + 1) cmds rs s2 run'" by blast
  have ih: "passes sha256 capture code clean xs run' \<longleftrightarrow> xs = map ResultRecord rs @ [FinalRecord f] \<and> code = 0 \<and> clean" for xs
    using trace_step.prems run'(2) by (intro trace_step.IH) (simp_all add: algebra_simps)
  show ?case
  proof (cases recs)
    case Nil
    then show ?thesis using no_pass_unfinished [OF trace_step.prems(7)] by simp
  next
    case (Cons rec recs')
    show ?thesis
    proof (cases "rec = ResultRecord ?r")
      case True
      then show ?thesis using ih by (simp add: Cons passes_Cons [OF run'(1)])
    next
      case False
      then show ?thesis
        using wrong_record_stops [OF trace_step.prems(7), of rec] honest_trace_length [OF trace_step.hyps(4)]
        by (simp add: Cons honest_result_def)
    qed
  qed
qed

section \<open>A whole comparison\<close>

definition honest_capture ::
  "(bytes \<Rightarrow> string) \<Rightarrow> output_mode \<Rightarrow> native_input_config \<Rightarrow> command list \<Rightarrow> native_result_record list \<Rightarrow> native_final_record \<Rightarrow> reference_capture" where
  "honest_capture sha256 mode c cmds rs f =
     \<lparr>rc_mode = mode, rc_config = c, rc_workload_command_count = int (length cmds), rc_commands_processed = int (length cmds),
      rc_classifications = outcome_tally rs no_counts, rc_command_digest = sha256 (ascii_bytes (command_text cmds)),
      rc_evidence_digest = sha256 (ascii_bytes (evidence_text rs @ canonical_json (native_final_mapping f)))\<rparr>"

lemma final_evidence:
  assumes "engine_inv s"
  shows "reference_final_evidence sha256 (snapshot_of s) =
    Inr (get_key (native_final_mapping (honest_final sha256 n (snapshot_of s))) ''evidence'')"
proof -
  obtain d where d: "state_digest sha256 (snapshot_of s) = Inr d" using digest_of_snapshot [OF assms] by blast
  show ?thesis
    by (simp add: reference_final_evidence_def state_evidence [OF d] native_final_mapping_def honest_final_def d hash_of_def)
qed

lemma capture_honest:
  assumes "ReferenceEngine (ni_instrument_id c) (Some (ni_engine c)) 1 True = Inr s"
    and "honest_trace sha256 mode c 0 cmds rs s s'" and "engine_inv s'"
    and f: "f = honest_final sha256 (int (length cmds)) (snapshot_of s')"
  shows "capture_reference sha256 mode c cmds =
    Inr (config_record mode c # map evidence_line rs @ [final_line (honest_capture sha256 mode c cmds rs f) f],
      honest_capture sha256 mode c cmds rs f)"
proof -
  let ?run = "\<lparr>cr_engine = s, cr_output = [config_record mode c], cr_command_text = [], cr_evidence_text = [],
        cr_counts = no_counts, cr_workload_count = 0, cr_processed = 0, cr_engine_terminal = False\<rparr>"
  have cap: "capture_commands sha256 mode c cmds ?run =
    Inr \<lparr>cr_engine = s', cr_output = config_record mode c # map evidence_line rs, cr_command_text = command_text cmds,
      cr_evidence_text = evidence_text rs, cr_counts = outcome_tally rs no_counts, cr_workload_count = int (length cmds),
      cr_processed = int (length cmds), cr_engine_terminal = False\<rparr>"
    using capture_trace [OF assms(2), of ?run] by simp
  obtain s2 where s2: "snapshot s' = (Inr (snapshot_of s'), s2)" using snapshot_spec [OF assms(3)] by blast
  have n: "nf_commands_processed f = int (length cmds)" by (simp add: f honest_final_def)
  have ev: "reference_final_evidence sha256 (snapshot_of s') = Inr (get_key (native_final_mapping f) ''evidence'')"
    unfolding f by (rule final_evidence [OF assms(3)])
  have m: "JObj [(''kind'', JStr ''final''), (''commands_processed'', jnum (int (length cmds))),
      (''evidence'', get_key (native_final_mapping f) ''evidence'')] = native_final_mapping f"
    using native_final_mapping_eq [of f] n by simp
  show ?thesis
    unfolding capture_reference_def assms(1) bindR_simps cap
    by (simp add: s2 ev Let_def m honest_capture_def final_line_def n)
qed

lemma honest_cursor:
  assumes "\<forall>b. is_digest (JStr (sha256 b))" and "length rs = length cmds" and "nf_commands_processed f = int (length cmds)"
    and "capture = honest_capture sha256 mode c cmds rs f"
  shows "\<exists>cu. ReferenceCursor (config_record mode c # map evidence_line rs @ [final_line capture f]) capture = Inr cu \<and>
    cursor_at sha256 capture f 0 rs cu \<and> cu_text cu = []"
proof -
  let ?cu = "\<lparr>cu_capture = capture, cu_input = map evidence_line rs @ [final_line capture f], cu_result_count = 0,
    cu_counts = no_counts, cu_text = []\<rparr>"
  have "keys_of (config_record mode c) = {''schema'', ''kind'', ''mode'', ''input''}"
    by (auto simp: keys_of_def config_record_def)
  then have "ReferenceCursor (config_record mode c # map evidence_line rs @ [final_line capture f]) capture = Inr ?cu"
    using assms(4) by (simp add: ReferenceCursor_def cursor_read_def config_record_def expected_keys_def honest_capture_def)
  then show ?thesis using assms by (intro exI [of _ ?cu]) (simp add: cursor_at_def honest_capture_def)
qed

lemma comparison_starts:
  assumes "cn_decoder run = NativeStreamDecoder (Some (rc_mode capture)) (Some (rc_config capture)) (Some cmds)"
    and "cursor_at sha256 capture f 0 rs (cn_cursor run)" "cn_text run = []" "cu_text (cn_cursor run) = []" "\<not> cn_adapter_error run"
    and "view_of s = (\<lambda>_. [])"
  shows "\<exists>run'. in_step sha256 capture f 0 cmds rs s run' \<and> cn_compared run' = cn_compared run \<and>
    cn_transform_commands run' = cn_transform_commands run \<and>
    (\<forall>transformer. compare_record sha256 transformer (rc_mode capture) (ConfigRecord (honest_config (rc_mode capture) (rc_config capture))) run = (Inr None, run')) \<and>
    feed_record sha256 (ConfigRecord (honest_config (rc_mode capture) (rc_config capture))) (cn_decoder run) = (Inr (), cn_decoder run') \<and>
    (\<forall>recs code clean. passes sha256 capture code clean recs run \<longleftrightarrow>
      (\<exists>recs'. recs = ConfigRecord (honest_config (rc_mode capture) (rc_config capture)) # recs' \<and> passes sha256 capture code clean recs' run'))"
proof -
  let ?c = "ConfigRecord (honest_config (rc_mode capture) (rc_config capture))"
  let ?run = "run\<lparr>cn_decoder := (cn_decoder run)\<lparr>sd_output_line := 1, sd_config := Some (honest_config (rc_mode capture) (rc_config capture))\<rparr>\<rparr>"
  have fed: "feed_record sha256 ?c (cn_decoder run) = (Inr (), cn_decoder ?run)"
    by (simp add: assms(1) feed_record_def NativeStreamDecoder_def accept_config_def honest_config_def prog_simps)
  then have cr: "compare_record sha256 transformer (rc_mode capture) ?c run = (Inr None, ?run)" for transformer
    by (simp add: compare_record_def on_decoder_def prog_simps)
  have empty: "\<not> passes sha256 capture code clean [] run" for code clean
    by (auto simp: passes_def finish_comparison_def on_decoder_def decoder_finish_def assms(1) NativeStreamDecoder_def prog_simps
        split: prod.splits sum.splits)
  have "\<not> passes sha256 capture code clean (rec # recs) run" if "rec \<noteq> ?c" for rec recs code clean
  proof (cases rec)
    case (ErrorRecord x)
    then show ?thesis using no_pass_error by simp
  next
    case (ConfigRecord x)
    have "\<nexists>d. feed_record sha256 rec (cn_decoder run) = (Inr (), d)"
      using that ConfigRecord
      by (auto simp: assms(1) feed_record_def NativeStreamDecoder_def accept_config_def prog_simps honest_config_def
          split: sum.splits intro: native_config_record.equality)
    with compare_record_fed show ?thesis by (intro passes_Cons_stops) blast
  qed (auto intro!: passes_Cons_stops dest!: compare_record_fed
      simp: assms(1) feed_record_def NativeStreamDecoder_def accept_result_def accept_final_def prog_simps)
  then have "passes sha256 capture code clean recs run \<longleftrightarrow> (\<exists>recs'. recs = ?c # recs' \<and> passes sha256 capture code clean recs' ?run)" for recs code clean
    using empty passes_Cons [OF cr] by (metis list.exhaust list.inject)
  moreover have "in_step sha256 capture f 0 cmds rs s ?run"
    using assms(2-6)
    by (simp add: in_step_def midway_def assms(1) NativeStreamDecoder_def honest_config_def follows_def order_total_def del: view_of_app)
  ultimately show ?thesis using cr fed by (intro exI [of _ ?run]) simp
qed

lemma passed_iff:
  assumes "ReferenceCursor evidence capture = Inr cu"
  shows "cmp_status (compare_native sha256 None c cmds evidence capture recs code clean) = PASSED \<longleftrightarrow>
    passes sha256 capture code clean recs \<lparr>cn_decoder = NativeStreamDecoder (Some (rc_mode capture)) (Some c) (Some cmds),
      cn_cursor = cu, cn_text = [], cn_counts = no_counts, cn_compared = 0, cn_adapter_error = False, cn_transform_commands = cmds\<rparr>"
  by (auto simp: compare_native_def assms passes_def comparison_summary_def Let_def split: prod.splits sum.splits option.splits)

text \<open>
  The setting of a comparison: the honest run, the evidence captured from it, and the run of the
  native pass before and after the configuration record.
\<close>

lemma comparison_setting:
  assumes eng: "ReferenceEngine (ni_instrument_id c) (Some (ni_engine c)) 1 True = Inr s" and cfg: "matching_config_ok (ni_engine c)"
    and cmds: "\<forall>cmd \<in> set cmds. require_representable cmd = Inr ()" "int (length cmds) + 6 \<le> U32_MAX"
    and sha: "\<forall>b. is_digest (JStr (sha256 b))"
  obtains rs s' f capture run where
    "fst (honest_records sha256 mode c cmds s) = Inr (ConfigRecord (honest_config mode c) # map ResultRecord rs @ [FinalRecord f])"
    and "rc_mode capture = mode" "rc_config capture = c" and "honest_trace sha256 mode c 0 cmds rs s s'"
    and "engine_inv s'" "ni_engine c = eng_config s'" "ni_instrument_id c = eng_instrument_id s'"
      "eng_next_sequence s' = int (length cmds) + 1" "\<not> eng_sequence_exhausted s'"
      "f = honest_final sha256 (int (length cmds)) (snapshot_of s')"
    and "in_step sha256 capture f 0 cmds rs s run" and "cn_compared run = 0" and "cn_transform_commands run = cmds"
    and "feed_record sha256 (ConfigRecord (honest_config mode c)) (NativeStreamDecoder (Some mode) (Some c) (Some cmds)) =
      (Inr (), cn_decoder run)"
    and "\<And>recs code clean. passes sha256 capture code clean recs run \<longleftrightarrow>
      recs = map ResultRecord rs @ [FinalRecord f] \<and> code = 0 \<and> clean"
    and "\<And>recs code clean. cmp_status (run_fixture sha256 None mode c cmds recs code clean) = PASSED \<longleftrightarrow>
      (\<exists>recs'. recs = ConfigRecord (honest_config mode c) # recs' \<and> passes sha256 capture code clean recs' run)"
    and "\<And>transformer recs code clean e run'. compare_records sha256 transformer mode recs run = (Inl e, run') \<Longrightarrow>
      run_fixture sha256 transformer mode c cmds (ConfigRecord (honest_config mode c) # recs) code clean =
        comparison_summary sha256 (HARNESS_ERROR e) run'"
    and "\<And>transformer recs code clean d run'. compare_records sha256 transformer mode recs run = (Inr (Some d), run') \<Longrightarrow>
      run_fixture sha256 transformer mode c cmds (ConfigRecord (honest_config mode c) # recs) code clean =
        comparison_summary sha256 (DIVERGED d) run'"
    and "\<And>transformer recs code clean run'. compare_records sha256 transformer mode recs run = (Inr None, run') \<Longrightarrow>
      fst (finish_comparison sha256 code clean capture run') = Inr () \<Longrightarrow>
      cmp_status (run_fixture sha256 transformer mode c cmds (ConfigRecord (honest_config mode c) # recs) code clean) = PASSED"
proof -
  have s: "engine_inv s" "view_of s = (\<lambda>_. [])" "eng_next_sequence s = 1"
    using ReferenceEngine_inv [OF eng] cfg by simp_all
  have st: "ni_engine c = eng_config s" "ni_instrument_id c = eng_instrument_id s" "\<not> eng_sequence_exhausted s"
    using engine_static [OF eng cfg] by simp_all
  have "\<exists>rs s'. honest_trace sha256 mode c 0 cmds rs s s' \<and> engine_inv s' \<and> eng_config s' = eng_config s \<and>
    eng_instrument_id s' = eng_instrument_id s \<and> eng_next_sequence s' = 0 + int (length cmds) + 1 \<and> \<not> eng_sequence_exhausted s'"
    using s st cmds by (intro honest_trace_exists) (simp_all add: order_total_def del: view_of_app)
  then obtain rs s' where tr: "honest_trace sha256 mode c 0 cmds rs s s'" "engine_inv s'" "eng_config s' = eng_config s"
      "eng_instrument_id s' = eng_instrument_id s" "eng_next_sequence s' = int (length cmds) + 1" "\<not> eng_sequence_exhausted s'" by auto
  have same: "ni_engine c = eng_config s'" "ni_instrument_id c = eng_instrument_id s'" using st tr(3,4) by simp_all
  let ?f = "honest_final sha256 (int (length cmds)) (snapshot_of s')"
  let ?capture = "honest_capture sha256 mode c cmds rs ?f"
  have len: "length rs = length cmds" by (rule honest_trace_length [OF tr(1)])
  have rc: "rc_mode ?capture = mode" "rc_config ?capture = c" by (simp_all add: honest_capture_def)
  obtain cu where cu: "ReferenceCursor (config_record mode c # map evidence_line rs @ [final_line ?capture ?f]) ?capture = Inr cu"
      "cursor_at sha256 ?capture ?f 0 rs cu" "cu_text cu = []"
    using honest_cursor [OF sha len _ refl, of ?f mode c] by (auto simp: honest_final_def)
  obtain s2 where s2: "snapshot s' = (Inr (snapshot_of s'), s2)" using snapshot_spec [OF tr(2)] by blast
  have recs: "fst (honest_records sha256 mode c cmds s) =
      Inr (ConfigRecord (honest_config mode c) # map ResultRecord rs @ [FinalRecord ?f])"
    by (simp add: honest_records_def bindP_def honest_trace_results [OF tr(1)] s2 len)
  have passing: "passes sha256 ?capture code clean recs run \<longleftrightarrow> recs = map ResultRecord rs @ [FinalRecord ?f] \<and> code = 0 \<and> clean"
    if "in_step sha256 ?capture ?f 0 cmds rs s run" for run recs code clean
    using tr st that by (intro trace_passes [where s' = s' and index = 0, simplified]) (simp_all add: rc)
  let ?run = "\<lparr>cn_decoder = NativeStreamDecoder (Some mode) (Some c) (Some cmds),
      cn_cursor = cu, cn_text = [], cn_counts = no_counts, cn_compared = 0, cn_adapter_error = False, cn_transform_commands = cmds\<rparr>"
  obtain run where run: "in_step sha256 ?capture ?f 0 cmds rs s run" "cn_compared run = 0"
      "\<And>transformer. compare_record sha256 transformer mode (ConfigRecord (honest_config mode c)) ?run = (Inr None, run)"
      "feed_record sha256 (ConfigRecord (honest_config mode c)) (cn_decoder ?run) = (Inr (), cn_decoder run)"
      "\<And>recs code clean. passes sha256 ?capture code clean recs ?run \<longleftrightarrow>
        (\<exists>recs'. recs = ConfigRecord (honest_config mode c) # recs' \<and> passes sha256 ?capture code clean recs' run)"
      "cn_transform_commands run = cmds"
    using comparison_starts [of ?run ?capture cmds sha256 ?f rs s] cu(2,3) s(2) unfolding rc by auto
  have fixture: "run_fixture sha256 transformer mode c cmds recs code clean =
      compare_native sha256 transformer c cmds (config_record mode c # map evidence_line rs @ [final_line ?capture ?f]) ?capture recs code clean"
    for transformer recs code clean by (simp add: run_fixture_def capture_honest [OF eng tr(1,2) refl])
  have cons: "compare_records sha256 transformer mode (ConfigRecord (honest_config mode c) # recs) ?run =
      compare_records sha256 transformer mode recs run" for transformer recs by (simp add: bindP_def run(3))
  show ?thesis
  proof (rule that [OF recs rc tr(1,2) same tr(5,6) refl run(1,2,6) _ passing [OF run(1)]])
    show "feed_record sha256 (ConfigRecord (honest_config mode c)) (NativeStreamDecoder (Some mode) (Some c) (Some cmds)) =
      (Inr (), cn_decoder run)" using run(4) by simp
    show "cmp_status (run_fixture sha256 None mode c cmds recs code clean) = PASSED \<longleftrightarrow>
      (\<exists>recs'. recs = ConfigRecord (honest_config mode c) # recs' \<and> passes sha256 ?capture code clean recs' run)" for recs code clean
      using passed_iff [OF cu(1), of sha256 c cmds recs code clean] run(5) by (simp add: fixture rc)
    show "run_fixture sha256 transformer mode c cmds (ConfigRecord (honest_config mode c) # recs) code clean =
        comparison_summary sha256 (HARNESS_ERROR e) run'" if "compare_records sha256 transformer mode recs run = (Inl e, run')" for transformer recs code clean e run'
      by (simp only: fixture compare_native_def cu(1) rc cons that Let_def sum.case prod.case)
    show "run_fixture sha256 transformer mode c cmds (ConfigRecord (honest_config mode c) # recs) code clean =
        comparison_summary sha256 (DIVERGED d) run'" if "compare_records sha256 transformer mode recs run = (Inr (Some d), run')"
      for transformer recs code clean d run'
      by (simp only: fixture compare_native_def cu(1) rc cons that Let_def sum.case prod.case option.case)
    show "cmp_status (run_fixture sha256 transformer mode c cmds (ConfigRecord (honest_config mode c) # recs) code clean) = PASSED"
      if done_all: "compare_records sha256 transformer mode recs run = (Inr None, run')" and fin: "fst (finish_comparison sha256 code clean ?capture run') = Inr ()"
      for transformer recs code clean run'
    proof -
      obtain u run2 where "finish_comparison sha256 code clean ?capture run' = (Inr u, run2)" using fin by (metis prod.collapse)
      then show ?thesis
        by (simp add: fixture compare_native_def cu(1) rc cons done_all Let_def comparison_summary_def del: compare_records.simps)
    qed
  qed
qed

section \<open>Where a difference is found\<close>

lemma different_result:
  assumes step: "in_step sha256 capture f index (cmd # cmds) (r0 # rs) s run"
    and r0: "nr_command_index r0 = index" "nr_line r0 = index + 2" and neq: "r \<noteq> r0"
  shows "\<exists>out run1. compare_record sha256 None (rc_mode capture) (ResultRecord r) run = (out, run1) \<and> cn_compared run1 = cn_compared run \<and>
    (case fst (feed_record sha256 (ResultRecord r) (cn_decoder run)) of
       Inl e \<Rightarrow> out = Inl e
     | Inr _ \<Rightarrow> (\<exists>d. out = Inr (Some d) \<and> dv_command_index d = Some index))"
proof (cases "feed_record sha256 (ResultRecord r) (cn_decoder run)")
  case fed: (Pair x d)
  show ?thesis
  proof (cases x)
    case (Inl e)
    then show ?thesis by (simp add: compare_record_def on_decoder_def prog_simps fed)
  next
    case (Inr u)
    have m: "midway sha256 (rc_mode capture) (rc_config capture) index (cmd # cmds) s (cn_decoder run)"
      using step by (simp add: in_step_def)
    have idx: "nr_command_index r = index"
      using m fed Inr by (auto simp: feed_record_def accept_result_def midway_def prog_simps split: sum.splits prod.splits)
    have "\<not> json_same (native_result_mapping r0) (native_result_mapping r)"
      using result_mapping_same [of r0 r] fed_result_line [OF m] fed Inr r0(2) neq by auto
    then obtain diff where "first_value_difference (native_result_mapping r0) (native_result_mapping r) ''$'' = Some diff"
      using no_difference [of "native_result_mapping r0" "native_result_mapping r" "''$''"] by auto
    moreover obtain cu where "cursor_next sha256 (cn_cursor run) = (Inr (native_result_mapping r0), cu)"
      using cursor_next_result [of sha256 capture f index r0 rs "cn_cursor run"] step r0(1) by (auto simp: in_step_def)
    ultimately show ?thesis
      using idx Inr
      by (simp add: compare_record_def compare_result_def compare_mapping_def transformed_def on_decoder_def on_cursor_def prog_simps fed
          make_divergence_def Let_def)
  qed
qed

lemma prefix_compared:
  assumes "honest_trace sha256 (rc_mode capture) (rc_config capture) index cmds rs s s'"
    and "in_step sha256 capture f index cmds rs s run" and "k < length rs"
  shows "\<exists>run' t. in_step sha256 capture f (index + int k) (drop k cmds) (drop k rs) t run' \<and> cn_compared run' = cn_compared run + int k \<and>
    nr_command_index (rs ! k) = index + int k \<and> nr_line (rs ! k) = index + int k + 2 \<and>
    (\<forall>recs. compare_records sha256 None (rc_mode capture) (map ResultRecord (take k rs) @ recs) run =
        compare_records sha256 None (rc_mode capture) recs run') \<and>
    (\<forall>recs e. fst (feed_records sha256 (map ResultRecord (take k rs) @ recs) (cn_decoder run)) = Inl e \<longleftrightarrow>
        fst (feed_records sha256 recs (cn_decoder run')) = Inl e)"
  using assms
proof (induction arbitrary: run k rule: honest_trace.induct)
  case (trace_done index s)
  then show ?case by simp
next
  case (trace_step cmd s es s1 s2 index cmds rs s')
  let ?r = "honest_result sha256 (rc_mode capture) (rc_config capture) index cmd es (snapshot_of s2)"
  show ?case
  proof (cases k)
    case 0
    then show ?thesis using trace_step.prems(1) by (intro exI [of _ run] exI [of _ s]) (simp add: honest_result_def)
  next
    case (Suc j)
    from step_advances [OF trace_step.hyps(3) refl trace_step.prems(1)] obtain run1 where
      run1: "compare_record sha256 None (rc_mode capture) (ResultRecord ?r) run = (Inr None, run1)"
        "in_step sha256 capture f (index + 1) cmds rs s2 run1" "cn_compared run1 = cn_compared run + 1"
        "feed_record sha256 (ResultRecord ?r) (cn_decoder run) = (Inr (), cn_decoder run1)" by blast
    have "j < length rs" using trace_step.prems(2) Suc by simp
    from trace_step.IH [OF run1(2) this] obtain run' t where ih:
      "in_step sha256 capture f (index + 1 + int j) (drop j cmds) (drop j rs) t run'" "cn_compared run' = cn_compared run1 + int j"
      "nr_command_index (rs ! j) = index + 1 + int j" "nr_line (rs ! j) = index + 1 + int j + 2"
      "\<And>recs. compare_records sha256 None (rc_mode capture) (map ResultRecord (take j rs) @ recs) run1 =
        compare_records sha256 None (rc_mode capture) recs run'"
      "\<And>recs e. fst (feed_records sha256 (map ResultRecord (take j rs) @ recs) (cn_decoder run1)) = Inl e \<longleftrightarrow>
        fst (feed_records sha256 recs (cn_decoder run')) = Inl e" by blast
    have "fst (feed_records sha256 (ResultRecord ?r # recs) (cn_decoder run)) = Inl e \<longleftrightarrow>
        fst (feed_records sha256 recs (cn_decoder run1)) = Inl e" for recs e
      using feed_results [OF run1(4), of recs] by (auto split: prod.splits sum.splits)
    then show ?thesis
      using ih run1(1,3) Suc by (intro exI [of _ run'] exI [of _ t]) (simp add: bindP_def algebra_simps)
  qed
qed

section \<open>Properties\<close>

text \<open>
  C3.  The comparison of a native run with the reference engine passes exactly when the native process
  printed the records an engine that executes the same commands as the reference engine reports, ended
  with exit code 0 and wrote nothing to standard error.  For every workload of representable commands
  short of 2^32 - 6, under a hash whose values look like SHA-256 digests.
\<close>

theorem differential_exact:
  assumes "ReferenceEngine (ni_instrument_id c) (Some (ni_engine c)) 1 True = Inr s" and "matching_config_ok (ni_engine c)"
    and "\<forall>cmd \<in> set cmds. require_representable cmd = Inr ()" and "int (length cmds) + 6 \<le> U32_MAX"
    and "\<forall>b. is_digest (JStr (sha256 b))"
  shows "cmp_status (run_fixture sha256 None mode c cmds recs code clean) = PASSED \<longleftrightarrow>
    fst (honest_records sha256 mode c cmds s) = Inr recs \<and> code = 0 \<and> clean"
  by (rule comparison_setting [OF assms, of mode]) auto

theorem differential_exact_witness:
  "\<exists>s recs. ReferenceEngine 1 (Some default_matching_config) 1 True = Inr s \<and>
    (let c = \<lparr>ni_instrument_id = 1, ni_engine = default_matching_config, ni_snapshot_interval = 0\<rparr>;
         run = run_fixture (\<lambda>_. replicate 64 CHR ''0'') None EXACT c [CancelOrder \<lparr>cancel_client_id = 1, cancel_order_id = 5, cancel_instrument_id = 1\<rparr>]
     in cmp_status (run recs 0 True) = PASSED \<and> cmp_status (run [] 0 True) \<noteq> PASSED \<and> cmp_status (run recs 0 False) \<noteq> PASSED)"
proof -
  let ?c = "\<lparr>ni_instrument_id = 1, ni_engine = default_matching_config, ni_snapshot_interval = 0\<rparr>"
  let ?cmds = "[CancelOrder \<lparr>cancel_client_id = 1, cancel_order_id = 5, cancel_instrument_id = 1\<rparr>]"
  let ?h = "\<lambda>_ :: bytes. replicate 64 CHR ''0''"
  obtain s where s: "ReferenceEngine 1 (Some default_matching_config) 1 True = Inr s"
    by (rule that [of "initial_engine 1 (Some default_matching_config) 1 True"]) code_simp
  have ok: "matching_config_ok default_matching_config" by code_simp
  have cmds: "\<forall>cmd \<in> set ?cmds. require_representable cmd = Inr ()" by (simp add: require_uint_def width_defs)
  have n: "int (length ?cmds) + 6 \<le> U32_MAX" by (simp add: U32_MAX_def)
  have sha: "\<forall>b. is_digest (JStr (?h b))" by (simp add: is_digest_def list_all_iff)
  obtain recs where recs: "fst (honest_records ?h EXACT ?c ?cmds s) = Inr recs" "recs \<noteq> []"
    using honest_records_accepted [of ?c True s ?cmds ?h EXACT] s ok cmds n by auto
  note iff = differential_exact [of ?c s ?cmds ?h EXACT]
  show ?thesis
    using s ok cmds n sha recs by (intro exI [of _ s] exI [of _ recs]) (simp add: Let_def iff)
qed

text \<open>
  C11.  A native run that reports the honest results of the first \<open>k\<close> commands and then a different result
  is stopped there: \<open>k\<close> commands have been compared, and the outcome is the decoder's own error when the
  decoder rejects that record, and otherwise a divergence reported at command \<open>k\<close>, whatever follows.
\<close>

theorem divergence_located:
  assumes "ReferenceEngine (ni_instrument_id c) (Some (ni_engine c)) 1 True = Inr s" and "matching_config_ok (ni_engine c)"
    and "\<forall>cmd \<in> set cmds. require_representable cmd = Inr ()" and "int (length cmds) + 6 \<le> U32_MAX"
    and "\<forall>b. is_digest (JStr (sha256 b))"
    and honest: "fst (honest_records sha256 mode c cmds s) = Inr (config # map ResultRecord rs @ [FinalRecord f])"
    and k: "k < length rs" and neq: "r \<noteq> rs ! k"
    and out_def: "out = run_fixture sha256 None mode c cmds (config # map ResultRecord (take k rs) @ ResultRecord r # recs) code clean"
  shows "cmp_commands_compared out = int k \<and>
    (case fst (feed_records sha256 (config # map ResultRecord (take k rs) @ [ResultRecord r])
        (NativeStreamDecoder (Some mode) (Some c) (Some cmds))) of
       Inl e \<Rightarrow> cmp_status out = HARNESS_ERROR e
     | Inr _ \<Rightarrow> (\<exists>d. cmp_status out = DIVERGED d \<and> dv_command_index d = Some (int k)))"
proof (rule comparison_setting [OF assms(1-5), of mode])
  fix rs' s' f' capture run
  assume "fst (honest_records sha256 mode c cmds s) = Inr (ConfigRecord (honest_config mode c) # map ResultRecord rs' @ [FinalRecord f'])"
    and rc: "rc_mode capture = mode" "rc_config capture = c" and "honest_trace sha256 mode c 0 cmds rs' s s'"
    and "in_step sha256 capture f' 0 cmds rs' s run" and zero: "cn_compared run = 0"
    and fed: "feed_record sha256 (ConfigRecord (honest_config mode c)) (NativeStreamDecoder (Some mode) (Some c) (Some cmds)) =
      (Inr (), cn_decoder run)"
    and raised: "\<And>transformer recs code clean e run'. compare_records sha256 transformer mode recs run = (Inl e, run') \<Longrightarrow>
      run_fixture sha256 transformer mode c cmds (ConfigRecord (honest_config mode c) # recs) code clean =
        comparison_summary sha256 (HARNESS_ERROR e) run'"
    and found: "\<And>transformer recs code clean d run'. compare_records sha256 transformer mode recs run = (Inr (Some d), run') \<Longrightarrow>
      run_fixture sha256 transformer mode c cmds (ConfigRecord (honest_config mode c) # recs) code clean =
        comparison_summary sha256 (DIVERGED d) run'"
  with honest have config: "config = ConfigRecord (honest_config mode c)" and
    tr: "honest_trace sha256 (rc_mode capture) (rc_config capture) 0 cmds rs s s'" "in_step sha256 capture f' 0 cmds rs s run"
    by (auto simp: inj_map_eq_map inj_def)
  from prefix_compared [OF tr k] obtain run' t where p:
    "in_step sha256 capture f' (int k) (drop k cmds) (drop k rs) t run'" "cn_compared run' = int k"
    "nr_command_index (rs ! k) = int k" "nr_line (rs ! k) = int k + 2"
    "\<And>recs. compare_records sha256 None mode (map ResultRecord (take k rs) @ recs) run = compare_records sha256 None mode recs run'"
    "\<And>recs e. fst (feed_records sha256 (map ResultRecord (take k rs) @ recs) (cn_decoder run)) = Inl e \<longleftrightarrow>
        fst (feed_records sha256 recs (cn_decoder run')) = Inl e"
    by (auto simp: rc zero)
  have dr: "drop k rs = rs ! k # drop (Suc k) rs" "drop k cmds = cmds ! k # drop (Suc k) cmds"
    using k honest_trace_length [OF tr(1)] by (simp_all add: Cons_nth_drop_Suc)
  from different_result [OF p(1) [unfolded dr] p(3,4) neq] obtain res run1 where d:
    "compare_record sha256 None mode (ResultRecord r) run' = (res, run1)" "cn_compared run1 = int k"
    "case fst (feed_record sha256 (ResultRecord r) (cn_decoder run')) of Inl e \<Rightarrow> res = Inl e
     | Inr _ \<Rightarrow> (\<exists>d. res = Inr (Some d) \<and> dv_command_index d = Some (int k))"
    unfolding rc p(2) by blast
  let ?all = "map ResultRecord (take k rs) @ ResultRecord r # recs"
  have cfg: "fst (feed_records sha256 (config # xs) (NativeStreamDecoder (Some mode) (Some c) (Some cmds))) = Inl e \<longleftrightarrow>
      fst (feed_records sha256 xs (cn_decoder run)) = Inl e" for xs e
    by (auto simp: config prog_simps fed split: prod.splits sum.splits)
  have last: "fst (feed_records sha256 [ResultRecord r] (cn_decoder run')) = Inl e \<longleftrightarrow>
      fst (feed_record sha256 (ResultRecord r) (cn_decoder run')) = Inl e" for e
    by (auto simp: prog_simps split: prod.splits sum.splits)
  show ?thesis
  proof (cases "fst (feed_record sha256 (ResultRecord r) (cn_decoder run'))")
    case (Inl e)
    with d have "compare_records sha256 None mode ?all run = (Inl e, run1)" by (simp add: p(5) bindP_def)
    from raised [OF this] Inl d(2) show ?thesis
      using cfg [of "map ResultRecord (take k rs) @ [ResultRecord r]" e] p(6) [of "[ResultRecord r]" e] last [of e]
      by (simp add: out_def config comparison_summary_def)
  next
    case (Inr u)
    with d(3) obtain dv where dv: "res = Inr (Some dv)" "dv_command_index dv = Some (int k)" by auto
    with d(1) have "compare_records sha256 None mode ?all run = (Inr (Some dv), run1)" by (simp add: p(5) bindP_def)
    from found [OF this] Inr d(2) dv(2) show ?thesis
      using cfg [of "map ResultRecord (take k rs) @ [ResultRecord r]"] p(6) [of "[ResultRecord r]"] last
      by (auto simp: out_def config comparison_summary_def split: sum.splits)
  qed
qed

theorem divergence_located_witness:
  "\<exists>s rs f. let c = \<lparr>ni_instrument_id = 1, ni_engine = default_matching_config, ni_snapshot_interval = 0\<rparr>;
      cmds = [CancelOrder \<lparr>cancel_client_id = 1, cancel_order_id = 5, cancel_instrument_id = 1\<rparr>];
      sha = (\<lambda>_. replicate 64 CHR ''0''); r = (rs ! 0)\<lparr>nr_command_type := NEW\<rparr>;
      out = run_fixture sha None EXACT c cmds (ConfigRecord (honest_config EXACT c) # [ResultRecord r]) 0 True in
    fst (honest_records sha EXACT c cmds s) = Inr (ConfigRecord (honest_config EXACT c) # map ResultRecord rs @ [FinalRecord f]) \<and>
    cmp_commands_compared out = 0 \<and> cmp_status out \<noteq> PASSED"
proof -
  let ?c = "\<lparr>ni_instrument_id = 1, ni_engine = default_matching_config, ni_snapshot_interval = 0\<rparr>"
  let ?cmds = "[CancelOrder \<lparr>cancel_client_id = 1, cancel_order_id = 5, cancel_instrument_id = 1\<rparr>]"
  let ?h = "\<lambda>_ :: bytes. replicate 64 CHR ''0''"
  obtain s where s: "ReferenceEngine 1 (Some default_matching_config) 1 True = Inr s"
    by (rule that [of "initial_engine 1 (Some default_matching_config) 1 True"]) code_simp
  have ok: "matching_config_ok default_matching_config" by code_simp
  have cmds: "\<forall>cmd \<in> set ?cmds. require_representable cmd = Inr ()" by (simp add: require_uint_def width_defs)
  have n: "int (length ?cmds) + 6 \<le> U32_MAX" by (simp add: U32_MAX_def)
  have sha: "\<forall>b. is_digest (JStr (?h b))" by (simp add: is_digest_def list_all_iff)
  have eng: "ReferenceEngine (ni_instrument_id ?c) (Some (ni_engine ?c)) 1 True = Inr s" "matching_config_ok (ni_engine ?c)"
    using s ok by simp_all
  show ?thesis
  proof (rule comparison_setting [OF eng cmds n sha, of EXACT])
    fix rs s' f capture run
    assume h: "fst (honest_records ?h EXACT ?c ?cmds s) = Inr (ConfigRecord (honest_config EXACT ?c) # map ResultRecord rs @ [FinalRecord f])"
      and tr: "honest_trace ?h EXACT ?c 0 ?cmds rs s s'"
    have len: "length rs = 1" using honest_trace_length [OF tr] by simp
    have "nr_command_type (rs ! 0) = CANCEL" using tr by (auto elim!: honest_trace.cases simp: honest_result_def)
    then have neq: "(rs ! 0)\<lparr>nr_command_type := NEW\<rparr> \<noteq> rs ! 0" by (metis command_type.distinct(1) native_result_record.select_convs(3) native_result_record.surjective native_result_record.update_convs(3))
    from divergence_located [OF eng cmds n sha h _ neq refl, of "[]" 0 True] len h
    show ?thesis by (intro exI [of _ s] exI [of _ rs] exI [of _ f]) (auto simp: Let_def split: sum.splits)
  qed
qed

text \<open>
  C14.  The stream decoder accepts the records of an honest run of the reference engine in full: every
  structural check, every check against the configuration and the submitted commands, and the agreement
  with exit code 0.
\<close>

theorem honest_evidence_accepted:
  assumes "ReferenceEngine (ni_instrument_id c) (Some (ni_engine c)) 1 check = Inr s" and "matching_config_ok (ni_engine c)"
    and "\<forall>cmd \<in> set cmds. require_representable cmd = Inr ()" and "int (length cmds) + 6 \<le> U32_MAX"
  shows "\<exists>recs transcript. fst (honest_records sha256 mode c cmds s) = Inr recs \<and>
    decode_records sha256 (Some mode) (Some c) (Some cmds) (Some 0) recs = Inr transcript \<and>
    length (nt_results transcript) = length cmds \<and> nt_error transcript = None \<and>
    recs = ConfigRecord (the (nt_config transcript)) # map ResultRecord (nt_results transcript) @ [FinalRecord (the (nt_final transcript))]"
  using honest_records_accepted [OF assms, of sha256 mode] by auto

theorem honest_evidence_accepted_witness:
  "\<exists>s recs transcript. let c = \<lparr>ni_instrument_id = 1, ni_engine = default_matching_config, ni_snapshot_interval = 0\<rparr>;
      cmds = [CancelOrder \<lparr>cancel_client_id = 1, cancel_order_id = 5, cancel_instrument_id = 1\<rparr>]; sha = (\<lambda>_. []) in
    fst (honest_records sha EXACT c cmds s) = Inr recs \<and>
    decode_records sha (Some EXACT) (Some c) (Some cmds) (Some 0) recs = Inr transcript \<and> length (nt_results transcript) = 1"
proof -
  let ?c = "\<lparr>ni_instrument_id = 1, ni_engine = default_matching_config, ni_snapshot_interval = 0\<rparr>"
  let ?cmds = "[CancelOrder \<lparr>cancel_client_id = 1, cancel_order_id = 5, cancel_instrument_id = 1\<rparr>]"
  have s: "ReferenceEngine (ni_instrument_id ?c) (Some (ni_engine ?c)) 1 True = Inr (initial_engine 1 (Some default_matching_config) 1 True)"
    by code_simp
  have "matching_config_ok (ni_engine ?c)" by code_simp
  moreover have "\<forall>cmd \<in> set ?cmds. require_representable cmd = Inr ()" by (simp add: require_uint_def width_defs)
  ultimately show ?thesis using honest_evidence_accepted [OF s, of ?cmds "\<lambda>_. []" EXACT] by (auto simp: Let_def U32_MAX_def)
qed


end
