(* ===== verification/Campaign_Properties.thy ===== *)
theory Campaign_Properties
  imports Campaigns Workload_Properties Differential_Properties
begin

text \<open>
  What persisted workloads and campaigns guarantee: dictionaries read back to the value they were written
  from, a generated workload passes its own verification and decodes to the generated commands, and a
  campaign suite passes exactly when the native engine behaves like the reference engine on every case.
\<close>

section \<open>Round trips of dictionaries\<close>

lemma json_reads [simp]:
  "json_mapping (JObj kvs) = Inr kvs" "json_string (JStr s) = Inr s" "json_int (JInt i) = Inr i"
  by (simp_all add: json_mapping_def json_string_def json_int_def)

lemma digit_small: "is_digit c \<Longrightarrow> (of_char c :: nat) < 128"
  by (simp add: is_digit_def Let_def)

lemma py_str_zero: "py_str i = ''0'' \<longleftrightarrow> i = 0"
  by (metis py_int_str py_str_def dec_zero nat_0 less_irrefl)

lemma py_int_zero [simp]: "py_int ''0'' = 0"
  by code_simp

lemma decimal_reads [simp]:
  assumes "0 \<le> i"
  shows "spec_decimal (jnum i) = Inr i" "decimal_field (jnum i) = Inr i"
proof -
  have "unsigned_decimal (py_str i)" by (rule py_str_unsigned [OF assms])
  then consider "py_str i = ''0''" | "py_str i \<noteq> []" "list_all is_digit (py_str i)" "hd (py_str i) \<noteq> CHR ''0''"
    by (auto simp: unsigned_decimal_def positive_decimal_def)
  then show "spec_decimal (jnum i) = Inr i" "decimal_field (jnum i) = Inr i"
  proof (atomize (full), cases)
    case 1
    then have z: "i = 0" by (simp add: py_str_zero)
    show "spec_decimal (jnum i) = Inr i \<and> decimal_field (jnum i) = Inr i" unfolding z by code_simp
  next
    case 2
    then show "spec_decimal (jnum i) = Inr i \<and> decimal_field (jnum i) = Inr i"
      by (auto simp: spec_decimal_def decimal_field_def list_all_iff intro: digit_small)
  qed
qed

lemma signed_decimal_reads [simp]: "signed_decimal_field (jnum i) = Inr i"
proof (cases "i < 0")
  case True
  then have s: "py_str i = CHR ''-'' # dec (nat (- i))" by (simp add: py_str_def)
  have "positive_decimal (dec (nat (- i)))" using True by (intro dec_positive) simp
  then show ?thesis
    using py_int_str [of i] unfolding s
    by (auto simp: signed_decimal_field_def positive_decimal_def Let_def)
next
  case False
  then have "unsigned_decimal (py_str i)" by (intro py_str_unsigned) simp
  moreover from unsigned_no_sign [OF this] have "py_str i \<noteq> [] \<and> hd (py_str i) \<noteq> CHR ''-''" .
  ultimately show ?thesis
    by (auto simp: signed_decimal_field_def unsigned_decimal_def positive_decimal_def Let_def py_str_zero)
qed

lemma profile_reads [simp]: "member_of profile_value all_profiles (profile_value p) = Inr p"
  by (cases p) (simp_all add: member_of_def all_profiles_def)

lemma price_model_reads [simp]: "member_of price_model_value all_price_models (price_model_value q) = Inr q"
  by (cases q) (simp_all add: member_of_def all_price_models_def)

lemma tier_reads [simp]: "member_of tier_name all_tiers (tier_name t) = Inr t"
  by (cases t) (simp_all add: member_of_def all_tiers_def)

lemma mode_reads [simp]: "member_of mode_name [EXACT, COMPACT] (mode_name m) = Inr m"
  by (cases m) (simp_all add: member_of_def)

lemma config_rebuilds:
  assumes "matching_config_ok c"
  shows "MatchingConfig (max_order_quantity c) (tick_increment c) (max_active_orders c) = Inr c"
  using assms by (simp add: MatchingConfig_iff)

lemma bindR_keys [simp]: "set (map fst kvs) = set ks \<Longrightarrow> bindR (require_keys kvs ks) f = f ()"
  by (simp add: require_keys_def guardR_def)

lemma bindR_guard [simp]: "b \<Longrightarrow> bindR (guardR b e) f = f ()"
  by (simp add: guardR_def)

lemma workload_spec_eta [simp]:
  "\<lparr>ws_command_count = ws_command_count sp, ws_instrument_id = ws_instrument_id sp, ws_engine = ws_engine sp,
    ws_profile = ws_profile sp, ws_price_model = ws_price_model sp, ws_operation_weights = ws_operation_weights sp,
    ws_invalid_basis_points = ws_invalid_basis_points sp, ws_aggressive_basis_points = ws_aggressive_basis_points sp,
    ws_market_basis_points = ws_market_basis_points sp, ws_boundary_quantity_basis_points = ws_boundary_quantity_basis_points sp,
    ws_mid_price = ws_mid_price sp, ws_price_span_ticks = ws_price_span_ticks sp, ws_active_order_target = ws_active_order_target sp,
    ws_client_count = ws_client_count sp, ws_snapshot_interval = ws_snapshot_interval sp\<rparr> = sp"
  by simp

lemma spec_dict_roundtrip:
  assumes "WorkloadSpec sp = Inr sp" and "matching_config_ok (ws_engine sp)"
    and "let w = ws_operation_weights sp in OperationWeights (w_new w) (w_cancel w) (w_replace w) = Inr w"
  shows "json_mapping (spec_to_dict sp) = Inr kvs \<Longrightarrow> spec_from_dict kvs = Inr sp" and "\<exists>kvs. spec_to_dict sp = JObj kvs"
proof -
  show "\<exists>kvs. spec_to_dict sp = JObj kvs" by (simp add: spec_to_dict_def Let_def)
  assume "json_mapping (spec_to_dict sp) = Inr kvs"
  then have kvs: "spec_to_dict sp = JObj kvs" by (simp add: spec_to_dict_def Let_def)
  have pos: "0 \<le> ws_command_count sp" "0 \<le> ws_instrument_id sp" "0 \<le> ws_active_order_target sp" "0 \<le> ws_snapshot_interval sp"
    using assms(1) by (auto simp: WorkloadSpec_def check_spec_def bindR_Inr_iff require_int_def split: if_splits)
  have eng: "0 \<le> max_order_quantity (ws_engine sp)" "0 \<le> max_active_orders (ws_engine sp)"
    using assms(2) by (simp_all add: matching_config_ok_def)
  have keys: "set (map fst kvs) = set SPEC_KEYS" using kvs by (auto simp: spec_to_dict_def Let_def SPEC_KEYS_def)
  show "spec_from_dict kvs = Inr sp"
    using assms(1,3) pos eng
    by (simp add: bindR_keys [OF keys] spec_from_dict_def Let_def kvs [symmetric] spec_to_dict_def config_rebuilds [OF assms(2)] insert_commute)
qed

definition dict_spec_ok :: "workload_spec \<Rightarrow> bool" where
  "dict_spec_ok sp \<longleftrightarrow> WorkloadSpec sp = Inr sp \<and> matching_config_ok (ws_engine sp) \<and>
     (let w = ws_operation_weights sp in OperationWeights (w_new w) (w_cancel w) (w_replace w) = Inr w)"

lemma spec_reads [simp]:
  assumes "dict_spec_ok sp"
  shows "bindR (json_mapping (spec_to_dict sp)) spec_from_dict = Inr sp"
proof -
  obtain kvs where kvs: "spec_to_dict sp = JObj kvs" by (simp add: spec_to_dict_def Let_def)
  with spec_dict_roundtrip(1) [of sp kvs] assms show ?thesis by (simp add: dict_spec_ok_def)
qed

lemma mapR_inverse: "\<forall>x \<in> set xs. f (g x) = Inr x \<Longrightarrow> mapR f (map g xs) = Inr xs"
  by (induction xs) auto

lemma pairs_sorted:
  fixes xs :: "('a :: linorder \<times> int) list"
  shows "sorted (map fst xs) \<Longrightarrow> distinct (map fst xs) \<Longrightarrow> sorted xs"
  by (induction xs) (force simp: less_eq_prod_def)+

lemma checked_manifest:
  assumes "check_manifest m = Inr ()"
  shows "0 \<le> mf_seed m" "0 \<le> mf_command_count m" "st_command_count (mf_stats m) = mf_command_count m"
    "sorted (map fst (st_intents (mf_stats m)))" "distinct (map fst (st_intents (mf_stats m)))"
    "\<forall>x \<in> set (st_intents (mf_stats m)). 1 \<le> snd x"
proof -
  let ?names = "map fst (st_intents (mf_stats m))"
  have names: "?names = sort ?names" and "distinct ?names" "list_all (\<lambda>(name, n). name \<noteq> [] \<and> 1 \<le> n) (st_intents (mf_stats m))"
    and "0 \<le> mf_seed m" "0 \<le> mf_command_count m" "st_command_count (mf_stats m) = mf_command_count m"
    using assms unfolding check_manifest_def Let_def check_all_passes require_seed_def
    by (auto simp only: list.set insert_iff empty_iff ball_simps guardR_Inr_iff)
  then show "0 \<le> mf_seed m" "0 \<le> mf_command_count m" "st_command_count (mf_stats m) = mf_command_count m"
    "distinct ?names" "\<forall>x \<in> set (st_intents (mf_stats m)). 1 \<le> snd x" by (auto simp: list_all_iff)
  show "sorted ?names" by (subst names) simp
qed

lemma manifest_dict_roundtrip:
  assumes "check_manifest m = Inr ()" and "dict_spec_ok (mf_spec m)"
    and "0 \<le> st_intended_valid (mf_stats m)" "0 \<le> st_intended_invalid (mf_stats m)" "0 \<le> st_new_orders (mf_stats m)"
    and "0 \<le> st_cancels (mf_stats m)" "0 \<le> st_replaces (mf_stats m)"
  shows "manifest_from_dict (manifest_to_dict m) = Inr m"
proof -
  let ?st = "mf_stats m"
  note c = checked_manifest [OF assms(1)]
  have "sorted (st_intents ?st)" by (rule pairs_sorted [OF c(4,5)])
  moreover have "mapR (\<lambda>(name, v). bindR (decimal_field v) (\<lambda>n. Inr (name, n))) (map (\<lambda>(name, n). (name, jnum n)) (st_intents ?st)) =
      Inr (st_intents ?st)"
    using c(6) by (intro mapR_inverse) auto
  ultimately have i: "intents_from_dict (map (\<lambda>(name, n). (name, jnum n)) (st_intents ?st)) = Inr (st_intents ?st)"
    by (simp add: intents_from_dict_def sorted_sort_id)
  have "\<lparr>st_command_count = mf_command_count m, st_intended_valid = st_intended_valid ?st, st_intended_invalid = st_intended_invalid ?st,
      st_new_orders = st_new_orders ?st, st_cancels = st_cancels ?st, st_replaces = st_replaces ?st, st_intents = st_intents ?st\<rparr> = ?st"
    using c(3) by simp
  then have "manifest_from_dict (manifest_to_dict m) = WorkloadManifest
      \<lparr>mf_generator_version = mf_generator_version m, mf_seed = mf_seed m, mf_spec = mf_spec m,
       mf_command_count = mf_command_count m, mf_command_stream_sha256 = mf_command_stream_sha256 m, mf_stats = ?st\<rparr>"
    using assms(2-) c(1,2) i by (simp add: manifest_from_dict_def manifest_to_dict_def Let_def insert_commute)
  also have "\<lparr>mf_generator_version = mf_generator_version m, mf_seed = mf_seed m, mf_spec = mf_spec m,
       mf_command_count = mf_command_count m, mf_command_stream_sha256 = mf_command_stream_sha256 m, mf_stats = ?st\<rparr> = m" by simp
  finally show ?thesis using assms(1) by (simp add: WorkloadManifest_def)
qed

lemma case_dict_roundtrip:
  assumes "CampaignCase c = Inr c" and "dict_spec_ok (cs_spec c)"
  shows "case_from_dict (case_to_dict c) = Inr c"
proof -
  have "0 \<le> cs_seed c" using assms(1) by (auto simp: CampaignCase_def require_seed_def guardR_def bindR_Inr_iff split: if_splits)
  then have "case_from_dict (case_to_dict c) = CampaignCase \<lparr>cs_name = cs_name c, cs_seed = cs_seed c, cs_spec = cs_spec c\<rparr>"
    using assms by (simp add: case_from_dict_def case_to_dict_def)
  also have "\<lparr>cs_name = cs_name c, cs_seed = cs_seed c, cs_spec = cs_spec c\<rparr> = c" by simp
  finally show ?thesis using assms(1) by simp
qed

lemma suite_dict_roundtrip:
  assumes "CampaignSuite s = Inr s" and "\<forall>c \<in> set (su_cases s). CampaignCase c = Inr c \<and> dict_spec_ok (cs_spec c)"
  shows "suite_from_dict (suite_to_dict s) = Inr s"
proof -
  have "mapR case_from_dict (map case_to_dict (su_cases s)) = Inr (su_cases s)"
    using assms(2) case_dict_roundtrip by (intro mapR_inverse) blast
  then have "suite_from_dict (suite_to_dict s) =
      CampaignSuite \<lparr>su_name = su_name s, su_tier = su_tier s, su_mode = su_mode s, su_cases = su_cases s\<rparr>"
    by (simp add: suite_from_dict_def suite_to_dict_def Let_def insert_commute)
  also have "\<lparr>su_name = su_name s, su_tier = su_tier s, su_mode = su_mode s, su_cases = su_cases s\<rparr> = s" by simp
  finally show ?thesis using assms(1) by simp
qed

section \<open>Generated workloads\<close>

lemma invalid_intents [simp]:
  "invalid_new v g \<noteq> (Inr (c, []), g')" "invalid_cancel v g \<noteq> (Inr (d, []), g')" "invalid_replace v g \<noteq> (Inr (r, []), g')"
  by (auto simp: invalid_new_def invalid_shape_new_def invalid_quantity_new_def elim!: bindP_InrE split: if_splits)
    (auto simp: invalid_cancel_def invalid_replace_def invalid_replace_of_def Let_def elim!: bindP_InrE split: if_splits)

lemma generated_intent:
  assumes "next_generated g = (Inr gc, g')"
  shows "gc_intent gc \<noteq> []"
proof -
  from assms obtain b s g1 where "step_body b (g\<lparr>gen_rng := s\<rparr>) = (Inr gc, g1)" by (rule next_generated_cases)
  then show ?thesis
  proof (cases rule: step_body_cases)
    case (invalid g2)
    then show ?thesis by (auto simp: invalid_command_def elim!: bindP_InrE split: if_splits prod.splits)
  next
    case (valid cmd intent g2 sh)
    then show ?thesis by (auto simp: valid_command_def elim!: bindP_InrE split: if_splits)
  qed
qed

lemma drain_Cons:
  assumes "drain g = (Inr gcs, g')"
  obtains "gcs = []" "next_generated g = (Inl StopIteration, g')"
    | gc g1 gcs' where "next_generated g = (Inr gc, g1)" "drain g1 = (Inr gcs', g')" "gcs = gc # gcs'"
  using assms by (subst (asm) drain.simps) (auto split: prod.splits sum.splits if_splits)

lemma drained_intents:
  assumes "drain g = (Inr gcs, g')"
  shows "\<forall>gc \<in> set gcs. gc_intent gc \<noteq> []"
  using assms
proof (induction gcs arbitrary: g)
  case (Cons gc gcs)
  from Cons.prems show ?case by (rule drain_Cons) (auto dest: Cons.IH generated_intent)
qed simp

lemma write_drained:
  assumes "drain g = (Inr gcs, g')" and "\<forall>gc \<in> set gcs. require_representable (gc_command gc) = Inr ()"
  shows "write_generated g = (Inr (command_text (map gc_command gcs)), g')"
  using assms
proof (induction gcs arbitrary: g)
  case Nil
  from Nil.prems(1) show ?case by (rule drain_Cons) (simp_all add: write_generated.simps [of g])
next
  case (Cons gc gcs)
  from Cons.prems(1) show ?case
  proof (rule drain_Cons)
    fix gc' g1 gcs' assume "next_generated g = (Inr gc', g1)" "drain g1 = (Inr gcs', g')" "gc # gcs = gc' # gcs'"
    moreover from this have "encode_command (gc_command gc') = Inr (join_fields (command_fields (gc_command gc')))"
      using Cons.prems(2) by (simp add: encode_command_Inr native_require_representable_eq)
    ultimately show ?thesis using Cons.IH [of g1] Cons.prems(2) by (simp add: write_generated.simps [of g])
  qed simp
qed

lemma command_text_lines:
  "command_text cmds = concat (map (\<lambda>l. l @ [CHR 0x0A]) (map (join_fields \<circ> command_fields) cmds))"
  by (induction cmds) simp_all

lemma lf_line_plain [simp]:
  assumes "list_all plain_char l"
  shows "lf_line (l @ [CHR 0x0A]) = Inr l"
proof -
  have "\<not> (l \<noteq> [] \<and> last l = CHR 0x0D)" using assms plain_not_break by (metis last_in_set list_all_iff)
  then show ?thesis unfolding lf_line_def butlast_snoc last_snoc by simp
qed

lemma read_encoded:
  assumes "require_representable cmd = Inr ()"
  shows "read_command (join_fields (command_fields cmd) @ [CHR 0x0A]) = Inr cmd"
proof -
  have e: "encode_command cmd = Inr (join_fields (command_fields cmd))"
    using assms by (simp add: encode_command_Inr native_require_representable_eq)
  from encode_command_plain [OF e] decode_encode_command [OF e] e show ?thesis by (simp add: read_command_def)
qed

text \<open>The file of a configuration and its commands opens to them.\<close>

lemma file_lines:
  "py_lines (encode_header c @ [CHR 0x0A] @ command_text cmds) =
    (encode_header c @ [CHR 0x0A]) # map (\<lambda>cmd. join_fields (command_fields cmd) @ [CHR 0x0A]) cmds"
  using py_lines_plain [of "encode_header c # map (join_fields \<circ> command_fields) cmds"] encode_header_plain
  by (auto simp: command_text_lines comp_def intro: join_fields_plain command_fields_tokens)

lemma file_opens:
  assumes "native_config_ok c"
  shows "open_workload (encode_header c @ [CHR 0x0A] @ command_text cmds) =
    Inr \<lparr>wr_text = encode_header c @ [CHR 0x0A] @ command_text cmds, wr_config = c\<rparr>"
  unfolding open_workload_def file_lines using decode_encode_header [OF assms] encode_header_plain by simp

lemma file_commands:
  assumes "native_config_ok c" and "\<forall>cmd \<in> set cmds. require_representable cmd = Inr ()"
  shows "reader_commands limit \<lparr>wr_text = encode_header c @ [CHR 0x0A] @ command_text cmds, wr_config = c\<rparr> =
    Inr (case limit of None \<Rightarrow> cmds | Some n \<Rightarrow> take n cmds)"
proof -
  have "mapR read_command (map (\<lambda>cmd. join_fields (command_fields cmd) @ [CHR 0x0A]) xs) = Inr xs" if "set xs \<subseteq> set cmds" for xs
    using that assms(2) read_encoded by (intro mapR_inverse) blast
  from this [of cmds] this [of "take n cmds" for n] show ?thesis
    unfolding reader_commands_def workload_reader.simps file_lines
    using decode_encode_header [OF assms(1)] encode_header_plain by (auto simp: take_map set_take_subset split: option.splits)
qed

lemma digest_required:
  assumes "is_digest (JStr v)"
  shows "require_digest v = Inr ()"
proof -
  have chars: "char_of ` set ([48 ..< 58] @ [97 ..< 103]) = set ''0123456789abcdef''" by code_simp
  have "c \<in> set ''0123456789abcdef''" if "48 \<le> n \<and> n \<le> 57 \<or> 97 \<le> n \<and> n \<le> 102" "n = (of_char c :: nat)" for c n
  proof -
    have "n \<in> set ([48 ..< 58] @ [97 ..< 103])" using that(1) by (auto simp del: upt_rec_numeral)
    then have "char_of n \<in> char_of ` set ([48 ..< 58] @ [97 ..< 103])" by (rule imageI)
    then show ?thesis unfolding chars that(2) by simp
  qed
  then have "list_all (\<lambda>c. c \<in> set ''0123456789abcdef'') v"
    using assms by (force simp: is_digest_def list_all_iff Let_def simp del: set_simps list.set)
  then show ?thesis using assms by (simp add: require_digest_def guardR_def is_digest_def del: set_simps list.set)
qed

lemma tallies_cover: "(\<Sum>i \<in> gc_intent ` set gcs. tally i gcs) = int (length gcs)"
proof -
  have "tally i gcs = int (count (mset (map gc_intent gcs)) i)" for i
    by (induction gcs) (auto simp: tally_def)
  then show ?thesis
    using size_multiset_overloaded_eq [of "mset (map gc_intent gcs)"] by simp
qed

lemma types_cover:
  "length (filter (is_new \<circ> f) xs) + length (filter (is_cancel \<circ> f) xs) + length (filter (is_replace \<circ> f) xs) = length xs"
proof (induction xs)
  case (Cons x xs)
  then show ?case by (cases "f x") simp_all
qed simp

lemma intents_canonical:
  assumes "sorted_wrt (<) (map fst xs)" and "set xs = {(i, tally i gcs) | i. i \<in> gc_intent ` set gcs}"
    and "\<forall>gc \<in> set gcs. gc_intent gc \<noteq> []"
  shows "sum_list (map snd xs) = int (length gcs)" and "sort (map fst xs) = map fst xs" and "distinct (map fst xs)"
    and "list_all (\<lambda>(name, n). name \<noteq> [] \<and> 1 \<le> n) xs"
proof -
  have d: "distinct (map fst xs)" "sorted (map fst xs)" using assms(1) by (simp_all add: strict_sorted_iff)
  then show "distinct (map fst xs)" "sort (map fst xs) = map fst xs" by (simp_all add: sorted_sort_id)
  have pos: "1 \<le> tally i gcs" if "i \<in> gc_intent ` set gcs" for i
    using that by (auto simp: tally_def Suc_le_eq filter_empty_conv)
  then show "list_all (\<lambda>(name, n). name \<noteq> [] \<and> 1 \<le> n) xs" using assms(2,3) by (auto simp: list_all_iff)
  have "sum_list (map snd xs) = (\<Sum>x \<in> set xs. snd x)" using d(1) by (simp add: sum_list_distinct_conv_sum_set distinct_map)
  also have "set xs = (\<lambda>i. (i, tally i gcs)) ` gc_intent ` set gcs" using assms(2) by auto
  also have "(\<Sum>x \<in> (\<lambda>i. (i, tally i gcs)) ` gc_intent ` set gcs. snd x) = (\<Sum>i \<in> gc_intent ` set gcs. tally i gcs)"
    by (subst sum.reindex) (auto simp: inj_on_def)
  finally show "sum_list (map snd xs) = int (length gcs)" by (simp add: tallies_cover)
qed

definition spec_input :: "workload_spec \<Rightarrow> native_input_config" where
  "spec_input sp = \<lparr>ni_instrument_id = ws_instrument_id sp, ni_engine = ws_engine sp, ni_snapshot_interval = ws_snapshot_interval sp\<rparr>"

lemma spec_input_ok:
  assumes "spec_valid sp"
  shows "native_config_ok (spec_input sp)"
    and "NativeInputConfig (ws_instrument_id sp) (ws_engine sp) (ws_snapshot_interval sp) = Inr (spec_input sp)"
  using assms
  by (auto simp: spec_valid_def WorkloadSpec_def check_spec_def bindR_Inr_iff native_config_ok_def spec_input_def NativeInputConfig_Inr
      split: if_splits)

text \<open>What \<open>generate_workload\<close> writes and returns.\<close>

lemma generated_file:
  assumes "tame sp" and "0 \<le> seed" "seed \<le> U64_MAX" and "\<forall>b. is_digest (JStr (sha256 b))"
  obtains cmds m where
    "iter_commands sp seed = Inr cmds" and "int (length cmds) = ws_command_count sp"
    and "\<forall>cmd \<in> set cmds. require_representable cmd = Inr ()"
    and "generate_workload sha256 sp seed = Inr (encode_header (spec_input sp) @ [CHR 0x0A] @ command_text cmds, m)"
    and "manifest_from_dict (manifest_to_dict m) = Inr m"
    and "verify_workload sha256 (encode_header (spec_input sp) @ [CHR 0x0A] @ command_text cmds) m =
      Inr \<lparr>wr_text = encode_header (spec_input sp) @ [CHR 0x0A] @ command_text cmds, wr_config = spec_input sp\<rparr>"
proof -
  have sv: "spec_valid sp" using assms(1) by (simp add: tame_def)
  obtain g gcs g' where g: "WorkloadGenerator sp seed = Inr g" "drain g = (Inr gcs, g')" "int (length gcs) = ws_command_count sp"
    and rep: "\<forall>gc \<in> set gcs. require_representable (gc_command gc) = Inr ()"
    by (rule stream_exists [OF assms(1-3)])
  note st = stats_of_stream [OF g(1,2)]
  let ?cmds = "map gc_command gcs"
  let ?file = "encode_header (spec_input sp) @ [CHR 0x0A] @ command_text ?cmds"
  let ?m = "\<lparr>mf_generator_version = GENERATOR_VERSION, mf_seed = seed, mf_spec = sp, mf_command_count = ws_command_count sp,
    mf_command_stream_sha256 = sha256 (ascii_bytes ?file), mf_stats = generator_stats g'\<rparr>"
  have cnt: "0 \<le> ws_command_count sp" "ws_command_count sp \<le> U64_MAX"
    using sv by (auto simp: spec_valid_def WorkloadSpec_def check_spec_def bindR_Inr_iff)
  have "sorted_wrt (<) (map fst (st_intents (generator_stats g')))"
    "set (st_intents (generator_stats g')) = {(i, tally i gcs) | i. i \<in> gc_intent ` set gcs}" using st by blast+
  note ic = intents_canonical [OF this drained_intents [OF g(2)]]
  have types: "length (filter (is_new \<circ> gc_command) gcs) + length (filter (is_cancel \<circ> gc_command) gcs) +
      length (filter (is_replace \<circ> gc_command) gcs) = length gcs"
    by (rule types_cover)
  have sums: "st_command_count (generator_stats g') = ws_command_count sp"
    "st_intended_valid (generator_stats g') + st_intended_invalid (generator_stats g') = ws_command_count sp"
    "st_new_orders (generator_stats g') + st_cancels (generator_stats g') + st_replaces (generator_stats g') = ws_command_count sp"
    using st g(3) types by auto
  have ok: "check_manifest ?m = Inr ()"
    using sums ic g(3) cnt assms(2,3) digest_required [OF spec [OF assms(4)], of "ascii_bytes ?file"]
    by (simp add: check_manifest_def Let_def require_seed_def guardR_def)
  have "int (length (filter gc_intended_valid gcs)) \<le> int (length gcs)" by simp
  then have fits: "0 \<le> st_intended_invalid (generator_stats g')" using st by linarith
  have "dict_spec_ok sp" using sv by (simp add: dict_spec_ok_def spec_valid_def)
  then have rt: "manifest_from_dict (manifest_to_dict ?m) = Inr ?m"
    using ok st fits by (intro manifest_dict_roundtrip) auto
  have gen: "generate_workload sha256 sp seed = Inr (?file, ?m)"
    using write_drained [OF g(2) rep] g(1) spec_input_ok(2) [OF sv] ok
    by (simp add: generate_workload_def iter_generated_def WorkloadManifest_def Let_def)
  have ver: "verify_workload sha256 ?file ?m = Inr \<lparr>wr_text = ?file, wr_config = spec_input sp\<rparr>"
    unfolding verify_workload_def file_opens [OF spec_input_ok(1) [OF sv]]
    using file_commands [OF spec_input_ok(1) [OF sv], of ?cmds None] rep spec_input_ok(2) [OF sv] g(3)
    by (simp add: native_input_def)
  have "iter_commands sp seed = Inr ?cmds" using g(1,2) by (simp add: iter_commands_def)
  with that [of ?cmds ?m] gen ver rt rep g(3) show thesis by simp
qed

section \<open>Campaigns\<close>

text \<open>The records a process prints that behaves like the reference engine on a workload.\<close>

definition honest_process :: "(bytes \<Rightarrow> string) \<Rightarrow> output_mode \<Rightarrow> native_input_config \<Rightarrow> command list \<Rightarrow> native_record list \<Rightarrow> bool" where
  "honest_process sha256 mode c cmds recs \<longleftrightarrow>
     (\<exists>s. ReferenceEngine (ni_instrument_id c) (Some (ni_engine c)) 1 True = Inr s \<and> fst (honest_records sha256 mode c cmds s) = Inr recs)"

lemma fixture_exact:
  assumes "native_config_ok c" and "\<forall>cmd \<in> set cmds. require_representable cmd = Inr ()" and "int (length cmds) + 6 \<le> U32_MAX"
    and "\<forall>b. is_digest (JStr (sha256 b))"
  shows "cmp_status (run_fixture sha256 None mode c cmds recs code clean) = PASSED \<longleftrightarrow>
    honest_process sha256 mode c cmds recs \<and> code = 0 \<and> clean"
proof -
  have c: "matching_config_ok (ni_engine c)" "1 \<le> ni_instrument_id c" "ni_instrument_id c \<le> U32_MAX"
    using assms(1) by (simp_all add: native_config_ok_def)
  obtain s where s: "ReferenceEngine (ni_instrument_id c) (Some (ni_engine c)) 1 True = Inr s"
    using ReferenceEngine_returns [of "ni_instrument_id c" 1 "Some (ni_engine c)" True] c by (auto simp: U64_MAX_def)
  have h: "honest_process sha256 mode c cmds recs \<longleftrightarrow> fst (honest_records sha256 mode c cmds s) = Inr recs"
    by (simp add: honest_process_def s)
  show ?thesis
  proof (rule comparison_setting [OF s c(1) assms(2-4), of mode])
    fix rs f capture run
    assume "fst (honest_records sha256 mode c cmds s) = Inr (ConfigRecord (honest_config mode c) # map ResultRecord rs @ [FinalRecord f])"
      and "\<And>recs code clean. passes sha256 capture code clean recs run \<longleftrightarrow> recs = map ResultRecord rs @ [FinalRecord f] \<and> code = 0 \<and> clean"
      and "\<And>recs code clean. cmp_status (run_fixture sha256 None mode c cmds recs code clean) = PASSED \<longleftrightarrow>
        (\<exists>recs'. recs = ConfigRecord (honest_config mode c) # recs' \<and> passes sha256 capture code clean recs' run)"
    then show ?thesis unfolding h by auto
  qed
qed

lemma file_exact:
  assumes "native_config_ok c" and "\<forall>cmd \<in> set cmds. require_representable cmd = Inr ()" and "int (length cmds) + 6 \<le> U32_MAX"
    and "\<forall>b. is_digest (JStr (sha256 b))"
    and "contents = encode_header c @ [CHR 0x0A] @ command_text cmds"
    and "manifest = None \<or> (\<exists>m. manifest = Some (Inr m) \<and> verify_workload sha256 contents m = Inr \<lparr>wr_text = contents, wr_config = c\<rparr>)"
  shows "cmp_status (run_fixture_file sha256 None mode manifest native contents) = PASSED \<longleftrightarrow>
    (case native mode contents of (recs, code, clean) \<Rightarrow> honest_process sha256 mode c cmds recs \<and> code = 0 \<and> clean)"
proof -
  have "run_fixture_file sha256 None mode manifest native contents =
      (case native mode contents of (recs, code, clean) \<Rightarrow> run_fixture sha256 None mode c cmds recs code clean)"
    using assms(6) file_opens [OF assms(1), of cmds] file_commands [OF assms(1,2), of None]
    by (auto simp: run_fixture_file_def assms(5) [symmetric] simp del: append_Cons)
  then show ?thesis using fixture_exact [OF assms(1-4)] by (auto split: prod.splits)
qed

lemma case_exact:
  assumes "tame sp" and "0 \<le> seed" "seed \<le> U64_MAX" and "ws_command_count sp + 6 \<le> U32_MAX" and "\<forall>b. is_digest (JStr (sha256 b))"
  shows "\<exists>contents cmds out. run_case sha256 native mode \<lparr>cs_name = name, cs_seed = seed, cs_spec = sp\<rparr> = Inr out \<and>
    iter_commands sp seed = Inr cmds \<and> contents = encode_header (spec_input sp) @ [CHR 0x0A] @ command_text cmds \<and>
    (case_passed out \<longleftrightarrow>
      (case native mode contents of (recs, code, clean) \<Rightarrow> honest_process sha256 mode (spec_input sp) cmds recs \<and> code = 0 \<and> clean))"
proof (rule generated_file [OF assms(1-3,5)])
  fix cmds m
  let ?file = "encode_header (spec_input sp) @ [CHR 0x0A] @ command_text cmds"
  assume g: "iter_commands sp seed = Inr cmds" "int (length cmds) = ws_command_count sp"
    "\<forall>cmd \<in> set cmds. require_representable cmd = Inr ()" "generate_workload sha256 sp seed = Inr (?file, m)"
    "manifest_from_dict (manifest_to_dict m) = Inr m"
    "verify_workload sha256 ?file m = Inr \<lparr>wr_text = ?file, wr_config = spec_input sp\<rparr>"
  let ?out = "run_fixture_file sha256 None mode (Some (Inr m)) native ?file"
  have ok: "native_config_ok (spec_input sp)" using assms(1) by (intro spec_input_ok) (simp add: tame_def)
  have p: "cmp_status ?out = PASSED \<longleftrightarrow>
      (case native mode ?file of (recs, code, clean) \<Rightarrow> honest_process sha256 mode (spec_input sp) cmds recs \<and> code = 0 \<and> clean)"
    using g assms(4) by (intro file_exact [OF ok g(3) _ assms(5) refl]) auto
  have q: "case_passed ?out \<longleftrightarrow> cmp_status ?out = PASSED" by (simp add: case_passed_def split: campaign_status.splits)
  have r: "run_case sha256 native mode \<lparr>cs_name = name, cs_seed = seed, cs_spec = sp\<rparr> = Inr ?out"
    unfolding run_case_def using g(4,5) by simp
  show ?thesis
    by (intro exI [of _ ?file] exI [of _ cmds] exI [of _ ?out] conjI refl) (simp_all only: r g(1) q p)
qed

definition agrees_on :: "(bytes \<Rightarrow> string) \<Rightarrow> native_process \<Rightarrow> output_mode \<Rightarrow> campaign_case \<Rightarrow> bool" where
  "agrees_on sha256 native mode c \<longleftrightarrow>
     (\<exists>cmds recs. iter_commands (cs_spec c) (cs_seed c) = Inr cmds \<and>
        native mode (encode_header (spec_input (cs_spec c)) @ [CHR 0x0A] @ command_text cmds) = (recs, 0, True) \<and>
        honest_process sha256 mode (spec_input (cs_spec c)) cmds recs)"

lemma case_agrees:
  assumes "tame (cs_spec c)" and "0 \<le> cs_seed c" "cs_seed c \<le> U64_MAX" and "ws_command_count (cs_spec c) + 6 \<le> U32_MAX"
    and "\<forall>b. is_digest (JStr (sha256 b))"
  shows "\<exists>out. run_case sha256 native mode c = Inr out \<and> (case_passed out \<longleftrightarrow> agrees_on sha256 native mode c)"
proof -
  have c: "\<lparr>cs_name = cs_name c, cs_seed = cs_seed c, cs_spec = cs_spec c\<rparr> = c" by simp
  from case_exact [OF assms, of native mode "cs_name c", unfolded c] obtain contents cmds out where
    "run_case sha256 native mode c = Inr out" and i: "iter_commands (cs_spec c) (cs_seed c) = Inr cmds"
    and f: "contents = encode_header (spec_input (cs_spec c)) @ [CHR 0x0A] @ command_text cmds"
    and p: "case_passed out \<longleftrightarrow> (case native mode contents of (recs, code, clean) \<Rightarrow>
        honest_process sha256 mode (spec_input (cs_spec c)) cmds recs \<and> code = 0 \<and> clean)" by (elim exE conjE)
  moreover have "case_passed out \<longleftrightarrow> agrees_on sha256 native mode c"
    unfolding agrees_on_def f [symmetric] p i by (auto simp: i f [symmetric] split: prod.splits simp del: append_Cons)
  ultimately show ?thesis by blast
qed

lemma cases_run:
  assumes "\<forall>c \<in> set cs. \<exists>out. run c = Inr out \<and> (case_passed out \<longleftrightarrow> ok c)"
  shows "\<exists>outs. mapR run cs = Inr outs \<and> length outs = length cs \<and> (list_all case_passed outs \<longleftrightarrow> (\<forall>c \<in> set cs. ok c))"
  using assms
proof (induction cs)
  case (Cons c cs)
  then obtain out outs where "run c = Inr out" "case_passed out \<longleftrightarrow> ok c" "mapR run cs = Inr outs"
    "length outs = length cs" "list_all case_passed outs \<longleftrightarrow> (\<forall>c \<in> set cs. ok c)" by auto
  then show ?case by (intro exI [of _ "out # outs"]) simp
qed simp

text \<open>A process that agrees with the reference engine on one workload.\<close>

lemma honest_process_exists:
  assumes "native_config_ok c" and "\<forall>cmd \<in> set cmds. require_representable cmd = Inr ()" and "int (length cmds) + 6 \<le> U32_MAX"
  obtains recs where "honest_process sha256 mode c cmds recs"
proof -
  have c: "matching_config_ok (ni_engine c)" "1 \<le> ni_instrument_id c" "ni_instrument_id c \<le> U32_MAX"
    using assms(1) by (simp_all add: native_config_ok_def)
  obtain s where s: "ReferenceEngine (ni_instrument_id c) (Some (ni_engine c)) 1 True = Inr s"
    using ReferenceEngine_returns [of "ni_instrument_id c" 1 "Some (ni_engine c)" True] c by (auto simp: U64_MAX_def)
  from honest_records_accepted [OF s c(1) assms(2,3), of sha256 mode] that s show thesis
    by (fastforce simp: honest_process_def)
qed

lemma zero_digest: "\<forall>b :: bytes. is_digest (JStr ((\<lambda>_. replicate 64 CHR ''0'') b))"
  by (simp add: is_digest_def list_all_iff)

definition sample_case :: campaign_case where
  "sample_case = \<lparr>cs_name = ''sample'', cs_seed = 42, cs_spec = sample_spec\<rparr>"

definition sample_suite :: campaign_suite where
  "sample_suite = \<lparr>su_name = ''smoke'', su_tier = TIER_PR, su_mode = EXACT, su_cases = [sample_case]\<rparr>"

lemma sample_suite_ok:
  "\<forall>c \<in> set (su_cases sample_suite). tame (cs_spec c) \<and> 0 \<le> cs_seed c \<and> cs_seed c \<le> U64_MAX \<and> ws_command_count (cs_spec c) + 6 \<le> U32_MAX"
  by (simp add: sample_suite_def sample_case_def sample_tame sample_fields width_defs)

text \<open>
  C13.  For a suite whose cases each have a specification \<open>tame\<close> admits (accepted by the constructors, capacity
  times largest quantity within 64 bits, mid price below the largest 64-bit one), a 64-bit seed and at most
  \<open>2 ^ 32 - 7\<close> commands, and for a hash that yields digests: the campaign returns one result per case and
  passes exactly when, on the workload of every case, the native process prints the records of an engine that behaves like the reference engine, exits
  with code 0 and keeps its standard error empty.  The statement spans the generator, the workload files and
  their manifests, the reference engine, the stream decoder and the comparison.
\<close>

theorem suite_exact:
  assumes "\<forall>c \<in> set (su_cases su). tame (cs_spec c) \<and> 0 \<le> cs_seed c \<and> cs_seed c \<le> U64_MAX \<and> ws_command_count (cs_spec c) + 6 \<le> U32_MAX"
    and "\<forall>b. is_digest (JStr (sha256 b))"
  shows "\<exists>out. run_suite sha256 native su = Inr out \<and> length (sr_cases out) = length (su_cases su) \<and>
    (suite_passed out \<longleftrightarrow> (\<forall>c \<in> set (su_cases su). agrees_on sha256 native (su_mode su) c))"
proof -
  have "\<forall>c \<in> set (su_cases su). \<exists>out. run_case sha256 native (su_mode su) c = Inr out \<and>
      (case_passed out \<longleftrightarrow> agrees_on sha256 native (su_mode su) c)"
    using assms case_agrees by blast
  from cases_run [OF this] show ?thesis by (auto simp: run_suite_def suite_passed_def)
qed

theorem suite_exact_witness:
  "\<exists>native out. run_suite (\<lambda>_. replicate 64 CHR ''0'') native sample_suite = Inr out \<and> length (sr_cases out) = 1 \<and> suite_passed out"
proof (rule generated_file [OF sample_tame _ _ zero_digest, of 42])
  let ?h = "\<lambda>_ :: bytes. replicate 64 CHR ''0''"
  fix cmds m
  assume g: "iter_commands sample_spec 42 = Inr cmds" "int (length cmds) = ws_command_count sample_spec"
    "\<forall>cmd \<in> set cmds. require_representable cmd = Inr ()"
  have "native_config_ok (spec_input sample_spec)" using sample_tame by (intro spec_input_ok) (simp add: tame_def)
  moreover have "int (length cmds) + 6 \<le> U32_MAX" using g(2) by (simp add: sample_fields width_defs)
  ultimately obtain recs where recs: "honest_process ?h EXACT (spec_input sample_spec) cmds recs"
    using honest_process_exists [OF _ g(3)] by blast
  let ?native = "\<lambda>_ _. (recs, 0, True)"
  have "agrees_on ?h ?native (su_mode sample_suite) sample_case"
    using g(1) recs by (auto simp: agrees_on_def sample_suite_def sample_case_def)
  with suite_exact [OF sample_suite_ok zero_digest, of ?native]
  show ?thesis by (auto simp: sample_suite_def)
qed (simp_all add: U64_MAX_def)

text \<open>
  C38.  For a specification that \<open>tame\<close> admits and every 64-bit seed a generated workload is faithful: the file holds the generated commands in order, the manifest
  passes its own checks and survives its dictionary form, and verification against it succeeds and yields
  the same configuration and commands.
\<close>

theorem generated_workload_verifies:
  assumes "tame sp" and "0 \<le> seed" "seed \<le> U64_MAX" and "\<forall>b. is_digest (JStr (sha256 b))"
  shows "\<exists>contents m cmds r. generate_workload sha256 sp seed = Inr (contents, m) \<and> iter_commands sp seed = Inr cmds \<and>
    manifest_from_dict (manifest_to_dict m) = Inr m \<and> verify_workload sha256 contents m = Inr r \<and> native_input m = Inr (wr_config r) \<and>
    reader_commands None r = Inr cmds \<and> int (length cmds) = mf_command_count m"
proof (rule generated_file [OF assms])
  fix cmds m
  let ?file = "encode_header (spec_input sp) @ [CHR 0x0A] @ command_text cmds"
  assume g: "iter_commands sp seed = Inr cmds" "int (length cmds) = ws_command_count sp"
    "\<forall>cmd \<in> set cmds. require_representable cmd = Inr ()" "generate_workload sha256 sp seed = Inr (?file, m)"
    "manifest_from_dict (manifest_to_dict m) = Inr m"
    "verify_workload sha256 ?file m = Inr \<lparr>wr_text = ?file, wr_config = spec_input sp\<rparr>"
  have "native_config_ok (spec_input sp)" using assms(1) by (intro spec_input_ok) (simp add: tame_def)
  from file_commands [OF this g(3), of None]
  have "reader_commands None \<lparr>wr_text = ?file, wr_config = spec_input sp\<rparr> = Inr cmds" by simp
  moreover have "native_input m = Inr (spec_input sp)" "int (length cmds) = mf_command_count m"
    using g(6) calculation by (auto simp: verify_workload_def bindR_Inr_iff guardR_def split: if_splits)
  ultimately show ?thesis using g(1,4,5,6) by fastforce
qed

theorem generated_workload_verifies_witness:
  "\<exists>contents m r cmds. generate_workload (\<lambda>_. replicate 64 CHR ''0'') sample_spec 42 = Inr (contents, m) \<and>
    verify_workload (\<lambda>_. replicate 64 CHR ''0'') contents m = Inr r \<and> reader_commands None r = Inr cmds \<and>
    int (length cmds) = mf_command_count m"
  using generated_workload_verifies [OF sample_tame _ _ zero_digest, of 42] by (auto simp: U64_MAX_def)

section \<open>Exact reruns\<close>

lemma encode_stream_text:
  assumes "\<forall>cmd \<in> set cmds. require_representable cmd = Inr ()"
  shows "encode_stream c cmds = Inr (encode_header c @ [CHR 0x0A] @ command_text cmds)"
proof -
  have "mapR encode_command cmds = Inr (map (join_fields \<circ> command_fields) cmds)"
    using assms by (intro mapR_Inr) (simp add: encode_command_Inr native_require_representable_eq)
  then show ?thesis by (simp add: encode_stream_def command_text_lines comp_def)
qed

text \<open>
  C39.  Rerunning the prefix of a workload up to command \<open>k\<close> compares exactly the first \<open>k + 1\<close> commands in
  exact mode, with the snapshot interval that makes the native engine report the book behind command \<open>k\<close>; it
  passes exactly when the native process agrees with the reference engine on that prefix.  An index behind
  the last command is a harness error.
\<close>

theorem prefix_rerun_exact:
  assumes "native_config_ok c" and "\<forall>cmd \<in> set cmds. require_representable cmd = Inr ()" and "k < 2 ^ 64 - 1"
    and "int (length cmds) + 6 \<le> U32_MAX" and "\<forall>b. is_digest (JStr (sha256 b))"
    and "contents = encode_header c @ [CHR 0x0A] @ command_text cmds"
    and "c' = c\<lparr>ni_snapshot_interval := int k + 1\<rparr>" and "written = encode_header c' @ [CHR 0x0A] @ command_text (take (Suc k) cmds)"
  shows "\<exists>out. rerun_exact_prefix sha256 native contents (Some (int k)) = Inr out \<and>
    (if k < length cmds
     then cmp_status out = PASSED \<longleftrightarrow> (case native EXACT written of (recs, code, clean) \<Rightarrow>
       honest_process sha256 EXACT c' (take (Suc k) cmds) recs \<and> code = 0 \<and> clean)
     else cmp_status out = HARNESS_ERROR ValueError)"
proof -
  have rep: "\<forall>cmd \<in> set (take (Suc k) cmds). require_representable cmd = Inr ()" using assms(2) by (auto dest: in_set_takeD)
  have k: "int k + 1 \<le> U64_MAX" using assms(3) by (simp add: U64_MAX_def)
  have c': "native_config_ok c'" and new: "NativeInputConfig (ni_instrument_id c) (ni_engine c) (int k + 1) = Inr c'"
    using assms(1,7) k by (auto simp: native_config_ok_def NativeInputConfig_Inr)
  have n: "nat (int k + 1) = Suc k" by simp
  have "prefix_workload (Some (int k)) contents = (if k < length cmds then Inr written else Inl ValueError)"
    unfolding prefix_workload_def assms(6) file_opens [OF assms(1)]
    using file_commands [OF assms(1,2), of "Some (Suc k)"] new encode_stream_text [OF rep, of c'] assms(8)
    by (simp add: n min_def)
  moreover have "cmp_status (run_fixture_file sha256 None EXACT None native written) = PASSED \<longleftrightarrow>
      (case native EXACT written of (recs, code, clean) \<Rightarrow> honest_process sha256 EXACT c' (take (Suc k) cmds) recs \<and> code = 0 \<and> clean)"
    using assms(4) by (intro file_exact [OF c' rep _ assms(5,8)]) auto
  ultimately show ?thesis using assms(3) by (auto simp: rerun_exact_prefix_def capture_failure_result_def)
qed

theorem prefix_rerun_exact_witness:
  "\<exists>native out. rerun_exact_prefix (\<lambda>_. replicate 64 CHR ''0'') native
      (encode_header \<lparr>ni_instrument_id = 1, ni_engine = default_matching_config, ni_snapshot_interval = 0\<rparr> @ [CHR 0x0A] @
       command_text [CancelOrder \<lparr>cancel_client_id = 1, cancel_order_id = 5, cancel_instrument_id = 1\<rparr>]) (Some 0) = Inr out \<and>
    cmp_status out = PASSED"
proof -
  let ?h = "\<lambda>_ :: bytes. replicate 64 CHR ''0''"
  let ?c = "\<lparr>ni_instrument_id = 1, ni_engine = default_matching_config, ni_snapshot_interval = 0\<rparr>"
  let ?cmds = "[CancelOrder \<lparr>cancel_client_id = 1, cancel_order_id = 5, cancel_instrument_id = 1\<rparr>]"
  let ?c1 = "?c\<lparr>ni_snapshot_interval := int 0 + 1\<rparr>"
  have ok: "native_config_ok ?c" "native_config_ok ?c1" by (simp_all add: native_config_ok_def width_defs)
  have rep: "\<forall>cmd \<in> set ?cmds. require_representable cmd = Inr ()" by (simp add: require_uint_def width_defs)
  have n: "int (length ?cmds) + 6 \<le> U32_MAX" by (simp add: U32_MAX_def)
  obtain recs where recs: "honest_process ?h EXACT ?c1 (take (Suc 0) ?cmds) recs"
    using honest_process_exists [OF ok(2) rep n, of ?h EXACT] by auto
  from prefix_rerun_exact [OF ok(1) rep _ n zero_digest refl refl refl, of 0 "\<lambda>_ _. (recs, 0, True)"] recs
  show ?thesis by (intro exI [of _ "\<lambda>_ _. (recs, 0, True)"]) auto
qed
end
