(* ===== verification/Fault_Properties.thy ===== *)
theory Fault_Properties
  imports Faults Campaign_Properties
begin

text \<open>
  What the injected faults prove about the comparison: each injector acts on evidence as a change of the
  typed record it describes, an unaltered record passes, and the first altered record is reported as the
  divergence.
\<close>

section \<open>Faults as changes of records\<close>

lemma update_first_map:
  assumes "\<And>x. f (g x) = map_option g (h x)"
  shows "update_first f (map g xs) = map_option (map g) (update_first h xs)"
  by (induction xs) (auto simp: assms option.map_comp comp_def split: option.splits)

lemma first_some_map:
  assumes "\<And>x. f (g x) = map_option k (h x)"
  shows "first_some (map f (map g xs)) = map_option k (first_some (map h xs))"
  by (induction xs) (auto simp: assms split: option.splits)

lemma swap_ends_map: "xs \<noteq> [] \<Longrightarrow> swap_ends (map f xs) = map f (swap_ends xs)"
  by (simp add: swap_ends_def map_update last_map hd_map)

definition swap_level :: "price_level_snapshot \<Rightarrow> price_level_snapshot option" where
  "swap_level l = (if 2 \<le> length (pls_orders l) then Some (l\<lparr>pls_orders := swap_ends (pls_orders l)\<rparr>) else None)"

lemma newest_level_mapping: "newest_level (level_to_mapping l) = map_option level_to_mapping (swap_level l)"
proof -
  have "swap_ends (map order_to_mapping (pls_orders l)) = map order_to_mapping (swap_ends (pls_orders l))" if "2 \<le> length (pls_orders l)"
    using that by (intro swap_ends_map) auto
  then show ?thesis by (simp add: newest_level_def level_to_mapping_def swap_level_def put_key_def)
qed

fun reprice :: "int \<Rightarrow> event \<Rightarrow> event option" where
  "reprice p (TradeEvent h b) = (if execution_price b \<noteq> p then Some (TradeEvent h (b\<lparr>execution_price := p\<rparr>)) else None)"
| "reprice p _ = None"

lemma reprice_mapping: "reprice_trade p (event_to_mapping e) = map_option event_to_mapping (reprice p e)"
  by (cases e) (simp_all add: reprice_trade_def event_to_mapping_def put_key_def)

lemma decimal_text_number: "decimal_text (jnum i) = (if 0 \<le> i then Some i else None)"
proof (cases "0 \<le> i")
  case True
  from decimal_reads(2) [OF this] True show ?thesis
    by (auto simp: decimal_text_def decimal_field_def split: if_splits)
next
  case False
  then have "py_str i = CHR ''-'' # dec (nat (- i))" by (simp add: py_str_def)
  with False show ?thesis by (simp add: decimal_text_def)
qed

definition inflate :: "int \<Rightarrow> int \<Rightarrow> price_level_snapshot \<Rightarrow> price_level_snapshot option" where
  "inflate oid quantity l =
     (if 0 \<le> pls_aggregate_quantity l \<and> list_ex (\<lambda>x. os_order_id x = oid) (pls_orders l)
      then Some (l\<lparr>pls_aggregate_quantity := pls_aggregate_quantity l + quantity\<rparr>) else None)"

lemma inflate_mapping: "inflate_level (py_str oid) q (level_to_mapping l) = map_option level_to_mapping (inflate oid q l)"
proof -
  have "list_ex (\<lambda>x. is_mapping x \<and> get_key x ''order_id'' = JStr (py_str oid)) (map order_to_mapping (pls_orders l)) \<longleftrightarrow>
      list_ex (\<lambda>x. os_order_id x = oid) (pls_orders l)"
    by (simp add: list_ex_iff order_to_mapping_def)
  then show ?thesis
    by (simp add: inflate_level_def level_to_mapping_def inflate_def decimal_text_number put_key_def)
qed

lemma inflate_levels:
  "update_first (inflate_level (py_str oid) q) (map level_to_mapping ls) = map_option (map level_to_mapping) (update_first (inflate oid q) ls)"
  by (rule update_first_map) (rule inflate_mapping)

fun stale_book :: "book_snapshot \<Rightarrow> event \<Rightarrow> book_snapshot option" where
  "stale_book snap (TradeEvent h b) =
     (if 0 < resting_remaining b \<and> 0 < execution_quantity b
      then (case aggressor_side b of
              BUY \<Rightarrow> map_option (\<lambda>ls. snap\<lparr>bs_asks := ls\<rparr>) (update_first (inflate (resting_order_id b) (execution_quantity b)) (bs_asks snap))
            | SELL \<Rightarrow> map_option (\<lambda>ls. snap\<lparr>bs_bids := ls\<rparr>) (update_first (inflate (resting_order_id b) (execution_quantity b)) (bs_bids snap)))
      else None)"
| "stale_book snap _ = None"

lemma snapshot_sides:
  "get_key (snapshot_to_mapping snap) ''bids'' = JList (map level_to_mapping (bs_bids snap))"
  "get_key (snapshot_to_mapping snap) ''asks'' = JList (map level_to_mapping (bs_asks snap))"
  "put_key ''bids'' (JList (map level_to_mapping ls)) (snapshot_to_mapping snap) = snapshot_to_mapping (snap\<lparr>bs_bids := ls\<rparr>)"
  "put_key ''asks'' (JList (map level_to_mapping ls)) (snapshot_to_mapping snap) = snapshot_to_mapping (snap\<lparr>bs_asks := ls\<rparr>)"
  by (simp_all add: snapshot_to_mapping_def put_key_def)

lemma stale_mapping: "stale_snapshot (snapshot_to_mapping snap) (event_to_mapping e) = map_option snapshot_to_mapping (stale_book snap e)"
proof (cases e)
  case (TradeEvent h b)
  have "get_key (event_to_mapping e) ''type'' = JStr ''trade''" "is_mapping (event_to_mapping e)"
    "get_key (event_to_mapping e) ''resting_remaining'' = jnum (resting_remaining b)"
    "get_key (event_to_mapping e) ''execution_quantity'' = jnum (execution_quantity b)"
    "get_key (event_to_mapping e) ''resting_order_id'' = jnum (resting_order_id b)"
    "get_key (event_to_mapping e) ''aggressor_side'' = JStr (side_name (aggressor_side b))"
    by (simp_all add: TradeEvent event_to_mapping_def)
  then show ?thesis
    unfolding stale_snapshot_def
    by (cases "aggressor_side b")
      (auto simp: TradeEvent decimal_text_number snapshot_sides inflate_levels option.map_comp comp_def)
qed (simp_all add: stale_snapshot_def event_to_mapping_def)

definition newest_book :: "book_snapshot \<Rightarrow> book_snapshot option" where
  "newest_book snap = first_some
     [map_option (\<lambda>ls. snap\<lparr>bs_bids := ls\<rparr>) (update_first swap_level (bs_bids snap)),
      map_option (\<lambda>ls. snap\<lparr>bs_asks := ls\<rparr>) (update_first swap_level (bs_asks snap))]"

text \<open>The record whose evidence the injector produces.\<close>

definition faulty :: "fault_name \<Rightarrow> command option \<Rightarrow> native_result_record \<Rightarrow> native_result_record" where
  "faulty fault cmd r =
     (case fault of
        NEWEST_AT_PRICE \<Rightarrow>
          (case Option.bind (nr_snapshot r) newest_book of None \<Rightarrow> r | Some snap \<Rightarrow> r\<lparr>nr_snapshot := Some snap\<rparr>)
      | INCOMING_TRADE_PRICE \<Rightarrow>
          (case (incoming_price cmd, nr_events r) of
             (Some p, Some es) \<Rightarrow> (case update_first (reprice p) es of None \<Rightarrow> r | Some es' \<Rightarrow> r\<lparr>nr_events := Some es'\<rparr>)
           | _ \<Rightarrow> r)
      | STALE_PARTIAL_AGGREGATE \<Rightarrow>
          (case (nr_events r, nr_snapshot r) of
             (Some es, Some snap) \<Rightarrow>
               (case first_some (map (stale_book snap) es) of None \<Rightarrow> r | Some snap' \<Rightarrow> r\<lparr>nr_snapshot := Some snap'\<rparr>)
           | _ \<Rightarrow> r))"

lemma faulty_line [simp]: "nr_line (faulty fault cmd r) = nr_line r" "nr_command_index (faulty fault cmd r) = nr_command_index r"
  by (auto simp: faulty_def split: fault_name.splits option.splits)

lemma injected_mapping: "FaultInjector fault cmd (native_result_mapping r) = native_result_mapping (faulty fault cmd r)"
proof -
  let ?ev = "evidence_of r"
  have ev: "result_evidence (native_result_mapping r) = Some ?ev"
    by (simp add: result_evidence_def native_result_mapping_def evidence_of_def)
  have put: "put_key ''evidence'' (evidence_of r') (native_result_mapping r) = native_result_mapping r'"
    if "nr_command_index r' = nr_command_index r" for r'
    using that by (simp add: native_result_mapping_eq put_key_def)
  have snap: "evidence_snapshot ?ev = map_option snapshot_to_mapping (nr_snapshot r)"
    by (cases "nr_snapshot r")
      (simp_all add: evidence_snapshot_def evidence_of_def native_result_mapping_def jopt_def snapshot_to_mapping_def)
  have events: "evidence_events ?ev = map_option (map event_to_mapping) (nr_events r)"
    by (cases "nr_events r") (simp_all add: evidence_events_def evidence_of_def native_result_mapping_def jopt_def)
  have put_snap: "put_key ''snapshot'' (snapshot_to_mapping s) ?ev = evidence_of (r\<lparr>nr_snapshot := Some s\<rparr>)" for s
    by (simp add: evidence_of_def native_result_mapping_def jopt_def put_key_def)
  have put_events: "put_key ''events'' (JList (map event_to_mapping es)) ?ev = evidence_of (r\<lparr>nr_events := Some es\<rparr>)" for es
    by (simp add: evidence_of_def native_result_mapping_def jopt_def put_key_def)
  have newest: "update_first newest_level (map level_to_mapping ls) = map_option (map level_to_mapping) (update_first swap_level ls)" for ls
    by (rule update_first_map) (rule newest_level_mapping)
  have reprices: "update_first (reprice_trade p) (map event_to_mapping es) = map_option (map event_to_mapping) (update_first (reprice p) es)" for p es
    by (rule update_first_map) (rule reprice_mapping)
  have stales: "first_some (map (stale_snapshot (snapshot_to_mapping s)) (map event_to_mapping es)) =
      map_option snapshot_to_mapping (first_some (map (stale_book s) es))" for s es
    by (rule first_some_map) (rule stale_mapping)
  show ?thesis
  proof (cases fault)
    case NEWEST_AT_PRICE
    then show ?thesis
      by (auto simp: FaultInjector_def ev inject_newest_at_price_def snap faulty_def newest_book_def snapshot_sides newest put put_snap
          split: option.splits)
  next
    case INCOMING_TRADE_PRICE
    then show ?thesis
      by (auto simp: FaultInjector_def ev inject_incoming_trade_price_def events faulty_def reprices put put_events split: option.splits)
  next
    case STALE_PARTIAL_AGGREGATE
    then show ?thesis
      by (auto simp: FaultInjector_def ev inject_stale_partial_aggregate_def events snap faulty_def stales put put_snap
          simp del: map_map first_some_None split: option.splits)
  qed
qed

lemma injected_final: "FaultInjector fault cmd (native_final_mapping f) = native_final_mapping f"
  by (simp add: FaultInjector_def result_evidence_def native_final_mapping_def)

text \<open>An altered record never compares as the same.\<close>

lemma injected_differs:
  "json_same (native_result_mapping r) (FaultInjector fault cmd (native_result_mapping r)) \<longleftrightarrow> faulty fault cmd r = r"
  unfolding injected_mapping using result_mapping_same [of r "faulty fault cmd r"] by auto

section \<open>The comparison under an injected fault\<close>

lemma transformed_result_step:
  assumes "cn_transform_commands run = cmd # cmds" and "t (Some cmd) (native_result_mapping r) = native_result_mapping r"
  shows "compare_record sha256 (Some t) mode (ResultRecord r) run =
    compare_record sha256 None mode (ResultRecord r) (run\<lparr>cn_transform_commands := cmds\<rparr>) \<or>
    (\<exists>e run1. compare_record sha256 None mode (ResultRecord r) run = (Inl e, run1))"
  using assms
  by (auto simp: compare_record_def compare_result_def compare_mapping_def transformed_def next_transform_command_def on_decoder_def
      on_cursor_def prog_simps split: prod.splits sum.splits option.splits)

lemma altered_result_step:
  assumes h: "honest_step (rc_config capture) index cmd es s s'"
    and r: "r = honest_result sha256 (rc_mode capture) (rc_config capture) index cmd es (snapshot_of s')"
    and step: "in_step sha256 capture f index (cmd # cmds) (r # rs) s run" and tc: "cn_transform_commands run = cmd # cmds"
    and alt: "\<not> json_same (native_result_mapping r) (t (Some cmd) (native_result_mapping r))"
  shows "\<exists>d run1. compare_record sha256 (Some t) (rc_mode capture) (ResultRecord r) run = (Inr (Some d), run1) \<and>
    cn_compared run1 = cn_compared run \<and> dv_command_index d = Some index"
proof -
  from honest_accepted [OF h, of sha256 "rc_mode capture" cmds "cn_decoder run"] step obtain dec where
    fed: "feed_record sha256 (ResultRecord r) (cn_decoder run) = (Inr (), dec)"
    unfolding r in_step_def by blast
  obtain cu where "cursor_next sha256 (cn_cursor run) = (Inr (native_result_mapping r), cu)"
    using cursor_next_result [of sha256 capture f index r rs "cn_cursor run"] step by (auto simp: in_step_def r honest_index)
  moreover obtain diff where "first_value_difference (native_result_mapping r) (t (Some cmd) (native_result_mapping r)) ''$'' = Some diff"
    using alt no_difference [of "native_result_mapping r" "t (Some cmd) (native_result_mapping r)" "''$''"] by auto
  moreover have "nr_command_index r = index" by (simp add: r honest_index)
  ultimately show ?thesis
    using tc fed
    by (simp add: compare_record_def compare_result_def compare_mapping_def transformed_def next_transform_command_def on_decoder_def
        on_cursor_def prog_simps make_divergence_def Let_def)
qed

lemma unaltered_result_step:
  assumes h: "honest_step (rc_config capture) index cmd es s s'"
    and r: "r = honest_result sha256 (rc_mode capture) (rc_config capture) index cmd es (snapshot_of s')"
    and step: "in_step sha256 capture f index (cmd # cmds) (r # rs) s run" and tc: "cn_transform_commands run = cmd # cmds"
    and same: "t (Some cmd) (native_result_mapping r) = native_result_mapping r"
  shows "\<exists>run'. compare_record sha256 (Some t) (rc_mode capture) (ResultRecord r) run = (Inr None, run') \<and>
    in_step sha256 capture f (index + 1) cmds rs s' run' \<and> cn_compared run' = cn_compared run + 1 \<and> cn_transform_commands run' = cmds"
proof -
  let ?run = "run\<lparr>cn_transform_commands := cmds\<rparr>"
  have "in_step sha256 capture f index (cmd # cmds) (r # rs) s ?run" using step by (simp add: in_step_def)
  from step_advances [OF h r this] obtain run' where
    run': "compare_record sha256 None (rc_mode capture) (ResultRecord r) ?run = (Inr None, run')"
      "in_step sha256 capture f (index + 1) cmds rs s' run'" "cn_compared run' = cn_compared run + 1" "cn_transform_commands run' = cmds"
    by auto
  moreover from step_advances [OF h r step] transformed_result_step [of run cmd cmds t r sha256 "rc_mode capture", OF tc same]
  have "compare_record sha256 (Some t) (rc_mode capture) (ResultRecord r) run =
      compare_record sha256 None (rc_mode capture) (ResultRecord r) ?run" by auto
  ultimately show ?thesis by auto
qed

text \<open>The position of the first altered record, from \<open>index\<close> on.\<close>

fun first_altered :: "evidence_transformer \<Rightarrow> command list \<Rightarrow> native_result_record list \<Rightarrow> nat option" where
  "first_altered t (cmd # cmds) (r # rs) =
     (if t (Some cmd) (native_result_mapping r) \<noteq> native_result_mapping r then Some 0 else map_option Suc (first_altered t cmds rs))"
| "first_altered t _ _ = None"

lemma faulty_run:
  assumes "honest_trace sha256 (rc_mode capture) (rc_config capture) index cmds rs s s'" and "engine_inv s'"
    and "ni_engine (rc_config capture) = eng_config s'" "ni_instrument_id (rc_config capture) = eng_instrument_id s'"
    and "eng_next_sequence s' = index + int (length cmds) + 1" "\<not> eng_sequence_exhausted s'"
    and "f = honest_final sha256 (index + int (length cmds)) (snapshot_of s')" and "in_step sha256 capture f index cmds rs s run"
    and "cn_transform_commands run = cmds" and "t None (native_final_mapping f) = native_final_mapping f"
    and "\<forall>cmd r. json_same (native_result_mapping r) (t (Some cmd) (native_result_mapping r)) \<longrightarrow> t (Some cmd) (native_result_mapping r) = native_result_mapping r"
  shows "\<exists>out run1. compare_records sha256 (Some t) (rc_mode capture) (map ResultRecord rs @ [FinalRecord f]) run = (Inr out, run1) \<and>
    (case first_altered t cmds rs of
       None \<Rightarrow> out = None \<and> fst (finish_comparison sha256 0 True capture run1) = Inr ()
     | Some k \<Rightarrow> (\<exists>d. out = Some d \<and> dv_command_index d = Some (index + int k) \<and> cn_compared run1 = cn_compared run + int k))"
  using assms
proof (induction arbitrary: run rule: honest_trace.induct)
  case (trace_done index s)
  have "passes sha256 capture 0 True [FinalRecord f] run"
    using last_record_passes [of s capture index f sha256 run 0 True "[FinalRecord f]"] trace_done by simp
  moreover have "compare_records sha256 (Some t) (rc_mode capture) [FinalRecord f] run = compare_records sha256 None (rc_mode capture) [FinalRecord f] run"
    using trace_done.prems(9) by (simp add: compare_record_def compare_final_def compare_mapping_def transformed_def)
  ultimately show ?case by (auto simp: passes_def)
next
  case (trace_step cmd s es s1 s2 index cmds rs s')
  let ?r = "honest_result sha256 (rc_mode capture) (rc_config capture) index cmd es (snapshot_of s2)"
  show ?case
  proof (cases "t (Some cmd) (native_result_mapping ?r) = native_result_mapping ?r")
    case False
    with trace_step.prems(10) have "\<not> json_same (native_result_mapping ?r) (t (Some cmd) (native_result_mapping ?r))" by blast
    from altered_result_step [where t = t, OF trace_step.hyps(3) refl trace_step.prems(7,8) this] False show ?thesis by (auto simp: bindP_def)
  next
    case True
    from unaltered_result_step [where t = t, OF trace_step.hyps(3) refl trace_step.prems(7,8) True] obtain run' where
      run': "compare_record sha256 (Some t) (rc_mode capture) (ResultRecord ?r) run = (Inr None, run')"
        "in_step sha256 capture f (index + 1) cmds rs s2 run'" "cn_compared run' = cn_compared run + 1" "cn_transform_commands run' = cmds" by blast
    have "\<exists>out run1. compare_records sha256 (Some t) (rc_mode capture) (map ResultRecord rs @ [FinalRecord f]) run' = (Inr out, run1) \<and>
      (case first_altered t cmds rs of
         None \<Rightarrow> out = None \<and> fst (finish_comparison sha256 0 True capture run1) = Inr ()
       | Some k \<Rightarrow> (\<exists>d. out = Some d \<and> dv_command_index d = Some (index + 1 + int k) \<and> cn_compared run1 = cn_compared run' + int k))"
      using trace_step.prems run'(2,4) by (intro trace_step.IH) (simp_all add: algebra_simps)
    then show ?thesis using True run'(1,3) by (fastforce simp: bindP_def algebra_simps split: option.splits)
  qed
qed

section \<open>Which records a fault alters\<close>

lemma update_first_None: "update_first h xs = None \<longleftrightarrow> (\<forall>x \<in> set xs. h x = None)"
  by (induction xs) (auto split: option.splits)

lemma update_first_changes:
  assumes "update_first h xs = Some ys" and "\<And>x y. x \<in> set xs \<Longrightarrow> h x = Some y \<Longrightarrow> y \<noteq> x"
  shows "ys \<noteq> xs"
  using assms by (induction xs arbitrary: ys) (auto split: option.splits)

definition eligible :: "fault_name \<Rightarrow> command \<Rightarrow> native_result_record \<Rightarrow> bool" where
  "eligible fault cmd r =
     (case fault of
        NEWEST_AT_PRICE \<Rightarrow>
          (\<exists>snap. nr_snapshot r = Some snap \<and> (\<exists>l \<in> set (bs_bids snap @ bs_asks snap). 2 \<le> length (pls_orders l)))
      | INCOMING_TRADE_PRICE \<Rightarrow>
          (\<exists>p es h b. incoming_price (Some cmd) = Some p \<and> nr_events r = Some es \<and> TradeEvent h b \<in> set es \<and> execution_price b \<noteq> p)
      | STALE_PARTIAL_AGGREGATE \<Rightarrow>
          (\<exists>snap es h b. nr_snapshot r = Some snap \<and> nr_events r = Some es \<and> TradeEvent h b \<in> set es \<and>
             0 < resting_remaining b \<and> 0 < execution_quantity b \<and>
             (\<exists>l \<in> set (case aggressor_side b of BUY \<Rightarrow> bs_asks snap | SELL \<Rightarrow> bs_bids snap).
                0 \<le> pls_aggregate_quantity l \<and> (\<exists>x \<in> set (pls_orders l). os_order_id x = resting_order_id b))))"

text \<open>No order is listed twice in a level.\<close>

definition levels_distinct :: "native_result_record \<Rightarrow> bool" where
  "levels_distinct r \<longleftrightarrow> (\<forall>snap. nr_snapshot r = Some snap \<longrightarrow> (\<forall>l \<in> set (bs_bids snap @ bs_asks snap). distinct (pls_orders l)))"

lemma swap_ends_changes: "distinct xs \<Longrightarrow> 2 \<le> length xs \<Longrightarrow> swap_ends xs \<noteq> xs"
proof
  assume d: "distinct xs" "2 \<le> length xs" and eq: "swap_ends xs = xs"
  then have "xs ! (length xs - 1) = hd xs"
    by (metis (no_types, lifting) swap_ends_def length_list_update nth_list_update_eq diff_less less_le_trans zero_less_numeral zero_less_one)
  moreover have "hd xs = xs ! 0" using d(2) by (cases xs) auto
  ultimately have "length xs - 1 = 0" using d by (metis nth_eq_iff_index_eq diff_less le_trans less_le_trans zero_less_numeral zero_less_one)
  with d(2) show False by simp
qed

lemma swap_level_changes: "distinct (pls_orders l) \<Longrightarrow> swap_level l = Some l' \<Longrightarrow> l' \<noteq> l"
  using swap_ends_changes [of "pls_orders l"]
  by (auto simp: swap_level_def split: if_splits) (metis price_level_snapshot.select_convs(3) price_level_snapshot.surjective price_level_snapshot.update_convs(3))

lemma newest_book_eligible:
  assumes "\<forall>l \<in> set (bs_bids snap @ bs_asks snap). distinct (pls_orders l)"
  shows "newest_book snap = None \<longleftrightarrow> \<not> (\<exists>l \<in> set (bs_bids snap @ bs_asks snap). 2 \<le> length (pls_orders l))"
    and "newest_book snap = Some snap' \<Longrightarrow> snap' \<noteq> snap"
proof -
  show "newest_book snap = None \<longleftrightarrow> \<not> (\<exists>l \<in> set (bs_bids snap @ bs_asks snap). 2 \<le> length (pls_orders l))"
    unfolding newest_book_def first_some_None by (auto simp: update_first_None swap_level_def)
  have ch: "ys \<noteq> xs" if "update_first swap_level xs = Some ys" "set xs \<subseteq> set (bs_bids snap @ bs_asks snap)" for xs ys
    using that assms swap_level_changes by (intro update_first_changes [OF that(1)]) blast
  assume "newest_book snap = Some snap'"
  then consider ls where "update_first swap_level (bs_bids snap) = Some ls" "snap' = snap\<lparr>bs_bids := ls\<rparr>"
    | ls where "update_first swap_level (bs_asks snap) = Some ls" "snap' = snap\<lparr>bs_asks := ls\<rparr>"
    by (auto simp: newest_book_def split: option.splits)
  then show "snap' \<noteq> snap"
  proof cases
    case 1
    with ch [of "bs_bids snap" ls] have "bs_bids snap' \<noteq> bs_bids snap" by auto
    then show ?thesis by auto
  next
    case 2
    with ch [of "bs_asks snap" ls] have "bs_asks snap' \<noteq> bs_asks snap" by auto
    then show ?thesis by auto
  qed
qed

lemma inflate_changes: "0 < q \<Longrightarrow> inflate oid q l = Some l' \<Longrightarrow> l' \<noteq> l"
  by (auto simp: inflate_def split: if_splits)
    (metis add.right_neutral add_left_cancel less_irrefl price_level_snapshot.select_convs(2) price_level_snapshot.surjective price_level_snapshot.update_convs(2))

lemma stale_book_changes:
  assumes "stale_book snap e = Some snap'"
  shows "snap' \<noteq> snap"
proof (cases e)
  case (TradeEvent h b)
  let ?up = "update_first (inflate (resting_order_id b) (execution_quantity b))"
  have q: "0 < execution_quantity b" using assms TradeEvent by (auto split: if_splits)
  have ch: "ls' \<noteq> ls" if "?up ls = Some ls'" for ls ls'
    using inflate_changes [OF q] by (intro update_first_changes [OF that]) blast
  show ?thesis
  proof (cases "aggressor_side b")
    case BUY
    with assms TradeEvent obtain ls where "?up (bs_asks snap) = Some ls" "snap' = snap\<lparr>bs_asks := ls\<rparr>" by (auto split: if_splits)
    with ch have "bs_asks snap' \<noteq> bs_asks snap" by auto
    then show ?thesis by auto
  next
    case SELL
    with assms TradeEvent obtain ls where "?up (bs_bids snap) = Some ls" "snap' = snap\<lparr>bs_bids := ls\<rparr>" by (auto split: if_splits)
    with ch have "bs_bids snap' \<noteq> bs_bids snap" by auto
    then show ?thesis by auto
  qed
qed (use assms in auto)

lemma stale_book_None:
  "stale_book snap (TradeEvent h b) \<noteq> None \<longleftrightarrow> 0 < resting_remaining b \<and> 0 < execution_quantity b \<and>
     (\<exists>l \<in> set (case aggressor_side b of BUY \<Rightarrow> bs_asks snap | SELL \<Rightarrow> bs_bids snap).
        0 \<le> pls_aggregate_quantity l \<and> (\<exists>x \<in> set (pls_orders l). os_order_id x = resting_order_id b))"
  by (cases "aggressor_side b") (auto simp: update_first_None inflate_def list_ex_iff simp del: not_None_eq split: if_splits)

lemma faulty_eligible:
  assumes "levels_distinct r"
  shows "faulty fault (Some cmd) r \<noteq> r \<longleftrightarrow> eligible fault cmd r"
proof (cases fault)
  case NEWEST_AT_PRICE
  show ?thesis
  proof (cases "nr_snapshot r")
    case None
    then show ?thesis by (simp add: faulty_def eligible_def NEWEST_AT_PRICE)
  next
    case (Some snap)
    with assms have d: "\<forall>l \<in> set (bs_bids snap @ bs_asks snap). distinct (pls_orders l)" by (simp add: levels_distinct_def)
    have "r\<lparr>nr_snapshot := Some snap'\<rparr> \<noteq> r" if "newest_book snap = Some snap'" for snap'
      using newest_book_eligible(2) [OF d that] Some by (metis native_result_record.select_convs(11) native_result_record.surjective native_result_record.update_convs(11) option.inject)
    with newest_book_eligible(1) [OF d] show ?thesis
      by (cases "newest_book snap") (auto simp: faulty_def eligible_def NEWEST_AT_PRICE Some not_less)
  qed
next
  case INCOMING_TRADE_PRICE
  have ch: "r\<lparr>nr_events := Some es'\<rparr> \<noteq> r" if "nr_events r = Some es" "update_first (reprice p) es = Some es'" for p es es'
  proof -
    have "y \<noteq> x" if "reprice p x = Some y" for x y
      using that by (cases x) (auto split: if_splits, metis trade_body.select_convs(6) trade_body.surjective trade_body.update_convs(6))
    from update_first_changes [OF that(2) this] have "es' \<noteq> es" by blast
    with that(1) show ?thesis
      by (metis native_result_record.select_convs(9) native_result_record.surjective native_result_record.update_convs(9) option.inject)
  qed
  have none: "update_first (reprice p) es = None \<longleftrightarrow> (\<forall>h b. TradeEvent h b \<in> set es \<longrightarrow> execution_price b = p)" for p es
  proof -
    have "reprice p x = None \<longleftrightarrow> (\<forall>h b. x = TradeEvent h b \<longrightarrow> execution_price b = p)" for x by (cases x) auto
    then show ?thesis by (auto simp: update_first_None)
  qed
  have "eligible fault cmd r \<longleftrightarrow>
      (\<exists>p es. incoming_price (Some cmd) = Some p \<and> nr_events r = Some es \<and> \<not> (update_first (reprice p) es = None))"
    unfolding eligible_def INCOMING_TRADE_PRICE none by auto
  then have el: "eligible fault cmd r \<longleftrightarrow> update_first (reprice p) es \<noteq> None" if "incoming_price (Some cmd) = Some p" "nr_events r = Some es" for p es
    using that by simp
  consider (both) p es where "incoming_price (Some cmd) = Some p" "nr_events r = Some es"
    | (no) "incoming_price (Some cmd) = None \<or> nr_events r = None"
    by (cases "incoming_price (Some cmd)"; cases "nr_events r") simp_all
  then show ?thesis
  proof cases
    case both
    have "faulty fault (Some cmd) r = (case update_first (reprice p) es of None \<Rightarrow> r | Some es' \<Rightarrow> r\<lparr>nr_events := Some es'\<rparr>)"
      by (simp add: faulty_def INCOMING_TRADE_PRICE both)
    then show ?thesis
      unfolding el [OF both] using ch [OF both(2), of p] by (cases "update_first (reprice p) es") simp_all
  next
    case no
    then show ?thesis by (auto simp: faulty_def eligible_def INCOMING_TRADE_PRICE split: option.splits)
  qed
next
  case STALE_PARTIAL_AGGREGATE
  have ch: "r\<lparr>nr_snapshot := Some snap'\<rparr> \<noteq> r" if "nr_snapshot r = Some snap" "first_some (map (stale_book snap) es) = Some snap'" for snap es snap'
  proof -
    have "\<exists>e. stale_book snap e = Some snap'" using that(2) by (induction es) (auto split: option.splits)
    with stale_book_changes have "snap' \<noteq> snap" by blast
    with that(1) show ?thesis
      by (metis native_result_record.select_convs(11) native_result_record.surjective native_result_record.update_convs(11) option.inject)
  qed
  have none: "first_some (map (stale_book snap) es) \<noteq> None \<longleftrightarrow> (\<exists>h b. TradeEvent h b \<in> set es \<and> stale_book snap (TradeEvent h b) \<noteq> None)" for snap es
  proof -
    have trade: "\<exists>h b. x = TradeEvent h b" if "stale_book snap x \<noteq> None" for x using that by (cases x) auto
    have "first_some (map (stale_book snap) es) \<noteq> None \<longleftrightarrow> (\<exists>x \<in> set es. stale_book snap x \<noteq> None)"
      by (simp only: first_some_None) auto
    also have "\<dots> \<longleftrightarrow> (\<exists>h b. TradeEvent h b \<in> set es \<and> stale_book snap (TradeEvent h b) \<noteq> None)" using trade by metis
    finally show ?thesis .
  qed
  have "eligible fault cmd r \<longleftrightarrow> (\<exists>snap es. nr_snapshot r = Some snap \<and> nr_events r = Some es \<and> first_some (map (stale_book snap) es) \<noteq> None)"
    unfolding eligible_def STALE_PARTIAL_AGGREGATE none stale_book_None fault_name.case by blast
  then have el: "eligible fault cmd r \<longleftrightarrow> first_some (map (stale_book snap) es) \<noteq> None" if "nr_snapshot r = Some snap" "nr_events r = Some es" for snap es
    using that by simp
  consider (both) snap es where "nr_snapshot r = Some snap" "nr_events r = Some es" | (no) "nr_snapshot r = None \<or> nr_events r = None"
    by (cases "nr_snapshot r"; cases "nr_events r") simp_all
  then show ?thesis
  proof cases
    case both
    have "faulty fault (Some cmd) r = (case first_some (map (stale_book snap) es) of None \<Rightarrow> r | Some snap' \<Rightarrow> r\<lparr>nr_snapshot := Some snap'\<rparr>)"
      by (simp add: faulty_def STALE_PARTIAL_AGGREGATE both)
    then show ?thesis
      unfolding el [OF both] using ch [OF both(1), of es] by (cases "first_some (map (stale_book snap) es)") simp_all
  next
    case no
    then show ?thesis by (auto simp: faulty_def eligible_def STALE_PARTIAL_AGGREGATE split: option.splits)
  qed
qed

text \<open>A snapshot of a sound engine lists no order twice.\<close>

lemma snapshot_distinct:
  assumes "engine_inv s" and "l \<in> set (bs_bids (snapshot_of s) @ bs_asks (snapshot_of s))"
  shows "distinct (pls_orders l)"
proof -
  have "distinct (map ord_order_id (view_of s sd))" for sd
    using engine_view_ok [OF assms(1)] by (cases sd) (auto simp: view_ok_def)
  then have "distinct (map order_snapshot_of (flat sd s))" for sd
    using order_snapshot_of_inj by (auto simp: distinct_map inj_on_def)
  then have "distinct (concat (map pls_orders (view_levels sd s)))" for sd by (simp only: view_levels_orders)
  moreover obtain sd where "l \<in> set (view_levels sd s)" using assms(2) by auto
  ultimately show ?thesis by (metis distinct_concat_iff image_eqI list.set_map)
qed

lemma trace_levels_distinct:
  assumes "honest_trace sha256 mode c index cmds rs s s'"
  shows "\<forall>r \<in> set rs. levels_distinct r"
  using assms
proof (induction rule: honest_trace.induct)
  case (trace_step cmd s es s1 s2 index cmds rs s')
  then show ?case
    using snapshot_distinct [OF honest_stepD(2) [OF trace_step.hyps(3)]] by (auto simp: levels_distinct_def honest_result_def split: if_splits)
qed simp

fun first_eligible :: "fault_name \<Rightarrow> command list \<Rightarrow> native_result_record list \<Rightarrow> nat option" where
  "first_eligible fault (cmd # cmds) (r # rs) =
     (if eligible fault cmd r then Some 0 else map_option Suc (first_eligible fault cmds rs))"
| "first_eligible fault _ _ = None"

lemma injected_altered: "FaultInjector fault cmd (native_result_mapping r) = native_result_mapping r \<longleftrightarrow> faulty fault cmd r = r"
  using injected_differs [of r fault cmd] by (metis injected_mapping json_same_refl)

lemma first_altered_eligible:
  assumes "\<forall>r \<in> set rs. levels_distinct r"
  shows "first_altered (FaultInjector fault) cmds rs = first_eligible fault cmds rs"
  using assms by (induction fault cmds rs rule: first_eligible.induct) (auto simp: injected_altered faulty_eligible)

text \<open>
  C40.  Every injected fault is diagnosed at the first record it can alter.  On a native run that agrees
  with the reference engine, the comparison under a fault passes when no record is eligible, and otherwise
  stops at the first eligible one with a divergence at its index.  A record is eligible for swapping the
  ends of a queue when its snapshot has a level with two orders, for the incoming price when one of its
  trades is at another price than the command's limit, and for a stale aggregate when one of its trades
  leaves a remainder in a level of its snapshot.
\<close>

theorem injected_fault_located:
  assumes "native_config_ok c" and "\<forall>cmd \<in> set cmds. require_representable cmd = Inr ()" and "int (length cmds) + 6 \<le> U32_MAX"
    and "\<forall>b. is_digest (JStr (sha256 b))"
    and honest: "honest_process sha256 EXACT c cmds (config # map ResultRecord rs @ [FinalRecord f])"
    and nat: "native EXACT (encode_header c @ [CHR 0x0A] @ command_text cmds) = (config # map ResultRecord rs @ [FinalRecord f], 0, True)"
  shows "\<exists>out. run_injected_fault sha256 native c cmds fault = Inr out \<and>
    (case first_eligible fault cmds rs of
       None \<Rightarrow> cmp_status out = PASSED
     | Some k \<Rightarrow> cmp_commands_compared out = int k \<and> (\<exists>d. cmp_status out = DIVERGED d \<and> dv_command_index d = Some (int k)))"
proof -
  have cfg: "matching_config_ok (ni_engine c)" using assms(1) by (simp add: native_config_ok_def)
  obtain s where s: "ReferenceEngine (ni_instrument_id c) (Some (ni_engine c)) 1 True = Inr s"
    and h: "fst (honest_records sha256 EXACT c cmds s) = Inr (config # map ResultRecord rs @ [FinalRecord f])"
    using honest by (auto simp: honest_process_def)
  let ?t = "FaultInjector fault"
  let ?out = "run_fixture sha256 (Some ?t) EXACT c cmds (config # map ResultRecord rs @ [FinalRecord f]) 0 True"
  have run: "run_injected_fault sha256 native c cmds fault = Inr ?out"
    using file_opens [OF assms(1), of cmds] file_commands [OF assms(1,2), of None] nat
    by (simp add: run_injected_fault_def encode_stream_text [OF assms(2)] run_fixture_file_def)
  show ?thesis
  proof (rule comparison_setting [OF s cfg assms(2-4), of EXACT])
    fix rs' s' f' capture run
    assume "fst (honest_records sha256 EXACT c cmds s) = Inr (ConfigRecord (honest_config EXACT c) # map ResultRecord rs' @ [FinalRecord f'])"
      and rc: "rc_mode capture = EXACT" "rc_config capture = c" and "honest_trace sha256 EXACT c 0 cmds rs' s s'"
      and eng: "engine_inv s'" "ni_engine c = eng_config s'" "ni_instrument_id c = eng_instrument_id s'"
        "eng_next_sequence s' = int (length cmds) + 1" "\<not> eng_sequence_exhausted s'"
      and "f' = honest_final sha256 (int (length cmds)) (snapshot_of s')"
      and "in_step sha256 capture f' 0 cmds rs' s run" and zero: "cn_compared run = 0" and tc: "cn_transform_commands run = cmds"
      and found: "\<And>transformer recs code clean d run'. compare_records sha256 transformer EXACT recs run = (Inr (Some d), run') \<Longrightarrow>
        run_fixture sha256 transformer EXACT c cmds (ConfigRecord (honest_config EXACT c) # recs) code clean =
          comparison_summary sha256 (DIVERGED d) run'"
      and passed: "\<And>transformer recs code clean run'. compare_records sha256 transformer EXACT recs run = (Inr None, run') \<Longrightarrow>
        fst (finish_comparison sha256 code clean capture run') = Inr () \<Longrightarrow>
        cmp_status (run_fixture sha256 transformer EXACT c cmds (ConfigRecord (honest_config EXACT c) # recs) code clean) = PASSED"
    with h have config: "config = ConfigRecord (honest_config EXACT c)"
      and tr: "honest_trace sha256 (rc_mode capture) (rc_config capture) 0 cmds rs s s'" "in_step sha256 capture f 0 cmds rs s run"
        "f = honest_final sha256 (0 + int (length cmds)) (snapshot_of s')"
      by (auto simp: inj_map_eq_map inj_def)
    have "\<forall>cmd r. json_same (native_result_mapping r) (?t (Some cmd) (native_result_mapping r)) \<longrightarrow>
        ?t (Some cmd) (native_result_mapping r) = native_result_mapping r" by (simp add: injected_differs injected_altered)
    moreover have "ni_engine (rc_config capture) = eng_config s'" "ni_instrument_id (rc_config capture) = eng_instrument_id s'"
      "eng_next_sequence s' = 0 + int (length cmds) + 1" using eng rc by simp_all
    ultimately have "\<exists>res run1. compare_records sha256 (Some ?t) (rc_mode capture) (map ResultRecord rs @ [FinalRecord f]) run = (Inr res, run1) \<and>
        (case first_altered ?t cmds rs of
           None \<Rightarrow> res = None \<and> fst (finish_comparison sha256 0 True capture run1) = Inr ()
         | Some k \<Rightarrow> (\<exists>d. res = Some d \<and> dv_command_index d = Some (0 + int k) \<and> cn_compared run1 = cn_compared run + int k))"
      using faulty_run [where t = ?t, OF tr(1) eng(1) _ _ _ eng(5) tr(3,2) tc injected_final] by blast
    from this [unfolded rc zero add_0] obtain res run1 where
      cmp: "compare_records sha256 (Some ?t) EXACT (map ResultRecord rs @ [FinalRecord f]) run = (Inr res, run1)"
        "case first_altered ?t cmds rs of
           None \<Rightarrow> res = None \<and> fst (finish_comparison sha256 0 True capture run1) = Inr ()
         | Some k \<Rightarrow> (\<exists>d. res = Some d \<and> dv_command_index d = Some (int k) \<and> cn_compared run1 = int k)" by blast
    have fe: "first_altered ?t cmds rs = first_eligible fault cmds rs"
      by (rule first_altered_eligible [OF trace_levels_distinct [OF tr(1)]])
    show ?thesis
    proof (cases "first_eligible fault cmds rs")
      case None
      with cmp fe passed [of "Some ?t"] run show ?thesis by (auto simp: config)
    next
      case (Some k)
      with cmp fe obtain d where "res = Some d" "dv_command_index d = Some (int k)" "cn_compared run1 = int k" by auto
      with cmp(1) found [of "Some ?t"] run Some show ?thesis by (auto simp: config comparison_summary_def)
    qed
  qed
qed

text \<open>Two orders that queue at one price, with a snapshot behind the second.\<close>

definition queue_input :: native_input_config where
  "queue_input = \<lparr>ni_instrument_id = 1, ni_engine = default_matching_config, ni_snapshot_interval = 2\<rparr>"

definition queue_commands :: "command list" where
  "queue_commands = [NewOrder (limit_order 1 10 BUY 100 5), NewOrder (limit_order 2 11 BUY 100 7)]"

lemma queue_records:
  "(case fst (honest_records (\<lambda>_. replicate 64 CHR ''0'') EXACT queue_input queue_commands (initial_engine 1 (Some default_matching_config) 1 True)) of
      Inl _ \<Rightarrow> []
    | Inr recs \<Rightarrow> map (\<lambda>rec. case rec of
          ResultRecord r \<Rightarrow> map_option (\<lambda>snap. map (\<lambda>l. length (pls_orders l)) (bs_bids snap)) (nr_snapshot r)
        | _ \<Rightarrow> None) recs) = [None, None, Some [2], None]"
  by code_simp

theorem injected_fault_located_witness:
  "\<exists>native out d. run_injected_fault (\<lambda>_. replicate 64 CHR ''0'') native queue_input queue_commands NEWEST_AT_PRICE = Inr out \<and>
    cmp_commands_compared out = 1 \<and> cmp_status out = DIVERGED d \<and> dv_command_index d = Some 1"
proof -
  let ?h = "\<lambda>_ :: bytes. replicate 64 CHR ''0''"
  let ?s = "initial_engine 1 (Some default_matching_config) 1 True"
  have ok: "native_config_ok queue_input" by (simp add: queue_input_def native_config_ok_def width_defs)
  have rep: "\<forall>cmd \<in> set queue_commands. require_representable cmd = Inr ()" by code_simp
  have n: "int (length queue_commands) + 6 \<le> U32_MAX" by code_simp
  have s: "ReferenceEngine (ni_instrument_id queue_input) (Some (ni_engine queue_input)) 1 True = Inr ?s" by code_simp
  have cfg: "matching_config_ok (ni_engine queue_input)" using ok by (simp add: native_config_ok_def)
  obtain rs snap s' where len: "length rs = length queue_commands"
    and recs: "honest_records ?h EXACT queue_input queue_commands ?s =
      (Inr (ConfigRecord (honest_config EXACT queue_input) # map ResultRecord rs @
        [FinalRecord (honest_final ?h (int (length queue_commands)) snap)]), s')"
    using honest_records_accepted [OF s cfg rep n, of ?h EXACT] by blast
  let ?recs = "ConfigRecord (honest_config EXACT queue_input) # map ResultRecord rs @
        [FinalRecord (honest_final ?h (int (length queue_commands)) snap)]"
  have "length rs = 2" using len by (simp add: queue_commands_def)
  then obtain r0 r1 where rs: "rs = [r0, r1]" by (auto simp: numeral_2_eq_2 length_Suc_conv)
  have "nr_snapshot r0 = None" and "\<exists>book. nr_snapshot r1 = Some book \<and> map (\<lambda>l. length (pls_orders l)) (bs_bids book) = [2]"
    using queue_records by (auto simp: recs rs)
  then have "first_eligible NEWEST_AT_PRICE queue_commands rs = Some 1"
    by (auto simp: queue_commands_def rs eligible_def map_eq_Cons_conv)
  moreover have "honest_process ?h EXACT queue_input queue_commands ?recs" using s recs by (auto simp: honest_process_def)
  ultimately show ?thesis
    using injected_fault_located [OF ok rep n zero_digest, of _ rs _ "\<lambda>_ _. (?recs, 0, True)" NEWEST_AT_PRICE] by fastforce
qed

end
