(* ===== verification/Multi_Shrinking.thy ===== *)
theory Multi_Shrinking
  imports Shrinking
begin

text \<open>
  The reducer of divergent multi-instrument command sequences, \<open>python/src/atlaslob/multi_shrinking.py\<close>.  It
  shares the candidate evaluator and the deletion passes with the single-instrument reducer; its own passes
  keep the instrument of every command.
\<close>

section \<open>Identifier remapping\<close>

fun multi_remap_command ::
  "(int, int) dict \<times> (int, int) dict \<Rightarrow> command \<Rightarrow> command \<times> (int, int) dict \<times> (int, int) dict" where
  "multi_remap_command (orders, clients) (NewOrder c) =
     (let (client, clients') = assign_id clients (new_client_id c);
          (oid, orders') = assign_id orders (new_order_id c) in
      (NewOrder (c\<lparr>new_client_id := client, new_order_id := oid\<rparr>), orders', clients'))"
| "multi_remap_command (orders, clients) (CancelOrder c) =
     (let (client, clients') = assign_id clients (cancel_client_id c);
          (oid, orders') = assign_id orders (cancel_order_id c) in
      (CancelOrder (c\<lparr>cancel_client_id := client, cancel_order_id := oid\<rparr>), orders', clients'))"
| "multi_remap_command (orders, clients) (ReplaceOrder c) =
     (let (client, clients') = assign_id clients (rep_client_id c);
          (old_id, orders1) = assign_id orders (rep_old_order_id c);
          (new_id, orders2) = assign_id orders1 (rep_new_order_id c) in
      (ReplaceOrder (c\<lparr>rep_client_id := client, rep_old_order_id := old_id, rep_new_order_id := new_id\<rparr>),
       orders2, clients'))"

fun multi_remap_commands :: "(int, int) dict \<times> (int, int) dict \<Rightarrow> command list \<Rightarrow> command list" where
  "multi_remap_commands ids [] = []"
| "multi_remap_commands ids (cmd # cmds) =
     (let (cmd', ids') = multi_remap_command ids cmd in cmd' # multi_remap_commands ids' cmds)"

definition multi_remap_identifiers :: "command list \<Rightarrow> command list" where
  "multi_remap_identifiers cmds = multi_remap_commands ([], []) cmds"

definition multi_remap_stage :: "command list \<Rightarrow> ('sig candidate_evaluator, command list) prog" where
  "multi_remap_stage current =
     (let remapped = multi_remap_identifiers current in
      if remapped \<noteq> current then bindP (preserves remapped) (\<lambda>ok. ret (if ok then remapped else current))
      else ret current)"

section \<open>Quantities and prices\<close>

text \<open>
  The simpler command the body of each loop builds, if any: the command examined is the one of the sequence
  the loop started with, and is put in its place in the current sequence.
\<close>

fun unit_quantity :: "command \<Rightarrow> command option" where
  "unit_quantity (NewOrder c) =
     (if new_quantity c \<in> {0, 1} then None else Some (NewOrder (c\<lparr>new_quantity := 1\<rparr>)))"
| "unit_quantity (ReplaceOrder c) =
     (if rep_new_quantity c \<in> {0, 1} then None else Some (ReplaceOrder (c\<lparr>rep_new_quantity := 1\<rparr>)))"
| "unit_quantity (CancelOrder c) = None"

definition try_at :: "command option \<Rightarrow> nat \<Rightarrow> command list \<Rightarrow> ('sig candidate_evaluator, command list) prog" where
  "try_at simpler i current =
     (case simpler of
        None \<Rightarrow> ret current
      | Some cmd \<Rightarrow>
          (let candidate = replace_at current i cmd in
           bindP (preserves candidate) (\<lambda>ok. ret (if ok then candidate else current))))"

definition multi_simplify_quantities :: "command list \<Rightarrow> ('sig candidate_evaluator, command list) prog" where
  "multi_simplify_quantities cmds =
     each_index (\<lambda>(i, cmd) current. try_at (unit_quantity cmd) i current) (zip [0..<length cmds] cmds) cmds"

definition configured_tick :: "(int, instrument_config) dict \<Rightarrow> int \<Rightarrow> int" where
  "configured_tick configured iid =
     (case map_of configured iid of None \<Rightarrow> 1 | Some entry \<Rightarrow> tick_increment (ic_matching entry))"

fun unit_price :: "(int, instrument_config) dict \<Rightarrow> command \<Rightarrow> command option" where
  "unit_price configured (NewOrder c) =
     (let tick = configured_tick configured (new_instrument_id c) in
      case new_limit_price c of
        None \<Rightarrow> None
      | Some p \<Rightarrow> if p \<in> {0, tick} then None else Some (NewOrder (c\<lparr>new_limit_price := Some tick\<rparr>)))"
| "unit_price configured (ReplaceOrder c) =
     (let tick = configured_tick configured (rep_instrument_id c) in
      if rep_new_limit_price c \<in> {0, tick} then None else Some (ReplaceOrder (c\<lparr>rep_new_limit_price := tick\<rparr>)))"
| "unit_price configured (CancelOrder c) = None"

definition multi_simplify_prices ::
  "(int, instrument_config) dict \<Rightarrow> command list \<Rightarrow> ('sig candidate_evaluator, command list) prog" where
  "multi_simplify_prices configured cmds =
     each_index (\<lambda>(i, cmd) current. try_at (unit_price configured cmd) i current) (zip [0..<length cmds] cmds) cmds"

section \<open>The reducer\<close>

definition multi_shrink_steps ::
  "(int, instrument_config) dict \<Rightarrow> ((command list \<Rightarrow> ('sig candidate_evaluator, command list) prog) \<times> string list) list" where
  "multi_shrink_steps configured =
     [(delete_chunks, [''chunk_deletion'']), (delete_individual, [''individual_deletion'']),
      (multi_remap_stage, [''global_identifier_remap'']), (multi_simplify_quantities, [''quantity_reduction'']),
      (multi_simplify_prices configured, [''per_instrument_price_reduction'']),
      (delete_individual, [''final_deletion''])]"

text \<open>\<open>{entry.instrument_id: entry for entry in catalog}\<close>.\<close>

definition configured_instruments :: "instrument_config list \<Rightarrow> (int, instrument_config) dict" where
  "configured_instruments catalog = fold (\<lambda>entry d. dict_setitem (ic_instrument_id entry) entry d) catalog []"

definition shrink_multi_failure ::
  "(string \<Rightarrow> string) \<Rightarrow> (nat \<Rightarrow> rat) \<Rightarrow> command list \<Rightarrow> (command list \<Rightarrow> rat option \<Rightarrow> 'sig option result) \<Rightarrow> 'sig \<Rightarrow>
   instrument_config list \<Rightarrow> shrink_budget \<Rightarrow> 'sig shrink_result result" where
  "shrink_multi_failure sha256 clock original evaluator signature catalog budget =
     (let started = clock 0 in
      if original = [] then Inl ValueError
      else
        let configured = configured_instruments catalog in
        if configured = [] \<or> length configured \<noteq> length catalog then Inl ValueError
        else
          let checked = CandidateEvaluator evaluator signature budget sha256 clock 1 in
          case preserves original checked of
            (Inl e, s1) \<Rightarrow>
              if e = BudgetExhausted then fst (shrink_report original signature budget started (original, [], True) s1)
              else Inl e
          | (Inr False, s1) \<Rightarrow> Inl ValueError
          | (Inr True, s1) \<Rightarrow>
              (case run_steps (multi_shrink_steps configured) original [] s1 of
                 (Inl e, s2) \<Rightarrow> Inl e
               | (Inr out, s2) \<Rightarrow> fst (shrink_report original signature budget started out s2)))"

end
