(* ===== verification/Multi_Shrinking_Properties.thy ===== *)
theory Multi_Shrinking_Properties
  imports Multi_Shrinking Shrinking_Properties
begin

text \<open>
  What the multi-instrument reducer promises.  Its passes meet the contract of the single-instrument ones and
  one more, the locale \<open>routed_pass\<close>: the instruments of the commands they return are a subsequence of the
  instruments of the commands they were given.
\<close>

section \<open>Passes that keep the routing\<close>

definition routing :: "command list \<Rightarrow> int list" where
  "routing cmds = map command_instrument_id cmds"

definition keeps_routing :: "command list \<Rightarrow> command list \<Rightarrow> bool" where
  "keeps_routing cmds' cmds \<longleftrightarrow> subseq (routing cmds') (routing cmds)"

lemma keeps_routing_order: "reflp keeps_routing" "transp keeps_routing"
  unfolding keeps_routing_def by (auto intro: reflpI transpI subseq_order.order_trans)

lemma keeps_routing_refl [simp]: "keeps_routing cmds cmds"
  by (simp add: keeps_routing_def)

lemma keeps_routing_trans: "keeps_routing c d \<Longrightarrow> keeps_routing d e \<Longrightarrow> keeps_routing c e"
  using keeps_routing_order(2) by (auto dest: transpD)

locale routed_pass = reduction_pass +
  assumes routed: "pass cmds s = (Inr cmds', s') \<Longrightarrow> keeps_routing cmds' cmds"

lemma cut_keeps_routing: "keeps_routing (take i cmds @ drop (i + j) cmds) cmds"
proof -
  have "subseq (take i cmds @ drop (i + j) cmds) (take i cmds @ take j (drop i cmds) @ drop (i + j) cmds)"
    by (intro subseq_append' [THEN iffD2] list_emb_append2 subseq_order.order_refl)
  also have "take i cmds @ take j (drop i cmds) @ drop (i + j) cmds = cmds"
    by (metis append.assoc append_take_drop_id take_add)
  finally show ?thesis unfolding keeps_routing_def routing_def by (rule subseq_map)
qed

lemma try_chunks_routed:
  "try_chunks cmds chunk starts s = (Inr (Some c), s') \<Longrightarrow> keeps_routing c cmds"
  by (induction starts arbitrary: s)
    (auto simp: Let_def bindP_cases cut_keeps_routing split: if_splits prod.splits sum.splits)

lemma delete_chunks_loop_routed: "delete_chunks_loop cmds g s = (Inr c, s') \<Longrightarrow> keeps_routing c cmds"
proof (induction cmds g s rule: delete_chunks_loop.induct)
  case (1 cmds g s)
  let ?chunk = "(length cmds + g - 1) div g"
  show ?case
  proof (cases "length cmds < 2 \<or> g = 0")
    case False
    obtain r s1 where out: "try_chunks cmds ?chunk (range_by (length cmds) ?chunk) s = (r, s1)" by fastforce
    note unfold = 1(3) [unfolded delete_chunks_loop.simps [of cmds g s], simplified Let_def out]
    from unfold False obtain o1 where r: "r = Inr o1" by (cases r) auto
    show ?thesis
    proof (cases o1)
      case None
      with unfold False r 1(1) [OF _ _ refl out [symmetric], of o1] show ?thesis by (auto split: if_splits)
    next
      case (Some c1)
      with unfold False r 1(2) [OF _ _ refl out [symmetric], of o1 c1] have "keeps_routing c c1" by auto
      with try_chunks_routed out r Some show ?thesis by (blast intro: keeps_routing_trans)
    qed
  qed (use 1(3) in \<open>auto simp: delete_chunks_loop.simps [of cmds g s] split: if_splits\<close>)
qed

lemma delete_individual_loop_routed: "delete_individual_loop cmds i s = (Inr c, s') \<Longrightarrow> keeps_routing c cmds"
proof (induction cmds i s rule: delete_individual_loop.induct)
  case (1 cmds i s)
  let ?cand = "take i cmds @ drop (i + 1) cmds"
  obtain r s1 where out: "preserves ?cand s = (r, s1)" by fastforce
  consider (stop) "i \<ge> length cmds" | (skip) "i < length cmds" "?cand = []" | (cand) "i < length cmds" "?cand \<noteq> []"
    by linarith
  then show ?case
  proof cases
    case stop
    with 1(4) show ?thesis by (simp add: delete_individual_loop.simps [of cmds i s])
  next
    case skip
    with 1(4) 1(1) [OF _ refl] show ?thesis by (simp add: delete_individual_loop.simps [of cmds i s] Let_def)
  next
    case cand
    from 1(4) delete_individual_loop_step [OF cand(1) refl cand(2) out] obtain ok where
      r: "r = Inr ok" "(if ok then delete_individual_loop ?cand i s1 else delete_individual_loop cmds (i + 1) s1) = (Inr c, s')"
      by (auto split: sum.splits)
    show ?thesis
    proof (cases ok)
      case True
      with 1(2) [OF _ refl cand(2) out [symmetric] r(1)] cand(1) r(2) have "keeps_routing c ?cand" by simp
      with cut_keeps_routing show ?thesis by (rule keeps_routing_trans [rotated])
    next
      case False
      with 1(3) [OF _ refl cand(2) out [symmetric] r(1)] cand(1) r(2) show ?thesis by simp
    qed
  qed
qed

interpretation routed_chunks: routed_pass delete_chunks
  by unfold_locales (auto simp: delete_chunks_def dest: delete_chunks_loop_routed)

interpretation routed_individual: routed_pass delete_individual
  by unfold_locales (auto simp: delete_individual_def dest: delete_individual_loop_routed)

section \<open>Identifier remapping\<close>

fun with_instrument :: "int \<Rightarrow> command \<Rightarrow> command" where
  "with_instrument iid (NewOrder c) = NewOrder (c\<lparr>new_instrument_id := iid\<rparr>)"
| "with_instrument iid (CancelOrder c) = CancelOrder (c\<lparr>cancel_instrument_id := iid\<rparr>)"
| "with_instrument iid (ReplaceOrder c) = ReplaceOrder (c\<lparr>rep_instrument_id := iid\<rparr>)"

lemma command_instrument_with [simp]: "command_instrument_id (with_instrument iid cmd) = iid"
  by (cases cmd) simp_all

lemma representable_with_instrument:
  "representable cmd \<Longrightarrow> representable original \<Longrightarrow> representable (with_instrument (command_instrument_id original) cmd)"
  by (cases cmd; cases original) (auto simp: bindR_Inr_iff)

text \<open>The remapping of the single-instrument reducer, with the instruments put back.\<close>

lemma multi_remap_command_eq:
  "multi_remap_command ids cmd =
     (case remap_command routed ids cmd of (c, ids') \<Rightarrow> (with_instrument (command_instrument_id cmd) c, ids'))"
  by (cases ids; cases cmd) (simp_all split: prod.splits)

lemma multi_remap_commands_eq:
  "multi_remap_commands ids cmds = map2 with_instrument (routing cmds) (remap_commands routed ids cmds)"
  by (induction cmds arbitrary: ids)
    (simp_all add: routing_def multi_remap_command_eq [where routed = routed] split: prod.splits)

lemma multi_remap_length [simp]: "length (multi_remap_identifiers cmds) = length cmds"
  using multi_remap_commands_eq [of "([], [])" cmds 1] by (simp add: multi_remap_identifiers_def routing_def)

lemma multi_remap_routing: "routing (multi_remap_identifiers cmds) = routing cmds"
proof -
  have "map command_instrument_id (map2 with_instrument is cs) = is" if "length is = length cs" for "is" cs
    using that by (induction "is" cs rule: list_induct2) simp_all
  then show ?thesis using multi_remap_commands_eq [of "([], [])" cmds 1]
    by (simp add: multi_remap_identifiers_def routing_def)
qed

lemma multi_remap_representable:
  assumes "list_all representable cmds"
  shows "list_all representable (multi_remap_identifiers cmds)"
proof -
  have "list_all representable (remap_identifiers cmds 1)" using remap_representable [OF assms, of 1] by (simp add: U32_MAX_def)
  then have "list_all representable (map2 with_instrument (routing cmds) (remap_identifiers cmds 1))"
    using assms remap_length [of cmds 1]
    by (auto simp: list_all_length routing_def intro!: representable_with_instrument)
  then show ?thesis using multi_remap_commands_eq [of "([], [])" cmds 1]
    by (simp add: multi_remap_identifiers_def remap_identifiers_def)
qed

lemma multi_remap_stage_ok:
  assumes "ev_inv s" and "good s cmds"
  shows "pass_ok s cmds (multi_remap_stage cmds s)"
proof (cases "multi_remap_identifiers cmds = cmds")
  case True
  with assms show ?thesis by (simp add: multi_remap_stage_def)
next
  case False
  let ?cand = "multi_remap_identifiers cmds"
  have "?cand \<noteq> []" using goodD(2) [OF assms(2)] multi_remap_length by (metis length_0_conv)
  with multi_remap_representable [OF goodD(1) [OF assms(2)]]
  have "pass_ok s cmds (bindP (preserves ?cand) (\<lambda>ok. ret (if ok then ?cand else cmds)) s)"
    by (intro try_candidate [OF assms]) (auto simp: pass_ok_def)
  with False show ?thesis by (simp add: multi_remap_stage_def Let_def)
qed

interpretation routed_remap: routed_pass multi_remap_stage
proof unfold_locales
  fix cmds cmds' :: "command list" and s s' :: "'a candidate_evaluator"
  assume "multi_remap_stage cmds s = (Inr cmds', s')"
  then have "cmds' = cmds \<or> cmds' = multi_remap_identifiers cmds"
    by (auto simp: multi_remap_stage_def Let_def bindP_cases split: if_splits prod.splits sum.splits)
  then show "keeps_routing cmds' cmds" by (auto simp: keeps_routing_def multi_remap_routing)
qed (rule multi_remap_stage_ok)

section \<open>Quantities and prices\<close>

lemma try_at_ok:
  assumes "ev_inv s" and "good s cmds" and "i < length cmds" and "\<forall>cmd. simpler = Some cmd \<longrightarrow> representable cmd"
  shows "pass_ok s cmds (try_at simpler i cmds s)"
proof (cases simpler)
  case (Some cmd)
  with assms have "list_all representable (replace_at cmds i cmd)" by (intro good_replace_at) auto
  with assms Some show ?thesis unfolding try_at_def
    by (auto simp: Let_def pass_ok_def intro!: try_candidate [unfolded pass_ok_def])
qed (use assms in \<open>simp add: try_at_def\<close>)

lemma try_at_outcome:
  "try_at simpler i cmds s = (Inr cmds', s') \<Longrightarrow> cmds' = cmds \<or> (\<exists>cmd. simpler = Some cmd \<and> cmds' = replace_at cmds i cmd)"
  by (auto simp: try_at_def Let_def bindP_cases split: option.splits prod.splits sum.splits if_splits)

lemma try_at_length: "try_at simpler i cmds s = (Inr cmds', s') \<Longrightarrow> i < length cmds \<Longrightarrow> length cmds' = length cmds"
  by (auto dest: try_at_outcome)

lemma try_at_routing:
  assumes "try_at simpler i cmds s = (Inr cmds', s')" and "i < length cmds"
    and "\<forall>cmd. simpler = Some cmd \<longrightarrow> command_instrument_id cmd = routing cmds ! i"
  shows "routing cmds' = routing cmds"
proof -
  have "routing (replace_at cmds i cmd) = routing cmds" if "command_instrument_id cmd = routing cmds ! i" for cmd
    using that assms(2) by (simp add: replace_at_def routing_def upd_conv_take_nth_drop [symmetric] map_update list_update_same_conv)
  with try_at_outcome [OF assms(1)] assms(3) show ?thesis by auto
qed

text \<open>A loop over the commands of a sequence that tries one representable variant of each, on its own instrument.\<close>

definition variant_ok :: "(command \<Rightarrow> command option) \<Rightarrow> bool" where
  "variant_ok variant \<longleftrightarrow> (\<forall>cmd cmd'. variant cmd = Some cmd' \<longrightarrow>
     command_instrument_id cmd' = command_instrument_id cmd \<and> (representable cmd \<longrightarrow> representable cmd'))"

lemma variant_loop_ok:
  assumes "variant_ok variant" and "ev_inv s" and "good s cmds"
  shows "pass_ok s cmds (each_index (\<lambda>(i, cmd) current. try_at (variant cmd) i current) (zip [0..<length cmds] cmds) cmds s)"
proof -
  have "body_ok (\<lambda>(i, cmd) current. try_at (variant cmd) i current) x (length cmds)"
    if "x \<in> set (zip [0..<length cmds] cmds)" for x :: "nat \<times> command"
  proof -
    from that obtain i cmd where x: "x = (i, cmd)" "i < length cmds" "cmd \<in> set cmds"
      by (metis in_set_zipE set_upt atLeastLessThan_iff prod.exhaust)
    have "\<forall>c. variant cmd = Some c \<longrightarrow> representable c"
      using assms(1) goodD(1) [OF assms(3)] x(3) by (auto simp: variant_ok_def list_all_iff)
    with x show ?thesis
      by (intro bodyI) (auto intro: try_at_ok dest: try_at_length)
  qed
  with assms(2,3) show ?thesis by (intro each_index_ok) auto
qed

lemma variant_loop_routed:
  assumes "variant_ok variant" and "\<forall>(i, cmd) \<in> set ps. i < length current \<and> command_instrument_id cmd = routing current ! i"
    and "each_index (\<lambda>(i, cmd) current. try_at (variant cmd) i current) ps current s = (Inr cmds', s')"
  shows "routing cmds' = routing current"
  using assms(2,3)
proof (induction ps arbitrary: current s)
  case (Cons p ps)
  obtain i cmd where p: "p = (i, cmd)" by fastforce
  from Cons.prems(2) p obtain c s1 where step: "try_at (variant cmd) i current s = (Inr c, s1)"
    and rest: "each_index (\<lambda>(i, cmd) current. try_at (variant cmd) i current) ps c s1 = (Inr cmds', s')"
    by (auto simp: bindP_cases split: prod.splits sum.splits)
  have "\<forall>c. variant cmd = Some c \<longrightarrow> command_instrument_id c = routing current ! i"
    using assms(1) Cons.prems(1) p by (auto simp: variant_ok_def)
  with try_at_length [OF step] try_at_routing [OF step] Cons.prems(1) p
  have "length c = length current" "routing c = routing current" by auto
  with Cons.IH [OF _ rest] Cons.prems(1) show ?case by auto
qed simp

lemma variant_pass:
  assumes "variant_ok variant"
    and "\<And>cmds. pass cmds = each_index (\<lambda>(i, cmd) current. try_at (variant cmd) i current) (zip [0..<length cmds] cmds) cmds"
  shows "routed_pass pass"
proof unfold_locales
  show "ev_inv s \<Longrightarrow> good s cmds \<Longrightarrow> pass_ok s cmds (pass cmds s)" for s cmds
    using variant_loop_ok [OF assms(1)] by (simp add: assms(2))
  show "keeps_routing cmds' cmds" if "pass cmds s = (Inr cmds', s')" for cmds cmds' s s'
  proof -
    have "\<forall>(i, cmd) \<in> set (zip [0..<length cmds] cmds). i < length cmds \<and> command_instrument_id cmd = routing cmds ! i"
      by (auto simp: set_zip routing_def)
    from variant_loop_routed [OF assms(1) this that [unfolded assms(2)]] show ?thesis by (simp add: keeps_routing_def)
  qed
qed

lemma unit_quantity_ok: "variant_ok unit_quantity"
proof -
  have "command_instrument_id cmd' = command_instrument_id cmd \<and> (representable cmd \<longrightarrow> representable cmd')"
    if "unit_quantity cmd = Some cmd'" for cmd cmd'
    using that by (cases cmd) (auto simp: bindR_Inr_iff U64_MAX_def split: if_splits)
  then show ?thesis by (simp add: variant_ok_def)
qed

text \<open>The configured ticks are 64-bit: what \<open>MatchingConfig\<close> checks.\<close>

definition ticks_ok :: "(int, instrument_config) dict \<Rightarrow> bool" where
  "ticks_ok configured \<longleftrightarrow> (\<forall>(iid, entry) \<in> set configured.
     1 \<le> tick_increment (ic_matching entry) \<and> tick_increment (ic_matching entry) \<le> I64_MAX)"

lemma configured_tick_range: "ticks_ok configured \<Longrightarrow> 1 \<le> configured_tick configured iid \<and> configured_tick configured iid \<le> I64_MAX"
  by (auto simp: ticks_ok_def configured_tick_def I64_MAX_def dest!: map_of_SomeD split: option.splits)

lemma unit_price_ok:
  assumes "ticks_ok configured"
  shows "variant_ok (unit_price configured)"
proof -
  have "command_instrument_id cmd' = command_instrument_id cmd \<and> (representable cmd \<longrightarrow> representable cmd')"
    if "unit_price configured cmd = Some cmd'" for cmd cmd'
  proof -
    have I64_MIN: "I64_MIN \<le> 1" by (simp add: I64_MIN_def)
    show ?thesis using that configured_tick_range [OF assms, of "command_instrument_id cmd"] I64_MIN
      by (cases cmd) (auto simp: bindR_Inr_iff Let_def split: if_splits option.splits)
  qed
  then show ?thesis by (simp add: variant_ok_def)
qed

interpretation routed_quantities: routed_pass multi_simplify_quantities
  by (rule variant_pass [OF unit_quantity_ok]) (simp add: multi_simplify_quantities_def)

lemma routed_prices: "ticks_ok configured \<Longrightarrow> routed_pass (multi_simplify_prices configured)"
  by (rule variant_pass [OF unit_price_ok]) (simp_all add: multi_simplify_prices_def)

section \<open>The whole reduction\<close>

lemma configured_subset: "set (configured_instruments catalog) \<subseteq> (\<lambda>entry. (ic_instrument_id entry, entry)) ` set catalog"
proof -
  have "set (fold (\<lambda>entry d. dict_setitem (ic_instrument_id entry) entry d) entries d) \<subseteq>
      set d \<union> (\<lambda>entry. (ic_instrument_id entry, entry)) ` set entries" for entries d
  proof (induction entries arbitrary: d)
    case (Cons entry entries)
    have "set (dict_setitem (ic_instrument_id entry) entry d) \<subseteq> insert (ic_instrument_id entry, entry) (set d)"
      by (induction d) (auto simp: dict_setitem_def split: if_splits)
    with Cons.IH [of "dict_setitem (ic_instrument_id entry) entry d"] show ?case by auto
  qed simp
  from this [of catalog "[]"] show ?thesis by (simp add: configured_instruments_def)
qed

lemma configured_ticks:
  assumes "\<forall>entry \<in> set catalog. matching_config_ok (ic_matching entry)"
  shows "ticks_ok (configured_instruments catalog)"
  unfolding ticks_ok_def using configured_subset [of catalog] assms by (fastforce simp: matching_config_ok_def)

lemma multi_steps_routed:
  assumes "ticks_ok configured"
  shows "\<forall>(stage, name) \<in> set (multi_shrink_steps configured). routed_pass stage"
  using routed_prices [OF assms] routed_chunks.routed_pass_axioms routed_individual.routed_pass_axioms
    routed_remap.routed_pass_axioms routed_quantities.routed_pass_axioms
  by (simp add: multi_shrink_steps_def)

lemma multi_steps_ok:
  assumes "ticks_ok configured"
  shows "\<forall>(stage, name) \<in> set (multi_shrink_steps configured). reduction_pass stage"
  using multi_steps_routed [OF assms] by (auto simp: routed_pass_def)

definition multi_stage_names :: "string list" where
  "multi_stage_names = [''chunk_deletion'', ''individual_deletion'', ''global_identifier_remap'', ''quantity_reduction'',
     ''per_instrument_price_reduction'', ''final_deletion'']"

lemma multi_steps_names: "concat (map snd (multi_shrink_steps configured)) = multi_stage_names"
  by (simp add: multi_shrink_steps_def multi_stage_names_def)

lemma shrink_multi_reduction:
  assumes "original \<noteq> []" and "configured_instruments catalog \<noteq> []"
    and "length (configured_instruments catalog) = length catalog"
  shows "shrink_multi_failure sha256 clock original evaluator signature catalog budget =
    reduction sha256 clock original evaluator signature (multi_shrink_steps (configured_instruments catalog)) budget"
  unfolding shrink_multi_failure_def reduction_def Let_def
  using assms by (simp split: prod.splits sum.splits bool.splits)

lemma shrink_multi_checked:
  assumes "shrink_multi_failure sha256 clock original evaluator signature catalog budget = Inr r"
  shows "original \<noteq> []" and "configured_instruments catalog \<noteq> []"
    and "length (configured_instruments catalog) = length catalog"
  using assms by (auto simp: shrink_multi_failure_def Let_def split: if_splits)

section \<open>Properties\<close>

text \<open>
  C32.  The multi-instrument reducer returns a reproducer that keeps the routing.  On representable commands,
  over a catalog of accepted matching configurations and with a budget its constructor accepts, a result is a
  non-empty sequence of representable commands, within the evaluation budget, whose instruments are a
  subsequence of the original's; unless the budget ran out all six stages completed.  The caller's evaluator
  answers the signature on the sequence returned, with two exceptions: it answered the signature on another
  sequence whose command stream has the same digest, a collision of the hash; or the budget ran out before
  the first stage ended, and the original is returned with no stage completed, possibly unverified.
\<close>

theorem multi_shrink_keeps_routing:
  assumes "shrink_multi_failure sha256 clock original evaluator signature catalog budget = Inr r"
    and "list_all representable original" and "\<forall>entry \<in> set catalog. matching_config_ok (ic_matching entry)"
    and "1 \<le> max_evaluations budget"
  shows "sr_commands r \<noteq> [] \<and> list_all representable (sr_commands r) \<and>
    subseq (map command_instrument_id (sr_commands r)) (map command_instrument_id original) \<and>
    0 \<le> sr_evaluations r \<and> sr_evaluations r \<le> max_evaluations budget \<and>
    (sr_budget_exhausted r \<or> sr_completed_stages r = multi_stage_names) \<and>
    ((\<exists>rem. evaluator (sr_commands r) rem = Inr (Some signature)) \<or>
     (\<exists>tried rem. askable (timeout_seconds budget \<noteq> None) tried rem \<and> evaluator tried rem = Inr (Some signature) \<and>
        stream_text tried \<noteq> stream_text (sr_commands r) \<and> sha256 (stream_text tried) = sha256 (stream_text (sr_commands r))) \<or>
     sr_budget_exhausted r \<and> sr_commands r = original \<and> sr_completed_stages r = [])"
proof -
  note c = shrink_multi_checked [OF assms(1)]
  note red = assms(1) [unfolded shrink_multi_reduction [OF c]] and ticks = configured_ticks [OF assms(3)]
  have "\<forall>(stage, name) \<in> set (multi_shrink_steps (configured_instruments catalog)).
      \<forall>c s c' s'. stage c s = (Inr c', s') \<longrightarrow> keeps_routing c' c"
    using multi_steps_routed [OF ticks] by (auto simp: case_prod_unfold dest: routed_pass.routed)
  from reduction_related [OF keeps_routing_order this red]
  have "subseq (map command_instrument_id (sr_commands r)) (map command_instrument_id original)"
    by (simp add: keeps_routing_def routing_def)
  with reduction_reproducer [OF c(1) red assms(2) multi_steps_ok [OF ticks] assms(4)] show ?thesis
    by (simp add: multi_steps_names)
qed

definition routed_command :: "int \<Rightarrow> int \<Rightarrow> command" where
  "routed_command iid i = CancelOrder \<lparr>cancel_client_id = 1, cancel_order_id = i, cancel_instrument_id = iid\<rparr>"

definition routed_evaluator :: "command list \<Rightarrow> rat option \<Rightarrow> int option result" where
  "routed_evaluator cmds remaining =
     Inr (if list_ex (\<lambda>cmd. command_instrument_id cmd = 7) cmds \<and> list_ex (\<lambda>cmd. command_instrument_id cmd = 9) cmds
          then Some 1 else None)"

definition routed_catalog :: "instrument_config list" where
  "routed_catalog = [\<lparr>ic_instrument_id = 7, ic_matching = \<lparr>max_order_quantity = 1000, tick_increment = 1, max_active_orders = 8\<rparr>\<rparr>,
     \<lparr>ic_instrument_id = 9, ic_matching = \<lparr>max_order_quantity = 1000, tick_increment = 5, max_active_orders = 8\<rparr>\<rparr>]"

definition routed_original :: "command list" where
  "routed_original = [routed_command 7 40, routed_command 8 41, routed_command 9 42, routed_command 7 43]"

definition routed_run :: "int shrink_result result" where
  "routed_run = shrink_multi_failure (\<lambda>t. t) (\<lambda>_. 0) routed_original routed_evaluator 1 routed_catalog DEFAULT_BUDGET"

theorem multi_shrink_keeps_routing_witness:
  "\<exists>r. routed_run = Inr r \<and> sr_commands r = [routed_command 9 1, routed_command 7 2] \<and>
     subseq (map command_instrument_id (sr_commands r)) [7, 8, 9, 7] \<and>
     (\<exists>rem. routed_evaluator (sr_commands r) rem = Inr (Some 1))"
proof -
  have "(case routed_run of Inr r \<Rightarrow> sr_commands r = [routed_command 9 1, routed_command 7 2] \<and> \<not> sr_budget_exhausted r
      | Inl _ \<Rightarrow> False)" by code_simp
  then obtain r where r: "routed_run = Inr r" "sr_commands r = [routed_command 9 1, routed_command 7 2]" "\<not> sr_budget_exhausted r"
    by (auto split: sum.splits)
  have ok: "list_all representable routed_original" "\<forall>entry \<in> set routed_catalog. matching_config_ok (ic_matching entry)"
    "1 \<le> max_evaluations DEFAULT_BUDGET"
    by (simp_all add: routed_original_def routed_command_def routed_catalog_def matching_config_ok_def DEFAULT_BUDGET_def
        bindR_Inr_iff width_defs)
  from multi_shrink_keeps_routing [OF r(1) [unfolded routed_run_def] ok] r(3)
  have "\<exists>rem. routed_evaluator (sr_commands r) rem = Inr (Some 1)"
    and "subseq (map command_instrument_id (sr_commands r)) (map command_instrument_id routed_original)" by blast+
  moreover have "map command_instrument_id routed_original = [7, 8, 9, 7]" by (simp add: routed_original_def routed_command_def)
  ultimately show ?thesis using r(1,2) by (intro exI [of _ r] conjI) simp_all
qed

end
