(* ===== verification/Multi_Generation.thy ===== *)
theory Multi_Generation
  imports Generation Py_Text
begin

text \<open>
  The multi-instrument workload generator, \<open>python/src/atlaslob/multi_generation.py\<close>: one single-instrument
  generator per stream, interleaved by a draw among the streams with budget left, their order identifiers
  remapped into one namespace, behind a prologue of commands that exercise the router across instruments.
\<close>

section \<open>Specifications\<close>

definition MULTI_GENERATOR_VERSION :: int where
  "MULTI_GENERATOR_VERSION = 2"

record multi_workload_spec =
  mw_streams :: "workload_spec list"
  mw_engine :: multi_instrument_engine_config

definition multi_command_count :: "multi_workload_spec \<Rightarrow> int" where
  "multi_command_count ms = sum_list (map ws_command_count (mw_streams ms))"

definition multi_catalog :: "multi_workload_spec \<Rightarrow> instrument_config list result" where
  "multi_catalog ms = mapR (\<lambda>stream. InstrumentConfig (ws_instrument_id stream) (ws_engine stream)) (mw_streams ms)"

definition MultiWorkloadSpec :: "workload_spec list \<Rightarrow> multi_instrument_engine_config \<Rightarrow> multi_workload_spec result" where
  "MultiWorkloadSpec streams engine =
     (let instrument_ids = map ws_instrument_id streams; ms = \<lparr>mw_streams = streams, mw_engine = engine\<rparr> in
      if streams = [] then Inl ValueError
      else if instrument_ids \<noteq> sort instrument_ids then Inl ValueError
      else if length instrument_ids \<noteq> card (set instrument_ids) then Inl ValueError
      else if multi_command_count ms > U64_MAX then Inl ValueError
      else Inr ms)"

record generated_multi_command =
  gm_command :: command
  gm_source_instrument_id :: int
  gm_intended_valid :: bool
  gm_intent :: string

section \<open>The identifier remapper\<close>

record identifier_remapper =
  rm_next_order_id :: int
  rm_order_ids :: "(nat \<times> int, int) dict"

definition IdentifierRemapper :: identifier_remapper where
  "IdentifierRemapper = \<lparr>rm_next_order_id = 1, rm_order_ids = []\<rparr>"

definition remap_order_id :: "nat \<Rightarrow> int \<Rightarrow> (identifier_remapper, int) prog" where
  "remap_order_id stream_index v = (\<lambda>rm.
     if v = 0 then (Inr 0, rm)
     else case map_of (rm_order_ids rm) (stream_index, v) of
       Some mapped \<Rightarrow> (Inr mapped, rm)
     | None \<Rightarrow>
         if rm_next_order_id rm > U64_MAX then (Inl OverflowError, rm)
         else
           let mapped = rm_next_order_id rm in
           (Inr mapped, rm\<lparr>rm_next_order_id := mapped + 1,
              rm_order_ids := dict_setitem (stream_index, v) mapped (rm_order_ids rm)\<rparr>))"

definition reserve_id :: "(identifier_remapper, int) prog" where
  "reserve_id = (\<lambda>rm.
     if rm_next_order_id rm > U64_MAX then (Inl OverflowError, rm)
     else (Inr (rm_next_order_id rm), rm\<lparr>rm_next_order_id := rm_next_order_id rm + 1\<rparr>))"

definition remapped_instrument :: "int \<Rightarrow> int \<Rightarrow> int \<Rightarrow> int" where
  "remapped_instrument source unknown iid = (if iid \<in> {0, source} then iid else unknown)"

definition remap_generated :: "nat \<Rightarrow> int \<Rightarrow> int \<Rightarrow> generated_command \<Rightarrow> (identifier_remapper, command) prog" where
  "remap_generated k source unknown generated =
     (case gc_command generated of
        NewOrder c \<Rightarrow>
          bindP (remap_order_id k (new_order_id c)) (\<lambda>oid.
          ret (NewOrder (c\<lparr>new_order_id := oid, new_instrument_id := remapped_instrument source unknown (new_instrument_id c)\<rparr>)))
      | CancelOrder c \<Rightarrow>
          bindP (remap_order_id k (cancel_order_id c)) (\<lambda>oid.
          ret (CancelOrder (c\<lparr>cancel_order_id := oid, cancel_instrument_id := remapped_instrument source unknown (cancel_instrument_id c)\<rparr>)))
      | ReplaceOrder c \<Rightarrow>
          bindP (remap_order_id k (rep_old_order_id c)) (\<lambda>old_id.
          bindP (remap_order_id k (rep_new_order_id c)) (\<lambda>new_id.
          ret (ReplaceOrder (c\<lparr>rep_old_order_id := old_id, rep_new_order_id := new_id,
                 rep_instrument_id := remapped_instrument source unknown (rep_instrument_id c)\<rparr>)))))"

text \<open>\<open>_unknown_instrument\<close>: the least instrument that is not configured.\<close>

function unknown_from :: "int \<Rightarrow> int set \<Rightarrow> int result" where
  "unknown_from candidate configured =
     (if candidate > U32_MAX then Inl ValueError
      else if candidate \<notin> configured then Inr candidate
      else unknown_from (candidate + 1) configured)"
  by pat_completeness auto

termination
  by (relation "measure (\<lambda>(candidate, configured). nat (U32_MAX + 1 - candidate))") auto

declare unknown_from.simps [simp del]

definition unknown_instrument :: "int set \<Rightarrow> int result" where
  "unknown_instrument configured = unknown_from 1 configured"

section \<open>The prologue\<close>

definition special :: "command \<Rightarrow> int \<Rightarrow> bool \<Rightarrow> string \<Rightarrow> generated_multi_command" where
  "special cmd source intended_valid intent =
     \<lparr>gm_command = cmd, gm_source_instrument_id = source, gm_intended_valid = intended_valid, gm_intent = intent\<rparr>"

text \<open>\<open>NewOrder(client_id, order_id, instrument_id, 1, 1, 1, price, 1)\<close> and the two other commands, by position.\<close>

definition unit_order :: "int \<Rightarrow> int \<Rightarrow> int \<Rightarrow> int \<Rightarrow> command" where
  "unit_order client oid iid price =
     NewOrder \<lparr>new_client_id = client, new_order_id = oid, new_instrument_id = iid, new_side = 1, new_order_type = 1,
       new_time_in_force = 1, new_limit_price = Some price, new_quantity = 1\<rparr>"

definition unit_cancel :: "int \<Rightarrow> int \<Rightarrow> int \<Rightarrow> command" where
  "unit_cancel client oid iid = CancelOrder \<lparr>cancel_client_id = client, cancel_order_id = oid, cancel_instrument_id = iid\<rparr>"

definition unit_replace :: "int \<Rightarrow> int \<Rightarrow> int \<Rightarrow> int \<Rightarrow> int \<Rightarrow> command" where
  "unit_replace client old_id new_id iid price =
     ReplaceOrder \<lparr>rep_client_id = client, rep_old_order_id = old_id, rep_new_order_id = new_id, rep_instrument_id = iid,
       rep_new_limit_price = price, rep_new_quantity = 1\<rparr>"

definition capacity_zero_special ::
  "multi_workload_spec \<Rightarrow> workload_spec \<Rightarrow> (identifier_remapper, generated_multi_command list) prog" where
  "capacity_zero_special ms first =
     (if max_total_active_orders (mw_engine ms) \<noteq> 0 \<or> multi_command_count ms < 1 then ret []
      else
        bindP reserve_id (\<lambda>oid.
        ret [special (unit_order 1 oid (ws_instrument_id first) (tick_increment (ws_engine first)))
               (ws_instrument_id first) False ''multi/global_capacity_exceeded'']))"

definition open_streams :: "workload_spec list \<Rightarrow> int list \<Rightarrow> nat list" where
  "open_streams streams counts =
     filter (\<lambda>i. counts ! i < max_active_orders (ws_engine (streams ! i))) [0..<length streams]"

text \<open>\<open>for _ in range(capacity)\<close>; \<open>None\<close> is the early \<open>return ()\<close>.\<close>

fun fill_capacity ::
  "workload_spec list \<Rightarrow> int \<Rightarrow> nat \<Rightarrow> int list \<Rightarrow> (nat \<times> int) list \<Rightarrow> generated_multi_command list \<Rightarrow>
   (identifier_remapper, (int list \<times> (nat \<times> int) list \<times> generated_multi_command list) option) prog" where
  "fill_capacity streams client 0 counts fills cmds = ret (Some (counts, fills, cmds))"
| "fill_capacity streams client (Suc n) counts fills cmds =
     (let available = open_streams streams counts in
      if available = [] then ret None
      else
        let k = available ! (length fills mod length available); stream = streams ! k; iid = ws_instrument_id stream in
        bindP reserve_id (\<lambda>oid.
        fill_capacity streams client n (counts[k := counts ! k + 1]) (fills @ [(k, oid)])
          (cmds @ [special (unit_order client oid iid (tick_increment (ws_engine stream))) iid True ''multi/global_capacity_fill''])))"

definition binding_capacity_specials ::
  "multi_workload_spec \<Rightarrow> workload_spec \<Rightarrow> workload_spec \<Rightarrow> int \<Rightarrow> (identifier_remapper, generated_multi_command list) prog" where
  "binding_capacity_specials ms first second client =
     (let capacity = max_total_active_orders (mw_engine ms); streams = [first, second] in
      if \<not> (1 \<le> capacity \<and> capacity \<le> 8) then ret []
      else
        bindP (fill_capacity streams client (nat capacity) [0, 0] [] []) (\<lambda>filled.
        case filled of
          None \<Rightarrow> ret []
        | Some (counts, fills, cmds) \<Rightarrow>
           (case open_streams streams counts of
              [] \<Rightarrow> ret []
            | k # _ \<Rightarrow>
                let stream = streams ! k; iid = ws_instrument_id stream in
                bindP reserve_id (\<lambda>oid.
                ret (cmds @
                  [special (unit_order client oid iid (tick_increment (ws_engine stream))) iid False ''multi/global_capacity_exceeded''] @
                  map (\<lambda>(i, oid). let iid = ws_instrument_id (streams ! i) in
                    special (unit_cancel client oid iid) iid True ''multi/global_capacity_cleanup'') fills)))))"

definition cross_identity :: "workload_spec \<Rightarrow> workload_spec \<Rightarrow> int \<Rightarrow> int \<Rightarrow> generated_multi_command list" where
  "cross_identity first second shared_id replacement_id =
     (let client = 1; wrong_client = 2; first_price = tick_increment (ws_engine first);
          second_price = tick_increment (ws_engine second); one = ws_instrument_id first; two = ws_instrument_id second in
      [special (unit_order client shared_id one first_price) one True ''multi/cross_book_identity_seed'',
       special (unit_order client shared_id two second_price) two False ''multi/cross_book_duplicate_id'',
       special (unit_cancel wrong_client shared_id two) two False ''multi/routed_cancel_ownership_precedence'',
       special (unit_cancel client shared_id two) two False ''multi/routed_cancel_instrument_mismatch'',
       special (unit_replace wrong_client shared_id replacement_id two second_price) two False
         ''multi/routed_replace_ownership_precedence'',
       special (unit_replace client shared_id replacement_id two second_price) two False
         ''multi/routed_replace_instrument_mismatch'',
       special (unit_cancel client shared_id one) one True ''multi/terminal_before_cross_instrument_reuse'',
       special (unit_order client shared_id two second_price) two True ''multi/cross_instrument_terminal_id_reuse'',
       special (unit_cancel client shared_id two) two True ''multi/terminal_reuse_cleanup''])"

definition build_special_commands :: "multi_workload_spec \<Rightarrow> (identifier_remapper, generated_multi_command list) prog" where
  "build_special_commands ms =
     (case mw_streams ms of
        first # second # _ \<Rightarrow>
          if max_active_orders (ws_engine first) < 1 \<or> max_active_orders (ws_engine second) < 1 \<or>
             max_total_active_orders (mw_engine ms) < 1
          then capacity_zero_special ms first
          else
            bindP reserve_id (\<lambda>shared_id.
            bindP reserve_id (\<lambda>replacement_id.
            let cross = cross_identity first second shared_id replacement_id in
            if int (length cross) > multi_command_count ms then ret []
            else
              bindP (binding_capacity_specials ms first second 1) (\<lambda>capacity.
              ret (cross @ (if int (length cross) + int (length capacity) > multi_command_count ms then [] else capacity)))))
      | _ \<Rightarrow> ret [])"

section \<open>Stream budgets\<close>

text \<open>
  \<open>_consume_stream_budget\<close> takes the prologue out of the streams' budgets, one command at a time in turn.  The
  loop has no exit of its own when the budgets are used up: not returning is \<open>None\<close>.
\<close>

partial_function (option) consume_stream_budget :: "nat \<Rightarrow> nat \<Rightarrow> nat list \<Rightarrow> nat list option" where
  "consume_stream_budget remaining index budgets =
     (if remaining = 0 then Some budgets
      else
        let k = index mod length budgets in
        if budgets ! k \<noteq> 0
        then consume_stream_budget (remaining - 1) (index + 1) (budgets[k := budgets ! k - 1])
        else consume_stream_budget remaining (index + 1) budgets)"

declare consume_stream_budget.simps [code]

section \<open>The generator\<close>

record multi_generator =
  mg_spec :: multi_workload_spec
  mg_rng :: "64 word"
  mg_streams :: "workload_generator list"
  mg_remaining :: "nat list"
  mg_remapper :: identifier_remapper
  mg_unknown_instrument :: int
  mg_special_commands :: "generated_multi_command list"
  mg_special_index :: nat
  mg_count :: int
  mg_intended_valid :: int
  mg_intended_invalid :: int
  mg_new_orders :: int
  mg_cancels :: int
  mg_replaces :: int
  mg_intents :: "(string, int) dict"

fun start_streams :: "workload_spec list \<Rightarrow> (64 word, workload_generator list) prog" where
  "start_streams [] = ret []"
| "start_streams (stream # streams) =
     bindP (\<lambda>s. case next_u64 s of (seed, s') \<Rightarrow> (Inr seed, s')) (\<lambda>seed.
     bindP (liftP (WorkloadGenerator stream seed)) (\<lambda>g.
     bindP (start_streams streams) (\<lambda>gs. ret (g # gs))))"

text \<open>\<open>__init__\<close> up to the consumption of the budgets.\<close>

definition multi_prepare :: "multi_workload_spec \<Rightarrow> int \<Rightarrow> multi_generator result" where
  "multi_prepare ms seed =
     bindR (require_int seed 0 U64_MAX) (\<lambda>_.
     bindR (SplitMix64 seed) (\<lambda>rng0.
     case start_streams (mw_streams ms) rng0 of
       (Inl e, _) \<Rightarrow> Inl e
     | (Inr gens, rng) \<Rightarrow>
         bindR (unknown_instrument (set (map ws_instrument_id (mw_streams ms)))) (\<lambda>unknown.
         case build_special_commands ms IdentifierRemapper of
           (Inl e, _) \<Rightarrow> Inl e
         | (Inr specials, remapper) \<Rightarrow>
             Inr \<lparr>mg_spec = ms, mg_rng = rng, mg_streams = gens,
                  mg_remaining = map (nat \<circ> ws_command_count) (mw_streams ms), mg_remapper = remapper,
                  mg_unknown_instrument = unknown, mg_special_commands = specials, mg_special_index = 0,
                  mg_count = 0, mg_intended_valid = 0, mg_intended_invalid = 0, mg_new_orders = 0, mg_cancels = 0,
                  mg_replaces = 0, mg_intents = []\<rparr>)))"

definition MultiWorkloadGenerator :: "multi_workload_spec \<Rightarrow> int \<Rightarrow> multi_generator result option" where
  "MultiWorkloadGenerator ms seed =
     (case multi_prepare ms seed of
        Inl e \<Rightarrow> Some (Inl e)
      | Inr g \<Rightarrow> map_option (\<lambda>budgets. Inr (g\<lparr>mg_remaining := budgets\<rparr>))
          (consume_stream_budget (length (mg_special_commands g)) 0 (mg_remaining g)))"

definition record_multi :: "generated_multi_command \<Rightarrow> multi_generator \<Rightarrow> multi_generator" where
  "record_multi gm g =
     (let g1 = g\<lparr>mg_count := mg_count g + 1\<rparr>;
          g2 = (if gm_intended_valid gm then g1\<lparr>mg_intended_valid := mg_intended_valid g1 + 1\<rparr>
                else g1\<lparr>mg_intended_invalid := mg_intended_invalid g1 + 1\<rparr>);
          g3 = g2\<lparr>mg_intents := dict_setitem (gm_intent gm) (dict_get_default (mg_intents g2) (gm_intent gm) 0 + 1) (mg_intents g2)\<rparr> in
      case gm_command gm of
        NewOrder _ \<Rightarrow> g3\<lparr>mg_new_orders := mg_new_orders g3 + 1\<rparr>
      | CancelOrder _ \<Rightarrow> g3\<lparr>mg_cancels := mg_cancels g3 + 1\<rparr>
      | ReplaceOrder _ \<Rightarrow> g3\<lparr>mg_replaces := mg_replaces g3 + 1\<rparr>)"

definition available_streams :: "multi_generator \<Rightarrow> nat list" where
  "available_streams g = filter (\<lambda>i. mg_remaining g ! i \<noteq> 0) [0..<length (mg_remaining g)]"

definition on_multi_rng :: "(64 word, 'a) prog \<Rightarrow> (multi_generator, 'a) prog" where
  "on_multi_rng m g = (case m (mg_rng g) of (r, s) \<Rightarrow> (r, g\<lparr>mg_rng := s\<rparr>))"

definition on_stream :: "nat \<Rightarrow> (workload_generator, 'a) prog \<Rightarrow> (multi_generator, 'a) prog" where
  "on_stream k m g = (case m (mg_streams g ! k) of (r, s) \<Rightarrow> (r, g\<lparr>mg_streams := (mg_streams g)[k := s]\<rparr>))"

definition on_remapper :: "(identifier_remapper, 'a) prog \<Rightarrow> (multi_generator, 'a) prog" where
  "on_remapper m g = (case m (mg_remapper g) of (r, s) \<Rightarrow> (r, g\<lparr>mg_remapper := s\<rparr>))"

text \<open>One command of the stream that was drawn.\<close>

definition stream_command :: "nat \<Rightarrow> (multi_generator, generated_multi_command) prog" where
  "stream_command k =
     bindP (on_stream k next_generated) (\<lambda>generated.
     seqP (modifyP (\<lambda>g. g\<lparr>mg_remaining := (mg_remaining g)[k := mg_remaining g ! k - 1]\<rparr>))
    (bindP (getsP (\<lambda>g. (ws_instrument_id (mw_streams (mg_spec g) ! k), mg_unknown_instrument g))) (\<lambda>(source, unknown).
     bindP (on_remapper (remap_generated k source unknown generated)) (\<lambda>cmd.
     ret \<lparr>gm_command = cmd, gm_source_instrument_id = source, gm_intended_valid = gc_intended_valid generated,
          gm_intent = ''instrument_'' @ py_str source @ ''/'' @ gc_intent generated\<rparr>))))"

definition multi_next :: "(multi_generator, generated_multi_command) prog" where
  "multi_next g =
     (if mg_special_index g < length (mg_special_commands g)
      then
        let output = mg_special_commands g ! mg_special_index g in
        (Inr output, record_multi output (g\<lparr>mg_special_index := mg_special_index g + 1\<rparr>))
      else
        let available = available_streams g in
        if available = [] then (Inl StopIteration, g)
        else
          bindP (on_multi_rng (randbelow (int (length available)))) (\<lambda>r.
          bindP (stream_command (available ! nat r)) (\<lambda>output.
          seqP (modifyP (record_multi output)) (ret output))) g)"

definition multi_stats :: "multi_generator \<Rightarrow> generation_stats" where
  "multi_stats g =
     \<lparr>st_command_count = mg_count g, st_intended_valid = mg_intended_valid g, st_intended_invalid = mg_intended_invalid g,
      st_new_orders = mg_new_orders g, st_cancels = mg_cancels g, st_replaces = mg_replaces g,
      st_intents = sort (mg_intents g)\<rparr>"

section \<open>Draining the iterator\<close>

lemma record_multi_frame [simp]:
  "mg_spec (record_multi gm g) = mg_spec g" "mg_rng (record_multi gm g) = mg_rng g"
  "mg_streams (record_multi gm g) = mg_streams g" "mg_remaining (record_multi gm g) = mg_remaining g"
  "mg_remapper (record_multi gm g) = mg_remapper g" "mg_unknown_instrument (record_multi gm g) = mg_unknown_instrument g"
  "mg_special_commands (record_multi gm g) = mg_special_commands g" "mg_special_index (record_multi gm g) = mg_special_index g"
  by (simp_all add: record_multi_def Let_def split: command.splits)

lemma stream_command_cases:
  assumes "stream_command k g = (Inr gm, g')"
  obtains generated b cmd rm where "next_generated (mg_streams g ! k) = (Inr generated, b)"
    "remap_generated k (ws_instrument_id (mw_streams (mg_spec g) ! k)) (mg_unknown_instrument g) generated (mg_remapper g) = (Inr cmd, rm)"
    "gm = \<lparr>gm_command = cmd, gm_source_instrument_id = ws_instrument_id (mw_streams (mg_spec g) ! k),
       gm_intended_valid = gc_intended_valid generated,
       gm_intent = ''instrument_'' @ py_str (ws_instrument_id (mw_streams (mg_spec g) ! k)) @ ''/'' @ gc_intent generated\<rparr>"
    "g' = g\<lparr>mg_streams := (mg_streams g)[k := b], mg_remaining := (mg_remaining g)[k := mg_remaining g ! k - 1], mg_remapper := rm\<rparr>"
  using assms unfolding stream_command_def
  by (auto simp: on_stream_def on_remapper_def modifyP_def getsP_def elim!: bindP_InrE seqP_InrE split: prod.splits)

text \<open>What the iterator has left: the prologue behind the index and the budgets.\<close>

definition multi_left :: "multi_generator \<Rightarrow> nat" where
  "multi_left g = (length (mg_special_commands g) - mg_special_index g) + sum_list (mg_remaining g)"

lemma available_streams_iff [simp]: "k \<in> set (available_streams g) \<longleftrightarrow> k < length (mg_remaining g) \<and> mg_remaining g ! k \<noteq> 0"
  by (auto simp: available_streams_def)

lemma multi_next_cases:
  assumes "multi_next g = (Inr gm, g')"
  obtains (prologue) "mg_special_index g < length (mg_special_commands g)" "gm = mg_special_commands g ! mg_special_index g"
      "g' = record_multi gm (g\<lparr>mg_special_index := mg_special_index g + 1\<rparr>)"
  | (stream) r s k g1 where "\<not> mg_special_index g < length (mg_special_commands g)" "available_streams g \<noteq> []"
      "randbelow (int (length (available_streams g))) (mg_rng g) = (Inr r, s)" "k = available_streams g ! nat r"
      "stream_command k (g\<lparr>mg_rng := s\<rparr>) = (Inr gm, g1)" "g' = record_multi gm g1"
proof (cases "mg_special_index g < length (mg_special_commands g)")
  case True
  with assms prologue show thesis by (auto simp: multi_next_def Let_def)
next
  case False
  with assms have ne: "available_streams g \<noteq> []" by (auto simp: multi_next_def Let_def)
  from assms False ne have "bindP (on_multi_rng (randbelow (int (length (available_streams g))))) (\<lambda>r.
      bindP (stream_command (available_streams g ! nat r)) (\<lambda>output. seqP (modifyP (record_multi output)) (ret output))) g = (Inr gm, g')"
    by (simp add: multi_next_def Let_def)
  with stream [OF False ne] show thesis
    by (auto simp: on_multi_rng_def elim!: bindP_InrE split: prod.splits)
qed

lemma randbelow_below:
  assumes "randbelow n s = (Inr r, s')"
  shows "0 \<le> r \<and> r < n"
proof (cases "1 \<le> n \<and> n \<le> 2 ^ 64")
  case True
  with randbelow_returns [of n s] assms show ?thesis by auto
next
  case False
  with assms show ?thesis by (subst (asm) randbelow.simps) auto
qed

lemma drawn_available:
  assumes "randbelow (int (length (available_streams g))) s = (Inr r, s')"
  shows "available_streams g ! nat r \<in> set (available_streams g)"
  using randbelow_below [OF assms] by (intro nth_mem) auto

lemma sum_list_decrement: "k < length xs \<Longrightarrow> xs ! k \<noteq> (0 :: nat) \<Longrightarrow> Suc (sum_list (xs[k := xs ! k - 1])) = sum_list xs"
proof (induction xs arbitrary: k)
  case (Cons x xs)
  then show ?case by (cases k) auto
qed simp

lemma multi_next_left:
  assumes "multi_next g = (Inr gm, g')"
  shows "Suc (multi_left g') = multi_left g"
  using assms
proof (cases rule: multi_next_cases)
  case (stream r s k g1)
  have "k \<in> set (available_streams g)" using drawn_available [OF stream(3)] stream(4) by simp
  then have "Suc (sum_list ((mg_remaining g)[k := mg_remaining g ! k - 1])) = sum_list (mg_remaining g)"
    by (intro sum_list_decrement) auto
  with stream(5,6) show ?thesis by (auto simp: multi_left_def elim!: stream_command_cases)
qed (simp add: multi_left_def)

text \<open>\<open>for generated in MultiWorkloadGenerator(spec, seed)\<close>.\<close>

function multi_drain :: "multi_generator \<Rightarrow> generated_multi_command list result \<times> multi_generator" where
  "multi_drain g =
     (case multi_next g of
        (Inl e, g') \<Rightarrow> (if e = StopIteration then Inr [] else Inl e, g')
      | (Inr gm, g') \<Rightarrow> (case multi_drain g' of (Inl e, g'') \<Rightarrow> (Inl e, g'') | (Inr gms, g'') \<Rightarrow> (Inr (gm # gms), g'')))"
  by pat_completeness auto

termination
  by (relation "measure multi_left") (auto dest!: sym [of _ "multi_next _"] multi_next_left)

declare multi_drain.simps [simp del]

definition iter_multi_generated :: "multi_workload_spec \<Rightarrow> int \<Rightarrow> multi_generator result option" where
  "iter_multi_generated ms seed = MultiWorkloadGenerator ms seed"

definition iter_multi_commands :: "multi_workload_spec \<Rightarrow> int \<Rightarrow> command list result option" where
  "iter_multi_commands ms seed =
     map_option (\<lambda>gen. bindR gen (\<lambda>g. bindR (fst (multi_drain g)) (\<lambda>gms. Inr (map gm_command gms))))
       (iter_multi_generated ms seed)"

end
