(* ===== verification/Venue_Renaming.thy ===== *)
theory Venue_Renaming
  imports Router_Properties Shadow_Refinement
begin

text \<open>
  The price-time specification does not depend on the choice of order identifiers: renaming them injectively
  in a book and in a command renames the book afterwards and nothing else.  The second half of the theory is
  about a venue: a command whose identifiers no other book holds, on an instrument of the venue with room to
  spare, is one step of its own book.
\<close>

section \<open>Renamed books and commands\<close>

definition rename_order :: "(int \<Rightarrow> int) \<Rightarrow> order \<Rightarrow> order" where
  "rename_order f ord = ord\<lparr>ord_order_id := f (ord_order_id ord)\<rparr>"

definition rename_view :: "(int \<Rightarrow> int) \<Rightarrow> view \<Rightarrow> view" where
  "rename_view f v = (\<lambda>sd. map (rename_order f) (v sd))"

definition rename_new :: "(int \<Rightarrow> int) \<Rightarrow> new_order \<Rightarrow> new_order" where
  "rename_new f ord = ord\<lparr>new_order_id := f (new_order_id ord)\<rparr>"

fun rename_ids :: "(int \<Rightarrow> int) \<Rightarrow> command \<Rightarrow> command" where
  "rename_ids f (NewOrder ord) = NewOrder (rename_new f ord)"
| "rename_ids f (CancelOrder ord) = CancelOrder (ord\<lparr>cancel_order_id := f (cancel_order_id ord)\<rparr>)"
| "rename_ids f (ReplaceOrder ord) = ReplaceOrder (ord\<lparr>rep_old_order_id := f (rep_old_order_id ord), rep_new_order_id := f (rep_new_order_id ord)\<rparr>)"

fun ids_of :: "command \<Rightarrow> int set" where
  "ids_of (NewOrder ord) = {new_order_id ord}"
| "ids_of (CancelOrder ord) = {cancel_order_id ord}"
| "ids_of (ReplaceOrder ord) = {rep_old_order_id ord, rep_new_order_id ord}"

definition view_ids :: "view \<Rightarrow> int set" where
  "view_ids v = ord_order_id ` set (view_orders v)"

lemma rename_order_fields [simp]:
  "ord_order_id (rename_order f ord) = f (ord_order_id ord)" "ord_client_id (rename_order f ord) = ord_client_id ord"
  "ord_instrument_id (rename_order f ord) = ord_instrument_id ord" "ord_side (rename_order f ord) = ord_side ord"
  "ord_price (rename_order f ord) = ord_price ord" "ord_priority_sequence (rename_order f ord) = ord_priority_sequence ord"
  "ord_remaining_quantity (rename_order f ord) = ord_remaining_quantity ord"
  "reduced x (rename_order f ord) = rename_order f (reduced x ord)" "rank sd (rename_order f ord) = rank sd ord"
  by (simp_all add: rename_order_def reduced_def rank_def)

lemma rename_new_fields [simp]:
  "new_order_id (rename_new f ord) = f (new_order_id ord)" "new_limit_price (rename_new f ord) = new_limit_price ord"
  "new_quantity (rename_new f ord) = new_quantity ord" "new_side (rename_new f ord) = new_side ord"
  "new_instrument_id (rename_new f ord) = new_instrument_id ord" "new_client_id (rename_new f ord) = new_client_id ord"
  "residual_rests (rename_new f ord) n = residual_rests ord n"
  "rested_order (rename_new f ord) sd p n sq = rename_order f (rested_order ord sd p n sq)"
  "command_instrument_id (rename_ids f cmd) = command_instrument_id cmd"
  by (simp_all add: rename_new_def residual_rests_def rested_order_def rename_order_def) (cases cmd, simp_all add: rename_new_def)

lemma rename_view_app [simp]: "rename_view f v sd = map (rename_order f) (v sd)"
  by (simp add: rename_view_def)

lemma rename_view_upd: "rename_view f (v(sd := os)) = (rename_view f v)(sd := map (rename_order f) os)"
  by (auto simp: rename_view_def)

lemma rename_view_cong:
  assumes "\<forall>i \<in> view_ids v. f i = g i"
  shows "rename_view f v = rename_view g v"
proof
  show "rename_view f v sd = rename_view g v sd" for sd
    using assms by (cases sd) (auto simp: view_ids_def view_orders_def rename_order_def)
qed

lemma in_view_ids: "ord \<in> set (v sd) \<Longrightarrow> ord_order_id ord \<in> view_ids v"
  by (cases sd) (auto simp: view_ids_def view_orders_def)

lemma view_idsE: "i \<in> view_ids v \<Longrightarrow> (\<And>sd ord. ord \<in> set (v sd) \<Longrightarrow> ord_order_id ord = i \<Longrightarrow> P) \<Longrightarrow> P"
  by (auto simp: view_ids_def view_orders_def)

section \<open>The specification commutes with renaming\<close>

lemma spec_match_rename:
  "spec_match crossing n (map (rename_order f) os) =
     (case spec_match crossing n os of (fills, n', os') \<Rightarrow> (map (apfst (rename_order f)) fills, n', map (rename_order f) os'))"
  by (induction os arbitrary: n) (auto split: prod.splits)

lemma spec_insert_rename:
  "spec_insert sd (rename_order f ord) (map (rename_order f) os) = map (rename_order f) (spec_insert sd ord os)"
  by (simp add: spec_insert_def Let_def takeWhile_map dropWhile_map comp_def)

lemma spec_add_rename:
  "spec_add sd (rename_new f ord) sq (rename_view f v) =
     (case spec_add sd ord sq v of (fills, n, v') \<Rightarrow> (map (apfst (rename_order f)) fills, n, rename_view f v'))"
  by (auto simp: spec_add_def Let_def spec_match_rename rename_view_upd spec_insert_rename split: prod.splits option.splits)

lemma level_quantity_rename [simp]: "level_quantity (map (rename_order f) os) p = level_quantity os p"
  by (induction os) auto

lemma fits_rename [simp]: "fits c sd limit (rename_view f v) = fits c sd limit v"
  by (simp add: fits_def split: option.splits)

lemma spec_fits_rename [simp]: "spec_fits c sd (rename_new f ord) sq (rename_view f v) = spec_fits c sd ord sq v"
  by (auto simp: spec_fits_def spec_add_rename split: prod.splits)

lemma spec_remove_rename:
  assumes "inj_on f (insert i (view_ids v))"
  shows "spec_remove_order (f i) (rename_view f v) = rename_view f (spec_remove_order i v)"
proof
  fix sd
  have "f (ord_order_id ord) \<noteq> f i \<longleftrightarrow> ord_order_id ord \<noteq> i" if "ord \<in> set (v sd)" for ord
    using inj_onD [OF assms, of "ord_order_id ord" i] in_view_ids [of ord v sd, OF that] by auto
  then show "spec_remove_order (f i) (rename_view f v) sd = rename_view f (spec_remove_order i v) sd"
    by (auto simp: spec_remove_order_def spec_remove_def filter_map comp_def intro!: map_cong filter_cong)
qed

lemma find_order_rename:
  assumes "inj_on f (insert i (view_ids v))"
  shows "find_order (f i) (rename_view f v) = map_option (rename_order f) (find_order i v)"
proof -
  have "f (ord_order_id ord) = f i \<longleftrightarrow> ord_order_id ord = i" if "ord \<in> set (v BUY @ v SELL)" for ord
    using inj_onD [OF assms, of "ord_order_id ord" i] that in_view_ids [of ord v] by auto
  then have "List.find (\<lambda>ord. ord_order_id ord = f i) (map (rename_order f) os) =
      map_option (rename_order f) (List.find (\<lambda>ord. ord_order_id ord = i) os)" if "set os \<subseteq> set (v BUY @ v SELL)" for os
    using that by (induction os) auto
  from this [of "v BUY @ v SELL"] show ?thesis by (simp add: find_order_def)
qed

lemma replacement_rename [simp]:
  "replacement_order (cmd\<lparr>rep_old_order_id := i, rep_new_order_id := f (rep_new_order_id cmd)\<rparr>) (rename_order f old) =
     rename_new f (replacement_order cmd old)"
  by (simp add: replacement_order_def rename_new_def)

definition renames :: "(int \<Rightarrow> int) \<Rightarrow> command \<Rightarrow> view \<Rightarrow> bool" where
  "renames f cmd v \<longleftrightarrow> f 0 = 0 \<and> inj_on f (insert 0 (ids_of cmd \<union> view_ids v))"

lemma renamesD:
  assumes "renames f cmd v" and "i \<in> ids_of cmd"
  shows "f i = 0 \<longleftrightarrow> i = 0" and "j \<in> ids_of cmd \<Longrightarrow> f i = f j \<longleftrightarrow> i = j" and "inj_on f (insert i (view_ids v))"
proof -
  have inj: "inj_on f (insert 0 (ids_of cmd \<union> view_ids v))" and z: "f 0 = 0" using assms(1) unfolding renames_def by blast+
  show "f i = 0 \<longleftrightarrow> i = 0" using inj_on_eq_iff [OF inj, of i 0] assms(2) z by simp
  show "j \<in> ids_of cmd \<Longrightarrow> f i = f j \<longleftrightarrow> i = j" using inj_on_eq_iff [OF inj, of i j] assms(2) by simp
  show "inj_on f (insert i (view_ids v))" by (rule inj_on_subset [OF inj]) (use assms(2) in auto)
qed

lemma shape_rename:
  assumes "renames f cmd v"
  shows "cmd = NewOrder c \<Longrightarrow> validate_new_shape (rename_new f c) = validate_new_shape c"
    and "cmd = CancelOrder d \<Longrightarrow> validate_cancel_shape (d\<lparr>cancel_order_id := f (cancel_order_id d)\<rparr>) = validate_cancel_shape d"
    and "cmd = ReplaceOrder e \<Longrightarrow> validate_replace_shape (e\<lparr>rep_old_order_id := f (rep_old_order_id e),
      rep_new_order_id := f (rep_new_order_id e)\<rparr>) = validate_replace_shape e"
proof -
  note z = renamesD(1) [OF assms]
  show "cmd = NewOrder c \<Longrightarrow> validate_new_shape (rename_new f c) = validate_new_shape c"
    using z [of "new_order_id c"] by (simp add: validate_new_shape_def rename_new_def)
  show "cmd = CancelOrder d \<Longrightarrow> validate_cancel_shape (d\<lparr>cancel_order_id := f (cancel_order_id d)\<rparr>) = validate_cancel_shape d"
    using z [of "cancel_order_id d"] by (simp add: validate_cancel_shape_def)
  assume e: "cmd = ReplaceOrder e"
  have "f (rep_old_order_id e) = f (rep_new_order_id e) \<longleftrightarrow> rep_old_order_id e = rep_new_order_id e"
    by (rule renamesD(2) [OF assms]) (simp_all add: e)
  with e z [of "rep_old_order_id e"] z [of "rep_new_order_id e"] show "validate_replace_shape (e\<lparr>rep_old_order_id := f (rep_old_order_id e),
      rep_new_order_id := f (rep_new_order_id e)\<rparr>) = validate_replace_shape e"
    by (simp add: validate_replace_shape_def)
qed

lemma accepts_rename:
  assumes "renames f cmd v"
  shows "accepts c iid (rename_ids f cmd) sq (rename_view f v) = accepts c iid cmd sq v"
proof (cases cmd)
  case (NewOrder ord)
  have "inj_on f (insert (new_order_id ord) (view_ids v))" by (rule renamesD(3) [OF assms]) (simp add: NewOrder)
  from find_order_rename [OF this] shape_rename(1) [OF assms NewOrder] show ?thesis
    by (simp add: NewOrder accepts_new_def)
next
  case (CancelOrder ord)
  have "inj_on f (insert (cancel_order_id ord) (view_ids v))" by (rule renamesD(3) [OF assms]) (simp add: CancelOrder)
  from find_order_rename [OF this] shape_rename(2) [OF assms CancelOrder] show ?thesis
    by (simp add: CancelOrder accepts_cancel_def split: option.split)
next
  case (ReplaceOrder ord)
  have inj: "inj_on f (insert (rep_old_order_id ord) (view_ids v))" "inj_on f (insert (rep_new_order_id ord) (view_ids v))"
    by (rule renamesD(3) [OF assms], simp add: ReplaceOrder)+
  note same = find_order_rename [OF inj(1)] find_order_rename [OF inj(2)] spec_remove_rename [OF inj(1)]
    shape_rename(3) [OF assms ReplaceOrder]
  show ?thesis
    by (cases "find_order (rep_old_order_id ord) v") (simp_all add: ReplaceOrder accepts_replace_def same)
qed

lemma spec_step_rename:
  assumes "renames f cmd v"
  shows "snd (spec_step c iid (rename_ids f cmd) sq (rename_view f v)) = rename_view f (snd (spec_step c iid cmd sq v))"
proof (cases "accepts c iid cmd sq v")
  case False
  with accepts_rename [OF assms, of c iid sq] have "\<not> accepts c iid (rename_ids f cmd) sq (rename_view f v)" by simp
  from spec_step_rejects [OF this] spec_step_rejects [OF False] show ?thesis by auto
next
  case acc: True
  then have acc': "accepts c iid (rename_ids f cmd) sq (rename_view f v)" using accepts_rename [OF assms] by simp
  show ?thesis
  proof (cases cmd)
    case (NewOrder ord)
    with acc acc' show ?thesis
      by (simp add: spec_new_accepts spec_aggress_view spec_add_rename split: prod.splits)
  next
    case (CancelOrder ord)
    have "inj_on f (insert (cancel_order_id ord) (view_ids v))" by (rule renamesD(3) [OF assms]) (simp add: CancelOrder)
    with CancelOrder acc acc' spec_remove_rename show ?thesis by (simp add: spec_cancel_accepts)
  next
    case (ReplaceOrder ord)
    have inj: "inj_on f (insert (rep_old_order_id ord) (view_ids v))" by (rule renamesD(3) [OF assms]) (simp add: ReplaceOrder)
    from acc ReplaceOrder obtain old where old: "find_order (rep_old_order_id ord) v = Some old"
      by (auto simp: accepts_replace_def split: option.splits)
    let ?ord = "ord\<lparr>rep_old_order_id := f (rep_old_order_id ord), rep_new_order_id := f (rep_new_order_id ord)\<rparr>"
    have old': "find_order (rep_old_order_id ?ord) (rename_view f v) = Some (rename_order f old)"
      using find_order_rename [OF inj] old by simp
    have "accepts_replace c iid ?ord sq (rename_view f v)" using acc' ReplaceOrder by simp
    from spec_replace_accepts [OF this old'] spec_replace_accepts [OF _ old, of c iid sq] acc ReplaceOrder spec_remove_rename [OF inj]
    show ?thesis by (simp add: spec_aggress_view spec_add_rename split: prod.splits)
  qed
qed

text \<open>A renamed book is as well-formed as the book, when the identifiers themselves are in range.\<close>

lemma view_ok_renamed:
  assumes "view_ok c iid latest (rename_view f v)" and "\<forall>i \<in> view_ids v. 1 \<le> i \<and> i \<le> U64_MAX"
  shows "view_ok c iid latest v"
proof (rule view_okI)
  note ok = view_okD [OF assms(1)]
  have map_rank: "map (rank sd) (rename_view f v sd) = map (rank sd) (v sd)" for sd by simp
  show "sorted_wrt (<) (map (rank sd) (v sd))" for sd using ok(1) [of sd] unfolding map_rank .
  show "order_ok c iid latest sd ord" if "ord \<in> set (v sd)" for sd ord
    using ok(2) [of "rename_order f ord" sd] that assms(2) in_view_ids [of ord v sd] by (simp add: order_ok_def)
  have "map ord_order_id (rename_view f v BUY @ rename_view f v SELL) = map f (map ord_order_id (v BUY @ v SELL))" by simp
  with ok(3) show "distinct (map ord_order_id (v BUY @ v SELL))" by (metis distinct_map)
  have "map ord_priority_sequence (rename_view f v BUY @ rename_view f v SELL) = map ord_priority_sequence (v BUY @ v SELL)" by simp
  with ok(4) show "distinct (map ord_priority_sequence (v BUY @ v SELL))" by metis
  show "level_quantity (v sd) p \<le> U64_MAX" for sd p using ok(5) [of sd p] by simp
  show "ord_price b < ord_price a" if "b \<in> set (v BUY)" "a \<in> set (v SELL)" for a b
    using ok(6) [of "rename_order f b" "rename_order f a"] that by simp
qed

lemma view_orders_rename: "view_orders (rename_view f v) = map (rename_order f) (view_orders v)"
  by (simp add: view_orders_def)

lemma view_ids_rename: "view_ids (rename_view f v) = f ` view_ids v"
  by (simp add: view_ids_def view_orders_rename image_image)

section \<open>Routing one command\<close>

lemma route_unknown:
  assumes "map_of vs (command_instrument_id cmd) = None"
  shows "\<exists>rj. spec_route limit cmd sq vs = (spec_reject (command_instrument_id cmd) sq (command_type_of cmd) rj, vs)"
  using assms by (auto simp: spec_route_def Let_def split: option.splits)

lemma update_same: "map_of vs k = Some x \<Longrightarrow> AList.update k x vs = vs"
  by (induction vs) auto

text \<open>The orders of the books other than one.\<close>

definition others_of :: "venue \<Rightarrow> view \<Rightarrow> int" where
  "others_of vs v = int (length (venue_orders vs)) - int (length (view_orders v))"

lemma roomy_fits:
  assumes "others_of vs v + max_active_orders c \<le> limit" and "spec_fits c sd ord sq v1"
  shows "venue_fits limit (others_of vs v) sd ord sq v1"
  using assms by (auto simp: spec_fits_def venue_fits_def fits_def view_orders_def split: prod.splits)

lemma route_in_book:
  assumes ok: "view_ok c iid latest v" and book: "map_of vs iid = Some (c, v)" and iid: "command_instrument_id cmd = iid"
    and room: "others_of vs v + max_active_orders c \<le> limit"
    and own: "\<forall>i \<in> ids_of cmd. find_venue_order i vs = find_order i v"
  shows "spec_route limit cmd sq vs = (case spec_step c iid cmd sq v of (es, v') \<Rightarrow> (es, AList.update iid (c, v') vs))"
proof -
  have of_book: "ord_instrument_id x = iid" if "find_order i v = Some x" for i x
    using find_order_in(1) [OF that] view_okD(2) [OF ok] by (auto simp: order_ok_def)
  note fits = roomy_fits [OF room, unfolded others_of_def] and same = update_same [OF book]
  show ?thesis
  proof (cases cmd)
    case (NewOrder ord)
    then show ?thesis
      using iid book own same fits [of "side_of (new_side ord)" ord sq v]
      by (cases "validate_new_shape ord = NONE")
        (auto simp: spec_route_def spec_new_def Let_def split: prod.splits option.splits)
  next
    case (CancelOrder ord)
    then show ?thesis
      using iid book own same of_book [of "cancel_order_id ord"]
      by (cases "validate_cancel_shape ord = NONE")
        (auto simp: spec_route_def spec_cancel_def Let_def split: prod.splits option.splits)
  next
    case (ReplaceOrder ord)
    let ?old = "find_order (rep_old_order_id ord) v"
    note f = fits [of "ord_side (the ?old)" "replacement_order ord (the ?old)" sq "spec_remove_order (rep_old_order_id ord) v"]
    show ?thesis
    proof (cases "validate_replace_shape ord = NONE")
      case True
      then show ?thesis
        using ReplaceOrder iid book own same f of_book [of "rep_old_order_id ord"]
        by (cases ?old) (auto simp: spec_route_def spec_replace_def Let_def split: prod.splits)
    next
      case False
      then show ?thesis
        using ReplaceOrder iid same by (auto simp: spec_route_def spec_replace_def replace_shape_rejection_def Let_def)
    qed
  qed
qed

section \<open>Running commands through a router\<close>

lemma routed_step:
  assumes inv: "router_inv r" and rep: "require_representable cmd = Inr ()" and ex: "\<not> rtr_sequence_exhausted r"
    and room: "rtr_next_sequence r < U64_MAX"
    and spec: "spec_route (max_total_active_orders (rtr_config r)) cmd (rtr_next_sequence r) (venue_of r) = (es, vs)"
  obtains r' where "router_execute cmd r = (Inr (accepted_result es), r')" "router_inv r'" "venue_of r' = vs"
    "rtr_config r' = rtr_config r" "rtr_next_sequence r' = rtr_next_sequence r + 1" "\<not> rtr_sequence_exhausted r'"
proof -
  from router_execute_refines [OF inv rep ex spec] obtain r' where
    r': "router_execute cmd r = (Inr (accepted_result es), r')" "router_inv r'" "venue_of r' = vs"
      "routed (Router_Machine.issued r) r'" by blast
  with issue_spec(6,12) [OF inv ex] room that [of r'] show thesis by (simp add: routed_def)
qed

lemma router_book_ok:
  assumes "router_inv r" and "(iid, c, v) \<in> set (venue_of r)"
  shows "view_ok c iid (rtr_last_sequence r) v" and "int (length (v BUY) + length (v SELL)) \<le> max_active_orders c"
proof -
  from assms(2) obtain e where e: "(iid, e) \<in> set (rtr_books r)" "c = eng_config e" "v = view_of e"
    by (auto simp: venue_of_def simp del: view_of_app)
  note b = router_invD(3) [OF assms(1)]
  from e(1) map_of_in_dict [OF books_invD(2) [OF b]] have "map_of (rtr_books r) iid = Some e" by (rule iffD1 [rotated])
  from books_invD(3) [OF b this] have inv: "engine_inv e" "eng_instrument_id e = iid" "eng_last_sequence e \<le> rtr_last_sequence r"
    by simp_all
  from engine_view_ok [OF inv(1)] view_ok_mono inv e show "view_ok c iid (rtr_last_sequence r) v" by metis
  have core: "core_inv (eng_last_sequence e) e" using inv(1) by (simp add: engine_inv_def)
  from core_invD(8,9) [OF core] order_count [OF core_invD(1) [OF core]] e
  show "int (length (v BUY) + length (v SELL)) \<le> max_active_orders c" by (simp add: view_of_def)
qed

end
