(* ===== verification/Multi_Intents.thy ===== *)
theory Multi_Intents
  imports Multi_Generation Venue_Renaming Workload_Properties
begin

text \<open>
  The multi-instrument generator beside the router.  Each stream keeps the book its generator believes in; the
  router's book of that instrument is the same book under the remapper's renaming of identifiers.  The
  simulation \<open>in_step\<close> says so, and every command of the iterator keeps it.
\<close>

section \<open>The remapper\<close>

definition remapper_ok :: "identifier_remapper \<Rightarrow> bool" where
  "remapper_ok rm \<longleftrightarrow> 1 \<le> rm_next_order_id rm \<and>
     (\<forall>k i m. map_of (rm_order_ids rm) (k, i) = Some m \<longrightarrow> 1 \<le> i \<and> i \<le> U64_MAX \<and> 1 \<le> m \<and> m < rm_next_order_id rm) \<and>
     (\<forall>p q m. map_of (rm_order_ids rm) p = Some m \<longrightarrow> map_of (rm_order_ids rm) q = Some m \<longrightarrow> p = q)"

definition known :: "identifier_remapper \<Rightarrow> nat \<Rightarrow> int \<Rightarrow> bool" where
  "known rm k i \<longleftrightarrow> i = 0 \<or> map_of (rm_order_ids rm) (k, i) \<noteq> None"

definition mapped_id :: "identifier_remapper \<Rightarrow> nat \<Rightarrow> int \<Rightarrow> int" where
  "mapped_id rm k i = (if i = 0 then 0 else case map_of (rm_order_ids rm) (k, i) of Some m \<Rightarrow> m | None \<Rightarrow> 0)"

abbreviation grows :: "identifier_remapper \<Rightarrow> identifier_remapper \<Rightarrow> bool" where
  "grows rm rm' \<equiv> map_of (rm_order_ids rm) \<subseteq>\<^sub>m map_of (rm_order_ids rm')"

lemma mapped_id_zero [simp]: "mapped_id rm k 0 = 0" "known rm k 0"
  by (simp_all add: mapped_id_def known_def)

lemma known_grows: "grows rm rm' \<Longrightarrow> known rm k i \<Longrightarrow> known rm' k i"
  by (force simp: known_def map_le_def dom_def)

lemma mapped_id_grows: "grows rm rm' \<Longrightarrow> known rm k i \<Longrightarrow> mapped_id rm' k i = mapped_id rm k i"
  by (auto simp: known_def mapped_id_def map_le_def dom_def split: option.splits)

lemma mapped_id_range:
  assumes "remapper_ok rm" and "known rm k i"
  shows "0 \<le> mapped_id rm k i" and "mapped_id rm k i < rm_next_order_id rm" and "mapped_id rm k i = 0 \<longleftrightarrow> i = 0"
proof -
  have "i = 0 \<or> (\<exists>m. map_of (rm_order_ids rm) (k, i) = Some m \<and> 1 \<le> m \<and> m < rm_next_order_id rm)"
    using assms unfolding remapper_ok_def known_def by blast
  moreover have "0 < rm_next_order_id rm" using assms(1) by (simp add: remapper_ok_def)
  ultimately show "0 \<le> mapped_id rm k i" "mapped_id rm k i < rm_next_order_id rm" "mapped_id rm k i = 0 \<longleftrightarrow> i = 0"
    by (auto simp: mapped_id_def)
qed

lemma mapped_id_inj:
  assumes "remapper_ok rm" and "known rm k i" "known rm l j" and "mapped_id rm k i = mapped_id rm l j" and "i \<noteq> 0"
  shows "k = l \<and> i = j"
proof -
  have j: "j \<noteq> 0" using mapped_id_range(3) [OF assms(1,2)] mapped_id_range(3) [OF assms(1,3)] assms(4,5) by simp
  then obtain m n where "map_of (rm_order_ids rm) (k, i) = Some m" "map_of (rm_order_ids rm) (l, j) = Some n"
    using assms(2,3,5) by (auto simp: known_def)
  with assms(1,4,5) j show ?thesis unfolding remapper_ok_def mapped_id_def by (metis option.simps(5) prod.inject)
qed

lemma remap_order_id_spec:
  assumes ok: "remapper_ok rm" and i: "0 \<le> i" "i \<le> U64_MAX" and room: "rm_next_order_id rm \<le> U64_MAX"
  obtains rm' where "remap_order_id k i rm = (Inr (mapped_id rm' k i), rm')" "remapper_ok rm'" "grows rm rm'" "known rm' k i"
    "rm_next_order_id rm' \<le> rm_next_order_id rm + 1"
proof (cases "known rm k i")
  case True
  then have "remap_order_id k i rm = (Inr (mapped_id rm k i), rm)"
    by (auto simp: known_def remap_order_id_def mapped_id_def split: option.splits)
  from that [OF this ok _ True] show thesis by simp
next
  case False
  let ?n = "rm_next_order_id rm"
  let ?rm = "rm\<lparr>rm_next_order_id := ?n + 1, rm_order_ids := dict_setitem (k, i) ?n (rm_order_ids rm)\<rparr>"
  have new: "i \<noteq> 0" "map_of (rm_order_ids rm) (k, i) = None" using False by (auto simp: known_def)
  have le: "m < ?n" if "map_of (rm_order_ids rm) p = Some m" for p m
    using ok that by (cases p) (auto simp: remapper_ok_def)
  have "remapper_ok ?rm"
    using ok new i le unfolding remapper_ok_def by (fastforce split: if_splits)
  moreover have "remap_order_id k i rm = (Inr (mapped_id ?rm k i), ?rm)"
    using new room by (simp add: remap_order_id_def mapped_id_def Let_def)
  moreover have "grows rm ?rm" using new(2) by (auto simp: map_le_def)
  ultimately show thesis by (intro that [of ?rm]) (simp_all add: known_def)
qed

lemma reserve_id_spec:
  assumes "remapper_ok rm" and "rm_next_order_id rm \<le> U64_MAX"
  obtains rm' where "reserve_id rm = (Inr (rm_next_order_id rm), rm')" "remapper_ok rm'"
    "rm_order_ids rm' = rm_order_ids rm" "rm_next_order_id rm' = rm_next_order_id rm + 1"
proof -
  let ?rm = "rm\<lparr>rm_next_order_id := rm_next_order_id rm + 1\<rparr>"
  have "remapper_ok ?rm" using assms(1) unfolding remapper_ok_def by fastforce
  with assms(2) that [of ?rm] show thesis by (simp add: reserve_id_def)
qed

text \<open>A generated command, remapped: its instrument, and what it is when the instrument stays.\<close>

lemma remap_generated_spec:
  assumes ok: "remapper_ok rm" and rep: "require_representable cmd = Inr ()" and gc: "gc_command gc = cmd"
    and room: "rm_next_order_id rm + 1 \<le> U64_MAX" and unknown: "0 \<le> unknown" "unknown \<le> U32_MAX"
  obtains cmd' rm' where "remap_generated k source unknown gc rm = (Inr cmd', rm')" "remapper_ok rm'" "grows rm rm'"
    "rm_next_order_id rm' \<le> rm_next_order_id rm + 2" "\<forall>i \<in> ids_of cmd. known rm' k i"
    "command_instrument_id cmd' = remapped_instrument source unknown (command_instrument_id cmd)"
    "remapped_instrument source unknown (command_instrument_id cmd) = command_instrument_id cmd \<Longrightarrow>
       cmd' = rename_ids (mapped_id rm' k) cmd"
    "require_representable cmd' = Inr ()"
proof (cases cmd)
  case (NewOrder c)
  have r: "0 \<le> new_order_id c" "new_order_id c \<le> U64_MAX" "rm_next_order_id rm \<le> U64_MAX"
    using rep room NewOrder by (auto simp: bindR_Inr_iff require_uint_def split: if_splits)
  from remap_order_id_spec [OF ok r, of k] obtain rm' where
    rm': "remap_order_id k (new_order_id c) rm = (Inr (mapped_id rm' k (new_order_id c)), rm')" "remapper_ok rm'" "grows rm rm'"
      "known rm' k (new_order_id c)" "rm_next_order_id rm' \<le> rm_next_order_id rm + 1" .
  note range = mapped_id_range [OF rm'(2,4)]
  show thesis
    by (rule that [of "NewOrder (c\<lparr>new_order_id := mapped_id rm' k (new_order_id c),
          new_instrument_id := remapped_instrument source unknown (new_instrument_id c)\<rparr>)" rm'])
      (use NewOrder rm' gc rep unknown range room in
        \<open>auto simp: remap_generated_def bindP_def rename_new_def bindR_Inr_iff require_uint_def remapped_instrument_def split: if_splits\<close>)
next
  case (CancelOrder c)
  have r: "0 \<le> cancel_order_id c" "cancel_order_id c \<le> U64_MAX" "rm_next_order_id rm \<le> U64_MAX"
    using rep room CancelOrder by (auto simp: bindR_Inr_iff require_uint_def split: if_splits)
  from remap_order_id_spec [OF ok r, of k] obtain rm' where
    rm': "remap_order_id k (cancel_order_id c) rm = (Inr (mapped_id rm' k (cancel_order_id c)), rm')" "remapper_ok rm'" "grows rm rm'"
      "known rm' k (cancel_order_id c)" "rm_next_order_id rm' \<le> rm_next_order_id rm + 1" .
  note range = mapped_id_range [OF rm'(2,4)]
  show thesis
    by (rule that [of "CancelOrder (c\<lparr>cancel_order_id := mapped_id rm' k (cancel_order_id c),
          cancel_instrument_id := remapped_instrument source unknown (cancel_instrument_id c)\<rparr>)" rm'])
      (use CancelOrder rm' gc rep unknown range room in
        \<open>auto simp: remap_generated_def bindP_def bindR_Inr_iff require_uint_def remapped_instrument_def split: if_splits\<close>)
next
  case (ReplaceOrder c)
  have r: "0 \<le> rep_old_order_id c" "rep_old_order_id c \<le> U64_MAX" "rm_next_order_id rm \<le> U64_MAX"
    "0 \<le> rep_new_order_id c" "rep_new_order_id c \<le> U64_MAX"
    using rep room ReplaceOrder by (auto simp: bindR_Inr_iff require_uint_def split: if_splits)
  from remap_order_id_spec [OF ok r(1-3), of k] obtain rm1 where
    rm1: "remap_order_id k (rep_old_order_id c) rm = (Inr (mapped_id rm1 k (rep_old_order_id c)), rm1)" "remapper_ok rm1" "grows rm rm1"
      "known rm1 k (rep_old_order_id c)" "rm_next_order_id rm1 \<le> rm_next_order_id rm + 1" .
  have "rm_next_order_id rm1 \<le> U64_MAX" using rm1(5) room by simp
  from remap_order_id_spec [OF rm1(2) r(4,5) this, of k] obtain rm' where
    rm': "remap_order_id k (rep_new_order_id c) rm1 = (Inr (mapped_id rm' k (rep_new_order_id c)), rm')" "remapper_ok rm'" "grows rm1 rm'"
      "known rm' k (rep_new_order_id c)" "rm_next_order_id rm' \<le> rm_next_order_id rm1 + 1" .
  have old: "known rm' k (rep_old_order_id c)" "mapped_id rm1 k (rep_old_order_id c) = mapped_id rm' k (rep_old_order_id c)"
    using known_grows [OF rm'(3) rm1(4)] mapped_id_grows [OF rm'(3) rm1(4)] by simp_all
  note range = mapped_id_range [OF rm'(2,4)] mapped_id_range [OF rm'(2) old(1)]
  have grows: "grows rm rm'" by (rule map_le_trans [OF rm1(3) rm'(3)])
  show thesis
    by (rule that [of "ReplaceOrder (c\<lparr>rep_old_order_id := mapped_id rm' k (rep_old_order_id c),
          rep_new_order_id := mapped_id rm' k (rep_new_order_id c),
          rep_instrument_id := remapped_instrument source unknown (rep_instrument_id c)\<rparr>)" rm'])
      (use ReplaceOrder rm1 rm' old gc rep unknown range room grows in
        \<open>auto simp: remap_generated_def bindP_def bindR_Inr_iff require_uint_def remapped_instrument_def split: if_splits\<close>)
qed

section \<open>A venue of streams\<close>

definition stream_venue :: "workload_spec list \<Rightarrow> identifier_remapper \<Rightarrow> (nat \<Rightarrow> view) \<Rightarrow> venue" where
  "stream_venue sps rm vv =
     map (\<lambda>k. (ws_instrument_id (sps ! k), ws_engine (sps ! k), rename_view (mapped_id rm k) (vv k))) [0..<length sps]"

lemma stream_venue_keys [simp]: "map fst (stream_venue sps rm vv) = map ws_instrument_id sps"
  by (rule nth_equalityI) (simp_all add: stream_venue_def)

lemma stream_venue_cong:
  "(\<And>k. k < length sps \<Longrightarrow> rename_view (mapped_id rm k) (vv k) = rename_view (mapped_id rm' k) (vv' k)) \<Longrightarrow>
   stream_venue sps rm vv = stream_venue sps rm' vv'"
  by (simp add: stream_venue_def)

lemma stream_venue_lookup:
  assumes "distinct (map ws_instrument_id sps)" and "k < length sps"
  shows "map_of (stream_venue sps rm vv) (ws_instrument_id (sps ! k)) =
    Some (ws_engine (sps ! k), rename_view (mapped_id rm k) (vv k))"
proof (rule map_of_is_SomeI)
  show "distinct (map fst (stream_venue sps rm vv))" using assms(1) by simp
  show "(ws_instrument_id (sps ! k), ws_engine (sps ! k), rename_view (mapped_id rm k) (vv k)) \<in> set (stream_venue sps rm vv)"
    using assms(2) by (auto simp: stream_venue_def)
qed

lemma update_nth_key:
  assumes "distinct (map fst xs)" and "k < length xs"
  shows "AList.update (fst (xs ! k)) y xs = xs[k := (fst (xs ! k), y)]"
  using assms
proof (induction xs arbitrary: k)
  case (Cons x xs)
  then show ?case by (cases k; cases x) auto
qed simp

lemma stream_venue_update:
  assumes "distinct (map ws_instrument_id sps)" and "k < length sps"
  shows "AList.update (ws_instrument_id (sps ! k)) (ws_engine (sps ! k), rename_view (mapped_id rm k) v) (stream_venue sps rm vv) =
    stream_venue sps rm (vv(k := v))"
proof -
  have "fst (stream_venue sps rm vv ! k) = ws_instrument_id (sps ! k)" "length (stream_venue sps rm vv) = length sps"
    using assms(2) by (simp_all add: stream_venue_def)
  with update_nth_key [of "stream_venue sps rm vv" k] assms
  have "AList.update (ws_instrument_id (sps ! k)) (ws_engine (sps ! k), rename_view (mapped_id rm k) v) (stream_venue sps rm vv) =
      (stream_venue sps rm vv)[k := (ws_instrument_id (sps ! k), ws_engine (sps ! k), rename_view (mapped_id rm k) v)]" by simp
  also have "\<dots> = stream_venue sps rm (vv(k := v))"
    by (rule nth_equalityI) (simp_all add: stream_venue_def nth_list_update)
  finally show ?thesis .
qed

lemma find_concat_own:
  assumes "k < length xss" and "\<And>j x. j < length xss \<Longrightarrow> j \<noteq> k \<Longrightarrow> x \<in> set (xss ! j) \<Longrightarrow> \<not> P x"
  shows "List.find P (concat xss) = List.find P (xss ! k)"
  using assms
proof (induction xss arbitrary: k)
  case (Cons xs xss)
  have app: "List.find P (as @ bs) = (case List.find P as of None \<Rightarrow> List.find P bs | Some x \<Rightarrow> Some x)" for as bs
    by (induction as) auto
  show ?case
  proof (cases k)
    case 0
    have "\<not> P x" if "x \<in> set (concat xss)" for x
    proof -
      from that obtain xs where "xs \<in> set xss" "x \<in> set xs" by auto
      then obtain j where "j < length xss" "x \<in> set (xss ! j)" by (metis in_set_conv_nth)
      with Cons.prems(2) [of "Suc j" x] 0 show ?thesis by simp
    qed
    then have "List.find P (concat xss) = None" by (metis find_None_iff)
    with 0 show ?thesis by (simp add: app split: option.splits)
  next
    case (Suc l)
    have "List.find P xs = None" using Cons.prems(2) [of 0] Suc by (auto simp: find_None_iff)
    moreover have "List.find P (concat xss) = List.find P (xss ! l)"
      using Cons.IH [of l] Cons.prems(1) Cons.prems(2) [of "Suc _"] Suc by auto
    ultimately show ?thesis using Suc by (simp add: app)
  qed
qed simp

lemma find_stream_order:
  assumes k: "k < length sps" and ok: "remapper_ok rm" and i: "known rm k i"
    and ids: "\<And>j x. j < length sps \<Longrightarrow> x \<in> view_ids (vv j) \<Longrightarrow> known rm j x \<and> x \<noteq> 0"
  shows "find_venue_order (mapped_id rm k i) (stream_venue sps rm vv) = find_order (mapped_id rm k i) (rename_view (mapped_id rm k) (vv k))"
proof -
  let ?xss = "map (\<lambda>j. view_orders (rename_view (mapped_id rm j) (vv j))) [0..<length sps]"
  have "List.find (\<lambda>ord. ord_order_id ord = mapped_id rm k i) (concat ?xss) =
      List.find (\<lambda>ord. ord_order_id ord = mapped_id rm k i) (?xss ! k)"
  proof (rule find_concat_own)
    fix j x assume j: "j < length ?xss" "j \<noteq> k" and "x \<in> set (?xss ! j)"
    then have "x \<in> set (view_orders (rename_view (mapped_id rm j) (vv j)))" by simp
    then obtain ord where ord: "ord \<in> set (view_orders (vv j))" "x = rename_order (mapped_id rm j) ord"
      by (auto simp: view_orders_rename)
    then have o: "known rm j (ord_order_id ord)" "ord_order_id ord \<noteq> 0" using ids [of j "ord_order_id ord"] j by (auto simp: view_ids_def)
    with mapped_id_inj [OF ok o(1) i _ o(2)] j(2) ord(2) show "\<not> ord_order_id x = mapped_id rm k i" by auto
  qed (use k in simp)
  with k show ?thesis
    by (simp add: find_venue_order_def find_order_def venue_orders_def stream_venue_def view_orders_def comp_def)
qed

lemma stream_others:
  assumes k: "k < length sps" and len: "\<And>j. j < length sps \<Longrightarrow> int (length (view_orders (vv j))) \<le> max_active_orders (ws_engine (sps ! j))"
  shows "others_of (stream_venue sps rm vv) (rename_view (mapped_id rm k) (vv k)) + max_active_orders (ws_engine (sps ! k)) \<le>
    sum_list (map (max_active_orders \<circ> ws_engine) sps)"
proof -
  let ?n = "\<lambda>j. int (length (view_orders (vv j)))" and ?m = "\<lambda>j. max_active_orders (ws_engine (sps ! j))"
  have "int (length (venue_orders (stream_venue sps rm vv))) = (\<Sum>j = 0..<length sps. ?n j)"
    by (simp add: venue_orders_def stream_venue_def length_concat comp_def view_orders_rename interv_sum_list_conv_sum_set_nat
        del: view_orders_rename) (simp add: view_orders_rename interv_sum_list_conv_sum_set_nat)
  also have "\<dots> = ?n k + (\<Sum>j \<in> {0..<length sps} - {k}. ?n j)" using k by (simp add: sum.remove)
  also have "\<dots> \<le> ?n k + (\<Sum>j \<in> {0..<length sps} - {k}. ?m j)" using len by (auto intro!: sum_mono)
  finally have "int (length (venue_orders (stream_venue sps rm vv))) - ?n k + ?m k \<le> (\<Sum>j = 0..<length sps. ?m j)"
    using k by (simp add: sum.remove)
  moreover have "sum_list (map (max_active_orders \<circ> ws_engine) sps) = (\<Sum>j = 0..<length sps. ?m j)"
    by (simp add: sum_list_sum_nth)
  ultimately show ?thesis by (simp add: others_of_def view_orders_rename)
qed

section \<open>The simulation\<close>

text \<open>
  The specifications the properties are about: the constructor's checks, tame streams, a total that leaves
  room for identifiers and sequence numbers, and an instrument left over for unknown-instrument commands.
\<close>

definition multi_tame :: "multi_workload_spec \<Rightarrow> bool" where
  "multi_tame ms \<longleftrightarrow> mw_streams ms \<noteq> [] \<and> sorted_wrt (<) (map ws_instrument_id (mw_streams ms)) \<and>
     list_all tame (mw_streams ms) \<and> multi_command_count ms \<le> 2 ^ 61 \<and> int (length (mw_streams ms)) < U32_MAX \<and>
     0 \<le> max_total_active_orders (mw_engine ms) \<and> max_total_active_orders (mw_engine ms) \<le> U64_MAX"

text \<open>A venue whose total capacity cannot be reached before the capacity of a book.\<close>

definition roomy :: "multi_workload_spec \<Rightarrow> bool" where
  "roomy ms \<longleftrightarrow> sum_list (map (max_active_orders \<circ> ws_engine) (mw_streams ms)) \<le> max_total_active_orders (mw_engine ms)"

abbreviation commands_left :: "multi_generator \<Rightarrow> int" where
  "commands_left g \<equiv> int (sum_list (mg_remaining g))"

definition stream_in_step :: "workload_spec \<Rightarrow> view \<Rightarrow> nat \<Rightarrow> workload_generator \<Rightarrow> bool" where
  "stream_in_step sp v n b \<longleftrightarrow> ready sp v (2 * (ws_command_count sp - gen_count b)) b \<and>
     gen_count b + int n \<le> ws_command_count sp"

definition generator_ok :: "multi_workload_spec \<Rightarrow> (nat \<Rightarrow> view) \<Rightarrow> multi_generator \<Rightarrow> bool" where
  "generator_ok ms vv g \<longleftrightarrow> mg_spec g = ms \<and> length (mg_streams g) = length (mw_streams ms) \<and>
     length (mg_remaining g) = length (mw_streams ms) \<and> length (mg_special_commands g) \<le> mg_special_index g \<and>
     1 \<le> mg_unknown_instrument g \<and> mg_unknown_instrument g \<le> U32_MAX \<and>
     mg_unknown_instrument g \<notin> set (map ws_instrument_id (mw_streams ms)) \<and>
     remapper_ok (mg_remapper g) \<and> rm_next_order_id (mg_remapper g) + 2 * commands_left g \<le> U64_MAX \<and>
     (\<forall>k < length (mw_streams ms). stream_in_step (mw_streams ms ! k) (vv k) (mg_remaining g ! k) (mg_streams g ! k) \<and>
       (\<forall>i \<in> view_ids (vv k). known (mg_remapper g) k i \<and> i \<noteq> 0))"

definition in_step :: "multi_workload_spec \<Rightarrow> (nat \<Rightarrow> view) \<Rightarrow> multi_generator \<Rightarrow> router \<Rightarrow> bool" where
  "in_step ms vv g r \<longleftrightarrow> generator_ok ms vv g \<and> router_inv r \<and> \<not> rtr_sequence_exhausted r \<and> rtr_config r = mw_engine ms \<and>
     venue_of r = stream_venue (mw_streams ms) (mg_remapper g) vv \<and> rtr_next_sequence r + commands_left g \<le> U64_MAX"

lemma generator_okD:
  assumes "generator_ok ms vv g"
  shows "mg_spec g = ms" and "length (mg_streams g) = length (mw_streams ms)"
    and "length (mg_remaining g) = length (mw_streams ms)" and "length (mg_special_commands g) \<le> mg_special_index g"
    and "1 \<le> mg_unknown_instrument g" and "mg_unknown_instrument g \<le> U32_MAX"
    and "mg_unknown_instrument g \<notin> set (map ws_instrument_id (mw_streams ms))"
    and "remapper_ok (mg_remapper g)" and "rm_next_order_id (mg_remapper g) + 2 * commands_left g \<le> U64_MAX"
    and "\<And>k. k < length (mw_streams ms) \<Longrightarrow> stream_in_step (mw_streams ms ! k) (vv k) (mg_remaining g ! k) (mg_streams g ! k)"
    and "\<And>k i. k < length (mw_streams ms) \<Longrightarrow> i \<in> view_ids (vv k) \<Longrightarrow> known (mg_remapper g) k i \<and> i \<noteq> 0"
  using assms unfolding generator_ok_def by blast+

lemma in_stepD:
  assumes "in_step ms vv g r"
  shows "generator_ok ms vv g" and "router_inv r" and "\<not> rtr_sequence_exhausted r" and "rtr_config r = mw_engine ms"
    and "venue_of r = stream_venue (mw_streams ms) (mg_remapper g) vv" and "rtr_next_sequence r + commands_left g \<le> U64_MAX"
  using assms unfolding in_step_def by blast+

lemma multi_tameD:
  assumes "multi_tame ms"
  shows "mw_streams ms \<noteq> []" and "distinct (map ws_instrument_id (mw_streams ms))"
    and "\<And>k. k < length (mw_streams ms) \<Longrightarrow> tame (mw_streams ms ! k)"
    and "\<And>sp. sp \<in> set (mw_streams ms) \<Longrightarrow> tame sp"
  using assms by (auto simp: multi_tame_def list_all_iff strict_sorted_iff)

lemma known_range: "remapper_ok rm \<Longrightarrow> known rm k i \<Longrightarrow> i \<noteq> 0 \<Longrightarrow> 1 \<le> i \<and> i \<le> U64_MAX"
  by (auto simp: remapper_ok_def known_def)

text \<open>The book a stream believes in is well-formed, because the router's is.\<close>

lemma stream_book:
  assumes st: "in_step ms vv g r" and t: "multi_tame ms" and k: "k < length (mw_streams ms)"
  shows "sized_book (mw_streams ms ! k) (rtr_last_sequence r) (vv k)"
    and "view_ok (ws_engine (mw_streams ms ! k)) (ws_instrument_id (mw_streams ms ! k)) (rtr_last_sequence r)
      (rename_view (mapped_id (mg_remapper g) k) (vv k))"
proof -
  let ?sp = "mw_streams ms ! k" and ?f = "mapped_id (mg_remapper g) k"
  note s = in_stepD [OF st] and g = generator_okD [OF in_stepD(1) [OF st]]
  have "(ws_instrument_id ?sp, ws_engine ?sp, rename_view ?f (vv k)) \<in> set (venue_of r)"
    unfolding s(5) stream_venue_def using k by auto
  note b = router_book_ok [OF s(2) this]
  show "view_ok (ws_engine ?sp) (ws_instrument_id ?sp) (rtr_last_sequence r) (rename_view ?f (vv k))" by (rule b(1))
  have "\<forall>i \<in> view_ids (vv k). 1 \<le> i \<and> i \<le> U64_MAX" using g(11) [OF k] known_range [OF g(8)] by blast
  with view_ok_renamed [OF b(1)] b(2) multi_tameD(3) [OF t k]
  show "sized_book ?sp (rtr_last_sequence r) (vv k)" by (simp add: sized_book_def tame_def)
qed

text \<open>A command of stream \<open>k\<close>, remapped, is one step of the book of its instrument.\<close>

lemma stream_route:
  assumes st: "in_step ms vv g r" and t: "multi_tame ms" and roomy: "roomy ms" and k: "k < length (mw_streams ms)"
    and rm: "remapper_ok rm" "grows (mg_remapper g) rm" and cmd: "\<forall>i \<in> ids_of cmd. known rm k i"
    and iid: "command_instrument_id cmd = ws_instrument_id (mw_streams ms ! k)"
  shows "\<exists>es. spec_route (max_total_active_orders (rtr_config r)) (rename_ids (mapped_id rm k) cmd) sq (venue_of r) =
      (es, stream_venue (mw_streams ms) rm
        (vv(k := snd (spec_step (ws_engine (mw_streams ms ! k)) (ws_instrument_id (mw_streams ms ! k)) cmd sq (vv k))))) \<and>
    (accepted_batch \<lparr>batch_events = es\<rparr> \<longleftrightarrow> spec_accepts (mw_streams ms ! k) cmd sq (vv k))"
proof -
  let ?sps = "mw_streams ms" and ?f = "mapped_id rm k" and ?v = "vv k"
  let ?c = "ws_engine (?sps ! k)" and ?iid = "ws_instrument_id (?sps ! k)"
  note s = in_stepD [OF st] and g = generator_okD [OF in_stepD(1) [OF st]] and d = multi_tameD [OF t]
  have ids: "known rm j i \<and> i \<noteq> 0" if "j < length ?sps" "i \<in> view_ids (vv j)" for j i
    using g(11) [OF that] known_grows [OF rm(2)] by blast
  have same: "rename_view (mapped_id (mg_remapper g) j) (vv j) = rename_view (mapped_id rm j) (vv j)" if "j < length ?sps" for j
    using g(11) [OF that] mapped_id_grows [OF rm(2)] by (intro rename_view_cong) metis
  have venue: "venue_of r = stream_venue ?sps rm vv" unfolding s(5) by (rule stream_venue_cong) (rule same)
  note book = stream_venue_lookup [OF d(2) k, of rm vv, folded venue]
  have ok: "view_ok ?c ?iid (rtr_last_sequence r) (rename_view ?f ?v)" using stream_book(2) [OF st t k] same [OF k] by simp
  have len: "int (length (view_orders (vv j))) \<le> max_active_orders (ws_engine (?sps ! j))" if "j < length ?sps" for j
    using sized_bookD(4) [OF stream_book(1) [OF st t that]] by (simp add: view_orders_def)
  have room: "others_of (venue_of r) (rename_view ?f ?v) + max_active_orders ?c \<le> max_total_active_orders (rtr_config r)"
    using stream_others [OF k len, of rm] roomy unfolding venue s(4) roomy_def by linarith
  have own: "\<forall>i \<in> ids_of (rename_ids ?f cmd). find_venue_order i (venue_of r) = find_order i (rename_view ?f ?v)"
  proof
    fix i assume "i \<in> ids_of (rename_ids ?f cmd)"
    then obtain j where "i = ?f j" "j \<in> ids_of cmd" by (cases cmd) auto
    with find_stream_order [OF k rm(1) _ ids] cmd venue show "find_venue_order i (venue_of r) = find_order i (rename_view ?f ?v)" by simp
  qed
  have ren: "renames ?f cmd ?v"
    unfolding renames_def
  proof (intro conjI inj_onI)
    fix x y assume "x \<in> insert 0 (ids_of cmd \<union> view_ids ?v)" "y \<in> insert 0 (ids_of cmd \<union> view_ids ?v)" and eq: "?f x = ?f y"
    then have kn: "known rm k x" "known rm k y" using cmd ids [OF k] by auto
    show "x = y"
    proof (cases "x = 0")
      case True
      with mapped_id_range(3) [OF rm(1) kn(2)] eq show ?thesis by simp
    qed (use mapped_id_inj [OF rm(1) kn eq] in simp)
  qed simp
  have "command_instrument_id (rename_ids ?f cmd) = ?iid" using iid by simp
  note route = route_in_book [OF ok book this room own, of sq]
  let ?es = "fst (spec_step ?c ?iid (rename_ids ?f cmd) sq (rename_view ?f ?v))"
  have "spec_route (max_total_active_orders (rtr_config r)) (rename_ids ?f cmd) sq (venue_of r) =
      (?es, AList.update ?iid (?c, rename_view ?f (snd (spec_step ?c ?iid cmd sq ?v))) (venue_of r))"
    using route spec_step_rename [OF ren, of ?c ?iid sq] by (simp split: prod.splits)
  moreover have "accepted_batch \<lparr>batch_events = ?es\<rparr> \<longleftrightarrow> spec_accepts (?sps ! k) cmd sq ?v"
    using verdict_accepts accepts_rename [OF ren] by simp
  ultimately show ?thesis using stream_venue_update [OF d(2) k] venue by auto
qed

lemma fresh_id_of: "Workload_Choices.fresh_id cmd = Some i \<Longrightarrow> i \<in> ids_of cmd"
  by (cases cmd) auto

lemma stepped_ids:
  assumes "view_ok c iid latest v" and "require_representable cmd = Inr ()" and "i \<in> view_ids (snd (spec_step c iid cmd sq v))"
  shows "i \<in> ids_of cmd \<union> view_ids v"
proof (cases "accepts c iid cmd sq v")
  case True
  from assms(3) obtain sd x where x: "x \<in> set (snd (spec_step c iid cmd sq v) sd)" "ord_order_id x = i" by (rule view_idsE)
  from spec_step_ids [OF assms(1) True assms(2) x(1)] x(2) consider "Workload_Choices.fresh_id cmd = Some i"
    | sd' y where "y \<in> set (v sd')" "ord_order_id y = i" by blast
  then show ?thesis
  proof cases
    case 1
    then show ?thesis using fresh_id_of by simp
  next
    case 2
    then show ?thesis using in_view_ids [of y v sd'] by simp
  qed
next
  case False
  with spec_step_rejects [OF False] assms(3) show ?thesis by auto
qed

text \<open>The verdict of the router on a remapped command, whatever its instrument.\<close>

lemma stream_verdict:
  assumes st: "in_step ms vv g r" and t: "multi_tame ms" and roomy: "roomy ms" and k: "k < length (mw_streams ms)"
    and rm: "remapper_ok rm" "grows (mg_remapper g) rm" and cmd: "\<forall>i \<in> ids_of cmd. known rm k i"
    and iid: "command_instrument_id cmd' =
      remapped_instrument (ws_instrument_id (mw_streams ms ! k)) (mg_unknown_instrument g) (command_instrument_id cmd)"
    and same: "command_instrument_id cmd' = command_instrument_id cmd \<Longrightarrow> cmd' = rename_ids (mapped_id rm k) cmd"
  shows "\<exists>es. spec_route (max_total_active_orders (rtr_config r)) cmd' sq (venue_of r) =
      (es, stream_venue (mw_streams ms) rm
        (vv(k := snd (spec_step (ws_engine (mw_streams ms ! k)) (ws_instrument_id (mw_streams ms ! k)) cmd sq (vv k))))) \<and>
    (accepted_batch \<lparr>batch_events = es\<rparr> \<longleftrightarrow> spec_accepts (mw_streams ms ! k) cmd sq (vv k))"
proof (cases "command_instrument_id cmd = ws_instrument_id (mw_streams ms ! k)")
  case True
  then have "cmd' = rename_ids (mapped_id rm k) cmd" using same iid by (simp add: remapped_instrument_def)
  with stream_route [OF st t roomy k rm cmd True] show ?thesis by simp
next
  case False
  let ?sps = "mw_streams ms" and ?iid = "ws_instrument_id (mw_streams ms ! k)"
  note s = in_stepD [OF st] and g = generator_okD [OF in_stepD(1) [OF st]] and d = multi_tameD [OF t]
  have "0 \<notin> set (map ws_instrument_id ?sps)" using d(4) spec_validD(2) by (fastforce simp: tame_def)
  then have "command_instrument_id cmd' \<notin> set (map ws_instrument_id ?sps)"
    using iid g(7) False by (simp add: remapped_instrument_def)
  then have "map_of (venue_of r) (command_instrument_id cmd') = None"
    unfolding map_of_eq_None_iff s(5) using stream_venue_keys [of ?sps "mg_remapper g" vv] by (metis set_map)
  from route_unknown [OF this] obtain rj where route: "spec_route (max_total_active_orders (rtr_config r)) cmd' sq (venue_of r) =
      (spec_reject (command_instrument_id cmd') sq (command_type_of cmd') rj, venue_of r)" by blast
  have rejected: "\<not> spec_accepts (?sps ! k) cmd sq (vv k)"
    using False by (cases cmd) (auto simp: accepts_new_def accepts_cancel_def accepts_replace_def)
  from spec_step_rejects [OF this] have "snd (spec_step (ws_engine (?sps ! k)) ?iid cmd sq (vv k)) = vv k" by auto
  moreover have "venue_of r = stream_venue ?sps rm vv" unfolding s(5)
    by (rule stream_venue_cong) (use g(11) mapped_id_grows [OF rm(2)] in \<open>auto intro!: rename_view_cong\<close>)
  ultimately show ?thesis using route rejected by (auto simp: accepted_batch_def spec_reject_def)
qed

lemma multi_next_stream:
  assumes "length (mg_special_commands g) \<le> mg_special_index g" and "available_streams g \<noteq> []"
    and "randbelow (int (length (available_streams g))) (mg_rng g) = (Inr d, s)" and "k = available_streams g ! nat d"
    and "next_generated (mg_streams g ! k) = (Inr gc, b)" and "source = ws_instrument_id (mw_streams (mg_spec g) ! k)"
    and "remap_generated k source (mg_unknown_instrument g) gc (mg_remapper g) = (Inr cmd, rm)"
  obtains gm where "gm_command gm = cmd" "gm_intended_valid gm = gc_intended_valid gc"
    "multi_next g = (Inr gm, record_multi gm (g\<lparr>mg_rng := s, mg_streams := (mg_streams g)[k := b],
       mg_remaining := (mg_remaining g)[k := mg_remaining g ! k - 1], mg_remapper := rm\<rparr>))"
  using assms
  by (intro that [of "\<lparr>gm_command = cmd, gm_source_instrument_id = source, gm_intended_valid = gc_intended_valid gc,
        gm_intent = ''instrument_'' @ py_str source @ ''/'' @ gc_intent gc\<rparr>"])
    (simp_all add: multi_next_def Let_def on_multi_rng_def stream_command_def on_stream_def on_remapper_def
      bindP_def seqP_def modifyP_def getsP_def)

lemma generator_ok_record [simp]: "generator_ok ms vv (record_multi gm g) = generator_ok ms vv g"
  by (simp add: generator_ok_def)

lemma in_step_next:
  assumes st: "in_step ms vv g r" and t: "multi_tame ms" and roomy: "roomy ms" and avail: "available_streams g \<noteq> []"
  obtains gm g' r' vv' es where "multi_next g = (Inr gm, g')"
    "router_execute (gm_command gm) r = (Inr (accepted_result es), r')"
    "accepted_batch \<lparr>batch_events = es\<rparr> \<longleftrightarrow> gm_intended_valid gm" "in_step ms vv' g' r'"
proof -
  let ?sps = "mw_streams ms" and ?sq = "rtr_next_sequence r"
  note s = in_stepD [OF st] and g = generator_okD [OF in_stepD(1) [OF st]]
  have "length (available_streams g) \<le> length ?sps" using g(3) by (simp add: available_streams_def) (metis length_filter_le length_upt minus_nat.diff_0)
  then have n: "1 \<le> int (length (available_streams g))" "int (length (available_streams g)) \<le> 2 ^ 64"
    using avail t by (auto simp: multi_tame_def U32_MAX_def Suc_le_eq)
  from randbelow_returns [OF n, of "mg_rng g"] obtain d sd where d: "randbelow (int (length (available_streams g))) (mg_rng g) = (Inr d, sd)"
    by blast
  define k where "k = available_streams g ! nat d"
  then have "k \<in> set (available_streams g)" using drawn_available [OF d] by simp
  then have k: "k < length ?sps" "mg_remaining g ! k \<noteq> 0" using g(3) by simp_all
  let ?sp = "?sps ! k" and ?b = "mg_streams g ! k"
  have si: "ready ?sp (vv k) (2 * (ws_command_count ?sp - gen_count ?b)) ?b" "gen_count ?b + int (mg_remaining g ! k) \<le> ws_command_count ?sp"
    using g(10) [OF k(1)] by (simp_all add: stream_in_step_def)
  have left: "Suc (sum_list ((mg_remaining g)[k := mg_remaining g ! k - 1])) = sum_list (mg_remaining g)"
    using sum_list_decrement k g(3) by simp
  have cnt: "2 \<le> 2 * (ws_command_count ?sp - gen_count ?b)" "gen_count ?b < ws_command_count ?sp" using si(2) k(2) by auto
  note book = stream_book [OF st t k(1)] and tm = multi_tameD(3) [OF t k(1)]
  from generator_step [OF si(1) book(1) tm cnt, of ?sq] obtain gc b' where
    gc: "next_generated ?b = (Inr gc, b')" "require_representable (gc_command gc) = Inr ()"
      "gc_intended_valid gc \<longleftrightarrow> spec_accepts ?sp (gc_command gc) ?sq (vv k)"
      "ready ?sp (snd (spec_step (ws_engine ?sp) (ws_instrument_id ?sp) (gc_command gc) ?sq (vv k))) (2 * (ws_command_count ?sp - gen_count ?b) - 2) b'"
      "gen_count b' = gen_count ?b + 1" .
  let ?v = "snd (spec_step (ws_engine ?sp) (ws_instrument_id ?sp) (gc_command gc) ?sq (vv k))"
  have room: "rm_next_order_id (mg_remapper g) + 1 \<le> U64_MAX" "0 \<le> mg_unknown_instrument g" using g(5,9) left by auto
  from remap_generated_spec [OF g(8) gc(2) refl room(1,2) g(6), of k "ws_instrument_id ?sp"] obtain cmd rm where
    rm: "remap_generated k (ws_instrument_id ?sp) (mg_unknown_instrument g) gc (mg_remapper g) = (Inr cmd, rm)" "remapper_ok rm"
      "grows (mg_remapper g) rm" "rm_next_order_id rm \<le> rm_next_order_id (mg_remapper g) + 2" "\<forall>i \<in> ids_of (gc_command gc). known rm k i"
      "command_instrument_id cmd = remapped_instrument (ws_instrument_id ?sp) (mg_unknown_instrument g) (command_instrument_id (gc_command gc))"
      "command_instrument_id cmd = command_instrument_id (gc_command gc) \<Longrightarrow> cmd = rename_ids (mapped_id rm k) (gc_command gc)"
      "require_representable cmd = Inr ()" by metis
  from stream_verdict [OF st t roomy k(1) rm(2,3,5,6,7), of ?sq] obtain es where
    es: "spec_route (max_total_active_orders (rtr_config r)) cmd ?sq (venue_of r) = (es, stream_venue ?sps rm (vv(k := ?v)))"
      "accepted_batch \<lparr>batch_events = es\<rparr> \<longleftrightarrow> spec_accepts ?sp (gc_command gc) ?sq (vv k)" by blast
  have "?sq < U64_MAX" using s(6) left by simp
  from routed_step [OF s(2) rm(8) s(3) this es(1)] obtain r' where
    r': "router_execute cmd r = (Inr (accepted_result es), r')" "router_inv r'" "venue_of r' = stream_venue ?sps rm (vv(k := ?v))"
      "rtr_config r' = rtr_config r" "rtr_next_sequence r' = ?sq + 1" "\<not> rtr_sequence_exhausted r'" .
  from multi_next_stream [OF g(4) avail d k_def gc(1) _ rm(1)] g(1) obtain gm where
    gm: "gm_command gm = cmd" "gm_intended_valid gm = gc_intended_valid gc"
      "multi_next g = (Inr gm, record_multi gm (g\<lparr>mg_rng := sd, mg_streams := (mg_streams g)[k := b'],
         mg_remaining := (mg_remaining g)[k := mg_remaining g ! k - 1], mg_remapper := rm\<rparr>))" by blast
  let ?g = "g\<lparr>mg_rng := sd, mg_streams := (mg_streams g)[k := b'],
    mg_remaining := (mg_remaining g)[k := mg_remaining g ! k - 1], mg_remapper := rm\<rparr>"
  have ids: "known rm j i \<and> i \<noteq> 0" if j: "j < length ?sps" and i: "i \<in> view_ids ((vv(k := ?v)) j)" for j i
  proof -
    have kn: "known rm j i"
      using stepped_ids [OF sized_bookD(2) [OF book(1)] gc(2), of i ?sq] i rm(5) g(11) [OF j] g(11) [OF k(1)] known_grows [OF rm(3)]
      by (auto split: if_splits)
    from i obtain sd' x where x: "x \<in> set ((vv(k := ?v)) j sd')" "ord_order_id x = i" by (rule view_idsE)
    have "(ws_instrument_id (?sps ! j), ws_engine (?sps ! j), rename_view (mapped_id rm j) ((vv(k := ?v)) j)) \<in> set (venue_of r')"
      unfolding r'(3) stream_venue_def using j by auto
    from view_okD(2) [OF router_book_ok(1) [OF r'(2) this], of "rename_order (mapped_id rm j) x" sd'] x
    have "1 \<le> mapped_id rm j i" by (auto simp: order_ok_def)
    with kn show ?thesis by auto
  qed
  have "stream_in_step (?sps ! j) ((vv(k := ?v)) j) ((mg_remaining g)[k := mg_remaining g ! k - 1] ! j) ((mg_streams g)[k := b'] ! j)"
    if "j < length ?sps" for j
    using that g(2,3,10) gc(4,5) si(2) k by (cases "j = k") (auto simp: stream_in_step_def algebra_simps)
  then have "generator_ok ms (vv(k := ?v)) ?g"
    using g ids rm(2,4) left unfolding generator_ok_def by auto
  then have "in_step ms (vv(k := ?v)) (record_multi gm ?g) r'"
    using r' s(4,6) left by (simp add: in_step_def)
  with that [of gm "record_multi gm ?g" es r' "vv(k := ?v)"] gm es(2) gc(3) r'(1) show thesis by simp
qed

section \<open>The whole stream\<close>

definition routed_intent_met :: "generated_multi_command \<Rightarrow> reference_result result \<Rightarrow> bool" where
  "routed_intent_met gm r \<longleftrightarrow> (case r of Inl _ \<Rightarrow> False
     | Inr res \<Rightarrow> (case result_batch res of None \<Rightarrow> False | Some batch \<Rightarrow> gm_intended_valid gm = accepted_batch batch))"

lemma no_stream_left:
  assumes "available_streams g = []"
  shows "sum_list (mg_remaining g) = 0"
proof -
  have "x = 0" if "x \<in> set (mg_remaining g)" for x
    using that assms available_streams_iff [of _ g] by (metis empty_iff empty_set in_set_conv_nth)
  then show ?thesis by (simp add: sum_list_eq_0_iff)
qed

lemma streams_run:
  assumes "in_step ms vv g r" and "multi_tame ms" and "roomy ms"
  shows "\<exists>gms g'. multi_drain g = (Inr gms, g') \<and> length gms = sum_list (mg_remaining g) \<and>
    list_all2 routed_intent_met gms (run_routes (map gm_command gms) r)"
  using assms(1)
proof (induction "sum_list (mg_remaining g)" arbitrary: g r vv)
  case 0
  have "available_streams g = []" using 0(1) by (auto simp: available_streams_def filter_empty_conv)
  with generator_okD(4) [OF in_stepD(1) [OF 0(2)]] have "multi_next g = (Inl StopIteration, g)"
    by (simp add: multi_next_def)
  with 0(1) show ?case by (subst multi_drain.simps) simp
next
  case (Suc n)
  have "available_streams g \<noteq> []" using Suc(2) no_stream_left [of g] by linarith
  from in_step_next [OF Suc(3) assms(2,3) this] obtain gm g1 r1 vv1 es where
    step: "multi_next g = (Inr gm, g1)" "router_execute (gm_command gm) r = (Inr (accepted_result es), r1)"
      "accepted_batch \<lparr>batch_events = es\<rparr> \<longleftrightarrow> gm_intended_valid gm" "in_step ms vv1 g1 r1" .
  have "multi_left g = sum_list (mg_remaining g)" "multi_left g1 = sum_list (mg_remaining g1)"
    using generator_okD(4) [OF in_stepD(1) [OF Suc(3)]] generator_okD(4) [OF in_stepD(1) [OF step(4)]] by (simp_all add: multi_left_def)
  with multi_next_left [OF step(1)] Suc(2) have n: "n = sum_list (mg_remaining g1)" by simp
  from Suc(1) [OF n step(4)] obtain gms g2 where
    "multi_drain g1 = (Inr gms, g2)" "length gms = n" "list_all2 routed_intent_met gms (run_routes (map gm_command gms) r1)"
    using n by blast
  with step Suc(2) show ?case
    by (subst multi_drain.simps) (simp add: routed_intent_met_def accepted_result_def)
qed

section \<open>Consuming the budgets\<close>

lemma consume_skips:
  assumes "\<forall>e < d. budgets ! ((index + e) mod length budgets) = 0" and "taken \<noteq> 0"
  shows "consume_stream_budget taken index budgets = consume_stream_budget taken (index + d) budgets"
  using assms(1)
proof (induction d)
  case (Suc d)
  then have "consume_stream_budget taken index budgets = consume_stream_budget taken (index + d) budgets" by simp
  also have "\<dots> = consume_stream_budget taken (index + d + 1) budgets"
    using Suc.prems assms(2) by (subst consume_stream_budget.simps) (simp add: Let_def)
  finally show ?case by simp
qed simp

lemma next_open_budget:
  assumes "sum_list budgets \<noteq> (0 :: nat)"
  obtains d where "\<forall>e < d. budgets ! ((index + e) mod length budgets) = 0" "budgets ! ((index + d) mod length budgets) \<noteq> 0"
proof -
  let ?n = "length budgets"
  from assms obtain k where k: "k < ?n" "budgets ! k \<noteq> 0" by (auto simp: in_set_conv_nth)
  have "(index + (?n - index mod ?n + k)) mod ?n = k"
  proof -
    have "index mod ?n < ?n" using k(1) by (intro mod_less_divisor) linarith
    then have "(index mod ?n + (?n - index mod ?n + k)) mod ?n = (?n + k) mod ?n" by simp
    then show ?thesis using k(1) by (simp add: mod_add_left_eq)
  qed
  then have "\<exists>d. budgets ! ((index + d) mod ?n) \<noteq> 0" using k(2) by metis
  from that [of "LEAST d. budgets ! ((index + d) mod ?n) \<noteq> 0"] LeastI_ex [OF this] not_less_Least show thesis by blast
qed

text \<open>The loop returns whenever the budgets cover the prologue, and takes exactly that much.\<close>

lemma consume_returns:
  assumes "taken \<le> sum_list budgets"
  shows "\<exists>budgets'. consume_stream_budget taken index budgets = Some budgets' \<and> length budgets' = length budgets \<and>
    sum_list budgets' + taken = sum_list budgets \<and> (\<forall>k < length budgets. budgets' ! k \<le> budgets ! k)"
  using assms
proof (induction taken arbitrary: index budgets)
  case 0
  then show ?case by (subst consume_stream_budget.simps) simp
next
  case (Suc taken)
  then have ne: "sum_list budgets \<noteq> 0" by linarith
  then obtain d where d: "\<forall>e < d. budgets ! ((index + e) mod length budgets) = 0" "budgets ! ((index + d) mod length budgets) \<noteq> 0"
    by (rule next_open_budget)
  let ?k = "(index + d) mod length budgets"
  let ?b = "budgets[?k := budgets ! ?k - 1]"
  have "budgets \<noteq> []" using ne by auto
  then have k: "?k < length budgets" by simp
  have sum: "Suc (sum_list ?b) = sum_list budgets" by (rule sum_list_decrement [OF k d(2)])
  have "consume_stream_budget (Suc taken) index budgets = consume_stream_budget (Suc taken) (index + d) budgets"
    by (rule consume_skips [OF d(1)]) simp
  also have "\<dots> = consume_stream_budget taken (index + d + 1) ?b"
    using d(2) by (subst consume_stream_budget.simps) (simp add: Let_def)
  finally have eq: "consume_stream_budget (Suc taken) index budgets = consume_stream_budget taken (index + d + 1) ?b" .
  have "taken \<le> sum_list ?b" using Suc.prems sum by simp
  from Suc.IH [OF this, of "index + d + 1"] obtain b where b: "consume_stream_budget taken (index + d + 1) ?b = Some b"
    "length b = length budgets" "sum_list b + taken = sum_list ?b" "\<forall>j < length budgets. b ! j \<le> ?b ! j" by auto
  have "b ! j \<le> budgets ! j" if "j < length budgets" for j
    using b(4) that by (cases "j = ?k") (auto simp: nth_list_update intro: order_trans)
  with b eq sum show ?case by auto
qed

section \<open>Running a list of commands through the specification\<close>

fun spec_routes :: "int \<Rightarrow> command list \<Rightarrow> int \<Rightarrow> venue \<Rightarrow> event list list \<times> venue" where
  "spec_routes limit [] sq vs = ([], vs)"
| "spec_routes limit (cmd # cmds) sq vs =
     (let (es, vs1) = spec_route limit cmd sq vs; (ess, vs2) = spec_routes limit cmds (sq + 1) vs1 in (es # ess, vs2))"

lemma spec_routes_append:
  "spec_routes limit (cmds @ cmds') sq vs =
     (let (ess, vs1) = spec_routes limit cmds sq vs; (ess', vs2) = spec_routes limit cmds' (sq + int (length cmds)) vs1 in
      (ess @ ess', vs2))"
  by (induction cmds arbitrary: sq vs) (auto simp: Let_def algebra_simps split: prod.splits)

lemma run_routes_spec:
  assumes "router_inv r" and "\<not> rtr_sequence_exhausted r" and "\<forall>cmd \<in> set cmds. require_representable cmd = Inr ()"
    and "rtr_next_sequence r + int (length cmds) \<le> U64_MAX"
    and "spec_routes (max_total_active_orders (rtr_config r)) cmds (rtr_next_sequence r) (venue_of r) = (ess, vs)"
  shows "\<exists>r'. r' = foldl (\<lambda>r cmd. snd (router_execute cmd r)) r cmds \<and> (\<forall>cs. run_routes (cmds @ cs) r = map (\<lambda>es. Inr (accepted_result es)) ess @ run_routes cs r') \<and>
    router_inv r' \<and> \<not> rtr_sequence_exhausted r' \<and> venue_of r' = vs \<and> rtr_config r' = rtr_config r \<and>
    rtr_next_sequence r' = rtr_next_sequence r + int (length cmds)"
  using assms
proof (induction cmds arbitrary: r ess)
  case (Cons cmd cmds)
  obtain es vs1 where route: "spec_route (max_total_active_orders (rtr_config r)) cmd (rtr_next_sequence r) (venue_of r) = (es, vs1)"
    by fastforce
  have "require_representable cmd = Inr ()" "rtr_next_sequence r < U64_MAX" using Cons.prems(3,4) by simp_all
  from routed_step [OF Cons.prems(1) this(1) Cons.prems(2) this(2) route] obtain r1 where
    r1: "router_execute cmd r = (Inr (accepted_result es), r1)" "router_inv r1" "venue_of r1 = vs1" "rtr_config r1 = rtr_config r"
      "rtr_next_sequence r1 = rtr_next_sequence r + 1" "\<not> rtr_sequence_exhausted r1" .
  obtain ess1 where ess1: "spec_routes (max_total_active_orders (rtr_config r1)) cmds (rtr_next_sequence r1) (venue_of r1) = (ess1, vs)"
    "ess = es # ess1"
    using Cons.prems(5) route r1 by (auto split: prod.splits)
  have "\<forall>cmd \<in> set cmds. require_representable cmd = Inr ()" "rtr_next_sequence r1 + int (length cmds) \<le> U64_MAX"
    using Cons.prems(3,4) r1(5) by simp_all
  from Cons.IH [OF r1(2,6) this ess1(1)] r1 ess1(2) show ?case by (auto simp: algebra_simps)
qed auto
end
