(* ===== verification/Multi_Prologue.thy ===== *)
theory Multi_Prologue
  imports Multi_Intents
begin

text \<open>
  The prologue of a multi-instrument workload, played against the abstract venue: every command of it has the
  outcome its intent names, and the books are empty again when it ends.  During the prologue the venue holds
  unit bids only; such a venue is described by the list of its fills: stream, identifier, sequence number.
\<close>

section \<open>Venues of unit bids\<close>

type_synonym fill = "nat \<times> int \<times> int"

definition unit_bid :: "workload_spec \<Rightarrow> int \<times> int \<Rightarrow> order" where
  "unit_bid sp f =
     \<lparr>ord_order_id = fst f, ord_client_id = 1, ord_instrument_id = ws_instrument_id sp, ord_side = BUY,
      ord_price = tick_increment (ws_engine sp), ord_remaining_quantity = 1, ord_priority_sequence = snd f\<rparr>"

definition bids_of :: "nat \<Rightarrow> fill list \<Rightarrow> (int \<times> int) list" where
  "bids_of k fs = map snd (filter (\<lambda>f. fst f = k) fs)"

definition bid_view :: "workload_spec \<Rightarrow> (int \<times> int) list \<Rightarrow> view" where
  "bid_view sp xs = (\<lambda>sd. case sd of BUY \<Rightarrow> map (unit_bid sp) xs | SELL \<Rightarrow> [])"

definition bid_venue :: "workload_spec list \<Rightarrow> fill list \<Rightarrow> venue" where
  "bid_venue sps fs = map (\<lambda>k. (ws_instrument_id (sps ! k), ws_engine (sps ! k), bid_view (sps ! k) (bids_of k fs))) [0..<length sps]"

lemma bid_view_simps [simp]: "bid_view sp xs BUY = map (unit_bid sp) xs" "bid_view sp xs SELL = []"
  by (simp_all add: bid_view_def)

lemma unit_bid_simps [simp]:
  "ord_order_id (unit_bid sp f) = fst f" "ord_client_id (unit_bid sp f) = 1" "ord_instrument_id (unit_bid sp f) = ws_instrument_id sp"
  "ord_side (unit_bid sp f) = BUY" "ord_price (unit_bid sp f) = tick_increment (ws_engine sp)"
  "ord_remaining_quantity (unit_bid sp f) = 1" "ord_priority_sequence (unit_bid sp f) = snd f"
  by (simp_all add: unit_bid_def)

lemma bids_of_append [simp]: "bids_of k (fs @ gs) = bids_of k fs @ bids_of k gs"
  by (simp add: bids_of_def)

lemma bids_of_simps [simp]: "bids_of k [] = []" "bids_of k (f # fs) = (if fst f = k then snd f # bids_of k fs else bids_of k fs)"
  by (simp_all add: bids_of_def)

lemma view_orders_bids [simp]: "view_orders (bid_view sp xs) = map (unit_bid sp) xs"
  by (simp add: view_orders_def)

text \<open>A bid venue of known streams.\<close>

definition fills_ok :: "workload_spec list \<Rightarrow> fill list \<Rightarrow> bool" where
  "fills_ok sps fs \<longleftrightarrow> distinct (map ws_instrument_id sps) \<and> (\<forall>f \<in> set fs. fst f < length sps) \<and> distinct (map (fst \<circ> snd) fs)"

definition held :: "fill list \<Rightarrow> int set" where
  "held fs = (fst \<circ> snd) ` set fs"

lemma set_bid_orders:
  assumes "\<forall>f \<in> set fs. fst f < length sps"
  shows "set (venue_orders (bid_venue sps fs)) = (\<lambda>(k, f). unit_bid (sps ! k) f) ` set fs"
proof (intro equalityI subsetI)
  fix x assume "x \<in> set (venue_orders (bid_venue sps fs))"
  then obtain k f where "x = unit_bid (sps ! k) f" "(k, f) \<in> set fs" by (auto simp: venue_orders_def bid_venue_def bids_of_def)
  then show "x \<in> (\<lambda>(k, f). unit_bid (sps ! k) f) ` set fs" by (metis (mono_tags, lifting) case_prod_conv image_eqI)
next
  fix x assume "x \<in> (\<lambda>(k, f). unit_bid (sps ! k) f) ` set fs"
  then obtain k f where x: "x = unit_bid (sps ! k) f" "(k, f) \<in> set fs" by auto
  then have "f \<in> set (bids_of k fs)" "k < length sps" using assms by (force simp: bids_of_def)+
  with x(1) show "x \<in> set (venue_orders (bid_venue sps fs))" by (auto simp: venue_orders_def bid_venue_def)
qed

lemma length_bid_orders:
  assumes "\<forall>f \<in> set fs. fst f < length sps"
  shows "length (venue_orders (bid_venue sps fs)) = length fs"
proof -
  have "length (venue_orders (bid_venue sps fs)) = (\<Sum>k = 0..<length sps. length (bids_of k fs))"
    by (simp add: venue_orders_def bid_venue_def length_concat comp_def interv_sum_list_conv_sum_set_nat)
  also have "\<dots> = length fs"
    using assms
  proof (induction fs)
    case (Cons f fs)
    have "(\<Sum>k = 0..<length sps. length (bids_of k (f # fs))) =
        (\<Sum>k = 0..<length sps. (if fst f = k then 1 else 0) + length (bids_of k fs))" by (rule sum.cong) simp_all
    with Cons show ?case by (simp add: sum.distrib)
  qed simp
  finally show ?thesis .
qed

lemma find_bid_None: "\<forall>f \<in> set fs. fst f < length sps \<Longrightarrow> oid \<notin> held fs \<Longrightarrow> find_venue_order oid (bid_venue sps fs) = None"
  unfolding find_venue_order_def find_None_iff by (force simp: set_bid_orders held_def)

lemma find_bid_Some:
  assumes "fills_ok sps fs" and "(k, oid, sq) \<in> set fs"
  shows "find_venue_order oid (bid_venue sps fs) = Some (unit_bid (sps ! k) (oid, sq))"
proof -
  have fs: "\<forall>f \<in> set fs. fst f < length sps" "inj_on (fst \<circ> snd) (set fs)" using assms(1) by (simp_all add: fills_ok_def distinct_map)
  have mem: "unit_bid (sps ! k) (oid, sq) \<in> set (venue_orders (bid_venue sps fs))"
    unfolding set_bid_orders [OF fs(1)] using assms(2) by force
  have "find_venue_order oid (bid_venue sps fs) \<noteq> None"
    unfolding find_venue_order_def find_None_iff using mem by (auto intro!: bexI [OF _ mem])
  then obtain x where x: "find_venue_order oid (bid_venue sps fs) = Some x" by blast
  then obtain i where "i < length (venue_orders (bid_venue sps fs))" "x = venue_orders (bid_venue sps fs) ! i" "ord_order_id x = oid"
    unfolding find_venue_order_def find_Some_iff by blast
  then have "x \<in> set (venue_orders (bid_venue sps fs))" "ord_order_id x = oid" by simp_all
  then obtain j sq' where "(j, oid, sq') \<in> set fs" "x = unit_bid (sps ! j) (oid, sq')" unfolding set_bid_orders [OF fs(1)] by auto
  with inj_onD [OF fs(2), of "(j, oid, sq')" "(k, oid, sq)"] assms(2) x show ?thesis by simp
qed

lemma bid_venue_keys [simp]: "map fst (bid_venue sps fs) = map ws_instrument_id sps"
  by (rule nth_equalityI) (simp_all add: bid_venue_def)

lemma bid_venue_lookup:
  assumes "fills_ok sps fs" and "k < length sps"
  shows "map_of (bid_venue sps fs) (ws_instrument_id (sps ! k)) = Some (ws_engine (sps ! k), bid_view (sps ! k) (bids_of k fs))"
proof (rule map_of_is_SomeI)
  show "distinct (map fst (bid_venue sps fs))" using assms(1) by (simp add: fills_ok_def)
  show "(ws_instrument_id (sps ! k), ws_engine (sps ! k), bid_view (sps ! k) (bids_of k fs)) \<in> set (bid_venue sps fs)"
    using assms(2) by (auto simp: bid_venue_def)
qed

lemma bid_venue_update:
  assumes "fills_ok sps fs" and "k < length sps" and "\<And>j. j < length sps \<Longrightarrow> bids_of j gs = (if j = k then xs else bids_of j fs)"
  shows "AList.update (ws_instrument_id (sps ! k)) (ws_engine (sps ! k), bid_view (sps ! k) xs) (bid_venue sps fs) = bid_venue sps gs"
proof -
  have "fst (bid_venue sps fs ! k) = ws_instrument_id (sps ! k)" "length (bid_venue sps fs) = length sps"
    using assms(2) by (simp_all add: bid_venue_def)
  with update_nth_key [of "bid_venue sps fs" k "(ws_engine (sps ! k), bid_view (sps ! k) xs)"] assms(1,2)
  have "AList.update (ws_instrument_id (sps ! k)) (ws_engine (sps ! k), bid_view (sps ! k) xs) (bid_venue sps fs) =
      (bid_venue sps fs)[k := (ws_instrument_id (sps ! k), ws_engine (sps ! k), bid_view (sps ! k) xs)]" by (simp add: fills_ok_def)
  also have "\<dots> = bid_venue sps gs"
    by (rule nth_equalityI) (simp_all add: bid_venue_def nth_list_update assms(3))
  finally show ?thesis .
qed

section \<open>The outcomes of the prologue's commands\<close>

definition reject_of :: "event list \<Rightarrow> reject_reason option" where
  "reject_of es = (case hd es of RejectedEvent h ct reason oid \<Rightarrow> Some reason | _ \<Rightarrow> None)"

lemma reject_of_reject [simp]: "reject_of (spec_reject iid sq ct rj) = Some (rej_reason rj)"
  by (simp add: reject_of_def spec_reject_def)

lemma reject_of_accepts:
  assumes "accepts c iid cmd sq v"
  shows "reject_of (fst (spec_step c iid cmd sq v)) = None"
  using spec_step_accepts_hd [OF assms] by (auto simp: reject_of_def split: event.splits)

lemma unit_order_shape:
  assumes "1 \<le> oid" and "1 \<le> iid" and "1 \<le> price"
  shows "router_shape_rejection (unit_order 1 oid iid price) = None"
  using assms by (simp add: unit_order_def validate_new_shape_def is_valid_side_def is_valid_order_type_def is_valid_time_in_force_def)

definition unit_new :: "workload_spec \<Rightarrow> int \<Rightarrow> new_order" where
  "unit_new sp oid =
     \<lparr>new_client_id = 1, new_order_id = oid, new_instrument_id = ws_instrument_id sp, new_side = 1, new_order_type = 1,
      new_time_in_force = 1, new_limit_price = Some (tick_increment (ws_engine sp)), new_quantity = 1\<rparr>"

abbreviation stream_bid :: "workload_spec \<Rightarrow> int \<Rightarrow> command" where
  "stream_bid sp oid \<equiv> unit_order 1 oid (ws_instrument_id sp) (tick_increment (ws_engine sp))"

lemma stream_bid_new: "stream_bid sp oid = NewOrder (unit_new sp oid)"
  by (simp add: unit_order_def unit_new_def)

lemma unit_new_fields [simp]:
  "new_client_id (unit_new sp oid) = 1" "new_order_id (unit_new sp oid) = oid" "new_instrument_id (unit_new sp oid) = ws_instrument_id sp"
  "new_side (unit_new sp oid) = 1" "new_limit_price (unit_new sp oid) = Some (tick_increment (ws_engine sp))"
  "new_quantity (unit_new sp oid) = 1" "residual_rests (unit_new sp oid) n \<longleftrightarrow> n \<noteq> 0"
  by (simp_all add: unit_new_def residual_rests_def)

lemma side_of_one [simp]: "side_of 1 = BUY"
  by (simp add: side_of_def)

lemma bid_added: "spec_add BUY (unit_new sp oid) sq (bid_view sp xs) = ([], 1, bid_view sp (xs @ [(oid, sq)]))"
proof -
  have "rested_order (unit_new sp oid) BUY (tick_increment (ws_engine sp)) 1 sq = unit_bid sp (oid, sq)"
    by (simp add: rested_order_def unit_new_def unit_bid_def)
  moreover have "spec_insert BUY (unit_bid sp (oid, sq)) (map (unit_bid sp) xs) = map (unit_bid sp) (xs @ [(oid, sq)])"
    by (simp add: spec_insert_def Let_def takeWhile_map dropWhile_map comp_def takeWhile_eq_all_conv [THEN iffD2])
  ultimately show ?thesis by (auto simp: spec_add_def bid_view_def fun_eq_iff split: side.splits)
qed

lemma bid_level: "level_quantity (map (unit_bid sp) xs) (tick_increment (ws_engine sp)) = int (length xs)"
  by (induction xs) simp_all

lemma bid_fits:
  assumes "max_active_orders (ws_engine sp) \<le> U64_MAX"
  shows "spec_fits (ws_engine sp) BUY (unit_new sp oid) sq (bid_view sp xs) \<longleftrightarrow> int (length xs) < max_active_orders (ws_engine sp)"
  using assms bid_level [of sp "xs @ [(oid, sq)]"] by (auto simp: spec_fits_def bid_added fits_def)

lemma tame_stream:
  assumes "list_all tame sps" and "k < length sps"
  shows "1 \<le> ws_instrument_id (sps ! k)" and "ws_instrument_id (sps ! k) \<le> U32_MAX"
    and "1 \<le> tick_increment (ws_engine (sps ! k))" and "tick_increment (ws_engine (sps ! k)) \<le> I64_MAX"
    and "1 \<le> max_order_quantity (ws_engine (sps ! k))" and "max_active_orders (ws_engine (sps ! k)) \<le> U64_MAX"
    and "0 \<le> max_active_orders (ws_engine (sps ! k))"
proof -
  have "spec_valid (sps ! k)" using assms by (simp add: list_all_length tame_def)
  from spec_validD(2,3,19) [OF this] show "1 \<le> ws_instrument_id (sps ! k)" "ws_instrument_id (sps ! k) \<le> U32_MAX"
    "1 \<le> tick_increment (ws_engine (sps ! k))" "tick_increment (ws_engine (sps ! k)) \<le> I64_MAX"
    "1 \<le> max_order_quantity (ws_engine (sps ! k))" "max_active_orders (ws_engine (sps ! k)) \<le> U64_MAX"
    "0 \<le> max_active_orders (ws_engine (sps ! k))" by (simp_all add: matching_config_ok_def)
qed

text \<open>The screen a unit bid meets, by what the venue holds.\<close>

lemma bid_screen:
  assumes "list_all tame sps" and "fills_ok sps fs" and "k < length sps"
  shows "spec_screen limit (stream_bid (sps ! k) oid) sq (bid_venue sps fs) (ws_engine (sps ! k)) (bid_view (sps ! k) (bids_of k fs)) =
    (if find_venue_order oid (bid_venue sps fs) \<noteq> None then Some \<lparr>rej_reason = DUPLICATE_ORDER_ID, rej_order_id = Some oid\<rparr>
     else if int (length (bids_of k fs)) < max_active_orders (ws_engine (sps ! k)) \<and> int (length fs) < limit then None
     else Some \<lparr>rej_reason = CAPACITY_EXCEEDED, rej_order_id = Some oid\<rparr>)"
proof -
  let ?sp = "sps ! k" and ?xs = "bids_of k fs"
  note t = tame_stream [OF assms(1,3)]
  have len: "int (length (venue_orders (bid_venue sps fs))) = int (length fs)"
    using length_bid_orders assms(2) by (simp add: fills_ok_def)
  note fits = bid_fits [OF t(6), of oid sq ?xs]
  have venue: "venue_fits limit (int (length (venue_orders (bid_venue sps fs))) - int (length (view_orders (bid_view ?sp ?xs))))
      BUY (unit_new ?sp oid) sq (bid_view ?sp ?xs) \<longleftrightarrow> int (length fs) < limit"
    by (auto simp: venue_fits_def bid_added len)
  show ?thesis unfolding stream_bid_new using t(5) by (simp add: Let_def fits venue del: view_orders_bids)
qed

lemma route_bid:
  assumes "list_all tame sps" and "fills_ok sps fs" and "k < length sps" and "1 \<le> oid"
  shows "spec_route limit (stream_bid (sps ! k) oid) sq (bid_venue sps fs) =
    (case spec_screen limit (stream_bid (sps ! k) oid) sq (bid_venue sps fs) (ws_engine (sps ! k)) (bid_view (sps ! k) (bids_of k fs)) of
       Some rj \<Rightarrow> (spec_reject (ws_instrument_id (sps ! k)) sq NEW rj, bid_venue sps fs)
     | None \<Rightarrow> (let (es, v) = spec_step (ws_engine (sps ! k)) (ws_instrument_id (sps ! k)) (stream_bid (sps ! k) oid) sq
                 (bid_view (sps ! k) (bids_of k fs)) in
               (es, AList.update (ws_instrument_id (sps ! k)) (ws_engine (sps ! k), v) (bid_venue sps fs))))"
proof -
  note t = tame_stream [OF assms(1,3)]
  have iid: "command_instrument_id (stream_bid (sps ! k) oid) = ws_instrument_id (sps ! k)"
    "command_type_of (stream_bid (sps ! k) oid) = NEW" by (simp_all add: unit_order_def)
  show ?thesis
    unfolding spec_route_def Let_def iid bid_venue_lookup [OF assms(2,3)] unit_order_shape [OF assms(4) t(1,3)] by simp
qed

lemma find_own_None:
  assumes "find_venue_order oid vs = None" and "map_of vs iid = Some (c, v)"
  shows "find_order oid v = None"
proof -
  have "(iid, c, v) \<in> set vs" using assms(2) by (rule map_of_SomeD)
  then have "set (view_orders v) \<subseteq> set (venue_orders vs)" by (force simp: venue_orders_def)
  with assms(1) show ?thesis unfolding find_venue_order_def find_order_def find_None_iff view_orders_def by blast
qed

lemma bid_accepted:
  assumes t: "list_all tame sps" and fs: "fills_ok sps fs" and k: "k < length sps" and oid: "1 \<le> oid" "oid \<notin> held fs"
    and room: "int (length (bids_of k fs)) < max_active_orders (ws_engine (sps ! k))" "int (length fs) < limit"
  shows "\<exists>es. spec_route limit (stream_bid (sps ! k) oid) sq (bid_venue sps fs) = (es, bid_venue sps (fs @ [(k, oid, sq)])) \<and>
    accepted_batch \<lparr>batch_events = es\<rparr> \<and> reject_of es = None"
proof -
  let ?sp = "sps ! k" and ?v = "bid_view (sps ! k) (bids_of k fs)"
  let ?step = "spec_step (ws_engine ?sp) (ws_instrument_id ?sp) (stream_bid ?sp oid) sq ?v"
  have none: "find_venue_order oid (bid_venue sps fs) = None" using find_bid_None [OF _ oid(2)] fs by (simp add: fills_ok_def)
  have screen: "spec_screen limit (stream_bid ?sp oid) sq (bid_venue sps fs) (ws_engine ?sp) ?v = None"
    unfolding bid_screen [OF t fs k] using none room by simp
  have acc: "accepts (ws_engine ?sp) (ws_instrument_id ?sp) (stream_bid ?sp oid) sq ?v"
  proof -
    note s = tame_stream [OF t k]
    have "validate_new_shape (unit_new ?sp oid) = NONE"
      using unit_order_shape [OF oid(1) s(1,3)] by (simp add: stream_bid_new Let_def split: if_splits)
    then show ?thesis
      using find_own_None [OF none bid_venue_lookup [OF fs k]] s(5) bid_fits [OF s(6)] room(1)
      by (simp add: stream_bid_new accepts_new_def)
  qed
  have "snd ?step = bid_view ?sp (bids_of k fs @ [(oid, sq)])"
    using spec_new_accepts [of "ws_engine ?sp" "ws_instrument_id ?sp" "unit_new ?sp oid" sq ?v] acc
    by (simp add: stream_bid_new spec_aggress_view bid_added)
  moreover have "AList.update (ws_instrument_id ?sp) (ws_engine ?sp, bid_view ?sp (bids_of k fs @ [(oid, sq)])) (bid_venue sps fs) =
      bid_venue sps (fs @ [(k, oid, sq)])" by (rule bid_venue_update [OF fs k]) simp
  moreover have "accepted_batch \<lparr>batch_events = fst ?step\<rparr>" using acc by (simp add: verdict_accepts)
  ultimately show ?thesis
    using route_bid [OF t fs k oid(1), of limit sq] screen reject_of_accepts [OF acc] by (auto split: prod.splits)
qed

lemma bid_rejected:
  assumes t: "list_all tame sps" and fs: "fills_ok sps fs" and k: "k < length sps" and oid: "1 \<le> oid"
  shows "oid \<in> held fs \<Longrightarrow> spec_route limit (stream_bid (sps ! k) oid) sq (bid_venue sps fs) =
      (spec_reject (ws_instrument_id (sps ! k)) sq NEW \<lparr>rej_reason = DUPLICATE_ORDER_ID, rej_order_id = Some oid\<rparr>, bid_venue sps fs)"
    and "oid \<notin> held fs \<Longrightarrow> limit \<le> int (length fs) \<Longrightarrow> spec_route limit (stream_bid (sps ! k) oid) sq (bid_venue sps fs) =
      (spec_reject (ws_instrument_id (sps ! k)) sq NEW \<lparr>rej_reason = CAPACITY_EXCEEDED, rej_order_id = Some oid\<rparr>, bid_venue sps fs)"
proof -
  note route = route_bid [OF t fs k oid, of limit sq, unfolded bid_screen [OF t fs k]]
  show "oid \<in> held fs \<Longrightarrow> spec_route limit (stream_bid (sps ! k) oid) sq (bid_venue sps fs) =
      (spec_reject (ws_instrument_id (sps ! k)) sq NEW \<lparr>rej_reason = DUPLICATE_ORDER_ID, rej_order_id = Some oid\<rparr>, bid_venue sps fs)"
    unfolding route using find_bid_Some [OF fs] by (force simp: held_def)
  assume "oid \<notin> held fs" "limit \<le> int (length fs)"
  then have "find_venue_order oid (bid_venue sps fs) = None" using find_bid_None fs by (simp add: fills_ok_def)
  with \<open>limit \<le> int (length fs)\<close> show "spec_route limit (stream_bid (sps ! k) oid) sq (bid_venue sps fs) =
      (spec_reject (ws_instrument_id (sps ! k)) sq NEW \<lparr>rej_reason = CAPACITY_EXCEEDED, rej_order_id = Some oid\<rparr>, bid_venue sps fs)"
    unfolding route by simp
qed

text \<open>A cancel of the oldest bid takes it off; what it leaves is the venue of the later bids.\<close>

lemma unit_cancel_shape:
  assumes "client \<noteq> 0" and "oid \<noteq> 0" and "iid \<noteq> 0"
  shows "router_shape_rejection (unit_cancel client oid iid) = None"
  using assms by (simp add: unit_cancel_def validate_cancel_shape_def)

lemma fills_ok_tail:
  assumes "fills_ok sps ((k, oid, sq) # fs)"
  shows "fills_ok sps fs" and "oid \<notin> held fs" and "k < length sps"
  using assms by (auto simp: fills_ok_def held_def)

lemma bid_removed:
  assumes "oid \<notin> fst ` set xs"
  shows "spec_remove_order oid (bid_view sp ((oid, sq) # xs)) = bid_view sp xs"
proof -
  have "filter (\<lambda>ord. ord_order_id ord \<noteq> oid) (map (unit_bid sp) xs) = map (unit_bid sp) xs"
    using assms by (auto simp: filter_id_conv rev_image_eqI)
  then show ?thesis by (simp add: spec_remove_order_def spec_remove_def bid_view_def fun_eq_iff split: side.splits)
qed

lemma oldest_cancelled:
  assumes t: "list_all tame sps" and fs: "fills_ok sps ((k, oid, sq0) # fs)" and oid: "1 \<le> oid"
  shows "\<exists>es. spec_route limit (unit_cancel 1 oid (ws_instrument_id (sps ! k))) sq (bid_venue sps ((k, oid, sq0) # fs)) =
      (es, bid_venue sps fs) \<and> accepted_batch \<lparr>batch_events = es\<rparr> \<and> reject_of es = None"
proof -
  let ?fs = "(k, oid, sq0) # fs" and ?sp = "sps ! k" and ?iid = "ws_instrument_id (sps ! k)"
  let ?v = "bid_view ?sp (bids_of k ?fs)" and ?cmd = "unit_cancel 1 oid (ws_instrument_id (sps ! k))"
  note tl = fills_ok_tail [OF fs]
  note st = tame_stream [OF t tl(3)]
  let ?step = "spec_step (ws_engine ?sp) ?iid ?cmd sq ?v"
  have shape: "router_shape_rejection ?cmd = None" using oid st(1) by (intro unit_cancel_shape) auto
  have found: "find_venue_order oid (bid_venue sps ?fs) = Some (unit_bid ?sp (oid, sq0))" by (rule find_bid_Some [OF fs]) simp
  have own: "find_order oid ?v = Some (unit_bid ?sp (oid, sq0))" by (simp add: find_order_def)
  have acc: "accepts (ws_engine ?sp) ?iid ?cmd sq ?v"
    using shape own by (simp add: unit_cancel_def accepts_cancel_def Let_def split: if_splits)
  have "oid \<notin> fst ` set (bids_of k fs)" using tl(2) by (force simp: held_def bids_of_def)
  then have "snd ?step = bid_view ?sp (bids_of k fs)"
    using spec_cancel_accepts [of ?iid _ ?v sq] acc bid_removed [of oid _ ?sp sq0] by (simp add: unit_cancel_def)
  moreover have "AList.update ?iid (ws_engine ?sp, bid_view ?sp (bids_of k fs)) (bid_venue sps ?fs) = bid_venue sps fs"
    by (rule bid_venue_update [OF fs tl(3)]) simp
  moreover have "spec_route limit ?cmd sq (bid_venue sps ?fs) = (let (es, v) = ?step in (es, AList.update ?iid (ws_engine ?sp, v) (bid_venue sps ?fs)))"
  proof -
    have "spec_screen limit ?cmd sq (bid_venue sps ?fs) c v = None" for c v
      using found by (simp add: unit_cancel_def)
    moreover have "command_instrument_id ?cmd = ?iid" by (simp add: unit_cancel_def)
    ultimately show ?thesis
      unfolding spec_route_def Let_def using shape bid_venue_lookup [OF fs tl(3)] by (simp split: prod.splits)
  qed
  moreover have "accepted_batch \<lparr>batch_events = fst ?step\<rparr>" using acc by (simp add: verdict_accepts)
  ultimately show ?thesis using reject_of_accepts [OF acc] by (auto split: prod.splits)
qed

text \<open>Cancels and replacements of a bid of stream \<open>k\<close> that name the wrong client, or the instrument of stream \<open>j\<close>.\<close>

lemma cancel_rejected:
  assumes t: "list_all tame sps" and fs: "fills_ok sps fs" and held: "(k, oid, sq0) \<in> set fs" and oid: "1 \<le> oid"
    and j: "j < length sps" "j \<noteq> k" and client: "client \<noteq> 0"
  shows "spec_route limit (unit_cancel client oid (ws_instrument_id (sps ! j))) sq (bid_venue sps fs) =
    (spec_reject (ws_instrument_id (sps ! j)) sq CANCEL
      \<lparr>rej_reason = (if client = 1 then INSTRUMENT_MISMATCH else OWNERSHIP_MISMATCH), rej_order_id = Some oid\<rparr>, bid_venue sps fs)"
proof -
  let ?cmd = "unit_cancel client oid (ws_instrument_id (sps ! j))"
  have shape: "router_shape_rejection ?cmd = None" using oid tame_stream(1) [OF t j(1)] client by (intro unit_cancel_shape) auto
  have k: "k < length sps" using fs held by (auto simp: fills_ok_def)
  then have "ws_instrument_id (sps ! k) \<noteq> ws_instrument_id (sps ! j)"
    using fs j unfolding fills_ok_def distinct_conv_nth by simp
  then have "spec_screen limit ?cmd sq (bid_venue sps fs) c v =
      Some \<lparr>rej_reason = (if client = 1 then INSTRUMENT_MISMATCH else OWNERSHIP_MISMATCH), rej_order_id = Some oid\<rparr>" for c v
    using find_bid_Some [OF fs held] by (simp add: unit_cancel_def)
  moreover have "command_instrument_id ?cmd = ws_instrument_id (sps ! j)" "command_type_of ?cmd = CANCEL" by (simp_all add: unit_cancel_def)
  ultimately show ?thesis unfolding spec_route_def Let_def using shape bid_venue_lookup [OF fs j(1)] by simp
qed

lemma replace_rejected:
  assumes t: "list_all tame sps" and fs: "fills_ok sps fs" and held: "(k, oid, sq0) \<in> set fs" and oid: "1 \<le> oid" "1 \<le> nid" "nid \<noteq> oid"
    and j: "j < length sps" "j \<noteq> k" and client: "client \<noteq> 0"
  shows "spec_route limit (unit_replace client oid nid (ws_instrument_id (sps ! j)) (tick_increment (ws_engine (sps ! j)))) sq (bid_venue sps fs) =
    (spec_reject (ws_instrument_id (sps ! j)) sq REPLACE
      \<lparr>rej_reason = (if client = 1 then INSTRUMENT_MISMATCH else OWNERSHIP_MISMATCH), rej_order_id = Some oid\<rparr>, bid_venue sps fs)"
proof -
  let ?cmd = "unit_replace client oid nid (ws_instrument_id (sps ! j)) (tick_increment (ws_engine (sps ! j)))"
  note st = tame_stream [OF t j(1)]
  have shape: "router_shape_rejection ?cmd = None"
    using oid st(1,3) client by (simp add: unit_replace_def validate_replace_shape_def)
  have k: "k < length sps" using fs held by (auto simp: fills_ok_def)
  then have "ws_instrument_id (sps ! k) \<noteq> ws_instrument_id (sps ! j)"
    using fs j unfolding fills_ok_def distinct_conv_nth by simp
  then have "spec_screen limit ?cmd sq (bid_venue sps fs) (ws_engine (sps ! j)) v =
      Some \<lparr>rej_reason = (if client = 1 then INSTRUMENT_MISMATCH else OWNERSHIP_MISMATCH), rej_order_id = Some oid\<rparr>" for v
    using find_bid_Some [OF fs held] st(5) by (simp add: unit_replace_def Let_def)
  moreover have "command_instrument_id ?cmd = ws_instrument_id (sps ! j)" "command_type_of ?cmd = REPLACE" by (simp_all add: unit_replace_def)
  ultimately show ?thesis unfolding spec_route_def Let_def using shape bid_venue_lookup [OF fs j(1)] by simp
qed

section \<open>Playing a prologue\<close>

text \<open>What each intent of the prologue promises: the reason of its rejection, or acceptance when none is listed.\<close>

definition prologue_reasons :: "(string \<times> reject_reason) list" where
  "prologue_reasons =
     [(''multi/cross_book_duplicate_id'', DUPLICATE_ORDER_ID),
      (''multi/routed_cancel_ownership_precedence'', OWNERSHIP_MISMATCH),
      (''multi/routed_cancel_instrument_mismatch'', INSTRUMENT_MISMATCH),
      (''multi/routed_replace_ownership_precedence'', OWNERSHIP_MISMATCH),
      (''multi/routed_replace_instrument_mismatch'', INSTRUMENT_MISMATCH),
      (''multi/global_capacity_exceeded'', CAPACITY_EXCEEDED)]"

definition special_met :: "generated_multi_command \<Rightarrow> event list \<Rightarrow> bool" where
  "special_met gm es \<longleftrightarrow> (accepted_batch \<lparr>batch_events = es\<rparr> \<longleftrightarrow> gm_intended_valid gm) \<and>
     reject_of es = map_of prologue_reasons (gm_intent gm)"

definition played :: "int \<Rightarrow> generated_multi_command \<Rightarrow> int \<Rightarrow> venue \<Rightarrow> venue \<Rightarrow> bool" where
  "played limit gm sq vs vs' \<longleftrightarrow> require_representable (gm_command gm) = Inr () \<and>
     (\<exists>es. spec_route limit (gm_command gm) sq vs = (es, vs') \<and> special_met gm es)"

fun plays :: "int \<Rightarrow> generated_multi_command list \<Rightarrow> int \<Rightarrow> venue \<Rightarrow> venue \<Rightarrow> bool" where
  "plays limit [] sq vs vs' \<longleftrightarrow> vs' = vs"
| "plays limit (gm # gms) sq vs vs' \<longleftrightarrow> (\<exists>vs1. played limit gm sq vs vs1 \<and> plays limit gms (sq + 1) vs1 vs')"

lemma plays_append:
  "plays limit gms sq vs vs1 \<Longrightarrow> plays limit gms' (sq + int (length gms)) vs1 vs' \<Longrightarrow> plays limit (gms @ gms') sq vs vs'"
  by (induction gms arbitrary: sq vs) (auto simp: algebra_simps)

lemma plays_routes:
  assumes "plays limit gms sq vs vs'"
  shows "\<forall>gm \<in> set gms. require_representable (gm_command gm) = Inr ()"
    and "\<exists>ess. spec_routes limit (map gm_command gms) sq vs = (ess, vs') \<and> list_all2 special_met gms ess"
  using assms by (induction gms arbitrary: sq vs) (auto simp: played_def, force)

lemma played_accepted:
  assumes "\<exists>es. spec_route limit cmd sq vs = (es, vs') \<and> accepted_batch \<lparr>batch_events = es\<rparr> \<and> reject_of es = None"
    and "require_representable cmd = Inr ()" and "map_of prologue_reasons intent = None"
  shows "played limit (special cmd iid True intent) sq vs vs'"
  using assms by (auto simp: played_def special_met_def special_def)

lemma played_rejected:
  assumes "spec_route limit cmd sq vs = (spec_reject iid' sq ct rj, vs)"
    and "require_representable cmd = Inr ()" and "map_of prologue_reasons intent = Some (rej_reason rj)"
  shows "played limit (special cmd iid False intent) sq vs vs"
  using assms by (auto simp: played_def special_met_def special_def accepted_batch_def spec_reject_def reject_of_def)

text \<open>The commands of the prologue are representable.\<close>

lemma unit_commands_representable:
  assumes "list_all tame sps" and "k < length sps" and "1 \<le> oid" "oid \<le> U64_MAX" "1 \<le> nid" "nid \<le> U64_MAX" and "client = 1 \<or> client = 2"
  shows "require_representable (unit_order 1 oid (ws_instrument_id (sps ! k)) (tick_increment (ws_engine (sps ! k)))) = Inr ()"
    and "require_representable (unit_cancel client oid (ws_instrument_id (sps ! k))) = Inr ()"
    and "require_representable (unit_replace client oid nid (ws_instrument_id (sps ! k)) (tick_increment (ws_engine (sps ! k)))) = Inr ()"
  using tame_stream [OF assms(1,2)] assms(3-7)
  by (auto simp: unit_order_def unit_cancel_def unit_replace_def bindR_Inr_iff require_uint_def require_i64_def
      U8_MAX_def U32_MAX_def U64_MAX_def I64_MIN_def I64_MAX_def)

lemma plays_single [simp]: "plays limit [gm] sq vs vs' \<longleftrightarrow> played limit gm sq vs vs'"
  by simp

lemma bid_plays:
  assumes t: "list_all tame sps" and fs: "fills_ok sps fs" and k: "k < length sps" and oid: "1 \<le> oid" "oid \<le> U64_MAX"
    and iid: "iid = ws_instrument_id (sps ! k)" and price: "price = tick_increment (ws_engine (sps ! k))"
  shows "oid \<notin> held fs \<Longrightarrow> int (length (bids_of k fs)) < max_active_orders (ws_engine (sps ! k)) \<Longrightarrow> int (length fs) < limit \<Longrightarrow>
      map_of prologue_reasons intent = None \<Longrightarrow>
      played limit (special (unit_order 1 oid iid price) iid True intent) sq (bid_venue sps fs) (bid_venue sps (fs @ [(k, oid, sq)]))"
    and "oid \<in> held fs \<Longrightarrow> map_of prologue_reasons intent = Some DUPLICATE_ORDER_ID \<Longrightarrow>
      played limit (special (unit_order 1 oid iid price) iid False intent) sq (bid_venue sps fs) (bid_venue sps fs)"
    and "oid \<notin> held fs \<Longrightarrow> limit \<le> int (length fs) \<Longrightarrow> map_of prologue_reasons intent = Some CAPACITY_EXCEEDED \<Longrightarrow>
      played limit (special (unit_order 1 oid iid price) iid False intent) sq (bid_venue sps fs) (bid_venue sps fs)"
proof -
  note rep = unit_commands_representable(1) [OF t k oid oid disjI1 [OF refl]]
  note r = bid_rejected [OF t fs k oid(1), of limit sq]
  show "oid \<notin> held fs \<Longrightarrow> int (length (bids_of k fs)) < max_active_orders (ws_engine (sps ! k)) \<Longrightarrow> int (length fs) < limit \<Longrightarrow>
      map_of prologue_reasons intent = None \<Longrightarrow>
      played limit (special (unit_order 1 oid iid price) iid True intent) sq (bid_venue sps fs) (bid_venue sps (fs @ [(k, oid, sq)]))"
    unfolding iid price by (rule played_accepted [OF bid_accepted [OF t fs k oid(1)] rep])
  show "oid \<in> held fs \<Longrightarrow> map_of prologue_reasons intent = Some DUPLICATE_ORDER_ID \<Longrightarrow>
      played limit (special (unit_order 1 oid iid price) iid False intent) sq (bid_venue sps fs) (bid_venue sps fs)"
    unfolding iid price by (rule played_rejected [OF r(1) rep]) simp_all
  show "oid \<notin> held fs \<Longrightarrow> limit \<le> int (length fs) \<Longrightarrow> map_of prologue_reasons intent = Some CAPACITY_EXCEEDED \<Longrightarrow>
      played limit (special (unit_order 1 oid iid price) iid False intent) sq (bid_venue sps fs) (bid_venue sps fs)"
    unfolding iid price by (rule played_rejected [OF r(2) rep]) simp_all
qed

lemma cancel_plays:
  assumes t: "list_all tame sps" and fs: "fills_ok sps ((k, oid, sq0) # fs)" and oid: "1 \<le> oid" "oid \<le> U64_MAX"
    and "iid = ws_instrument_id (sps ! k)" and "map_of prologue_reasons intent = None"
  shows "played limit (special (unit_cancel 1 oid iid) iid True intent) sq (bid_venue sps ((k, oid, sq0) # fs)) (bid_venue sps fs)"
  using unit_commands_representable(2) [OF t fills_ok_tail(3) [OF fs] oid oid, of 1] oldest_cancelled [OF t fs oid(1)] assms(5,6)
  by (auto intro!: played_accepted)

lemma strangers_play:
  assumes t: "list_all tame sps" and fs: "fills_ok sps fs" and held: "(k, oid, sq0) \<in> set fs" and j: "j < length sps" "j \<noteq> k"
    and oid: "1 \<le> oid" "oid \<le> U64_MAX" and nid: "1 \<le> nid" "nid \<le> U64_MAX" "nid \<noteq> oid"
    and iid: "iid = ws_instrument_id (sps ! j)" and client: "client = 1 \<or> client = 2"
    and why: "map_of prologue_reasons intent = Some (if client = 1 then INSTRUMENT_MISMATCH else OWNERSHIP_MISMATCH)"
  shows "played limit (special (unit_cancel client oid iid) iid False intent) sq (bid_venue sps fs) (bid_venue sps fs)"
    and "price = tick_increment (ws_engine (sps ! j)) \<Longrightarrow>
      played limit (special (unit_replace client oid nid iid price) iid False intent) sq (bid_venue sps fs) (bid_venue sps fs)"
proof -
  have "client \<noteq> 0" using client by auto
  note rep = unit_commands_representable [OF t j(1) oid nid(1,2) client]
  show "played limit (special (unit_cancel client oid iid) iid False intent) sq (bid_venue sps fs) (bid_venue sps fs)"
    unfolding iid by (rule played_rejected [OF cancel_rejected [OF t fs held oid(1) j \<open>client \<noteq> 0\<close>] rep(2)]) (use why in simp)
  show "played limit (special (unit_replace client oid nid iid price) iid False intent) sq (bid_venue sps fs) (bid_venue sps fs)"
    if "price = tick_increment (ws_engine (sps ! j))"
    unfolding iid that
    by (rule played_rejected [OF replace_rejected [OF t fs held oid(1) nid(1,3) j \<open>client \<noteq> 0\<close>] rep(3)]) (use why in simp)
qed

text \<open>The nine commands on one shared identifier.\<close>

lemma prologue_reason_simps [simp]:
  "map_of prologue_reasons ''multi/cross_book_identity_seed'' = None"
  "map_of prologue_reasons ''multi/terminal_before_cross_instrument_reuse'' = None"
  "map_of prologue_reasons ''multi/cross_instrument_terminal_id_reuse'' = None"
  "map_of prologue_reasons ''multi/terminal_reuse_cleanup'' = None"
  "map_of prologue_reasons ''multi/global_capacity_fill'' = None"
  "map_of prologue_reasons ''multi/global_capacity_cleanup'' = None"
  "map_of prologue_reasons ''multi/cross_book_duplicate_id'' = Some DUPLICATE_ORDER_ID"
  "map_of prologue_reasons ''multi/routed_cancel_ownership_precedence'' = Some OWNERSHIP_MISMATCH"
  "map_of prologue_reasons ''multi/routed_cancel_instrument_mismatch'' = Some INSTRUMENT_MISMATCH"
  "map_of prologue_reasons ''multi/routed_replace_ownership_precedence'' = Some OWNERSHIP_MISMATCH"
  "map_of prologue_reasons ''multi/routed_replace_instrument_mismatch'' = Some INSTRUMENT_MISMATCH"
  "map_of prologue_reasons ''multi/global_capacity_exceeded'' = Some CAPACITY_EXCEEDED"
  by (simp_all add: prologue_reasons_def)

lemma cross_identity_plays:
  assumes t: "list_all tame sps" and d: "distinct (map ws_instrument_id sps)" and two: "2 \<le> length sps"
    and cap: "1 \<le> max_active_orders (ws_engine (sps ! 0))" "1 \<le> max_active_orders (ws_engine (sps ! 1))" "1 \<le> limit"
    and ids: "1 \<le> a" "a \<le> U64_MAX" "1 \<le> b" "b \<le> U64_MAX" "b \<noteq> a"
  shows "plays limit (cross_identity (sps ! 0) (sps ! 1) a b) sq (bid_venue sps []) (bid_venue sps [])"
proof -
  have k: "0 < length sps" "1 < length sps" using two by linarith+
  have fs: "fills_ok sps []" "fills_ok sps [(0, a, s)]" "fills_ok sps [(1, a, s)]" for s
    using d k by (simp_all add: fills_ok_def)
  have held: "a \<notin> held []" "a \<in> held [(0, a, s)]" "(0, a, s) \<in> set [(0, a, s)]" for s by (simp_all add: held_def)
  note seed = bid_plays(1) [OF t fs(1) k(1) ids(1,2) refl refl held(1), unfolded append_Nil]
    bid_plays(1) [OF t fs(1) k(2) ids(1,2) refl refl held(1), unfolded append_Nil]
  note dup = bid_plays(2) [OF t fs(2) k(2) ids(1,2) refl refl held(2)]
  note wrong = strangers_play [OF t fs(2) held(3) k(2) _ ids refl]
  note cancels = cancel_plays [OF t fs(2) ids(1,2) refl] cancel_plays [OF t fs(3) ids(1,2) refl]
  show ?thesis
    unfolding cross_identity_def Let_def plays.simps
    by (intro exI conjI; (rule seed(1) dup wrong(1) wrong(2) cancels(1) seed(2) cancels(2) | simp)) (use cap in simp_all)
qed

section \<open>Filling the venue to its capacity\<close>

text \<open>While the prologue is built the remapper has mapped nothing: it only hands out identifiers.\<close>

definition reserved :: "int \<Rightarrow> identifier_remapper" where
  "reserved n = \<lparr>rm_next_order_id = n, rm_order_ids = []\<rparr>"

lemma reserve_reserved [simp]: "n \<le> U64_MAX \<Longrightarrow> reserve_id (reserved n) = (Inr n, reserved (n + 1))"
  by (simp add: reserve_id_def reserved_def)

definition front :: "workload_spec list \<Rightarrow> workload_spec list" where
  "front sps = [sps ! 0, sps ! 1]"

definition fill_counts :: "fill list \<Rightarrow> int list" where
  "fill_counts fs = [int (length (bids_of 0 fs)), int (length (bids_of 1 fs))]"

definition fill_keys :: "fill list \<Rightarrow> (nat \<times> int) list" where
  "fill_keys fs = map (\<lambda>f. (fst f, fst (snd f))) fs"

lemma front_nth: "k < 2 \<Longrightarrow> front sps ! k = sps ! k"
  by (auto simp: less_2_cases_iff front_def)

lemma fill_keys_snoc: "fill_keys (fs @ [(k, oid, sq)]) = fill_keys fs @ [(k, oid)]"
  by (simp add: fill_keys_def)

lemma fill_counts_nth: "k < 2 \<Longrightarrow> fill_counts fs ! k = int (length (bids_of k fs))"
  by (auto simp: less_2_cases_iff fill_counts_def)

lemma fill_counts_step: "k < 2 \<Longrightarrow> (fill_counts fs)[k := fill_counts fs ! k + 1] = fill_counts (fs @ [(k, oid, sq)])"
  by (auto simp: less_2_cases_iff fill_counts_def)

lemma open_front:
  assumes "k \<in> set (open_streams (front sps) (fill_counts fs))"
  shows "k < 2" and "int (length (bids_of k fs)) < max_active_orders (ws_engine (sps ! k))"
proof -
  have "length (front sps) = 2" by (simp add: front_def)
  with assms show "k < 2" by (auto simp: open_streams_def)
  with assms show "int (length (bids_of k fs)) < max_active_orders (ws_engine (sps ! k))"
    by (auto simp: open_streams_def front_nth fill_counts_nth)
qed

lemma fill_capacity_plays:
  assumes t: "list_all tame sps" and two: "2 \<le> length sps"
    and fs: "fills_ok sps fs" "\<forall>f \<in> set fs. fst f < 2 \<and> 1 \<le> fst (snd f) \<and> fst (snd f) < m"
    and m: "1 \<le> m" "m + int n \<le> U64_MAX" and limit: "int (length fs) + int n \<le> limit"
  shows "fst (fill_capacity (front sps) 1 n (fill_counts fs) (fill_keys fs) cmds (reserved m)) = Inr None \<and>
      (\<exists>m'. snd (fill_capacity (front sps) 1 n (fill_counts fs) (fill_keys fs) cmds (reserved m)) = reserved m' \<and> m \<le> m' \<and> m' \<le> m + int n) \<or>
    (\<exists>gs new. fill_capacity (front sps) 1 n (fill_counts fs) (fill_keys fs) cmds (reserved m) =
        (Inr (Some (fill_counts (fs @ gs), fill_keys (fs @ gs), cmds @ new)), reserved (m + int n)) \<and>
      fills_ok sps (fs @ gs) \<and> (\<forall>f \<in> set (fs @ gs). fst f < 2 \<and> 1 \<le> fst (snd f) \<and> fst (snd f) < m + int n) \<and>
      length gs = n \<and> length new = n \<and> plays limit new sq (bid_venue sps fs) (bid_venue sps (fs @ gs)))"
  using fs m limit
proof (induction n arbitrary: fs cmds m sq)
  case 0
  then show ?case by (intro disjI2 exI [of _ "[]"]) simp
next
  case (Suc n)
  let ?open = "open_streams (front sps) (fill_counts fs)"
  show ?case
  proof (cases "?open = []")
    case True
    then show ?thesis by auto
  next
    case False
    define k where "k = ?open ! (length (fill_keys fs) mod length ?open)"
    have "k \<in> set ?open" unfolding k_def using False by (intro nth_mem) simp
    note k = open_front [OF this]
    let ?gm = "special (unit_order 1 m (ws_instrument_id (sps ! k)) (tick_increment (ws_engine (sps ! k)))) (ws_instrument_id (sps ! k)) True
      ''multi/global_capacity_fill''"
    let ?fs = "fs @ [(k, m, sq)]"
    have m: "1 \<le> m" "m \<le> U64_MAX" "m \<notin> held fs" using Suc.prems by (auto simp: held_def)
    have kl: "k < length sps" using k(1) two by linarith
    have step: "fill_capacity (front sps) 1 (Suc n) (fill_counts fs) (fill_keys fs) cmds (reserved m) =
        fill_capacity (front sps) 1 n (fill_counts ?fs) (fill_keys ?fs) (cmds @ [?gm]) (reserved (m + 1))"
      using False m k(1) fill_counts_step [OF k(1), of fs m sq] front_nth [OF k(1), of sps]
      by (simp add: Let_def bindP_def k_def [symmetric] fill_keys_snoc)
    have ok: "fills_ok sps ?fs" using Suc.prems(1) kl m(3) by (auto simp: fills_ok_def held_def)
    have ids: "\<forall>f \<in> set ?fs. fst f < 2 \<and> 1 \<le> fst (snd f) \<and> fst (snd f) < m + 1" using Suc.prems(2) k(1) m(1) by auto
    have rest: "1 \<le> m + 1" "m + 1 + int n \<le> U64_MAX" "int (length ?fs) + int n \<le> limit" using Suc.prems by simp_all
    have "played limit ?gm sq (bid_venue sps fs) (bid_venue sps ?fs)"
      using Suc.prems(5) by (intro bid_plays(1) [OF t Suc.prems(1) kl m(1,2) refl refl m(3) k(2)]) simp_all
    with Suc.IH [OF ok ids rest, of "cmds @ [?gm]" "sq + 1"] show ?thesis
    proof (elim disjE exE conjE)
      fix gs new
      assume "played limit ?gm sq (bid_venue sps fs) (bid_venue sps ?fs)"
        "fill_capacity (front sps) 1 n (fill_counts ?fs) (fill_keys ?fs) (cmds @ [?gm]) (reserved (m + 1)) =
          (Inr (Some (fill_counts (?fs @ gs), fill_keys (?fs @ gs), (cmds @ [?gm]) @ new)), reserved (m + 1 + int n))"
        "fills_ok sps (?fs @ gs)" "\<forall>f \<in> set (?fs @ gs). fst f < 2 \<and> 1 \<le> fst (snd f) \<and> fst (snd f) < m + 1 + int n"
        "length gs = n" "length new = n" "plays limit new (sq + 1) (bid_venue sps ?fs) (bid_venue sps (?fs @ gs))"
      then show ?thesis
        unfolding step by (intro disjI2 exI [of _ "(k, m, sq) # gs"] exI [of _ "?gm # new"]) (auto simp: algebra_simps)
    qed (auto simp: step simp del: fill_capacity.simps)
  qed
qed

definition cleanup :: "workload_spec list \<Rightarrow> (nat \<times> int) list \<Rightarrow> generated_multi_command list" where
  "cleanup streams fills = map (\<lambda>(i, oid). let iid = ws_instrument_id (streams ! i) in
     special (unit_cancel 1 oid iid) iid True ''multi/global_capacity_cleanup'') fills"

lemma cleanup_plays:
  assumes "list_all tame sps" and "fills_ok sps fs" and "\<forall>f \<in> set fs. fst f < 2 \<and> 1 \<le> fst (snd f) \<and> fst (snd f) \<le> U64_MAX"
  shows "plays limit (cleanup (front sps) (fill_keys fs)) sq (bid_venue sps fs) (bid_venue sps [])"
  using assms(2,3)
proof (induction fs arbitrary: sq)
  case (Cons f fs)
  obtain k oid s where f: "f = (k, oid, s)" by (cases f)
  with Cons.prems fills_ok_tail(1) have "fills_ok sps fs" by blast
  with Cons.IH Cons.prems(2) have "plays limit (cleanup (front sps) (fill_keys fs)) (sq + 1) (bid_venue sps fs) (bid_venue sps [])" by simp
  moreover have "played limit (special (unit_cancel 1 oid (ws_instrument_id (front sps ! k))) (ws_instrument_id (front sps ! k)) True
      ''multi/global_capacity_cleanup'') sq (bid_venue sps (f # fs)) (bid_venue sps fs)"
    unfolding f using cancel_plays [OF assms(1), of k oid s fs] Cons.prems f by (simp add: front_nth)
  ultimately show ?case using f by (auto simp: cleanup_def fill_keys_def Let_def)
qed (simp add: cleanup_def fill_keys_def)

lemma overflow_plays:
  assumes t: "list_all tame sps" and two: "2 \<le> length sps" and fs: "fills_ok sps fs" and k: "k \<in> set (open_streams (front sps) (fill_counts fs))"
    and ids: "\<forall>f \<in> set fs. fst (snd f) < m" and m: "1 \<le> m" "m \<le> U64_MAX" and full: "int (length fs) = limit"
  shows "played limit (special (unit_order 1 m (ws_instrument_id (front sps ! k)) (tick_increment (ws_engine (front sps ! k))))
    (ws_instrument_id (front sps ! k)) False ''multi/global_capacity_exceeded'') sq (bid_venue sps fs) (bid_venue sps fs)"
proof -
  have kl: "k < length sps" using open_front(1) [OF k] two by linarith
  have "m \<notin> held fs" using ids by (auto simp: held_def)
  from bid_plays(3) [OF t fs kl m refl refl this] full show ?thesis by (simp add: front_nth [OF open_front(1) [OF k]])
qed

lemma binding_unfold:
  assumes "1 \<le> max_total_active_orders (mw_engine ms)" and "max_total_active_orders (mw_engine ms) \<le> 8"
  shows "binding_capacity_specials ms (mw_streams ms ! 0) (mw_streams ms ! 1) 1 rm =
    (let sps = front (mw_streams ms) in
     case fill_capacity sps 1 (nat (max_total_active_orders (mw_engine ms))) (fill_counts []) (fill_keys []) [] rm of
       (Inl e, rm') \<Rightarrow> (Inl e, rm')
     | (Inr None, rm') \<Rightarrow> (Inr [], rm')
     | (Inr (Some (counts, fills, cmds)), rm') \<Rightarrow>
         (case open_streams sps counts of
            [] \<Rightarrow> (Inr [], rm')
          | k # _ \<Rightarrow> bindP reserve_id (\<lambda>oid. ret (cmds @
              [special (unit_order 1 oid (ws_instrument_id (sps ! k)) (tick_increment (ws_engine (sps ! k)))) (ws_instrument_id (sps ! k)) False
                 ''multi/global_capacity_exceeded''] @ cleanup sps fills)) rm'))"
  using assms
  by (simp add: binding_capacity_specials_def Let_def cleanup_def front_def fill_counts_def fill_keys_def bindP_def
      split: prod.splits sum.splits option.splits list.splits)

lemma binding_capacity_plays:
  assumes t: "list_all tame (mw_streams ms)" and d: "distinct (map ws_instrument_id (mw_streams ms))" and two: "2 \<le> length (mw_streams ms)"
    and m: "1 \<le> m" "m + 9 \<le> U64_MAX"
  shows "\<exists>gms m'. binding_capacity_specials ms (mw_streams ms ! 0) (mw_streams ms ! 1) 1 (reserved m) = (Inr gms, reserved m') \<and>
    m \<le> m' \<and> m' \<le> m + 9 \<and>
    (\<forall>sq. plays (max_total_active_orders (mw_engine ms)) gms sq (bid_venue (mw_streams ms) []) (bid_venue (mw_streams ms) []))"
proof -
  let ?sps = "mw_streams ms" and ?limit = "max_total_active_orders (mw_engine ms)"
  let ?fill = "fill_capacity (front ?sps) 1 (nat ?limit) (fill_counts []) (fill_keys []) [] (reserved m)"
  let ?binding = "binding_capacity_specials ms (?sps ! 0) (?sps ! 1) 1 (reserved m)"
  have idle: ?thesis if "?binding = (Inr [], reserved m1)" "m \<le> m1" "m1 \<le> m + 9" for m1
    using that by (intro exI [of _ "[]"] exI [of _ m1]) simp
  show ?thesis
  proof (cases "1 \<le> ?limit \<and> ?limit \<le> 8")
    case False
    then have "?binding = (Inr [], reserved m)" by (auto simp: binding_capacity_specials_def Let_def)
    then show ?thesis by (rule idle) simp_all
  next
    case True
    then have binds: "1 \<le> ?limit" "?limit \<le> 8" by simp_all
    have ok: "fills_ok ?sps []" using d by (simp add: fills_ok_def)
    have room: "m + int (nat ?limit) \<le> U64_MAX" "int (length ([] :: fill list)) + int (nat ?limit) \<le> ?limit" using True m(2) by simp_all
    have "\<forall>f \<in> set ([] :: fill list). fst f < 2 \<and> 1 \<le> fst (snd f) \<and> fst (snd f) < m" by simp
    note filled = fill_capacity_plays [OF t two ok this m(1) room, of "[]"]
    show ?thesis
    proof (cases "fst ?fill = Inr None")
      case none: True
      with filled [of 0] obtain m1 where "?fill = (Inr None, reserved m1)" "m \<le> m1" "m1 \<le> m + int (nat ?limit)"
        by (cases ?fill) auto
      then have "?binding = (Inr [], reserved m1)" "m \<le> m1" "m1 \<le> m + 9"
        using binds by (simp_all add: binding_unfold [OF binds] del: One_nat_def)
      then show ?thesis by (rule idle)
    next
      case False
      with filled [of 0] obtain counts fills new where
        fill: "?fill = (Inr (Some (counts, fills, new)), reserved (m + ?limit))" using binds by auto
      have play: "\<exists>gs. counts = fill_counts gs \<and> fills = fill_keys gs \<and> fills_ok ?sps gs \<and>
          (\<forall>f \<in> set gs. fst f < 2 \<and> 1 \<le> fst (snd f) \<and> fst (snd f) < m + ?limit) \<and> int (length gs) = ?limit \<and> int (length new) = ?limit \<and>
          plays ?limit new sq (bid_venue ?sps []) (bid_venue ?sps gs)" for sq
        using filled [of sq] fill binds by auto
      show ?thesis
      proof (cases "open_streams (front ?sps) counts")
        case Nil
        then have "?binding = (Inr [], reserved (m + ?limit))" using fill by (simp add: binding_unfold [OF binds] del: One_nat_def)
        then show ?thesis by (rule idle) (use binds in simp_all)
      next
        case (Cons k ks)
        let ?st = "front ?sps ! k"
        let ?gms = "new @ [special (unit_order 1 (m + ?limit) (ws_instrument_id ?st) (tick_increment (ws_engine ?st))) (ws_instrument_id ?st) False
          ''multi/global_capacity_exceeded''] @ cleanup (front ?sps) fills"
        have m1: "1 \<le> m + ?limit" "m + ?limit \<le> U64_MAX" using m binds by linarith+
        have "?binding = (Inr ?gms, reserved (m + ?limit + 1))"
          using fill Cons m1 by (simp add: binding_unfold [OF binds] bindP_def Let_def del: One_nat_def)
        moreover have "plays ?limit ?gms sq (bid_venue ?sps []) (bid_venue ?sps [])" for sq
        proof -
          obtain gs where gs: "counts = fill_counts gs" "fills = fill_keys gs" "fills_ok ?sps gs"
            "\<forall>f \<in> set gs. fst f < 2 \<and> 1 \<le> fst (snd f) \<and> fst (snd f) < m + ?limit" "int (length gs) = ?limit"
            "plays ?limit new sq (bid_venue ?sps []) (bid_venue ?sps gs)" using play by blast
          have "k \<in> set (open_streams (front ?sps) (fill_counts gs))" using Cons gs(1) by simp
          note over = overflow_plays [OF t two gs(3) this _ m1 gs(5)]
          have ids: "\<forall>f \<in> set gs. fst f < 2 \<and> 1 \<le> fst (snd f) \<and> fst (snd f) \<le> U64_MAX" using gs(4) m1(2) by auto
          show ?thesis
            by (rule plays_append [OF gs(6) plays_append]) (use over gs(2,4) cleanup_plays [OF t gs(3) ids] in auto)
        qed
        ultimately show ?thesis using binds by (intro exI [of _ ?gms] exI [of _ "m + ?limit + 1"]) simp
      qed
    qed
  qed
qed

section \<open>The prologue of a specification\<close>

lemma IdentifierRemapper_reserved: "IdentifierRemapper = reserved 1"
  by (simp add: IdentifierRemapper_def reserved_def)

lemma command_count_nonneg: "list_all tame sps \<Longrightarrow> 0 \<le> sum_list (map ws_command_count sps)"
  by (rule sum_list_nonneg) (auto simp: list_all_iff tame_def dest!: bspec spec_validD(1))

lemma capacity_zero_plays:
  assumes t: "multi_tame ms"
  shows "\<exists>gms m. capacity_zero_special ms (mw_streams ms ! 0) (reserved 1) = (Inr gms, reserved m) \<and> 1 \<le> m \<and> m \<le> 2 \<and>
    int (length gms) \<le> multi_command_count ms \<and>
    (\<forall>sq. plays (max_total_active_orders (mw_engine ms)) gms sq (bid_venue (mw_streams ms) []) (bid_venue (mw_streams ms) []))"
proof (cases "max_total_active_orders (mw_engine ms) \<noteq> 0 \<or> multi_command_count ms < 1")
  case True
  have "0 \<le> multi_command_count ms" using t command_count_nonneg by (simp add: multi_command_count_def multi_tame_def)
  with True show ?thesis by (intro exI [of _ "[]"] exI [of _ 1]) (simp add: capacity_zero_special_def)
next
  case False
  let ?sp = "mw_streams ms ! 0"
  let ?gm = "special (unit_order 1 1 (ws_instrument_id ?sp) (tick_increment (ws_engine ?sp))) (ws_instrument_id ?sp) False
    ''multi/global_capacity_exceeded''"
  have ok: "list_all tame (mw_streams ms)" "fills_ok (mw_streams ms) []" "0 < length (mw_streams ms)"
    using t multi_tameD(2) [OF t] by (auto simp: multi_tame_def fills_ok_def)
  have "capacity_zero_special ms ?sp (reserved 1) = (Inr [?gm], reserved 2)"
    using False by (simp add: capacity_zero_special_def bindP_def U64_MAX_def)
  moreover have "played 0 ?gm sq (bid_venue (mw_streams ms) []) (bid_venue (mw_streams ms) [])" for sq
    by (rule bid_plays(3) [OF ok _ _ refl refl]) (simp_all add: held_def U64_MAX_def)
  ultimately show ?thesis using False by (intro exI [of _ "[?gm]"] exI [of _ 2]) simp
qed

lemma specials_play:
  assumes t: "multi_tame ms"
  shows "\<exists>gms m. build_special_commands ms IdentifierRemapper = (Inr gms, reserved m) \<and> 1 \<le> m \<and> m \<le> 12 \<and>
    int (length gms) \<le> multi_command_count ms \<and>
    (\<forall>sq. plays (max_total_active_orders (mw_engine ms)) gms sq (bid_venue (mw_streams ms) []) (bid_venue (mw_streams ms) []))"
    (is "\<exists>gms m. ?build = _ \<and> _")
proof -
  let ?limit = "max_total_active_orders (mw_engine ms)" and ?sps = "mw_streams ms"
  have nonneg: "0 \<le> multi_command_count ms" and tame: "list_all tame ?sps"
    using t command_count_nonneg by (simp_all add: multi_command_count_def multi_tame_def)
  have idle: ?thesis if "?build = (Inr [], reserved m)" "1 \<le> m" "m \<le> 12" for m
    using that nonneg by (intro exI [of _ "[]"] exI [of _ m]) simp
  show ?thesis
  proof (cases "length ?sps < 2")
    case True
    then have "?build = (Inr [], reserved 1)"
      by (auto simp: build_special_commands_def IdentifierRemapper_reserved split: list.splits)
    then show ?thesis by (rule idle) simp_all
  next
    case False
    then have two: "2 \<le> length ?sps" by simp
    then obtain rest where sps: "?sps = ?sps ! 0 # ?sps ! 1 # rest" by (cases ?sps; cases "tl ?sps") auto
    show ?thesis
    proof (cases "max_active_orders (ws_engine (?sps ! 0)) < 1 \<or> max_active_orders (ws_engine (?sps ! 1)) < 1 \<or> ?limit < 1")
      case True
      then have "?build = capacity_zero_special ms (?sps ! 0) (reserved 1)"
        unfolding build_special_commands_def IdentifierRemapper_reserved by (subst sps) simp
      with capacity_zero_plays [OF t] show ?thesis by fastforce
    next
      case open_books: False
      let ?cross = "cross_identity (?sps ! 0) (?sps ! 1) 1 2"
      have build: "?build = (if int (length ?cross) > multi_command_count ms then (Inr [], reserved 3)
          else bindP (binding_capacity_specials ms (?sps ! 0) (?sps ! 1) 1) (\<lambda>capacity.
            ret (?cross @ (if int (length ?cross) + int (length capacity) > multi_command_count ms then [] else capacity))) (reserved 3))"
        unfolding build_special_commands_def IdentifierRemapper_reserved
        by (subst sps) (use open_books in \<open>simp add: bindP_def U64_MAX_def Let_def del: One_nat_def\<close>)
      have cross: "plays ?limit ?cross sq (bid_venue ?sps []) (bid_venue ?sps [])" for sq
        using open_books by (intro cross_identity_plays [OF tame multi_tameD(2) [OF t] two]) (simp_all add: U64_MAX_def)
      obtain gms m where gms: "binding_capacity_specials ms (?sps ! 0) (?sps ! 1) 1 (reserved 3) = (Inr gms, reserved m)" "3 \<le> m" "m \<le> 3 + 9"
        "\<forall>sq. plays ?limit gms sq (bid_venue ?sps []) (bid_venue ?sps [])"
        using binding_capacity_plays [OF tame multi_tameD(2) [OF t] two, of 3] by (auto simp: U64_MAX_def)
      show ?thesis
      proof (cases "int (length ?cross) > multi_command_count ms")
        case True
        then have "?build = (Inr [], reserved 3)" unfolding build by simp
        then show ?thesis by (rule idle) simp_all
      next
        case False
        let ?all = "?cross @ (if int (length ?cross) + int (length gms) > multi_command_count ms then [] else gms)"
        have "?build = (Inr ?all, reserved m)" unfolding build using False gms(1) by (simp add: bindP_def del: One_nat_def)
        moreover have "plays ?limit ?all sq (bid_venue ?sps []) (bid_venue ?sps [])" for sq
          by (rule plays_append [OF cross]) (use gms(4) in simp)
        ultimately show ?thesis using False gms(2,3) by (intro exI [of _ ?all] exI [of _ m]) simp
      qed
    qed
  qed
qed

end
