(* ===== verification/Multi_Generation_Properties.thy ===== *)
theory Multi_Generation_Properties
  imports Multi_Prologue
begin

text \<open>
  Properties of the multi-instrument generator: every 64-bit seed gives a generator, its prologue has the
  outcomes its intents name and leaves the router empty, and on a venue with room the router accepts exactly
  the commands intended valid.
\<close>

section \<open>The constructor returns\<close>

lemma WorkloadGenerator_returns:
  assumes "tame sp" and "0 \<le> seed" and "seed \<le> U64_MAX"
  obtains g where "WorkloadGenerator sp seed = Inr g" "ready sp (\<lambda>_. []) (2 * (ws_command_count sp - gen_count g)) g" "gen_count g = 0"
proof -
  obtain g where g: "WorkloadGenerator sp seed = Inr g"
    using assms(2,3) by (simp add: WorkloadGenerator_def SplitMix64_def require_int_def U64_MAX_def)
  from that [OF g start_ready [OF g assms(1)]] show thesis .
qed

lemma start_streams_returns:
  assumes "list_all tame sps"
  shows "\<exists>gs s'. start_streams sps s = (Inr gs, s') \<and>
    list_all2 (\<lambda>sp g. ready sp (\<lambda>_. []) (2 * (ws_command_count sp - gen_count g)) g \<and> gen_count g = 0) sps gs"
  using assms
proof (induction sps arbitrary: s)
  case (Cons sp sps)
  obtain seed s1 where u: "next_u64 s = (seed, s1)" by fastforce
  then have "seed = uint (mix (s + gamma))" by (auto simp: next_u64_def Let_def)
  then have "0 \<le> seed" "seed \<le> U64_MAX" using uint_lt2p [of "mix (s + gamma)"] by (simp_all add: U64_MAX_def)
  moreover have "tame sp" using Cons.prems by simp
  ultimately obtain g where g: "WorkloadGenerator sp seed = Inr g"
    "ready sp (\<lambda>_. []) (2 * (ws_command_count sp - gen_count g)) g" "gen_count g = 0"
    using WorkloadGenerator_returns by metis
  from Cons.IH [of s1] Cons.prems obtain gs s2 where "start_streams sps s1 = (Inr gs, s2)"
    "list_all2 (\<lambda>sp g. ready sp (\<lambda>_. []) (2 * (ws_command_count sp - gen_count g)) g \<and> gen_count g = 0) sps gs" by auto
  with u g show ?case by (simp add: bindP_def liftP_def)
qed simp

lemma unknown_from_returns:
  assumes "c \<notin> taken" and "candidate \<le> c" and "c \<le> U32_MAX"
  shows "\<exists>i. unknown_from candidate taken = Inr i \<and> i \<notin> taken \<and> candidate \<le> i \<and> i \<le> U32_MAX"
  using assms(2)
proof (induction "nat (c - candidate)" arbitrary: candidate)
  case 0
  then have "candidate = c" by simp
  with assms(1,3) show ?case by (subst unknown_from.simps) simp
next
  case (Suc n)
  show ?case
  proof (cases "candidate \<in> taken")
    case True
    then have "candidate + 1 \<le> c" "n = nat (c - (candidate + 1))" using Suc(2,3) by simp_all
    from Suc(1) [OF this(2,1)] True Suc(3) assms(3) show ?thesis by (subst unknown_from.simps) auto
  qed (use Suc(3) assms(3) in \<open>subst unknown_from.simps, simp\<close>)
qed

lemma unknown_instrument_returns:
  assumes "finite taken" and "int (card taken) < U32_MAX"
  obtains i where "unknown_instrument taken = Inr i" "i \<notin> taken" "1 \<le> i" "i \<le> U32_MAX"
proof -
  have "\<not> {1..U32_MAX} \<subseteq> taken"
  proof
    assume "{1..U32_MAX} \<subseteq> taken"
    from card_mono [OF assms(1) this] assms(2) show False by simp
  qed
  then obtain c where "c \<notin> taken" "1 \<le> c" "c \<le> U32_MAX" unfolding subset_iff atLeastAtMost_iff by blast
  from unknown_from_returns [OF this] that show thesis by (auto simp: unknown_instrument_def)
qed

text \<open>The state the constructor returns: fresh streams, no identifier mapped, budgets that the prologue was taken from.\<close>

lemma generator_starts:
  assumes t: "multi_tame ms" and seed: "0 \<le> seed" "seed \<le> U64_MAX"
  obtains g m where "MultiWorkloadGenerator ms seed = Some (Inr g)"
    "build_special_commands ms IdentifierRemapper = (Inr (mg_special_commands g), reserved m)" "1 \<le> m" "m \<le> 12"
    "mg_special_index g = 0" "int (length (mg_special_commands g) + sum_list (mg_remaining g)) = multi_command_count ms"
    "generator_ok ms (\<lambda>_ _. []) (g\<lparr>mg_special_index := length (mg_special_commands g)\<rparr>)" "mg_remapper g = reserved m"
proof -
  let ?sps = "mw_streams ms"
  have tame: "list_all tame ?sps" using t by (simp add: multi_tame_def)
  from start_streams_returns [OF tame] obtain gs rng where
    gs: "start_streams ?sps (of_int seed) = (Inr gs, rng)"
      "list_all2 (\<lambda>sp g. ready sp (\<lambda>_. []) (2 * (ws_command_count sp - gen_count g)) g \<and> gen_count g = 0) ?sps gs" by blast
  have "card (set (map ws_instrument_id ?sps)) \<le> length ?sps" by (metis card_length length_map)
  then have "int (card (set (map ws_instrument_id ?sps))) < U32_MAX" using t by (simp add: multi_tame_def)
  from unknown_instrument_returns [OF _ this] obtain i where
    i: "unknown_instrument (set (map ws_instrument_id ?sps)) = Inr i" "i \<notin> set (map ws_instrument_id ?sps)" "1 \<le> i" "i \<le> U32_MAX"
    by blast
  from specials_play [OF t] obtain gms m where
    gms: "build_special_commands ms IdentifierRemapper = (Inr gms, reserved m)" "1 \<le> m" "m \<le> 12"
      "int (length gms) \<le> multi_command_count ms" by blast
  let ?b = "map (nat \<circ> ws_command_count) ?sps"
  have pos: "1 \<le> ws_command_count sp" if "sp \<in> set ?sps" for sp
    using tame that spec_validD(1) by (auto simp: list_all_iff tame_def)
  have total: "int (sum_list ?b) = multi_command_count ms"
  proof -
    have "int (sum_list (map (nat \<circ> ws_command_count) xs)) = sum_list (map ws_command_count xs)" if "set xs \<subseteq> set ?sps" for xs
      using that pos by (induction xs) fastforce+
    then show ?thesis by (simp add: multi_command_count_def)
  qed
  then have "length gms \<le> sum_list ?b" using gms(4) by linarith
  from consume_returns [OF this, of 0] obtain b where
    b: "consume_stream_budget (length gms) 0 ?b = Some b" "length b = length ?sps" "sum_list b + length gms = sum_list ?b"
      "\<forall>k < length ?sps. b ! k \<le> nat (ws_command_count (?sps ! k))" by auto
  let ?g = "\<lparr>mg_spec = ms, mg_rng = rng, mg_streams = gs, mg_remaining = b, mg_remapper = reserved m,
    mg_unknown_instrument = i, mg_special_commands = gms, mg_special_index = 0,
    mg_count = 0, mg_intended_valid = 0, mg_intended_invalid = 0, mg_new_orders = 0, mg_cancels = 0, mg_replaces = 0, mg_intents = []\<rparr>"
  have "MultiWorkloadGenerator ms seed = Some (Inr ?g)"
    using seed gs(1) i(1) gms(1) b(1) by (simp add: MultiWorkloadGenerator_def multi_prepare_def require_int_def SplitMix64_def U64_MAX_def)
  moreover have "generator_ok ms (\<lambda>_ _. []) (?g\<lparr>mg_special_index := length gms\<rparr>)"
  proof -
    have "remapper_ok (reserved m)" using gms(2) by (simp add: remapper_ok_def reserved_def)
    moreover have "stream_in_step (?sps ! k) (\<lambda>_. []) (b ! k) (gs ! k)" if "k < length ?sps" for k
      using list_all2_nthD [OF gs(2) that] b(4) pos [OF nth_mem [OF that]] that by (fastforce simp: stream_in_step_def)
    moreover have "m + 2 * int (sum_list b) \<le> U64_MAX"
      using b(3) total gms(3) t by (simp add: multi_tame_def U64_MAX_def)
    ultimately show ?thesis
      using i b(2) list_all2_lengthD [OF gs(2)] by (simp add: generator_ok_def view_ids_def reserved_def view_orders_def)
  qed
  ultimately show thesis using gms(1-3) b(3) total by (intro that [of ?g m]) simp_all
qed

section \<open>The prologue comes first\<close>

lemma prologue_drains:
  assumes "mg_special_index g \<le> length (mg_special_commands g)"
  shows "\<exists>g1. multi_drain g =
      (case multi_drain g1 of (Inl e, g2) \<Rightarrow> (Inl e, g2)
       | (Inr gms, g2) \<Rightarrow> (Inr (drop (mg_special_index g) (mg_special_commands g) @ gms), g2)) \<and>
    mg_remaining g1 = mg_remaining g \<and> mg_remapper g1 = mg_remapper g \<and>
    (\<forall>ms vv. generator_ok ms vv g1 = generator_ok ms vv (g\<lparr>mg_special_index := length (mg_special_commands g)\<rparr>))"
  using assms
proof (induction "length (mg_special_commands g) - mg_special_index g" arbitrary: g)
  case 0
  then have "mg_special_index g = length (mg_special_commands g)" by simp
  then show ?case by (intro exI [of _ g]) (simp add: generator_ok_def split: prod.splits sum.splits)
next
  case (Suc n)
  let ?i = "mg_special_index g" and ?specials = "mg_special_commands g"
  have i: "?i < length ?specials" using Suc(2) by simp
  let ?g = "record_multi (?specials ! ?i) (g\<lparr>mg_special_index := ?i + 1\<rparr>)"
  have step: "multi_next g = (Inr (?specials ! ?i), ?g)" using i by (simp add: multi_next_def Let_def)
  have "n = length (mg_special_commands ?g) - mg_special_index ?g" "mg_special_index ?g \<le> length (mg_special_commands ?g)"
    using Suc(2) i by simp_all
  from Suc(1) [OF this] obtain g1 where
    g1: "multi_drain ?g = (case multi_drain g1 of (Inl e, g2) \<Rightarrow> (Inl e, g2)
        | (Inr gms, g2) \<Rightarrow> (Inr (drop (mg_special_index ?g) (mg_special_commands ?g) @ gms), g2))"
      "mg_remaining g1 = mg_remaining ?g" "mg_remapper g1 = mg_remapper ?g"
      "\<forall>ms vv. generator_ok ms vv g1 = generator_ok ms vv (?g\<lparr>mg_special_index := length (mg_special_commands ?g)\<rparr>)" by blast
  have "multi_drain g = (case multi_drain ?g of (Inl e, g2) \<Rightarrow> (Inl e, g2) | (Inr gms, g2) \<Rightarrow> (Inr (?specials ! ?i # gms), g2))"
    by (subst multi_drain.simps) (simp add: step)
  with g1 i show ?case
    by (intro exI [of _ g1]) (simp add: Cons_nth_drop_Suc [symmetric] generator_ok_def split: prod.splits sum.splits)
qed

lemma prologue_first:
  assumes "mg_special_index g = 0"
  obtains g1 where
    "multi_drain g = (case multi_drain g1 of (Inl e, g2) \<Rightarrow> (Inl e, g2) | (Inr gms, g2) \<Rightarrow> (Inr (mg_special_commands g @ gms), g2))"
    "mg_remaining g1 = mg_remaining g" "mg_remapper g1 = mg_remapper g"
    "\<forall>ms vv. generator_ok ms vv g1 = generator_ok ms vv (g\<lparr>mg_special_index := length (mg_special_commands g)\<rparr>)"
  using prologue_drains [of g, unfolded assms drop_0, OF le0] that by blast

section \<open>The router starts on the same venue\<close>

lemma sort_key_sorted: "sorted (map f xs) \<Longrightarrow> sort_key f xs = xs"
  by (induction xs) (simp_all add: insort_is_Cons)

lemma router_starts:
  assumes t: "multi_tame ms"
  obtains catalog r where "multi_catalog ms = Inr catalog" "ReferenceRouter catalog (Some (mw_engine ms)) 1 check = Inr r"
    "router_inv r" "venue_of r = bid_venue (mw_streams ms) []" "rtr_next_sequence r = 1" "rtr_config r = mw_engine ms"
    "\<not> rtr_sequence_exhausted r"
proof -
  let ?sps = "mw_streams ms"
  let ?entry = "\<lambda>sp. \<lparr>ic_instrument_id = ws_instrument_id sp, ic_matching = ws_engine sp\<rparr>"
  have tame: "1 \<le> ws_instrument_id sp" "ws_instrument_id sp \<le> U32_MAX" "matching_config_ok (ws_engine sp)" if "sp \<in> set ?sps" for sp
    using multi_tameD(4) [OF t that] spec_validD(2,3,19) by (simp_all add: tame_def)
  have "mapR (\<lambda>sp. InstrumentConfig (ws_instrument_id sp) (ws_engine sp)) xs = Inr (map ?entry xs)" if "set xs \<subseteq> set ?sps" for xs
    using that tame by (induction xs) (simp_all add: InstrumentConfig_def)
  then have catalog: "multi_catalog ms = Inr (map ?entry ?sps)" by (simp add: multi_catalog_def)
  have ids: "map ic_instrument_id (map ?entry ?sps) = map ws_instrument_id ?sps" by simp
  have sorted: "sorted (map ic_instrument_id (map ?entry ?sps))" "distinct (map ic_instrument_id (map ?entry ?sps))"
    unfolding ids using t by (simp_all add: multi_tame_def strict_sorted_iff)
  have "\<forall>entry \<in> set (map ?entry ?sps). instrument_config_ok entry" using tame by (auto simp: instrument_config_ok_def)
  moreover have "router_config_ok (Some (mw_engine ms))" "map ?entry ?sps \<noteq> []" using t by (simp_all add: router_config_ok_def multi_tame_def)
  ultimately obtain r where
    r: "ReferenceRouter (map ?entry ?sps) (Some (mw_engine ms)) 1 check = Inr r" "router_inv r"
      "venue_of r = map (\<lambda>entry. (ic_instrument_id entry, ic_matching entry, \<lambda>_. [])) (map ?entry ?sps)" "rtr_next_sequence r = 1"
      "rtr_config r = mw_engine ms" "\<not> rtr_sequence_exhausted r"
    using ReferenceRouter_spec [of "map ?entry ?sps" "Some (mw_engine ms)" 1 check] sorted(2) sort_key_sorted [OF sorted(1)]
    by (auto simp: U64_MAX_def)
  have "venue_of r = bid_venue ?sps []"
    unfolding r(3) by (rule nth_equalityI) (auto simp: bid_venue_def bid_view_def fun_eq_iff split: side.splits)
  with that catalog r show thesis by blast
qed

lemma empty_streams: "stream_venue sps rm (\<lambda>_ _. []) = bid_venue sps []"
  by (simp add: stream_venue_def bid_venue_def bid_view_def rename_view_def fun_eq_iff split: side.splits)

lemma special_met_intent: "special_met gm es \<Longrightarrow> routed_intent_met gm (Inr (accepted_result es))"
  by (auto simp: special_met_def routed_intent_met_def accepted_result_def)

text \<open>The prologue through the router.\<close>

lemma prologue_runs:
  assumes t: "multi_tame ms" and build: "build_special_commands ms IdentifierRemapper = (Inr gms, rm)"
    and r: "router_inv r" "venue_of r = bid_venue (mw_streams ms) []" "rtr_next_sequence r = 1" "rtr_config r = mw_engine ms"
      "\<not> rtr_sequence_exhausted r"
  obtains ess r' where "\<forall>cmds. run_routes (map gm_command gms @ cmds) r = map (\<lambda>es. Inr (accepted_result es)) ess @ run_routes cmds r'"
    "list_all2 special_met gms ess" "router_inv r'" "\<not> rtr_sequence_exhausted r'" "venue_of r' = bid_venue (mw_streams ms) []"
    "rtr_config r' = mw_engine ms" "rtr_next_sequence r' = 1 + int (length gms)"
    "r' = foldl (\<lambda>r cmd. snd (router_execute cmd r)) r (map gm_command gms)"
proof -
  from specials_play [OF t] build have gms: "int (length gms) \<le> multi_command_count ms"
    "plays (max_total_active_orders (mw_engine ms)) gms 1 (bid_venue (mw_streams ms) []) (bid_venue (mw_streams ms) [])" by auto
  from plays_routes [OF gms(2)] obtain ess where
    ess: "spec_routes (max_total_active_orders (rtr_config r)) (map gm_command gms) (rtr_next_sequence r) (venue_of r) =
        (ess, bid_venue (mw_streams ms) [])" "list_all2 special_met gms ess"
      "\<forall>cmd \<in> set (map gm_command gms). require_representable cmd = Inr ()" using r by auto
  have "rtr_next_sequence r + int (length (map gm_command gms)) \<le> U64_MAX"
    using gms(1) t r(3) by (simp add: multi_tame_def U64_MAX_def)
  from run_routes_spec [OF r(1,5) ess(3) this ess(1)] that ess(2) r(3,4) show thesis by (metis length_map)
qed

lemma empty_dict: "(\<And>i. map_of xs i = None) \<Longrightarrow> xs = []"
proof (cases xs)
  case (Cons p ps)
  assume "\<And>i. map_of xs i = None"
  from this [of "fst p"] Cons show ?thesis by simp
qed simp

section \<open>Properties\<close>

text \<open>Two streams on instruments 3 and 7 for the witnesses, under a venue-wide capacity.\<close>

definition sample_streams :: "int \<Rightarrow> multi_workload_spec" where
  "sample_streams capacity =
     \<lparr>mw_streams = [sample_spec\<lparr>ws_instrument_id := 3\<rparr>, sample_spec], mw_engine = \<lparr>max_total_active_orders = capacity\<rparr>\<rparr>"

lemma sample_streams_tame:
  assumes "0 \<le> capacity" and "capacity \<le> U64_MAX"
  shows "multi_tame (sample_streams capacity)"
proof -
  have "tame (sample_spec\<lparr>ws_instrument_id := 3\<rparr>)" by code_simp
  with sample_tame assms show ?thesis
    by (simp add: multi_tame_def sample_streams_def multi_command_count_def sample_fields U32_MAX_def)
qed

lemma prepared_prologue:
  "multi_prepare ms seed = Inr g \<Longrightarrow> fst (build_special_commands ms IdentifierRemapper) = Inr (mg_special_commands g)"
  by (auto simp: multi_prepare_def bindR_def split: sum.split_asm prod.split_asm if_split_asm)

lemma built_prologue:
  assumes "MultiWorkloadGenerator ms seed = Some (Inr g)"
  shows "fst (build_special_commands ms IdentifierRemapper) = Inr (mg_special_commands g)"
proof (cases "multi_prepare ms seed")
  case (Inr g0)
  with assms have "mg_special_commands g = mg_special_commands g0" by (auto simp: MultiWorkloadGenerator_def)
  with prepared_prologue [OF Inr] show ?thesis by simp
qed (use assms in \<open>simp add: MultiWorkloadGenerator_def\<close>)

text \<open>
  C34.  For a specification that \<open>multi_tame\<close> admits the prologue does what its intents say, at every capacity: the constructor returns for every 64-bit
  seed, the iterator starts with the prologue, a router of the specification accepts each of its commands that
  is intended valid and rejects each other one for the reason its intent names, and no order is active when the
  prologue ends.
\<close>

theorem prologue_exact:
  assumes "multi_tame ms" and "0 \<le> seed" and "seed \<le> U64_MAX"
  shows "\<exists>catalog r g specials ess. multi_catalog ms = Inr catalog \<and>
    ReferenceRouter catalog (Some (mw_engine ms)) 1 check = Inr r \<and> MultiWorkloadGenerator ms seed = Some (Inr g) \<and>
    specials = mg_special_commands g \<and> (\<exists>g1. fst (multi_drain g) = bindR (fst (multi_drain g1)) (\<lambda>gms. Inr (specials @ gms))) \<and>
    run_routes (map gm_command specials) r = map (\<lambda>es. Inr (accepted_result es)) ess \<and> list_all2 special_met specials ess \<and>
    rtr_active (foldl (\<lambda>r cmd. snd (router_execute cmd r)) r (map gm_command specials)) = []"
proof -
  from router_starts [OF assms(1), of check] obtain catalog r where
    r: "multi_catalog ms = Inr catalog" "ReferenceRouter catalog (Some (mw_engine ms)) 1 check = Inr r"
      "router_inv r" "venue_of r = bid_venue (mw_streams ms) []" "rtr_next_sequence r = 1" "rtr_config r = mw_engine ms"
      "\<not> rtr_sequence_exhausted r" .
  from generator_starts [OF assms] obtain g m where
    g: "MultiWorkloadGenerator ms seed = Some (Inr g)"
      "build_special_commands ms IdentifierRemapper = (Inr (mg_special_commands g), reserved m)" "mg_special_index g = 0" by blast
  from prologue_runs [OF assms(1) g(2) r(3-7)] obtain ess r' where
    p: "\<forall>cmds. run_routes (map gm_command (mg_special_commands g) @ cmds) r = map (\<lambda>es. Inr (accepted_result es)) ess @ run_routes cmds r'"
      "list_all2 special_met (mg_special_commands g) ess" "router_inv r'" "\<not> rtr_sequence_exhausted r'"
      "venue_of r' = bid_venue (mw_streams ms) []" "rtr_config r' = mw_engine ms"
      "rtr_next_sequence r' = 1 + int (length (mg_special_commands g))"
      "r' = foldl (\<lambda>r cmd. snd (router_execute cmd r)) r (map gm_command (mg_special_commands g))" .
  have "venue_orders (venue_of r') = []" unfolding p(5) using length_bid_orders [of "[]"] by simp
  then have "map_of (rtr_active r') i = None" for i using directory_lookup [OF p(3)] by (simp add: find_venue_order_def)
  then have "rtr_active r' = []" by (rule empty_dict)
  then have "rtr_active (foldl (\<lambda>r cmd. snd (router_execute cmd r)) r (map gm_command (mg_special_commands g))) = []" unfolding p(8) .
  moreover have "run_routes (map gm_command (mg_special_commands g)) r = map (\<lambda>es. Inr (accepted_result es)) ess"
    using spec [OF p(1), of "[]"] by simp
  moreover from prologue_first [OF g(3)] obtain g1 where
    g1: "multi_drain g = (case multi_drain g1 of (Inl e, g2) \<Rightarrow> (Inl e, g2) | (Inr gms, g2) \<Rightarrow> (Inr (mg_special_commands g @ gms), g2))"
      "mg_remaining g1 = mg_remaining g" "mg_remapper g1 = mg_remapper g"
      "\<forall>ms vv. generator_ok ms vv g1 = generator_ok ms vv (g\<lparr>mg_special_index := length (mg_special_commands g)\<rparr>)" .
  have "fst (multi_drain g) = bindR (fst (multi_drain g1)) (\<lambda>gms. Inr (mg_special_commands g @ gms))"
    unfolding g1(1) by (simp split: prod.splits sum.splits)
  ultimately show ?thesis
    using r(1,2) g(1) p(2)
    by (intro exI [of _ catalog] exI [of _ r] exI [of _ g] exI [of _ "mg_special_commands g"] exI [of _ ess] conjI exI [of _ g1]) simp_all
qed

theorem prologue_exact_witness:
  "\<exists>catalog r g ess. multi_catalog (sample_streams 2) = Inr catalog \<and>
    ReferenceRouter catalog (Some \<lparr>max_total_active_orders = 2\<rparr>) 1 True = Inr r \<and>
    MultiWorkloadGenerator (sample_streams 2) 42 = Some (Inr g) \<and> length (mg_special_commands g) = 14 \<and>
    run_routes (map gm_command (mg_special_commands g)) r = map (\<lambda>es. Inr (accepted_result es)) ess \<and>
    list_all2 special_met (mg_special_commands g) ess"
proof -
  have "multi_tame (sample_streams 2)" by (rule sample_streams_tame) (simp_all add: U64_MAX_def)
  from prologue_exact [OF this, of 42 True] obtain catalog r g ess where
    w: "multi_catalog (sample_streams 2) = Inr catalog" "ReferenceRouter catalog (Some (mw_engine (sample_streams 2))) 1 True = Inr r"
      "MultiWorkloadGenerator (sample_streams 2) 42 = Some (Inr g)"
      "run_routes (map gm_command (mg_special_commands g)) r = map (\<lambda>es. Inr (accepted_result es)) ess"
      "list_all2 special_met (mg_special_commands g) ess" by (auto simp: U64_MAX_def)
  have "length (projr (fst (build_special_commands (sample_streams 2) IdentifierRemapper))) = 14" by code_simp
  with w built_prologue [OF w(3)] show ?thesis by (auto simp: sample_streams_def)
qed

text \<open>
  C7.  Intents are verdicts across instruments.  For a specification that \<open>multi_tame\<close> admits (streams that
  are \<open>tame\<close>, strictly increasing instruments with one to spare, at most \<open>2 ^ 61\<close> commands in all) and
  whose venue-wide capacity covers the capacities of the books, the constructor returns for every 64-bit seed, the iterator yields exactly as many commands as the
  streams ask for, prologue included, and a router of the specification, run over them from empty books,
  accepts exactly the commands intended valid.
\<close>

theorem multi_intents_exact:
  assumes "multi_tame ms" and "roomy ms" and "0 \<le> seed" and "seed \<le> U64_MAX"
  shows "\<exists>catalog r g gms g'. multi_catalog ms = Inr catalog \<and> ReferenceRouter catalog (Some (mw_engine ms)) 1 check = Inr r \<and>
    MultiWorkloadGenerator ms seed = Some (Inr g) \<and> multi_drain g = (Inr gms, g') \<and> int (length gms) = multi_command_count ms \<and>
    list_all2 routed_intent_met gms (run_routes (map gm_command gms) r)"
proof -
  from router_starts [OF assms(1), of check] obtain catalog r where
    r: "multi_catalog ms = Inr catalog" "ReferenceRouter catalog (Some (mw_engine ms)) 1 check = Inr r"
      "router_inv r" "venue_of r = bid_venue (mw_streams ms) []" "rtr_next_sequence r = 1" "rtr_config r = mw_engine ms"
      "\<not> rtr_sequence_exhausted r" .
  from generator_starts [OF assms(1,3,4)] obtain g m where
    g: "MultiWorkloadGenerator ms seed = Some (Inr g)"
      "build_special_commands ms IdentifierRemapper = (Inr (mg_special_commands g), reserved m)" "mg_special_index g = 0"
      "int (length (mg_special_commands g) + sum_list (mg_remaining g)) = multi_command_count ms"
      "generator_ok ms (\<lambda>_ _. []) (g\<lparr>mg_special_index := length (mg_special_commands g)\<rparr>)" "mg_remapper g = reserved m" by blast
  from prologue_runs [OF assms(1) g(2) r(3-7)] obtain ess r' where
    p: "\<forall>cmds. run_routes (map gm_command (mg_special_commands g) @ cmds) r = map (\<lambda>es. Inr (accepted_result es)) ess @ run_routes cmds r'"
      "list_all2 special_met (mg_special_commands g) ess" "router_inv r'" "\<not> rtr_sequence_exhausted r'"
      "venue_of r' = bid_venue (mw_streams ms) []" "rtr_config r' = mw_engine ms"
      "rtr_next_sequence r' = 1 + int (length (mg_special_commands g))"
      "r' = foldl (\<lambda>r cmd. snd (router_execute cmd r)) r (map gm_command (mg_special_commands g))" .
  from prologue_first [OF g(3)] obtain g1 where
    g1: "multi_drain g = (case multi_drain g1 of (Inl e, g2) \<Rightarrow> (Inl e, g2) | (Inr gms, g2) \<Rightarrow> (Inr (mg_special_commands g @ gms), g2))"
      "mg_remaining g1 = mg_remaining g" "mg_remapper g1 = mg_remapper g"
      "\<forall>ms vv. generator_ok ms vv g1 = generator_ok ms vv (g\<lparr>mg_special_index := length (mg_special_commands g)\<rparr>)" .
  have "in_step ms (\<lambda>_ _. []) g1 r'"
    using p g1(2,4) g(4,5) assms(1) by (simp add: in_step_def empty_streams multi_tame_def U64_MAX_def)
  from streams_run [OF this assms(1,2)] obtain gms g2 where
    d: "multi_drain g1 = (Inr gms, g2)" "length gms = sum_list (mg_remaining g1)"
      "list_all2 routed_intent_met gms (run_routes (map gm_command gms) r')" by blast
  have "list_all2 routed_intent_met (mg_special_commands g) (map (\<lambda>es. Inr (accepted_result es)) ess)"
    unfolding list.rel_map by (rule list_all2_mono [OF p(2) special_met_intent])
  with d p(1) g(1,4) g1(1,2) r(1,2) show ?thesis by (auto intro!: list_all2_appendI)
qed

theorem multi_intents_exact_witness:
  "\<exists>catalog r g gms g'. multi_catalog (sample_streams U64_MAX) = Inr catalog \<and>
    ReferenceRouter catalog (Some \<lparr>max_total_active_orders = U64_MAX\<rparr>) 1 True = Inr r \<and>
    MultiWorkloadGenerator (sample_streams U64_MAX) 42 = Some (Inr g) \<and> multi_drain g = (Inr gms, g') \<and> length gms = 80 \<and>
    list_all2 routed_intent_met gms (run_routes (map gm_command gms) r)"
proof -
  have "multi_tame (sample_streams U64_MAX)" by (rule sample_streams_tame) (simp_all add: U64_MAX_def)
  moreover have "roomy (sample_streams U64_MAX)" by code_simp
  moreover have "multi_command_count (sample_streams U64_MAX) = 80" by code_simp
  ultimately show ?thesis using multi_intents_exact [of "sample_streams U64_MAX" 42 True]
    by (auto simp: U64_MAX_def sample_streams_def)
qed

end
