(* ===== verification/Multi_Workload_Files.thy ===== *)
theory Multi_Workload_Files
  imports Workload_Files Multi_Generation
begin

text \<open>
  Multi-instrument workload documents: \<open>python/src/atlaslob/multi_workload.py\<close> and the dictionary form of a
  specification from \<open>multi_generation.py\<close>.  A JSON document is its value; \<open>sha256\<close> is a parameter.
\<close>

section \<open>Fields\<close>

definition MULTI_WORKLOAD_SPEC_SCHEMA :: string where
  "MULTI_WORKLOAD_SPEC_SCHEMA = ''atlas_workload_spec_v2''"

definition MULTI_WORKLOAD_STREAM_SCHEMA :: string where
  "MULTI_WORKLOAD_STREAM_SCHEMA = ''atlas_workload_stream_v2''"

definition MULTI_WORKLOAD_COMMAND_SCHEMA :: string where
  "MULTI_WORKLOAD_COMMAND_SCHEMA = ''atlas_workload_command_v2''"

definition MULTI_WORKLOAD_MANIFEST_SCHEMA :: string where
  "MULTI_WORKLOAD_MANIFEST_SCHEMA = ''atlas_workload_manifest_v2''"

text \<open>\<open>isascii() and isdecimal()\<close>.\<close>

definition ascii_decimal :: "string \<Rightarrow> bool" where
  "ascii_decimal t \<longleftrightarrow> list_all (\<lambda>c. (of_char c :: nat) < 128) t \<and> t \<noteq> [] \<and> list_all is_digit t"

definition bounded_decimal :: "json \<Rightarrow> int \<Rightarrow> int result" where
  "bounded_decimal v maximum =
     bindR (json_string v) (\<lambda>t.
     if \<not> ascii_decimal t \<or> (1 < length t \<and> hd t = CHR ''0'') then Inl ValueError
     else let parsed = py_int t in
       if \<not> (0 \<le> parsed \<and> parsed \<le> maximum) then Inl ValueError else Inr parsed)"

definition signed_range :: "int \<Rightarrow> int result" where
  "signed_range parsed = (if \<not> (I64_MIN \<le> parsed \<and> parsed \<le> I64_MAX) then Inl ValueError else Inr parsed)"

definition bounded_signed_decimal :: "json \<Rightarrow> int result" where
  "bounded_signed_decimal v =
     bindR (json_string v) (\<lambda>t.
     if \<not> list_all (\<lambda>c. (of_char c :: nat) < 128) t then Inl ValueError
     else if t \<noteq> [] \<and> hd t = CHR ''-''
       then (let digits = tl t in
         if digits = [] \<or> \<not> ascii_decimal digits \<or> hd digits = CHR ''0'' then Inl ValueError else signed_range (py_int t))
     else if \<not> ascii_decimal t \<or> (1 < length t \<and> hd t = CHR ''0'') then Inl ValueError
     else signed_range (py_int t))"

definition json_u8 :: "json \<Rightarrow> int result" where
  "json_u8 v = (case v of JInt i \<Rightarrow> if 0 \<le> i \<and> i \<le> 255 then Inr i else Inl ValueError | _ \<Rightarrow> Inl ValueError)"

section \<open>Specifications\<close>

definition multi_spec_to_dict :: "multi_workload_spec \<Rightarrow> json" where
  "multi_spec_to_dict ms = JObj
     [(''schema'', JStr MULTI_WORKLOAD_SPEC_SCHEMA), (''max_total_active_orders'', jnum (max_total_active_orders (mw_engine ms))),
      (''streams'', JList (map spec_to_dict (mw_streams ms)))]"

text \<open>\<open>str(capacity) != raw_capacity\<close> refuses leading zeros.\<close>

definition capacity_from_json :: "json \<Rightarrow> int result" where
  "capacity_from_json v =
     bindR (json_string v) (\<lambda>t.
     if \<not> ascii_decimal t then Inl ValueError
     else let capacity = py_int t in
       if \<not> (0 \<le> capacity \<and> capacity \<le> U64_MAX) \<or> py_str capacity \<noteq> t then Inl ValueError else Inr capacity)"

definition multi_spec_from_dict :: "(string \<times> json) list \<Rightarrow> multi_workload_spec result" where
  "multi_spec_from_dict kvs =
     (let item = get_key (JObj kvs) in
      bindR (require_keys kvs [''schema'', ''max_total_active_orders'', ''streams'']) (\<lambda>_.
      bindR (guardR (item ''schema'' = JStr MULTI_WORKLOAD_SPEC_SCHEMA) ValueError) (\<lambda>_.
      bindR (case item ''streams'' of JList vs \<Rightarrow> Inr vs | _ \<Rightarrow> Inl ValueError) (\<lambda>raw_streams.
      bindR (capacity_from_json (item ''max_total_active_orders'')) (\<lambda>capacity.
      bindR (mapR (\<lambda>raw_stream. bindR (json_mapping raw_stream) spec_from_dict) raw_streams) (\<lambda>streams.
      bindR (MultiInstrumentEngineConfig capacity) (\<lambda>engine.
      MultiWorkloadSpec streams engine)))))))"

section \<open>Commands\<close>

definition jprice :: "int option \<Rightarrow> json" where
  "jprice p = (case p of None \<Rightarrow> JNull | Some q \<Rightarrow> jnum q)"

fun command_to_dict :: "command \<Rightarrow> (string \<times> json) list" where
  "command_to_dict (NewOrder c) =
     [(''type'', JStr ''new''), (''client_id'', jnum (new_client_id c)), (''order_id'', jnum (new_order_id c)),
      (''instrument_id'', jnum (new_instrument_id c)), (''side'', JInt (new_side c)), (''order_type'', JInt (new_order_type c)),
      (''time_in_force'', JInt (new_time_in_force c)), (''limit_price'', jprice (new_limit_price c)),
      (''quantity'', jnum (new_quantity c))]"
| "command_to_dict (CancelOrder c) =
     [(''type'', JStr ''cancel''), (''client_id'', jnum (cancel_client_id c)), (''order_id'', jnum (cancel_order_id c)),
      (''instrument_id'', jnum (cancel_instrument_id c))]"
| "command_to_dict (ReplaceOrder c) =
     [(''type'', JStr ''replace''), (''client_id'', jnum (rep_client_id c)), (''old_order_id'', jnum (rep_old_order_id c)),
      (''new_order_id'', jnum (rep_new_order_id c)), (''instrument_id'', jnum (rep_instrument_id c)),
      (''new_limit_price'', jnum (rep_new_limit_price c)), (''new_quantity'', jnum (rep_new_quantity c))]"

definition new_from_dict :: "(string \<times> json) list \<Rightarrow> command result" where
  "new_from_dict kvs =
     (let item = get_key (JObj kvs) in
      bindR (require_keys kvs [''type'', ''client_id'', ''order_id'', ''instrument_id'', ''side'', ''order_type'', ''time_in_force'',
        ''limit_price'', ''quantity'']) (\<lambda>_.
      bindR (bounded_decimal (item ''client_id'') U32_MAX) (\<lambda>client.
      bindR (bounded_decimal (item ''order_id'') U64_MAX) (\<lambda>oid.
      bindR (bounded_decimal (item ''instrument_id'') U32_MAX) (\<lambda>iid.
      bindR (json_u8 (item ''side'')) (\<lambda>sd.
      bindR (json_u8 (item ''order_type'')) (\<lambda>ot.
      bindR (json_u8 (item ''time_in_force'')) (\<lambda>tif.
      bindR (if item ''limit_price'' = JNull then Inr None
             else bindR (bounded_signed_decimal (item ''limit_price'')) (\<lambda>p. Inr (Some p))) (\<lambda>price.
      bindR (bounded_decimal (item ''quantity'') U64_MAX) (\<lambda>quantity.
      Inr (NewOrder \<lparr>new_client_id = client, new_order_id = oid, new_instrument_id = iid, new_side = sd, new_order_type = ot,
        new_time_in_force = tif, new_limit_price = price, new_quantity = quantity\<rparr>)))))))))))"

definition cancel_from_dict :: "(string \<times> json) list \<Rightarrow> command result" where
  "cancel_from_dict kvs =
     (let item = get_key (JObj kvs) in
      bindR (require_keys kvs [''type'', ''client_id'', ''order_id'', ''instrument_id'']) (\<lambda>_.
      bindR (bounded_decimal (item ''client_id'') U32_MAX) (\<lambda>client.
      bindR (bounded_decimal (item ''order_id'') U64_MAX) (\<lambda>oid.
      bindR (bounded_decimal (item ''instrument_id'') U32_MAX) (\<lambda>iid.
      Inr (CancelOrder \<lparr>cancel_client_id = client, cancel_order_id = oid, cancel_instrument_id = iid\<rparr>))))))"

definition replace_from_dict :: "(string \<times> json) list \<Rightarrow> command result" where
  "replace_from_dict kvs =
     (let item = get_key (JObj kvs) in
      bindR (require_keys kvs [''type'', ''client_id'', ''old_order_id'', ''new_order_id'', ''instrument_id'', ''new_limit_price'',
        ''new_quantity'']) (\<lambda>_.
      bindR (bounded_decimal (item ''client_id'') U32_MAX) (\<lambda>client.
      bindR (bounded_decimal (item ''old_order_id'') U64_MAX) (\<lambda>old_id.
      bindR (bounded_decimal (item ''new_order_id'') U64_MAX) (\<lambda>new_id.
      bindR (bounded_decimal (item ''instrument_id'') U32_MAX) (\<lambda>iid.
      bindR (bounded_signed_decimal (item ''new_limit_price'')) (\<lambda>price.
      bindR (bounded_decimal (item ''new_quantity'') U64_MAX) (\<lambda>quantity.
      Inr (ReplaceOrder \<lparr>rep_client_id = client, rep_old_order_id = old_id, rep_new_order_id = new_id, rep_instrument_id = iid,
        rep_new_limit_price = price, rep_new_quantity = quantity\<rparr>)))))))))"

definition command_from_dict :: "(string \<times> json) list \<Rightarrow> command result" where
  "command_from_dict kvs =
     (let command_name = get_key (JObj kvs) ''type'' in
      if command_name = JStr ''new'' then new_from_dict kvs
      else if command_name = JStr ''cancel'' then cancel_from_dict kvs
      else if command_name = JStr ''replace'' then replace_from_dict kvs
      else Inl ValueError)"

section \<open>Streams and manifests\<close>

definition catalog_to_json :: "instrument_config list \<Rightarrow> json" where
  "catalog_to_json catalog = JList (map (\<lambda>entry. JObj
     [(''instrument_id'', jnum (ic_instrument_id entry)), (''max_order_quantity'', jnum (max_order_quantity (ic_matching entry))),
      (''tick_increment'', jnum (tick_increment (ic_matching entry))),
      (''max_active_orders'', jnum (max_active_orders (ic_matching entry)))]) catalog)"

definition stream_header :: "multi_workload_spec \<Rightarrow> instrument_config list \<Rightarrow> json" where
  "stream_header ms catalog = JObj
     [(''schema'', JStr MULTI_WORKLOAD_STREAM_SCHEMA),
      (''max_total_active_orders'', jnum (max_total_active_orders (mw_engine ms))), (''catalog'', catalog_to_json catalog)]"

definition stream_line :: "nat \<times> command \<Rightarrow> json" where
  "stream_line entry = JObj
     [(''schema'', JStr MULTI_WORKLOAD_COMMAND_SCHEMA), (''index'', jnum (int (fst entry))),
      (''command'', JObj (command_to_dict (snd entry)))]"

definition workload_stream_bytes :: "multi_workload_spec \<Rightarrow> command list \<Rightarrow> bytes result" where
  "workload_stream_bytes ms cmds =
     bindR (guardR (int (length cmds) = multi_command_count ms) ValueError) (\<lambda>_.
     bindR (multi_catalog ms) (\<lambda>catalog.
     Inr (ascii_bytes (join_with [CHR 0x0A] (dumps (stream_header ms catalog) # map (dumps \<circ> stream_line) (enumerate 0 cmds)) @ [CHR 0x0A]))))"

record multi_workload_manifest =
  mm_generator_version :: int
  mm_seed :: int
  mm_spec :: multi_workload_spec
  mm_command_count :: int
  mm_command_stream_sha256 :: string
  mm_stats :: generation_stats

definition check_multi_manifest :: "multi_workload_manifest \<Rightarrow> unit result" where
  "check_multi_manifest m =
     (let stats = mm_stats m; names = map fst (st_intents stats) in
      check_all
       [guardR (mm_generator_version m = MULTI_GENERATOR_VERSION) ValueError,
        require_seed (mm_seed m),
        require_seed (mm_command_count m),
        guardR (mm_command_count m = multi_command_count (mm_spec m)) ValueError,
        require_digest (mm_command_stream_sha256 m),
        guardR (st_command_count stats = mm_command_count m) ValueError,
        guardR (st_intended_valid stats + st_intended_invalid stats = mm_command_count m) ValueError,
        guardR (st_new_orders stats + st_cancels stats + st_replaces stats = mm_command_count m) ValueError,
        guardR (sum_list (map snd (st_intents stats)) = mm_command_count m) ValueError,
        guardR (names = sort names \<and> distinct names \<and> list_all (\<lambda>(name, n). name \<noteq> [] \<and> 1 \<le> n) (st_intents stats)) ValueError])"

definition MultiWorkloadManifest :: "multi_workload_manifest \<Rightarrow> multi_workload_manifest result" where
  "MultiWorkloadManifest m = bindR (check_multi_manifest m) (\<lambda>_. Inr m)"

definition build_multi_manifest ::
  "(bytes \<Rightarrow> string) \<Rightarrow> multi_workload_spec \<Rightarrow> int \<Rightarrow> command list \<Rightarrow> generation_stats \<Rightarrow> multi_workload_manifest result" where
  "build_multi_manifest sha256 ms seed cmds stats =
     bindR (workload_stream_bytes ms cmds) (\<lambda>encoded.
     MultiWorkloadManifest \<lparr>mm_generator_version = MULTI_GENERATOR_VERSION, mm_seed = seed, mm_spec = ms,
       mm_command_count = int (length cmds), mm_command_stream_sha256 = sha256 encoded, mm_stats = stats\<rparr>)"

definition multi_manifest_to_dict :: "multi_workload_manifest \<Rightarrow> (string \<times> json) list" where
  "multi_manifest_to_dict m =
     (let stats = mm_stats m in
      [(''schema'', JStr MULTI_WORKLOAD_MANIFEST_SCHEMA), (''generator_version'', JInt (mm_generator_version m)),
       (''seed'', jnum (mm_seed m)), (''spec'', multi_spec_to_dict (mm_spec m)), (''command_count'', jnum (mm_command_count m)),
       (''command_stream_sha256'', JStr (mm_command_stream_sha256 m)),
       (''intent_counts'', JObj
         [(''intended_valid'', jnum (st_intended_valid stats)), (''intended_invalid'', jnum (st_intended_invalid stats)),
          (''new_orders'', jnum (st_new_orders stats)), (''cancels'', jnum (st_cancels stats)), (''replaces'', jnum (st_replaces stats)),
          (''intents'', JObj (map (\<lambda>(name, n). (name, jnum n)) (st_intents stats)))])])"

definition bounded_intents :: "(string \<times> json) list \<Rightarrow> (string \<times> int) list result" where
  "bounded_intents kvs = bindR (mapR (\<lambda>(name, v). bindR (bounded_decimal v U64_MAX) (\<lambda>n. Inr (name, n))) kvs) (\<lambda>xs. Inr (sort xs))"

definition multi_manifest_from_dict :: "(string \<times> json) list \<Rightarrow> multi_workload_manifest result" where
  "multi_manifest_from_dict kvs =
     (let item = get_key (JObj kvs) in
      bindR (require_keys kvs [''schema'', ''generator_version'', ''seed'', ''spec'', ''command_count'', ''command_stream_sha256'',
        ''intent_counts'']) (\<lambda>_.
      bindR (guardR (item ''schema'' = JStr MULTI_WORKLOAD_MANIFEST_SCHEMA) ValueError) (\<lambda>_.
      bindR (json_mapping (item ''intent_counts'')) (\<lambda>cs.
      bindR (require_keys cs [''intended_valid'', ''intended_invalid'', ''new_orders'', ''cancels'', ''replaces'', ''intents'']) (\<lambda>_.
      bindR (json_mapping (get_key (JObj cs) ''intents'')) (\<lambda>raw_intents.
      bindR (guardR (list_all (\<lambda>(name, v). name \<noteq> []) raw_intents) ValueError) (\<lambda>_.
      bindR (bounded_decimal (item ''command_count'') U64_MAX) (\<lambda>command_count.
      bindR (bounded_decimal (get_key (JObj cs) ''intended_valid'') U64_MAX) (\<lambda>valid.
      bindR (bounded_decimal (get_key (JObj cs) ''intended_invalid'') U64_MAX) (\<lambda>invalid.
      bindR (bounded_decimal (get_key (JObj cs) ''new_orders'') U64_MAX) (\<lambda>news.
      bindR (bounded_decimal (get_key (JObj cs) ''cancels'') U64_MAX) (\<lambda>cancels.
      bindR (bounded_decimal (get_key (JObj cs) ''replaces'') U64_MAX) (\<lambda>replaces.
      bindR (bounded_intents raw_intents) (\<lambda>intents.
      bindR (json_mapping (item ''spec'')) (\<lambda>raw_spec.
      bindR (json_string (item ''command_stream_sha256'')) (\<lambda>digest.
      bindR (json_int (item ''generator_version'')) (\<lambda>version.
      bindR (bounded_decimal (item ''seed'') U64_MAX) (\<lambda>seed.
      bindR (multi_spec_from_dict raw_spec) (\<lambda>ms.
      MultiWorkloadManifest \<lparr>mm_generator_version = version, mm_seed = seed, mm_spec = ms, mm_command_count = command_count,
        mm_command_stream_sha256 = digest,
        mm_stats = \<lparr>st_command_count = command_count, st_intended_valid = valid, st_intended_invalid = invalid,
          st_new_orders = news, st_cancels = cancels, st_replaces = replaces, st_intents = intents\<rparr>\<rparr>)))))))))))))))))))"

end
