(* ===== verification/Multi_Workload_Properties.thy ===== *)
theory Multi_Workload_Properties
  imports Multi_Workload_Files Campaign_Properties
begin

text \<open>
  Multi-instrument workload documents are read back as they were written: the dictionary forms of commands,
  specifications and manifests are inverses of their readers.
\<close>

section \<open>Fields\<close>

lemma py_str_canonical:
  assumes "0 \<le> i"
  shows "ascii_decimal (py_str i)" "\<not> (1 < length (py_str i) \<and> hd (py_str i) = CHR ''0'')"
proof -
  have "unsigned_decimal (py_str i)" by (rule py_str_unsigned [OF assms])
  then consider "py_str i = ''0''" | "py_str i \<noteq> []" "list_all is_digit (py_str i)" "hd (py_str i) \<noteq> CHR ''0''"
    by (auto simp: unsigned_decimal_def positive_decimal_def)
  then have "ascii_decimal (py_str i) \<and> \<not> (1 < length (py_str i) \<and> hd (py_str i) = CHR ''0'')"
  proof cases
    case 1
    then show ?thesis unfolding 1 by (simp add: ascii_decimal_def is_digit_def)
  next
    case 2
    then show ?thesis by (auto simp: ascii_decimal_def list_all_iff intro: digit_small)
  qed
  then show "ascii_decimal (py_str i)" "\<not> (1 < length (py_str i) \<and> hd (py_str i) = CHR ''0'')" by simp_all
qed

lemma bounded_decimal_reads [simp]: "0 \<le> i \<Longrightarrow> i \<le> maximum \<Longrightarrow> bounded_decimal (jnum i) maximum = Inr i"
  using py_str_canonical [of i] by (auto simp: bounded_decimal_def)

lemma bounded_signed_decimal_reads [simp]:
  assumes "I64_MIN \<le> i" and "i \<le> I64_MAX"
  shows "bounded_signed_decimal (jnum i) = Inr i"
proof (cases "i < 0")
  case True
  then have s: "py_str i = CHR ''-'' # dec (nat (- i))" by (simp add: py_str_def)
  have "positive_decimal (dec (nat (- i)))" using True by (intro dec_positive) simp
  with assms show ?thesis
    using py_int_str [of i] unfolding s
    by (auto simp: bounded_signed_decimal_def signed_range_def ascii_decimal_def positive_decimal_def Let_def list_all_iff s intro: digit_small)
next
  case False
  then have c: "ascii_decimal (py_str i)" "\<not> (1 < length (py_str i) \<and> hd (py_str i) = CHR ''0'')" using py_str_canonical [of i] by auto
  have "hd (py_str i) \<noteq> CHR ''-''" using unsigned_no_sign [OF py_str_unsigned] False by simp
  with c assms show ?thesis by (auto simp: bounded_signed_decimal_def signed_range_def ascii_decimal_def)
qed

lemma capacity_reads [simp]: "0 \<le> i \<Longrightarrow> i \<le> U64_MAX \<Longrightarrow> capacity_from_json (jnum i) = Inr i"
  using py_str_canonical(1) [of i] by (simp add: capacity_from_json_def)

lemma u8_reads [simp]: "0 \<le> i \<Longrightarrow> i \<le> U8_MAX \<Longrightarrow> json_u8 (JInt i) = Inr i"
  by (simp add: json_u8_def U8_MAX_def)

section \<open>Round trips\<close>

lemma command_dict_roundtrip:
  assumes "require_representable cmd = Inr ()"
  shows "command_from_dict (command_to_dict cmd) = Inr cmd"
proof (cases cmd)
  case (NewOrder c)
  with assms have "0 \<le> new_client_id c" "new_client_id c \<le> U32_MAX" "0 \<le> new_order_id c" "new_order_id c \<le> U64_MAX"
    "0 \<le> new_instrument_id c" "new_instrument_id c \<le> U32_MAX" "0 \<le> new_side c" "new_side c \<le> U8_MAX" "0 \<le> new_order_type c"
    "new_order_type c \<le> U8_MAX" "0 \<le> new_time_in_force c" "new_time_in_force c \<le> U8_MAX" "0 \<le> new_quantity c" "new_quantity c \<le> U64_MAX"
    "\<forall>p. new_limit_price c = Some p \<longrightarrow> I64_MIN \<le> p \<and> p \<le> I64_MAX"
    by (auto simp: bindR_Inr_iff require_uint_def require_i64_def split: if_splits option.splits)
  then show ?thesis
    by (cases "new_limit_price c") (simp_all add: NewOrder command_from_dict_def new_from_dict_def jprice_def Let_def insert_commute)
next
  case (CancelOrder c)
  with assms have "0 \<le> cancel_client_id c" "cancel_client_id c \<le> U32_MAX" "0 \<le> cancel_order_id c" "cancel_order_id c \<le> U64_MAX"
    "0 \<le> cancel_instrument_id c" "cancel_instrument_id c \<le> U32_MAX"
    by (auto simp: bindR_Inr_iff require_uint_def require_i64_def split: if_splits)
  then show ?thesis by (simp add: CancelOrder command_from_dict_def cancel_from_dict_def Let_def insert_commute)
next
  case (ReplaceOrder c)
  with assms have "0 \<le> rep_client_id c" "rep_client_id c \<le> U32_MAX" "0 \<le> rep_old_order_id c" "rep_old_order_id c \<le> U64_MAX"
    "0 \<le> rep_new_order_id c" "rep_new_order_id c \<le> U64_MAX" "0 \<le> rep_instrument_id c" "rep_instrument_id c \<le> U32_MAX"
    "I64_MIN \<le> rep_new_limit_price c" "rep_new_limit_price c \<le> I64_MAX" "0 \<le> rep_new_quantity c" "rep_new_quantity c \<le> U64_MAX"
    by (auto simp: bindR_Inr_iff require_uint_def require_i64_def split: if_splits)
  then show ?thesis by (simp add: ReplaceOrder command_from_dict_def replace_from_dict_def Let_def insert_commute)
qed

lemma multi_spec_dict_roundtrip:
  assumes "MultiWorkloadSpec (mw_streams ms) (mw_engine ms) = Inr ms" and "\<forall>sp \<in> set (mw_streams ms). dict_spec_ok sp"
    and "0 \<le> max_total_active_orders (mw_engine ms)" and "max_total_active_orders (mw_engine ms) \<le> U64_MAX"
  shows "bindR (json_mapping (multi_spec_to_dict ms)) multi_spec_from_dict = Inr ms"
proof -
  have "mapR (\<lambda>raw_stream. bindR (json_mapping raw_stream) spec_from_dict) (map spec_to_dict (mw_streams ms)) = Inr (mw_streams ms)"
    using assms(2) by (intro mapR_inverse) simp
  moreover have "MultiInstrumentEngineConfig (max_total_active_orders (mw_engine ms)) = Inr (mw_engine ms)"
    using assms(3,4) by (cases "mw_engine ms") (simp add: MultiInstrumentEngineConfig_def require_u64_def)
  ultimately show ?thesis using assms(1,3,4)
    by (simp add: multi_spec_to_dict_def multi_spec_from_dict_def Let_def insert_commute)
qed

lemma checked_multi_manifest:
  assumes "check_multi_manifest m = Inr ()"
  shows "0 \<le> mm_seed m" "mm_seed m \<le> U64_MAX" "0 \<le> mm_command_count m" "mm_command_count m \<le> U64_MAX"
    "st_command_count (mm_stats m) = mm_command_count m"
    "st_intended_valid (mm_stats m) + st_intended_invalid (mm_stats m) = mm_command_count m"
    "st_new_orders (mm_stats m) + st_cancels (mm_stats m) + st_replaces (mm_stats m) = mm_command_count m"
    "sum_list (map snd (st_intents (mm_stats m))) = mm_command_count m"
    "sorted (map fst (st_intents (mm_stats m)))" "distinct (map fst (st_intents (mm_stats m)))"
    "\<forall>x \<in> set (st_intents (mm_stats m)). fst x \<noteq> [] \<and> 1 \<le> snd x"
proof -
  let ?names = "map fst (st_intents (mm_stats m))"
  have names: "?names = sort ?names" and l: "list_all (\<lambda>(name, n). name \<noteq> [] \<and> 1 \<le> n) (st_intents (mm_stats m))"
    and "distinct ?names" "0 \<le> mm_seed m" "mm_seed m \<le> U64_MAX" "0 \<le> mm_command_count m" "mm_command_count m \<le> U64_MAX"
    "st_command_count (mm_stats m) = mm_command_count m"
    "st_intended_valid (mm_stats m) + st_intended_invalid (mm_stats m) = mm_command_count m"
    "st_new_orders (mm_stats m) + st_cancels (mm_stats m) + st_replaces (mm_stats m) = mm_command_count m"
    "sum_list (map snd (st_intents (mm_stats m))) = mm_command_count m"
    using assms unfolding check_multi_manifest_def Let_def check_all_passes require_seed_def
    by (auto simp only: list.set insert_iff empty_iff ball_simps guardR_Inr_iff)
  then show "0 \<le> mm_seed m" "mm_seed m \<le> U64_MAX" "0 \<le> mm_command_count m" "mm_command_count m \<le> U64_MAX"
    "st_command_count (mm_stats m) = mm_command_count m"
    "st_intended_valid (mm_stats m) + st_intended_invalid (mm_stats m) = mm_command_count m"
    "st_new_orders (mm_stats m) + st_cancels (mm_stats m) + st_replaces (mm_stats m) = mm_command_count m"
    "sum_list (map snd (st_intents (mm_stats m))) = mm_command_count m" "distinct ?names" by blast+
  from l show "\<forall>x \<in> set (st_intents (mm_stats m)). fst x \<noteq> [] \<and> 1 \<le> snd x" by (auto simp: list_all_iff)
  show "sorted ?names" by (subst names) simp
qed

lemma intent_in_total:
  fixes xs :: "(string \<times> int) list"
  shows "\<forall>x \<in> set xs. 1 \<le> snd x \<Longrightarrow> x \<in> set xs \<Longrightarrow> snd x \<le> sum_list (map snd xs)"
  by (rule member_le_sum_list [of "snd x" "map snd xs"]) auto

lemma multi_manifest_dict_roundtrip:
  assumes "check_multi_manifest m = Inr ()"
    and "MultiWorkloadSpec (mw_streams (mm_spec m)) (mw_engine (mm_spec m)) = Inr (mm_spec m)"
    and "\<forall>sp \<in> set (mw_streams (mm_spec m)). dict_spec_ok sp"
    and "0 \<le> max_total_active_orders (mw_engine (mm_spec m))" and "max_total_active_orders (mw_engine (mm_spec m)) \<le> U64_MAX"
    and "0 \<le> st_intended_valid (mm_stats m)" "0 \<le> st_intended_invalid (mm_stats m)" "0 \<le> st_new_orders (mm_stats m)"
    and "0 \<le> st_cancels (mm_stats m)" "0 \<le> st_replaces (mm_stats m)"
  shows "multi_manifest_from_dict (multi_manifest_to_dict m) = Inr m"
proof -
  let ?st = "mm_stats m" and ?raw = "map (\<lambda>(name, n). (name, jnum n)) (st_intents (mm_stats m))"
  note c = checked_multi_manifest [OF assms(1)]
  have "sorted (st_intents ?st)" by (rule pairs_sorted [OF c(9,10)])
  moreover have "mapR (\<lambda>(name, v). bindR (bounded_decimal v U64_MAX) (\<lambda>n. Inr (name, n))) ?raw = Inr (st_intents ?st)"
  proof (rule mapR_inverse, rule ballI)
    fix x assume x: "x \<in> set (st_intents ?st)"
    then have "1 \<le> snd x" "snd x \<le> U64_MAX" using intent_in_total [of "st_intents ?st" x] c(4,8,11) by auto
    then show "(case (case x of (name, n) \<Rightarrow> (name, jnum n)) of (name, v) \<Rightarrow> bindR (bounded_decimal v U64_MAX) (\<lambda>n. Inr (name, n))) = Inr x"
      by (cases x) simp
  qed
  ultimately have i: "bounded_intents ?raw = Inr (st_intents ?st)" by (simp add: bounded_intents_def sorted_sort_id)
  have names: "list_all (\<lambda>(name, v). name \<noteq> []) ?raw" using c(11) by (auto simp: list_all_iff)
  obtain raw where raw: "multi_spec_to_dict (mm_spec m) = JObj raw" by (simp add: multi_spec_to_dict_def)
  have spec: "multi_spec_from_dict raw = Inr (mm_spec m)" using multi_spec_dict_roundtrip [OF assms(2-5)] by (simp add: raw)
  have bounds: "st_intended_valid ?st \<le> U64_MAX" "st_intended_invalid ?st \<le> U64_MAX" "st_new_orders ?st \<le> U64_MAX"
    "st_cancels ?st \<le> U64_MAX" "st_replaces ?st \<le> U64_MAX" using c(4,6,7) assms(6-10) by linarith+
  have "\<lparr>st_command_count = mm_command_count m, st_intended_valid = st_intended_valid ?st, st_intended_invalid = st_intended_invalid ?st,
      st_new_orders = st_new_orders ?st, st_cancels = st_cancels ?st, st_replaces = st_replaces ?st, st_intents = st_intents ?st\<rparr> = ?st"
    using c(5) by simp
  then have "multi_manifest_from_dict (multi_manifest_to_dict m) = MultiWorkloadManifest
      \<lparr>mm_generator_version = mm_generator_version m, mm_seed = mm_seed m, mm_spec = mm_spec m,
       mm_command_count = mm_command_count m, mm_command_stream_sha256 = mm_command_stream_sha256 m, mm_stats = ?st\<rparr>"
    using assms(6-10) c(1-4) i names spec bounds
    by (simp add: multi_manifest_from_dict_def multi_manifest_to_dict_def raw Let_def insert_commute)
  also have "\<lparr>mm_generator_version = mm_generator_version m, mm_seed = mm_seed m, mm_spec = mm_spec m,
       mm_command_count = mm_command_count m, mm_command_stream_sha256 = mm_command_stream_sha256 m, mm_stats = ?st\<rparr> = m" by simp
  finally show ?thesis using assms(1) by (simp add: MultiWorkloadManifest_def)
qed

end
