(* ===== verification/Multi_Differential.thy ===== *)
theory Multi_Differential
  imports Multi_Workload_Files Router Canonical
begin

text \<open>
  \<open>python/src/atlaslob/multi_differential.py\<close>: the capture of a reference router over a command sequence, its
  dictionary form, and the metamorphic check that commands of independent instruments may be interleaved in any
  order.  \<open>sha256\<close> is a parameter.
\<close>

section \<open>Captures\<close>

definition MULTI_DIFFERENTIAL_CAPTURE_SCHEMA :: string where
  "MULTI_DIFFERENTIAL_CAPTURE_SCHEMA = ''atlas_differential_capture_v2''"

record multi_capture_record =
  mc_command_index :: int
  mc_command :: command
  mc_result :: reference_result
  mc_post_state_digest :: string
  mc_post_snapshot :: engine_snapshot

record multi_capture =
  ca_catalog :: "instrument_config list"
  ca_engine_config :: multi_instrument_engine_config
  ca_records :: "multi_capture_record list"
  ca_final_snapshot :: engine_snapshot
  ca_final_state_digest :: string

fun router_capture_commands :: "(bytes \<Rightarrow> string) \<Rightarrow> int \<Rightarrow> command list \<Rightarrow> (router, multi_capture_record list) prog" where
  "router_capture_commands sha256 index [] = ret []"
| "router_capture_commands sha256 index (cmd # cmds) =
     bindP (router_execute cmd) (\<lambda>res.
     bindP router_snapshot (\<lambda>post.
     bindP (liftP (engine_state_digest sha256 post)) (\<lambda>digest.
     let entry = \<lparr>mc_command_index = index, mc_command = cmd, mc_result = res, mc_post_state_digest = digest, mc_post_snapshot = post\<rparr> in
     if result_error res \<noteq> None then ret [entry]
     else bindP (router_capture_commands sha256 (index + 1) cmds) (\<lambda>entries. ret (entry # entries)))))"

definition capture_reference_router ::
  "(bytes \<Rightarrow> string) \<Rightarrow> instrument_config list \<Rightarrow> command list \<Rightarrow> multi_instrument_engine_config option \<Rightarrow> multi_capture result" where
  "capture_reference_router sha256 catalog cmds engine_config =
     (let config = (case engine_config of Some c \<Rightarrow> c | None \<Rightarrow> default_router_config) in
      bindR (ReferenceRouter catalog (Some config) 1 True) (\<lambda>router.
      fst (
        bindP (router_capture_commands sha256 0 cmds) (\<lambda>entries.
        bindP router_snapshot (\<lambda>final.
        bindP router_catalog (\<lambda>ordered.
        bindP (liftP (engine_state_digest sha256 final)) (\<lambda>digest.
        ret \<lparr>ca_catalog = ordered, ca_engine_config = config, ca_records = entries, ca_final_snapshot = final,
             ca_final_state_digest = digest\<rparr>)))) router)))"

section \<open>Events as dictionaries\<close>

fun engine_error_value :: "engine_error \<Rightarrow> int" where
  "engine_error_value SEQUENCE_EXHAUSTED = 1"
| "engine_error_value INTERNAL_FAILURE = 2"

definition header_to_dict :: "event \<Rightarrow> (string \<times> json) list" where
  "header_to_dict e =
     (let h = event_header_of e in
      [(''command_sequence'', jnum (command_sequence h)), (''event_index'', JInt (event_index h)),
       (''instrument_id'', jnum (hdr_instrument_id h))])"

definition top_to_dict :: "top_of_book_level option \<Rightarrow> json" where
  "top_to_dict v =
     jopt (\<lambda>l. JObj [(''price'', jnum (top_price l)), (''aggregate_quantity'', jnum (top_aggregate_quantity l))]) v"

fun event_payload :: "event \<Rightarrow> (string \<times> json) list" where
  "event_payload (AcceptedEvent h ct) = [(''command_type'', JInt (command_type_value ct))]"
| "event_payload (RejectedEvent h ct reason oid) =
     [(''command_type'', JInt (command_type_value ct)), (''reason'', JInt (reject_reason_value reason)), (''order_id'', jopt jnum oid)]"
| "event_payload (TradeEvent h b) =
     [(''aggressor_order_id'', jnum (aggressor_order_id b)), (''resting_order_id'', jnum (resting_order_id b)),
      (''aggressor_client_id'', jnum (aggressor_client_id b)), (''resting_client_id'', jnum (resting_client_id b)),
      (''aggressor_side'', JInt (side_value (aggressor_side b))), (''execution_price'', jnum (execution_price b)),
      (''execution_quantity'', jnum (execution_quantity b)), (''aggressor_remaining'', jnum (aggressor_remaining b)),
      (''resting_remaining'', jnum (resting_remaining b))]"
| "event_payload (RestedEvent h b) =
     [(''order_id'', jnum (rested_order_id b)), (''client_id'', jnum (rested_client_id b)),
      (''side'', JInt (side_value (rested_side b))), (''price'', jnum (rested_price b)),
      (''remaining_quantity'', jnum (rested_remaining_quantity b))]"
| "event_payload (CanceledEvent h oid quantity) = [(''order_id'', jnum oid), (''canceled_quantity'', jnum quantity)]"
| "event_payload (ReplacedEvent h old_id new_id) = [(''old_order_id'', jnum old_id), (''new_order_id'', jnum new_id)]"
| "event_payload (DoneEvent h oid reason remaining) =
     [(''order_id'', jnum oid), (''reason'', JInt (done_reason_value reason)), (''remaining_quantity'', jnum remaining)]"
| "event_payload (BookChangedEvent h bid ask) = [(''best_bid'', top_to_dict bid), (''best_ask'', top_to_dict ask)]"

definition multi_event_to_dict :: "event \<Rightarrow> (string \<times> json) list" where
  "multi_event_to_dict e =
     [(''type'', JInt (event_type_value (event_type_of e))), (''header'', JObj (header_to_dict e))] @ event_payload e"

definition result_to_dict :: "(bytes \<Rightarrow> string) \<Rightarrow> reference_result \<Rightarrow> json result" where
  "result_to_dict sha256 res =
     (case result_error res of
        Some e \<Rightarrow> Inr (JObj [(''classification'', JStr ''engine_error''), (''error'', JInt (engine_error_value e))])
      | None \<Rightarrow>
         (case result_batch res of
            None \<Rightarrow> Inl RuntimeError
          | Some b \<Rightarrow>
              bindR (event_digest sha256 b) (\<lambda>digest.
              Inr (JObj [(''classification'', JStr (if batch_committed b then ''committed'' else ''rejected'')),
                (''event_digest'', JStr digest), (''events'', JList (map (JObj \<circ> multi_event_to_dict) (batch_events b)))]))))"

definition level_to_dict :: "price_level_snapshot \<Rightarrow> json" where
  "level_to_dict l = JObj
     [(''price'', jnum (pls_price l)), (''aggregate_quantity'', jnum (pls_aggregate_quantity l)),
      (''orders'', JList (map (\<lambda>ord. JObj
         [(''order_id'', jnum (os_order_id ord)), (''client_id'', jnum (os_client_id ord)),
          (''instrument_id'', jnum (os_instrument_id ord)), (''side'', JInt (side_value (os_side ord))),
          (''price'', jnum (os_price ord)), (''remaining_quantity'', jnum (os_remaining_quantity ord)),
          (''priority_sequence'', jnum (os_priority_sequence ord))]) (pls_orders l)))]"

definition engine_snapshot_to_dict :: "engine_snapshot \<Rightarrow> json" where
  "engine_snapshot_to_dict snap = JObj
     [(''last_sequence'', jnum (es_last_sequence snap)), (''sequence_exhausted'', JBool (es_sequence_exhausted snap)),
      (''active_order_count'', jnum (es_active_order_count snap)),
      (''instruments'', JList (map (\<lambda>book. JObj
         [(''instrument_id'', jnum (is_instrument_id book)), (''active_order_count'', jnum (is_active_order_count book)),
          (''bids'', JList (map level_to_dict (is_bids book))), (''asks'', JList (map level_to_dict (is_asks book)))])
       (es_instruments snap)))]"

definition multi_capture_to_dict :: "(bytes \<Rightarrow> string) \<Rightarrow> multi_capture \<Rightarrow> (string \<times> json) list result" where
  "multi_capture_to_dict sha256 capture =
     bindR (mapR (\<lambda>entry.
       bindR (result_to_dict sha256 (mc_result entry)) (\<lambda>res.
       Inr (JObj [(''command_index'', jnum (mc_command_index entry)), (''command'', JObj (command_to_dict (mc_command entry))),
         (''result'', res), (''post_state_digest'', JStr (mc_post_state_digest entry))]))) (ca_records capture)) (\<lambda>entries.
     Inr [(''schema'', JStr MULTI_DIFFERENTIAL_CAPTURE_SCHEMA),
       (''semantics_version'', JInt (es_semantics_version (ca_final_snapshot capture))),
       (''engine'', JObj [(''max_total_active_orders'', jnum (max_total_active_orders (ca_engine_config capture))),
          (''catalog'', catalog_to_json (ca_catalog capture))]),
       (''records'', JList entries),
       (''final'', JObj [(''state_digest'', JStr (ca_final_state_digest capture)),
          (''state'', engine_snapshot_to_dict (ca_final_snapshot capture))])])"

section \<open>Normalized evidence\<close>

type_synonym normalized_level = "int \<times> int \<times> (int \<times> int \<times> int \<times> int \<times> int) list"

definition normalized_level :: "price_level_snapshot \<Rightarrow> normalized_level" where
  "normalized_level l =
     (pls_price l, pls_aggregate_quantity l,
      map (\<lambda>ord. (os_order_id ord, os_client_id ord, side_value (os_side ord), os_price ord, os_remaining_quantity ord)) (pls_orders l))"

definition normalized_economic_state :: "engine_snapshot \<Rightarrow> (int \<times> normalized_level list \<times> normalized_level list) list" where
  "normalized_economic_state snap =
     map (\<lambda>book. (is_instrument_id book, map normalized_level (is_bids book), map normalized_level (is_asks book))) (es_instruments snap)"

type_synonym normalized_event = "(string \<times> json) list \<times> (string \<times> json) list"

text \<open>The header without its sequence number, the payload with its type; both sorted by key.\<close>

definition normalized_event :: "event \<Rightarrow> normalized_event" where
  "normalized_event e =
     (sort_key fst (filter (\<lambda>(k, v). k \<noteq> ''command_sequence'') (header_to_dict e)),
      sort_key fst (filter (\<lambda>(k, v). k \<noteq> ''header'') (multi_event_to_dict e)))"

datatype local_record =
    EngineErrorRecord int int
  | BatchRecord int string "normalized_event list"

definition local_record :: "int \<Rightarrow> reference_result \<Rightarrow> local_record" where
  "local_record ordinal res =
     (case result_batch res of
        None \<Rightarrow> EngineErrorRecord ordinal (case result_error res of Some e \<Rightarrow> engine_error_value e | None \<Rightarrow> 0)
      | Some b \<Rightarrow> BatchRecord ordinal (if batch_committed b then ''committed'' else ''rejected'')
          (map normalized_event (batch_events b)))"

fun group_records :: "multi_capture_record list \<Rightarrow> (int, local_record list) dict \<Rightarrow> (int, local_record list) dict" where
  "group_records [] grouped = grouped"
| "group_records (entry # entries) grouped =
     (let iid = command_instrument_id (mc_command entry); locals = dict_get_default grouped iid [] in
      group_records entries (dict_setitem iid (locals @ [local_record (int (length locals)) (mc_result entry)]) grouped))"

definition normalized_instrument_evidence :: "multi_capture \<Rightarrow> (int \<times> local_record list) list" where
  "normalized_instrument_evidence capture = sort_key fst (group_records (ca_records capture) [])"

section \<open>Reinterleaving\<close>

text \<open>\<open>identity_instrument.setdefault\<close> over the identifiers of a command, then over the commands.\<close>

fun claim_ids :: "int \<Rightarrow> int list \<Rightarrow> (int, int) dict \<Rightarrow> (int, int) dict result" where
  "claim_ids iid [] owners = Inr owners"
| "claim_ids iid (oid # oids) owners =
     (if oid = 0 then claim_ids iid oids owners
      else case map_of owners oid of
        None \<Rightarrow> claim_ids iid oids (dict_setitem oid iid owners)
      | Some previous \<Rightarrow> if previous \<noteq> iid then Inl ValueError else claim_ids iid oids owners)"

fun claimed_ids :: "command \<Rightarrow> int list" where
  "claimed_ids (NewOrder c) = [new_order_id c]"
| "claimed_ids (CancelOrder c) = [cancel_order_id c]"
| "claimed_ids (ReplaceOrder c) = [rep_old_order_id c, rep_new_order_id c]"

fun claim_commands :: "command list \<Rightarrow> (int, int) dict \<Rightarrow> (int, int) dict result" where
  "claim_commands [] owners = Inr owners"
| "claim_commands (cmd # cmds) owners =
     bindR (claim_ids (command_instrument_id cmd) (claimed_ids cmd) owners) (\<lambda>owners'. claim_commands cmds owners')"

definition require_independent_reinterleaving ::
  "instrument_config list \<Rightarrow> command list \<Rightarrow> multi_instrument_engine_config option \<Rightarrow> unit result" where
  "require_independent_reinterleaving catalog cmds engine_config =
     (let ids = set (map ic_instrument_id catalog);
          config = (case engine_config of Some c \<Rightarrow> c | None \<Rightarrow> default_router_config) in
      bindR (guardR (ids \<noteq> {} \<and> card ids = length catalog) ValueError) (\<lambda>_.
      bindR (guardR (set (map command_instrument_id cmds) \<subseteq> ids) ValueError) (\<lambda>_.
      bindR (guardR (\<not> max_total_active_orders config < sum_list (map (max_active_orders \<circ> ic_matching) catalog)) ValueError) (\<lambda>_.
      bindR (claim_commands cmds []) (\<lambda>_. Inr ())))))"

fun group_commands :: "command list \<Rightarrow> (int, command list) dict \<Rightarrow> (int, command list) dict" where
  "group_commands [] groups = groups"
| "group_commands (cmd # cmds) groups =
     (let iid = command_instrument_id cmd in
      group_commands cmds (dict_setitem iid (dict_get_default groups iid [] @ [cmd]) groups))"

definition open_groups :: "(int, command list) dict \<Rightarrow> (int, nat) dict \<Rightarrow> int list" where
  "open_groups groups positions =
     sort (map fst (filter (\<lambda>(iid, group). dict_get_default positions iid 0 < length group) groups))"

text \<open>\<open>while len(output) < len(commands)\<close>.\<close>

function reinterleave_loop ::
  "(int, command list) dict \<Rightarrow> nat \<Rightarrow> (int, nat) dict \<Rightarrow> command list \<Rightarrow> 64 word \<Rightarrow> command list result" where
  "reinterleave_loop groups total_count positions output rng =
     (if \<not> length output < total_count then Inr output
      else
        let available = open_groups groups positions in
        case randbelow (int (length available)) rng of
          (Inl e, _) \<Rightarrow> Inl e
        | (Inr r, rng') \<Rightarrow>
            let chosen = available ! nat r; position = dict_get_default positions chosen 0 in
            reinterleave_loop groups total_count (dict_setitem chosen (position + 1) positions)
              (output @ [dict_get_default groups chosen [] ! position]) rng')"
  by pat_completeness auto

termination
  by (relation "measure (\<lambda>(groups, total_count, positions, output, rng). total_count - length output)") auto

declare reinterleave_loop.simps [simp del]

definition reinterleave_independent ::
  "instrument_config list \<Rightarrow> command list \<Rightarrow> int \<Rightarrow> multi_instrument_engine_config option \<Rightarrow> command list result" where
  "reinterleave_independent catalog cmds seed engine_config =
     bindR (require_independent_reinterleaving catalog cmds engine_config) (\<lambda>_.
     let groups = group_commands cmds [] in
     bindR (SplitMix64 seed) (\<lambda>rng.
     reinterleave_loop groups (length cmds) (map (\<lambda>(iid, group). (iid, 0)) groups) [] rng))"

definition reinterleaving_is_equivalent ::
  "(bytes \<Rightarrow> string) \<Rightarrow> instrument_config list \<Rightarrow> command list \<Rightarrow> int \<Rightarrow> multi_instrument_engine_config option \<Rightarrow> bool result" where
  "reinterleaving_is_equivalent sha256 catalog cmds seed engine_config =
     bindR (capture_reference_router sha256 catalog cmds engine_config) (\<lambda>first.
     bindR (reinterleave_independent catalog cmds seed engine_config) (\<lambda>reordered.
     bindR (capture_reference_router sha256 catalog reordered engine_config) (\<lambda>second.
     Inr (normalized_economic_state (ca_final_snapshot first) = normalized_economic_state (ca_final_snapshot second) \<and>
          normalized_instrument_evidence first = normalized_instrument_evidence second))))"

end
