(* ===== verification/Reinterleaving.thy ===== *)
theory Reinterleaving
  imports Multi_Differential Multi_Intents Canonical_Properties
begin

text \<open>
  Why commands of independent instruments may be interleaved in any order.  The price-time specification uses
  sequence numbers only as stamps, so a book without its stamps, and the events of a command without theirs,
  depend only on the commands of that book's instrument, in their order.
\<close>

section \<open>Books and events without stamps\<close>

definition unstamp_order :: "order \<Rightarrow> order" where
  "unstamp_order ord = ord\<lparr>ord_priority_sequence := 0\<rparr>"

definition unstamp :: "view \<Rightarrow> view" where
  "unstamp v = (\<lambda>sd. map unstamp_order (v sd))"

definition unstamp_header :: "event_header \<Rightarrow> event_header" where
  "unstamp_header h = h\<lparr>command_sequence := 0\<rparr>"

fun unstamp_event :: "event \<Rightarrow> event" where
  "unstamp_event (AcceptedEvent h ct) = AcceptedEvent (unstamp_header h) ct"
| "unstamp_event (RejectedEvent h ct reason oid) = RejectedEvent (unstamp_header h) ct reason oid"
| "unstamp_event (TradeEvent h b) = TradeEvent (unstamp_header h) b"
| "unstamp_event (RestedEvent h b) = RestedEvent (unstamp_header h) b"
| "unstamp_event (CanceledEvent h oid n) = CanceledEvent (unstamp_header h) oid n"
| "unstamp_event (ReplacedEvent h i j) = ReplacedEvent (unstamp_header h) i j"
| "unstamp_event (DoneEvent h oid reason n) = DoneEvent (unstamp_header h) oid reason n"
| "unstamp_event (BookChangedEvent h bid ask) = BookChangedEvent (unstamp_header h) bid ask"

lemma unstamp_fields [simp]:
  "ord_order_id (unstamp_order ord) = ord_order_id ord" "ord_client_id (unstamp_order ord) = ord_client_id ord"
  "ord_instrument_id (unstamp_order ord) = ord_instrument_id ord" "ord_side (unstamp_order ord) = ord_side ord"
  "ord_price (unstamp_order ord) = ord_price ord" "ord_remaining_quantity (unstamp_order ord) = ord_remaining_quantity ord"
  "reduced x (unstamp_order ord) = unstamp_order (reduced x ord)"
  "replacement_order cmd (unstamp_order ord) = replacement_order cmd ord"
  by (simp_all add: unstamp_order_def reduced_def replacement_order_def)

lemma rested_order_unstamp: "rested_order ord sd p n 0 = unstamp_order (rested_order ord sd p n sq)"
  by (simp add: unstamp_order_def rested_order_def)

lemma unstamp_app [simp]: "unstamp v sd = map unstamp_order (v sd)"
  by (simp add: unstamp_def)

lemma unstamp_upd: "unstamp (v(sd := os)) = (unstamp v)(sd := map unstamp_order os)"
  by (auto simp: unstamp_def)

lemma unstamp_header_simps [simp]:
  "unstamp_header \<lparr>command_sequence = sq, event_index = k, hdr_instrument_id = iid\<rparr> =
     \<lparr>command_sequence = 0, event_index = k, hdr_instrument_id = iid\<rparr>"
  "event_index (unstamp_header h) = event_index h" "hdr_instrument_id (unstamp_header h) = hdr_instrument_id h"
  by (simp_all add: unstamp_header_def)

lemma event_header_of_unstamp [simp]: "event_header_of (unstamp_event e) = unstamp_header (event_header_of e)"
  by (cases e) simp_all

section \<open>The specification commutes with removing stamps\<close>

lemma spec_match_unstamp:
  "spec_match crossing n (map unstamp_order os) =
     (case spec_match crossing n os of (fills, n', os') \<Rightarrow> (map (apfst unstamp_order) fills, n', map unstamp_order os'))"
  by (induction os arbitrary: n) (auto split: prod.splits)

lemma spec_insert_unstamp:
  "spec_insert sd (unstamp_order ord) (map unstamp_order os) = map unstamp_order (spec_insert sd ord os)"
  by (simp add: spec_insert_def Let_def takeWhile_map dropWhile_map comp_def)

lemma spec_add_unstamp:
  "spec_add sd ord 0 (unstamp v) =
     (case spec_add sd ord sq v of (fills, n, v') \<Rightarrow> (map (apfst unstamp_order) fills, n, unstamp v'))"
  by (auto simp: spec_add_def Let_def spec_match_unstamp unstamp_upd spec_insert_unstamp rested_order_unstamp [of _ _ _ _ sq]
      split: prod.splits option.splits)

lemma level_quantity_unstamp [simp]: "level_quantity (map unstamp_order os) p = level_quantity os p"
  by (induction os) auto

lemma fits_unstamp [simp]: "fits c sd limit (unstamp v) = fits c sd limit v"
  by (simp add: fits_def split: option.splits)

lemma spec_fits_unstamp: "spec_fits c sd ord 0 (unstamp v) = spec_fits c sd ord sq v"
  by (auto simp: spec_fits_def spec_add_unstamp [of _ _ _ sq] split: prod.splits)

lemma spec_remove_unstamp: "spec_remove_order i (unstamp v) = unstamp (spec_remove_order i v)"
  by (auto simp: spec_remove_order_def spec_remove_def unstamp_def filter_map comp_def)

lemma find_order_unstamp: "find_order i (unstamp v) = map_option unstamp_order (find_order i v)"
proof -
  have "List.find (\<lambda>ord. ord_order_id ord = i) (map unstamp_order os) =
      map_option unstamp_order (List.find (\<lambda>ord. ord_order_id ord = i) os)" for os
    by (induction os) auto
  from this [of "v BUY @ v SELL"] show ?thesis by (simp add: find_order_def)
qed

lemma view_top_unstamp [simp]: "view_top (unstamp v) = view_top v"
proof -
  have "side_top (map unstamp_order os) = side_top os" for os
    using level_quantity_unstamp [of os] by (cases os) (auto simp: side_top_def)
  then show ?thesis by (simp add: view_top_def)
qed

lemma trade_events_unstamp:
  "trade_events ord sd 0 k n (map (apfst unstamp_order) fills) = map unstamp_event (trade_events ord sd sq k n fills)"
  by (induction fills arbitrary: k n) (auto split: prod.splits)

lemma terminal_event_unstamp: "terminal_event ord sd 0 k n = unstamp_event (terminal_event ord sd sq k n)"
  by (auto simp: terminal_event_def Let_def split: option.splits bool.splits)

lemma with_top_change_unstamp:
  "with_top_change iid 0 (unstamp v) (unstamp v') (map unstamp_event es) = map unstamp_event (with_top_change iid sq v v' es)"
  by (simp add: with_top_change_def)

lemma spec_aggress_unstamp:
  "spec_aggress iid sd ord 0 (unstamp v0) (unstamp v) (map unstamp_event es) =
     (case spec_aggress iid sd ord sq v0 v es of (es', v') \<Rightarrow> (map unstamp_event es', unstamp v'))"
proof -
  obtain fills n v' where add: "spec_add sd ord sq v = (fills, n, v')" by (metis prod_cases3)
  let ?es = "es @ trade_events ord sd sq (length es) (new_quantity ord) fills"
  have "map unstamp_event es @ trade_events ord sd 0 (length es) (new_quantity ord) (map (apfst unstamp_order) fills) = map unstamp_event ?es"
    by (simp add: trade_events_unstamp [of _ _ _ _ _ sq])
  then show ?thesis
    using with_top_change_unstamp [of iid v0 v' "?es @ [terminal_event ord sd sq (length ?es) n]" sq]
    by (simp add: spec_aggress_def spec_add_unstamp [of _ _ _ sq] add Let_def terminal_event_unstamp [of ord sd _ n sq])
qed

lemma spec_reject_unstamp: "spec_reject iid 0 ct rj = map unstamp_event (spec_reject iid sq ct rj)"
  by (simp add: spec_reject_def)

lemma spec_step_unstamp:
  "spec_step c iid cmd 0 (unstamp v) = (case spec_step c iid cmd sq v of (es, v') \<Rightarrow> (map unstamp_event es, unstamp v'))"
proof (cases cmd)
  case (NewOrder ord)
  let ?es = "[AcceptedEvent \<lparr>command_sequence = sq, event_index = 0, hdr_instrument_id = iid\<rparr> NEW]"
  show ?thesis
    using spec_aggress_unstamp [of iid "side_of (new_side ord)" ord v v ?es sq]
    by (simp add: NewOrder spec_new_def Let_def find_order_unstamp spec_fits_unstamp [of c _ ord v sq] spec_reject_unstamp [of _ _ _ sq]
        split: option.splits)
next
  case (CancelOrder ord)
  have "map unstamp_event (cancel_events ord sq n) = cancel_events ord 0 n" for n by (simp add: cancel_events_def Let_def header_def)
  then show ?thesis
    using with_top_change_unstamp [of iid v "spec_remove_order (cancel_order_id ord) v" "cancel_events ord sq _" sq]
    by (cases "find_order (cancel_order_id ord) v")
      (simp_all add: CancelOrder spec_cancel_def Let_def find_order_unstamp spec_remove_unstamp spec_reject_unstamp [of _ _ _ sq]
        split: option.splits)
next
  case (ReplaceOrder ord)
  have es: "map unstamp_event (replace_events ord sq n) = replace_events ord 0 n" for n by (simp add: replace_events_def Let_def header_def)
  show ?thesis
  proof (cases "find_order (rep_old_order_id ord) v")
    case None
    then show ?thesis
      by (simp add: ReplaceOrder spec_replace_def Let_def find_order_unstamp spec_reject_unstamp [of _ _ _ sq] split: option.splits)
  next
    case (Some old)
    let ?v1 = "spec_remove_order (rep_old_order_id ord) v"
    show ?thesis
      using spec_aggress_unstamp [of iid "ord_side old" "replacement_order ord old" v ?v1 "replace_events ord sq (ord_remaining_quantity old)" sq]
        spec_fits_unstamp [of c "ord_side old" "replacement_order ord old" ?v1 sq] Some
      by (simp add: ReplaceOrder spec_replace_def Let_def find_order_unstamp spec_remove_unstamp es spec_reject_unstamp [of _ _ _ sq]
          split: option.splits)
  qed
qed

section \<open>Runs of keyed machines\<close>

text \<open>
  A family of machines, one per key, driven by one command sequence: every command goes to the machine of its
  key.  What a machine ends in, and what it answers, is its local run over the commands of its key.
\<close>

fun local_run :: "('c \<Rightarrow> 's \<Rightarrow> 'o \<times> 's) \<Rightarrow> 'c list \<Rightarrow> 's \<Rightarrow> 'o list \<times> 's" where
  "local_run step [] s = ([], s)"
| "local_run step (c # cs) s = (let (x, s1) = step c s; (xs, s2) = local_run step cs s1 in (x # xs, s2))"

fun keyed_run :: "('c \<Rightarrow> 'k) \<Rightarrow> ('k \<Rightarrow> 'c \<Rightarrow> 's \<Rightarrow> 'o \<times> 's) \<Rightarrow> 'c list \<Rightarrow> ('k \<Rightarrow> 's) \<Rightarrow> 'o list \<times> ('k \<Rightarrow> 's)" where
  "keyed_run key step [] loc = ([], loc)"
| "keyed_run key step (c # cs) loc =
     (let (x, s) = step (key c) c (loc (key c)); (xs, loc') = keyed_run key step cs (loc(key c := s)) in (x # xs, loc'))"

lemma length_keyed_run [simp]: "length (fst (keyed_run key step cs loc)) = length cs"
  by (induction cs arbitrary: loc) (auto split: prod.splits simp: Let_def, metis fst_conv)

lemma keyed_run_local:
  "snd (keyed_run key step cs loc) k = snd (local_run (step k) (filter (\<lambda>c. key c = k) cs) (loc k)) \<and>
   map snd (filter (\<lambda>(c, x). key c = k) (zip cs (fst (keyed_run key step cs loc)))) =
     fst (local_run (step k) (filter (\<lambda>c. key c = k) cs) (loc k))"
proof (induction cs arbitrary: loc)
  case (Cons c cs)
  obtain x s where x: "step (key c) c (loc (key c)) = (x, s)" by fastforce
  obtain xs loc' where r: "keyed_run key step cs (loc(key c := s)) = (xs, loc')" by fastforce
  obtain ys t where y: "local_run (step k) (filter (\<lambda>c. key c = k) cs) ((loc(key c := s)) k) = (ys, t)" by fastforce
  from Cons.IH [of "loc(key c := s)", unfolded r y] x r y show ?case by (cases "key c = k") simp_all
qed simp

lemmas keyed_run_state = keyed_run_local [THEN conjunct1]
lemmas keyed_run_answers = keyed_run_local [THEN conjunct2]

section \<open>A router beside its local books\<close>

definition venue_room :: "venue \<Rightarrow> int" where
  "venue_room vs = sum_list (map (\<lambda>(iid, c, v). max_active_orders c) vs)"

definition tracks_books :: "(int \<Rightarrow> int) \<Rightarrow> (int \<Rightarrow> matching_config) \<Rightarrow> (int \<Rightarrow> view) \<Rightarrow> router \<Rightarrow> bool" where
  "tracks_books own cfg loc r \<longleftrightarrow> router_inv r \<and> \<not> rtr_sequence_exhausted r \<and>
     venue_room (venue_of r) \<le> max_total_active_orders (rtr_config r) \<and>
     (\<forall>(iid, c, v) \<in> set (venue_of r). c = cfg iid \<and> unstamp v = loc iid \<and> (\<forall>i \<in> view_ids v. own i = iid))"

lemma view_ids_unstamp [simp]: "view_ids (unstamp v) = view_ids v"
  by (simp add: view_ids_def view_orders_def image_Un image_image)

lemma room_of_others:
  assumes "(iid, c, v) \<in> set vs" and "\<forall>(j, d, w) \<in> set vs. int (length (view_orders w)) \<le> max_active_orders d"
  shows "others_of vs v + max_active_orders c \<le> venue_room vs"
proof -
  have sum: "int (length (venue_orders ws)) \<le> venue_room ws" if "\<forall>(j, d, w) \<in> set ws. int (length (view_orders w)) \<le> max_active_orders d" for ws
    using that by (induction ws) (auto simp: venue_orders_def venue_room_def)
  have "int (length (venue_orders ws)) - int (length (view_orders v)) + max_active_orders c \<le> venue_room ws"
    if "(iid, c, v) \<in> set ws" "\<forall>(j, d, w) \<in> set ws. int (length (view_orders w)) \<le> max_active_orders d" for ws
    using that
  proof (induction ws)
    case (Cons b ws)
    show ?case
    proof (cases "b = (iid, c, v)")
      case True
      with sum [of ws] Cons.prems(2) show ?thesis by (auto simp: venue_orders_def venue_room_def)
    next
      case False
      with Cons show ?thesis by (cases b) (auto simp: venue_orders_def venue_room_def)
    qed
  qed simp
  from this [OF assms] show ?thesis by (simp add: others_of_def)
qed

lemma find_append: "List.find P (xs @ ys) = (case List.find P xs of None \<Rightarrow> List.find P ys | Some x \<Rightarrow> Some x)"
  by (induction xs) auto

lemma find_own_order:
  assumes "(iid, c, v) \<in> set vs" and "distinct (map fst vs)" and "\<forall>(j, d, w) \<in> set vs. j \<noteq> iid \<longrightarrow> i \<notin> view_ids w"
  shows "find_venue_order i vs = find_order i v"
  using assms
proof (induction vs)
  case (Cons b vs)
  obtain j d w where b: "b = (j, d, w)" by (cases b)
  have own: "find_order i w = List.find (\<lambda>ord. ord_order_id ord = i) (view_orders w)" for w
    by (simp add: find_order_def view_orders_def)
  have none: "List.find (\<lambda>ord. ord_order_id ord = i) (view_orders w) = None" if "i \<notin> view_ids w" for w
    using that by (auto simp: find_None_iff view_ids_def)
  show ?case
  proof (cases "j = iid")
    case True
    then have v: "w = v" using Cons.prems(1,2) b by force
    have "List.find (\<lambda>ord. ord_order_id ord = i) (venue_orders vs) = None"
      using Cons.prems(2,3) b True by (fastforce simp: find_None_iff venue_orders_def view_ids_def)
    with v b show ?thesis by (simp add: find_venue_order_def venue_orders_def find_append own split: option.splits)
  next
    case False
    then have "find_venue_order i vs = find_order i v" using Cons b by auto
    with False b Cons.prems(3) none [of w] show ?thesis
      by (simp add: find_venue_order_def venue_orders_def find_append own)
  qed
qed simp

lemma venue_room_update:
  "map_of vs iid = Some (c, v) \<Longrightarrow> venue_room (AList.update iid (c, v') vs) = venue_room vs"
  by (induction vs) (auto simp: venue_room_def)

lemma set_update_dict: "distinct (map fst vs) \<Longrightarrow> (j, y) \<in> set (AList.update k x vs) \<Longrightarrow> j = k \<and> y = x \<or> j \<noteq> k \<and> (j, y) \<in> set vs"
  by (induction vs) (auto split: if_splits simp: rev_image_eqI)

definition book_step :: "(int \<Rightarrow> matching_config) \<Rightarrow> int \<Rightarrow> command \<Rightarrow> view \<Rightarrow> event list \<times> view" where
  "book_step cfg iid cmd v = spec_step (cfg iid) iid cmd 0 v"

lemma tracksD:
  assumes "tracks_books own cfg loc r"
  shows "router_inv r" and "\<not> rtr_sequence_exhausted r" and "venue_room (venue_of r) \<le> max_total_active_orders (rtr_config r)"
    and "\<And>iid c v. (iid, c, v) \<in> set (venue_of r) \<Longrightarrow> c = cfg iid \<and> unstamp v = loc iid \<and> (\<forall>i \<in> view_ids v. own i = iid)"
  using assms unfolding tracks_books_def by blast+

lemma tracks_quiet:
  assumes "tracks_books own cfg loc r" and "quiet r r'"
  shows "tracks_books own cfg loc r'"
  using assms quiet_inv [OF assms(2)] quiet_venue [OF assms(2)] quiet_fields [OF assms(2)] by (simp add: tracks_books_def)

lemma venue_keys:
  assumes "router_inv r"
  shows "distinct (map fst (venue_of r))"
  using books_invD(2) [OF router_invD(3) [OF assms]] by (simp add: venue_of_def comp_def case_prod_beta)

text \<open>One command of an instrument: the router answers what the local book answers, but for the stamps.\<close>

lemma tracked_step:
  assumes tr: "tracks_books own cfg loc r" and rep: "require_representable cmd = Inr ()"
    and iid: "command_instrument_id cmd = iid" "iid \<in> set (map fst (venue_of r))"
    and ids: "\<forall>i \<in> ids_of cmd. i \<noteq> 0 \<longrightarrow> own i = iid" and room: "rtr_next_sequence r < U64_MAX"
    and step: "book_step cfg iid cmd (loc iid) = (es0, v0)"
  obtains es r' where "router_execute cmd r = (Inr (accepted_result es), r')" "map unstamp_event es = es0"
    "tracks_books own cfg (loc(iid := v0)) r'" "map fst (venue_of r') = map fst (venue_of r)" "rtr_next_sequence r' = rtr_next_sequence r + 1"
proof -
  note t = tracksD [OF tr] and d = venue_keys [OF tracksD(1) [OF tr]]
  from iid(2) obtain c v where mem: "(iid, c, v) \<in> set (venue_of r)" by auto
  note b = t(4) [OF mem] and ok = router_book_ok(1) [OF t(1) mem]
  have book: "map_of (venue_of r) iid = Some (c, v)" using map_of_is_SomeI [OF d mem] .
  have sizes: "\<forall>(j, e, w) \<in> set (venue_of r). int (length (view_orders w)) \<le> max_active_orders e"
    using router_book_ok(2) [OF t(1)] by (auto simp: view_orders_def)
  have others: "others_of (venue_of r) v + max_active_orders c \<le> max_total_active_orders (rtr_config r)"
    using room_of_others [OF mem sizes] t(3) by linarith
  have none: "0 \<notin> view_ids w" if "(j, e, w) \<in> set (venue_of r)" for j e w
    using view_okD(2) [OF router_book_ok(1) [OF t(1) that]] by (force simp: order_ok_def elim: view_idsE)
  have "find_venue_order i (venue_of r) = find_order i v" if "i \<in> ids_of cmd" for i
    by (rule find_own_order [OF mem d]) (use t(4) ids that none in force)
  note route = route_in_book [OF ok book iid(1) others, of "rtr_next_sequence r"]
  obtain es v' where sp: "spec_step c iid cmd (rtr_next_sequence r) v = (es, v')" by fastforce
  have "spec_route (max_total_active_orders (rtr_config r)) cmd (rtr_next_sequence r) (venue_of r) =
      (es, AList.update iid (c, v') (venue_of r))"
    using route sp \<open>\<And>i. i \<in> ids_of cmd \<Longrightarrow> find_venue_order i (venue_of r) = find_order i v\<close> by simp
  from routed_step [OF t(1) rep t(2) room this] obtain r' where
    r': "router_execute cmd r = (Inr (accepted_result es), r')" "router_inv r'" "venue_of r' = AList.update iid (c, v') (venue_of r)"
      "rtr_config r' = rtr_config r" "rtr_next_sequence r' = rtr_next_sequence r + 1" "\<not> rtr_sequence_exhausted r'" .
  have local: "map unstamp_event es = es0" "unstamp v' = v0"
    using step b spec_step_unstamp [of c iid cmd v "rtr_next_sequence r"] sp by (simp_all add: book_step_def)
  have owned: "own i = iid" if "i \<in> view_ids v'" for i
  proof -
    have i: "i \<in> ids_of cmd \<union> view_ids v" using stepped_ids [OF ok rep, of i "rtr_next_sequence r"] that sp by simp
    have "(iid, c, v') \<in> set (venue_of r')" unfolding r'(3) using map_of_SomeD [of "AList.update iid (c, v') (venue_of r)" iid "(c, v')"]
      by (simp add: update_conv')
    from view_okD(2) [OF router_book_ok(1) [OF r'(2) this]] that have "i \<noteq> 0" by (force simp: order_ok_def elim: view_idsE)
    with i ids b show ?thesis by blast
  qed
  have "c' = cfg j \<and> unstamp w = (loc(iid := v0)) j \<and> (\<forall>i \<in> view_ids w. own i = j)" if "(j, c', w) \<in> set (venue_of r')" for j c' w
    using set_update_dict [OF d that [unfolded r'(3)]] b t(4) [of j c' w] local(2) owned by auto
  then have "tracks_books own cfg (loc(iid := v0)) r'"
    using r' t(3) venue_room_update [OF book] by (auto simp: tracks_books_def)
  moreover have "map fst (venue_of r') = map fst (venue_of r)"
    unfolding r'(3) using iid(2) by (simp add: update_keys)
  ultimately show thesis using that r'(1,5) local(1) by blast
qed

section \<open>Captures follow the local books\<close>

lemma snapshot_digest:
  assumes "router_inv r"
  obtains b where "engine_state_digest sha256 (router_snapshot_at r) = Inr (sha256 b)"
proof -
  from router_state_encodes [OF assms] obtain b where "engine_state_bytes (router_snapshot_at r) = Inr b" by (auto simp: returns_def)
  with that [of b] show thesis by (simp add: engine_state_digest_def)
qed

definition owned_commands :: "(int \<Rightarrow> int) \<Rightarrow> int set \<Rightarrow> command list \<Rightarrow> bool" where
  "owned_commands own iids cmds \<longleftrightarrow> (\<forall>cmd \<in> set cmds. require_representable cmd = Inr () \<and> command_instrument_id cmd \<in> iids \<and>
     (\<forall>i \<in> ids_of cmd. i \<noteq> 0 \<longrightarrow> own i = command_instrument_id cmd))"

abbreviation books_run :: "(int \<Rightarrow> matching_config) \<Rightarrow> command list \<Rightarrow> (int \<Rightarrow> view) \<Rightarrow> event list list \<times> (int \<Rightarrow> view)" where
  "books_run cfg \<equiv> keyed_run command_instrument_id (book_step cfg)"

lemma capture_tracks:
  assumes "tracks_books own cfg loc r" and "owned_commands own (set (map fst (venue_of r))) cmds"
    and "rtr_next_sequence r + int (length cmds) \<le> U64_MAX"
  shows "\<exists>entries ess r'. router_capture_commands sha256 index cmds r = (Inr entries, r') \<and> map mc_command entries = cmds \<and>
    map mc_result entries = map accepted_result ess \<and> map (map unstamp_event) ess = fst (books_run cfg cmds loc) \<and>
    tracks_books own cfg (snd (books_run cfg cmds loc)) r' \<and> map fst (venue_of r') = map fst (venue_of r)"
  using assms
proof (induction cmds arbitrary: r loc index)
  case Nil
  then show ?case by simp
next
  case (Cons cmd cmds)
  let ?iid = "command_instrument_id cmd"
  obtain es0 v0 where st: "book_step cfg ?iid cmd (loc ?iid) = (es0, v0)" by fastforce
  have c: "require_representable cmd = Inr ()" "?iid \<in> set (map fst (venue_of r))" "\<forall>i \<in> ids_of cmd. i \<noteq> 0 \<longrightarrow> own i = ?iid"
    "rtr_next_sequence r < U64_MAX"
    using Cons.prems(2,3) by (simp_all add: owned_commands_def)
  from tracked_step [OF Cons.prems(1) c(1) refl c(2,3,4) st] obtain es r1 where
    r1: "router_execute cmd r = (Inr (accepted_result es), r1)" "map unstamp_event es = es0" "tracks_books own cfg (loc(?iid := v0)) r1"
      "map fst (venue_of r1) = map fst (venue_of r)" "rtr_next_sequence r1 = rtr_next_sequence r + 1" .
  from router_snapshot_spec [OF tracksD(1) [OF r1(3)]] obtain r2 where
    r2: "router_snapshot r1 = (Inr (router_snapshot_at r1), r2)" "quiet r1 r2" by blast
  obtain b where b: "engine_state_digest sha256 (router_snapshot_at r1) = Inr (sha256 b)" by (rule snapshot_digest [OF tracksD(1) [OF r1(3)]])
  note q = tracks_quiet [OF r1(3) r2(2)] quiet_venue [OF r2(2)] quiet_fields(4) [OF r2(2)]
  have "owned_commands own (set (map fst (venue_of r2))) cmds" "rtr_next_sequence r2 + int (length cmds) \<le> U64_MAX"
    using Cons.prems(2,3) q r1(4,5) by (simp_all add: owned_commands_def)
  from Cons.IH [OF q(1) this, of "index + 1"] obtain entries ess r3 where
    ih: "router_capture_commands sha256 (index + 1) cmds r2 = (Inr entries, r3)" "map mc_command entries = cmds"
      "map mc_result entries = map accepted_result ess" "map (map unstamp_event) ess = fst (books_run cfg cmds (loc(?iid := v0)))"
      "tracks_books own cfg (snd (books_run cfg cmds (loc(?iid := v0)))) r3" "map fst (venue_of r3) = map fst (venue_of r2)" by blast
  let ?e = "\<lparr>mc_command_index = index, mc_command = cmd, mc_result = accepted_result es, mc_post_state_digest = sha256 b,
    mc_post_snapshot = router_snapshot_at r1\<rparr>"
  have "router_capture_commands sha256 index (cmd # cmds) r = (Inr (?e # entries), r3)"
    using r1(1) r2(1) b ih(1) by (simp add: bindP_def liftP_def Let_def accepted_result_def)
  with ih r1(2,4) q(2) st show ?case
    by (intro exI [of _ "?e # entries"] exI [of _ "es # ess"] exI [of _ r3]) (simp add: case_prod_beta)
qed

section \<open>Normalized states\<close>

definition normal_order :: "order \<Rightarrow> int \<times> int \<times> int \<times> int \<times> int" where
  "normal_order ord = (ord_order_id ord, ord_client_id ord, side_value (ord_side ord), ord_price ord, ord_remaining_quantity ord)"

definition normal_levels :: "side \<Rightarrow> order list \<Rightarrow> normalized_level list" where
  "normal_levels sd os =
     map (\<lambda>p. (p, level_quantity os p, map normal_order (filter (\<lambda>ord. ord_price ord = p) os))) (best_first sd (ord_price ` set os))"

lemma normal_levels_unstamp [simp]: "normal_levels sd (map unstamp_order os) = normal_levels sd os"
  by (simp add: normal_levels_def image_image filter_map comp_def normal_order_def)

lemma filter_concat_key:
  assumes "distinct (map k xs)" and "\<forall>x \<in> set xs. \<forall>y \<in> set (f x). g y = k x" and "x \<in> set xs"
  shows "filter (\<lambda>y. g y = k x) (concat (map f xs)) = f x"
  using assms
proof (induction xs)
  case (Cons z zs)
  show ?case
  proof (cases "x = z")
    case True
    have "filter (\<lambda>y. g y = k z) (concat (map f zs)) = []" using Cons.prems(1,2)
      by (auto simp: filter_empty_conv) (metis image_eqI)
    moreover have "filter (\<lambda>y. g y = k z) (f z) = f z" using Cons.prems(2) by (simp add: filter_id_conv)
    ultimately show ?thesis using True by simp
  next
    case False
    then have "filter (\<lambda>y. g y = k x) (f z) = []" using Cons.prems by (auto simp: filter_empty_conv)
    with False Cons show ?thesis by simp
  qed
qed simp

lemma normal_view_levels:
  assumes "engine_inv e"
  shows "map normalized_level (view_levels sd e) = normal_levels sd (view_of e sd)"
proof -
  let ?ls = "view_levels sd e" and ?os = "flat sd e"
  have rep: "rep_ok e" "tight_except {} e" using assms by (simp_all add: engine_inv_def core_inv_def)
  note l = view_levels_level [OF rep]
  have orders: "concat (map pls_orders ?ls) = map order_snapshot_of ?os" by (rule view_levels_orders)
  have price: "os_price (order_snapshot_of ord) = ord_price ord" for ord by (simp add: order_snapshot_of_def)
  have "set (map pls_price ?ls) = ord_price ` set ?os"
  proof -
    have "set (map pls_price ?ls) = os_price ` set (concat (map pls_orders ?ls))"
      using l(1,2) by (fastforce simp: image_iff dest: last_in_set)
    then show ?thesis unfolding orders by (simp add: image_image price)
  qed
  from best_first_eq [OF this view_levels_distinct view_levels_sorted [unfolded map_map [symmetric]]]
  have prices: "map pls_price ?ls = best_first sd (ord_price ` set ?os)" .
  have "normalized_level x = (pls_price x, level_quantity ?os (pls_price x), map normal_order (filter (\<lambda>ord. ord_price ord = pls_price x) ?os))"
    if "x \<in> set ?ls" for x
  proof -
    have "filter (\<lambda>y. os_price y = pls_price x) (concat (map pls_orders ?ls)) = pls_orders x"
      by (rule filter_concat_key [OF view_levels_distinct _ that]) (use l(2) in blast)
    then have "pls_orders x = map order_snapshot_of (filter (\<lambda>ord. ord_price ord = pls_price x) ?os)"
      unfolding orders by (simp add: filter_map comp_def price)
    then show ?thesis using l(3) [OF that] by (simp add: normalized_level_def normal_order_def order_snapshot_of_def)
  qed
  then have "map normalized_level ?ls =
      map (\<lambda>p. (p, level_quantity ?os p, map normal_order (filter (\<lambda>ord. ord_price ord = p) ?os))) (map pls_price ?ls)" by simp
  then show ?thesis by (simp add: prices normal_levels_def view_of_def)
qed

definition normal_books :: "(int \<Rightarrow> view) \<Rightarrow> int list \<Rightarrow> (int \<times> normalized_level list \<times> normalized_level list) list" where
  "normal_books loc iids = map (\<lambda>iid. (iid, normal_levels BUY (loc iid BUY), normal_levels SELL (loc iid SELL))) iids"

lemma normalized_state_tracks:
  assumes "tracks_books own cfg loc r"
  shows "normalized_economic_state (router_snapshot_at r) = normal_books loc (map fst (venue_of r))"
proof -
  note t = tracksD [OF assms]
  note b = router_invD(3) [OF t(1)]
  have "(eng_instrument_id e, map normalized_level (view_levels BUY e), map normalized_level (view_levels SELL e)) =
      (iid, normal_levels BUY (loc iid BUY), normal_levels SELL (loc iid SELL))" if "(iid, e) \<in> set (rtr_books r)" for iid e
  proof -
    have "map_of (rtr_books r) iid = Some e" using map_of_in_dict [OF books_invD(2) [OF b]] that by blast
    from books_invD(3) [OF b this] have e: "engine_inv e" "eng_instrument_id e = iid" by simp_all
    have "(iid, eng_config e, view_of e) \<in> set (venue_of r)" using that by (force simp: venue_of_def)
    from t(4) [OF this] have "unstamp (view_of e) = loc iid" by simp
    then have "loc iid sd = map unstamp_order (view_of e sd)" for sd by (metis unstamp_app)
    then show ?thesis using normal_view_levels [OF e(1)] e(2) by simp
  qed
  then show ?thesis
    by (auto simp: normalized_economic_state_def router_snapshot_at_def instrument_snapshot_at_def normal_books_def venue_of_def)
qed

section \<open>Normalized evidence\<close>

lemma event_type_unstamp [simp]: "event_type_of (unstamp_event e) = event_type_of e"
  by (cases e) simp_all

lemma normalized_event_unstamp [simp]: "normalized_event (unstamp_event e) = normalized_event e"
proof -
  have "event_payload (unstamp_event e) = event_payload e" by (cases e) simp_all
  then show ?thesis by (simp add: normalized_event_def header_to_dict_def multi_event_to_dict_def Let_def)
qed

definition local_answer :: "int \<Rightarrow> event list \<Rightarrow> local_record" where
  "local_answer n es = BatchRecord n (if batch_committed \<lparr>batch_events = es\<rparr> then ''committed'' else ''rejected'') (map normalized_event es)"

lemma local_record_accepted: "local_record n (accepted_result es) = local_answer n es"
  by (simp add: local_record_def local_answer_def accepted_result_def)

lemma local_answer_unstamp [simp]: "local_answer n (map unstamp_event es) = local_answer n es"
  by (cases es) (simp_all add: local_answer_def batch_committed_def comp_def)

text \<open>The answers of one instrument, numbered from its first.\<close>

fun numbered :: "int \<Rightarrow> event list list \<Rightarrow> local_record list" where
  "numbered n [] = []"
| "numbered n (es # ess) = local_answer n es # numbered (n + 1) ess"

lemma numbered_unstamp [simp]: "numbered n (map (map unstamp_event) ess) = numbered n ess"
  by (induction ess arbitrary: n) simp_all

lemma numbered_snoc: "numbered n (ess @ [es]) = numbered n ess @ [local_answer (n + int (length ess)) es]"
  by (induction ess arbitrary: n) (simp_all add: algebra_simps)

lemma length_numbered [simp]: "length (numbered n ess) = length ess"
  by (induction ess arbitrary: n) simp_all

definition answers_of :: "int \<Rightarrow> command list \<Rightarrow> event list list \<Rightarrow> event list list" where
  "answers_of iid cmds ess = map snd (filter (\<lambda>(cmd, es). command_instrument_id cmd = iid) (zip cmds ess))"

lemma group_records_ok: "dict_ok g \<Longrightarrow> dict_ok (group_records entries g)"
  by (induction entries arbitrary: g) (simp_all add: Let_def)

lemma group_records_keys:
  "dom (map_of (group_records entries g)) = dom (map_of g) \<union> command_instrument_id ` set (map mc_command entries)"
  by (induction entries arbitrary: g) (simp_all add: Let_def)

lemma group_records_lookup:
  assumes "map mc_command entries = cmds" and "map mc_result entries = map accepted_result ess"
    and "\<forall>iid. dict_get_default g iid [] = numbered 0 (before iid)"
  shows "dict_get_default (group_records entries g) iid [] = numbered 0 (before iid @ answers_of iid cmds ess)"
  using assms
proof (induction entries arbitrary: cmds ess g before)
  case Nil
  then show ?case by (simp add: answers_of_def)
next
  case (Cons entry entries)
  from Cons.prems(1,2) obtain cmds' es ess' where
    c: "cmds = mc_command entry # cmds'" "map mc_command entries = cmds'" "ess = es # ess'" "mc_result entry = accepted_result es"
      "map mc_result entries = map accepted_result ess'" by (cases ess) auto
  let ?i = "command_instrument_id (mc_command entry)"
  let ?g = "dict_setitem ?i (numbered 0 (before ?i @ [es])) g" and ?before = "before(?i := before ?i @ [es])"
  have "\<forall>iid. dict_get_default ?g iid [] = numbered 0 (?before iid)" using Cons.prems(3) by (simp add: dict_get_default_def)
  from Cons.IH [OF c(2,5) this]
  have "dict_get_default (group_records entries ?g) iid [] = numbered 0 (?before iid @ answers_of iid cmds' ess')" .
  moreover have "group_records (entry # entries) g = group_records entries ?g"
    using Cons.prems(3) by (simp add: Let_def c(4) local_record_accepted numbered_snoc)
  moreover have "?before iid @ answers_of iid cmds' ess' = before iid @ answers_of iid cmds ess" by (simp add: c answers_of_def)
  ultimately show ?case by simp
qed

text \<open>A dictionary listed by key.\<close>

lemma sorted_dict:
  fixes d :: "(int, 'v) dict"
  assumes "dict_ok d"
  shows "sort_key fst d = map (\<lambda>k. (k, dict_get_default d k x)) (sorted_list_of_set (dom (map_of d)))"
proof (rule map_sorted_distinct_set_unique [where f = fst])
  have dom: "dom (map_of d) = fst ` set d" by (rule dom_map_of_conv_image_fst)
  have get: "dict_get_default d k x = v" if "(k, v) \<in> set d" for k v
    using that assms by (simp add: dict_get_default_def)
  show eq: "set (sort_key fst d) = set (map (\<lambda>k. (k, dict_get_default d k x)) (sorted_list_of_set (dom (map_of d))))"
    unfolding dom using get by (force simp: image_iff)
  show "inj_on fst (set (sort_key fst d) \<union> set (map (\<lambda>k. (k, dict_get_default d k x)) (sorted_list_of_set (dom (map_of d)))))"
    unfolding eq [symmetric] using assms by (simp add: distinct_map)
  show "distinct (map fst (sort_key fst d))" using assms by (metis distinct_map distinct_sort set_sort)
qed (simp_all add: comp_def finite_dom_map_of)

lemma normalized_evidence:
  assumes "map mc_command (ca_records capture) = cmds" and "map mc_result (ca_records capture) = map accepted_result ess"
  shows "normalized_instrument_evidence capture =
    map (\<lambda>iid. (iid, numbered 0 (answers_of iid cmds ess))) (sorted_list_of_set (command_instrument_id ` set cmds))"
proof -
  have "dict_get_default (group_records (ca_records capture) []) iid [] = numbered 0 ([] @ answers_of iid cmds ess)" for iid
    by (rule group_records_lookup [OF assms]) (simp add: dict_get_default_def)
  then show ?thesis
    unfolding normalized_instrument_evidence_def sorted_dict [OF group_records_ok [of "[]", simplified], of _ "[]"]
    by (simp add: group_records_keys assms(1) [symmetric])
qed

section \<open>Reinterleaving keeps every instrument's order\<close>

abbreviation of_instrument :: "int \<Rightarrow> command list \<Rightarrow> command list" where
  "of_instrument iid \<equiv> filter (\<lambda>cmd. command_instrument_id cmd = iid)"

lemma group_commands_lookup: "dict_get_default (group_commands cmds g) iid [] = dict_get_default g iid [] @ of_instrument iid cmds"
  by (induction cmds arbitrary: g) (simp_all add: Let_def dict_get_default_def)

lemma group_commands_ok: "dict_ok g \<Longrightarrow> dict_ok (group_commands cmds g)"
  by (induction cmds arbitrary: g) (simp_all add: Let_def)

lemma group_commands_keys: "dom (map_of (group_commands cmds g)) = dom (map_of g) \<union> command_instrument_id ` set cmds"
  by (induction cmds arbitrary: g) (simp_all add: Let_def)

text \<open>What a list of commands says about each instrument determines its multiset.\<close>

lemma count_instrument: "count (mset cmds) cmd = count (mset (of_instrument (command_instrument_id cmd) cmds)) cmd"
  by (induction cmds) auto

lemma partial_mix_subset:
  assumes "\<forall>iid. of_instrument iid out = take (pos iid) (of_instrument iid cmds)"
  shows "mset out \<subseteq># mset cmds"
proof (rule mset_subset_eqI)
  fix cmd
  let ?iid = "command_instrument_id cmd"
  have "mset (take (pos ?iid) (of_instrument ?iid cmds)) \<subseteq># mset (of_instrument ?iid cmds)"
    by (metis append_take_drop_id mset_append mset_subset_eq_add_left)
  from mset_subset_eq_count [OF this]
  have "count (mset (of_instrument ?iid out)) cmd \<le> count (mset (of_instrument ?iid cmds)) cmd"
    unfolding assms [THEN spec, of ?iid] .
  then show "count (mset out) cmd \<le> count (mset cmds) cmd" unfolding count_instrument [of out] count_instrument [of cmds] .
qed

lemma full_mix:
  assumes "\<forall>iid. of_instrument iid out = take (pos iid) (of_instrument iid cmds)" and "length out = length cmds"
  shows "of_instrument iid out = of_instrument iid cmds"
proof -
  have "mset out = mset cmds"
  proof (rule ccontr)
    assume "mset out \<noteq> mset cmds"
    with partial_mix_subset [OF assms(1)] have "mset out \<subset># mset cmds" by (simp add: subset_mset.less_le)
    from mset_subset_size [OF this] assms(2) show False by simp
  qed
  then have "mset (of_instrument iid out) = mset (of_instrument iid cmds)" by simp
  then have len: "length (of_instrument iid out) = length (of_instrument iid cmds)" by (rule mset_eq_length)
  note prefix = assms(1) [THEN spec, of iid]
  from len have "length (of_instrument iid cmds) \<le> pos iid" unfolding prefix by simp
  then show ?thesis unfolding prefix by simp
qed

lemma unfinished_mix:
  assumes "\<forall>iid. of_instrument iid out = take (pos iid) (of_instrument iid cmds)" and "length out < length cmds"
  shows "\<exists>cmd \<in> set cmds. pos (command_instrument_id cmd) < length (of_instrument (command_instrument_id cmd) cmds)"
proof (rule ccontr)
  assume "\<not> ?thesis"
  then have all: "\<forall>cmd \<in> set cmds. length (of_instrument (command_instrument_id cmd) cmds) \<le> pos (command_instrument_id cmd)" by (auto simp: not_less)
  have "mset cmds \<subseteq># mset out"
  proof (rule mset_subset_eqI)
    fix cmd
    show "count (mset cmds) cmd \<le> count (mset out) cmd"
    proof (cases "cmd \<in> set cmds")
      case True
      with all assms(1) have "of_instrument (command_instrument_id cmd) out = of_instrument (command_instrument_id cmd) cmds" by simp
      then show ?thesis unfolding count_instrument [of out] count_instrument [of cmds] by simp
    qed (simp add: count_mset_0_iff [THEN iffD2])
  qed
  from size_mset_mono [OF this] assms(2) show False by simp
qed

lemma reinterleave_loop_mixes:
  assumes groups: "groups = group_commands cmds []" and small: "int (length cmds) \<le> 2 ^ 64"
    and pos: "\<forall>iid. of_instrument iid out = take (dict_get_default positions iid 0) (of_instrument iid cmds)"
  shows "\<exists>out'. reinterleave_loop groups (length cmds) positions out rng = Inr out' \<and> (\<forall>iid. of_instrument iid out' = of_instrument iid cmds)"
  using pos
proof (induction "length cmds - length out" arbitrary: positions out rng)
  case 0
  then have "length cmds \<le> length out" by simp
  moreover have "length out \<le> length cmds" using size_mset_mono [OF partial_mix_subset [OF 0(2)]] by simp
  ultimately show ?case using full_mix [OF 0(2)] by (subst reinterleave_loop.simps) simp
next
  case (Suc n)
  let ?pos = "\<lambda>iid. dict_get_default positions iid 0"
  let ?available = "open_groups groups positions"
  have group: "dict_get_default groups iid [] = of_instrument iid cmds" for iid
    unfolding groups group_commands_lookup by (simp add: dict_get_default_def)
  have ok: "dict_ok groups" unfolding groups by (rule group_commands_ok) simp
  have dom: "dom (map_of groups) = command_instrument_id ` set cmds" unfolding groups group_commands_keys by simp
  have avail: "iid \<in> set ?available \<longleftrightarrow> iid \<in> dom (map_of groups) \<and> ?pos iid < length (of_instrument iid cmds)" for iid
  proof -
    have "(\<exists>group. (iid, group) \<in> set groups \<and> ?pos iid < length group) \<longleftrightarrow> iid \<in> dom (map_of groups) \<and> ?pos iid < length (of_instrument iid cmds)"
      using group [of iid] map_of_in_dict [OF ok, of iid] by (auto simp: dict_get_default_def)
    then show ?thesis by (force simp: open_groups_def)
  qed
  have "length out < length cmds" using Suc(2) by simp
  from unfinished_mix [OF Suc(3) this] have "?available \<noteq> []" using avail dom by fastforce
  moreover have "length ?available \<le> length cmds"
  proof -
    have "length ?available \<le> length groups" by (simp add: open_groups_def)
    also have "\<dots> = card (command_instrument_id ` set cmds)" using length_dict_card [OF ok] dom by simp
    also have "\<dots> \<le> length cmds" by (metis card_image_le card_length finite_set order_trans)
    finally show ?thesis .
  qed
  ultimately have n: "1 \<le> int (length ?available)" "int (length ?available) \<le> 2 ^ 64" using small by (simp_all add: Suc_le_eq)
  from randbelow_returns [OF n, of rng] obtain d rng' where d: "randbelow (int (length ?available)) rng = (Inr d, rng')" "0 \<le> d"
    "d < int (length ?available)" by blast
  define k where "k = ?available ! nat d"
  have "k \<in> set ?available" unfolding k_def using d(2,3) by (intro nth_mem) linarith
  then have k: "?pos k < length (of_instrument k cmds)" using avail by blast
  let ?cmd = "of_instrument k cmds ! ?pos k" and ?positions = "dict_setitem k (?pos k + 1) positions"
  have "?cmd \<in> set (of_instrument k cmds)" by (rule nth_mem [OF k])
  then have cmd: "command_instrument_id ?cmd = k" by simp
  have "\<forall>iid. of_instrument iid (out @ [?cmd]) = take (dict_get_default ?positions iid 0) (of_instrument iid cmds)"
  proof
    fix iid
    show "of_instrument iid (out @ [?cmd]) = take (dict_get_default ?positions iid 0) (of_instrument iid cmds)"
      using Suc(3) cmd k by (cases "iid = k") (simp_all add: dict_get_default_def take_Suc_conv_app_nth)
  qed
  moreover have "n = length cmds - length (out @ [?cmd])" using Suc(2) by simp
  ultimately have "\<exists>out'. reinterleave_loop groups (length cmds) ?positions (out @ [?cmd]) rng' = Inr out' \<and>
      (\<forall>iid. of_instrument iid out' = of_instrument iid cmds)" using Suc(1) by blast
  moreover have "reinterleave_loop groups (length cmds) positions out rng =
      reinterleave_loop groups (length cmds) ?positions (out @ [?cmd]) rng'"
    using \<open>length out < length cmds\<close> d(1) group by (subst reinterleave_loop.simps) (simp add: Let_def k_def)
  ultimately show ?case by simp
qed

section \<open>Independent commands\<close>

lemma claim_ids_owns:
  assumes "claim_ids iid oids owners = Inr owners'"
  shows "map_of owners \<subseteq>\<^sub>m map_of owners' \<and> (\<forall>i \<in> set oids. i \<noteq> 0 \<longrightarrow> map_of owners' i = Some iid)"
  using assms
proof (induction oids arbitrary: owners)
  case (Cons oid oids)
  show ?case
  proof (cases "oid = 0 \<or> map_of owners oid = Some iid")
    case True
    then have "claim_ids iid oids owners = Inr owners'"
      using Cons.prems by (auto split: option.splits if_splits)
    from Cons.IH [OF this] True show ?thesis by (auto simp: map_le_def dom_def)
  next
    case False
    then have none: "map_of owners oid = None" "claim_ids iid oids (dict_setitem oid iid owners) = Inr owners'"
      using Cons.prems by (auto split: option.splits if_splits)
    from Cons.IH [OF none(2)] none(1) show ?thesis by (auto simp: map_le_def dom_def split: if_splits)
  qed
qed simp

lemma claim_commands_owns:
  assumes "claim_commands cmds owners = Inr owners'"
  shows "map_of owners \<subseteq>\<^sub>m map_of owners' \<and>
    (\<forall>cmd \<in> set cmds. \<forall>i \<in> ids_of cmd. i \<noteq> 0 \<longrightarrow> map_of owners' i = Some (command_instrument_id cmd))"
  using assms
proof (induction cmds arbitrary: owners)
  case (Cons cmd cmds)
  from Cons.prems obtain owners1 where
    o: "claim_ids (command_instrument_id cmd) (claimed_ids cmd) owners = Inr owners1" "claim_commands cmds owners1 = Inr owners'"
    by (auto simp: bindR_Inr_iff)
  have "set (claimed_ids cmd) = ids_of cmd" by (cases cmd) auto
  with claim_ids_owns [OF o(1)] Cons.IH [OF o(2)] show ?case by (force simp: map_le_def dom_def)
qed simp

lemma independent_owners:
  assumes "require_independent_reinterleaving catalog cmds engine_config = Inr ()"
  obtains own where "catalog \<noteq> []" "distinct (map ic_instrument_id catalog)"
    "\<forall>cmd \<in> set cmds. command_instrument_id cmd \<in> set (map ic_instrument_id catalog) \<and>
       (\<forall>i \<in> ids_of cmd. i \<noteq> 0 \<longrightarrow> own i = command_instrument_id cmd)"
    "sum_list (map (max_active_orders \<circ> ic_matching) catalog) \<le>
       max_total_active_orders (case engine_config of Some c \<Rightarrow> c | None \<Rightarrow> default_router_config)"
proof -
  from assms obtain owners where o: "claim_commands cmds [] = Inr owners"
    and c: "set (map ic_instrument_id catalog) \<noteq> {}" "card (set (map ic_instrument_id catalog)) = length catalog"
      "set (map command_instrument_id cmds) \<subseteq> set (map ic_instrument_id catalog)"
      "sum_list (map (max_active_orders \<circ> ic_matching) catalog) \<le>
         max_total_active_orders (case engine_config of Some c \<Rightarrow> c | None \<Rightarrow> default_router_config)"
    by (auto simp: require_independent_reinterleaving_def Let_def bindR_Inr_iff)
  have "distinct (map ic_instrument_id catalog)" using c(2) by (simp add: card_distinct)
  with claim_commands_owns [OF o] c that [of "\<lambda>i. the (map_of owners i)"] show thesis by fastforce
qed

section \<open>A capture of independent commands\<close>

lemma map_sort_key_id: "map f (sort_key f xs) = sort (map f xs)"
  by (rule properties_for_sort [symmetric]) simp_all

definition catalog_config :: "instrument_config list \<Rightarrow> int \<Rightarrow> matching_config" where
  "catalog_config catalog iid = the (map_of (map (\<lambda>entry. (ic_instrument_id entry, ic_matching entry)) catalog) iid)"

lemma catalog_config_entry:
  assumes "distinct (map ic_instrument_id catalog)" and "entry \<in> set catalog"
  shows "catalog_config catalog (ic_instrument_id entry) = ic_matching entry"
proof -
  have "map_of (map (\<lambda>entry. (ic_instrument_id entry, ic_matching entry)) catalog) (ic_instrument_id entry) = Some (ic_matching entry)"
    using assms by (intro map_of_is_SomeI) (auto simp: comp_def)
  then show ?thesis by (simp add: catalog_config_def)
qed

lemma independent_capture:
  assumes cat: "\<forall>entry \<in> set catalog. instrument_config_ok entry" and cfg: "router_config_ok engine_config"
    and ind: "catalog \<noteq> []" "distinct (map ic_instrument_id catalog)"
      "sum_list (map (max_active_orders \<circ> ic_matching) catalog) \<le>
         max_total_active_orders (case engine_config of Some c \<Rightarrow> c | None \<Rightarrow> default_router_config)"
    and owned: "owned_commands own (set (map ic_instrument_id catalog)) cmds" and short: "int (length cmds) < U64_MAX"
  shows "\<exists>capture ess. capture_reference_router sha256 catalog cmds engine_config = Inr capture \<and>
    map mc_command (ca_records capture) = cmds \<and> map mc_result (ca_records capture) = map accepted_result ess \<and>
    map (map unstamp_event) ess = fst (books_run (catalog_config catalog) cmds (\<lambda>_ _. [])) \<and>
    normalized_economic_state (ca_final_snapshot capture) =
      normal_books (snd (books_run (catalog_config catalog) cmds (\<lambda>_ _. []))) (sort (map ic_instrument_id catalog))"
proof -
  let ?config = "case engine_config of Some c \<Rightarrow> c | None \<Rightarrow> default_router_config"
  let ?sorted = "sort_key ic_instrument_id catalog"
  have "router_config_ok (Some ?config)"
    using cfg by (auto simp: router_config_ok_def default_router_config_def U64_MAX_def split: option.splits)
  from ReferenceRouter_spec [OF cat this ind(1,2), of 1 True] obtain r where
    r: "ReferenceRouter catalog (Some ?config) 1 True = Inr r" "router_inv r"
      "venue_of r = map (\<lambda>entry. (ic_instrument_id entry, ic_matching entry, \<lambda>_. [])) ?sorted" "rtr_next_sequence r = 1"
      "rtr_config r = ?config" "\<not> rtr_sequence_exhausted r" by (auto simp: U64_MAX_def)
  have "venue_room (venue_of r) = sum_list (map (max_active_orders \<circ> ic_matching) ?sorted)" unfolding r(3) by (simp add: venue_room_def comp_def)
  also have "\<dots> = sum_list (map (max_active_orders \<circ> ic_matching) catalog)" by (metis mset_map mset_sort sum_mset_sum_list)
  finally have "tracks_books own (catalog_config catalog) (\<lambda>_ _. []) r"
    using r ind catalog_config_entry [OF ind(2)] by (auto simp: tracks_books_def unstamp_def view_ids_def view_orders_def)
  moreover have keys: "map fst (venue_of r) = sort (map ic_instrument_id catalog)"
    unfolding r(3) by (simp add: comp_def map_sort_key_id)
  moreover have "rtr_next_sequence r + int (length cmds) \<le> U64_MAX" using short r(4) by simp
  ultimately obtain entries ess r1 where
    e: "router_capture_commands sha256 0 cmds r = (Inr entries, r1)" "map mc_command entries = cmds"
      "map mc_result entries = map accepted_result ess" "map (map unstamp_event) ess = fst (books_run (catalog_config catalog) cmds (\<lambda>_ _. []))"
      "tracks_books own (catalog_config catalog) (snd (books_run (catalog_config catalog) cmds (\<lambda>_ _. []))) r1" "map fst (venue_of r1) = map fst (venue_of r)"
    using capture_tracks [of own "catalog_config catalog" "\<lambda>_ _. []" r cmds sha256 0] owned by auto
  from router_snapshot_spec [OF tracksD(1) [OF e(5)]] obtain r2 where
    r2: "router_snapshot r1 = (Inr (router_snapshot_at r1), r2)" "quiet r1 r2" "router_inv r2" by blast
  obtain b where b: "engine_state_digest sha256 (router_snapshot_at r1) = Inr (sha256 b)" by (rule snapshot_digest [OF tracksD(1) [OF e(5)]])
  let ?capture = "\<lparr>ca_catalog = rtr_catalog r2, ca_engine_config = ?config, ca_records = entries,
    ca_final_snapshot = router_snapshot_at r1, ca_final_state_digest = sha256 b\<rparr>"
  have "capture_reference_router sha256 catalog cmds engine_config = Inr ?capture"
    using r(1) e(1) r2(1) b router_invD(1) [OF r2(3)]
    by (simp add: capture_reference_router_def Let_def bindP_def liftP_def router_catalog_def router_ensure_usable_def seqP_def getsP_def)
  moreover have "normalized_economic_state (router_snapshot_at r1) =
      normal_books (snd (books_run (catalog_config catalog) cmds (\<lambda>_ _. []))) (sort (map ic_instrument_id catalog))"
    using normalized_state_tracks [OF e(5)] e(6) keys by simp
  ultimately show ?thesis using e(2-4) by (intro exI [of _ ?capture] exI [of _ ess]) simp
qed

lemma same_mix:
  assumes "\<forall>iid. of_instrument iid out = of_instrument iid cmds"
  shows "mset out = mset cmds"
proof (rule multiset_eqI)
  show "count (mset out) cmd = count (mset cmds) cmd" for cmd
    unfolding count_instrument [of out] count_instrument [of cmds] using assms by simp
qed

lemma answers_unstamped:
  "map (map unstamp_event) (answers_of iid cmds ess) = map snd (filter (\<lambda>(cmd, es). command_instrument_id cmd = iid) (zip cmds (map (map unstamp_event) ess)))"
  by (simp add: answers_of_def zip_map2 filter_map comp_def case_prod_unfold)

text \<open>Two captures of sequences that agree on every instrument say the same once normalized.\<close>

lemma normalized_equal:
  assumes mix: "\<forall>iid. of_instrument iid cmds2 = of_instrument iid cmds1"
    and c1: "map mc_command (ca_records first) = cmds1" "map mc_result (ca_records first) = map accepted_result ess1"
      "map (map unstamp_event) ess1 = fst (books_run cfg cmds1 loc)"
    and c2: "map mc_command (ca_records second) = cmds2" "map mc_result (ca_records second) = map accepted_result ess2"
      "map (map unstamp_event) ess2 = fst (books_run cfg cmds2 loc)"
  shows "normalized_instrument_evidence first = normalized_instrument_evidence second"
    and "snd (books_run cfg cmds1 loc) = snd (books_run cfg cmds2 loc)"
proof -
  have "numbered 0 (answers_of iid cmds2 ess2) = numbered 0 (answers_of iid cmds1 ess1)" for iid
  proof -
    have "map (map unstamp_event) (answers_of iid cmds2 ess2) = map (map unstamp_event) (answers_of iid cmds1 ess1)"
      unfolding answers_unstamped c1(3) c2(3) keyed_run_answers using mix by simp
    then show ?thesis by (metis numbered_unstamp)
  qed
  moreover have "set cmds2 = set cmds1" using same_mix [OF mix] by (rule mset_eq_setD)
  ultimately show "normalized_instrument_evidence first = normalized_instrument_evidence second"
    unfolding normalized_evidence [OF c1(1,2)] normalized_evidence [OF c2(1,2)] by simp
  show "snd (books_run cfg cmds1 loc) = snd (books_run cfg cmds2 loc)"
    by (rule ext) (simp add: keyed_run_state mix)
qed

section \<open>Properties\<close>

text \<open>
  C33.  Independent commands may be interleaved in any order.  For a catalog and a venue configuration that
  their constructors accept and fewer than \<^term>\<open>U64_MAX\<close> representable commands that pass the independence check
  (every command names a configured instrument, no order identifier is used on two instruments, the books'
  capacities fit into the venue's), and for every 64-bit seed: the shuffle returns a permutation that keeps the
  order of every instrument's commands, and the comparison of the two captures says that they are equivalent:
  the same normalized books and the same normalized answers on every instrument.
\<close>

theorem reinterleaving_equivalent:
  assumes "\<forall>entry \<in> set catalog. instrument_config_ok entry" and "router_config_ok engine_config"
    and "require_independent_reinterleaving catalog cmds engine_config = Inr ()"
    and "\<forall>cmd \<in> set cmds. require_representable cmd = Inr ()" and "int (length cmds) < U64_MAX"
    and "0 \<le> seed" and "seed \<le> U64_MAX"
  shows "\<exists>reordered. reinterleave_independent catalog cmds seed engine_config = Inr reordered \<and> mset reordered = mset cmds \<and>
    (\<forall>iid. of_instrument iid reordered = of_instrument iid cmds) \<and>
    reinterleaving_is_equivalent sha256 catalog cmds seed engine_config = Inr True"
proof -
  obtain own where ind: "catalog \<noteq> []" "distinct (map ic_instrument_id catalog)"
    "\<forall>cmd \<in> set cmds. command_instrument_id cmd \<in> set (map ic_instrument_id catalog) \<and>
       (\<forall>i \<in> ids_of cmd. i \<noteq> 0 \<longrightarrow> own i = command_instrument_id cmd)"
    "sum_list (map (max_active_orders \<circ> ic_matching) catalog) \<le>
       max_total_active_orders (case engine_config of Some c \<Rightarrow> c | None \<Rightarrow> default_router_config)"
    by (rule independent_owners [OF assms(3)])
  let ?groups = "group_commands cmds []"
  have "dict_get_default (map (\<lambda>(iid, group). (iid, 0::nat)) g) iid 0 = 0" for iid and g :: "(int \<times> command list) list"
    by (induction g) (auto simp: dict_get_default_def)
  then have "\<forall>iid. of_instrument iid [] = take (dict_get_default (map (\<lambda>(iid, group). (iid, 0)) ?groups) iid 0) (of_instrument iid cmds)"
    by simp
  from reinterleave_loop_mixes [OF refl _ this, of "word_of_int seed"] assms(5) obtain out where
    loop: "reinterleave_loop ?groups (length cmds) (map (\<lambda>(iid, group). (iid, 0)) ?groups) [] (word_of_int seed) = Inr out"
    and mix: "\<forall>iid. of_instrument iid out = of_instrument iid cmds" by (auto simp: U64_MAX_def)
  have out: "reinterleave_independent catalog cmds seed engine_config = Inr out"
    using assms(3,6,7) loop by (simp add: reinterleave_independent_def SplitMix64_def require_int_def U64_MAX_def Let_def)
  note same = same_mix [OF mix]
  have owned: "owned_commands own (set (map ic_instrument_id catalog)) xs" if "set xs = set cmds" for xs
    using that ind(3) assms(4) by (simp add: owned_commands_def)
  have short: "int (length out) < U64_MAX" using assms(5) arg_cong [OF same, of size] by simp
  from independent_capture [OF assms(1,2) ind(1,2,4) owned [OF refl] assms(5)] obtain first ess1 where
    c1: "capture_reference_router sha256 catalog cmds engine_config = Inr first"
      "map mc_command (ca_records first) = cmds" "map mc_result (ca_records first) = map accepted_result ess1"
      "map (map unstamp_event) ess1 = fst (books_run (catalog_config catalog) cmds (\<lambda>_ _. []))"
      "normalized_economic_state (ca_final_snapshot first) =
        normal_books (snd (books_run (catalog_config catalog) cmds (\<lambda>_ _. []))) (sort (map ic_instrument_id catalog))" by blast
  from independent_capture [OF assms(1,2) ind(1,2,4) owned [OF mset_eq_setD [OF same]] short] obtain second ess2 where
    c2: "capture_reference_router sha256 catalog out engine_config = Inr second"
      "map mc_command (ca_records second) = out" "map mc_result (ca_records second) = map accepted_result ess2"
      "map (map unstamp_event) ess2 = fst (books_run (catalog_config catalog) out (\<lambda>_ _. []))"
      "normalized_economic_state (ca_final_snapshot second) =
        normal_books (snd (books_run (catalog_config catalog) out (\<lambda>_ _. []))) (sort (map ic_instrument_id catalog))" by blast
  note eq = normalized_equal [OF mix c1(2-4) c2(2-4)]
  have "reinterleaving_is_equivalent sha256 catalog cmds seed engine_config = Inr True"
    using c1(1) out c2(1) eq c1(5) c2(5) by (simp add: reinterleaving_is_equivalent_def)
  with out same mix show ?thesis by blast
qed

definition apart_catalog :: "instrument_config list" where
  "apart_catalog = [\<lparr>ic_instrument_id = 7, ic_matching = \<lparr>max_order_quantity = 1000, tick_increment = 1, max_active_orders = 8\<rparr>\<rparr>,
     \<lparr>ic_instrument_id = 9, ic_matching = \<lparr>max_order_quantity = 1000, tick_increment = 5, max_active_orders = 8\<rparr>\<rparr>]"

definition apart_order :: "int \<Rightarrow> int \<Rightarrow> side \<Rightarrow> int \<Rightarrow> command" where
  "apart_order iid oid sd price = NewOrder \<lparr>new_client_id = 1, new_order_id = oid, new_instrument_id = iid, new_side = side_value sd,
     new_order_type = order_type_value LIMIT, new_time_in_force = time_in_force_value GTC, new_limit_price = Some price, new_quantity = 10\<rparr>"

definition apart_commands :: "command list" where
  "apart_commands = [apart_order 7 1 BUY 100, apart_order 7 2 SELL 100, apart_order 9 3 BUY 50, apart_order 9 4 SELL 45]"

theorem reinterleaving_equivalent_witness:
  "\<exists>reordered. reinterleave_independent apart_catalog apart_commands 42 None = Inr reordered \<and>
     mset reordered = mset apart_commands \<and> reinterleaving_is_equivalent (\<lambda>_. []) apart_catalog apart_commands 42 None = Inr True"
proof -
  have "\<forall>entry \<in> set apart_catalog. instrument_config_ok entry"
    by (simp add: apart_catalog_def instrument_config_ok_def matching_config_ok_def width_defs)
  moreover have "router_config_ok None" by (simp add: router_config_ok_def)
  moreover have "require_independent_reinterleaving apart_catalog apart_commands None = Inr ()" by code_simp
  moreover have "\<forall>cmd \<in> set apart_commands. require_representable cmd = Inr ()" by code_simp
  moreover have "int (length apart_commands) < U64_MAX" by code_simp
  ultimately show ?thesis using reinterleaving_equivalent [of apart_catalog None apart_commands 42 "\<lambda>_. []"] by (auto simp: U64_MAX_def)
qed

end
