(* ===== verification/Spec2Isabelle.thy ===== *)
theory Spec2Isabelle
  imports Canonical_Properties Shrinking_Properties Workload_Properties Fault_Properties Multi_Shrinking_Properties
    Multi_Generation_Properties Multi_Workload_Properties Reinterleaving
begin

text \<open>
  AtlasLOB: the Python oracle of a limit order book and the tools that compare a native engine with it.

  \<^item> The program.  \<open>python/src/atlaslob\<close> holds a reference matching engine (\<open>reference.py\<close>), a router that
  runs one engine per instrument behind a global screen (\<open>router.py\<close>), canonical byte encodings and digests
  of their states and events (\<open>canonical.py\<close>), a seeded workload generator (\<open>generation.py\<close>), the text
  grammar and the evidence checks at the boundary to the native C++ process (\<open>native.py\<close>), the differential
  harness that runs both engines over one workload and compares their evidence (\<open>differential.py\<close>), a reducer
  that shrinks a failing workload (\<open>shrinking.py\<close>), persisted workloads and campaign suites (\<open>workload.py\<close>) and
  injected faults that test the harness itself (\<open>faults.py\<close>).  \<open>multi_generation.py\<close> and \<open>multi_shrinking.py\<close> are the
  generator and the reducer for workloads of several instruments, which the router executes; \<open>multi_workload.py\<close> holds
  their documents, and \<open>multi_differential.py\<close> captures the router over them and checks that commands of independent
  instruments may be interleaved in any order.  \<open>domain.py\<close> is the
  vocabulary they share.  The generator writes command lines; the harness executes them on the reference engine, keeps the evidence,
  reads the native process's records through the stream decoder and compares record by record; a
  divergence is handed to the reducer.

  \<^item> Conventions.  A Python exception is a value of \<open>py_error\<close>; a fallible function returns \<open>'a result\<close>
  (\<open>Inl\<close> the exception); a method is a \<open>prog\<close> over the object it mutates, and mutations made before a raise
  are kept (\<open>Prelude\<close>).  Integers are unbounded \<open>int\<close> as in Python, with the width checks of the source
  written out; bytes are 8-bit words and generator states 64-bit words, whose arithmetic wraps.
  Dictionaries are association lists in insertion order, strings are HOL strings (every text the program
  writes is ASCII).  SHA-256, the reducer's evaluator and the clock are parameters;
  the evaluator is a function of the commands and the time left, so a callable with a state of its own is not covered.

  \<^item> \<open>Domain\<close> models \<open>domain.py\<close>: enumerations with wire values, configurations, commands, events, batches,
  results and snapshots, with the checks of every \<open>__post_init__\<close>.

  \<^item> \<open>Book_State\<close>, \<open>Heapq\<close>, \<open>Price_Index\<close> and \<open>Reference_Engine\<close> model \<open>reference.py\<close>.  The engine record has
  the fields of \<open>ReferenceEngine\<close> and an explicit object store, because a resting \<open>_Order\<close> is shared between
  its level's queue and the active-order index.  \<open>Heapq\<close> is the array algorithm of the standard library
  (locale \<open>priority_heap\<close>), \<open>Price_Index\<close> the lazy best-price heaps with generations and their walk (locale
  \<open>best_price_index\<close>, interpreted for both sides), \<open>Reference_Engine\<close> every method and validation function,
  \<open>execute\<close> down to the matching loop, and the runtime invariant checker.  \<open>Price_Time_Spec\<close> is the abstract
  contract: a book is two lists of orders, best first.  \<open>Book_Invariant\<close>, \<open>Matching_Refinement\<close> and
  \<open>Engine_Refinement\<close> relate the two: every handler, from a state that satisfies the invariant, returns the
  specified batch and leaves the specified view.  \<open>Runtime_Checks\<close> shows that the invariant checker finds
  nothing, \<open>Engine_Machine\<close> closes the invariant under every interleaving of the public operations,
  \<open>Step_Outcomes\<close> describes the steps of the specification.  \<open>Engine_Properties\<close> holds the properties.

  \<^item> \<open>Router\<close> models \<open>router.py\<close>: construction, the screen, delegation, the directory of active identities,
  snapshots and the invariant checker.  \<open>Router_Directory\<close>, \<open>Router_Refinement\<close> and \<open>Router_Machine\<close> prove
  that it implements an abstract venue of independent price-time books and that its internal errors are
  unreachable; \<open>Router_Properties\<close> states what that gives.

  \<^item> \<open>Canonical\<close> models \<open>canonical.py\<close>; the locale \<open>prefix_code\<close> carries the proof that every stream
  determines the value it encodes.  \<open>Canonical_Properties\<close> applies it to live engines and routers.

  \<^item> \<open>Py_Text\<close> and \<open>Native_Input\<close> model the \<open>ATLAS_DIFF_V1\<close> grammar of \<open>native.py\<close> (header and command lines,
  encoders and decoders).  \<open>Evidence_Checks\<close> models every check \<open>native.py\<close> makes of native evidence and the
  stream decoder, on typed records.  \<open>Evidence_Complete\<close> proves that the checks raise no false alarm on what
  the reference engine reports.

  \<^item> \<open>Shrinking\<close> models \<open>shrinking.py\<close>: the evaluator with its cache, budget and deadline, the nine passes
  and the reducer; the contract of a pass is a locale.  \<open>Shrinking_Properties\<close> states what is returned,
  collisions of the hash and an exhausted budget included, and which errors can be raised.

  \<^item> \<open>Split_Mix\<close> and \<open>Generation\<close> model \<open>generation.py\<close>: SplitMix64, specifications and profiles, the shadow
  book, every builder of valid and invalid commands, and the iterator.  \<open>Shadow_Refinement\<close> relates the
  shadow book to the price-time specification, \<open>Workload_Choices\<close> follows the choices of the generator,
  \<open>Workload_Properties\<close> states that the reference engine accepts exactly what the generator meant to be
  valid.

  \<^item> \<open>Json_Values\<close> and \<open>Differential\<close> model \<open>differential.py\<close>: evidence values and their canonical text, the
  reference pass, the cursor over its records, first differences, divergences and the comparison loop.
  \<open>Differential_Properties\<close> proves that a comparison passes exactly on the honest native stream and that
  the first different record is where a divergence is reported.

  \<^item> \<open>Workload_Files\<close> models \<open>workload.py\<close> and the dictionary form of specifications from \<open>generation.py\<close>:
  manifests, suites, generation, opening and verification of workload files.  \<open>Campaigns\<close> models what
  \<open>differential.py\<close> runs over files: fixtures with manifests, exact reruns of a prefix, cases and suites, with
  the native executable as a parameter.  \<open>Campaign_Properties\<close> proves the round trips, that a generated
  workload verifies and decodes to the generated commands, and that a suite passes exactly when the native
  process agrees with the reference engine on every case.

  \<^item> \<open>Faults\<close> models \<open>faults.py\<close>.  \<open>Fault_Properties\<close> shows that an injector acts as a change of the typed record,
  says which records each fault can alter, and proves that the comparison stops at the first of them.

  \<^item> \<open>Multi_Shrinking\<close> models \<open>multi_shrinking.py\<close> over the evaluator and the deletion passes of \<open>Shrinking\<close>;
  \<open>Multi_Shrinking_Properties\<close> shows, through the contract of its passes (locale \<open>routed_pass\<close>), that the reproducer it
  returns keeps the order and the instruments of the commands it was cut from.

  \<^item> \<open>Multi_Generation\<close> models \<open>multi_generation.py\<close>: specifications, the identifier remapper, the prologue, the
  consumption of stream budgets, the interleaving iterator.  \<open>Venue_Renaming\<close> proves that the price-time specification
  and the router commute with an injective renaming of order identifiers.  \<open>Multi_Intents\<close> relates each stream's own
  book to the router's book under the remapper's renaming and follows the iterator command by command;
  \<open>Multi_Prologue\<close> plays the prologue against the abstract venue; \<open>Multi_Generation_Properties\<close> puts them together:
  the constructor returns, the prologue has the outcomes its intents name and leaves no order behind, and the router
  accepts exactly what the generator meant to be valid.

  \<^item> \<open>Multi_Workload_Files\<close> models \<open>multi_workload.py\<close> and the dictionary form of specifications;
  \<open>Multi_Workload_Properties\<close> shows that commands, specifications and manifests survive their dictionary forms.
  \<open>Multi_Differential\<close> models \<open>multi_differential.py\<close>.  \<open>Reinterleaving\<close> proves its metamorphic check: the price-time
  specification uses sequence numbers only as stamps, so a router over independent instruments is a family of local
  machines (\<open>keyed_run\<close>), each driven by the commands of its own instrument; the shuffle keeps their order, so both
  captures have the same normalized books and answers.

  \<^item> Bounds.  Evidence theorems hold for workloads of at most 2^32 - 7 commands: an event index must stay
  below 2^32, and a batch has at most six more events than the book has orders.  The generator's theorem on
  intents asks for a specification whose prices stay inside the 64-bit domain (\<open>tame\<close>) and for a run short
  of 2^62 commands, so that the sums of the shadow book stay representable.  Its multi-instrument counterpart asks for
  tame streams with at most 2^61 commands in all, which leaves two fresh identifiers for every command below 2^64
  (\<open>multi_tame\<close>), and for a venue-wide capacity of at least the sum of the books' capacities (\<open>roomy\<close>): a stream knows
  only its own book, so a tighter venue may refuse what the stream expects to be accepted.  The loop that takes the
  prologue out of the budgets is a partial function, proved to return.  The rejection loop of
  \<open>randbelow\<close> is a function whose termination proof rests on the generator passing through the state zero.  Every
  other loop is a total function.

  \<^item> Not modelled.  Paths, temporary files, subprocesses, threads and time limits; the text of JSON records and
  documents, whose parsed values the definitions take; \<open>multi_native.py\<close>, the multi-instrument counterpart of \<open>native.py\<close>;
  \<open>campaigns.py\<close>, \<open>reporting.py\<close> and \<open>cli.py\<close>, which drive files and processes; \<open>engine.py\<close>, a facade over
  the compiled extension; \<open>performance/\<close> and \<open>ui/\<close>, benchmark campaigns and presentation; the C++ sources,
  whose role the native records of the comparison have here.
\<close>

end
